(* ===== verification/Mesa_Prelude.thy ===== *)
theory Mesa_Prelude
  imports Main "HOL-Library.Word" "HOL-Library.Monad_Syntax"
begin

unbundle bit_operations_syntax

text \<open>
  Shared vocabulary of the development: the C integer types as words, the modelling of
  \<open>assert\<close> as a partial computation, byte serialisation of little-endian integers, the
  word and list lemmas the components use, and the interface of a state machine with an
  inductive invariant, which several components instantiate.
\<close>

section \<open>C integers\<close>

type_synonym u8 = "8 word"
type_synonym u16 = "16 word"
type_synonym u32 = "32 word"
type_synonym u64 = "64 word"

named_theorems word_nat_simps \<open>reading word arithmetic as arithmetic on nat\<close>

lemma unat_lt_64: "unat (a :: u64) < 18446744073709551616"
  using unsigned_less [of a] by simp

lemma unat_le_64: "unat (a :: u64) \<le> 18446744073709551616"
  using unat_lt_64 [of a] by linarith

lemma unat_lt_32: "unat (a :: u32) < 4294967296"
  using unsigned_less [of a] by simp

lemma unat_add_u64:
  "unat a + unat b < 18446744073709551616 \<Longrightarrow> unat (a + b :: u64) = unat a + unat b"
  using unat_add_lem [of a b] by simp

lemma unat_add_wrap_u64:
  "unat (a + b :: u64) = (unat a + unat b) mod 18446744073709551616"
  by (simp add: unat_word_ariths)

lemma mod_add_if:
  fixes a b n :: nat
  assumes "a < n" and "b < n"
  shows "(a + b) mod n = (if a + b < n then a + b else a + b - n)"
proof (cases "a + b < n")
  case False
  then have "(a + b) mod n = (a + b - n) mod n" by (simp add: le_mod_geq)
  moreover have "a + b - n < n" using assms by linarith
  ultimately show ?thesis using False by simp
qed simp

lemma unat_add_if_u64:
  "unat (a + b :: u64) =
     (if unat a + unat b < 18446744073709551616 then unat a + unat b
      else unat a + unat b - 18446744073709551616)"
  unfolding unat_add_wrap_u64 by (rule mod_add_if) (rule unat_lt_64)+

lemma unat_sub_u64: "unat b \<le> unat a \<Longrightarrow> unat (a - b :: u64) = unat a - unat b"
  by (simp add: unat_sub word_le_nat_alt)

lemma unat_pos_u64: "0 < (a :: u64) \<longleftrightarrow> 0 < unat a"
  by (simp add: word_less_nat_alt)

lemma unat_eq_u64: "(a :: u64) = b \<longleftrightarrow> unat a = unat b"
  by (simp add: word_unat_eq_iff)

lemma less_plus_one_u32:
  assumes "(h :: u32) \<noteq> - 1"
  shows "h < h + 1"
proof -
  have "unat h \<noteq> unat (- 1 :: u32)" using assms by (simp only: word_unat_eq_iff not_False_eq_True)
  then have "unat h + 1 < 4294967296" using unat_lt_32 [of h] by (simp add: unsigned_minus_1_eq_mask mask_eq_exp_minus_1)
  then show ?thesis by (simp add: word_less_nat_alt unat_word_ariths)
qed

declare word_less_nat_alt [word_nat_simps] word_le_nat_alt [word_nat_simps]

section \<open>Alignment\<close>

lemma align_down_greatest: "k dvd a \<Longrightarrow> a \<le> b \<Longrightarrow> (a :: nat) \<le> b div k * k"
  by (metis div_le_mono dvd_div_mult_self mult_le_mono1)

lemma align_up_eq:
  fixes a k :: nat
  assumes "0 < k"
  shows "a + (k - a mod k) = (a div k + 1) * k"
proof -
  have "a mod k < k" using assms by simp
  then show ?thesis using div_mult_mod_eq [of a k] unfolding distrib_right by linarith
qed

lemma align_up_dvd: "0 < k \<Longrightarrow> k dvd a + (k - a mod k)" for a k :: nat
  unfolding align_up_eq by (rule dvd_triv_right)

lemma align_up_least:
  fixes a b k :: nat
  assumes "k dvd b" and "a \<le> b" and "a mod k \<noteq> 0" and "0 < k"
  shows "a + (k - a mod k) \<le> b"
proof -
  obtain c where c: "b = c * k" using assms(1) by (metis dvd_div_mult_self)
  have "a \<noteq> b" using assms(3) c by auto
  with assms(2) c have "a < c * k" by simp
  then have "a div k < c" by (simp add: less_mult_imp_div_less)
  then have "(a div k + 1) * k \<le> c * k" by (intro mult_le_mono1) simp
  then show ?thesis unfolding align_up_eq [OF assms(4)] c .
qed

lemma unat_align_down:
  "unat (a div k * k :: u64) = unat a div unat k * unat k"
proof -
  have "unat a div unat k * unat k \<le> unat a" by simp
  then have "unat (a div k) * unat k < 2 ^ LENGTH(64)"
    using le_less_trans [OF _ unat_lt_64 [of a]] by (simp add: unat_div)
  then have "unat (a div k * k) = unat (a div k) * unat k"
    by (simp only: unat_mult_lem)
  then show ?thesis by (simp add: unat_div)
qed

lemma and_not_mask_align:
  fixes x :: u64
  assumes "n < 64"
  shows "x AND NOT (2 ^ n - 1) = x div 2 ^ n * 2 ^ n"
proof -
  have "x AND NOT (mask n) = push_bit n (drop_bit n x)"
    by (rule bit_word_eqI) (auto simp: bit_simps)
  then show ?thesis by (simp add: mask_eq_exp_minus_1 drop_bit_eq_div push_bit_eq_mult)
qed

text \<open>Powers of two, as the source tests for them.\<close>

lemma and_pred_zero_nat: "0 < (n :: nat) \<Longrightarrow> n AND (n - 1) = 0 \<Longrightarrow> \<exists>k. n = 2 ^ k"
proof (induction n rule: less_induct)
  case (less n)
  have "drop_bit 1 n AND drop_bit 1 (n - 1) = 0" unfolding drop_bit_and [symmetric] less.prems(2) by simp
  then have half: "n div 2 AND (n - 1) div 2 = 0" by (simp add: drop_bit_eq_div)
  show ?case
  proof (cases "even n")
    case True
    then obtain m where m: "n = 2 * m" by blast
    then have m0: "0 < m" using less.prems(1) by simp
    have "(n - 1) div 2 = m - 1" "n div 2 = m" using m m0 by linarith+
    then have "m AND (m - 1) = 0" "0 < m" using half m0 by simp_all
    then obtain k where "m = 2 ^ k" using less.IH [of m] m by auto
    then have "n = 2 ^ Suc k" using m by simp
    then show ?thesis ..
  next
    case False
    then obtain m where m: "n = 2 * m + 1" by (elim oddE)
    have "(n - 1) div 2 = m" "n div 2 = m" using m by linarith+
    then have "n = 1" using half m by simp
    then have "n = 2 ^ 0" by simp
    then show ?thesis ..
  qed
qed

lemma and_pred_zero_word:
  assumes "(a :: u64) \<noteq> 0" and "a AND (a - 1) = 0"
  obtains k where "a = 2 ^ k" "k < 64" "unat a = 2 ^ k"
proof -
  have p: "0 < unat a" using assms(1) by (simp add: unat_gt_0)
  then have "unat (a - 1) = unat a - 1" using assms(1) by (simp add: unat_minus_one)
  then have "unat a AND (unat a - 1) = 0" using arg_cong [OF assms(2), of unat] by (simp add: unsigned_and_eq)
  then obtain k where k: "unat a = 2 ^ k" using and_pred_zero_nat [OF p] by blast
  have "k < 64"
  proof (rule ccontr)
    assume "\<not> k < 64"
    then have "(2 :: nat) ^ 64 \<le> unat a" unfolding k by (intro power_increasing) simp_all
    then show False using unat_lt_64 [of a] by simp
  qed
  moreover have "of_nat (unat a) = (of_nat (2 ^ k) :: u64)" unfolding k ..
  then have "a = 2 ^ k" by simp
  ultimately show thesis using that k by blast
qed

lemma unat_power_u64:
  assumes "n < 64"
  shows "unat (2 ^ n :: u64) = 2 ^ n"
proof -
  have "unat (of_nat (2 ^ n) :: u64) = 2 ^ n"
    using power_strict_increasing [of n 64 "2 :: nat"] assms
    by (simp add: unsigned_of_nat take_bit_nat_eq_self del: of_nat_power)
  then show ?thesis by (simp only: of_nat_power of_nat_numeral)
qed

lemma align_bounds:
  fixes a k :: nat
  assumes "0 < k"
  shows "a div k * k \<le> a" "a < a div k * k + k" "a \<le> (a + (k - 1)) div k * k" "(a + (k - 1)) div k * k < a + k"
proof -
  have "a mod k < k" "(a + (k - 1)) mod k < k" using assms by simp_all
  then show "a div k * k \<le> a" "a < a div k * k + k" "a \<le> (a + (k - 1)) div k * k" "(a + (k - 1)) div k * k < a + k"
    using div_mult_mod_eq [of a k] div_mult_mod_eq [of "a + (k - 1)" k] assms by linarith+
qed

section \<open>Little-endian integers in memory\<close>

fun le_value :: "u8 list \<Rightarrow> nat" where
  "le_value [] = 0"
| "le_value (b # bs) = unat b + 256 * le_value bs"

fun le_bytes :: "nat \<Rightarrow> nat \<Rightarrow> u8 list" where
  "le_bytes 0 v = []"
| "le_bytes (Suc n) v = of_nat (v mod 256) # le_bytes n (v div 256)"

lemma length_le_bytes [simp]: "length (le_bytes n v) = n"
  by (induction n arbitrary: v) simp_all

lemma le_value_bytes: "le_value (le_bytes n v) = v mod 256 ^ n"
proof (induction n arbitrary: v)
  case (Suc n)
  have "unat (of_nat (v mod 256) :: u8) = v mod 256" by (simp add: unat_of_nat take_bit_eq_mod)
  then show ?case using Suc by (simp add: mod_mult2_eq)
qed simp

lemma le_value_less: "le_value bs < 256 ^ length bs"
proof (induction bs)
  case (Cons b bs)
  have "unat b < 256" using unsigned_less [of b] by simp
  moreover have "256 * Suc (le_value bs) \<le> 256 * 256 ^ length bs" using Cons by simp
  ultimately show ?case by simp
qed simp

lemma le_bytes_value: "le_bytes (length bs) (le_value bs) = bs"
proof (induction bs)
  case (Cons b bs)
  have "unat b < 256" using unsigned_less [of b] by simp
  then show ?case using Cons by simp
qed simp

text \<open>Reading \<open>n\<close> bytes at an offset of a buffer; \<open>None\<close> is a read outside the buffer.\<close>

definition read_le :: "u8 list \<Rightarrow> nat \<Rightarrow> nat \<Rightarrow> nat option" where
  "read_le buf off n = (if off + n \<le> length buf then Some (le_value (take n (drop off buf))) else None)"

lemma read_le_in: "off + n \<le> length buf \<Longrightarrow> \<exists>v. read_le buf off n = Some v \<and> v < 256 ^ n"
  using le_value_less [of "take n (drop off buf)"] by (simp add: read_le_def)

lemma read_le_append:
  "read_le (xs @ le_bytes n v @ ys) (length xs) n = Some (v mod 256 ^ n)"
  by (simp add: read_le_def le_value_bytes)

section \<open>Assertions\<close>

text \<open>
  \<open>assert (b)\<close> of C. A computation that contains assertions returns an option; \<open>None\<close>
  is the failed assertion, which stops the program.
\<close>

definition c_assert :: "bool \<Rightarrow> unit option" where
  "c_assert b = (if b then Some () else None)"

lemma c_assert_True [simp]: "b \<Longrightarrow> c_assert b = Some ()"
  by (simp add: c_assert_def)

lemma c_assert_False [simp]: "\<not> b \<Longrightarrow> c_assert b = None"
  by (simp add: c_assert_def)

lemma c_assert_eq_Some: "c_assert b = Some u \<longleftrightarrow> b"
  by (simp add: c_assert_def)

section \<open>State machines with an inductive invariant\<close>

text \<open>
  The contract of a component whose operations are steps on a state: the initial state
  satisfies the invariant and every step keeps it. What the client gets is that every state
  reached by any run satisfies it.
\<close>

inductive reach :: "'s \<Rightarrow> ('s \<Rightarrow> 's \<Rightarrow> bool) \<Rightarrow> 's \<Rightarrow> bool" for s0 step where
  reach_init: "reach s0 step s0"
| reach_step: "reach s0 step s \<Longrightarrow> step s t \<Longrightarrow> reach s0 step t"

lemma reach_trans: "reach b step c \<Longrightarrow> reach a step b \<Longrightarrow> reach a step c"
  by (induction rule: reach.induct) (auto intro: reach.intros)

locale invariant_machine =
  fixes init :: 's
    and step :: "'s \<Rightarrow> 's \<Rightarrow> bool"
    and inv :: "'s \<Rightarrow> bool"
  assumes init_inv: "inv init"
    and step_inv: "step s t \<Longrightarrow> inv s \<Longrightarrow> inv t"
begin

lemma reach_inv: "reach init step s \<Longrightarrow> inv s"
  by (induction rule: reach.induct) (auto intro: init_inv step_inv)

lemma reach_closed: "reach init step s \<Longrightarrow> step\<^sup>*\<^sup>* s t \<Longrightarrow> inv t"
proof -
  assume r: "reach init step s" and st: "step\<^sup>*\<^sup>* s t"
  from st r have "reach init step t"
    by (induction rule: rtranclp_induct) (auto intro: reach.reach_step)
  then show "inv t" by (rule reach_inv)
qed

end

section \<open>Refinement of a bounded run\<close>

text \<open>
  The contract of a container whose operations implement those of an abstract value as long as
  the run is not longer than a limit (a counter or a size is a machine integer): every
  operation succeeds, keeps the invariant and commutes with the abstraction.
\<close>

fun run_ops :: "('o \<Rightarrow> 's \<Rightarrow> 's option) \<Rightarrow> 'o list \<Rightarrow> 's \<Rightarrow> 's option" where
  "run_ops step [] s = Some s"
| "run_ops step (x # xs) s = do { s' \<leftarrow> step x s; run_ops step xs s' }"

locale bounded_refinement =
  fixes step :: "'o \<Rightarrow> 's \<Rightarrow> 's option"
    and spec :: "'o \<Rightarrow> 'a \<Rightarrow> 'a"
    and abs :: "'s \<Rightarrow> 'a"
    and inv :: "nat \<Rightarrow> 's \<Rightarrow> bool"
    and allowed :: "'o \<Rightarrow> bool"
    and limit :: nat
  assumes step_ok: "inv n s \<Longrightarrow> n < limit \<Longrightarrow> allowed x \<Longrightarrow>
    \<exists>s'. step x s = Some s' \<and> inv (Suc n) s' \<and> abs s' = spec x (abs s)"
begin

lemma run_refines:
  "inv n s \<Longrightarrow> n + length xs \<le> limit \<Longrightarrow> list_all allowed xs \<Longrightarrow>
   \<exists>s'. run_ops step xs s = Some s' \<and> inv (n + length xs) s' \<and> abs s' = fold spec xs (abs s)"
proof (induction xs arbitrary: n s)
  case (Cons x xs)
  obtain s' where s': "step x s = Some s'" "inv (Suc n) s'" "abs s' = spec x (abs s)"
    using step_ok [OF Cons.prems(1), of x] Cons.prems(2,3) by auto
  then show ?case using Cons.IH [OF s'(2)] Cons.prems(2,3) by simp
qed simp

lemma run_refines_init:
  "inv 0 s \<Longrightarrow> length xs \<le> limit \<Longrightarrow> list_all allowed xs \<Longrightarrow>
   \<exists>s'. run_ops step xs s = Some s' \<and> inv (length xs) s' \<and> abs s' = fold spec xs (abs s)"
  using run_refines [of 0 s xs] by simp

end

section \<open>Refinement of a run with results\<close>

text \<open>
  The contract of a container whose operations return values or fail: each of them agrees with
  the operation on the abstract value, on the result and on failing. What the client gets is that
  every run does.
\<close>

fun run_steps :: "('o \<Rightarrow> 's \<Rightarrow> ('r \<times> 's) option) \<Rightarrow> 'o list \<Rightarrow> 's \<Rightarrow> ('r list \<times> 's) option" where
  "run_steps step [] s = Some ([], s)"
| "run_steps step (op # ops) s = do { (x, s) \<leftarrow> step op s; (xs, s) \<leftarrow> run_steps step ops s; Some (x # xs, s) }"

locale run_refinement =
  fixes step :: "'o \<Rightarrow> 's \<Rightarrow> ('r \<times> 's) option"
    and spec :: "'o \<Rightarrow> 'a \<Rightarrow> ('r \<times> 'a) option"
    and absf :: "'s \<Rightarrow> 'a"
    and inv :: "'s \<Rightarrow> bool"
    and allowed :: "'o \<Rightarrow> bool"
  assumes step_refines: "inv s \<Longrightarrow> allowed x \<Longrightarrow> case step x s of None \<Rightarrow> spec x (absf s) = None
    | Some (r, s') \<Rightarrow> spec x (absf s) = Some (r, absf s') \<and> inv s'"
begin

lemma steps_refine:
  "inv s \<Longrightarrow> list_all allowed xs \<Longrightarrow> map_option (map_prod id absf) (run_steps step xs s) = run_steps spec xs (absf s)"
proof (induction xs arbitrary: s)
  case (Cons x xs)
  then have r: "case step x s of None \<Rightarrow> spec x (absf s) = None | Some (r, s') \<Rightarrow> spec x (absf s) = Some (r, absf s') \<and> inv s'"
    using step_refines [of s x] by simp
  show ?case
  proof (cases "step x s")
    case (Some rs)
    obtain y s' where rs: "rs = (y, s')" by fastforce
    then have d: "spec x (absf s) = Some (y, absf s')" "inv s'" using r Some by auto
    show ?thesis using Cons.IH [OF d(2)] Cons.prems(2) d Some rs by (cases "run_steps step xs s'") (auto dest: sym)
  qed (use r in simp)
qed simp

lemma steps_keep_inv: "inv s \<Longrightarrow> list_all allowed xs \<Longrightarrow> run_steps step xs s = Some (rs, s') \<Longrightarrow> inv s'"
proof (induction xs arbitrary: s rs)
  case (Cons x xs)
  obtain y t where t: "step x s = Some (y, t)" using Cons.prems(3) by (auto split: bind_splits)
  then have "inv t" using step_refines [of s x] Cons.prems(1,2) by simp
  then show ?case using Cons.IH [of t] Cons.prems(2,3) t by (auto split: bind_splits)
qed simp

end

section \<open>Signed 32-bit values\<close>

text \<open>
  \<open>int32 i\<close> is what a C \<open>int\<close> or \<open>int32_t\<close> holds after the integer \<open>i\<close> was stored in it: a
  conversion keeps the low 32 bits and reads them as two's complement, and so do the atomic
  increments and decrements.
\<close>

definition int32 :: "int \<Rightarrow> int" where
  "int32 i = signed_take_bit 31 i"

lemma int32_id [simp]: "- (2 ^ 31) \<le> i \<Longrightarrow> i < 2 ^ 31 \<Longrightarrow> int32 i = i"
  by (simp add: int32_def signed_take_bit_int_eq_self)

lemma int32_max: "int32 2147483648 = - 2147483648"
  by (simp add: int32_def signed_take_bit_eq_take_bit_minus take_bit_eq_mod bit_iff_odd_drop_bit drop_bit_eq_div)

end
