(* ===== verification/Vma.thy ===== *)
theory Vma
  imports Mesa_Prelude
begin

text \<open>
  The virtual-address heap of \<open>src/util/vma.c\<close>: a list of free holes, ordered from high to
  low addresses, with the operations that carve ranges out of it and give them back. Offsets
  and sizes are 64-bit words and every sum is the wrapping one of the source; a hole may end
  at exactly \<open>2 ^ 64\<close>, where its end wraps to 0. Assertions are part of the model: an
  operation returns \<open>None\<close> when one of them fails. \<open>calloc\<close> of a new hole is taken to
  succeed, as the source does not test it.

  The theorems say that the list is a faithful and canonical representation of a set of free
  addresses (\<open>free_set\<close>): allocation takes exactly one aligned range out of it, freeing
  puts one back, freeing what is already free is caught by the assertions, and allocation
  followed by freeing restores the heap.
\<close>

section \<open>Data\<close>

record util_vma_hole =
  h_offset :: u64
  h_size :: u64

record util_vma_heap =
  holes :: "util_vma_hole list"
  free_size :: u64
  alloc_high :: bool
  nospan_shift :: nat

section \<open>Operations\<close>

fun validate_holes :: "u64 \<Rightarrow> bool \<Rightarrow> util_vma_hole list \<Rightarrow> bool" where
  "validate_holes prev_offset topmost [] = True"
| "validate_holes prev_offset topmost (hole # hs) =
     (0 < h_offset hole \<and> 0 < h_size hole \<and>
      (if topmost
       then h_size hole + h_offset hole = 0 \<or> h_offset hole < h_size hole + h_offset hole
       else h_offset hole < h_size hole + h_offset hole \<and>
            h_size hole + h_offset hole < prev_offset) \<and>
      validate_holes (h_offset hole) False hs)"

definition util_vma_heap_validate :: "util_vma_heap \<Rightarrow> bool" where
  "util_vma_heap_validate heap \<longleftrightarrow>
     validate_holes 0 True (holes heap) \<and>
     fold (\<lambda>hole acc. acc + h_size hole) (holes heap) 0 = free_size heap"

definition util_vma_hole_alloc ::
  "util_vma_heap \<Rightarrow> nat \<Rightarrow> u64 \<Rightarrow> u64 \<Rightarrow> util_vma_heap option" where
  "util_vma_hole_alloc heap i offset sz =
     (let hs = holes heap; hole = hs ! i;
          commit = (\<lambda>hs'. heap\<lparr>holes := hs', free_size := free_size heap - sz\<rparr>)
      in do {
        c_assert (h_offset hole \<le> offset);
        c_assert (offset - h_offset hole + sz \<le> h_size hole);
        if offset = h_offset hole \<and> sz = h_size hole
        then Some (commit (take i hs @ drop (Suc i) hs))
        else do {
          c_assert (offset - h_offset hole \<le> h_size hole - sz);
          let waste = (h_size hole - sz) - (offset - h_offset hole);
          if waste = 0
          then Some (commit (hs[i := hole\<lparr>h_size := h_size hole - sz\<rparr>]))
          else if offset = h_offset hole
          then Some (commit (hs[i := hole\<lparr>h_offset := h_offset hole + sz,
                                      h_size := h_size hole - sz\<rparr>]))
          else
            let high_hole = \<lparr>h_offset = offset + sz, h_size = waste\<rparr>;
                low = hole\<lparr>h_size := offset - h_offset hole\<rparr>
            in Some (commit (take i hs @ [high_hole, low] @ drop (Suc i) hs))
        }
      })"

text \<open>
  The body of the two search loops for one hole: \<open>None\<close> when an assertion fails,
  \<open>Some None\<close> for \<open>continue\<close>, \<open>Some (Some offset)\<close> when the hole serves the request.
\<close>

definition alloc_high_try ::
  "util_vma_heap \<Rightarrow> util_vma_hole \<Rightarrow> u64 \<Rightarrow> u64 \<Rightarrow> u64 option option" where
  "alloc_high_try heap hole sz alignment =
     (if h_size hole < sz then Some None
      else let offset = (h_size hole - sz) + h_offset hole;
               fin = (\<lambda>offset.
                 let offset = (offset div alignment) * alignment
                 in Some (if offset < h_offset hole then None else Some offset))
           in if nospan_shift heap \<noteq> 0
              then let e = offset + sz - 1
                   in if drop_bit (nospan_shift heap) e \<noteq> drop_bit (nospan_shift heap) offset
                      then do {
                        c_assert (sz \<le> e AND NOT (mask (nospan_shift heap)));
                        let offset = offset - sz;
                        if offset < h_offset hole then Some None else fin offset
                      }
                      else fin offset
              else fin offset)"

definition alloc_low_try ::
  "util_vma_heap \<Rightarrow> util_vma_hole \<Rightarrow> u64 \<Rightarrow> u64 \<Rightarrow> u64 option option" where
  "alloc_low_try heap hole sz alignment =
     (if h_size hole < sz then Some None
      else let offset = h_offset hole;
               misalign = offset mod alignment;
               pad = alignment - misalign
           in if misalign \<noteq> 0 \<and> h_size hole - sz < pad then Some None
              else let offset = (if misalign \<noteq> 0 then offset + pad else offset)
                   in if nospan_shift heap \<noteq> 0
                      then let e = offset + sz - 1
                           in if drop_bit (nospan_shift heap) e \<noteq>
                                 drop_bit (nospan_shift heap) offset
                              then let offset = e AND NOT (mask (nospan_shift heap))
                                   in if h_offset hole + h_size hole < offset + sz
                                      then Some None else Some (Some offset)
                              else Some (Some offset)
                      else Some (Some offset))"

fun alloc_loop ::
  "(util_vma_hole \<Rightarrow> u64 option option) \<Rightarrow> util_vma_heap \<Rightarrow> u64 \<Rightarrow> nat list \<Rightarrow>
   (u64 \<times> util_vma_heap) option" where
  "alloc_loop attempt heap sz [] = Some (0, heap)"
| "alloc_loop attempt heap sz (i # is) =
     (case attempt (holes heap ! i) of
        None \<Rightarrow> None
      | Some None \<Rightarrow> alloc_loop attempt heap sz is
      | Some (Some offset) \<Rightarrow> do {
          heap' \<leftarrow> util_vma_hole_alloc heap i offset sz;
          c_assert (util_vma_heap_validate heap');
          Some (offset, heap')
        })"

definition align64 :: "u64 \<Rightarrow> u64 \<Rightarrow> u64 option" where
  "align64 value alignment = do {
     c_assert (alignment \<noteq> 0 \<and> alignment AND (alignment - 1) = 0);
     Some ((value + alignment - 1) AND NOT (alignment - 1))
   }"

definition util_vma_heap_alloc ::
  "util_vma_heap \<Rightarrow> u64 \<Rightarrow> u64 \<Rightarrow> (u64 \<times> util_vma_heap) option" where
  "util_vma_heap_alloc heap sz alignment = do {
     c_assert (0 < sz);
     c_assert (0 < alignment);
     c_assert (util_vma_heap_validate heap);
     c_assert (nospan_shift heap = 0 \<or>
               align64 (push_bit (nospan_shift heap) 1) alignment =
                 Some (push_bit (nospan_shift heap) 1));
     if alloc_high heap
     then alloc_loop (\<lambda>hole. alloc_high_try heap hole sz alignment) heap sz
            [0..<length (holes heap)]
     else alloc_loop (\<lambda>hole. alloc_low_try heap hole sz alignment) heap sz
            (rev [0..<length (holes heap)])
   }"

fun alloc_addr_loop ::
  "util_vma_heap \<Rightarrow> u64 \<Rightarrow> u64 \<Rightarrow> nat list \<Rightarrow> (bool \<times> util_vma_heap) option" where
  "alloc_addr_loop heap offset sz [] = Some (False, heap)"
| "alloc_addr_loop heap offset sz (i # is) =
     (let hole = holes heap ! i
      in if offset < h_offset hole then alloc_addr_loop heap offset sz is
         else do {
           c_assert (h_offset hole \<le> offset);
           if h_size hole < offset - h_offset hole + sz
           then Some (False, heap)
           else do {
             heap' \<leftarrow> util_vma_hole_alloc heap i offset sz;
             Some (True, heap')
           }
         })"

definition util_vma_heap_alloc_addr ::
  "util_vma_heap \<Rightarrow> u64 \<Rightarrow> u64 \<Rightarrow> (bool \<times> util_vma_heap) option" where
  "util_vma_heap_alloc_addr heap offset sz = do {
     c_assert (0 < offset);
     c_assert (0 < sz);
     c_assert (offset + sz = 0 \<or> offset < offset + sz);
     alloc_addr_loop heap offset sz [0..<length (holes heap)]
   }"

text \<open>
  The holes above the freed range are the longest prefix whose offsets are greater than the
  freed offset; \<open>high_hole\<close> is its last element, \<open>low_hole\<close> the hole after it. The new list
  of holes merges the freed range with the adjacent ones.
\<close>

definition merge_holes ::
  "util_vma_hole list \<Rightarrow> util_vma_hole list \<Rightarrow> u64 \<Rightarrow> u64 \<Rightarrow> util_vma_hole list" where
  "merge_holes highs lows offset sz =
     (let high_adjacent = (highs \<noteq> [] \<and> offset + sz = h_offset (last highs));
          low_adjacent = (lows \<noteq> [] \<and> h_offset (hd lows) + h_size (hd lows) = offset)
      in if low_adjacent \<and> high_adjacent
         then butlast highs @
              (hd lows)\<lparr>h_size := h_size (hd lows) + (sz + h_size (last highs))\<rparr> # tl lows
         else if low_adjacent
         then highs @ (hd lows)\<lparr>h_size := h_size (hd lows) + sz\<rparr> # tl lows
         else if high_adjacent
         then butlast highs @
              (last highs)\<lparr>h_offset := offset, h_size := h_size (last highs) + sz\<rparr> # lows
         else highs @ \<lparr>h_offset = offset, h_size = sz\<rparr> # lows)"

definition util_vma_heap_free ::
  "util_vma_heap \<Rightarrow> u64 \<Rightarrow> u64 \<Rightarrow> util_vma_heap option" where
  "util_vma_heap_free heap offset sz = do {
     c_assert (0 < offset);
     c_assert (0 < sz);
     c_assert (offset + sz = 0 \<or> offset < offset + sz);
     c_assert (util_vma_heap_validate heap);
     let highs = takeWhile (\<lambda>hole. \<not> h_offset hole \<le> offset) (holes heap);
     let lows = dropWhile (\<lambda>hole. \<not> h_offset hole \<le> offset) (holes heap);
     c_assert (highs \<noteq> [] \<longrightarrow> offset + sz \<le> h_offset (last highs));
     c_assert (lows \<noteq> [] \<longrightarrow> h_offset (hd lows) < h_offset (hd lows) + h_size (hd lows));
     c_assert (lows \<noteq> [] \<longrightarrow> h_offset (hd lows) + h_size (hd lows) \<le> offset);
     let heap' = heap\<lparr>holes := merge_holes highs lows offset sz,
                      free_size := free_size heap + sz\<rparr>;
     c_assert (util_vma_heap_validate heap');
     Some heap'
   }"

definition util_vma_heap_init :: "u64 \<Rightarrow> u64 \<Rightarrow> util_vma_heap option" where
  "util_vma_heap_init start sz =
     (let heap = \<lparr>holes = [], free_size = 0, alloc_high = False, nospan_shift = 0\<rparr>
      in do {
        heap \<leftarrow> (if 0 < sz then util_vma_heap_free heap start sz else Some heap);
        Some (heap\<lparr>alloc_high := True, nospan_shift := 0\<rparr>)
      })"

definition util_vma_heap_get_max_free_continuous_size :: "util_vma_heap \<Rightarrow> u64" where
  "util_vma_heap_get_max_free_continuous_size heap =
     fold (\<lambda>hole max_size. max max_size (h_size hole)) (holes heap) 0"


section \<open>The set of free addresses\<close>

definition hole_lo :: "util_vma_hole \<Rightarrow> nat" where
  "hole_lo h = unat (h_offset h)"

definition hole_hi :: "util_vma_hole \<Rightarrow> nat" where
  "hole_hi h = unat (h_offset h) + unat (h_size h)"

definition hole_ok :: "util_vma_hole \<Rightarrow> bool" where
  "hole_ok h \<longleftrightarrow> 0 < hole_lo h \<and> hole_lo h < hole_hi h \<and> hole_hi h \<le> 2 ^ 64"

definition hole_addrs :: "util_vma_hole \<Rightarrow> nat set" where
  "hole_addrs h = {hole_lo h..<hole_hi h}"

definition holes_ok :: "util_vma_hole list \<Rightarrow> bool" where
  "holes_ok hs \<longleftrightarrow> list_all hole_ok hs \<and> sorted_wrt (\<lambda>a b. hole_hi b < hole_lo a) hs"

definition holes_set :: "util_vma_hole list \<Rightarrow> nat set" where
  "holes_set hs = \<Union> (hole_addrs ` set hs)"

definition holes_sum :: "util_vma_hole list \<Rightarrow> nat" where
  "holes_sum hs = sum_list (map (\<lambda>h. unat (h_size h)) hs)"

definition free_set :: "util_vma_heap \<Rightarrow> nat set" where
  "free_set heap = holes_set (holes heap)"

definition vma_inv :: "util_vma_heap \<Rightarrow> bool" where
  "vma_inv heap \<longleftrightarrow> holes_ok (holes heap) \<and> unat (free_size heap) = holes_sum (holes heap)"

definition range_of :: "u64 \<Rightarrow> u64 \<Rightarrow> nat set" where
  "range_of offset sz = {unat offset..<unat offset + unat sz}"

lemmas hole_defs = hole_lo_def hole_hi_def hole_ok_def hole_addrs_def

lemma holes_ok_simps [simp]:
  "holes_ok []"
  "holes_ok (h # hs) \<longleftrightarrow> hole_ok h \<and> (\<forall>h' \<in> set hs. hole_hi h' < hole_lo h) \<and> holes_ok hs"
  by (auto simp: holes_ok_def)

lemma holes_ok_append:
  "holes_ok (xs @ ys) \<longleftrightarrow> holes_ok xs \<and> holes_ok ys \<and>
     (\<forall>x \<in> set xs. \<forall>y \<in> set ys. hole_hi y < hole_lo x)"
  by (auto simp: holes_ok_def sorted_wrt_append)

lemma holes_okD: "holes_ok hs \<Longrightarrow> h \<in> set hs \<Longrightarrow> hole_ok h"
  by (auto simp: holes_ok_def list_all_iff)

lemma holes_set_simps [simp]:
  "holes_set [] = {}"
  "holes_set (h # hs) = hole_addrs h \<union> holes_set hs"
  "holes_set (xs @ ys) = holes_set xs \<union> holes_set ys"
  by (auto simp: holes_set_def)

lemma holes_sum_simps [simp]:
  "holes_sum [] = 0"
  "holes_sum (h # hs) = unat (h_size h) + holes_sum hs"
  "holes_sum (xs @ ys) = holes_sum xs + holes_sum ys"
  by (auto simp: holes_sum_def)

lemma holes_set_bound: "holes_ok hs \<Longrightarrow> a \<in> holes_set hs \<Longrightarrow> \<exists>h \<in> set hs. hole_lo h \<le> a \<and> a < hole_hi h"
  by (auto simp: holes_set_def hole_addrs_def)

lemma holes_sum_less:
  "holes_ok hs \<Longrightarrow> (\<And>h. h \<in> set hs \<Longrightarrow> hole_hi h \<le> m) \<Longrightarrow> 0 < m \<Longrightarrow> holes_sum hs < m"
proof (induction hs arbitrary: m)
  case Nil
  then show ?case by simp
next
  case (Cons h hs)
  have "holes_sum hs < hole_lo h"
    using Cons.prems(1) by (intro Cons.IH) (auto simp: hole_ok_def intro: less_imp_le)
  moreover have "hole_hi h \<le> m" using Cons.prems(2) by simp
  ultimately show ?case by (simp add: hole_lo_def hole_hi_def)
qed

lemma holes_sum_less_64: "holes_ok hs \<Longrightarrow> holes_sum hs < 18446744073709551616"
  by (rule holes_sum_less) (auto dest: holes_okD simp: hole_ok_def)

section \<open>The run-time check is the invariant\<close>

lemma end_above_iff:
  assumes "0 < (s :: u64)"
  shows "o' < s + o' \<longleftrightarrow> unat o' + unat s < 18446744073709551616"
  using assms unat_lt_64 [of s] unat_lt_64 [of o']
  by (auto simp: word_less_nat_alt unat_add_if_u64)

lemma end_zero_iff:
  assumes "0 < (s :: u64)"
  shows "s + o' = 0 \<longleftrightarrow> unat o' + unat s = 18446744073709551616"
proof -
  have "s + o' = 0 \<longleftrightarrow> unat (s + o') = 0"
    by (simp add: unat_eq_u64)
  also have "\<dots> \<longleftrightarrow> unat o' + unat s = 18446744073709551616"
    using assms unat_lt_64 [of s] unat_lt_64 [of o']
    by (auto simp: word_less_nat_alt unat_add_if_u64)
  finally show ?thesis .
qed

lemma end_ok_iff:
  "0 < (s :: u64) \<Longrightarrow> (s + o' = 0 \<or> o' < s + o') \<longleftrightarrow> unat o' + unat s \<le> 18446744073709551616"
  by (auto simp: end_zero_iff end_above_iff)

lemma validate_holes_below:
  "validate_holes prev False hs \<longleftrightarrow>
     holes_ok hs \<and> (\<forall>h \<in> set hs. hole_hi h < unat prev)"
proof (induction hs arbitrary: prev)
  case Nil
  then show ?case by simp
next
  case (Cons h hs)
  have step: "(0 < h_offset h \<and> 0 < h_size h \<and> h_offset h < h_size h + h_offset h \<and>
      h_size h + h_offset h < prev) \<longleftrightarrow> hole_ok h \<and> hole_hi h < unat prev"
  proof (cases "0 < h_size h")
    case True
    show ?thesis
    proof (cases "unat (h_offset h) + unat (h_size h) < 18446744073709551616")
      case lt: True
      then have "unat (h_size h + h_offset h) = unat (h_size h) + unat (h_offset h)"
        by (simp add: unat_add_u64)
      then show ?thesis
        using True lt by (auto simp: end_above_iff hole_defs word_less_nat_alt)
    next
      case False
      moreover have "unat prev < 18446744073709551616" by (rule unat_lt_64)
      ultimately have "\<not> (hole_ok h \<and> hole_hi h < unat prev)"
        by (simp add: hole_defs)
      then show ?thesis
        using True False by (simp add: end_above_iff)
    qed
  next
    case False
    then show ?thesis by (auto simp: hole_defs word_less_nat_alt)
  qed
  show ?case
    using step by (auto simp: Cons.IH hole_lo_def hole_ok_def dest: less_trans)
qed

lemma validate_holes_top: "validate_holes prev True hs \<longleftrightarrow> holes_ok hs"
proof (cases hs)
  case Nil
  then show ?thesis by simp
next
  case (Cons h t)
  have "(0 < h_offset h \<and> 0 < h_size h \<and>
      (h_size h + h_offset h = 0 \<or> h_offset h < h_size h + h_offset h)) \<longleftrightarrow> hole_ok h"
    by (cases "0 < h_size h") (simp_all add: end_ok_iff, simp_all add: hole_defs unat_pos_u64)
  then show ?thesis
    by (auto simp: Cons validate_holes_below hole_lo_def)
qed

lemma fold_sizes: "fold (\<lambda>h acc. acc + h_size h) hs a = a + of_nat (holes_sum hs)"
  by (induction hs arbitrary: a) (simp_all add: add.assoc)

lemma validate_iff_inv: "util_vma_heap_validate heap \<longleftrightarrow> vma_inv heap"
proof (cases "holes_ok (holes heap)")
  case True
  then have "holes_sum (holes heap) < 18446744073709551616" by (rule holes_sum_less_64)
  then have "of_nat (holes_sum (holes heap)) = free_size heap \<longleftrightarrow>
      unat (free_size heap) = holes_sum (holes heap)"
    by (auto simp: unat_eq_u64 unat_of_nat)
  with True show ?thesis
    by (simp add: util_vma_heap_validate_def vma_inv_def validate_holes_top fold_sizes)
next
  case False
  then show ?thesis
    by (simp add: util_vma_heap_validate_def vma_inv_def validate_holes_top)
qed

section \<open>Carving a range out of a hole\<close>

text \<open>
  What \<open>util_vma_hole_alloc\<close> leaves of the hole \<open>h\<close>: a list of at most two holes inside
  it that cover exactly the addresses outside the allocated range.
\<close>

definition remnant :: "util_vma_hole \<Rightarrow> u64 \<Rightarrow> u64 \<Rightarrow> util_vma_hole list \<Rightarrow> bool" where
  "remnant h offset sz mid \<longleftrightarrow>
     holes_ok mid \<and> (\<forall>m \<in> set mid. hole_lo h \<le> hole_lo m \<and> hole_hi m \<le> hole_hi h) \<and>
     holes_set mid = hole_addrs h - range_of offset sz \<and>
     holes_sum mid + unat sz = unat (h_size h)"

lemma remnant_holes_ok:
  assumes "holes_ok (pre @ h # post)" and "remnant h offset sz mid"
  shows "holes_ok (pre @ mid @ post)"
  using assms by (fastforce simp: holes_ok_append remnant_def)

lemma holes_set_other:
  assumes "holes_ok (pre @ h # post)"
  shows "hole_addrs h \<inter> (holes_set pre \<union> holes_set post) = {}"
proof -
  have "hole_addrs h \<inter> hole_addrs g = {}" if "g \<in> set pre \<union> set post" for g
    using that assms by (auto simp: holes_ok_append hole_addrs_def)
  then show ?thesis by (auto simp: holes_set_def)
qed

definition fits :: "util_vma_hole \<Rightarrow> u64 \<Rightarrow> u64 \<Rightarrow> bool" where
  "fits h offset sz \<longleftrightarrow> hole_ok h \<and> hole_lo h \<le> unat offset \<and>
     unat offset + unat sz \<le> hole_hi h \<and> 0 < unat sz"

definition hole_rest :: "util_vma_hole \<Rightarrow> u64 \<Rightarrow> u64 \<Rightarrow> util_vma_hole list" where
  "hole_rest h offset sz =
     (let waste = h_size h - sz - (offset - h_offset h)
      in if offset = h_offset h \<and> sz = h_size h then []
         else if waste = 0 then [h\<lparr>h_size := h_size h - sz\<rparr>]
         else if offset = h_offset h
         then [h\<lparr>h_offset := h_offset h + sz, h_size := h_size h - sz\<rparr>]
         else [\<lparr>h_offset = offset + sz, h_size = waste\<rparr>, h\<lparr>h_size := offset - h_offset h\<rparr>])"

lemma fits_bounds:
  assumes "fits h offset sz"
  shows "unat (h_offset h) + unat (h_size h) \<le> 18446744073709551616"
    "0 < unat (h_offset h)" "unat (h_offset h) \<le> unat offset" "0 < unat sz"
    "unat offset + unat sz \<le> unat (h_offset h) + unat (h_size h)"
  using assms by (simp_all add: fits_def hole_defs)

lemma fits_unat:
  assumes "fits h offset sz"
  shows "unat (offset - h_offset h) = unat offset - unat (h_offset h)"
    "unat (offset - h_offset h + sz) = unat offset - unat (h_offset h) + unat sz"
    "unat (h_size h - sz) = unat (h_size h) - unat sz"
    "unat (h_size h - sz - (offset - h_offset h)) =
       unat (h_size h) - unat sz - (unat offset - unat (h_offset h))"
proof -
  note b = fits_bounds [OF assms]
  show d1: "unat (offset - h_offset h) = unat offset - unat (h_offset h)"
    using b by (simp add: unat_sub_u64)
  show "unat (offset - h_offset h + sz) = unat offset - unat (h_offset h) + unat sz"
    using b d1 unat_lt_64 [of "h_size h"] by (simp add: unat_add_if_u64)
  show d3: "unat (h_size h - sz) = unat (h_size h) - unat sz"
    using b by (simp add: unat_sub_u64)
  show "unat (h_size h - sz - (offset - h_offset h)) =
      unat (h_size h) - unat sz - (unat offset - unat (h_offset h))"
    using b d1 d3 by (simp add: unat_sub_u64)
qed

lemma hole_alloc_eq:
  assumes "fits h offset sz" and "holes heap = pre @ h # post"
  shows "util_vma_hole_alloc heap (length pre) offset sz =
    Some (heap\<lparr>holes := pre @ hole_rest h offset sz @ post, free_size := free_size heap - sz\<rparr>)"
proof -
  have "h_offset h \<le> offset" "offset - h_offset h + sz \<le> h_size h"
      "offset - h_offset h \<le> h_size h - sz"
    using fits_bounds [OF assms(1)] fits_unat [OF assms(1)] by (simp_all add: word_le_nat_alt)
  then show ?thesis
    by (auto simp: util_vma_hole_alloc_def hole_rest_def Let_def assms(2))
qed

lemma hole_rest_remnant:
  assumes fits: "fits h offset sz"
  shows "remnant h offset sz (hole_rest h offset sz)"
proof -
  note b = fits_bounds [OF fits] and d = fits_unat [OF fits]
  let ?waste = "h_size h - sz - (offset - h_offset h)"
  have w0: "?waste = 0 \<longleftrightarrow> unat offset + unat sz = unat (h_offset h) + unat (h_size h)"
    using b d(4) by (auto simp: unat_eq_u64)
  show ?thesis
  proof (cases "?waste = 0")
    case True
    with w0 b d show ?thesis
      by (auto simp: hole_rest_def Let_def remnant_def hole_defs range_of_def unat_eq_u64)
  next
    case False
    with w0 b have lt: "unat offset + unat sz < unat (h_offset h) + unat (h_size h)"
      by linarith
    then have "unat (offset + sz) = unat offset + unat sz"
      using b by (simp add: unat_add_u64)
    moreover have "offset = h_offset h \<longrightarrow> sz \<noteq> h_size h" using lt by auto
    moreover have "offset \<noteq> h_offset h \<longrightarrow> unat (h_offset h) < unat offset"
      using b(3) by (auto simp: unat_eq_u64)
    ultimately show ?thesis
      using False lt b d by (cases "offset = h_offset h")
        (auto simp: hole_rest_def Let_def remnant_def hole_defs range_of_def)
  qed
qed

lemma hole_rest_heap:
  assumes fits: "fits h offset sz" and hs: "holes heap = pre @ h # post" and inv: "vma_inv heap"
    and heap': "heap' = heap\<lparr>holes := pre @ hole_rest h offset sz @ post,
           free_size := free_size heap - sz\<rparr>"
  shows "vma_inv heap'" "free_set heap' = free_set heap - range_of offset sz"
    "range_of offset sz \<subseteq> free_set heap"
proof -
  note r = hole_rest_remnant [OF fits]
  have ok: "holes_ok (pre @ h # post)" using inv by (simp add: vma_inv_def hs)
  have sub: "range_of offset sz \<subseteq> hole_addrs h"
    using fits by (auto simp: fits_def range_of_def hole_addrs_def)
  have "unat sz \<le> unat (free_size heap)"
    using inv r by (simp add: vma_inv_def hs remnant_def)
  then show "vma_inv heap'"
    using inv r remnant_holes_ok [OF ok r]
    by (auto simp: heap' vma_inv_def hs remnant_def unat_sub_u64)
  show "free_set heap' = free_set heap - range_of offset sz"
    using r sub holes_set_other [OF ok] by (auto simp: heap' free_set_def hs remnant_def)
  show "range_of offset sz \<subseteq> free_set heap"
    using sub by (auto simp: free_set_def hs)
qed

lemma hole_alloc_correct:
  assumes fits: "fits (holes heap ! i) offset sz" and i: "i < length (holes heap)"
    and inv: "vma_inv heap"
  obtains heap' where "util_vma_hole_alloc heap i offset sz = Some heap'" "vma_inv heap'"
    "free_set heap' = free_set heap - range_of offset sz" "range_of offset sz \<subseteq> free_set heap"
    "alloc_high heap' = alloc_high heap" "nospan_shift heap' = nospan_shift heap"
proof -
  let ?pre = "take i (holes heap)" and ?post = "drop (Suc i) (holes heap)"
  have hs: "holes heap = ?pre @ holes heap ! i # ?post"
    using i by (simp add: id_take_nth_drop)
  define heap' where "heap' = heap\<lparr>holes := ?pre @ hole_rest (holes heap ! i) offset sz @ ?post,
      free_size := free_size heap - sz\<rparr>"
  have "util_vma_hole_alloc heap i offset sz = Some heap'"
    using hole_alloc_eq [OF fits hs] i by (simp add: heap'_def)
  with hole_rest_heap [OF fits hs inv heap'_def] show ?thesis
    by (intro that [of heap']) (simp_all add: heap'_def)
qed

section \<open>Allocation\<close>

text \<open>A contiguous free range lies inside one hole, because holes never touch.\<close>

lemma range_in_one_hole:
  assumes ok: "holes_ok hs" and sub: "{a..<a + n} \<subseteq> holes_set hs" and n: "0 < n"
  shows "\<exists>h \<in> set hs. hole_lo h \<le> a \<and> a + n \<le> hole_hi h"
  using ok sub
proof (induction hs)
  case Nil
  with n show ?case by simp
next
  case (Cons h hs)
  show ?case
  proof (cases "a < hole_lo h")
    case True
    then have gap: "hole_lo h - 1 \<notin> holes_set (h # hs)"
      using Cons.prems(1) by (fastforce simp: holes_set_def hole_addrs_def)
    have "a + n \<le> hole_lo h - 1"
    proof (rule ccontr)
      assume "\<not> a + n \<le> hole_lo h - 1"
      then have "hole_lo h - 1 \<in> {a..<a + n}" using True by auto
      with Cons.prems(2) gap show False by blast
    qed
    then have "{a..<a + n} \<inter> hole_addrs h = {}"
      by (auto simp: hole_addrs_def)
    then have "{a..<a + n} \<subseteq> holes_set hs" using Cons.prems(2) by auto
    then show ?thesis using Cons.IH Cons.prems(1) by auto
  next
    case False
    have "x < hole_hi h" if "x \<in> {a..<a + n}" for x
    proof -
      have "x \<in> holes_set (h # hs)" using Cons.prems(2) that by blast
      moreover have "hole_lo h \<le> x" using that False by auto
      ultimately show ?thesis
        using Cons.prems(1) by (fastforce simp: holes_set_def hole_addrs_def)
    qed
    from this [of "a + n - 1"] n have "a + n - 1 < hole_hi h" by auto
    then have "a + n \<le> hole_hi h" by linarith
    then show ?thesis using False by auto
  qed
qed

text \<open>
  The specification of a search body: it never fails an assertion, it passes over a hole only
  when no aligned range of the size fits there, and what it returns is such a range.
\<close>

definition attempt_ok :: "u64 \<Rightarrow> u64 \<Rightarrow> util_vma_hole \<Rightarrow> u64 option option \<Rightarrow> bool" where
  "attempt_ok sz alignment h r \<longleftrightarrow>
     (case r of
        None \<Rightarrow> False
      | Some None \<Rightarrow> \<not> (\<exists>a. unat alignment dvd a \<and> hole_lo h \<le> a \<and> a + unat sz \<le> hole_hi h)
      | Some (Some offset) \<Rightarrow> fits h offset sz \<and> unat alignment dvd unat offset)"

lemma alloc_high_attempt_ok:
  assumes ok: "hole_ok h" and sz: "0 < sz" and ns: "nospan_shift heap = 0"
  shows "attempt_ok sz alignment h (alloc_high_try heap h sz alignment)"
proof (cases "h_size h < sz")
  case True
  then show ?thesis
    by (auto simp: alloc_high_try_def attempt_ok_def word_less_nat_alt hole_defs)
next
  case False
  let ?offset = "h_size h - sz + h_offset h"
  let ?al = "?offset div alignment * alignment"
  have le: "unat sz \<le> unat (h_size h)" "0 < unat sz"
      "unat (h_offset h) + unat (h_size h) \<le> 18446744073709551616"
    using False sz ok by (simp_all add: word_less_nat_alt hole_defs)
  then have "unat ?offset = unat (h_size h) - unat sz + unat (h_offset h)"
    by (simp add: unat_add_if_u64 unat_sub_u64)
  then have top: "unat ?offset + unat sz = hole_hi h" using le by (simp add: hole_hi_def)
  have al: "unat ?al = unat ?offset div unat alignment * unat alignment"
    by (rule unat_align_down)
  then have le_top: "unat ?al \<le> unat ?offset" by simp
  have res: "alloc_high_try heap h sz alignment =
      Some (if ?al < h_offset h then None else Some ?al)"
    using False ns by (simp add: alloc_high_try_def Let_def)
  show ?thesis
  proof (cases "?al < h_offset h")
    case True
    have "a \<le> unat ?al" if "unat alignment dvd a" "a + unat sz \<le> hole_hi h" for a
      using align_down_greatest [OF that(1), of "unat ?offset"] that(2) top al by simp
    then show ?thesis
      using res True by (fastforce simp: attempt_ok_def word_less_nat_alt hole_lo_def)
  next
    case False
    have "unat ?al + unat sz \<le> hole_hi h" using le_top top by linarith
    moreover have "unat alignment dvd unat ?al" unfolding al by (rule dvd_triv_right)
    moreover have "unat (h_offset h) \<le> unat ?al" using False by (simp only: word_less_nat_alt not_less)
    ultimately show ?thesis
      using res le ok False by (simp only: attempt_ok_def fits_def hole_lo_def if_False option.case simp_thms)
  qed
qed

lemma alloc_low_attempt_ok:
  assumes ok: "hole_ok h" and sz: "0 < sz" and al: "0 < alignment" and ns: "nospan_shift heap = 0"
  shows "attempt_ok sz alignment h (alloc_low_try heap h sz alignment)"
proof (cases "h_size h < sz")
  case True
  then show ?thesis
    by (auto simp: alloc_low_try_def attempt_ok_def word_less_nat_alt hole_defs)
next
  case False
  let ?k = "unat alignment" and ?o = "unat (h_offset h)" and ?m = "h_offset h mod alignment"
  have le: "unat sz \<le> unat (h_size h)" "0 < unat sz" "?o + unat (h_size h) \<le> 18446744073709551616"
      "0 < ?k"
    using False sz ok al by (simp_all add: word_less_nat_alt hole_defs)
  have m: "unat ?m = ?o mod ?k" by (simp add: unat_mod)
  then have mk: "unat ?m < ?k" using le(4) by simp
  show ?thesis
  proof (cases "?m = 0")
    case True
    then have "?k dvd ?o" using m by (metis mod_0_imp_dvd unat_0)
    then show ?thesis
      using True False ns ok le
      by (auto simp: alloc_low_try_def attempt_ok_def Let_def fits_def hole_defs)
  next
    case mis: False
    then have m0: "?o mod ?k \<noteq> 0" using m by (metis unat_eq_zero)
    define pad where "pad = ?k - ?o mod ?k"
    have pad: "unat (alignment - ?m) = pad" using m mk by (simp add: unat_sub_u64 pad_def)
    have slack: "unat (h_size h - sz) = unat (h_size h) - unat sz"
      using le by (simp add: unat_sub_u64)
    have least: "?o + pad \<le> a" if "?k dvd a" "?o \<le> a" for a
      using align_up_least [OF that m0 le(4)] by (simp add: pad_def)
    show ?thesis
    proof (cases "h_size h - sz < alignment - ?m")
      case True
      then have "unat (h_size h) - unat sz < pad" using slack pad by (simp add: word_less_nat_alt)
      then have "\<not> a + unat sz \<le> hole_hi h" if "?k dvd a" "hole_lo h \<le> a" for a
        using least [OF that(1)] that(2) le by (simp add: hole_defs)
      then show ?thesis
        using True False mis by (auto simp: alloc_low_try_def attempt_ok_def Let_def)
    next
      case fit: False
      then have "pad \<le> unat (h_size h) - unat sz" using slack pad by (simp add: word_less_nat_alt)
      moreover from this have "unat (h_offset h + (alignment - ?m)) = ?o + pad"
        using pad le by (simp add: unat_add_if_u64)
      moreover have "?k dvd ?o + pad" using align_up_dvd le(4) by (simp add: pad_def)
      ultimately show ?thesis
        using fit False mis ns ok le
        by (auto simp: alloc_low_try_def attempt_ok_def Let_def fits_def hole_defs)
    qed
  qed
qed

text \<open>The result of a search: either no hole can serve the request, or one did.\<close>

definition alloc_post ::
  "util_vma_heap \<Rightarrow> u64 \<Rightarrow> u64 \<Rightarrow> u64 \<times> util_vma_heap \<Rightarrow> bool" where
  "alloc_post heap sz alignment res \<longleftrightarrow>
     (case res of (offset, heap') \<Rightarrow>
        if offset = 0
        then heap' = heap \<and>
             \<not> (\<exists>a. unat alignment dvd a \<and> {a..<a + unat sz} \<subseteq> free_set heap)
        else unat alignment dvd unat offset \<and>
             range_of offset sz \<subseteq> free_set heap \<and> vma_inv heap' \<and>
             free_set heap' = free_set heap - range_of offset sz \<and>
             alloc_high heap' = alloc_high heap \<and> nospan_shift heap' = nospan_shift heap)"

lemma alloc_loop_post:
  assumes inv: "vma_inv heap" and sz: "0 < sz"
    and att: "\<And>h. h \<in> set (holes heap) \<Longrightarrow> attempt_ok sz alignment h (attempt h)"
    and idx: "set is \<subseteq> {..<length (holes heap)}"
    and rest: "\<And>h. h \<in> set (holes heap) \<Longrightarrow> h \<notin> (!) (holes heap) ` set is \<Longrightarrow>
       attempt h = Some None"
  shows "\<exists>res. alloc_loop attempt heap sz is = Some res \<and> alloc_post heap sz alignment res"
  using idx rest
proof (induction "is")
  case Nil
  have "\<not> (\<exists>a. unat alignment dvd a \<and> {a..<a + unat sz} \<subseteq> free_set heap)"
  proof
    assume "\<exists>a. unat alignment dvd a \<and> {a..<a + unat sz} \<subseteq> free_set heap"
    then obtain a where a: "unat alignment dvd a" "{a..<a + unat sz} \<subseteq> holes_set (holes heap)"
      by (auto simp: free_set_def)
    then obtain h where h: "h \<in> set (holes heap)" "hole_lo h \<le> a" "a + unat sz \<le> hole_hi h"
      using range_in_one_hole [OF _ a(2)] inv sz by (auto simp: vma_inv_def word_less_nat_alt)
    then show False
      using att [OF h(1)] Nil(2) [OF h(1)] a(1) by (auto simp: attempt_ok_def)
  qed
  then show ?case by (simp add: alloc_post_def)
next
  case (Cons i "is")
  then have i: "i < length (holes heap)" and "set is \<subseteq> {..<length (holes heap)}" by auto
  have ok: "attempt_ok sz alignment (holes heap ! i) (attempt (holes heap ! i))"
    using att i by simp
  show ?case
  proof (cases "attempt (holes heap ! i) = Some None")
    case True
    then have "attempt h = Some None" if "h \<in> set (holes heap)" "h \<notin> (!) (holes heap) ` set is" for h
      using Cons.prems(2) [OF that(1)] that(2) by auto
    from Cons.IH [OF _ this] show ?thesis
      using True Cons.prems(1) by simp
  next
    case False
    with ok obtain offset where o: "attempt (holes heap ! i) = Some (Some offset)"
        "fits (holes heap ! i) offset sz" "unat alignment dvd unat offset"
      by (auto simp: attempt_ok_def split: option.splits)
    from hole_alloc_correct [OF o(2) i inv] obtain heap' where heap':
        "util_vma_hole_alloc heap i offset sz = Some heap'" "vma_inv heap'"
        "free_set heap' = free_set heap - range_of offset sz" "range_of offset sz \<subseteq> free_set heap"
        "alloc_high heap' = alloc_high heap" "nospan_shift heap' = nospan_shift heap" .
    moreover have "offset \<noteq> 0" using fits_bounds [OF o(2)] by auto
    ultimately show ?thesis
      using o by (simp add: alloc_post_def validate_iff_inv)
  qed
qed

lemma alloc_correct:
  assumes inv: "vma_inv heap" and sz: "0 < sz" and al: "0 < alignment" and ns: "nospan_shift heap = 0"
  shows "\<exists>res. util_vma_heap_alloc heap sz alignment = Some res \<and> alloc_post heap sz alignment res"
proof -
  have ok: "\<And>h. h \<in> set (holes heap) \<Longrightarrow> hole_ok h"
    using inv by (auto simp: vma_inv_def dest: holes_okD)
  have all: "h \<in> (!) (holes heap) ` {..<length (holes heap)}" if "h \<in> set (holes heap)" for h
    using that by (force simp: in_set_conv_nth)
  show ?thesis
  proof (cases "alloc_high heap")
    case True
    have "\<exists>res. alloc_loop (\<lambda>h. alloc_high_try heap h sz alignment) heap sz [0..<length (holes heap)]
        = Some res \<and> alloc_post heap sz alignment res"
      using all by (intro alloc_loop_post inv sz alloc_high_attempt_ok ok ns)
        (auto simp: lessThan_atLeast0)
    with True show ?thesis
      using sz al ns inv by (simp add: util_vma_heap_alloc_def validate_iff_inv)
  next
    case False
    have "\<exists>res. alloc_loop (\<lambda>h. alloc_low_try heap h sz alignment) heap sz
        (rev [0..<length (holes heap)]) = Some res \<and> alloc_post heap sz alignment res"
      using all by (intro alloc_loop_post inv sz alloc_low_attempt_ok ok ns al)
        (auto simp: lessThan_atLeast0)
    with False show ?thesis
      using sz al ns inv by (simp add: util_vma_heap_alloc_def validate_iff_inv)
  qed
qed

section \<open>Allocation at an address\<close>

lemma range_sub_iff:
  assumes ok: "holes_ok (pre @ h # post)" and sz: "0 < unat sz"
    and pre: "\<And>g. g \<in> set pre \<Longrightarrow> unat offset < hole_lo g" and lo: "hole_lo h \<le> unat offset"
  shows "range_of offset sz \<subseteq> holes_set (pre @ h # post) \<longleftrightarrow>
    unat offset + unat sz \<le> hole_hi h"
proof
  assume "range_of offset sz \<subseteq> holes_set (pre @ h # post)"
  then obtain g where g: "g \<in> set (pre @ h # post)" "hole_lo g \<le> unat offset"
      "unat offset + unat sz \<le> hole_hi g"
    using range_in_one_hole [OF ok _ sz, of "unat offset"] by (auto simp: range_of_def)
  then have "g \<in> set (h # post)" using pre by fastforce
  then show "unat offset + unat sz \<le> hole_hi h"
  proof (cases "g = h")
    case False
    with \<open>g \<in> set (h # post)\<close> ok have "hole_hi g < hole_lo h"
      by (auto simp: holes_ok_append)
    with g(3) lo have False using sz by linarith
    then show ?thesis ..
  qed (use g in simp)
next
  assume "unat offset + unat sz \<le> hole_hi h"
  then show "range_of offset sz \<subseteq> holes_set (pre @ h # post)"
    using lo by (auto simp: range_of_def hole_addrs_def)
qed

lemma alloc_addr_loop_correct:
  assumes inv: "vma_inv heap" and sz: "0 < sz"
    and bound: "unat offset + unat sz \<le> 18446744073709551616"
    and hs: "holes heap = pre @ post" and pre: "\<And>g. g \<in> set pre \<Longrightarrow> unat offset < hole_lo g"
  shows "\<exists>ok heap'. alloc_addr_loop heap offset sz [length pre..<length (holes heap)] =
           Some (ok, heap') \<and> (ok \<longleftrightarrow> range_of offset sz \<subseteq> free_set heap) \<and> vma_inv heap' \<and>
         (if ok then free_set heap' = free_set heap - range_of offset sz else heap' = heap)"
  using hs pre
proof (induction post arbitrary: pre)
  case Nil
  have "unat offset \<notin> free_set heap"
    using Nil by (fastforce simp: free_set_def holes_set_def hole_addrs_def)
  moreover have "unat offset \<in> range_of offset sz"
    using sz by (simp add: range_of_def word_less_nat_alt)
  ultimately have "\<not> range_of offset sz \<subseteq> free_set heap" by blast
  with inv show ?case by (auto simp: Nil.prems(1))
next
  case (Cons h post)
  have ups: "[length pre..<length (holes heap)] =
      length pre # [length (pre @ [h])..<length (holes heap)]"
    using upt_conv_Cons [of "length pre" "length (holes heap)"] by (simp add: Cons.prems(1))
  have nth: "holes heap ! length pre = h" by (simp add: Cons.prems(1))
  have ok: "holes_ok (pre @ h # post)" using inv Cons.prems(1) by (simp add: vma_inv_def)
  then have hok: "hole_ok h" by (simp add: holes_ok_append)
  show ?case
  proof (cases "offset < h_offset h")
    case True
    have "\<exists>ok heap'. alloc_addr_loop heap offset sz [length (pre @ [h])..<length (holes heap)] =
           Some (ok, heap') \<and> (ok \<longleftrightarrow> range_of offset sz \<subseteq> free_set heap) \<and> vma_inv heap' \<and>
         (if ok then free_set heap' = free_set heap - range_of offset sz else heap' = heap)"
      using True Cons.prems by (intro Cons.IH) (auto simp: word_less_nat_alt hole_lo_def)
    with True show ?thesis unfolding ups by (simp add: nth Let_def)
  next
    case False
    then have lo: "hole_lo h \<le> unat offset" by (simp add: word_less_nat_alt hole_lo_def)
    have s: "0 < unat sz" using sz by (simp add: word_less_nat_alt)
    have d: "unat (offset - h_offset h + sz) = unat offset - hole_lo h + unat sz"
      using lo bound hok by (auto simp: unat_add_if_u64 unat_sub_u64 hole_lo_def hole_ok_def)
    have "h_size h < offset - h_offset h + sz \<longleftrightarrow> hole_hi h < unat offset + unat sz"
      using d lo by (simp add: word_less_nat_alt hole_lo_def hole_hi_def) linarith
    moreover have "range_of offset sz \<subseteq> free_set heap \<longleftrightarrow> unat offset + unat sz \<le> hole_hi h"
      unfolding free_set_def Cons.prems(1)
      by (rule range_sub_iff [OF ok s _ lo]) (rule Cons.prems(2))
    moreover have "\<exists>heap'. util_vma_hole_alloc heap (length pre) offset sz = Some heap' \<and>
        vma_inv heap' \<and> free_set heap' = free_set heap - range_of offset sz"
      if "unat offset + unat sz \<le> hole_hi h"
    proof -
      have "fits h offset sz" using that lo s hok by (simp add: fits_def)
      then have "fits (holes heap ! length pre) offset sz" using nth by simp
      from hole_alloc_correct [OF this _ inv] Cons.prems(1) show ?thesis by (metis length_append_singleton
        length_append less_add_same_cancel1 length_greater_0_conv list.distinct(1))
    qed
    ultimately show ?thesis
      unfolding ups using False inv by (auto simp: nth Let_def)
  qed
qed

lemma alloc_addr_correct:
  assumes inv: "vma_inv heap" and "0 < offset" and sz: "0 < sz"
    and bound: "unat offset + unat sz \<le> 18446744073709551616"
  shows "\<exists>ok heap'. util_vma_heap_alloc_addr heap offset sz = Some (ok, heap') \<and>
     (ok \<longleftrightarrow> range_of offset sz \<subseteq> free_set heap) \<and> vma_inv heap' \<and>
     (if ok then free_set heap' = free_set heap - range_of offset sz else heap' = heap)"
proof -
  have "c_assert (offset + sz = 0 \<or> offset < offset + sz) = Some ()"
    using end_ok_iff [OF sz, of offset] bound by (simp add: add.commute)
  then show ?thesis
    using alloc_addr_loop_correct [OF inv sz bound, of "[]" "holes heap"] assms(2) sz
    by (simp add: util_vma_heap_alloc_addr_def)
qed

section \<open>Freeing\<close>

text \<open>How the freed range lies between its neighbours.\<close>

definition between :: "util_vma_hole list \<Rightarrow> util_vma_hole list \<Rightarrow> u64 \<Rightarrow> u64 \<Rightarrow> bool" where
  "between highs lows offset sz \<longleftrightarrow>
     (highs \<noteq> [] \<longrightarrow> unat offset + unat sz \<le> hole_lo (last highs)) \<and>
     (lows \<noteq> [] \<longrightarrow> hole_hi (hd lows) \<le> unat offset)"

lemma split_at_offset:
  assumes ok: "holes_ok hs"
    and highs: "highs = takeWhile (\<lambda>h. \<not> h_offset h \<le> offset) hs"
    and lows: "lows = dropWhile (\<lambda>h. \<not> h_offset h \<le> offset) hs"
  shows "hs = highs @ lows" "holes_ok (highs @ lows)"
    "\<And>g. g \<in> set highs \<Longrightarrow> unat offset < hole_lo g"
    "\<And>g. g \<in> set lows \<Longrightarrow> hole_lo g \<le> unat offset"
proof -
  show hs: "hs = highs @ lows" by (simp add: highs lows)
  with ok show ok': "holes_ok (highs @ lows)" by simp
  show "unat offset < hole_lo g" if "g \<in> set highs" for g
    using set_takeWhileD [OF that [unfolded highs]] by (simp add: word_le_nat_alt hole_lo_def)
  show "hole_lo g \<le> unat offset" if g: "g \<in> set lows" for g
  proof -
    obtain l ls where l: "lows = l # ls" using g by (cases lows) simp_all
    have "h_offset (hd lows) \<le> offset"
      using hd_dropWhile [of "\<lambda>h. \<not> h_offset h \<le> offset" hs] l unfolding lows [symmetric] by simp
    then have hd: "hole_lo l \<le> unat offset" using l by (simp add: word_le_nat_alt hole_lo_def)
    show ?thesis
      using g l hd ok' by (fastforce simp: holes_ok_append hole_ok_def dest: holes_okD)
  qed
qed

lemma disjoint_iff_between:
  assumes ok: "holes_ok (highs @ lows)" and sz: "0 < unat sz"
    and hi: "\<And>g. g \<in> set highs \<Longrightarrow> unat offset < hole_lo g"
    and lo: "\<And>g. g \<in> set lows \<Longrightarrow> hole_lo g \<le> unat offset"
  shows "range_of offset sz \<inter> holes_set (highs @ lows) = {} \<longleftrightarrow> between highs lows offset sz"
proof
  assume dis: "range_of offset sz \<inter> holes_set (highs @ lows) = {}"
  have "unat offset + unat sz \<le> hole_lo (last highs)" if "highs \<noteq> []"
  proof (rule ccontr)
    assume "\<not> ?thesis"
    then have "hole_lo (last highs) \<in> range_of offset sz"
      using hi [of "last highs"] that by (simp add: range_of_def)
    moreover have "hole_lo (last highs) \<in> hole_addrs (last highs)"
      using holes_okD [OF ok] that by (simp add: hole_addrs_def hole_ok_def)
    then have "hole_lo (last highs) \<in> holes_set (highs @ lows)"
      using last_in_set [OF that] by (auto simp: holes_set_def)
    ultimately show False using dis by blast
  qed
  moreover have "hole_hi (hd lows) \<le> unat offset" if "lows \<noteq> []"
  proof (rule ccontr)
    assume "\<not> ?thesis"
    then have "unat offset \<in> hole_addrs (hd lows)"
      using lo [of "hd lows"] that by (simp add: hole_addrs_def)
    moreover have "unat offset \<in> range_of offset sz" using sz by (simp add: range_of_def)
    ultimately show False using dis that by (cases lows) auto
  qed
  ultimately show "between highs lows offset sz" by (simp add: between_def)
next
  assume b: "between highs lows offset sz"
  have "unat offset + unat sz \<le> hole_lo g" if "g \<in> set highs" for g
    using that b ok
    by (cases highs rule: rev_cases) (fastforce simp: between_def holes_ok_append hole_ok_def)+
  moreover have "hole_hi g \<le> unat offset" if "g \<in> set lows" for g
    using that b ok
    by (cases lows) (fastforce simp: between_def holes_ok_append hole_ok_def dest: holes_okD)+
  ultimately show "range_of offset sz \<inter> holes_set (highs @ lows) = {}"
    by (fastforce simp: range_of_def holes_set_def hole_addrs_def)
qed

lemma holes_ok_insert:
  "holes_ok (pre @ post) \<Longrightarrow> hole_ok m \<Longrightarrow> (\<And>g. g \<in> set pre \<Longrightarrow> hole_hi m < hole_lo g) \<Longrightarrow>
   (\<And>g. g \<in> set post \<Longrightarrow> hole_hi g < hole_lo m) \<Longrightarrow> holes_ok (pre @ m # post)"
  by (auto simp: holes_ok_append)

lemma high_adjacent_iff:
  assumes "unat offset + unat sz \<le> hole_lo g"
  shows "offset + sz = h_offset g \<longleftrightarrow> unat offset + unat sz = hole_lo g"
proof -
  have "unat (offset + sz) = unat offset + unat sz"
    using assms unat_lt_64 [of "h_offset g"] by (simp add: unat_add_u64 hole_lo_def)
  then show ?thesis by (simp add: unat_eq_u64 hole_lo_def)
qed

lemma low_adjacent_iff:
  assumes "hole_hi l \<le> unat offset"
  shows "h_offset l + h_size l = offset \<longleftrightarrow> hole_hi l = unat offset"
proof -
  have "unat (h_offset l + h_size l) = hole_hi l"
    using assms unat_lt_64 [of offset] by (simp add: unat_add_u64 hole_hi_def)
  then show ?thesis by (simp add: unat_eq_u64)
qed

lemma hole_grow:
  "0 < unat (h_offset l) \<Longrightarrow> hole_hi l + unat sz \<le> 18446744073709551616 \<Longrightarrow>
   unat (h_size l + sz) = unat (h_size l) + unat sz"
  by (rule unat_add_u64) (simp add: hole_hi_def)

lemma between_highs:
  assumes "holes_ok (highs @ lows)" and "between highs lows offset sz" and "g \<in> set highs"
    and "\<not> (highs \<noteq> [] \<and> unat offset + unat sz = hole_lo (last highs))"
  shows "unat offset + unat sz < hole_lo g"
  using assms
  by (cases highs rule: rev_cases) (fastforce simp: between_def holes_ok_append hole_ok_def)+

lemma between_lows:
  assumes "holes_ok (highs @ lows)" and "between highs lows offset sz" and "l \<in> set lows"
    and "\<not> (lows \<noteq> [] \<and> hole_hi (hd lows) = unat offset)"
  shows "hole_hi l < unat offset"
  using assms
  by (cases lows) (fastforce simp: between_def holes_ok_append hole_ok_def dest: holes_okD)+

lemma merge_holes_cases:
  assumes ok: "holes_ok (highs @ lows)" and b: "between highs lows offset sz"
    and off: "0 < unat offset" and sz: "0 < unat sz"
    and bound: "unat offset + unat sz \<le> 18446744073709551616"
  obtains pre m post where "merge_holes highs lows offset sz = pre @ m # post"
    "holes_ok (pre @ post)" "hole_ok m" "\<And>g. g \<in> set pre \<Longrightarrow> hole_hi m < hole_lo g"
    "\<And>g. g \<in> set post \<Longrightarrow> hole_hi g < hole_lo m"
    "holes_set (highs @ lows) \<union> range_of offset sz = holes_set (pre @ post) \<union> hole_addrs m"
    "holes_sum (highs @ lows) + unat sz = holes_sum (pre @ post) + unat (h_size m)"
proof -
  have hok: "\<And>g. g \<in> set (highs @ lows) \<Longrightarrow> 0 < unat (h_offset g) \<and> 0 < unat (h_size g) \<and>
      unat (h_offset g) + unat (h_size g) \<le> 18446744073709551616"
    using holes_okD [OF ok] by (auto simp: hole_defs)
  let ?ha = "highs \<noteq> [] \<and> unat offset + unat sz = hole_lo (last highs)"
  let ?la = "lows \<noteq> [] \<and> hole_hi (hd lows) = unat offset"
  have adj: "(highs \<noteq> [] \<and> offset + sz = h_offset (last highs)) = ?ha"
      "(lows \<noteq> [] \<and> h_offset (hd lows) + h_size (hd lows) = offset) = ?la"
    using b high_adjacent_iff [of offset sz "last highs"] low_adjacent_iff [of "hd lows" offset]
    unfolding between_def by blast+
  note merge = merge_holes_def [of highs lows offset sz, unfolded adj Let_def]
  show thesis
  proof (cases ?la; cases ?ha)
    assume la: ?la and ha: ?ha
    obtain pre g l post where hl: "highs = pre @ [g]" "lows = l # post"
      using la ha by (metis list.collapse append_butlast_last_id)
    have "unat (h_size l + (sz + h_size g)) = unat (h_size l) + (unat sz + unat (h_size g))"
      using hok [of g] hok [of l] la ha hl off
      by (simp add: unat_add_if_u64 hole_lo_def hole_hi_def)
    moreover have "merge_holes highs lows offset sz =
        pre @ l\<lparr>h_size := h_size l + (sz + h_size g)\<rparr> # post"
      unfolding merge using la ha by (simp add: hl)
    ultimately show thesis
      using la ha hl hok [of g] hok [of l] ok
      by (intro that [of pre "l\<lparr>h_size := h_size l + (sz + h_size g)\<rparr>" post])
        (auto simp: holes_ok_append hole_defs range_of_def)
  next
    assume la: ?la and ha: "\<not> ?ha"
    obtain l post where hl: "lows = l # post" using la by (cases lows) auto
    let ?m = "l\<lparr>h_size := h_size l + sz\<rparr>"
    have grow: "unat (h_size l + sz) = unat (h_size l) + unat sz"
      using hok [of l] la hl bound by (intro hole_grow) auto
    then have m: "hole_lo ?m = hole_lo l" "hole_hi ?m = unat offset + unat sz" "hole_hi l = unat offset"
      using la hl by (simp_all add: hole_lo_def hole_hi_def)
    have "merge_holes highs lows offset sz = highs @ ?m # post"
      unfolding merge using la ha by (auto simp: hl)
    then show thesis
      using hl hok [of l] ok bound grow m between_highs [OF ok b _ ha]
      by (intro that [of highs ?m post])
        (auto simp: holes_ok_append hole_addrs_def hole_ok_def range_of_def)
  next
    assume la: "\<not> ?la" and ha: ?ha
    obtain pre g where hl: "highs = pre @ [g]" using ha by (metis append_butlast_last_id)
    let ?m = "g\<lparr>h_offset := offset, h_size := h_size g + sz\<rparr>"
    have grow: "unat (h_size g + sz) = unat (h_size g) + unat sz"
      using hok [of g] ha hl off by (simp add: unat_add_if_u64 hole_lo_def)
    then have m: "hole_lo ?m = unat offset" "hole_hi ?m = hole_hi g" "hole_lo g = unat offset + unat sz"
      using ha hl by (simp_all add: hole_lo_def hole_hi_def)
    have "merge_holes highs lows offset sz = pre @ ?m # lows"
      unfolding merge using la ha by (auto simp: hl)
    then show thesis
      using hl hok [of g] ok off grow m between_lows [OF ok b _ la]
      by (intro that [of pre ?m lows])
        (auto simp: holes_ok_append hole_addrs_def hole_ok_def range_of_def)
  next
    assume la: "\<not> ?la" and ha: "\<not> ?ha"
    let ?m = "\<lparr>h_offset = offset, h_size = sz\<rparr>"
    have m: "hole_lo ?m = unat offset" "hole_hi ?m = unat offset + unat sz"
      by (simp_all add: hole_lo_def hole_hi_def)
    have "merge_holes highs lows offset sz = highs @ ?m # lows"
      unfolding merge using la ha by auto
    then show thesis
      using ok off sz bound m between_highs [OF ok b _ ha] between_lows [OF ok b _ la]
      by (intro that [of highs ?m lows])
        (auto simp: holes_ok_append hole_addrs_def hole_ok_def range_of_def)
  qed
qed

lemma merge_heap:
  assumes inv: "vma_inv heap" and hs: "holes heap = highs @ lows"
    and b: "between highs lows offset sz" and off: "0 < offset" and sz: "0 < sz"
    and bound: "unat offset + unat sz \<le> 18446744073709551616"
    and heap': "heap' = heap\<lparr>holes := merge_holes highs lows offset sz,
                            free_size := free_size heap + sz\<rparr>"
  shows "vma_inv heap'" "free_set heap' = free_set heap \<union> range_of offset sz"
proof -
  have ok: "holes_ok (highs @ lows)" using inv hs by (simp add: vma_inv_def)
  obtain pre m post where c: "merge_holes highs lows offset sz = pre @ m # post"
      "holes_ok (pre @ post)" "hole_ok m" "\<And>g. g \<in> set pre \<Longrightarrow> hole_hi m < hole_lo g"
      "\<And>g. g \<in> set post \<Longrightarrow> hole_hi g < hole_lo m"
      "holes_set (highs @ lows) \<union> range_of offset sz = holes_set (pre @ post) \<union> hole_addrs m"
      "holes_sum (highs @ lows) + unat sz = holes_sum (pre @ post) + unat (h_size m)"
    using merge_holes_cases [OF ok b _ _ bound] off sz unfolding unat_pos_u64 by metis
  have m: "merge_holes highs lows offset sz = pre @ m # post" "holes_ok (pre @ m # post)"
      "holes_set (highs @ lows) \<union> range_of offset sz = holes_set (pre @ m # post)"
      "holes_sum (highs @ lows) + unat sz = holes_sum (pre @ m # post)"
    using c holes_ok_insert [OF c(2-5)] by auto
  have "holes_sum (pre @ m # post) < 18446744073709551616" by (rule holes_sum_less_64 [OF m(2)])
  then have "unat (free_size heap + sz) = unat (free_size heap) + unat sz"
    using inv hs m(4) by (intro unat_add_u64) (simp add: vma_inv_def)
  then show "vma_inv heap'" using inv m hs by (simp add: vma_inv_def heap')
  show "free_set heap' = free_set heap \<union> range_of offset sz"
    using m by (simp add: free_set_def heap' hs)
qed

text \<open>
  The assertions of the free operation hold exactly when the range is not already free. The
  assertion on the higher neighbour alone does not say so, because the end of the range may
  wrap to 0; then the final validation fails.
\<close>

lemma assertions_imp_between:
  assumes ok: "holes_ok (highs @ lows)" and sz: "0 < sz"
    and hi: "\<And>g. g \<in> set highs \<Longrightarrow> unat offset < hole_lo g"
    and a1: "highs \<noteq> [] \<longrightarrow> offset + sz \<le> h_offset (last highs)"
    and a2: "lows \<noteq> [] \<longrightarrow> h_offset (hd lows) < h_offset (hd lows) + h_size (hd lows)"
    and a3: "lows \<noteq> [] \<longrightarrow> h_offset (hd lows) + h_size (hd lows) \<le> offset"
    and bound: "unat offset + unat sz \<le> 18446744073709551616"
    and nowrap: "highs \<noteq> [] \<longrightarrow> unat offset + unat sz < 18446744073709551616"
  shows "between highs lows offset sz"
proof -
  have "unat offset + unat sz \<le> hole_lo (last highs)" if "highs \<noteq> []"
    using a1 nowrap that by (simp add: word_le_nat_alt hole_lo_def unat_add_u64)
  moreover have "hole_hi (hd lows) \<le> unat offset" if "lows \<noteq> []"
  proof -
    have "hole_ok (hd lows)" using holes_okD [OF ok] that by simp
    then have "0 < h_size (hd lows)" by (simp add: hole_defs unat_pos_u64)
    then have "unat (h_offset (hd lows)) + unat (h_size (hd lows)) < 18446744073709551616"
      using a2 that end_above_iff [of "h_size (hd lows)" "h_offset (hd lows)"]
      by (simp add: add.commute)
    then show ?thesis using a3 that by (simp add: word_le_nat_alt hole_hi_def unat_add_u64)
  qed
  ultimately show ?thesis by (simp add: between_def)
qed

lemma between_imp_assertions:
  assumes b: "between highs lows offset sz" and ok: "holes_ok (highs @ lows)"
  shows "highs \<noteq> [] \<longrightarrow> offset + sz \<le> h_offset (last highs)"
    "lows \<noteq> [] \<longrightarrow> h_offset (hd lows) < h_offset (hd lows) + h_size (hd lows)"
    "lows \<noteq> [] \<longrightarrow> h_offset (hd lows) + h_size (hd lows) \<le> offset"
proof -
  show "highs \<noteq> [] \<longrightarrow> offset + sz \<le> h_offset (last highs)"
    using b unat_lt_64 [of "h_offset (last highs)"]
    by (auto simp: between_def hole_lo_def word_le_nat_alt unat_add_if_u64)
  have "hole_ok (hd lows)" if "lows \<noteq> []" using holes_okD [OF ok] that by simp
  moreover have "unat (h_offset (hd lows) + h_size (hd lows)) = hole_hi (hd lows)" if "lows \<noteq> []"
    using b that unat_lt_64 [of offset] by (auto simp: between_def hole_hi_def unat_add_if_u64)
  ultimately show "lows \<noteq> [] \<longrightarrow> h_offset (hd lows) < h_offset (hd lows) + h_size (hd lows)"
    "lows \<noteq> [] \<longrightarrow> h_offset (hd lows) + h_size (hd lows) \<le> offset"
    using b by (auto simp: word_less_nat_alt word_le_nat_alt hole_ok_def hole_lo_def between_def)
qed

lemma wrap_not_validated:
  assumes ok: "holes_ok (highs @ lows)" and "highs \<noteq> []" and sz: "0 < sz"
    and wrap: "unat offset + unat sz = 18446744073709551616"
    and lo: "hole_hi (hd lows) \<le> unat offset \<or> lows = []"
    and hi: "\<And>g. g \<in> set highs \<Longrightarrow> unat offset < hole_lo g"
  shows "\<not> holes_ok (merge_holes highs lows offset sz)"
proof -
  have nz: "offset + sz = 0" using wrap end_zero_iff [OF sz, of offset] by (simp add: add.commute)
  have "hole_ok (last highs)" using holes_okD [OF ok] assms(2) by simp
  then have nadj: "offset + sz \<noteq> h_offset (last highs)"
    unfolding nz by (auto simp: hole_defs)
  define m where "m = (if lows \<noteq> [] \<and> h_offset (hd lows) + h_size (hd lows) = offset
      then (hd lows)\<lparr>h_size := h_size (hd lows) + sz\<rparr> else \<lparr>h_offset = offset, h_size = sz\<rparr>)"
  have mem: "\<exists>rest. merge_holes highs lows offset sz = highs @ m # rest"
    using nadj by (auto simp: merge_holes_def m_def Let_def)
  have "hole_hi m = 18446744073709551616"
  proof (cases "lows \<noteq> [] \<and> h_offset (hd lows) + h_size (hd lows) = offset")
    case True
    then have hl: "hole_hi (hd lows) = unat offset" using lo low_adjacent_iff by blast
    moreover have "hole_ok (hd lows)" using holes_okD [OF ok] True by simp
    ultimately have "unat (h_size (hd lows) + sz) = unat (h_size (hd lows)) + unat sz"
      using wrap by (intro hole_grow) (auto simp: hole_defs)
    then show ?thesis using True hl wrap by (simp add: m_def hole_hi_def)
  next
    case False
    then have "m = \<lparr>h_offset = offset, h_size = sz\<rparr>" unfolding m_def by (rule if_not_P)
    then show ?thesis using wrap by (simp add: hole_hi_def)
  qed
  moreover have "hole_lo (last highs) < 18446744073709551616"
    by (simp add: hole_lo_def unat_lt_64)
  moreover have "hole_hi m < hole_lo (last highs)" if "holes_ok (merge_holes highs lows offset sz)"
    using mem that last_in_set [OF assms(2)] by (auto simp: holes_ok_append)
  ultimately show ?thesis by auto
qed

lemma free_correct:
  assumes inv: "vma_inv heap" and off: "0 < offset" and sz: "0 < sz"
    and bound: "unat offset + unat sz \<le> 18446744073709551616"
  shows "if range_of offset sz \<inter> free_set heap = {}
    then \<exists>heap'. util_vma_heap_free heap offset sz = Some heap' \<and> vma_inv heap' \<and>
           free_set heap' = free_set heap \<union> range_of offset sz \<and>
           alloc_high heap' = alloc_high heap \<and> nospan_shift heap' = nospan_shift heap
    else util_vma_heap_free heap offset sz = None"
proof -
  define highs where "highs = takeWhile (\<lambda>h. \<not> h_offset h \<le> offset) (holes heap)"
  define lows where "lows = dropWhile (\<lambda>h. \<not> h_offset h \<le> offset) (holes heap)"
  have okh: "holes_ok (holes heap)" using inv by (simp add: vma_inv_def)
  note split = split_at_offset [OF okh highs_def lows_def]
  have szn: "0 < unat sz" using sz by (simp add: word_less_nat_alt)
  have dis: "range_of offset sz \<inter> free_set heap = {} \<longleftrightarrow> between highs lows offset sz"
    unfolding free_set_def split(1) by (rule disjoint_iff_between [OF split(2) szn split(3,4)])
  have pre: "0 < offset" "0 < sz" "offset + sz = 0 \<or> offset < offset + sz"
      "util_vma_heap_validate heap"
    using end_ok_iff [OF sz, of offset] bound off sz inv by (simp_all add: add.commute validate_iff_inv)
  define heap' where "heap' = heap\<lparr>holes := merge_holes highs lows offset sz,
      free_size := free_size heap + sz\<rparr>"
  show ?thesis
  proof (cases "between highs lows offset sz")
    case True
    note m = merge_heap [OF inv split(1) True off sz bound heap'_def]
    have "util_vma_heap_free heap offset sz = Some heap'"
      using pre between_imp_assertions [OF True split(2)] m(1)
      by (simp add: util_vma_heap_free_def Let_def highs_def [symmetric] lows_def [symmetric]
        heap'_def [symmetric] validate_iff_inv)
    with True m show ?thesis unfolding dis by (simp add: heap'_def)
  next
    case False
    have "util_vma_heap_free heap offset sz = None"
    proof (rule ccontr)
      assume "util_vma_heap_free heap offset sz \<noteq> None"
      then have a: "highs \<noteq> [] \<longrightarrow> offset + sz \<le> h_offset (last highs)"
          "lows \<noteq> [] \<longrightarrow> h_offset (hd lows) < h_offset (hd lows) + h_size (hd lows)"
          "lows \<noteq> [] \<longrightarrow> h_offset (hd lows) + h_size (hd lows) \<le> offset"
          "holes_ok (merge_holes highs lows offset sz)"
        by (auto simp: util_vma_heap_free_def Let_def highs_def [symmetric] lows_def [symmetric]
          c_assert_def vma_inv_def validate_iff_inv split: if_splits)
      have "between [] lows offset sz"
        using assertions_imp_between [of "[]" lows, OF _ sz _ _ a(2,3) bound] split(2)
        by (simp add: holes_ok_append)
      then have "\<not> (highs \<noteq> [] \<and> unat offset + unat sz = 18446744073709551616)"
        using wrap_not_validated [OF split(2) _ sz] split(3) a(4) by (auto simp: between_def)
      then have "between highs lows offset sz"
        using bound by (intro assertions_imp_between [OF split(2) sz split(3) a(1-3)]) auto
      with False show False ..
    qed
    with False show ?thesis unfolding dis by simp
  qed
qed

section \<open>The hole list is determined by the free set\<close>

lemma holes_top:
  assumes "holes_ok (h # hs)"
  shows "a \<in> holes_set (h # hs) \<Longrightarrow> a < hole_hi h" "hole_hi h - 1 \<in> holes_set (h # hs)"
    "hole_lo h - 1 \<notin> holes_set (h # hs)" "holes_set hs = holes_set (h # hs) - hole_addrs h"
  using assms
  by (fastforce simp: holes_set_def hole_addrs_def hole_ok_def)+

lemma holes_canonical:
  assumes "holes_ok xs" and "holes_ok ys" and "holes_set xs = holes_set ys"
  shows "xs = ys"
  using assms
proof (induction xs arbitrary: ys)
  case Nil
  show ?case
  proof (cases ys)
    case (Cons y t)
    with Nil.prems holes_top(2) [of y t] show ?thesis by simp
  qed simp
next
  case (Cons x xs)
  note okx = Cons.prems(1)
  show ?case
  proof (cases ys)
    case Nil
    with Cons.prems holes_top(2) [OF okx] show ?thesis by simp
  next
    case ys: (Cons y t)
    have oky: "holes_ok (y # t)" and eq: "holes_set (x # xs) = holes_set (y # t)"
      using Cons.prems ys by simp_all
    have bx: "0 < hole_lo x" "hole_lo x < hole_hi x" and by': "0 < hole_lo y" "hole_lo y < hole_hi y"
      using okx oky by (simp_all add: hole_ok_def)
    have "hole_hi y - 1 < hole_hi x" "hole_hi x - 1 < hole_hi y"
      using holes_top(1,2) [OF okx] holes_top(1,2) [OF oky] eq by metis+
    then have hi: "hole_hi x = hole_hi y" using bx by' by linarith
    have nx: "hole_lo x - 1 \<notin> hole_addrs y" and ny: "hole_lo y - 1 \<notin> hole_addrs x"
      using holes_top(3) [OF okx] holes_top(3) [OF oky] eq by auto
    have lo: "hole_lo x = hole_lo y"
    proof (rule linorder_cases)
      assume "hole_lo x < hole_lo y"
      then have "hole_lo y - 1 \<in> hole_addrs x" using hi by' bx by (auto simp: hole_addrs_def)
      with ny show ?thesis ..
    next
      assume "hole_lo y < hole_lo x"
      then have "hole_lo x - 1 \<in> hole_addrs y" using hi by' bx by (auto simp: hole_addrs_def)
      with nx show ?thesis ..
    qed
    have "x = y"
      using lo hi by (simp add: hole_lo_def hole_hi_def unat_eq_u64 [symmetric])
    moreover have "holes_set xs = holes_set t"
      using holes_top(4) [OF okx] holes_top(4) [OF oky] eq \<open>x = y\<close> by metis
    then have "xs = t" using okx oky by (intro Cons.IH) simp_all
    ultimately show ?thesis using ys by simp
  qed
qed

lemma heap_canonical:
  assumes "vma_inv a" and "vma_inv b" and "free_set a = free_set b"
    and "alloc_high a = alloc_high b" and "nospan_shift a = nospan_shift b"
  shows "a = b"
proof -
  have hs: "holes a = holes b"
    using assms(1-3) by (intro holes_canonical) (simp_all add: vma_inv_def free_set_def)
  then have "free_size a = free_size b"
    using assms(1,2) by (simp add: vma_inv_def unat_eq_u64)
  with hs assms(4,5) show ?thesis by (cases a, cases b) simp
qed

section \<open>Clients of the heap\<close>

text \<open>
  A client keeps the list of ranges it was given. It may allocate with any size and alignment,
  and free any range it holds. \<open>'h\<close> is the heap type.
\<close>

type_synonym range = "u64 \<times> u64"

inductive va_step ::
  "('h \<Rightarrow> u64 \<Rightarrow> u64 \<Rightarrow> (u64 \<times> 'h) option) \<Rightarrow> ('h \<Rightarrow> u64 \<Rightarrow> u64 \<Rightarrow> 'h option) \<Rightarrow>
   'h \<times> range list \<Rightarrow> 'h \<times> range list \<Rightarrow> bool" for alloc dealloc where
  va_alloc: "0 < sz \<Longrightarrow> 0 < al \<Longrightarrow> alloc h sz al = Some (a, h') \<Longrightarrow> a \<noteq> 0 \<Longrightarrow>
     va_step alloc dealloc (h, live) (h', (a, sz) # live)"
| va_fail: "0 < sz \<Longrightarrow> 0 < al \<Longrightarrow> alloc h sz al = Some (0, h') \<Longrightarrow>
     va_step alloc dealloc (h, live) (h', live)"
| va_free: "(a, sz) \<in> set live \<Longrightarrow> dealloc h a sz = Some h' \<Longrightarrow>
     va_step alloc dealloc (h, live) (h', remove1 (a, sz) live)"

fun live_ok :: "range list \<Rightarrow> bool" where
  "live_ok [] = True"
| "live_ok ((a, sz) # live) =
     (0 < a \<and> 0 < sz \<and> unat a + unat sz \<le> 18446744073709551616 \<and>
      (\<forall>(b, sb) \<in> set live. range_of a sz \<inter> range_of b sb = {}) \<and> live_ok live)"

definition live_set :: "range list \<Rightarrow> nat set" where
  "live_set live = (\<Union>(a, sz) \<in> set live. range_of a sz)"

lemma live_set_simps [simp]:
  "live_set [] = {}"
  "live_set ((a, sz) # live) = range_of a sz \<union> live_set live"
  by (auto simp: live_set_def)

lemma range_nonempty: "0 < sz \<Longrightarrow> unat a \<in> range_of a sz"
  by (simp add: range_of_def word_less_nat_alt)

lemma live_ok_disjoint: "live_ok ((a, sz) # live) \<Longrightarrow> range_of a sz \<inter> live_set live = {}"
  by (fastforce simp: live_set_def)

lemma live_ok_mem:
  "live_ok live \<Longrightarrow> (a, sz) \<in> set live \<Longrightarrow>
     0 < a \<and> 0 < sz \<and> unat a + unat sz \<le> 18446744073709551616 \<and> range_of a sz \<subseteq> live_set live"
  by (induction live) (auto simp: live_set_def)

lemma live_ok_remove1:
  "live_ok live \<Longrightarrow> (a, sz) \<in> set live \<Longrightarrow>
     live_ok (remove1 (a, sz) live) \<and>
     live_set (remove1 (a, sz) live) = live_set live - range_of a sz"
proof (induction live)
  case Nil
  then show ?case by simp
next
  case (Cons r live)
  obtain b sb where r: "r = (b, sb)" by fastforce
  show ?case
  proof (cases "r = (a, sz)")
    case True
    then show ?thesis using Cons.prems live_ok_disjoint [of a sz live] by auto
  next
    case False
    then have mem: "(a, sz) \<in> set live" using Cons.prems by simp
    with Cons.IH Cons.prems(1) r
    have IH: "live_ok (remove1 (a, sz) live)"
        "live_set (remove1 (a, sz) live) = live_set live - range_of a sz" by auto
    have "range_of b sb \<inter> range_of a sz = {}" using Cons.prems(1) r mem by auto
    moreover have "\<forall>(c, sc) \<in> set (remove1 (a, sz) live). range_of b sb \<inter> range_of c sc = {}"
      using Cons.prems(1) r notin_set_remove1 by fastforce
    ultimately show ?thesis using IH False Cons.prems(1) r by auto
  qed
qed

locale va_allocator =
  fixes inv :: "'h \<Rightarrow> bool"
    and alloc :: "'h \<Rightarrow> u64 \<Rightarrow> u64 \<Rightarrow> (u64 \<times> 'h) option"
    and dealloc :: "'h \<Rightarrow> u64 \<Rightarrow> u64 \<Rightarrow> 'h option"
    and free :: "'h \<Rightarrow> nat set"
  assumes free_bound: "inv h \<Longrightarrow> free h \<subseteq> {1..<18446744073709551616}"
    and alloc_some: "inv h \<Longrightarrow> 0 < sz \<Longrightarrow> 0 < al \<Longrightarrow> alloc h sz al = Some (a, h') \<Longrightarrow> a \<noteq> 0 \<Longrightarrow>
      inv h' \<and> range_of a sz \<subseteq> free h \<and> free h' = free h - range_of a sz"
    and alloc_none: "inv h \<Longrightarrow> 0 < sz \<Longrightarrow> 0 < al \<Longrightarrow> alloc h sz al = Some (0, h') \<Longrightarrow> h' = h"
    and alloc_total: "inv h \<Longrightarrow> 0 < sz \<Longrightarrow> 0 < al \<Longrightarrow> \<exists>r. alloc h sz al = Some r"
    and dealloc_ok: "inv h \<Longrightarrow> 0 < a \<Longrightarrow> 0 < sz \<Longrightarrow> unat a + unat sz \<le> 18446744073709551616 \<Longrightarrow>
      range_of a sz \<inter> free h = {} \<Longrightarrow>
      \<exists>h'. dealloc h a sz = Some h' \<and> inv h' \<and> free h' = free h \<union> range_of a sz"
begin

text \<open>The address space \<open>all\<close> is divided between the free set and the live ranges.\<close>

definition client_inv :: "nat set \<Rightarrow> 'h \<times> range list \<Rightarrow> bool" where
  "client_inv all s \<longleftrightarrow> (case s of (h, live) \<Rightarrow>
     inv h \<and> live_ok live \<and> free h \<inter> live_set live = {} \<and> free h \<union> live_set live = all)"

lemma alloc_range_bound:
  assumes "inv h" and "0 < sz" and "range_of a sz \<subseteq> free h"
  shows "0 < a" "unat a + unat sz \<le> 18446744073709551616"
proof -
  have sub: "range_of a sz \<subseteq> {1..<18446744073709551616}" using assms free_bound by blast
  then show "0 < a" using range_nonempty [OF assms(2), of a] by (auto simp: word_less_nat_alt)
  have "unat a + unat sz - 1 \<in> range_of a sz"
    using assms(2) by (auto simp: range_of_def word_less_nat_alt)
  with sub have "unat a + unat sz - 1 \<in> {1..<18446744073709551616}" by blast
  then show "unat a + unat sz \<le> 18446744073709551616"
    unfolding atLeastLessThan_iff by linarith
qed

lemma client_step: "va_step alloc dealloc s t \<Longrightarrow> client_inv all s \<Longrightarrow> client_inv all t"
proof (induction rule: va_step.induct)
  case (va_alloc sz al h a h' live)
  then have inv: "inv h" and ok: "live_ok live" and dis: "free h \<inter> live_set live = {}"
    by (auto simp: client_inv_def)
  note h' = alloc_some [OF inv va_alloc(1-4)]
  note b = alloc_range_bound [OF inv va_alloc(1)]
  have "\<forall>(b, sb) \<in> set live. range_of a sz \<inter> range_of b sb = {}"
    using h' dis by (fastforce simp: live_set_def)
  then show ?case
    using va_alloc(1,5) h' b ok dis by (auto simp: client_inv_def)
next
  case (va_fail sz al h h' live)
  then have "h' = h" using alloc_none by (auto simp: client_inv_def)
  then show ?case using va_fail by simp
next
  case (va_free a sz live h h')
  then have inv: "inv h" and ok: "live_ok live" and dis: "free h \<inter> live_set live = {}"
    by (auto simp: client_inv_def)
  note m = live_ok_mem [OF ok va_free(1)] and r = live_ok_remove1 [OF ok va_free(1)]
  have "inv h'" "free h' = free h \<union> range_of a sz"
    using dealloc_ok [OF inv, of a sz] m dis va_free(2) by auto
  then show ?case using r m va_free(3) by (auto simp: client_inv_def)
qed

lemma client_reach:
  assumes "client_inv all s0" and "reach s0 (va_step alloc dealloc) s"
  shows "client_inv all s"
  using assms(2,1) by (induction rule: reach.induct) (auto intro: client_step)

lemma client_free_total:
  assumes "client_inv all (h, live)" and "(a, sz) \<in> set live"
  shows "\<exists>h'. dealloc h a sz = Some h'"
proof -
  from assms(1) have inv: "inv h" and ok: "live_ok live" and dis: "free h \<inter> live_set live = {}"
    by (auto simp: client_inv_def)
  from live_ok_mem [OF ok assms(2)] dis dealloc_ok [OF inv, of a sz] show ?thesis by auto
qed

end

definition vma_plain :: "util_vma_heap \<Rightarrow> bool" where
  "vma_plain heap \<longleftrightarrow> vma_inv heap \<and> nospan_shift heap = 0"

lemma free_set_bound: "vma_inv heap \<Longrightarrow> free_set heap \<subseteq> {1..<18446744073709551616}"
  by (fastforce simp: vma_inv_def free_set_def holes_set_def hole_addrs_def hole_ok_def
    dest: holes_okD)

interpretation vma: va_allocator vma_plain util_vma_heap_alloc util_vma_heap_free free_set
proof
  fix h :: util_vma_heap and a sz al :: u64 and h'
  assume "vma_plain h"
  then have inv: "vma_inv h" and ns: "nospan_shift h = 0" by (simp_all add: vma_plain_def)
  show "free_set h \<subseteq> {1..<18446744073709551616}" using inv by (rule free_set_bound)
  show "\<exists>h'. util_vma_heap_free h a sz = Some h' \<and> vma_plain h' \<and>
      free_set h' = free_set h \<union> range_of a sz"
    if "0 < a" "0 < sz" "unat a + unat sz \<le> 18446744073709551616" "range_of a sz \<inter> free_set h = {}"
    using free_correct [OF inv that(1-3)] that(4) ns by (auto simp: vma_plain_def)
  assume pos: "0 < sz" "0 < al"
  note post = alloc_correct [OF inv pos ns]
  show "\<exists>r. util_vma_heap_alloc h sz al = Some r" using post by blast
  show "vma_plain h' \<and> range_of a sz \<subseteq> free_set h \<and> free_set h' = free_set h - range_of a sz"
    if "util_vma_heap_alloc h sz al = Some (a, h')" "a \<noteq> 0"
    using post that ns by (auto simp: alloc_post_def vma_plain_def)
  show "h' = h" if "util_vma_heap_alloc h sz al = Some (0, h')"
    using post that by (auto simp: alloc_post_def)
qed

lemma init_correct:
  assumes start: "0 < start" and bound: "unat start + unat sz \<le> 18446744073709551616"
  shows "\<exists>heap. util_vma_heap_init start sz = Some heap \<and> vma_plain heap \<and>
    free_set heap = range_of start sz \<and> alloc_high heap"
proof -
  let ?e = "\<lparr>holes = [], free_size = 0, alloc_high = False, nospan_shift = 0\<rparr>"
  have inv: "vma_inv ?e" and fs: "free_set ?e = {}" by (simp_all add: vma_inv_def free_set_def)
  show ?thesis
  proof (cases "0 < sz")
    case True
    from free_correct [OF inv start True bound] fs obtain heap where
      "util_vma_heap_free ?e start sz = Some heap" "vma_inv heap" "free_set heap = range_of start sz"
      by auto
    then show ?thesis
      using True by (simp add: util_vma_heap_init_def Let_def vma_plain_def vma_inv_def free_set_def)
  next
    case False
    then have "range_of start sz = {}" by (simp add: range_of_def word_less_nat_alt)
    then show ?thesis
      using False inv
      by (simp add: util_vma_heap_init_def Let_def vma_plain_def vma_inv_def free_set_def)
  qed
qed

lemma init_client_inv:
  assumes "util_vma_heap_init start sz = Some heap" and "0 < start"
    and "unat start + unat sz \<le> 18446744073709551616"
  shows "vma.client_inv (range_of start sz) (heap, [])"
  using init_correct [OF assms(2,3)] assms(1) by (auto simp: vma.client_inv_def)

section \<open>No-span limits\<close>

text \<open>What the assertion on the alignment gives.\<close>

lemma align64_dvd:
  assumes "align64 (push_bit s 1) alignment = Some (push_bit s 1)" and "s < 64"
  shows "unat alignment dvd 2 ^ s"
proof -
  have a: "alignment \<noteq> 0" "alignment AND (alignment - 1) = 0"
      "(push_bit s 1 + alignment - 1) AND NOT (alignment - 1) = push_bit s (1 :: u64)"
    using assms(1) by (auto simp: align64_def c_assert_def split: bind_splits if_splits)
  obtain k where k: "alignment = 2 ^ k" "k < 64" "unat alignment = 2 ^ k" by (rule and_pred_zero_word [OF a(1,2)])
  have "k \<le> s"
  proof (rule ccontr)
    assume "\<not> k \<le> s"
    define x where "x = push_bit s 1 + alignment - 1"
    have "\<not> bit (x AND NOT (mask k)) s" using \<open>\<not> k \<le> s\<close> k(2) by (simp add: bit_simps)
    moreover have "x AND NOT (mask k) = push_bit s 1" using a(3) unfolding k(1) mask_eq_exp_minus_1 x_def .
    ultimately show False using assms(2) by (simp add: bit_simps)
  qed
  then show ?thesis using k(3) by (simp add: le_imp_power_dvd)
qed

lemma block_start_dvd: "2 ^ s dvd unat (e AND NOT (mask s) :: u64)"
proof -
  have "take_bit s (unat (e AND NOT (mask s))) = 0" by (auto simp: bit_eq_iff bit_simps unsigned_and_eq)
  then show ?thesis by (simp add: take_bit_eq_0_iff)
qed

text \<open>With a no-span limit: an offset whose assertions hold lies in the hole, and what the searches return is aligned.\<close>

lemma hole_alloc_fits:
  assumes "util_vma_hole_alloc heap i offset sz = Some heap'" and "hole_ok (holes heap ! i)" and "0 < sz" and "sz \<le> h_size (holes heap ! i)"
  shows "fits (holes heap ! i) offset sz"
proof -
  let ?h = "holes heap ! i"
  have lo: "h_offset ?h \<le> offset" using assms(1) by (auto simp: util_vma_hole_alloc_def Let_def c_assert_def split: if_splits)
  have "offset - h_offset ?h \<le> h_size ?h - sz"
    using assms(1) by (auto simp: util_vma_hole_alloc_def Let_def c_assert_def split: if_splits)
  then have "unat offset - unat (h_offset ?h) \<le> unat (h_size ?h) - unat sz"
    using lo assms(4) by (simp add: word_le_nat_alt unat_sub_u64)
  then show ?thesis using lo assms(2-4) by (simp add: fits_def hole_defs word_le_nat_alt word_less_nat_alt)
qed

definition attempt_aligned :: "u64 \<Rightarrow> u64 \<Rightarrow> util_vma_hole \<Rightarrow> u64 option option \<Rightarrow> bool" where
  "attempt_aligned sz alignment h r \<longleftrightarrow>
     (\<forall>offset. r = Some (Some offset) \<longrightarrow> sz \<le> h_size h \<and> unat alignment dvd unat offset)"

lemma alloc_high_aligned: "attempt_aligned sz alignment h (alloc_high_try heap h sz alignment)"
  by (auto simp: attempt_aligned_def alloc_high_try_def Let_def c_assert_def unat_align_down not_less split: if_splits)

lemma alloc_low_cases:
  assumes "alloc_low_try heap h sz alignment = Some (Some offset)"
  shows "alloc_low_try (heap\<lparr>nospan_shift := 0\<rparr>) h sz alignment = Some (Some offset) \<or> 
    nospan_shift heap \<noteq> 0 \<and> (\<exists>e. offset = e AND NOT (mask (nospan_shift heap)))"
  using assms by (auto simp: alloc_low_try_def Let_def split: if_splits)

lemma alloc_low_aligned:
  assumes "hole_ok h" and "0 < sz" and "0 < alignment" and "nospan_shift heap \<noteq> 0 \<Longrightarrow> unat alignment dvd 2 ^ nospan_shift heap"
  shows "attempt_aligned sz alignment h (alloc_low_try heap h sz alignment)"
  unfolding attempt_aligned_def
proof (intro allI impI conjI)
  fix offset
  assume r: "alloc_low_try heap h sz alignment = Some (Some offset)"
  then show "sz \<le> h_size h" by (auto simp: alloc_low_try_def not_less split: if_splits)
  show "unat alignment dvd unat offset"
    using alloc_low_cases [OF r]
  proof
    assume "alloc_low_try (heap\<lparr>nospan_shift := 0\<rparr>) h sz alignment = Some (Some offset)"
    then show ?thesis using alloc_low_attempt_ok [OF assms(1-3), of "heap\<lparr>nospan_shift := 0\<rparr>"] by (simp add: attempt_ok_def)
  next
    assume "nospan_shift heap \<noteq> 0 \<and> (\<exists>e. offset = e AND NOT (mask (nospan_shift heap)))"
    then show ?thesis using assms(4) block_start_dvd by (metis dvd_trans)
  qed
qed

lemma alloc_loop_nospan:
  assumes inv: "vma_inv heap" and sz: "0 < sz"
    and att: "\<And>h. h \<in> set (holes heap) \<Longrightarrow> attempt_aligned sz alignment h (attempt h)"
    and res: "alloc_loop attempt heap sz is = Some (offset, heap')" and idx: "set is \<subseteq> {..<length (holes heap)}"
  shows "if offset = 0 then heap' = heap
    else unat alignment dvd unat offset \<and> range_of offset sz \<subseteq> free_set heap \<and> vma_inv heap' \<and> free_set heap' = free_set heap - range_of offset sz"
  using res idx
proof (induction "is")
  case (Cons i "is")
  then have i: "i < length (holes heap)" by simp
  then have ok: "hole_ok (holes heap ! i)" and m: "holes heap ! i \<in> set (holes heap)"
    using inv by (auto simp: vma_inv_def intro: holes_okD)
  consider "attempt (holes heap ! i) = None" | "attempt (holes heap ! i) = Some None" | off where "attempt (holes heap ! i) = Some (Some off)"
    by (cases "attempt (holes heap ! i)") auto
  then show ?case
  proof cases
    case (3 off)
    have al: "sz \<le> h_size (holes heap ! i)" "unat alignment dvd unat off" using att [OF m] 3 by (auto simp: attempt_aligned_def)
    have a: "util_vma_hole_alloc heap i off sz = Some heap'" and oo: "offset = off"
      using Cons.prems(1) 3 by (auto simp: c_assert_def split: bind_splits if_splits)
    have f: "fits (holes heap ! i) off sz" by (rule hole_alloc_fits [OF a ok sz al(1)])
    then have "off \<noteq> 0" using fits_bounds [OF f] by auto
    then show ?thesis using hole_alloc_correct [OF f i inv] a al(2) oo by auto
  qed (use Cons in auto)
qed simp

lemma alloc_nospan:
  assumes inv: "vma_inv heap" and sz: "0 < sz" and al: "0 < alignment" and ns: "nospan_shift heap < 64"
    and res: "util_vma_heap_alloc heap sz alignment = Some (offset, heap')"
  shows "if offset = 0 then heap' = heap
    else unat alignment dvd unat offset \<and> range_of offset sz \<subseteq> free_set heap \<and> vma_inv heap' \<and> free_set heap' = free_set heap - range_of offset sz"
proof -
  have ok: "\<And>h. h \<in> set (holes heap) \<Longrightarrow> hole_ok h" using inv by (auto simp: vma_inv_def dest: holes_okD)
  have dv: "unat alignment dvd 2 ^ nospan_shift heap" if "nospan_shift heap \<noteq> 0"
    using res that align64_dvd [OF _ ns] by (auto simp: util_vma_heap_alloc_def c_assert_def split: if_splits)
  show ?thesis
  proof (cases "alloc_high heap")
    case True
    then have l: "alloc_loop (\<lambda>h. alloc_high_try heap h sz alignment) heap sz [0..<length (holes heap)] = Some (offset, heap')"
      using res by (auto simp: util_vma_heap_alloc_def c_assert_def split: if_splits)
    show ?thesis by (rule alloc_loop_nospan [OF inv sz alloc_high_aligned l]) auto
  next
    case False
    then have l: "alloc_loop (\<lambda>h. alloc_low_try heap h sz alignment) heap sz (rev [0..<length (holes heap)]) = Some (offset, heap')"
      using res by (auto simp: util_vma_heap_alloc_def c_assert_def split: if_splits)
    show ?thesis by (rule alloc_loop_nospan [OF inv sz alloc_low_aligned l]) (use ok sz al dv in auto)
  qed
qed

section \<open>Properties\<close>

text \<open>
  Property C1.  Allocation of a non-empty aligned range from a heap that passes
  \<open>util_vma_heap_validate\<close>, with or without a no-span limit.  Without one no assertion fails and 0 is
  returned only when no aligned range of the size is free.  With one an assertion can fail.
  Whenever the call returns, the heap is still valid; with 0 it is as it was, and otherwise the
  range returned is aligned and free, and exactly that range is taken out of the free set.
\<close>
theorem util_vma_heap_alloc_spec:
  assumes "util_vma_heap_validate heap" and "0 < sz" and "0 < alignment" and "nospan_shift heap < 64"
  shows "case util_vma_heap_alloc heap sz alignment of
      None \<Rightarrow> nospan_shift heap \<noteq> 0
    | Some (offset, heap') \<Rightarrow> util_vma_heap_validate heap' \<and>
        (if offset = 0
         then heap' = heap \<and> (nospan_shift heap = 0 \<longrightarrow> \<not> (\<exists>a. unat alignment dvd a \<and> {a..<a + unat sz} \<subseteq> free_set heap))
         else unat alignment dvd unat offset \<and> range_of offset sz \<subseteq> free_set heap \<and> free_set heap' = free_set heap - range_of offset sz)"
proof (cases "util_vma_heap_alloc heap sz alignment")
  case None
  then show ?thesis using alloc_correct [of heap sz alignment] assms by (auto simp: validate_iff_inv)
next
  case (Some r)
  obtain offset heap' where r: "r = (offset, heap')" by fastforce
  have inv: "vma_inv heap" using assms(1) by (simp add: validate_iff_inv)
  have "nospan_shift heap = 0 \<longrightarrow> offset = 0 \<longrightarrow> \<not> (\<exists>a. unat alignment dvd a \<and> {a..<a + unat sz} \<subseteq> free_set heap)"
    using alloc_correct [OF inv assms(2,3)] Some r by (auto simp: alloc_post_def)
  then show ?thesis using alloc_nospan [OF inv assms(2-4) Some [unfolded r]] inv Some r by (auto simp: validate_iff_inv split: if_splits)
qed

theorem util_vma_heap_alloc_spec_witness:
  "\<exists>offset heap'. util_vma_heap_alloc
      \<lparr>holes = [\<lparr>h_offset = 4096, h_size = 8192\<rparr>], free_size = 8192, alloc_high = True,
       nospan_shift = 0\<rparr> 100 256 = Some (offset, heap') \<and> util_vma_heap_validate heap'"
proof -
  let ?heap = "\<lparr>holes = [\<lparr>h_offset = 4096, h_size = 8192\<rparr>], free_size = 8192,
    alloc_high = True, nospan_shift = 0\<rparr>"
  have "util_vma_heap_validate ?heap" by (simp add: util_vma_heap_validate_def)
  from util_vma_heap_alloc_spec [OF this, of 100 256] show ?thesis by (auto split: option.splits)
qed

text \<open>
  Property C2.  Freeing a non-empty range succeeds exactly when no byte of it is free: a double
  or overlapping free fails an assertion, also when the end of the range wraps to 0. When it
  succeeds, the heap stays valid and exactly the range is added to the free set.
\<close>

theorem util_vma_heap_free_spec:
  assumes "util_vma_heap_validate heap" and "0 < offset" and "0 < sz"
    and "unat offset + unat sz \<le> 2 ^ 64"
  shows "(util_vma_heap_free heap offset sz = None \<longleftrightarrow> range_of offset sz \<inter> free_set heap \<noteq> {}) \<and>
    (\<forall>heap'. util_vma_heap_free heap offset sz = Some heap' \<longrightarrow>
       util_vma_heap_validate heap' \<and> free_set heap' = free_set heap \<union> range_of offset sz)"
  using free_correct [of heap offset sz] assms
  by (auto simp: validate_iff_inv split: if_splits)

theorem util_vma_heap_free_spec_witness:
  "util_vma_heap_free
      \<lparr>holes = [\<lparr>h_offset = 4096, h_size = 8192\<rparr>], free_size = 8192, alloc_high = True,
       nospan_shift = 0\<rparr> 8192 16 = None"
proof -
  let ?heap = "\<lparr>holes = [\<lparr>h_offset = 4096, h_size = 8192\<rparr>], free_size = 8192,
    alloc_high = True, nospan_shift = 0\<rparr>"
  have "util_vma_heap_validate ?heap" by (simp add: util_vma_heap_validate_def)
  moreover have "8192 \<in> range_of 8192 16 \<inter> free_set ?heap"
    by (simp add: range_of_def free_set_def hole_defs)
  ultimately show ?thesis using util_vma_heap_free_spec [of ?heap 8192 16] by auto
qed

text \<open>
  Allocation at a given address never fails an assertion; it succeeds exactly when
  the whole range is free, takes exactly that range, and otherwise leaves the heap unchanged.
\<close>

theorem util_vma_heap_alloc_addr_spec:
  assumes "util_vma_heap_validate heap" and "0 < offset" and "0 < sz"
    and "unat offset + unat sz \<le> 2 ^ 64"
  shows "\<exists>ok heap'. util_vma_heap_alloc_addr heap offset sz = Some (ok, heap') \<and>
    (ok \<longleftrightarrow> range_of offset sz \<subseteq> free_set heap) \<and> util_vma_heap_validate heap' \<and>
    (if ok then free_set heap' = free_set heap - range_of offset sz else heap' = heap)"
  using alloc_addr_correct [of heap offset sz] assms by (simp add: validate_iff_inv)

theorem util_vma_heap_alloc_addr_spec_witness:
  "\<exists>ok heap'. util_vma_heap_alloc_addr
      \<lparr>holes = [\<lparr>h_offset = 4096, h_size = 8192\<rparr>], free_size = 8192, alloc_high = True,
       nospan_shift = 0\<rparr> 8192 16 = Some (ok, heap') \<and> util_vma_heap_validate heap'"
proof -
  let ?heap = "\<lparr>holes = [\<lparr>h_offset = 4096, h_size = 8192\<rparr>], free_size = 8192,
    alloc_high = True, nospan_shift = 0\<rparr>"
  have "util_vma_heap_validate ?heap" by (simp add: util_vma_heap_validate_def)
  from util_vma_heap_alloc_addr_spec [OF this, of 8192 16] show ?thesis by auto
qed

text \<open>
  Freeing what was just allocated restores the heap exactly, the list of holes and
  the free byte count included.
\<close>

theorem util_vma_heap_alloc_free_roundtrip:
  assumes "util_vma_heap_validate heap" and "nospan_shift heap = 0"
    and "util_vma_heap_alloc heap sz alignment = Some (offset, heap')" and "offset \<noteq> 0"
  shows "util_vma_heap_free heap' offset sz = Some heap"
proof -
  have pos: "0 < sz" "0 < alignment" and inv: "vma_inv heap"
    using assms(1,3) by (auto simp: util_vma_heap_alloc_def c_assert_def validate_iff_inv split: if_splits)
  from alloc_correct [OF inv pos assms(2)] assms(3,4) have a: "vma_inv heap'"
      "free_set heap' = free_set heap - range_of offset sz" "range_of offset sz \<subseteq> free_set heap"
      "alloc_high heap' = alloc_high heap" "nospan_shift heap' = nospan_shift heap"
    by (auto simp: alloc_post_def)
  have plain: "vma_plain heap" using inv assms(2) by (simp add: vma_plain_def)
  from free_correct [OF a(1) vma.alloc_range_bound(1) [OF plain pos(1) a(3)] pos(1)
      vma.alloc_range_bound(2) [OF plain pos(1) a(3)]] a(2)
  obtain heap'' where f: "util_vma_heap_free heap' offset sz = Some heap''" "vma_inv heap''"
      "free_set heap'' = free_set heap' \<union> range_of offset sz"
      "alloc_high heap'' = alloc_high heap'" "nospan_shift heap'' = nospan_shift heap'"
    by auto
  have "heap'' = heap" using a f inv by (intro heap_canonical) auto
  with f show ?thesis by simp
qed

theorem util_vma_heap_alloc_free_roundtrip_witness:
  "util_vma_heap_free
      \<lparr>holes = [\<lparr>h_offset = 12132, h_size = 156\<rparr>, \<lparr>h_offset = 4096, h_size = 7936\<rparr>], free_size = 8092,
       alloc_high = True, nospan_shift = 0\<rparr> 12032 100 =
    Some \<lparr>holes = [\<lparr>h_offset = 4096, h_size = 8192\<rparr>], free_size = 8192, alloc_high = True,
       nospan_shift = 0\<rparr>"
proof -
  let ?heap = "\<lparr>holes = [\<lparr>h_offset = 4096, h_size = 8192\<rparr>], free_size = 8192,
    alloc_high = True, nospan_shift = 0\<rparr> :: util_vma_heap"
  have v: "util_vma_heap_validate ?heap" by (simp add: util_vma_heap_validate_def)
  have "util_vma_heap_alloc ?heap 100 256 = Some (12032,
      \<lparr>holes = [\<lparr>h_offset = 12132, h_size = 156\<rparr>, \<lparr>h_offset = 4096, h_size = 7936\<rparr>],
       free_size = 8092, alloc_high = True, nospan_shift = 0\<rparr>)"
    by (simp add: util_vma_heap_alloc_def util_vma_heap_validate_def alloc_high_try_def
      util_vma_hole_alloc_def Let_def c_assert_def)
  from util_vma_heap_alloc_free_roundtrip [OF v _ this] show ?thesis by simp
qed

lemma holes_sum_card:
  "holes_ok hs \<Longrightarrow> finite (holes_set hs) \<and> card (holes_set hs) = holes_sum hs"
proof (induction hs)
  case Nil
  then show ?case by simp
next
  case (Cons h hs)
  have "hole_addrs h \<inter> holes_set hs = {}"
    using holes_set_other [of "[]" h hs] Cons.prems by simp
  moreover have "finite (hole_addrs h)" "card (hole_addrs h) = unat (h_size h)"
    by (simp_all add: hole_defs)
  ultimately show ?case using Cons by (simp add: card_Un_disjoint)
qed

text \<open>
  The run-time check \<open>util_vma_heap_validate\<close>, with its wrapping sums, accepts
  exactly the heaps whose holes are non-empty, start above address 0, end at most at \<open>2 ^ 64\<close>,
  are listed from high to low with a gap between any two, and whose \<open>free_size\<close> is the
  number of free addresses.
\<close>

theorem util_vma_heap_validate_iff:
  "util_vma_heap_validate heap \<longleftrightarrow>
     list_all (\<lambda>h. 0 < unat (h_offset h) \<and> 0 < unat (h_size h) \<and>
       unat (h_offset h) + unat (h_size h) \<le> 2 ^ 64) (holes heap) \<and>
     sorted_wrt (\<lambda>h l. unat (h_offset l) + unat (h_size l) < unat (h_offset h)) (holes heap) \<and>
     unat (free_size heap) = card (free_set heap)"
proof -
  have ok: "(\<lambda>h. 0 < unat (h_offset h) \<and> 0 < unat (h_size h) \<and>
       unat (h_offset h) + unat (h_size h) \<le> 2 ^ 64) = hole_ok"
    by (auto simp: hole_defs fun_eq_iff)
  have "holes_ok (holes heap) \<Longrightarrow> card (free_set heap) = holes_sum (holes heap)"
    using holes_sum_card by (simp add: free_set_def)
  then show ?thesis
    unfolding ok validate_iff_inv vma_inv_def holes_ok_def hole_hi_def hole_lo_def by auto
qed

text \<open>
  Property C3.  A client of a freshly initialised heap that allocates any ranges and frees only
  ranges it holds, in any order, always holds pairwise disjoint non-empty ranges; what it holds
  and what is free divide the initial range; and no free of a range it holds fails an assertion.
\<close>

theorem util_vma_heap_client_safe:
  assumes "util_vma_heap_init start sz = Some heap" and "0 < start"
    and "unat start + unat sz \<le> 2 ^ 64"
    and "reach (heap, []) (va_step util_vma_heap_alloc util_vma_heap_free) (h, live)"
  shows "live_ok live \<and> free_set h \<inter> live_set live = {} \<and>
    free_set h \<union> live_set live = range_of start sz \<and>
    (\<forall>(a, n) \<in> set live. \<exists>h'. util_vma_heap_free h a n = Some h')"
proof -
  have "vma.client_inv (range_of start sz) (h, live)"
    using init_client_inv [OF assms(1,2)] assms(3,4) by (simp add: vma.client_reach)
  then show ?thesis
    using vma.client_free_total by (fastforce simp: vma.client_inv_def)
qed

theorem util_vma_heap_client_safe_witness:
  "live_ok [(12032, 100)] \<and>
   free_set \<lparr>holes = [\<lparr>h_offset = 12132, h_size = 156\<rparr>, \<lparr>h_offset = 4096, h_size = 7936\<rparr>],
       free_size = 8092, alloc_high = True, nospan_shift = 0\<rparr> \<union> live_set [(12032, 100)] =
     range_of 4096 8192"
proof -
  let ?heap = "\<lparr>holes = [\<lparr>h_offset = 4096, h_size = 8192\<rparr>], free_size = 8192,
    alloc_high = True, nospan_shift = 0\<rparr> :: util_vma_heap"
  let ?heap' = "\<lparr>holes = [\<lparr>h_offset = 12132, h_size = 156\<rparr>, \<lparr>h_offset = 4096, h_size = 7936\<rparr>],
       free_size = 8092, alloc_high = True, nospan_shift = 0\<rparr> :: util_vma_heap"
  have init: "util_vma_heap_init 4096 8192 = Some ?heap"
    by (simp add: util_vma_heap_init_def util_vma_heap_free_def util_vma_heap_validate_def
      merge_holes_def Let_def c_assert_def)
  have "util_vma_heap_alloc ?heap 100 256 = Some (12032, ?heap')"
    by (simp add: util_vma_heap_alloc_def util_vma_heap_validate_def alloc_high_try_def
      util_vma_hole_alloc_def Let_def c_assert_def)
  then have "va_step util_vma_heap_alloc util_vma_heap_free (?heap, []) (?heap', [(12032, 100)])"
    by (intro va_step.va_alloc [where al = 256]) simp_all
  then have "reach (?heap, []) (va_step util_vma_heap_alloc util_vma_heap_free)
      (?heap', [(12032, 100)])"
    by (intro reach.reach_step [OF reach.reach_init])
  from util_vma_heap_client_safe [OF init _ _ this] show ?thesis by simp
qed

lemma fold_max_le: "fold (\<lambda>h m. max m (h_size h)) hs a \<le> x \<longleftrightarrow> a \<le> x \<and> (\<forall>h \<in> set hs. h_size h \<le> x)"
  by (induction hs arbitrary: a) auto

lemma fold_max_in:
  "fold (\<lambda>h m. max m (h_size h)) hs a = a \<or>
     (\<exists>h \<in> set hs. fold (\<lambda>h m. max m (h_size h)) hs a = h_size h)"
proof (induction hs arbitrary: a)
  case (Cons h hs)
  from Cons.IH [of "max a (h_size h)"] show ?case
    by (cases "a \<le> h_size h") (auto simp: max_def)
qed simp

text \<open>
  \<open>util_vma_heap_get_max_free_continuous_size\<close> is exact: some contiguous range of
  \<open>n\<close> bytes is free if and only if \<open>n\<close> is at most the reported size.
\<close>

theorem util_vma_heap_max_free_exact:
  assumes "util_vma_heap_validate heap" and "0 < n"
  shows "(\<exists>a. {a..<a + n} \<subseteq> free_set heap) \<longleftrightarrow>
    n \<le> unat (util_vma_heap_get_max_free_continuous_size heap)"
proof -
  let ?m = "util_vma_heap_get_max_free_continuous_size heap"
  have ok: "holes_ok (holes heap)" using assms(1) by (simp add: validate_iff_inv vma_inv_def)
  have all: "h_size h \<le> ?m" if "h \<in> set (holes heap)" for h
    using that fold_max_le [of "holes heap" 0 ?m]
    by (simp add: util_vma_heap_get_max_free_continuous_size_def)
  show ?thesis
  proof
    assume "\<exists>a. {a..<a + n} \<subseteq> free_set heap"
    then obtain a h where "h \<in> set (holes heap)" "hole_lo h \<le> a" "a + n \<le> hole_hi h"
      unfolding free_set_def using range_in_one_hole [OF ok _ assms(2)] by blast
    with all [of h] show "n \<le> unat ?m" by (simp add: word_le_nat_alt hole_defs)
  next
    assume n: "n \<le> unat ?m"
    then have "?m \<noteq> 0" using assms(2) by auto
    then obtain h where h: "h \<in> set (holes heap)" "?m = h_size h"
      using fold_max_in [of "holes heap" 0]
      unfolding util_vma_heap_get_max_free_continuous_size_def by auto
    have "{hole_lo h..<hole_lo h + n} \<subseteq> hole_addrs h" using n h by (auto simp: hole_defs)
    then show "\<exists>a. {a..<a + n} \<subseteq> free_set heap"
      using h by (auto simp: free_set_def holes_set_def)
  qed
qed

theorem util_vma_heap_max_free_exact_witness:
  "\<exists>a. {a..<a + 8192} \<subseteq> free_set \<lparr>holes = [\<lparr>h_offset = 4096, h_size = 8192\<rparr>],
     free_size = 8192, alloc_high = True, nospan_shift = 0\<rparr>"
proof -
  let ?heap = "\<lparr>holes = [\<lparr>h_offset = 4096, h_size = 8192\<rparr>], free_size = 8192,
    alloc_high = True, nospan_shift = 0\<rparr>"
  have "util_vma_heap_validate ?heap" by (simp add: util_vma_heap_validate_def)
  moreover have "unat (util_vma_heap_get_max_free_continuous_size ?heap) = 8192"
    by (simp add: util_vma_heap_get_max_free_continuous_size_def)
  ultimately show ?thesis using util_vma_heap_max_free_exact [of ?heap 8192] by simp
qed

text \<open>
  With a no-span limit, allocation from the top can return a range that spans two
  blocks although the size fits into one: the code moves the offset down by the size instead of
  to below the block boundary it has just computed. Here blocks are 16 bytes, the hole is
  \<open>[8, 36)\<close> and the request is 12 bytes; the range returned is \<open>[12, 24)\<close>.
\<close>

theorem nospan_high_can_span:
  "\<exists>heap heap' offset. util_vma_heap_validate heap \<and> alloc_high heap \<and> nospan_shift heap = 4 \<and>
     util_vma_heap_alloc heap 12 1 = Some (offset, heap') \<and> offset \<noteq> 0 \<and>
     drop_bit 4 offset \<noteq> drop_bit 4 (offset + 12 - 1)"
proof -
  let ?heap = "\<lparr>holes = [\<lparr>h_offset = 8, h_size = 28\<rparr>], free_size = 28, alloc_high = True,
    nospan_shift = 4\<rparr> :: util_vma_heap"
  have v: "util_vma_heap_validate ?heap" by (simp add: util_vma_heap_validate_def)
  have a: "\<exists>heap'. util_vma_heap_alloc ?heap 12 1 = Some (12, heap')"
    by (simp add: util_vma_heap_alloc_def util_vma_heap_validate_def alloc_high_try_def align64_def
      util_vma_hole_alloc_def Let_def c_assert_def push_bit_eq_mult drop_bit_eq_div mask_eq_exp_minus_1)
  then obtain heap' where "util_vma_heap_alloc ?heap 12 1 = Some (12, heap')" by blast
  with v show ?thesis
    by (intro exI [of _ ?heap] exI [of _ heap'] exI [of _ 12]) simp
qed

text \<open>
  With a no-span limit the assertion that a range fits below the block boundary can fail: here the
  hole is \<open>[4, 24)\<close>, blocks are 16 bytes and the request has the size of the hole.
\<close>

lemma nospan_high_asserts:
  "util_vma_heap_validate \<lparr>holes = [\<lparr>h_offset = 4, h_size = 20\<rparr>], free_size = 20, alloc_high = True, nospan_shift = 4\<rparr> \<and>
   util_vma_heap_alloc \<lparr>holes = [\<lparr>h_offset = 4, h_size = 20\<rparr>], free_size = 20, alloc_high = True, nospan_shift = 4\<rparr> 20 1 = None"
    by (simp add: util_vma_heap_alloc_def util_vma_heap_validate_def alloc_high_try_def align64_def
      util_vma_hole_alloc_def Let_def c_assert_def push_bit_eq_mult drop_bit_eq_div mask_eq_exp_minus_1)

end
