(* ===== verification/Kbase_Sync.thy ===== *)
theory Kbase_Sync
  imports Mesa_Prelude
begin

text \<open>
  The process-wide table of sync objects in \<open>src/panfrost/lib/kmod/kbase_kmod.c\<close> (functions
  \<open>ks_*\<close> and \<open>pan_kmod_kbase_sync_*\<close>): binary objects indexed by handle, with the waits,
  transfers and sync-file imports and exports the Vulkan runtime expects of DRM syncobjs.

  Every operation holds \<open>ks_lock\<close> while it touches the table, so each is one state
  transformer here; a wait releases the lock between two passes over its handles, so a pass is
  one transformer and the wait is a loop over a list of wake-ups, each with the clock and the
  \<open>poll\<close> results it sees and what other threads did to the table while it slept. File
  descriptors are those of POSIX: \<open>dup\<close> returns the lowest free number or fails, \<open>close\<close>
  frees one. Pointers into the table are indices. The table's \<open>uint32_t\<close> capacity is the
  length of the list; doubling it wraps at \<open>2 ^ 32\<close> as in the source.
\<close>

section \<open>File descriptors\<close>

record os =
  fds :: "int list"
  fd_limit :: nat

definition EBADF :: int where "EBADF = 9"
definition ENOMEM :: int where "ENOMEM = 12"
definition EINVAL :: int where "EINVAL = 22"
definition EMFILE :: int where "EMFILE = 24"
definition ENOSYS :: int where "ENOSYS = 38"
definition ETIME :: int where "ETIME = 62"

lemmas errno_defs = EBADF_def ENOMEM_def EINVAL_def EMFILE_def ENOSYS_def ETIME_def

definition os_lowest :: "int list \<Rightarrow> int" where
  "os_lowest used =
     (case filter (\<lambda>n. n \<notin> set used) (map int [0..<Suc (length used)]) of
        [] \<Rightarrow> int (length used) | n # _ \<Rightarrow> n)"

definition os_dup :: "int \<Rightarrow> os \<Rightarrow> (int + int) \<times> os" where
  "os_dup fd os =
     (if fd \<notin> set (fds os) then (Inl EBADF, os)
      else if fd_limit os \<le> length (fds os) then (Inl EMFILE, os)
      else let n = os_lowest (fds os) in (Inr n, os\<lparr>fds := n # fds os\<rparr>))"

definition os_close :: "int \<Rightarrow> os \<Rightarrow> os" where
  "os_close fd os = os\<lparr>fds := remove1 fd (fds os)\<rparr>"

text \<open>The \<open>int\<close> that \<open>dup\<close> returns: -1 on failure.\<close>

definition dup_result :: "int + int \<Rightarrow> int" where
  "dup_result r = (case r of Inl _ \<Rightarrow> -1 | Inr n \<Rightarrow> n)"

section \<open>The table\<close>

datatype ks_state = KS_FREE | KS_UNSIGNALED | KS_SIGNALED | KS_SUBMITTED

record ks_obj =
  o_state :: ks_state
  o_external :: bool
  o_fd :: int

record ks =
  ks_objs :: "ks_obj list"
  ks_hint :: nat
  ks_errno :: int
  ks_os :: os

definition free_obj :: ks_obj where
  "free_obj = \<lparr>o_state = KS_FREE, o_external = False, o_fd = -1\<rparr>"

definition ks_ret :: "int \<Rightarrow> ks \<Rightarrow> int \<times> ks" where
  "ks_ret ret s = (ret, if ret < 0 then s\<lparr>ks_errno := - ret\<rparr> else s)"

definition ks_get :: "ks \<Rightarrow> nat \<Rightarrow> nat option" where
  "ks_get s h =
     (if h \<noteq> 0 \<and> h \<le> length (ks_objs s) \<and> o_state (ks_objs s ! (h - 1)) \<noteq> KS_FREE
      then Some (h - 1) else None)"

definition ks_set_state :: "nat \<Rightarrow> ks_state \<Rightarrow> int \<Rightarrow> ks \<Rightarrow> ks" where
  "ks_set_state i st fd s =
     (let obj = ks_objs s ! i
      in s\<lparr>ks_objs := (ks_objs s)[i := \<lparr>o_state = st, o_external = False, o_fd = fd\<rparr>],
           ks_os := (if 0 \<le> o_fd obj then os_close (o_fd obj) (ks_os s) else ks_os s)\<rparr>)"

text \<open>The loop \<open>while (i < ks_cap && ks_objs[i].state != KS_FREE) i++\<close>.\<close>

function ks_scan :: "ks_obj list \<Rightarrow> nat \<Rightarrow> nat" where
  "ks_scan objs i =
     (if i < length objs \<and> o_state (objs ! i) \<noteq> KS_FREE then ks_scan objs (Suc i) else i)"
  by pat_completeness auto
termination
  by (relation "measure (\<lambda>(objs, i). length objs - i)") auto

declare ks_scan.simps [simp del]

text \<open>
  \<open>ks_create\<close>. \<open>realloc_ok\<close> says whether \<open>realloc\<close> finds the memory; a size of 0, which a
  wrapped capacity would ask for, counts as a failure. Bit 0 of the flags is
  \<open>DRM_SYNCOBJ_CREATE_SIGNALED\<close>. The result carries the handle.
\<close>

definition ks_create :: "bool \<Rightarrow> u32 \<Rightarrow> ks \<Rightarrow> int \<times> nat option \<times> ks" where
  "ks_create realloc_ok flags s =
     (let objs = ks_objs s; ks_cap = length objs;
          i = ks_scan objs (ks_hint s);
          i = (if ks_cap \<le> i then ks_scan objs 0 else i);
          commit = (\<lambda>objs i. s\<lparr>ks_objs := objs[i := \<lparr>
                 o_state = (if bit flags 0 then KS_SIGNALED else KS_UNSIGNALED),
                 o_external = False, o_fd = -1\<rparr>], ks_hint := i + 1\<rparr>)
      in if ks_cap \<le> i
         then let cap = (if ks_cap \<noteq> 0 then ks_cap * 2 mod 2 ^ 32 else 256)
              in if cap = 0 \<or> \<not> realloc_ok
                 then (case ks_ret (- ENOMEM) s of (ret, s') \<Rightarrow> (ret, None, s'))
                 else (0, Some (ks_cap + 1),
                       commit (objs @ replicate (cap - ks_cap) free_obj) ks_cap)
         else (0, Some (i + 1), commit objs i))"

definition ks_destroy :: "nat \<Rightarrow> ks \<Rightarrow> int \<times> ks" where
  "ks_destroy handle s =
     (case ks_get s handle of
        Some i \<Rightarrow> let s' = ks_set_state i KS_FREE (-1) s
                  in ks_ret 0 (s'\<lparr>ks_hint := min (ks_hint s') (handle - 1)\<rparr>)
      | None \<Rightarrow> ks_ret (- EINVAL) s)"

fun ks_set :: "nat list \<Rightarrow> ks_state \<Rightarrow> int \<Rightarrow> ks \<Rightarrow> int \<times> ks" where
  "ks_set [] st ret s = (ret, s)"
| "ks_set (h # hs) st ret s =
     (case ks_get s h of
        Some i \<Rightarrow> ks_set hs st ret (ks_set_state i st (-1) s)
      | None \<Rightarrow> ks_set hs st (- EINVAL) s)"

definition ks_signal :: "nat list \<Rightarrow> ks \<Rightarrow> int \<times> ks" where
  "ks_signal hs s = (case ks_set hs KS_SIGNALED 0 s of (ret, s') \<Rightarrow> ks_ret ret s')"

definition ks_reset :: "nat list \<Rightarrow> ks \<Rightarrow> int \<times> ks" where
  "ks_reset hs s = (case ks_set hs KS_UNSIGNALED 0 s of (ret, s') \<Rightarrow> ks_ret ret s')"

definition pan_kmod_kbase_sync_submitted :: "nat list \<Rightarrow> ks \<Rightarrow> ks" where
  "pan_kmod_kbase_sync_submitted hs s = snd (ks_set hs KS_SUBMITTED 0 s)"

fun attach_loop :: "nat list \<Rightarrow> int \<Rightarrow> ks \<Rightarrow> ks" where
  "attach_loop [] fd s = s"
| "attach_loop (h # hs) fd s =
     (case ks_get s h of
        Some i \<Rightarrow>
          (let obj = ks_objs s ! i
           in if o_state obj = KS_SUBMITTED \<and> o_fd obj < 0
              then case os_dup fd (ks_os s) of (r, os') \<Rightarrow>
                     attach_loop hs fd (s\<lparr>ks_objs := (ks_objs s)[i := obj\<lparr>o_fd := dup_result r\<rparr>],
                                          ks_os := os'\<rparr>)
              else attach_loop hs fd s)
      | None \<Rightarrow> attach_loop hs fd s)"

definition pan_kmod_kbase_sync_attach_fd :: "nat list \<Rightarrow> int \<Rightarrow> ks \<Rightarrow> ks" where
  "pan_kmod_kbase_sync_attach_fd hs fd s = (if fd < 0 then s else attach_loop hs fd s)"

section \<open>Waiting\<close>

definition UINT32_MAX :: nat where "UINT32_MAX = 4294967295"
definition INT64_MAX :: int where "INT64_MAX = 9223372036854775807"

text \<open>
  One pass over the handles: the counters \<open>done\<close>, \<open>first\<close> and \<open>external\<close>, or \<open>None\<close> at
  a handle that names no object. \<open>poll fd\<close> says whether the sync file is readable.
\<close>

fun ks_wait_pass ::
  "(int \<Rightarrow> bool) \<Rightarrow> bool \<Rightarrow> nat list \<Rightarrow> nat \<Rightarrow> nat \<times> nat \<times> bool \<Rightarrow> ks \<Rightarrow>
   (nat \<times> nat \<times> bool) option \<times> ks" where
  "ks_wait_pass poll available [] i c s = (Some c, s)"
| "ks_wait_pass poll available (h # hs) i (done', first, external) s =
     (case ks_get s h of
        None \<Rightarrow> (None, s)
      | Some k \<Rightarrow>
          (let obj = ks_objs s ! k;
               ext = (o_state obj = KS_SUBMITTED \<and> o_external obj);
               sig = (o_fd obj < 0 \<or> poll (o_fd obj));
               s' = (if ext \<and> sig then ks_set_state k KS_SIGNALED (-1) s else s);
               external' = (if ext \<and> \<not> sig then True else external);
               obj' = ks_objs s' ! k
           in if o_state obj' = KS_SIGNALED \<or> (available \<and> o_state obj' = KS_SUBMITTED)
              then ks_wait_pass poll available hs (Suc i) (Suc done', min first i, external') s'
              else ks_wait_pass poll available hs (Suc i) (done', first, external') s'))"

text \<open>What one iteration of the wait loop sees, and what happens while it sleeps.\<close>

record wake =
  w_poll :: "int \<Rightarrow> bool"
  w_now :: int
  w_other :: "ks \<Rightarrow> ks"

text \<open>
  \<open>ks_wait_locked\<close>. Bits 0 and 2 of the flags are \<open>WAIT_ALL\<close> and \<open>WAIT_AVAILABLE\<close>; the
  timeout is an \<open>int64_t\<close> compared as a \<open>uint64_t\<close>. The list of wake-ups is consumed one
  per iteration; \<open>None\<close> means that the wait has not ended within it. The result carries the
  value stored through \<open>first_signaled\<close>.
\<close>

fun ks_wait_locked ::
  "wake list \<Rightarrow> nat list \<Rightarrow> int \<Rightarrow> u32 \<Rightarrow> ks \<Rightarrow> (int \<times> nat option \<times> ks) option" where
  "ks_wait_locked [] handles timeout_nsec flags s = None"
| "ks_wait_locked (w # ws) handles timeout_nsec flags s =
     (case ks_wait_pass (w_poll w) (bit flags 2) handles 0 (0, UINT32_MAX, False) s of
        (None, s') \<Rightarrow> Some (- EINVAL, None, s')
      | (Some (done', first, external), s') \<Rightarrow>
          if (if bit flags 0 then done' = length handles else 0 < done')
          then Some (0, Some (if first = UINT32_MAX then 0 else first), s')
          else if timeout_nsec \<noteq> INT64_MAX \<and> timeout_nsec mod 2 ^ 64 \<le> w_now w
          then Some (- ETIME, None, s')
          else ks_wait_locked ws handles timeout_nsec flags (w_other w s'))"

definition ks_wait ::
  "wake list \<Rightarrow> nat list \<Rightarrow> int \<Rightarrow> u32 \<Rightarrow> ks \<Rightarrow> (int \<times> nat option \<times> ks) option" where
  "ks_wait ws handles timeout_nsec flags s =
     (case ks_wait_locked ws handles timeout_nsec flags s of
        None \<Rightarrow> None
      | Some (ret, first, s') \<Rightarrow> (case ks_ret ret s' of (ret, s'') \<Rightarrow> Some (ret, first, s'')))"

definition ks_timeline_wait ::
  "wake list \<Rightarrow> nat list \<Rightarrow> u64 list \<Rightarrow> int \<Rightarrow> u32 \<Rightarrow> ks \<Rightarrow> (int \<times> nat option \<times> ks) option" where
  "ks_timeline_wait ws handles points timeout_nsec flags s =
     ks_wait ws handles timeout_nsec flags s"

definition ks_query :: "ks \<Rightarrow> int \<times> ks" where
  "ks_query s = ks_ret (- ENOSYS) s"

definition ks_no_fd :: "ks \<Rightarrow> int \<times> ks" where
  "ks_no_fd s = ks_ret (- ENOSYS) s"

definition ks_no_handle :: "ks \<Rightarrow> int \<times> ks" where
  "ks_no_handle s = ks_ret (- ENOSYS) s"

section \<open>Transfer, export, import\<close>

definition ks_transfer :: "nat \<Rightarrow> nat \<Rightarrow> ks \<Rightarrow> int \<times> ks" where
  "ks_transfer dst src s =
     (case (ks_get s dst, ks_get s src) of
        (Some d, Some k) \<Rightarrow>
          (if d \<noteq> k
           then let obj = ks_objs s ! k;
                    (fd, os') = (if 0 \<le> o_fd obj
                                 then case os_dup (o_fd obj) (ks_os s) of (r, os') \<Rightarrow> (dup_result r, os')
                                 else (-1, ks_os s));
                    s' = ks_set_state d (o_state obj) fd (s\<lparr>ks_os := os'\<rparr>);
                    s'' = s'\<lparr>ks_objs := (ks_objs s')[d := (ks_objs s' ! d)\<lparr>o_external := o_external obj\<rparr>]\<rparr>
                in ks_ret 0 s''
           else ks_ret 0 s)
      | _ \<Rightarrow> ks_ret (- EINVAL) s)"

text \<open>
  \<open>ks_export_sync_file\<close>: the clock at entry, then the wake-ups of its two waits. The result
  carries the value stored through \<open>out_fd\<close>.
\<close>

definition ks_export_sync_file ::
  "int \<Rightarrow> wake list \<Rightarrow> wake list \<Rightarrow> nat \<Rightarrow> ks \<Rightarrow> (int \<times> int option \<times> ks) option" where
  "ks_export_sync_file now ws ws' handle s =
     (let deadline = now + 10 * 1000000000;
          finish = (\<lambda>ret s. if ret \<noteq> 0
                            then case ks_ret ret s of (ret, s') \<Rightarrow> Some (ret, None, s')
                            else Some (0, Some (-1), s))
      in case ks_wait_locked ws [handle] deadline 4 s of
           None \<Rightarrow> None
         | Some (ret, first, s1) \<Rightarrow>
             (case (if ret \<noteq> 0 then None else ks_get s1 handle) of
                None \<Rightarrow> finish ret s1
              | Some i \<Rightarrow>
                  (let obj = ks_objs s1 ! i
                   in if o_state obj = KS_SUBMITTED
                      then if 0 \<le> o_fd obj
                           then case os_dup (o_fd obj) (ks_os s1) of
                                  (Inr n, os') \<Rightarrow> Some (0, Some n, s1\<lparr>ks_os := os'\<rparr>)
                                | (Inl e, os') \<Rightarrow>
                                    (case ks_ret (- e) (s1\<lparr>ks_os := os'\<rparr>) of
                                       (ret, s2) \<Rightarrow> Some (ret, Some (-1), s2))
                           else case ks_wait_locked ws' [handle] deadline 0 s1 of
                                  None \<Rightarrow> None
                                | Some (ret, first, s2) \<Rightarrow> finish ret s2
                      else finish ret s1)))"

definition ks_import_sync_file :: "(int \<Rightarrow> bool) \<Rightarrow> nat \<Rightarrow> int \<Rightarrow> ks \<Rightarrow> int \<times> ks" where
  "ks_import_sync_file poll handle fd s =
     (if fd < 0 \<or> poll fd then ks_signal [handle] s
      else case os_dup fd (ks_os s) of
             (Inl e, os') \<Rightarrow> ks_ret (- e) (s\<lparr>ks_os := os'\<rparr>)
           | (Inr copy, os') \<Rightarrow>
               (let s1 = s\<lparr>ks_os := os'\<rparr>
                in case ks_get s1 handle of
                     Some i \<Rightarrow>
                       (let s2 = ks_set_state i KS_SUBMITTED copy s1
                        in ks_ret 0 (s2\<lparr>ks_objs := (ks_objs s2)[i := (ks_objs s2 ! i)\<lparr>o_external := True\<rparr>]\<rparr>))
                   | None \<Rightarrow> ks_ret (- EINVAL) (s1\<lparr>ks_os := os_close copy (ks_os s1)\<rparr>)))"

section \<open>The invariant\<close>

definition owned :: "ks_obj list \<Rightarrow> int list" where
  "owned objs = filter (\<lambda>f. 0 \<le> f) (map o_fd objs)"

definition obj_ok :: "ks_obj \<Rightarrow> bool" where
  "obj_ok obj \<longleftrightarrow> -1 \<le> o_fd obj \<and> (0 \<le> o_fd obj \<or> o_external obj \<longrightarrow> o_state obj = KS_SUBMITTED)"

text \<open>The capacities \<open>ks_create\<close> grows the table through: 0, then doublings of 256.\<close>

definition cap_ok :: "nat \<Rightarrow> bool" where
  "cap_ok n \<longleftrightarrow> n = 0 \<or> (\<exists>k \<le> 23. n = 256 * 2 ^ k)"

text \<open>
  Only a submitted object has a sync file or is external; every sync file of the table is open,
  belongs to one object only, and the process's descriptors are distinct and non-negative.
\<close>

definition ks_inv :: "ks \<Rightarrow> bool" where
  "ks_inv s \<longleftrightarrow> cap_ok (length (ks_objs s)) \<and> list_all obj_ok (ks_objs s) \<and> distinct (owned (ks_objs s)) \<and>
     set (owned (ks_objs s)) \<subseteq> set (fds (ks_os s)) \<and> distinct (fds (ks_os s)) \<and>
     list_all (\<lambda>f. 0 \<le> f) (fds (ks_os s))"

text \<open>The descriptors of the process that the table does not own.\<close>

definition foreign :: "ks \<Rightarrow> int set" where
  "foreign s = set (fds (ks_os s)) - set (owned (ks_objs s))"

lemma owned_simps [simp]:
  "owned [] = []"
  "owned (x # xs) = (if 0 \<le> o_fd x then o_fd x # owned xs else owned xs)"
  "owned (xs @ ys) = owned xs @ owned ys"
  by (auto simp: owned_def)

lemma split_update:
  "i < length xs \<Longrightarrow> xs = take i xs @ xs ! i # drop (Suc i) xs \<and>
     xs[i := y] = take i xs @ y # drop (Suc i) xs"
  by (simp add: id_take_nth_drop upd_conv_take_nth_drop)

lemma owned_update_same: "i < length xs \<Longrightarrow> o_fd y = o_fd (xs ! i) \<Longrightarrow> owned (xs[i := y]) = owned xs"
  by (metis list_update_id map_update owned_def)

lemma list_all_update:
  "list_all P xs \<Longrightarrow> P y \<Longrightarrow> list_all P (xs[i := y])"
  by (auto simp: list_all_iff dest!: set_update_subset_insert [THEN subsetD])

lemma set_owned: "set (owned objs) = {f. 0 \<le> f \<and> (\<exists>obj \<in> set objs. o_fd obj = f)}"
  by (auto simp: owned_def)

lemma os_lowest_fresh: "distinct used \<Longrightarrow> os_lowest used \<notin> set used \<and> 0 \<le> os_lowest used"
proof -
  let ?f = "filter (\<lambda>n. n \<notin> set used) (map int [0..<Suc (length used)])"
  have "?f \<noteq> []"
  proof
    assume "?f = []"
    then have "set (map int [0..<Suc (length used)]) \<subseteq> set used"
      unfolding filter_empty_conv by blast
    then have "card (set (map int [0..<Suc (length used)])) \<le> length used"
      by (meson card_length card_mono List.finite_set order_trans)
    then show False by (simp add: card_image inj_on_def del: upt_Suc)
  qed
  then obtain n ns where f: "?f = n # ns" by (cases ?f) auto
  then have "n \<in> set ?f" by (metis list.set_intros(1))
  then have "n \<notin> set used" "0 \<le> n" by (auto simp del: upt_Suc)
  moreover have "os_lowest used = n" unfolding os_lowest_def f by simp
  ultimately show ?thesis by simp
qed

lemma os_dup_Inr:
  "os_dup fd os = (Inr n, os') \<Longrightarrow> distinct (fds os) \<Longrightarrow>
     n \<notin> set (fds os) \<and> 0 \<le> n \<and> os' = os\<lparr>fds := n # fds os\<rparr>"
  using os_lowest_fresh [of "fds os"] by (auto simp: os_dup_def Let_def split: if_splits)

lemma os_dup_Inl: "os_dup fd os = (Inl e, os') \<Longrightarrow> os' = os \<and> 0 < e"
  by (auto simp: os_dup_def errno_defs Let_def split: if_splits)

lemma ks_getD:
  "ks_get s h = Some i \<Longrightarrow> i < length (ks_objs s) \<and> o_state (ks_objs s ! i) \<noteq> KS_FREE \<and> h = Suc i"
  by (auto simp: ks_get_def split: if_splits)

text \<open>A descriptor just duplicated belongs to the caller until it is stored in the table.\<close>

lemma ks_inv_dup:
  assumes "ks_inv s" and "os_dup fd (ks_os s) = (Inr n, os')"
  shows "ks_inv (s\<lparr>ks_os := os'\<rparr>)" "foreign (s\<lparr>ks_os := os'\<rparr>) = insert n (foreign s)"
    "0 \<le> n" "n \<in> foreign (s\<lparr>ks_os := os'\<rparr>)"
  using assms os_dup_Inr [OF assms(2)] by (auto simp: ks_inv_def foreign_def)

lemma ks_set_state_inv:
  assumes inv: "ks_inv s" and i: "i < length (ks_objs s)"
    and fd: "fd = -1 \<or> 0 \<le> fd \<and> fd \<in> foreign s \<and> st = KS_SUBMITTED"
  shows "ks_inv (ks_set_state i st fd s)" "foreign (ks_set_state i st fd s) = foreign s - {fd}"
proof -
  let ?y = "\<lparr>o_state = st, o_external = False, o_fd = fd\<rparr>"
  obtain pre x post where xs: "ks_objs s = pre @ x # post" and x: "ks_objs s ! i = x"
      and upd: "(ks_objs s)[i := ?y] = pre @ ?y # post"
    using split_update [OF i] by blast
  have d: "distinct (owned (pre @ x # post))" "set (owned (pre @ x # post)) \<subseteq> set (fds (ks_os s))"
      "distinct (fds (ks_os s))" "list_all (\<lambda>f. 0 \<le> f) (fds (ks_os s))" "list_all obj_ok (pre @ x # post)"
    using inv xs by (simp_all add: ks_inv_def)
  have fd': "0 \<le> fd \<Longrightarrow> fd \<in> set (fds (ks_os s)) \<and> fd \<notin> set (owned (pre @ x # post)) \<and> st = KS_SUBMITTED"
    using fd xs by (auto simp: foreign_def)
  have neg: "-1 \<notin> set (fds (ks_os s))" using d(4) by (auto simp: list_all_iff)
  have new: "ks_set_state i st fd s = s\<lparr>ks_objs := pre @ ?y # post,
      ks_os := (if 0 \<le> o_fd x then os_close (o_fd x) (ks_os s) else ks_os s)\<rparr>"
    by (simp add: ks_set_state_def Let_def upd x)
  show "ks_inv (ks_set_state i st fd s)"
    unfolding new using d fd' fd inv
    by (auto simp: ks_inv_def obj_ok_def os_close_def list_all_iff xs)
  show "foreign (ks_set_state i st fd s) = foreign s - {fd}"
    unfolding new using d fd' fd neg by (auto simp: foreign_def os_close_def xs)
qed

text \<open>
  What every operation keeps: the invariant, and the descriptors it does not own up to those it
  hands out. \<open>keeps s t out\<close> relates the states before and after.
\<close>

definition keeps :: "ks \<Rightarrow> ks \<Rightarrow> int set \<Rightarrow> bool" where
  "keeps s t out \<longleftrightarrow> (ks_inv s \<longrightarrow> ks_inv t \<and> foreign t = foreign s \<union> out)"

lemma keeps_refl: "keeps s s {}"
  by (simp add: keeps_def)

lemma keeps_trans: "keeps s t {} \<Longrightarrow> keeps t u out \<Longrightarrow> keeps s u out"
  by (simp add: keeps_def)

lemma foreign_nonneg: "ks_inv s \<Longrightarrow> -1 \<notin> foreign s"
  by (auto simp: ks_inv_def foreign_def list_all_iff)

lemma ks_inv_other [simp]:
  "ks_inv (s\<lparr>ks_hint := h\<rparr>) = ks_inv s" "ks_inv (s\<lparr>ks_errno := e\<rparr>) = ks_inv s"
  "foreign (s\<lparr>ks_hint := h\<rparr>) = foreign s" "foreign (s\<lparr>ks_errno := e\<rparr>) = foreign s"
  by (simp_all add: ks_inv_def foreign_def)

lemma keeps_ret: "keeps s t out \<Longrightarrow> keeps s (snd (ks_ret r t)) out"
  by (simp add: keeps_def ks_ret_def)

lemma keeps_hint: "keeps s t out \<Longrightarrow> keeps s (t\<lparr>ks_hint := h\<rparr>) out"
  by (simp add: keeps_def)

lemma keeps_set_state: "i < length (ks_objs s) \<Longrightarrow> keeps s (ks_set_state i st (-1) s) {}"
  using ks_set_state_inv [of s i "-1" st] foreign_nonneg by (auto simp: keeps_def)

lemma keeps_get_set_state: "ks_get s h = Some i \<Longrightarrow> keeps s (ks_set_state i st (-1) s) {}"
  using keeps_set_state ks_getD by blast

lemma owned_replicate_free [simp]: "owned (replicate n free_obj) = []"
  by (induction n) (simp_all add: free_obj_def)

lemma free_obj_fd [simp]: "o_fd free_obj = -1" "o_state free_obj = KS_FREE"
  by (simp_all add: free_obj_def)

lemma keeps_fresh_obj:
  assumes "obj = \<lparr>o_state = st, o_external = False, o_fd = -1\<rparr>"
    and "objs = ks_objs s @ replicate n free_obj" and "i < length objs"
    and "o_fd (objs ! i) < 0" and cap: "cap_ok (length (ks_objs s)) \<longrightarrow> cap_ok (length objs)"
  shows "keeps s (s\<lparr>ks_objs := objs[i := obj]\<rparr>) {}"
proof -
  obtain pre x post where xs: "objs = pre @ x # post" "objs ! i = x" "objs[i := obj] = pre @ obj # post"
    using split_update [OF assms(3)] by blast
  have own: "owned (pre @ obj # post) = owned (ks_objs s)"
  proof -
    have "owned objs = owned (ks_objs s)" by (simp add: assms(2))
    then show ?thesis using assms(1,4) xs by simp
  qed
  have "list_all obj_ok objs" if "ks_inv s"
    using that by (auto simp: ks_inv_def assms(2) list_all_iff obj_ok_def free_obj_def)
  then have "list_all obj_ok (pre @ obj # post)" if "ks_inv s"
    using that assms(1) by (simp add: xs(1) obj_ok_def)
  with own cap show ?thesis unfolding xs(3) by (simp add: keeps_def ks_inv_def foreign_def xs(1))
qed

lemma ks_scan_le: "ks_scan objs i < length objs \<Longrightarrow> o_state (objs ! ks_scan objs i) = KS_FREE"
  by (induction objs i rule: ks_scan.induct) (subst (asm) (2) ks_scan.simps, subst ks_scan.simps, auto split: if_splits)

lemma ks_scan_ge: "i \<le> ks_scan objs i"
  by (induction objs i rule: ks_scan.induct) (subst ks_scan.simps, auto)

lemma ks_scan_full:
  "length objs \<le> ks_scan objs i \<Longrightarrow> i \<le> k \<Longrightarrow> k < length objs \<Longrightarrow> o_state (objs ! k) \<noteq> KS_FREE"
proof (induction objs i rule: ks_scan.induct)
  case (1 objs i)
  show ?case
  proof (cases "i < length objs \<and> o_state (objs ! i) \<noteq> KS_FREE")
    case True
    then show ?thesis using 1 by (cases "i = k") (auto simp: ks_scan.simps [of objs i])
  next
    case False
    then show ?thesis using 1 by (auto simp: ks_scan.simps [of objs i])
  qed
qed

lemma free_obj_no_fd: "ks_inv s \<Longrightarrow> i < length (ks_objs s) \<Longrightarrow> o_state (ks_objs s ! i) = KS_FREE \<Longrightarrow>
    o_fd (ks_objs s ! i) < 0"
  by (auto simp: ks_inv_def list_all_length obj_ok_def)

lemma cap_ok_double:
  assumes "cap_ok n"
  defines "cap \<equiv> (if n \<noteq> 0 then n * 2 mod 2 ^ 32 else 256)"
  shows "cap = 0 \<or> n < cap \<and> cap_ok cap"
proof (cases "n = 0")
  case True
  then show ?thesis by (auto simp: cap_def cap_ok_def intro: exI [of _ 0])
next
  case False
  then obtain k where k: "k \<le> 23" "n = 256 * 2 ^ k" using assms(1) by (auto simp: cap_ok_def)
  show ?thesis
  proof (cases "k = 23")
    case True
    then show ?thesis using k False by (simp add: cap_def)
  next
    case lt: False
    then have "(2 :: nat) ^ k \<le> 2 ^ 22" using k(1) by (intro power_increasing) auto
    then have "cap = 256 * 2 ^ Suc k" using k False by (simp add: cap_def)
    then show ?thesis using k lt by (auto simp: cap_ok_def intro!: exI [of _ "Suc k"])
  qed
qed

named_theorems ks_keeps \<open>every operation on the table keeps the invariant and leaks no descriptor\<close>

text \<open>The three outcomes of \<open>ks_create\<close>: no memory, a free slot reused, the table grown.\<close>

definition created :: "u32 \<Rightarrow> ks_obj" where
  "created flags = \<lparr>o_state = (if bit flags 0 then KS_SIGNALED else KS_UNSIGNALED),
     o_external = False, o_fd = -1\<rparr>"

lemma ks_create_cases:
  assumes "ks_create ok flags s = (ret, h, t)" and inv: "ks_inv s"
  obtains (nomem) "ret = - ENOMEM" "h = None" "t = s\<lparr>ks_errno := ENOMEM\<rparr>"
      "\<And>i. i < length (ks_objs s) \<Longrightarrow> o_state (ks_objs s ! i) \<noteq> KS_FREE"
    | (reuse) i where "ret = 0" "h = Some (Suc i)" "i < length (ks_objs s)"
      "o_state (ks_objs s ! i) = KS_FREE"
      "t = s\<lparr>ks_objs := (ks_objs s)[i := created flags], ks_hint := Suc i\<rparr>"
    | (grow) n where "ret = 0" "h = Some (Suc (length (ks_objs s)))" "0 < n"
      "cap_ok (length (ks_objs s) + n)"
      "\<And>i. i < length (ks_objs s) \<Longrightarrow> o_state (ks_objs s ! i) \<noteq> KS_FREE"
      "t = s\<lparr>ks_objs := (ks_objs s @ replicate n free_obj)[length (ks_objs s) := created flags],
             ks_hint := Suc (length (ks_objs s))\<rparr>"
proof -
  let ?objs = "ks_objs s"
  define i where "i = (if length ?objs \<le> ks_scan ?objs (ks_hint s) then ks_scan ?objs 0
      else ks_scan ?objs (ks_hint s))"
  define cap where "cap = (if length ?objs \<noteq> 0 then length ?objs * 2 mod 2 ^ 32 else 256)"
  note c = assms(1) [unfolded ks_create_def Let_def i_def [symmetric] cap_def [symmetric]
      created_def [symmetric]]
  show thesis
  proof (cases "length ?objs \<le> i")
    case True
    then have "length ?objs \<le> ks_scan ?objs 0" by (simp add: i_def split: if_splits)
    then have full: "\<And>i. i < length ?objs \<Longrightarrow> o_state (?objs ! i) \<noteq> KS_FREE"
      using ks_scan_full [of ?objs 0] by blast
    have cap: "cap = 0 \<or> length ?objs < cap \<and> cap_ok cap"
      using inv cap_ok_double [of "length ?objs"] by (simp add: cap_def ks_inv_def)
    show thesis
    proof (cases "cap = 0 \<or> \<not> ok")
      case fail: True
      show thesis
        by (rule nomem) (use c True fail full in \<open>auto simp: ks_ret_def ENOMEM_def\<close>)
    next
      case False
      with cap have "length ?objs < cap" "cap_ok cap" by auto
      then show thesis
        using c True False full by (intro grow [of "cap - length ?objs"]) auto
    qed
  next
    case False
    then have "o_state (?objs ! i) = KS_FREE"
      using ks_scan_le [of ?objs] by (auto simp: i_def split: if_splits)
    then show thesis using c False by (intro reuse [of i]) auto
  qed
qed

lemma keeps_create [ks_keeps]: "ks_create ok flags s = (ret, h, t) \<Longrightarrow> keeps s t {}"
proof (cases "ks_inv s")
  case True
  assume "ks_create ok flags s = (ret, h, t)"
  from this True show ?thesis
  proof (cases rule: ks_create_cases)
    case nomem
    then show ?thesis by (simp add: keeps_def)
  next
    case (reuse i)
    then have "keeps s (s\<lparr>ks_objs := (ks_objs s)[i := created flags]\<rparr>) {}"
      using free_obj_no_fd [OF True] by (intro keeps_fresh_obj [where n = 0, OF created_def]) auto
    then show ?thesis using reuse(5) keeps_hint by auto
  next
    case (grow n)
    then have "keeps s (s\<lparr>ks_objs := (ks_objs s @ replicate n free_obj)
        [length (ks_objs s) := created flags]\<rparr>) {}"
      by (intro keeps_fresh_obj [where n = n, OF created_def]) (auto simp: nth_append free_obj_def)
    then show ?thesis using grow(6) keeps_hint by auto
  qed
qed (simp add: keeps_def)

lemma keeps_destroy [ks_keeps]: "keeps s (snd (ks_destroy h s)) {}"
  by (auto simp: ks_destroy_def Let_def split: option.splits
    intro!: keeps_ret keeps_hint keeps_refl keeps_get_set_state)

lemma keeps_ks_set [ks_keeps]: "keeps s (snd (ks_set hs st ret s)) {}"
proof (induction hs arbitrary: ret s)
  case (Cons h hs)
  show ?case
  proof (cases "ks_get s h")
    case (Some i)
    from keeps_trans [OF keeps_get_set_state [OF Some] Cons.IH] show ?thesis by (simp add: Some)
  qed (simp add: Cons.IH)
qed (simp add: keeps_refl)

lemma keeps_signal [ks_keeps]: "keeps s (snd (ks_signal hs s)) {}"
  and keeps_reset [ks_keeps]: "keeps s (snd (ks_reset hs s)) {}"
  and keeps_submitted [ks_keeps]: "keeps s (pan_kmod_kbase_sync_submitted hs s) {}"
  using keeps_ks_set [of s hs]
  by (auto simp: ks_signal_def ks_reset_def pan_kmod_kbase_sync_submitted_def
    intro!: keeps_ret split: prod.splits) (metis snd_conv)+

lemma keeps_attach_one:
  assumes g: "ks_get s h = Some i" and st: "o_state (ks_objs s ! i) = KS_SUBMITTED"
    and fd: "o_fd (ks_objs s ! i) < 0" and dup: "os_dup f (ks_os s) = (r, os')"
  shows "keeps s (s\<lparr>ks_objs := (ks_objs s)[i := (ks_objs s ! i)\<lparr>o_fd := dup_result r\<rparr>], ks_os := os'\<rparr>) {}"
    (is "keeps s ?t {}")
  unfolding keeps_def
proof
  assume inv: "ks_inv s"
  note i = ks_getD [OF g]
  obtain pre x post where xs: "ks_objs s = pre @ x # post" "ks_objs s ! i = x"
      "\<And>y. (ks_objs s)[i := y] = pre @ y # post"
    using i split_update [of i "ks_objs s"] by blast
  have x: "o_state x = KS_SUBMITTED" "o_fd x < 0" using st fd xs(2) by simp_all
  note [simp] = dup_result_def ks_inv_def foreign_def obj_ok_def xs(1)
  have t: "?t = s\<lparr>ks_objs := pre @ x\<lparr>o_fd := dup_result r\<rparr> # post, ks_os := os'\<rparr>"
    unfolding xs(2,3) ..
  show "ks_inv ?t \<and> foreign ?t = foreign s \<union> {}"
  proof (cases r)
    case (Inl e)
    then show ?thesis
      using inv os_dup_Inl [of f "ks_os s" e os'] dup x unfolding t by auto
  next
    case (Inr n)
    have "distinct (fds (ks_os s))" using inv by (simp add: ks_inv_def)
    with os_dup_Inr [of f "ks_os s" n os'] dup Inr
    have n: "n \<notin> set (fds (ks_os s))" "0 \<le> n" "os' = (ks_os s)\<lparr>fds := n # fds (ks_os s)\<rparr>" by auto
    then show ?thesis
      using inv x unfolding t by (auto simp: Inr)
  qed
qed

lemma keeps_attach [ks_keeps]: "keeps s (pan_kmod_kbase_sync_attach_fd hs f s) {}"
proof -
  have "keeps s (attach_loop hs f s) {}"
  proof (induction hs arbitrary: s)
    case (Cons h hs)
    show ?case
    proof (cases "ks_get s h")
      case (Some i)
      show ?thesis
        using Cons.IH keeps_trans [OF keeps_attach_one [OF Some] Cons.IH]
        by (auto simp: Some Let_def split: prod.splits)
    qed (simp add: Cons.IH)
  qed (simp add: keeps_refl)
  then show ?thesis by (simp add: pan_kmod_kbase_sync_attach_fd_def keeps_refl)
qed

lemma keeps_wait_pass [ks_keeps]: "keeps s (snd (ks_wait_pass poll av hs i c s)) {}"
proof (induction poll av hs i c s rule: ks_wait_pass.induct)
  case (1 poll av i c s)
  then show ?case by (simp add: keeps_refl)
next
  case (2 poll av h hs i done' first external s)
  show ?case
  proof (cases "ks_get s h")
    case None
    then show ?thesis by (simp add: keeps_refl)
  next
    case (Some k)
    note g = keeps_get_set_state [OF Some, of KS_SIGNALED]
    show ?thesis
      using 2 [OF Some refl refl refl refl refl refl] keeps_trans [OF g]
      by (auto simp: Some Let_def)
  qed
qed

lemma keeps_wait_locked [ks_keeps]:
  assumes "ks_wait_locked ws hs tmo flags s = Some (ret, first, t)"
    and "\<And>w u. w \<in> set ws \<Longrightarrow> keeps u (w_other w u) {}"
  shows "keeps s t {}"
  using assms
proof (induction ws arbitrary: s)
  case (Cons w ws)
  obtain r s' where p: "ks_wait_pass (w_poll w) (bit flags 2) hs 0 (0, UINT32_MAX, False) s = (r, s')"
    by fastforce
  have k: "keeps s s' {}" using keeps_wait_pass p by (metis snd_conv)
  have k': "keeps s (w_other w s') {}" using keeps_trans [OF k] Cons.prems(2) by simp
  show ?case
    using Cons.prems(1) k keeps_trans [OF k' Cons.IH] Cons.prems(2)
    by (auto simp: p split: option.splits if_splits)
qed simp

lemma set_external_inv:
  assumes "ks_inv s" and "i < length (ks_objs s)" and "b \<longrightarrow> o_state (ks_objs s ! i) = KS_SUBMITTED"
    and "t = s\<lparr>ks_objs := (ks_objs s)[i := (ks_objs s ! i)\<lparr>o_external := b\<rparr>]\<rparr>"
  shows "ks_inv t \<and> foreign t = foreign s"
proof -
  have "obj_ok ((ks_objs s ! i)\<lparr>o_external := b\<rparr>)"
    using assms(1-3) by (auto simp: ks_inv_def list_all_length obj_ok_def)
  then show ?thesis
    using assms owned_update_same [OF assms(2), of "(ks_objs s ! i)\<lparr>o_external := b\<rparr>"]
    by (auto simp: ks_inv_def foreign_def intro: list_all_update)
qed

lemma dup_copy:
  assumes inv: "ks_inv s" and ok: "obj_ok obj"
    and dup: "(if 0 \<le> o_fd obj then case os_dup (o_fd obj) (ks_os s) of
        (r, os') \<Rightarrow> (dup_result r, os') else (-1, ks_os s)) = (fd, os')"
  shows "ks_inv (s\<lparr>ks_os := os'\<rparr>) \<and> foreign (s\<lparr>ks_os := os'\<rparr>) - {fd} = foreign s \<and>
    (fd = -1 \<or> 0 \<le> fd \<and> fd \<in> foreign (s\<lparr>ks_os := os'\<rparr>) \<and> o_state obj = KS_SUBMITTED)"
proof (cases "0 \<le> o_fd obj")
  case f: True
  obtain r where r: "os_dup (o_fd obj) (ks_os s) = (r, os')" "fd = dup_result r"
    using dup f by (auto split: prod.splits)
  show ?thesis
  proof (cases r)
    case (Inl e)
    then have "os' = ks_os s" using r os_dup_Inl by blast
    then show ?thesis using r Inl inv foreign_nonneg by (auto simp: dup_result_def)
  next
    case (Inr n)
    then have "n \<notin> foreign s"
      using os_dup_Inr [of "o_fd obj" "ks_os s" n os'] r inv by (auto simp: foreign_def ks_inv_def)
    then show ?thesis
      using ks_inv_dup [OF inv, of "o_fd obj" n os'] r Inr f ok
      by (auto simp: dup_result_def obj_ok_def)
  qed
qed (use dup inv foreign_nonneg in auto)

lemma keeps_transfer [ks_keeps]: "keeps s (snd (ks_transfer dst src s)) {}"
proof (cases "ks_inv s \<and> (\<exists>d k. ks_get s dst = Some d \<and> ks_get s src = Some k \<and> d \<noteq> k)")
  case False
  then show ?thesis
    by (auto simp: ks_transfer_def keeps_def ks_ret_def split: option.splits)
next
  case True
  then obtain d k where inv: "ks_inv s" and g: "ks_get s dst = Some d" "ks_get s src = Some k" "d \<noteq> k"
    by blast
  let ?obj = "ks_objs s ! k"
  have ok: "obj_ok ?obj" using inv ks_getD [OF g(2)] by (auto simp: ks_inv_def list_all_length)
  obtain fd os' where dup: "(if 0 \<le> o_fd ?obj then case os_dup (o_fd ?obj) (ks_os s) of
      (r, os') \<Rightarrow> (dup_result r, os') else (-1, ks_os s)) = (fd, os')" by fastforce
  note s1 = dup_copy [OF inv ok dup]
  let ?s2 = "ks_set_state d (o_state ?obj) fd (s\<lparr>ks_os := os'\<rparr>)"
  have s2: "ks_inv ?s2" "foreign ?s2 = foreign s"
    using ks_set_state_inv [of "s\<lparr>ks_os := os'\<rparr>" d fd "o_state ?obj"] s1 ks_getD [OF g(1)] by auto
  let ?t = "?s2\<lparr>ks_objs := (ks_objs ?s2)[d := (ks_objs ?s2 ! d)\<lparr>o_external := o_external ?obj\<rparr>]\<rparr>"
  have "ks_inv ?t \<and> foreign ?t = foreign ?s2"
    using ok ks_getD [OF g(1)]
    by (intro set_external_inv [OF s2(1) _ _ refl]) (auto simp: ks_set_state_def Let_def obj_ok_def)
  then have "keeps s ?t {}" using s2 by (simp add: keeps_def)
  then show ?thesis using g dup by (auto simp: ks_transfer_def Let_def intro!: keeps_ret)
qed

lemma keeps_import_live:
  assumes inv: "ks_inv s" and dup: "os_dup fd (ks_os s) = (Inr n, os')"
    and g: "ks_get (s\<lparr>ks_os := os'\<rparr>) h = Some i" and s2: "s2 = ks_set_state i KS_SUBMITTED n (s\<lparr>ks_os := os'\<rparr>)"
  shows "keeps s (s2\<lparr>ks_objs := (ks_objs s2)[i := (ks_objs s2 ! i)\<lparr>o_external := True\<rparr>]\<rparr>) {}"
proof -
  note s1 = ks_inv_dup [OF inv dup]
  have "n \<notin> foreign s"
    using os_dup_Inr [OF dup] inv by (auto simp: foreign_def ks_inv_def)
  then have k: "ks_inv s2" "foreign s2 = foreign s"
    using ks_set_state_inv [of "s\<lparr>ks_os := os'\<rparr>" i n KS_SUBMITTED] s1 ks_getD [OF g] by (auto simp: s2)
  have "i < length (ks_objs s2)" "o_state (ks_objs s2 ! i) = KS_SUBMITTED"
    using ks_getD [OF g] by (simp_all add: ks_set_state_def Let_def s2)
  with set_external_inv [OF k(1) _ _ refl] k show ?thesis by (auto simp: keeps_def)
qed

lemma keeps_import [ks_keeps]: "keeps s (snd (ks_import_sync_file poll h fd s)) {}"
proof (cases "ks_inv s \<and> \<not> (fd < 0 \<or> poll fd)")
  case False
  then show ?thesis using keeps_signal by (auto simp: ks_import_sync_file_def keeps_def)
next
  case True
  then have inv: "ks_inv s" by simp
  obtain r os' where dup: "os_dup fd (ks_os s) = (r, os')" by fastforce
  show ?thesis
  proof (cases r)
    case (Inl e)
    then show ?thesis
      using True dup os_dup_Inl [of fd "ks_os s" e os']
      by (auto simp: ks_import_sync_file_def intro!: keeps_ret keeps_refl)
  next
    case (Inr n)
    have "os' = (ks_os s)\<lparr>fds := n # fds (ks_os s)\<rparr>"
      using os_dup_Inr [of fd "ks_os s" n os'] dup Inr inv by (auto simp: ks_inv_def)
    then have "keeps s (s\<lparr>ks_os := os_close n os'\<rparr>) {}"
      by (simp add: keeps_def os_close_def)
    then show ?thesis
      using True dup Inr keeps_import_live [OF inv dup [unfolded Inr] _ refl]
      by (auto simp: ks_import_sync_file_def Let_def intro!: keeps_ret split: option.splits)
  qed
qed

lemma keeps_dup_out:
  assumes "keeps s t {}" and "os_dup fd (ks_os t) = (Inr n, os')"
  shows "keeps s (t\<lparr>ks_os := os'\<rparr>) {n}"
  using assms ks_inv_dup [OF _ assms(2)] by (auto simp: keeps_def)

text \<open>The descriptor an export hands to its caller.\<close>

definition handed :: "int option \<Rightarrow> int set" where
  "handed out = (case out of Some n \<Rightarrow> if 0 \<le> n then {n} else {} | None \<Rightarrow> {})"

lemma handed_simps [simp]:
  "handed None = {}" "handed (Some n) = (if 0 \<le> n then {n} else {})"
  by (simp_all add: handed_def)

lemma keeps_finish:
  assumes "keeps s u {}"
    and "(if r \<noteq> 0 then case ks_ret r u of (r', u') \<Rightarrow> Some (r', None, u') else Some (0, Some (-1), u)) =
      Some (ret, out, t)"
  shows "keeps s t (handed out)"
  using assms keeps_ret [OF assms(1), of r] by (auto simp: ks_ret_def split: if_splits)

lemma keeps_export_dup:
  assumes k: "keeps s s1 {}"
    and "(case os_dup fd (ks_os s1) of
        (Inr n, os') \<Rightarrow> Some (0, Some n, s1\<lparr>ks_os := os'\<rparr>)
      | (Inl e, os') \<Rightarrow> (case ks_ret (- e) (s1\<lparr>ks_os := os'\<rparr>) of (ret, s2) \<Rightarrow> Some (ret, Some (-1), s2))) =
      Some (ret, out, t)"
  shows "keeps s t (handed out)"
proof -
  obtain r os' where dup: "os_dup fd (ks_os s1) = (r, os')" by fastforce
  show ?thesis
  proof (cases r)
    case (Inl e)
    then have s1: "s1\<lparr>ks_os := os'\<rparr> = s1" using dup os_dup_Inl by fastforce
    have "t = snd (ks_ret (- e) s1) \<and> out = Some (-1)"
      using assms(2) [unfolded dup Inl prod.case sum.case s1] by (cases "ks_ret (- e) s1") simp
    then show ?thesis using keeps_ret [OF k, of "- e"] by simp
  next
    case (Inr n)
    have "keeps s (s1\<lparr>ks_os := os'\<rparr>) {n}" using keeps_dup_out [OF k] dup Inr by simp
    moreover have "0 \<le> n" if "ks_inv s"
      using os_dup_Inr [of fd "ks_os s1" n os'] dup Inr k that by (auto simp: keeps_def ks_inv_def)
    moreover have "t = s1\<lparr>ks_os := os'\<rparr>" "out = Some n"
      using assms(2) [unfolded dup Inr prod.case sum.case] by simp_all
    ultimately show ?thesis by (simp add: keeps_def)
  qed
qed

lemma keeps_export [ks_keeps]:
  assumes ex: "ks_export_sync_file now ws ws' h s = Some (ret, out, t)"
    and other: "\<And>w u. w \<in> set ws \<union> set ws' \<Longrightarrow> keeps u (w_other w u) {}"
  shows "keeps s t (handed out)"
proof -
  let ?d = "now + 10 * 1000000000"
  obtain r1 f1 s1 where w1: "ks_wait_locked ws [h] ?d 4 s = Some (r1, f1, s1)"
    using ex by (auto simp: ks_export_sync_file_def Let_def split: option.splits)
  have k1: "keeps s s1 {}" using keeps_wait_locked [OF w1] other by simp
  note ex' = ex [unfolded ks_export_sync_file_def Let_def w1 option.case prod.case]
  show ?thesis
  proof (cases "if r1 \<noteq> 0 then None else ks_get s1 h")
    case None
    from ex' [unfolded None option.case] show ?thesis by (rule keeps_finish [OF k1])
  next
    case (Some i)
    show ?thesis
    proof (cases "o_state (ks_objs s1 ! i) = KS_SUBMITTED")
      case sub: True
      show ?thesis
      proof (cases "0 \<le> o_fd (ks_objs s1 ! i)")
        case True
        from ex' [unfolded Some option.case if_P [OF sub] if_P [OF True]] show ?thesis
          by (rule keeps_export_dup [OF k1])
      next
        case False
        note ex2 = ex' [unfolded Some option.case if_P [OF sub] if_not_P [OF False]]
        then obtain r2 f2 s2 where w2: "ks_wait_locked ws' [h] ?d 0 s1 = Some (r2, f2, s2)"
          by (cases "ks_wait_locked ws' [h] ?d 0 s1") auto
        have "keeps s s2 {}" using keeps_trans [OF k1 keeps_wait_locked [OF w2]] other by simp
        from keeps_finish [OF this ex2 [unfolded w2 option.case prod.case]] show ?thesis .
      qed
    next
      case False
      from ex' [unfolded Some option.case if_not_P [OF False]] show ?thesis
        by (rule keeps_finish [OF k1])
    qed
  qed
qed

section \<open>The table as a map from handles to objects\<close>

definition ks_look :: "ks \<Rightarrow> nat \<Rightarrow> ks_obj option" where
  "ks_look s h = map_option (\<lambda>i. ks_objs s ! i) (ks_get s h)"

lemma ks_look_alt:
  "ks_look s h = (if h \<noteq> 0 \<and> h \<le> length (ks_objs s) \<and> o_state (ks_objs s ! (h - 1)) \<noteq> KS_FREE
     then Some (ks_objs s ! (h - 1)) else None)"
  by (simp add: ks_look_def ks_get_def)

lemma ks_look_fields [simp]:
  "ks_look (s\<lparr>ks_hint := x\<rparr>) = ks_look s" "ks_look (s\<lparr>ks_errno := e\<rparr>) = ks_look s"
  "ks_look (s\<lparr>ks_os := v\<rparr>) = ks_look s"
  by (simp_all add: ks_look_alt fun_eq_iff)

lemma ks_look_ret [simp]: "ks_look (snd (ks_ret r s)) = ks_look s"
  by (simp add: ks_ret_def)

lemma ks_look_update:
  assumes "i < length (ks_objs s)"
  shows "ks_look (s\<lparr>ks_objs := (ks_objs s)[i := obj]\<rparr>) =
    (ks_look s)(Suc i := if o_state obj = KS_FREE then None else Some obj)"
proof
  fix h
  show "ks_look (s\<lparr>ks_objs := (ks_objs s)[i := obj]\<rparr>) h =
    ((ks_look s)(Suc i := if o_state obj = KS_FREE then None else Some obj)) h"
    using assms by (cases h) (auto simp: ks_look_alt nth_list_update)
qed

lemma ks_look_append_free:
  "ks_look (s\<lparr>ks_objs := ks_objs s @ replicate n free_obj\<rparr>) = ks_look s"
proof
  fix h
  show "ks_look (s\<lparr>ks_objs := ks_objs s @ replicate n free_obj\<rparr>) h = ks_look s h"
    by (cases h) (auto simp: ks_look_alt nth_append free_obj_def)
qed

lemma ks_look_set_state:
  assumes "ks_get s h = Some i"
  shows "ks_look (ks_set_state i st fd s) =
    (ks_look s)(h := if st = KS_FREE then None else Some \<lparr>o_state = st, o_external = False, o_fd = fd\<rparr>)"
  using ks_look_update [of i s] ks_getD [OF assms]
  by (simp add: ks_set_state_def Let_def ks_look_alt fun_eq_iff)

lemma ks_look_Some: "ks_look s h = Some obj \<longleftrightarrow> (\<exists>i. ks_get s h = Some i \<and> obj = ks_objs s ! i)"
  by (auto simp: ks_look_def)

lemma ks_look_None: "ks_look s h = None \<longleftrightarrow> ks_get s h = None"
  by (simp add: ks_look_def)

lemma ks_look_create:
  assumes "ks_create ok flags s = (0, Some h, t)" and inv: "ks_inv s"
  shows "ks_look s h = None" "ks_look t = (ks_look s)(h \<mapsto> created flags)"
proof -
  have nf: "o_state (created flags) \<noteq> KS_FREE" by (simp add: created_def)
  have "ks_look s h = None \<and> ks_look t = (ks_look s)(h \<mapsto> created flags)"
    using assms
  proof (cases rule: ks_create_cases)
    case nomem
    then show ?thesis by simp
  next
    case (reuse i)
    then show ?thesis
      using ks_look_update [of i s "created flags"] nf by (auto simp: ks_look_None ks_get_def)
  next
    case (grow n)
    let ?g = "s\<lparr>ks_objs := ks_objs s @ replicate n free_obj\<rparr>"
    have "ks_look t = (ks_look ?g)(h \<mapsto> created flags)"
      using grow ks_look_update [of "length (ks_objs s)" ?g "created flags"] nf by simp
    then show ?thesis using grow(2) by (simp add: ks_look_append_free ks_look_None ks_get_def)
  qed
  then show "ks_look s h = None" "ks_look t = (ks_look s)(h \<mapsto> created flags)" by auto
qed

lemma ks_look_destroy:
  "fst (ks_destroy h s) = (if ks_look s h = None then - EINVAL else 0)"
  "ks_look (snd (ks_destroy h s)) = (ks_look s)(h := None)"
  by (auto simp: ks_destroy_def Let_def ks_look_set_state ks_ret_def fun_upd_idem_iff ks_look_def
    split: option.splits)

definition set_to :: "ks_state \<Rightarrow> ks_obj" where
  "set_to st = \<lparr>o_state = st, o_external = False, o_fd = -1\<rparr>"

lemma ks_look_set_both:
  assumes "st \<noteq> KS_FREE"
  shows "ks_look (snd (ks_set hs st ret s)) =
     (\<lambda>h. if h \<in> set hs \<and> ks_look s h \<noteq> None then Some (set_to st) else ks_look s h) \<and>
    fst (ks_set hs st ret s) = (if \<exists>h \<in> set hs. ks_look s h = None then - EINVAL else ret)"
proof (induction hs arbitrary: ret s)
  case Nil
  show ?case by auto
next
  case (Cons h hs)
  show ?case
  proof (cases "ks_get s h")
    case None
    then have "ks_look s h = None" by (simp add: ks_look_None)
    then show ?thesis using None Cons [of "- EINVAL" s] by (auto simp: fun_eq_iff)
  next
    case (Some i)
    let ?s' = "ks_set_state i st (-1) s"
    have l: "ks_look ?s' = (ks_look s)(h \<mapsto> set_to st)"
      using ks_look_set_state [OF Some] assms by (simp add: set_to_def)
    have "ks_look s h \<noteq> None" using Some by (simp add: ks_look_None)
    then show ?thesis using Cons [of ret ?s'] Some unfolding l by (auto simp: fun_eq_iff)
  qed
qed

lemmas ks_look_set = ks_look_set_both [THEN conjunct1] ks_look_set_both [THEN conjunct2]

section \<open>What a wait waits for\<close>

text \<open>
  An object satisfies a wait when it is signaled, when it is submitted and the wait is for
  availability only, or when it is an imported sync file that is readable (or was lost).
\<close>

definition sat :: "(int \<Rightarrow> bool) \<Rightarrow> bool \<Rightarrow> ks_obj \<Rightarrow> bool" where
  "sat poll available obj \<longleftrightarrow>
     o_state obj = KS_SIGNALED \<or>
     o_state obj = KS_SUBMITTED \<and> (available \<or> o_external obj \<and> (o_fd obj < 0 \<or> poll (o_fd obj)))"

definition sat_handle :: "(int \<Rightarrow> bool) \<Rightarrow> bool \<Rightarrow> ks \<Rightarrow> nat \<Rightarrow> bool" where
  "sat_handle poll available s h = sat poll available (the (ks_look s h))"

fun first_sat :: "(nat \<Rightarrow> bool) \<Rightarrow> nat list \<Rightarrow> nat \<Rightarrow> nat \<Rightarrow> nat" where
  "first_sat P [] i dflt = dflt"
| "first_sat P (h # hs) i dflt = (if P h then i else first_sat P hs (Suc i) dflt)"

lemma first_sat_default:
  "i + length hs \<le> m \<Longrightarrow> (if first_sat P hs i m = m then 0 else first_sat P hs i m) = first_sat P hs i 0"
proof (induction hs arbitrary: i)
  case (Cons h hs)
  then have "(if first_sat P hs (Suc i) m = m then 0 else first_sat P hs (Suc i) m) =
      first_sat P hs (Suc i) 0"
    by (intro Cons.IH) simp
  with Cons.prems show ?case by (auto split: if_splits)
qed simp

lemma sat_promoted:
  assumes "ks_get s h = Some k" and "obj = ks_objs s ! k"
    and "o_state obj = KS_SUBMITTED" "o_external obj" "o_fd obj < 0 \<or> poll (o_fd obj)"
  shows "sat_handle poll av (ks_set_state k KS_SIGNALED (-1) s) = sat_handle poll av s"
    "\<And>h'. ks_look (ks_set_state k KS_SIGNALED (-1) s) h' = None \<longleftrightarrow> ks_look s h' = None"
  using assms ks_look_set_state [OF assms(1)]
  by (auto simp: sat_handle_def sat_def ks_look_def fun_eq_iff)

lemma ks_wait_pass_spec:
  assumes "list_all (\<lambda>h. ks_look s h \<noteq> None) hs" and "i + length hs \<le> UINT32_MAX"
    and "d \<noteq> 0 \<longrightarrow> f \<le> i" and "d = 0 \<longrightarrow> f = UINT32_MAX"
  shows "\<exists>t e'. ks_wait_pass poll av hs i (d, f, e) s =
    (Some (d + length (filter (sat_handle poll av s) hs),
           if d = 0 then first_sat (sat_handle poll av s) hs i UINT32_MAX else f, e'), t)"
  using assms
proof (induction hs arbitrary: i d f e s)
  case Nil
  then show ?case by simp
next
  case (Cons h hs)
  let ?P = "sat_handle poll av s"
  obtain k where k: "ks_get s h = Some k" using Cons.prems(1) by (auto simp: ks_look_def)
  define obj where "obj = ks_objs s ! k"
  define pro where "pro \<longleftrightarrow> o_state obj = KS_SUBMITTED \<and> o_external obj \<and> (o_fd obj < 0 \<or> poll (o_fd obj))"
  define s' where "s' = (if pro then ks_set_state k KS_SIGNALED (-1) s else s)"
  define e' where "e' = (if o_state obj = KS_SUBMITTED \<and> o_external obj \<and>
    \<not> (o_fd obj < 0 \<or> poll (o_fd obj)) then True else e)"
  have same: "sat_handle poll av s' = ?P" "\<And>h'. ks_look s' h' = None \<longleftrightarrow> ks_look s h' = None"
    using sat_promoted [OF k obj_def] by (auto simp: s'_def pro_def)
  have cond: "(o_state (ks_objs s' ! k) = KS_SIGNALED \<or> av \<and> o_state (ks_objs s' ! k) = KS_SUBMITTED) \<longleftrightarrow> ?P h"
  proof -
    have "?P h \<longleftrightarrow> sat poll av obj" by (simp add: sat_handle_def ks_look_def k obj_def)
    moreover have "k < length (ks_objs s)" using ks_getD [OF k] by simp
    then have "o_state (ks_objs s' ! k) = (if pro then KS_SIGNALED else o_state obj)"
      by (simp add: s'_def obj_def ks_set_state_def Let_def)
    ultimately show ?thesis by (auto simp: sat_def pro_def)
  qed
  have step: "ks_wait_pass poll av (h # hs) i (d, f, e) s =
      (if ?P h then ks_wait_pass poll av hs (Suc i) (Suc d, min f i, e') s'
       else ks_wait_pass poll av hs (Suc i) (d, f, e') s')"
    unfolding cond [symmetric] by (simp add: k Let_def s'_def pro_def e'_def obj_def)
  have live: "list_all (\<lambda>h. ks_look s' h \<noteq> None) hs" using Cons.prems(1) same(2) by (auto simp: list_all_iff)
  show ?case
  proof (cases "?P h")
    case True
    from Cons.IH [OF live, of "Suc i" "Suc d" "min f i" e'] Cons.prems same(1) True
    show ?thesis unfolding step by (auto simp: min_def)
  next
    case False
    from Cons.IH [OF live, of "Suc i" d f e'] Cons.prems same(1) False
    show ?thesis unfolding step by auto
  qed
qed

lemma ks_wait_pass_dead:
  "\<not> list_all (\<lambda>h. ks_look s h \<noteq> None) hs \<Longrightarrow> fst (ks_wait_pass poll av hs i c s) = None"
proof (induction poll av hs i c s rule: ks_wait_pass.induct)
  case (2 poll av h hs i done' first external s)
  show ?case
  proof (cases "ks_get s h")
    case (Some k)
    have "ks_look (ks_set_state k KS_SIGNALED (-1) s) h' = None \<longleftrightarrow> ks_look s h' = None" for h'
      using ks_look_set_state [OF Some] Some by (auto simp: ks_look_def)
    moreover have "\<not> list_all (\<lambda>h. ks_look s h \<noteq> None) hs" using 2(3) Some by (simp add: ks_look_None)
    ultimately show ?thesis
      using 2(1,2) [OF Some refl refl refl refl refl refl] by (auto simp: Some Let_def list_all_iff)
  qed simp
qed simp

lemma export_fresh:
  assumes inv: "ks_inv s" and ex: "ks_export_sync_file now ws ws' h s = Some (ret, out, t)"
    and other: "\<And>w u. w \<in> set ws \<union> set ws' \<Longrightarrow> keeps u (w_other w u) {}"
  shows "handed out \<inter> foreign s = {}"
proof -
  obtain r1 f1 s1 where w1: "ks_wait_locked ws [h] (now + 10 * 1000000000) 4 s = Some (r1, f1, s1)"
    using ex by (auto simp: ks_export_sync_file_def Let_def split: option.splits)
  have k1: "foreign s1 = foreign s" "distinct (fds (ks_os s1))"
    using keeps_wait_locked [OF w1] other inv by (auto simp: keeps_def ks_inv_def)
  note ex' = ex [unfolded ks_export_sync_file_def Let_def w1 option.case prod.case]
  have "n \<notin> foreign s" if n: "out = Some n" "0 \<le> n" for n
  proof -
    obtain fd os' where "os_dup fd (ks_os s1) = (Inr n, os')"
      using ex' n by (auto simp: ks_ret_def split: option.splits if_splits prod.splits sum.splits)
    then show ?thesis using os_dup_Inr [of fd "ks_os s1" n os'] k1 by (auto simp: foreign_def)
  qed
  then show ?thesis by (auto simp: handed_def split: option.splits)
qed

section \<open>The table as a state machine\<close>

text \<open>
  The steps of all threads that use the table, and of the rest of the process on its own
  descriptors. A wait is a sequence of passes; an export that ends in its first pass is one step.
\<close>

inductive ks_step :: "ks \<Rightarrow> ks \<Rightarrow> bool" where
  create: "ks_create ok flags s = (ret, h, t) \<Longrightarrow> ks_step s t"
| destroy: "ks_step s (snd (ks_destroy h s))"
| signal: "ks_step s (snd (ks_signal hs s))"
| reset: "ks_step s (snd (ks_reset hs s))"
| submitted: "ks_step s (pan_kmod_kbase_sync_submitted hs s)"
| attach: "ks_step s (pan_kmod_kbase_sync_attach_fd hs fd s)"
| pass: "ks_step s (snd (ks_wait_pass poll av hs 0 (0, UINT32_MAX, False) s))"
| transfer: "ks_step s (snd (ks_transfer dst src s))"
| export: "ks_export_sync_file now [w] [w'] h s = Some (ret, out, t) \<Longrightarrow>
     w_other w = id \<Longrightarrow> w_other w' = id \<Longrightarrow> ks_step s t"
| import_file: "ks_step s (snd (ks_import_sync_file poll h fd s))"
| other_open: "0 \<le> fd \<Longrightarrow> fd \<notin> set (fds (ks_os s)) \<Longrightarrow>
     ks_step s (s\<lparr>ks_os := (ks_os s)\<lparr>fds := fd # fds (ks_os s)\<rparr>\<rparr>)"
| other_close: "fd \<in> foreign s \<Longrightarrow> ks_step s (s\<lparr>ks_os := os_close fd (ks_os s)\<rparr>)"

definition ks_start :: "os \<Rightarrow> ks" where
  "ks_start os = \<lparr>ks_objs = [], ks_hint = 0, ks_errno = 0, ks_os = os\<rparr>"

lemma keepsD: "keeps s t out \<Longrightarrow> ks_inv s \<Longrightarrow> ks_inv t"
  by (simp add: keeps_def)

lemma ks_step_inv: "ks_step s t \<Longrightarrow> ks_inv s \<Longrightarrow> ks_inv t"
proof (induction rule: ks_step.induct)
  case (export now w w' h s ret out t)
  then have "keeps s t (handed out)" by (intro keeps_export) (auto simp: keeps_refl)
  with export.prems show ?case by (rule keepsD [rotated])
next
  case (other_open fd s)
  then show ?case by (auto simp: ks_inv_def)
next
  case (other_close fd s)
  then show ?case by (auto simp: ks_inv_def foreign_def os_close_def list_all_iff)
qed (blast intro: keepsD ks_keeps)+

interpretation ks_machine: invariant_machine "ks_start \<lparr>fds = [], fd_limit = n\<rparr>" ks_step ks_inv
proof
  show "ks_inv (ks_start \<lparr>fds = [], fd_limit = n\<rparr>)"
    by (simp add: ks_inv_def ks_start_def cap_ok_def)
qed (rule ks_step_inv)

section \<open>Properties\<close>

text \<open>
  Property C4.  In every state the table can reach, whatever its users and the rest of the
  process do, an object has a sync file or is external only while it is submitted, all the sync
  files of the table are open, and no two objects share one.
\<close>

theorem ks_reachable_inv:
  assumes "reach (ks_start \<lparr>fds = [], fd_limit = n\<rparr>) ks_step s"
  shows "list_all (\<lambda>obj. 0 \<le> o_fd obj \<or> o_external obj \<longrightarrow> o_state obj = KS_SUBMITTED) (ks_objs s) \<and>
    distinct (owned (ks_objs s)) \<and> set (owned (ks_objs s)) \<subseteq> set (fds (ks_os s))"
  using ks_machine.reach_inv [OF assms] by (auto simp: ks_inv_def obj_ok_def list_all_iff)

theorem ks_reachable_inv_witness:
  "distinct (owned (ks_objs (snd (snd (ks_create True 1 (ks_start \<lparr>fds = [], fd_limit = 8\<rparr>))))))"
proof -
  obtain ret h t where c: "ks_create True 1 (ks_start \<lparr>fds = [], fd_limit = 8\<rparr>) = (ret, h, t)"
    by (metis prod_cases3)
  then have "reach (ks_start \<lparr>fds = [], fd_limit = 8\<rparr>) ks_step t"
    by (intro reach.reach_step [OF reach.reach_init] ks_step.create)
  from ks_reachable_inv [OF this] c show ?thesis by simp
qed

text \<open>
  Property C8.  No operation of the table leaks or steals a file descriptor, waits and exports
  included, also when \<open>dup\<close> fails or the handle is invalid: the descriptors of the process that do not belong to
  the table are the same before and after, and an export adds exactly the one it hands to its
  caller, which was not in use.  What other threads do while a wait sleeps is assumed to keep the descriptors too.
\<close>

theorem ks_no_fd_leak:
  assumes inv: "ks_inv s" and others: "\<forall>w \<in> set (ws @ ws'). \<forall>u. ks_inv u \<longrightarrow> ks_inv (w_other w u) \<and> foreign (w_other w u) = foreign u"
  shows "foreign (snd (snd (ks_create ok flags s))) = foreign s \<and> foreign (snd (ks_destroy h s)) = foreign s \<and>
    foreign (snd (ks_signal hs s)) = foreign s \<and> foreign (snd (ks_reset hs s)) = foreign s \<and>
    foreign (pan_kmod_kbase_sync_submitted hs s) = foreign s \<and>
    foreign (pan_kmod_kbase_sync_attach_fd hs fd s) = foreign s \<and>
    foreign (snd (ks_transfer dst src s)) = foreign s \<and>
    foreign (snd (ks_import_sync_file poll h fd s)) = foreign s \<and>
    foreign (snd (ks_query s)) = foreign s \<and> foreign (snd (ks_no_fd s)) = foreign s \<and> foreign (snd (ks_no_handle s)) = foreign s \<and>
    foreign (snd (ks_wait_pass poll av hs i c s)) = foreign s \<and>
    (case ks_wait ws hs tmo flags s of None \<Rightarrow> True | Some (ret, first, t) \<Rightarrow> foreign t = foreign s) \<and>
    (case ks_timeline_wait ws hs points tmo flags s of None \<Rightarrow> True | Some (ret, first, t) \<Rightarrow> foreign t = foreign s) \<and>
    (case ks_export_sync_file now ws ws' h s of
       None \<Rightarrow> True | Some (ret, out, t) \<Rightarrow> foreign t = foreign s \<union> handed out \<and> handed out \<inter> foreign s = {})"
proof -
  have k: "keeps s t out \<Longrightarrow> foreign t = foreign s \<union> out" for t out using inv by (simp add: keeps_def)
  have o: "keeps u (w_other w u) {}" if "w \<in> set ws \<union> set ws'" for w u using others that by (auto simp: keeps_def)
  have r: "foreign (snd (ks_ret e t)) = foreign t" for e t by (simp add: ks_ret_def)
  have w: "case ks_wait ws hs tmo flags s of None \<Rightarrow> True | Some (ret, first, t) \<Rightarrow> foreign t = foreign s"
  proof (cases "ks_wait_locked ws hs tmo flags s")
    case (Some x)
    obtain ret first t where x: "x = (ret, first, t)" by (cases x)
    then have "foreign t = foreign s" using k [OF keeps_wait_locked [OF Some [unfolded x]]] o by simp
    then show ?thesis using r [of ret t] Some x by (auto simp: ks_wait_def split: prod.splits)
  qed (simp add: ks_wait_def)
  have ex: "case ks_export_sync_file now ws ws' h s of
       None \<Rightarrow> True | Some (ret, out, t) \<Rightarrow> foreign t = foreign s \<union> handed out \<and> handed out \<inter> foreign s = {}"
    using k [OF keeps_export] export_fresh [OF inv] o by (auto split: option.splits)
  have c: "foreign (snd (snd (ks_create ok flags s))) = foreign s"
    using k [OF keeps_create] by (metis prod.collapse sup_bot.right_neutral)
  have e: "keeps s t {} \<Longrightarrow> foreign t = foreign s" for t using k [of t "{}"] by simp
  note facts = e [OF keeps_destroy, of h] e [OF keeps_signal, of hs] e [OF keeps_reset, of hs] e [OF keeps_submitted, of hs]
    e [OF keeps_attach, of hs fd] e [OF keeps_transfer, of dst src] e [OF keeps_import, of poll h fd] e [OF keeps_wait_pass, of poll av hs i c]
  show ?thesis using c ex facts w by (simp only: ks_query_def ks_no_fd_def ks_no_handle_def r ks_timeline_wait_def)
qed

text \<open>A table with a pending import (handle 1, sync file 5) and an unsignaled object (handle 2).\<close>

definition ks_example :: ks where
  "ks_example = \<lparr>ks_objs = \<lparr>o_state = KS_SUBMITTED, o_external = True, o_fd = 5\<rparr> #
       \<lparr>o_state = KS_UNSIGNALED, o_external = False, o_fd = -1\<rparr> # replicate 254 free_obj,
     ks_hint = 2, ks_errno = 0, ks_os = \<lparr>fds = [5, 3], fd_limit = 8\<rparr>\<rparr>"

lemma ks_example_inv: "ks_inv ks_example"
proof -
  have "obj_ok free_obj" by (simp add: obj_ok_def free_obj_def)
  then show ?thesis
    by (auto simp: ks_example_def ks_inv_def obj_ok_def cap_ok_def list_all_iff intro: exI [of _ 0])
qed

lemma ks_example_look:
  "ks_look ks_example 1 = Some \<lparr>o_state = KS_SUBMITTED, o_external = True, o_fd = 5\<rparr>"
  "ks_look ks_example 2 = Some \<lparr>o_state = KS_UNSIGNALED, o_external = False, o_fd = -1\<rparr>"
  "ks_look ks_example 3 = None"
  by (simp_all add: ks_look_alt ks_example_def free_obj_def)

theorem ks_no_fd_leak_witness:
  "foreign (snd (ks_transfer 2 1 ks_example)) = {3} \<and>
   (\<exists>t. ks_export_sync_file 0 [\<lparr>w_poll = (\<lambda>fd. False), w_now = 0, w_other = id\<rparr>] [] 1 ks_example = Some (0, Some 0, t) \<and> foreign t = {0, 3})"
proof -
  let ?w = "\<lparr>w_poll = (\<lambda>fd. False), w_now = 0, w_other = id\<rparr>"
  have f: "foreign ks_example = {3}" by (auto simp: foreign_def ks_example_def)
  have o: "\<forall>w \<in> set ([?w] @ []). \<forall>u. ks_inv u \<longrightarrow> ks_inv (w_other w u) \<and> foreign (w_other w u) = foreign u" by simp
  have "\<exists>t. ks_export_sync_file 0 [?w] [] 1 ks_example = Some (0, Some 0, t)"
    by (simp add: ks_export_sync_file_def ks_get_def ks_example_def os_dup_def os_lowest_def Let_def UINT32_MAX_def)
  then show ?thesis using ks_no_fd_leak [OF ks_example_inv o, where dst = 2 and src = 1 and now = 0 and h = 1] f by (auto split: option.splits)
qed
text \<open>
  Property C5.  Seen as a map from handles to objects, the table behaves as the DRM syncobj
  interface asks: creation returns a handle that was not in use and binds it alone, destruction
  unbinds exactly the handle (and reports an invalid one), signalling and resetting set exactly
  the valid handles listed and report whether any was invalid.
\<close>

theorem ks_table_refines_map:
  assumes "ks_inv s" and "ks_create ok flags s = (0, Some h, t)"
  shows "ks_look s h = None \<and> ks_look t = (ks_look s)(h \<mapsto> created flags) \<and>
    ks_look (snd (ks_destroy k s)) = (ks_look s)(k := None) \<and>
    fst (ks_destroy k s) = (if ks_look s k = None then - EINVAL else 0) \<and>
    ks_look (snd (ks_signal hs s)) =
      (\<lambda>j. if j \<in> set hs \<and> ks_look s j \<noteq> None then Some (set_to KS_SIGNALED) else ks_look s j) \<and>
    ks_look (snd (ks_reset hs s)) =
      (\<lambda>j. if j \<in> set hs \<and> ks_look s j \<noteq> None then Some (set_to KS_UNSIGNALED) else ks_look s j) \<and>
    fst (ks_signal hs s) = (if list_all (\<lambda>j. ks_look s j \<noteq> None) hs then 0 else - EINVAL)"
proof (intro conjI)
  show "ks_look s h = None" "ks_look t = (ks_look s)(h \<mapsto> created flags)"
    using ks_look_create [OF assms(2,1)] by auto
  show "ks_look (snd (ks_destroy k s)) = (ks_look s)(k := None)"
    "fst (ks_destroy k s) = (if ks_look s k = None then - EINVAL else 0)"
    using ks_look_destroy [of k s] by auto
  show "ks_look (snd (ks_signal hs s)) =
      (\<lambda>j. if j \<in> set hs \<and> ks_look s j \<noteq> None then Some (set_to KS_SIGNALED) else ks_look s j)"
    using ks_look_set [of KS_SIGNALED hs 0 s] by (auto simp: ks_signal_def case_prod_unfold)
  show "ks_look (snd (ks_reset hs s)) =
      (\<lambda>j. if j \<in> set hs \<and> ks_look s j \<noteq> None then Some (set_to KS_UNSIGNALED) else ks_look s j)"
    using ks_look_set [of KS_UNSIGNALED hs 0 s] by (auto simp: ks_reset_def case_prod_unfold)
  show "fst (ks_signal hs s) = (if list_all (\<lambda>j. ks_look s j \<noteq> None) hs then 0 else - EINVAL)"
    using ks_look_set [of KS_SIGNALED hs 0 s] by (auto simp: ks_signal_def ks_ret_def case_prod_unfold list_all_iff)
qed

theorem ks_table_refines_map_witness:
  "ks_look (snd (snd (ks_create True 1 ks_example))) 3 = Some (set_to KS_SIGNALED)"
proof -
  have "ks_create True 1 ks_example = (0, Some 3, snd (snd (ks_create True 1 ks_example)))"
    by (simp add: ks_create_def ks_example_def Let_def ks_scan.simps free_obj_def)
  from ks_table_refines_map [OF ks_example_inv this] show ?thesis by (simp add: created_def set_to_def)
qed

text \<open>
  Property C6.  One iteration of a wait on valid handles: it returns 0 exactly when every handle
  (with \<open>WAIT_ALL\<close>) or some handle is satisfied in the state it sees, with the index of the
  first satisfied one; otherwise it returns \<open>-ETIME\<close>, with \<open>errno\<close> set, exactly when the
  deadline has passed; otherwise it goes on from what the other threads left behind.
\<close>

theorem ks_wait_iteration:
  assumes "list_all (\<lambda>h. ks_look s h \<noteq> None) hs" and "length hs \<le> UINT32_MAX"
    and "P = sat_handle (w_poll w) (bit flags 2) s"
  shows "\<exists>t. ks_wait (w # ws) hs tmo flags s =
    (if (if bit flags 0 then list_all P hs else \<not> list_all (\<lambda>h. \<not> P h) hs)
     then Some (0, Some (first_sat P hs 0 0), t)
     else if tmo \<noteq> INT64_MAX \<and> tmo mod 2 ^ 64 \<le> w_now w
     then Some (- ETIME, None, t\<lparr>ks_errno := ETIME\<rparr>)
     else ks_wait ws hs tmo flags (w_other w t))"
proof -
  obtain t e where p: "ks_wait_pass (w_poll w) (bit flags 2) hs 0 (0, UINT32_MAX, False) s =
      (Some (length (filter P hs), first_sat P hs 0 UINT32_MAX, e), t)"
    using ks_wait_pass_spec [OF assms(1), of 0 0 UINT32_MAX "w_poll w" "bit flags 2" False] assms(2,3)
    by auto
  have all: "length (filter P hs) = length hs \<longleftrightarrow> list_all P hs"
    by (metis filter_id_conv length_filter_less less_irrefl list_all_iff)
  have any: "filter P hs = [] \<longleftrightarrow> list_all (\<lambda>h. \<not> P h) hs"
    by (auto simp: list_all_iff filter_empty_conv)
  have first: "(if first_sat P hs 0 UINT32_MAX = UINT32_MAX then 0 else first_sat P hs 0 UINT32_MAX) =
      first_sat P hs 0 0"
    using first_sat_default [of 0 hs UINT32_MAX P] assms(2) by simp
  show ?thesis
    by (intro exI [of _ t]) (auto simp: ks_wait_def p all any first ks_ret_def ETIME_def)
qed

theorem ks_wait_iteration_witness:
  "\<exists>t. ks_wait [\<lparr>w_poll = \<lambda>fd. fd = 5, w_now = 7, w_other = id\<rparr>] [1, 2] 9 0 ks_example = Some (0, Some 0, t)"
proof -
  let ?w = "\<lparr>w_poll = \<lambda>fd. fd = 5, w_now = 7, w_other = id\<rparr> :: wake"
  have "list_all (\<lambda>h. ks_look ks_example h \<noteq> None) [1, 2]" using ks_example_look by simp
  from ks_wait_iteration [where w = ?w and flags = 0 and ws = "[]" and tmo = 9, OF this _ refl] show ?thesis
    using ks_example_look by (auto simp: sat_handle_def sat_def UINT32_MAX_def)
qed

text \<open>
  Property C7.  A wait with a deadline ends: as soon as one of its iterations sees a clock at or
  past the deadline, it has returned, whatever the other threads do to the table.
\<close>

theorem ks_wait_ends_by_deadline:
  assumes "w \<in> set ws" and "tmo mod 2 ^ 64 \<le> w_now w" and "tmo \<noteq> INT64_MAX"
  shows "\<exists>ret first t. ks_wait ws hs tmo flags s = Some (ret, first, t) \<and>
    (ret = 0 \<or> ret < 0 \<and> ks_errno t = - ret)"
proof -
  have "ks_wait_locked ws hs tmo flags s \<noteq> None"
    using assms(1)
  proof (induction ws arbitrary: s)
    case (Cons v ws)
    then show ?case using assms(2,3) by (auto split: option.splits prod.splits)
  qed simp
  then obtain ret first t where l: "ks_wait_locked ws hs tmo flags s = Some (ret, first, t)"
    by (metis not_None_eq prod_cases3)
  moreover have "ret = 0 \<or> ret < 0"
    using l
  proof (induction ws arbitrary: s)
    case (Cons v ws)
    then show ?case by (auto simp: errno_defs split: option.splits prod.splits if_splits)
  qed simp
  ultimately show ?thesis by (auto simp: ks_wait_def ks_ret_def)
qed

theorem ks_wait_ends_by_deadline_witness:
  "\<exists>ret first t. ks_wait [\<lparr>w_poll = \<lambda>fd. False, w_now = 9, w_other = id\<rparr>] [2] 9 0 ks_example = Some (ret, first, t)"
  using ks_wait_ends_by_deadline
    [of "\<lparr>w_poll = \<lambda>fd. False, w_now = 9, w_other = id\<rparr>"
        "[\<lparr>w_poll = \<lambda>fd. False, w_now = 9, w_other = id\<rparr>]" 9 "[2]" 0 ks_example]
  by (auto simp: INT64_MAX_def)

text \<open>
  Exporting never waits for the GPU: for an object whose submission carries a sync
  file, the export returns at once, in its first iteration and whatever the clock says, with a
  descriptor that was not open before, and leaves the table as it was.
\<close>

theorem ks_export_never_waits:
  assumes "ks_inv s" and "ks_look s h = Some obj"
    and "o_state obj = KS_SUBMITTED" and "\<not> o_external obj" and "0 \<le> o_fd obj"
    and "length (fds (ks_os s)) < fd_limit (ks_os s)"
  shows "\<exists>n t. ks_export_sync_file now [w] [] h s = Some (0, Some n, t) \<and>
    0 \<le> n \<and> n \<notin> set (fds (ks_os s)) \<and> fds (ks_os t) = n # fds (ks_os s) \<and> ks_look t = ks_look s"
proof -
  obtain i where i: "ks_get s h = Some i" and obj: "obj = ks_objs s ! i"
    using assms(2) ks_look_Some by metis
  have "o_fd obj \<in> set (owned (ks_objs s))"
    using ks_getD [OF i] assms(5) unfolding set_owned obj by auto
  then have "o_fd obj \<in> set (fds (ks_os s))" using assms(1) by (auto simp: ks_inv_def)
  then have d: "os_dup (o_fd obj) (ks_os s) =
      (Inr (os_lowest (fds (ks_os s))), (ks_os s)\<lparr>fds := os_lowest (fds (ks_os s)) # fds (ks_os s)\<rparr>)"
    using assms(6) by (simp add: os_dup_def Let_def)
  have "bit (4 :: u32) 2" "\<not> bit (4 :: u32) 0" by (simp_all add: bit_iff_odd)
  moreover have "distinct (fds (ks_os s))" using assms(1) by (simp add: ks_inv_def)
  ultimately show ?thesis using assms(3-5) i obj d os_lowest_fresh [of "fds (ks_os s)"]
    by (simp add: ks_export_sync_file_def Let_def ks_look_def)
qed

text \<open>A submitted object with a sync file attached (handle 1) next to an unsignaled one.\<close>

definition ks_submitted_example :: ks where
  "ks_submitted_example = \<lparr>ks_objs = \<lparr>o_state = KS_SUBMITTED, o_external = False, o_fd = 5\<rparr> #
       \<lparr>o_state = KS_UNSIGNALED, o_external = False, o_fd = -1\<rparr> # replicate 254 free_obj,
     ks_hint = 2, ks_errno = 0, ks_os = \<lparr>fds = [5, 3], fd_limit = 8\<rparr>\<rparr>"

lemma ks_submitted_example_inv: "ks_inv ks_submitted_example"
proof -
  have "obj_ok free_obj" by (simp add: obj_ok_def free_obj_def)
  then show ?thesis
    by (auto simp: ks_submitted_example_def ks_inv_def obj_ok_def cap_ok_def list_all_iff intro: exI [of _ 0])
qed

lemma ks_submitted_example_look:
  "ks_look ks_submitted_example 1 = Some \<lparr>o_state = KS_SUBMITTED, o_external = False, o_fd = 5\<rparr>"
  "ks_look ks_submitted_example 2 = Some \<lparr>o_state = KS_UNSIGNALED, o_external = False, o_fd = -1\<rparr>"
  by (simp_all add: ks_look_alt ks_submitted_example_def free_obj_def)

theorem ks_export_never_waits_witness:
  "\<exists>n t. ks_export_sync_file 0 [\<lparr>w_poll = \<lambda>fd. False, w_now = 0, w_other = id\<rparr>] [] 1 ks_submitted_example =
     Some (0, Some n, t) \<and> n \<notin> {3, 5}"
proof -
  have "length (fds (ks_os ks_submitted_example)) < fd_limit (ks_os ks_submitted_example)"
    and f: "fds (ks_os ks_submitted_example) = [5, 3]"
    by (simp_all add: ks_submitted_example_def)
  from ks_export_never_waits [where now = 0 and w = "\<lparr>w_poll = \<lambda>fd. False, w_now = 0, w_other = id\<rparr>",
      OF ks_submitted_example_inv ks_submitted_example_look(1) _ _ _ this(1)]
  show ?thesis unfolding f by auto
qed

lemma ks_look_transfer:
  assumes "ks_look s src = Some obj" and "ks_look s dst \<noteq> None" and "dst \<noteq> src"
  shows "\<exists>fd. ks_look (snd (ks_transfer dst src s)) = (ks_look s)(dst \<mapsto> obj\<lparr>o_fd := fd\<rparr>)"
proof -
  obtain k where k: "ks_get s src = Some k" "obj = ks_objs s ! k"
    using assms(1) ks_look_Some by metis
  obtain d where d: "ks_get s dst = Some d" using assms(2) by (auto simp: ks_look_None)
  have ne: "d \<noteq> k" using ks_getD [OF k(1)] ks_getD [OF d] assms(3) by auto
  obtain fd os' where f: "(if 0 \<le> o_fd obj
        then case os_dup (o_fd obj) (ks_os s) of (r, os') \<Rightarrow> (dup_result r, os')
        else (-1, ks_os s)) = (fd, os')" by fastforce
  let ?t = "ks_set_state d (o_state obj) fd (s\<lparr>ks_os := os'\<rparr>)"
  have t: "snd (ks_transfer dst src s) =
      ?t\<lparr>ks_objs := (ks_objs ?t)[d := (ks_objs ?t ! d)\<lparr>o_external := o_external obj\<rparr>]\<rparr>"
    using ne by (simp add: ks_transfer_def k(1) d k(2) [symmetric] f Let_def ks_ret_def del: if_split)
  have "d < length (ks_objs s)" using ks_getD [OF d] by simp
  moreover have "ks_objs ?t = (ks_objs s)[d := \<lparr>o_state = o_state obj, o_external = False, o_fd = fd\<rparr>]"
    by (simp add: ks_set_state_def Let_def)
  ultimately have "ks_look (snd (ks_transfer dst src s)) = (ks_look ?t)(dst \<mapsto> obj\<lparr>o_fd := fd\<rparr>)"
    using ks_look_update [of d ?t] ks_getD [OF d] ks_getD [OF k(1)] k(2) unfolding t
    by (cases "ks_objs s ! k") simp
  moreover have "ks_look ?t = (ks_look s)(dst := ks_look ?t dst)"
    using ks_look_set_state [of "s\<lparr>ks_os := os'\<rparr>" dst d] d by (simp add: ks_get_def)
  ultimately show ?thesis by (intro exI [of _ fd]) (simp add: fun_eq_iff)
qed

text \<open>
  A transfer copies the state of the source at that moment and not its fence: when
  the source is a submission of this process, signalling the source later (which is what the
  completion of the submission does) makes a wait on the source succeed, while no wait on the
  destination other than one for availability ever sees it signaled.
\<close>

theorem ks_transfer_loses_fence:
  assumes "ks_look s src = Some obj" and "o_state obj = KS_SUBMITTED" and "\<not> o_external obj"
    and "ks_look s dst \<noteq> None" and "dst \<noteq> src"
    and "t = snd (ks_signal [src] (snd (ks_transfer dst src s)))"
  shows "sat_handle poll False t src \<and> \<not> sat_handle poll False t dst \<and>
    fst (ks_signal [src] (snd (ks_transfer dst src s))) = 0"
proof -
  obtain fd where l: "ks_look (snd (ks_transfer dst src s)) = (ks_look s)(dst \<mapsto> obj\<lparr>o_fd := fd\<rparr>)"
    using ks_look_transfer [OF assms(1,4,5)] by auto
  show ?thesis
    using ks_look_set [of KS_SIGNALED "[src]" 0 "snd (ks_transfer dst src s)"] assms
    unfolding l by (simp add: ks_signal_def ks_ret_def case_prod_unfold sat_handle_def sat_def set_to_def)
qed

theorem ks_transfer_loses_fence_witness:
  "\<not> sat_handle (\<lambda>fd. True) False
     (snd (ks_signal [1] (snd (ks_transfer 2 1 ks_submitted_example)))) 2"
  using ks_transfer_loses_fence [where s = ks_submitted_example and src = 1 and dst = 2
      and poll = "\<lambda>fd. True", OF ks_submitted_example_look(1) _ _ _ _ refl] ks_submitted_example_look(2)
  by simp

end
