(* ===== verification/Kbase_Queue.thy ===== *)
theory Kbase_Queue
  imports Mesa_Prelude
begin

text \<open>
  The asynchronous job submission of the kbase backend (\<open>panfrost/lib/kmod/kbase_kmod.c\<close>):
  one event thread per device, an allocator of the 255 atom numbers, the submission records
  and their callbacks, the sequence numbers that are still open, and the waits on them.

  Every function holds the queue's lock except while it sleeps on the condition variable, while
  it runs a callback and while the event thread polls and reads. The model has one definition
  per locked region; the calls that sleep are given as the list of what the other threads do to
  the queue at each wake-up, and the step relation at the end interleaves all of them. Pointers
  to submission records are identifiers of a map from live records, which are never reused.
  The kernel's \<open>JOB_SUBMIT\<close> is a parameter. Sequence numbers are a 64-bit counter that counts
  submissions; the model lets it grow without wrapping.
\<close>

section \<open>State\<close>

type_synonym sub_ref = nat

record kbase_sub =
  sub_seq :: nat
  pending :: nat
  sub_ok :: bool
  sub_cb :: "nat option"

record kbase_queue =
  owner :: "sub_ref option list"
  is_fence :: "bool list"
  free_atoms :: nat
  last_atom :: nat
  next_seq :: nat
  open_seq :: "nat list"
  in_flight :: nat
  thread_started :: bool
  stop :: bool
  fence_warned :: bool
  subs :: "sub_ref \<rightharpoonup> kbase_sub"
  next_ref :: sub_ref
  cb_log :: "(nat \<times> bool) list"

definition PAN_KMOD_KBASE_MAX_ATOMS :: nat where "PAN_KMOD_KBASE_MAX_ATOMS = 253"
definition KBASE_ATOM_TAG :: u64 where "KBASE_ATOM_TAG = 0x50414e564b"
definition KBASE_JD_EVENT_DONE :: u32 where "KBASE_JD_EVENT_DONE = 1"
definition KBASE_JD_DEP_DATA :: nat where "KBASE_JD_DEP_DATA = 1"
definition KBASE_JD_DEP_ORDER :: nat where "KBASE_JD_DEP_ORDER = 2"
definition KBASE_JD_REQ_SOFT_FENCE_TRIGGER :: u32 where "KBASE_JD_REQ_SOFT_FENCE_TRIGGER = 0x202"

text \<open>
  The queue as the zeroed device leaves it after \<open>kbase_queue_init\<close>. The array \<open>open_seq\<close>
  has room for 256 numbers; its first \<open>nr_open_seq\<close> entries are the list in the model.
\<close>

definition OPEN_SEQ_SIZE :: nat where "OPEN_SEQ_SIZE = 256"

definition kbase_queue_init :: kbase_queue where
  "kbase_queue_init = \<lparr>owner = replicate 256 None, is_fence = replicate 256 False, free_atoms = 255,
     last_atom = 0, next_seq = 1, open_seq = [], in_flight = 0, thread_started = False,
     stop = False, fence_warned = False, subs = (\<lambda>_. None), next_ref = 0, cb_log = []\<rparr>"

definition kbase_queue_finish :: "kbase_queue \<Rightarrow> kbase_queue" where
  "kbase_queue_finish q = q\<lparr>stop := True\<rparr>"

text \<open>The record a pointer refers to; the invariant shows that it is never dangling.\<close>

definition sub_at :: "kbase_queue \<Rightarrow> sub_ref \<Rightarrow> kbase_sub" where
  "sub_at q p = the (subs q p)"

section \<open>The event thread\<close>

record kbase_jd_event =
  event_code :: u32
  event_atom :: u8
  event_tag :: u64

text \<open>
  The bookkeeping of an atom that has reported: its number is free again and its submission has
  one atom less to wait for.
\<close>

definition retire_atom :: "nat \<Rightarrow> sub_ref \<Rightarrow> bool \<Rightarrow> bool \<Rightarrow> kbase_queue \<Rightarrow> kbase_queue" where
  "retire_atom an p ok warned q =
     q\<lparr>owner := (owner q)[an := None],
       free_atoms := free_atoms q + 1,
       last_atom := (if last_atom q = an then 0 else last_atom q),
       fence_warned := warned,
       is_fence := (is_fence q)[an := False],
       subs := (subs q)(p \<mapsto> (sub_at q p)\<lparr>sub_ok := ok, pending := pending (sub_at q p) - 1\<rparr>)\<rparr>"

text \<open>One event under the lock; \<open>finished\<close> collects the submissions that have no atom left.\<close>

definition kbase_event :: "kbase_jd_event \<Rightarrow> kbase_queue \<times> sub_ref list \<Rightarrow> kbase_queue \<times> sub_ref list" where
  "kbase_event ev qf = (case qf of (q, finished) \<Rightarrow>
     if event_tag ev \<noteq> KBASE_ATOM_TAG then (q, finished)
     else case owner q ! unat (event_atom ev) of
         None \<Rightarrow> (q, finished)
       | Some p \<Rightarrow>
           let an = unat (event_atom ev); sub = sub_at q p;
               fault = (event_code ev \<noteq> KBASE_JD_EVENT_DONE);
               soft = (is_fence q ! an \<and> sub_cb sub = None)
           in (retire_atom an p (if fault \<and> \<not> soft then False else sub_ok sub)
                 (if fault \<and> soft then True else fence_warned q) q,
               if pending sub - 1 = 0 then finished @ [p] else finished))"

definition kbase_events :: "kbase_jd_event list \<Rightarrow> kbase_queue \<Rightarrow> kbase_queue \<times> sub_ref list" where
  "kbase_events evs q = fold kbase_event evs (q, [])"

text \<open>\<open>open_seq[k] = open_seq[--nr_open_seq]\<close> for the first entry equal to \<open>seq\<close>, if any.\<close>

function open_remove :: "nat \<Rightarrow> nat \<Rightarrow> nat list \<Rightarrow> nat list" where
  "open_remove s k xs =
     (if s \<noteq> 0 \<and> k < length xs
      then if xs ! k = s then butlast (xs[k := last xs]) else open_remove s (Suc k) xs
      else xs)"
  by pat_completeness auto
termination by (relation "measure (\<lambda>(s, k, xs). length xs - k)") auto

declare open_remove.simps [simp del]

text \<open>A finished submission: its callback, then its sequence number is closed and it is freed.\<close>

definition kbase_finish_sub :: "sub_ref \<Rightarrow> kbase_queue \<Rightarrow> kbase_queue" where
  "kbase_finish_sub p q =
     (let sub = sub_at q p;
          q1 = (case sub_cb sub of None \<Rightarrow> q | Some c \<Rightarrow> q\<lparr>cb_log := cb_log q @ [(c, sub_ok sub)]\<rparr>)
      in q1\<lparr>open_seq := open_remove (sub_seq sub) 0 (open_seq q1),
            in_flight := in_flight q1 - 1,
            subs := (subs q1)(p := None)\<rparr>)"

text \<open>
  One iteration of the thread's loop. \<open>None\<close>: the loop has ended; \<open>read\<close> is what the poll and
  the read deliver (\<open>None\<close> when the poll times out, the read fails or returns a part of a
  record), at most 16 events.
\<close>

definition kbase_event_thread :: "kbase_jd_event list option \<Rightarrow> kbase_queue \<Rightarrow> kbase_queue option" where
  "kbase_event_thread read q =
     (if stop q \<and> in_flight q = 0 then None
      else case read of
             None \<Rightarrow> Some q
           | Some evs \<Rightarrow> (case kbase_events evs q of (q', finished) \<Rightarrow> Some (fold kbase_finish_sub finished q')))"

section \<open>Submission\<close>

record pan_kmod_kbase_atom =
  a_jc :: u64
  a_core_req :: u32
  a_atom_number :: u8
  a_dep_atom :: u8

record kbase_jd_atom =
  jd_jc :: u64
  jd_core_req :: u32
  jd_atom_number :: nat
  jd_udata0 :: u64
  jd_udata1 :: nat
  jd_dep_atom :: nat
  jd_dep_type :: nat

record submit_call =
  c_seq :: nat
  c_fence :: bool
  c_need :: nat

text \<open>
  What the environment decides for a call: whether \<open>pthread_create\<close> and \<open>calloc\<close> succeed, the
  address of the fence structure on the stack, and the kernel's answer to \<open>JOB_SUBMIT\<close>, with
  the descriptor it stores in that structure.
\<close>

record submit_env =
  e_thread_ok :: bool
  e_calloc_ok :: bool
  e_fence_addr :: u64
  e_ioctl :: "kbase_jd_atom list \<Rightarrow> bool \<times> int"

datatype submit_result =
    Submit_refused kbase_queue
  | Submit_ok nat int "kbase_jd_atom list" kbase_queue
  | Submit_stuck

text \<open>From the entry up to the first wait. \<open>None\<close>: the call returns 0.\<close>

definition submit_enter :: "submit_env \<Rightarrow> nat \<Rightarrow> bool \<Rightarrow> kbase_queue \<Rightarrow> submit_call option \<times> kbase_queue" where
  "submit_enter env nr_atoms fence_fd q =
     (if PAN_KMOD_KBASE_MAX_ATOMS < nr_atoms then (None, q)
      else if \<not> thread_started q \<and> \<not> e_thread_ok env then (None, q)
      else let fence = (fence_fd \<and> (nr_atoms \<noteq> 0 \<or> last_atom q \<noteq> 0))
           in (Some \<lparr>c_seq = next_seq q, c_fence = fence, c_need = nr_atoms + (if fence then 1 else 0)\<rparr>,
               q\<lparr>thread_started := True, next_seq := next_seq q + 1\<rparr>))"

text \<open>The condition of the call's wait loop: \<open>nr_open_seq\<close> with nothing to run, else \<open>free_atoms\<close>.\<close>

definition submit_ready :: "submit_call \<Rightarrow> kbase_queue \<Rightarrow> bool" where
  "submit_ready c q = (if c_need c = 0 then open_seq q = [] else c_need c \<le> free_atoms q)"

text \<open>
  The loop that takes atom numbers. Running past number 255, where the C code would read
  beyond \<open>owner\<close> and fail its assertion, is \<open>None\<close>.
\<close>

function next_free :: "nat \<Rightarrow> sub_ref option list \<Rightarrow> nat" where
  "next_free k xs = (if k < length xs \<and> xs ! k \<noteq> None then next_free (Suc k) xs else k)"
  by pat_completeness auto
termination by (relation "measure (\<lambda>(k, xs). length xs - k)") auto

declare next_free.simps [simp del]

fun take_atoms :: "(nat \<Rightarrow> sub_ref) \<Rightarrow> (nat \<Rightarrow> bool) \<Rightarrow> nat \<Rightarrow> nat \<Rightarrow> nat \<Rightarrow> kbase_queue \<Rightarrow>
  (nat list \<times> kbase_queue) option" where
  "take_atoms ref fence 0 i nxt q = Some ([], q)"
| "take_atoms ref fence (Suc n) i nxt q =
     (let k = next_free nxt (owner q)
      in if 255 < k then None
         else case take_atoms ref fence n (Suc i) (Suc k)
                 (q\<lparr>owner := (owner q)[k := Some (ref i)], is_fence := (is_fence q)[k := fence i]\<rparr>) of
                None \<Rightarrow> None
              | Some (ks, q') \<Rightarrow> Some (k # ks, q'))"

definition rel_to_real :: "pan_kmod_kbase_atom list \<Rightarrow> nat list \<Rightarrow> nat list" where
  "rel_to_real atoms real =
     fold (\<lambda>(a, r) m. m[unat (a_atom_number a) := r]) (zip atoms real) (replicate 256 0)"

definition jd_of :: "nat list \<Rightarrow> nat \<Rightarrow> nat \<Rightarrow> pan_kmod_kbase_atom \<Rightarrow> nat \<Rightarrow> kbase_jd_atom" where
  "jd_of rel newest seq a r =
     \<lparr>jd_jc = a_jc a, jd_core_req = a_core_req a, jd_atom_number = r,
      jd_udata0 = KBASE_ATOM_TAG, jd_udata1 = seq,
      jd_dep_atom = (if a_dep_atom a \<noteq> 0 then rel ! unat (a_dep_atom a)
                     else if newest \<noteq> 0 then newest else 0),
      jd_dep_type = (if a_dep_atom a \<noteq> 0 then KBASE_JD_DEP_DATA
                     else if newest \<noteq> 0 then KBASE_JD_DEP_ORDER else 0)\<rparr>"

definition fence_jd :: "u64 \<Rightarrow> nat list \<Rightarrow> nat \<Rightarrow> nat \<Rightarrow> nat \<Rightarrow> kbase_jd_atom" where
  "fence_jd addr real nr_atoms newest seq =
     \<lparr>jd_jc = addr, jd_core_req = KBASE_JD_REQ_SOFT_FENCE_TRIGGER, jd_atom_number = real ! nr_atoms,
      jd_udata0 = KBASE_ATOM_TAG, jd_udata1 = seq,
      jd_dep_atom = (if nr_atoms \<noteq> 0 then real ! (nr_atoms - 1) else newest),
      jd_dep_type = KBASE_JD_DEP_ORDER\<rparr>"

definition release_atoms :: "nat list \<Rightarrow> kbase_queue \<Rightarrow> kbase_queue" where
  "release_atoms real q =
     q\<lparr>owner := fold (\<lambda>k xs. xs[k := None]) real (owner q),
       is_fence := fold (\<lambda>k xs. xs[k := False]) real (is_fence q)\<rparr>"

text \<open>
  The record that owns the \<open>i\<close>th number: with GPU atoms, the fence atom gets a record of its
  own. Then what a submission that the kernel accepted leaves in the queue.
\<close>

definition sub_for :: "bool \<Rightarrow> nat \<Rightarrow> sub_ref \<Rightarrow> nat \<Rightarrow> sub_ref" where
  "sub_for split nr_atoms p i = (if split \<and> i = nr_atoms then Suc p else p)"

definition submit_account :: "bool \<Rightarrow> nat \<Rightarrow> nat \<Rightarrow> nat \<Rightarrow> nat option \<Rightarrow> nat list \<Rightarrow> kbase_queue \<Rightarrow> kbase_queue" where
  "submit_account split nr_atoms need seq cb real q =
     (let p = next_ref q;
          sub = \<lparr>sub_seq = seq, pending = (if split then nr_atoms else need), sub_ok = True, sub_cb = cb\<rparr>;
          fsub = \<lparr>sub_seq = 0, pending = 1, sub_ok = True, sub_cb = None\<rparr>
      in q\<lparr>free_atoms := free_atoms q - need,
           last_atom := (if nr_atoms \<noteq> 0 then real ! (nr_atoms - 1) else last_atom q),
           in_flight := in_flight q + (if split then 2 else 1),
           open_seq := open_seq q @ [seq],
           subs := (if split then (subs q)(p \<mapsto> sub, Suc p \<mapsto> fsub) else (subs q)(p \<mapsto> sub)),
           next_ref := p + 2\<rparr>)"

text \<open>The rest of the call, once its wait is over.\<close>

definition submit_commit ::
  "submit_env \<Rightarrow> pan_kmod_kbase_atom list \<Rightarrow> nat option \<Rightarrow> submit_call \<Rightarrow> kbase_queue \<Rightarrow> submit_result" where
  "submit_commit env atoms cb c q =
     (let nr_atoms = length atoms; fence = c_fence c; need = c_need c; seq = c_seq c;
          split = (fence \<and> nr_atoms \<noteq> 0)
      in if need = 0
         then Submit_ok seq (-1) [] (case cb of None \<Rightarrow> q | Some f \<Rightarrow> q\<lparr>cb_log := cb_log q @ [(f, True)]\<rparr>)
         else if \<not> e_calloc_ok env then Submit_refused q
         else case take_atoms (sub_for split nr_atoms (next_ref q)) (\<lambda>i. fence \<and> i = nr_atoms) need 0 1 q of
                None \<Rightarrow> Submit_stuck
              | Some (real, q1) \<Rightarrow>
                  if list_ex (\<lambda>a. a_atom_number a = 0) atoms then Submit_stuck
                  else let jd = map2 (jd_of (rel_to_real atoms real) (last_atom q1) seq) atoms real @
                              (if fence then [fence_jd (e_fence_addr env) real nr_atoms (last_atom q1) seq] else [])
                       in case e_ioctl env jd of
                            (False, _) \<Rightarrow> Submit_refused (release_atoms real q1)
                          | (True, fd) \<Rightarrow>
                              if OPEN_SEQ_SIZE \<le> length (open_seq q1) then Submit_stuck
                              else Submit_ok seq (if fence then fd else -1) jd
                                     (submit_account split nr_atoms need seq cb real q1))"

text \<open>A wait on the condition variable: each element is what other threads did before a wake-up.\<close>

fun cond_wait :: "(kbase_queue \<Rightarrow> kbase_queue) list \<Rightarrow> (kbase_queue \<Rightarrow> bool) \<Rightarrow> kbase_queue \<Rightarrow> kbase_queue option" where
  "cond_wait [] ready q = (if ready q then Some q else None)"
| "cond_wait (w # ws) ready q = (if ready q then Some q else cond_wait ws ready (w q))"

definition pan_kmod_kbase_submit_async ::
  "submit_env \<Rightarrow> (kbase_queue \<Rightarrow> kbase_queue) list \<Rightarrow> pan_kmod_kbase_atom list \<Rightarrow> bool \<Rightarrow> nat option \<Rightarrow>
   kbase_queue \<Rightarrow> submit_result option" where
  "pan_kmod_kbase_submit_async env ws atoms fence_fd cb q =
     (case submit_enter env (length atoms) fence_fd q of
        (None, q') \<Rightarrow> Some (Submit_refused q')
      | (Some c, q') \<Rightarrow> map_option (submit_commit env atoms cb c) (cond_wait ws (submit_ready c) q'))"

section \<open>Waits\<close>

definition seq_open :: "kbase_queue \<Rightarrow> nat \<Rightarrow> bool" where
  "seq_open q seq = list_ex (\<lambda>s. s \<le> seq) (open_seq q)"

definition pan_kmod_kbase_wait_seq :: "(kbase_queue \<Rightarrow> kbase_queue) list \<Rightarrow> nat \<Rightarrow> kbase_queue \<Rightarrow> kbase_queue option" where
  "pan_kmod_kbase_wait_seq ws seq q =
     (let seq' = (if seq = 0 then next_seq q - 1 else seq)
      in cond_wait ws (\<lambda>q. \<not> seq_open q seq') q)"

text \<open>Each wake-up of the timed wait comes with the clock that is read before it sleeps.\<close>

fun wait_seq_timed :: "(int \<times> (kbase_queue \<Rightarrow> kbase_queue)) list \<Rightarrow> nat \<Rightarrow> int \<Rightarrow> kbase_queue \<Rightarrow> (bool \<times> kbase_queue) option" where
  "wait_seq_timed [] seq abs_timeout q = (if \<not> seq_open q seq then Some (True, q) else None)"
| "wait_seq_timed ((now, w) # ws) seq abs_timeout q =
     (if \<not> seq_open q seq then Some (True, q)
      else if abs_timeout \<noteq> 2 ^ 63 - 1 \<and> abs_timeout \<le> now then Some (False, q)
      else wait_seq_timed ws seq abs_timeout (w q))"

definition pan_kmod_kbase_wait_seq_timeout ::
  "(int \<times> (kbase_queue \<Rightarrow> kbase_queue)) list \<Rightarrow> nat \<Rightarrow> int \<Rightarrow> kbase_queue \<Rightarrow> (bool \<times> kbase_queue) option" where
  "pan_kmod_kbase_wait_seq_timeout ws seq abs_timeout q =
     (if seq = 0 then Some (True, q) else wait_seq_timed ws seq abs_timeout q)"

text \<open>
  The blocking submission. Its callback, with an identifier of its own, stores the outcome in
  a local variable that starts as true.
\<close>

definition kbase_blocking_done :: "nat \<Rightarrow> (nat \<times> bool) list \<Rightarrow> bool" where
  "kbase_blocking_done c lg = fold (\<lambda>(c', b) ok. if c' = c then b else ok) lg True"

definition pan_kmod_kbase_submit ::
  "submit_env \<Rightarrow> (kbase_queue \<Rightarrow> kbase_queue) list \<Rightarrow> (kbase_queue \<Rightarrow> kbase_queue) list \<Rightarrow> nat \<Rightarrow>
   pan_kmod_kbase_atom list \<Rightarrow> kbase_queue \<Rightarrow> (bool \<times> kbase_queue) option" where
  "pan_kmod_kbase_submit env ws ws' c atoms q =
     (case pan_kmod_kbase_submit_async env ws atoms False (Some c) q of
        Some (Submit_refused q') \<Rightarrow> Some (False, q')
      | Some (Submit_ok seq fd jd q') \<Rightarrow>
          (case pan_kmod_kbase_wait_seq ws' seq q' of
             None \<Rightarrow> None
           | Some q'' \<Rightarrow> Some (kbase_blocking_done c (cb_log q''), q''))
      | _ \<Rightarrow> None)"

section \<open>The invariant\<close>

text \<open>
  Atom numbers: the free ones are counted, every number in use belongs to a live record that
  counts its numbers as pending, number 0 is never used, the submissions without a pending atom
  are exactly those the event thread is about to finish, a free number is not marked as a
  fence, and the newest atom is in flight and is not a fence.
\<close>

definition atoms_inv :: "kbase_queue \<Rightarrow> sub_ref list \<Rightarrow> bool" where
  "atoms_inv q batch \<longleftrightarrow>
     length (owner q) = 256 \<and> owner q ! 0 = None \<and> length (is_fence q) = 256 \<and>
     Suc (free_atoms q) = count_list (owner q) None \<and>
     (\<forall>p. Some p \<in> set (owner q) \<longrightarrow> subs q p \<noteq> None) \<and>
     (\<forall>p sub. subs q p = Some sub \<longrightarrow> pending sub = count_list (owner q) (Some p) \<and> p < next_ref q) \<and>
     distinct batch \<and> set batch = {p. \<exists>sub. subs q p = Some sub \<and> pending sub = 0} \<and>
     finite (dom (subs q)) \<and> in_flight q = card (dom (subs q)) \<and>
     (\<forall>k < 256. owner q ! k = None \<longrightarrow> \<not> is_fence q ! k) \<and>
     last_atom q < 256 \<and> (last_atom q \<noteq> 0 \<longrightarrow> owner q ! last_atom q \<noteq> None \<and> \<not> is_fence q ! last_atom q)"

text \<open>
  Sequence numbers: the open ones are exactly those of the live submissions, each of one
  submission; the ones given to calls that still wait for atoms are different from them.
\<close>

definition seq_of :: "kbase_queue \<Rightarrow> sub_ref \<Rightarrow> nat" where
  "seq_of q p = (case subs q p of None \<Rightarrow> 0 | Some sub \<Rightarrow> sub_seq sub)"

definition seq_inv :: "kbase_queue \<Rightarrow> nat list \<Rightarrow> bool" where
  "seq_inv q ws \<longleftrightarrow>
     distinct ws \<and> distinct (open_seq q) \<and> set ws \<inter> set (open_seq q) = {} \<and>
     (\<forall>s \<in> set ws \<union> set (open_seq q). 0 < s \<and> s < next_seq q) \<and> 0 < next_seq q \<and>
     inj_on (seq_of q) {p. seq_of q p \<noteq> 0} \<and>
     set (open_seq q) = range (seq_of q) - {0}"

lemma count_list_update:
  "i < length xs \<Longrightarrow> count_list (xs[i := y]) z + (if xs ! i = z then 1 else 0) =
     count_list xs z + (if y = z then 1 else 0)"
proof (induction xs arbitrary: i)
  case (Cons x xs)
  show ?case
  proof (cases i)
    case (Suc j)
    then show ?thesis using Cons.prems Cons.IH [of j] by (auto split: if_splits)
  qed simp
qed simp

lemma count_list_pos: "i < length xs \<Longrightarrow> 0 < count_list xs (xs ! i)"
  by (metis count_list_0_iff gr0I nth_mem)

lemma atoms_invD:
  assumes "atoms_inv q f"
  shows "length (owner q) = 256" "owner q ! 0 = None" "length (is_fence q) = 256"
    "Suc (free_atoms q) = count_list (owner q) None"
    "Some p \<in> set (owner q) \<Longrightarrow> subs q p \<noteq> None"
    "subs q p = Some sub \<Longrightarrow> pending sub = count_list (owner q) (Some p)"
    "subs q p = Some sub \<Longrightarrow> p < next_ref q"
    "distinct f" "p \<in> set f \<longleftrightarrow> (\<exists>sub. subs q p = Some sub \<and> pending sub = 0)"
    "finite (dom (subs q))" "in_flight q = card (dom (subs q))" "last_atom q < 256"
    "last_atom q \<noteq> 0 \<Longrightarrow> owner q ! last_atom q \<noteq> None"
    "last_atom q \<noteq> 0 \<Longrightarrow> \<not> is_fence q ! last_atom q"
    "k < 256 \<Longrightarrow> owner q ! k = None \<Longrightarrow> \<not> is_fence q ! k"
  using assms by (simp_all add: atoms_inv_def)

lemma atoms_invI:
  assumes "length (owner q) = 256" "owner q ! 0 = None" "length (is_fence q) = 256"
    "Suc (free_atoms q) = count_list (owner q) None"
    "\<And>p. Some p \<in> set (owner q) \<Longrightarrow> subs q p \<noteq> None"
    "\<And>p sub. subs q p = Some sub \<Longrightarrow> pending sub = count_list (owner q) (Some p)"
    "\<And>p sub. subs q p = Some sub \<Longrightarrow> p < next_ref q"
    "distinct f" "\<And>p. p \<in> set f \<longleftrightarrow> (\<exists>sub. subs q p = Some sub \<and> pending sub = 0)"
    "finite (dom (subs q))" "in_flight q = card (dom (subs q))" "last_atom q < 256"
    "last_atom q \<noteq> 0 \<Longrightarrow> owner q ! last_atom q \<noteq> None"
    "last_atom q \<noteq> 0 \<Longrightarrow> \<not> is_fence q ! last_atom q"
    "\<And>k. k < 256 \<Longrightarrow> owner q ! k = None \<Longrightarrow> \<not> is_fence q ! k"
  shows "atoms_inv q f"
  unfolding atoms_inv_def using assms(1-8,10-15) assms(9) by (simp add: set_eq_iff)

lemma atoms_inv_owned:
  assumes "atoms_inv q f" and "owner q ! an = Some p" and "an < 256"
  shows "\<exists>sub. subs q p = Some sub \<and> sub_at q p = sub \<and> pending sub = count_list (owner q) (Some p) \<and> 0 < pending sub"
proof -
  note d = atoms_invD [OF assms(1)]
  have "Some p \<in> set (owner q)" using assms(2,3) d(1) by (metis nth_mem)
  then obtain sub where s: "subs q p = Some sub" using d(5) by blast
  have "0 < count_list (owner q) (Some p)"
    using count_list_pos [of an "owner q"] assms(2,3) d(1) by simp
  then show ?thesis using d(6) [OF s] s by (simp add: sub_at_def)
qed

lemma retire_atom_inv:
  assumes inv: "atoms_inv q f" and p: "owner q ! an = Some p" and an: "an < 256"
  shows "atoms_inv (retire_atom an p ok w q) (if pending (sub_at q p) - 1 = 0 then f @ [p] else f)"
proof -
  obtain sub where sub: "subs q p = Some sub" "sub_at q p = sub"
    and pend: "pending sub = count_list (owner q) (Some p)" "0 < pending sub"
    using atoms_inv_owned [OF assms] by auto
  note d = atoms_invD [OF inv]
  have "count_list ((owner q)[an := None]) z + (if Some p = z then 1 else 0) =
      count_list (owner q) z + (if None = z then 1 else 0)" for z
    using count_list_update [of an "owner q" None z] an d(1) unfolding p by simp
  from this [of None] this [of "Some p'" for p']
  have none: "count_list ((owner q)[an := None]) None = Suc (count_list (owner q) None)"
    and some: "\<And>p'. count_list ((owner q)[an := None]) (Some p') + (if p = p' then 1 else 0) = count_list (owner q) (Some p')"
    by simp_all
  have notin: "p \<notin> set f" using d(9) [of p] sub(1) pend(2) by simp
  let ?q = "retire_atom an p ok w q"
  have f: "owner ?q = (owner q)[an := None]" "is_fence ?q = (is_fence q)[an := False]"
      "free_atoms ?q = free_atoms q + 1" "next_ref ?q = next_ref q" "in_flight ?q = in_flight q"
      "last_atom ?q = (if last_atom q = an then 0 else last_atom q)"
      "subs ?q = (subs q)(p \<mapsto> sub\<lparr>sub_ok := ok, pending := pending sub - 1\<rparr>)"
    by (simp_all add: retire_atom_def sub(2))
  have dom: "dom (subs ?q) = dom (subs q)" unfolding f using sub(1) by auto
  show ?thesis
  proof (rule atoms_invI)
    show "subs ?q p' \<noteq> None" if "Some p' \<in> set (owner ?q)" for p'
      using that d(5) [of p'] set_update_subset_insert [of "owner q" an None] unfolding f by auto
    show "pending s = count_list (owner ?q) (Some p')" if "subs ?q p' = Some s" for p' s
      using that d(6) [of p' s] some [of p'] pend unfolding f by (auto split: if_splits)
    show "p' < next_ref ?q" if "subs ?q p' = Some s" for p' s
      using that d(7) [of p'] sub(1) unfolding f by (auto split: if_splits)
    show "(p' \<in> set (if pending (sub_at q p) - 1 = 0 then f @ [p] else f)) =
        (\<exists>s. subs ?q p' = Some s \<and> pending s = 0)" for p'
      using d(9) [of p'] notin pend(2) unfolding f sub(2) by auto
  qed (use d an p notin none dom f in \<open>auto simp: nth_list_update\<close>)
qed

lemma kbase_event_inv:
  assumes "atoms_inv q f" and "kbase_event ev (q, f) = (q', f')"
  shows "atoms_inv q' f'"
proof (cases "event_tag ev = KBASE_ATOM_TAG")
  case True
  have an: "unat (event_atom ev) < 256" using unsigned_less [of "event_atom ev"] by simp
  show ?thesis
    using assms True retire_atom_inv [OF assms(1) _ an]
    by (cases "owner q ! unat (event_atom ev)") (auto simp: kbase_event_def Let_def)
qed (use assms in \<open>simp add: kbase_event_def\<close>)

lemma seq_invD:
  assumes "seq_inv q ws"
  shows "distinct ws" "distinct (open_seq q)" "set ws \<inter> set (open_seq q) = {}"
    "s \<in> set ws \<or> s \<in> set (open_seq q) \<Longrightarrow> 0 < s \<and> s < next_seq q" "0 < next_seq q"
    "inj_on (seq_of q) {p. seq_of q p \<noteq> 0}"
    "set (open_seq q) = range (seq_of q) - {0}"
  using assms unfolding seq_inv_def by (elim conjE, (assumption | erule bspec, rule UnI1 | blast))+

lemma seq_invI:
  assumes "distinct ws" "distinct (open_seq q)" "set ws \<inter> set (open_seq q) = {}"
    "\<And>s. s \<in> set ws \<or> s \<in> set (open_seq q) \<Longrightarrow> 0 < s \<and> s < next_seq q" "0 < next_seq q"
    "inj_on (seq_of q) {p. seq_of q p \<noteq> 0}"
    "set (open_seq q) = range (seq_of q) - {0}"
  shows "seq_inv q ws"
  unfolding seq_inv_def using assms(4) by (intro conjI assms(1-3,5-7) ballI) auto

lemma seq_inv_cong:
  "seq_of q' = seq_of q \<Longrightarrow> open_seq q' = open_seq q \<Longrightarrow> next_seq q' = next_seq q \<Longrightarrow> seq_inv q' ws = seq_inv q ws"
  by (simp only: seq_inv_def)

lemma kbase_event_seq_inv:
  assumes "atoms_inv q f" and "seq_inv q ws" and "kbase_event ev (q, f) = (q', f')"
  shows "seq_inv q' ws"
proof (cases "event_tag ev = KBASE_ATOM_TAG \<and> owner q ! unat (event_atom ev) \<noteq> None")
  case True
  then obtain p where p: "owner q ! unat (event_atom ev) = Some p" by auto
  have an: "unat (event_atom ev) < 256" using unsigned_less [of "event_atom ev"] by simp
  obtain sub where sub: "subs q p = Some sub" "sub_at q p = sub"
    using atoms_inv_owned [OF assms(1) p an] by auto
  obtain ok w where q': "q' = retire_atom (unat (event_atom ev)) p ok w q"
    using assms(3) True p by (auto simp: kbase_event_def Let_def)
  have "seq_of q' = seq_of q" using sub by (simp add: q' seq_of_def retire_atom_def fun_eq_iff)
  then show ?thesis using assms(2) seq_inv_cong [of q' q] by (simp add: q' retire_atom_def)
next
  case False
  then have "q' = q" using assms(3) by (auto simp: kbase_event_def split: if_splits)
  then show ?thesis using assms(2) by simp
qed

lemma kbase_events_inv:
  assumes "atoms_inv q []" and "seq_inv q ws" and "kbase_events evs q = (q', f)"
  shows "atoms_inv q' f \<and> seq_inv q' ws"
proof -
  have "fold kbase_event evs (q, g) = (q', f) \<Longrightarrow> atoms_inv q g \<Longrightarrow> seq_inv q ws \<Longrightarrow> atoms_inv q' f \<and> seq_inv q' ws" for g
  proof (induction evs arbitrary: q g)
    case (Cons ev evs)
    obtain q1 g1 where e: "kbase_event ev (q, g) = (q1, g1)" by fastforce
    show ?case
      using Cons.IH [of q1 g1] Cons.prems kbase_event_inv [OF _ e] kbase_event_seq_inv [OF _ _ e]
      by (simp add: e)
  qed simp
  then show ?thesis using assms by (simp add: kbase_events_def)
qed

lemma swap_remove:
  assumes "distinct xs" and "k < length xs"
  shows "distinct (butlast (xs[k := last xs])) \<and> set (butlast (xs[k := last xs])) = set xs - {xs ! k}"
proof (cases xs rule: rev_cases)
  case (snoc ys z)
  show ?thesis
  proof (cases "k < length ys")
    case True
    then have "butlast (xs[k := last xs]) = ys[k := z]" using snoc by (simp add: list_update_append)
    moreover have "z \<noteq> ys ! k" using assms(1) snoc True by (auto simp: in_set_conv_nth)
    ultimately show ?thesis
      using assms(1) snoc True distinct_list_update [of ys z k] set_update_distinct [of ys k z]
      by (auto simp: nth_append)
  next
    case False
    then have "k = length ys" using assms(2) snoc by simp
    then show ?thesis using assms(1) snoc by auto
  qed
qed (use assms in simp)

lemma open_remove_set:
  assumes "distinct xs" and "s \<noteq> 0" and "s \<in> set (drop k xs)"
  shows "distinct (open_remove s k xs) \<and> set (open_remove s k xs) = set xs - {s}"
  using assms
proof (induction s k xs rule: open_remove.induct)
  case (1 s k xs)
  from "1.prems"(3) have k: "k < length xs" by (metis drop_all empty_iff empty_set not_less)
  then have d: "drop k xs = xs ! k # drop (Suc k) xs" by (metis Cons_nth_drop_Suc)
  show ?case
    using "1.IH" "1.prems" k swap_remove [OF "1.prems"(1) k] unfolding d
    by (auto simp: open_remove.simps [of s k xs])
qed

lemma kbase_finish_sub_inv:
  assumes "atoms_inv q (p # ps)" and "seq_inv q ws"
  shows "atoms_inv (kbase_finish_sub p q) ps \<and> seq_inv (kbase_finish_sub p q) ws"
proof -
  note d = atoms_invD [OF assms(1)]
  obtain sub where sub: "subs q p = Some sub" "pending sub = 0" using d(9) [of p] by auto
  let ?q = "kbase_finish_sub p q"
  have f: "owner ?q = owner q" "is_fence ?q = is_fence q" "free_atoms ?q = free_atoms q"
      "next_ref ?q = next_ref q" "in_flight ?q = in_flight q - 1" "last_atom ?q = last_atom q"
      "subs ?q = (subs q)(p := None)" "next_seq ?q = next_seq q"
      "open_seq ?q = open_remove (sub_seq sub) 0 (open_seq q)"
    using sub(1) by (simp_all add: kbase_finish_sub_def Let_def sub_at_def split: option.splits)
  have "Some p \<notin> set (owner q)" using d(6) [OF sub(1)] sub(2) by (simp add: count_list_0_iff)
  then have "atoms_inv ?q ps"
  proof (intro atoms_invI)
    show "subs ?q p' \<noteq> None" if "Some p' \<in> set (owner ?q)" for p'
      using that d(5) [of p'] \<open>Some p \<notin> set (owner q)\<close> unfolding f by auto
    show "(p' \<in> set ps) = (\<exists>s. subs ?q p' = Some s \<and> pending s = 0)" for p'
      using d(9) [of p'] d(8) unfolding f by auto
    show "in_flight ?q = card (dom (subs ?q))"
      using d(10,11) sub(1) unfolding f by (simp add: card_Diff_singleton_if domI)
  qed (use d in \<open>auto simp: f split: if_splits\<close>)
  moreover have "seq_inv ?q ws"
  proof -
    have s: "seq_of ?q = (seq_of q)(p := 0)" by (auto simp: seq_of_def f)
    have own: "seq_of q p = sub_seq sub" using sub(1) by (simp add: seq_of_def)
    show ?thesis
    proof (cases "sub_seq sub = 0")
      case True
      then have "seq_of ?q = seq_of q" "open_seq ?q = open_seq q"
        using s own f by (simp_all add: fun_upd_idem open_remove.simps)
      then show ?thesis using assms(2) seq_inv_cong [of ?q q] f by blast
    next
      case False
      note q = seq_invD [OF assms(2)]
      have "sub_seq sub \<in> range (seq_of q)" using own by (metis rangeI)
      then have o: "sub_seq sub \<in> set (open_seq q)" using q(7) False by simp
      have r: "distinct (open_seq ?q)" "set (open_seq ?q) = set (open_seq q) - {sub_seq sub}"
        using open_remove_set [OF q(2) False, of 0] o f by simp_all
      show ?thesis
      proof (rule seq_invI)
        show "inj_on (seq_of ?q) {x. seq_of ?q x \<noteq> 0}"
          using q(6) unfolding s inj_on_def by (simp split: if_splits)
        have "x = p" if "seq_of q x = sub_seq sub" for x
          using inj_onD [OF q(6), of x p] own that False by simp
        then show "set (open_seq ?q) = range (seq_of ?q) - {0}"
          unfolding r s q(7) by (auto simp: own)
        show "0 < n \<and> n < next_seq ?q" if "n \<in> set ws \<or> n \<in> set (open_seq ?q)" for n
          using q(4) [of n] that unfolding r f(8) by blast
      qed (use q(1,3,5) r f(8) in auto)
    qed
  qed
  ultimately show ?thesis by simp
qed

section \<open>Taking atom numbers\<close>

lemma next_free_spec:
  "k \<le> next_free k xs \<and> (\<forall>j. k \<le> j \<longrightarrow> j < next_free k xs \<longrightarrow> xs ! j \<noteq> None) \<and>
   (next_free k xs < length xs \<longrightarrow> xs ! next_free k xs = None)"
proof (induction k xs rule: next_free.induct)
  case (1 k xs)
  show ?case
  proof (cases "k < length xs \<and> xs ! k \<noteq> None")
    case True
    then have "next_free k xs = next_free (Suc k) xs" by (simp add: next_free.simps [of k])
    then show ?thesis using 1 True by (metis Suc_leD Suc_leI le_neq_implies_less)
  next
    case False
    then have "next_free k xs = k" by (simp only: next_free.simps [of k] if_False)
    then show ?thesis using False by auto
  qed
qed

definition taken :: "(nat \<Rightarrow> sub_ref) \<Rightarrow> (nat \<Rightarrow> bool) \<Rightarrow> nat \<Rightarrow> nat \<Rightarrow> nat list \<Rightarrow> kbase_queue \<Rightarrow> kbase_queue \<Rightarrow> bool" where
  "taken ref fence i nxt ks q q' \<longleftrightarrow>
     sorted_wrt (<) ks \<and> (\<forall>k \<in> set ks. nxt \<le> k \<and> k < 256 \<and> owner q ! k = None) \<and>
     q' = q\<lparr>owner := owner q', is_fence := is_fence q'\<rparr> \<and>
     length (owner q') = 256 \<and> length (is_fence q') = 256 \<and>
     (\<forall>j < length ks. owner q' ! (ks ! j) = Some (ref (i + j)) \<and> is_fence q' ! (ks ! j) = fence (i + j)) \<and>
     (\<forall>k. k \<notin> set ks \<longrightarrow> owner q' ! k = owner q ! k \<and> is_fence q' ! k = is_fence q ! k) \<and>
     (\<forall>z. count_list (owner q') z + (if z = None then length ks else 0) =
          count_list (owner q) z + length (filter (\<lambda>j. Some (ref j) = z) [i..<i + length ks]))"

lemma take_atoms_spec:
  assumes "take_atoms ref fence n i nxt q = Some (ks, q')"
    and "length (owner q) = 256" and "length (is_fence q) = 256"
  shows "length ks = n \<and> taken ref fence i nxt ks q q'"
  using assms
proof (induction n arbitrary: i nxt q ks)
  case (Suc n)
  let ?k = "next_free nxt (owner q)"
  let ?q = "q\<lparr>owner := (owner q)[?k := Some (ref i)], is_fence := (is_fence q)[?k := fence i]\<rparr>"
  from Suc.prems(1) have k: "?k \<le> 255" by (auto simp: Let_def split: if_splits)
  with Suc.prems(1) obtain ks' where t: "take_atoms ref fence n (Suc i) (Suc ?k) ?q = Some (ks', q')" and ks: "ks = ?k # ks'"
    by (auto simp: Let_def split: if_splits option.splits)
  have IH: "length ks' = n" "taken ref fence (Suc i) (Suc ?k) ks' ?q q'"
    using Suc.IH [OF t] Suc.prems by simp_all
  note T = IH(2) [unfolded taken_def]
  have f: "owner q ! ?k = None" "nxt \<le> ?k" using next_free_spec [of nxt "owner q"] k Suc.prems(2) by auto
  have notin: "?k \<notin> set ks'" using T by auto
  have cnt: "count_list (owner q') z + (if z = None then length ks else 0) =
      count_list (owner q) z + length (filter (\<lambda>j. Some (ref j) = z) [i..<i + length ks])" for z
  proof -
    have "[i..<i + length ks] = i # [Suc i..<Suc i + length ks']" by (subst upt_conv_Cons) (simp_all add: ks)
    moreover have "count_list (owner q') z + (if z = None then length ks' else 0) =
        count_list (owner ?q) z + length (filter (\<lambda>j. Some (ref j) = z) [Suc i..<Suc i + length ks'])"
      using T by blast
    moreover have "count_list (owner ?q) z + (if None = z then 1 else 0) = count_list (owner q) z + (if Some (ref i) = z then 1 else 0)"
      using count_list_update [of ?k "owner q" "Some (ref i)" z] k f Suc.prems(2) by simp
    ultimately show ?thesis by (cases z) (auto simp: ks)
  qed
  have "\<forall>j < length ks. owner q' ! (ks ! j) = Some (ref (i + j)) \<and> is_fence q' ! (ks ! j) = fence (i + j)"
  proof (intro allI impI)
    fix j assume j: "j < length ks"
    show "owner q' ! (ks ! j) = Some (ref (i + j)) \<and> is_fence q' ! (ks ! j) = fence (i + j)"
    proof (cases j)
      case 0
      then show ?thesis using T notin k Suc.prems(2,3) by (simp add: ks)
    next
      case (Suc m)
      then show ?thesis using T j by (simp add: ks)
    qed
  qed
  moreover have "sorted_wrt (<) ks" using T by (auto simp: ks Suc_le_eq)
  moreover have "\<forall>k \<in> set ks. nxt \<le> k \<and> k < 256 \<and> owner q ! k = None"
    using T f k by (fastforce simp: ks nth_list_update)
  moreover have "\<forall>k. k \<notin> set ks \<longrightarrow> owner q' ! k = owner q ! k \<and> is_fence q' ! k = is_fence q ! k"
    using T by (simp add: ks)
  moreover have "q' = q\<lparr>owner := owner q', is_fence := is_fence q'\<rparr>" using T by simp
  ultimately show ?case using cnt IH(1) T unfolding taken_def ks by simp
qed (simp add: taken_def)

lemma take_atoms_progress:
  assumes "n \<le> length (filter (\<lambda>k. owner q ! k = None) [nxt..<256])" and "length (owner q) = 256"
  shows "take_atoms ref fence n i nxt q \<noteq> None"
  using assms
proof (induction n arbitrary: i nxt q)
  case (Suc n)
  let ?k = "next_free nxt (owner q)"
  let ?q = "q\<lparr>owner := (owner q)[?k := Some (ref i)], is_fence := (is_fence q)[?k := fence i]\<rparr>"
  have s: "nxt \<le> ?k" "\<And>j. nxt \<le> j \<Longrightarrow> j < ?k \<Longrightarrow> owner q ! j \<noteq> None" "?k < 256 \<Longrightarrow> owner q ! ?k = None"
    using next_free_spec [of nxt "owner q"] Suc.prems(2) by auto
  have k: "?k < 256"
  proof (rule ccontr)
    assume "\<not> ?k < 256"
    then have "filter (\<lambda>k. owner q ! k = None) [nxt..<256] = []" using s(2) by (auto simp: filter_empty_conv)
    then show False using Suc.prems(1) by simp
  qed
  have "[nxt..<256] = [nxt..<?k] @ ?k # [Suc ?k..<256]"
    using s(1) k by (metis le_add_diff_inverse less_imp_le upt_add_eq_append upt_conv_Cons)
  moreover have "filter (\<lambda>k. owner q ! k = None) [nxt..<?k] = []" using s(2) by (auto simp: filter_empty_conv)
  ultimately have "n \<le> length (filter (\<lambda>k. owner q ! k = None) [Suc ?k..<256])"
    using Suc.prems(1) s(3) [OF k] by simp
  moreover have "filter (\<lambda>k. owner ?q ! k = None) [Suc ?k..<256] = filter (\<lambda>k. owner q ! k = None) [Suc ?k..<256]"
    by (rule filter_cong) auto
  ultimately have "take_atoms ref fence n (Suc i) (Suc ?k) ?q \<noteq> None"
    using Suc.IH [of ?q "Suc ?k" "Suc i"] Suc.prems(2) by simp
  then show ?case using k by (auto simp: Let_def)
qed simp

lemma count_list_indices: "count_list xs z = length (filter (\<lambda>k. xs ! k = z) [0..<length xs])"
proof (induction xs rule: rev_induct)
  case (snoc x xs)
  have "filter (\<lambda>k. (xs @ [x]) ! k = z) [0..<length xs] = filter (\<lambda>k. xs ! k = z) [0..<length xs]"
    by (rule filter_cong) (auto simp: nth_append)
  then show ?case using snoc by simp
qed simp

lemma free_atoms_exact:
  assumes "atoms_inv q f"
  shows "length (filter (\<lambda>k. owner q ! k = None) [1..<256]) = free_atoms q"
proof -
  have "[0..<256] = 0 # [1..<256]" by (simp add: upt_conv_Cons)
  then show ?thesis
    using count_list_indices [of "owner q" None] atoms_invD(1,2,4) [OF assms] by simp
qed

section \<open>Committing a submission\<close>

lemma fold_update_nth:
  "length (fold (\<lambda>k xs. xs[k := v]) ks xs) = length xs"
  "j < length xs \<Longrightarrow> fold (\<lambda>k xs. xs[k := v]) ks xs ! j = (if j \<in> set ks then v else xs ! j)"
  by (induction ks arbitrary: xs) (auto simp: nth_list_update)

text \<open>Releasing the numbers just taken restores the queue.\<close>

lemma release_taken:
  assumes "taken ref fence i nxt ks q q'" and "atoms_inv q f"
  shows "release_atoms ks q' = q"
proof -
  note T = assms(1) [unfolded taken_def] and d = atoms_invD [OF assms(2)]
  have "fold (\<lambda>k xs. xs[k := None]) ks (owner q') = owner q"
    using T d(1) by (intro nth_equalityI) (auto simp: fold_update_nth)
  moreover have "fold (\<lambda>k xs. xs[k := False]) ks (is_fence q') = is_fence q"
    using T d(3,15) by (intro nth_equalityI) (auto simp: fold_update_nth)
  moreover obtain ow fe where "q' = q\<lparr>owner := ow, is_fence := fe\<rparr>" using T by blast
  ultimately show ?thesis by (simp add: release_atoms_def)
qed

lemma sub_for_count:
  assumes "need = (if split then Suc nr else need)"
  shows "length (filter (\<lambda>j. Some (sub_for split nr p j) = Some x) [0..<need]) =
    (if x = p then (if split then nr else need) else if split \<and> x = Suc p then 1 else 0)"
proof (cases split)
  case True
  have "filter (\<lambda>j. Some (sub_for split nr p j) = Some x) [0..<nr] = (if x = p then [0..<nr] else [])"
    by (auto simp: filter_empty_conv filter_id_conv sub_for_def)
  then show ?thesis using assms True by (auto simp: sub_for_def)
next
  case False
  then have "filter (\<lambda>j. Some (sub_for split nr p j) = Some x) [0..<need] = (if x = p then [0..<need] else [])"
    by (auto simp: filter_empty_conv filter_id_conv sub_for_def)
  then show ?thesis using False by auto
qed

lemma atoms_inv_fresh:
  assumes "atoms_inv q f" and "next_ref q \<le> p"
  shows "subs q p = None" "count_list (owner q) (Some p) = 0"
proof -
  show "subs q p = None" using atoms_invD(7) [OF assms(1), of p] assms(2) by (cases "subs q p") auto
  then have "Some p \<notin> set (owner q)" using atoms_invD(5) [OF assms(1)] by blast
  then show "count_list (owner q) (Some p) = 0" by (simp add: count_list_0_iff)
qed

lemma submit_account_inv:
  assumes inv: "atoms_inv q f" and t: "taken (sub_for split nr (next_ref q)) (\<lambda>i. fence \<and> i = nr) 0 1 real q q1"
    and len: "length real = need" and need: "need = nr + (if fence then 1 else 0)" "0 < need" "need \<le> free_atoms q"
    and split: "split = (fence \<and> nr \<noteq> 0)"
  shows "atoms_inv (submit_account split nr need seq cb real q1) f"
proof -
  note T = t [unfolded taken_def len] and d = atoms_invD [OF inv]
  obtain ow fe where q1: "q1 = q\<lparr>owner := ow, is_fence := fe\<rparr>" using T by blast
  let ?p = "next_ref q" and ?q = "submit_account split nr need seq cb real q1"
  let ?s = "\<lparr>sub_seq = seq, pending = (if split then nr else need), sub_ok = True, sub_cb = cb\<rparr>"
  let ?fs = "\<lparr>sub_seq = 0, pending = 1, sub_ok = True, sub_cb = None\<rparr>"
  have f: "owner ?q = ow" "is_fence ?q = fe" "free_atoms ?q = free_atoms q - need" "next_ref ?q = ?p + 2"
      "in_flight ?q = in_flight q + (if split then 2 else 1)"
      "last_atom ?q = (if nr \<noteq> 0 then real ! (nr - 1) else last_atom q)"
      "subs ?q = (if split then (subs q)(?p \<mapsto> ?s, Suc ?p \<mapsto> ?fs) else (subs q)(?p \<mapsto> ?s))"
    by (simp_all add: submit_account_def Let_def q1)
  have sp: "need = (if split then Suc nr else need)" using need(1) split by auto
  have cnt: "count_list ow z + (if z = None then need else 0) =
      count_list (owner q) z + length (filter (\<lambda>j. Some (sub_for split nr ?p j) = z) [0..<need])" for z
    using T by (simp add: q1)
  have some: "count_list ow (Some x) = count_list (owner q) (Some x) +
      (if x = ?p then (if split then nr else need) else if split \<and> x = Suc ?p then 1 else 0)" for x
    using cnt [of "Some x"] unfolding sub_for_count [OF sp] by simp
  have none: "count_list ow None + need = count_list (owner q) None" using cnt [of None] by simp
  have fresh: "subs q ?p = None" "subs q (Suc ?p) = None" "count_list (owner q) (Some ?p) = 0" "count_list (owner q) (Some (Suc ?p)) = 0"
    using atoms_inv_fresh [OF inv, of ?p] atoms_inv_fresh [OF inv, of "Suc ?p"] by auto
  have pend: "0 < pending ?s" using need split by auto
  have keep: "k \<notin> set real \<Longrightarrow> ow ! k = owner q ! k" "k \<notin> set real \<Longrightarrow> fe ! k = is_fence q ! k" for k using T by (simp_all add: q1)
  have real: "k \<in> set real \<Longrightarrow> 1 \<le> k \<and> k < 256 \<and> owner q ! k = None \<and> ow ! k \<noteq> None" for k
    using T len by (auto simp: q1 in_set_conv_nth)
  have last: "\<not> fe ! (real ! (nr - 1)) \<and> real ! (nr - 1) \<in> set real" if "nr \<noteq> 0"
  proof -
    have "nr - 1 < need" "nr - 1 \<noteq> nr" using that need(1) by auto
    then show ?thesis using T len by (simp add: q1)
  qed
  show ?thesis
  proof (rule atoms_invI)
    show "subs ?q x \<noteq> None" if "Some x \<in> set (owner ?q)" for x
    proof -
      have "0 < count_list ow (Some x)" using that unfolding f by (metis count_list_0_iff gr0I)
      then have "count_list (owner q) (Some x) \<noteq> 0 \<or> x = ?p \<or> split \<and> x = Suc ?p" using some [of x] by (auto split: if_splits)
      then show ?thesis using d(5) [of x] unfolding f by (auto simp: count_list_0_iff)
    qed
    show "pending s = count_list (owner ?q) (Some x)" if "subs ?q x = Some s" for x s
      using that some [of x] d(6) [of x s] fresh unfolding f by (auto split: if_splits)
    show "x < next_ref ?q" if "subs ?q x = Some s" for x s
      using that d(7) [of x s] unfolding f by (auto split: if_splits)
    show "(x \<in> set f) = (\<exists>s. subs ?q x = Some s \<and> pending s = 0)" for x
      using d(9) [of x] fresh pend unfolding f by auto
    show "in_flight ?q = card (dom (subs ?q))" using d(10,11) fresh unfolding f by (auto simp: card_insert_if domIff)
    show "Suc (free_atoms ?q) = count_list (owner ?q) None" using none d(4) need(3) unfolding f by simp
    show "last_atom ?q \<noteq> 0 \<Longrightarrow> owner ?q ! last_atom ?q \<noteq> None"
      using last real keep(1) d(13) unfolding f by (metis)
    show "last_atom ?q \<noteq> 0 \<Longrightarrow> \<not> is_fence ?q ! last_atom ?q"
      using last real keep(2) d(13,14) unfolding f by (metis)
    show "owner ?q ! 0 = None" using keep(1) [of 0] real [of 0] d(2) unfolding f by auto
    show "last_atom ?q < 256" using last real d(12) unfolding f by auto
    show "k < 256 \<Longrightarrow> owner ?q ! k = None \<Longrightarrow> \<not> is_fence ?q ! k" for k
      using real keep d(15) [of k] unfolding f by metis
    show "length (owner ?q) = 256" "length (is_fence ?q) = 256" using T unfolding f by (simp_all add: q1)
    show "distinct f" by (rule d(8))
    show "finite (dom (subs ?q))" using d(10) unfolding f by simp
  qed
qed

lemma submit_account_seq_inv:
  assumes "seq_inv q ws" and "atoms_inv q f" and "seq \<in> set ws"
    and "q1 = q\<lparr>owner := ow, is_fence := fe\<rparr>"
  shows "seq_inv (submit_account split nr need seq cb real q1) (remove1 seq ws)"
proof -
  let ?p = "next_ref q" and ?q = "submit_account split nr need seq cb real q1"
  note d = seq_invD [OF assms(1)]
  have f: "open_seq ?q = open_seq q @ [seq]" "next_seq ?q = next_seq q" and s: "seq_of ?q = (seq_of q)(?p := seq)"
    using atoms_inv_fresh(1) [OF assms(2), of "Suc ?p"]
    by (auto simp: submit_account_def Let_def assms(4) seq_of_def fun_eq_iff)
  have p: "seq_of q ?p = 0" using atoms_inv_fresh(1) [OF assms(2), of ?p] by (simp add: seq_of_def)
  have seq: "0 < seq" "seq < next_seq q" "seq \<notin> set (open_seq q)" using d(3) d(4) [of seq] assms(3) by auto
  have new: "seq_of q x \<noteq> seq" for x using seq(1,3) d(7) by auto
  show ?thesis
  proof (rule seq_invI)
    show "inj_on (seq_of ?q) {x. seq_of ?q x \<noteq> 0}"
      using d(6) new unfolding s inj_on_def by (auto split: if_splits)
    have "range (seq_of ?q) = insert seq (seq_of q ` (- {?p}))" unfolding s by auto
    moreover have "range (seq_of q) - {0} = seq_of q ` (- {?p}) - {0}" using p by auto
    ultimately show "set (open_seq ?q) = range (seq_of ?q) - {0}"
      using seq(1) d(7) unfolding f by auto
    show "0 < n \<and> n < next_seq ?q" if "n \<in> set (remove1 seq ws) \<or> n \<in> set (open_seq ?q)" for n
      using that d(4) [of n] seq set_remove1_subset [of seq ws] unfolding f by auto
  qed (use d(1,2,3,5) seq f in \<open>auto simp: set_remove1_eq\<close>)
qed

lemma seq_inv_subset:
  assumes "seq_inv q ws" and "set ws' \<subseteq> set ws" and "distinct ws'"
  shows "seq_inv q ws'"
  using assms seq_invD [OF assms(1)] by (intro seq_invI) blast+

text \<open>What a call has computed before it waits, and the outcome of the rest of it.\<close>

definition call_ok :: "submit_call \<Rightarrow> nat \<Rightarrow> bool" where
  "call_ok c nr_atoms \<longleftrightarrow> c_need c = nr_atoms + (if c_fence c then 1 else 0)"

lemma submit_enter_SomeD:
  assumes "submit_enter env nr fence_fd q = (Some c, q')"
  shows "call_ok c nr \<and> c_seq c = next_seq q \<and> q' = q\<lparr>thread_started := True, next_seq := next_seq q + 1\<rparr> \<and> nr \<le> 253"
  using assms by (auto simp: submit_enter_def Let_def call_ok_def PAN_KMOD_KBASE_MAX_ATOMS_def split: if_splits)

lemma submit_commit_take:
  assumes "atoms_inv q f" and "call_ok c (length atoms)" and "submit_ready c q" and "c_need c \<noteq> 0"
  shows "\<exists>real q1. take_atoms (sub_for (c_fence c \<and> length atoms \<noteq> 0) (length atoms) (next_ref q))
      (\<lambda>i. c_fence c \<and> i = length atoms) (c_need c) 0 1 q = Some (real, q1) \<and> length real = c_need c \<and>
    taken (sub_for (c_fence c \<and> length atoms \<noteq> 0) (length atoms) (next_ref q))
      (\<lambda>i. c_fence c \<and> i = length atoms) 0 1 real q q1"
proof -
  have "c_need c \<le> length (filter (\<lambda>k. owner q ! k = None) [1..<256])"
    using assms(3,4) free_atoms_exact [OF assms(1)] by (simp add: submit_ready_def)
  from take_atoms_progress [OF this atoms_invD(1) [OF assms(1)]] obtain real q1 where
    "take_atoms (sub_for (c_fence c \<and> length atoms \<noteq> 0) (length atoms) (next_ref q))
      (\<lambda>i. c_fence c \<and> i = length atoms) (c_need c) 0 1 q = Some (real, q1)" by fast
  from this take_atoms_spec [OF this atoms_invD(1,3) [OF assms(1)]] show ?thesis by blast
qed

lemma submit_commit_refused:
  assumes "atoms_inv q f" and "call_ok c (length atoms)" and "submit_ready c q"
    and "submit_commit env atoms cb c q = Submit_refused q'"
  shows "q' = q"
proof (cases "c_need c = 0")
  case False
  from submit_commit_take [OF assms(1-3) this] obtain real q1 where
    t: "take_atoms (sub_for (c_fence c \<and> length atoms \<noteq> 0) (length atoms) (next_ref q))
      (\<lambda>i. c_fence c \<and> i = length atoms) (c_need c) 0 1 q = Some (real, q1)" and
    tk: "taken (sub_for (c_fence c \<and> length atoms \<noteq> 0) (length atoms) (next_ref q))
      (\<lambda>i. c_fence c \<and> i = length atoms) 0 1 real q q1" by blast
  show ?thesis using assms(4) False t release_taken [OF tk assms(1)]
    by (auto simp: submit_commit_def Let_def split: if_splits prod.splits bool.splits)
qed (use assms(4) in \<open>simp add: submit_commit_def Let_def\<close>)

lemma submit_commit_ok:
  assumes "atoms_inv q f" and "seq_inv q ws" and "call_ok c (length atoms)" and "submit_ready c q"
    and "c_seq c \<in> set ws" and "submit_commit env atoms cb c q = Submit_ok seq fd jd q'"
  shows "atoms_inv q' f \<and> seq_inv q' (remove1 (c_seq c) ws) \<and> seq = c_seq c"
proof (cases "c_need c = 0")
  case True
  let ?q = "case cb of None \<Rightarrow> q | Some x \<Rightarrow> q\<lparr>cb_log := cb_log q @ [(x, True)]\<rparr>"
  have "seq = c_seq c" "q' = ?q" using assms(6) True by (simp_all add: submit_commit_def Let_def)
  moreover have "atoms_inv ?q f" using assms(1) by (simp add: atoms_inv_def split: option.splits)
  moreover have "seq_inv ?q ws = seq_inv q ws" by (rule seq_inv_cong) (auto simp: seq_of_def fun_eq_iff split: option.splits)
  ultimately show ?thesis
    using assms(2) seq_inv_subset [of ?q ws "remove1 (c_seq c) ws"] seq_invD(1) [OF assms(2)] set_remove1_subset by (metis distinct_remove1)
next
  case False
  from submit_commit_take [OF assms(1,3,4) this] obtain real q1 where
    t: "take_atoms (sub_for (c_fence c \<and> length atoms \<noteq> 0) (length atoms) (next_ref q))
      (\<lambda>i. c_fence c \<and> i = length atoms) (c_need c) 0 1 q = Some (real, q1)" and len: "length real = c_need c" and
    tk: "taken (sub_for (c_fence c \<and> length atoms \<noteq> 0) (length atoms) (next_ref q))
      (\<lambda>i. c_fence c \<and> i = length atoms) 0 1 real q q1" by blast
  have "q' = submit_account (c_fence c \<and> length atoms \<noteq> 0) (length atoms) (c_need c) (c_seq c) cb real q1" "seq = c_seq c"
    using assms(6) False t by (auto simp: submit_commit_def Let_def split: if_splits prod.splits bool.splits)
  moreover obtain ow fe where "q1 = q\<lparr>owner := ow, is_fence := fe\<rparr>" using tk unfolding taken_def by blast
  moreover have "c_need c \<le> free_atoms q" using assms(4) False by (simp add: submit_ready_def)
  ultimately show ?thesis
    using submit_account_inv [OF assms(1) tk len _ _ _ refl] submit_account_seq_inv [OF assms(2,1,5)]
      assms(3) False by (simp add: call_ok_def)
qed

section \<open>All interleavings\<close>

text \<open>
  The device as several threads see it: the queue, the submissions the event thread has
  collected and not finished yet, and the submitting calls that sleep for want of atom numbers.
  An event read delivers at most the 16 events the thread's buffer holds.
\<close>

record kbase_machine =
  m_q :: kbase_queue
  m_batch :: "sub_ref list"
  m_calls :: "(submit_call \<times> pan_kmod_kbase_atom list \<times> nat option) list"

definition result_queue :: "submit_result \<Rightarrow> kbase_queue option" where
  "result_queue r = (case r of Submit_refused q \<Rightarrow> Some q | Submit_ok seq fd jd q \<Rightarrow> Some q | Submit_stuck \<Rightarrow> None)"

inductive kbase_step :: "kbase_machine \<Rightarrow> kbase_machine \<Rightarrow> bool" where
  step_refuse: "submit_enter env nr_atoms fence_fd (m_q m) = (None, q') \<Longrightarrow> kbase_step m (m\<lparr>m_q := q'\<rparr>)"
| step_submit: "submit_enter env (length atoms) fence_fd (m_q m) = (Some c, q1) \<Longrightarrow> submit_ready c q1 \<Longrightarrow>
    result_queue (submit_commit env atoms cb c q1) = Some q' \<Longrightarrow> kbase_step m (m\<lparr>m_q := q'\<rparr>)"
| step_sleep: "submit_enter env (length atoms) fence_fd (m_q m) = (Some c, q1) \<Longrightarrow> \<not> submit_ready c q1 \<Longrightarrow>
    kbase_step m (m\<lparr>m_q := q1, m_calls := (c, atoms, cb) # m_calls m\<rparr>)"
| step_wake: "(c, atoms, cb) \<in> set (m_calls m) \<Longrightarrow> submit_ready c (m_q m) \<Longrightarrow>
    result_queue (submit_commit env atoms cb c (m_q m)) = Some q' \<Longrightarrow>
    kbase_step m (m\<lparr>m_q := q', m_calls := remove1 (c, atoms, cb) (m_calls m)\<rparr>)"
| step_events: "m_batch m = [] \<Longrightarrow> thread_started (m_q m) \<Longrightarrow> \<not> (stop (m_q m) \<and> in_flight (m_q m) = 0) \<Longrightarrow>
    length evs \<le> 16 \<Longrightarrow> kbase_events evs (m_q m) = (q', finished) \<Longrightarrow>
    kbase_step m (m\<lparr>m_q := q', m_batch := finished\<rparr>)"
| step_finish: "m_batch m = p # ps \<Longrightarrow> kbase_step m (m\<lparr>m_q := kbase_finish_sub p (m_q m), m_batch := ps\<rparr>)"
| step_stop: "kbase_step m (m\<lparr>m_q := kbase_queue_finish (m_q m)\<rparr>)"

definition kbase_start :: kbase_machine where
  "kbase_start = \<lparr>m_q = kbase_queue_init, m_batch = [], m_calls = []\<rparr>"

definition machine_inv :: "kbase_machine \<Rightarrow> bool" where
  "machine_inv m \<longleftrightarrow> atoms_inv (m_q m) (m_batch m) \<and> seq_inv (m_q m) (map (c_seq \<circ> fst) (m_calls m)) \<and>
     list_all (\<lambda>(c, atoms, cb). call_ok c (length atoms)) (m_calls m) \<and> length (m_batch m) \<le> 16"

lemma map_remove1_inj:
  "distinct (map f xs) \<Longrightarrow> x \<in> set xs \<Longrightarrow> map f (remove1 x xs) = remove1 (f x) (map f xs)"
  by (induction xs) (auto simp: image_iff)

lemma submit_enter_inv:
  assumes "submit_enter env nr fence_fd q = (Some c, q1)" and "atoms_inv q f" and "seq_inv q ws"
  shows "atoms_inv q1 f" "seq_inv q1 (c_seq c # ws)"
proof -
  have q1: "q1 = q\<lparr>thread_started := True, next_seq := next_seq q + 1\<rparr>" and c: "c_seq c = next_seq q"
    using submit_enter_SomeD [OF assms(1)] by auto
  show "atoms_inv q1 f" using assms(2) by (simp add: atoms_inv_def q1)
  note d = seq_invD [OF assms(3)]
  show "seq_inv q1 (c_seq c # ws)"
  proof (rule seq_invI)
    have "next_seq q \<notin> set ws \<union> set (open_seq q)" using d(4) [of "next_seq q"] by blast
    then show "distinct (c_seq c # ws)" "set (c_seq c # ws) \<inter> set (open_seq q1) = {}"
      using d(1,3) by (auto simp: q1 c)
    show "0 < s \<and> s < next_seq q1" if "s \<in> set (c_seq c # ws) \<or> s \<in> set (open_seq q1)" for s
      using that d(5) d(4) [of s] by (auto simp: q1 c)
    have "seq_of q1 = seq_of q" by (simp add: q1 seq_of_def fun_eq_iff)
    then show "inj_on (seq_of q1) {p. seq_of q1 p \<noteq> 0}" "set (open_seq q1) = range (seq_of q1) - {0}"
      using d(6,7) by (simp_all add: q1)
  qed (use d(2) in \<open>simp_all add: q1\<close>)
qed

lemma submit_commit_inv:
  assumes "result_queue (submit_commit env atoms cb c q) = Some q'" and "submit_ready c q"
    and "call_ok c (length atoms)" and "atoms_inv q f" and "seq_inv q ws" and "c_seq c \<in> set ws"
  shows "atoms_inv q' f \<and> seq_inv q' (remove1 (c_seq c) ws)"
proof (cases "submit_commit env atoms cb c q")
  case (Submit_refused r)
  then have "q' = q" using submit_commit_refused [OF assms(4,3,2)] assms(1) by (simp add: result_queue_def)
  then show ?thesis
    using assms(4,5) seq_inv_subset [OF assms(5)] seq_invD(1) [OF assms(5)] by (simp add: set_remove1_subset)
next
  case (Submit_ok seq fd jd r)
  then have "q' = r" using assms(1) by (simp add: result_queue_def)
  then show ?thesis using submit_commit_ok [OF assms(4,5,3,2,6) Submit_ok] by blast
qed (use assms(1) in \<open>simp add: result_queue_def\<close>)

lemma kbase_events_length:
  assumes "kbase_events evs q = (q', f)"
  shows "length f \<le> length evs \<and> open_seq q' = open_seq q"
proof -
  have "length (snd (kbase_event ev (q, g))) \<le> Suc (length g) \<and> open_seq (fst (kbase_event ev (q, g))) = open_seq q" for ev q g
    by (auto simp: kbase_event_def Let_def retire_atom_def split: option.splits)
  then have "length (snd (fold kbase_event evs (q, g))) \<le> length evs + length g \<and>
      open_seq (fst (fold kbase_event evs (q, g))) = open_seq q" for g
  proof (induction evs arbitrary: q g)
    case (Cons ev evs)
    obtain q1 g1 where e: "kbase_event ev (q, g) = (q1, g1)" by fastforce
    show ?case using Cons.IH [OF Cons.prems, of q1 g1] Cons.prems [of ev q g] by (simp add: e) 
  qed simp
  from this [of "[]"] show ?thesis using assms by (simp add: kbase_events_def)
qed

lemma kbase_step_inv: "kbase_step m m' \<Longrightarrow> machine_inv m \<Longrightarrow> machine_inv m'"
proof (induction rule: kbase_step.induct)
  case (step_refuse env nr_atoms fence_fd m q')
  then have "q' = m_q m" by (auto simp: submit_enter_def Let_def split: if_splits)
  then show ?case using step_refuse by simp
next
  case (step_submit env atoms fence_fd m c q1 cb q')
  note e = submit_enter_inv [OF step_submit(1)] submit_enter_SomeD [OF step_submit(1)]
  show ?case using submit_commit_inv [OF step_submit(3,2)] e step_submit(4) by (fastforce simp: machine_inv_def)
next
  case (step_sleep env atoms fence_fd m c q1 cb)
  then have "atoms_inv (m_q m) (m_batch m)" "seq_inv (m_q m) (map (c_seq \<circ> fst) (m_calls m))" by (simp_all add: machine_inv_def)
  from submit_enter_inv [OF step_sleep(1) this] submit_enter_SomeD [OF step_sleep(1)] step_sleep(3)
  show ?case unfolding machine_inv_def by simp
next
  case (step_wake c atoms cb m env q')
  let ?s = "map (c_seq \<circ> fst) (m_calls m)"
  have inv: "atoms_inv (m_q m) (m_batch m)" "seq_inv (m_q m) ?s" "call_ok c (length atoms)"
    using step_wake(1,4) by (auto simp: machine_inv_def list_all_iff)
  have "c_seq c \<in> set ?s" using step_wake(1) by force
  moreover have "map (c_seq \<circ> fst) (remove1 (c, atoms, cb) (m_calls m)) = remove1 (c_seq c) ?s"
    using map_remove1_inj [OF seq_invD(1) [OF inv(2)] step_wake(1)] by simp
  moreover have "list_all (\<lambda>(c, atoms, cb). call_ok c (length atoms)) (remove1 (c, atoms, cb) (m_calls m))"
    using step_wake(4) by (auto simp: machine_inv_def list_all_iff dest: notin_set_remove1 set_remove1_subset [THEN subsetD])
  ultimately show ?case
    using submit_commit_inv [OF step_wake(3,2) inv(3,1,2)] step_wake(4) by (simp add: machine_inv_def)
next
  case (step_events m evs q' finished)
  then show ?case using kbase_events_inv [of _ "map (c_seq \<circ> fst) (m_calls m)", OF _ _ step_events(5)] kbase_events_length [OF step_events(5)]
    by (simp add: machine_inv_def)
next
  case (step_finish m p ps)
  then show ?case using kbase_finish_sub_inv [of "m_q m" p ps "map (c_seq \<circ> fst) (m_calls m)"] by (simp add: machine_inv_def)
next
  case (step_stop m)
  have "seq_inv (kbase_queue_finish (m_q m)) ws = seq_inv (m_q m) ws" for ws
    by (rule seq_inv_cong) (simp_all add: kbase_queue_finish_def seq_of_def fun_eq_iff)
  then show ?case using step_stop by (simp add: machine_inv_def atoms_inv_def kbase_queue_finish_def)
qed

lemma kbase_start_inv: "machine_inv kbase_start"
proof -
  have "count_list (replicate n x) y = (if x = y then n else 0)" for n and x y :: "nat option"
    by (induction n) auto
  then show ?thesis
    by (auto simp: machine_inv_def kbase_start_def kbase_queue_init_def atoms_inv_def seq_inv_def seq_of_def)
qed

interpretation kbase_threads: invariant_machine kbase_start kbase_step machine_inv
  by unfold_locales (auto intro: kbase_start_inv kbase_step_inv)

section \<open>Order of execution\<close>

text \<open>
  A submission as the drivers build it: the atoms are numbered from 1 and each waits for the one
  before it.
\<close>

definition chained :: "pan_kmod_kbase_atom list \<Rightarrow> bool" where
  "chained atoms \<longleftrightarrow> (\<forall>i < length atoms. unat (a_atom_number (atoms ! i)) = Suc i \<and> unat (a_dep_atom (atoms ! i)) = i)"

lemma rel_to_real_from:
  assumes "\<forall>i < length atoms. unat (a_atom_number (atoms ! i)) = Suc (s + i)" and "length atoms \<le> length real"
    and "s + length atoms < length m" and "k \<le> s + length atoms"
  shows "fold (\<lambda>(a, r) m. m[unat (a_atom_number a) := r]) (zip atoms real) m ! k = (if s < k then real ! (k - Suc s) else m ! k)"
  using assms
proof (induction atoms arbitrary: s real m)
  case (Cons a atoms)
  obtain r rs where real: "real = r # rs" using Cons.prems(2) by (cases real) auto
  have n: "unat (a_atom_number a) = Suc s" using Cons.prems(1) by auto
  have "\<forall>i < length atoms. unat (a_atom_number (atoms ! i)) = Suc (Suc s + i)"
    using Cons.prems(1) by (metis Suc_less_eq add_Suc_shift length_Cons nth_Cons_Suc)
  then have IH: "fold (\<lambda>(a, r) m. m[unat (a_atom_number a) := r]) (zip atoms rs) (m[Suc s := r]) ! k =
      (if Suc s < k then rs ! (k - Suc (Suc s)) else m[Suc s := r] ! k)"
    using Cons.IH [of "Suc s" rs "m[Suc s := r]"] Cons.prems real by simp
  have "k - Suc s = Suc (k - Suc (Suc s))" if "Suc s < k" using that by simp
  then show ?case using IH n Cons.prems(3) by (auto simp: real nth_list_update)
qed auto

lemma rel_to_real_chained:
  assumes "chained atoms" and "length atoms \<le> 253" and "length atoms \<le> length real" and "0 < k" "k \<le> length atoms"
  shows "rel_to_real atoms real ! k = real ! (k - 1)"
  using rel_to_real_from [of atoms 0 real "replicate 256 0" k] assms by (simp add: rel_to_real_def chained_def)

lemma submit_commit_jd:
  assumes "submit_commit env atoms cb c q = Submit_ok seq fd jd q'" and "atoms_inv q f" and "call_ok c (length atoms)"
    and "submit_ready c q" and "c_need c \<noteq> 0"
  shows "\<exists>real. length real = c_need c \<and> sorted_wrt (<) real \<and> (\<forall>k \<in> set real. 1 \<le> k \<and> k < 256 \<and> owner q ! k = None) \<and>
    jd = map2 (jd_of (rel_to_real atoms real) (last_atom q) (c_seq c)) atoms real @
         (if c_fence c then [fence_jd (e_fence_addr env) real (length atoms) (last_atom q) (c_seq c)] else []) \<and>
    last_atom q' = (if atoms \<noteq> [] then real ! (length atoms - 1) else last_atom q)"
proof -
  from submit_commit_take [OF assms(2-5)] obtain real q1 where
    t: "take_atoms (sub_for (c_fence c \<and> length atoms \<noteq> 0) (length atoms) (next_ref q))
      (\<lambda>i. c_fence c \<and> i = length atoms) (c_need c) 0 1 q = Some (real, q1)" and len: "length real = c_need c" and
    tk: "taken (sub_for (c_fence c \<and> length atoms \<noteq> 0) (length atoms) (next_ref q))
      (\<lambda>i. c_fence c \<and> i = length atoms) 0 1 real q q1" by blast
  obtain ow fe where "q1 = q\<lparr>owner := ow, is_fence := fe\<rparr>" using tk unfolding taken_def by blast
  then have "last_atom q1 = last_atom q" by simp
  then show ?thesis using assms(1,5) t len tk
    by (intro exI [of _ real])
      (auto simp: submit_commit_def Let_def taken_def submit_account_def split: if_splits prod.splits bool.splits)
qed


lemma submit_commit_succeeds:
  assumes "atoms_inv q f" and "call_ok c (length atoms)" and "submit_ready c q" and "c_need c \<noteq> 0"
    and "e_calloc_ok env" and "\<And>jd. fst (e_ioctl env jd)" and "list_all (\<lambda>a. a_atom_number a \<noteq> 0) atoms"
  shows "\<exists>fd jd q'. submit_commit env atoms cb c q =
      (if OPEN_SEQ_SIZE \<le> length (open_seq q) then Submit_stuck else Submit_ok (c_seq c) fd jd q') \<and>
    free_atoms q' = free_atoms q - c_need c \<and> open_seq q' = open_seq q @ [c_seq c] \<and>
    thread_started q' = thread_started q \<and> stop q' = stop q \<and> in_flight q' \<noteq> 0"
proof -
  from submit_commit_take [OF assms(1-4)] obtain real q1 where
    t: "take_atoms (sub_for (c_fence c \<and> length atoms \<noteq> 0) (length atoms) (next_ref q))
      (\<lambda>i. c_fence c \<and> i = length atoms) (c_need c) 0 1 q = Some (real, q1)" and
    tk: "taken (sub_for (c_fence c \<and> length atoms \<noteq> 0) (length atoms) (next_ref q))
      (\<lambda>i. c_fence c \<and> i = length atoms) 0 1 real q q1" by blast
  obtain ow fe where q1: "q1 = q\<lparr>owner := ow, is_fence := fe\<rparr>" using tk unfolding taken_def by blast
  let ?jd = "map2 (jd_of (rel_to_real atoms real) (last_atom q1) (c_seq c)) atoms real @
    (if c_fence c then [fence_jd (e_fence_addr env) real (length atoms) (last_atom q1) (c_seq c)] else [])"
  let ?q' = "submit_account (c_fence c \<and> length atoms \<noteq> 0) (length atoms) (c_need c) (c_seq c) cb real q1"
  obtain fd where io: "e_ioctl env ?jd = (True, fd)" using assms(6) [of ?jd] by (metis prod.collapse)
  have op: "open_seq q1 = open_seq q" by (simp add: q1)
  have "\<not> list_ex (\<lambda>a. a_atom_number a = 0) atoms" using assms(7) by (auto simp: list_all_iff list_ex_iff)
  then have "submit_commit env atoms cb c q = (if OPEN_SEQ_SIZE \<le> length (open_seq q) then Submit_stuck
      else Submit_ok (c_seq c) (if c_fence c then fd else -1) ?jd ?q')"
    using assms(4,5) op unfolding submit_commit_def Let_def t option.case prod.case io by simp
  moreover have "free_atoms ?q' = free_atoms q - c_need c \<and> open_seq ?q' = open_seq q @ [c_seq c] \<and>
      thread_started ?q' = thread_started q \<and> stop ?q' = stop q \<and> in_flight ?q' \<noteq> 0"
    by (simp add: submit_account_def Let_def q1)
  ultimately show ?thesis by blast
qed

text \<open>An environment in which nothing fails, and two chained atoms.\<close>

definition env_example :: submit_env where
  "env_example = \<lparr>e_thread_ok = True, e_calloc_ok = True, e_fence_addr = 0, e_ioctl = \<lambda>jd. (True, 7)\<rparr>"

definition atom_example :: "u8 \<Rightarrow> u8 \<Rightarrow> pan_kmod_kbase_atom" where
  "atom_example n dep = \<lparr>a_jc = 0x1000, a_core_req = 0x4e, a_atom_number = n, a_dep_atom = dep\<rparr>"


section \<open>How many submissions can be open\<close>

lemma open_seq_card:
  assumes "atoms_inv q f" and "seq_inv q ws"
  shows "length (open_seq q) + free_atoms q \<le> 255 + length f"
proof -
  note d = atoms_invD [OF assms(1)] and e = seq_invD [OF assms(2)]
  let ?used = "filter (\<lambda>k. owner q ! k \<noteq> None) [1..<256]"
  have "length (filter (\<lambda>k. owner q ! k = None) [1..<256]) + length ?used = length [1..<256]"
    by (rule sum_length_filter_compl)
  then have used: "length ?used + free_atoms q = 255" using free_atoms_exact [OF assms(1)] by simp
  have "dom (subs q) \<subseteq> set f \<union> (\<lambda>k. the (owner q ! k)) ` set ?used"
  proof
    fix p assume "p \<in> dom (subs q)"
    then obtain sub where s: "subs q p = Some sub" by auto
    show "p \<in> set f \<union> (\<lambda>k. the (owner q ! k)) ` set ?used"
    proof (cases "pending sub = 0")
      case False
      then have "Some p \<in> set (owner q)" using d(6) [OF s] by (metis count_list_0_iff)
      then obtain k where k: "k < 256" "owner q ! k = Some p" using d(1) by (metis in_set_conv_nth)
      then have "k \<noteq> 0" using d(2) by (cases k) auto
      then have "k \<in> set ?used" "p = the (owner q ! k)" using k by auto
      then show ?thesis by blast
    qed (use d(9) [of p] s in auto)
  qed
  then have "card (dom (subs q)) \<le> card (set f \<union> (\<lambda>k. the (owner q ! k)) ` set ?used)" by (rule card_mono [rotated]) simp
  also have "\<dots> \<le> length f + length ?used"
    by (meson List.finite_set add_mono card_Un_le card_image_le card_length le_trans)
  finally have a: "card (dom (subs q)) \<le> length f + length ?used" .
  have "set (open_seq q) \<subseteq> seq_of q ` dom (subs q)"
    unfolding e(7) by (auto simp: seq_of_def split: option.splits)
  then have "length (open_seq q) \<le> card (dom (subs q))"
    using d(10) e(2) by (metis card_mono card_image_le distinct_card finite_imageI le_trans)
  then show ?thesis using a used by linarith
qed

lemma one_more_submission:
  assumes r: "reach kbase_start kbase_step m" and "1 \<le> free_atoms (m_q m)"
  shows "\<exists>c q1 fd jd q'. submit_enter env_example 1 False (m_q m) = (Some c, q1) \<and> submit_ready c q1 \<and>
    submit_commit env_example [atom_example 1 0] None c q1 =
      (if OPEN_SEQ_SIZE \<le> length (open_seq (m_q m)) then Submit_stuck else Submit_ok (c_seq c) fd jd q') \<and>
    free_atoms q' = free_atoms (m_q m) - 1 \<and> open_seq q' = open_seq (m_q m) @ [next_seq (m_q m)] \<and>
    thread_started q' \<and> stop q' = stop (m_q m) \<and> in_flight q' \<noteq> 0"
proof -
  let ?q1 = "(m_q m)\<lparr>thread_started := True, next_seq := next_seq (m_q m) + 1\<rparr>"
  let ?c = "\<lparr>c_seq = next_seq (m_q m), c_fence = False, c_need = 1\<rparr>"
  have e: "submit_enter env_example 1 False (m_q m) = (Some ?c, ?q1)"
    by (simp add: submit_enter_def Let_def PAN_KMOD_KBASE_MAX_ATOMS_def env_example_def)
  have "machine_inv m" using r by (rule kbase_threads.reach_inv)
  then have inv: "atoms_inv ?q1 (m_batch m)" using submit_enter_inv(1) [OF e] unfolding machine_inv_def by blast
  have ok: "call_ok ?c (length [atom_example 1 0])" "submit_ready ?c ?q1" "c_need ?c \<noteq> 0" "e_calloc_ok env_example"
    "fst (e_ioctl env_example jd)" "list_all (\<lambda>a. a_atom_number a \<noteq> 0) [atom_example 1 0]" for jd
    using assms(2) by (simp_all add: call_ok_def submit_ready_def env_example_def atom_example_def)
  from submit_commit_succeeds [OF inv ok, of None] obtain fd jd q' where
    "submit_commit env_example [atom_example 1 0] None ?c ?q1 =
      (if OPEN_SEQ_SIZE \<le> length (open_seq ?q1) then Submit_stuck else Submit_ok (c_seq ?c) fd jd q')"
    "free_atoms q' = free_atoms ?q1 - 1" "open_seq q' = open_seq ?q1 @ [c_seq ?c]"
    "thread_started q' = thread_started ?q1" "stop q' = stop ?q1" "in_flight q' \<noteq> 0" by auto
  then show ?thesis using e ok(2) by (intro exI [of _ ?c] exI [of _ ?q1] exI [of _ fd] exI [of _ jd] exI [of _ q']) simp
qed

lemma one_more_reach:
  assumes "reach kbase_start kbase_step m" and "1 \<le> free_atoms (m_q m)" and "length (open_seq (m_q m)) < 256"
  shows "\<exists>m'. reach kbase_start kbase_step m' \<and> m_batch m' = m_batch m \<and> free_atoms (m_q m') = free_atoms (m_q m) - 1 \<and>
    open_seq (m_q m') = open_seq (m_q m) @ [next_seq (m_q m)] \<and> thread_started (m_q m') \<and>
    stop (m_q m') = stop (m_q m) \<and> in_flight (m_q m') \<noteq> 0"
proof -
  from one_more_submission [OF assms(1,2)] obtain c q1 fd jd q' where
    e: "submit_enter env_example 1 False (m_q m) = (Some c, q1)" "submit_ready c q1"
    and k: "submit_commit env_example [atom_example 1 0] None c q1 = Submit_ok (c_seq c) fd jd q'"
    and q': "free_atoms q' = free_atoms (m_q m) - 1" "open_seq q' = open_seq (m_q m) @ [next_seq (m_q m)]"
      "thread_started q'" "stop q' = stop (m_q m)" "in_flight q' \<noteq> 0"
    using assms(3) by (auto simp: OPEN_SEQ_SIZE_def)
  have "result_queue (submit_commit env_example [atom_example 1 0] None c q1) = Some q'" by (simp add: k result_queue_def)
  then have "kbase_step m (m\<lparr>m_q := q'\<rparr>)" using kbase_step.step_submit [of env_example "[atom_example 1 0]" False m c q1 None q'] e by simp
  then have "reach kbase_start kbase_step (m\<lparr>m_q := q'\<rparr>)" by (rule reach_step [OF assms(1)])
  then show ?thesis using q' by (intro exI [of _ "m\<lparr>m_q := q'\<rparr>"]) simp
qed

lemma fill_queue:
  "k \<le> 255 \<Longrightarrow> \<exists>m. reach kbase_start kbase_step m \<and> m_batch m = [] \<and> free_atoms (m_q m) = 255 - k \<and>
     length (open_seq (m_q m)) = k \<and> \<not> stop (m_q m) \<and> (k \<noteq> 0 \<longrightarrow> thread_started (m_q m))"
proof (induction k)
  case 0
  show ?case by (intro exI [of _ kbase_start]) (simp add: reach_init kbase_start_def kbase_queue_init_def)
next
  case (Suc k)
  then obtain m where m: "reach kbase_start kbase_step m" "m_batch m = []" "free_atoms (m_q m) = 255 - k"
    "length (open_seq (m_q m)) = k" "\<not> stop (m_q m)" by auto
  have "1 \<le> free_atoms (m_q m)" "length (open_seq (m_q m)) < 256" using m Suc.prems by simp_all
  from one_more_reach [OF m(1) this] show ?case using m by auto
qed

lemma kbase_event_owned:
  assumes "owner q ! unat an \<noteq> None" and "ev = \<lparr>event_code = code, event_atom = an, event_tag = KBASE_ATOM_TAG\<rparr>"
  shows "\<exists>q' f'. kbase_event ev (q, f) = (q', f') \<and> owner q' = (owner q)[unat an := None] \<and>
    free_atoms q' = free_atoms q + 1 \<and> last_atom q' = (if last_atom q = unat an then 0 else last_atom q)"
  using assms by (auto simp: kbase_event_def Let_def retire_atom_def)

lemma full_queue_owned:
  assumes "atoms_inv q f" and "free_atoms q = 0" and "1 \<le> k" and "k < 256"
  shows "owner q ! k \<noteq> None"
proof -
  have "filter (\<lambda>k. owner q ! k = None) [1..<256] = []" using free_atoms_exact [OF assms(1)] assms(2) by simp
  then show ?thesis using assms(3,4) by (auto simp: filter_empty_conv)
qed

text \<open>
  In every state the threads can reach, at most 255 submissions have atoms in
  flight and at most 16 more are being finished, so at most 271 sequence numbers are open; and
  when the event thread is not in the middle of finishing submissions, a call with valid atoms
  that has enough atom numbers is never stuck: no assertion fails and the array of open
  sequence numbers is not overrun.
\<close>

theorem kbase_open_seq_bound:
  assumes "reach kbase_start kbase_step m"
  shows "length (open_seq (m_q m)) + free_atoms (m_q m) \<le> 255 + length (m_batch m) \<and> length (m_batch m) \<le> 16 \<and>
    (m_batch m = [] \<longrightarrow> call_ok c (length atoms) \<longrightarrow> submit_ready c (m_q m) \<longrightarrow>
       list_all (\<lambda>a. a_atom_number a \<noteq> 0) atoms \<longrightarrow> submit_commit env atoms cb c (m_q m) \<noteq> Submit_stuck)"
proof -
  have inv: "atoms_inv (m_q m) (m_batch m)" and sinv: "seq_inv (m_q m) (map (c_seq \<circ> fst) (m_calls m))"
    and l: "length (m_batch m) \<le> 16"
    using kbase_threads.reach_inv [OF assms] by (auto simp: machine_inv_def)
  note bound = open_seq_card [OF inv sinv]
  have "submit_commit env atoms cb c (m_q m) \<noteq> Submit_stuck"
    if "m_batch m = []" and c: "call_ok c (length atoms)" "submit_ready c (m_q m)"
      and a: "list_all (\<lambda>a. a_atom_number a \<noteq> 0) atoms"
  proof (cases "c_need c = 0")
    case False
    from submit_commit_take [OF inv c False] obtain real q1 where
      t: "take_atoms (sub_for (c_fence c \<and> length atoms \<noteq> 0) (length atoms) (next_ref (m_q m)))
        (\<lambda>i. c_fence c \<and> i = length atoms) (c_need c) 0 1 (m_q m) = Some (real, q1)" and
      tk: "taken (sub_for (c_fence c \<and> length atoms \<noteq> 0) (length atoms) (next_ref (m_q m)))
        (\<lambda>i. c_fence c \<and> i = length atoms) 0 1 real (m_q m) q1" by blast
    obtain ow fe where q1: "q1 = (m_q m)\<lparr>owner := ow, is_fence := fe\<rparr>" using tk unfolding taken_def by blast
    have "\<not> list_ex (\<lambda>a. a_atom_number a = 0) atoms" using a by (auto simp: list_all_iff list_ex_iff)
    moreover have "\<not> OPEN_SEQ_SIZE \<le> length (open_seq q1)" using bound that(1) by (simp add: OPEN_SEQ_SIZE_def q1)
    ultimately show ?thesis using False t
      by (auto simp: submit_commit_def Let_def split: prod.splits bool.splits)
  qed (simp add: submit_commit_def Let_def)
  then show ?thesis using bound l by blast
qed

theorem kbase_open_seq_bound_witness:
  "length (open_seq (m_q kbase_start)) + free_atoms (m_q kbase_start) \<le> 255 \<and>
   submit_commit env_example [atom_example 1 0] None \<lparr>c_seq = 1, c_fence = False, c_need = 1\<rparr> (m_q kbase_start) \<noteq> Submit_stuck"
proof -
  have "call_ok \<lparr>c_seq = 1, c_fence = False, c_need = 1\<rparr> (length [atom_example 1 0])"
    "submit_ready \<lparr>c_seq = 1, c_fence = False, c_need = 1\<rparr> (m_q kbase_start)" "m_batch kbase_start = []"
    "list_all (\<lambda>a. a_atom_number a \<noteq> 0) [atom_example 1 0]"
    by (simp_all add: call_ok_def submit_ready_def kbase_start_def kbase_queue_init_def atom_example_def)
  then show ?thesis using kbase_open_seq_bound [OF reach_init] by fastforce
qed

text \<open>
  Property C13.  The bound of the array is not enough: the event thread gives atom numbers back
  before it closes the sequence numbers of the submissions it finished, so other threads can
  open more than 256. There is a reachable state in which a call that has its atom numbers
  writes past the end of \<open>open_seq\<close>.
\<close>

theorem kbase_open_seq_overflow:
  "\<exists>m c q1. reach kbase_start kbase_step m \<and> submit_enter env_example 1 False (m_q m) = (Some c, q1) \<and>
     submit_ready c q1 \<and> length (open_seq q1) = OPEN_SEQ_SIZE \<and>
     submit_commit env_example [atom_example 1 0] None c q1 = Submit_stuck"
proof -
  obtain m where m: "reach kbase_start kbase_step m" "m_batch m = []" "free_atoms (m_q m) = 0"
    "length (open_seq (m_q m)) = 255" "\<not> stop (m_q m)" "thread_started (m_q m)"
    using fill_queue [of 255] by auto
  have "atoms_inv (m_q m) (m_batch m)" using kbase_threads.reach_inv [OF m(1)] by (simp add: machine_inv_def)
  then have own: "owner (m_q m) ! 1 \<noteq> None" "owner (m_q m) ! 2 \<noteq> None" using full_queue_owned m(3) by auto
  let ?ev = "\<lambda>n. \<lparr>event_code = KBASE_JD_EVENT_DONE, event_atom = n, event_tag = KBASE_ATOM_TAG\<rparr>"
  have u: "unat (1 :: u8) = 1" "unat (2 :: u8) = 2" by simp_all
  obtain q1 f1 where e1: "kbase_event (?ev 1) (m_q m, []) = (q1, f1)" "owner q1 = (owner (m_q m))[1 := None]" "free_atoms q1 = 1"
    using kbase_event_owned [of "m_q m" 1 "?ev 1" KBASE_JD_EVENT_DONE "[]"] own m(3) u by auto
  have "owner q1 ! 2 \<noteq> None" using e1(2) own(2) by simp
  then obtain q2 f2 where e2: "kbase_event (?ev 2) (q1, f1) = (q2, f2)" "free_atoms q2 = 2"
    using kbase_event_owned [of q1 2 "?ev 2" KBASE_JD_EVENT_DONE f1] e1(3) u by auto
  have ev: "kbase_events [?ev 1, ?ev 2] (m_q m) = (q2, f2)" using e1(1) e2(1) by (simp add: kbase_events_def)
  let ?m2 = "m\<lparr>m_q := q2, m_batch := f2\<rparr>"
  have "kbase_step m ?m2" using kbase_step.step_events [OF m(2,6) _ _ ev] m(5) by simp
  then have r2: "reach kbase_start kbase_step ?m2" by (rule reach_step [OF m(1)])
  have l2: "length (open_seq (m_q ?m2)) = 255" using kbase_events_length [OF ev] m(4) by simp
  obtain m3 where m3: "reach kbase_start kbase_step m3" "free_atoms (m_q m3) = 1" "length (open_seq (m_q m3)) = 256"
    using one_more_reach [OF r2] e2(2) l2 by auto
  from one_more_submission [OF m3(1)] obtain c q where c: "submit_enter env_example 1 False (m_q m3) = (Some c, q)"
    "submit_ready c q" "submit_commit env_example [atom_example 1 0] None c q = Submit_stuck"
    using m3(2,3) by (auto simp: OPEN_SEQ_SIZE_def)
  moreover have "length (open_seq q) = 256" using submit_enter_SomeD [OF c(1)] m3(3) by simp
  ultimately show ?thesis using m3(1) unfolding OPEN_SEQ_SIZE_def by blast
qed

section \<open>Completion\<close>

lemma cond_wait_ready: "cond_wait ws ready q = Some q' \<Longrightarrow> ready q'"
  by (induction ws ready q rule: cond_wait.induct) (auto split: if_splits)

text \<open>
  Property C9.  In every reachable state no atom number points to a freed submission, the free
  numbers are counted exactly, a live submission waits for exactly as many atoms as it has
  numbers in flight, and a submission the event thread is about to finish (whose callback runs
  next) has none left.
\<close>

theorem kbase_queue_consistent:
  assumes "reach kbase_start kbase_step m" and "q = m_q m"
  shows "(\<forall>an < 256. \<forall>p. owner q ! an = Some p \<longrightarrow> subs q p \<noteq> None) \<and>
    free_atoms q = length (filter (\<lambda>k. owner q ! k = None) [1..<256]) \<and>
    (\<forall>p sub. subs q p = Some sub \<longrightarrow> pending sub = length (filter (\<lambda>k. owner q ! k = Some p) [0..<256])) \<and>
    (\<forall>p \<in> set (m_batch m). \<forall>an < 256. subs q p \<noteq> None \<and> owner q ! an \<noteq> Some p)"
proof -
  have inv: "atoms_inv q (m_batch m)" using kbase_threads.reach_inv [OF assms(1)] by (simp add: machine_inv_def assms(2))
  note d = atoms_invD [OF inv]
  have "\<forall>an < 256. \<forall>p. owner q ! an = Some p \<longrightarrow> subs q p \<noteq> None"
    using d(5) d(1) by (metis nth_mem)
  moreover have "pending sub = length (filter (\<lambda>k. owner q ! k = Some p) [0..<256])" if "subs q p = Some sub" for p sub
    using d(6) [OF that] count_list_indices [of "owner q" "Some p"] d(1) by simp
  moreover have "subs q p \<noteq> None \<and> owner q ! an \<noteq> Some p" if p: "p \<in> set (m_batch m)" "an < 256" for p an
  proof -
    obtain sub where s: "subs q p = Some sub" "pending sub = 0" using p(1) d(9) by blast
    then have "Some p \<notin> set (owner q)" using d(6) by (metis count_list_0_iff)
    then show ?thesis using s(1) p(2) d(1) by (metis nth_mem option.distinct(1))
  qed
  ultimately show ?thesis using free_atoms_exact [OF inv] by simp
qed

theorem kbase_queue_consistent_witness:
  "free_atoms (m_q kbase_start) = length (filter (\<lambda>k. owner (m_q kbase_start) ! k = None) [1..<256])"
  using kbase_queue_consistent [OF reach_init refl] by blast

text \<open>The sequence numbers of the live submissions and of the calls that sleep.\<close>

definition seqs_held :: "kbase_machine \<Rightarrow> nat set" where
  "seqs_held m = set (open_seq (m_q m)) \<union> c_seq ` fst ` set (m_calls m)"

lemma take_atoms_seq: "take_atoms ref fence n i nxt q = Some (ks, q') \<Longrightarrow> open_seq q' = open_seq q \<and> next_seq q' = next_seq q"
proof (induction ref fence n i nxt q arbitrary: ks q' rule: take_atoms.induct)
  case (2 ref fence n i nxt q)
  then show ?case by (auto simp: Let_def split: if_splits option.splits)
qed simp

lemma submit_commit_seq:
  assumes "result_queue (submit_commit env atoms cb c q) = Some q'"
  shows "next_seq q' = next_seq q \<and> set (open_seq q') \<subseteq> insert (c_seq c) (set (open_seq q))"
  using assms
  by (auto simp: result_queue_def submit_commit_def Let_def release_atoms_def submit_account_def
      split: if_splits option.splits prod.splits bool.splits dest!: take_atoms_seq)

lemma kbase_events_next_seq: "kbase_events evs q = (q', f) \<Longrightarrow> next_seq q' = next_seq q"
proof -
  have "next_seq (fst (kbase_event ev st)) = next_seq (fst st)" for ev st
    by (auto simp: kbase_event_def Let_def retire_atom_def split: option.splits prod.splits)
  then have "next_seq (fst (fold kbase_event evs st)) = next_seq (fst st)" for st by (induction evs arbitrary: st) simp_all
  from this [of "(q, [])"] show "kbase_events evs q = (q', f) \<Longrightarrow> next_seq q' = next_seq q" by (simp add: kbase_events_def)
qed

lemma open_remove_subset: "set (open_remove s k xs) \<subseteq> set xs"
proof (induction s k xs rule: open_remove.induct)
  case (1 s k xs)
  have "set (butlast (xs[k := last xs])) \<subseteq> set xs" if "k < length xs"
  proof -
    have "last xs \<in> set xs" using that by (intro last_in_set) auto
    then show ?thesis using set_update_subset_insert [of xs k "last xs"] by (auto dest: in_set_butlastD)
  qed
  then show ?case using 1 by (subst open_remove.simps) auto
qed

lemma kbase_finish_seq: "next_seq (kbase_finish_sub p q) = next_seq q \<and> set (open_seq (kbase_finish_sub p q)) \<subseteq> set (open_seq q)"
  using open_remove_subset by (auto simp: kbase_finish_sub_def Let_def split: option.splits)

text \<open>Numbers come from the counter only.\<close>

lemma seqs_held_step:
  "kbase_step m m' \<Longrightarrow> next_seq (m_q m) \<le> next_seq (m_q m') \<and> (\<forall>s \<in> seqs_held m'. s \<in> seqs_held m \<or> next_seq (m_q m) \<le> s)"
proof (induction rule: kbase_step.induct)
  case (step_refuse env nr_atoms fence_fd m q')
  then show ?case by (auto simp: seqs_held_def submit_enter_def Let_def split: if_splits)
next
  case (step_submit env atoms fence_fd m c q1 cb q')
  then show ?case using submit_enter_SomeD [OF step_submit(1)] submit_commit_seq [OF step_submit(3)] by (auto simp: seqs_held_def)
next
  case (step_sleep env atoms fence_fd m c q1 cb)
  then show ?case using submit_enter_SomeD [OF step_sleep(1)] by (auto simp: seqs_held_def)
next
  case (step_wake c atoms cb m env q')
  have "c_seq c \<in> seqs_held m" using step_wake(1) by (force simp: seqs_held_def)
  then show ?case using submit_commit_seq [OF step_wake(3)] set_remove1_subset [of "(c, atoms, cb)" "m_calls m"]
    by (auto simp: seqs_held_def)
next
  case (step_events m evs q' finished)
  then show ?case using kbase_events_length [OF step_events(5)] kbase_events_next_seq [OF step_events(5)] by (auto simp: seqs_held_def)
next
  case (step_finish m p ps)
  then show ?case using kbase_finish_seq [of p "m_q m"] by (auto simp: seqs_held_def)
next
  case (step_stop m)
  then show ?case by (simp add: seqs_held_def kbase_queue_finish_def)
qed

lemma seqs_held_reach:
  "reach m kbase_step m' \<Longrightarrow> next_seq (m_q m) \<le> next_seq (m_q m') \<and> (\<forall>s \<in> seqs_held m'. s \<in> seqs_held m \<or> next_seq (m_q m) \<le> s)"
proof (induction rule: reach.induct)
  case (reach_step s t)
  then show ?case using seqs_held_step [OF reach_step(2)] by (meson order_trans)
qed simp

lemma live_seq_open:
  assumes "reach kbase_start kbase_step m" and "subs (m_q m) p = Some sub" and "sub_seq sub \<noteq> 0"
  shows "sub_seq sub \<in> set (open_seq (m_q m))"
proof -
  have inv: "seq_inv (m_q m) (map (c_seq \<circ> fst) (m_calls m))"
    using kbase_threads.reach_inv [OF assms(1)] by (simp add: machine_inv_def)
  have "seq_of (m_q m) p = sub_seq sub" using assms(2) by (simp add: seq_of_def)
  then show ?thesis using seq_invD(7) [OF inv] assms(3) by (metis Diff_iff rangeI singletonD)
qed

text \<open>
  Property C10.  What a wait for a sequence number guarantees, in any reachable state: when it returns no submission
  with that number or an earlier one, drawn by then, is live, and in every later state the only such submissions are those of calls
  that were asleep in \<open>pan_kmod_kbase_submit_async\<close>, with their number drawn and no atom numbers yet, when the wait
  returned.  Waiting for number 0 stands for the newest number drawn so far.  The exception is real: the
  wait does not see the number of a sleeping call, which can submit after a wait for it has returned.
\<close>

theorem kbase_wait_seq_complete:
  assumes "reach kbase_start kbase_step m" and "pan_kmod_kbase_wait_seq ws seq q = Some (m_q m)"
    and "bnd = (if seq = 0 then next_seq q - 1 else seq)" and "reach m kbase_step m'"
    and "subs (m_q m') p = Some sub" and "sub_seq sub \<noteq> 0" and "sub_seq sub \<le> bnd" and "sub_seq sub < next_seq (m_q m)"
  shows "m' \<noteq> m \<and> sub_seq sub \<in> c_seq ` fst ` set (m_calls m)"
proof -
  have cl: "\<not> seq_open (m_q m) bnd"
    using cond_wait_ready assms(2) unfolding pan_kmod_kbase_wait_seq_def Let_def assms(3) by fastforce
  have "sub_seq sub \<in> set (open_seq (m_q m'))" by (rule live_seq_open [OF reach_trans [OF assms(4,1)] assms(5,6)])
  moreover from this have "sub_seq sub \<in> seqs_held m" using seqs_held_reach [OF assms(4)] assms(8) by (auto simp: seqs_held_def)
  ultimately show ?thesis using cl assms(7) by (auto simp: seqs_held_def seq_open_def list_ex_iff)
qed

text \<open>
  A call that sleeps for want of atom numbers: 253 atoms and a fence while two atoms are in flight.  The
  earlier submission ends, a wait for the sleeper's number returns, and the sleeper submits afterwards.
\<close>

definition many_atoms :: "pan_kmod_kbase_atom list" where
  "many_atoms = map (\<lambda>i. atom_example (of_nat i) 0) [1..<254]"

definition sleeper :: submit_call where
  "sleeper = \<lparr>c_seq = 2, c_fence = True, c_need = 254\<rparr>"

lemma many_atoms_numbered: "length many_atoms = 253" "\<not> list_ex (\<lambda>a. a_atom_number a = 0) many_atoms"
proof -
  show "length many_atoms = 253" by (simp add: many_atoms_def)
  have "(of_nat i :: u8) \<noteq> 0" if "1 \<le> i" "i < 254" for i
  proof -
    have "unat (of_nat i :: u8) = i" using that by (simp add: unat_of_nat take_bit_eq_mod)
    then show ?thesis using that by auto
  qed
  then show "\<not> list_ex (\<lambda>a. a_atom_number a = 0) many_atoms" by (auto simp: many_atoms_def list_ex_iff atom_example_def)
qed

lemma sleeper_reach:
  obtains m where "reach kbase_start kbase_step m" "m_calls m = [(sleeper, many_atoms, None)]" "open_seq (m_q m) = []" "free_atoms (m_q m) = 255"
    "next_seq (m_q m) = 3"
proof -
  let ?as = "[atom_example 1 0, atom_example 2 0]" and ?c = "\<lparr>c_seq = 1, c_fence = False, c_need = 2\<rparr>"
  let ?ev = "\<lambda>n. \<lparr>event_code = KBASE_JD_EVENT_DONE, event_atom = n, event_tag = KBASE_ATOM_TAG\<rparr>"
  let ?q0 = "kbase_queue_init\<lparr>thread_started := True, next_seq := 2\<rparr>"
  let ?sub = "\<lparr>sub_seq = 1, pending = 2, sub_ok = True, sub_cb = None\<rparr>"
  define q1 where "q1 = ?q0\<lparr>owner := (owner ?q0)[1 := Some 0, 2 := Some 0],
      is_fence := (is_fence ?q0)[1 := False, 2 := False], free_atoms := 253, last_atom := 2,
      in_flight := 1, open_seq := [1], subs := [0 \<mapsto> ?sub], next_ref := 2\<rparr>"
  have e: "submit_enter env_example (length ?as) False (m_q kbase_start) = (Some ?c, ?q0)"
    by (simp add: submit_enter_def PAN_KMOD_KBASE_MAX_ATOMS_def env_example_def kbase_start_def kbase_queue_init_def)
  obtain fd jd where k: "submit_commit env_example ?as None ?c ?q0 = Submit_ok 1 fd jd q1"
    by (simp add: q1_def submit_commit_def Let_def env_example_def OPEN_SEQ_SIZE_def submit_account_def kbase_queue_init_def
        next_free.simps sub_for_def atom_example_def numeral_2_eq_2)
  have "kbase_step kbase_start (kbase_start\<lparr>m_q := q1\<rparr>)"
    using kbase_step.step_submit [OF e, of None q1] k
    by (simp add: submit_ready_def kbase_queue_init_def result_queue_def)
  then have r1: "reach kbase_start kbase_step (kbase_start\<lparr>m_q := q1\<rparr>)" by (rule reach_step [OF reach_init])
  define q2 where "q2 = q1\<lparr>next_seq := 3\<rparr>"
  define m2 where "m2 = kbase_start\<lparr>m_q := q2, m_calls := [(sleeper, many_atoms, None)]\<rparr>"
  have "submit_enter env_example (length many_atoms) True q1 = (Some sleeper, q2)"
    using many_atoms_numbered(1)
    by (simp add: submit_enter_def PAN_KMOD_KBASE_MAX_ATOMS_def env_example_def q1_def q2_def kbase_queue_init_def Let_def sleeper_def)
  moreover have "\<not> submit_ready sleeper q2" by (simp add: submit_ready_def sleeper_def q2_def q1_def)
  ultimately have "kbase_step (kbase_start\<lparr>m_q := q1\<rparr>) m2"
    using kbase_step.step_sleep [of env_example many_atoms True "kbase_start\<lparr>m_q := q1\<rparr>" sleeper q2 None]
    by (simp add: m2_def kbase_start_def)
  then have r2: "reach kbase_start kbase_step m2" by (rule reach_step [OF r1])
  obtain q3 where q3: "kbase_events [?ev 1, ?ev 2] q2 = (q3, [0])" "free_atoms q3 = 255" "open_seq q3 = [1]" "next_seq q3 = 3"
      "sub_at q3 0 = ?sub\<lparr>pending := 0\<rparr>"
    by (simp add: kbase_events_def kbase_event_def Let_def retire_atom_def q2_def q1_def kbase_queue_init_def sub_at_def)
  have "thread_started q2" "\<not> stop q2" by (simp_all add: q2_def q1_def kbase_queue_init_def)
  then have "kbase_step m2 (m2\<lparr>m_q := q3, m_batch := [0]\<rparr>)"
    using kbase_step.step_events [of m2 "[?ev 1, ?ev 2]" q3 "[0]"] q3(1) by (simp add: m2_def kbase_start_def)
  then have r3: "reach kbase_start kbase_step (m2\<lparr>m_q := q3, m_batch := [0]\<rparr>)" by (rule reach_step [OF r2])
  define q4 where "q4 = kbase_finish_sub 0 q3"
  have "kbase_step (m2\<lparr>m_q := q3, m_batch := [0]\<rparr>) (m2\<lparr>m_q := q3, m_batch := [0], m_q := q4, m_batch := []\<rparr>)"
    using kbase_step.step_finish [of "m2\<lparr>m_q := q3, m_batch := [0]\<rparr>" 0 "[]"] by (simp add: q4_def)
  then have r4: "reach kbase_start kbase_step (m2\<lparr>m_q := q4, m_batch := []\<rparr>)" using reach_step [OF r3] by simp
  have "open_seq q4 = []" "free_atoms q4 = 255" "next_seq q4 = 3"
    using q3(2-5) by (simp_all add: q4_def kbase_finish_sub_def Let_def open_remove.simps)
  then show thesis using that [OF r4] by (simp add: m2_def)
qed

lemma sleeper_wakes:
  assumes "reach kbase_start kbase_step m" and "m_calls m = [(sleeper, many_atoms, None)]" and "open_seq (m_q m) = []" and "free_atoms (m_q m) = 255"
  obtains m' p sub where "kbase_step m m'" "subs (m_q m') p = Some sub" "sub_seq sub = 2"
proof -
  have inv: "atoms_inv (m_q m) (m_batch m)" using kbase_threads.reach_inv [OF assms(1)] by (simp add: machine_inv_def)
  have rd: "submit_ready sleeper (m_q m)" and ok: "call_ok sleeper (length many_atoms)"
    using assms(4) by (simp_all add: submit_ready_def sleeper_def call_ok_def many_atoms_numbered)
  from submit_commit_take [OF inv ok rd] obtain real q1 where
    t: "take_atoms (sub_for (c_fence sleeper \<and> length many_atoms \<noteq> 0) (length many_atoms) (next_ref (m_q m)))
        (\<lambda>i. c_fence sleeper \<and> i = length many_atoms) (c_need sleeper) 0 1 (m_q m) = Some (real, q1)" by (auto simp: sleeper_def)
  define q' where "q' = submit_account True 253 254 2 None real q1"
  have "\<exists>fd jd. submit_commit env_example many_atoms None sleeper (m_q m) = Submit_ok 2 fd jd q'"
    using t many_atoms_numbered assms(3) take_atoms_seq [OF t]
    by (simp add: submit_commit_def Let_def sleeper_def env_example_def OPEN_SEQ_SIZE_def q'_def)
  then have "result_queue (submit_commit env_example many_atoms None sleeper (m_q m)) = Some q'" by (auto simp: result_queue_def)
  then have st: "kbase_step m (m\<lparr>m_q := q', m_calls := remove1 (sleeper, many_atoms, None) (m_calls m)\<rparr>)"
    using kbase_step.step_wake [of sleeper many_atoms None m env_example q'] assms(2) rd by simp
  have "\<exists>p sub. subs q' p = Some sub \<and> sub_seq sub = 2"
    by (intro exI [of _ "next_ref q1"]) (simp add: q'_def submit_account_def Let_def)
  then show thesis using that [OF st] by auto
qed

theorem kbase_wait_seq_complete_witness:
  "\<exists>m m' p sub. pan_kmod_kbase_wait_seq [] 2 (m_q m) = Some (m_q m) \<and> reach m kbase_step m' \<and>
     subs (m_q m') p = Some sub \<and> sub_seq sub = 2 \<and> m' \<noteq> m \<and> 2 \<in> c_seq ` fst ` set (m_calls m)"
proof -
  obtain m where m: "reach kbase_start kbase_step m" "m_calls m = [(sleeper, many_atoms, None)]" "open_seq (m_q m) = []" "free_atoms (m_q m) = 255"
    "next_seq (m_q m) = 3" by (rule sleeper_reach)
  obtain m' p sub where m': "kbase_step m m'" "subs (m_q m') p = Some sub" "sub_seq sub = 2" by (rule sleeper_wakes [OF m(1-4)])
  have w: "pan_kmod_kbase_wait_seq [] 2 (m_q m) = Some (m_q m)" using m(3) by (simp add: pan_kmod_kbase_wait_seq_def seq_open_def)
  have r: "reach m kbase_step m'" by (rule reach.reach_step [OF reach.reach_init [of m kbase_step] m'(1)])
  have "m' \<noteq> m \<and> sub_seq sub \<in> c_seq ` fst ` set (m_calls m)"
    by (rule kbase_wait_seq_complete [OF m(1) w refl r m'(2)]) (simp_all add: m'(3) m(5))
  then show ?thesis unfolding m'(3) using w r m'(2,3) by blast
qed

text \<open>Waits of calls whose other threads keep the atom numbers consistent.\<close>

lemma cond_wait_inv:
  assumes "\<exists>f. atoms_inv q f" and "\<forall>w \<in> set ws. \<forall>u f. atoms_inv u f \<longrightarrow> (\<exists>f'. atoms_inv (w u) f')" and "cond_wait ws ready q = Some q'"
  shows "\<exists>f. atoms_inv q' f"
  using assms
proof (induction ws arbitrary: q)
  case (Cons w ws)
  show ?case
  proof (cases "ready q")
    case False
    then show ?thesis using Cons.IH [of "w q"] Cons.prems by auto
  qed (use Cons.prems in auto)
qed (auto split: if_splits)

text \<open>
  Property C12.  A submission that returns 0 before it drew a sequence number leaves the queue
  as it was; one that fails later, for want of memory or because the kernel refuses the job, has
  only advanced the sequence counter and started the event thread before its wait, and leaves the queue exactly
  as it was when the wait ended: the atom numbers and fence marks it took are given back.
  The other threads are assumed to keep the atom numbers consistent while the call sleeps.
\<close>

theorem kbase_submit_refused_unchanged:
  assumes "reach kbase_start kbase_step m" and "\<forall>w \<in> set ws. \<forall>u f. atoms_inv u f \<longrightarrow> (\<exists>f'. atoms_inv (w u) f')"
    and "pan_kmod_kbase_submit_async env ws atoms fence_fd cb (m_q m) = Some (Submit_refused q')"
  shows "case submit_enter env (length atoms) fence_fd (m_q m) of
      (None, q) \<Rightarrow> q' = m_q m
    | (Some c, q) \<Rightarrow> q = (m_q m)\<lparr>thread_started := True, next_seq := next_seq (m_q m) + 1\<rparr> \<and>
        cond_wait ws (submit_ready c) q = Some q'"
proof (cases "submit_enter env (length atoms) fence_fd (m_q m)")
  case (Pair r q1)
  show ?thesis
  proof (cases r)
    case None
    then have "q' = q1" using assms(3) Pair by (simp add: pan_kmod_kbase_submit_async_def)
    then show ?thesis using Pair None by (auto simp: submit_enter_def Let_def split: if_splits)
  next
    case (Some c)
    note e = submit_enter_SomeD [OF Pair [unfolded Some]]
    obtain qw where qw: "cond_wait ws (submit_ready c) q1 = Some qw" "submit_commit env atoms cb c qw = Submit_refused q'"
      using assms(3) Pair Some by (auto simp: pan_kmod_kbase_submit_async_def)
    have "machine_inv m" using assms(1) by (rule kbase_threads.reach_inv)
    then have "atoms_inv q1 (m_batch m)"
      using submit_enter_inv(1) [OF Pair [unfolded Some]] unfolding machine_inv_def by blast
    then obtain f where f: "atoms_inv qw f" using cond_wait_inv [OF _ assms(2) qw(1)] by blast
    have "q' = qw" by (rule submit_commit_refused [OF f _ cond_wait_ready [OF qw(1)] qw(2)]) (use e in simp)
    then show ?thesis using e qw(1) Pair Some by simp
  qed
qed

theorem kbase_submit_refused_unchanged_witness:
  "\<exists>q'. pan_kmod_kbase_submit_async (env_example\<lparr>e_ioctl := \<lambda>jd. (False, 0)\<rparr>) [\<lambda>q. q] [atom_example 1 0] True None (m_q kbase_start) =
      Some (Submit_refused q') \<and> q' = (m_q kbase_start)\<lparr>thread_started := True, next_seq := 2\<rparr>"
proof -
  let ?e = "env_example\<lparr>e_ioctl := \<lambda>jd. (False, 0)\<rparr>" and ?c = "\<lparr>c_seq = 1, c_fence = True, c_need = 2\<rparr>"
  let ?q = "(m_q kbase_start)\<lparr>thread_started := True, next_seq := 2\<rparr>"
  have e: "submit_enter ?e (length [atom_example 1 0]) True (m_q kbase_start) = (Some ?c, ?q)"
    by (simp add: submit_enter_def PAN_KMOD_KBASE_MAX_ATOMS_def env_example_def Let_def kbase_start_def kbase_queue_init_def)
  have w: "cond_wait [\<lambda>q. q] (submit_ready ?c) ?q = Some ?q" by (simp add: submit_ready_def kbase_start_def kbase_queue_init_def)
  obtain q' where k: "submit_commit ?e [atom_example 1 0] None ?c ?q = Submit_refused q'"
    by (simp add: submit_commit_def Let_def env_example_def atom_example_def kbase_start_def kbase_queue_init_def next_free.simps numeral_2_eq_2)
  have r: "pan_kmod_kbase_submit_async ?e [\<lambda>q. q] [atom_example 1 0] True None (m_q kbase_start) = Some (Submit_refused q')"
    unfolding pan_kmod_kbase_submit_async_def e prod.case option.case w k [symmetric] by simp
  have "\<forall>w \<in> set [\<lambda>q. q]. \<forall>u f. atoms_inv u f \<longrightarrow> (\<exists>f'. atoms_inv (w u) f')" by auto
  from kbase_submit_refused_unchanged [OF reach_init this r] have "cond_wait [\<lambda>q. q] (submit_ready ?c) ?q = Some q'"
    unfolding e prod.case option.case by blast
  then have "q' = ?q" unfolding w by simp
  then show ?thesis using r by blast
qed

text \<open>
  Without the chaining the order is lost: after two independent atoms were
  submitted together and the second of them reported first, the next submission waits for
  nothing although the first is still in flight.
\<close>

theorem kbase_submit_unordered:
  "\<exists>m c jd fd q'. reach kbase_start kbase_step m \<and> owner (m_q m) ! 1 \<noteq> None \<and>
     pan_kmod_kbase_submit_async env_example [] [atom_example 1 0] False None (m_q m) = Some (Submit_ok c fd jd q') \<and>
     map jd_dep_atom jd = [0]"
proof -
  let ?as = "[atom_example 1 0, atom_example 2 0]" and ?c = "\<lparr>c_seq = 1, c_fence = False, c_need = 2\<rparr>"
  let ?ev = "\<lparr>event_code = KBASE_JD_EVENT_DONE, event_atom = 2, event_tag = KBASE_ATOM_TAG\<rparr>"
  let ?q0 = "kbase_queue_init\<lparr>thread_started := True, next_seq := 2\<rparr>"
  let ?sub = "\<lparr>sub_seq = 1, pending = 2, sub_ok = True, sub_cb = None\<rparr>"
  define q1 where "q1 = ?q0\<lparr>owner := (owner ?q0)[1 := Some 0, 2 := Some 0],
      is_fence := (is_fence ?q0)[1 := False, 2 := False], free_atoms := 253, last_atom := 2,
      in_flight := 1, open_seq := [1], subs := [0 \<mapsto> ?sub], next_ref := 2\<rparr>"
  have e: "submit_enter env_example (length ?as) False (m_q kbase_start) = (Some ?c, ?q0)"
    by (simp add: submit_enter_def PAN_KMOD_KBASE_MAX_ATOMS_def env_example_def kbase_start_def kbase_queue_init_def)
  obtain fd jd where k: "submit_commit env_example ?as None ?c ?q0 = Submit_ok 1 fd jd q1"
    by (simp add: q1_def submit_commit_def Let_def env_example_def OPEN_SEQ_SIZE_def submit_account_def kbase_queue_init_def
        next_free.simps sub_for_def atom_example_def numeral_2_eq_2)
  have "kbase_step kbase_start (kbase_start\<lparr>m_q := q1\<rparr>)"
    using kbase_step.step_submit [OF e, of None q1] k
    by (simp add: submit_ready_def kbase_queue_init_def result_queue_def)
  then have r1: "reach kbase_start kbase_step (kbase_start\<lparr>m_q := q1\<rparr>)" by (rule reach_step [OF reach_init])
  define q2 where "q2 = q1\<lparr>owner := (owner q1)[2 := None], is_fence := (is_fence q1)[2 := False], free_atoms := 254,
      last_atom := 0, subs := [0 \<mapsto> ?sub\<lparr>pending := 1\<rparr>]\<rparr>"
  have "kbase_events [?ev] q1 = (q2, [])"
    by (simp add: kbase_events_def kbase_event_def Let_def retire_atom_def q2_def q1_def kbase_queue_init_def sub_at_def)
  moreover have "thread_started q1" "\<not> stop q1" "m_batch (kbase_start\<lparr>m_q := q1\<rparr>) = []"
    by (simp_all add: q1_def kbase_queue_init_def kbase_start_def)
  ultimately have "kbase_step (kbase_start\<lparr>m_q := q1\<rparr>) (kbase_start\<lparr>m_q := q1, m_q := q2, m_batch := []\<rparr>)"
    using kbase_step.step_events [of "kbase_start\<lparr>m_q := q1\<rparr>" "[?ev]" q2 "[]"] by simp
  then have r2: "reach kbase_start kbase_step (kbase_start\<lparr>m_q := q1, m_q := q2, m_batch := []\<rparr>)" by (rule reach_step [OF r1])
  have own: "owner q2 ! 1 \<noteq> None" by (simp add: q2_def q1_def kbase_queue_init_def)
  have "\<exists>fd jd q'. pan_kmod_kbase_submit_async env_example [] [atom_example 1 0] False None q2 = Some (Submit_ok 2 fd jd q') \<and>
      map jd_dep_atom jd = [0]"
    by (simp add: pan_kmod_kbase_submit_async_def submit_enter_def PAN_KMOD_KBASE_MAX_ATOMS_def submit_ready_def
        q2_def q1_def submit_commit_def Let_def env_example_def OPEN_SEQ_SIZE_def submit_account_def kbase_queue_init_def
        next_free.simps sub_for_def atom_example_def jd_of_def)
  then show ?thesis using r2 own
    by (intro exI [of _ "kbase_start\<lparr>m_q := q1, m_q := q2, m_batch := []\<rparr>"]) auto
qed

end
