(* ===== verification/Kbase_Props.thy ===== *)
theory Kbase_Props
  imports Mesa_Prelude
begin

text \<open>
  The GPU properties of the kbase backend: the packed property stream that the kernel returns
  and its parser, the properties Mesa derives from it (\<open>kbase_kmod.c\<close>), and the decoding of the
  GPU identifier they are consumed through (\<open>panfrost/model/pan_model.h\<close>). The stream is an
  arbitrary list of bytes; a read outside of it is \<open>None\<close>. The stream's size is an \<open>int\<close>, so
  the parser's 32-bit offsets do not wrap and are natural numbers here.
\<close>

section \<open>The property stream\<close>

definition prop_width :: "nat \<Rightarrow> nat" where
  "prop_width ty = (if ty = 0 then 1 else if ty = 1 then 2 else if ty = 2 then 4 else 8)"

function gpuprop_from :: "u8 list \<Rightarrow> nat \<Rightarrow> nat \<Rightarrow> nat \<Rightarrow> nat \<Rightarrow> nat option" where
  "gpuprop_from buf sz want dflt off =
     (if off + 4 \<le> sz
      then case read_le buf off 4 of
             None \<Rightarrow> None
           | Some hdr \<Rightarrow>
               let w = prop_width (hdr mod 4)
               in if sz < off + 4 + w then Some dflt
                  else if hdr div 4 = want then read_le buf (off + 4) w
                  else gpuprop_from buf sz want dflt (off + 4 + w)
      else Some dflt)"
  by pat_completeness auto
termination by (relation "measure (\<lambda>(buf, sz, want, dflt, off). sz - off)") auto

declare gpuprop_from.simps [simp del]

definition kbase_gpuprop_get :: "u8 list \<Rightarrow> nat \<Rightarrow> nat \<Rightarrow> nat \<Rightarrow> nat option" where
  "kbase_gpuprop_get buf sz want dflt = gpuprop_from buf sz want dflt 0"

section \<open>Device properties\<close>

record pan_kmod_dev_props =
  gpu_id :: u64
  gpu_variant :: u32
  shader_present :: u64
  tiler_features :: u32
  mem_features :: u32
  mmu_features :: u32
  l2_features :: u32
  texture_features :: "u32 list"
  max_threads_per_core :: u32
  max_threads_per_wg :: u32
  max_tasks_per_core :: u8
  num_registers_per_core :: u32
  max_tls_instance_per_core :: u32
  pgsize_bitmap :: u64
  is_io_coherent :: bool
  supported_bo_flags :: u32
  allowed_group_priorities_mask :: u32
  gpu_can_query_timestamp :: bool
  timestamp_device_coherent :: bool
  timestamp_frequency :: u64

text \<open>
  \<open>kbase_kmod_query_props\<close>. The kernel's \<open>GET_GPUPROPS\<close> is the argument \<open>gpuprops\<close>: for a
  buffer size, the ioctl's return value and the bytes it stores. \<open>texfeat_or\<close> is the value of
  the environment variable \<open>PANVK_TEXFEAT0_OR\<close>, \<open>freq\<close> the counter frequency that an aarch64
  build reads (0 elsewhere); the floating-point factor derived from it is left out. The
  properties start as the zeroed device has them.
\<close>

definition zero_props :: pan_kmod_dev_props where
  "zero_props = \<lparr>gpu_id = 0, gpu_variant = 0, shader_present = 0, tiler_features = 0, mem_features = 0,
     mmu_features = 0, l2_features = 0, texture_features = [0, 0, 0, 0], max_threads_per_core = 0,
     max_threads_per_wg = 0, max_tasks_per_core = 0, num_registers_per_core = 0,
     max_tls_instance_per_core = 0, pgsize_bitmap = 0, is_io_coherent = False, supported_bo_flags = 0,
     allowed_group_priorities_mask = 0, gpu_can_query_timestamp = False,
     timestamp_device_coherent = False, timestamp_frequency = 0\<rparr>"

definition gpu_id_of :: "u64 \<Rightarrow> u64 \<Rightarrow> u64 \<Rightarrow> u64 \<Rightarrow> u64" where
  "gpu_id_of product major minor status =
     push_bit 16 product OR push_bit 12 (major AND 0xf) OR push_bit 4 (minor AND 0xff) OR (status AND 0xf)"

definition kbase_kmod_query_props ::
  "(nat \<Rightarrow> int \<times> u8 list) \<Rightarrow> bool \<Rightarrow> u32 option \<Rightarrow> u64 \<Rightarrow> pan_kmod_dev_props \<Rightarrow> (bool \<times> pan_kmod_dev_props) option" where
  "kbase_kmod_query_props gpuprops calloc_ok texfeat_or freq props =
     (let need = fst (gpuprops 0)
      in if need \<le> 0 \<or> \<not> calloc_ok then Some (False, props)
         else let (ret, buf) = gpuprops (nat need)
              in if ret < 0 then Some (False, props)
                 else do {
                   let P = (\<lambda>want dflt. map_option (of_nat :: nat \<Rightarrow> u64) (kbase_gpuprop_get buf (nat need) want dflt));
                   product \<leftarrow> P 1 0;
                   major \<leftarrow> P 4 0;
                   minor \<leftarrow> P 3 0;
                   status \<leftarrow> P 2 0;
                   shader \<leftarrow> P 25 1;
                   tiler \<leftarrow> P 51 0x809;
                   mem \<leftarrow> P 31 0;
                   mmu \<leftarrow> P 32 0x2830;
                   l2 \<leftarrow> P 29 0;
                   tex0 \<leftarrow> P 9 0;
                   tex1 \<leftarrow> P 10 0;
                   tex2 \<leftarrow> P 11 0;
                   threads \<leftarrow> P 18 768;
                   let per_core = (ucast threads :: u32);
                   wg \<leftarrow> P 19 (unat per_core);
                   tasks \<leftarrow> P 22 0;
                   regs \<leftarrow> P 21 0x6000;
                   tls \<leftarrow> P 84 0;
                   Some (True, props\<lparr>
                     gpu_id := gpu_id_of product major minor status,
                     gpu_variant := 0,
                     shader_present := shader,
                     tiler_features := ucast tiler,
                     mem_features := ucast mem,
                     mmu_features := ucast mmu,
                     l2_features := ucast l2,
                     texture_features := [ucast tex0 OR (case texfeat_or of None \<Rightarrow> 0 | Some v \<Rightarrow> v), ucast tex1, ucast tex2, 0],
                     max_threads_per_core := per_core,
                     max_threads_per_wg := ucast wg,
                     max_tasks_per_core := ucast (max tasks 1),
                     num_registers_per_core := ucast regs,
                     max_tls_instance_per_core := ucast (if tls \<noteq> 0 then tls else ucast per_core),
                     pgsize_bitmap := 0x1000 OR 0x200000,
                     is_io_coherent := False,
                     supported_bo_flags := supported_bo_flags props OR 64,
                     allowed_group_priorities_mask := 2,
                     gpu_can_query_timestamp := (freq \<noteq> 0 \<or> gpu_can_query_timestamp props),
                     timestamp_device_coherent := (freq \<noteq> 0 \<or> timestamp_device_coherent props),
                     timestamp_frequency := (if freq \<noteq> 0 then freq else timestamp_frequency props)\<rparr>)
                 })"

section \<open>Decoding the GPU identifier\<close>

definition PAN_ARCH_MAJOR :: "u64 \<Rightarrow> u64" where "PAN_ARCH_MAJOR x = drop_bit 28 x AND 0xf"
definition PAN_VERSION_MAJOR :: "u64 \<Rightarrow> u64" where "PAN_VERSION_MAJOR x = drop_bit 12 x AND 0xf"
definition PAN_VERSION_MINOR :: "u64 \<Rightarrow> u64" where "PAN_VERSION_MINOR x = drop_bit 4 x AND 0xff"
definition PAN_VERSION_STATUS :: "u64 \<Rightarrow> u64" where "PAN_VERSION_STATUS x = x AND 0xf"
definition MIDGARD_PROD_ID :: "u64 \<Rightarrow> u64" where "MIDGARD_PROD_ID x = drop_bit 16 x AND 0xffff"

definition pan_arch :: "u64 \<Rightarrow> u64" where
  "pan_arch gpu =
     (let prod = MIDGARD_PROD_ID gpu
      in if prod \<in> {0x600, 0x620, 0x720} then 4
         else if prod \<in> {0x750, 0x820, 0x830, 0x860, 0x880} then 5
         else PAN_ARCH_MAJOR gpu)"

definition pan_rev :: "u64 \<Rightarrow> u32" where
  "pan_rev gpu = ucast (push_bit 8 (PAN_VERSION_MAJOR gpu) OR PAN_VERSION_MINOR gpu)"

section \<open>The parser\<close>

lemma prop_width_le: "1 \<le> prop_width ty \<and> prop_width ty \<le> 8"
  by (simp add: prop_width_def)

lemma gpuprop_from_safe:
  assumes "sz \<le> length buf"
  shows "\<exists>v. gpuprop_from buf sz want dflt off = Some v \<and> (v = dflt \<or> v < 256 ^ 8)"
  using assms
proof (induction buf sz want dflt off rule: gpuprop_from.induct)
  case (1 buf sz want dflt off)
  show ?case
  proof (cases "off + 4 \<le> sz")
    case True
    then obtain hdr where hdr: "read_le buf off 4 = Some hdr" using read_le_in [of off 4 buf] "1.prems" by auto
    let ?w = "prop_width (hdr mod 4)"
    show ?thesis
    proof (cases "sz < off + 4 + ?w \<or> hdr div 4 = want")
      case True
      have "\<exists>v. read_le buf (off + 4) ?w = Some v \<and> v < 256 ^ 8" if "\<not> sz < off + 4 + ?w"
      proof -
        have "(256 :: nat) ^ ?w \<le> 256 ^ 8" by (rule power_increasing) (use prop_width_le in auto)
        then show ?thesis using read_le_in [of "off + 4" ?w buf] "1.prems" that by fastforce
      qed
      then show ?thesis using True hdr by (subst gpuprop_from.simps) (auto simp: Let_def)
    next
      case False
      then have "gpuprop_from buf sz want dflt off = gpuprop_from buf sz want dflt (off + 4 + ?w)"
        using hdr \<open>off + 4 \<le> sz\<close> by (subst gpuprop_from.simps) (simp add: Let_def)
      then show ?thesis using "1.IH" [OF True hdr refl] False "1.prems" by simp
    qed
  qed (simp add: gpuprop_from.simps)
qed

text \<open>One entry of the stream as the kernel packs it: identifier, width selector and value.\<close>

definition pack_prop :: "nat \<times> nat \<times> nat \<Rightarrow> u8 list" where
  "pack_prop e = (case e of (i, ty, v) \<Rightarrow> le_bytes 4 (4 * i + ty) @ le_bytes (prop_width ty) v)"

definition prop_ok :: "nat \<times> nat \<times> nat \<Rightarrow> bool" where
  "prop_ok e = (case e of (i, ty, v) \<Rightarrow> i < 2 ^ 30 \<and> ty < 4 \<and> v < 256 ^ prop_width ty)"

lemma length_pack_prop: "length (pack_prop (i, ty, v)) = 4 + prop_width ty"
  by (simp add: pack_prop_def)

lemma gpuprop_from_entry:
  assumes "prop_ok (i, ty, v)" and "buf = pre @ pack_prop (i, ty, v) @ post" and "sz = length buf"
  shows "gpuprop_from buf sz want dflt (length pre) =
    (if i = want then Some v else gpuprop_from buf sz want dflt (length pre + 4 + prop_width ty))"
proof -
  let ?w = "prop_width ty"
  have h: "(4 * i + ty) mod 256 ^ 4 = 4 * i + ty" using assms(1) by (simp add: prop_ok_def)
  have "read_le buf (length pre) 4 = Some (4 * i + ty)"
    using read_le_append [of pre 4 "4 * i + ty" "le_bytes ?w v @ post"] h unfolding assms(2) pack_prop_def by simp
  moreover have "read_le buf (length pre + 4) ?w = Some v"
    using read_le_append [of "pre @ le_bytes 4 (4 * i + ty)" ?w v post] assms(1) unfolding assms(2) pack_prop_def prop_ok_def by simp
  moreover have "length buf = length pre + 4 + ?w + length post" using assms(2) by (simp add: length_pack_prop)
  moreover have "(4 * i + ty) mod 4 = ty" "(4 * i + ty) div 4 = i" using assms(1) by (simp_all add: prop_ok_def)
  ultimately show ?thesis unfolding assms(3) by (subst gpuprop_from.simps) (simp add: Let_def)
qed

fun first_prop :: "(nat \<times> nat \<times> nat) list \<Rightarrow> nat \<Rightarrow> nat \<Rightarrow> nat" where
  "first_prop [] want dflt = dflt"
| "first_prop ((i, ty, v) # es) want dflt = (if i = want then v else first_prop es want dflt)"

text \<open>
  Property C14.  Parsing is the inverse of the kernel's packing: on a stream of well-formed
  entries, followed by fewer than four stray bytes, the parser finds the value of the first
  entry with the wanted identifier, and the default when there is none.
\<close>

theorem kbase_gpuprop_roundtrip:
  assumes "list_all prop_ok es" and "length rest < 4" and "buf = concat (map pack_prop es) @ rest"
  shows "kbase_gpuprop_get buf (length buf) want dflt = Some (first_prop es want dflt)"
proof -
  have "gpuprop_from (pre @ concat (map pack_prop es) @ rest) (length (pre @ concat (map pack_prop es) @ rest)) want dflt (length pre) =
      Some (first_prop es want dflt)" for pre
    using assms(1)
  proof (induction es arbitrary: pre)
    case Nil
    then show ?case using assms(2) by (subst gpuprop_from.simps) simp
  next
    case (Cons e es)
    obtain i ty v where e: "e = (i, ty, v)" by (cases e) auto
    have ok: "prop_ok (i, ty, v)" using Cons.prems e by simp
    show ?case
      using gpuprop_from_entry [OF ok refl refl, of pre "concat (map pack_prop es) @ rest"]
        Cons.IH [of "pre @ pack_prop e"] Cons.prems
      by (simp add: e length_pack_prop add.assoc)
  qed
  from this [of "[]"] show ?thesis unfolding assms(3) kbase_gpuprop_get_def by simp
qed

theorem kbase_gpuprop_roundtrip_witness:
  "kbase_gpuprop_get (concat (map pack_prop [(1, 2, 0x7211), (25, 3, 0x770077)]) @ [7]) 21 25 1 = Some 0x770077"
proof -
  have "list_all prop_ok [(1, 2, 0x7211), (25, 3, 0x770077)]" by (simp add: prop_ok_def prop_width_def)
  from kbase_gpuprop_roundtrip [OF this _ refl, of "[7]" 25 1] show ?thesis
    by (simp add: length_pack_prop prop_width_def)
qed

lemma gpu_id_decode:
  "MIDGARD_PROD_ID (gpu_id_of p ma mi st) = p AND 0xffff"
  "PAN_ARCH_MAJOR (gpu_id_of p ma mi st) = drop_bit 12 p AND 0xf"
  "PAN_VERSION_MAJOR (gpu_id_of p ma mi st) = ma AND 0xf"
  "PAN_VERSION_MINOR (gpu_id_of p ma mi st) = mi AND 0xff"
  "PAN_VERSION_STATUS (gpu_id_of p ma mi st) = st AND 0xf"
proof -
  have m: "(0xf :: u64) = mask 4" "(0xff :: u64) = mask 8" "(0xffff :: u64) = mask 16"
    by (simp_all add: mask_eq_exp_minus_1)
  note defs = MIDGARD_PROD_ID_def PAN_ARCH_MAJOR_def PAN_VERSION_MAJOR_def PAN_VERSION_MINOR_def
    PAN_VERSION_STATUS_def gpu_id_of_def m
  show "MIDGARD_PROD_ID (gpu_id_of p ma mi st) = p AND 0xffff"
    "PAN_ARCH_MAJOR (gpu_id_of p ma mi st) = drop_bit 12 p AND 0xf"
    "PAN_VERSION_MAJOR (gpu_id_of p ma mi st) = ma AND 0xf"
    "PAN_VERSION_MINOR (gpu_id_of p ma mi st) = mi AND 0xff"
    "PAN_VERSION_STATUS (gpu_id_of p ma mi st) = st AND 0xf"
    unfolding defs by (rule bit_word_eqI; auto simp: bit_simps)+
qed

text \<open>
  Property C15.  Whatever bytes the kernel stores, querying the properties reads only inside the
  stream. It succeeds exactly when both ioctls and the allocation do, and then the identifier
  decodes to the product and revision read from the stream, the thread-storage count falls back to
  the thread count when the stream has none, and a queue priority and the CPU-cached mapping
  type are offered. When it fails the properties are untouched.
\<close>

theorem kbase_kmod_query_props_spec:
  assumes "\<And>n. length (snd (gpuprops n)) = n"
    and "need = fst (gpuprops 0)" and "buf = snd (gpuprops (nat need))"
  shows "\<exists>ok props'. kbase_kmod_query_props gpuprops calloc_ok texfeat_or freq props = Some (ok, props') \<and>
    ok = (0 < need \<and> calloc_ok \<and> 0 \<le> fst (gpuprops (nat need))) \<and> (\<not> ok \<longrightarrow> props' = props) \<and>
    (ok \<longrightarrow> (\<exists>product major minor.
        kbase_gpuprop_get buf (nat need) 1 0 = Some product \<and> kbase_gpuprop_get buf (nat need) 4 0 = Some major \<and>
        kbase_gpuprop_get buf (nat need) 3 0 = Some minor \<and>
        MIDGARD_PROD_ID (gpu_id props') = of_nat product AND 0xffff \<and>
        PAN_ARCH_MAJOR (gpu_id props') = drop_bit 12 (of_nat product) AND 0xf \<and>
        pan_rev (gpu_id props') = ucast (push_bit 8 (of_nat major AND 0xf :: u64) OR (of_nat minor AND 0xff))) \<and>
      (kbase_gpuprop_get buf (nat need) 84 0 = Some 0 \<longrightarrow> max_tls_instance_per_core props' = max_threads_per_core props') \<and>
      allowed_group_priorities_mask props' = 2 \<and> bit (supported_bo_flags props') 6)"
proof (cases "0 < need \<and> calloc_ok \<and> 0 \<le> fst (gpuprops (nat need))")
  case False
  then show ?thesis using assms(2)
    by (auto simp: kbase_kmod_query_props_def Let_def case_prod_unfold not_le not_less)
next
  case True
  have "\<exists>v. kbase_gpuprop_get buf (nat need) w d = Some v" for w d
    using gpuprop_from_safe [of "nat need" buf w d 0] assms(1) [of "nat need"] assms(3) by (auto simp: kbase_gpuprop_get_def)
  then obtain g where g: "\<And>w d. kbase_gpuprop_get buf (nat need) w d = Some (g w d)" by metis
  obtain ret where io: "gpuprops (nat need) = (ret, buf)" "0 \<le> ret" using True assms(3) by (metis prod.collapse)
  have b6: "bit (f OR 64 :: u32) 6" for f by (simp add: bit_simps)
  have n: "\<not> ret < 0" "\<not> need \<le> 0" calloc_ok using io(2) True by auto
  obtain p where q: "kbase_kmod_query_props gpuprops calloc_ok texfeat_or freq props = Some (True, p)"
    and id: "gpu_id p = gpu_id_of (of_nat (g 1 0)) (of_nat (g 4 0)) (of_nat (g 3 0)) (of_nat (g 2 0))"
    and t: "max_threads_per_core p = ucast (of_nat (g 18 768) :: u64)"
    and tls: "max_tls_instance_per_core p =
      ucast (if of_nat (g 84 0) \<noteq> (0 :: u64) then of_nat (g 84 0) else ucast (ucast (of_nat (g 18 768) :: u64) :: u32) :: u64)"
    and f: "allowed_group_priorities_mask p = 2" "supported_bo_flags p = supported_bo_flags props OR 64"
    using n by (simp add: kbase_kmod_query_props_def Let_def assms(2) [symmetric] io(1) g del: if_split)
  have "ucast (ucast x :: u64) = x" for x :: u32 by (rule bit_word_eqI) (auto simp: bit_simps)
  then have "max_tls_instance_per_core p = max_threads_per_core p" if "g 84 0 = 0" using t tls that by simp
  then show ?thesis using q id f b6 True unfolding g
    by (intro exI [of _ True] exI [of _ p]) (simp add: gpu_id_decode pan_rev_def)
qed

theorem kbase_kmod_query_props_spec_witness:
  "\<exists>props'. kbase_kmod_query_props (\<lambda>n. (20, le_bytes n 0)) True None 0 zero_props = Some (True, props') \<and>
     allowed_group_priorities_mask props' = 2"
  using kbase_kmod_query_props_spec [where gpuprops = "\<lambda>n. (20, le_bytes n 0)" and calloc_ok = True
      and texfeat_or = None and freq = 0 and props = zero_props, OF _ refl refl] by auto

end
