(* ===== verification/Kbase_Bo.thy ===== *)
theory Kbase_Bo
  imports Kbase_Props
begin

text \<open>
  Buffer objects of the kmod layer on the kbase backend: the device with its handle table,
  reference counts and pending CPU-cache maintenance (\<open>pan_kmod.c\<close>, \<open>pan_kmod.h\<close>,
  \<open>pan_kmod_backend.h\<close>), the backend's allocation, import, release and address-space operations
  and the device set-up (\<open>kbase_kmod.c\<close>). The kernel is a parameter: a state and the ioctls
  and mappings the backend issues on it. A failed assertion, and an access to a buffer object
  that has been freed, is \<open>None\<close>.
\<close>

section \<open>Kernel interface\<close>

record mem_alloc_in =
  va_pages :: u64
  commit_pages :: u64
  extension :: u64
  alloc_flags :: u64

text \<open>A failed call returns \<open>None\<close> (or \<open>False\<close>). An import returns its flags, cookie and pages.\<close>

record 'k kbase_kernel =
  k_mem_alloc :: "'k \<Rightarrow> mem_alloc_in \<Rightarrow> u64 option \<times> 'k"
  k_mem_free :: "'k \<Rightarrow> u64 \<Rightarrow> bool \<times> 'k"
  k_mem_import :: "'k \<Rightarrow> int \<Rightarrow> (u64 \<times> u64 \<times> u64) option \<times> 'k"
  k_mmap :: "'k \<Rightarrow> u64 \<Rightarrow> u64 \<Rightarrow> u64 option \<times> 'k"
  k_munmap :: "'k \<Rightarrow> u64 \<Rightarrow> u64 \<Rightarrow> bool \<times> 'k"

section \<open>Data\<close>

definition PAN_KMOD_BO_FLAG_EXECUTABLE :: u32 where "PAN_KMOD_BO_FLAG_EXECUTABLE = 1"
definition PAN_KMOD_BO_FLAG_ALLOC_ON_FAULT :: u32 where "PAN_KMOD_BO_FLAG_ALLOC_ON_FAULT = 2"
definition PAN_KMOD_BO_FLAG_IMPORTED :: u32 where "PAN_KMOD_BO_FLAG_IMPORTED = 16"
definition PAN_KMOD_BO_FLAG_GPU_UNCACHED :: u32 where "PAN_KMOD_BO_FLAG_GPU_UNCACHED = 32"
definition PAN_KMOD_BO_FLAG_WB_MMAP :: u32 where "PAN_KMOD_BO_FLAG_WB_MMAP = 64"
definition PAN_KMOD_BO_FLAG_IO_COHERENT :: u32 where "PAN_KMOD_BO_FLAG_IO_COHERENT = 128"

definition KBASE_MEM_FLAGS_RW :: u64 where "KBASE_MEM_FLAGS_RW = 0x204f OR 0x800"
definition KBASE_MEM_FLAGS_EXEC :: u64 where "KBASE_MEM_FLAGS_EXEC = 0x17"
definition BASE_MEM_GROW_ON_GPF :: u64 where "BASE_MEM_GROW_ON_GPF = 0x200"
definition BASE_MEM_CACHED_CPU :: u64 where "BASE_MEM_CACHED_CPU = 0x1000"
definition KBASE_GROW_INITIAL_PAGES :: u64 where "KBASE_GROW_INITIAL_PAGES = 256"
definition KBASE_GROW_STEP_PAGES :: u64 where "KBASE_GROW_STEP_PAGES = 512"
definition PAN_KMOD_VM_MAP_AUTO_VA :: u64 where "PAN_KMOD_VM_MAP_AUTO_VA = - 1"

type_synonym bo_ref = nat

record kbase_bo =
  refcnt :: int
  bo_size :: u64
  bo_handle :: u32
  bo_flags :: u32
  has_pending_deferred_syncs :: bool
  gpu_va :: u64
  anchor :: "u64 option"
  exec :: bool

datatype bo_sync_type = PAN_KMOD_BO_SYNC_CPU_CACHE_FLUSH | PAN_KMOD_BO_SYNC_CPU_CACHE_FLUSH_AND_INVALIDATE

record bo_sync =
  sync_bo :: bo_ref
  sync_start :: u64
  sync_size :: u64
  sync_type :: bo_sync_type

record 'k kbase_dev =
  d_kernel :: 'k
  d_props :: pan_kmod_dev_props
  d_next_handle :: u32
  d_vm :: "u32 option"
  d_slots :: "u32 \<rightharpoonup> bo_ref"
  d_bos :: "bo_ref \<rightharpoonup> kbase_bo"
  d_next_bo :: bo_ref
  d_pending :: "bo_sync list"
  d_user_pending :: bool

section \<open>Backend: allocation and release\<close>

definition DIV_ROUND_UP :: "u64 \<Rightarrow> u64 \<Rightarrow> u64" where
  "DIV_ROUND_UP a b = (a + b - 1) div b"

text \<open>\<open>pan_kmod_bo_init\<close>: a buffer object with one reference, under a fresh identifier.\<close>

definition pan_kmod_bo_init :: "u64 \<Rightarrow> u32 \<Rightarrow> u64 \<Rightarrow> u64 option \<Rightarrow> bool \<Rightarrow> 'k kbase_dev \<Rightarrow> bo_ref \<times> 'k kbase_dev" where
  "pan_kmod_bo_init sz flags va anc ex d =
     (let bo = \<lparr>refcnt = 1, bo_size = sz, bo_handle = d_next_handle d,
                bo_flags = (if is_io_coherent (d_props d) then flags OR PAN_KMOD_BO_FLAG_IO_COHERENT else flags),
                has_pending_deferred_syncs = False, gpu_va = va, anchor = anc, exec = ex\<rparr>
      in (d_next_bo d,
          d\<lparr>d_bos := (d_bos d)(d_next_bo d \<mapsto> bo), d_next_bo := Suc (d_next_bo d),
            d_next_handle := d_next_handle d + 1\<rparr>))"

definition mem_alloc_req :: "u64 \<Rightarrow> u32 \<Rightarrow> mem_alloc_in" where
  "mem_alloc_req pages flags =
     (let ex = (flags AND PAN_KMOD_BO_FLAG_EXECUTABLE \<noteq> 0);
          grow = (\<not> ex \<and> flags AND PAN_KMOD_BO_FLAG_ALLOC_ON_FAULT \<noteq> 0)
      in \<lparr>va_pages = pages,
          commit_pages = (if grow then min pages KBASE_GROW_INITIAL_PAGES else pages),
          extension = (if grow then KBASE_GROW_STEP_PAGES else 0),
          alloc_flags = (if ex then KBASE_MEM_FLAGS_EXEC
                         else KBASE_MEM_FLAGS_RW OR (if grow then BASE_MEM_GROW_ON_GPF else 0) OR
                              (if flags AND PAN_KMOD_BO_FLAG_WB_MMAP \<noteq> 0 then BASE_MEM_CACHED_CPU else 0))\<rparr>)"

definition kbase_kmod_bo_alloc ::
  "'k kbase_kernel \<Rightarrow> bool \<Rightarrow> u64 \<Rightarrow> u32 \<Rightarrow> 'k kbase_dev \<Rightarrow> bo_ref option \<times> 'k kbase_dev" where
  "kbase_kmod_bo_alloc K alloc_ok sz flags d =
     (if flags AND PAN_KMOD_BO_FLAG_GPU_UNCACHED \<noteq> 0 \<or> \<not> alloc_ok then (None, d)
      else let pages = DIV_ROUND_UP sz 4096;
               ex = (flags AND PAN_KMOD_BO_FLAG_EXECUTABLE \<noteq> 0)
           in case k_mem_alloc K (d_kernel d) (mem_alloc_req pages flags) of
                (None, k) \<Rightarrow> (None, d\<lparr>d_kernel := k\<rparr>)
              | (Some va, k) \<Rightarrow>
                  if ex
                  then map_prod Some id (pan_kmod_bo_init (pages * 4096) flags va None True (d\<lparr>d_kernel := k\<rparr>))
                  else case k_mmap K k (pages * 4096) va of
                         (None, k') \<Rightarrow> (None, d\<lparr>d_kernel := k'\<rparr>)
                       | (Some a, k') \<Rightarrow>
                           map_prod Some id (pan_kmod_bo_init (pages * 4096) flags a (Some a) False (d\<lparr>d_kernel := k'\<rparr>)))"

text \<open>The errors of the release calls are only logged.\<close>

definition kbase_kmod_bo_free :: "'k kbase_kernel \<Rightarrow> bo_ref \<Rightarrow> 'k kbase_dev \<Rightarrow> 'k kbase_dev option" where
  "kbase_kmod_bo_free K r d =
     (case d_bos d r of
        None \<Rightarrow> None
      | Some bo \<Rightarrow>
          let k = (if exec bo then snd (k_mem_free K (d_kernel d) (gpu_va bo))
                   else case anchor bo of
                          None \<Rightarrow> d_kernel d
                        | Some a \<Rightarrow> snd (k_munmap K (d_kernel d) a (bo_size bo)))
          in Some (d\<lparr>d_kernel := k, d_bos := (d_bos d)(r := None)\<rparr>))"

definition kbase_kmod_bo_get_mmap_offset :: "kbase_bo \<Rightarrow> u64" where
  "kbase_kmod_bo_get_mmap_offset bo = gpu_va bo"

definition kbase_kmod_bo_wait :: "kbase_bo \<Rightarrow> int \<Rightarrow> bool \<Rightarrow> bool" where
  "kbase_kmod_bo_wait bo timeout_ns for_read_only_access = False"

definition kbase_kmod_bo_import :: "u32 \<Rightarrow> u64 \<Rightarrow> 'k kbase_dev \<Rightarrow> bo_ref option" where
  "kbase_kmod_bo_import handle sz d = None"

definition kbase_kmod_bo_import_fd ::
  "'k kbase_kernel \<Rightarrow> bool \<Rightarrow> int \<Rightarrow> u64 \<Rightarrow> 'k kbase_dev \<Rightarrow> bo_ref option \<times> 'k kbase_dev" where
  "kbase_kmod_bo_import_fd K alloc_ok fd sz d =
     (if \<not> alloc_ok then (None, d)
      else case k_mem_import K (d_kernel d) fd of
             (None, k) \<Rightarrow> (None, d\<lparr>d_kernel := k\<rparr>)
           | (Some (flags, cookie, pages), k) \<Rightarrow>
               if flags AND (0x2000 OR 0x4000) = 0 \<or> pages * 4096 < sz then (None, d\<lparr>d_kernel := k\<rparr>)
               else case k_mmap K k (pages * 4096) cookie of
                      (None, k') \<Rightarrow> (None, d\<lparr>d_kernel := k'\<rparr>)
                    | (Some a, k') \<Rightarrow>
                        map_prod Some id
                          (pan_kmod_bo_init (pages * 4096) PAN_KMOD_BO_FLAG_IMPORTED a (Some a) False (d\<lparr>d_kernel := k'\<rparr>)))"

section \<open>The handle table\<close>

text \<open>
  \<open>slot_ok\<close> says whether the sparse array has memory for the slot. The result is the new
  object, if any.
\<close>

definition pan_kmod_bo_alloc ::
  "'k kbase_kernel \<Rightarrow> bool \<Rightarrow> bool \<Rightarrow> u64 \<Rightarrow> u32 \<Rightarrow> 'k kbase_dev \<Rightarrow> (bo_ref option \<times> 'k kbase_dev) option" where
  "pan_kmod_bo_alloc K alloc_ok slot_ok sz flags d =
     (case kbase_kmod_bo_alloc K alloc_ok sz flags d of
        (None, d1) \<Rightarrow> Some (None, d1)
      | (Some r, d1) \<Rightarrow> do {
          bo \<leftarrow> d_bos d1 r;
          if \<not> slot_ok then map_option (Pair None) (kbase_kmod_bo_free K r d1)
          else do {
            c_assert (d_slots d1 (bo_handle bo) = None);
            Some (Some r, d1\<lparr>d_slots := (d_slots d1)(bo_handle bo \<mapsto> r)\<rparr>)
          }
        })"

definition pan_kmod_bo_get :: "bo_ref \<Rightarrow> 'k kbase_dev \<Rightarrow> 'k kbase_dev option" where
  "pan_kmod_bo_get r d = do {
     bo \<leftarrow> d_bos d r;
     c_assert (1 < int32 (refcnt bo + 1));
     Some (d\<lparr>d_bos := (d_bos d)(r \<mapsto> bo\<lparr>refcnt := int32 (refcnt bo + 1)\<rparr>)\<rparr>)
   }"

text \<open>
  \<open>pan_kmod_bo_put\<close> in its two parts: the decrement, which tells whether the count reached
  zero, and what happens under the table's lock.
\<close>

definition put_dec :: "bo_ref \<Rightarrow> 'k kbase_dev \<Rightarrow> (bool \<times> 'k kbase_dev) option" where
  "put_dec r d = do {
     bo \<leftarrow> d_bos d r;
     c_assert (0 \<le> int32 (refcnt bo - 1));
     Some (int32 (refcnt bo - 1) = 0, d\<lparr>d_bos := (d_bos d)(r \<mapsto> bo\<lparr>refcnt := int32 (refcnt bo - 1)\<rparr>)\<rparr>)
   }"

definition put_locked :: "'k kbase_kernel \<Rightarrow> bo_ref \<Rightarrow> 'k kbase_dev \<Rightarrow> 'k kbase_dev option" where
  "put_locked K r d = do {
     bo \<leftarrow> d_bos d r;
     if refcnt bo = 0 then kbase_kmod_bo_free K r (d\<lparr>d_slots := (d_slots d)(bo_handle bo := None)\<rparr>)
     else Some d
   }"

definition pan_kmod_bo_put :: "'k kbase_kernel \<Rightarrow> bo_ref option \<Rightarrow> 'k kbase_dev \<Rightarrow> 'k kbase_dev option" where
  "pan_kmod_bo_put K bo d =
     (case bo of
        None \<Rightarrow> Some d
      | Some r \<Rightarrow> do {
          (zero, d1) \<leftarrow> put_dec r d;
          if zero then put_locked K r d1 else Some d1
        })"

text \<open>
  \<open>pan_kmod_bo_import\<close>. With \<open>bo_import_fd\<close> (kbase) every import is an object of its own; a
  kernel driver with GEM handles (\<open>import_drm\<close>) finds an object it already knows and takes a
  reference. \<open>sz\<close> is what seeking to the end of the dma-buf returns; \<open>prime\<close> the handle of the
  dma-buf; \<open>create\<close> the backend's import of an unknown handle.
\<close>

definition pan_kmod_bo_import ::
  "'k kbase_kernel \<Rightarrow> bool \<Rightarrow> bool \<Rightarrow> int \<Rightarrow> int \<Rightarrow> 'k kbase_dev \<Rightarrow> (bo_ref option \<times> 'k kbase_dev) option" where
  "pan_kmod_bo_import K alloc_ok slot_ok fd sz d =
     (if sz \<le> 0 then Some (None, d)
      else case kbase_kmod_bo_import_fd K alloc_ok fd (of_int sz) d of
             (None, d1) \<Rightarrow> Some (None, d1)
           | (Some r, d1) \<Rightarrow> do {
               bo \<leftarrow> d_bos d1 r;
               if slot_ok then Some (Some r, d1\<lparr>d_slots := (d_slots d1)(bo_handle bo \<mapsto> r)\<rparr>)
               else map_option (Pair None) (kbase_kmod_bo_free K r d1)
             })"

definition import_drm ::
  "u32 option \<Rightarrow> bool \<Rightarrow> int \<Rightarrow> (u32 \<Rightarrow> u64 \<Rightarrow> 'k kbase_dev \<Rightarrow> bo_ref option \<times> 'k kbase_dev) \<Rightarrow>
   'k kbase_dev \<Rightarrow> (bo_ref option \<times> 'k kbase_dev) option" where
  "import_drm prime slot_ok sz create d =
     (case prime of
        None \<Rightarrow> Some (None, d)
      | Some handle \<Rightarrow>
          if \<not> slot_ok then Some (None, d)
          else case d_slots d handle of
                 Some r \<Rightarrow> do {
                   bo \<leftarrow> d_bos d r;
                   c_assert (0 < int32 (refcnt bo + 1));
                   Some (Some r, d\<lparr>d_bos := (d_bos d)(r \<mapsto> bo\<lparr>refcnt := int32 (refcnt bo + 1)\<rparr>)\<rparr>)
                 }
               | None \<Rightarrow>
                   if sz = 0 \<or> sz = -1 then Some (None, d)
                   else case create handle (of_int sz) d of
                          (None, d1) \<Rightarrow> Some (None, d1)
                        | (Some r, d1) \<Rightarrow> do {
                            bo \<leftarrow> d_bos d1 r;
                            c_assert (0 < refcnt bo);
                            Some (Some r, d1\<lparr>d_slots := (d_slots d1)(handle \<mapsto> r)\<rparr>)
                          })"

section \<open>CPU cache maintenance\<close>

text \<open>\<open>kbase_kmod_flush_bo_map_syncs\<close> returns 0 and does nothing.\<close>

definition kbase_kmod_flush_bo_map_syncs :: "'k kbase_dev \<Rightarrow> int \<times> 'k kbase_dev" where
  "kbase_kmod_flush_bo_map_syncs d = (0, d)"

fun clear_pending :: "bo_sync list \<Rightarrow> (bo_ref \<rightharpoonup> kbase_bo) \<Rightarrow> (bo_ref \<rightharpoonup> kbase_bo) option" where
  "clear_pending [] bos = Some bos"
| "clear_pending (s # ss) bos =
     (case bos (sync_bo s) of
        None \<Rightarrow> None
      | Some bo \<Rightarrow> clear_pending ss (bos(sync_bo s \<mapsto> bo\<lparr>has_pending_deferred_syncs := False\<rparr>)))"

definition pan_kmod_flush_bo_map_syncs_locked :: "'k kbase_dev \<Rightarrow> 'k kbase_dev option" where
  "pan_kmod_flush_bo_map_syncs_locked d =
     (case kbase_kmod_flush_bo_map_syncs d of (ret, d1) \<Rightarrow> do {
        c_assert (ret = 0);
        bos \<leftarrow> clear_pending (d_pending d1) (d_bos d1);
        Some (d1\<lparr>d_bos := bos, d_pending := []\<rparr>)
      })"

definition pan_kmod_flush_bo_map_syncs :: "'k kbase_dev \<Rightarrow> 'k kbase_dev option" where
  "pan_kmod_flush_bo_map_syncs d =
     (if is_io_coherent (d_props d) then Some d
      else let d1 = d\<lparr>d_user_pending := False\<rparr>
           in if d_pending d1 = [] then Some d1 else pan_kmod_flush_bo_map_syncs_locked d1)"

definition MAX_PENDING_SYNC_OPS :: nat where "MAX_PENDING_SYNC_OPS = 4096"

definition ALIGN_POT :: "u64 \<Rightarrow> u64 \<Rightarrow> u64" where
  "ALIGN_POT x a = (x + (a - 1)) AND NOT (a - 1)"

text \<open>
  \<open>user\<close> is \<open>pan_kmod_can_sync_bo_map_from_userland\<close>, \<open>gran\<close> the cache line size. The flush
  instructions of the user path have no effect on this state.
\<close>

definition sync_range :: "u64 \<Rightarrow> u64 \<Rightarrow> u64 \<Rightarrow> u64 \<times> u64" where
  "sync_range gran bo_offset len =
     (let start = bo_offset AND NOT (gran - 1); e = ALIGN_POT (bo_offset + len) gran in (start, e - start))"

definition pan_kmod_queue_bo_map_sync ::
  "bool \<Rightarrow> u64 \<Rightarrow> bo_ref \<Rightarrow> u64 \<Rightarrow> u64 \<Rightarrow> bo_sync_type \<Rightarrow> 'k kbase_dev \<Rightarrow> 'k kbase_dev option" where
  "pan_kmod_queue_bo_map_sync user gran r bo_offset len ty d = do {
     bo \<leftarrow> d_bos d r;
     if bo_flags bo AND PAN_KMOD_BO_FLAG_WB_MMAP = 0 \<or> bo_flags bo AND PAN_KMOD_BO_FLAG_IO_COHERENT \<noteq> 0 then Some d
     else if user then Some (d\<lparr>d_user_pending := True\<rparr>)
     else do {
       d1 \<leftarrow> (if MAX_PENDING_SYNC_OPS \<le> length (d_pending d) then pan_kmod_flush_bo_map_syncs_locked d else Some d);
       bo1 \<leftarrow> d_bos d1 r;
       let (start, sz) = sync_range gran bo_offset len;
       Some (d1\<lparr>d_bos := (d_bos d1)(r \<mapsto> bo1\<lparr>has_pending_deferred_syncs := True\<rparr>),
                d_pending := d_pending d1 @ [\<lparr>sync_bo = r, sync_start = start, sync_size = sz, sync_type = ty\<rparr>]\<rparr>)
     }
   }"

section \<open>Address space\<close>

definition kbase_kmod_vm_create :: "bool \<Rightarrow> u32 \<Rightarrow> 'k kbase_dev \<Rightarrow> bool \<times> 'k kbase_dev" where
  "kbase_kmod_vm_create alloc_ok flags d =
     (if d_vm d \<noteq> None then (False, d)
      else if flags AND 1 = 0 then (False, d)
      else if \<not> alloc_ok then (False, d)
      else (True, d\<lparr>d_vm := Some flags\<rparr>))"

text \<open>\<open>pan_kmod_vm_cleanup\<close> puts the dummy object of sparse emulation, if there is one.\<close>

definition kbase_kmod_vm_destroy :: "'k kbase_kernel \<Rightarrow> bo_ref option \<Rightarrow> 'k kbase_dev \<Rightarrow> 'k kbase_dev option" where
  "kbase_kmod_vm_destroy K dummy d = pan_kmod_bo_put K dummy (d\<lparr>d_vm := None\<rparr>)"

datatype vm_op_mode = OP_MODE_IMMEDIATE | OP_MODE_ASYNC | OP_MODE_DEFER_TO_NEXT_IDLE_POINT
datatype vm_op_type = OP_TYPE_MAP | OP_TYPE_UNMAP | OP_TYPE_SYNC_ONLY

record vm_op =
  op_type :: vm_op_type
  va_start :: u64
  map_bo :: bo_ref

text \<open>The loop changes the operations in place: the result is what the caller finds in them.\<close>

fun vm_bind_ops :: "'k kbase_dev \<Rightarrow> vm_op list \<Rightarrow> (int \<times> vm_op list) option" where
  "vm_bind_ops d [] = Some (0, [])"
| "vm_bind_ops d (p # ps) =
     (if op_type p = OP_TYPE_MAP
      then if va_start p \<noteq> PAN_KMOD_VM_MAP_AUTO_VA then Some (-1, p # ps)
           else case d_bos d (map_bo p) of
                  None \<Rightarrow> None
                | Some bo \<Rightarrow> map_option (\<lambda>(ret, qs). (ret, p\<lparr>va_start := gpu_va bo\<rparr> # qs)) (vm_bind_ops d ps)
      else if op_type p \<noteq> OP_TYPE_UNMAP then Some (-1, p # ps)
      else map_option (\<lambda>(ret, qs). (ret, p # qs)) (vm_bind_ops d ps))"

definition kbase_kmod_vm_bind :: "vm_op_mode \<Rightarrow> vm_op list \<Rightarrow> 'k kbase_dev \<Rightarrow> (int \<times> vm_op list) option" where
  "kbase_kmod_vm_bind mode ops d =
     (if mode \<noteq> OP_MODE_IMMEDIATE \<and> mode \<noteq> OP_MODE_DEFER_TO_NEXT_IDLE_POINT then Some (-1, ops)
      else vm_bind_ops d ops)"

definition kbase_kmod_dev_query_user_va_range :: "pan_kmod_dev_props \<Rightarrow> u64 \<times> u64" where
  "kbase_kmod_dev_query_user_va_range props =
     (let va_bits = unat (mmu_features props AND 0xff)
      in (4 * 1024 * 1024 * 1024, push_bit va_bits 1 - 4 * 1024 * 1024 * 1024))"

section \<open>Device set-up\<close>

text \<open>
  The answers of the kernel during \<open>kbase_kmod_dev_create\<close>, and the calls it makes, in order.
\<close>

datatype setup_call = VERSION_CHECK | SET_FLAGS | MAP_TRACKING_PAGE | MEM_EXEC_INIT | GET_GPUPROPS

record setup_env =
  s_alloc_ok :: bool
  s_version_ok :: bool
  s_flags_ok :: bool
  s_tracking_ok :: bool
  s_props :: "pan_kmod_dev_props option"

definition kbase_kmod_dev_create :: "setup_env \<Rightarrow> 'k \<Rightarrow> 'k kbase_dev option \<times> setup_call list" where
  "kbase_kmod_dev_create e k =
     (if \<not> s_alloc_ok e then (None, [])
      else let setup = (if s_version_ok e
                        then if \<not> s_flags_ok e then (False, [SET_FLAGS])
                             else if \<not> s_tracking_ok e then (False, [SET_FLAGS, MAP_TRACKING_PAGE])
                             else (True, [SET_FLAGS, MAP_TRACKING_PAGE, MEM_EXEC_INIT])
                        else (True, []))
           in case setup of
                (False, calls) \<Rightarrow> (None, VERSION_CHECK # calls)
              | (True, calls) \<Rightarrow>
                  (case s_props e of
                     None \<Rightarrow> (None, VERSION_CHECK # calls @ [GET_GPUPROPS])
                   | Some props \<Rightarrow>
                       (Some \<lparr>d_kernel = k, d_props = props, d_next_handle = 1, d_vm = None,
                              d_slots = (\<lambda>_. None), d_bos = (\<lambda>_. None), d_next_bo = 0, d_pending = [],
                              d_user_pending = False\<rparr>, VERSION_CHECK # calls @ [GET_GPUPROPS])))"

text \<open>
  \<open>pan_kmod_dev_create\<close>: the driver whose name \<open>drmGetVersion\<close> reports, then kbase when no
  DRM driver produced a device.
\<close>

fun find_driver :: "(string \<times> 'd option) list \<Rightarrow> string \<Rightarrow> 'd option" where
  "find_driver [] name = None"
| "find_driver ((n, dev) # ds) name = (if n = name then dev else find_driver ds name)"

definition pan_kmod_dev_create :: "(string \<times> 'd option) list \<Rightarrow> 'd option \<Rightarrow> string option \<Rightarrow> 'd option" where
  "pan_kmod_dev_create drivers kbase name =
     (case (case name of None \<Rightarrow> None | Some n \<Rightarrow> find_driver drivers n) of
        Some dev \<Rightarrow> Some dev
      | None \<Rightarrow> kbase)"

section \<open>The table invariant\<close>

text \<open>
  The table is the inverse of the objects' handles, every object is referenced, and handles are
  smaller than the next one to be given out.
\<close>

definition bo_inv :: "'k kbase_dev \<Rightarrow> bool" where
  "bo_inv d \<longleftrightarrow>
     (\<forall>h r. d_slots d h = Some r \<longleftrightarrow> (\<exists>bo. d_bos d r = Some bo \<and> bo_handle bo = h)) \<and>
     (\<forall>r bo. d_bos d r = Some bo \<longrightarrow> 0 \<le> refcnt bo \<and> refcnt bo < 2 ^ 31 \<and> bo_handle bo < d_next_handle d \<and> r < d_next_bo d)"

lemma bo_inv_kernel [simp]: "bo_inv (d\<lparr>d_kernel := k\<rparr>) = bo_inv d"
  by (simp add: bo_inv_def)

lemma bo_invD:
  assumes "bo_inv d"
  shows "d_slots d h = Some r \<longleftrightarrow> (\<exists>bo. d_bos d r = Some bo \<and> bo_handle bo = h)"
    "d_bos d r = Some bo \<Longrightarrow> 0 \<le> refcnt bo \<and> refcnt bo < 2 ^ 31 \<and> bo_handle bo < d_next_handle d \<and> r < d_next_bo d"
  using assms unfolding bo_inv_def by blast+

text \<open>What a successful backend allocation or import has done to the device.\<close>

definition new_bo :: "'k kbase_dev \<Rightarrow> bo_ref \<Rightarrow> kbase_bo \<Rightarrow> 'k kbase_dev \<Rightarrow> bool" where
  "new_bo d r bo d' \<longleftrightarrow> r = d_next_bo d \<and> refcnt bo = 1 \<and> bo_handle bo = d_next_handle d \<and>
     d_bos d' = (d_bos d)(r \<mapsto> bo) \<and> d_next_bo d' = Suc r \<and> d_next_handle d' = d_next_handle d + 1 \<and>
     d_slots d' = d_slots d"

lemma pan_kmod_bo_init_new:
  "pan_kmod_bo_init sz flags va anc ex (d\<lparr>d_kernel := k\<rparr>) = (r, d') \<Longrightarrow>
     \<exists>bo. new_bo d r bo d' \<and> bo_size bo = sz \<and> gpu_va bo = va \<and> anchor bo = anc \<and> exec bo = ex \<and> d_kernel d' = k"
  by (intro exI [of _ "the (d_bos d' r)"]) (auto simp: pan_kmod_bo_init_def Let_def new_bo_def)

lemma kbase_kmod_bo_alloc_cases:
  assumes "kbase_kmod_bo_alloc K alloc_ok sz flags d = (ret, d')"
  shows "(ret = None \<and> (\<exists>k. d' = d\<lparr>d_kernel := k\<rparr>)) \<or> (\<exists>r bo. ret = Some r \<and> new_bo d r bo d')"
proof -
  have "\<exists>k. x = x\<lparr>d_kernel := k\<rparr>" for x :: "'a kbase_dev" by (intro exI [of _ "d_kernel x"]) simp
  then show ?thesis using assms
    by (auto simp: kbase_kmod_bo_alloc_def Let_def map_prod_def
        split: if_splits prod.splits option.splits dest!: pan_kmod_bo_init_new)
qed

lemma kbase_kmod_bo_import_fd_cases:
  assumes "kbase_kmod_bo_import_fd K alloc_ok fd sz d = (ret, d')"
  shows "(ret = None \<and> (\<exists>k. d' = d\<lparr>d_kernel := k\<rparr>)) \<or> (\<exists>r bo. ret = Some r \<and> new_bo d r bo d')"
proof -
  have "\<exists>k. x = x\<lparr>d_kernel := k\<rparr>" for x :: "'a kbase_dev" by (intro exI [of _ "d_kernel x"]) simp
  then show ?thesis using assms
    by (auto simp: kbase_kmod_bo_import_fd_def Let_def map_prod_def
        split: if_splits prod.splits option.splits dest!: pan_kmod_bo_init_new)
qed

lemma new_bo_slot:
  assumes "bo_inv d" and "new_bo d r bo d'"
  shows "d_bos d' r = Some bo" "d_slots d' (bo_handle bo) = None"
proof -
  show "d_bos d' r = Some bo" using assms(2) by (simp add: new_bo_def)
  have "d_slots d (d_next_handle d) \<noteq> Some x" for x using bo_invD [OF assms(1)] by fastforce
  then show "d_slots d' (bo_handle bo) = None" using assms(2) by (cases "d_slots d (d_next_handle d)") (auto simp: new_bo_def)
qed

lemma new_bo_insert_inv:
  assumes "bo_inv d" and "new_bo d r bo d'" and "d_next_handle d \<noteq> - 1"
  shows "bo_inv (d'\<lparr>d_slots := (d_slots d')(bo_handle bo \<mapsto> r)\<rparr>)"
proof -
  note n = assms(2) [unfolded new_bo_def] and i = bo_invD [OF assms(1)]
  have lt: "d_next_handle d < d_next_handle d + 1" by (rule less_plus_one_u32 [OF assms(3)])
  have fresh: "d_bos d r = None" using i(2) [of r] n by (cases "d_bos d r") auto
  have noslot: "d_slots d (d_next_handle d) = None"
    using new_bo_slot(2) [OF assms(1,2)] n by simp
  have nosl: "d_slots d h \<noteq> Some r" for h using i(1) [of h r] fresh by simp
  show ?thesis unfolding bo_inv_def
  proof (intro conjI allI impI)
    fix h x
    show "d_slots (d'\<lparr>d_slots := (d_slots d')(bo_handle bo \<mapsto> r)\<rparr>) h = Some x \<longleftrightarrow>
        (\<exists>b. d_bos (d'\<lparr>d_slots := (d_slots d')(bo_handle bo \<mapsto> r)\<rparr>) x = Some b \<and> bo_handle b = h)"
      using n i(1) [of h x] noslot nosl by auto
  next
    fix x b assume "d_bos (d'\<lparr>d_slots := (d_slots d')(bo_handle bo \<mapsto> r)\<rparr>) x = Some b"
    then have "x = r \<and> b = bo \<or> x \<noteq> r \<and> d_bos d x = Some b" using n by (auto split: if_splits)
    then show "0 \<le> refcnt b" "refcnt b < 2 ^ 31" "bo_handle b < d_next_handle (d'\<lparr>d_slots := (d_slots d')(bo_handle bo \<mapsto> r)\<rparr>)"
      "x < d_next_bo (d'\<lparr>d_slots := (d_slots d')(bo_handle bo \<mapsto> r)\<rparr>)"
      using n lt i(2) [of x b] by (auto intro: less_trans)
  qed
qed

lemma new_bo_free_inv:
  assumes "bo_inv d" and "new_bo d r bo d'" and "d_next_handle d \<noteq> - 1" and "kbase_kmod_bo_free K r d' = Some d''"
  shows "bo_inv d''" "d_bos d'' = d_bos d"
proof -
  note n = assms(2) [unfolded new_bo_def] and i = bo_invD [OF assms(1)]
  have lt: "d_next_handle d < d_next_handle d + 1" by (rule less_plus_one_u32 [OF assms(3)])
  have "d_bos d r = None" using i(2) [of r] n by (cases "d_bos d r") auto
  moreover obtain k where "d'' = d'\<lparr>d_kernel := k, d_bos := (d_bos d')(r := None)\<rparr>"
    using assms(4) by (auto simp: kbase_kmod_bo_free_def Let_def split: option.splits)
  ultimately have f: "d_bos d'' = d_bos d" "d_slots d'' = d_slots d" "d_next_handle d'' = d_next_handle d + 1" "d_next_bo d'' = Suc (d_next_bo d)"
    using n by (auto simp: fun_upd_idem)
  show "d_bos d'' = d_bos d" by (rule f(1))
  show "bo_inv d''" unfolding bo_inv_def f
    using i lt by (auto intro: less_trans dest: i(2)) 
qed

lemma put_dec_some:
  assumes "bo_inv d" and "d_bos d r = Some bo" and "0 < refcnt bo"
  shows "put_dec r d = Some (refcnt bo = 1, d\<lparr>d_bos := (d_bos d)(r \<mapsto> bo\<lparr>refcnt := refcnt bo - 1\<rparr>)\<rparr>)"
  using bo_invD(2) [OF assms(1,2)] assms(2,3) by (simp add: put_dec_def)

text \<open>A change of the counts alone keeps the invariant while they fit.\<close>

lemma refcnt_inv:
  assumes "bo_inv d" and "d_bos d r = Some bo" and "0 \<le> c" and "c < 2 ^ 31"
  shows "bo_inv (d\<lparr>d_bos := (d_bos d)(r \<mapsto> bo\<lparr>refcnt := c\<rparr>)\<rparr>)"
proof -
  note i = bo_invD [OF assms(1)]
  show ?thesis unfolding bo_inv_def using i assms(2-) by (auto split: if_splits)
qed

lemma put_dec_inv:
  assumes "bo_inv d" and "d_bos d r = Some bo" and "0 < refcnt bo" and "put_dec r d = Some (zero, d')"
  shows "bo_inv d'" "zero \<longleftrightarrow> refcnt bo = 1" "d_bos d' = (d_bos d)(r \<mapsto> bo\<lparr>refcnt := refcnt bo - 1\<rparr>)"
  using assms put_dec_some [OF assms(1-3)] bo_invD(2) [OF assms(1,2)] refcnt_inv [OF assms(1,2), of "refcnt bo - 1"] by auto

text \<open>The part under the lock, for an object whose count is zero.\<close>

lemma put_locked_inv:
  assumes "bo_inv d" and "d_bos d r = Some bo" and "refcnt bo = 0"
  shows "\<exists>d'. put_locked K r d = Some d' \<and> bo_inv d' \<and>
    d_bos d' = (d_bos d)(r := None) \<and> d_slots d' = (d_slots d)(bo_handle bo := None)"
proof -
  note i = bo_invD [OF assms(1)]
  let ?d1 = "d\<lparr>d_slots := (d_slots d)(bo_handle bo := None)\<rparr>"
  obtain d' k where d': "kbase_kmod_bo_free K r ?d1 = Some d'" "d' = ?d1\<lparr>d_kernel := k, d_bos := (d_bos d)(r := None)\<rparr>"
    using assms(2) by (auto simp: kbase_kmod_bo_free_def Let_def)
  have p: "put_locked K r d = Some d'" using d'(1) assms(2,3) by (simp add: put_locked_def)
  have "bo_inv d'" unfolding bo_inv_def d'(2)
  proof (intro conjI allI impI)
    fix h x
    have "d_slots d h = Some x \<Longrightarrow> x \<noteq> r \<Longrightarrow> h \<noteq> bo_handle bo" using i(1) [of h x] i(1) [of "bo_handle bo" r] assms(2) by auto
    then show "d_slots (?d1\<lparr>d_kernel := k, d_bos := (d_bos d)(r := None)\<rparr>) h = Some x \<longleftrightarrow>
        (\<exists>b. d_bos (?d1\<lparr>d_kernel := k, d_bos := (d_bos d)(r := None)\<rparr>) x = Some b \<and> bo_handle b = h)"
      using i(1) [of h x] assms(2) by auto
  qed (use i(2) in \<open>auto split: if_splits\<close>)
  then show ?thesis using p d'(2) by simp
qed

lemma pan_kmod_bo_put_inv:
  assumes "bo_inv d" and "d_bos d r = Some bo" and "0 < refcnt bo"
  shows "\<exists>d'. pan_kmod_bo_put K (Some r) d = Some d' \<and> bo_inv d' \<and>
    (if refcnt bo = 1 then d_bos d' = (d_bos d)(r := None) \<and> d_slots d' = (d_slots d)(bo_handle bo := None)
     else d_bos d' = (d_bos d)(r \<mapsto> bo\<lparr>refcnt := refcnt bo - 1\<rparr>) \<and> d_slots d' = d_slots d)"
proof -
  let ?d1 = "d\<lparr>d_bos := (d_bos d)(r \<mapsto> bo\<lparr>refcnt := refcnt bo - 1\<rparr>)\<rparr>"
  have inv: "bo_inv ?d1" using refcnt_inv [OF assms(1,2)] assms(3) bo_invD(2) [OF assms(1,2)] by simp
  show ?thesis
  proof (cases "refcnt bo = 1")
    case True
    from put_locked_inv [OF inv, of r "bo\<lparr>refcnt := 0\<rparr>" K] show ?thesis
      using True put_dec_some [OF assms] by (auto simp: pan_kmod_bo_put_def)
  qed (use inv put_dec_some [OF assms] in \<open>simp add: pan_kmod_bo_put_def\<close>)
qed

text \<open>A reference can be taken unless the 32-bit count is at its largest value.\<close>

lemma pan_kmod_bo_get_inv:
  assumes "bo_inv d" and "d_bos d r = Some bo" and "0 < refcnt bo"
  shows "if refcnt bo = 2 ^ 31 - 1 then pan_kmod_bo_get r d = None
    else \<exists>d'. pan_kmod_bo_get r d = Some d' \<and> bo_inv d' \<and> d_bos d' = (d_bos d)(r \<mapsto> bo\<lparr>refcnt := refcnt bo + 1\<rparr>)"
proof (cases "refcnt bo = 2 ^ 31 - 1")
  case True
  then show ?thesis using assms(2) int32_max by (simp add: pan_kmod_bo_get_def)
next
  case False
  then have "refcnt bo + 1 < 2 ^ 31" using bo_invD(2) [OF assms(1,2)] by simp
  then show ?thesis using False assms(2,3) refcnt_inv [OF assms(1,2), of "refcnt bo + 1"] by (simp add: pan_kmod_bo_get_def)
qed

lemma pan_kmod_bo_alloc_inv:
  assumes "bo_inv d" and "d_next_handle d \<noteq> - 1"
  shows "\<exists>ret d'. pan_kmod_bo_alloc K alloc_ok slot_ok sz flags d = Some (ret, d') \<and> bo_inv d' \<and>
    (case ret of None \<Rightarrow> d_bos d' = d_bos d
     | Some r \<Rightarrow> \<exists>bo. d_bos d' = (d_bos d)(r \<mapsto> bo) \<and> d_bos d r = None \<and> refcnt bo = 1 \<and> d_slots d' = (d_slots d)(bo_handle bo \<mapsto> r))"
proof -
  obtain ret d1 where a: "kbase_kmod_bo_alloc K alloc_ok sz flags d = (ret, d1)" by fastforce
  from kbase_kmod_bo_alloc_cases [OF a] show ?thesis
  proof (elim disjE conjE exE)
    fix k assume "ret = None" "d1 = d\<lparr>d_kernel := k\<rparr>"
    then show ?thesis using assms(1) a by (simp add: pan_kmod_bo_alloc_def)
  next
    fix r bo assume r: "ret = Some r" and n: "new_bo d r bo d1"
    note s = new_bo_slot [OF assms(1) n]
    have none: "d_bos d r = None" using bo_invD(2) [OF assms(1), of r] n by (cases "d_bos d r") (auto simp: new_bo_def)
    show ?thesis
    proof (cases slot_ok)
      case True
      then show ?thesis using a r s new_bo_insert_inv [OF assms(1) n assms(2)] n none
        by (auto simp: pan_kmod_bo_alloc_def new_bo_def)
    next
      case False
      obtain d2 where f: "kbase_kmod_bo_free K r d1 = Some d2" using s(1) by (auto simp: kbase_kmod_bo_free_def Let_def)
      then show ?thesis using a r s False new_bo_free_inv [OF assms(1) n assms(2) f] by (simp add: pan_kmod_bo_alloc_def)
    qed
  qed
qed

lemma pan_kmod_bo_import_inv:
  assumes "bo_inv d" and "d_next_handle d \<noteq> - 1"
  shows "\<exists>ret d'. pan_kmod_bo_import K alloc_ok slot_ok fd sz d = Some (ret, d') \<and> bo_inv d' \<and>
    (case ret of None \<Rightarrow> d_bos d' = d_bos d | Some r \<Rightarrow> \<exists>bo. d_bos d' = (d_bos d)(r \<mapsto> bo) \<and> d_bos d r = None \<and> refcnt bo = 1)"
proof (cases "sz \<le> 0")
  case False
  obtain ret d1 where a: "kbase_kmod_bo_import_fd K alloc_ok fd (of_int sz) d = (ret, d1)" by fastforce
  from kbase_kmod_bo_import_fd_cases [OF a] show ?thesis
  proof (elim disjE conjE exE)
    fix k assume "ret = None" "d1 = d\<lparr>d_kernel := k\<rparr>"
    then show ?thesis using assms(1) a False by (simp add: pan_kmod_bo_import_def)
  next
    fix r bo assume r: "ret = Some r" and n: "new_bo d r bo d1"
    note s = new_bo_slot [OF assms(1) n]
    obtain d2 where f: "kbase_kmod_bo_free K r d1 = Some d2" using s(1) by (auto simp: kbase_kmod_bo_free_def Let_def)
    have none: "d_bos d r = None" using bo_invD(2) [OF assms(1), of r] n by (cases "d_bos d r") (auto simp: new_bo_def)
    show ?thesis using a r s False new_bo_insert_inv [OF assms(1) n assms(2)] new_bo_free_inv [OF assms(1) n assms(2) f] f none n
      by (cases slot_ok) (auto simp: pan_kmod_bo_import_def new_bo_def)
  qed
qed (use assms in \<open>simp add: pan_kmod_bo_import_def\<close>)

section \<open>Clients of the table\<close>

text \<open>
  Threads of a process that allocate, import, take and drop references to objects they hold.
  The state is the device with the objects whose count a \<open>pan_kmod_bo_put\<close> has brought to zero
  and that wait for the table's lock: any other call can come between the decrement and the
  part under the lock. Allocations and imports are one step each. For an import that is what
  the lock gives; for \<open>pan_kmod_bo_alloc\<close>, which takes no lock, it says that no two of them
  run at the same time, and \<open>bo_alloc_stale_handle\<close> shows what happens otherwise. Fewer than
  \<open>2 ^ 32 - 1\<close> objects are created over the life of the device.
\<close>

type_synonym 'k bo_clients = "'k kbase_dev \<times> bo_ref set"

inductive bo_step :: "'k kbase_kernel \<Rightarrow> 'k bo_clients \<Rightarrow> 'k bo_clients \<Rightarrow> bool" for K where
  step_alloc: "d_next_handle d \<noteq> - 1 \<Longrightarrow> pan_kmod_bo_alloc K alloc_ok slot_ok sz flags d = Some (ret, d') \<Longrightarrow> bo_step K (d, Z) (d', Z)"
| step_import: "d_next_handle d \<noteq> - 1 \<Longrightarrow> pan_kmod_bo_import K alloc_ok slot_ok fd n d = Some (ret, d') \<Longrightarrow> bo_step K (d, Z) (d', Z)"
| step_get: "d_bos d r = Some bo \<Longrightarrow> 0 < refcnt bo \<Longrightarrow> pan_kmod_bo_get r d = Some d' \<Longrightarrow> bo_step K (d, Z) (d', Z)"
| step_put_dec: "d_bos d r = Some bo \<Longrightarrow> 0 < refcnt bo \<Longrightarrow> put_dec r d = Some (zero, d') \<Longrightarrow>
    bo_step K (d, Z) (d', if zero then insert r Z else Z)"
| step_put_locked: "r \<in> Z \<Longrightarrow> put_locked K r d = Some d' \<Longrightarrow> bo_step K (d, Z) (d', Z - {r})"

definition dev_start :: "pan_kmod_dev_props \<Rightarrow> 'k \<Rightarrow> 'k kbase_dev" where
  "dev_start props k =
     the (fst (kbase_kmod_dev_create \<lparr>s_alloc_ok = True, s_version_ok = True, s_flags_ok = True, s_tracking_ok = True, s_props = Some props\<rparr> k))"

text \<open>The objects with count zero are exactly those some call is about to free.\<close>

definition bo_clients_inv :: "'k bo_clients \<Rightarrow> bool" where
  "bo_clients_inv = (\<lambda>(d, Z). bo_inv d \<and> (\<forall>r. r \<in> Z \<longleftrightarrow> (\<exists>bo. d_bos d r = Some bo \<and> refcnt bo = 0)))"

lemma dev_start_bo_inv: "bo_inv (dev_start props k)"
  by (simp add: dev_start_def kbase_kmod_dev_create_def bo_inv_def)

lemma dev_start_inv: "bo_clients_inv (dev_start props k, {})"
  by (simp add: dev_start_def kbase_kmod_dev_create_def bo_inv_def bo_clients_inv_def)

lemma bo_step_inv: "bo_step K s s' \<Longrightarrow> bo_clients_inv s \<Longrightarrow> bo_clients_inv s'"
proof (induction rule: bo_step.induct)
  case (step_alloc d alloc_ok slot_ok sz flags ret d' Z)
  then show ?case using pan_kmod_bo_alloc_inv [of d K alloc_ok slot_ok sz flags]
    by (cases ret) (auto simp: bo_clients_inv_def split: if_splits)
next
  case (step_import d alloc_ok slot_ok fd n ret d' Z)
  then show ?case using pan_kmod_bo_import_inv [of d K alloc_ok slot_ok fd n]
    by (cases ret) (auto simp: bo_clients_inv_def split: if_splits)
next
  case (step_get d r bo d' Z)
  then show ?case using pan_kmod_bo_get_inv [of d r bo] by (auto simp: bo_clients_inv_def split: if_splits)
next
  case (step_put_dec d r bo zero d' Z)
  then show ?case using put_dec_inv [of d r bo zero d'] by (auto simp: bo_clients_inv_def split: if_splits)
next
  case (step_put_locked r Z d d')
  then obtain bo where "bo_inv d" "d_bos d r = Some bo" "refcnt bo = 0" by (auto simp: bo_clients_inv_def)
  from put_locked_inv [OF this, of K] show ?case using step_put_locked by (auto simp: bo_clients_inv_def)
qed

interpretation bo_client: invariant_machine "(dev_start props k, {})" "bo_step K" bo_clients_inv
  by unfold_locales (auto intro: dev_start_inv bo_step_inv)

text \<open>
  Property C16.  On a kbase device the handle table stays the exact inverse of the live objects' handles,
  whatever the kernel answers and however the calls of several threads interleave, as long as
  no two \<open>pan_kmod_bo_alloc\<close> calls overlap each other or an import (the function takes no
  lock) and fewer than \<open>2 ^ 32 - 1\<close> objects are ever created: two live objects never share a
  handle; an object whose count is zero is one that some \<open>pan_kmod_bo_put\<close> is about to free;
  no allocation trips the assertion that its slot is empty; taking a reference works unless
  the 32-bit count is at its largest value, where the assertion fails; dropping one never
  fails and reports zero exactly when it was the last; and the part under the lock then frees
  the object and clears its slot.
\<close>

theorem kbase_bo_table_safe:
  assumes "reach (dev_start props k, {}) (bo_step K) (d, Z)" and "d_next_handle d \<noteq> - 1"
  shows "(\<forall>h r. d_slots d h = Some r \<longleftrightarrow> (\<exists>bo. d_bos d r = Some bo \<and> bo_handle bo = h)) \<and>
    (\<forall>r bo. d_bos d r = Some bo \<longrightarrow> 0 \<le> refcnt bo \<and> refcnt bo < 2 ^ 31 \<and> (refcnt bo = 0 \<longleftrightarrow> r \<in> Z)) \<and>
    pan_kmod_bo_alloc K alloc_ok slot_ok sz flags d \<noteq> None \<and>
    (\<forall>r bo. d_bos d r = Some bo \<and> 0 < refcnt bo \<longrightarrow>
       (pan_kmod_bo_get r d = None \<longleftrightarrow> refcnt bo = 2 ^ 31 - 1) \<and>
       (\<exists>d'. put_dec r d = Some (refcnt bo = 1, d') \<and> d_slots d' = d_slots d \<and>
          d_bos d' = (d_bos d)(r \<mapsto> bo\<lparr>refcnt := refcnt bo - 1\<rparr>)) \<and>
       (\<exists>d'. pan_kmod_bo_put K (Some r) d = Some d' \<and> (d_bos d' r = None \<longleftrightarrow> refcnt bo = 1))) \<and>
    (\<forall>r \<in> Z. \<exists>d' bo. d_bos d r = Some bo \<and> put_locked K r d = Some d' \<and>
       d_bos d' = (d_bos d)(r := None) \<and> d_slots d' = (d_slots d)(bo_handle bo := None))"
proof -
  have inv: "bo_inv d" and Z: "r \<in> Z \<longleftrightarrow> (\<exists>bo. d_bos d r = Some bo \<and> refcnt bo = 0)" for r
    using bo_client.reach_inv [OF assms(1)] by (auto simp: bo_clients_inv_def)
  have "\<exists>d'. pan_kmod_bo_put K (Some r) d = Some d' \<and> (d_bos d' r = None \<longleftrightarrow> refcnt bo = 1)" if "d_bos d r = Some bo" "0 < refcnt bo" for r bo
    using pan_kmod_bo_put_inv [OF inv that, of K] by (cases "refcnt bo = 1") auto
  moreover have "pan_kmod_bo_get r d = None \<longleftrightarrow> refcnt bo = 2 ^ 31 - 1" if "d_bos d r = Some bo" "0 < refcnt bo" for r bo
    using pan_kmod_bo_get_inv [OF inv that] by (auto split: if_splits)
  moreover have "\<exists>d'. put_dec r d = Some (refcnt bo = 1, d') \<and> d_slots d' = d_slots d \<and>
      d_bos d' = (d_bos d)(r \<mapsto> bo\<lparr>refcnt := refcnt bo - 1\<rparr>)" if "d_bos d r = Some bo" "0 < refcnt bo" for r bo
    using put_dec_some [OF inv that] by auto
  moreover have "\<exists>d' bo. d_bos d r = Some bo \<and> put_locked K r d = Some d' \<and>
      d_bos d' = (d_bos d)(r := None) \<and> d_slots d' = (d_slots d)(bo_handle bo := None)" if "r \<in> Z" for r
    using that [unfolded Z] put_locked_inv [OF inv, of r _ K] by blast
  moreover have "pan_kmod_bo_alloc K alloc_ok slot_ok sz flags d \<noteq> None"
    using pan_kmod_bo_alloc_inv [OF inv assms(2), of K alloc_ok slot_ok sz flags] by auto
  moreover have "0 \<le> refcnt bo \<and> refcnt bo < 2 ^ 31 \<and> (refcnt bo = 0 \<longleftrightarrow> r \<in> Z)" if "d_bos d r = Some bo" for r bo
    using bo_invD(2) [OF inv that] that unfolding Z by auto
  ultimately show ?thesis using bo_invD(1) [OF inv] by blast
qed

text \<open>
  A kernel that answers every request: allocations and imports return the cookie \<open>0x41000\<close>,
  the state counts the mappings and is the next address to hand out.
\<close>

definition kernel_example :: "u64 kbase_kernel" where
  "kernel_example = \<lparr>k_mem_alloc = \<lambda>k req. (Some 0x41000, k), k_mem_free = \<lambda>k va. (True, k),
     k_mem_import = \<lambda>k fd. (Some (0x500f, 0x41000, 1), k),
     k_mmap = \<lambda>k len off. (Some k, k + len), k_munmap = \<lambda>k a len. (True, k - len)\<rparr>"

lemma kbase_kmod_bo_alloc_Some:
  assumes "kbase_kmod_bo_alloc K alloc_ok sz flags d = (Some r, d1)" and "pages = DIV_ROUND_UP sz 4096"
  shows "\<exists>va k bo. k_mem_alloc K (d_kernel d) (mem_alloc_req pages flags) = (Some va, k) \<and> new_bo d r bo d1 \<and> bo_size bo = pages * 4096 \<and>
    (if flags AND PAN_KMOD_BO_FLAG_EXECUTABLE \<noteq> 0 then exec bo \<and> gpu_va bo = va \<and> d_kernel d1 = k
     else \<exists>a k'. k_mmap K k (pages * 4096) va = (Some a, k') \<and> \<not> exec bo \<and> anchor bo = Some a \<and> d_kernel d1 = k')"
proof -
  obtain va k where m: "k_mem_alloc K (d_kernel d) (mem_alloc_req pages flags) = (Some va, k)"
    using assms by (auto simp: kbase_kmod_bo_alloc_def Let_def split: if_splits prod.splits option.splits)
  show ?thesis
  proof (cases "flags AND PAN_KMOD_BO_FLAG_EXECUTABLE \<noteq> 0")
    case True
    then have "pan_kmod_bo_init (pages * 4096) flags va None True (d\<lparr>d_kernel := k\<rparr>) = (r, d1)"
      using assms m by (auto simp: kbase_kmod_bo_alloc_def Let_def map_prod_def split: if_splits prod.splits)
    from pan_kmod_bo_init_new [OF this] show ?thesis using m True by auto
  next
    case False
    then obtain a k' where mm: "k_mmap K k (pages * 4096) va = (Some a, k')"
      using assms m by (auto simp: kbase_kmod_bo_alloc_def Let_def split: if_splits prod.splits option.splits)
    then have "pan_kmod_bo_init (pages * 4096) flags a (Some a) False (d\<lparr>d_kernel := k'\<rparr>) = (r, d1)"
      using assms m False by (auto simp: kbase_kmod_bo_alloc_def Let_def map_prod_def split: if_splits prod.splits)
    from pan_kmod_bo_init_new [OF this] show ?thesis using m mm False by auto
  qed
qed

lemma DIV_ROUND_UP_pages:
  assumes "unat sz < 2 ^ 64 - 4096"
  shows "unat sz \<le> unat (DIV_ROUND_UP sz 4096) * 4096" "unat (DIV_ROUND_UP sz 4096) * 4096 < unat sz + 4096"
proof -
  have "unat (sz + 4095) = unat sz + 4095" using assms by (intro trans [OF unat_add_u64]) simp_all
  moreover have "sz + 4096 - 1 = sz + 4095" "unat (4096 :: u64) = 4096" by simp_all
  ultimately have u: "unat (DIV_ROUND_UP sz 4096) = (unat sz + 4095) div 4096" by (simp only: DIV_ROUND_UP_def unat_div)
  show "unat sz \<le> unat (DIV_ROUND_UP sz 4096) * 4096" "unat (DIV_ROUND_UP sz 4096) * 4096 < unat sz + 4096"
    unfolding u by linarith+
qed

lemma pan_kmod_bo_put_last:
  assumes "d_bos d r = Some bo" and "refcnt bo = 1"
  shows "pan_kmod_bo_put K (Some r) d = Some (d\<lparr>
    d_kernel := (if exec bo then snd (k_mem_free K (d_kernel d) (gpu_va bo))
                 else case anchor bo of None \<Rightarrow> d_kernel d | Some a \<Rightarrow> snd (k_munmap K (d_kernel d) a (bo_size bo))),
    d_slots := (d_slots d)(bo_handle bo := None), d_bos := (d_bos d)(r := None)\<rparr>)"
  using assms
  by (cases "anchor bo") (simp_all add: pan_kmod_bo_put_def put_dec_def put_locked_def kbase_kmod_bo_free_def Let_def)

text \<open>
  What an allocation takes from the kernel, dropping its last reference gives
  back: for an ordinary object the mapping that fixed its address is unmapped with exactly the
  length it was mapped with, for an executable one the address the kernel chose is freed; and
  the object is as large as asked for, rounded up to whole pages.
\<close>

theorem kbase_bo_alloc_put_balanced:
  assumes "bo_inv d" and "d_next_handle d \<noteq> - 1" and "unat sz < 2 ^ 64 - 4096"
    and "pan_kmod_bo_alloc K True True sz flags d = Some (Some r, d1)"
    and "pan_kmod_bo_put K (Some r) d1 = Some d2"
  shows "\<exists>pages va k. k_mem_alloc K (d_kernel d) (mem_alloc_req pages flags) = (Some va, k) \<and>
    unat sz \<le> unat pages * 4096 \<and> unat pages * 4096 < unat sz + 4096 \<and>
    (if flags AND PAN_KMOD_BO_FLAG_EXECUTABLE \<noteq> 0 then d_kernel d2 = snd (k_mem_free K k va)
     else \<exists>a k'. k_mmap K k (pages * 4096) va = (Some a, k') \<and> d_kernel d2 = snd (k_munmap K k' a (pages * 4096))) \<and>
    d_bos d2 = d_bos d \<and> d_slots d2 = d_slots d"
proof -
  let ?pages = "DIV_ROUND_UP sz 4096"
  obtain ret d0 where a: "kbase_kmod_bo_alloc K True sz flags d = (ret, d0)" by fastforce
  then have ret: "ret = Some r" using assms(4)
    by (cases ret) (auto simp: pan_kmod_bo_alloc_def c_assert_def Option.bind_eq_Some_conv split: if_splits)
  from kbase_kmod_bo_alloc_Some [OF a [unfolded ret] refl] obtain va k bo where
    m: "k_mem_alloc K (d_kernel d) (mem_alloc_req ?pages flags) = (Some va, k)" and n: "new_bo d r bo d0" and sz: "bo_size bo = ?pages * 4096"
    and x: "if flags AND PAN_KMOD_BO_FLAG_EXECUTABLE \<noteq> 0 then exec bo \<and> gpu_va bo = va \<and> d_kernel d0 = k
     else \<exists>a k'. k_mmap K k (?pages * 4096) va = (Some a, k') \<and> \<not> exec bo \<and> anchor bo = Some a \<and> d_kernel d0 = k'" by blast
  note slot = new_bo_slot [OF assms(1) n]
  have d1: "d1 = d0\<lparr>d_slots := (d_slots d0)(bo_handle bo \<mapsto> r)\<rparr>"
    using assms(4) a ret slot by (simp add: pan_kmod_bo_alloc_def)
  have none: "d_bos d r = None" using bo_invD(2) [OF assms(1), of r] n by (cases "d_bos d r") (auto simp: new_bo_def)
  have "d_bos d1 r = Some bo" "refcnt bo = 1" using n slot(1) d1 by (simp_all add: new_bo_def)
  from pan_kmod_bo_put_last [OF this, of K] have d2: "d_kernel d2 = (if exec bo then snd (k_mem_free K (d_kernel d1) (gpu_va bo))
      else case anchor bo of None \<Rightarrow> d_kernel d1 | Some a \<Rightarrow> snd (k_munmap K (d_kernel d1) a (bo_size bo)))"
    "d_slots d2 = (d_slots d1)(bo_handle bo := None)" "d_bos d2 = (d_bos d1)(r := None)" using assms(5) by simp_all
  have "d_bos d2 = d_bos d" "d_slots d2 = d_slots d" using d2(2,3) d1 n none slot(2) by (auto simp: new_bo_def fun_upd_idem)
  moreover have "d_kernel d1 = d_kernel d0" using d1 by simp
  ultimately show ?thesis using m x d2(1) sz DIV_ROUND_UP_pages [OF assms(3)]
    by (intro exI [of _ ?pages] exI [of _ va] exI [of _ k]) (auto split: if_splits)
qed

text \<open>A device with one object (reference 0, handle 1), as an allocation of 5000 cached bytes leaves it.\<close>

definition bo_example :: kbase_bo where
  "bo_example = \<lparr>refcnt = 1, bo_size = 8192, bo_handle = 1, bo_flags = 64, has_pending_deferred_syncs = False,
     gpu_va = 0x100000000, anchor = Some 0x100000000, exec = False\<rparr>"

definition dev_example :: "u64 kbase_dev" where
  "dev_example = (dev_start zero_props 0x100002000)\<lparr>d_next_handle := 2, d_slots := [1 \<mapsto> 0], d_bos := [0 \<mapsto> bo_example], d_next_bo := 1\<rparr>"

lemma dev_example_alloc:
  "pan_kmod_bo_alloc kernel_example True True 5000 64 (dev_start zero_props 0x100000000) = Some (Some 0, dev_example)"
  by (simp add: pan_kmod_bo_alloc_def kbase_kmod_bo_alloc_def dev_start_def kbase_kmod_dev_create_def kernel_example_def
      PAN_KMOD_BO_FLAG_GPU_UNCACHED_def PAN_KMOD_BO_FLAG_EXECUTABLE_def Let_def pan_kmod_bo_init_def DIV_ROUND_UP_def zero_props_def
      dev_example_def bo_example_def)

theorem kbase_bo_table_safe_witness:
  "\<exists>d1 d2. put_dec 0 dev_example = Some (True, d1) \<and> put_locked kernel_example 0 d1 = Some d2 \<and>
     pan_kmod_bo_alloc kernel_example True True 5000 64 d1 \<noteq> None \<and> d_bos d2 = Map.empty \<and> d_slots d2 = Map.empty"
proof -
  let ?d1 = "dev_example\<lparr>d_bos := [0 \<mapsto> bo_example\<lparr>refcnt := 0\<rparr>]\<rparr>"
  let ?s0 = "(dev_start zero_props (0x100000000 :: u64), {} :: bo_ref set)"
  have "d_next_handle (fst ?s0) \<noteq> - 1" by (simp add: dev_start_def kbase_kmod_dev_create_def)
  then have "bo_step kernel_example ?s0 (dev_example, {})" using step_alloc [OF _ dev_example_alloc] by simp
  with reach_init have 1: "reach ?s0 (bo_step kernel_example) (dev_example, {})" by (rule reach_step)
  have b: "d_bos dev_example 0 = Some bo_example" "0 < refcnt bo_example" by (simp_all add: dev_example_def bo_example_def)
  have p: "put_dec 0 dev_example = Some (True, ?d1)" by (simp add: put_dec_def dev_example_def bo_example_def)
  from step_put_dec [OF b p] have "bo_step kernel_example (dev_example, {}) (?d1, {0})" by simp
  with 1 have "reach ?s0 (bo_step kernel_example) (?d1, {0})" by (rule reach_step)
  moreover have "d_next_handle ?d1 \<noteq> - 1" by (simp add: dev_example_def)
  ultimately show ?thesis
    using kbase_bo_table_safe [of zero_props "0x100000000" kernel_example ?d1 "{0}" True True 5000 64] p
    by (auto simp: dev_example_def bo_example_def)
qed

text \<open>
  Why the allocations must not overlap: one that still reads the handle counter as it was
  before another allocation on the device completed, and gets its memory from the kernel,
  finds the slot taken and fails the assertion (without assertions it overwrites the slot, and
  the table no longer knows the first object).
\<close>

lemma bo_alloc_stale_handle:
  assumes "bo_inv d" and "pan_kmod_bo_alloc K alloc_ok True sz flags d = Some (Some r, d1)"
    and "kbase_kmod_bo_alloc K alloc_ok' sz' flags' (d1\<lparr>d_next_handle := d_next_handle d\<rparr>) = (Some r', d2)"
  shows "pan_kmod_bo_alloc K alloc_ok' True sz' flags' (d1\<lparr>d_next_handle := d_next_handle d\<rparr>) = None"
proof -
  obtain ret d0 where a: "kbase_kmod_bo_alloc K alloc_ok sz flags d = (ret, d0)" by fastforce
  with assms(2) have ret: "ret = Some r"
    by (cases ret) (auto simp: pan_kmod_bo_alloc_def c_assert_def Option.bind_eq_Some_conv split: if_splits)
  from kbase_kmod_bo_alloc_cases [OF a] ret obtain bo where n: "new_bo d r bo d0" by blast
  have d1: "d_slots d1 (d_next_handle d) = Some r"
    using assms(2) a ret new_bo_slot [OF assms(1) n] n by (auto simp: pan_kmod_bo_alloc_def new_bo_def)
  from kbase_kmod_bo_alloc_cases [OF assms(3)] obtain bo' where "new_bo (d1\<lparr>d_next_handle := d_next_handle d\<rparr>) r' bo' d2" by auto
  then show ?thesis using assms(3) d1 by (simp add: pan_kmod_bo_alloc_def new_bo_def)
qed

theorem kbase_bo_alloc_put_balanced_witness:
  "\<exists>d2. pan_kmod_bo_put kernel_example (Some 0) dev_example = Some d2 \<and> d_bos d2 = (\<lambda>_. None)"
proof -
  have b: "d_bos dev_example 0 = Some bo_example" "refcnt bo_example = 1" by (simp_all add: dev_example_def bo_example_def)
  obtain d2 where p: "pan_kmod_bo_put kernel_example (Some 0) dev_example = Some d2"
    using pan_kmod_bo_put_last [OF b, of kernel_example] by blast
  have s: "d_next_handle (dev_start zero_props (0x100000000 :: u64)) \<noteq> - 1" "d_bos (dev_start zero_props (0x100000000 :: u64)) = (\<lambda>_. None)"
    by (simp_all add: dev_start_def kbase_kmod_dev_create_def)
  have "unat (5000 :: u64) < 2 ^ 64 - 4096" by simp
  from kbase_bo_alloc_put_balanced [OF dev_start_bo_inv s(1) this dev_example_alloc p] show ?thesis using p s(2) by auto
qed

text \<open>
  The range queued for cache maintenance covers the bytes asked for, is aligned
  to cache lines at both ends, and reaches less than a line beyond them on either side.
\<close>

theorem sync_range_covers:
  assumes "unat gran = 2 ^ n" and "n < 64" and "unat off + unat len + unat gran < 2 ^ 64"
    and "sync_range gran off len = (start, sz)"
  shows "unat start \<le> unat off \<and> unat off < unat start + unat gran \<and>
    unat off + unat len \<le> unat start + unat sz \<and> unat start + unat sz < unat off + unat len + unat gran \<and>
    unat gran dvd unat start \<and> unat gran dvd unat sz"
proof -
  let ?g = "unat gran"
  have p: "unat (2 ^ n :: u64) = 2 ^ n" by (rule unat_power_u64 [OF assms(2)])
  then have g: "gran = 2 ^ n" using assms(1) by (simp add: word_unat_eq_iff)
  have pos: "0 < ?g" using assms(1) by simp
  have down: "unat (x AND NOT (gran - 1)) = unat x div ?g * ?g" for x :: u64
    unfolding g and_not_mask_align [OF assms(2)] by (rule unat_align_down)
  have sum: "unat (off + len + (gran - 1)) = unat off + unat len + (?g - 1)"
  proof -
    have "unat (gran - 1) = ?g - 1" using pos by (simp add: unat_sub_u64)
    moreover have "unat (off + len) = unat off + unat len" using assms(3) by (intro unat_add_u64) simp
    ultimately show ?thesis using assms(3) pos by (subst unat_add_u64) simp_all
  qed
  have s: "unat start = unat off div ?g * ?g" using assms(4) down [of off] by (auto simp: sync_range_def Let_def)
  have e: "unat (ALIGN_POT (off + len) gran) = (unat off + unat len + (?g - 1)) div ?g * ?g"
    unfolding ALIGN_POT_def down sum ..
  note b = align_bounds [OF pos, of "unat off"] align_bounds [OF pos, of "unat off + unat len"]
  have "unat start \<le> unat (ALIGN_POT (off + len) gran)" using b unfolding s e by linarith
  then have z: "unat sz = unat (ALIGN_POT (off + len) gran) - unat start"
    using assms(4) by (auto simp: sync_range_def Let_def intro: unat_sub_u64)
  have "?g dvd unat sz" unfolding z s e by (intro dvd_diff_nat dvd_triv_right)
  moreover have "unat start + unat sz = (unat off + unat len + (?g - 1)) div ?g * ?g"
    unfolding z using \<open>unat start \<le> _\<close> e by simp
  ultimately show ?thesis using b unfolding s by auto
qed

theorem sync_range_covers_witness:
  "sync_range 64 100 10 = (64, 64) \<and> unat (100 :: u64) + unat (10 :: u64) \<le> unat (64 :: u64) + unat (64 :: u64)"
proof -
  have r: "sync_range 64 100 10 = (64, 64)" by (simp add: sync_range_def ALIGN_POT_def Let_def)
  from sync_range_covers [of 64 6, OF _ _ _ this] show ?thesis using r by simp
qed

text \<open>
  Releasing an object of this backend forgets its queued cache maintenance: when
  synchronisation goes through the kernel, an object whose flush is still queued is freed with
  the queue pointing to it, and the next flush accesses the freed object.
\<close>

theorem kbase_bo_free_leaves_pending_sync:
  "\<exists>d1 d2. pan_kmod_queue_bo_map_sync False 64 0 0 64 PAN_KMOD_BO_SYNC_CPU_CACHE_FLUSH dev_example = Some d1 \<and>
     pan_kmod_bo_put kernel_example (Some 0) d1 = Some d2 \<and> d_bos d2 0 = None \<and> map sync_bo (d_pending d2) = [0] \<and>
     pan_kmod_flush_bo_map_syncs d2 = None"
proof -
  let ?s = "\<lparr>sync_bo = 0, sync_start = 0, sync_size = 64, sync_type = PAN_KMOD_BO_SYNC_CPU_CACHE_FLUSH\<rparr>"
  let ?b = "bo_example\<lparr>has_pending_deferred_syncs := True\<rparr>"
  let ?d1 = "dev_example\<lparr>d_bos := (d_bos dev_example)(0 \<mapsto> ?b), d_pending := [?s]\<rparr>"
  have q: "pan_kmod_queue_bo_map_sync False 64 0 0 64 PAN_KMOD_BO_SYNC_CPU_CACHE_FLUSH dev_example = Some ?d1"
    by (simp add: pan_kmod_queue_bo_map_sync_def dev_example_def bo_example_def PAN_KMOD_BO_FLAG_WB_MMAP_def
        PAN_KMOD_BO_FLAG_IO_COHERENT_def MAX_PENDING_SYNC_OPS_def sync_range_def ALIGN_POT_def Let_def
        dev_start_def kbase_kmod_dev_create_def)
  have "d_bos ?d1 0 = Some ?b" "refcnt ?b = 1" by (simp_all add: bo_example_def)
  from pan_kmod_bo_put_last [OF this, of kernel_example] obtain d2 where
    p: "pan_kmod_bo_put kernel_example (Some 0) ?d1 = Some d2" and d2: "d_bos d2 = (d_bos ?d1)(0 := None)" "d_pending d2 = [?s]" "d_props d2 = zero_props"
    by (simp add: dev_example_def dev_start_def kbase_kmod_dev_create_def)
  have "pan_kmod_flush_bo_map_syncs d2 = None"
    using d2 by (simp add: pan_kmod_flush_bo_map_syncs_def zero_props_def pan_kmod_flush_bo_map_syncs_locked_def
        kbase_kmod_flush_bo_map_syncs_def Let_def)
  then show ?thesis using q p d2 by auto
qed

text \<open>
  The reference count does not protect an object that is imported again (by a
  kernel driver with GEM handles) while its last reference is being dropped: the first thread
  has brought the count to zero, an import revives the object, a second thread drops the new
  reference to zero too, and both then free it, the second one after it is gone.
\<close>

theorem pan_kmod_bo_put_import_race:
  assumes "d_bos d r = Some bo" and "refcnt bo = 1" and "d_slots d (bo_handle bo) = Some r"
  shows "\<exists>d1 d2 d3 d4. put_dec r d = Some (True, d1) \<and>
    import_drm (Some (bo_handle bo)) True sz create d1 = Some (Some r, d2) \<and>
    put_dec r d2 = Some (True, d3) \<and> put_locked K r d3 = Some d4 \<and> put_locked K r d4 = None"
proof -
  let ?d1 = "d\<lparr>d_bos := (d_bos d)(r \<mapsto> bo\<lparr>refcnt := 0\<rparr>)\<rparr>"
  have 1: "put_dec r d = Some (True, ?d1)" using assms by (simp add: put_dec_def)
  have 2: "import_drm (Some (bo_handle bo)) True sz create ?d1 = Some (Some r, d)"
    using assms by (simp add: import_drm_def fun_upd_idem) 
  obtain d4 where 4: "put_locked K r ?d1 = Some d4" "d_bos d4 r = None"
    by (auto simp: put_locked_def kbase_kmod_bo_free_def Let_def)
  have "put_locked K r d4 = None" using 4(2) by (simp add: put_locked_def)
  then show ?thesis using 1 2 4(1) by blast
qed

theorem pan_kmod_bo_put_import_race_witness:
  "\<exists>d1 d2 d3 d4. put_dec 0 dev_example = Some (True, d1) \<and> put_dec 0 d2 = Some (True, d3) \<and>
    put_locked kernel_example 0 d3 = Some d4 \<and> put_locked kernel_example 0 d4 = None"
proof -
  have "d_bos dev_example 0 = Some bo_example" "refcnt bo_example = 1" "d_slots dev_example (bo_handle bo_example) = Some 0"
    by (simp_all add: dev_example_def bo_example_def)
  from pan_kmod_bo_put_import_race [OF this, of 8192 "\<lambda>h sz d. (None, d)" kernel_example] show ?thesis by blast
qed

end
