(* ===== verification/Pan_Tiling.thy ===== *)
theory Pan_Tiling
  imports Mesa_Prelude
begin

text \<open>
  Software access to u-interleaved (tiled) images, \<open>panfrost/shared/pan_tiling.c\<close> and the pixel
  accessor of its header. An access routine is modelled by the sequence of pixel accesses it
  makes, pairs of a byte offset in the tiled image and one in the linear image, in the order of
  the loops; executing the sequence on the two memories gives the effect. An access outside of
  a memory is \<open>None\<close>. Products that the C code computes in 32-bit unsigned arithmetic are
  reduced with \<open>w32\<close>; the \<open>uint16_t\<close> parameters of the inner routines are reduced modulo
  \<open>2 ^ 16\<close>. The format table is generated code: a format is its block size, a parameter.
\<close>

section \<open>Tables\<close>

definition w32 :: "nat \<Rightarrow> nat" where "w32 n = n mod 4294967296"

definition bit_duplication :: "nat list" where
  "bit_duplication = [0x00, 0x03, 0x0c, 0x0f, 0x30, 0x33, 0x3c, 0x3f, 0xc0, 0xc3, 0xcc, 0xcf, 0xf0, 0xf3, 0xfc, 0xff]"

definition space_4 :: "nat list" where
  "space_4 = [0x00, 0x01, 0x04, 0x05, 0x10, 0x11, 0x14, 0x15, 0x40, 0x41, 0x44, 0x45, 0x50, 0x51, 0x54, 0x55]"

datatype pan_interleave_zs = PAN_INTERLEAVE_NONE | PAN_INTERLEAVE_DEPTH | PAN_INTERLEAVE_STENCIL

record util_format =
  block_width :: nat
  block_height :: nat
  block_bits :: nat
  is_z24s8 :: bool

text \<open>\<open>None\<close>: the unreachable case of no aspect.\<close>

definition pan_get_interleave_zs :: "util_format \<Rightarrow> bool \<Rightarrow> bool \<Rightarrow> pan_interleave_zs option" where
  "pan_get_interleave_zs format depth stencil =
     (if is_z24s8 format
      then if depth \<and> stencil then Some PAN_INTERLEAVE_NONE
           else if depth then Some PAN_INTERLEAVE_DEPTH
           else if stencil then Some PAN_INTERLEAVE_STENCIL
           else None
      else Some PAN_INTERLEAVE_NONE)"

section \<open>One pixel\<close>

text \<open>\<open>memcpy\<close> of \<open>n\<close> bytes from offset \<open>s\<close> of one memory to offset \<open>d\<close> of another.\<close>

definition blit :: "u8 list \<Rightarrow> nat \<Rightarrow> u8 list \<Rightarrow> nat \<Rightarrow> nat \<Rightarrow> u8 list option" where
  "blit src s dst d n =
     (if s + n \<le> length src \<and> d + n \<le> length dst
      then Some (take d dst @ take n (drop s src) @ drop (d + n) dst) else None)"

text \<open>\<open>pan_access_image_pixel\<close> on the tiled memory \<open>t\<close> at \<open>d\<close> and the linear memory \<open>l\<close> at \<open>s\<close>.\<close>

definition pan_access_image_pixel ::
  "nat \<Rightarrow> pan_interleave_zs \<Rightarrow> bool \<Rightarrow> nat \<times> nat \<Rightarrow> u8 list \<times> u8 list \<Rightarrow> (u8 list \<times> u8 list) option" where
  "pan_access_image_pixel pixel_size interleave is_store a m =
     (case (a, m) of ((d, s), (t, l)) \<Rightarrow>
       (case interleave of
          PAN_INTERLEAVE_NONE \<Rightarrow>
            if is_store then map_option (\<lambda>t'. (t', l)) (blit l s t d pixel_size)
            else map_option (Pair t) (blit t d l s pixel_size)
        | PAN_INTERLEAVE_DEPTH \<Rightarrow> do {
            c_assert (pixel_size = 4);
            if is_store then do {
              c_assert (s + 4 \<le> length l);
              map_option (\<lambda>t'. (t', l)) (blit l s t d 3)
            } else do {
              c_assert (d + 4 \<le> length t);
              map_option (Pair t) (blit (take 3 (drop d t) @ [0]) 0 l s 4)
            }
          }
        | PAN_INTERLEAVE_STENCIL \<Rightarrow> do {
            c_assert (pixel_size = 4);
            if is_store then map_option (\<lambda>t'. (t', l)) (blit l s t (d + 3) 1)
            else map_option (Pair t) (blit t (d + 3) l s 1)
          }))"

fun run_accesses ::
  "nat \<Rightarrow> pan_interleave_zs \<Rightarrow> bool \<Rightarrow> (nat \<times> nat) list \<Rightarrow> u8 list \<times> u8 list \<Rightarrow> (u8 list \<times> u8 list) option" where
  "run_accesses ps il st [] m = Some m"
| "run_accesses ps il st (a # as) m =
     (case pan_access_image_pixel ps il st a m of None \<Rightarrow> None | Some m' \<Rightarrow> run_accesses ps il st as m')"

section \<open>The loops\<close>

definition pan_access_tiled_image_aligned ::
  "nat \<Rightarrow> nat \<Rightarrow> nat \<Rightarrow> nat \<Rightarrow> nat \<Rightarrow> nat \<Rightarrow> nat \<Rightarrow> nat \<Rightarrow> nat \<Rightarrow> (nat \<times> nat) list" where
  "pan_access_tiled_image_aligned dst_pixel_size src_pixel_size shift sx sy w h dst_stride src_stride =
     (let dest_start = w32 ((sx div 16) * 256 * dst_pixel_size)
      in concat (map (\<lambda>src_y.
           let y = sy + src_y;
               dest = dest_start + w32 ((y div 16) * dst_stride);
               source = w32 (src_y * src_stride);
               expanded_y = push_bit shift (bit_duplication ! (y mod 16))
           in concat (map (\<lambda>tile. map (\<lambda>i.
                (dest + tile * push_bit shift 256 + (expanded_y XOR push_bit shift (space_4 ! i)),
                 source + (tile * 16 + i) * src_pixel_size)) [0..<16]) [0..<(w + 15) div 16])) [0..<h]))"

definition pan_access_tiled_image_unaligned ::
  "nat \<Rightarrow> nat \<Rightarrow> nat \<Rightarrow> nat \<Rightarrow> nat \<Rightarrow> nat \<Rightarrow> nat \<Rightarrow> nat \<Rightarrow> nat \<Rightarrow> (nat \<times> nat) list" where
  "pan_access_tiled_image_unaligned dst_pixel_size src_pixel_size tile_shift sx sy w h dst_stride src_stride =
     concat (map (\<lambda>src_y.
       let y = sy + src_y;
           block_start_s = w32 ((y div 2 ^ tile_shift) * dst_stride);
           source_start = w32 (src_y * src_stride);
           expanded_y = bit_duplication ! (y mod 2 ^ tile_shift)
       in map (\<lambda>src_x.
            let x = sx + src_x;
                block_x_s = (x div 2 ^ tile_shift) * 2 ^ (tile_shift * 2);
                index = expanded_y XOR space_4 ! (x mod 2 ^ tile_shift)
            in (block_start_s + w32 (dst_pixel_size * (block_x_s + index)),
                source_start + w32 (src_pixel_size * src_x))) [0..<w]) [0..<h])"

text \<open>
  The variants: pixel sizes in bytes of the tiled and the linear image and the interleaving the
  pixel accessor gets. A pixel size outside the table accesses nothing.
\<close>

definition unaligned_variant :: "nat \<Rightarrow> pan_interleave_zs \<Rightarrow> (nat \<times> nat \<times> pan_interleave_zs) option" where
  "unaligned_variant bpp interleave =
     (if bpp \<in> {8, 16, 24} then Some (bpp div 8, bpp div 8, PAN_INTERLEAVE_NONE)
      else if bpp = 32
      then Some (case interleave of
                   PAN_INTERLEAVE_NONE \<Rightarrow> (4, 4, PAN_INTERLEAVE_NONE)
                 | PAN_INTERLEAVE_DEPTH \<Rightarrow> (4, 4, PAN_INTERLEAVE_DEPTH)
                 | PAN_INTERLEAVE_STENCIL \<Rightarrow> (4, 1, PAN_INTERLEAVE_STENCIL))
      else if bpp \<in> {48, 64, 96, 128} then Some (bpp div 8, bpp div 8, PAN_INTERLEAVE_NONE)
      else None)"

definition aligned_variant :: "nat \<Rightarrow> pan_interleave_zs \<Rightarrow> (nat \<times> nat \<times> nat \<times> pan_interleave_zs) option" where
  "aligned_variant bpp interleave =
     (if bpp = 8 then Some (1, 1, 0, PAN_INTERLEAVE_NONE)
      else if bpp = 16 then Some (2, 2, 1, PAN_INTERLEAVE_NONE)
      else if bpp = 32
      then Some (case interleave of
                   PAN_INTERLEAVE_NONE \<Rightarrow> (4, 4, 2, PAN_INTERLEAVE_NONE)
                 | PAN_INTERLEAVE_DEPTH \<Rightarrow> (4, 4, 2, PAN_INTERLEAVE_DEPTH)
                 | PAN_INTERLEAVE_STENCIL \<Rightarrow> (4, 1, 2, PAN_INTERLEAVE_STENCIL))
      else if bpp = 64 then Some (8, 8, 3, PAN_INTERLEAVE_NONE)
      else if bpp = 128 then Some (16, 16, 4, PAN_INTERLEAVE_NONE)
      else None)"

definition u16 :: "nat \<Rightarrow> nat" where "u16 n = n mod 65536"

definition div_round_up :: "nat \<Rightarrow> nat \<Rightarrow> nat" where
  "div_round_up a b = (a + b - 1) div b"

text \<open>\<open>base\<close> is the offset of the pointer \<open>src\<close> in the linear image.\<close>

definition pan_access_tiled_image_generic ::
  "util_format \<Rightarrow> pan_interleave_zs \<Rightarrow> nat \<Rightarrow> nat \<Rightarrow> nat \<Rightarrow> nat \<Rightarrow> nat \<Rightarrow> nat \<Rightarrow> nat \<Rightarrow> (nat \<times> nat) list" where
  "pan_access_tiled_image_generic desc interleave base sx sy w h dst_stride src_stride =
     (let sx' = sx div block_width desc; sy' = sy div block_height desc;
          w' = div_round_up w (block_width desc); h' = div_round_up h (block_height desc)
      in case unaligned_variant (block_bits desc) interleave of
           None \<Rightarrow> []
         | Some (dps, sps, il) \<Rightarrow>
             map (\<lambda>(d, s). (d, base + s))
               (pan_access_tiled_image_unaligned dps sps (if 1 < block_width desc then 2 else 4)
                  (u16 sx') (u16 sy') (u16 w') (u16 h') dst_stride src_stride))"

definition is_pot :: "nat \<Rightarrow> bool" where
  "is_pot n \<longleftrightarrow> n \<noteq> 0 \<and> n AND (n - 1) = 0"

definition pan_access_tiled_image_generic_aligned ::
  "util_format \<Rightarrow> pan_interleave_zs \<Rightarrow> nat \<Rightarrow> nat \<Rightarrow> nat \<Rightarrow> nat \<Rightarrow> nat \<Rightarrow> nat \<Rightarrow> nat \<Rightarrow> (nat \<times> nat) list option" where
  "pan_access_tiled_image_generic_aligned desc interleave base sx sy w h dst_stride src_stride = do {
     c_assert (sx mod 16 = 0 \<and> sy mod 16 = 0 \<and> w mod 16 = 0 \<and> h mod 16 = 0 \<and> is_pot (block_bits desc));
     Some (case aligned_variant (block_bits desc) interleave of
             None \<Rightarrow> []
           | Some (dps, sps, shift, il) \<Rightarrow>
               map (\<lambda>(d, s). (d, base + s))
                 (pan_access_tiled_image_aligned dps sps shift (u16 sx) (u16 sy) (u16 w) (u16 h) dst_stride src_stride))
   }"

section \<open>A whole region\<close>

text \<open>
  The accesses of \<open>pan_access_tiled_image\<close>: the portions above, below, left and right of the
  full tiles, each with its early return, then the full tiles. \<open>src_off x y\<close> is the macro
  \<open>OFFSET\<close>.
\<close>

definition pan_access_tiled_image ::
  "util_format \<Rightarrow> pan_interleave_zs \<Rightarrow> nat \<Rightarrow> nat \<Rightarrow> nat \<Rightarrow> nat \<Rightarrow> nat \<Rightarrow> nat \<Rightarrow> (nat \<times> nat) list option" where
  "pan_access_tiled_image desc interleave x y w h dst_stride src_stride = do {
     c_assert (interleave \<noteq> PAN_INTERLEAVE_NONE \<longrightarrow> is_z24s8 desc);
     let bpp = block_bits desc;
     c_assert (dst_stride mod (bpp div 8) = 0);
     c_assert (src_stride mod (bpp div 8) = 0);
     let generic = pan_access_tiled_image_generic desc interleave;
     let src_off = (\<lambda>x' y'. w32 ((y' - y) * src_stride) + w32 ((x' - x) * (bpp div 8)));
     if 1 < block_width desc \<or> \<not> is_pot bpp then Some (generic 0 x y w h dst_stride src_stride)
     else do {
       let first_x = div_round_up x 16 * 16;
       let first_y = div_round_up y 16 * 16;
       let last_x = (x + w) div 16 * 16;
       let last_y = (y + h) div 16 * 16;
       let dist_t = (if first_y \<noteq> y then min (first_y - y) h else 0);
       let top_part = (if first_y \<noteq> y then generic (src_off x y) x y w dist_t dst_stride src_stride else []);
       if first_y \<noteq> y \<and> dist_t = h then Some top_part
       else do {
         let y1 = y + dist_t;
         let h1 = h - dist_t;
         let dist_b = (if last_y \<noteq> y1 + h1 then y1 + h1 - last_y else 0);
         let bottom = (if last_y \<noteq> y1 + h1 then generic (src_off x last_y) x last_y w dist_b dst_stride src_stride else []);
         let h2 = h1 - dist_b;
         let dist_l = (if first_x \<noteq> x then min (first_x - x) w else 0);
         let left = (if first_x \<noteq> x then generic (src_off x y1) x y1 dist_l h2 dst_stride src_stride else []);
         if first_x \<noteq> x \<and> dist_l = w then Some (top_part @ bottom @ left)
         else do {
           let x1 = x + dist_l;
           let w1 = w - dist_l;
           let dist_r = (if last_x \<noteq> x1 + w1 then x1 + w1 - last_x else 0);
           let right = (if last_x \<noteq> x1 + w1 then generic (src_off last_x y1) last_x y1 dist_r h2 dst_stride src_stride else []);
           let w2 = w1 - dist_r;
           middle \<leftarrow> pan_access_tiled_image_generic_aligned desc interleave (src_off x1 y1) x1 y1 w2 h2 dst_stride src_stride;
           Some (top_part @ bottom @ left @ right @ middle)
         }
       }
     }
   }"

definition pixel_bytes :: "util_format \<Rightarrow> nat" where
  "pixel_bytes desc = block_bits desc div 8"

definition pan_store_tiled_image ::
  "util_format \<Rightarrow> pan_interleave_zs \<Rightarrow> nat \<Rightarrow> nat \<Rightarrow> nat \<Rightarrow> nat \<Rightarrow> nat \<Rightarrow> nat \<Rightarrow> u8 list \<Rightarrow> u8 list \<Rightarrow> u8 list option" where
  "pan_store_tiled_image desc interleave x y w h dst_stride src_stride dst src = do {
     as \<leftarrow> pan_access_tiled_image desc interleave x y w h dst_stride src_stride;
     map_option fst (run_accesses (pixel_bytes desc) interleave True as (dst, src))
   }"

definition pan_load_tiled_image ::
  "util_format \<Rightarrow> pan_interleave_zs \<Rightarrow> nat \<Rightarrow> nat \<Rightarrow> nat \<Rightarrow> nat \<Rightarrow> nat \<Rightarrow> nat \<Rightarrow> u8 list \<Rightarrow> u8 list \<Rightarrow> u8 list option" where
  "pan_load_tiled_image desc interleave x y w h dst_stride src_stride dst src = do {
     as \<leftarrow> pan_access_tiled_image desc interleave x y w h src_stride dst_stride;
     map_option snd (run_accesses (pixel_bytes desc) interleave False as (src, dst))
   }"

section \<open>Copies between tiled images\<close>

text \<open>\<open>(unsigned) sqrtf(n)\<close>, exact for the sizes that occur (at most 65536).\<close>

fun isqrt_from :: "nat \<Rightarrow> nat \<Rightarrow> nat \<Rightarrow> nat" where
  "isqrt_from 0 r n = r"
| "isqrt_from (Suc fuel) r n = (if Suc r * Suc r \<le> n then isqrt_from fuel (Suc r) n else r)"

definition isqrt :: "nat \<Rightarrow> nat" where
  "isqrt n = isqrt_from 256 0 n"

fun copy_tile_rows :: "nat \<Rightarrow> (nat \<Rightarrow> nat) \<Rightarrow> (nat \<Rightarrow> nat) \<Rightarrow> nat \<Rightarrow> nat \<Rightarrow> u8 list \<Rightarrow> u8 list \<Rightarrow> u8 list option" where
  "copy_tile_rows 0 d s n y_t dst src = Some dst"
| "copy_tile_rows (Suc k) d s n y_t dst src =
     (case blit src (s y_t) dst (d y_t) n of
        None \<Rightarrow> None
      | Some dst' \<Rightarrow> copy_tile_rows k d s n (Suc y_t) dst' src)"

definition copy_chunk ::
  "util_format \<Rightarrow> nat \<Rightarrow> nat \<Rightarrow> nat \<Rightarrow> nat \<Rightarrow> nat \<Rightarrow> nat \<Rightarrow> nat \<Rightarrow> nat \<Rightarrow> nat \<Rightarrow> nat \<Rightarrow> nat \<Rightarrow> u8 list \<Rightarrow>
   nat \<times> nat \<Rightarrow> u8 list \<times> u8 list \<Rightarrow> (u8 list \<times> u8 list) option" where
  "copy_chunk desc dst_x dst_y src_x src_y w h dst_stride src_stride cw ch row_stride src xy m =
     (case (xy, m) of ((x, y), (dst, chunk)) \<Rightarrow>
       let scx = max src_x x; scy = max src_y y;
           dcx = dst_x + (scx - src_x); dcy = dst_y + (scy - src_y);
           width = min (scx + cw) (src_x + w) - scx;
           height = min (scy + ch) (src_y + h) - scy
       in do {
         chunk' \<leftarrow> pan_load_tiled_image desc PAN_INTERLEAVE_NONE scx scy width height row_stride src_stride chunk src;
         dst' \<leftarrow> pan_store_tiled_image desc PAN_INTERLEAVE_NONE dcx dcy width height dst_stride row_stride dst chunk';
         Some (dst', chunk')
       })"

fun copy_chunks :: "(nat \<times> nat \<Rightarrow> u8 list \<times> u8 list \<Rightarrow> (u8 list \<times> u8 list) option) \<Rightarrow> (nat \<times> nat) list \<Rightarrow>
  u8 list \<times> u8 list \<Rightarrow> (u8 list \<times> u8 list) option" where
  "copy_chunks f [] m = Some m"
| "copy_chunks f (xy # xys) m = (case f xy m of None \<Rightarrow> None | Some m' \<Rightarrow> copy_chunks f xys m')"

text \<open>The temporary chunk starts with arbitrary contents, the argument \<open>chunk\<close> of 65536 bytes.\<close>

definition pan_copy_tiled_image ::
  "util_format \<Rightarrow> nat \<Rightarrow> nat \<Rightarrow> nat \<Rightarrow> nat \<Rightarrow> nat \<Rightarrow> nat \<Rightarrow> nat \<Rightarrow> nat \<Rightarrow> u8 list \<Rightarrow> u8 list \<Rightarrow> u8 list \<Rightarrow> u8 list option" where
  "pan_copy_tiled_image desc dst_x dst_y src_x src_y w h dst_stride src_stride chunk dst src =
     (let block_size_B = block_bits desc div 8
      in if src_x mod 16 = 0 \<and> src_y mod 16 = 0 \<and> dst_x mod 16 = 0 \<and> dst_y mod 16 = 0 \<and> w mod 16 = 0 \<and> h mod 16 = 0
         then let tile_size_B = block_size_B * 256
              in copy_tile_rows (h div 16)
                   (\<lambda>y_t. w32 ((y_t + dst_y div 16) * dst_stride) + w32 (dst_x div 16 * tile_size_B))
                   (\<lambda>y_t. w32 ((y_t + src_y div 16) * src_stride) + w32 (src_x div 16 * tile_size_B))
                   (w32 (tile_size_B * (w div 16))) 0 dst src
         else let chunk_size_bl = 65536 div block_size_B;
                  cw_bl = isqrt chunk_size_bl div 16 * 16;
                  ch_bl = chunk_size_bl div cw_bl div 16 * 16;
                  cw = cw_bl * block_width desc; ch = ch_bl * block_height desc;
                  first_x = src_x div 16 * 16; first_y = src_y div 16 * 16;
                  xs = map (\<lambda>i. first_x + i * cw) [0..<div_round_up (src_x + w - first_x) cw];
                  ys = map (\<lambda>i. first_y + i * ch) [0..<div_round_up (src_y + h - first_y) ch]
              in map_option fst
                   (copy_chunks (copy_chunk desc dst_x dst_y src_x src_y w h dst_stride src_stride cw ch (cw_bl * block_size_B) src)
                      (concat (map (\<lambda>x. map (Pair x) ys) xs)) (dst, chunk)))"

section \<open>The layout\<close>

text \<open>
  The specification, without the tables of the code: pixel \<open>(X, Y)\<close> of the image lies in the
  tile \<open>(X div ts, Y div ts)\<close>, at the place \<open>u_order\<close> inside it. The four pixels of a 2x2 quad
  follow each other clockwise from the top left one, \<open>(0, 0)\<close>, \<open>(1, 0)\<close>, \<open>(1, 1)\<close>, \<open>(0, 1)\<close>;
  so do the four quads of a 4x4 square, the four squares of an 8x8 one, and the four of those
  in a tile. In bits this is the order \<open>y3 (x3^y3) y2 (x2^y2) y1 (x1^y1) y0 (x0^y0)\<close> that the
  comment at the top of the source file gives.
\<close>

definition quad_order :: "nat \<Rightarrow> nat \<Rightarrow> nat" where
  "quad_order x y = 2 * (y mod 2) + (x + y) mod 2"

definition u_order :: "nat \<Rightarrow> nat \<Rightarrow> nat" where
  "u_order x y =
     4 * (4 * (4 * quad_order (x div 8) (y div 8) + quad_order (x div 4) (y div 4)) + quad_order (x div 2) (y div 2)) +
     quad_order x y"

definition tiled_offset :: "nat \<Rightarrow> nat \<Rightarrow> nat \<Rightarrow> nat \<Rightarrow> nat \<Rightarrow> nat" where
  "tiled_offset ts bs stride X Y = (Y div ts) * stride + bs * ((X div ts) * (ts * ts) + u_order (X mod ts) (Y mod ts))"

lemma less_16_cases:
  "x < 16 \<Longrightarrow> x = 0 \<or> x = 1 \<or> x = 2 \<or> x = 3 \<or> x = 4 \<or> x = 5 \<or> x = 6 \<or> x = 7 \<or>
     x = 8 \<or> x = 9 \<or> x = 10 \<or> x = 11 \<or> x = 12 \<or> x = 13 \<or> x = 14 \<or> x = (15 :: nat)"
  by arith

lemma quad_order_less: "quad_order x y < 4"
  unfolding quad_order_def by linarith

lemma quad_order_inj:
  assumes "quad_order x y = quad_order x' y'"
  shows "x mod 2 = x' mod 2 \<and> y mod 2 = y' mod 2"
proof -
  have "x mod 2 = 0 \<or> x mod 2 = 1" "y mod 2 = 0 \<or> y mod 2 = 1" "x' mod 2 = 0 \<or> x' mod 2 = 1" "y' mod 2 = 0 \<or> y' mod 2 = 1" by linarith+
  moreover have "2 * (y mod 2) + (x mod 2 + y mod 2) mod 2 = 2 * (y' mod 2) + (x' mod 2 + y' mod 2) mod 2"
    using assms by (simp add: quad_order_def mod_add_eq)
  ultimately show ?thesis by (elim disjE) simp_all
qed

lemma digit_4:
  assumes "4 * a + p = 4 * b + q" and "p < 4" and "q < 4"
  shows "a = b \<and> p = (q :: nat)"
proof -
  have "(4 * a + p) div 4 = a" "(4 * b + q) div 4 = b" using assms(2,3) by simp_all
  then show ?thesis using assms(1) by simp
qed

lemma digit_4_less: "a < n \<Longrightarrow> p < 4 \<Longrightarrow> 4 * a + p < 4 * (n :: nat)"
  by simp

lemma u_order_less: "u_order x y < 256"
  using digit_4_less [OF digit_4_less [OF digit_4_less [OF quad_order_less quad_order_less] quad_order_less] quad_order_less]
  unfolding u_order_def by simp

lemma bits_16: "x < 16 \<Longrightarrow> 8 * (x div 8 mod 2) + 4 * (x div 4 mod 2) + 2 * (x div 2 mod 2) + x mod 2 = (x :: nat)"
  by (drule less_16_cases, elim disjE) simp_all

lemma u_order_inj:
  assumes "u_order x y = u_order x' y'" and "x < 16" "y < 16" "x' < 16" "y' < 16"
  shows "x = x' \<and> y = y'"
proof -
  note d = digit_4 [OF _ quad_order_less quad_order_less]
  have 1: "4 * (4 * quad_order (x div 8) (y div 8) + quad_order (x div 4) (y div 4)) + quad_order (x div 2) (y div 2) =
      4 * (4 * quad_order (x' div 8) (y' div 8) + quad_order (x' div 4) (y' div 4)) + quad_order (x' div 2) (y' div 2) \<and>
      quad_order x y = quad_order x' y'"
    using assms(1) unfolding u_order_def by (rule d)
  from d [OF conjunct1 [OF 1]] have 2: "4 * quad_order (x div 8) (y div 8) + quad_order (x div 4) (y div 4) =
      4 * quad_order (x' div 8) (y' div 8) + quad_order (x' div 4) (y' div 4) \<and> quad_order (x div 2) (y div 2) = quad_order (x' div 2) (y' div 2)" .
  note 3 = d [OF conjunct1 [OF 2]]
  note q = quad_order_inj [OF conjunct1 [OF 3]] quad_order_inj [OF conjunct2 [OF 3]] quad_order_inj [OF conjunct2 [OF 2]] quad_order_inj [OF conjunct2 [OF 1]]
  note e = q [THEN conjunct1] q [THEN conjunct2]
  have "x = x'" using bits_16 [OF assms(2)] bits_16 [OF assms(4)] unfolding e by (rule trans [OF sym])
  moreover have "y = y'" using bits_16 [OF assms(3)] bits_16 [OF assms(5)] unfolding e by (rule trans [OF sym])
  ultimately show ?thesis ..
qed

text \<open>The two tables of the code give this order.\<close>

lemma xor_digit:
  assumes "p < 4" and "q < 4"
  shows "(4 * a + p) XOR (4 * b + q) = 4 * (a XOR b) + (p XOR q :: nat)"
proof -
  let ?u = "4 * a + p" and ?v = "4 * b + q"
  have "(?u XOR ?v) div 4 = (?u div 4) XOR (?v div 4)" using drop_bit_xor [of 2 ?u ?v] by (simp add: drop_bit_eq_div)
  moreover have "(?u XOR ?v) mod 4 = (?u mod 4) XOR (?v mod 4)" using take_bit_xor [of 2 ?u ?v] by (simp add: take_bit_eq_mod)
  moreover have "?u div 4 = a" "?v div 4 = b" "?u mod 4 = p" "?v mod 4 = q" using assms by simp_all
  ultimately show ?thesis using div_mult_mod_eq [of "?u XOR ?v" 4] by simp
qed

lemma quad_xor: "3 * (y mod 2) XOR (x mod 2) = quad_order x y"
proof -
  have "x mod 2 = 0 \<or> x mod 2 = 1" "y mod 2 = 0 \<or> y mod 2 = 1" by linarith+
  moreover have "quad_order x y = 2 * (y mod 2) + (x mod 2 + y mod 2) mod 2" by (simp add: quad_order_def mod_add_eq)
  ultimately show ?thesis by (elim disjE) simp_all
qed

lemma bit_duplication_digits:
  "y < 16 \<Longrightarrow> bit_duplication ! y = 4 * (4 * (4 * (3 * (y div 8 mod 2)) + 3 * (y div 4 mod 2)) + 3 * (y div 2 mod 2)) + 3 * (y mod 2)"
  by (drule less_16_cases, elim disjE) (simp_all add: bit_duplication_def)

lemma space_4_digits:
  "x < 16 \<Longrightarrow> space_4 ! x = 4 * (4 * (4 * (x div 8 mod 2) + x div 4 mod 2) + x div 2 mod 2) + x mod 2"
  by (drule less_16_cases, elim disjE) (simp_all add: space_4_def)

lemma tables_order:
  assumes "x < 16" and "y < 16"
  shows "bit_duplication ! y XOR space_4 ! x = u_order x y"
proof -
  have lt: "3 * (y mod 2) < 4" "x mod 2 < 4" for x y :: nat by linarith+
  show ?thesis unfolding bit_duplication_digits [OF assms(2)] space_4_digits [OF assms(1)] xor_digit [OF lt] quad_xor u_order_def ..
qed
text \<open>Different pixels have different offsets when a row of tiles is at least as long as the image is wide.\<close>

lemma tiled_offset_inj:
  assumes "tiled_offset 16 bs stride X Y = tiled_offset 16 bs stride X' Y'" and "0 < bs"
    and "(X div 16 + 1) * 256 * bs \<le> stride" and "(X' div 16 + 1) * 256 * bs \<le> stride"
  shows "X = X' \<and> Y = Y'"
proof -
  let ?i = "(X div 16) * 256 + u_order (X mod 16) (Y mod 16)" and ?i' = "(X' div 16) * 256 + u_order (X' mod 16) (Y' mod 16)"
  have o: "u_order (X mod 16) (Y mod 16) < 256" "u_order (X' mod 16) (Y' mod 16) < 256" by (rule u_order_less)+
  have lt: "bs * ?i < stride" "bs * ?i' < stride"
  proof -
    have "?i < (X div 16 + 1) * 256" "?i' < (X' div 16 + 1) * 256" using o by simp_all
    then have "bs * ?i < bs * ((X div 16 + 1) * 256)" "bs * ?i' < bs * ((X' div 16 + 1) * 256)" using assms(2) by simp_all
    moreover have "bs * ((X div 16 + 1) * 256) \<le> stride" "bs * ((X' div 16 + 1) * 256) \<le> stride"
      using assms(3,4) by (metis mult.commute)+
    ultimately show "bs * ?i < stride" "bs * ?i' < stride" by (meson less_le_trans)+
  qed
  have eq: "(Y div 16) * stride + bs * ?i = (Y' div 16) * stride + bs * ?i'" using assms(1) by (simp add: tiled_offset_def)
  have "Y div 16 = Y' div 16"
    using arg_cong [OF eq, of "\<lambda>n. n div stride"] lt by simp
  moreover from this eq have i: "?i = ?i'" using assms(2) by simp
  have "X div 16 = X' div 16" using arg_cong [OF i, of "\<lambda>n. n div 256"] o by simp
  moreover from this i have "u_order (X mod 16) (Y mod 16) = u_order (X' mod 16) (Y' mod 16)" by simp
  then have "X mod 16 = X' mod 16" "Y mod 16 = Y' mod 16"
    using u_order_inj [of "X mod 16" "Y mod 16" "X' mod 16" "Y' mod 16"] by simp_all
  ultimately show ?thesis by (metis div_mult_mod_eq)
qed

section \<open>The loops follow the layout\<close>

definition rect :: "nat \<Rightarrow> nat \<Rightarrow> nat \<Rightarrow> nat \<Rightarrow> (nat \<times> nat) set" where
  "rect x y w h = {x..<x + w} \<times> {y..<y + h}"

lemma w32_id: "n < 4294967296 \<Longrightarrow> w32 n = n"
  by (simp add: w32_def)

text \<open>The access to pixel \<open>(X, Y)\<close> when the linear image starts at pixel \<open>(x, y)\<close>.\<close>

definition acc :: "nat \<Rightarrow> nat \<Rightarrow> nat \<Rightarrow> nat \<Rightarrow> nat \<Rightarrow> nat \<Rightarrow> nat \<Rightarrow> nat \<times> nat \<Rightarrow> nat \<times> nat" where
  "acc ts dps sps ds ss x y p = (tiled_offset ts dps ds (fst p) (snd p), (snd p - y) * ss + (fst p - x) * sps)"

definition region_ok :: "nat \<Rightarrow> nat \<Rightarrow> nat \<Rightarrow> nat \<Rightarrow> nat \<Rightarrow> nat \<Rightarrow> bool" where
  "region_ok x y w h ds ss \<longleftrightarrow> x + w < 65536 \<and> y + h < 65536 \<and> (y + h) * ds < 4294967296 \<and> h * ss < 4294967296"

text \<open>A list of accesses makes exactly one access, \<open>f p\<close>, for each pixel \<open>p\<close> of a set.\<close>

definition visits :: "(nat \<times> nat \<Rightarrow> nat \<times> nat) \<Rightarrow> (nat \<times> nat) list \<Rightarrow> (nat \<times> nat) set \<Rightarrow> bool" where
  "visits f as R \<longleftrightarrow> (\<exists>ps. as = map f ps \<and> distinct ps \<and> set ps = R)"

lemma visits_empty [simp]: "visits f [] R \<longleftrightarrow> R = {}"
  by (auto simp: visits_def)

lemma visits_set: "visits f as R \<Longrightarrow> set as = f ` R"
  by (auto simp: visits_def)

lemma visits_append:
  assumes "visits f as A" and "visits f bs B" and "A \<inter> B = {}" and "A \<union> B = C"
  shows "visits f (as @ bs) C"
proof -
  obtain ps qs where "as = map f ps" "distinct ps" "set ps = A" "bs = map f qs" "distinct qs" "set qs = B"
    using assms(1,2) unfolding visits_def by blast
  then have "as @ bs = map f (ps @ qs) \<and> distinct (ps @ qs) \<and> set (ps @ qs) = C" using assms(3,4) by simp
  then show ?thesis unfolding visits_def by blast
qed

lemma visits_map:
  assumes "visits g as R" and "\<And>p. p \<in> R \<Longrightarrow> k (g p) = f p"
  shows "visits f (map k as) R"
proof -
  obtain ps where "as = map g ps" "distinct ps" "set ps = R" using assms(1) unfolding visits_def by blast
  then have "map k as = map f ps \<and> distinct ps \<and> set ps = R" using assms(2) by simp
  then show ?thesis unfolding visits_def by blast
qed

lemma visits_loops:
  "visits (\<lambda>p. f (fst p) (snd p)) (concat (map (\<lambda>j. map (\<lambda>i. f (x + i) (y + j)) [0..<w]) [0..<h])) (rect x y w h)"
proof (induction h)
  case 0
  then show ?case by (simp add: rect_def)
next
  case (Suc h)
  have "visits (\<lambda>p. f (fst p) (snd p)) (map (\<lambda>i. f (x + i) (y + h)) [0..<w]) ({x..<x + w} \<times> {y + h})"
    unfolding visits_def
  proof (intro exI conjI)
    show "map (\<lambda>i. f (x + i) (y + h)) [0..<w] = map (\<lambda>p. f (fst p) (snd p)) (map (\<lambda>i. (x + i, y + h)) [0..<w])" by simp
    show "distinct (map (\<lambda>i. (x + i, y + h)) [0..<w])" by (simp add: distinct_map inj_on_def)
    have "(X, y + h) \<in> (\<lambda>i. (x + i, y + h)) ` {0..<w}" if "x \<le> X" "X < x + w" for X using that by (intro image_eqI [of _ _ "X - x"]) auto
    then show "set (map (\<lambda>i. (x + i, y + h)) [0..<w]) = {x..<x + w} \<times> {y + h}" by auto
  qed
  moreover have "rect x y w h \<inter> {x..<x + w} \<times> {y + h} = {}" "rect x y w h \<union> {x..<x + w} \<times> {y + h} = rect x y w (Suc h)"
    by (auto simp: rect_def)
  ultimately show ?case using visits_append [OF Suc] by simp
qed

lemma unaligned_accesses:
  assumes "region_ok sx sy w h ds ss" and "dps \<le> 16" and "sps \<le> 16" and "k = 4"
  shows "visits (acc 16 dps sps ds ss sx sy) (pan_access_tiled_image_unaligned dps sps k sx sy w h ds ss) (rect sx sy w h)"
proof -
  have e: "(w32 (((sy + j) div 2 ^ k) * ds) + w32 (dps * (((sx + i) div 2 ^ k) * 2 ^ (k * 2) +
        (bit_duplication ! ((sy + j) mod 2 ^ k) XOR space_4 ! ((sx + i) mod 2 ^ k)))),
      w32 (j * ss) + w32 (sps * i)) = acc 16 dps sps ds ss sx sy (sx + i, sy + j)" if "i < w" "j < h" for i j
  proof -
    have u: "u_order ((sx + i) mod 16) ((sy + j) mod 16) < 256" by (rule u_order_less)
    have "((sy + j) div 16) * ds \<le> (sy + h) * ds" using that by (intro mult_le_mono1) simp
    then have 1: "((sy + j) div 16) * ds < 4294967296" using assms(1) unfolding region_ok_def by linarith
    have "((sx + i) div 16) * 256 + u_order ((sx + i) mod 16) ((sy + j) mod 16) < (65536 div 16 + 1) * 256"
      using assms(1) that u by (simp add: region_ok_def) linarith
    then have "dps * (((sx + i) div 16) * 256 + u_order ((sx + i) mod 16) ((sy + j) mod 16)) \<le> 16 * ((65536 div 16 + 1) * 256)"
      using assms(2) by (intro mult_le_mono) simp_all
    then have 2: "dps * (((sx + i) div 16) * 256 + u_order ((sx + i) mod 16) ((sy + j) mod 16)) < 4294967296" by simp
    have "j * ss \<le> h * ss" using that by (intro mult_le_mono1) simp
    then have 3: "j * ss < 4294967296" using assms(1) unfolding region_ok_def by linarith
    have "sps * i \<le> 16 * 65536" using assms(1,3) that by (intro mult_le_mono) (simp_all add: region_ok_def)
    then have 4: "sps * i < 4294967296" by simp
    show ?thesis using 1 2 3 4 by (simp add: acc_def tiled_offset_def tables_order w32_id assms(4) mult.commute)
  qed
  have "pan_access_tiled_image_unaligned dps sps k sx sy w h ds ss =
      concat (map (\<lambda>j. map (\<lambda>i. acc 16 dps sps ds ss sx sy (sx + i, sy + j)) [0..<w]) [0..<h])"
    unfolding pan_access_tiled_image_unaligned_def Let_def using e by (intro arg_cong [of _ _ concat] map_cong refl) simp
  then show ?thesis using visits_loops [where f = "\<lambda>X Y. acc 16 dps sps ds ss sx sy (X, Y)"] by simp
qed

text \<open>The 16 pixels of each of \<open>n\<close> tiles, as one loop.\<close>

lemma tiles_row: "concat (map (\<lambda>t. map (f t) [0..<16]) [0..<n]) = map (\<lambda>i. f (i div 16) (i mod 16)) [0..<16 * n]"
proof (induction n)
  case (Suc n)
  have "[0..<16 * Suc n] = [0..<16 * n] @ map (\<lambda>i. 16 * n + i) [0..<16]"
    using upt_add_eq_append [of 0 "16 * n" 16] map_add_upt [of "16 * n" 16] by (simp add: add.commute)
  moreover have "map (\<lambda>i. f (i div 16) (i mod 16)) (map (\<lambda>i. 16 * n + i) [0..<16]) = map (f n) [0..<16]" by simp
  ultimately show ?case using Suc by (simp only: upt_Suc_append le0 map_append concat_append list.map concat.simps append_Nil2)
qed simp

lemma aligned_accesses:
  assumes "region_ok sx sy w h ds ss" and "dps = 2 ^ k" and "k \<le> 4" and "sx mod 16 = 0" and "w mod 16 = 0" and "sps \<le> 16"
  shows "visits (acc 16 dps sps ds ss sx sy) (pan_access_tiled_image_aligned dps sps k sx sy w h ds ss) (rect sx sy w h)"
proof -
  have d16: "dps \<le> 16" using power_increasing [of k 4 "2 :: nat"] assms(2,3) by simp
  have e: "(w32 ((sx div 16) * 256 * dps) + w32 (((sy + j) div 16) * ds) + (i div 16) * push_bit k 256 +
        (push_bit k (bit_duplication ! ((sy + j) mod 16)) XOR push_bit k (space_4 ! (i mod 16))),
      w32 (j * ss) + ((i div 16) * 16 + i mod 16) * sps) = acc 16 dps sps ds ss sx sy (sx + i, sy + j)" if "i < w" "j < h" for i j
  proof -
    have "((sy + j) div 16) * ds \<le> (sy + h) * ds" using that by (intro mult_le_mono1) simp
    then have 1: "w32 (((sy + j) div 16) * ds) = ((sy + j) div 16) * ds" using assms(1) unfolding region_ok_def by (intro w32_id) linarith
    have "sx div 16 \<le> 4096" using assms(1) unfolding region_ok_def by linarith
    then have "(sx div 16) * 256 * dps \<le> 4096 * 256 * 16" using d16 by (intro mult_le_mono) simp_all
    then have 2: "w32 ((sx div 16) * 256 * dps) = (sx div 16) * 256 * dps" by (intro w32_id) simp
    have "j * ss \<le> h * ss" using that by (intro mult_le_mono1) simp
    then have 3: "w32 (j * ss) = j * ss" using assms(1) unfolding region_ok_def by (intro w32_id) linarith
    obtain t where t: "sx = 16 * t" using assms(4) by auto
    have x: "(sx + i) div 16 = sx div 16 + i div 16" "(sx + i) mod 16 = i mod 16" unfolding t by simp_all
    have c: "push_bit k (bit_duplication ! ((sy + j) mod 16)) XOR push_bit k (space_4 ! (i mod 16)) = u_order (i mod 16) ((sy + j) mod 16) * dps"
      unfolding push_bit_xor [symmetric] assms(2) by (simp add: tables_order push_bit_eq_mult)
    have 4: "i div 16 * 16 + i mod 16 = i" by simp
    show ?thesis unfolding c 1 2 3 4 acc_def tiled_offset_def fst_conv snd_conv x
      by (simp add: push_bit_eq_mult assms(2) distrib_left distrib_right mult.assoc)
  qed
  obtain n where n: "w = 16 * n" using assms(5) by auto
  have w: "(w + 15) div 16 = w div 16" unfolding n by simp
  let ?f = "\<lambda>j tile i. (w32 ((sx div 16) * 256 * dps) + w32 (((sy + j) div 16) * ds) + tile * push_bit k 256 +
        (push_bit k (bit_duplication ! ((sy + j) mod 16)) XOR push_bit k (space_4 ! i)), w32 (j * ss) + (tile * 16 + i) * sps)"
  have "concat (map (\<lambda>t. map (?f j t) [0..<16]) [0..<w div 16]) = map (\<lambda>i. acc 16 dps sps ds ss sx sy (sx + i, sy + j)) [0..<w]"
    if "j < h" for j
    unfolding tiles_row using that e n by (intro map_cong) simp_all
  then have "pan_access_tiled_image_aligned dps sps k sx sy w h ds ss =
      concat (map (\<lambda>j. map (\<lambda>i. acc 16 dps sps ds ss sx sy (sx + i, sy + j)) [0..<w]) [0..<h])"
    unfolding pan_access_tiled_image_aligned_def Let_def w by (intro arg_cong [of _ _ concat] map_cong refl) simp
  then show ?thesis using visits_loops [where f = "\<lambda>X Y. acc 16 dps sps ds ss sx sy (X, Y)"] by simp
qed

text \<open>
  One portion of the region: the rectangle \<open>rect px py pw ph\<close> of pixels, with the pointer the
  macro \<open>OFFSET\<close> gives.
\<close>

definition pixel_format :: "util_format \<Rightarrow> bool" where
  "pixel_format desc \<longleftrightarrow> block_width desc = 1 \<and> block_height desc = 1 \<and> block_bits desc \<in> {8, 16, 24, 32, 48, 64, 96, 128}"

lemma pixel_variants:
  assumes "pixel_format desc" and "il \<noteq> PAN_INTERLEAVE_STENCIL"
  shows "\<exists>il'. unaligned_variant (block_bits desc) il = Some (pixel_bytes desc, pixel_bytes desc, il')" "pixel_bytes desc \<le> 16"
    "0 < pixel_bytes desc"
  using assms by (auto simp: pixel_format_def unaligned_variant_def pixel_bytes_def split: pan_interleave_zs.split)

lemma is_pot_bits:
  "is_pot 8" "is_pot 16" "is_pot 32" "is_pot 64" "is_pot 128" "\<not> is_pot 24" "\<not> is_pot 48" "\<not> is_pot 96"
  by (simp_all add: is_pot_def)

lemma pixel_aligned_variant:
  assumes "pixel_format desc" and "il \<noteq> PAN_INTERLEAVE_STENCIL" and "is_pot (block_bits desc)"
  shows "\<exists>k il'. aligned_variant (block_bits desc) il = Some (pixel_bytes desc, pixel_bytes desc, k, il') \<and>
    pixel_bytes desc = 2 ^ k \<and> k \<le> 4"
  using assms is_pot_bits
  by (auto simp: pixel_format_def aligned_variant_def pixel_bytes_def split: pan_interleave_zs.split)

lemma acc_shift:
  assumes "x \<le> px" "y \<le> py" and "visits (acc ts dps sps ds ss px py) as (rect px py pw ph)"
  shows "visits (acc ts dps sps ds ss x y) (map (\<lambda>(d, s). (d, (py - y) * ss + (px - x) * sps + s)) as) (rect px py pw ph)"
proof (rule visits_map [OF assms(3)])
  fix p assume p: "p \<in> rect px py pw ph"
  obtain i j where ij: "fst p = px + i" "snd p = py + j" using p by (auto simp: rect_def le_iff_add)
  obtain a b where ab: "px = x + a" "py = y + b" using assms by (auto simp: le_iff_add)
  show "(case acc ts dps sps ds ss px py p of (d, s) \<Rightarrow> (d, (py - y) * ss + (px - x) * sps + s)) = acc ts dps sps ds ss x y p"
    unfolding acc_def ij ab by (simp add: distrib_right)
qed

lemma region_ok_part:
  assumes "region_ok x y w h ds ss" and "x \<le> px" "y \<le> py" "px + pw \<le> x + w" "py + ph \<le> y + h"
  shows "region_ok px py pw ph ds ss"
proof -
  have "(py + ph) * ds \<le> (y + h) * ds" "ph * ss \<le> h * ss" using assms by (intro mult_le_mono1; linarith)+
  then show ?thesis using assms unfolding region_ok_def by linarith
qed

lemma offset_exact:
  assumes "region_ok x y w h ds ss" and "py \<le> y + h" "px \<le> x + w" and "bs \<le> 16"
  shows "w32 ((py - y) * ss) + w32 ((px - x) * bs) = (py - y) * ss + (px - x) * bs"
proof -
  have "(py - y) * ss \<le> h * ss" using assms by (intro mult_le_mono1) linarith
  moreover have "(px - x) * bs \<le> 65536 * 16" using assms unfolding region_ok_def by (intro mult_le_mono) linarith+
  ultimately have "(py - y) * ss < 4294967296" "(px - x) * bs < 4294967296" using assms(1) unfolding region_ok_def by linarith+
  then show ?thesis by (simp only: w32_id)
qed

lemma generic_part:
  assumes "pixel_format desc" "il \<noteq> PAN_INTERLEAVE_STENCIL" "region_ok x y w h ds ss"
    and "x \<le> px" "y \<le> py" "px + pw \<le> x + w" "py + ph \<le> y + h" and "bs = pixel_bytes desc"
  shows "visits (acc 16 bs bs ds ss x y)
    (pan_access_tiled_image_generic desc il (w32 ((py - y) * ss) + w32 ((px - x) * bs)) px py pw ph ds ss) (rect px py pw ph)"
proof -
  obtain il' where v: "unaligned_variant (block_bits desc) il = Some (bs, bs, il')" using pixel_variants [OF assms(1,2)] assms(8) by auto
  have b: "block_width desc = 1" "block_height desc = 1" using assms(1) by (simp_all add: pixel_format_def)
  have u: "u16 px = px" "u16 py = py" "u16 pw = pw" "u16 ph = ph"
    using assms(3-7) by (simp_all add: region_ok_def u16_def)
  have bs: "bs \<le> 16" using pixel_variants [OF assms(1,2)] assms(8) by simp
  have o: "w32 ((py - y) * ss) + w32 ((px - x) * bs) = (py - y) * ss + (px - x) * bs"
    using assms bs by (intro offset_exact) auto
  show ?thesis unfolding pan_access_tiled_image_generic_def Let_def v b o
    using acc_shift [OF assms(4,5) unaligned_accesses [OF region_ok_part [OF assms(3-7)] bs bs refl]]
    by (simp add: div_round_up_def u)
qed

lemma aligned_part:
  assumes "pixel_format desc" "il \<noteq> PAN_INTERLEAVE_STENCIL" "region_ok x y w h ds ss"
    and "x \<le> px" "y \<le> py" "px + pw \<le> x + w" "py + ph \<le> y + h" and "bs = pixel_bytes desc" and "is_pot (block_bits desc)"
    and "px mod 16 = 0" "py mod 16 = 0" "pw mod 16 = 0" "ph mod 16 = 0"
  shows "\<exists>as. pan_access_tiled_image_generic_aligned desc il (w32 ((py - y) * ss) + w32 ((px - x) * bs)) px py pw ph ds ss = Some as \<and>
    visits (acc 16 bs bs ds ss x y) as (rect px py pw ph)"
proof -
  obtain k il' where v: "aligned_variant (block_bits desc) il = Some (bs, bs, k, il')" "bs = 2 ^ k" "k \<le> 4"
    using pixel_aligned_variant [OF assms(1,2,9)] assms(8) by auto
  have u: "u16 px = px" "u16 py = py" "u16 pw = pw" "u16 ph = ph"
    using assms(3-7) by (simp_all add: region_ok_def u16_def)
  have bs: "bs \<le> 16" using pixel_variants [OF assms(1,2)] assms(8) by simp
  have o: "w32 ((py - y) * ss) + w32 ((px - x) * bs) = (py - y) * ss + (px - x) * bs"
    using assms bs by (intro offset_exact) auto
  show ?thesis unfolding pan_access_tiled_image_generic_aligned_def o
    using acc_shift [OF assms(4,5) aligned_accesses [OF region_ok_part [OF assms(3-7)] v(2,3) assms(10,12) bs]] assms(9-13)
    by (simp add: u v(1) c_assert_def)
qed

text \<open>A region in horizontal and in vertical strips: outer, outer, inner.\<close>

lemma visits_split_y:
  assumes "y \<le> a" "a \<le> b" "b \<le> y + h" and "visits f t (rect x y w (a - y))" "visits f u (rect x b w (y + h - b))" "visits f v (rect x a w (b - a))"
  shows "visits f (t @ u @ v) (rect x y w h)"
  by (rule visits_append [OF assms(4) visits_append [OF assms(5,6) _ refl]]) (use assms(1-3) in \<open>auto simp: rect_def\<close>)

lemma visits_split_x:
  assumes "x \<le> a" "a \<le> b" "b \<le> x + w" and "visits f t (rect x y (a - x) h)" "visits f u (rect b y (x + w - b) h)" "visits f v (rect a y (b - a) h)"
  shows "visits f (t @ u @ v) (rect x y w h)"
  by (rule visits_append [OF assms(4) visits_append [OF assms(5,6) _ refl]]) (use assms(1-3) in \<open>auto simp: rect_def\<close>)

text \<open>What the tile boundaries inside a stretch of \<open>n\<close> pixels from \<open>x\<close> satisfy.\<close>

lemma full_tiles:
  assumes "f = div_round_up x 16 * 16" and "l = (x + n) div 16 * 16" and "d = (if f \<noteq> x then min (f - x) n else 0)"
    and "\<not> (f \<noteq> x \<and> d = n)"
  shows "x + d = f" "x \<le> f" "f \<le> l" "l \<le> x + n" "f mod 16 = 0" "(l - f) mod 16 = 0"
    "n - d - (if l \<noteq> x + n then x + n - l else 0) = l - f"
proof -
  have f: "x \<le> f" "f < x + 16" unfolding assms(1) div_round_up_def by linarith+
  show xd: "x + d = f" using assms(3,4) f(1) by (auto simp: min_def split: if_splits)
  have "f \<le> x + n" using xd assms(3) by (auto split: if_splits)
  then have "div_round_up x 16 \<le> (x + n) div 16" unfolding assms(1) by linarith
  then show "f \<le> l" unfolding assms(1,2) by simp
  show l: "l \<le> x + n" unfolding assms(2) by simp
  have "(if l \<noteq> x + n then x + n - l else 0) = x + n - l" by simp
  moreover have "n - d - (x + n - l) = l - f" using xd l by linarith
  ultimately show "n - d - (if l \<noteq> x + n then x + n - l else 0) = l - f" by (simp only:)
  show "f mod 16 = 0" "x \<le> f" using f by (simp_all add: assms(1))
  show "(l - f) mod 16 = 0" unfolding assms(1,2) diff_mult_distrib [symmetric] by simp
qed

lemma generic_rows:
  assumes "pixel_format desc" "il \<noteq> PAN_INTERLEAVE_STENCIL" "region_ok x y w h ds ss"
    and "x \<le> px" "y \<le> py" "px + pw \<le> x + w" "py + ph \<le> y + h" and "bs = pixel_bytes desc" and "\<not> c \<Longrightarrow> pw = 0 \<or> ph = 0"
  shows "visits (acc 16 bs bs ds ss x y)
    (if c then pan_access_tiled_image_generic desc il (w32 ((py - y) * ss) + w32 ((px - x) * bs)) px py pw ph ds ss else [])
    (rect px py pw ph)"
proof (cases c)
  case False
  then have "rect px py pw ph = {}" using assms(9) by (auto simp: rect_def)
  then show ?thesis using False by simp
qed (simp add: generic_part [OF assms(1-8)])

lemma region_accesses:
  assumes ok: "pixel_format desc" "il \<noteq> PAN_INTERLEAVE_STENCIL" "region_ok x y w h ds ss"
    and il: "il = PAN_INTERLEAVE_DEPTH \<longrightarrow> is_z24s8 desc"
    and bs: "bs = pixel_bytes desc" and strides: "ds mod bs = 0" "ss mod bs = 0"
  shows "\<exists>as. pan_access_tiled_image desc il x y w h ds ss = Some as \<and>
    visits (acc 16 bs bs ds ss x y) as (rect x y w h)"
proof -
  have bw: "block_width desc = 1" and bb: "bs = block_bits desc div 8" using ok(1) bs by (simp_all add: pixel_format_def pixel_bytes_def)
  have il': "il \<noteq> PAN_INTERLEAVE_NONE \<longrightarrow> is_z24s8 desc" using il ok(2) by (cases il) simp_all
  let ?C = "\<lambda>as px py pw ph. visits (acc 16 bs bs ds ss x y) as (rect px py pw ph)"
  let ?g = "\<lambda>px py pw ph. pan_access_tiled_image_generic desc il (w32 ((py - y) * ss) + w32 ((px - x) * bs)) px py pw ph ds ss"
  show ?thesis
  proof (cases "is_pot (block_bits desc)")
    case False
    have "pan_access_tiled_image desc il x y w h ds ss = Some (?g x y w h)"
      unfolding pan_access_tiled_image_def Let_def bb [symmetric] using False il' strides by (simp add: c_assert_def w32_def)
    moreover have "?C (?g x y w h) x y w h" using generic_part [OF ok le_refl le_refl le_refl le_refl bs] .
    ultimately show ?thesis by blast
  next
    case pot: True
    define fx lx dl where x_defs: "fx = div_round_up x 16 * 16" "lx = (x + w) div 16 * 16" "dl = (if fx \<noteq> x then min (fx - x) w else 0)"
    define fy ly dt where y_defs: "fy = div_round_up y 16 * 16" "ly = (y + h) div 16 * 16" "dt = (if fy \<noteq> y then min (fy - y) h else 0)"
    note body = pan_access_tiled_image_def Let_def bb [symmetric] x_defs [symmetric] y_defs [symmetric]
    have not_pot: "\<not> (1 < block_width desc \<or> \<not> is_pot (block_bits desc))" using pot bw by simp
    have asserts: "c_assert (il \<noteq> PAN_INTERLEAVE_NONE \<longrightarrow> is_z24s8 desc) = Some ()" "c_assert (ds mod bs = 0) = Some ()"
      "c_assert (ss mod bs = 0) = Some ()" using il' strides by (simp_all add: c_assert_def)
    define t where "t = (if fy \<noteq> y then ?g x y w dt else [])"
    have top: "?C t x y w dt"
      unfolding t_def by (rule generic_rows [OF ok le_refl le_refl le_refl _ bs]) (auto simp: y_defs)
    show ?thesis
    proof (cases "fy \<noteq> y \<and> dt = h")
      case True
      then have "pan_access_tiled_image desc il x y w h ds ss = Some t"
        unfolding body t_def using pot il' strides bw by (simp add: c_assert_def)
      then show ?thesis using top True by auto
    next
      case ny: False
      note ty = full_tiles [OF y_defs ny]
      have e: "fy + (h - dt) = y + h" and dt: "dt = fy - y" using ty by linarith+
      define b where "b = (if ly \<noteq> y + h then ?g x ly w (y + h - ly) else [])"
      note eb = ty(7)
      have bot: "?C b x ly w (y + h - ly)"
        unfolding b_def by (rule generic_rows [OF ok le_refl _ le_refl _ bs]) (use ty in auto)
      define l where "l = (if fx \<noteq> x then ?g x fy dl (ly - fy) else [])"
      have left: "?C l x fy dl (ly - fy)"
        unfolding l_def by (rule generic_rows [OF ok le_refl _ _ _ bs]) (use ty in \<open>auto simp: x_defs\<close>)
      note rows = visits_split_y [OF ty(2,3,4) top [unfolded dt] bot]
      show ?thesis
      proof (cases "fx \<noteq> x \<and> dl = w")
        case True
        then have "pan_access_tiled_image desc il x y w h ds ss = Some (t @ b @ l)"
          unfolding body t_def b_def l_def unfolding ty(1) unfolding e unfolding eb using True ny
          by (simp only: asserts not_pot if_True if_False Option.bind.bind_lunit simp_thms cong: if_cong)
        moreover have "?C (t @ b @ l) x y w h" using rows left True by simp
        ultimately show ?thesis by blast
      next
        case nx: False
        note tx = full_tiles [OF x_defs nx]
        have f: "fx + (w - dl) = x + w" and dl: "dl = fx - x" using tx by linarith+
        note er = tx(7)
        define r where "r = (if lx \<noteq> x + w then ?g lx fy (x + w - lx) (ly - fy) else [])"
        have right: "?C r lx fy (x + w - lx) (ly - fy)"
          unfolding r_def by (rule generic_rows [OF ok _ _ _ _ bs]) (use ty tx in auto)
        obtain m where m: "pan_access_tiled_image_generic_aligned desc il (w32 ((fy - y) * ss) + w32 ((fx - x) * bs)) fx fy (lx - fx) (ly - fy) ds ss = Some m"
          "?C m fx fy (lx - fx) (ly - fy)"
          using aligned_part [OF ok _ _ _ _ bs pot, of fx fy "lx - fx" "ly - fy"] tx ty by auto
        have "?C (l @ r @ m) x fy w (ly - fy)" by (rule visits_split_x [OF tx(2,3,4) left [unfolded dl] right m(2)])
        have "pan_access_tiled_image desc il x y w h ds ss = Some (t @ b @ l @ r @ m)"
          unfolding body t_def b_def l_def r_def unfolding ty(1) tx(1) unfolding e f unfolding eb er using nx ny
          by (simp only: asserts not_pot m(1) if_True if_False Option.bind.bind_lunit simp_thms cong: if_cong)
        moreover have "?C (t @ b @ l @ r @ m) x y w h" by (rule rows) fact
        ultimately show ?thesis by blast
      qed
    qed
  qed
qed

section \<open>The effect on the memories\<close>

lemma blit_nth:
  assumes "s + n \<le> length src" "d + n \<le> length dst"
  obtains dst' where "blit src s dst d n = Some dst'" "length dst' = length dst"
    "\<And>i. i < length dst \<Longrightarrow> dst' ! i = (if d \<le> i \<and> i < d + n then src ! (s + (i - d)) else dst ! i)"
proof
  let ?r = "take d dst @ take n (drop s src) @ drop (d + n) dst"
  show "blit src s dst d n = Some ?r" "length ?r = length dst" using assms by (simp_all add: blit_def)
  show "?r ! i = (if d \<le> i \<and> i < d + n then src ! (s + (i - d)) else dst ! i)" if "i < length dst" for i
    using assms that by (auto simp: nth_append)
qed

text \<open>
  What a sequence of accesses does to the memory it writes: a byte holds what one of the
  accesses that cover it put there, or its old value when no access visits it.
\<close>

definition written :: "nat \<Rightarrow> (nat \<times> nat) set \<Rightarrow> u8 list \<Rightarrow> u8 list \<Rightarrow> u8 list \<Rightarrow> bool" where
  "written n A src old new \<longleftrightarrow> length new = length old \<and>
     (\<forall>i < length old. (\<exists>(d, s) \<in> A. d \<le> i \<and> i < d + n \<and> new ! i = src ! (s + (i - d))) \<or>
        (\<forall>(d, s) \<in> A. \<not> (d \<le> i \<and> i < d + n)) \<and> new ! i = old ! i)"

lemma written_step:
  assumes "written n A src mid new" and "length mid = length old"
    and "\<And>i. i < length old \<Longrightarrow> mid ! i = (if d \<le> i \<and> i < d + n then src ! (s + (i - d)) else old ! i)"
  shows "written n (insert (d, s) A) src old new"
  unfolding written_def
proof (intro conjI allI impI)
  show "length new = length old" using assms(1,2) by (simp add: written_def)
  fix i assume i: "i < length old"
  let ?in = "\<lambda>A. \<exists>(d, s) \<in> A. d \<le> i \<and> i < d + n \<and> new ! i = src ! (s + (i - d))"
  let ?out = "\<lambda>A old. (\<forall>(d, s) \<in> A. \<not> (d \<le> i \<and> i < d + n)) \<and> new ! i = old ! i"
  have "?in A \<or> ?out A mid" using assms(1,2) i by (simp add: written_def)
  then show "?in (insert (d, s) A) \<or> ?out (insert (d, s) A) old"
  proof
    assume "?out A mid"
    then show ?thesis using assms(3) [OF i] by (cases "d \<le> i \<and> i < d + n") simp_all
  qed blast
qed

lemma run_store:
  assumes "\<forall>(d, s) \<in> set as. d + n \<le> length t \<and> s + n \<le> length l"
  shows "\<exists>t'. run_accesses n PAN_INTERLEAVE_NONE True as (t, l) = Some (t', l) \<and> written n (set as) l t t'"
  using assms
proof (induction as arbitrary: t)
  case (Cons a as)
  obtain d s where a: "a = (d, s)" by force
  obtain t1 where t1: "blit l s t d n = Some t1" "length t1 = length t"
    "\<And>i. i < length t \<Longrightarrow> t1 ! i = (if d \<le> i \<and> i < d + n then l ! (s + (i - d)) else t ! i)"
    using blit_nth [of s n l d t] Cons.prems a by auto
  obtain t' where "run_accesses n PAN_INTERLEAVE_NONE True as (t1, l) = Some (t', l)" "written n (set as) l t1 t'"
    using Cons.IH [of t1] Cons.prems t1(2) by auto
  then show ?case using t1 written_step [OF _ t1(2,3)] by (simp add: a pan_access_image_pixel_def)
qed (simp add: written_def)

lemma run_load:
  assumes "\<forall>(d, s) \<in> set as. d + n \<le> length t \<and> s + n \<le> length l"
  shows "\<exists>l'. run_accesses n PAN_INTERLEAVE_NONE False as (t, l) = Some (t, l') \<and> written n (prod.swap ` set as) t l l'"
  using assms
proof (induction as arbitrary: l)
  case (Cons a as)
  obtain d s where a: "a = (d, s)" by force
  obtain l1 where l1: "blit t d l s n = Some l1" "length l1 = length l"
    "\<And>i. i < length l \<Longrightarrow> l1 ! i = (if s \<le> i \<and> i < s + n then t ! (d + (i - s)) else l ! i)"
    using blit_nth [of d n t s l] Cons.prems a by auto
  obtain l' where "run_accesses n PAN_INTERLEAVE_NONE False as (t, l1) = Some (t, l')" "written n (prod.swap ` set as) t l1 l'"
    using Cons.IH [of l1] Cons.prems l1(2) by auto
  then show ?case using l1 written_step [OF _ l1(2,3)] by (simp add: a pan_access_image_pixel_def)
qed (simp add: written_def)

lemma written_inE:
  assumes "written n A src old new" "i < length old" "(d0, s0) \<in> A" "d0 \<le> i" "i < d0 + n"
  obtains d s where "(d, s) \<in> A" "d \<le> i" "i < d + n" "new ! i = src ! (s + (i - d))"
proof -
  have "\<not> (\<forall>(d, s) \<in> A. \<not> (d \<le> i \<and> i < d + n))" using assms(3-5) by blast
  then show ?thesis using assms(1,2) that unfolding written_def by blast
qed

lemma written_out:
  "written n A src old new \<Longrightarrow> i < length old \<Longrightarrow> \<not> (\<exists>(d, s) \<in> A. d \<le> i \<and> i < d + n) \<Longrightarrow> new ! i = old ! i"
  unfolding written_def by blast

text \<open>Reading back through accesses that determine each other returns the bytes written.\<close>

lemma written_back:
  assumes st: "written n A l t t'" and ld: "written n (prod.swap ` A) t' l0 l'"
    and cells: "\<And>d s d' s'. (d, s) \<in> A \<Longrightarrow> (d', s') \<in> A \<Longrightarrow> d < d' + n \<Longrightarrow> d' < d + n \<Longrightarrow> d = d' \<and> s = s'"
    and inside: "\<And>d s. (d, s) \<in> A \<Longrightarrow> d + n \<le> length t" and i: "i < length l0"
  shows "l' ! i = (if \<exists>(d, s) \<in> A. s \<le> i \<and> i < s + n then l ! i else l0 ! i)"
proof (cases "\<exists>(d, s) \<in> A. s \<le> i \<and> i < s + n")
  case True
  then obtain d0 s0 where "(s0, d0) \<in> prod.swap ` A" "s0 \<le> i" "i < s0 + n" by force
  then obtain s d where "(s, d) \<in> prod.swap ` A" and ds': "s \<le> i" "i < s + n" "l' ! i = t' ! (d + (i - s))"
    by (rule written_inE [OF ld i])
  then have ds: "(d, s) \<in> A" by auto
  have "d + (i - s) < length t" using inside [OF ds] ds' by linarith
  then obtain d' s' where e: "(d', s') \<in> A" "d' \<le> d + (i - s)" "d + (i - s) < d' + n" "t' ! (d + (i - s)) = l ! (s' + (d + (i - s) - d'))"
    using ds' by (auto intro: written_inE [OF st _ ds])
  have "d < d' + n" "d' < d + n" using e(2,3) ds' by linarith+
  then have "d = d' \<and> s = s'" by (rule cells [OF ds e(1)])
  then show ?thesis using True e(4) ds' by simp
next
  case False
  then have "l' ! i = l0 ! i" by (intro written_out [OF ld i]) auto
  then show ?thesis using False by simp
qed

text \<open>The cells of a region: pairwise disjoint in the tiled image, inside both memories.\<close>

definition region_fits :: "nat \<Rightarrow> nat \<Rightarrow> nat \<Rightarrow> nat \<Rightarrow> nat \<Rightarrow> nat \<Rightarrow> nat \<Rightarrow> nat \<Rightarrow> nat \<Rightarrow> bool" where
  "region_fits bs x y w h ds ss tlen llen \<longleftrightarrow> ds mod bs = 0 \<and> ss mod bs = 0 \<and>
     div_round_up (x + w) 16 * 256 * bs \<le> ds \<and> div_round_up (y + h) 16 * ds \<le> tlen \<and> (h - 1) * ss + w * bs \<le> llen"

lemma less_round_up: "X < n \<Longrightarrow> X div 16 + 1 \<le> div_round_up n 16"
  unfolding div_round_up_def by simp

lemma region_row:
  assumes "region_fits bs x y w h ds ss tlen llen" "(X, Y) \<in> rect x y w h"
  shows "(X div 16 + 1) * 256 * bs \<le> ds"
proof -
  have "(X div 16 + 1) * 256 * bs \<le> div_round_up (x + w) 16 * 256 * bs"
    using assms(2) less_round_up [of X "x + w"] by (intro mult_le_mono) (auto simp: rect_def)
  also have "\<dots> \<le> ds" using assms(1) by (simp add: region_fits_def)
  finally show ?thesis .
qed

lemma region_inside:
  assumes "region_fits bs x y w h ds ss tlen llen" "p \<in> rect x y w h" and "acc 16 bs bs ds ss x y p = (d, s)"
  shows "d + bs \<le> tlen" "s + bs \<le> llen"
proof -
  obtain X Y where p: "p = (X, Y)" by force
  have d: "d = (Y div 16) * ds + bs * ((X div 16) * 256 + u_order (X mod 16) (Y mod 16))" and s: "s = (Y - y) * ss + (X - x) * bs"
    using assms(3) by (simp_all add: p acc_def tiled_offset_def)
  have "u_order (X mod 16) (Y mod 16) + 1 \<le> 256" using u_order_less [of "X mod 16" "Y mod 16"] by simp
  then have "bs * ((X div 16) * 256 + u_order (X mod 16) (Y mod 16) + 1) \<le> bs * ((X div 16 + 1) * 256)" by (intro mult_le_mono2) simp
  also have "\<dots> \<le> ds" using region_row [OF assms(1)] assms(2) by (simp add: p mult.commute mult.left_commute)
  finally have "d + bs \<le> (Y div 16 + 1) * ds" unfolding d by simp
  also have "\<dots> \<le> div_round_up (y + h) 16 * ds" using assms(2) less_round_up [of Y "y + h"] by (intro mult_le_mono1) (auto simp: p rect_def)
  also have "\<dots> \<le> tlen" using assms(1) by (simp add: region_fits_def)
  finally show "d + bs \<le> tlen" .
  have "Y - y \<le> h - 1" "X - x + 1 \<le> w" using assms(2) by (auto simp: p rect_def)
  then have "(Y - y) * ss \<le> (h - 1) * ss" "(X - x + 1) * bs \<le> w * bs" by (intro mult_le_mono1; simp)+
  moreover have "(X - x + 1) * bs = (X - x) * bs + bs" by simp
  ultimately show "s + bs \<le> llen" using assms(1) unfolding s region_fits_def by linarith
qed

lemma multiples_apart:
  assumes "d mod n = 0" "d' mod n = 0" "d < d' + n" "d' < d + n"
  shows "d = (d' :: nat)"
proof -
  obtain a where a: "d = n * a" using assms(1) by auto
  obtain b where b: "d' = n * b" using assms(2) by auto
  note ab = a b
  have "n * a < n * (b + 1)" "n * b < n * (a + 1)" using assms(3,4) ab by simp_all
  then have "a < b + 1" "b < a + 1" by (simp_all only: mult_less_cancel1)
  then show ?thesis using ab by simp
qed

lemma region_cells:
  assumes "region_fits bs x y w h ds ss tlen llen" "0 < bs"
    and "(d, s) \<in> acc 16 bs bs ds ss x y ` rect x y w h" "(d', s') \<in> acc 16 bs bs ds ss x y ` rect x y w h" "d < d' + bs" "d' < d + bs"
  shows "d = d' \<and> s = s'"
proof -
  obtain X Y X' Y' where p: "(X, Y) \<in> rect x y w h" "(X', Y') \<in> rect x y w h"
    and a: "acc 16 bs bs ds ss x y (X, Y) = (d, s)" "acc 16 bs bs ds ss x y (X', Y') = (d', s')" using assms(3,4) by (auto simp: image_iff)
  have m: "tiled_offset 16 bs ds X Y mod bs = 0" for X Y
    using assms(1) unfolding tiled_offset_def region_fits_def by (auto intro: dvd_imp_mod_0)
  have o: "tiled_offset 16 bs ds X Y = d" "tiled_offset 16 bs ds X' Y' = d'" using a by (simp_all add: acc_def)
  have dd: "d = d'" using multiples_apart [OF _ _ assms(5,6)] m [of X Y] m [of X' Y'] o by simp
  then have "X = X' \<and> Y = Y'" using tiled_offset_inj [of bs ds X Y X' Y'] o assms(2) region_row [OF assms(1)] p by simp
  then show ?thesis using a by simp
qed

text \<open>
  Property C18.  Which bytes the routine touches: for an uncompressed format, on a region whose
  coordinates fit 16 bits and whose offsets fit 32 bits, no assertion of the access routine fails
  and the accesses it makes, through the five portions and both inner loops, are one for each
  pixel of the region, no pixel twice: the tiled byte offset is the one of the u-interleaved
  layout, specified without the tables of the code, and the linear one is given by the row and
  the column in the region. (The stencil-only access and block-compressed formats are excluded.)
\<close>

theorem pan_access_tiled_image_layout:
  assumes "pixel_format desc" and "il \<noteq> PAN_INTERLEAVE_STENCIL" and "il = PAN_INTERLEAVE_DEPTH \<longrightarrow> is_z24s8 desc"
    and "region_ok x y w h dst_stride src_stride" and "bs = pixel_bytes desc" and "dst_stride mod bs = 0" and "src_stride mod bs = 0"
  shows "\<exists>pixels. distinct pixels \<and> set pixels = {x..<x + w} \<times> {y..<y + h} \<and>
    pan_access_tiled_image desc il x y w h dst_stride src_stride =
      Some (map (\<lambda>(X, Y). (tiled_offset 16 bs dst_stride X Y, (Y - y) * src_stride + (X - x) * bs)) pixels)"
proof -
  have "acc 16 bs bs dst_stride src_stride x y = (\<lambda>(X, Y). (tiled_offset 16 bs dst_stride X Y, (Y - y) * src_stride + (X - x) * bs))"
    by (simp add: fun_eq_iff acc_def)
  then show ?thesis using region_accesses [OF assms(1,2,4,3,5,6,7)] by (auto simp: rect_def visits_def)
qed

definition rgba8 :: util_format where
  "rgba8 = \<lparr>block_width = 1, block_height = 1, block_bits = 32, is_z24s8 = False\<rparr>"

theorem pan_access_tiled_image_layout_witness:
  "\<exists>pixels. distinct pixels \<and> set pixels = {3..<3 + 40} \<times> {5..<5 + 40} \<and>
    pan_access_tiled_image rgba8 PAN_INTERLEAVE_NONE 3 5 40 40 8192 160 =
      Some (map (\<lambda>(X, Y). (tiled_offset 16 4 8192 X Y, (Y - 5) * 160 + (X - 3) * 4)) pixels)"
  by (rule pan_access_tiled_image_layout) (simp_all add: pixel_format_def rgba8_def region_ok_def pixel_bytes_def)

text \<open>
  Property C17.  Storing pixels of an uncompressed format, all aspects of them
  (\<open>PAN_INTERLEAVE_NONE\<close>), and loading them back returns them: on a region that fits both
  images, whose coordinates fit 16 bits and whose offsets fit 32 bits, the store succeeds, changes only the bytes of the region's pixels in the tiled image, and a load of
  the same region then writes into any linear buffer exactly the bytes that were stored and
  leaves its other bytes alone.
\<close>

theorem pan_tiled_store_load_roundtrip:
  assumes "pixel_format desc" and "region_ok x y w h tiled_stride stride" and "bs = pixel_bytes desc"
    and "region_fits bs x y w h tiled_stride stride (length t) (length l)" and "length l0 = length l"
  shows "\<exists>t' l'. pan_store_tiled_image desc PAN_INTERLEAVE_NONE x y w h tiled_stride stride t l = Some t' \<and>
     pan_load_tiled_image desc PAN_INTERLEAVE_NONE x y w h stride tiled_stride l0 t' = Some l' \<and>
     length t' = length t \<and> length l' = length l \<and>
     (\<forall>i < length t. (\<forall>(X, Y) \<in> rect x y w h. i \<notin> {tiled_offset 16 bs tiled_stride X Y..<tiled_offset 16 bs tiled_stride X Y + bs}) \<longrightarrow> t' ! i = t ! i) \<and>
     (\<forall>i < length l. l' ! i = (if \<exists>(X, Y) \<in> rect x y w h. i \<in> {(Y - y) * stride + (X - x) * bs..<(Y - y) * stride + (X - x) * bs + bs}
        then l ! i else l0 ! i))"
proof -
  have strides: "tiled_stride mod bs = 0" "stride mod bs = 0" using assms(4) by (simp_all add: region_fits_def)
  have bs: "0 < bs" using pixel_variants(3) [OF assms(1), of PAN_INTERLEAVE_NONE] assms(3) by simp
  let ?A = "acc 16 bs bs tiled_stride stride x y ` rect x y w h"
  obtain as where as: "pan_access_tiled_image desc PAN_INTERLEAVE_NONE x y w h tiled_stride stride = Some as" "set as = ?A"
    using region_accesses [OF assms(1) _ assms(2) _ assms(3) strides, of PAN_INTERLEAVE_NONE] visits_set by auto
  have inside: "\<forall>(d, s) \<in> set as. d + bs \<le> length t \<and> s + bs \<le> length l"
    unfolding as(2) using region_inside [OF assms(4)] by (auto simp: image_iff)
  obtain t' where t': "run_accesses bs PAN_INTERLEAVE_NONE True as (t, l) = Some (t', l)" "written bs ?A l t t'"
    using run_store [OF inside] as(2) by auto
  have len: "length t' = length t" using t'(2) by (simp add: written_def)
  obtain l' where l': "run_accesses bs PAN_INTERLEAVE_NONE False as (t', l0) = Some (t', l')" "written bs (prod.swap ` ?A) t' l0 l'"
    using run_load [of as bs t' l0] inside as(2) len assms(5) by auto
  have cover: "(\<exists>(d, s) \<in> ?A. P d s) \<longleftrightarrow> (\<exists>(X, Y) \<in> rect x y w h. P (tiled_offset 16 bs tiled_stride X Y) ((Y - y) * stride + (X - x) * bs))" for P
    by (force simp: acc_def)
  have "t' ! i = t ! i" if "i < length t"
    "\<forall>(X, Y) \<in> rect x y w h. i \<notin> {tiled_offset 16 bs tiled_stride X Y..<tiled_offset 16 bs tiled_stride X Y + bs}" for i
    using that by (intro written_out [OF t'(2)]) (auto simp: acc_def)
  moreover have "l' ! i = (if \<exists>(d, s) \<in> ?A. s \<le> i \<and> i < s + bs then l ! i else l0 ! i)" if "i < length l" for i
    using inside as(2) that assms(5) by (intro written_back [OF t'(2) l'(2) region_cells [OF assms(4) bs]]) auto
  then have "\<forall>i < length l. l' ! i = (if \<exists>(X, Y) \<in> rect x y w h. i \<in> {(Y - y) * stride + (X - x) * bs..<(Y - y) * stride + (X - x) * bs + bs}
      then l ! i else l0 ! i)" unfolding cover by simp
  moreover have "pan_store_tiled_image desc PAN_INTERLEAVE_NONE x y w h tiled_stride stride t l = Some t'"
    using as(1) t'(1) by (simp add: pan_store_tiled_image_def assms(3) [symmetric])
  moreover have "pan_load_tiled_image desc PAN_INTERLEAVE_NONE x y w h stride tiled_stride l0 t' = Some l'"
    using as(1) l'(1) by (simp add: pan_load_tiled_image_def assms(3) [symmetric])
  moreover have "length l' = length l" using l'(2) assms(5) by (simp add: written_def)
  ultimately show ?thesis using len by blast
qed

theorem pan_tiled_store_load_roundtrip_witness:
  "\<exists>t' l'. pan_store_tiled_image rgba8 PAN_INTERLEAVE_NONE 3 5 40 40 8192 160 (replicate 24576 0) (replicate 6400 1) = Some t' \<and>
     pan_load_tiled_image rgba8 PAN_INTERLEAVE_NONE 3 5 40 40 160 8192 (replicate 6400 2) t' = Some l' \<and> l' ! 6399 = 1"
proof -
  have in_rect: "\<exists>(X, Y) \<in> rect 3 5 40 40. (6399 :: nat) \<in> {(Y - 5) * 160 + (X - 3) * 4..<(Y - 5) * 160 + (X - 3) * 4 + 4}"
    by (rule bexI [of _ "(42, 44)"]) (simp_all add: rect_def)
  have "region_fits 4 3 5 40 40 8192 160 (length (replicate 24576 (0 :: u8))) (length (replicate 6400 (1 :: u8)))"
    by (simp add: region_fits_def div_round_up_def)
  then obtain t' l' where "pan_store_tiled_image rgba8 PAN_INTERLEAVE_NONE 3 5 40 40 8192 160 (replicate 24576 0) (replicate 6400 1) = Some t'"
    "pan_load_tiled_image rgba8 PAN_INTERLEAVE_NONE 3 5 40 40 160 8192 (replicate 6400 2) t' = Some l'"
    and l': "\<forall>i < length (replicate 6400 (1 :: u8)). l' ! i =
      (if \<exists>(X, Y) \<in> rect 3 5 40 40. i \<in> {(Y - 5) * 160 + (X - 3) * 4..<(Y - 5) * 160 + (X - 3) * 4 + 4}
       then replicate 6400 1 ! i else replicate 6400 2 ! i)"
    using pan_tiled_store_load_roundtrip [of rgba8 3 5 40 40 8192 160 4 "replicate 24576 0" "replicate 6400 1" "replicate 6400 2"]
    by (auto simp: pixel_format_def rgba8_def region_ok_def pixel_bytes_def)
  moreover have "l' ! 6399 = replicate 6400 1 ! 6399" using spec [OF l', of 6399] unfolding if_P [OF in_rect] by simp
  ultimately show ?thesis by simp
qed

section \<open>Two defects\<close>

text \<open>An access outside of the linear memory stops the sequence.\<close>

lemma run_accesses_inside:
  assumes "run_accesses 4 PAN_INTERLEAVE_STENCIL st as (t, l) \<noteq> None" and "(d, s) \<in> set as"
  shows "s < length l"
  using assms
proof (induction as arbitrary: t l)
  case (Cons a as)
  obtain d0 s0 where a: "a = (d0, s0)" by force
  obtain t' l' where m: "pan_access_image_pixel 4 PAN_INTERLEAVE_STENCIL st (d0, s0) (t, l) = Some (t', l')"
    "run_accesses 4 PAN_INTERLEAVE_STENCIL st as (t', l') \<noteq> None" using Cons.prems(1) a by (auto split: option.splits)
  have "length l' = length l \<and> s0 < length l"
    using m(1) by (auto simp: pan_access_image_pixel_def blit_def split: if_splits)
  then show ?case using Cons.IH [OF m(2)] Cons.prems(2) a by auto
qed simp

definition z24s8 :: util_format where
  "z24s8 = \<lparr>block_width = 1, block_height = 1, block_bits = 32, is_z24s8 = True\<rparr>"

lemma stencil_tile_access:
  "\<exists>as. pan_access_tiled_image z24s8 PAN_INTERLEAVE_STENCIL 8 0 24 16 2048 24 = Some as \<and>
     {(tiled_offset 16 4 2048 16 0, 32), (tiled_offset 16 4 2048 31 15, 407)} \<subseteq> set as"
proof -
  define g where "g = pan_access_tiled_image_generic z24s8 PAN_INTERLEAVE_STENCIL (w32 0 + w32 0) 8 0 8 16 2048 24"
  define m where "m = pan_access_tiled_image_aligned 4 1 2 16 0 16 16 2048 24"
  have m: "set m = acc 16 4 1 2048 24 16 0 ` rect 16 0 16 16"
    unfolding m_def by (rule visits_set [OF aligned_accesses]) (simp_all add: region_ok_def)
  have "pan_access_tiled_image z24s8 PAN_INTERLEAVE_STENCIL 8 0 24 16 2048 24 = Some (g @ map (\<lambda>(d, s). (d, 32 + s)) m)"
    by (simp add: pan_access_tiled_image_def z24s8_def [symmetric] g_def m_def div_round_up_def Let_def is_pot_bits
        pan_access_tiled_image_generic_aligned_def aligned_variant_def u16_def)
       (simp add: z24s8_def w32_def is_pot_bits)
  moreover have "(tiled_offset 16 4 2048 16 0, 0) \<in> set m" "(tiled_offset 16 4 2048 31 15, 375) \<in> set m"
    unfolding m by (rule image_eqI [of _ _ "(16, 0)"], simp_all add: acc_def rect_def, rule image_eqI [of _ _ "(31, 15)"], simp_all add: acc_def rect_def)
  ultimately show ?thesis by force
qed

text \<open>
  The stencil-only access is wrong when the region does not start on a tile column: the macro
  \<open>OFFSET\<close> advances the linear pointer by the pixel size of the combined format, 4 bytes,
  although the stencil pixels of the linear image are 1 byte. Storing the stencil of a 24x16
  region at column 8 reads the pixel of column 16 at byte 32 of its row instead of byte 8, and
  runs past the end of a tightly packed 24x16 stencil buffer.
\<close>

theorem pan_stencil_offset_bug:
  "(\<exists>as. pan_access_tiled_image z24s8 PAN_INTERLEAVE_STENCIL 8 0 24 16 2048 24 = Some as \<and>
      (tiled_offset 16 4 2048 16 0, 32) \<in> set as) \<and>
   pan_store_tiled_image z24s8 PAN_INTERLEAVE_STENCIL 8 0 24 16 2048 24 (replicate 2048 0) (replicate (24 * 16) 0) = None"
proof -
  obtain as where as: "pan_access_tiled_image z24s8 PAN_INTERLEAVE_STENCIL 8 0 24 16 2048 24 = Some as"
    "(tiled_offset 16 4 2048 16 0, 32) \<in> set as" "(tiled_offset 16 4 2048 31 15, 407) \<in> set as"
    using stencil_tile_access by auto
  have "run_accesses 4 PAN_INTERLEAVE_STENCIL True as (replicate 2048 0, replicate (24 * 16) 0) = None"
  proof (rule ccontr)
    assume "run_accesses 4 PAN_INTERLEAVE_STENCIL True as (replicate 2048 0, replicate (24 * 16) 0) \<noteq> None"
    from run_accesses_inside [OF this as(3)] show False by simp
  qed
  then show ?thesis using as(1,2) by (simp add: pan_store_tiled_image_def pixel_bytes_def z24s8_def)
qed

definition bc1 :: util_format where
  "bc1 = \<lparr>block_width = 4, block_height = 4, block_bits = 64, is_z24s8 = False\<rparr>"

text \<open>
  Copying between tiled images of a block-compressed format overruns them when the
  region is tile-aligned: a tile of such a format is 4x4 blocks of 4x4 pixels, 128 bytes for
  64-bit blocks, but the fast path copies 256 blocks, 2048 bytes, per 16x16 pixels. The store
  routine on the same image touches no byte beyond its 128.
\<close>

theorem pan_copy_compressed_overruns:
  "pan_copy_tiled_image bc1 0 0 0 0 16 16 128 128 chunk (replicate 128 0) (replicate 128 0) = None \<and>
   (\<exists>as. pan_access_tiled_image bc1 PAN_INTERLEAVE_NONE 0 0 16 16 128 32 = Some as \<and> as \<noteq> [] \<and> set as \<subseteq> {(d, s). d + 8 \<le> 128})"
proof
  have "w32 2048 = 2048" "w32 0 = 0" by (simp_all add: w32_def)
  then show "pan_copy_tiled_image bc1 0 0 0 0 16 16 128 128 chunk (replicate 128 0) (replicate 128 0) = None"
    by (simp add: pan_copy_tiled_image_def bc1_def blit_def)
  have v: "u_order x y \<le> 15" if "x < 4" "y < 4" for x y
  proof -
    have "x = 0 \<or> x = 1 \<or> x = 2 \<or> x = 3" "y = 0 \<or> y = 1 \<or> y = 2 \<or> y = 3" using that by linarith+
    then show ?thesis by (elim disjE) (simp_all add: u_order_def quad_order_def)
  qed
  have "pan_access_tiled_image bc1 PAN_INTERLEAVE_NONE 0 0 16 16 128 32 = Some (pan_access_tiled_image_unaligned 8 8 2 0 0 4 4 128 32)"
    by (simp add: pan_access_tiled_image_def pan_access_tiled_image_generic_def bc1_def unaligned_variant_def div_round_up_def u16_def)
  moreover have "pan_access_tiled_image_unaligned 8 8 2 0 0 4 4 128 32 \<noteq> []"
    by (simp add: pan_access_tiled_image_unaligned_def upt_conv_Cons Let_def)
  moreover have "set (pan_access_tiled_image_unaligned 8 8 2 0 0 4 4 128 32) \<subseteq> {(d, s). d + 8 \<le> 128}"
  proof
    fix a assume "a \<in> set (pan_access_tiled_image_unaligned 8 8 2 0 0 4 4 128 32)"
    then obtain x y where "x < 4" "y < 4" "fst a = w32 (y div 4 * 128) + w32 (8 * (x div 4 * 16 + u_order (x mod 4) (y mod 4)))"
      by (auto simp: pan_access_tiled_image_unaligned_def tables_order Let_def)
    then show "a \<in> {(d, s). d + 8 \<le> 128}" using v [of x y] by (cases a) (simp add: w32_def)
  qed
  ultimately show "\<exists>as. pan_access_tiled_image bc1 PAN_INTERLEAVE_NONE 0 0 16 16 128 32 = Some as \<and> as \<noteq> [] \<and> set as \<subseteq> {(d, s). d + 8 \<le> 128}"
    by blast
qed

end
