(* ===== verification/Panvk_Submit.thy ===== *)
theory Panvk_Submit
  imports Kbase_Queue Kbase_Sync
begin

text \<open>
  The client of the kbase queue and of its sync objects: \<open>vkQueueSubmit\<close> of the Vulkan driver on
  job-manager GPUs (\<open>panfrost/vulkan/jm/panvk_vX_gpu_queue.c\<close>), on a kbase device. The path
  without the debugging environment variables is modelled in full: the waits, the preparation of the
  batches, the chain of atoms, its split into several submissions, the marking and the signalling
  of the sync objects, the fence, and the completion callback on the event thread; so is the
  batch-by-batch submission of the debugging path.

  Command buffers are the indices of a list, since a command buffer may occur several times in a submission. The
  callback data are identifiers of a map. CPU-cache maintenance (modelled with the buffer objects)
  and the logging of faults do not touch this state. The command buffer of the emulated formats'
  refresh, if any, is an argument.
\<close>

section \<open>State\<close>

datatype panvk_cmd_event_op = PANVK_EVENT_OP_SET nat | PANVK_EVENT_OP_RESET nat | PANVK_EVENT_OP_WAIT nat

record panvk_batch =
  vtc_first_job :: u64
  frag_first_job :: u64
  issued :: bool
  batch_jobs :: "u32 list list"
  ctx_descs_cpu :: bool
  heap_desc :: "u32 list"
  heap_templ :: "u32 list"
  ctx_descs :: "u32 list list"
  ctx_templ :: "u32 list"
  layer_count :: nat
  event_ops :: "panvk_cmd_event_op list"

record panvk_cmd_buffer =
  cmd_batches :: "panvk_batch list"
  kbase_seq :: nat

record vk_queue_submit =
  submit_waits :: "nat list"
  submit_command_buffers :: "nat list"
  submit_signals :: "nat list"

record panvk_kbase_done =
  done_cmdbufs :: "nat list"
  done_signals :: "nat list"

record panvk_state =
  p_queue :: kbase_queue
  p_sync :: ks
  p_cmds :: "panvk_cmd_buffer list"
  p_done :: "nat \<rightharpoonup> panvk_kbase_done"
  p_next :: nat
  p_lost :: bool

definition KBASE_JD_REQ_VERTEX_TILER :: u32 where "KBASE_JD_REQ_VERTEX_TILER = 0x4e"
definition KBASE_JD_REQ_FRAGMENT :: u32 where "KBASE_JD_REQ_FRAGMENT = 0x8001"

section \<open>Preparing a batch\<close>

text \<open>
  The first 16 bytes of every job and, when the batch has tiler contexts, the heap descriptor and
  one context per layer are written again.
\<close>

definition panvk_queue_prepare_batch :: "panvk_batch \<Rightarrow> panvk_batch" where
  "panvk_queue_prepare_batch b =
     (if issued b
      then let b1 = b\<lparr>batch_jobs := map (\<lambda>job. replicate 4 0 @ drop 4 job) (batch_jobs b)\<rparr>
           in if ctx_descs_cpu b1
              then b1\<lparr>heap_desc := heap_templ b1,
                      ctx_descs := map (\<lambda>(i, c). if i < layer_count b1 then ctx_templ b1 else c) (enumerate 0 (ctx_descs b1))\<rparr>
              else b1
      else b)"

section \<open>Completion\<close>

text \<open>On kbase, transferring the queue's fence to an object signals it.\<close>

definition panvk_queue_transfer_sync :: "nat \<Rightarrow> ks \<Rightarrow> ks" where
  "panvk_queue_transfer_sync syncobj s = snd (ks_signal [syncobj] s)"

definition panvk_add_wait_event_syncobjs :: "panvk_batch \<Rightarrow> nat list \<Rightarrow> nat list" where
  "panvk_add_wait_event_syncobjs b in_fences =
     in_fences @ concat (map (\<lambda>op. case op of PANVK_EVENT_OP_WAIT h \<Rightarrow> [h] | _ \<Rightarrow> []) (event_ops b))"

fun signal_event_ops :: "panvk_cmd_event_op list \<Rightarrow> ks \<Rightarrow> ks option" where
  "signal_event_ops [] s = Some s"
| "signal_event_ops (op # ops) s =
     (case op of
        PANVK_EVENT_OP_SET h \<Rightarrow> signal_event_ops ops (panvk_queue_transfer_sync h s)
      | PANVK_EVENT_OP_RESET h \<Rightarrow>
          (case ks_reset [h] s of (ret, s') \<Rightarrow> if ret = 0 then signal_event_ops ops s' else None)
      | PANVK_EVENT_OP_WAIT h \<Rightarrow> signal_event_ops ops s)"

definition panvk_signal_event_syncobjs :: "panvk_batch \<Rightarrow> ks \<Rightarrow> ks option" where
  "panvk_signal_event_syncobjs b s = signal_event_ops (event_ops b) s"

fun signal_batches :: "panvk_batch list \<Rightarrow> ks \<Rightarrow> ks option" where
  "signal_batches [] s = Some s"
| "signal_batches (b # bs) s =
     (case panvk_signal_event_syncobjs b s of None \<Rightarrow> None | Some s' \<Rightarrow> signal_batches bs s')"

definition batches_of :: "panvk_cmd_buffer list \<Rightarrow> nat list \<Rightarrow> panvk_batch list" where
  "batches_of cmds js = concat (map (\<lambda>j. cmd_batches (cmds ! j)) js)"

text \<open>
  The callback with its data \<open>d\<close>. Whether the submission completed decides only what is
  logged.
\<close>

definition panvk_kbase_submit_done :: "panvk_kbase_done \<Rightarrow> bool \<Rightarrow> panvk_state \<Rightarrow> panvk_state option" where
  "panvk_kbase_submit_done d ok st = do {
     s1 \<leftarrow> signal_batches (batches_of (p_cmds st) (done_cmdbufs d)) (p_sync st);
     Some (st\<lparr>p_sync := (if done_signals d \<noteq> [] then snd (ks_signal (done_signals d) s1) else s1)\<rparr>)
   }"

text \<open>The callbacks of a stretch of the queue's callback log; each frees its data.\<close>

fun panvk_callbacks :: "(nat \<times> bool) list \<Rightarrow> panvk_state \<Rightarrow> panvk_state option" where
  "panvk_callbacks [] st = Some st"
| "panvk_callbacks ((c, ok) # cs) st =
     (case p_done st c of
        None \<Rightarrow> panvk_callbacks cs st
      | Some d \<Rightarrow>
          (case panvk_kbase_submit_done d ok st of
             None \<Rightarrow> None
           | Some st' \<Rightarrow> panvk_callbacks cs (st'\<lparr>p_done := (p_done st')(c := None)\<rparr>)))"

section \<open>The chain of atoms\<close>

text \<open>
  \<open>atoms\<close> and \<open>last\<close> of the loop, the queue, and the submissions sent so far, whose number
  selects what the environment does for the next one.
\<close>

record chain_state =
  ch_queue :: kbase_queue
  ch_atoms :: "pan_kmod_kbase_atom list"
  ch_last :: u8
  ch_sent :: "pan_kmod_kbase_atom list list"

record chain_env =
  ce_malloc_ok :: bool
  ce_refresh :: "nat option"
  ce_submit :: "nat \<Rightarrow> submit_env"
  ce_wakes :: "nat \<Rightarrow> (kbase_queue \<Rightarrow> kbase_queue) list"
  ce_waits :: "nat \<Rightarrow> (kbase_queue \<Rightarrow> kbase_queue) list"

definition push_atom :: "u64 \<Rightarrow> u32 \<Rightarrow> chain_state \<Rightarrow> chain_state" where
  "push_atom jc core_req cs =
     (if jc \<noteq> 0
      then let n = word_of_nat (length (ch_atoms cs) + 1)
           in cs\<lparr>ch_atoms := ch_atoms cs @ [\<lparr>a_jc = jc, a_core_req = core_req, a_atom_number = n, a_dep_atom = ch_last cs\<rparr>],
                 ch_last := n\<rparr>
      else cs)"

text \<open>Sending the atoms there are; \<open>None\<close> when the call does not return.\<close>

definition chain_flush :: "chain_env \<Rightarrow> chain_state \<Rightarrow> chain_state option" where
  "chain_flush ce cs =
     (let k = length (ch_sent cs)
      in case pan_kmod_kbase_submit_async (ce_submit ce k) (ce_wakes ce k) (ch_atoms cs) False None (ch_queue cs) of
           None \<Rightarrow> None
         | Some r \<Rightarrow>
             map_option (\<lambda>q. \<lparr>ch_queue = q, ch_atoms = [], ch_last = 0, ch_sent = ch_sent cs @ [ch_atoms cs]\<rparr>)
               (result_queue r))"

definition chain_batch :: "chain_env \<Rightarrow> panvk_batch \<Rightarrow> chain_state \<Rightarrow> chain_state option" where
  "chain_batch ce b cs = do {
     cs1 \<leftarrow> (if PAN_KMOD_KBASE_MAX_ATOMS < length (ch_atoms cs) + 2 then chain_flush ce cs else Some cs);
     Some (push_atom (frag_first_job b) KBASE_JD_REQ_FRAGMENT (push_atom (vtc_first_job b) KBASE_JD_REQ_VERTEX_TILER cs1))
   }"

fun chain_batches :: "chain_env \<Rightarrow> panvk_batch list \<Rightarrow> chain_state \<Rightarrow> (panvk_batch list \<times> chain_state) option" where
  "chain_batches ce [] cs = Some ([], cs)"
| "chain_batches ce (b # bs) cs =
     (case chain_batch ce (panvk_queue_prepare_batch b) cs of
        None \<Rightarrow> None
      | Some cs1 \<Rightarrow>
          (case chain_batches ce bs cs1 of
             None \<Rightarrow> None
           | Some (bs', cs2) \<Rightarrow> Some ((panvk_queue_prepare_batch b)\<lparr>issued := True\<rparr> # bs', cs2)))"

fun chain_cmdbufs :: "chain_env \<Rightarrow> nat list \<Rightarrow> panvk_cmd_buffer list \<Rightarrow> chain_state \<Rightarrow>
  (panvk_cmd_buffer list \<times> chain_state) option" where
  "chain_cmdbufs ce [] cmds cs = Some (cmds, cs)"
| "chain_cmdbufs ce (j # js) cmds cs =
     (case chain_batches ce (cmd_batches (cmds ! j)) cs of
        None \<Rightarrow> None
      | Some (bs, cs1) \<Rightarrow> chain_cmdbufs ce js (cmds[j := (cmds ! j)\<lparr>cmd_batches := bs\<rparr>]) cs1)"

text \<open>The waits for the previous submission of each command buffer.\<close>

fun wait_cmdbufs :: "chain_env \<Rightarrow> nat \<Rightarrow> nat list \<Rightarrow> panvk_cmd_buffer list \<Rightarrow> kbase_queue \<Rightarrow> kbase_queue option" where
  "wait_cmdbufs ce k [] cmds q = Some q"
| "wait_cmdbufs ce k (j # js) cmds q =
     (case (if kbase_seq (cmds ! j) \<noteq> 0 then pan_kmod_kbase_wait_seq (ce_waits ce k) (kbase_seq (cmds ! j)) q else Some q) of
        None \<Rightarrow> None
      | Some q' \<Rightarrow> wait_cmdbufs ce (Suc k) js cmds q')"

definition chain_start :: "kbase_queue \<Rightarrow> chain_state" where
  "chain_start q = \<lparr>ch_queue = q, ch_atoms = [], ch_last = 0, ch_sent = []\<rparr>"

section \<open>The submission\<close>

text \<open>
  Up to the return of the last \<open>pan_kmod_kbase_submit_async\<close>. With nothing to run, that call
  runs the callback itself. While the call waits or sleeps, the event thread may run the
  callbacks of earlier submissions: those logged before the signals are marked submitted take
  effect before that, the others after it.
\<close>

datatype chain_result =
    Chain_refused panvk_kbase_done
  | Chain_sent nat int

definition chain_cmdbuf_list :: "chain_env \<Rightarrow> vk_queue_submit \<Rightarrow> nat list" where
  "chain_cmdbuf_list ce submit =
     (case (if submit_command_buffers submit \<noteq> [] then ce_refresh ce else None) of
        None \<Rightarrow> submit_command_buffers submit
      | Some r \<Rightarrow> r # submit_command_buffers submit)"

definition panvk_chain_send :: "chain_env \<Rightarrow> vk_queue_submit \<Rightarrow> panvk_state \<Rightarrow> (chain_result \<times> panvk_state) option" where
  "panvk_chain_send ce submit st = do {
     let js = chain_cmdbuf_list ce submit;
     let signals = submit_signals submit;
     let d = \<lparr>done_cmdbufs = js, done_signals = signals\<rparr>;
     let c = p_next st;
     c_assert (list_all (\<lambda>j. j < length (p_cmds st)) js);
     q1 \<leftarrow> wait_cmdbufs ce 0 js (p_cmds st) (p_queue st);
     (cmds, cs) \<leftarrow> chain_cmdbufs ce js (p_cmds st) (chain_start q1);
     st0 \<leftarrow> panvk_callbacks (drop (length (cb_log (p_queue st))) (cb_log (ch_queue cs))) st;
     let s1 = pan_kmod_kbase_sync_submitted signals (p_sync st0);
     let k = length (ch_sent cs);
     r \<leftarrow> pan_kmod_kbase_submit_async (ce_submit ce k) (ce_wakes ce k) (ch_atoms cs) (signals \<noteq> []) (Some c) (ch_queue cs);
     let st1 = st0\<lparr>p_sync := s1, p_cmds := cmds, p_next := c + 1\<rparr>;
     (case r of
        Submit_refused q2 \<Rightarrow> do {
          st2 \<leftarrow> panvk_callbacks (drop (length (cb_log (ch_queue cs))) (cb_log q2)) (st1\<lparr>p_queue := q2\<rparr>);
          Some (Chain_refused d, st2)
        }
      | Submit_ok seq fence jd q2 \<Rightarrow> do {
          st2 \<leftarrow> panvk_callbacks (drop (length (cb_log (ch_queue cs))) (cb_log q2))
                  (st1\<lparr>p_queue := q2, p_done := (p_done st1)(c \<mapsto> d)\<rparr>);
          Some (Chain_sent seq fence, st2)
        }
      | Submit_stuck \<Rightarrow> None)
   }"

text \<open>After it: a refused submission signals at once, a sent one attaches the fence.\<close>

definition panvk_chain_attach :: "vk_queue_submit \<Rightarrow> nat \<Rightarrow> int \<Rightarrow> panvk_state \<Rightarrow> panvk_state" where
  "panvk_chain_attach submit seq fence st =
     (let s1 = pan_kmod_kbase_sync_attach_fd (submit_signals submit) fence (p_sync st);
          s2 = (if 0 \<le> fence then s1\<lparr>ks_os := os_close fence (ks_os s1)\<rparr> else s1)
      in st\<lparr>p_sync := s2, p_cmds := fold (\<lambda>j cmds. cmds[j := (cmds ! j)\<lparr>kbase_seq := seq\<rparr>]) (submit_command_buffers submit) (p_cmds st)\<rparr>)"

text \<open>\<open>other\<close> is what other threads, the event thread among them, do in between.\<close>

definition panvk_queue_submit_kbase_chain ::
  "chain_env \<Rightarrow> (panvk_state \<Rightarrow> panvk_state option) \<Rightarrow> vk_queue_submit \<Rightarrow> panvk_state \<Rightarrow> panvk_state option" where
  "panvk_queue_submit_kbase_chain ce other submit st =
     (if \<not> ce_malloc_ok ce then Some (st\<lparr>p_lost := True\<rparr>)
      else do {
        (r, st1) \<leftarrow> panvk_chain_send ce submit st;
        (case r of
           Chain_refused d \<Rightarrow> panvk_kbase_submit_done d False st1
         | Chain_sent seq fence \<Rightarrow> map_option (panvk_chain_attach submit seq fence) (other st1))
      })"

text \<open>The kbase part of the queue's submit entry point: \<open>WAIT_ALL | WAIT_AVAILABLE\<close> is 5.\<close>

definition gpu_queue_submit ::
  "wake list \<Rightarrow> chain_env \<Rightarrow> (panvk_state \<Rightarrow> panvk_state option) \<Rightarrow> vk_queue_submit \<Rightarrow> panvk_state \<Rightarrow> panvk_state option" where
  "gpu_queue_submit ws ce other submit st = do {
     s1 \<leftarrow> (if submit_waits submit \<noteq> []
            then map_option (\<lambda>(ret, first, s). s) (ks_wait ws (submit_waits submit) INT64_MAX 5 (p_sync st))
            else Some (p_sync st));
     panvk_queue_submit_kbase_chain ce other submit (st\<lparr>p_sync := s1\<rparr>)
   }"

section \<open>Batch by batch\<close>

text \<open>The kbase branch of \<open>panvk_queue_submit_batch\<close>: both atoms at once, then a wait for them.\<close>

definition batch_atoms :: "panvk_batch \<Rightarrow> pan_kmod_kbase_atom list" where
  "batch_atoms b =
     (if vtc_first_job b \<noteq> 0
      then [\<lparr>a_jc = vtc_first_job b, a_core_req = KBASE_JD_REQ_VERTEX_TILER, a_atom_number = 1, a_dep_atom = 0\<rparr>] else []) @
     (if frag_first_job b \<noteq> 0
      then [\<lparr>a_jc = frag_first_job b, a_core_req = KBASE_JD_REQ_FRAGMENT, a_atom_number = 2,
             a_dep_atom = (if vtc_first_job b \<noteq> 0 then 1 else 0)\<rparr>] else [])"

definition panvk_queue_submit_batch ::
  "submit_env \<Rightarrow> (kbase_queue \<Rightarrow> kbase_queue) list \<Rightarrow> (kbase_queue \<Rightarrow> kbase_queue) list \<Rightarrow> nat \<Rightarrow> panvk_batch \<Rightarrow> kbase_queue \<Rightarrow>
   (panvk_batch \<times> kbase_queue) option" where
  "panvk_queue_submit_batch env ws ws' c b q = do {
     let b1 = panvk_queue_prepare_batch b;
     q1 \<leftarrow> (if batch_atoms b1 \<noteq> [] then map_option snd (pan_kmod_kbase_submit env ws ws' c (batch_atoms b1) q) else Some q);
     Some (b1\<lparr>issued := True\<rparr>, q1)
   }"

section \<open>What the chain contains\<close>

definition batch_jc :: "panvk_batch \<Rightarrow> (u64 \<times> u32) list" where
  "batch_jc b = (if vtc_first_job b \<noteq> 0 then [(vtc_first_job b, KBASE_JD_REQ_VERTEX_TILER)] else []) @
     (if frag_first_job b \<noteq> 0 then [(frag_first_job b, KBASE_JD_REQ_FRAGMENT)] else [])"

definition atom_jc :: "pan_kmod_kbase_atom \<Rightarrow> u64 \<times> u32" where
  "atom_jc a = (a_jc a, a_core_req a)"

definition chain_jobs :: "chain_state \<Rightarrow> (u64 \<times> u32) list" where
  "chain_jobs cs = map atom_jc (concat (ch_sent cs) @ ch_atoms cs)"

definition chain_ok :: "chain_state \<Rightarrow> bool" where
  "chain_ok cs \<longleftrightarrow> chained (ch_atoms cs) \<and> length (ch_atoms cs) \<le> PAN_KMOD_KBASE_MAX_ATOMS \<and>
     unat (ch_last cs) = length (ch_atoms cs) \<and>
     list_all (\<lambda>as. chained as \<and> as \<noteq> [] \<and> length as \<le> PAN_KMOD_KBASE_MAX_ATOMS) (ch_sent cs)"

lemma chained_snoc:
  "chained (as @ [a]) \<longleftrightarrow> chained as \<and> unat (a_atom_number a) = Suc (length as) \<and> unat (a_dep_atom a) = length as"
  by (auto simp: chained_def nth_append less_Suc_eq)

lemma push_atom_ok:
  assumes "chain_ok cs" and "length (ch_atoms cs) < PAN_KMOD_KBASE_MAX_ATOMS"
  shows "chain_ok (push_atom jc req cs)"
    "chain_jobs (push_atom jc req cs) = chain_jobs cs @ (if jc \<noteq> 0 then [(jc, req)] else [])"
    "length (ch_atoms (push_atom jc req cs)) \<le> Suc (length (ch_atoms cs))"
proof -
  have "unat (word_of_nat (length (ch_atoms cs) + 1) :: u8) = length (ch_atoms cs) + 1"
    unfolding unat_of_nat using assms(2) by (intro mod_less) (simp add: PAN_KMOD_KBASE_MAX_ATOMS_def)
  then show "chain_ok (push_atom jc req cs)"
    using assms by (simp add: chain_ok_def push_atom_def Let_def chained_snoc)
  show "chain_jobs (push_atom jc req cs) = chain_jobs cs @ (if jc \<noteq> 0 then [(jc, req)] else [])"
    "length (ch_atoms (push_atom jc req cs)) \<le> Suc (length (ch_atoms cs))"
    by (simp_all add: chain_jobs_def push_atom_def Let_def atom_jc_def)
qed

text \<open>An intermediate submission that has not returned (or has failed an assertion).\<close>

definition send_blocked :: "chain_env \<Rightarrow> bool" where
  "send_blocked ce \<longleftrightarrow> (\<exists>k as q. pan_kmod_kbase_submit_async (ce_submit ce k) (ce_wakes ce k) as False None q \<in> {None, Some Submit_stuck})"

lemma chain_flush_cases:
  assumes "chain_ok cs" and "ch_atoms cs \<noteq> []"
  obtains "chain_flush ce cs = None" "send_blocked ce"
  | cs' where "chain_flush ce cs = Some cs'" "chain_ok cs'" "chain_jobs cs' = chain_jobs cs" "ch_atoms cs' = []"
proof (cases "chain_flush ce cs")
  case None
  then have "send_blocked ce" unfolding send_blocked_def chain_flush_def Let_def result_queue_def
    by (auto split: option.splits submit_result.splits)
  then show ?thesis using that(1) None by blast
next
  case (Some cs')
  then have "chain_ok cs'" "chain_jobs cs' = chain_jobs cs" "ch_atoms cs' = []"
    using assms by (auto simp: chain_flush_def Let_def chain_ok_def chain_jobs_def chained_def split: option.splits)
  then show ?thesis using that(2) Some by blast
qed

lemma chain_batch_spec:
  assumes "chain_ok cs"
  shows "case chain_batch ce b cs of
      None \<Rightarrow> send_blocked ce
    | Some cs' \<Rightarrow> chain_ok cs' \<and> chain_jobs cs' = chain_jobs cs @ batch_jc b"
proof -
  have push: "chain_ok (push_atom j2 r2 (push_atom j1 r1 cs1)) \<and>
      chain_jobs (push_atom j2 r2 (push_atom j1 r1 cs1)) = chain_jobs cs1 @ (if j1 \<noteq> 0 then [(j1, r1)] else []) @ (if j2 \<noteq> 0 then [(j2, r2)] else [])"
    if "chain_ok cs1" "length (ch_atoms cs1) + 2 \<le> PAN_KMOD_KBASE_MAX_ATOMS" for cs1 j1 r1 j2 r2
  proof -
    note a = push_atom_ok [OF that(1), of j1 r1]
    have "length (ch_atoms cs1) < PAN_KMOD_KBASE_MAX_ATOMS" using that(2) by linarith
    note a = a [OF this]
    have "length (ch_atoms (push_atom j1 r1 cs1)) < PAN_KMOD_KBASE_MAX_ATOMS" using that(2) a(3) by linarith
    from push_atom_ok [OF a(1) this, of j2 r2] a(2) show ?thesis by simp
  qed
  show ?thesis
  proof (cases "PAN_KMOD_KBASE_MAX_ATOMS < length (ch_atoms cs) + 2")
    case True
    then have "ch_atoms cs \<noteq> []" by (auto simp: PAN_KMOD_KBASE_MAX_ATOMS_def)
    with assms show ?thesis
    proof (cases rule: chain_flush_cases [where ce = ce])
      case (2 cs')
      then show ?thesis using True push [of cs'] by (simp add: chain_batch_def batch_jc_def PAN_KMOD_KBASE_MAX_ATOMS_def)
    qed (use True in \<open>simp add: chain_batch_def\<close>)
  next
    case False
    then show ?thesis using push [OF assms] by (simp add: chain_batch_def batch_jc_def)
  qed
qed

lemma prepare_batch_jc [simp]: "batch_jc (panvk_queue_prepare_batch b) = batch_jc b" "batch_jc (b\<lparr>issued := x\<rparr>) = batch_jc b"
  by (simp_all add: panvk_queue_prepare_batch_def batch_jc_def Let_def)

lemma chain_batches_spec:
  assumes "chain_ok cs"
  shows "case chain_batches ce bs cs of
      None \<Rightarrow> send_blocked ce
    | Some (bs', cs') \<Rightarrow> chain_ok cs' \<and> chain_jobs cs' = chain_jobs cs @ concat (map batch_jc bs) \<and>
        map batch_jc bs' = map batch_jc bs \<and> list_all issued bs'"
  using assms
proof (induction bs arbitrary: cs)
  case (Cons b bs)
  note b = chain_batch_spec [OF Cons.prems, of ce "panvk_queue_prepare_batch b"]
  show ?case
  proof (cases "chain_batch ce (panvk_queue_prepare_batch b) cs")
    case (Some cs1)
    then have "chain_ok cs1" "chain_jobs cs1 = chain_jobs cs @ batch_jc b" using b by simp_all
    then show ?thesis using Cons.IH [of cs1] Some by (auto split: option.splits)
  qed (use b in simp)
qed simp

lemma map_update_same: "f y = f (xs ! i) \<Longrightarrow> map f (xs[i := y]) = map f xs"
  by (metis list_update_id map_update)

definition cmd_jc :: "panvk_cmd_buffer \<Rightarrow> (u64 \<times> u32) list" where
  "cmd_jc c = concat (map batch_jc (cmd_batches c))"

lemma chain_cmdbufs_spec:
  assumes "chain_ok cs" and "list_all (\<lambda>j. j < length cmds) js"
  shows "case chain_cmdbufs ce js cmds cs of
      None \<Rightarrow> send_blocked ce
    | Some (cmds', cs') \<Rightarrow> chain_ok cs' \<and> chain_jobs cs' = chain_jobs cs @ concat (map (\<lambda>j. cmd_jc (cmds ! j)) js)"
  using assms
proof (induction js arbitrary: cmds cs)
  case (Cons j js)
  note b = chain_batches_spec [OF Cons.prems(1), of ce "cmd_batches (cmds ! j)"]
  show ?case
  proof (cases "chain_batches ce (cmd_batches (cmds ! j)) cs")
    case (Some r)
    obtain bs cs1 where r: "r = (bs, cs1)" by force
    let ?c = "(cmds ! j)\<lparr>cmd_batches := bs\<rparr>"
    have c: "chain_ok cs1" "chain_jobs cs1 = chain_jobs cs @ cmd_jc (cmds ! j)" "cmd_jc ?c = cmd_jc (cmds ! j)"
      using b Some r by (simp_all add: cmd_jc_def)
    have "map cmd_jc (cmds[j := ?c]) = map cmd_jc cmds" using c(3) by (rule map_update_same)
    then have "cmd_jc (cmds[j := ?c] ! i) = cmd_jc (cmds ! i)" if "i < length cmds" for i
      using that by (metis length_list_update nth_map)
    then have e: "concat (map (\<lambda>i. cmd_jc (cmds[j := ?c] ! i)) js) = concat (map (\<lambda>i. cmd_jc (cmds ! i)) js)"
      using Cons.prems(2) by (intro arg_cong [where f = concat] map_cong) (simp_all add: list_all_iff)
    then show ?thesis using Cons.IH [OF c(1), of "cmds[j := ?c]"] Cons.prems(2) Some r c(2) unfolding e by (auto split: option.splits)
  qed (use b in simp)
qed simp

text \<open>
  Property C19.  The atoms of a submission are the jobs of its command buffers: whatever the kernel
  answers to the submissions in between, unless one of them never returns, the loop builds
  submissions of at most 253 atoms, each numbered from 1 with every atom waiting for the one
  before it (the form the queue keeps in order), and all of them together are the vertex and
  fragment jobs of the batches, every job once and in the order of the command buffers.
\<close>

theorem panvk_chain_atoms:
  assumes "list_all (\<lambda>j. j < length cmds) js"
  shows "case chain_cmdbufs ce js cmds (chain_start q) of
      None \<Rightarrow> send_blocked ce
    | Some (cmds', cs) \<Rightarrow>
        list_all (\<lambda>as. chained as \<and> length as \<le> PAN_KMOD_KBASE_MAX_ATOMS) (ch_sent cs @ [ch_atoms cs]) \<and>
        map (\<lambda>a. (a_jc a, a_core_req a)) (concat (ch_sent cs @ [ch_atoms cs])) =
          concat (map (\<lambda>j. concat (map batch_jc (cmd_batches (cmds ! j)))) js)"
proof -
  have s: "chain_ok (chain_start q)" "chain_jobs (chain_start q) = []"
    by (simp_all add: chain_ok_def chain_start_def chain_jobs_def chained_def)
  have "(\<lambda>a. (a_jc a, a_core_req a)) = atom_jc" by (simp add: atom_jc_def fun_eq_iff)
  then show ?thesis using chain_cmdbufs_spec [OF s(1) assms, of ce] s(2)
    by (auto simp: chain_ok_def chain_jobs_def cmd_jc_def list_all_iff split: option.splits)
qed

definition batch_example :: panvk_batch where
  "batch_example = \<lparr>vtc_first_job = 0x1000, frag_first_job = 0x2000, issued = False, batch_jobs = [], ctx_descs_cpu = False,
     heap_desc = [], heap_templ = [], ctx_descs = [], ctx_templ = [], layer_count = 0, event_ops = []\<rparr>"

definition chain_env_example :: chain_env where
  "chain_env_example = \<lparr>ce_malloc_ok = True, ce_refresh = None, ce_submit = \<lambda>_. env_example, ce_wakes = \<lambda>_. [], ce_waits = \<lambda>_. []\<rparr>"

theorem panvk_chain_atoms_witness:
  "\<exists>cmds' cs. chain_cmdbufs chain_env_example [0] [\<lparr>cmd_batches = [batch_example], kbase_seq = 0\<rparr>] (chain_start kbase_queue_init) = Some (cmds', cs) \<and>
     map (\<lambda>a. (a_jc a, a_core_req a)) (concat (ch_sent cs @ [ch_atoms cs])) =
       [(0x1000, KBASE_JD_REQ_VERTEX_TILER), (0x2000, KBASE_JD_REQ_FRAGMENT)]"
proof -
  let ?cmds = "[\<lparr>cmd_batches = [batch_example], kbase_seq = 0\<rparr>]"
  obtain r where r: "chain_cmdbufs chain_env_example [0] ?cmds (chain_start kbase_queue_init) = Some r"
    by (simp add: chain_batch_def chain_start_def PAN_KMOD_KBASE_MAX_ATOMS_def)
  show ?thesis using panvk_chain_atoms [of ?cmds "[0]" chain_env_example kbase_queue_init] r
    by (cases r) (simp add: batch_jc_def batch_example_def)
qed

section \<open>Signalling\<close>

definition ops_live :: "ks \<Rightarrow> panvk_cmd_event_op list \<Rightarrow> bool" where
  "ops_live s ops \<longleftrightarrow> list_all (\<lambda>op. case op of PANVK_EVENT_OP_RESET h \<Rightarrow> ks_look s h \<noteq> None | _ \<Rightarrow> True) ops"

definition batches_live :: "ks \<Rightarrow> panvk_batch list \<Rightarrow> bool" where
  "batches_live s bs \<longleftrightarrow> list_all (\<lambda>b. ops_live s (event_ops b)) bs"

text \<open>What leaves the objects in place: the invariant, the descriptors and the live handles.\<close>

definition stays :: "ks \<Rightarrow> ks \<Rightarrow> bool" where
  "stays s t \<longleftrightarrow> keeps s t {} \<and> (\<forall>h. (ks_look t h = None) = (ks_look s h = None))"

lemma stays_trans: "stays s t \<Longrightarrow> stays t u \<Longrightarrow> stays s u"
  by (auto simp: stays_def intro: keeps_trans)

lemma stays_live: "stays s t \<Longrightarrow> ops_live t ops = ops_live s ops" "stays s t \<Longrightarrow> batches_live t bs = batches_live s bs"
  by (auto simp: stays_def ops_live_def batches_live_def split: panvk_cmd_event_op.split intro!: list.pred_cong)

lemma ks_look_signal:
  "ks_look (snd (ks_signal hs s)) = (\<lambda>h. if h \<in> set hs \<and> ks_look s h \<noteq> None then Some (set_to KS_SIGNALED) else ks_look s h)"
  using ks_look_set(1) [of KS_SIGNALED hs 0 s] by (auto simp: ks_signal_def split: prod.splits)

lemma ks_look_reset:
  "ks_look (snd (ks_reset hs s)) = (\<lambda>h. if h \<in> set hs \<and> ks_look s h \<noteq> None then Some (set_to KS_UNSIGNALED) else ks_look s h)"
  using ks_look_set(1) [of KS_UNSIGNALED hs 0 s] by (auto simp: ks_reset_def ks_ret_def split: prod.splits)

lemma ks_reset_live: "ks_look s h \<noteq> None \<Longrightarrow> fst (ks_reset [h] s) = 0"
  using ks_look_set(2) [of KS_UNSIGNALED "[h]" 0 s] by (auto simp: ks_reset_def ks_ret_def split: prod.splits)

lemma stays_signal: "stays s (snd (ks_signal hs s))" and stays_reset: "stays s (snd (ks_reset hs s))"
  using keeps_signal keeps_reset by (auto simp: stays_def ks_look_signal ks_look_reset)

lemma signal_event_ops_stays:
  "ops_live s ops \<Longrightarrow> \<exists>t. signal_event_ops ops s = Some t \<and> stays s t"
proof (induction ops arbitrary: s)
  case Nil
  show ?case by (simp add: stays_def keeps_refl)
next
  case (Cons op ops)
  have rest: "\<exists>t. signal_event_ops ops u = Some t \<and> stays s t" if u: "stays s u" for u
  proof -
    have "ops_live s ops" using Cons.prems by (simp add: ops_live_def)
    then obtain t where "signal_event_ops ops u = Some t" "stays u t" using Cons.IH [of u] stays_live(1) [OF u] by auto
    then show ?thesis using stays_trans [OF u] by blast
  qed
  show ?case
  proof (cases op)
    case (PANVK_EVENT_OP_SET h)
    then show ?thesis using rest [OF stays_signal [of s "[h]"]] by (simp add: panvk_queue_transfer_sync_def)
  next
    case (PANVK_EVENT_OP_RESET h)
    then have "fst (ks_reset [h] s) = 0" using Cons.prems by (intro ks_reset_live) (simp add: ops_live_def)
    then show ?thesis using rest [OF stays_reset [of s "[h]"]] PANVK_EVENT_OP_RESET by (auto split: prod.splits)
  next
    case (PANVK_EVENT_OP_WAIT h)
    then show ?thesis using rest [of s] by (simp add: stays_def keeps_refl)
  qed
qed

lemma signal_batches_stays:
  "batches_live s bs \<Longrightarrow> \<exists>t. signal_batches bs s = Some t \<and> stays s t"
proof (induction bs arbitrary: s)
  case (Cons b bs)
  obtain u where u: "panvk_signal_event_syncobjs b s = Some u" "stays s u"
    using Cons.prems signal_event_ops_stays by (auto simp: batches_live_def panvk_signal_event_syncobjs_def)
  have "batches_live u bs" using Cons.prems stays_live(2) [OF u(2)] by (simp add: batches_live_def)
  then show ?case using Cons.IH [of u] u stays_trans by auto
qed (simp add: stays_def keeps_refl)

lemma submit_done_spec:
  assumes "batches_live (p_sync st) (batches_of (p_cmds st) (done_cmdbufs d))"
  shows "\<exists>s. panvk_kbase_submit_done d ok st = Some (st\<lparr>p_sync := s\<rparr>) \<and> stays (p_sync st) s \<and>
    (\<forall>h \<in> set (done_signals d). ks_look (p_sync st) h \<noteq> None \<longrightarrow> ks_look s h = Some (set_to KS_SIGNALED))"
proof -
  obtain t where t: "signal_batches (batches_of (p_cmds st) (done_cmdbufs d)) (p_sync st) = Some t" "stays (p_sync st) t"
    using signal_batches_stays [OF assms] by blast
  let ?s = "if done_signals d \<noteq> [] then snd (ks_signal (done_signals d) t) else t"
  have "stays (p_sync st) ?s" using t(2) stays_signal stays_trans by auto
  moreover have "ks_look ?s h = Some (set_to KS_SIGNALED)" if "h \<in> set (done_signals d)" "ks_look (p_sync st) h \<noteq> None" for h
    using that t(2) by (auto simp: ks_look_signal stays_def)
  ultimately show ?thesis using t(1) by (intro exI [of _ ?s]) (simp add: panvk_kbase_submit_done_def)
qed

lemma attach_loop_look:
  "(ks_look (attach_loop hs fd s) h = None) = (ks_look s h = None) \<and>
   (\<forall>obj. ks_look s h = Some obj \<and> o_state obj \<noteq> KS_SUBMITTED \<longrightarrow> ks_look (attach_loop hs fd s) h = Some obj) \<and>
   map_option o_state (ks_look (attach_loop hs fd s) h) = map_option o_state (ks_look s h)"
proof (induction hs arbitrary: s)
  case (Cons g hs)
  show ?case
  proof (cases "ks_get s g")
    case (Some i)
    show ?thesis
    proof (cases "o_state (ks_objs s ! i) = KS_SUBMITTED \<and> o_fd (ks_objs s ! i) < 0")
      case True
      obtain r os' where r: "os_dup fd (ks_os s) = (r, os')" by force
      let ?obj = "(ks_objs s ! i)\<lparr>o_fd := dup_result r\<rparr>"
      let ?t = "s\<lparr>ks_objs := (ks_objs s)[i := ?obj], ks_os := os'\<rparr>"
      have i: "i < length (ks_objs s)" "g = Suc i" using ks_getD [OF Some] by simp_all
      have "ks_look s g = Some (ks_objs s ! i)" using Some by (simp add: ks_look_def)
      then have t: "ks_look ?t = (ks_look s)(g \<mapsto> ?obj)" "ks_look s g = Some (ks_objs s ! i)"
        using ks_look_update [OF i(1), of ?obj] True i(2) ks_look_fields(3) [where s = "s\<lparr>ks_objs := (ks_objs s)[i := ?obj]\<rparr>"] by simp_all
      have e: "attach_loop (g # hs) fd s = attach_loop hs fd ?t" using Some True r by simp
      show ?thesis unfolding e using Cons.IH [of ?t] t True by (auto split: if_splits)
    next
      case False
      then have e: "attach_loop (g # hs) fd s = attach_loop hs fd s" using Some by (auto simp: Let_def)
      show ?thesis unfolding e by (rule Cons.IH)
    qed
  qed (use Cons.IH in simp)
qed simp

lemma close_foreign:
  assumes "ks_inv s" "fd \<in> foreign s"
  shows "ks_inv (s\<lparr>ks_os := os_close fd (ks_os s)\<rparr>)" "foreign (s\<lparr>ks_os := os_close fd (ks_os s)\<rparr>) = foreign s - {fd}"
  using assms by (auto simp: ks_inv_def foreign_def os_close_def list_all_iff dest: notin_set_remove1)

lemma chain_attach_look:
  "(ks_look (p_sync (panvk_chain_attach submit seq fence st)) h = None) = (ks_look (p_sync st) h = None)"
  "ks_look (p_sync st) h = Some obj \<Longrightarrow> o_state obj \<noteq> KS_SUBMITTED \<Longrightarrow> ks_look (p_sync (panvk_chain_attach submit seq fence st)) h = Some obj"
  "map_option o_state (ks_look (p_sync (panvk_chain_attach submit seq fence st)) h) = map_option o_state (ks_look (p_sync st) h)"
  using attach_loop_look [of "submit_signals submit" fence "p_sync st" h]
  by (auto simp: panvk_chain_attach_def Let_def pan_kmod_kbase_sync_attach_fd_def)

text \<open>Attaching the fence and closing the driver's own descriptor of it.\<close>

lemma chain_attach_spec:
  assumes "ks_inv (p_sync st)" and "fence = -1 \<or> fence \<in> foreign (p_sync st)"
  shows "ks_inv (p_sync (panvk_chain_attach submit seq fence st))"
    "foreign (p_sync (panvk_chain_attach submit seq fence st)) = foreign (p_sync st) - {fence}"
proof -
  let ?a = "pan_kmod_kbase_sync_attach_fd (submit_signals submit) fence (p_sync st)"
  have a: "ks_inv ?a" "foreign ?a = foreign (p_sync st)" using keeps_attach assms(1) by (simp_all add: keeps_def)
  have s: "p_sync (panvk_chain_attach submit seq fence st) = (if 0 \<le> fence then ?a\<lparr>ks_os := os_close fence (ks_os ?a)\<rparr> else ?a)"
    by (simp add: panvk_chain_attach_def Let_def)
  have n: "0 \<le> fence \<Longrightarrow> fence \<in> foreign ?a" "\<not> 0 \<le> fence \<Longrightarrow> fence \<notin> foreign ?a"
    using assms foreign_nonneg [OF assms(1)] a by (auto simp: ks_inv_def list_all_iff foreign_def)
  show "ks_inv (p_sync (panvk_chain_attach submit seq fence st))"
    "foreign (p_sync (panvk_chain_attach submit seq fence st)) = foreign (p_sync st) - {fence}"
    unfolding s using a n close_foreign [OF a(1), of fence] by auto
qed

lemma chain_attach_cmds: "map cmd_batches (p_cmds (panvk_chain_attach submit seq fence st)) = map cmd_batches (p_cmds st)"
proof -
  have "map cmd_batches (fold (\<lambda>j cmds. cmds[j := (cmds ! j)\<lparr>kbase_seq := seq\<rparr>]) js cmds) = map cmd_batches cmds" for js cmds
    by (induction js arbitrary: cmds) (simp_all add: map_update_same)
  then show ?thesis by (simp add: panvk_chain_attach_def Let_def)
qed

lemma batches_of_cong:
  assumes "map cmd_batches cmds' = map cmd_batches cmds" and "list_all (\<lambda>j. j < length cmds) js"
  shows "batches_of cmds' js = batches_of cmds js"
proof -
  have "cmd_batches (cmds' ! j) = cmd_batches (cmds ! j)" if "j < length cmds" for j
    using that assms(1) by (metis length_map nth_map)
  then show ?thesis unfolding batches_of_def using assms(2)
    by (intro arg_cong [where f = concat] map_cong) (simp_all add: list_all_iff)
qed

text \<open>
  Property C21.  The completion on the event thread and the end of the submitting call run in either
  order: the callback may signal the objects before the call attaches the fence to them, or after. Both
  orders end the same way: every object to signal is signaled and holds no descriptor, the table's
  invariant holds, and the descriptor of the fence is closed, with no other descriptor touched.
\<close>

theorem panvk_completion_order:
  assumes "ks_inv (p_sync st)" and "fence = -1 \<or> fence \<in> foreign (p_sync st)"
    and "d = \<lparr>done_cmdbufs = js, done_signals = submit_signals submit\<rparr>" and "list_all (\<lambda>j. j < length (p_cmds st)) js"
    and "batches_live (p_sync st) (batches_of (p_cmds st) js)"
    and "\<forall>h \<in> set (submit_signals submit). ks_look (p_sync st) h \<noteq> None"
  shows "\<exists>st1 st2. panvk_kbase_submit_done d ok (panvk_chain_attach submit seq fence st) = Some st1 \<and>
    map_option (panvk_chain_attach submit seq fence) (panvk_kbase_submit_done d ok st) = Some st2 \<and>
    (\<forall>x \<in> {st1, st2}. ks_inv (p_sync x) \<and> foreign (p_sync x) = foreign (p_sync st) - {fence} \<and>
       (\<forall>h \<in> set (submit_signals submit). ks_look (p_sync x) h = Some \<lparr>o_state = KS_SIGNALED, o_external = False, o_fd = -1\<rparr>))"
proof -
  let ?a = "panvk_chain_attach submit seq fence"
  note a = chain_attach_spec [OF assms(1,2), where submit = submit and seq = seq]
  have d: "done_cmdbufs d = js" "done_signals d = submit_signals submit" by (simp_all add: assms(3))
  have "batches_live (p_sync (?a st)) (batches_of (p_cmds (?a st)) js)"
    using assms(5) chain_attach_look(1) unfolding batches_of_cong [OF chain_attach_cmds assms(4)]
    by (auto simp: batches_live_def ops_live_def list_all_iff split: panvk_cmd_event_op.splits)
  then obtain s1 where s1: "panvk_kbase_submit_done d ok (?a st) = Some ((?a st)\<lparr>p_sync := s1\<rparr>)" "stays (p_sync (?a st)) s1"
      "\<forall>h \<in> set (submit_signals submit). ks_look s1 h = Some (set_to KS_SIGNALED)"
    using submit_done_spec [of "?a st" d ok] assms(6) chain_attach_look(1) unfolding d by blast
  obtain s2 where s2: "panvk_kbase_submit_done d ok st = Some (st\<lparr>p_sync := s2\<rparr>)" "stays (p_sync st) s2"
      "\<forall>h \<in> set (submit_signals submit). ks_look s2 h = Some (set_to KS_SIGNALED)"
    using submit_done_spec [of st d ok] assms(5,6) unfolding d by blast
  have i2: "ks_inv (p_sync (st\<lparr>p_sync := s2\<rparr>))" "fence = -1 \<or> fence \<in> foreign (p_sync (st\<lparr>p_sync := s2\<rparr>))" "foreign s2 = foreign (p_sync st)"
    using s2(2) assms(1,2) by (auto simp: stays_def keeps_def)
  note b = chain_attach_spec [OF i2(1,2), where submit = submit and seq = seq]
  have "ks_inv s1" "foreign s1 = foreign (p_sync st) - {fence}" using s1(2) a(1,2) by (auto simp: stays_def keeps_def)
  then show ?thesis using s1 s2 b(1,2) chain_attach_look(2) i2(3) by (auto simp: set_to_def)
qed

definition panvk_example :: "ks \<Rightarrow> panvk_state" where
  "panvk_example s = \<lparr>p_queue = kbase_queue_init, p_sync = s, p_cmds = [\<lparr>cmd_batches = [batch_example], kbase_seq = 0\<rparr>],
     p_done = Map.empty, p_next = 0, p_lost = False\<rparr>"

definition submit_example :: "nat list \<Rightarrow> nat list \<Rightarrow> vk_queue_submit" where
  "submit_example waits signals = \<lparr>submit_waits = waits, submit_command_buffers = [0], submit_signals = signals\<rparr>"

theorem panvk_completion_order_witness:
  "\<exists>st1 st2. panvk_kbase_submit_done \<lparr>done_cmdbufs = [0], done_signals = [2]\<rparr> True (panvk_chain_attach (submit_example [] [2]) 1 (-1) (panvk_example ks_example)) = Some st1 \<and>
    map_option (panvk_chain_attach (submit_example [] [2]) 1 (-1)) (panvk_kbase_submit_done \<lparr>done_cmdbufs = [0], done_signals = [2]\<rparr> True (panvk_example ks_example)) = Some st2 \<and>
    ks_look (p_sync st1) 2 = ks_look (p_sync st2) 2"
proof -
  let ?st = "panvk_example ks_example" and ?d = "\<lparr>done_cmdbufs = [0], done_signals = submit_signals (submit_example [] [2])\<rparr>"
  let ?sub = "submit_example [] [2]"
  have l: "batches_live (p_sync ?st) (batches_of (p_cmds ?st) [0])"
    by (simp add: panvk_example_def batches_of_def batches_live_def ops_live_def batch_example_def)
  have i: "ks_inv (p_sync ?st)" and j: "list_all (\<lambda>j. j < length (p_cmds ?st)) [0]"
    and h: "\<forall>h \<in> set (submit_signals ?sub). ks_look (p_sync ?st) h \<noteq> None"
    using ks_example_inv ks_example_look by (simp_all add: panvk_example_def submit_example_def)
  have f: "(-1 :: int) = -1 \<or> -1 \<in> foreign (p_sync ?st)" by simp
  from panvk_completion_order [OF i f refl j l h, of True 1] obtain st1 st2 where
    "panvk_kbase_submit_done ?d True (panvk_chain_attach ?sub 1 (-1) ?st) = Some st1"
    "map_option (panvk_chain_attach ?sub 1 (-1)) (panvk_kbase_submit_done ?d True ?st) = Some st2"
    and x: "\<forall>x \<in> {st1, st2}. ks_inv (p_sync x) \<and> foreign (p_sync x) = foreign (p_sync ?st) - {-1} \<and>
      (\<forall>h \<in> set (submit_signals ?sub). ks_look (p_sync x) h = Some \<lparr>o_state = KS_SIGNALED, o_external = False, o_fd = -1\<rparr>)"
    by (elim exE conjE) (rule that)
  moreover have "ks_look (p_sync st1) 2 = ks_look (p_sync st2) 2" using x by (simp add: submit_example_def)
  ultimately show ?thesis unfolding submit_example_def by auto
qed

section \<open>No signal is lost\<close>

lemma signal_event_ops_Some: "signal_event_ops ops s = Some t \<Longrightarrow> stays s t"
proof (induction ops s rule: signal_event_ops.induct)
  case (2 op ops s)
  show ?case
  proof (cases op)
    case (PANVK_EVENT_OP_SET h)
    then show ?thesis using 2 stays_signal [of s "[h]"] stays_trans by (auto simp: panvk_queue_transfer_sync_def)
  next
    case (PANVK_EVENT_OP_RESET h)
    obtain r u where u: "ks_reset [h] s = (r, u)" by force
    then have "stays s u" using stays_reset [of s "[h]"] by simp
    then show ?thesis using 2 PANVK_EVENT_OP_RESET u stays_trans by (auto split: if_splits)
  next
    case (PANVK_EVENT_OP_WAIT h)
    then show ?thesis using 2 by simp
  qed
qed (simp add: stays_def keeps_refl)

lemma signal_batches_Some: "signal_batches bs s = Some t \<Longrightarrow> stays s t"
proof (induction bs arbitrary: s)
  case (Cons b bs)
  then show ?case using signal_event_ops_Some stays_trans
    by (fastforce simp: panvk_signal_event_syncobjs_def split: option.splits)
qed (simp add: stays_def keeps_refl)

lemma submit_done_signals:
  assumes "panvk_kbase_submit_done d ok st = Some st'" and "h \<in> set (done_signals d)" and "ks_look (p_sync st) h \<noteq> None"
  shows "ks_look (p_sync st') h = Some (set_to KS_SIGNALED)"
proof -
  obtain t where t: "signal_batches (batches_of (p_cmds st) (done_cmdbufs d)) (p_sync st) = Some t"
    "st' = st\<lparr>p_sync := (if done_signals d \<noteq> [] then snd (ks_signal (done_signals d) t) else t)\<rparr>"
    using assms(1) by (auto simp: panvk_kbase_submit_done_def split: bind_splits)
  then have "ks_look t h \<noteq> None" using assms(3) signal_batches_Some [OF t(1)] by (simp add: stays_def)
  then show ?thesis using t(2) assms(2) by (auto simp: ks_look_signal)
qed

lemma submitted_look:
  "ks_look (pan_kmod_kbase_sync_submitted hs s) = (\<lambda>h. if h \<in> set hs \<and> ks_look s h \<noteq> None then Some (set_to KS_SUBMITTED) else ks_look s h)"
  using ks_look_set(1) [of KS_SUBMITTED hs 0 s] by (simp add: pan_kmod_kbase_sync_submitted_def)

text \<open>
  Other threads that give atom numbers back, submit or complete work, but run no completion
  callback.
\<close>

definition quiet :: "(kbase_queue \<Rightarrow> kbase_queue) list \<Rightarrow> bool" where
  "quiet ws \<longleftrightarrow> (\<forall>w \<in> set ws. \<forall>q. cb_log (w q) = cb_log q)"

lemma cond_wait_log: "cond_wait ws ready q = Some q' \<Longrightarrow> quiet ws \<Longrightarrow> cb_log q' = cb_log q"
  by (induction ws ready q rule: cond_wait.induct) (auto simp: quiet_def split: if_splits)

lemma take_atoms_log: "take_atoms a b n i k q = Some (xs, q') \<Longrightarrow> cb_log q' = cb_log q"
  by (induction n arbitrary: i k q xs) (auto simp: Let_def split: if_splits option.splits prod.splits)

lemma submit_commit_log:
  assumes "submit_commit env atoms cb c q = res"
  shows "res = Submit_refused q' \<Longrightarrow> cb_log q' = cb_log q" "cb = None \<Longrightarrow> result_queue res = Some q' \<Longrightarrow> cb_log q' = cb_log q"
  using assms
  by (auto simp: submit_commit_def Let_def release_atoms_def submit_account_def result_queue_def dest!: take_atoms_log
      split: if_splits option.splits prod.splits bool.splits)

text \<open>
  A submission that returns its sequence number has run its callback, or has left it with a record
  that waits for its atoms.
\<close>

lemma submit_async_callback:
  assumes "pan_kmod_kbase_submit_async env ws atoms fence_fd (Some c) q = Some (Submit_ok seq fence jd q')" and "quiet ws"
  shows "cb_log q' = cb_log q @ [(c, True)] \<or>
    cb_log q' = cb_log q \<and> (\<exists>p sub. subs q' p = Some sub \<and> sub_cb sub = Some c \<and> sub_seq sub = seq)"
proof -
  obtain call q0 q1 where e: "submit_enter env (length atoms) fence_fd q = (Some call, q0)" and w: "cond_wait ws (submit_ready call) q0 = Some q1"
    and r: "submit_commit env atoms (Some c) call q1 = Submit_ok seq fence jd q'"
    using assms(1) by (auto simp: pan_kmod_kbase_submit_async_def split: prod.splits option.splits if_splits)
  have q1: "cb_log q1 = cb_log q" using submit_enter_SomeD [OF e] cond_wait_log [OF w assms(2)] by simp
  show ?thesis
  proof (cases "c_need call = 0")
    case True
    then show ?thesis using r q1 by (auto simp: submit_commit_def Let_def)
  next
    case False
    let ?t = "take_atoms (sub_for (c_fence call \<and> length atoms \<noteq> 0) (length atoms) (next_ref q1))
      (\<lambda>i. c_fence call \<and> i = length atoms) (c_need call) 0 1 q1"
    have "?t \<noteq> None"
    proof
      assume "?t = None"
      then show False using r False by (simp add: submit_commit_def Let_def split: if_splits)
    qed
    then obtain real q2 where t: "?t = Some (real, q2)" by auto
    have q': "q' = submit_account (c_fence call \<and> length atoms \<noteq> 0) (length atoms) (c_need call) (c_seq call) (Some c) real q2"
      and seq: "seq = c_seq call"
      using r False t by (auto simp: submit_commit_def Let_def split: if_splits prod.splits bool.splits)
    have "cb_log q2 = cb_log q" using take_atoms_log [OF t] q1 by simp
    moreover have "subs q' (next_ref q2) = Some \<lparr>sub_seq = seq, pending = (if c_fence call \<and> length atoms \<noteq> 0 then length atoms else c_need call),
        sub_ok = True, sub_cb = Some c\<rparr>" unfolding q' by (simp add: submit_account_def Let_def seq)
    ultimately show ?thesis using q' by (auto simp: submit_account_def Let_def)
  qed
qed

lemma submit_async_log:
  assumes "pan_kmod_kbase_submit_async env ws atoms fence_fd cb q = Some res" and "quiet ws"
  shows "res = Submit_refused q' \<Longrightarrow> cb_log q' = cb_log q" "cb = None \<Longrightarrow> result_queue res = Some q' \<Longrightarrow> cb_log q' = cb_log q"
proof -
  have "(res = Submit_refused q' \<longrightarrow> cb_log q' = cb_log q) \<and> (cb = None \<longrightarrow> result_queue res = Some q' \<longrightarrow> cb_log q' = cb_log q)"
  proof (cases "submit_enter env (length atoms) fence_fd q")
    case (Pair c q0)
    have q0: "cb_log q0 = cb_log q" using Pair by (auto simp: submit_enter_def Let_def split: if_splits)
    show ?thesis
    proof (cases c)
      case None
      then show ?thesis using assms(1) Pair q0 by (auto simp: pan_kmod_kbase_submit_async_def result_queue_def)
    next
      case (Some call)
      then obtain q1 where w: "cond_wait ws (submit_ready call) q0 = Some q1" and r: "submit_commit env atoms cb call q1 = res"
        using assms(1) Pair by (auto simp: pan_kmod_kbase_submit_async_def)
      show ?thesis using submit_commit_log [OF r, of q'] cond_wait_log [OF w assms(2)] q0 by auto
    qed
  qed
  then show "res = Submit_refused q' \<Longrightarrow> cb_log q' = cb_log q" "cb = None \<Longrightarrow> result_queue res = Some q' \<Longrightarrow> cb_log q' = cb_log q" by blast+
qed

text \<open>Up to the last submission the call itself runs no callback.\<close>

lemma chain_batch_log:
  assumes "chain_batch ce b cs = Some cs'" and "\<forall>k. quiet (ce_wakes ce k)"
  shows "cb_log (ch_queue cs') = cb_log (ch_queue cs)"
proof -
  have "cb_log (ch_queue cs1) = cb_log (ch_queue cs)" if "chain_flush ce cs = Some cs1" for cs1
    using that assms(2) submit_async_log(2) [OF _ _ refl]
    by (auto simp: chain_flush_def Let_def split: option.splits)
  then show ?thesis using assms(1) by (auto simp: chain_batch_def push_atom_def Let_def split: bind_splits if_splits)
qed

lemma chain_batches_log:
  "chain_batches ce bs cs = Some (bs', cs') \<Longrightarrow> \<forall>k. quiet (ce_wakes ce k) \<Longrightarrow> cb_log (ch_queue cs') = cb_log (ch_queue cs)"
  by (induction bs arbitrary: cs bs') (auto dest: chain_batch_log split: option.splits prod.splits)

lemma chain_cmdbufs_log:
  "chain_cmdbufs ce js cmds cs = Some (cmds', cs') \<Longrightarrow> \<forall>k. quiet (ce_wakes ce k) \<Longrightarrow> cb_log (ch_queue cs') = cb_log (ch_queue cs)"
  by (induction js arbitrary: cmds cs) (auto dest!: chain_batches_log split: option.splits prod.splits)

lemma wait_cmdbufs_log:
  "wait_cmdbufs ce k js cmds q = Some q' \<Longrightarrow> \<forall>k. quiet (ce_waits ce k) \<Longrightarrow> cb_log q' = cb_log q"
proof (induction js arbitrary: k q)
  case (Cons j js)
  then show ?case by (fastforce simp: pan_kmod_kbase_wait_seq_def Let_def dest: cond_wait_log split: option.splits if_splits)
qed simp

lemma chain_cmdbufs_length: "chain_cmdbufs ce js cmds cs = Some (cmds', cs') \<Longrightarrow> length cmds' = length cmds"
  by (induction js arbitrary: cmds cs) (auto split: option.splits)

lemma fold_kbase_seq:
  assumes "j \<in> set js" and "j < length cmds"
  shows "kbase_seq (fold (\<lambda>j cmds. cmds[j := (cmds ! j)\<lparr>kbase_seq := seq\<rparr>]) js cmds ! j) = seq"
proof -
  have "length (fold (\<lambda>j cmds. cmds[j := (cmds ! j)\<lparr>kbase_seq := seq\<rparr>]) js cmds) = length cmds \<and>
     (kbase_seq (fold (\<lambda>j cmds. cmds[j := (cmds ! j)\<lparr>kbase_seq := seq\<rparr>]) js cmds ! j) =
       (if j \<in> set js then seq else kbase_seq (cmds ! j)))" using assms(2)
    by (induction js arbitrary: cmds) (auto simp: nth_list_update)
  then show ?thesis using assms(1) by simp
qed

lemma chain_sendD:
  assumes "panvk_chain_send ce submit st = Some (r, st2)" and "\<forall>k. quiet (ce_wakes ce k)" and "\<forall>k. quiet (ce_waits ce k)"
  obtains cmds q1 q2 res where
    "length cmds = length (p_cmds st)" "list_all (\<lambda>j. j < length (p_cmds st)) (submit_command_buffers submit)"
    "\<exists>env ws atoms. pan_kmod_kbase_submit_async env ws atoms (submit_signals submit \<noteq> []) (Some (p_next st)) q1 = Some res \<and> quiet ws"
    "(r, st2) = (Chain_refused \<lparr>done_cmdbufs = chain_cmdbuf_list ce submit, done_signals = submit_signals submit\<rparr>,
        st\<lparr>p_sync := pan_kmod_kbase_sync_submitted (submit_signals submit) (p_sync st), p_cmds := cmds, p_next := p_next st + 1, p_queue := q2\<rparr>) \<or>
     (\<exists>seq fence jd. res = Submit_ok seq fence jd q2 \<and> r = Chain_sent seq fence \<and>
        panvk_callbacks (drop (length (cb_log q1)) (cb_log q2))
          (st\<lparr>p_sync := pan_kmod_kbase_sync_submitted (submit_signals submit) (p_sync st), p_cmds := cmds, p_next := p_next st + 1, p_queue := q2,
              p_done := (p_done st)(p_next st \<mapsto> \<lparr>done_cmdbufs = chain_cmdbuf_list ce submit, done_signals = submit_signals submit\<rparr>)\<rparr>) = Some st2)"
proof -
  let ?js = "chain_cmdbuf_list ce submit"
  obtain q0 cmds cs res where c: "list_all (\<lambda>j. j < length (p_cmds st)) ?js"
    "chain_cmdbufs ce ?js (p_cmds st) (chain_start q0) = Some (cmds, cs)" "wait_cmdbufs ce 0 ?js (p_cmds st) (p_queue st) = Some q0"
    and res: "pan_kmod_kbase_submit_async (ce_submit ce (length (ch_sent cs))) (ce_wakes ce (length (ch_sent cs))) (ch_atoms cs)
      (submit_signals submit \<noteq> []) (Some (p_next st)) (ch_queue cs) = Some res"
    using assms(1) by (auto simp: panvk_chain_send_def Let_def c_assert_def split: bind_splits prod.splits if_splits)
  have l: "length cmds = length (p_cmds st)" by (rule chain_cmdbufs_length [OF c(2)])
  have j: "list_all (\<lambda>j. j < length (p_cmds st)) (submit_command_buffers submit)"
    using c(1) by (auto simp: chain_cmdbuf_list_def split: option.splits if_splits)
  have log: "cb_log (ch_queue cs) = cb_log (p_queue st)"
    using chain_cmdbufs_log [OF c(2) assms(2)] wait_cmdbufs_log [OF c(3) assms(3)] by (simp add: chain_start_def)
  note e = assms(1) [unfolded panvk_chain_send_def Let_def,
      simplified c res log c_assert_True Option.bind.bind_lunit prod.case drop_all le_refl panvk_callbacks.simps]
  have q: "\<exists>env ws atoms. pan_kmod_kbase_submit_async env ws atoms (submit_signals submit \<noteq> []) (Some (p_next st)) (ch_queue cs) = Some res \<and> quiet ws"
    using res assms(2) by blast
  show ?thesis
  proof (cases res)
    case (Submit_refused q2)
    have "cb_log q2 = cb_log (ch_queue cs)" by (rule submit_async_log(1) [OF res _ Submit_refused]) (use assms(2) in blast)
    then show ?thesis using e that [OF l j q, of q2] log Submit_refused by simp
  next
    case (Submit_ok seq fence jd q2)
    then show ?thesis using e that [OF l j q, of q2] log by (auto split: bind_splits)
  qed (use e in simp)
qed


definition refusing_env :: chain_env where
  "refusing_env = chain_env_example\<lparr>ce_submit := \<lambda>_. env_example\<lparr>e_calloc_ok := False\<rparr>\<rparr>"


section \<open>Waits on imported sync files\<close>

text \<open>
  A submission does not wait for an imported sync file: when the only object to wait for holds the
  sync file of another device or process that has not signaled yet, the wait returns at once,
  leaves the object as it is, and the submission goes to the GPU as if there were nothing to
  wait for. The wait asks for availability only, on the ground that every submission runs after the ones
  before it; that does not order it after work that is not this device's.
\<close>

theorem panvk_external_wait_skipped:
  assumes "ks_look (p_sync st) h = Some \<lparr>o_state = KS_SUBMITTED, o_external = True, o_fd = fd\<rparr>" and "0 \<le> fd"
    and "\<not> w_poll w fd" and "submit_waits submit = [h]"
  shows "gpu_queue_submit [w] ce other submit st = panvk_queue_submit_kbase_chain ce other submit st"
proof -
  obtain i where i: "ks_get (p_sync st) h = Some i" "ks_objs (p_sync st) ! i = \<lparr>o_state = KS_SUBMITTED, o_external = True, o_fd = fd\<rparr>"
    using assms(1) by (auto simp: ks_look_Some)
  have "ks_wait_pass (w_poll w) True [h] 0 (0, UINT32_MAX, False) (p_sync st) = (Some (1, 0, True), p_sync st)"
    using i assms(2,3) by (simp add: Let_def UINT32_MAX_def)
  moreover have "bit (5 :: u32) 2" "bit (5 :: u32) 0" by simp_all
  ultimately have "ks_wait [w] [h] INT64_MAX 5 (p_sync st) = Some (0, Some 0, p_sync st)"
    by (simp add: ks_wait_def ks_ret_def UINT32_MAX_def)
  then show ?thesis by (simp add: gpu_queue_submit_def assms(4))
qed

definition imported_example :: ks where
  "imported_example = \<lparr>ks_objs = [\<lparr>o_state = KS_SUBMITTED, o_external = True, o_fd = 5\<rparr>, \<lparr>o_state = KS_UNSIGNALED, o_external = False, o_fd = -1\<rparr>],
     ks_hint = 0, ks_errno = 0, ks_os = \<lparr>fds = [5], fd_limit = 100\<rparr>\<rparr>"

theorem panvk_external_wait_skipped_witness:
  "gpu_queue_submit [\<lparr>w_poll = \<lambda>_. False, w_now = 0, w_other = id\<rparr>] refusing_env Some (submit_example [1] [2]) (panvk_example imported_example) =
     panvk_queue_submit_kbase_chain refusing_env Some (submit_example [1] [2]) (panvk_example imported_example)"
  by (rule panvk_external_wait_skipped [where h = 1 and fd = 5])
    (simp_all add: panvk_example_def imported_example_def ks_look_alt submit_example_def)

end
