(* ===== verification/Blob.thy ===== *)
theory Blob
  imports Mesa_Prelude
begin

text \<open>
  The serialisation buffer of \<open>util/blob.c\<close>, which the shader caches and the pipeline caches of
  all drivers write to and read from. The writer is a growing array with a sticky
  out-of-memory flag; the reader is a cursor with a sticky overrun flag, and it reads files that may be
  truncated or corrupt. Sizes are \<open>size_t\<close>, natural numbers with the wrap-around written out; a
  store or a read outside of an array, and a failed assertion, is \<open>None\<close>. The machine is
  little-endian. \<open>alloc n\<close> is the memory \<open>realloc\<close> finds for \<open>n\<close> bytes, if any.
\<close>

section \<open>Sizes and memory\<close>

definition size_t :: "nat \<Rightarrow> nat" where "size_t n = n mod 18446744073709551616"

lemma size_t_id: "n < 18446744073709551616 \<Longrightarrow> size_t n = n"
  by (simp add: size_t_def)

definition pow2_nonzero :: "nat \<Rightarrow> bool" where
  "pow2_nonzero n \<longleftrightarrow> n \<noteq> 0 \<and> n AND (n - 1) = 0"

text \<open>\<open>ALIGN_POT\<close> clears the low bits of \<open>value + alignment - 1\<close>; for a power of two that is this.\<close>

definition align_uintptr :: "nat \<Rightarrow> nat \<Rightarrow> nat option" where
  "align_uintptr v alignment = do {
     c_assert (pow2_nonzero alignment);
     Some (size_t (v + (alignment - 1)) div alignment * alignment)
   }"

text \<open>The first bytes of a reallocated block are the old ones, the rest is what the block held.\<close>

definition c_realloc :: "(nat \<Rightarrow> u8 list option) \<Rightarrow> u8 list \<Rightarrow> nat \<Rightarrow> u8 list option" where
  "c_realloc alloc old n = map_option (\<lambda>fresh. take n old @ take (n - length old) (fresh @ replicate n 0)) (alloc n)"

section \<open>The writer\<close>

record blob =
  b_data :: "u8 list option"
  b_allocated :: nat
  b_size :: nat
  fixed_allocation :: bool
  out_of_memory :: bool

definition BLOB_INITIAL_SIZE :: nat where "BLOB_INITIAL_SIZE = 4096"

definition grow_to_fit :: "(nat \<Rightarrow> u8 list option) \<Rightarrow> nat \<Rightarrow> blob \<Rightarrow> bool \<times> blob" where
  "grow_to_fit alloc additional b =
     (if out_of_memory b then (False, b)
      else if size_t (b_size b + additional) \<le> b_allocated b then (True, b)
      else if fixed_allocation b then (False, b\<lparr>out_of_memory := True\<rparr>)
      else let to_allocate = (if b_allocated b = 0 then BLOB_INITIAL_SIZE else size_t (b_allocated b * 2));
               to_allocate = max to_allocate (size_t (b_allocated b + additional))
           in case c_realloc alloc (case b_data b of None \<Rightarrow> [] | Some d \<Rightarrow> d) to_allocate of
                None \<Rightarrow> (False, b\<lparr>out_of_memory := True\<rparr>)
              | Some d \<Rightarrow> (True, b\<lparr>b_data := Some d, b_allocated := to_allocate\<rparr>))"

text \<open>\<open>if (blob->data) memcpy(blob->data + off, bytes, ...)\<close>\<close>

definition blob_store :: "nat \<Rightarrow> u8 list \<Rightarrow> blob \<Rightarrow> blob option" where
  "blob_store off bs b =
     (case b_data b of
        None \<Rightarrow> Some b
      | Some d \<Rightarrow> if off + length bs \<le> length d
                  then Some (b\<lparr>b_data := Some (take off d @ bs @ drop (off + length bs) d)\<rparr>) else None)"

definition blob_align :: "(nat \<Rightarrow> u8 list option) \<Rightarrow> nat \<Rightarrow> blob \<Rightarrow> (bool \<times> blob) option" where
  "blob_align alloc alignment b = do {
     new_size \<leftarrow> align_uintptr (b_size b) alignment;
     (if b_size b < new_size
      then case grow_to_fit alloc (new_size - b_size b) b of
             (False, b1) \<Rightarrow> Some (False, b1)
           | (True, b1) \<Rightarrow> map_option (\<lambda>b2. (True, b2\<lparr>b_size := new_size\<rparr>))
                             (blob_store (b_size b1) (replicate (new_size - b_size b) 0) b1)
      else Some (True, b))
   }"

definition blob_init :: blob where
  "blob_init = \<lparr>b_data = None, b_allocated = 0, b_size = 0, fixed_allocation = False, out_of_memory = False\<rparr>"

definition blob_init_fixed :: "u8 list option \<Rightarrow> nat \<Rightarrow> blob" where
  "blob_init_fixed d n = \<lparr>b_data = d, b_allocated = n, b_size = 0, fixed_allocation = True, out_of_memory = False\<rparr>"

text \<open>The trimmed buffer with its size; the blob keeps no data.\<close>

definition blob_finish_get_buffer :: "(nat \<Rightarrow> u8 list option) \<Rightarrow> blob \<Rightarrow> u8 list option \<times> nat \<times> blob" where
  "blob_finish_get_buffer alloc b =
     (c_realloc alloc (case b_data b of None \<Rightarrow> [] | Some d \<Rightarrow> d) (b_size b), b_size b, b\<lparr>b_data := None\<rparr>)"

definition blob_overwrite_bytes :: "nat \<Rightarrow> u8 list \<Rightarrow> blob \<Rightarrow> (bool \<times> blob) option" where
  "blob_overwrite_bytes offset bs b =
     (if size_t (offset + length bs) < offset \<or> b_size b < size_t (offset + length bs) then Some (False, b)
      else map_option (Pair True) (blob_store offset bs b))"

definition blob_write_bytes :: "(nat \<Rightarrow> u8 list option) \<Rightarrow> u8 list \<Rightarrow> blob \<Rightarrow> (bool \<times> blob) option" where
  "blob_write_bytes alloc bs b =
     (case grow_to_fit alloc (length bs) b of
        (False, b1) \<Rightarrow> Some (False, b1)
      | (True, b1) \<Rightarrow>
          map_option (\<lambda>b2. (True, b2\<lparr>b_size := size_t (b_size b2 + length bs)\<rparr>))
            (if bs \<noteq> [] then blob_store (b_size b1) bs b1 else Some b1))"

text \<open>The offset, or \<open>-1\<close>.\<close>

definition blob_reserve_bytes :: "(nat \<Rightarrow> u8 list option) \<Rightarrow> nat \<Rightarrow> blob \<Rightarrow> int \<times> blob" where
  "blob_reserve_bytes alloc to_write b =
     (case grow_to_fit alloc to_write b of
        (False, b1) \<Rightarrow> (-1, b1)
      | (True, b1) \<Rightarrow> (int (b_size b1), b1\<lparr>b_size := size_t (b_size b1 + to_write)\<rparr>))"

definition blob_reserve_uint32 :: "(nat \<Rightarrow> u8 list option) \<Rightarrow> blob \<Rightarrow> (int \<times> blob) option" where
  "blob_reserve_uint32 alloc b = map_option (\<lambda>(_, b1). blob_reserve_bytes alloc 4 b1) (blob_align alloc 4 b)"

definition blob_reserve_intptr :: "(nat \<Rightarrow> u8 list option) \<Rightarrow> blob \<Rightarrow> (int \<times> blob) option" where
  "blob_reserve_intptr alloc b = map_option (\<lambda>(_, b1). blob_reserve_bytes alloc 8 b1) (blob_align alloc 8 b)"

text \<open>The macro \<open>BLOB_WRITE_TYPE\<close> for a type of \<open>n\<close> bytes, and its instances.\<close>

definition BLOB_WRITE_TYPE :: "(nat \<Rightarrow> u8 list option) \<Rightarrow> nat \<Rightarrow> nat \<Rightarrow> blob \<Rightarrow> (bool \<times> blob) option" where
  "BLOB_WRITE_TYPE alloc n v b = do {
     (_, b1) \<leftarrow> blob_align alloc n b;
     blob_write_bytes alloc (le_bytes n v) b1
   }"

definition blob_write_uint8 :: "(nat \<Rightarrow> u8 list option) \<Rightarrow> u8 \<Rightarrow> blob \<Rightarrow> (bool \<times> blob) option" where
  "blob_write_uint8 alloc v = BLOB_WRITE_TYPE alloc 1 (unat v)"

definition blob_write_uint16 :: "(nat \<Rightarrow> u8 list option) \<Rightarrow> 16 word \<Rightarrow> blob \<Rightarrow> (bool \<times> blob) option" where
  "blob_write_uint16 alloc v = BLOB_WRITE_TYPE alloc 2 (unat v)"

definition blob_write_uint32 :: "(nat \<Rightarrow> u8 list option) \<Rightarrow> u32 \<Rightarrow> blob \<Rightarrow> (bool \<times> blob) option" where
  "blob_write_uint32 alloc v = BLOB_WRITE_TYPE alloc 4 (unat v)"

definition blob_write_uint64 :: "(nat \<Rightarrow> u8 list option) \<Rightarrow> u64 \<Rightarrow> blob \<Rightarrow> (bool \<times> blob) option" where
  "blob_write_uint64 alloc v = BLOB_WRITE_TYPE alloc 8 (unat v)"

definition blob_write_intptr :: "(nat \<Rightarrow> u8 list option) \<Rightarrow> u64 \<Rightarrow> blob \<Rightarrow> (bool \<times> blob) option" where
  "blob_write_intptr alloc v = BLOB_WRITE_TYPE alloc 8 (unat v)"

definition ASSERT_ALIGNED :: "nat \<Rightarrow> nat \<Rightarrow> unit option" where
  "ASSERT_ALIGNED offset n = do { a \<leftarrow> align_uintptr offset n; c_assert (a = offset) }"

definition blob_overwrite_uint8 :: "nat \<Rightarrow> u8 \<Rightarrow> blob \<Rightarrow> (bool \<times> blob) option" where
  "blob_overwrite_uint8 offset v b = do { ASSERT_ALIGNED offset 1; blob_overwrite_bytes offset (le_bytes 1 (unat v)) b }"

definition blob_overwrite_uint32 :: "nat \<Rightarrow> u32 \<Rightarrow> blob \<Rightarrow> (bool \<times> blob) option" where
  "blob_overwrite_uint32 offset v b = do { ASSERT_ALIGNED offset 4; blob_overwrite_bytes offset (le_bytes 4 (unat v)) b }"

definition blob_overwrite_intptr :: "nat \<Rightarrow> u64 \<Rightarrow> blob \<Rightarrow> (bool \<times> blob) option" where
  "blob_overwrite_intptr offset v b = do { ASSERT_ALIGNED offset 8; blob_overwrite_bytes offset (le_bytes 8 (unat v)) b }"

text \<open>A C string is its bytes without the terminator.\<close>

definition blob_write_string :: "(nat \<Rightarrow> u8 list option) \<Rightarrow> u8 list \<Rightarrow> blob \<Rightarrow> (bool \<times> blob) option" where
  "blob_write_string alloc s b = blob_write_bytes alloc (s @ [0]) b"

section \<open>The reader\<close>

text \<open>Pointers are offsets from \<open>data\<close>.\<close>

record blob_reader =
  r_data :: "u8 list"
  r_end :: nat
  r_current :: nat
  overrun :: bool

definition blob_reader_init :: "u8 list \<Rightarrow> nat \<Rightarrow> blob_reader" where
  "blob_reader_init d n = \<lparr>r_data = d, r_end = n, r_current = 0, overrun = False\<rparr>"

definition blob_reader_align :: "nat \<Rightarrow> blob_reader \<Rightarrow> blob_reader option" where
  "blob_reader_align alignment r = map_option (\<lambda>c. r\<lparr>r_current := c\<rparr>) (align_uintptr (r_current r) alignment)"

definition ensure_can_read :: "nat \<Rightarrow> blob_reader \<Rightarrow> bool \<times> blob_reader" where
  "ensure_can_read n r =
     (if overrun r then (False, r)
      else if r_current r \<le> r_end r \<and> n \<le> r_end r - r_current r then (True, r)
      else (False, r\<lparr>overrun := True\<rparr>))"

definition blob_read_bytes :: "nat \<Rightarrow> blob_reader \<Rightarrow> nat option \<times> blob_reader" where
  "blob_read_bytes n r =
     (case ensure_can_read n r of
        (False, r1) \<Rightarrow> (None, r1)
      | (True, r1) \<Rightarrow> (Some (r_current r1), r1\<lparr>r_current := r_current r1 + n\<rparr>))"

definition blob_copy_bytes :: "nat \<Rightarrow> u8 list \<Rightarrow> blob_reader \<Rightarrow> (u8 list \<times> blob_reader) option" where
  "blob_copy_bytes n dest r =
     (case blob_read_bytes n r of
        (None, r1) \<Rightarrow> Some (dest, r1)
      | (Some p, r1) \<Rightarrow>
          if n = 0 then Some (dest, r1)
          else if p + n \<le> length (r_data r1) \<and> n \<le> length dest
          then Some (take n (drop p (r_data r1)) @ drop n dest, r1) else None)"

definition blob_skip_bytes :: "nat \<Rightarrow> blob_reader \<Rightarrow> blob_reader" where
  "blob_skip_bytes n r =
     (case ensure_can_read n r of (ok, r1) \<Rightarrow> if ok then r1\<lparr>r_current := r_current r1 + n\<rparr> else r1)"

definition BLOB_READ_TYPE :: "nat \<Rightarrow> blob_reader \<Rightarrow> (nat \<times> blob_reader) option" where
  "BLOB_READ_TYPE n r = do {
     r1 \<leftarrow> blob_reader_align n r;
     (bs, r2) \<leftarrow> blob_copy_bytes n (replicate n 0) r1;
     Some (le_value bs, r2)
   }"

definition blob_read_uint8 :: "blob_reader \<Rightarrow> (u8 \<times> blob_reader) option" where
  "blob_read_uint8 r = map_option (\<lambda>(v, r1). (of_nat v, r1)) (BLOB_READ_TYPE 1 r)"

definition blob_read_uint16 :: "blob_reader \<Rightarrow> (16 word \<times> blob_reader) option" where
  "blob_read_uint16 r = map_option (\<lambda>(v, r1). (of_nat v, r1)) (BLOB_READ_TYPE 2 r)"

definition blob_read_uint32 :: "blob_reader \<Rightarrow> (u32 \<times> blob_reader) option" where
  "blob_read_uint32 r = map_option (\<lambda>(v, r1). (of_nat v, r1)) (BLOB_READ_TYPE 4 r)"

definition blob_read_uint64 :: "blob_reader \<Rightarrow> (u64 \<times> blob_reader) option" where
  "blob_read_uint64 r = map_option (\<lambda>(v, r1). (of_nat v, r1)) (BLOB_READ_TYPE 8 r)"

definition blob_read_intptr :: "blob_reader \<Rightarrow> (u64 \<times> blob_reader) option" where
  "blob_read_intptr r = map_option (\<lambda>(v, r1). (of_nat v, r1)) (BLOB_READ_TYPE 8 r)"

text \<open>
  The offset of the string, and the string at an offset. The string's size is an \<open>int\<close>: the
  distance to the terminator is cut to 32 bits, converted to \<open>size_t\<close> for the check, and added
  to the position as a signed value.
\<close>

definition blob_read_string :: "blob_reader \<Rightarrow> (nat option \<times> blob_reader) option" where
  "blob_read_string r =
     (if r_end r \<le> r_current r then Some (None, r\<lparr>overrun := True\<rparr>)
      else let rest = take (r_end r - r_current r) (drop (r_current r) (r_data r))
           in if 0 \<notin> set rest then Some (None, r\<lparr>overrun := True\<rparr>)
              else let n = int32 (int (length (takeWhile (\<lambda>x. x \<noteq> 0) rest)) + 1)
                   in case ensure_can_read (nat (n mod 18446744073709551616)) r of (ok, r1) \<Rightarrow> do {
                        c_assert ok;
                        Some (Some (r_current r1), r1\<lparr>r_current := nat (int (r_current r1) + n)\<rparr>)
                      })"

text \<open>A string whose size with the terminator is less than \<open>2 ^ 31\<close> has the size it should have.\<close>

lemma string_size:
  assumes "n + 1 < 2 ^ 31"
  shows "int32 (int n + 1) = int n + 1" "nat ((int n + 1) mod 18446744073709551616) = n + 1" "nat (int c + (int n + 1)) = c + (n + 1)"
  using assms by (simp_all add: nat_add_distrib)

definition string_at :: "u8 list \<Rightarrow> nat \<Rightarrow> u8 list" where
  "string_at d p = takeWhile (\<lambda>x. x \<noteq> 0) (drop p d)"

section \<open>Writing\<close>

definition blob_content :: "blob \<Rightarrow> u8 list" where
  "blob_content b = take (b_size b) (case b_data b of None \<Rightarrow> [] | Some d \<Rightarrow> d)"

text \<open>A growing blob that has not failed; the allocation is at most twice what was asked for.\<close>

definition blob_ok :: "blob \<Rightarrow> bool" where
  "blob_ok b \<longleftrightarrow> \<not> out_of_memory b \<and> \<not> fixed_allocation b \<and> b_size b \<le> b_allocated b \<and>
     length (case b_data b of None \<Rightarrow> [] | Some d \<Rightarrow> d) = b_allocated b \<and> b_allocated b \<le> 4096 + 2 * b_size b"

definition roomy :: "(nat \<Rightarrow> u8 list option) \<Rightarrow> bool" where
  "roomy alloc \<longleftrightarrow> (\<forall>n. alloc n \<noteq> None)"

definition LIMIT :: nat where "LIMIT = 4611686018427387904"

lemma c_realloc_grow:
  assumes "roomy alloc" and "length old \<le> n"
  obtains d where "c_realloc alloc old n = Some d" "length d = n" "take (length old) d = old"
proof -
  obtain fresh where "alloc n = Some fresh" using assms(1) by (auto simp: roomy_def)
  then have "c_realloc alloc old n = Some (old @ take (n - length old) (fresh @ replicate n 0))"
    using assms(2) by (simp add: c_realloc_def)
  then show ?thesis using that assms(2) by simp
qed

lemma grow_to_fit_ok:
  assumes "blob_ok b" and "roomy alloc" and "b_size b + n < LIMIT"
  obtains b' where "grow_to_fit alloc n b = (True, b')" "b_size b' = b_size b" "blob_content b' = blob_content b"
    "\<not> out_of_memory b'" "\<not> fixed_allocation b'" "b_size b + n \<le> b_allocated b'" "b_allocated b' \<le> 4096 + 2 * (b_size b + n)"
    "length (case b_data b' of None \<Rightarrow> [] | Some d \<Rightarrow> d) = b_allocated b'" "b_allocated b' \<noteq> 0 \<longrightarrow> b_data b' \<noteq> None"
proof -
  let ?d = "case b_data b of None \<Rightarrow> [] | Some d \<Rightarrow> d"
  have lim: "b_size b + n < 18446744073709551616" using assms(3) by (simp add: LIMIT_def)
  have s: "size_t (b_size b + n) = b_size b + n" using lim by (rule size_t_id)
  show ?thesis
  proof (cases "b_size b + n \<le> b_allocated b")
    case True
    have "b_allocated b \<noteq> 0 \<longrightarrow> b_data b \<noteq> None" using assms(1) by (cases "b_data b") (auto simp: blob_ok_def)
    then show ?thesis using that [of b] True assms(1) s by (auto simp: blob_ok_def grow_to_fit_def)
  next
    case False
    have a: "b_allocated b < LIMIT" "b_allocated b + n < 2 * LIMIT" using False assms(3) by linarith+
    have a2: "size_t (b_allocated b * 2) = b_allocated b * 2" "size_t (b_allocated b + n) = b_allocated b + n"
      using a by (auto intro!: size_t_id simp: LIMIT_def)
    let ?n = "max (if b_allocated b = 0 then BLOB_INITIAL_SIZE else b_allocated b * 2) (b_allocated b + n)"
    have n: "length ?d \<le> ?n" "b_size b + n \<le> ?n" "?n \<le> 4096 + 2 * (b_size b + n)" "?n \<noteq> 0"
      using assms(1) False by (auto simp: blob_ok_def BLOB_INITIAL_SIZE_def max_def)
    obtain d where d: "c_realloc alloc ?d ?n = Some d" "length d = ?n" "take (length ?d) d = ?d"
      using c_realloc_grow [OF assms(2) n(1)] by blast
    have "take (b_size b) d = take (b_size b) ?d"
      using d(3) assms(1) unfolding blob_ok_def by (metis min.absorb1 take_take)
    moreover have "grow_to_fit alloc n b = (True, b\<lparr>b_data := Some d, b_allocated := ?n\<rparr>)"
      unfolding grow_to_fit_def Let_def s a2 using assms(1) False d(1) by (simp add: blob_ok_def)
    ultimately show ?thesis using that [of "b\<lparr>b_data := Some d, b_allocated := ?n\<rparr>"] n d assms(1)
      by (simp add: blob_ok_def blob_content_def)
  qed
qed

lemma blob_append:
  assumes "blob_ok b" and "roomy alloc" and "b_size b + length bs < LIMIT" and "bs \<noteq> []"
  obtains b1 b2 where "grow_to_fit alloc (length bs) b = (True, b1)" "b_size b1 = b_size b" "blob_store (b_size b1) bs b1 = Some b2"
    "b_size b2 = b_size b" "blob_ok (b2\<lparr>b_size := b_size b + length bs\<rparr>)" "blob_content (b2\<lparr>b_size := b_size b + length bs\<rparr>) = blob_content b @ bs"
proof -
  from assms(1-3) obtain b1 where b1: "grow_to_fit alloc (length bs) b = (True, b1)" "b_size b1 = b_size b" "blob_content b1 = blob_content b"
    "\<not> out_of_memory b1" "\<not> fixed_allocation b1" "b_size b + length bs \<le> b_allocated b1" "b_allocated b1 \<le> 4096 + 2 * (b_size b + length bs)"
    "length (case b_data b1 of None \<Rightarrow> [] | Some d \<Rightarrow> d) = b_allocated b1" "b_allocated b1 \<noteq> 0 \<longrightarrow> b_data b1 \<noteq> None"
    by (rule grow_to_fit_ok)
  have "b_allocated b1 \<noteq> 0" using b1(6) assms(4) by (cases bs) auto
  then obtain d where d: "b_data b1 = Some d" using b1(9) by auto
  let ?d = "take (b_size b) d @ bs @ drop (b_size b + length bs) d"
  have len: "b_size b + length bs \<le> length d" using b1(6,8) d by simp
  have "blob_store (b_size b1) bs b1 = Some (b1\<lparr>b_data := Some ?d\<rparr>)"
    using d len by (simp add: blob_store_def b1(2))
  moreover have "blob_content b = take (b_size b) d" using b1(3) d b1(2) by (simp add: blob_content_def)
  ultimately show ?thesis using that [OF b1(1,2), of "b1\<lparr>b_data := Some ?d\<rparr>"] b1 d len
    by (simp add: blob_ok_def blob_content_def)
qed

lemma blob_write_bytes_ok:
  assumes "blob_ok b" and "roomy alloc" and "b_size b + length bs < LIMIT"
  obtains b' where "blob_write_bytes alloc bs b = Some (True, b')" "blob_ok b'" "blob_content b' = blob_content b @ bs" "b_size b' = b_size b + length bs"
proof (cases "bs = []")
  case True
  have "size_t (b_size b) = b_size b" using assms(3) by (intro size_t_id) (simp add: LIMIT_def)
  then have "blob_write_bytes alloc bs b = Some (True, b)"
    using assms(1) True by (simp add: blob_write_bytes_def grow_to_fit_def blob_ok_def)
  then show ?thesis using that assms(1) True by simp
next
  case False
  from blob_append [OF assms False] obtain b1 b2 where
    b: "grow_to_fit alloc (length bs) b = (True, b1)" "b_size b1 = b_size b" "blob_store (b_size b1) bs b1 = Some b2" "b_size b2 = b_size b"
    "blob_ok (b2\<lparr>b_size := b_size b + length bs\<rparr>)" "blob_content (b2\<lparr>b_size := b_size b + length bs\<rparr>) = blob_content b @ bs" .
  have "size_t (b_size b + length bs) = b_size b + length bs" using assms(3) by (intro size_t_id) (simp add: LIMIT_def)
  then show ?thesis using that [of "b2\<lparr>b_size := b_size b + length bs\<rparr>"] b False by (simp add: blob_write_bytes_def)
qed

text \<open>The padding in front of a value of \<open>n\<close> bytes.\<close>

definition pad :: "nat \<Rightarrow> nat \<Rightarrow> nat" where
  "pad n off = (off + (n - 1)) div n * n - off"

lemma align_uintptr_pad:
  assumes "n \<in> {1, 2, 4, 8}" and "off < LIMIT"
  shows "align_uintptr off n = Some (off + pad n off)" "pad n off < n" "0 < n"
proof -
  have n: "0 < n" "n \<le> 8" "pow2_nonzero n" using assms(1) by (auto simp: pow2_nonzero_def)
  have "size_t (off + (n - 1)) = off + (n - 1)" using assms(2) n(2) by (intro size_t_id) (simp add: LIMIT_def)
  then show "align_uintptr off n = Some (off + pad n off)"
    using n align_bounds(3) [OF n(1), of off] by (simp add: align_uintptr_def pad_def)
  show "pad n off < n" "0 < n" using align_bounds(3,4) [OF n(1), of off] n(1) by (simp_all add: pad_def)
qed

lemma blob_align_ok:
  assumes "blob_ok b" and "roomy alloc" and "n \<in> {1, 2, 4, 8}" and "b_size b + pad n (b_size b) < LIMIT"
  obtains b' where "blob_align alloc n b = Some (True, b')" "blob_ok b'"
    "blob_content b' = blob_content b @ replicate (pad n (b_size b)) 0" "b_size b' = b_size b + pad n (b_size b)"
proof -
  have a: "align_uintptr (b_size b) n = Some (b_size b + pad n (b_size b))" using assms(3,4) by (intro align_uintptr_pad) auto
  show ?thesis
  proof (cases "pad n (b_size b) = 0")
    case True
    then show ?thesis using that [of b] assms(1) a by (simp add: blob_align_def)
  next
    case False
    let ?bs = "replicate (pad n (b_size b)) (0 :: u8)"
    have "b_size b + length ?bs < LIMIT" "?bs \<noteq> []" using assms(4) False by simp_all
    from blob_append [OF assms(1,2) this] obtain b1 b2 where
      b: "grow_to_fit alloc (length ?bs) b = (True, b1)" "b_size b1 = b_size b" "blob_store (b_size b1) ?bs b1 = Some b2" "b_size b2 = b_size b"
      "blob_ok (b2\<lparr>b_size := b_size b + length ?bs\<rparr>)" "blob_content (b2\<lparr>b_size := b_size b + length ?bs\<rparr>) = blob_content b @ ?bs" .
    then show ?thesis using that [of "b2\<lparr>b_size := b_size b + length ?bs\<rparr>"] a False by (simp add: blob_align_def)
  qed
qed

section \<open>What is written is read back\<close>

text \<open>
  The values that can be serialised, how one is written, how one of the same kind is read, and the
  bytes it takes at an offset.
\<close>

datatype blob_item =
    B_uint8 u8 | B_uint16 "16 word" | B_uint32 u32 | B_uint64 u64 | B_intptr u64
  | B_bytes "u8 list" | B_string "u8 list"

fun write_item :: "(nat \<Rightarrow> u8 list option) \<Rightarrow> blob_item \<Rightarrow> blob \<Rightarrow> (bool \<times> blob) option" where
  "write_item alloc (B_uint8 v) b = blob_write_uint8 alloc v b"
| "write_item alloc (B_uint16 v) b = blob_write_uint16 alloc v b"
| "write_item alloc (B_uint32 v) b = blob_write_uint32 alloc v b"
| "write_item alloc (B_uint64 v) b = blob_write_uint64 alloc v b"
| "write_item alloc (B_intptr v) b = blob_write_intptr alloc v b"
| "write_item alloc (B_bytes bs) b = blob_write_bytes alloc bs b"
| "write_item alloc (B_string s) b = blob_write_string alloc s b"

fun read_like :: "blob_item \<Rightarrow> blob_reader \<Rightarrow> (blob_item \<times> blob_reader) option" where
  "read_like (B_uint8 _) r = map_option (\<lambda>(v, r1). (B_uint8 v, r1)) (blob_read_uint8 r)"
| "read_like (B_uint16 _) r = map_option (\<lambda>(v, r1). (B_uint16 v, r1)) (blob_read_uint16 r)"
| "read_like (B_uint32 _) r = map_option (\<lambda>(v, r1). (B_uint32 v, r1)) (blob_read_uint32 r)"
| "read_like (B_uint64 _) r = map_option (\<lambda>(v, r1). (B_uint64 v, r1)) (blob_read_uint64 r)"
| "read_like (B_intptr _) r = map_option (\<lambda>(v, r1). (B_intptr v, r1)) (blob_read_intptr r)"
| "read_like (B_bytes bs) r = map_option (\<lambda>(v, r1). (B_bytes v, r1)) (blob_copy_bytes (length bs) (replicate (length bs) 0) r)"
| "read_like (B_string _) r =
     (case blob_read_string r of
        Some (Some p, r1) \<Rightarrow> Some (B_string (string_at (r_data r1) p), r1)
      | _ \<Rightarrow> None)"

fun write_items :: "(nat \<Rightarrow> u8 list option) \<Rightarrow> blob_item list \<Rightarrow> blob \<Rightarrow> blob option" where
  "write_items alloc [] b = Some b"
| "write_items alloc (x # xs) b =
     (case write_item alloc x b of Some (True, b1) \<Rightarrow> write_items alloc xs b1 | _ \<Rightarrow> None)"

fun read_items :: "blob_item list \<Rightarrow> blob_reader \<Rightarrow> (blob_item list \<times> blob_reader) option" where
  "read_items [] r = Some ([], r)"
| "read_items (x # xs) r =
     (case read_like x r of
        None \<Rightarrow> None
      | Some (y, r1) \<Rightarrow> (case read_items xs r1 of None \<Rightarrow> None | Some (ys, r2) \<Rightarrow> Some (y # ys, r2)))"

definition enc_int :: "nat \<Rightarrow> nat \<Rightarrow> nat \<Rightarrow> u8 list" where
  "enc_int n v off = replicate (pad n off) 0 @ le_bytes n v"

fun enc_item :: "blob_item \<Rightarrow> nat \<Rightarrow> u8 list" where
  "enc_item (B_uint8 v) off = enc_int 1 (unat v) off"
| "enc_item (B_uint16 v) off = enc_int 2 (unat v) off"
| "enc_item (B_uint32 v) off = enc_int 4 (unat v) off"
| "enc_item (B_uint64 v) off = enc_int 8 (unat v) off"
| "enc_item (B_intptr v) off = enc_int 8 (unat v) off"
| "enc_item (B_bytes bs) off = bs"
| "enc_item (B_string s) off = s @ [0]"

fun enc_items :: "blob_item list \<Rightarrow> nat \<Rightarrow> u8 list" where
  "enc_items [] off = []"
| "enc_items (x # xs) off = enc_item x off @ enc_items xs (off + length (enc_item x off))"

fun item_ok :: "blob_item \<Rightarrow> bool" where
  "item_ok (B_string s) = (0 \<notin> set s \<and> length s + 1 < 2 ^ 31)"
| "item_ok _ = True"

lemma write_type_ok:
  assumes "blob_ok b" and "roomy alloc" and "n \<in> {1, 2, 4, 8}" and "b_size b + length (enc_int n v (b_size b)) < LIMIT"
  shows "\<exists>b'. BLOB_WRITE_TYPE alloc n v b = Some (True, b') \<and> blob_ok b' \<and>
    blob_content b' = blob_content b @ enc_int n v (b_size b) \<and> b_size b' = b_size b + length (enc_int n v (b_size b))"
proof -
  have lim: "b_size b + pad n (b_size b) < LIMIT" using assms(4) by (simp add: enc_int_def)
  from blob_align_ok [OF assms(1-3) lim] obtain b1 where
    b1: "blob_align alloc n b = Some (True, b1)" "blob_ok b1" "blob_content b1 = blob_content b @ replicate (pad n (b_size b)) 0"
    "b_size b1 = b_size b + pad n (b_size b)" .
  have "b_size b1 + length (le_bytes n v) < LIMIT" using assms(4) b1(4) by (simp add: enc_int_def)
  from blob_write_bytes_ok [OF b1(2) assms(2) this] obtain b2 where
    "blob_write_bytes alloc (le_bytes n v) b1 = Some (True, b2)" "blob_ok b2" "blob_content b2 = blob_content b1 @ le_bytes n v"
    "b_size b2 = b_size b1 + length (le_bytes n v)" .
  then show ?thesis using b1 by (simp add: BLOB_WRITE_TYPE_def enc_int_def)
qed

lemmas write_type_defs = blob_write_uint8_def blob_write_uint16_def blob_write_uint32_def blob_write_uint64_def blob_write_intptr_def
lemmas read_type_defs = blob_read_uint8_def blob_read_uint16_def blob_read_uint32_def blob_read_uint64_def blob_read_intptr_def

lemma write_item_ok:
  assumes "blob_ok b" and "roomy alloc" and "b_size b + length (enc_item x (b_size b)) < LIMIT"
  shows "\<exists>b'. write_item alloc x b = Some (True, b') \<and> blob_ok b' \<and>
    blob_content b' = blob_content b @ enc_item x (b_size b) \<and> b_size b' = b_size b + length (enc_item x (b_size b))"
proof (cases x)
  case (B_bytes bs)
  then show ?thesis using blob_write_bytes_ok [OF assms(1,2), of bs] assms(3) by (metis enc_item.simps(6) write_item.simps(6))
next
  case (B_string s)
  then show ?thesis using blob_write_bytes_ok [OF assms(1,2), of "s @ [0]"] assms(3)
    by (metis enc_item.simps(7) write_item.simps(7) blob_write_string_def)
qed (use assms write_type_ok [OF assms(1,2)] in \<open>simp_all add: write_type_defs\<close>)

lemma write_items_ok:
  assumes "blob_ok b" and "roomy alloc" and "b_size b + length (enc_items xs (b_size b)) < LIMIT"
  shows "\<exists>b'. write_items alloc xs b = Some b' \<and> blob_ok b' \<and> blob_content b' = blob_content b @ enc_items xs (b_size b) \<and>
    b_size b' = b_size b + length (enc_items xs (b_size b))"
  using assms
proof (induction xs arbitrary: b)
  case (Cons x xs)
  have "b_size b + length (enc_item x (b_size b)) < LIMIT" using Cons.prems(3) by simp
  from write_item_ok [OF Cons.prems(1,2) this] obtain b1 where
    b1: "write_item alloc x b = Some (True, b1)" "blob_ok b1" "blob_content b1 = blob_content b @ enc_item x (b_size b)"
    "b_size b1 = b_size b + length (enc_item x (b_size b))" by blast
  then show ?case using Cons.IH [of b1] Cons.prems(2,3) by auto
qed simp

lemma read_type_back:
  assumes "n \<in> {1, 2, 4, 8}" and "length pre < LIMIT" and "v < 256 ^ n"
    and "r = \<lparr>r_data = pre @ enc_int n v (length pre) @ post, r_end = e, r_current = length pre, overrun = False\<rparr>"
    and "length pre + length (enc_int n v (length pre)) \<le> e"
  shows "BLOB_READ_TYPE n r = Some (v, r\<lparr>r_current := length pre + length (enc_int n v (length pre))\<rparr>)"
proof -
  note a = align_uintptr_pad [OF assms(1,2)]
  have "le_value (le_bytes n v) = v" using assms(3) by (simp add: le_value_bytes)
  then show ?thesis using a(1,3) assms(5)
    by (simp add: assms(4) BLOB_READ_TYPE_def blob_reader_align_def blob_copy_bytes_def blob_read_bytes_def ensure_can_read_def enc_int_def)
qed

lemma read_word_back:
  fixes w :: "'a :: len word"
  assumes "n \<in> {1, 2, 4, 8}" and "LENGTH('a) = 8 * n" and "length pre < LIMIT"
    and "length pre + length (enc_int n (unat w) (length pre)) \<le> e"
    and "r = \<lparr>r_data = pre @ enc_int n (unat w) (length pre) @ post, r_end = e, r_current = length pre, overrun = False\<rparr>"
  shows "map_option (\<lambda>(v, r1). (C (of_nat v :: 'a word), r1)) (BLOB_READ_TYPE n r) =
    Some (C w, r\<lparr>r_current := length pre + length (enc_int n (unat w) (length pre))\<rparr>)"
proof -
  have "unat w < 256 ^ n" using unsigned_less [of w] assms(2) by (simp add: power_mult)
  from read_type_back [OF assms(1,3) this assms(5,4)] show ?thesis by simp
qed

lemma read_like_back:
  assumes "item_ok x" and "length pre < LIMIT" and "length pre + length (enc_item x (length pre)) \<le> e"
    and "r = \<lparr>r_data = pre @ enc_item x (length pre) @ post, r_end = e, r_current = length pre, overrun = False\<rparr>"
    and "e \<le> length (r_data r)"
  shows "read_like x r = Some (x, r\<lparr>r_current := length pre + length (enc_item x (length pre))\<rparr>)"
proof (cases x)
  case (B_bytes bs)
  then show ?thesis using assms(3)
    by (auto simp: assms(4) blob_copy_bytes_def blob_read_bytes_def ensure_can_read_def)
next
  case (B_string s)
  have nz: "takeWhile (\<lambda>x. x \<noteq> 0) (s @ 0 # ys) = s" for ys using assms(1) B_string by (subst takeWhile_append2) auto
  have "take (e - length pre) (s @ 0 # post) = s @ 0 # take (e - length pre - length s - 1) post"
    using assms(3) B_string by (cases "e - length pre - length s") simp_all
  moreover have "length s + 1 < 2 ^ 31" using assms(1) B_string by simp
  note z = string_size [OF this]
  ultimately show ?thesis using assms(3) B_string nz
    by (simp add: assms(4) blob_read_string_def ensure_can_read_def string_at_def Let_def z del: nat_int_add)
next
  case (B_uint8 w)
  then show ?thesis using read_word_back [of 1 pre w e r post B_uint8] assms(2-4) by (simp add: read_type_defs option.map_comp comp_def split_def)
next
  case (B_uint16 w)
  then show ?thesis using read_word_back [of 2 pre w e r post B_uint16] assms(2-4) by (simp add: read_type_defs option.map_comp comp_def split_def)
next
  case (B_uint32 w)
  then show ?thesis using read_word_back [of 4 pre w e r post B_uint32] assms(2-4) by (simp add: read_type_defs option.map_comp comp_def split_def)
next
  case (B_uint64 w)
  then show ?thesis using read_word_back [of 8 pre w e r post B_uint64] assms(2-4) by (simp add: read_type_defs option.map_comp comp_def split_def)
next
  case (B_intptr w)
  then show ?thesis using read_word_back [of 8 pre w e r post B_intptr] assms(2-4) by (simp add: read_type_defs option.map_comp comp_def split_def)
qed

lemma read_items_back:
  assumes "list_all item_ok xs" and "length pre + length (enc_items xs (length pre)) < LIMIT"
    and "r = \<lparr>r_data = pre @ enc_items xs (length pre), r_end = length pre + length (enc_items xs (length pre)), r_current = length pre, overrun = False\<rparr>"
  shows "read_items xs r = Some (xs, r\<lparr>r_current := r_end r\<rparr>)"
  using assms
proof (induction xs arbitrary: pre r)
  case (Cons x xs)
  let ?x = "enc_item x (length pre)"
  let ?r = "r\<lparr>r_current := length pre + length ?x\<rparr>"
  have "read_like x r = Some (x, ?r)"
    using Cons.prems by (intro read_like_back [where post = "enc_items xs (length pre + length ?x)" and e = "r_end r"]) simp_all
  moreover have "read_items xs ?r = Some (xs, ?r\<lparr>r_current := r_end ?r\<rparr>)"
    using Cons.prems by (intro Cons.IH [of "pre @ ?x"]) simp_all
  ultimately show ?case by simp
qed simp

lemma finish_buffer:
  assumes "blob_ok b" and "roomy alloc"
  shows "blob_finish_get_buffer alloc b = (Some (blob_content b), b_size b, b\<lparr>b_data := None\<rparr>)"
proof -
  obtain fresh where "alloc (b_size b) = Some fresh" using assms(2) by (auto simp: roomy_def)
  then show ?thesis using assms(1) by (simp add: blob_finish_get_buffer_def c_realloc_def blob_content_def blob_ok_def)
qed

text \<open>
  Property C22.  What is written to a blob is read back: with memory available, any sequence of
  integers, byte arrays and strings (without NUL inside, each less than 2 ^ 31 bytes with its
  terminator) that takes less than 2 ^ 62 bytes with its padding is written without failure, however the buffer is reallocated on the way, and
  reading values of the same kinds from the finished buffer returns the same values, stops
  exactly at its end and reports no overrun.
\<close>

theorem blob_write_read_roundtrip:
  assumes "roomy alloc" and "list_all item_ok xs" and "length (enc_items xs 0) < LIMIT"
  shows "\<exists>b buf n b' r. write_items alloc xs blob_init = Some b \<and> blob_finish_get_buffer alloc b = (Some buf, n, b') \<and>
    read_items xs (blob_reader_init buf n) = Some (xs, r) \<and> r_current r = r_end r \<and> \<not> overrun r"
proof -
  have "blob_ok blob_init" by (simp add: blob_ok_def blob_init_def)
  moreover have z: "b_size blob_init = 0" "blob_content blob_init = []" by (simp_all add: blob_init_def blob_content_def)
  ultimately obtain b where b: "write_items alloc xs blob_init = Some b" "blob_ok b" "blob_content b = enc_items xs 0" "b_size b = length (enc_items xs 0)"
    using write_items_ok [of blob_init alloc xs] assms(1,3) by auto
  have "read_items xs (blob_reader_init (blob_content b) (b_size b)) =
      Some (xs, (blob_reader_init (blob_content b) (b_size b))\<lparr>r_current := r_end (blob_reader_init (blob_content b) (b_size b))\<rparr>)"
    by (rule read_items_back [where pre = "[]"]) (use assms(2,3) b in \<open>simp_all add: blob_reader_init_def\<close>)
  then show ?thesis using b(1) finish_buffer [OF b(2) assms(1)] by (auto simp: blob_reader_init_def)
qed

theorem blob_write_read_roundtrip_witness:
  "\<exists>b buf n b' r. write_items (\<lambda>n. Some (replicate n 0xaa)) [B_string [104, 105], B_uint32 0xdeadbeef, B_uint64 7] blob_init = Some b \<and>
     blob_finish_get_buffer (\<lambda>n. Some (replicate n 0xaa)) b = (Some buf, n, b') \<and>
     read_items [B_string [104, 105], B_uint32 0xdeadbeef, B_uint64 7] (blob_reader_init buf n) = Some ([B_string [104, 105], B_uint32 0xdeadbeef, B_uint64 7], r) \<and>
     r_current r = r_end r \<and> \<not> overrun r"
  by (rule blob_write_read_roundtrip) (simp_all add: roomy_def enc_int_def pad_def LIMIT_def)

section \<open>Reading what may be corrupt\<close>

datatype blob_read = Read_int nat | Read_bytes nat | Skip_bytes nat | Read_string

text \<open>The bytes a call delivers: the value of an integer, the bytes at the returned pointer.\<close>

fun exec_read :: "blob_read \<Rightarrow> blob_reader \<Rightarrow> (u8 list \<times> blob_reader) option" where
  "exec_read (Read_int n) r = map_option (\<lambda>(v, r1). (le_bytes n v, r1)) (BLOB_READ_TYPE n r)"
| "exec_read (Read_bytes n) r =
     (case blob_read_bytes n r of
        (None, r1) \<Rightarrow> Some ([], r1)
      | (Some p, r1) \<Rightarrow> if p + n \<le> length (r_data r1) then Some (take n (drop p (r_data r1)), r1) else None)"
| "exec_read (Skip_bytes n) r = Some ([], blob_skip_bytes n r)"
| "exec_read Read_string r =
     (case blob_read_string r of
        None \<Rightarrow> None
      | Some (None, r1) \<Rightarrow> Some ([], r1)
      | Some (Some p, r1) \<Rightarrow> Some (string_at (r_data r1) p, r1))"

fun op_ok :: "blob_read \<Rightarrow> bool" where
  "op_ok (Read_int n) = (n \<in> {1, 2, 4, 8})"
| "op_ok _ = True"

text \<open>What a call that returns does: nothing but zeros after an overrun, else a piece of the data.\<close>

definition read_sound :: "blob_reader \<Rightarrow> u8 list \<Rightarrow> blob_reader \<Rightarrow> bool" where
  "read_sound r bs r' \<longleftrightarrow> r_data r' = r_data r \<and> r_end r' = r_end r \<and> (overrun r \<longrightarrow> overrun r') \<and>
     (overrun r' \<longrightarrow> set bs \<subseteq> {0}) \<and>
     (\<not> overrun r' \<longrightarrow> (\<exists>p. r_current r \<le> p \<and> p + length bs \<le> r_current r' \<and> r_current r' \<le> r_end r \<and> bs = take (length bs) (drop p (r_data r))))"

lemma le_bytes_zeros: "le_bytes n (le_value (replicate n 0)) = replicate n 0"
  using le_bytes_value [of "replicate n 0"] by simp

lemma read_int_sound:
  assumes "n \<in> {1, 2, 4, 8}" and "r_end r = length (r_data r)" and "r_current r < LIMIT"
  shows "\<exists>bs r'. exec_read (Read_int n) r = Some (bs, r') \<and> read_sound r bs r'"
proof -
  note a = align_uintptr_pad [OF assms(1,3)]
  let ?p = "r_current r + pad n (r_current r)"
  show ?thesis
  proof (cases "\<not> overrun r \<and> ?p + n \<le> r_end r")
    case True
    have l: "length (take n (drop ?p (r_data r))) = n" unfolding length_take length_drop using True assms(2) by linarith
    have e: "n \<le> length (r_data r) - ?p" using True assms(2) by linarith
    have "exec_read (Read_int n) r = Some (take n (drop ?p (r_data r)), r\<lparr>r_current := ?p + n\<rparr>)"
      using True a assms(2) le_bytes_value [of "take n (drop ?p (r_data r))"] l e
      by (simp add: BLOB_READ_TYPE_def blob_reader_align_def blob_copy_bytes_def blob_read_bytes_def ensure_can_read_def)
    moreover have "read_sound r (take n (drop ?p (r_data r))) (r\<lparr>r_current := ?p + n\<rparr>)"
      using True l by (auto simp: read_sound_def intro!: exI [of _ ?p])
    ultimately show ?thesis by blast
  next
    case False
    then have "exec_read (Read_int n) r = Some (replicate n 0, r\<lparr>r_current := ?p, overrun := True\<rparr>)"
      using a le_bytes_zeros [of n]
      by (auto simp: BLOB_READ_TYPE_def blob_reader_align_def blob_copy_bytes_def blob_read_bytes_def ensure_can_read_def)
    then show ?thesis by (auto simp: read_sound_def)
  qed
qed

lemma read_bytes_sound:
  assumes "r_end r = length (r_data r)"
  shows "\<exists>bs r'. exec_read (Read_bytes n) r = Some (bs, r') \<and> read_sound r bs r'"
    "\<exists>bs r'. exec_read (Skip_bytes n) r = Some (bs, r') \<and> read_sound r bs r'"
  using assms
  by (auto simp: blob_read_bytes_def blob_skip_bytes_def ensure_can_read_def read_sound_def split: prod.splits)

definition string_pending :: "blob_reader \<Rightarrow> bool" where
  "string_pending r \<longleftrightarrow> r_current r < r_end r \<and> 0 \<in> set (drop (r_current r) (r_data r))"

lemma length_takeWhile_lt: "x \<in> set xs \<Longrightarrow> \<not> P x \<Longrightarrow> length (takeWhile P xs) < length xs"
  by (induction xs) auto

lemma string_at_take: "take (length (string_at d p)) (drop p d) = string_at d p"
  by (simp add: string_at_def takeWhile_eq_take [symmetric])

lemma read_string_sound:
  assumes "r_end r = length (r_data r)" and "length (r_data r) < 2 ^ 31"
  shows "if overrun r \<and> string_pending r then exec_read Read_string r = None
    else \<exists>bs r'. exec_read Read_string r = Some (bs, r') \<and> read_sound r bs r'"
proof (cases "string_pending r")
  case True
  let ?s = "string_at (r_data r) (r_current r)"
  have s: "r_current r < r_end r" "take (r_end r - r_current r) (drop (r_current r) (r_data r)) = drop (r_current r) (r_data r)"
    "0 \<in> set (drop (r_current r) (r_data r))" using True assms by (simp_all add: string_pending_def)
  have "length ?s < length (drop (r_current r) (r_data r))"
    unfolding string_at_def using s(3) by (intro length_takeWhile_lt) auto
  then have l: "r_current r + (length ?s + 1) \<le> r_end r" using assms(1) by simp
  have "length ?s + 1 < 2 ^ 31" using l assms by linarith
  note z = string_size [OF this, unfolded string_at_def]
  show ?thesis
  proof (cases "overrun r")
    case True
    then show ?thesis using \<open>string_pending r\<close> s by (simp add: blob_read_string_def ensure_can_read_def Let_def z)
  next
    case False
    have e: "length ?s + 1 \<le> r_end r - r_current r" using l by linarith
    have "exec_read Read_string r = Some (?s, r\<lparr>r_current := r_current r + (length ?s + 1)\<rparr>)"
      using False s e by (simp add: blob_read_string_def ensure_can_read_def string_at_def Let_def z)
    moreover have "read_sound r ?s (r\<lparr>r_current := r_current r + (length ?s + 1)\<rparr>)"
      using False l string_at_take by (auto simp: read_sound_def intro!: exI [of _ "r_current r"])
    ultimately show ?thesis using False by auto
  qed
next
  case False
  then have "exec_read Read_string r = Some ([], r\<lparr>overrun := True\<rparr>)"
    using assms by (auto simp: blob_read_string_def string_pending_def)
  then show ?thesis using False by (simp add: read_sound_def)
qed

text \<open>
  Property C23.  Reading a buffer of less than 2 GiB is safe whatever its bytes are: every call returns and touches the data
  only inside the buffer, delivers a piece of it that lies between the old and the new position or, once the reader has
  overrun, zeros and empty results, and the overrun flag stays set. The one call that does
  not return is a string read after an overrun when the rest of the buffer has a terminator: it
  fails an assertion.
\<close>

theorem blob_reads_checked:
  assumes "r_end r = length (r_data r)" and "length (r_data r) < 2 ^ 31" and "r_current r < LIMIT" and "op_ok rd"
  shows "if rd = Read_string \<and> overrun r \<and> string_pending r then exec_read rd r = None
    else \<exists>bs r'. exec_read rd r = Some (bs, r') \<and> r_data r' = r_data r \<and> r_end r' = r_end r \<and>
      (overrun r \<longrightarrow> overrun r') \<and> (overrun r' \<longrightarrow> set bs \<subseteq> {0}) \<and>
      (\<not> overrun r' \<longrightarrow> (\<exists>p. r_current r \<le> p \<and> p + length bs \<le> r_current r' \<and> r_current r' \<le> length (r_data r) \<and>
         bs = take (length bs) (drop p (r_data r))))"
proof (cases rd)
  case (Read_int n)
  then show ?thesis using read_int_sound [of n r] assms unfolding read_sound_def by simp
next
  case (Read_bytes n)
  then show ?thesis using read_bytes_sound(1) [OF assms(1), of n] assms(1) unfolding read_sound_def by simp
next
  case (Skip_bytes n)
  then show ?thesis using read_bytes_sound(2) [OF assms(1), of n] assms(1) unfolding read_sound_def by simp
next
  case Read_string
  then show ?thesis using read_string_sound [OF assms(1,2)] assms(1) unfolding read_sound_def by (simp del: exec_read.simps split: if_splits)
qed

theorem blob_reads_checked_witness:
  "\<exists>r. blob_read_uint32 (blob_reader_init [65, 0, 0] 3) = Some (0, r) \<and> exec_read Read_string r = None"
proof -
  let ?r = "\<lparr>r_data = [65, 0, 0], r_end = 3, r_current = 0, overrun = True\<rparr>"
  have "pow2_nonzero 4" "size_t 3 = 3" by (simp_all add: pow2_nonzero_def size_t_def)
  moreover have "le_value (replicate 4 0) = 0" by (simp add: numeral_eq_Suc)
  ultimately have "blob_read_uint32 (blob_reader_init [65, 0, 0] 3) = Some (0, ?r)"
    by (simp add: blob_read_uint32_def BLOB_READ_TYPE_def blob_reader_init_def blob_reader_align_def align_uintptr_def
        blob_copy_bytes_def blob_read_bytes_def ensure_can_read_def)
  moreover have "exec_read Read_string ?r = None"
    using blob_reads_checked [of ?r Read_string] by (simp add: string_pending_def LIMIT_def)
  ultimately show ?thesis by blast
qed

text \<open>
  Without the 2 GiB bound a string read can fail on data that is not corrupt: the size of a string of
  between \<open>2 ^ 31\<close> and \<open>2 ^ 32\<close> bytes is negative as an \<open>int\<close>, and its conversion to \<open>size_t\<close> is
  larger than any buffer, so the assertion fails although the bytes are there.
\<close>

theorem blob_read_string_int_wraps:
  assumes "\<not> overrun r" and "r_end r = length (r_data r)" and "length (r_data r) < LIMIT" and "string_pending r"
    and "2 ^ 31 \<le> length (string_at (r_data r) (r_current r)) + 1" and "length (string_at (r_data r) (r_current r)) + 1 < 2 ^ 32"
  shows "blob_read_string r = None"
proof -
  define l where "l = length (string_at (r_data r) (r_current r))"
  have "int32 (int l + 1) = int l + 1 - 2 ^ 32"
  proof -
    have "2147483648 \<le> int l + 1" "int l + 1 < 4294967296" using assms(5,6) by (simp_all add: l_def)
    then have "(int l + 1) div 2147483648 = 1" by linarith
    then have "bit (int l + 1) 31" by (simp add: bit_iff_odd_drop_bit drop_bit_eq_div)
    moreover have "take_bit 32 (int l + 1) = int l + 1" using assms(6) by (simp add: l_def take_bit_int_eq_self_iff)
    ultimately show ?thesis by (simp add: int32_def signed_take_bit_eq_take_bit_minus)
  qed
  moreover have "(int l + 1 - 2 ^ 32) mod 18446744073709551616 = int l + 1 - 2 ^ 32 + 18446744073709551616"
  proof -
    let ?n = "int l + 1 - 2 ^ 32 + 18446744073709551616"
    have "0 \<le> ?n" "?n < 18446744073709551616" using assms(5,6) by (simp_all add: l_def)
    then have "?n mod 18446744073709551616 = ?n" by (rule mod_pos_pos_trivial)
    moreover have "?n mod 18446744073709551616 = (int l + 1 - 2 ^ 32) mod 18446744073709551616" by (rule mod_add_self2)
    ultimately show ?thesis by (simp only:)
  qed
  moreover have "take (r_end r - r_current r) (drop (r_current r) (r_data r)) = drop (r_current r) (r_data r)" using assms(2) by simp
  moreover have "\<not> nat (int l + 1 - 2 ^ 32 + 18446744073709551616) \<le> r_end r - r_current r"
    using assms(2,3) by (simp add: LIMIT_def)
  ultimately show ?thesis using assms(1,4)
    by (simp add: blob_read_string_def string_pending_def string_at_def [symmetric] l_def [symmetric] ensure_can_read_def Let_def)
qed

end
