(* ===== verification/Idalloc.thy ===== *)
theory Idalloc
  imports Mesa_Prelude
begin

text \<open>
  The allocator of numbers, \<open>util/u_idalloc.c\<close>: a bit set in 32-bit elements with the index below
  which every element is full and the number of elements up to the last non-zero one, its
  variant under a lock, and the sparse variant with 1024 segments that the GL object names come
  from. An \<open>unsigned\<close> is a natural number with the wrap-around written out, the elements are
  32-bit words. Memory is taken to be available, as the code does not look at what \<open>realloc\<close>
  returns; a failed assertion is \<open>None\<close>.
\<close>

section \<open>The bit set\<close>

definition uwrap :: "nat \<Rightarrow> nat" where "uwrap n = n mod 4294967296"

lemma uwrap_id: "n < 4294967296 \<Longrightarrow> uwrap n = n"
  by (simp add: uwrap_def)

record util_idalloc =
  ia_data :: "u32 list"
  num_set_elements :: nat
  lowest_free_idx :: nat

abbreviation num_elements :: "util_idalloc \<Rightarrow> nat" where
  "num_elements buf \<equiv> length (ia_data buf)"

definition BITFIELD_BIT :: "nat \<Rightarrow> u32" where "BITFIELD_BIT b = push_bit b 1"
definition BITFIELD_MASK :: "nat \<Rightarrow> u32" where "BITFIELD_MASK b = mask b"

definition c_ffs :: "u32 \<Rightarrow> nat" where
  "c_ffs x = (case find (bit x) [0..<32] of None \<Rightarrow> 0 | Some k \<Rightarrow> k + 1)"

definition util_idalloc_exists :: "util_idalloc \<Rightarrow> nat \<Rightarrow> bool" where
  "util_idalloc_exists buf i \<longleftrightarrow>
     i div 32 < num_set_elements buf \<and> ia_data buf ! (i div 32) AND BITFIELD_BIT (i mod 32) \<noteq> 0"

definition util_idalloc_resize :: "nat \<Rightarrow> util_idalloc \<Rightarrow> util_idalloc" where
  "util_idalloc_resize new_num_elements buf =
     (if num_elements buf < new_num_elements
      then buf\<lparr>ia_data := ia_data buf @ replicate (new_num_elements - num_elements buf) 0\<rparr> else buf)"

definition util_idalloc_init :: "nat \<Rightarrow> util_idalloc option" where
  "util_idalloc_init initial_num_ids = do {
     c_assert (initial_num_ids \<noteq> 0);
     Some (util_idalloc_resize (uwrap (initial_num_ids + 31) div 32) \<lparr>ia_data = [], num_set_elements = 0, lowest_free_idx = 0\<rparr>)
   }"

text \<open>The first element from \<open>i\<close> on that is not full.\<close>

function alloc_scan :: "u32 list \<Rightarrow> nat \<Rightarrow> nat" where
  "alloc_scan d i = (if i < length d \<and> d ! i = - 1 then alloc_scan d (Suc i) else i)"
  by pat_completeness auto
termination by (relation "measure (\<lambda>(d, i). length d - i)") auto

declare alloc_scan.simps [simp del]

definition util_idalloc_alloc :: "util_idalloc \<Rightarrow> nat \<times> util_idalloc" where
  "util_idalloc_alloc buf =
     (let n = num_elements buf; i = alloc_scan (ia_data buf) (lowest_free_idx buf)
      in if i < n
         then let b = c_ffs (NOT (ia_data buf ! i)) - 1
              in (uwrap (i * 32 + b),
                  buf\<lparr>ia_data := (ia_data buf)[i := ia_data buf ! i OR BITFIELD_BIT b],
                      lowest_free_idx := i,
                      num_set_elements := max (num_set_elements buf) (i + 1)\<rparr>)
         else let buf1 = util_idalloc_resize (uwrap (max n 1 * 2)) buf
              in (uwrap (n * 32),
                  buf1\<lparr>lowest_free_idx := n,
                       ia_data := (ia_data buf1)[n := ia_data buf1 ! n OR 1],
                       num_set_elements := max (num_set_elements buf1) (n + 1)\<rparr>))"

section \<open>Ranges\<close>

function find_free_block :: "u32 list \<Rightarrow> nat \<Rightarrow> nat" where
  "find_free_block d i = (if i < length d then if d ! i = 0 then i else find_free_block d (Suc i) else length d)"
  by pat_completeness auto
termination by (relation "measure (\<lambda>(d, i). length d - i)") auto

declare find_free_block.simps [simp del]

text \<open>The inner loop: the end of the run of empty elements from \<open>base\<close>, at most \<open>num_alloc\<close> long.\<close>

function run_end :: "u32 list \<Rightarrow> nat \<Rightarrow> nat \<Rightarrow> nat \<Rightarrow> nat" where
  "run_end d base num_alloc i =
     (if i < length d \<and> i - base < num_alloc \<and> d ! i = 0 then run_end d base num_alloc (Suc i) else i)"
  by pat_completeness auto
termination by (relation "measure (\<lambda>(d, base, num_alloc, i). length d - i)") auto

declare run_end.simps [simp del]

lemma run_end_ge: "i \<le> run_end d base m i"
proof (induction d base m i rule: run_end.induct)
  case (1 d base m i)
  show ?case by (subst run_end.simps) (use 1 in \<open>auto intro: order_trans\<close>)
qed

lemma run_end_stop:
  "\<not> (run_end d base m i < length d \<and> run_end d base m i - base < m \<and> d ! run_end d base m i = 0)"
proof (induction d base m i rule: run_end.induct)
  case (1 d base m i)
  show ?case
  proof (cases "i < length d \<and> i - base < m \<and> d ! i = 0")
    case True
    then show ?thesis using 1 by (subst (1 2 3) run_end.simps) auto
  next
    case False
    have "run_end d base m i = i" using False by (subst run_end.simps) auto
    then show ?thesis using False by (simp only:) blast
  qed
qed

text \<open>The outer loop. The flag says whether a run was found below the end of the array.\<close>

function range_search :: "u32 list \<Rightarrow> nat \<Rightarrow> nat \<Rightarrow> bool \<times> nat" where
  "range_search d num_alloc base =
     (let i = run_end d base num_alloc base
      in if i - base = num_alloc then (True, base)
         else if length d \<le> i then (False, base)
         else range_search d num_alloc (if d ! i = 0 then i else i + 1))"
  by pat_completeness auto
termination
proof (relation "measure (\<lambda>(d, m, base). length d - base)", goal_cases)
  case (2 d num_alloc base x)
  have "base \<le> x" using 2(1) run_end_ge by simp
  moreover have "d ! x \<noteq> 0"
  proof
    assume "d ! x = 0"
    with 2 run_end_stop [of d base num_alloc base] have "\<not> x - base < num_alloc" by auto
    moreover have "x - base \<le> num_alloc"
    proof -
      have "run_end d base num_alloc i - base \<le> num_alloc" if "i - base \<le> num_alloc" for i
        using that
      proof (induction d base num_alloc i rule: run_end.induct)
        case (1 d base m i)
        then show ?case by (subst run_end.simps) auto
      qed
      then show ?thesis using 2(1) by simp
    qed
    ultimately show False using 2(2) by simp
  qed
  ultimately show ?case using 2(3) by auto
qed simp

declare range_search.simps [simp del]

definition mark_full :: "nat \<Rightarrow> nat \<Rightarrow> u32 list \<Rightarrow> u32 list" where
  "mark_full base n d = fold (\<lambda>i d. d[i := - 1]) [base..<base + n] d"

definition util_idalloc_alloc_range :: "nat \<Rightarrow> util_idalloc \<Rightarrow> (nat \<times> util_idalloc) option" where
  "util_idalloc_alloc_range num buf =
     (if num = 1 then Some (util_idalloc_alloc buf)
      else let num_alloc = uwrap (num + 31) div 32; n = num_elements buf
           in case range_search (ia_data buf) num_alloc (find_free_block (ia_data buf) (lowest_free_idx buf)) of
                (found, base) \<Rightarrow>
                  let buf1 = (if found then buf else util_idalloc_resize (uwrap (n * 2 + num_alloc)) buf);
                      d = mark_full base (num_alloc - (if num mod 32 \<noteq> 0 then 1 else 0)) (ia_data buf1);
                      d = (if num mod 32 \<noteq> 0 then d[base + num_alloc - 1 := d ! (base + num_alloc - 1) OR BITFIELD_MASK (num mod 32)] else d);
                      buf2 = buf1\<lparr>ia_data := d,
                        lowest_free_idx := (if lowest_free_idx buf1 = base then base + num div 32 else lowest_free_idx buf1),
                        num_set_elements := max (num_set_elements buf1) (base + num_alloc)\<rparr>
                  in do {
                    c_assert (list_all (\<lambda>i. util_idalloc_exists buf2 (base * 32 + i)) [0..<num]);
                    Some (uwrap (base * 32), buf2)
                  })"

section \<open>Releasing and reserving\<close>

function trim_set :: "u32 list \<Rightarrow> nat \<Rightarrow> nat" where
  "trim_set d k = (if 0 < k \<and> d ! (k - 1) = 0 then trim_set d (k - 1) else k)"
  by pat_completeness auto
termination by (relation "measure snd") auto

declare trim_set.simps [simp del]

definition util_idalloc_free :: "nat \<Rightarrow> util_idalloc \<Rightarrow> util_idalloc" where
  "util_idalloc_free i buf =
     (let idx = i div 32
      in if num_elements buf \<le> idx then buf
         else let d = (ia_data buf)[idx := ia_data buf ! idx AND NOT (BITFIELD_BIT (i mod 32))]
              in buf\<lparr>lowest_free_idx := min idx (lowest_free_idx buf),
                     ia_data := d,
                     num_set_elements := (if num_set_elements buf = idx + 1 then trim_set d (num_set_elements buf) else num_set_elements buf)\<rparr>)"

definition util_idalloc_reserve :: "nat \<Rightarrow> util_idalloc \<Rightarrow> util_idalloc" where
  "util_idalloc_reserve i buf =
     (let idx = i div 32;
          buf1 = (if num_elements buf \<le> idx then util_idalloc_resize (uwrap ((idx + 1) * 2)) buf else buf)
      in buf1\<lparr>ia_data := (ia_data buf1)[idx := ia_data buf1 ! idx OR BITFIELD_BIT (i mod 32)],
              num_set_elements := max (num_set_elements buf1) (idx + 1)\<rparr>)"

section \<open>Under a lock\<close>

record util_idalloc_mt =
  mt_buf :: util_idalloc
  skip_zero :: bool

definition util_idalloc_mt_init :: "nat \<Rightarrow> bool \<Rightarrow> util_idalloc_mt option" where
  "util_idalloc_mt_init initial_num_ids skip = do {
     buf \<leftarrow> util_idalloc_init initial_num_ids;
     (if skip
      then case util_idalloc_alloc buf of (zero, buf1) \<Rightarrow> do {
             c_assert (zero = 0);
             Some \<lparr>mt_buf = buf1, skip_zero = skip\<rparr>
           }
      else Some \<lparr>mt_buf = buf, skip_zero = skip\<rparr>)
   }"

definition util_idalloc_mt_init_tc :: "util_idalloc_mt option" where
  "util_idalloc_mt_init_tc = util_idalloc_mt_init 65536 True"

definition util_idalloc_mt_alloc :: "util_idalloc_mt \<Rightarrow> nat \<times> util_idalloc_mt" where
  "util_idalloc_mt_alloc m = (case util_idalloc_alloc (mt_buf m) of (i, buf) \<Rightarrow> (i, m\<lparr>mt_buf := buf\<rparr>))"

definition util_idalloc_mt_free :: "nat \<Rightarrow> util_idalloc_mt \<Rightarrow> util_idalloc_mt" where
  "util_idalloc_mt_free i m = (if i = 0 \<and> skip_zero m then m else m\<lparr>mt_buf := util_idalloc_free i (mt_buf m)\<rparr>)"

section \<open>Segments\<close>

type_synonym util_idalloc_sparse = "util_idalloc list"

definition NUM_SEGMENTS :: nat where "NUM_SEGMENTS = 1024"
definition MAX_IDS_PER_SEGMENT :: nat where "MAX_IDS_PER_SEGMENT = 4294967296 div NUM_SEGMENTS"
definition MAX_ELEMS_PER_SEGMENT :: nat where "MAX_ELEMS_PER_SEGMENT = MAX_IDS_PER_SEGMENT div 32"

definition util_idalloc_sparse_init :: "util_idalloc_sparse option" where
  "util_idalloc_sparse_init = map_option (replicate NUM_SEGMENTS) (util_idalloc_init 1)"

text \<open>The loops over the segments from number \<open>i\<close> on; none is left at the end of the list.\<close>

fun sparse_alloc_from :: "nat \<Rightarrow> util_idalloc_sparse \<Rightarrow> (nat \<times> util_idalloc_sparse) option" where
  "sparse_alloc_from i [] = None"
| "sparse_alloc_from i (s # ss) =
     (if lowest_free_idx s < MAX_ELEMS_PER_SEGMENT
      then case util_idalloc_alloc s of (k, s') \<Rightarrow> Some (uwrap (MAX_IDS_PER_SEGMENT * i + k), s' # ss)
      else map_option (\<lambda>(k, ss'). (k, s # ss')) (sparse_alloc_from (Suc i) ss))"

definition util_idalloc_sparse_alloc :: "util_idalloc_sparse \<Rightarrow> (nat \<times> util_idalloc_sparse) option" where
  "util_idalloc_sparse_alloc ss = sparse_alloc_from 0 ss"

fun sparse_range_from :: "nat \<Rightarrow> nat \<Rightarrow> util_idalloc_sparse \<Rightarrow> (nat \<times> util_idalloc_sparse) option" where
  "sparse_range_from num i [] = None"
| "sparse_range_from num i (s # ss) =
     (if uwrap (lowest_free_idx s + uwrap (num + 31) div 32) \<le> MAX_ELEMS_PER_SEGMENT
      then do {
        (base, s') \<leftarrow> util_idalloc_alloc_range num s;
        (if uwrap (base + num) \<le> MAX_IDS_PER_SEGMENT then Some (uwrap (MAX_IDS_PER_SEGMENT * i + base), s' # ss)
         else map_option (\<lambda>(k, ss'). (k, fold (\<lambda>j. util_idalloc_free (uwrap (base + j))) [0..<num] s' # ss'))
                (sparse_range_from num (Suc i) ss))
      }
      else map_option (\<lambda>(k, ss'). (k, s # ss')) (sparse_range_from num (Suc i) ss))"

definition util_idalloc_sparse_alloc_range :: "nat \<Rightarrow> util_idalloc_sparse \<Rightarrow> (nat \<times> util_idalloc_sparse) option" where
  "util_idalloc_sparse_alloc_range num ss = sparse_range_from num 0 ss"

definition util_idalloc_sparse_free :: "nat \<Rightarrow> util_idalloc_sparse \<Rightarrow> util_idalloc_sparse" where
  "util_idalloc_sparse_free i ss =
     ss[i div MAX_IDS_PER_SEGMENT := util_idalloc_free (i mod MAX_IDS_PER_SEGMENT) (ss ! (i div MAX_IDS_PER_SEGMENT))]"

definition util_idalloc_sparse_reserve :: "nat \<Rightarrow> util_idalloc_sparse \<Rightarrow> util_idalloc_sparse" where
  "util_idalloc_sparse_reserve i ss =
     ss[i div MAX_IDS_PER_SEGMENT := util_idalloc_reserve (i mod MAX_IDS_PER_SEGMENT) (ss ! (i div MAX_IDS_PER_SEGMENT))]"

section \<open>The set of numbers in use\<close>

definition id_set :: "util_idalloc \<Rightarrow> nat set" where
  "id_set buf = {i. i div 32 < num_elements buf \<and> bit (ia_data buf ! (i div 32)) (i mod 32)}"

definition ia_ok :: "util_idalloc \<Rightarrow> bool" where
  "ia_ok buf \<longleftrightarrow> lowest_free_idx buf \<le> num_elements buf \<and> (\<forall>i < lowest_free_idx buf. ia_data buf ! i = - 1) \<and>
     num_set_elements buf \<le> num_elements buf \<and>
     (\<forall>i < num_elements buf. num_set_elements buf \<le> i \<longrightarrow> ia_data buf ! i = 0) \<and>
     (0 < num_set_elements buf \<longrightarrow> ia_data buf ! (num_set_elements buf - 1) \<noteq> 0)"

lemma ia_okI:
  assumes "lowest_free_idx buf \<le> num_elements buf" and "\<And>i. i < lowest_free_idx buf \<Longrightarrow> ia_data buf ! i = - 1"
    and "num_set_elements buf \<le> num_elements buf"
    and "\<And>i. i < num_elements buf \<Longrightarrow> num_set_elements buf \<le> i \<Longrightarrow> ia_data buf ! i = 0"
    and "0 < num_set_elements buf \<Longrightarrow> ia_data buf ! (num_set_elements buf - 1) \<noteq> 0"
  shows "ia_ok buf"
  using assms by (simp add: ia_ok_def)

lemma ia_okD:
  assumes "ia_ok buf"
  shows "lowest_free_idx buf \<le> num_elements buf" "i < lowest_free_idx buf \<Longrightarrow> ia_data buf ! i = - 1"
    "num_set_elements buf \<le> num_elements buf" "i < num_elements buf \<Longrightarrow> num_set_elements buf \<le> i \<Longrightarrow> ia_data buf ! i = 0"
    "0 < num_set_elements buf \<Longrightarrow> ia_data buf ! (num_set_elements buf - 1) \<noteq> 0"
  using assms by (simp_all add: ia_ok_def)

lemma bit_minus_1_u32: "bit (- 1 :: u32) k \<longleftrightarrow> k < 32"
  by (simp add: bit_minus_1_iff possible_bit_def)

lemma bit_BITFIELD [simp]: "bit (BITFIELD_BIT b) k \<longleftrightarrow> b = k \<and> k < 32" "bit (BITFIELD_MASK b) k \<longleftrightarrow> k < 32 \<and> k < b"
  by (auto simp: BITFIELD_BIT_def BITFIELD_MASK_def bit_simps possible_bit_def)

lemma c_ffs_not:
  assumes "x \<noteq> - 1"
  shows "c_ffs (NOT x) - 1 < 32" "\<not> bit x (c_ffs (NOT x) - 1)" "\<And>j. j < c_ffs (NOT x) - 1 \<Longrightarrow> bit x j"
proof -
  obtain k where "k < 32" "bit (NOT x) k"
  proof -
    have "\<exists>k < 32. \<not> bit x k" using assms bit_word_eqI [of x "- 1"] by (auto simp: bit_minus_1_u32)
    then show ?thesis using that by (auto simp: bit_not_iff possible_bit_def)
  qed
  then have "find (bit (NOT x)) [0..<32] \<noteq> None" by (auto simp: find_None_iff)
  then obtain b where b: "find (bit (NOT x)) [0..<32] = Some b" by auto
  then obtain i where i: "i < 32" "bit (NOT x) i" "b = i" "\<forall>j < i. \<not> bit (NOT x) j" by (auto simp: find_Some_iff)
  have e: "c_ffs (NOT x) - 1 = b" using b by (simp add: c_ffs_def)
  show "c_ffs (NOT x) - 1 < 32" "\<not> bit x (c_ffs (NOT x) - 1)" using i unfolding e by (auto simp: bit_not_iff possible_bit_def)
  show "bit x j" if "j < c_ffs (NOT x) - 1" for j using that i unfolding e by (auto simp: bit_not_iff possible_bit_def)
qed

lemma alloc_scan_spec:
  "i \<le> alloc_scan d i \<and> (\<forall>j. i \<le> j \<and> j < alloc_scan d i \<longrightarrow> d ! j = - 1) \<and> (alloc_scan d i < length d \<longrightarrow> d ! alloc_scan d i \<noteq> - 1) \<and>
    (i \<le> length d \<longrightarrow> alloc_scan d i \<le> length d)"
proof (induction d i rule: alloc_scan.induct)
  case (1 d i)
  show ?case
  proof (cases "i < length d \<and> d ! i = - 1")
    case True
    then have e: "alloc_scan d i = alloc_scan d (Suc i)" by (subst alloc_scan.simps) auto
    show ?thesis unfolding e using 1 [OF True] True by (metis Suc_leD Suc_leI le_neq_implies_less)
  next
    case False
    have "alloc_scan d i = i" using False by (subst alloc_scan.simps) auto
    then show ?thesis using False by auto
  qed
qed

text \<open>Setting bits of one element.\<close>

lemma id_set_or:
  assumes "k < num_elements buf"
  shows "id_set (buf\<lparr>ia_data := (ia_data buf)[k := ia_data buf ! k OR m]\<rparr>) = id_set buf \<union> {i. i div 32 = k \<and> bit m (i mod 32)}"
  using assms by (auto simp: id_set_def nth_list_update bit_or_iff split: if_splits)

lemma id_set_fields [simp]: "id_set (buf\<lparr>lowest_free_idx := a\<rparr>) = id_set buf" "id_set (buf\<lparr>num_set_elements := b\<rparr>) = id_set buf"
  by (simp_all add: id_set_def)

lemma resize_spec:
  "num_elements (util_idalloc_resize n buf) = max (num_elements buf) n" "id_set (util_idalloc_resize n buf) = id_set buf"
  "ia_ok buf \<Longrightarrow> ia_ok (util_idalloc_resize n buf)"
  "lowest_free_idx (util_idalloc_resize n buf) = lowest_free_idx buf" "num_set_elements (util_idalloc_resize n buf) = num_set_elements buf"
  "i < num_elements buf \<Longrightarrow> ia_data (util_idalloc_resize n buf) ! i = ia_data buf ! i"
  "num_elements buf \<le> i \<Longrightarrow> i < n \<Longrightarrow> ia_data (util_idalloc_resize n buf) ! i = 0"
proof -
  show "ia_ok (util_idalloc_resize n buf)" if "ia_ok buf"
    using ia_okD [OF that] by (intro ia_okI) (auto simp: util_idalloc_resize_def nth_append split: if_splits)
qed (auto simp: util_idalloc_resize_def id_set_def nth_append split: if_splits)

text \<open>An element that gets its lowest free bit; \<open>k\<close> is the first element that is not full.\<close>

lemma single_id: "b < 32 \<Longrightarrow> {i. i div 32 = k \<and> bit (BITFIELD_BIT b) (i mod 32)} = {k * 32 + b}"
  by auto

lemma id_block:
  fixes k j b :: nat
  assumes "k * 32 \<le> j" "j < k * 32 + b" "b < 32"
  shows "j div 32 = k" "j mod 32 < b"
proof -
  obtain t where "j = k * 32 + t" using assms(1) by (auto simp: le_iff_add)
  then show "j div 32 = k" "j mod 32 < b" using assms(2,3) by simp_all
qed

lemma util_idalloc_alloc_spec:
  assumes "ia_ok buf" and "num_elements buf \<le> 67108864" and "util_idalloc_alloc buf = (i, buf')"
  shows "ia_ok buf' \<and> i \<notin> id_set buf \<and> (\<forall>j < i. j \<in> id_set buf) \<and> id_set buf' = insert i (id_set buf) \<and>
    lowest_free_idx buf' = i div 32 \<and> num_elements buf' \<le> max (num_elements buf) (2 * (i div 32) + 2)"
proof -
  let ?d = "ia_data buf" and ?n = "num_elements buf"
  let ?k = "alloc_scan ?d (lowest_free_idx buf)"
  have k: "lowest_free_idx buf \<le> ?k" "\<And>j. lowest_free_idx buf \<le> j \<Longrightarrow> j < ?k \<Longrightarrow> ?d ! j = - 1" "?k < ?n \<Longrightarrow> ?d ! ?k \<noteq> - 1" "?k \<le> ?n"
    using alloc_scan_spec [of "lowest_free_idx buf" ?d] ia_okD(1) [OF assms(1)] by auto
  have full: "?d ! j = - 1" if "j < ?k" for j using that k(2) ia_okD(2) [OF assms(1)] by (cases "j < lowest_free_idx buf") auto
  have below: "j \<in> id_set buf" if "j < ?k * 32" for j
  proof -
    have "j div 32 < ?k" using that by (simp add: less_mult_imp_div_less)
    then show ?thesis using full k(4) by (simp add: id_set_def bit_minus_1_u32)
  qed
  show ?thesis
  proof (cases "?k < ?n")
    case True
    let ?b = "c_ffs (NOT (?d ! ?k)) - 1"
    note b = c_ffs_not [OF k(3) [OF True]]
    have w: "uwrap (?k * 32 + ?b) = ?k * 32 + ?b" using True assms(2) b(1) by (intro uwrap_id) linarith
    have r: "i = ?k * 32 + ?b" "buf' = buf\<lparr>ia_data := ?d[?k := ?d ! ?k OR BITFIELD_BIT ?b], lowest_free_idx := ?k,
        num_set_elements := max (num_set_elements buf) (?k + 1)\<rparr>"
      using assms(3) True w by (auto simp: util_idalloc_alloc_def Let_def)
    have "id_set buf' = insert i (id_set buf)" unfolding r id_set_fields id_set_or [OF True] single_id [OF b(1)] by blast
    moreover have "i \<notin> id_set buf" using b(1,2) by (simp add: r(1) id_set_def)
    moreover have "j \<in> id_set buf" if "j < i" for j
    proof (cases "j < ?k * 32")
      case False
      then have "j div 32 = ?k" "j mod 32 < ?b" using that id_block [of ?k j ?b] b(1) unfolding r(1) by simp_all
      then show ?thesis using b(3) True by (simp add: id_set_def)
    qed (rule below)
    moreover have "ia_ok buf'"
    proof (rule ia_okI)
      have nz: "?d ! ?k OR BITFIELD_BIT ?b \<noteq> 0"
      proof
        assume "?d ! ?k OR BITFIELD_BIT ?b = 0"
        then have "bit (?d ! ?k OR BITFIELD_BIT ?b) ?b = bit (0 :: u32) ?b" by simp
        then show False using b(1) by (simp add: bit_or_iff)
      qed
      show "ia_data buf' ! (num_set_elements buf' - 1) \<noteq> 0"
        using nz True ia_okD(3,5) [OF assms(1)] unfolding r(2) by (auto simp: max_def nth_list_update)
      show "ia_data buf' ! j = 0" if "j < num_elements buf'" "num_set_elements buf' \<le> j" for j
        using that ia_okD(4) [OF assms(1)] unfolding r(2) by simp
    qed (use True full ia_okD [OF assms(1)] in \<open>auto simp: r(2)\<close>)
    ultimately show ?thesis using True b(1) by (simp add: r)
  next
    case False
    then have kn: "?k = ?n" using k(4) by simp
    let ?r = "util_idalloc_resize (max ?n 1 * 2) buf"
    have w: "uwrap (max ?n 1 * 2) = max ?n 1 * 2" "uwrap (?n * 32) = ?n * 32" using assms(2) by (auto intro!: uwrap_id)
    have r: "i = ?n * 32" "buf' = ?r\<lparr>ia_data := (ia_data ?r)[?n := ia_data ?r ! ?n OR BITFIELD_BIT 0], lowest_free_idx := ?n,
        num_set_elements := max (num_set_elements ?r) (?n + 1)\<rparr>"
      using assms(3) False w by (auto simp: util_idalloc_alloc_def Let_def BITFIELD_BIT_def)
    have len: "?n < num_elements ?r" "num_elements ?r = max ?n (2 * max ?n 1)" by (auto simp: resize_spec(1))
    have z: "ia_data ?r ! ?n = 0" by (intro resize_spec(7)) auto
    have "id_set buf' = insert i (id_set buf)" unfolding r id_set_fields id_set_or [OF len(1)] resize_spec(2)
      using single_id [of 0 ?n] by auto
    moreover have "i \<notin> id_set buf" by (simp add: r(1) id_set_def)
    moreover have "ia_ok buf'"
    proof (rule ia_okI)
      have one: "BITFIELD_BIT 0 \<noteq> 0" by (simp add: BITFIELD_BIT_def)
      note ok = ia_okD [OF resize_spec(3) [OF assms(1), of "max ?n 1 * 2"]]
      show "ia_data buf' ! (num_set_elements buf' - 1) \<noteq> 0" using len ia_okD(3) [OF assms(1)] one z
        unfolding r(2) by (simp add: max_def resize_spec(5))
      show "ia_data buf' ! j = 0" if "j < num_elements buf'" "num_set_elements buf' \<le> j" for j
        using that resize_spec(7) [of buf j "max ?n 1 * 2"] len unfolding r(2) by (auto simp: resize_spec(1))
      show "ia_data buf' ! j = - 1" if "j < lowest_free_idx buf'" for j
        using that full kn resize_spec(6) [of j buf] unfolding r(2) by auto
      show "num_set_elements buf' \<le> num_elements buf'"
        using len(1) ia_okD(3) [OF assms(1)] unfolding r(2) by (simp add: resize_spec(5))
      show "lowest_free_idx buf' \<le> num_elements buf'" using len(1) unfolding r(2) by simp
    qed
    ultimately show ?thesis using below kn len(2) by (simp add: r)
  qed
qed

section \<open>Releasing and reserving numbers\<close>

lemma trim_set_spec:
  "trim_set d k \<le> k \<and> (\<forall>j. trim_set d k \<le> j \<and> j < k \<longrightarrow> d ! j = 0) \<and> (0 < trim_set d k \<longrightarrow> d ! (trim_set d k - 1) \<noteq> 0)"
proof (induction d k rule: trim_set.induct)
  case (1 d k)
  show ?case
  proof (cases "0 < k \<and> d ! (k - 1) = 0")
    case True
    then have e: "trim_set d k = trim_set d (k - 1)" by (subst trim_set.simps) auto
    have "j < k - 1 \<or> j = k - 1" if "j < k" for j using that by linarith
    then show ?thesis unfolding e using 1 [OF True] True by auto
  next
    case False
    have "trim_set d k = k" using False by (subst trim_set.simps) auto
    then show ?thesis using False by auto
  qed
qed

lemma same_id: "(i div 32 = j div 32 \<and> i mod 32 = j mod 32) \<longleftrightarrow> i = (j :: nat)"
  by (metis div_mult_mod_eq)

lemma util_idalloc_free_set: "id_set (util_idalloc_free i buf) = id_set buf - {i}"
proof -
  have "bit (x AND NOT (BITFIELD_BIT b)) k \<longleftrightarrow> bit x k \<and> b \<noteq> k" if "k < 32" for x b k
    using that by (auto simp: bit_and_iff bit_not_iff possible_bit_def)
  then have "j \<in> id_set (util_idalloc_free i buf) \<longleftrightarrow> j \<in> id_set buf \<and> j \<noteq> i" for j
    unfolding same_id [of j i, symmetric] by (auto simp: id_set_def util_idalloc_free_def Let_def nth_list_update)
  then show ?thesis by blast
qed

lemma util_idalloc_free_ok:
  assumes "ia_ok buf"
  shows "ia_ok (util_idalloc_free i buf)"
proof (cases "num_elements buf \<le> i div 32")
  case False
  let ?idx = "i div 32" and ?s = "num_set_elements buf"
  let ?d = "(ia_data buf)[?idx := ia_data buf ! ?idx AND NOT (BITFIELD_BIT (i mod 32))]"
  let ?m = "if ?s = ?idx + 1 then trim_set ?d ?s else ?s"
  have f: "ia_data (util_idalloc_free i buf) = ?d" "lowest_free_idx (util_idalloc_free i buf) = min ?idx (lowest_free_idx buf)"
    "num_set_elements (util_idalloc_free i buf) = ?m" using False by (simp_all add: util_idalloc_free_def Let_def)
  note ok = ia_okD [OF assms]
  have t: "trim_set ?d ?s \<le> ?s" "\<And>j. trim_set ?d ?s \<le> j \<Longrightarrow> j < ?s \<Longrightarrow> ?d ! j = 0" "0 < trim_set ?d ?s \<Longrightarrow> ?d ! (trim_set ?d ?s - 1) \<noteq> 0"
    using trim_set_spec [of ?d ?s] by auto
  have z: "?d ! j = 0" if "j < num_elements buf" "?s \<le> j" for j
    using ok(4) [OF that] that by (cases "j = ?idx") auto
  show ?thesis
  proof (rule ia_okI; unfold f)
    show "min ?idx (lowest_free_idx buf) \<le> length ?d" "?m \<le> length ?d" using ok(1,3) t(1) by auto
    show "?d ! j = - 1" if "j < min ?idx (lowest_free_idx buf)" for j using that ok(2) by auto
    show "?d ! j = 0" if "j < length ?d" "?m \<le> j" for j using that z t(2) by (cases "j < ?s") (auto split: if_splits)
    show "?d ! (?m - 1) \<noteq> 0" if "0 < ?m"
    proof (cases "?s = ?idx + 1")
      case True
      then show ?thesis using t(3) that by simp
    next
      case ne: False
      then have "?s - 1 \<noteq> ?idx" using that by (auto split: if_splits)
      then show ?thesis using ok(5) that ne by simp
    qed
  qed
qed (simp add: util_idalloc_free_def Let_def assms)

lemma or_nonzero: "bit m k \<Longrightarrow> (x :: u32) OR m \<noteq> 0"
  by (metis bit_0_eq bit_or_iff bot_apply bot_bool_def)

lemma util_idalloc_reserve_spec:
  assumes "ia_ok buf" and "i < 2147483648"
  shows "ia_ok (util_idalloc_reserve i buf)" "id_set (util_idalloc_reserve i buf) = insert i (id_set buf)"
proof -
  let ?idx = "i div 32"
  define b1 where "b1 = (if num_elements buf \<le> ?idx then util_idalloc_resize (uwrap ((?idx + 1) * 2)) buf else buf)"
  have w: "uwrap ((?idx + 1) * 2) = (?idx + 1) * 2"
  proof (rule uwrap_id)
    have "?idx < 67108864" using assms(2) by (intro less_mult_imp_div_less) simp
    then show "(?idx + 1) * 2 < 4294967296" by simp
  qed
  have b1: "?idx < num_elements b1" "id_set b1 = id_set buf" "ia_ok b1" "lowest_free_idx b1 = lowest_free_idx buf" "lowest_free_idx b1 \<le> num_elements buf"
    using ia_okD(1) [OF assms(1)] assms(1) unfolding b1_def w by (auto simp: resize_spec)
  have r: "util_idalloc_reserve i buf = b1\<lparr>ia_data := (ia_data b1)[?idx := ia_data b1 ! ?idx OR BITFIELD_BIT (i mod 32)],
      num_set_elements := max (num_set_elements b1) (?idx + 1)\<rparr>"
    unfolding util_idalloc_reserve_def Let_def b1_def by (rule refl)
  have s: "{j. j div 32 = ?idx \<and> bit (BITFIELD_BIT (i mod 32)) (j mod 32)} = {i}"
    unfolding bit_BITFIELD using same_id [of _ i] by (auto simp: eq_commute)
  show "id_set (util_idalloc_reserve i buf) = insert i (id_set buf)"
    unfolding r id_set_fields id_set_or [OF b1(1)] s b1(2) by blast
  note ok = ia_okD [OF b1(3)]
  have nz: "ia_data b1 ! ?idx OR BITFIELD_BIT (i mod 32) \<noteq> 0" by (rule or_nonzero [where k = "i mod 32"]) simp
  have full: "x OR m = - 1" if "x = - 1" for x m :: u32 using that by simp
  show "ia_ok (util_idalloc_reserve i buf)"
    unfolding r
  proof (rule ia_okI)
    fix j assume "j < lowest_free_idx (b1\<lparr>ia_data := (ia_data b1)[?idx := ia_data b1 ! ?idx OR BITFIELD_BIT (i mod 32)],
      num_set_elements := max (num_set_elements b1) (?idx + 1)\<rparr>)"
    then show "ia_data (b1\<lparr>ia_data := (ia_data b1)[?idx := ia_data b1 ! ?idx OR BITFIELD_BIT (i mod 32)],
      num_set_elements := max (num_set_elements b1) (?idx + 1)\<rparr>) ! j = - 1"
      using ok(1,2) full by (cases "j = ?idx") auto
  qed (use ok b1(1) nz in \<open>auto simp: nth_list_update max_def split: if_splits\<close>)
qed

section \<open>Allocating ranges\<close>

lemma find_free_block_spec:
  "i \<le> length d \<Longrightarrow> i \<le> find_free_block d i \<and> find_free_block d i \<le> length d"
proof (induction d i rule: find_free_block.induct)
  case (1 d i)
  show ?case by (subst (1 2) find_free_block.simps) (use 1 in auto)
qed

lemma run_end_spec:
  assumes "base \<le> i" and "i - base \<le> m" and "i \<le> length d" and "\<forall>j. base \<le> j \<and> j < i \<longrightarrow> d ! j = 0"
  shows "run_end d base m i - base \<le> m \<and> run_end d base m i \<le> length d \<and> (\<forall>j. base \<le> j \<and> j < run_end d base m i \<longrightarrow> d ! j = 0)"
  using assms
proof (induction d base m i rule: run_end.induct)
  case (1 d base m i)
  show ?case
  proof (cases "i < length d \<and> i - base < m \<and> d ! i = 0")
    case True
    then have e: "run_end d base m i = run_end d base m (Suc i)" by (subst run_end.simps) auto
    show ?thesis unfolding e
    proof (rule 1(1) [OF True])
      show "base \<le> Suc i" "Suc i - base \<le> m" "Suc i \<le> length d" using 1(2) True by linarith+
      show "\<forall>j. base \<le> j \<and> j < Suc i \<longrightarrow> d ! j = 0" using 1(5) True by (auto simp: less_Suc_eq)
    qed
  next
    case False
    have "run_end d base m i = i" using False by (subst run_end.simps) auto
    then show ?thesis using 1(2-5) by simp
  qed
qed

lemma range_search_spec:
  assumes "base \<le> length d" and "range_search d m base = (found, b)"
  shows "base \<le> b \<and> b \<le> length d \<and> (found \<longrightarrow> b + m \<le> length d) \<and> (\<forall>j < length d. b \<le> j \<and> (found \<longrightarrow> j < b + m) \<longrightarrow> d ! j = 0)"
  using assms
proof (induction d m base rule: range_search.induct)
  case (1 d m base)
  let ?i = "run_end d base m base"
  have i: "base \<le> ?i" "?i - base \<le> m" "?i \<le> length d" "\<And>j. base \<le> j \<Longrightarrow> j < ?i \<Longrightarrow> d ! j = 0"
  proof -
    have "\<forall>j. base \<le> j \<and> j < base \<longrightarrow> d ! j = 0" by (meson leD)
    from run_end_spec [OF order_refl _ 1(2) this, of m] show "?i - base \<le> m" "?i \<le> length d" "\<And>j. base \<le> j \<Longrightarrow> j < ?i \<Longrightarrow> d ! j = 0" by auto
  qed (rule run_end_ge)
  consider (found) "?i - base = m" | (ended) "?i - base \<noteq> m" "length d \<le> ?i" | (more) "?i - base \<noteq> m" "\<not> length d \<le> ?i" by blast
  then show ?case
  proof cases
    case found
    have "range_search d m base = (True, base)" by (subst range_search.simps) (simp add: Let_def found)
    then show ?thesis using 1(2,3) found i by auto
  next
    case ended
    have "range_search d m base = (False, base)" by (subst range_search.simps) (simp add: Let_def ended)
    then show ?thesis using 1(2,3) ended i by auto
  next
    case more
    have e: "range_search d m base = range_search d m (if d ! ?i = 0 then ?i else ?i + 1)"
      by (subst range_search.simps) (simp add: Let_def more)
    let ?b = "if d ! ?i = 0 then ?i else ?i + 1"
    have "?b \<le> length d" "base \<le> ?b" using more(2) i(1) by auto
    with 1(1) [OF refl more _ 1(3) [unfolded e]] show ?thesis by (meson le_trans)
  qed
qed

lemma mark_full_nth:
  "length (mark_full base n d) = length d \<and> (\<forall>j < length d. mark_full base n d ! j = (if base \<le> j \<and> j < base + n then - 1 else d ! j))"
proof (induction n)
  case 0
  show ?case by (auto simp: mark_full_def)
next
  case (Suc n)
  have "mark_full base (Suc n) d = (mark_full base n d)[base + n := - 1]" by (simp add: mark_full_def)
  then show ?case using Suc by (auto simp: nth_list_update less_Suc_eq)
qed

text \<open>The elements after a range is marked: \<open>q\<close> full ones and \<open>r\<close> bits of the next.\<close>

definition mark_range :: "nat \<Rightarrow> nat \<Rightarrow> u32 list \<Rightarrow> u32 list" where
  "mark_range base num d =
     (let d1 = mark_full base (num div 32) d
      in if num mod 32 \<noteq> 0 then d1[base + num div 32 := d1 ! (base + num div 32) OR BITFIELD_MASK (num mod 32)] else d1)"

lemma round_up_32: "(num + 31) div 32 = num div 32 + (if num mod 32 \<noteq> 0 then 1 else 0)" for num :: nat
proof -
  obtain q r where "num = q * 32 + r" "r < 32" by (metis div_mult_mod_eq mod_less_divisor zero_less_numeral)
  then show ?thesis by (cases "r = 0") auto
qed

lemma mark_range_nth:
  assumes "base + (num + 31) div 32 \<le> length d" and "\<And>j. base \<le> j \<Longrightarrow> j < base + (num + 31) div 32 \<Longrightarrow> d ! j = 0" and "j < length d"
  shows "length (mark_range base num d) = length d"
    "mark_range base num d ! j = (if base \<le> j \<and> j < base + num div 32 then - 1
       else if j = base + num div 32 \<and> num mod 32 \<noteq> 0 then BITFIELD_MASK (num mod 32) else d ! j)"
proof -
  note m = mark_full_nth [of base "num div 32" d]
  show "length (mark_range base num d) = length d" using m by (simp add: mark_range_def Let_def)
  have "d ! (base + num div 32) = 0" "base + num div 32 < length d" if "num mod 32 \<noteq> 0"
    using assms(1,2) that by (auto simp: round_up_32)
  then show "mark_range base num d ! j = (if base \<le> j \<and> j < base + num div 32 then - 1
       else if j = base + num div 32 \<and> num mod 32 \<noteq> 0 then BITFIELD_MASK (num mod 32) else d ! j)"
    using m assms(3) by (auto simp: mark_range_def Let_def nth_list_update)
qed

lemma in_range_iff:
  "base * 32 \<le> i \<and> i < base * 32 + num \<longleftrightarrow>
     base \<le> i div 32 \<and> (i div 32 < base + num div 32 \<or> i div 32 = base + num div 32 \<and> i mod 32 < num mod 32)" for i :: nat
proof -
  have "i = i div 32 * 32 + i mod 32" "i mod 32 < 32" "num = num div 32 * 32 + num mod 32" "num mod 32 < 32" by simp_all
  then show ?thesis by linarith
qed

lemma mark_range_set:
  assumes "base + (num + 31) div 32 \<le> num_elements buf" and "\<And>j. base \<le> j \<Longrightarrow> j < base + (num + 31) div 32 \<Longrightarrow> ia_data buf ! j = 0"
  shows "id_set (buf\<lparr>ia_data := mark_range base num (ia_data buf)\<rparr>) = id_set buf \<union> {base * 32..<base * 32 + num}"
    "id_set buf \<inter> {base * 32..<base * 32 + num} = {}"
proof -
  have out: "ia_data buf ! (i div 32) = 0" if "base * 32 \<le> i \<and> i < base * 32 + num" for i
  proof (rule assms(2))
    show "base \<le> i div 32" "i div 32 < base + (num + 31) div 32"
      using that [unfolded in_range_iff] unfolding round_up_32 by (auto split: if_splits)
  qed
  then show "id_set buf \<inter> {base * 32..<base * 32 + num} = {}" by (auto simp: id_set_def)
  have "i \<in> id_set (buf\<lparr>ia_data := mark_range base num (ia_data buf)\<rparr>) \<longleftrightarrow> i \<in> id_set buf \<or> base * 32 \<le> i \<and> i < base * 32 + num" for i
  proof (cases "i div 32 < num_elements buf")
    case True
    note m = mark_range_nth [OF assms True]
    have z: "ia_data buf ! (base + num div 32) = 0" if "num mod 32 \<noteq> 0" using assms(2) that by (simp add: round_up_32)
    have "i mod 32 < 32" by simp
    then show ?thesis unfolding in_range_iff id_set_def using True z
      by (simp add: m bit_minus_1_u32) (cases "base \<le> i div 32"; auto)
  next
    case False
    then have "\<not> (base * 32 \<le> i \<and> i < base * 32 + num)"
      using assms(1) unfolding in_range_iff round_up_32 by (auto split: if_splits)
    then show ?thesis using False mark_range_nth(1) [OF assms, of 0] by (auto simp: id_set_def mark_range_def Let_def mark_full_nth)
  qed
  then show "id_set (buf\<lparr>ia_data := mark_range base num (ia_data buf)\<rparr>) = id_set buf \<union> {base * 32..<base * 32 + num}"
    by (intro set_eqI) (simp only: Un_iff atLeastLessThan_iff)
qed

lemma exists_iff:
  assumes "ia_ok buf"
  shows "util_idalloc_exists buf i \<longleftrightarrow> i \<in> id_set buf"
proof -
  have "x AND BITFIELD_BIT b \<noteq> 0 \<longleftrightarrow> bit x b" if "b < 32" for x b
  proof -
    have "bit (x AND BITFIELD_BIT b) k \<longleftrightarrow> bit x k \<and> k = b" for k using that by (auto simp: bit_and_iff)
    note b = this
    show ?thesis
    proof (cases "bit x b")
      case True
      then have "bit (x AND BITFIELD_BIT b) b" by (simp add: b)
      then show ?thesis using True by (metis bit_0_eq bot_apply bot_bool_def)
    next
      case False
      have "x AND BITFIELD_BIT b = 0" by (rule bit_word_eqI) (use False in \<open>auto simp: b\<close>)
      then show ?thesis using False by simp
    qed
  qed
  moreover have "i div 32 < num_set_elements buf" if "i div 32 < num_elements buf" "bit (ia_data buf ! (i div 32)) (i mod 32)"
    using that ia_okD(4) [OF assms, of "i div 32"] by (cases "i div 32 < num_set_elements buf") auto
  ultimately show ?thesis using ia_okD(3) [OF assms] by (auto simp: util_idalloc_exists_def id_set_def)
qed

lemma marked_ok:
  assumes "ia_ok buf" and "base + (num + 31) div 32 \<le> num_elements buf" and "0 < num"
    and zero: "\<And>j. base \<le> j \<Longrightarrow> j < base + (num + 31) div 32 \<Longrightarrow> ia_data buf ! j = 0"
    and "lowest_free_idx buf \<le> base"
  shows "ia_ok (buf\<lparr>ia_data := mark_range base num (ia_data buf),
    lowest_free_idx := (if lowest_free_idx buf = base then base + num div 32 else lowest_free_idx buf),
    num_set_elements := max (num_set_elements buf) (base + (num + 31) div 32)\<rparr>)" (is "ia_ok ?b")
proof -
  let ?m = "(num + 31) div 32" and ?q = "num div 32" and ?r = "num mod 32"
  note ok = ia_okD [OF assms(1)]
  note m = mark_range_nth [OF assms(2) zero]
  have len: "length (mark_range base num (ia_data buf)) = num_elements buf"
    by (simp add: mark_range_def Let_def mark_full_nth)
  have q: "?q \<le> ?m" "0 < ?m" "?r \<noteq> 0 \<Longrightarrow> ?m = ?q + 1" "?r = 0 \<Longrightarrow> ?m = ?q" using assms(3) by (auto simp: round_up_32)
  have msk: "BITFIELD_MASK ?r \<noteq> 0" if "?r \<noteq> 0" using or_nonzero [of "BITFIELD_MASK ?r" 0 0] that by simp
  show ?thesis
  proof (rule ia_okI)
    show "lowest_free_idx ?b \<le> num_elements ?b" "num_set_elements ?b \<le> num_elements ?b"
      using ok(1,3) assms(2) q(1) len by auto
    fix j
    show "ia_data ?b ! j = - 1" if j: "j < lowest_free_idx ?b"
    proof -
      have "j < num_elements buf" "j < lowest_free_idx buf \<or> base \<le> j \<and> j < base + ?q" "j < lowest_free_idx buf \<Longrightarrow> \<not> base \<le> j"
        using j ok(1) assms(2,5) q(1) by (auto split: if_splits)
      then show ?thesis using m(2) [of j] ok(2) [of j] by auto
    qed
    show "ia_data ?b ! j = 0" if j: "j < num_elements ?b" "num_set_elements ?b \<le> j"
    proof -
      have "j < num_elements buf" "base + ?m \<le> j" "num_set_elements buf \<le> j" using j len by auto
      then show ?thesis using m(2) [of j] ok(4) [of j] q by (cases "?r = 0") auto
    qed
    show "ia_data ?b ! (num_set_elements ?b - 1) \<noteq> 0"
    proof (cases "base + ?m < num_set_elements buf")
      case True
      then have "num_set_elements buf - 1 < num_elements buf" "base + ?m \<le> num_set_elements buf - 1" using ok(3) by auto
      then show ?thesis using m(2) [of "num_set_elements buf - 1"] ok(5) True q by (cases "?r = 0") auto
    next
      case False
      then have e: "num_set_elements ?b - 1 = base + ?m - 1" by simp
      have "base + ?m - 1 < num_elements buf" using assms(2) q(2) by linarith
      then show ?thesis unfolding e using m(2) [of "base + ?m - 1"] q msk by (cases "?r = 0") auto
    qed
  qed
qed

lemma util_idalloc_alloc_range_spec:
  assumes "ia_ok buf" and "num_elements buf \<le> 67108864" and "1 < num" and "num \<le> 1073741824"
  shows "\<exists>i buf'. util_idalloc_alloc_range num buf = Some (i, buf') \<and> ia_ok buf' \<and>
    {i..<i + num} \<inter> id_set buf = {} \<and> id_set buf' = id_set buf \<union> {i..<i + num}"
proof -
  let ?m = "(num + 31) div 32" and ?n = "num_elements buf"
  obtain found base where s: "range_search (ia_data buf) ?m (find_free_block (ia_data buf) (lowest_free_idx buf)) = (found, base)" by force
  have fb: "lowest_free_idx buf \<le> find_free_block (ia_data buf) (lowest_free_idx buf)" "find_free_block (ia_data buf) (lowest_free_idx buf) \<le> ?n"
    using find_free_block_spec [OF ia_okD(1) [OF assms(1)]] by auto
  have base: "lowest_free_idx buf \<le> base" "base \<le> ?n" "found \<Longrightarrow> base + ?m \<le> ?n"
    "\<And>j. j < ?n \<Longrightarrow> base \<le> j \<Longrightarrow> (found \<Longrightarrow> j < base + ?m) \<Longrightarrow> ia_data buf ! j = 0"
    using range_search_spec [OF fb(2) s] fb(1) by auto
  have "?m \<le> 1073741855 div 32" using assms(4) by (intro div_le_mono) simp
  then have m: "?m \<le> 33554432" by simp
  have w: "uwrap (num + 31) = num + 31" "uwrap (?n * 2 + ?m) = ?n * 2 + ?m" "uwrap (base * 32) = base * 32"
    using assms(2,4) base(2) m by (auto intro!: uwrap_id)
  define b1 where "b1 = (if found then buf else util_idalloc_resize (?n * 2 + ?m) buf)"
  have b1: "base + ?m \<le> num_elements b1" "ia_ok b1" "id_set b1 = id_set buf" "lowest_free_idx b1 = lowest_free_idx buf"
    using base assms(1) by (auto simp: b1_def resize_spec)
  have zero: "ia_data b1 ! j = 0" if "base \<le> j" "j < base + ?m" for j
    using that base resize_spec(6) [of j buf] resize_spec(7) [of buf j] by (cases "j < ?n") (auto simp: b1_def)
  let ?b2 = "b1\<lparr>ia_data := mark_range base num (ia_data b1),
      lowest_free_idx := (if lowest_free_idx b1 = base then base + num div 32 else lowest_free_idx b1),
      num_set_elements := max (num_set_elements b1) (base + ?m)\<rparr>"
  have ok: "ia_ok ?b2" using marked_ok [OF b1(2,1) _ zero] assms(3) base(1) b1(4) by simp
  have set: "id_set ?b2 = id_set buf \<union> {base * 32..<base * 32 + num}" "id_set buf \<inter> {base * 32..<base * 32 + num} = {}"
    using mark_range_set [OF b1(1) zero] b1(3) by simp_all
  have d: "(let d = mark_full base (?m - (if num mod 32 \<noteq> 0 then 1 else 0)) d0
       in if num mod 32 \<noteq> 0 then d[base + ?m - 1 := d ! (base + ?m - 1) OR BITFIELD_MASK (num mod 32)] else d) = mark_range base num d0" for d0
    by (simp add: mark_range_def Let_def round_up_32)
  have "list_all (\<lambda>i. util_idalloc_exists ?b2 (base * 32 + i)) [0..<num]"
    unfolding exists_iff [OF ok] set by (simp add: list_all_iff)
  then have "util_idalloc_alloc_range num buf = Some (base * 32, ?b2)"
    using assms(3) unfolding util_idalloc_alloc_range_def w(1) Let_def s prod.case w b1_def [symmetric] d [unfolded Let_def] by simp
  then show ?thesis using ok set by blast
qed

text \<open>
  Property C24.  The bit set implements a set of numbers: from a well-formed allocator with at
  most 2 ^ 31 numbers, allocation returns the smallest number not in use and adds it, a range
  allocation fails no assertion and returns numbers none of which is in use and adds them all, releasing
  a number removes exactly it and reserving one adds exactly it; every operation keeps the
  allocator well-formed (the full elements below the lowest free one, and the last non-zero
  element, are tracked exactly).
\<close>

theorem util_idalloc_refines_set:
  assumes "ia_ok buf" and "num_elements buf \<le> 67108864" and "0 < num" and "num \<le> 1073741824" and "i < 2147483648"
  shows "(\<exists>k b. util_idalloc_alloc buf = (k, b) \<and> ia_ok b \<and> k \<notin> id_set buf \<and> {..<k} \<subseteq> id_set buf \<and> id_set b = insert k (id_set buf)) \<and>
    (\<exists>k b. util_idalloc_alloc_range num buf = Some (k, b) \<and> ia_ok b \<and> {k..<k + num} \<inter> id_set buf = {} \<and> id_set b = id_set buf \<union> {k..<k + num}) \<and>
    ia_ok (util_idalloc_free i buf) \<and> id_set (util_idalloc_free i buf) = id_set buf - {i} \<and>
    ia_ok (util_idalloc_reserve i buf) \<and> id_set (util_idalloc_reserve i buf) = insert i (id_set buf)"
proof -
  obtain k b where kb: "util_idalloc_alloc buf = (k, b)" by force
  note a = util_idalloc_alloc_spec [OF assms(1,2) kb]
  have "\<exists>k b. util_idalloc_alloc_range num buf = Some (k, b) \<and> ia_ok b \<and> {k..<k + num} \<inter> id_set buf = {} \<and> id_set b = id_set buf \<union> {k..<k + num}"
  proof (cases "num = 1")
    case True
    have "util_idalloc_alloc_range num buf = Some (k, b)" by (simp add: util_idalloc_alloc_range_def True kb)
    then show ?thesis using a by (auto simp: True)
  next
    case False
    then show ?thesis using util_idalloc_alloc_range_spec [OF assms(1,2) _ assms(4)] assms(3) by simp
  qed
  then show ?thesis using kb a util_idalloc_free_ok [OF assms(1)] util_idalloc_free_set util_idalloc_reserve_spec [OF assms(1,5)] by auto
qed

definition ia_example :: util_idalloc where
  "ia_example = \<lparr>ia_data = [- 1, 1], num_set_elements = 2, lowest_free_idx = 1\<rparr>"

lemma ia_example_ok: "ia_ok ia_example"
  by (simp add: ia_ok_def ia_example_def less_Suc_eq)

theorem util_idalloc_refines_set_witness:
  "ia_ok ia_example \<and> id_set (util_idalloc_free 3 ia_example) = id_set ia_example - {3} \<and>
   (\<exists>k b. util_idalloc_alloc_range 40 ia_example = Some (k, b) \<and> {k..<k + 40} \<inter> id_set ia_example = {})"
  using util_idalloc_refines_set [OF ia_example_ok, of 40 3] ia_example_ok by (auto simp: ia_example_def)

section \<open>The sparse allocator\<close>

fun sparse_allocs :: "nat \<Rightarrow> util_idalloc_sparse \<Rightarrow> (nat list \<times> util_idalloc_sparse) option" where
  "sparse_allocs 0 ss = Some ([], ss)"
| "sparse_allocs (Suc n) ss =
     (case sparse_allocs n ss of
        None \<Rightarrow> None
      | Some (ids, ss1) \<Rightarrow> map_option (\<lambda>(i, ss2). (ids @ [i], ss2)) (util_idalloc_sparse_alloc ss1))"

definition empty_segment :: util_idalloc where
  "empty_segment = \<lparr>ia_data = [0], num_set_elements = 0, lowest_free_idx = 0\<rparr>"

lemma empty_segment_ok: "ia_ok empty_segment" "id_set empty_segment = {}"
  by (auto simp: ia_ok_def empty_segment_def id_set_def)

lemma sparse_init: "util_idalloc_sparse_init = Some (empty_segment # replicate 1023 empty_segment)"
proof -
  have "util_idalloc_init 1 = Some empty_segment"
    by (simp add: util_idalloc_init_def util_idalloc_resize_def uwrap_def empty_segment_def)
  moreover have "replicate NUM_SEGMENTS empty_segment = empty_segment # replicate 1023 empty_segment"
    unfolding NUM_SEGMENTS_def using replicate_Suc [of 1023 empty_segment] by simp
  ultimately show ?thesis by (simp add: util_idalloc_sparse_init_def)
qed

text \<open>A segment with the first \<open>n\<close> numbers in use hands out number \<open>n\<close>.\<close>

definition filled :: "nat \<Rightarrow> util_idalloc \<Rightarrow> bool" where
  "filled n s \<longleftrightarrow> ia_ok s \<and> id_set s = {..<n} \<and> num_elements s \<le> 2 * (n div 32) + 2 \<and> lowest_free_idx s = (n - 1) div 32"

lemma alloc_filled:
  assumes "filled n s" and "n \<le> 4194304"
  obtains s' where "util_idalloc_alloc s = (n, s')" "filled (Suc n) s'"
proof -
  obtain k s' where k: "util_idalloc_alloc s = (k, s')" by force
  have le: "n div 32 \<le> 131072" using div_le_mono [OF assms(2), of 32] by simp
  have s: "ia_ok s" "id_set s = {..<n}" "num_elements s \<le> 2 * (n div 32) + 2" using assms(1) by (simp_all add: filled_def)
  have "num_elements s \<le> 67108864" using s(3) le by linarith
  note a = util_idalloc_alloc_spec [OF s(1) this k]
  have kn: "k = n"
  proof (rule antisym)
    show "n \<le> k" using a s(2) by simp
    show "k \<le> n" using a s(2) by (cases "n < k") auto
  qed
  have "n div 32 \<le> Suc n div 32" by (intro div_le_mono) simp
  then have "num_elements s' \<le> 2 * (Suc n div 32) + 2" using a s(3) unfolding kn by linarith
  then have "filled (Suc n) s'" using a s(2) unfolding kn filled_def by (auto simp: lessThan_Suc)
  then show ?thesis using that k kn by blast
qed

lemma sparse_alloc_filled:
  assumes "filled n s" and "n < 4194304"
  obtains s' where "util_idalloc_sparse_alloc (s # ss) = Some (n, s' # ss)" "filled (Suc n) s'"
proof -
  have "n \<le> 4194304" using assms(2) by simp
  from alloc_filled [OF assms(1) this] obtain s' where s': "util_idalloc_alloc s = (n, s')" "filled (Suc n) s'" .
  have "(n - 1) div 32 < 131072" using assms(2) by (intro less_mult_imp_div_less) simp
  then have "lowest_free_idx s < MAX_ELEMS_PER_SEGMENT"
    using assms(1) by (simp add: filled_def MAX_ELEMS_PER_SEGMENT_def MAX_IDS_PER_SEGMENT_def NUM_SEGMENTS_def)
  then have "util_idalloc_sparse_alloc (s # ss) = Some (n, s' # ss)"
    using s'(1) assms(2) by (simp add: util_idalloc_sparse_alloc_def uwrap_def)
  then show ?thesis using that s'(2) by blast
qed

lemma sparse_allocs_filled:
  assumes "filled 0 s" and "n \<le> 4194304"
  shows "\<exists>s'. sparse_allocs n (s # ss) = Some ([0..<n], s' # ss) \<and> filled n s'"
  using assms(2)
proof (induction n)
  case (Suc n)
  then obtain s1 where s1: "sparse_allocs n (s # ss) = Some ([0..<n], s1 # ss)" "filled n s1" by auto
  have "n < 4194304" using Suc.prems by simp
  from sparse_alloc_filled [OF s1(2) this, of ss] obtain s' where
    "util_idalloc_sparse_alloc (s1 # ss) = Some (n, s' # ss)" "filled (Suc n) s'" .
  then show ?case using s1(1) by simp
qed (use assms(1) in simp)

text \<open>
  The sparse allocator hands out the same number twice: it skips a segment only
  when its lowest free element lies beyond the segment, but that index is advanced lazily. After 2 ^ 22
  allocations the first segment is full and its index is still at the last element; the next
  allocation grows the segment and returns number 2 ^ 22, which belongs to the second segment, and the one after
  that returns 2 ^ 22 again, from the second segment.
\<close>

theorem util_idalloc_sparse_duplicate:
  "\<exists>ss0 ss1 ss2 ss3. util_idalloc_sparse_init = Some ss0 \<and> sparse_allocs 4194304 ss0 = Some ([0..<4194304], ss1) \<and>
     util_idalloc_sparse_alloc ss1 = Some (4194304, ss2) \<and> util_idalloc_sparse_alloc ss2 = Some (4194304, ss3)"
proof -
  note d = MAX_ELEMS_PER_SEGMENT_def MAX_IDS_PER_SEGMENT_def NUM_SEGMENTS_def
  have f0: "filled 0 empty_segment" using empty_segment_ok by (simp add: filled_def empty_segment_def)
  obtain s where s: "sparse_allocs 4194304 (empty_segment # replicate 1023 empty_segment) = Some ([0..<4194304], s # replicate 1023 empty_segment)" "filled 4194304 s"
    using sparse_allocs_filled [OF f0 order_refl] by blast
  from alloc_filled [OF s(2) order_refl] obtain s' where s': "util_idalloc_alloc s = (4194304, s')" "filled (Suc 4194304) s'" .
  have l: "lowest_free_idx s = 131071" "lowest_free_idx s' = 131072" using s(2) s'(2) by (simp_all add: filled_def)
  have 1: "util_idalloc_sparse_alloc (s # replicate 1023 empty_segment) = Some (4194304, s' # replicate 1023 empty_segment)"
    using s'(1) l(1) by (simp add: util_idalloc_sparse_alloc_def d uwrap_def)
  from alloc_filled [OF f0] obtain t where t: "util_idalloc_alloc empty_segment = (0, t)" by auto
  have r: "replicate 1023 empty_segment = empty_segment # replicate 1022 empty_segment" using replicate_Suc [of 1022 empty_segment] by simp
  have "util_idalloc_sparse_alloc (s' # replicate 1023 empty_segment) = Some (4194304, s' # t # replicate 1022 empty_segment)"
    unfolding r using t l(2) by (simp add: util_idalloc_sparse_alloc_def d uwrap_def empty_segment_def)
  then show ?thesis using sparse_init s(1) 1 by blast
qed

end
