(* ===== verification/Table_Primes.thy ===== *)
theory Table_Primes
  imports Mesa_Prelude
begin

text \<open>
  The sizes of the open-addressing tables are primes, which is what makes a probe sequence
  with any step visit every slot.  This theory proves the primality of the sizes: by trial
  division for the smaller ones, and for the larger ones by an element whose order modulo the
  size is the size less one (Lucas' test).
\<close>

section \<open>Primality by coprimality with everything below\<close>

definition prime_nat :: "nat \<Rightarrow> bool" where
  "prime_nat n = (1 < n \<and> (\<forall>k. 0 < k \<and> k < n \<longrightarrow> coprime k n))"

lemma prime_natI: "1 < n \<Longrightarrow> (\<And>k. 0 < k \<Longrightarrow> k < n \<Longrightarrow> coprime k n) \<Longrightarrow> prime_nat n"
  by (simp add: prime_nat_def)

lemma prime_nat_coprime: "prime_nat n \<Longrightarrow> 0 < k \<Longrightarrow> k < n \<Longrightarrow> coprime k n"
  by (simp add: prime_nat_def)

lemma prime_nat_dichotomy:
  assumes "prime_nat q"
  shows "coprime k q \<or> q dvd k"
proof (cases "k mod q = 0")
  case False
  with assms have "coprime (k mod q) q" by (auto simp: prime_nat_def)
  then show ?thesis by (simp add: coprime_iff_gcd_eq_1 gcd.commute gcd_red_nat [symmetric] flip: gcd_red_nat)
qed auto

section \<open>Trial division\<close>

text \<open>Divisors of the form \<open>6 k \<plusminus> 1\<close>, from \<open>d\<close> on, up to the square root.\<close>

function trial :: "int \<Rightarrow> int \<Rightarrow> bool" where
  "trial n d =
     (if d \<le> 0 \<or> n < d * d then True
      else if n mod d = 0 \<or> n mod (d + 2) = 0 then False else trial n (d + 6))"
  by pat_completeness auto
termination
proof (relation "measure (\<lambda>(n, d). nat (n + 1 - d))")
  fix n d :: int
  assume "\<not> (d \<le> 0 \<or> n < d * d)"
  then have a: "\<not> d \<le> 0" "\<not> n < d * d" by auto
  have "d * 1 \<le> d * d" using a(1) by (intro mult_left_mono) auto
  then have "d \<le> n" using a(2) by linarith
  then show "((n, d + 6), (n, d)) \<in> measure (\<lambda>(n, d). nat (n + 1 - d))" by auto
qed simp

declare trial.simps [simp del]

lemma trial_no_divisor:
  assumes "trial n d" and "0 < d" and "d \<le> e" and "e * e \<le> n" and "(e - d) mod 6 = 0 \<or> (e - d) mod 6 = 2"
  shows "\<not> e dvd n"
  using assms
proof (induction n d rule: trial.induct)
  case (1 n d)
  have "d * d \<le> e * e" using "1.prems"(2,3) by (intro mult_mono) linarith+
  then have dd: "\<not> n < d * d" and d0: "\<not> d \<le> 0" using "1.prems"(2,4) by auto
  have t: "n mod d \<noteq> 0" "n mod (d + 2) \<noteq> 0" "trial n (d + 6)"
    using "1.prems"(1) d0 dd by (simp_all add: trial.simps [of n d] split: if_splits)
  show ?case
  proof (cases "d + 6 \<le> e")
    case True
    have "(e - (d + 6)) mod 6 = (e - d) mod 6" using mod_add_self2 [of "e - (d + 6)" 6] by (simp add: algebra_simps)
    then show ?thesis
      using "1.IH" [OF _ _ t(3) _ True "1.prems"(4)] "1.prems"(2,5) d0 dd t(1,2) by simp
  next
    case False
    then have "0 \<le> e - d" "e - d < 6" using "1.prems"(3) by auto
    then have "(e - d) mod 6 = e - d" by simp
    then have "e = d \<or> e = d + 2" using "1.prems"(5) by linarith
    then show ?thesis using t(1,2) by (auto simp: dvd_eq_mod_eq_0)
  qed
qed

lemma small_divisor:
  assumes "0 < k" and "k < n" and "\<not> coprime k n"
  obtains e :: nat where "1 < e" and "e * e \<le> n" and "e dvd n"
proof -
  let ?g = "gcd k n"
  obtain h where h: "n = ?g * h" by (meson dvdE gcd_dvd2)
  have "?g \<noteq> 0" "?g \<noteq> 1" using assms(1,3) by (auto simp: coprime_iff_gcd_eq_1)
  then have g1: "1 < ?g" by linarith
  have "?g \<le> k" using assms(1) by (intro dvd_imp_le) auto
  then have "?g < n" using assms(2) by simp
  then have "h \<noteq> 0" "h \<noteq> 1" using h by (intro notI, simp)+
  then have "1 < h" by linarith
  show thesis
  proof (cases "?g \<le> h")
    case True
    then have "?g * ?g \<le> n" using h by (metis mult_le_mono2)
    then show thesis using that [of ?g] g1 by auto
  next
    case False
    then have "h * h \<le> ?g * h" by (intro mult_le_mono1) auto
    then have "h * h \<le> n" using h by simp
    then show thesis using that [of h] \<open>1 < h\<close> h by (metis dvd_triv_right)
  qed
qed

lemma trial_prime:
  assumes "1 < n" and "int n mod 2 \<noteq> 0" and "int n mod 3 \<noteq> 0" and "trial (int n) 5"
  shows "prime_nat n"
proof (rule prime_natI [OF assms(1)], rule ccontr)
  fix k assume "0 < k" "k < n" "\<not> coprime k n"
  then obtain e :: nat where e: "1 < e" "e * e \<le> n" "e dvd n" by (rule small_divisor)
  have i: "int e dvd int n" using e(3) by simp
  have "\<not> (2::int) dvd int n" "\<not> (3::int) dvd int n" using assms(2,3) by (simp_all add: dvd_eq_mod_eq_0)
  then have "\<not> 2 dvd int e" "\<not> 3 dvd int e" using i dvd_trans by blast+
  then have m: "int e mod 6 = 1 \<or> int e mod 6 = 5" and "int e \<noteq> 2" "int e \<noteq> 3" "int e \<noteq> 4" by presburger+
  then have "5 \<le> int e" using e(1) by linarith
  moreover have "(int e - 5) mod 6 = 0 \<or> (int e - 5) mod 6 = 2" using m by presburger
  moreover have "int e * int e \<le> int n" using e(2) by (metis of_nat_le_iff of_nat_mult)
  ultimately show False using trial_no_divisor [OF assms(4), of "int e"] i by simp
qed

section \<open>Lucas' test\<close>

function pow_mod :: "int \<Rightarrow> int \<Rightarrow> int \<Rightarrow> int" where
  "pow_mod a e n =
     (if e \<le> 0 then 1
      else if e mod 2 = 0 then pow_mod (a * a mod n) (e div 2) n
      else a * pow_mod (a * a mod n) (e div 2) n mod n)"
  by pat_completeness auto
termination
  by (relation "measure (\<lambda>(a, e, n). nat e)") auto

declare pow_mod.simps [simp del]

lemma pow_mod_eq: "pow_mod (int a) (int e) (int n) mod int n = int (a ^ e mod n)"
proof (induction e arbitrary: a rule: less_induct)
  case (less e)
  show ?case
  proof (cases "e = 0")
    case True
    then have "pow_mod (int a) (int e) (int n) = 1" by (simp add: pow_mod.simps)
    then show ?thesis using True by (simp only: power_0 zmod_int of_nat_1)
  next
    case False
    have sq: "int a * int a mod int n = int (a * a mod n)" by (simp add: of_nat_mod)
    have half: "int e div 2 = int (e div 2)" by simp
    have IH: "pow_mod (int (a * a mod n)) (int (e div 2)) (int n) mod int n = int ((a * a) ^ (e div 2) mod n)"
      using less.IH [of "e div 2" "a * a mod n"] False by (simp add: power_mod)
    have pw: "(a * a) ^ (e div 2) = a ^ (2 * (e div 2))" by (simp add: power_mult power2_eq_square)
    show ?thesis
    proof (cases "even e")
      case True
      then have "int e mod 2 = 0" by presburger
      then have "pow_mod (int a) (int e) (int n) = pow_mod (int (a * a mod n)) (int (e div 2)) (int n)"
        using False by (subst pow_mod.simps) (simp only: sq half if_False if_True of_nat_le_0_iff refl)
      then show ?thesis using IH True by (simp add: pw)
    next
      case odd: False
      then have o: "int e mod 2 \<noteq> 0" by presburger
      have "pow_mod (int a) (int e) (int n) =
          int a * pow_mod (int (a * a mod n)) (int (e div 2)) (int n) mod int n"
        using False o by (subst pow_mod.simps) (simp only: sq half if_False if_True of_nat_le_0_iff)
      then have "pow_mod (int a) (int e) (int n) mod int n = int a * int ((a * a) ^ (e div 2) mod n) mod int n"
        using IH by (metis mod_mod_trivial mod_mult_right_eq)
      also have "\<dots> = int (a * (a * a) ^ (e div 2) mod n)" by (simp add: of_nat_mod mod_mult_right_eq)
      also have "a * (a * a) ^ (e div 2) = a ^ e" unfolding pw using odd by (metis odd_two_times_div_two_succ power_Suc Suc_eq_plus1)
      finally show ?thesis .
    qed
  qed
qed

lemma prime_factor_dvd:
  assumes "\<And>q. q \<in> set qs \<Longrightarrow> prime_nat q" and "m dvd prod_list qs" and "1 < m"
  shows "\<exists>q \<in> set qs. q dvd m"
  using assms
proof (induction qs)
  case (Cons q qs)
  show ?case
  proof (cases "q dvd m")
    case False
    then have "coprime m q" using prime_nat_dichotomy [of q m] Cons.prems(1) by auto
    then have "m dvd prod_list qs" using Cons.prems(2) by (simp add: coprime_dvd_mult_right_iff)
    then show ?thesis using Cons by auto
  qed auto
qed simp

lemma power_mod_cycle:
  fixes a n d :: nat
  assumes "a ^ d mod n = 1"
  shows "a ^ (d * k + r) mod n = a ^ r mod n"
proof -
  have "(a ^ d) ^ k mod n = 1 ^ k mod n" using power_mod [of "a ^ d" n k] assms by simp
  moreover have "a ^ (d * k + r) = (a ^ d) ^ k * a ^ r" by (simp add: power_add power_mult)
  ultimately show ?thesis by (metis mod_mult_left_eq mult_1 power_one)
qed

text \<open>The order of \<open>a\<close> is \<open>n - 1\<close> when no proper divisor of \<open>n - 1\<close> gives 1.\<close>

lemma lucas_order:
  assumes n: "1 < n" and one: "a ^ (n - 1) mod n = 1"
    and qs: "\<And>q. q \<in> set qs \<Longrightarrow> prime_nat q" "prod_list qs = n - 1"
    and no: "\<And>q. q \<in> set qs \<Longrightarrow> a ^ ((n - 1) div q) mod n \<noteq> 1"
    and d: "0 < d" "d < n - 1"
  shows "a ^ d mod n \<noteq> 1"
proof
  assume "a ^ d mod n = 1"
  define m where "m = (LEAST m. 0 < m \<and> a ^ m mod n = 1)"
  have m: "0 < m" "a ^ m mod n = 1" "m \<le> d"
    using LeastI [of "\<lambda>m. 0 < m \<and> a ^ m mod n = 1" d] Least_le [of "\<lambda>m. 0 < m \<and> a ^ m mod n = 1" d] d(1) \<open>a ^ d mod n = 1\<close>
    by (auto simp: m_def)
  have "a ^ ((n - 1) mod m) mod n = 1"
    using power_mod_cycle [OF m(2), of "(n - 1) div m" "(n - 1) mod m"] one by (simp add: mult.commute)
  then have "(n - 1) mod m = 0"
    using not_less_Least [of "(n - 1) mod m" "\<lambda>m. 0 < m \<and> a ^ m mod n = 1"] m(1) unfolding m_def [symmetric] by auto
  then obtain c where c: "n - 1 = m * c" by (auto simp: mod_eq_0_iff_dvd)
  have "c \<noteq> 0" "c \<noteq> 1" using c d m(3) by (intro notI, simp)+
  then have "1 < c" by linarith
  then obtain q where q: "q \<in> set qs" "q dvd c" using prime_factor_dvd [of qs c] qs c by auto
  then obtain e where e: "c = q * e" by auto
  have "0 < q" using qs(1) [OF q(1)] by (simp add: prime_nat_def)
  then have "(n - 1) div q = m * e + 0" unfolding c e by simp
  then have "a ^ ((n - 1) div q) mod n = 1" using power_mod_cycle [OF m(2), of e 0] n by simp
  then show False using no [OF q(1)] by simp
qed

lemma lucas_prime:
  assumes n: "1 < n" and one: "a ^ (n - 1) mod n = 1"
    and qs: "\<And>q. q \<in> set qs \<Longrightarrow> prime_nat q" "prod_list qs = n - 1"
    and no: "\<And>q. q \<in> set qs \<Longrightarrow> a ^ ((n - 1) div q) mod n \<noteq> 1"
  shows "prime_nat n"
proof (rule prime_natI [OF n])
  let ?f = "\<lambda>i. a ^ i mod n"
  have "coprime (a ^ (n - 1)) n" using one n by (metis coprime_iff_gcd_eq_1 gcd.commute gcd_1_nat gcd_red_nat)
  then have cop: "coprime (a ^ i) n" for i using n by (cases "i = 0") auto
  have cop': "coprime (?f i) n" for i
    using cop [of i] by (metis coprime_iff_gcd_eq_1 gcd.commute gcd_red_nat)
  have "inj_on ?f {..< n - 1}"
  proof (rule linorder_inj_onI)
    fix i j assume ij: "i < j" "i \<in> {..< n - 1}" "j \<in> {..< n - 1}"
    show "?f i \<noteq> ?f j"
    proof
      assume "?f i = ?f j"
      then have "int (a ^ j) mod int n = int (a ^ i) mod int n" by (simp only: zmod_int [symmetric])
      then have "int n dvd int (a ^ j) - int (a ^ i)" by (simp only: mod_eq_dvd_iff)
      also have "int (a ^ j) - int (a ^ i) = int (a ^ i) * (int (a ^ (j - i)) - 1)"
        using ij(1) by (simp add: right_diff_distrib flip: power_add)
      finally have "int n dvd int (a ^ (j - i)) - 1"
        using cop [of i] by (simp only: coprime_dvd_mult_right_iff coprime_commute coprime_int_iff)
      then have "int (a ^ (j - i)) mod int n = 1 mod int n" by (simp only: mod_eq_dvd_iff)
      then have "a ^ (j - i) mod n = 1 mod n" by (metis of_nat_1 of_nat_eq_iff zmod_int)
      moreover have "0 < j - i" "j - i < n - 1" using ij by auto
      ultimately show False using lucas_order [OF n one qs no, of "j - i"] n by simp
    qed
  qed auto
  then have "card (?f ` {..< n - 1}) = n - 1" by (simp add: card_image)
  moreover have sub: "?f ` {..< n - 1} \<subseteq> {0 <..< n}"
  proof
    fix x assume "x \<in> ?f ` {..< n - 1}"
    then obtain i where "x = ?f i" by auto
    then have "coprime x n" "x < n" using cop' [of i] n by auto
    then show "x \<in> {0 <..< n}" using n by (cases "x = 0") auto
  qed
  ultimately have "?f ` {..< n - 1} = {0 <..< n}" by (intro card_subset_eq) auto
  then show "coprime k n" if "0 < k" "k < n" for k
    using that cop' by (metis (no_types, lifting) greaterThanLessThan_iff imageE)
qed

section \<open>Checks that evaluate\<close>

definition trial_ok :: "int \<Rightarrow> bool" where
  "trial_ok n = (1 < n \<and> n mod 2 \<noteq> 0 \<and> n mod 3 \<noteq> 0 \<and> trial n 5)"

definition lucas_ok :: "int \<Rightarrow> int \<Rightarrow> int list \<Rightarrow> bool" where
  "lucas_ok n a qs =
     (1 < n \<and> 0 \<le> a \<and> prod_list qs = n - 1 \<and> pow_mod a (n - 1) n mod n = 1 \<and>
      list_all (\<lambda>q. 0 < q \<and> pow_mod a ((n - 1) div q) n mod n \<noteq> 1) (remdups_adj qs))"

lemma trial_okD: "trial_ok n \<Longrightarrow> prime_nat (nat n)"
  by (rule trial_prime) (auto simp: trial_ok_def)

lemma prod_list_nat: "(\<And>q. q \<in> set qs \<Longrightarrow> 0 < q) \<Longrightarrow> prod_list (map nat qs) = nat (prod_list qs)"
proof (induction qs)
  case (Cons q qs)
  then have "0 \<le> q" by (simp add: order_less_imp_le)
  then show ?case using Cons by (simp add: nat_mult_distrib)
qed simp

lemma lucas_okD:
  assumes "lucas_ok n a qs" and "list_all (\<lambda>q. prime_nat (nat q)) qs"
  shows "prime_nat (nat n)"
proof (rule lucas_prime [where a = "nat a" and qs = "map nat qs"])
  have n: "1 < n" "0 \<le> a" "prod_list qs = n - 1" and one: "pow_mod a (n - 1) n mod n = 1"
    and q: "\<And>q. q \<in> set qs \<Longrightarrow> 0 < q \<and> pow_mod a ((n - 1) div q) n mod n \<noteq> 1"
    using assms(1) by (auto simp: lucas_ok_def list_all_iff)
  have pm: "int (nat a ^ nat e mod nat n) = pow_mod a e n mod n" if "0 \<le> e" for e
    using pow_mod_eq [of "nat a" "nat e" "nat n"] n(1,2) that by simp
  show "1 < nat n" using n by simp
  show "nat a ^ (nat n - 1) mod nat n = 1"
    using pm [of "n - 1"] one n(1) by (simp add: nat_diff_distrib)
  show "prod_list (map nat qs) = nat n - 1" using prod_list_nat [of qs] q n by (simp add: nat_diff_distrib)
  fix r assume "r \<in> set (map nat qs)"
  then obtain q' where r: "r = nat q'" "q' \<in> set qs" by auto
  then have q': "0 < q'" "pow_mod a ((n - 1) div q') n mod n \<noteq> 1" using q by auto
  show "prime_nat r" using assms(2) r by (simp add: list_all_iff)
  have "(nat n - 1) div r = nat ((n - 1) div q')"
    using r(1) q'(1) n(1) by (simp add: nat_div_distrib nat_diff_distrib)
  moreover have "0 \<le> (n - 1) div q'" using n(1) q'(1) by (simp add: pos_imp_zdiv_nonneg_iff)
  ultimately show "nat a ^ ((nat n - 1) div r) mod nat n \<noteq> 1" using pm [of "(n - 1) div q'"] q'(2) by auto
qed

section \<open>The sizes\<close>

text \<open>Primes that divide a size less one.\<close>

lemma prime_nat_2_3: "prime_nat 2" "prime_nat 3"
proof -
  have "k = 1" if "0 < k" "k < 2" for k :: nat using that by linarith
  then show "prime_nat 2" by (intro prime_natI) (simp, metis coprime_1_left)
  have "k = 1 \<or> k = 2" if "0 < k" "k < 3" for k :: nat using that by linarith
  moreover have "coprime 2 (3 :: nat)" using coprime_Suc_right_nat [of 2] by simp
  ultimately show "prime_nat 3" by (intro prime_natI) (simp, metis coprime_1_left)
qed

lemma prime_nat_factors:
  "prime_nat 5"
  "prime_nat 7"
  "prime_nat 11"
  "prime_nat 13"
  "prime_nat 23"
  "prime_nat 59"
  "prime_nat 73"
  "prime_nat 131"
  "prime_nat 151"
  "prime_nat 229"
  "prime_nat 463"
  "prime_nat 557"
  "prime_nat 587"
  "prime_nat 647"
  "prime_nat 1381"
  "prime_nat 2377"
  "prime_nat 2689"
  "prime_nat 6311"
  "prime_nat 26573"
  "prime_nat 1230331"
  "prime_nat 1230367"
  "prime_nat 2460659"
proof -
  have "trial_ok 5" by code_simp
  from trial_okD [OF this] show "prime_nat 5" by simp
  have "trial_ok 7" by code_simp
  from trial_okD [OF this] show "prime_nat 7" by simp
  have "trial_ok 11" by code_simp
  from trial_okD [OF this] show "prime_nat 11" by simp
  have "trial_ok 13" by code_simp
  from trial_okD [OF this] show "prime_nat 13" by simp
  have "trial_ok 23" by code_simp
  from trial_okD [OF this] show "prime_nat 23" by simp
  have "trial_ok 59" by code_simp
  from trial_okD [OF this] show "prime_nat 59" by simp
  have "trial_ok 73" by code_simp
  from trial_okD [OF this] show "prime_nat 73" by simp
  have "trial_ok 131" by code_simp
  from trial_okD [OF this] show "prime_nat 131" by simp
  have "trial_ok 151" by code_simp
  from trial_okD [OF this] show "prime_nat 151" by simp
  have "trial_ok 229" by code_simp
  from trial_okD [OF this] show "prime_nat 229" by simp
  have "trial_ok 463" by code_simp
  from trial_okD [OF this] show "prime_nat 463" by simp
  have "trial_ok 557" by code_simp
  from trial_okD [OF this] show "prime_nat 557" by simp
  have "trial_ok 587" by code_simp
  from trial_okD [OF this] show "prime_nat 587" by simp
  have "trial_ok 647" by code_simp
  from trial_okD [OF this] show "prime_nat 647" by simp
  have "trial_ok 1381" by code_simp
  from trial_okD [OF this] show "prime_nat 1381" by simp
  have "trial_ok 2377" by code_simp
  from trial_okD [OF this] show "prime_nat 2377" by simp
  have "trial_ok 2689" by code_simp
  from trial_okD [OF this] show "prime_nat 2689" by simp
  have "trial_ok 6311" by code_simp
  from trial_okD [OF this] show "prime_nat 6311" by simp
  have "trial_ok 26573" by code_simp
  from trial_okD [OF this] show "prime_nat 26573" by simp
  have "trial_ok 1230331" by code_simp
  from trial_okD [OF this] show "prime_nat 1230331" by simp
  have "trial_ok 1230367" by code_simp
  from trial_okD [OF this] show "prime_nat 1230367" by simp
  have "trial_ok 2460659" by code_simp
  from trial_okD [OF this] show "prime_nat 2460659" by simp
qed

lemma prime_nat_19: "prime_nat 19"
proof -
  have "trial_ok 19" by code_simp
  from trial_okD [OF this] show ?thesis by simp
qed

lemma prime_nat_43: "prime_nat 43"
proof -
  have "trial_ok 43" by code_simp
  from trial_okD [OF this] show ?thesis by simp
qed

lemma prime_nat_73: "prime_nat 73"
proof -
  have "trial_ok 73" by code_simp
  from trial_okD [OF this] show ?thesis by simp
qed

lemma prime_nat_151: "prime_nat 151"
proof -
  have "trial_ok 151" by code_simp
  from trial_okD [OF this] show ?thesis by simp
qed

lemma prime_nat_283: "prime_nat 283"
proof -
  have "trial_ok 283" by code_simp
  from trial_okD [OF this] show ?thesis by simp
qed

lemma prime_nat_571: "prime_nat 571"
proof -
  have "trial_ok 571" by code_simp
  from trial_okD [OF this] show ?thesis by simp
qed

lemma prime_nat_1153: "prime_nat 1153"
proof -
  have "trial_ok 1153" by code_simp
  from trial_okD [OF this] show ?thesis by simp
qed

lemma prime_nat_2269: "prime_nat 2269"
proof -
  have "trial_ok 2269" by code_simp
  from trial_okD [OF this] show ?thesis by simp
qed

lemma prime_nat_4519: "prime_nat 4519"
proof -
  have "trial_ok 4519" by code_simp
  from trial_okD [OF this] show ?thesis by simp
qed

lemma prime_nat_9013: "prime_nat 9013"
proof -
  have "trial_ok 9013" by code_simp
  from trial_okD [OF this] show ?thesis by simp
qed

lemma prime_nat_18043: "prime_nat 18043"
proof -
  have "trial_ok 18043" by code_simp
  from trial_okD [OF this] show ?thesis by simp
qed

lemma prime_nat_36109: "prime_nat 36109"
proof -
  have "trial_ok 36109" by code_simp
  from trial_okD [OF this] show ?thesis by simp
qed

lemma prime_nat_72091: "prime_nat 72091"
proof -
  have "trial_ok 72091" by code_simp
  from trial_okD [OF this] show ?thesis by simp
qed

lemma prime_nat_144409: "prime_nat 144409"
proof -
  have "trial_ok 144409" by code_simp
  from trial_okD [OF this] show ?thesis by simp
qed

lemma prime_nat_288361: "prime_nat 288361"
proof -
  have "trial_ok 288361" by code_simp
  from trial_okD [OF this] show ?thesis by simp
qed

lemma prime_nat_576883: "prime_nat 576883"
proof -
  have "trial_ok 576883" by code_simp
  from trial_okD [OF this] show ?thesis by simp
qed

lemma prime_nat_1153459: "prime_nat 1153459"
proof -
  have "trial_ok 1153459" by code_simp
  from trial_okD [OF this] show ?thesis by simp
qed

lemma prime_nat_2307163: "prime_nat 2307163"
proof -
  have "lucas_ok 2307163 2 [2, 3, 11, 13, 2689]" by code_simp
  from lucas_okD [OF this] show ?thesis by (simp add: prime_nat_2_3 prime_nat_factors)
qed

lemma prime_nat_4613893: "prime_nat 4613893"
proof -
  have "lucas_ok 4613893 5 [2, 2, 3, 23, 73, 229]" by code_simp
  from lucas_okD [OF this] show ?thesis by (simp add: prime_nat_2_3 prime_nat_factors)
qed

lemma prime_nat_9227641: "prime_nat 9227641"
proof -
  have "lucas_ok 9227641 7 [2, 2, 2, 3, 5, 131, 587]" by code_simp
  from lucas_okD [OF this] show ?thesis by (simp add: prime_nat_2_3 prime_nat_factors)
qed

lemma prime_nat_18455029: "prime_nat 18455029"
proof -
  have "lucas_ok 18455029 2 [2, 2, 3, 647, 2377]" by code_simp
  from lucas_okD [OF this] show ?thesis by (simp add: prime_nat_2_3 prime_nat_factors)
qed

lemma prime_nat_36911011: "prime_nat 36911011"
proof -
  have "lucas_ok 36911011 3 [2, 3, 5, 1230367]" by code_simp
  from lucas_okD [OF this] show ?thesis by (simp add: prime_nat_2_3 prime_nat_factors)
qed

lemma prime_nat_73819861: "prime_nat 73819861"
proof -
  have "lucas_ok 73819861 7 [2, 2, 3, 5, 1230331]" by code_simp
  from lucas_okD [OF this] show ?thesis by (simp add: prime_nat_2_3 prime_nat_factors)
qed

lemma prime_nat_147639589: "prime_nat 147639589"
proof -
  have "lucas_ok 147639589 2 [2, 2, 3, 463, 26573]" by code_simp
  from lucas_okD [OF this] show ?thesis by (simp add: prime_nat_2_3 prime_nat_factors)
qed

lemma prime_nat_295279081: "prime_nat 295279081"
proof -
  have "lucas_ok 295279081 7 [2, 2, 2, 3, 5, 2460659]" by code_simp
  from lucas_okD [OF this] show ?thesis by (simp add: prime_nat_2_3 prime_nat_factors)
qed

lemma prime_nat_590559793: "prime_nat 590559793"
proof -
  have "lucas_ok 590559793 5 [2, 2, 2, 2, 3, 59, 151, 1381]" by code_simp
  from lucas_okD [OF this] show ?thesis by (simp add: prime_nat_2_3 prime_nat_factors)
qed

lemma prime_nat_1181116273: "prime_nat 1181116273"
proof -
  have "lucas_ok 1181116273 5 [2, 2, 2, 2, 3, 7, 557, 6311]" by code_simp
  from lucas_okD [OF this] show ?thesis by (simp add: prime_nat_2_3 prime_nat_factors)
qed

lemmas table_primes =
  prime_nat_19 prime_nat_43 prime_nat_73 prime_nat_151 prime_nat_283
  prime_nat_571 prime_nat_1153 prime_nat_2269 prime_nat_4519 prime_nat_9013
  prime_nat_18043 prime_nat_36109 prime_nat_72091 prime_nat_144409 prime_nat_288361
  prime_nat_576883 prime_nat_1153459 prime_nat_2307163 prime_nat_4613893 prime_nat_9227641
  prime_nat_18455029 prime_nat_36911011 prime_nat_73819861 prime_nat_147639589 prime_nat_295279081
  prime_nat_590559793 prime_nat_1181116273

end
