(* ===== verification/Fast_Urem.thy ===== *)
theory Fast_Urem
  imports Mesa_Prelude
begin

text \<open>
  Division and remainder by a constant without a division instruction:
  \<open>src/src/util/fast_urem_by_const.h\<close>, which the hash tables use to reduce a hash to a slot.
\<close>

section \<open>Remainder by a precomputed reciprocal\<close>

definition REMAINDER_MAGIC :: "u32 \<Rightarrow> u64" where
  "REMAINDER_MAGIC divisor = NOT 0 div ucast divisor + 1"

text \<open>The two variants of \<open>_mul32by64_hi\<close>: with and without a 128-bit type.\<close>

definition mul32by64_hi :: "u32 \<Rightarrow> u64 \<Rightarrow> u32" where
  "mul32by64_hi a b = ucast (drop_bit 64 ((ucast b :: 128 word) * ucast a))"

definition mul32by64_hi_portable :: "u32 \<Rightarrow> u64 \<Rightarrow> u32" where
  "mul32by64_hi_portable a b =
     (let b0 = (ucast b :: u32);
          b1 = (ucast (drop_bit 32 b) :: u32)
      in ucast (drop_bit 32 (drop_bit 32 ((ucast a :: u64) * ucast b0) + (ucast a :: u64) * ucast b1)))"

definition util_fast_urem32 :: "u32 \<Rightarrow> u32 \<Rightarrow> u64 \<Rightarrow> u32" where
  "util_fast_urem32 n d magic = mul32by64_hi d (magic * ucast n)"

section \<open>Correctness\<close>

lemma unat_mult_small:
  "unat a * unat b < 2 ^ LENGTH('a) \<Longrightarrow> unat (a * b :: 'a :: len word) = unat a * unat b"
  by (simp add: unat_mult_lem)

lemma mult_lt_pow: "a < 2 ^ m \<Longrightarrow> b < 2 ^ n \<Longrightarrow> a * b < (2 :: nat) ^ (m + n)"
  by (metis mult_strict_mono power_add zero_le zero_less_numeral zero_less_power)

lemma unat_drop_bit: "unat (drop_bit n (a :: 'a :: len word)) = unat a div 2 ^ n"
  unfolding unat_drop_bit_eq by (simp only: drop_bit_eq_div)

lemma unat_ucast_mod:
  "unat (ucast (a :: 'a :: len word) :: 'b :: len word) = unat a mod 2 ^ LENGTH('b)"
  by (simp add: unsigned_ucast_eq take_bit_eq_mod)

lemma unat_ucast_up:
  "LENGTH('a) \<le> LENGTH('b) \<Longrightarrow> unat (ucast (a :: 'a :: len word) :: 'b :: len word) = unat a"
proof -
  assume "LENGTH('a) \<le> LENGTH('b)"
  then have "unat a < 2 ^ LENGTH('b)" using unsigned_less [of a] by (meson less_le_trans one_le_numeral power_increasing)
  then show ?thesis by (simp add: unat_ucast_mod)
qed

lemma mul32by64_hi_unat: "unat (mul32by64_hi a b) = unat a * unat b div 2 ^ 64"
proof -
  have lt: "unat b * unat a < 2 ^ 96" using mult_lt_pow [of "unat b" 64 "unat a" 32] unat_lt_64 [of b] unat_lt_32 [of a] by simp
  then have "unat ((ucast b :: 128 word) * ucast a) = unat b * unat a"
    by (subst unat_mult_small) (simp_all add: unat_ucast_up)
  moreover have "unat b * unat a div 2 ^ 64 < 2 ^ 32" using lt by (simp add: less_mult_imp_div_less)
  ultimately show ?thesis
    unfolding mul32by64_hi_def by (simp add: unat_ucast_mod unat_drop_bit mult.commute)
qed

lemma mul32by64_hi_portable_eq: "mul32by64_hi_portable a b = mul32by64_hi a b"
proof -
  define b0 b1 where "b0 = unat b mod 2 ^ 32" and "b1 = unat b div 2 ^ 32"
  have b: "unat b = b1 * 2 ^ 32 + b0" and b0: "b0 < 2 ^ 32" unfolding b0_def b1_def by simp_all
  have b1: "b1 < 2 ^ 32" unfolding b1_def using unat_lt_64 [of b] by (simp add: less_mult_imp_div_less)
  have a: "unat a \<le> 2 ^ 32 - 1" using unat_lt_32 [of a] by simp
  have ab: "unat a * c < 2 ^ 64" if "c < 2 ^ 32" for c
    using mult_lt_pow [of "unat a" 32 c 32] unat_lt_32 [of a] that by simp
  have p0: "unat ((ucast a :: u64) * ucast (ucast b :: u32)) = unat a * b0"
    using ab [OF b0] by (subst unat_mult_small) (simp_all add: unat_ucast_up unat_ucast_mod [where 'b = 32] b0_def)
  have p1: "unat ((ucast a :: u64) * ucast (ucast (drop_bit 32 b) :: u32)) = unat a * b1"
    using ab [OF b1] b1 by (subst unat_mult_small) (simp_all add: unat_ucast_up unat_ucast_mod [where 'b = 32] unat_drop_bit b1_def)
  have q0: "unat a * b0 div 2 ^ 32 < 2 ^ 32" using ab [OF b0] by (simp add: less_mult_imp_div_less)
  have "unat a * b1 \<le> (2 ^ 32 - 1) * (2 ^ 32 - 1)" using a b1 by (intro mult_le_mono) auto
  then have sum: "unat a * b0 div 2 ^ 32 + unat a * b1 < 2 ^ 64" using q0 by simp
  have eq: "unat a * unat b = unat a * b0 + unat a * b1 * 2 ^ 32" unfolding b by (simp add: algebra_simps)
  have "unat a * unat b div 2 ^ 64 = unat a * unat b div 2 ^ 32 div 2 ^ 32" by (simp add: div_mult2_eq [symmetric])
  also have "\<dots> = (unat a * b0 div 2 ^ 32 + unat a * b1) div 2 ^ 32" unfolding eq by simp
  finally have "unat (mul32by64_hi a b) = (unat a * b0 div 2 ^ 32 + unat a * b1) div 2 ^ 32"
    unfolding mul32by64_hi_unat .
  moreover have "unat (mul32by64_hi_portable a b) = (unat a * b0 div 2 ^ 32 + unat a * b1) div 2 ^ 32"
    unfolding mul32by64_hi_portable_def Let_def using sum
    by (simp add: unat_ucast_mod unat_drop_bit unat_add_u64 p0 p1 less_mult_imp_div_less)
  ultimately show ?thesis by (simp only: word_unat_eq_iff)
qed

text \<open>The reciprocal exceeds \<open>2 ^ 64 / d\<close> by less than \<open>d\<close> parts of \<open>1 / d\<close>.\<close>

lemma REMAINDER_MAGIC_unat:
  assumes "1 < unat d"
  shows "unat (REMAINDER_MAGIC d) = (2 ^ 64 - 1) div unat d + 1"
proof -
  have m: "unat (NOT 0 :: u64) = 2 ^ 64 - 1" by (simp add: unsigned_minus_1_eq_mask mask_eq_exp_minus_1)
  have "(2 ^ 64 - 1) div unat d \<le> (2 ^ 64 - 1) div 2" using assms by (intro div_le_mono2) auto
  then have "(2 ^ 64 - 1) div unat d + 1 < (2 :: nat) ^ 64" by simp
  then show ?thesis unfolding REMAINDER_MAGIC_def using m by (subst unat_add_u64) (simp_all add: unat_div unat_ucast_up)
qed

lemma magic_excess:
  assumes "1 < d"
  obtains e :: nat where "((2 ^ 64 - 1) div d + 1) * d = 2 ^ 64 + e" and "e < d"
proof -
  define q r where "q = (2 ^ 64 - 1) div d" and "r = (2 ^ 64 - 1 :: nat) mod d"
  have "q * d + r = 2 ^ 64 - 1" unfolding q_def r_def by (rule div_mult_mod_eq)
  moreover have "r < d" using assms unfolding r_def by simp
  ultimately have "(q + 1) * d = 2 ^ 64 + (d - 1 - r)" "d - 1 - r < d" unfolding distrib_right by simp_all
  then show thesis unfolding q_def by (rule that)
qed

lemma urem_arith:
  fixes M d n e r q :: nat
  assumes M: "M * d = 2 ^ 64 + e" and e: "e < d" and d: "d < 2 ^ 32" and n: "n < 2 ^ 32"
  shows "d * (M * n mod 2 ^ 64) div 2 ^ 64 = n mod d"
proof -
  define q r where "q = n div d" and "r = n mod d"
  have nq: "n = q * d + r" and r: "r < d" using e unfolding q_def r_def by simp_all
  have ne: "n * e < 2 ^ 64" using mult_lt_pow [of n 32 e 32] n e d by simp
  let ?l = "q * e + M * r"
  have "M * n = q * (M * d) + M * r" unfolding nq by (simp add: algebra_simps)
  then have Mn: "M * n = q * 2 ^ 64 + ?l" unfolding M by (simp add: algebra_simps)
  have "d * ?l = q * d * e + (M * d) * r" by (simp add: algebra_simps)
  then have dl: "d * ?l = r * 2 ^ 64 + n * e" unfolding M nq by (simp add: algebra_simps)
  then have "d * ?l < r * 2 ^ 64 + 2 ^ 64" using ne by linarith
  also have "\<dots> = (r + 1) * 2 ^ 64" by simp
  also have "\<dots> \<le> d * 2 ^ 64" using r by (intro mult_le_mono1) simp
  finally have "?l < 2 ^ 64" by simp
  then have "M * n mod 2 ^ 64 = ?l" unfolding Mn by simp
  then show ?thesis unfolding dl r_def [symmetric] using ne dl by simp
qed

lemma util_fast_urem32_eq: "util_fast_urem32 n d (REMAINDER_MAGIC d) = n mod d" if "d \<noteq> 0"
proof (cases "d = 1")
  case True
  have "REMAINDER_MAGIC 1 = 0" by (simp add: REMAINDER_MAGIC_def)
  then show ?thesis using True by (simp add: util_fast_urem32_def mul32by64_hi_def)
next
  case False
  then have d: "1 < unat d" using that by (metis less_one linorder_neqE_nat unat_eq_zero unat_1 word_unat_eq_iff)
  obtain e where e: "((2 ^ 64 - 1) div unat d + 1) * unat d = 2 ^ 64 + e" "e < unat d"
    using magic_excess [OF d] .
  have "unat (REMAINDER_MAGIC d * ucast n) = unat (REMAINDER_MAGIC d) * unat n mod 2 ^ 64"
    by (simp add: unat_word_ariths unat_ucast_up)
  then have "unat (util_fast_urem32 n d (REMAINDER_MAGIC d)) = unat n mod unat d"
    unfolding util_fast_urem32_def mul32by64_hi_unat REMAINDER_MAGIC_unat [OF d]
    using urem_arith [OF e] unat_lt_32 [of n] unat_lt_32 [of d] by simp
  then show ?thesis by (simp add: word_unat_eq_iff unat_mod)
qed

text \<open>
  \<open>util_fast_urem32(n, d, REMAINDER_MAGIC(d))\<close> is \<open>n % d\<close> for every divisor but
  zero, and the two variants of the wide multiplication agree on all arguments.
\<close>
theorem util_fast_urem32_correct:
  "(d \<noteq> 0 \<longrightarrow> util_fast_urem32 n d (REMAINDER_MAGIC d) = n mod d) \<and>
   mul32by64_hi_portable a b = mul32by64_hi a b"
  by (simp add: util_fast_urem32_eq mul32by64_hi_portable_eq)

theorem util_fast_urem32_correct_witness:
  "util_fast_urem32 4294967295 19 (REMAINDER_MAGIC 19) = 4294967295 mod 19 \<and> (4294967295 :: u32) mod 19 = 5"
  using util_fast_urem32_correct [of 19 4294967295 0 0] by simp

end
