(* ===== verification/Open_Addressing.thy ===== *)
theory Open_Addressing
  imports Table_Primes Fast_Urem
begin

text \<open>
  What the open-addressing tables of \<open>src/src/util/hash_table.c\<close> and \<open>src/src/util/set.c\<close>
  share: the probing loop with double hashing, the order in which it visits the slots, and
  the reasoning about tables whose slots are free, deleted or full.
\<close>

section \<open>The probing loop\<close>

definition next_address :: "u32 \<Rightarrow> u32 \<Rightarrow> u32 \<Rightarrow> u32" where
  "next_address sz double_hash hash_address =
     (let hash_address = hash_address + double_hash
      in if sz \<le> hash_address then hash_address - sz else hash_address)"

text \<open>
  The body of a loop either leaves the loop with a result (\<open>Inl\<close>) or goes on with a new
  state (\<open>Inr\<close>); \<open>stop\<close> is the condition that ends the loop.
\<close>

partial_function (option) probe_loop ::
  "(u32 \<Rightarrow> bool) \<Rightarrow> u32 \<Rightarrow> u32 \<Rightarrow> (nat \<Rightarrow> 's \<Rightarrow> 'r + 's) \<Rightarrow> u32 \<Rightarrow> 's \<Rightarrow> ('r + 's) option" where
  "probe_loop stop sz dh body a s =
     (case body (unat a) s of
        Inl r \<Rightarrow> Some (Inl r)
      | Inr s' \<Rightarrow>
          (let a' = next_address sz dh a
           in if stop a' then Some (Inr s') else probe_loop stop sz dh body a' s'))"

declare probe_loop.simps [code]

fun probe_list :: "(nat \<Rightarrow> 's \<Rightarrow> 'r + 's) \<Rightarrow> nat list \<Rightarrow> 's \<Rightarrow> 'r + 's" where
  "probe_list body [] s = Inr s"
| "probe_list body (i # is) s =
     (case body i s of Inl r \<Rightarrow> Inl r | Inr s' \<Rightarrow> probe_list body is s')"

definition pos :: "nat \<Rightarrow> nat \<Rightarrow> nat \<Rightarrow> nat \<Rightarrow> nat" where
  "pos N s d j = (s + j * d) mod N"

section \<open>The order of visits\<close>

lemma pos_lt: "0 < N \<Longrightarrow> pos N s d j < N"
  by (simp add: pos_def)

lemma pos_Suc: "pos N s d (Suc j) = (pos N s d j + d) mod N"
  by (simp add: pos_def mod_add_left_eq add.assoc add.commute [of d])

lemma pos_wrap: "pos N s d N = pos N s d 0"
  by (simp add: pos_def)

lemma pos_inj:
  assumes "prime_nat N" and "0 < d" "d < N" and "i < N" "j < N" and "pos N s d i = pos N s d j"
  shows "i = j"
proof -
  have False if "i < j" "j < N" "pos N s d i = pos N s d j" for i j
  proof -
    have "(s + j * d) mod N = (s + i * d) mod N" using that(3) by (simp add: pos_def)
    moreover have "s + i * d \<le> s + j * d" using that(1) by (simp add: mult_le_mono1)
    ultimately have "N dvd (s + j * d) - (s + i * d)" by (simp only: mod_eq_dvd_iff_nat)
    then have "N dvd (j - i) * d" by (simp add: diff_mult_distrib)
    moreover have "coprime N d" using prime_nat_coprime [OF assms(1-3)] by (simp add: coprime_commute)
    ultimately have "N dvd j - i" by (simp add: coprime_dvd_mult_left_iff)
    then show False using that(1,2) by (auto dest!: dvd_imp_le)
  qed
  from this [of i j] this [of j i] show ?thesis using assms(4-6) by (metis linorder_neqE_nat)
qed

lemma pos_surj:
  assumes "prime_nat N" and "0 < d" "d < N" and "i < N"
  obtains j where "j < N" and "pos N s d j = i"
proof -
  have "inj_on (pos N s d) {..< N}" using pos_inj [OF assms(1-3)] by (auto intro!: inj_onI)
  then have "card (pos N s d ` {..< N}) = card {..< N}" by (rule card_image)
  moreover have "pos N s d ` {..< N} \<subseteq> {..< N}" using assms(4) by (auto intro: pos_lt)
  ultimately have "pos N s d ` {..< N} = {..< N}" by (intro card_subset_eq) auto
  then show thesis using assms(4) that by (metis imageE lessThan_iff)
qed

lemma next_address_unat:
  assumes "unat a < unat sz" and "unat dh < unat sz" and "unat sz \<le> 2 ^ 31"
  shows "unat (next_address sz dh a) = (unat a + unat dh) mod unat sz"
proof -
  have s: "unat (a + dh) = unat a + unat dh" using assms by (subst unat_add_lem [THEN iffD1]) simp_all
  show ?thesis
    unfolding next_address_def Let_def mod_add_if [OF assms(1,2)]
    by (auto simp: word_le_nat_alt s unat_sub)
qed

text \<open>The loop of a search visits every slot once and ends.\<close>

lemma probe_loop_from:
  assumes N: "prime_nat (unat sz)" "unat sz \<le> 2 ^ 31" and d: "0 < unat dh" "unat dh < unat sz"
    and start: "unat start < unat sz"
    and i: "i < unat sz" "unat a = pos (unat sz) (unat start) (unat dh) i"
  shows "probe_loop (\<lambda>a. a = start) sz dh body a s =
           Some (probe_list body (map (pos (unat sz) (unat start) (unat dh)) [i ..< unat sz]) s)"
  using i
proof (induction "unat sz - i" arbitrary: i a s)
  case (Suc k)
  let ?p = "pos (unat sz) (unat start) (unat dh)"
  have up: "[i ..< unat sz] = i # [Suc i ..< unat sz]" using Suc.prems(1) by (simp add: upt_conv_Cons)
  have nx: "unat (next_address sz dh a) = ?p (Suc i)"
    unfolding pos_Suc using next_address_unat [of a sz dh] Suc.prems pos_lt [of "unat sz"] d(2) N(2) by simp
  show ?case
  proof (cases "body (unat a) s")
    case (Inl r)
    then show ?thesis using Suc.prems by (subst probe_loop.simps) (simp add: up)
  next
    case (Inr s')
    show ?thesis
    proof (cases "Suc i = unat sz")
      case True
      then have "unat (next_address sz dh a) = unat start" using nx pos_wrap start by (simp add: pos_def)
      then show ?thesis using Inr True Suc.prems
        by (subst probe_loop.simps) (simp add: up word_unat_eq_iff)
    next
      case False
      then have lt: "Suc i < unat sz" using Suc.prems by simp
      have "?p (Suc i) \<noteq> ?p 0" using pos_inj [OF N(1) d lt, of 0] start by auto
      then have "next_address sz dh a \<noteq> start" using nx start by (auto simp: pos_def)
      then show ?thesis using Inr Suc.hyps(1) [of "Suc i" "next_address sz dh a"] Suc.hyps(2) lt nx Suc.prems
        by (subst probe_loop.simps) (simp add: up)
    qed
  qed
qed simp

lemma probe_loop_all:
  assumes "prime_nat (unat sz)" "unat sz \<le> 2 ^ 31" and "0 < unat dh" "unat dh < unat sz"
    and "unat start < unat sz"
  shows "probe_loop (\<lambda>a. a = start) sz dh body start s =
           Some (probe_list body (map (pos (unat sz) (unat start) (unat dh)) [0 ..< unat sz]) s)"
  using probe_loop_from [OF assms, of 0 start] assms(5) by (simp add: pos_def)

text \<open>The loop without a stop condition ends as soon as the body does.\<close>

lemma probe_loop_forever:
  assumes "unat sz \<le> 2 ^ 31" and "unat dh < unat sz" and "i < unat sz"
    and "unat a = pos (unat sz) s0 (unat dh) i"
    and "probe_list body (map (pos (unat sz) s0 (unat dh)) [i ..< unat sz]) s = Inl r"
  shows "probe_loop (\<lambda>a. False) sz dh body a s = Some (Inl r)"
  using assms(3-5)
proof (induction "unat sz - i" arbitrary: i a s)
  case (Suc k)
  have up: "[i ..< unat sz] = i # [Suc i ..< unat sz]" using Suc.prems(1) by (simp add: upt_conv_Cons)
  have nx: "unat (next_address sz dh a) = pos (unat sz) s0 (unat dh) (Suc i)"
    unfolding pos_Suc using next_address_unat [of a sz dh] Suc.prems pos_lt [of "unat sz"] assms(1,2) by simp
  show ?case
  proof (cases "body (unat a) s")
    case (Inl r')
    then show ?thesis using Suc.prems by (subst probe_loop.simps) (simp add: up)
  next
    case (Inr s')
    then have "Suc i < unat sz" using Suc.prems by (cases "Suc i = unat sz") (auto simp: up)
    then show ?thesis
      using Suc.hyps(1) [of "Suc i" "next_address sz dh a" s'] Suc.hyps(2) Inr nx Suc.prems
      by (subst probe_loop.simps) (simp add: up)
  qed
qed simp

lemma probe_list_rule:
  assumes "I 0 s"
    and step: "\<And>i s. i < n \<Longrightarrow> I i s \<Longrightarrow> (case body (p i) s of Inl r \<Rightarrow> Q (Inl r) | Inr s' \<Rightarrow> I (Suc i) s')"
    and last: "\<And>s. I n s \<Longrightarrow> Q (Inr s)"
  shows "Q (probe_list body (map p [0 ..< n]) s)"
proof -
  have "Q (probe_list body (map p [i ..< n]) s)" if "i \<le> n" "I i s" for i s
    using that
  proof (induction "n - i" arbitrary: i s)
    case 0
    then show ?case using last by simp
  next
    case (Suc k)
    then have i: "i < n" by simp
    then have up: "[i ..< n] = i # [Suc i ..< n]" by (simp add: upt_conv_Cons)
    show ?case
      using step [OF i Suc.prems(2)] Suc.hyps(1) [of "Suc i"] Suc.hyps(2) i by (simp add: up split: sum.splits)
  qed
  from this [of 0 s] assms(1) show ?thesis by simp
qed

section \<open>Tables of slots\<close>

text \<open>
  A slot is free, holds a deletion mark, or is full with a hash and a key.  Both tables
  reduce a hash to a first slot and to a step with the two sizes of their geometry.
\<close>

datatype 'k slot = Free | Tomb | Full u32 'k

fun is_full :: "'k slot \<Rightarrow> bool" where
  "is_full (Full h k) = True"
| "is_full s = False"

definition visit :: "nat \<Rightarrow> nat \<Rightarrow> u32 \<Rightarrow> nat \<Rightarrow> nat" where
  "visit N R h = pos N (unat h mod N) (1 + unat h mod R)"

definition geometry :: "nat \<Rightarrow> nat \<Rightarrow> bool" where
  "geometry N R = (prime_nat N \<and> 0 < R \<and> R + 1 < N \<and> N \<le> 2 ^ 31)"

fun matches :: "('k \<Rightarrow> 'k \<Rightarrow> bool) \<Rightarrow> u32 \<Rightarrow> 'k \<Rightarrow> 'k slot \<Rightarrow> bool" where
  "matches eq h k (Full h' k') = (h' = h \<and> eq k k')"
| "matches eq h k s = False"

text \<open>Every key is found by the probe sequence of its hash before a free slot.\<close>

definition placed :: "nat \<Rightarrow> nat \<Rightarrow> 'k slot list \<Rightarrow> bool" where
  "placed N R sl =
     (length sl = N \<and>
      (\<forall>i h k. i < N \<longrightarrow> sl ! i = Full h k \<longrightarrow>
        (\<exists>j < N. visit N R h j = i \<and> (\<forall>j' < j. sl ! visit N R h j' \<noteq> Free))))"

definition uniq :: "('k \<Rightarrow> 'k \<Rightarrow> bool) \<Rightarrow> 'k slot list \<Rightarrow> bool" where
  "uniq eq sl =
     (\<forall>i i' h k k'. i < length sl \<longrightarrow> i' < length sl \<longrightarrow> sl ! i = Full h k \<longrightarrow> sl ! i' = Full h k' \<longrightarrow>
        eq k k' \<longrightarrow> i = i')"

lemma visit_step:
  assumes "geometry N R"
  shows "0 < 1 + unat h mod R" and "1 + unat h mod R < N"
proof -
  have "unat h mod R < R" using assms by (simp add: geometry_def)
  then show "1 + unat h mod R < N" using assms by (simp add: geometry_def)
qed simp

lemma geometry_pos: "geometry N R \<Longrightarrow> 0 < N"
  by (simp add: geometry_def)

lemma visit_lt: "geometry N R \<Longrightarrow> visit N R h j < N"
  unfolding visit_def by (rule pos_lt) (rule geometry_pos)

lemma visit_surj:
  assumes "geometry N R" and "i < N"
  obtains j where "j < N" and "visit N R h j = i"
  using pos_surj [OF _ visit_step [OF assms(1)] assms(2)] assms(1) unfolding visit_def geometry_def by metis

subsection \<open>Searching\<close>

fun search_body :: "('k \<Rightarrow> 'k \<Rightarrow> bool) \<Rightarrow> u32 \<Rightarrow> 'k \<Rightarrow> 'k slot list \<Rightarrow> nat \<Rightarrow> unit \<Rightarrow> nat option + unit" where
  "search_body eq h k sl i u =
     (if sl ! i = Free then Inl None else if matches eq h k (sl ! i) then Inl (Some i) else Inr ())"

lemma matches_full: "matches eq h k s \<longleftrightarrow> (\<exists>k'. s = Full h k' \<and> eq k k')"
  by (cases s) auto

text \<open>No key beyond the visited prefix matches when the prefix ends in a free slot.\<close>

lemma no_match_prefix:
  assumes "placed N R sl" and "j \<le> N" and "j < N \<longrightarrow> sl ! visit N R h j = Free"
    and "\<And>j'. j' < j \<Longrightarrow> \<not> matches eq h k (sl ! visit N R h j')" and "i < N"
  shows "\<not> matches eq h k (sl ! i)"
proof
  assume m: "matches eq h k (sl ! i)"
  then obtain k' where "sl ! i = Full h k'" by (auto simp: matches_full)
  then obtain j' where j': "j' < N" "visit N R h j' = i" "\<forall>j'' < j'. sl ! visit N R h j'' \<noteq> Free"
    using assms(1,5) unfolding placed_def by blast
  have "sl ! visit N R h j' \<noteq> Free" using j'(2) m by auto
  then have "j' < j" using j'(1,3) assms(2,3) by (metis le_neq_implies_less linorder_neqE_nat nat_less_le)
  then show False using assms(4) m j'(2) by auto
qed

lemma search_result:
  assumes "placed N R sl" and "geometry N R"
  shows "case probe_list (search_body eq h k sl) (map (visit N R h) [0 ..< N]) () of
           Inl (Some i) \<Rightarrow> i < N \<and> matches eq h k (sl ! i)
         | _ \<Rightarrow> (\<forall>i < N. \<not> matches eq h k (sl ! i))"
proof (rule probe_list_rule [where I = "\<lambda>j u. \<forall>j' < j. \<not> matches eq h k (sl ! visit N R h j')"])
  fix j u assume j: "j < N" "\<forall>j' < j. \<not> matches eq h k (sl ! visit N R h j')"
  show "case search_body eq h k sl (visit N R h j) u of
        Inl r \<Rightarrow> (case Inl r of Inl (Some i) \<Rightarrow> i < N \<and> matches eq h k (sl ! i)
                  | _ \<Rightarrow> (\<forall>i < N. \<not> matches eq h k (sl ! i)))
      | Inr s' \<Rightarrow> (\<forall>j' < Suc j. \<not> matches eq h k (sl ! visit N R h j'))"
    using j no_match_prefix [OF assms(1), of j h eq k] visit_lt [OF assms(2), of h j]
    by (auto simp: less_Suc_eq)
next
  fix u assume "\<forall>j' < N. \<not> matches eq h k (sl ! visit N R h j')"
  then show "case Inr u of Inl (Some i) \<Rightarrow> i < N \<and> matches eq h k (sl ! i)
         | _ \<Rightarrow> (\<forall>i < N. \<not> matches eq h k (sl ! i))"
    using no_match_prefix [OF assms(1), of N h eq k] by auto
qed simp

subsection \<open>Looking for a slot to fill\<close>

text \<open>
  The loop of an insertion stops at a matching key (\<open>Inl (Inl i)\<close>) or at a free slot
  (\<open>Inl (Inr available)\<close>), and remembers the first slot that is not full.
\<close>

fun get_body ::
  "('k \<Rightarrow> 'k \<Rightarrow> bool) \<Rightarrow> u32 \<Rightarrow> 'k \<Rightarrow> 'k slot list \<Rightarrow> nat \<Rightarrow> nat option \<Rightarrow> (nat + nat option) + nat option" where
  "get_body eq h k sl i available =
     (let available' = (if \<not> is_full (sl ! i) \<and> available = None then Some i else available)
      in if sl ! i = Free then Inl (Inr available')
         else if matches eq h k (sl ! i) then Inl (Inl i) else Inr available')"

definition insertable :: "nat \<Rightarrow> nat \<Rightarrow> ('k \<Rightarrow> 'k \<Rightarrow> bool) \<Rightarrow> u32 \<Rightarrow> 'k \<Rightarrow> 'k slot list \<Rightarrow> nat option \<Rightarrow> bool" where
  "insertable N R eq h k sl available =
     ((\<forall>i < N. \<not> matches eq h k (sl ! i)) \<and>
      (case available of
         None \<Rightarrow> \<forall>i < N. is_full (sl ! i)
       | Some a \<Rightarrow> \<not> is_full (sl ! a) \<and>
           (\<exists>j < N. a = visit N R h j \<and> (\<forall>j' < j. sl ! visit N R h j' \<noteq> Free))))"

definition scanned :: "nat \<Rightarrow> nat \<Rightarrow> ('k \<Rightarrow> 'k \<Rightarrow> bool) \<Rightarrow> u32 \<Rightarrow> 'k \<Rightarrow> 'k slot list \<Rightarrow> nat \<Rightarrow> nat option \<Rightarrow> bool" where
  "scanned N R eq h k sl j available =
     ((\<forall>j' < j. \<not> matches eq h k (sl ! visit N R h j') \<and> sl ! visit N R h j' \<noteq> Free) \<and>
      (case available of
         None \<Rightarrow> \<forall>j' < j. is_full (sl ! visit N R h j')
       | Some a \<Rightarrow> \<not> is_full (sl ! a) \<and> (\<exists>j' < j. a = visit N R h j')))"

lemma scanned_all:
  assumes "placed N R sl" and "geometry N R" and "scanned N R eq h k sl N available"
  shows "insertable N R eq h k sl available"
proof -
  have s: "\<And>j. j < N \<Longrightarrow> \<not> matches eq h k (sl ! visit N R h j) \<and> sl ! visit N R h j \<noteq> Free"
    using assms(3) by (simp add: scanned_def)
  have "\<forall>i < N. \<not> matches eq h k (sl ! i)" using no_match_prefix [OF assms(1), of N h eq k] s by simp
  moreover have "\<forall>i < N. is_full (sl ! i)" if "available = None"
  proof (intro allI impI)
    fix i assume "i < N"
    then obtain j where "j < N" "visit N R h j = i" using visit_surj [OF assms(2)] by metis
    then show "is_full (sl ! i)" using assms(3) that by (auto simp: scanned_def)
  qed
  ultimately show ?thesis
    using assms(3) s by (fastforce simp: insertable_def scanned_def split: option.splits)
qed

lemma scanned_free:
  assumes "placed N R sl" and "j < N" and "scanned N R eq h k sl j available" and "sl ! visit N R h j = Free"
  shows "insertable N R eq h k sl (if available = None then Some (visit N R h j) else available)"
proof -
  have s: "\<And>j'. j' < j \<Longrightarrow> \<not> matches eq h k (sl ! visit N R h j') \<and> sl ! visit N R h j' \<noteq> Free"
    using assms(3) by (simp add: scanned_def)
  have n: "\<forall>i < N. \<not> matches eq h k (sl ! i)"
    using no_match_prefix [OF assms(1), of j h eq k] assms(2,4) s by simp
  show ?thesis
  proof (cases available)
    case None
    then show ?thesis using n s assms(2,4) by (auto simp: insertable_def)
  next
    case (Some a)
    then obtain j' where j': "j' < j" "a = visit N R h j'" "\<not> is_full (sl ! a)"
      using assms(3) by (auto simp: scanned_def)
    moreover have "\<forall>j'' < j'. sl ! visit N R h j'' \<noteq> Free" using s j'(1) by (meson less_trans)
    ultimately show ?thesis using n Some assms(2) by (auto simp: insertable_def intro: exI [of _ j'])
  qed
qed

lemma scanned_step:
  assumes "scanned N R eq h k sl j available" and "sl ! visit N R h j \<noteq> Free"
    and "\<not> matches eq h k (sl ! visit N R h j)"
  shows "scanned N R eq h k sl (Suc j)
           (if \<not> is_full (sl ! visit N R h j) \<and> available = None then Some (visit N R h j) else available)"
  using assms by (auto simp: scanned_def less_Suc_eq split: option.splits)

lemma get_result:
  assumes "placed N R sl" and "geometry N R"
  shows "case probe_list (get_body eq h k sl) (map (visit N R h) [0 ..< N]) None of
           Inl (Inl i) \<Rightarrow> i < N \<and> matches eq h k (sl ! i)
         | Inl (Inr available) \<Rightarrow> insertable N R eq h k sl available
         | Inr available \<Rightarrow> insertable N R eq h k sl available" (is "?Q (probe_list _ _ _)")
proof (rule probe_list_rule [where I = "scanned N R eq h k sl" and Q = ?Q])
  show "scanned N R eq h k sl 0 None" by (simp add: scanned_def)
next
  fix j available assume j: "j < N" "scanned N R eq h k sl j available"
  let ?s = "sl ! visit N R h j"
  consider "?s = Free" | "?s \<noteq> Free" "matches eq h k ?s" | "?s \<noteq> Free" "\<not> matches eq h k ?s" by blast
  then show "case get_body eq h k sl (visit N R h j) available of
      Inl r \<Rightarrow> ?Q (Inl r) | Inr available' \<Rightarrow> scanned N R eq h k sl (Suc j) available'"
  proof cases
    case 1
    then show ?thesis using scanned_free [OF assms(1) j] by (auto simp: Let_def)
  next
    case 2
    then show ?thesis using visit_lt [OF assms(2)] by (simp add: Let_def)
  next
    case 3
    then show ?thesis using scanned_step [OF j(2)] by (auto simp: Let_def)
  qed
next
  fix available assume "scanned N R eq h k sl N available"
  then show "?Q (Inr available)" using scanned_all [OF assms] by simp
qed

fun fill_body :: "'k slot list \<Rightarrow> nat \<Rightarrow> unit \<Rightarrow> nat + unit" where
  "fill_body sl i u = (if is_full (sl ! i) then Inr () else Inl i)"

lemma fill_result:
  assumes "geometry N R" and "i < N" and "\<not> is_full (sl ! i)"
  obtains j where "j < N" and "probe_list (fill_body sl) (map (visit N R h) [0 ..< N]) () = Inl (visit N R h j)"
    and "\<not> is_full (sl ! visit N R h j)" and "\<forall>j' < j. is_full (sl ! visit N R h j')"
proof -
  have "case probe_list (fill_body sl) (map (visit N R h) [0 ..< N]) () of
      Inl a \<Rightarrow> (\<exists>j < N. a = visit N R h j \<and> \<not> is_full (sl ! a) \<and> (\<forall>j' < j. is_full (sl ! visit N R h j')))
    | Inr u \<Rightarrow> False" (is "?Q (probe_list _ _ _)")
  proof (rule probe_list_rule [where I = "\<lambda>j u. \<forall>j' < j. is_full (sl ! visit N R h j')" and Q = ?Q])
    fix u assume a: "\<forall>j' < N. is_full (sl ! visit N R h j')"
    obtain j where "j < N" "visit N R h j = i" using visit_surj [OF assms(1,2)] by metis
    then show "?Q (Inr u)" using a assms(3) by auto
  qed (auto simp: less_Suc_eq)
  then show thesis using that by (auto split: sum.splits)
qed

subsection \<open>Updates keep the placement\<close>

lemma placed_nonfree_mono:
  assumes "placed N R sl" and "length sl' = N"
    and "\<And>i. i < N \<Longrightarrow> sl ! i \<noteq> Free \<Longrightarrow> sl' ! i \<noteq> Free" and "geometry N R"
    and "\<And>i h k. i < N \<Longrightarrow> sl' ! i = Full h k \<Longrightarrow>
           (\<exists>k'. sl ! i = Full h k') \<or> (\<exists>j < N. visit N R h j = i \<and> (\<forall>j' < j. sl ! visit N R h j' \<noteq> Free))"
  shows "placed N R sl'"
  unfolding placed_def
proof (intro conjI allI impI)
  fix i h k assume i: "i < N" "sl' ! i = Full h k"
  obtain j where j: "j < N" "visit N R h j = i" "\<forall>j' < j. sl ! visit N R h j' \<noteq> Free"
    using assms(5) [OF i] assms(1) i(1) unfolding placed_def by blast
  then show "\<exists>j < N. visit N R h j = i \<and> (\<forall>j' < j. sl' ! visit N R h j' \<noteq> Free)"
    using assms(3) visit_lt [OF assms(4)] by blast
qed (fact assms(2))

lemma placed_length: "placed N R sl \<Longrightarrow> length sl = N"
  by (simp add: placed_def)

lemma placed_full:
  assumes "placed N R sl" and "geometry N R" and "j < N" and "\<forall>j' < j. sl ! visit N R h j' \<noteq> Free"
  shows "placed N R (sl[visit N R h j := Full h k])"
  using assms visit_lt [OF assms(2)] placed_length [OF assms(1)]
  by (intro placed_nonfree_mono [OF assms(1)]) (auto simp: nth_list_update split: if_splits)

lemma placed_same:
  assumes "placed N R sl" and "geometry N R" and "i < N" and "sl ! i = Full h k'"
  shows "placed N R (sl[i := Full h k])"
  using assms placed_length [OF assms(1)]
  by (intro placed_nonfree_mono [OF assms(1)]) (auto simp: nth_list_update split: if_splits)

lemma placed_tomb:
  assumes "placed N R sl" and "geometry N R" and "i < N"
  shows "placed N R (sl[i := Tomb])"
  using assms placed_length [OF assms(1)]
  by (intro placed_nonfree_mono [OF assms(1)]) (auto simp: nth_list_update split: if_splits)

lemma placed_empty: "placed N R (replicate N Free)"
  by (simp add: placed_def)

lemma uniq_empty: "uniq eq (replicate n Free)"
  by (simp add: uniq_def)

lemma uniq_full:
  assumes "uniq eq sl" and "symp eq" and "\<And>i. i < length sl \<Longrightarrow> i \<noteq> a \<Longrightarrow> \<not> matches eq h k (sl ! i)"
  shows "uniq eq (sl[a := Full h k])"
  unfolding uniq_def
proof (intro allI impI)
  fix i i' h' k1 k2
  assume i: "i < length (sl[a := Full h k])" "i' < length (sl[a := Full h k])"
    and f: "sl[a := Full h k] ! i = Full h' k1" "sl[a := Full h k] ! i' = Full h' k2" and e: "eq k1 k2"
  have e': "eq k2 k1" using e assms(2) by (rule sympD [rotated])
  show "i = i'"
    using i f e e' assms(1,3) unfolding uniq_def
    by (cases "i = a"; cases "i' = a") (auto simp: matches_full)
qed

lemma tomb_full: "j < length sl \<Longrightarrow> sl[i := Tomb] ! j = Full h k \<Longrightarrow> sl ! j = Full h k"
  by (cases "i = j") auto

lemma uniq_tomb: "uniq eq sl \<Longrightarrow> uniq eq (sl[i := Tomb])"
  unfolding uniq_def length_list_update by (metis tomb_full)

subsection \<open>Counting and finding\<close>

lemma filter_update_length:
  "i < length xs \<Longrightarrow>
   length (filter P (xs[i := x])) + (if P (xs ! i) then 1 else 0) =
   length (filter P xs) + (if P x then 1 else 0)"
proof (induction xs arbitrary: i)
  case (Cons y xs)
  then show ?case by (cases i) auto
qed simp

lemma filter_all_length: "(\<And>i. i < length xs \<Longrightarrow> P (xs ! i)) \<Longrightarrow> length (filter P xs) = length xs"
  by (metis filter_True in_set_conv_nth)

lemma find_unique:
  assumes "i < length xs" and "P (xs ! i)" and "\<And>j. j < length xs \<Longrightarrow> P (xs ! j) \<Longrightarrow> j = i"
  shows "find P xs = Some (xs ! i)"
proof (cases "find P xs")
  case None
  then show ?thesis using assms(1,2) by (auto simp: find_None_iff)
next
  case (Some y)
  then show ?thesis using assms(3) by (auto simp: find_Some_iff)
qed

lemma find_none: "(\<And>j. j < length xs \<Longrightarrow> \<not> P (xs ! j)) \<Longrightarrow> find P xs = None"
  by (auto simp: find_None_iff in_set_conv_nth)

lemma find_update_other:
  assumes "i < length xs" and "\<not> P (xs ! i)" and "\<not> P x"
  shows "find P (xs[i := x]) = find P xs"
  using assms
proof (induction xs arbitrary: i)
  case (Cons y xs)
  then show ?case by (cases i) auto
qed simp

end
