(* ===== verification/Hash_Table.thy ===== *)
theory Hash_Table
  imports Open_Addressing
begin

text \<open>
  The hash table of \<open>src/src/util/hash_table.c\<close>: open addressing with double hashing, deletion
  marks and growth.  Pointers are 64-bit words and an entry pointer is an index into the table;
  \<open>None\<close> as the result of an operation is a failed assertion or a loop that does not end.
  Allocation is a parameter: \<open>alloc n\<close> says whether an array of \<open>n\<close> entries is obtained.
\<close>

section \<open>Data\<close>

type_synonym ptr = u64

record hash_entry =
  e_hash :: u32
  e_present :: bool
  e_deleted :: bool
  e_key :: ptr
  e_data :: ptr

text \<open>
  \<open>ht_inline\<close> says that \<open>table\<close> points to \<open>_initial_storage\<close>; the empty list stands for
  \<open>table == NULL\<close>.
\<close>

record hash_table =
  ht_table :: "hash_entry list"
  ht_inline :: bool
  key_hash_function :: "(ptr \<Rightarrow> u32) option"
  key_equals_function :: "ptr \<Rightarrow> ptr \<Rightarrow> bool"
  ht_size :: u32
  ht_rehash :: u32
  size_magic :: u64
  rehash_magic :: u64
  max_entries :: u32
  size_index :: nat
  entries :: u32
  deleted_entries :: u32

definition hash_sizes :: "(u32 \<times> u32 \<times> u32) list" where
  "hash_sizes =
    [(16, 19, 17), (32, 43, 41), (64, 73, 71), (128, 151, 149), (256, 283, 281),
     (512, 571, 569), (1024, 1153, 1151), (2048, 2269, 2267), (4096, 4519, 4517),
     (8192, 9013, 9011), (16384, 18043, 18041), (32768, 36109, 36107), (65536, 72091, 72089),
     (131072, 144409, 144407), (262144, 288361, 288359), (524288, 576883, 576881),
     (1048576, 1153459, 1153457), (2097152, 2307163, 2307161), (4194304, 4613893, 4613891),
     (8388608, 9227641, 9227639), (16777216, 18455029, 18455027), (33554432, 36911011, 36911009),
     (67108864, 73819861, 73819859), (134217728, 147639589, 147639587),
     (268435456, 295279081, 295279079), (536870912, 590559793, 590559791),
     (1073741824, 1181116273, 1181116271), (2147483648, 2362232233, 2362232231)]"

text \<open>The entry the C library's \<open>memset\<close> to zero leaves.\<close>

definition zero_entry :: hash_entry where
  "zero_entry = \<lparr>e_hash = 0, e_present = False, e_deleted = False, e_key = 0, e_data = 0\<rparr>"

definition set_sizes :: "nat \<Rightarrow> hash_table \<Rightarrow> hash_table" where
  "set_sizes i ht =
     (case hash_sizes ! i of (mx, sz, re) \<Rightarrow>
        ht\<lparr>size_index := i, ht_size := sz, ht_rehash := re, size_magic := REMAINDER_MAGIC sz,
           rehash_magic := REMAINDER_MAGIC re, max_entries := mx\<rparr>)"

section \<open>Creation, copies and clearing\<close>

definition mesa_hash_table_init :: "(ptr \<Rightarrow> u32) option \<Rightarrow> (ptr \<Rightarrow> ptr \<Rightarrow> bool) \<Rightarrow> hash_table" where
  "mesa_hash_table_init hash_fn equals_fn =
     set_sizes 0
       \<lparr>ht_table = replicate 19 zero_entry, ht_inline = True, key_hash_function = hash_fn,
        key_equals_function = equals_fn, ht_size = 0, ht_rehash = 0, size_magic = 0,
        rehash_magic = 0, max_entries = 0, size_index = 0, entries = 0, deleted_entries = 0\<rparr>"

definition mesa_hash_table_create ::
  "bool \<Rightarrow> (ptr \<Rightarrow> u32) option \<Rightarrow> (ptr \<Rightarrow> ptr \<Rightarrow> bool) \<Rightarrow> hash_table option" where
  "mesa_hash_table_create alloc_ht hash_fn equals_fn =
     (if alloc_ht then Some (mesa_hash_table_init hash_fn equals_fn) else None)"

text \<open>
  \<open>hash_table_foreach\<close>: the present entries in the order of the table.  \<open>fini\<close> and \<open>clear\<close> return
  the entries that the delete function, when there is one, is called on.
\<close>

definition foreach :: "hash_table \<Rightarrow> hash_entry list" where
  "foreach ht = filter e_present (ht_table ht)"

definition mesa_hash_table_fini :: "bool \<Rightarrow> hash_table \<Rightarrow> hash_entry list \<times> hash_table" where
  "mesa_hash_table_fini delete_fn ht = ((if delete_fn then foreach ht else []), ht\<lparr>ht_table := []\<rparr>)"

definition hash_table_clear_fast :: "hash_table \<Rightarrow> hash_table" where
  "hash_table_clear_fast ht =
     ht\<lparr>ht_table := replicate (unat (fst (snd (hash_sizes ! size_index ht)))) zero_entry @
                     drop (unat (fst (snd (hash_sizes ! size_index ht)))) (ht_table ht),
        entries := 0, deleted_entries := 0\<rparr>"

definition mesa_hash_table_clear :: "bool \<Rightarrow> hash_table \<Rightarrow> hash_entry list \<times> hash_table" where
  "mesa_hash_table_clear delete_fn ht =
     (if delete_fn
      then (foreach ht,
            ht\<lparr>ht_table := map (\<lambda>e. e\<lparr>e_present := False, e_deleted := False\<rparr>) (ht_table ht),
               entries := 0, deleted_entries := 0\<rparr>)
      else ([], hash_table_clear_fast ht))"

text \<open>A copy of a table shares nothing with its source; it fails only when its storage is missing.\<close>

definition mesa_hash_table_copy :: "(nat \<Rightarrow> bool) \<Rightarrow> hash_table \<Rightarrow> bool \<times> hash_table" where
  "mesa_hash_table_copy alloc src =
     (if ht_inline src then (True, src)
      else if alloc (unat (ht_size src)) then (True, src)
      else (False, src\<lparr>ht_table := []\<rparr>))"

definition mesa_hash_table_clone :: "bool \<Rightarrow> (nat \<Rightarrow> bool) \<Rightarrow> hash_table \<Rightarrow> hash_table option" where
  "mesa_hash_table_clone alloc_ht alloc src =
     (if \<not> alloc_ht then None
      else case mesa_hash_table_copy alloc src of (ok, ht) \<Rightarrow> if ok then Some ht else None)"

section \<open>Searching and inserting\<close>

definition start_address :: "hash_table \<Rightarrow> u32 \<Rightarrow> u32" where
  "start_address ht hash = util_fast_urem32 hash (ht_size ht) (size_magic ht)"

definition double_hash :: "hash_table \<Rightarrow> u32 \<Rightarrow> u32" where
  "double_hash ht hash = 1 + util_fast_urem32 hash (ht_rehash ht) (rehash_magic ht)"

definition hash_table_search :: "hash_table \<Rightarrow> u32 \<Rightarrow> ptr \<Rightarrow> nat option option" where
  "hash_table_search ht hash key = do {
     r \<leftarrow> probe_loop (\<lambda>a. a = start_address ht hash) (ht_size ht) (double_hash ht hash)
       (\<lambda>i u. let entry = ht_table ht ! i
              in if \<not> e_present entry \<and> \<not> e_deleted entry then Inl None
                 else if e_present entry \<and> e_hash entry = hash \<and> key_equals_function ht key (e_key entry)
                 then Inl (Some i)
                 else Inr ())
       (start_address ht hash) ();
     Some (case r of Inl entry \<Rightarrow> entry | Inr u \<Rightarrow> None)
   }"

definition mesa_hash_table_search :: "hash_table \<Rightarrow> ptr \<Rightarrow> nat option option" where
  "mesa_hash_table_search ht key = do {
     f \<leftarrow> key_hash_function ht;
     hash_table_search ht (f key) key
   }"

definition check_hash :: "hash_table \<Rightarrow> u32 \<Rightarrow> ptr \<Rightarrow> bool" where
  "check_hash ht hash key = (case key_hash_function ht of None \<Rightarrow> True | Some f \<Rightarrow> hash = f key)"

definition mesa_hash_table_search_pre_hashed :: "hash_table \<Rightarrow> u32 \<Rightarrow> ptr \<Rightarrow> nat option option" where
  "mesa_hash_table_search_pre_hashed ht hash key = do {
     c_assert (check_hash ht hash key);
     hash_table_search ht hash key
   }"

definition hash_table_insert_rehash :: "hash_entry \<Rightarrow> hash_table \<Rightarrow> hash_table option" where
  "hash_table_insert_rehash e ht = do {
     r \<leftarrow> probe_loop (\<lambda>a. False) (ht_size ht) (double_hash ht (e_hash e))
       (\<lambda>i u. if \<not> e_present (ht_table ht ! i) then Inl i else Inr ())
       (start_address ht (e_hash e)) ();
     (case r of
        Inl i \<Rightarrow> Some (ht\<lparr>ht_table := (ht_table ht)[i := (ht_table ht ! i)
                   \<lparr>e_hash := e_hash e, e_key := e_key e, e_data := e_data e, e_present := True\<rparr>]\<rparr>)
      | Inr u \<Rightarrow> None)
   }"

fun insert_rehash_all :: "hash_entry list \<Rightarrow> hash_table \<Rightarrow> hash_table option" where
  "insert_rehash_all [] ht = Some ht"
| "insert_rehash_all (e # es) ht = do { ht' \<leftarrow> hash_table_insert_rehash e ht; insert_rehash_all es ht' }"

definition mesa_hash_table_rehash :: "(nat \<Rightarrow> bool) \<Rightarrow> nat \<Rightarrow> hash_table \<Rightarrow> hash_table option" where
  "mesa_hash_table_rehash alloc new_size_index ht =
     (if size_index ht = new_size_index \<and> deleted_entries ht = max_entries ht
      then do {
        let ht' = hash_table_clear_fast ht;
        c_assert (entries ht' = 0);
        Some ht'
      }
      else if length hash_sizes \<le> new_size_index then Some ht
      else if \<not> alloc (unat (fst (snd (hash_sizes ! new_size_index)))) then Some ht
      else do {
        let ht0 = set_sizes new_size_index ht;
        ht1 \<leftarrow> insert_rehash_all (foreach ht)
          (ht0\<lparr>ht_table := replicate (unat (ht_size ht0)) zero_entry, ht_inline := False,
               entries := 0, deleted_entries := 0\<rparr>);
        Some (ht1\<lparr>entries := entries ht\<rparr>)
      })"

definition make_room :: "(nat \<Rightarrow> bool) \<Rightarrow> hash_table \<Rightarrow> hash_table option" where
  "make_room alloc ht =
     (if max_entries ht \<le> entries ht then mesa_hash_table_rehash alloc (size_index ht + 1) ht
      else if max_entries ht \<le> deleted_entries ht + entries ht then mesa_hash_table_rehash alloc (size_index ht) ht
      else Some ht)"

definition get_entry_body :: "hash_table \<Rightarrow> u32 \<Rightarrow> ptr \<Rightarrow> nat \<Rightarrow> nat option \<Rightarrow> (nat + nat option) + nat option" where
  "get_entry_body ht hash key i available =
     (let entry = ht_table ht ! i;
          available' = (if \<not> e_present entry \<and> available = None then Some i else available)
      in if \<not> e_present entry \<and> \<not> e_deleted entry then Inl (Inr available')
         else if e_present entry \<and> e_hash entry = hash \<and> key_equals_function ht key (e_key entry)
         then Inl (Inl i)
         else Inr available')"

definition take_available :: "u32 \<Rightarrow> nat option \<Rightarrow> hash_table \<Rightarrow> nat option \<times> hash_table" where
  "take_available hash available ht =
     (case available of
        None \<Rightarrow> (None, ht)
      | Some i \<Rightarrow>
          (Some i,
           ht\<lparr>deleted_entries := (if e_deleted (ht_table ht ! i) then deleted_entries ht - 1 else deleted_entries ht),
              ht_table := (ht_table ht)[i := (ht_table ht ! i)\<lparr>e_hash := hash\<rparr>],
              entries := entries ht + 1\<rparr>))"

definition hash_table_get_entry ::
  "(nat \<Rightarrow> bool) \<Rightarrow> u32 \<Rightarrow> ptr \<Rightarrow> hash_table \<Rightarrow> (nat option \<times> hash_table) option" where
  "hash_table_get_entry alloc hash key ht0 = do {
     ht \<leftarrow> make_room alloc ht0;
     r \<leftarrow> probe_loop (\<lambda>a. a = start_address ht hash) (ht_size ht) (double_hash ht hash)
       (get_entry_body ht hash key) (start_address ht hash) None;
     Some (case r of
        Inl (Inl i) \<Rightarrow> (Some i, ht)
      | Inl (Inr available) \<Rightarrow> take_available hash available ht
      | Inr available \<Rightarrow> take_available hash available ht)
   }"

definition hash_table_insert ::
  "(nat \<Rightarrow> bool) \<Rightarrow> u32 \<Rightarrow> ptr \<Rightarrow> ptr \<Rightarrow> hash_table \<Rightarrow> (nat option \<times> hash_table) option" where
  "hash_table_insert alloc hash key data ht = do {
     (entry, ht') \<leftarrow> hash_table_get_entry alloc hash key ht;
     Some (case entry of
        None \<Rightarrow> (None, ht')
      | Some i \<Rightarrow> (Some i, ht'\<lparr>ht_table := (ht_table ht')[i := (ht_table ht' ! i)
                     \<lparr>e_key := key, e_data := data, e_present := True, e_deleted := False\<rparr>]\<rparr>))
   }"

definition mesa_hash_table_insert ::
  "(nat \<Rightarrow> bool) \<Rightarrow> ptr \<Rightarrow> ptr \<Rightarrow> hash_table \<Rightarrow> (nat option \<times> hash_table) option" where
  "mesa_hash_table_insert alloc key data ht = do {
     f \<leftarrow> key_hash_function ht;
     hash_table_insert alloc (f key) key data ht
   }"

definition mesa_hash_table_insert_pre_hashed ::
  "(nat \<Rightarrow> bool) \<Rightarrow> u32 \<Rightarrow> ptr \<Rightarrow> ptr \<Rightarrow> hash_table \<Rightarrow> (nat option \<times> hash_table) option" where
  "mesa_hash_table_insert_pre_hashed alloc hash key data ht = do {
     c_assert (check_hash ht hash key);
     hash_table_insert alloc hash key data ht
   }"

section \<open>Removal\<close>

definition mesa_hash_table_remove :: "nat option \<Rightarrow> hash_table \<Rightarrow> hash_table" where
  "mesa_hash_table_remove entry ht =
     (case entry of
        None \<Rightarrow> ht
      | Some i \<Rightarrow>
          ht\<lparr>ht_table := (ht_table ht)[i := (ht_table ht ! i)\<lparr>e_present := False, e_deleted := True\<rparr>],
             entries := entries ht - 1, deleted_entries := deleted_entries ht + 1\<rparr>)"

definition mesa_hash_table_remove_key :: "ptr \<Rightarrow> hash_table \<Rightarrow> hash_table option" where
  "mesa_hash_table_remove_key key ht = do {
     entry \<leftarrow> mesa_hash_table_search ht key;
     Some (mesa_hash_table_remove entry ht)
   }"

section \<open>Iteration\<close>

text \<open>
  An iterator is an entry pointer, \<open>None\<close> for \<open>NULL\<close>; \<open>scan_from\<close> is the loop that looks for
  the next present entry.
\<close>

fun scan_from :: "('e \<Rightarrow> bool) \<Rightarrow> nat \<Rightarrow> 'e list \<Rightarrow> nat option" where
  "scan_from p i [] = None"
| "scan_from p i (e # es) = (if p e then Some i else scan_from p (Suc i) es)"

definition iter_start :: "nat option \<Rightarrow> nat" where
  "iter_start entry = (case entry of None \<Rightarrow> 0 | Some i \<Rightarrow> Suc i)"

definition mesa_hash_table_next_entry :: "hash_table \<Rightarrow> nat option \<Rightarrow> nat option" where
  "mesa_hash_table_next_entry ht entry =
     (let i = iter_start entry in scan_from e_present i (drop i (ht_table ht)))"

function mesa_hash_table_next_entry_unsafe :: "hash_table \<Rightarrow> nat option \<Rightarrow> nat option option" where
  "mesa_hash_table_next_entry_unsafe ht entry =
     (if deleted_entries ht \<noteq> 0 then None
      else if entries ht = 0 then Some None
      else let i = iter_start entry
           in if i < length (ht_table ht)
              then if e_present (ht_table ht ! i) then Some (Some i)
                   else mesa_hash_table_next_entry_unsafe ht (Some i)
              else Some None)"
  by pat_completeness auto
termination
  by (relation "measure (\<lambda>(ht, entry). length (ht_table ht) - iter_start entry)") (auto simp: iter_start_def)

text \<open>\<open>rnd\<close> is the value of \<open>rand()\<close>.\<close>

definition mesa_hash_table_random_entry :: "nat \<Rightarrow> (hash_entry \<Rightarrow> bool) option \<Rightarrow> hash_table \<Rightarrow> nat option" where
  "mesa_hash_table_random_entry rnd predicate ht =
     (let i = rnd mod unat (ht_size ht);
          ok = (\<lambda>e. e_present e \<and> (case predicate of None \<Rightarrow> True | Some p \<Rightarrow> p e))
      in if entries ht = 0 then None
         else case scan_from ok i (drop i (ht_table ht)) of
                Some e \<Rightarrow> Some e
              | None \<Rightarrow> scan_from ok 0 (take i (ht_table ht)))"

section \<open>Keys, reservation and the table of 64-bit keys\<close>

definition mesa_hash_pointer :: "ptr \<Rightarrow> u32" where
  "mesa_hash_pointer num =
     ucast (drop_bit 2 num XOR drop_bit 6 num XOR drop_bit 10 num XOR drop_bit 14 num)"

definition mesa_key_pointer_equal :: "ptr \<Rightarrow> ptr \<Rightarrow> bool" where
  "mesa_key_pointer_equal a b = (a = b)"

definition key_u32_equals :: "ptr \<Rightarrow> ptr \<Rightarrow> bool" where
  "key_u32_equals a b = ((ucast a :: u32) = ucast b)"

definition mesa_pointer_hash_table_init :: hash_table where
  "mesa_pointer_hash_table_init = mesa_hash_table_init (Some mesa_hash_pointer) mesa_key_pointer_equal"

definition mesa_hash_table_reserve :: "(nat \<Rightarrow> bool) \<Rightarrow> u32 \<Rightarrow> hash_table \<Rightarrow> (bool \<times> hash_table) option" where
  "mesa_hash_table_reserve alloc sz ht =
     (if sz < max_entries ht then Some (True, ht)
      else do {
        ht' \<leftarrow> (case find (\<lambda>i. sz \<le> fst (hash_sizes ! i)) [size_index ht + 1 ..< length hash_sizes] of
                   None \<Rightarrow> Some ht
                 | Some i \<Rightarrow> mesa_hash_table_rehash alloc i ht);
        Some (sz \<le> max_entries ht', ht')
      })"

fun insert_each :: "(nat \<Rightarrow> bool) \<Rightarrow> hash_entry list \<Rightarrow> hash_table \<Rightarrow> hash_table option" where
  "insert_each alloc [] ht = Some ht"
| "insert_each alloc (e # es) ht = do {
     (entry, ht') \<leftarrow> mesa_hash_table_insert_pre_hashed alloc (e_hash e) (e_key e) (e_data e) ht;
     insert_each alloc es ht'
   }"

text \<open>
  The assertions that both tables use the same functions are a condition on the arguments:
  functions are not compared here.
\<close>

definition mesa_hash_table_clone_into ::
  "(nat \<Rightarrow> bool) \<Rightarrow> hash_table \<Rightarrow> hash_table \<Rightarrow> (bool \<times> hash_table) option" where
  "mesa_hash_table_clone_into alloc dst src = do {
     c_assert (ht_table dst \<noteq> []);
     c_assert (ht_table src \<noteq> []);
     if ht_size dst < ht_size src then Some (mesa_hash_table_copy alloc src)
     else if ht_size dst = ht_size src
     then Some (True, dst\<lparr>ht_table := ht_table src, entries := entries src, deleted_entries := deleted_entries src\<rparr>)
     else do {
       dst' \<leftarrow> insert_each alloc (foreach src) (snd (mesa_hash_table_clear False dst));
       Some (True, dst')
     }
   }"

text \<open>On a 64-bit host the wrapper for 64-bit keys uses the key itself as the pointer.\<close>

record hash_entry_u64 =
  u64_key :: u64
  u64_data :: ptr
  u64_entry :: "nat option"

definition mesa_hash_table_u64_create :: "bool \<Rightarrow> hash_table option" where
  "mesa_hash_table_u64_create alloc_ht = (if alloc_ht then Some mesa_pointer_hash_table_init else None)"

definition mesa_hash_table_u64_insert ::
  "(nat \<Rightarrow> bool) \<Rightarrow> u64 \<Rightarrow> ptr \<Rightarrow> hash_table \<Rightarrow> hash_table option" where
  "mesa_hash_table_u64_insert alloc key data ht = map_option snd (mesa_hash_table_insert alloc key data ht)"

definition mesa_hash_table_u64_search :: "hash_table \<Rightarrow> u64 \<Rightarrow> ptr option" where
  "mesa_hash_table_u64_search ht key = do {
     entry \<leftarrow> mesa_hash_table_search ht key;
     Some (case entry of None \<Rightarrow> 0 | Some i \<Rightarrow> e_data (ht_table ht ! i))
   }"

definition mesa_hash_table_u64_remove :: "u64 \<Rightarrow> hash_table \<Rightarrow> hash_table option" where
  "mesa_hash_table_u64_remove key ht = do {
     entry \<leftarrow> mesa_hash_table_search ht key;
     Some (case entry of None \<Rightarrow> ht | Some i \<Rightarrow> mesa_hash_table_remove (Some i) ht)
   }"

definition mesa_hash_table_u64_next_entry :: "hash_table \<Rightarrow> nat option \<Rightarrow> hash_entry_u64" where
  "mesa_hash_table_u64_next_entry ht ent =
     (case mesa_hash_table_next_entry ht ent of
        None \<Rightarrow> \<lparr>u64_key = 0, u64_data = 0, u64_entry = None\<rparr>
      | Some i \<Rightarrow> \<lparr>u64_key = e_key (ht_table ht ! i), u64_data = e_data (ht_table ht ! i), u64_entry = Some i\<rparr>)"

definition mesa_hash_table_u64_replace :: "hash_entry_u64 \<Rightarrow> ptr \<Rightarrow> hash_table \<Rightarrow> hash_table" where
  "mesa_hash_table_u64_replace ent new_data ht =
     (case u64_entry ent of
        None \<Rightarrow> ht
      | Some i \<Rightarrow> ht\<lparr>ht_table := (ht_table ht)[i := (ht_table ht ! i)\<lparr>e_data := new_data\<rparr>]\<rparr>)"

definition mesa_hash_table_u64_clear :: "hash_table \<Rightarrow> hash_table" where
  "mesa_hash_table_u64_clear ht = snd (mesa_hash_table_clear True ht)"

section \<open>Geometry\<close>

lemma hash_sizes_length: "length hash_sizes = 28"
  by (simp add: hash_sizes_def)

definition good_size :: "u32 \<times> u32 \<times> u32 \<Rightarrow> bool" where
  "good_size = (\<lambda>(mx, sz, re). geometry (unat sz) (unat re) \<and> mx < sz \<and> 0 < mx \<and> sz \<noteq> 0 \<and> re \<noteq> 0)"

lemma hash_sizes_good_all: "list_all good_size (take 27 hash_sizes)"
  unfolding hash_sizes_def good_size_def geometry_def
  by (simp add: table_primes)

lemma hash_sizes_good: "i < 27 \<Longrightarrow> good_size (hash_sizes ! i)"
  using hash_sizes_good_all by (auto simp: list_all_length hash_sizes_length)

lemma hash_sizes_mono_all: "sorted_wrt (\<lambda>a b. fst a < fst b) hash_sizes"
  unfolding hash_sizes_def by simp

lemma hash_sizes_mono: "i < j \<Longrightarrow> j < 28 \<Longrightarrow> fst (hash_sizes ! i) < fst (hash_sizes ! j)"
  using hash_sizes_mono_all by (simp add: sorted_wrt_iff_nth_less hash_sizes_length)

definition ht_sized :: "hash_table \<Rightarrow> bool" where
  "ht_sized ht =
     (size_index ht < 27 \<and> hash_sizes ! size_index ht = (max_entries ht, ht_size ht, ht_rehash ht) \<and>
      size_magic ht = REMAINDER_MAGIC (ht_size ht) \<and> rehash_magic ht = REMAINDER_MAGIC (ht_rehash ht))"

definition ht_N :: "hash_table \<Rightarrow> nat" where
  "ht_N ht = unat (ht_size ht)"

definition ht_R :: "hash_table \<Rightarrow> nat" where
  "ht_R ht = unat (ht_rehash ht)"

lemma ht_sized_good:
  assumes "ht_sized ht"
  shows "geometry (ht_N ht) (ht_R ht)" and "unat (max_entries ht) < ht_N ht" and "0 < unat (max_entries ht)"
    and "ht_size ht \<noteq> 0" and "ht_rehash ht \<noteq> 0"
proof -
  have "good_size (max_entries ht, ht_size ht, ht_rehash ht)"
    using assms hash_sizes_good [of "size_index ht"] by (simp add: ht_sized_def)
  then show "geometry (ht_N ht) (ht_R ht)" and "unat (max_entries ht) < ht_N ht" and "0 < unat (max_entries ht)"
    and "ht_size ht \<noteq> 0" and "ht_rehash ht \<noteq> 0"
    by (auto simp: good_size_def ht_N_def ht_R_def word_less_nat_alt unat_gt_0)
qed

lemma start_address_unat: "ht_sized ht \<Longrightarrow> unat (start_address ht h) = unat h mod ht_N ht"
  using ht_sized_good(4) [of ht] util_fast_urem32_eq [of "ht_size ht" h]
  by (simp add: start_address_def ht_sized_def ht_N_def unat_mod)

lemma double_hash_unat:
  assumes "ht_sized ht"
  shows "unat (double_hash ht h) = 1 + unat h mod ht_R ht"
proof -
  have "double_hash ht h = 1 + h mod ht_rehash ht"
    using assms ht_sized_good(5) [OF assms] util_fast_urem32_eq [of "ht_rehash ht" h]
    by (simp add: double_hash_def ht_sized_def)
  moreover have "unat (h mod ht_rehash ht) = unat h mod ht_R ht" by (simp add: unat_mod ht_R_def)
  moreover have "1 + unat h mod ht_R ht < ht_N ht" using visit_step(2) [OF ht_sized_good(1) [OF assms]] .
  moreover have "ht_N ht < 4294967296" unfolding ht_N_def by (rule unat_lt_32)
  ultimately show ?thesis by (simp add: unat_word_ariths)
qed

lemma probe_list_cong:
  "(\<And>i s. i \<in> set is \<Longrightarrow> f i s = g i s) \<Longrightarrow> probe_list f is s = probe_list g is s"
  by (induction "is" arbitrary: s) (auto split: sum.splits)

text \<open>The loops of the table in terms of its slots.\<close>

lemma ht_probe:
  assumes "ht_sized ht" and "\<And>i s. i < ht_N ht \<Longrightarrow> body i s = g i s"
  shows "probe_loop (\<lambda>a. a = start_address ht h) (ht_size ht) (double_hash ht h) body (start_address ht h) s =
           Some (probe_list g (map (visit (ht_N ht) (ht_R ht) h) [0 ..< ht_N ht]) s)"
proof -
  note g = ht_sized_good(1) [OF assms(1)]
  have "probe_list body (map (visit (ht_N ht) (ht_R ht) h) [0 ..< ht_N ht]) s =
        probe_list g (map (visit (ht_N ht) (ht_R ht) h) [0 ..< ht_N ht]) s"
    using assms(2) visit_lt [OF g] by (intro probe_list_cong) auto
  then show ?thesis
    using probe_loop_all [of "ht_size ht" "double_hash ht h" "start_address ht h" body s] g
      visit_step [OF g, of h] geometry_pos [OF g]
    unfolding double_hash_unat [OF assms(1)] start_address_unat [OF assms(1)] visit_def ht_N_def [symmetric]
    by (simp add: geometry_def)
qed

definition slot_of :: "hash_entry \<Rightarrow> ptr slot" where
  "slot_of e = (if e_present e then Full (e_hash e) (e_key e) else if e_deleted e then Tomb else Free)"

definition slots :: "hash_table \<Rightarrow> ptr slot list" where
  "slots ht = map slot_of (ht_table ht)"

lemma slot_of_simps [simp]:
  "is_full (slot_of e) \<longleftrightarrow> e_present e"
  "slot_of e = Free \<longleftrightarrow> \<not> e_present e \<and> \<not> e_deleted e"
  "slot_of e = Tomb \<longleftrightarrow> \<not> e_present e \<and> e_deleted e"
  "matches eq h k (slot_of e) \<longleftrightarrow> e_present e \<and> e_hash e = h \<and> eq k (e_key e)"
  by (auto simp: slot_of_def)

lemma slots_nth: "i < length (ht_table ht) \<Longrightarrow> slots ht ! i = slot_of (ht_table ht ! i)"
  by (simp add: slots_def)

lemma slots_length [simp]: "length (slots ht) = length (ht_table ht)"
  by (simp add: slots_def)

text \<open>
  The representation invariant: the sizes are those of a row of \<open>hash_sizes\<close>, every entry is
  reachable by its probe sequence, keys are not repeated, and the counters count.
\<close>

definition ht_inv :: "hash_table \<Rightarrow> bool" where
  "ht_inv ht =
     (ht_sized ht \<and> equivp (key_equals_function ht) \<and>
      placed (ht_N ht) (ht_R ht) (slots ht) \<and> uniq (key_equals_function ht) (slots ht) \<and>
      unat (entries ht) = length (filter e_present (ht_table ht)) \<and>
      unat (deleted_entries ht) = length (filter (\<lambda>e. \<not> e_present e \<and> e_deleted e) (ht_table ht)))"

definition ht_loaded :: "hash_table \<Rightarrow> bool" where
  "ht_loaded ht = (unat (entries ht) + unat (deleted_entries ht) \<le> unat (max_entries ht))"

definition lookup_entry :: "hash_table \<Rightarrow> u32 \<Rightarrow> ptr \<Rightarrow> hash_entry option" where
  "lookup_entry ht h k =
     find (\<lambda>e. e_present e \<and> e_hash e = h \<and> key_equals_function ht k (e_key e)) (ht_table ht)"

definition ht_map :: "hash_table \<Rightarrow> u32 \<Rightarrow> ptr \<Rightarrow> ptr option" where
  "ht_map ht h k = map_option e_data (lookup_entry ht h k)"

lemma ht_inv_length: "ht_inv ht \<Longrightarrow> length (ht_table ht) = ht_N ht"
  using placed_length [of "ht_N ht" "ht_R ht" "slots ht"] by (simp add: ht_inv_def)

lemma ht_inv_uniq:
  assumes "ht_inv ht" and "i < ht_N ht" "j < ht_N ht"
    and "e_present (ht_table ht ! i)" "e_hash (ht_table ht ! i) = h" "key_equals_function ht k (e_key (ht_table ht ! i))"
    and "e_present (ht_table ht ! j)" "e_hash (ht_table ht ! j) = h" "key_equals_function ht k (e_key (ht_table ht ! j))"
  shows "i = j"
proof -
  have "equivp (key_equals_function ht)" "uniq (key_equals_function ht) (slots ht)" using assms(1) by (auto simp: ht_inv_def)
  moreover from this(1) have "key_equals_function ht (e_key (ht_table ht ! i)) (e_key (ht_table ht ! j))"
    using assms(6,9) by (meson equivp_symp equivp_transp)
  ultimately show ?thesis
    using assms(2-5,7,8) ht_inv_length [OF assms(1)] unfolding uniq_def
    by (simp add: slots_def slot_of_def)
qed

text \<open>A search ends and finds the entry when there is one.\<close>

lemma hash_table_search_result:
  assumes "ht_inv ht"
  shows "\<exists>r. hash_table_search ht h k = Some r \<and>
           (case r of
              None \<Rightarrow> lookup_entry ht h k = None
            | Some i \<Rightarrow> i < length (ht_table ht) \<and> lookup_entry ht h k = Some (ht_table ht ! i) \<and>
                        e_present (ht_table ht ! i) \<and> e_hash (ht_table ht ! i) = h \<and>
                        key_equals_function ht k (e_key (ht_table ht ! i)))"
proof -
  note inv = assms [unfolded ht_inv_def] and l = ht_inv_length [OF assms]
  let ?eq = "key_equals_function ht"
  let ?r = "probe_list (search_body ?eq h k (slots ht)) (map (visit (ht_N ht) (ht_R ht) h) [0 ..< ht_N ht]) ()"
  have s: "hash_table_search ht h k = Some (case ?r of Inl e \<Rightarrow> e | Inr u \<Rightarrow> None)"
    unfolding hash_table_search_def
    by (subst ht_probe [where g = "search_body ?eq h k (slots ht)"]) (use inv l in \<open>auto simp: slots_nth Let_def\<close>)
  have found: "lookup_entry ht h k = Some (ht_table ht ! i)" if "i < ht_N ht" "matches ?eq h k (slots ht ! i)" for i
    unfolding lookup_entry_def using that l ht_inv_uniq [OF assms] by (intro find_unique) (auto simp: slots_nth)
  have none: "lookup_entry ht h k = None" if "\<forall>i < ht_N ht. \<not> matches ?eq h k (slots ht ! i)"
    unfolding lookup_entry_def using that l by (intro find_none) (auto simp: slots_nth)
  show ?thesis
    using search_result [of "ht_N ht" "ht_R ht" "slots ht" ?eq h k] inv ht_sized_good(1) s found none l
    by (auto simp: slots_nth split: sum.splits option.splits)
qed

section \<open>Filling a slot\<close>

lemma equivp_symp_rel: "equivp R \<Longrightarrow> symp R"
  by (simp add: equivp_reflp_symp_transp)

lemma ht_invD:
  assumes "ht_inv ht"
  shows "ht_sized ht" and "geometry (ht_N ht) (ht_R ht)" and "symp (key_equals_function ht)"
    and "placed (ht_N ht) (ht_R ht) (slots ht)" and "uniq (key_equals_function ht) (slots ht)"
    and "length (ht_table ht) = ht_N ht"
  using assms ht_sized_good(1) equivp_symp_rel ht_inv_length by (auto simp: ht_inv_def)

lemma slots_update: "slots (ht\<lparr>ht_table := (ht_table ht)[i := e]\<rparr>) = (slots ht)[i := slot_of e]"
  by (simp add: slots_def map_update)

text \<open>The effect of an entry written to slot \<open>i\<close> on the mapping.\<close>

lemma lookup_entry_put:
  assumes inv: "ht_inv ht" and inv': "ht_inv ht'" and eq: "key_equals_function ht' = key_equals_function ht"
    and tbl: "ht_table ht' = (ht_table ht)[i := e]" and i: "i < ht_N ht"
    and e: "e_present e" "e_hash e = h" "e_key e = k"
    and old: "e_present (ht_table ht ! i) \<Longrightarrow> matches (key_equals_function ht) h k (slot_of (ht_table ht ! i))"
  shows "lookup_entry ht' h' k' = (if h' = h \<and> key_equals_function ht k k' then Some e else lookup_entry ht h' k')"
proof -
  let ?eq = "key_equals_function ht"
  have eqv: "equivp ?eq" using inv by (simp add: ht_inv_def)
  have sym: "\<And>a b. ?eq a b \<Longrightarrow> ?eq b a" and trans: "\<And>a b c. ?eq a b \<Longrightarrow> ?eq b c \<Longrightarrow> ?eq a c"
    using eqv by (meson equivp_symp, meson equivp_transp)
  note l = ht_inv_length [OF inv]
  have l': "ht_N ht' = ht_N ht" using ht_inv_length [OF inv'] tbl l by simp
  show ?thesis
  proof (cases "h' = h \<and> ?eq k k'")
    case True
    then have "?eq k' k" using sym by blast
    then have "lookup_entry ht' h' k' = Some (ht_table ht' ! i)"
      unfolding lookup_entry_def using True e i l tbl ht_inv_uniq [OF inv', of _ i h' k'] l' eq
      by (intro find_unique) auto
    then show ?thesis using True tbl i l by simp
  next
    case False
    have "\<not> (e_present e \<and> e_hash e = h' \<and> ?eq k' (e_key e))" using False e sym by blast
    moreover have "\<not> (e_present (ht_table ht ! i) \<and> e_hash (ht_table ht ! i) = h' \<and> ?eq k' (e_key (ht_table ht ! i)))"
      using False old by (auto dest: sym trans)
    ultimately show ?thesis
      unfolding lookup_entry_def tbl eq using False i l by (subst find_update_other) auto
  qed
qed

lemma ht_inv_put:
  assumes inv: "ht_inv ht" and tbl: "ht_table ht' = (ht_table ht)[i := e]" and i: "i < ht_N ht"
    and same: "ht_sized ht'" "ht_N ht' = ht_N ht" "ht_R ht' = ht_R ht" "key_equals_function ht' = key_equals_function ht"
    and pl: "placed (ht_N ht) (ht_R ht) ((slots ht)[i := slot_of e])"
    and un: "uniq (key_equals_function ht) ((slots ht)[i := slot_of e])"
    and en: "unat (entries ht') + (if e_present (ht_table ht ! i) then 1 else 0) =
               unat (entries ht) + (if e_present e then 1 else 0)"
    and de: "unat (deleted_entries ht') + (if \<not> e_present (ht_table ht ! i) \<and> e_deleted (ht_table ht ! i) then 1 else 0) =
               unat (deleted_entries ht) + (if \<not> e_present e \<and> e_deleted e then 1 else 0)"
  shows "ht_inv ht'"
proof -
  note l = ht_inv_length [OF inv]
  have "slots ht' = (slots ht)[i := slot_of e]" unfolding slots_def tbl by (simp add: map_update)
  then show ?thesis
    using inv same pl un en de i l unfolding ht_inv_def tbl
    using filter_update_length [of i "ht_table ht" e_present e]
      filter_update_length [of i "ht_table ht" "\<lambda>e. \<not> e_present e \<and> e_deleted e" e]
    by simp
qed

lemma get_probe:
  assumes "ht_inv ht"
  obtains r where "probe_loop (\<lambda>a. a = start_address ht h) (ht_size ht) (double_hash ht h)
       (get_entry_body ht h k) (start_address ht h) None = Some r"
    and "case r of
           Inl (Inl i) \<Rightarrow> i < ht_N ht \<and> matches (key_equals_function ht) h k (slots ht ! i)
         | Inl (Inr available) \<Rightarrow> insertable (ht_N ht) (ht_R ht) (key_equals_function ht) h k (slots ht) available
         | Inr available \<Rightarrow> insertable (ht_N ht) (ht_R ht) (key_equals_function ht) h k (slots ht) available"
proof -
  have g: "get_entry_body ht h k i s = get_body (key_equals_function ht) h k (slots ht) i s" if "i < ht_N ht" for i s
    using that ht_inv_length [OF assms] by (auto simp: get_entry_body_def slots_nth Let_def)
  have p: "probe_loop (\<lambda>a. a = start_address ht h) (ht_size ht) (double_hash ht h)
       (get_entry_body ht h k) (start_address ht h) None =
     Some (probe_list (get_body (key_equals_function ht) h k (slots ht))
       (map (visit (ht_N ht) (ht_R ht) h) [0 ..< ht_N ht]) None)"
    using assms by (intro ht_probe g) (simp add: ht_inv_def)
  show thesis
    using assms ht_sized_good(1) by (intro that [OF p get_result]) (auto simp: ht_inv_def)
qed

definition put_entry :: "nat \<Rightarrow> ptr \<Rightarrow> ptr \<Rightarrow> hash_table \<Rightarrow> hash_table" where
  "put_entry i key data ht = ht\<lparr>ht_table := (ht_table ht)[i := (ht_table ht ! i)
                     \<lparr>e_key := key, e_data := data, e_present := True, e_deleted := False\<rparr>]\<rparr>"

lemma ht_sized_cong:
  "size_index ht' = size_index ht \<Longrightarrow> max_entries ht' = max_entries ht \<Longrightarrow> ht_size ht' = ht_size ht \<Longrightarrow>
   ht_rehash ht' = ht_rehash ht \<Longrightarrow> size_magic ht' = size_magic ht \<Longrightarrow> rehash_magic ht' = rehash_magic ht \<Longrightarrow>
   ht_sized ht' = ht_sized ht"
  by (simp add: ht_sized_def)

text \<open>Writing over the entry that matches.\<close>

lemma put_match:
  assumes inv: "ht_inv ht" and i: "i < ht_N ht" "matches (key_equals_function ht) h k (slots ht ! i)"
  shows "ht_inv (put_entry i k d ht)"
    and "ht_map (put_entry i k d ht) h' k' = (if h' = h \<and> key_equals_function ht k k' then Some d else ht_map ht h' k')"
proof -
  note l = ht_inv_length [OF inv] and un = ht_inv_uniq [OF inv]
  let ?eq = "key_equals_function ht" and ?o = "ht_table ht ! i"
  have m: "e_present ?o" "e_hash ?o = h" "?eq k (e_key ?o)" using i l by (auto simp: slots_nth)
  let ?e = "?o\<lparr>e_key := k, e_data := d, e_present := True, e_deleted := False\<rparr>"
  have se: "slot_of ?e = Full h k" using m by (simp add: slot_of_def)
  have so: "slots ht ! i = Full h (e_key ?o)" using m i l by (simp add: slots_nth slot_of_def)
  have pl: "placed (ht_N ht) (ht_R ht) ((slots ht)[i := slot_of ?e])"
    unfolding se by (rule placed_same [OF ht_invD(4,2) [OF inv] i(1) so])
  have other: "\<not> matches ?eq h k (slots ht ! j)" if "j < length (slots ht)" "j \<noteq> i" for j
    using un [of j i h k] m l i(1) that by (auto simp: slots_nth)
  have uq: "uniq ?eq ((slots ht)[i := slot_of ?e])"
    unfolding se by (rule uniq_full [OF ht_invD(5,3) [OF inv] other])
  show inv': "ht_inv (put_entry i k d ht)"
    using inv i m pl uq
    by (intro ht_inv_put [where i = i and e = ?e, OF inv])
       (auto simp: put_entry_def ht_inv_def ht_N_def ht_R_def ht_sized_def)
  show "ht_map (put_entry i k d ht) h' k' = (if h' = h \<and> ?eq k k' then Some d else ht_map ht h' k')"
    unfolding ht_map_def
    by (subst lookup_entry_put [OF inv inv', where i = i and e = ?e and h = h and k = k])
       (use i m in \<open>auto simp: put_entry_def\<close>)
qed

text \<open>Taking the first available slot.\<close>

lemma insertable_Some:
  assumes "insertable N R eq h k sl (Some a)" and "geometry N R"
  shows "a < N" and "\<not> is_full (sl ! a)" and "\<And>i. i < N \<Longrightarrow> \<not> matches eq h k (sl ! i)"
    and "placed N R sl \<Longrightarrow> placed N R (sl[a := Full h k])"
proof -
  obtain j where j: "j < N" "a = visit N R h j" "\<forall>j' < j. sl ! visit N R h j' \<noteq> Free"
    using assms(1) by (auto simp: insertable_def)
  then show "a < N" using visit_lt [OF assms(2)] by simp
  show "placed N R sl \<Longrightarrow> placed N R (sl[a := Full h k])"
    using j placed_full [OF _ assms(2)] by simp
  show "\<not> is_full (sl ! a)" "\<And>i. i < N \<Longrightarrow> \<not> matches eq h k (sl ! i)"
    using assms(1) by (auto simp: insertable_def)
qed

lemma take_available_counts:
  assumes inv: "ht_inv ht" and a: "a < ht_N ht" "\<not> e_present (ht_table ht ! a)"
  shows "unat (entries ht + 1) = unat (entries ht) + 1" and "unat (entries ht) < ht_N ht"
    and "e_deleted (ht_table ht ! a) \<Longrightarrow> unat (deleted_entries ht - 1) + 1 = unat (deleted_entries ht)"
proof -
  note l = ht_inv_length [OF inv]
  have mem: "ht_table ht ! a \<in> set (ht_table ht)" using a(1) l by simp
  then have "length (filter e_present (ht_table ht)) < length (ht_table ht)" using a(2) by (rule length_filter_less)
  then show lt: "unat (entries ht) < ht_N ht" using inv l by (simp add: ht_inv_def)
  have "ht_N ht \<le> 2 ^ 31" using ht_invD(2) [OF inv] by (simp add: geometry_def)
  then show "unat (entries ht + 1) = unat (entries ht) + 1" using lt by (simp add: unat_word_ariths)
  assume "e_deleted (ht_table ht ! a)"
  then have "ht_table ht ! a \<in> set (filter (\<lambda>e. \<not> e_present e \<and> e_deleted e) (ht_table ht))" using mem a(2) by simp
  then have "0 < unat (deleted_entries ht)" using inv unfolding ht_inv_def by (metis length_pos_if_in_set)
  then show "unat (deleted_entries ht - 1) + 1 = unat (deleted_entries ht)"
    by (subst unat_sub) (simp_all add: word_le_nat_alt)
qed

lemma put_available:
  assumes inv: "ht_inv ht"
    and ins: "insertable (ht_N ht) (ht_R ht) (key_equals_function ht) h k (slots ht) (Some a)"
    and ht': "ht' = put_entry a k d (snd (take_available h (Some a) ht))"
  shows "ht_inv ht'"
    and "ht_map ht' h' k' = (if h' = h \<and> key_equals_function ht k k' then Some d else ht_map ht h' k')"
    and "unat (entries ht') = unat (entries ht) + 1"
    and "unat (entries ht') + unat (deleted_entries ht') \<le> unat (entries ht) + unat (deleted_entries ht) + 1"
proof -
  note l = ht_inv_length [OF inv] and s = insertable_Some [OF ins ht_invD(2) [OF inv]]
  let ?eq = "key_equals_function ht" and ?o = "ht_table ht ! a"
  let ?e = "?o\<lparr>e_hash := h, e_key := k, e_data := d, e_present := True, e_deleted := False\<rparr>"
  have np: "\<not> e_present ?o" using s(1,2) l by (simp add: slots_nth)
  note c = take_available_counts [OF inv s(1) np]
  have tbl: "ht_table ht' = (ht_table ht)[a := ?e]"
    using s(1) l by (simp add: ht' put_entry_def take_available_def)
  have se: "slot_of ?e = Full h k" by (simp add: slot_of_def)
  have pl: "placed (ht_N ht) (ht_R ht) ((slots ht)[a := slot_of ?e])"
    unfolding se by (rule s(4) [OF ht_invD(4) [OF inv]])
  have uq: "uniq ?eq ((slots ht)[a := slot_of ?e])"
    unfolding se using s(3) l by (intro uniq_full ht_invD(3,5) [OF inv]) auto
  have en: "entries ht' = entries ht + 1"
    and de: "deleted_entries ht' = (if e_deleted ?o then deleted_entries ht - 1 else deleted_entries ht)"
    by (simp_all add: ht' put_entry_def take_available_def)
  show inv': "ht_inv ht'"
    using np c(1,3) en de pl uq ht_invD(1) [OF inv]
    by (intro ht_inv_put [OF inv tbl s(1)])
       (auto simp: ht' put_entry_def take_available_def ht_N_def ht_R_def ht_sized_def)
  show "ht_map ht' h' k' = (if h' = h \<and> ?eq k k' then Some d else ht_map ht h' k')"
    unfolding ht_map_def
    by (subst lookup_entry_put [OF inv inv' _ tbl s(1), where h = h and k = k])
       (use np in \<open>auto simp: ht' put_entry_def take_available_def\<close>)
  show "unat (entries ht') = unat (entries ht) + 1" using c(1) en by simp
  then show "unat (entries ht') + unat (deleted_entries ht') \<le> unat (entries ht) + unat (deleted_entries ht) + 1"
    using c(3) de by auto
qed

text \<open>An insertion into a table that has room.\<close>

lemma take_available_simps [simp]:
  "key_equals_function (snd (take_available h available ht)) = key_equals_function ht"
  "key_hash_function (snd (take_available h available ht)) = key_hash_function ht"
  "max_entries (snd (take_available h available ht)) = max_entries ht"
  "size_index (snd (take_available h available ht)) = size_index ht"
  by (simp_all add: take_available_def split: option.splits)

lemma put_entry_simps [simp]:
  "key_equals_function (put_entry i k d ht) = key_equals_function ht"
  "key_hash_function (put_entry i k d ht) = key_hash_function ht"
  "max_entries (put_entry i k d ht) = max_entries ht"
  "size_index (put_entry i k d ht) = size_index ht"
  "entries (put_entry i k d ht) = entries ht"
  "deleted_entries (put_entry i k d ht) = deleted_entries ht"
  by (simp_all add: put_entry_def)

definition inserted :: "u32 \<Rightarrow> ptr \<Rightarrow> ptr \<Rightarrow> hash_table \<Rightarrow> hash_table \<Rightarrow> bool" where
  "inserted h k d ht ht' =
     (ht_inv ht' \<and>
      ht_map ht' = (\<lambda>h' k'. if h' = h \<and> key_equals_function ht k k' then Some d else ht_map ht h' k') \<and>
      key_equals_function ht' = key_equals_function ht \<and> key_hash_function ht' = key_hash_function ht \<and>
      max_entries ht' = max_entries ht \<and> size_index ht' = size_index ht \<and>
      unat (entries ht') \<le> unat (entries ht) + 1 \<and>
      unat (entries ht') + unat (deleted_entries ht') \<le> unat (entries ht) + unat (deleted_entries ht) + 1)"

lemma insertable_None:
  assumes "ht_inv ht" and "insertable (ht_N ht) (ht_R ht) eq h k (slots ht) None"
  shows "unat (entries ht) = ht_N ht"
proof -
  note l = ht_inv_length [OF assms(1)]
  have "\<And>i. i < length (ht_table ht) \<Longrightarrow> e_present (ht_table ht ! i)"
    using assms(2) l unfolding insertable_def by (simp add: slots_nth)
  then have "length (filter e_present (ht_table ht)) = length (ht_table ht)" by (rule filter_all_length)
  then show ?thesis using assms(1) l by (simp add: ht_inv_def)
qed

lemma insert_in_room:
  assumes room: "make_room alloc ht0 = Some ht" and inv: "ht_inv ht"
  shows "(\<exists>i ht'. hash_table_insert alloc h k d ht0 = Some (Some i, ht') \<and> inserted h k d ht ht') \<or>
         (hash_table_insert alloc h k d ht0 = Some (None, ht) \<and> unat (entries ht) = ht_N ht)"
proof -
  let ?eq = "key_equals_function ht" and ?ins = "insertable (ht_N ht) (ht_R ht) (key_equals_function ht) h k (slots ht)"
  obtain r where r: "probe_loop (\<lambda>a. a = start_address ht h) (ht_size ht) (double_hash ht h)
       (get_entry_body ht h k) (start_address ht h) None = Some r"
    and c: "case r of Inl (Inl i) \<Rightarrow> i < ht_N ht \<and> matches ?eq h k (slots ht ! i)
         | Inl (Inr available) \<Rightarrow> ?ins available | Inr available \<Rightarrow> ?ins available"
    by (rule get_probe [OF inv, of h k])
  let ?res = "\<lambda>(entry, ht'). case entry of None \<Rightarrow> (None, ht') | Some i \<Rightarrow> (Some i, put_entry i k d ht')"
  consider (hit) i where "r = Inl (Inl i)" "i < ht_N ht" "matches ?eq h k (slots ht ! i)"
    | (free) a where "r = Inl (Inr a) \<or> r = Inr a" "?ins a"
    using c by (auto split: sum.splits)
  then show ?thesis
  proof cases
    case hit
    then have "hash_table_insert alloc h k d ht0 = Some (Some i, put_entry i k d ht)"
      by (simp add: hash_table_insert_def hash_table_get_entry_def room r put_entry_def)
    moreover have "inserted h k d ht (put_entry i k d ht)"
      unfolding inserted_def by (simp add: fun_eq_iff put_match [OF inv hit(2,3)])
    ultimately show ?thesis by blast
  next
    case free
    then have res: "hash_table_insert alloc h k d ht0 = Some (?res (take_available h a ht))"
      by (auto simp: hash_table_insert_def hash_table_get_entry_def room r put_entry_def split: prod.splits option.splits)
    show ?thesis
    proof (cases a)
      case None
      then show ?thesis using res insertable_None [OF inv] free(2) by (simp add: take_available_def)
    next
      case (Some i)
      let ?ht' = "put_entry i k d (snd (take_available h (Some i) ht))"
      have "hash_table_insert alloc h k d ht0 = Some (Some i, ?ht')" using res Some by (simp add: take_available_def)
      moreover have "inserted h k d ht ?ht'"
        using put_available(3,4) [OF inv free(2) [unfolded Some] refl, of d]
        unfolding inserted_def by (simp add: fun_eq_iff put_available(1,2) [OF inv free(2) [unfolded Some] refl])
      ultimately show ?thesis by blast
    qed
  qed
qed

section \<open>Removing and clearing\<close>

lemma remove_inv:
  assumes inv: "ht_inv ht" and i: "i < ht_N ht" "e_present (ht_table ht ! i)"
  shows "ht_inv (mesa_hash_table_remove (Some i) ht)"
    and "unat (entries (mesa_hash_table_remove (Some i) ht)) + 1 = unat (entries ht)"
    and "unat (deleted_entries (mesa_hash_table_remove (Some i) ht)) = unat (deleted_entries ht) + 1"
proof -
  note l = ht_inv_length [OF inv]
  let ?e = "(ht_table ht ! i)\<lparr>e_present := False, e_deleted := True\<rparr>"
  have mem: "ht_table ht ! i \<in> set (ht_table ht)" using i(1) l by simp
  have "ht_table ht ! i \<in> set (filter e_present (ht_table ht))" using mem i(2) by simp
  then have "0 < unat (entries ht)" using inv unfolding ht_inv_def by (metis length_pos_if_in_set)
  then have en: "unat (entries ht - 1) + 1 = unat (entries ht)" by (subst unat_sub) (simp_all add: word_le_nat_alt)
  have "length (filter (\<lambda>e. \<not> e_present e \<and> e_deleted e) (ht_table ht)) < length (ht_table ht)"
    using mem i(2) by (intro length_filter_less) auto
  then have "unat (deleted_entries ht) < ht_N ht" using inv l by (simp add: ht_inv_def)
  moreover have "ht_N ht \<le> 2 ^ 31" using ht_invD(2) [OF inv] by (simp add: geometry_def)
  ultimately have de: "unat (deleted_entries ht + 1) = unat (deleted_entries ht) + 1" by (simp add: unat_word_ariths)
  show "unat (entries (mesa_hash_table_remove (Some i) ht)) + 1 = unat (entries ht)"
    and "unat (deleted_entries (mesa_hash_table_remove (Some i) ht)) = unat (deleted_entries ht) + 1"
    using en de by (simp_all add: mesa_hash_table_remove_def)
  have se: "slot_of ?e = Tomb" by simp
  have tbl: "ht_table (mesa_hash_table_remove (Some i) ht) = (ht_table ht)[i := ?e]"
    by (simp add: mesa_hash_table_remove_def)
  show "ht_inv (mesa_hash_table_remove (Some i) ht)"
    using placed_tomb [OF ht_invD(4,2) [OF inv] i(1)] uniq_tomb [OF ht_invD(5) [OF inv], of i] i(2) en de ht_invD(1) [OF inv]
    by (intro ht_inv_put [OF inv tbl i(1)])
       (auto simp: mesa_hash_table_remove_def ht_N_def ht_R_def ht_sized_def se)
qed

lemma remove_simps [simp]:
  "key_equals_function (mesa_hash_table_remove i ht) = key_equals_function ht"
  "key_hash_function (mesa_hash_table_remove i ht) = key_hash_function ht"
  "max_entries (mesa_hash_table_remove i ht) = max_entries ht"
  "size_index (mesa_hash_table_remove i ht) = size_index ht"
  by (simp_all add: mesa_hash_table_remove_def split: option.splits)

lemma find_update_unsat:
  assumes "i < length xs" and "\<not> P x" and "\<And>j. j < length xs \<Longrightarrow> j \<noteq> i \<Longrightarrow> \<not> P (xs ! j)"
  shows "find P (xs[i := x]) = None"
  using assms by (intro find_none) (auto simp: nth_list_update)

lemma lookup_entry_remove:
  assumes inv: "ht_inv ht" and i: "i < ht_N ht" "e_present (ht_table ht ! i)" "e_hash (ht_table ht ! i) = h"
      "key_equals_function ht k (e_key (ht_table ht ! i))"
  shows "lookup_entry (mesa_hash_table_remove (Some i) ht) h' k' =
           (if h' = h \<and> key_equals_function ht k k' then None else lookup_entry ht h' k')"
proof -
  note l = ht_inv_length [OF inv]
  let ?eq = "key_equals_function ht" and ?e = "(ht_table ht ! i)\<lparr>e_present := False, e_deleted := True\<rparr>"
  let ?P = "\<lambda>e. e_present e \<and> e_hash e = h' \<and> ?eq k' (e_key e)"
  have eqv: "equivp ?eq" using inv by (simp add: ht_inv_def)
  have lk: "lookup_entry (mesa_hash_table_remove (Some i) ht) h' k' = find ?P ((ht_table ht)[i := ?e])"
    by (simp add: lookup_entry_def mesa_hash_table_remove_def)
  show ?thesis
  proof (cases "h' = h \<and> ?eq k k'")
    case True
    then have "?eq k' (e_key (ht_table ht ! i))" using eqv i(4) by (meson equivp_symp equivp_transp)
    then have "\<not> ?P (ht_table ht ! j)" if "j < length (ht_table ht)" "j \<noteq> i" for j
      using ht_inv_uniq [OF inv, of j i h' k'] that i l True by auto
    then show ?thesis unfolding lk using True i(1) l by (subst find_update_unsat) auto
  next
    case False
    then have "\<not> ?P (ht_table ht ! i)" using i(3,4) eqv by (metis equivp_symp equivp_transp)
    then show ?thesis unfolding lk using False i(1) l by (subst find_update_other) (auto simp: lookup_entry_def)
  qed
qed

text \<open>A table without entries.\<close>

lemma ht_inv_empty:
  assumes "ht_sized ht" and "equivp (key_equals_function ht)" and "length (ht_table ht) = ht_N ht"
    and "\<And>e. e \<in> set (ht_table ht) \<Longrightarrow> \<not> e_present e \<and> \<not> e_deleted e" and "entries ht = 0" "deleted_entries ht = 0"
  shows "ht_inv ht" and "ht_map ht h k = None"
proof -
  have "slots ht = replicate (ht_N ht) Free"
    using assms(3,4) by (auto simp: slots_def intro!: replicate_eqI)
  moreover have "filter e_present (ht_table ht) = []" "filter (\<lambda>e. \<not> e_present e \<and> e_deleted e) (ht_table ht) = []"
    using assms(4) by (auto simp: filter_empty_conv)
  ultimately show "ht_inv ht"
    using assms by (simp add: ht_inv_def placed_empty uniq_empty)
  show "ht_map ht h k = None"
    using assms(4) by (auto simp: ht_map_def lookup_entry_def find_None_iff)
qed

lemma hash_table_init_inv:
  assumes "equivp eq"
  shows "ht_inv (mesa_hash_table_init f eq)" and "ht_map (mesa_hash_table_init f eq) h k = None"
proof -
  let ?ht = "mesa_hash_table_init f eq"
  have "ht_sized ?ht" and "length (ht_table ?ht) = ht_N ?ht" and "equivp (key_equals_function ?ht)"
    and "entries ?ht = 0" "deleted_entries ?ht = 0" and "\<And>e. e \<in> set (ht_table ?ht) \<Longrightarrow> \<not> e_present e \<and> \<not> e_deleted e"
    using assms
    by (simp_all add: mesa_hash_table_init_def set_sizes_def hash_sizes_def ht_sized_def ht_N_def zero_entry_def)
  then show "ht_inv ?ht" and "ht_map ?ht h k = None" by (intro ht_inv_empty; simp)+
qed

lemma clear_inv:
  assumes "ht_inv ht"
  shows "ht_inv (snd (mesa_hash_table_clear del ht))" and "ht_map (snd (mesa_hash_table_clear del ht)) h k = None"
    and "mesa_hash_table_clear del ht = (l, ht') \<Longrightarrow> entries ht' = 0 \<and> deleted_entries ht' = 0 \<and>
           max_entries ht' = max_entries ht \<and> key_equals_function ht' = key_equals_function ht \<and>
           key_hash_function ht' = key_hash_function ht \<and> size_index ht' = size_index ht"
proof -
  let ?ht' = "snd (mesa_hash_table_clear del ht)"
  have sz: "fst (snd (hash_sizes ! size_index ht)) = ht_size ht" using ht_invD(1) [OF assms] by (simp add: ht_sized_def)
  have "ht_sized ?ht'" "length (ht_table ?ht') = ht_N ?ht'" "equivp (key_equals_function ?ht')"
    using assms ht_invD(6) [OF assms]
    by (auto simp: mesa_hash_table_clear_def hash_table_clear_fast_def ht_inv_def ht_sized_def ht_N_def)
  moreover have "\<not> e_present e \<and> \<not> e_deleted e" if "e \<in> set (ht_table ?ht')" for e
    using that ht_invD(6) [OF assms]
    by (auto simp: mesa_hash_table_clear_def hash_table_clear_fast_def sz ht_N_def zero_entry_def split: if_splits)
  ultimately show "ht_inv ?ht'" and "ht_map ?ht' h k = None"
    using ht_inv_empty [of ?ht'] by (simp_all add: mesa_hash_table_clear_def hash_table_clear_fast_def)
  show "mesa_hash_table_clear del ht = (l, ht') \<Longrightarrow> entries ht' = 0 \<and> deleted_entries ht' = 0 \<and>
           max_entries ht' = max_entries ht \<and> key_equals_function ht' = key_equals_function ht \<and>
           key_hash_function ht' = key_hash_function ht \<and> size_index ht' = size_index ht"
    by (auto simp: mesa_hash_table_clear_def hash_table_clear_fast_def split: if_splits)
qed

section \<open>Rehashing\<close>

text \<open>The entries of a table as triples; they determine the mapping.\<close>

definition triple :: "hash_entry \<Rightarrow> u32 \<times> ptr \<times> ptr" where
  "triple e = (e_hash e, e_key e, e_data e)"

definition contents :: "hash_table \<Rightarrow> (u32 \<times> ptr \<times> ptr) set" where
  "contents ht = triple ` {e \<in> set (ht_table ht). e_present e}"

definition same_key :: "(ptr \<Rightarrow> ptr \<Rightarrow> bool) \<Rightarrow> hash_entry \<Rightarrow> hash_entry \<Rightarrow> bool" where
  "same_key eq e e' = (e_hash e = e_hash e' \<and> eq (e_key e) (e_key e'))"

lemma contents_iff:
  "(h, k, d) \<in> contents ht \<longleftrightarrow>
     (\<exists>i < length (ht_table ht). e_present (ht_table ht ! i) \<and> triple (ht_table ht ! i) = (h, k, d))"
  by (auto simp: contents_def in_set_conv_nth image_iff)

lemma ht_map_contents:
  assumes "equivp (key_equals_function ht)" and "uniq (key_equals_function ht) (slots ht)"
  shows "ht_map ht h k = Some d \<longleftrightarrow> (\<exists>k'. (h, k', d) \<in> contents ht \<and> key_equals_function ht k k')"
    (is "?L \<longleftrightarrow> ?R")
proof
  assume ?L
  then obtain e where "lookup_entry ht h k = Some e" "e_data e = d" by (auto simp: ht_map_def)
  then show ?R
    unfolding lookup_entry_def find_Some_iff contents_iff triple_def by auto
next
  assume ?R
  then obtain k' i where i: "i < length (ht_table ht)" "e_present (ht_table ht ! i)" "triple (ht_table ht ! i) = (h, k', d)"
    "key_equals_function ht k k'" by (auto simp: contents_iff)
  have "lookup_entry ht h k = Some (ht_table ht ! i)"
    unfolding lookup_entry_def
  proof (rule find_unique [OF i(1)])
    fix j assume j: "j < length (ht_table ht)"
      "e_present (ht_table ht ! j) \<and> e_hash (ht_table ht ! j) = h \<and> key_equals_function ht k (e_key (ht_table ht ! j))"
    then have "key_equals_function ht (e_key (ht_table ht ! j)) k'"
      using assms(1) i(4) by (meson equivp_symp equivp_transp)
    then show "j = i" using assms(2) j i unfolding uniq_def by (auto simp: slots_nth slot_of_def triple_def)
  qed (use i in \<open>auto simp: triple_def\<close>)
  then show ?L using i by (simp add: ht_map_def triple_def)
qed

lemma ht_map_eqI:
  assumes "equivp (key_equals_function ht)" and "uniq (key_equals_function ht) (slots ht)"
    and "key_equals_function ht' = key_equals_function ht" and "uniq (key_equals_function ht') (slots ht')"
    and "contents ht' = contents ht"
  shows "ht_map ht' = ht_map ht"
proof (intro ext)
  fix h k
  have "\<And>d. ht_map ht' h k = Some d \<longleftrightarrow> ht_map ht h k = Some d"
    using ht_map_contents [of ht] ht_map_contents [of ht'] assms by simp
  then show "ht_map ht' h k = ht_map ht h k" by (metis not_None_eq)
qed

text \<open>A table under construction: no deletion marks, counters not set yet.\<close>

definition filling :: "hash_table \<Rightarrow> bool" where
  "filling ht =
     (ht_sized ht \<and> equivp (key_equals_function ht) \<and> placed (ht_N ht) (ht_R ht) (slots ht) \<and>
      uniq (key_equals_function ht) (slots ht) \<and> (\<forall>e \<in> set (ht_table ht). \<not> e_deleted e))"

lemma fill_probe:
  assumes "filling ht" and "length (filter e_present (ht_table ht)) < ht_N ht"
  obtains j where "j < ht_N ht"
    and "probe_loop (\<lambda>a. False) (ht_size ht) (double_hash ht h)
           (\<lambda>i u. if \<not> e_present (ht_table ht ! i) then Inl i else Inr ()) (start_address ht h) () =
         Some (Inl (visit (ht_N ht) (ht_R ht) h j))"
    and "\<not> e_present (ht_table ht ! visit (ht_N ht) (ht_R ht) h j)"
    and "\<forall>j' < j. slots ht ! visit (ht_N ht) (ht_R ht) h j' \<noteq> Free"
proof -
  have sz: "ht_sized ht" and l: "length (ht_table ht) = ht_N ht"
    using assms(1) placed_length [of _ _ "slots ht"] by (auto simp: filling_def)
  note g = ht_sized_good(1) [OF sz]
  have "\<not> (\<forall>i < length (ht_table ht). e_present (ht_table ht ! i))"
    using assms(2) l filter_all_length [of "ht_table ht" e_present] by auto
  then obtain i where i: "i < ht_N ht" "\<not> is_full (slots ht ! i)" using l by (auto simp: slots_nth)
  obtain j where j: "j < ht_N ht"
      "probe_list (fill_body (slots ht)) (map (visit (ht_N ht) (ht_R ht) h) [0 ..< ht_N ht]) () = Inl (visit (ht_N ht) (ht_R ht) h j)"
      "\<not> is_full (slots ht ! visit (ht_N ht) (ht_R ht) h j)" "\<forall>j' < j. is_full (slots ht ! visit (ht_N ht) (ht_R ht) h j')"
    by (rule fill_result [OF g i])
  let ?b = "\<lambda>i u. if \<not> e_present (ht_table ht ! i) then Inl i else Inr ()"
  have "probe_list ?b (map (visit (ht_N ht) (ht_R ht) h) [0 ..< ht_N ht]) () = Inl (visit (ht_N ht) (ht_R ht) h j)"
    unfolding j(2) [symmetric] using visit_lt [OF g] l by (intro probe_list_cong) (auto simp: slots_nth)
  then have "probe_loop (\<lambda>a. False) (ht_size ht) (double_hash ht h) ?b (start_address ht h) () =
      Some (Inl (visit (ht_N ht) (ht_R ht) h j))"
    using g visit_step(2) [OF g, of h] geometry_pos [OF g] double_hash_unat [OF sz, of h] start_address_unat [OF sz, of h]
    by (intro probe_loop_forever [where i = 0 and ?s0.0 = "unat h mod ht_N ht"])
       (auto simp: geometry_def visit_def ht_N_def [symmetric] pos_def)
  then show thesis
    using that [OF j(1)] j(3,4) visit_lt [OF g] l by (metis is_full.simps(2) slot_of_simps(1) slots_nth)
qed

lemma contents_put:
  assumes "i < length (ht_table ht)" and "\<not> e_present (ht_table ht ! i)" and "e_present e"
  shows "contents (ht\<lparr>ht_table := (ht_table ht)[i := e]\<rparr>) = insert (triple e) (contents ht)"
proof (rule set_eqI)
  fix c :: "u32 \<times> ptr \<times> ptr"
  obtain h k d where c: "c = (h, k, d)" by (cases c)
  show "c \<in> contents (ht\<lparr>ht_table := (ht_table ht)[i := e]\<rparr>) \<longleftrightarrow> c \<in> insert (triple e) (contents ht)"
    unfolding c insert_iff contents_iff using assms
    by (auto simp: nth_list_update)
qed

lemma insert_rehash_step:
  assumes f: "filling ht" and c: "length (filter e_present (ht_table ht)) < ht_N ht" and e: "e_present e"
    and new: "\<And>e'. e' \<in> set (ht_table ht) \<Longrightarrow> e_present e' \<Longrightarrow> \<not> same_key (key_equals_function ht) e e'"
  obtains tbl where "hash_table_insert_rehash e ht = Some (ht\<lparr>ht_table := tbl\<rparr>)"
    and "filling (ht\<lparr>ht_table := tbl\<rparr>)"
    and "contents (ht\<lparr>ht_table := tbl\<rparr>) = insert (triple e) (contents ht)"
    and "length (filter e_present tbl) = length (filter e_present (ht_table ht)) + 1"
proof -
  have sz: "ht_sized ht" and l: "length (ht_table ht) = ht_N ht" and pl: "placed (ht_N ht) (ht_R ht) (slots ht)"
    and un: "uniq (key_equals_function ht) (slots ht)" and eqv: "equivp (key_equals_function ht)"
    and nd: "\<And>e. e \<in> set (ht_table ht) \<Longrightarrow> \<not> e_deleted e"
    using f placed_length [of _ _ "slots ht"] by (auto simp: filling_def)
  note g = ht_sized_good(1) [OF sz]
  let ?h = "e_hash e"
  obtain j where j: "j < ht_N ht"
      "probe_loop (\<lambda>a. False) (ht_size ht) (double_hash ht ?h)
         (\<lambda>i u. if \<not> e_present (ht_table ht ! i) then Inl i else Inr ()) (start_address ht ?h) () =
       Some (Inl (visit (ht_N ht) (ht_R ht) ?h j))"
      "\<not> e_present (ht_table ht ! visit (ht_N ht) (ht_R ht) ?h j)"
      "\<forall>j' < j. slots ht ! visit (ht_N ht) (ht_R ht) ?h j' \<noteq> Free"
    by (rule fill_probe [OF f c])
  define i where "i = visit (ht_N ht) (ht_R ht) ?h j"
  have i: "i < ht_N ht" unfolding i_def by (rule visit_lt [OF g])
  define e' where "e' = (ht_table ht ! i)\<lparr>e_hash := ?h, e_key := e_key e, e_data := e_data e, e_present := True\<rparr>"
  define tbl where "tbl = (ht_table ht)[i := e']"
  have e': "slot_of e' = Full ?h (e_key e)" "triple e' = triple e" "e_present e'" "\<not> e_deleted e'"
    using nd [of "ht_table ht ! i"] i l by (simp_all add: e'_def slot_of_def triple_def)
  have sl: "slots (ht\<lparr>ht_table := tbl\<rparr>) = (slots ht)[i := Full ?h (e_key e)]"
    unfolding tbl_def slots_update e'(1) ..
  have nm: "\<not> matches (key_equals_function ht) ?h (e_key e) (slots ht ! i')" if "i' < length (slots ht)" for i'
    using new [of "ht_table ht ! i'"] that by (auto simp: slots_nth same_key_def)
  show thesis
  proof (rule that [of tbl])
    show "hash_table_insert_rehash e ht = Some (ht\<lparr>ht_table := tbl\<rparr>)"
      by (simp add: hash_table_insert_rehash_def j(2) i_def [symmetric] tbl_def e'_def)
    have "placed (ht_N ht) (ht_R ht) ((slots ht)[i := Full ?h (e_key e)])"
      unfolding i_def by (rule placed_full [OF pl g j(1,4)])
    moreover have "uniq (key_equals_function ht) ((slots ht)[i := Full ?h (e_key e)])"
      using nm by (intro uniq_full [OF un equivp_symp_rel [OF eqv]]) auto
    moreover have "\<forall>e \<in> set tbl. \<not> e_deleted e"
      using nd e'(4) set_update_subset_insert [of "ht_table ht" i e'] by (auto simp: tbl_def)
    ultimately show "filling (ht\<lparr>ht_table := tbl\<rparr>)"
      using sz eqv sl by (simp add: filling_def ht_N_def ht_R_def ht_sized_def)
    show "contents (ht\<lparr>ht_table := tbl\<rparr>) = insert (triple e) (contents ht)"
      unfolding tbl_def e'(2) [symmetric] using i l j(3) e'(3) by (intro contents_put) (auto simp: i_def)
    show "length (filter e_present tbl) = length (filter e_present (ht_table ht)) + 1"
      using filter_update_length [of i "ht_table ht" e_present e'] i l j(3) e'(3) by (simp add: tbl_def i_def)
  qed
qed

lemma same_key_contents:
  assumes "triple e' \<in> contents ht"
  obtains e'' where "e'' \<in> set (ht_table ht)" "e_present e''" "triple e'' = triple e'"
  using assms by (auto simp: contents_def)

lemma insert_rehash_all_spec:
  assumes "filling ht" and "length (filter e_present (ht_table ht)) + length es \<le> ht_N ht"
    and "\<And>e. e \<in> set es \<Longrightarrow> e_present e"
    and "sorted_wrt (\<lambda>e e'. \<not> same_key (key_equals_function ht) e e') es"
    and "\<And>e e'. e \<in> set es \<Longrightarrow> e' \<in> set (ht_table ht) \<Longrightarrow> e_present e' \<Longrightarrow> \<not> same_key (key_equals_function ht) e e'"
  shows "\<exists>tbl. insert_rehash_all es ht = Some (ht\<lparr>ht_table := tbl\<rparr>) \<and> filling (ht\<lparr>ht_table := tbl\<rparr>) \<and>
           contents (ht\<lparr>ht_table := tbl\<rparr>) = contents ht \<union> triple ` set es \<and>
           length (filter e_present tbl) = length (filter e_present (ht_table ht)) + length es"
  using assms
proof (induction es arbitrary: ht)
  case Nil
  then show ?case by (intro exI [of _ "ht_table ht"]) simp
next
  case (Cons e es)
  let ?eq = "key_equals_function ht"
  have c: "length (filter e_present (ht_table ht)) < ht_N ht" using Cons.prems(2) by simp
  have p: "e_present e" using Cons.prems(3) by simp
  have n: "\<And>e'. e' \<in> set (ht_table ht) \<Longrightarrow> e_present e' \<Longrightarrow> \<not> same_key ?eq e e'" using Cons.prems(5) by simp
  obtain tbl where t: "hash_table_insert_rehash e ht = Some (ht\<lparr>ht_table := tbl\<rparr>)" "filling (ht\<lparr>ht_table := tbl\<rparr>)"
      "contents (ht\<lparr>ht_table := tbl\<rparr>) = insert (triple e) (contents ht)"
      "length (filter e_present tbl) = length (filter e_present (ht_table ht)) + 1"
    using insert_rehash_step [OF Cons.prems(1) c p n] by blast
  have sym: "\<And>a b. ?eq a b \<Longrightarrow> ?eq b a" using Cons.prems(1) by (auto simp: filling_def dest: equivp_symp)
  have new: "\<not> same_key ?eq e1 e2" if "e1 \<in> set es" "e2 \<in> set tbl" "e_present e2" for e1 e2
  proof -
    have "triple e2 \<in> insert (triple e) (contents ht)" using that(2,3) t(3) by (auto simp: contents_def)
    then consider "triple e2 = triple e" | e3 where "e3 \<in> set (ht_table ht)" "e_present e3" "triple e3 = triple e2"
      by (auto simp: contents_def)
    then show ?thesis
      using Cons.prems(4,5) that(1) sym by cases (auto simp: triple_def same_key_def, metis)
  qed
  have "\<exists>tbl'. insert_rehash_all es (ht\<lparr>ht_table := tbl\<rparr>) = Some (ht\<lparr>ht_table := tbl\<rparr>\<lparr>ht_table := tbl'\<rparr>) \<and>
      filling (ht\<lparr>ht_table := tbl\<rparr>\<lparr>ht_table := tbl'\<rparr>) \<and>
      contents (ht\<lparr>ht_table := tbl\<rparr>\<lparr>ht_table := tbl'\<rparr>) = contents (ht\<lparr>ht_table := tbl\<rparr>) \<union> triple ` set es \<and>
      length (filter e_present tbl') = length (filter e_present (ht_table (ht\<lparr>ht_table := tbl\<rparr>))) + length es"
    using Cons.prems t(2,4) new by (intro Cons.IH) (auto simp: ht_N_def)
  then show ?case using t by (auto simp: insert_commute)
qed

lemma foreach_distinct:
  assumes "ht_inv ht"
  shows "sorted_wrt (\<lambda>e e'. \<not> same_key (key_equals_function ht) e e') (foreach ht)"
proof -
  have "sorted_wrt (\<lambda>e e'. e_present e \<longrightarrow> e_present e' \<longrightarrow> \<not> same_key (key_equals_function ht) e e') (ht_table ht)"
    unfolding sorted_wrt_iff_nth_less
  proof (intro allI impI)
    fix i j assume ij: "i < j" "j < length (ht_table ht)" "e_present (ht_table ht ! i)" "e_present (ht_table ht ! j)"
    show "\<not> same_key (key_equals_function ht) (ht_table ht ! i) (ht_table ht ! j)"
    proof
      assume "same_key (key_equals_function ht) (ht_table ht ! i) (ht_table ht ! j)"
      then have "slots ht ! i = Full (e_hash (ht_table ht ! i)) (e_key (ht_table ht ! i))"
        and "slots ht ! j = Full (e_hash (ht_table ht ! i)) (e_key (ht_table ht ! j))"
        and "key_equals_function ht (e_key (ht_table ht ! i)) (e_key (ht_table ht ! j))"
        using ij by (simp_all add: slots_nth slot_of_def same_key_def)
      moreover have "i < length (slots ht)" "j < length (slots ht)" using ij by simp_all
      ultimately have "i = j" using ht_invD(5) [OF assms] unfolding uniq_def by blast
      then show False using ij by simp
    qed
  qed
  then have "sorted_wrt (\<lambda>e e'. e_present e \<longrightarrow> e_present e' \<longrightarrow> \<not> same_key (key_equals_function ht) e e') (foreach ht)"
    unfolding foreach_def by (rule sorted_wrt_filter)
  then show ?thesis
    by (rule sorted_wrt_mono_rel [rotated]) (simp add: foreach_def)
qed

text \<open>What a table and the same table with other storage have in common.\<close>

definition same_map :: "hash_table \<Rightarrow> hash_table \<Rightarrow> bool" where
  "same_map ht ht' =
     (ht_map ht' = ht_map ht \<and> key_equals_function ht' = key_equals_function ht \<and>
      key_hash_function ht' = key_hash_function ht \<and> entries ht' = entries ht)"

lemma fresh_filling:
  assumes "new < 27" and "equivp (key_equals_function ht)" and "ht0 = set_sizes new ht"
    and "ht1 = ht0\<lparr>ht_table := replicate (unat (ht_size ht0)) zero_entry, ht_inline := False, entries := 0, deleted_entries := 0\<rparr>"
  shows "filling ht1" and "contents ht1 = {}" and "filter e_present (ht_table ht1) = []"
    and "key_equals_function ht1 = key_equals_function ht" and "key_hash_function ht1 = key_hash_function ht"
    and "size_index ht1 = new" and "max_entries ht1 = fst (hash_sizes ! new)" and "\<And>e. e \<in> set (ht_table ht1) \<Longrightarrow> \<not> e_present e"
proof -
  have s: "slots ht1 = replicate (ht_N ht1) Free" unfolding assms(4) slots_def ht_N_def by (simp add: zero_entry_def)
  have "ht_sized ht1" unfolding assms(3,4) ht_sized_def using assms(1) by (simp add: set_sizes_def split: prod.splits)
  then show "filling ht1"
    unfolding filling_def s using assms(2-4) placed_empty [of "ht_N ht1" "ht_R ht1"] uniq_empty
    by (auto simp: set_sizes_def zero_entry_def split: prod.splits)
  show "contents ht1 = {}" "filter e_present (ht_table ht1) = []" "\<And>e. e \<in> set (ht_table ht1) \<Longrightarrow> \<not> e_present e"
    by (auto simp: assms(4) contents_def zero_entry_def)
  show "key_equals_function ht1 = key_equals_function ht" "key_hash_function ht1 = key_hash_function ht"
    "size_index ht1 = new" "max_entries ht1 = fst (hash_sizes ! new)"
    by (auto simp: assms(3,4) set_sizes_def split: prod.splits)
qed

lemma filled_inv:
  assumes "filling ht" and "unat n = length (filter e_present (ht_table ht))" and "deleted_entries ht = 0"
  shows "ht_inv (ht\<lparr>entries := n\<rparr>)"
proof -
  have "filter (\<lambda>e. \<not> e_present e \<and> e_deleted e) (ht_table ht) = []" using assms(1) by (auto simp: filling_def filter_empty_conv)
  then show ?thesis using assms
    by (simp add: filling_def ht_inv_def slots_def ht_N_def ht_R_def ht_sized_def)
qed

lemma rehash_spec:
  assumes inv: "ht_inv ht" and new: "new < 27" and ok: "\<And>n. alloc n"
    and nc: "\<not> (size_index ht = new \<and> deleted_entries ht = max_entries ht)"
    and room: "entries ht \<le> fst (hash_sizes ! new)"
  obtains ht' where "mesa_hash_table_rehash alloc new ht = Some ht'" and "ht_inv ht'" and "same_map ht ht'"
    and "size_index ht' = new" and "max_entries ht' = fst (hash_sizes ! new)" and "deleted_entries ht' = 0"
proof -
  define ht0 where "ht0 = set_sizes new ht"
  define ht1 where "ht1 = ht0\<lparr>ht_table := replicate (unat (ht_size ht0)) zero_entry, ht_inline := False, entries := 0, deleted_entries := 0\<rparr>"
  have eqv: "equivp (key_equals_function ht)" using inv by (simp add: ht_inv_def)
  note f = fresh_filling [OF new eqv ht0_def ht1_def]
  have n: "unat (entries ht) = length (foreach ht)" using inv by (simp add: ht_inv_def foreach_def)
  have "unat (entries ht) \<le> ht_N ht1"
    using room ht_sized_good(2) [of ht1] f(1,7) by (simp add: filling_def word_le_nat_alt)
  then have c: "length (filter e_present (ht_table ht1)) + length (foreach ht) \<le> ht_N ht1" using f(3) n by simp
  obtain tbl where t: "insert_rehash_all (foreach ht) ht1 = Some (ht1\<lparr>ht_table := tbl\<rparr>)" "filling (ht1\<lparr>ht_table := tbl\<rparr>)"
      "contents (ht1\<lparr>ht_table := tbl\<rparr>) = contents ht1 \<union> triple ` set (foreach ht)"
      "length (filter e_present tbl) = length (filter e_present (ht_table ht1)) + length (foreach ht)"
    using insert_rehash_all_spec [OF f(1) c] foreach_distinct [OF inv] f(4,8) by (fastforce simp: foreach_def)
  let ?ht' = "ht1\<lparr>ht_table := tbl, entries := entries ht\<rparr>"
  have d0: "deleted_entries ht1 = 0" by (simp add: ht1_def)
  have "\<not> 28 \<le> new" using new by simp
  then have r: "mesa_hash_table_rehash alloc new ht = Some ?ht'"
    unfolding mesa_hash_table_rehash_def using nc ok t(1) ht0_def ht1_def by (auto simp: hash_sizes_length)
  have inv': "ht_inv ?ht'" using filled_inv [OF t(2), of "entries ht"] t(4) f(3) n d0 by simp
  have "contents ?ht' = contents (ht1\<lparr>ht_table := tbl\<rparr>)" by (simp add: contents_def)
  also have "\<dots> = contents ht" using t(3) f(2) by (simp add: foreach_def contents_def [of ht])
  finally have "contents ?ht' = contents ht" .
  then have "ht_map ?ht' = ht_map ht"
    using f(4) ht_invD(5) [OF inv'] by (intro ht_map_eqI [OF eqv ht_invD(5) [OF inv]]) auto
  then show thesis using that [OF r inv'] f(4-7) d0 by (auto simp: same_map_def)
qed

lemma max_entries_26: "fst (hash_sizes ! 26) = 1073741824"
  by (simp add: hash_sizes_def)

lemma max_entries_of: "ht_sized ht \<Longrightarrow> max_entries ht = fst (hash_sizes ! size_index ht)"
  by (simp add: ht_sized_def)

text \<open>
  With the load kept at most \<open>max_entries\<close>, a table with as many deletion marks as
  \<open>max_entries\<close> has no entries, so that clearing it in place loses nothing.
\<close>

lemma rehash_in_place:
  assumes inv: "ht_inv ht" and ld: "ht_loaded ht" and d: "deleted_entries ht = max_entries ht"
  obtains ht' where "mesa_hash_table_rehash alloc (size_index ht) ht = Some ht'" and "ht_inv ht'" and "same_map ht ht'"
    and "size_index ht' = size_index ht" and "max_entries ht' = max_entries ht" and "deleted_entries ht' = 0"
proof -
  let ?ht' = "snd (mesa_hash_table_clear False ht)"
  have e: "?ht' = hash_table_clear_fast ht" by (simp add: mesa_hash_table_clear_def)
  note c = clear_inv [OF inv, of False]
  have "unat (entries ht) = 0" using ld d by (simp add: ht_loaded_def)
  then have n: "entries ht = 0" by (simp add: unat_eq_zero)
  have "filter e_present (ht_table ht) = []" using inv n by (simp add: ht_inv_def)
  then have "ht_map ht h k = None" for h k
    by (auto simp: ht_map_def lookup_entry_def find_None_iff filter_empty_conv)
  then have "same_map ht ?ht'"
    using c(2,3) n by (simp add: same_map_def fun_eq_iff e) (simp add: hash_table_clear_fast_def)
  moreover have "mesa_hash_table_rehash alloc (size_index ht) ht = Some ?ht'"
    using d by (simp add: mesa_hash_table_rehash_def e) (simp add: hash_table_clear_fast_def)
  ultimately show thesis using that c(1) by (simp add: e hash_table_clear_fast_def)
qed

lemma same_map_refl [simp]: "same_map ht ht"
  by (simp add: same_map_def)

lemma make_room_spec:
  assumes inv: "ht_inv ht" and ld: "ht_loaded ht" and ok: "\<And>n. alloc n" and small: "unat (entries ht) < 2 ^ 30"
  obtains ht' where "make_room alloc ht = Some ht'" and "ht_inv ht'" and "same_map ht ht'"
    and "unat (entries ht') + unat (deleted_entries ht') < unat (max_entries ht')"
proof -
  note sz = ht_invD(1) [OF inv] and mx = max_entries_of [OF ht_invD(1) [OF inv]]
  have sum: "unat (deleted_entries ht + entries ht) = unat (entries ht) + unat (deleted_entries ht)"
  proof -
    have "unat (max_entries ht) < 2 ^ 31" using ht_sized_good(1,2) [OF sz] by (simp add: geometry_def)
    then show ?thesis using ld by (simp add: ht_loaded_def unat_word_ariths)
  qed
  consider (grow) "max_entries ht \<le> entries ht"
    | (again) "\<not> max_entries ht \<le> entries ht" "max_entries ht \<le> deleted_entries ht + entries ht"
    | (fits) "\<not> max_entries ht \<le> entries ht" "\<not> max_entries ht \<le> deleted_entries ht + entries ht" by blast
  then show thesis
  proof cases
    case grow
    then have "size_index ht \<noteq> 26" using small mx by (auto simp: max_entries_26 word_le_nat_alt)
    then have i: "size_index ht + 1 < 27" using sz by (simp add: ht_sized_def)
    have lt: "max_entries ht < fst (hash_sizes ! (size_index ht + 1))" using hash_sizes_mono [of "size_index ht" "size_index ht + 1"] i mx by simp
    moreover have "entries ht \<le> max_entries ht" using ld by (simp add: ht_loaded_def word_le_nat_alt)
    ultimately have "entries ht \<le> fst (hash_sizes ! (size_index ht + 1))" by simp
    then obtain ht' where r: "mesa_hash_table_rehash alloc (size_index ht + 1) ht = Some ht'" "ht_inv ht'" "same_map ht ht'"
      "max_entries ht' = fst (hash_sizes ! (size_index ht + 1))" "deleted_entries ht' = 0"
      using rehash_spec [of ht "size_index ht + 1" alloc] inv i ok by auto
    moreover have "unat (entries ht) < unat (fst (hash_sizes ! (size_index ht + 1)))"
      using lt \<open>entries ht \<le> max_entries ht\<close> by (simp add: word_le_nat_alt word_less_nat_alt)
    ultimately show thesis using that [of ht'] grow by (simp add: make_room_def same_map_def)
  next
    case again
    have "\<exists>ht'. mesa_hash_table_rehash alloc (size_index ht) ht = Some ht' \<and> ht_inv ht' \<and> same_map ht ht' \<and>
        max_entries ht' = max_entries ht \<and> deleted_entries ht' = 0"
    proof (cases "deleted_entries ht = max_entries ht")
      case True
      show ?thesis using rehash_in_place [OF inv ld True] by metis
    next
      case False
      then show ?thesis
        using rehash_spec [of ht "size_index ht" alloc] inv ok sz mx again(1) by (auto simp: ht_sized_def) (metis linear)
    qed
    then show thesis using that again by (auto simp: make_room_def same_map_def word_le_nat_alt)
  next
    case fits
    then show thesis using that [of ht] inv sum by (simp add: make_room_def word_le_nat_alt)
  qed
qed

lemma insert_spec:
  assumes inv: "ht_inv ht" and ld: "ht_loaded ht" and ok: "\<And>n. alloc n" and small: "unat (entries ht) < 2 ^ 30"
  obtains i ht' where "hash_table_insert alloc h k d ht = Some (Some i, ht')" and "ht_inv ht'" and "ht_loaded ht'"
    and "ht_map ht' = (\<lambda>h' k'. if h' = h \<and> key_equals_function ht k k' then Some d else ht_map ht h' k')"
    and "key_equals_function ht' = key_equals_function ht" and "key_hash_function ht' = key_hash_function ht"
    and "unat (entries ht') \<le> unat (entries ht) + 1"
proof -
  obtain hr where r: "make_room alloc ht = Some hr" "ht_inv hr" "same_map ht hr"
    "unat (entries hr) + unat (deleted_entries hr) < unat (max_entries hr)"
    by (rule make_room_spec [OF inv ld ok small])
  have "unat (entries hr) \<noteq> ht_N hr" using r(4) ht_sized_good(2) [OF ht_invD(1) [OF r(2)]] by linarith
  then obtain i ht' where i: "hash_table_insert alloc h k d ht = Some (Some i, ht')" "inserted h k d hr ht'"
    using insert_in_room [OF r(1,2), of h k d] by auto
  have s: "ht_map hr = ht_map ht" "key_equals_function hr = key_equals_function ht"
      "key_hash_function hr = key_hash_function ht" "entries hr = entries ht" using r(3) by (simp_all add: same_map_def)
  note p = i(2) [unfolded inserted_def s]
  have "ht_loaded ht'" using p r(4) s(4) by (simp add: ht_loaded_def)
  then show thesis using that [OF i(1)] p by blast
qed

lemma reserve_spec:
  assumes inv: "ht_inv ht" and ld: "ht_loaded ht" and ok: "\<And>n. alloc n" and sz: "unat sz < 2 ^ 30"
  obtains ht' where "mesa_hash_table_reserve alloc sz ht = Some (True, ht')" and "ht_inv ht'" and "ht_loaded ht'"
    and "same_map ht ht'" and "sz \<le> max_entries ht'"
proof (cases "sz < max_entries ht")
  case True
  then show thesis using that [of ht] inv ld by (simp add: mesa_hash_table_reserve_def)
next
  case False
  let ?is = "[size_index ht + 1 ..< length hash_sizes]" and ?p = "\<lambda>i. sz \<le> fst (hash_sizes ! i)"
  note mx = max_entries_of [OF ht_invD(1) [OF inv]]
  have idx: "size_index ht < 27" using ht_invD(1) [OF inv] by (simp add: ht_sized_def)
  have p26: "?p 26" using sz by (simp add: max_entries_26 word_le_nat_alt)
  have "size_index ht \<noteq> 26" using False mx sz by (auto simp: max_entries_26 word_less_nat_alt)
  then have r26: "26 \<in> set ?is" using idx by (simp add: hash_sizes_length)
  then obtain i where i: "find ?p ?is = Some i" using p26 by (metis find_None_iff not_None_eq)
  then obtain n where n: "n < length ?is" "?p i" "i = ?is ! n" "\<forall>m < n. \<not> ?p (?is ! m)"
    by (auto simp: find_Some_iff)
  have in': "i = size_index ht + 1 + n" using n(1,3) by (simp add: hash_sizes_length)
  have le: "i \<le> 26"
  proof (rule ccontr)
    assume "\<not> i \<le> 26"
    then have "26 - (size_index ht + 1) < n" "?is ! (26 - (size_index ht + 1)) = 26"
      using in' r26 by (auto simp: hash_sizes_length)
    then show False using n(4) p26 by metis
  qed
  have lt: "max_entries ht < fst (hash_sizes ! i)" using hash_sizes_mono [of "size_index ht" i] in' le mx by simp
  have "entries ht \<le> max_entries ht" using ld by (simp add: ht_loaded_def word_le_nat_alt)
  then have en: "entries ht \<le> fst (hash_sizes ! i)" using lt by simp
  have nw: "i < 27" and nc: "\<not> (size_index ht = i \<and> deleted_entries ht = max_entries ht)" using le in' by auto
  obtain ht' where r: "mesa_hash_table_rehash alloc i ht = Some ht'" "ht_inv ht'" "same_map ht ht'"
      "max_entries ht' = fst (hash_sizes ! i)" "deleted_entries ht' = 0"
    by (rule rehash_spec [where alloc = alloc and new = i, OF inv nw ok nc en])
  have ld': "ht_loaded ht'" using r(3-5) en by (simp add: ht_loaded_def same_map_def word_le_nat_alt)
  have "mesa_hash_table_reserve alloc sz ht = Some (True, ht')"
    unfolding mesa_hash_table_reserve_def using False i r(1,4) n(2) by simp
  then show thesis using that r(2-4) ld' n(2) by simp
qed

section \<open>The table as a map\<close>

text \<open>
  A client's operations, the map they are meant to act on (keys are taken up to the table's
  equality), and the lookup through the table's own search.
\<close>

datatype ht_op = HInsert ptr ptr | HRemove ptr | HClear bool | HReserve u32

definition ht_step :: "(nat \<Rightarrow> bool) \<Rightarrow> ht_op \<Rightarrow> hash_table \<Rightarrow> hash_table option" where
  "ht_step alloc x ht =
     (case x of
        HInsert k d \<Rightarrow> map_option snd (mesa_hash_table_insert alloc k d ht)
      | HRemove k \<Rightarrow> mesa_hash_table_remove_key k ht
      | HClear del \<Rightarrow> Some (snd (mesa_hash_table_clear del ht))
      | HReserve n \<Rightarrow> map_option snd (mesa_hash_table_reserve alloc n ht))"

definition ht_get :: "hash_table \<Rightarrow> ptr \<Rightarrow> ptr option option" where
  "ht_get ht k = map_option (map_option (\<lambda>i. e_data (ht_table ht ! i))) (mesa_hash_table_search ht k)"

type_synonym key_map = "(ptr \<Rightarrow> ptr \<Rightarrow> bool) \<times> (ptr \<Rightarrow> ptr option)"

definition ht_spec :: "ht_op \<Rightarrow> key_map \<Rightarrow> key_map" where
  "ht_spec x = (\<lambda>(eq, m).
     (eq, case x of
            HInsert k d \<Rightarrow> (\<lambda>k'. if eq k k' then Some d else m k')
          | HRemove k \<Rightarrow> (\<lambda>k'. if eq k k' then None else m k')
          | HClear del \<Rightarrow> (\<lambda>k'. None)
          | HReserve n \<Rightarrow> m))"

definition ht_abs :: "hash_table \<Rightarrow> key_map" where
  "ht_abs ht = (key_equals_function ht, \<lambda>k. case key_hash_function ht of None \<Rightarrow> None | Some f \<Rightarrow> ht_map ht (f k) k)"

text \<open>The hash function respects the equality of keys.\<close>

definition hash_respects :: "(ptr \<Rightarrow> u32) \<Rightarrow> (ptr \<Rightarrow> ptr \<Rightarrow> bool) \<Rightarrow> bool" where
  "hash_respects f eq = (\<forall>a b. eq a b \<longrightarrow> f a = f b)"

definition ht_run_inv :: "nat \<Rightarrow> hash_table \<Rightarrow> bool" where
  "ht_run_inv n ht =
     (ht_inv ht \<and> ht_loaded ht \<and> unat (entries ht) \<le> n \<and>
      (\<exists>f. key_hash_function ht = Some f \<and> hash_respects f (key_equals_function ht)))"

fun ht_allowed :: "ht_op \<Rightarrow> bool" where
  "ht_allowed (HReserve n) = (unat n < 2 ^ 30)"
| "ht_allowed x = True"

lemma ht_search_map:
  assumes "ht_inv ht" and "key_hash_function ht = Some f"
  shows "ht_get ht k = Some (ht_map ht (f k) k)"
  using hash_table_search_result [OF assms(1), of "f k" k] assms(2)
  by (auto simp: ht_get_def mesa_hash_table_search_def ht_map_def split: option.splits)

lemma ht_step_insert:
  assumes r: "ht_run_inv n ht" and n: "n < 2 ^ 30"
  shows "\<exists>ht'. ht_step (\<lambda>n. True) (HInsert k d) ht = Some ht' \<and> ht_run_inv (Suc n) ht' \<and> ht_abs ht' = ht_spec (HInsert k d) (ht_abs ht)"
proof -
  obtain f where f: "key_hash_function ht = Some f" "hash_respects f (key_equals_function ht)" and inv: "ht_inv ht" "ht_loaded ht"
    and e: "unat (entries ht) \<le> n" using r by (auto simp: ht_run_inv_def)
  have small: "unat (entries ht) < 2 ^ 30" using e n by linarith
  obtain i ht' where i: "hash_table_insert (\<lambda>n. True) (f k) k d ht = Some (Some i, ht')" "ht_inv ht'" "ht_loaded ht'"
      "ht_map ht' = (\<lambda>h' k'. if h' = f k \<and> key_equals_function ht k k' then Some d else ht_map ht h' k')"
      "key_equals_function ht' = key_equals_function ht" "key_hash_function ht' = key_hash_function ht"
      "unat (entries ht') \<le> unat (entries ht) + 1"
    by (rule insert_spec [OF inv TrueI small])
  have "ht_step (\<lambda>n. True) (HInsert k d) ht = Some ht'" using i(1) f(1) by (simp add: ht_step_def mesa_hash_table_insert_def)
  moreover have "ht_run_inv (Suc n) ht'" using i f e by (auto simp: ht_run_inv_def)
  moreover have "ht_abs ht' = ht_spec (HInsert k d) (ht_abs ht)"
    unfolding ht_abs_def ht_spec_def using i(4-6) f by (auto simp: fun_eq_iff hash_respects_def)
  ultimately show ?thesis by blast
qed

lemma ht_step_remove:
  assumes r: "ht_run_inv n ht"
  shows "\<exists>ht'. ht_step (\<lambda>n. True) (HRemove k) ht = Some ht' \<and> ht_run_inv (Suc n) ht' \<and> ht_abs ht' = ht_spec (HRemove k) (ht_abs ht)"
proof -
  obtain f where f: "key_hash_function ht = Some f" "hash_respects f (key_equals_function ht)" and inv: "ht_inv ht" "ht_loaded ht"
    and e: "unat (entries ht) \<le> n" using r by (auto simp: ht_run_inv_def)
  obtain entry where s: "hash_table_search ht (f k) k = Some entry"
    "case entry of
        None \<Rightarrow> lookup_entry ht (f k) k = None
      | Some i \<Rightarrow> i < length (ht_table ht) \<and> lookup_entry ht (f k) k = Some (ht_table ht ! i) \<and>
                  e_present (ht_table ht ! i) \<and> e_hash (ht_table ht ! i) = f k \<and>
                  key_equals_function ht k (e_key (ht_table ht ! i))"
    using hash_table_search_result [OF inv(1), of "f k" k] by blast
  have st: "ht_step (\<lambda>n. True) (HRemove k) ht = Some (mesa_hash_table_remove entry ht)"
    using s(1) f(1) by (simp add: ht_step_def mesa_hash_table_remove_key_def mesa_hash_table_search_def)
  show ?thesis
  proof (cases entry)
    case None
    have "ht_map ht (f k') k' = None" if "key_equals_function ht k k'" for k'
    proof -
      have "f k' = f k" using f(2) that by (auto simp: hash_respects_def)
      moreover have "lookup_entry ht (f k) k' = None"
        using s(2) that None inv(1) unfolding lookup_entry_def find_None_iff ht_inv_def
        by (auto dest: equivp_transp)
      ultimately show ?thesis by (simp add: ht_map_def)
    qed
    then have "ht_abs ht = ht_spec (HRemove k) (ht_abs ht)"
      using f by (auto simp: ht_abs_def ht_spec_def fun_eq_iff)
    then show ?thesis using st None r by (auto simp: mesa_hash_table_remove_def ht_run_inv_def)
  next
    case (Some i)
    have i: "i < ht_N ht" "e_present (ht_table ht ! i)" "e_hash (ht_table ht ! i) = f k"
      "key_equals_function ht k (e_key (ht_table ht ! i))" using s(2) Some ht_invD(6) [OF inv(1)] by auto
    note rm = remove_inv [OF inv(1) i(1,2)] and lk = lookup_entry_remove [OF inv(1) i]
    have "ht_run_inv (Suc n) (mesa_hash_table_remove (Some i) ht)"
      using rm inv(2) e f by (auto simp: ht_run_inv_def ht_loaded_def)
    moreover have "ht_abs (mesa_hash_table_remove (Some i) ht) = ht_spec (HRemove k) (ht_abs ht)"
      using f by (auto simp: ht_abs_def ht_spec_def fun_eq_iff ht_map_def lk hash_respects_def)
    ultimately show ?thesis using st Some by blast
  qed
qed

interpretation ht: bounded_refinement "ht_step (\<lambda>n. True)" ht_spec ht_abs ht_run_inv ht_allowed "2 ^ 30"
proof
  fix n ht x assume r: "ht_run_inv n ht" "n < 2 ^ 30" "ht_allowed x"
  then have inv: "ht_inv ht" "ht_loaded ht" "unat (entries ht) \<le> n" by (auto simp: ht_run_inv_def)
  show "\<exists>ht'. ht_step (\<lambda>n. True) x ht = Some ht' \<and> ht_run_inv (Suc n) ht' \<and> ht_abs ht' = ht_spec x (ht_abs ht)"
  proof (cases x)
    case (HInsert k d)
    then show ?thesis using ht_step_insert [OF r(1,2)] by simp
  next
    case (HRemove k)
    then show ?thesis using ht_step_remove [OF r(1)] by simp
  next
    case (HClear del)
    obtain l ht' where c: "mesa_hash_table_clear del ht = (l, ht')" by fastforce
    then show ?thesis
      using HClear r(1) clear_inv(1,2) [OF inv(1), of del] clear_inv(3) [OF inv(1) c]
      by (auto simp: ht_step_def ht_run_inv_def ht_loaded_def ht_abs_def ht_spec_def split: option.splits)
  next
    case (HReserve m)
    obtain ht' where m: "mesa_hash_table_reserve (\<lambda>n. True) m ht = Some (True, ht')" "ht_inv ht'" "ht_loaded ht'" "same_map ht ht'"
      using reserve_spec [OF inv(1,2) TrueI, of m] r(3) HReserve by auto
    then show ?thesis
      using HReserve r(1) by (auto simp: ht_step_def ht_run_inv_def same_map_def ht_abs_def ht_spec_def)
  qed
qed

text \<open>
  Property C25.  Hash tables refine maps: from an initialised table, with memory available, any
  run of at most \<open>2 ^ 30\<close> insertions, removals, clears and reservations ends without a failed
  assertion or an endless probe, and afterwards the search returns for every key what the map
  the operations are meant to build holds, keys being taken up to the table's equality.
\<close>
theorem hash_table_refines_map:
  assumes "equivp eq" and "hash_respects f eq" and "length xs \<le> 2 ^ 30" and "list_all ht_allowed xs"
  shows "\<exists>ht. run_ops (ht_step (\<lambda>n. True)) xs (mesa_hash_table_init (Some f) eq) = Some ht \<and>
           (\<forall>k. ht_get ht k = Some (snd (fold ht_spec xs (eq, \<lambda>k. None)) k))"
proof -
  let ?h0 = "mesa_hash_table_init (Some f) eq"
  have fn: "key_hash_function ?h0 = Some f" "key_equals_function ?h0 = eq" "entries ?h0 = 0" "deleted_entries ?h0 = 0"
    by (simp_all add: mesa_hash_table_init_def set_sizes_def split: prod.splits)
  then have "ht_run_inv 0 ?h0"
    using assms(2) hash_table_init_inv(1) [OF assms(1)] by (auto simp: ht_run_inv_def ht_loaded_def)
  then obtain ht where ht: "run_ops (ht_step (\<lambda>n. True)) xs ?h0 = Some ht" "ht_run_inv (length xs) ht"
      "ht_abs ht = fold ht_spec xs (ht_abs ?h0)"
    using ht.run_refines_init assms(3,4) by blast
  have "ht_abs ?h0 = (eq, \<lambda>k. None)"
    using fn hash_table_init_inv(2) [OF assms(1)] by (simp add: ht_abs_def)
  then have "snd (ht_abs ht) = snd (fold ht_spec xs (eq, \<lambda>k. None))" using ht(3) by simp
  moreover have "ht_get ht k = Some (snd (ht_abs ht) k)" for k
    using ht(2) ht_search_map [of ht] by (auto simp: ht_run_inv_def ht_abs_def)
  ultimately show ?thesis using ht(1) by auto
qed

lemma pointer_table_hyps: "equivp mesa_key_pointer_equal" "hash_respects mesa_hash_pointer mesa_key_pointer_equal"
  by (auto simp: mesa_key_pointer_equal_def hash_respects_def intro!: equivpI reflpI sympI transpI)

theorem hash_table_refines_map_witness:
  "\<exists>ht. run_ops (ht_step (\<lambda>n. True)) [HInsert 64 1, HInsert 128 2, HInsert 64 3, HRemove 128, HReserve 100] mesa_pointer_hash_table_init = Some ht \<and>
     ht_get ht 64 = Some (Some 3) \<and> ht_get ht 128 = Some None"
proof -
  let ?xs = "[HInsert 64 1, HInsert 128 2, HInsert 64 3, HRemove 128, HReserve 100]"
  have "length ?xs \<le> 2 ^ 30" and "list_all ht_allowed ?xs" by simp_all
  from hash_table_refines_map [OF pointer_table_hyps this] show ?thesis
    unfolding mesa_pointer_hash_table_init_def by (auto simp: ht_spec_def mesa_key_pointer_equal_def)
qed

definition full_run :: "ht_op list" where
  "full_run = map (\<lambda>i. HInsert (64 * word_of_nat i) 1) [1 ..< 20] @ map (\<lambda>i. HRemove (64 * word_of_nat i)) [1 ..< 17]"

text \<open>
  When growing fails, the table keeps filling beyond \<open>max_entries\<close>; once
  \<open>max_entries\<close> of its entries have been removed, the next insertion takes the marks to be all
  the table holds, clears it in place and loses the entries that were left.
\<close>
theorem hash_table_loses_entries:
  "\<exists>ht ht'. run_ops (ht_step (\<lambda>n. False)) full_run mesa_pointer_hash_table_init = Some ht \<and>
     ht_get ht (64 * 17) = Some (Some 1) \<and>
     ht_step (\<lambda>n. False) (HInsert (64 * 20) 1) ht = Some ht' \<and> ht_get ht' (64 * 17) = Some None"
proof -
  have "case run_ops (ht_step (\<lambda>n. False)) full_run mesa_pointer_hash_table_init of
      None \<Rightarrow> False
    | Some ht \<Rightarrow> ht_get ht (64 * 17) = Some (Some 1) \<and>
        (case ht_step (\<lambda>n. False) (HInsert (64 * 20) 1) ht of
           None \<Rightarrow> False | Some ht' \<Rightarrow> ht_get ht' (64 * 17) = Some None)"
    by code_simp
  then show ?thesis by (auto split: option.splits)
qed

section \<open>Iteration and cloning\<close>

lemma scan_from_spec:
  "case scan_from p i es of
     None \<Rightarrow> \<forall>j < length es. \<not> p (es ! j)
   | Some k \<Rightarrow> i \<le> k \<and> k - i < length es \<and> p (es ! (k - i)) \<and> (\<forall>j < k - i. \<not> p (es ! j))"
proof (induction p i es rule: scan_from.induct)
  case (2 p i e es)
  have s: "(e # es) ! (k - i) = es ! (k - Suc i)" if "Suc i \<le> k" for k
    using that by (simp add: Suc_diff_Suc [symmetric] Suc_le_eq)
  have al: "(\<forall>j < n. \<not> p ((e # es) ! j)) \<longleftrightarrow> (n = 0 \<or> \<not> p e \<and> (\<forall>j < n - 1. \<not> p (es ! j)))" for n
    by (cases n) (auto simp: less_Suc_eq_0_disj)
  show ?case
    using 2 s by (auto simp: al less_Suc_eq_0_disj split: option.splits)
qed simp

lemma next_entry_bounds:
  "mesa_hash_table_next_entry ht entry = Some i \<Longrightarrow> iter_start entry \<le> i \<and> i < length (ht_table ht)"
  using scan_from_spec [where p = e_present and i = "iter_start entry" and es = "drop (iter_start entry) (ht_table ht)"]
  by (auto simp: mesa_hash_table_next_entry_def Let_def)

text \<open>The loop \<open>hash_table_foreach\<close> written out; it visits the entries \<open>foreach\<close> lists.\<close>

function foreach_from :: "hash_table \<Rightarrow> nat option \<Rightarrow> hash_entry list" where
  "foreach_from ht entry =
     (case mesa_hash_table_next_entry ht entry of
        None \<Rightarrow> []
      | Some i \<Rightarrow> ht_table ht ! i # foreach_from ht (Some i))"
  by pat_completeness auto
termination
proof (relation "measure (\<lambda>(ht, entry). length (ht_table ht) - iter_start entry)")
  fix ht entry i assume "mesa_hash_table_next_entry ht entry = Some i"
  from next_entry_bounds [OF this]
  show "((ht, Some i), ht, entry) \<in> measure (\<lambda>(ht, entry). length (ht_table ht) - iter_start entry)"
    by (auto simp: iter_start_def)
qed simp

declare foreach_from.simps [simp del]

lemma foreach_from_eq: "foreach_from ht entry = filter e_present (drop (iter_start entry) (ht_table ht))"
proof (induction ht entry rule: foreach_from.induct)
  case (1 ht entry)
  let ?n = "iter_start entry" and ?t = "ht_table ht"
  note s = scan_from_spec [where p = e_present and i = ?n and es = "drop ?n ?t"]
  show ?case
  proof (cases "mesa_hash_table_next_entry ht entry")
    case None
    then have "\<forall>j < length (drop ?n ?t). \<not> e_present (drop ?n ?t ! j)"
      using s by (simp add: mesa_hash_table_next_entry_def Let_def)
    then have "filter e_present (drop ?n ?t) = []" by (metis filter_empty_conv in_set_conv_nth)
    then show ?thesis using None by (simp add: foreach_from.simps [of ht entry])
  next
    case (Some i)
    then have i: "?n \<le> i" "i < length ?t" "e_present (?t ! i)" "\<And>j. j < i - ?n \<Longrightarrow> \<not> e_present (drop ?n ?t ! j)"
      using s by (auto simp: mesa_hash_table_next_entry_def Let_def)
    have "drop ?n ?t = take (i - ?n) (drop ?n ?t) @ ?t ! i # drop (Suc i) ?t"
      using id_take_nth_drop [of "i - ?n" "drop ?n ?t"] i(1,2) by simp
    moreover have "filter e_present (take (i - ?n) (drop ?n ?t)) = []"
      using i(4) by (auto simp: filter_empty_conv in_set_conv_nth)
    ultimately have "filter e_present (drop ?n ?t) = ?t ! i # filter e_present (drop (Suc i) ?t)"
      using i(3) by (metis append_Nil filter.simps(2) filter_append)
    then show ?thesis using 1 [OF Some] Some by (simp add: foreach_from.simps [of ht entry] iter_start_def)
  qed
qed

lemma foreach_loop: "foreach_from ht None = foreach ht"
  by (simp add: foreach_from_eq foreach_def iter_start_def)

lemma clear_fast_simps:
  "key_equals_function (hash_table_clear_fast ht) = key_equals_function ht"
  "key_hash_function (hash_table_clear_fast ht) = key_hash_function ht"
  "entries (hash_table_clear_fast ht) = 0" "deleted_entries (hash_table_clear_fast ht) = 0"
  by (simp_all add: hash_table_clear_fast_def)

text \<open>Inserting a list of entries, as the loop of \<open>clone_into\<close> does.\<close>

definition map_put :: "(ptr \<Rightarrow> ptr \<Rightarrow> bool) \<Rightarrow> hash_entry \<Rightarrow> (u32 \<Rightarrow> ptr \<Rightarrow> ptr option) \<Rightarrow> u32 \<Rightarrow> ptr \<Rightarrow> ptr option" where
  "map_put eq e m = (\<lambda>h k. if h = e_hash e \<and> eq (e_key e) k then Some (e_data e) else m h k)"

lemma insert_each_spec:
  assumes "ht_inv ht" and "ht_loaded ht" and "\<And>n. alloc n" and "unat (entries ht) + length es \<le> 2 ^ 30"
    and "\<And>e. e \<in> set es \<Longrightarrow> check_hash ht (e_hash e) (e_key e)"
  shows "\<exists>ht'. insert_each alloc es ht = Some ht' \<and> ht_inv ht' \<and> ht_loaded ht' \<and>
           ht_map ht' = fold (map_put (key_equals_function ht)) es (ht_map ht)"
  using assms
proof (induction es arbitrary: ht)
  case (Cons e es)
  have small: "unat (entries ht) < 2 ^ 30" using Cons.prems(4) by simp
  obtain i ht' where i: "hash_table_insert alloc (e_hash e) (e_key e) (e_data e) ht = Some (Some i, ht')" "ht_inv ht'" "ht_loaded ht'"
      "ht_map ht' = (\<lambda>h' k'. if h' = e_hash e \<and> key_equals_function ht (e_key e) k' then Some (e_data e) else ht_map ht h' k')"
      "key_equals_function ht' = key_equals_function ht" "key_hash_function ht' = key_hash_function ht"
      "unat (entries ht') \<le> unat (entries ht) + 1"
    by (rule insert_spec [where alloc = alloc, OF Cons.prems(1-3) small])
  have m: "ht_map ht' = map_put (key_equals_function ht) e (ht_map ht)" unfolding i(4) map_put_def ..
  have "\<exists>ht''. insert_each alloc es ht' = Some ht'' \<and> ht_inv ht'' \<and> ht_loaded ht'' \<and>
      ht_map ht'' = fold (map_put (key_equals_function ht')) es (ht_map ht')"
    using Cons.prems(3-5) i(7) i(6) by (intro Cons.IH [OF i(2,3)]) (auto simp: check_hash_def)
  then show ?case
    using i(1) Cons.prems(5) [of e] by (auto simp: mesa_hash_table_insert_pre_hashed_def m i(5))
qed simp

lemma fold_map_put:
  assumes "equivp eq" and "sorted_wrt (\<lambda>e e'. \<not> same_key eq e e') es"
  shows "fold (map_put eq) es m h k =
           (case find (\<lambda>e. e_hash e = h \<and> eq k (e_key e)) es of None \<Rightarrow> m h k | Some e \<Rightarrow> Some (e_data e))"
  using assms(2)
proof (induction es arbitrary: m)
  case (Cons e es)
  have sym: "\<And>a b. eq a b \<longleftrightarrow> eq b a" and trans: "\<And>a b c. eq a b \<Longrightarrow> eq b c \<Longrightarrow> eq a c"
    using assms(1) by (meson equivp_symp, meson equivp_transp)
  have "find (\<lambda>e. e_hash e = h \<and> eq k (e_key e)) es = None" if "e_hash e = h" "eq k (e_key e)"
  proof -
    have "\<not> (e_hash e' = h \<and> eq k (e_key e'))" if "e' \<in> set es" for e'
    proof
      assume "e_hash e' = h \<and> eq k (e_key e')"
      then have "same_key eq e e'" using \<open>e_hash e = h\<close> \<open>eq k (e_key e)\<close> sym trans unfolding same_key_def by metis
      then show False using Cons.prems that by auto
    qed
    then show ?thesis by (auto simp: find_None_iff)
  qed
  then show ?case using Cons.IH [of "map_put eq e m"] Cons.prems sym
    by (auto simp: map_put_def split: option.splits)
qed simp

lemma ht_map_foreach:
  assumes "ht_inv ht"
  shows "fold (map_put (key_equals_function ht)) (foreach ht) (\<lambda>h k. None) = ht_map ht"
proof (intro ext)
  fix h k
  have eqv: "equivp (key_equals_function ht)" using assms by (simp add: ht_inv_def)
  have "find P (filter Q xs) = find (\<lambda>x. Q x \<and> P x) xs" for P Q and xs :: "hash_entry list"
    by (induction xs) auto
  then show "fold (map_put (key_equals_function ht)) (foreach ht) (\<lambda>h k. None) h k = ht_map ht h k"
    unfolding fold_map_put [OF eqv foreach_distinct [OF assms]]
    by (auto simp: ht_map_def lookup_entry_def foreach_def split: option.splits)
qed

text \<open>The largest size is beyond what the addresses of a probe can hold.\<close>

lemma last_size_wraps: "next_address 2362232233 2362232231 2362232232 = 429497167"
  by (simp add: next_address_def)

lemma sized_eq:
  assumes "ht_sized a" and "ht_sized b" and "ht_size a = ht_size b"
  shows "ht_rehash a = ht_rehash b" and "max_entries a = max_entries b" and "ht_R a = ht_R b" and "ht_N a = ht_N b"
proof -
  have sw: "sorted_wrt (\<lambda>a b. fst (snd a) < fst (snd b)) hash_sizes" unfolding hash_sizes_def by simp
  have lt: "size_index a < 28" "size_index b < 28" using assms(1,2) by (simp_all add: ht_sized_def)
  have "fst (snd (hash_sizes ! size_index a)) = fst (snd (hash_sizes ! size_index b))"
    using assms by (simp add: ht_sized_def)
  then have "size_index a = size_index b"
    using sw lt unfolding sorted_wrt_iff_nth_less hash_sizes_length by (metis linorder_neqE_nat less_irrefl)
  then show "ht_rehash a = ht_rehash b" "max_entries a = max_entries b" "ht_R a = ht_R b" "ht_N a = ht_N b"
    using assms unfolding ht_R_def ht_N_def ht_sized_def by simp_all
qed

text \<open>
  \<open>_mesa_hash_table_clone_into\<close> makes its destination hold what the source
  holds, whichever of the two is larger, and keeps the destination well formed.
\<close>
theorem hash_table_clone_into_map:
  assumes "ht_inv dst" and "ht_inv src" and "key_equals_function dst = key_equals_function src"
    and "key_hash_function dst = key_hash_function src" and "\<And>n. alloc n" and "unat (entries src) \<le> 2 ^ 30"
    and "list_all (\<lambda>e. check_hash src (e_hash e) (e_key e)) (foreach src)"
  shows "\<exists>dst'. mesa_hash_table_clone_into alloc dst src = Some (True, dst') \<and> ht_inv dst' \<and> ht_map dst' = ht_map src"
proof -
  have ne: "ht_table dst \<noteq> []" "ht_table src \<noteq> []"
    using ht_invD(6) [OF assms(1)] ht_invD(6) [OF assms(2)] geometry_pos ht_invD(2) assms(1,2) by fastforce+
  consider "ht_size dst < ht_size src" | (eq) "ht_size dst = ht_size src" | (big) "ht_size src < ht_size dst"
    by (metis linorder_neqE)
  then show ?thesis
  proof cases
    case 1
    then have "mesa_hash_table_clone_into alloc dst src = Some (True, src)"
      using ne assms(5) by (simp add: mesa_hash_table_clone_into_def mesa_hash_table_copy_def)
    then show ?thesis using assms(2) by blast
  next
    case eq
    let ?d = "dst\<lparr>ht_table := ht_table src, entries := entries src, deleted_entries := deleted_entries src\<rparr>"
    have s: "ht_sized ?d = ht_sized dst" "slots ?d = slots src" "ht_N ?d = ht_N dst" "ht_R ?d = ht_R dst"
      by (simp_all add: ht_sized_def slots_def ht_N_def ht_R_def)
    have "ht_inv ?d"
      using assms(1-3) s sized_eq(3,4) [OF ht_invD(1) [OF assms(1)] ht_invD(1) [OF assms(2)] eq]
      by (simp add: ht_inv_def)
    moreover have "ht_map ?d = ht_map src" by (simp add: fun_eq_iff ht_map_def lookup_entry_def assms(3))
    ultimately show ?thesis using ne eq by (auto simp: mesa_hash_table_clone_into_def)
  next
    case big
    let ?c = "hash_table_clear_fast dst"
    note c = clear_inv [OF assms(1), of False, unfolded mesa_hash_table_clear_def, simplified]
    have n: "length (foreach src) = unat (entries src)" using assms(2) by (simp add: ht_inv_def foreach_def)
    have "\<exists>d'. insert_each alloc (foreach src) ?c = Some d' \<and> ht_inv d' \<and> ht_loaded d' \<and>
        ht_map d' = fold (map_put (key_equals_function ?c)) (foreach src) (ht_map ?c)"
      using assms(4-7) n c(1)
      by (intro insert_each_spec) (auto simp: clear_fast_simps ht_loaded_def list_all_iff check_hash_def)
    moreover have "ht_map ?c = (\<lambda>h k. None)" using c(2) by (simp add: fun_eq_iff)
    ultimately obtain d' where "insert_each alloc (foreach src) ?c = Some d'" "ht_inv d'" "ht_map d' = ht_map src"
      using ht_map_foreach [OF assms(2)] by (auto simp: clear_fast_simps assms(3))
    then show ?thesis
      using ne big by (auto simp: mesa_hash_table_clone_into_def mesa_hash_table_clear_def)
  qed
qed

definition cloned_table :: hash_table where
  "cloned_table = the (ht_step (\<lambda>n. True) (HInsert 64 1) mesa_pointer_hash_table_init)"

lemma pointer_init_inv: "ht_run_inv 0 mesa_pointer_hash_table_init"
  using hash_table_init_inv(1) [OF pointer_table_hyps(1), of "Some mesa_hash_pointer"] pointer_table_hyps(2)
  by (auto simp: ht_run_inv_def ht_loaded_def mesa_pointer_hash_table_init_def mesa_hash_table_init_def set_sizes_def hash_sizes_def)

theorem hash_table_clone_into_map_witness:
  "\<exists>dst'. mesa_hash_table_clone_into (\<lambda>n. True) mesa_pointer_hash_table_init cloned_table = Some (True, dst') \<and>
     ht_inv dst' \<and> ht_map dst' (mesa_hash_pointer 64) 64 = Some 1"
proof -
  let ?h0 = mesa_pointer_hash_table_init
  have h0: "ht_inv ?h0" "ht_loaded ?h0" "unat (entries ?h0) \<le> 0" using pointer_init_inv by (auto simp: ht_run_inv_def)
  have fn: "key_hash_function ?h0 = Some mesa_hash_pointer" "key_equals_function ?h0 = mesa_key_pointer_equal"
    by (simp_all add: mesa_pointer_hash_table_init_def mesa_hash_table_init_def set_sizes_def hash_sizes_def)
  have small: "unat (entries ?h0) < 2 ^ 30" using h0(3) by simp
  obtain i ht' where i: "hash_table_insert (\<lambda>n. True) (mesa_hash_pointer 64) 64 1 ?h0 = Some (Some i, ht')" "ht_inv ht'"
      "ht_map ht' = (\<lambda>h' k'. if h' = mesa_hash_pointer 64 \<and> key_equals_function ?h0 64 k' then Some 1 else ht_map ?h0 h' k')"
      "key_equals_function ht' = key_equals_function ?h0" "key_hash_function ht' = key_hash_function ?h0"
      "unat (entries ht') \<le> unat (entries ?h0) + 1"
    by (rule insert_spec [OF h0(1,2) TrueI small])
  have c: "cloned_table = ht'" using i(1) by (simp add: cloned_table_def ht_step_def mesa_hash_table_insert_def fn)
  have f: "list_all (\<lambda>e. check_hash cloned_table (e_hash e) (e_key e)) (foreach cloned_table)" by code_simp
  have "\<exists>dst'. mesa_hash_table_clone_into (\<lambda>n. True) ?h0 cloned_table = Some (True, dst') \<and> ht_inv dst' \<and> ht_map dst' = ht_map cloned_table"
    using h0(1,3) i(2,4-6) f by (intro hash_table_clone_into_map) (simp_all add: c)
  then show ?thesis using i(3) by (auto simp: c fn mesa_key_pointer_equal_def)
qed

end
