(* ===== verification/Fast_Idiv.thy ===== *)
theory Fast_Idiv
  imports Fast_Urem
begin

text \<open>
  Division by a constant through a multiplication: \<open>src/src/util/fast_idiv_by_const.c\<close>
  computes the multiplier and the shifts, \<open>src/src/util/fast_idiv_by_const.h\<close> applies them.
  The parameters \<open>num_bits\<close>, \<open>UINT_BITS\<close> and \<open>SINT_BITS\<close> and the exponents are small numbers and
  are modelled as \<open>nat\<close>; the 64-bit quantities are words.  \<open>None\<close> is a failed assertion.
\<close>

section \<open>Bit helpers\<close>

definition util_is_power_of_two_or_zero64 :: "u64 \<Rightarrow> bool" where
  "util_is_power_of_two_or_zero64 v = (v AND (v - 1) = 0)"

definition log_step :: "nat \<Rightarrow> u64 \<times> nat \<Rightarrow> u64 \<times> nat" where
  "log_step k = (\<lambda>(n, pos). if push_bit k 1 \<le> n then (drop_bit k n, pos + k) else (n, pos))"

definition util_logbase2_64 :: "u64 \<Rightarrow> nat" where
  "util_logbase2_64 n = snd (fold log_step [32, 16, 8, 4, 2, 1] (n, 0))"

text \<open>The width is asserted to be between 1 and 64, as it is for every caller here.\<close>

definition u_uintN_max :: "nat \<Rightarrow> u64" where
  "u_uintN_max bit_size = drop_bit (64 - bit_size) (- 1)"

text \<open>The loop \<open>for (tmp = D; tmp > 0; tmp >>= 1)\<close>, which counts the bits of \<open>D\<close>.\<close>

function bit_length :: "u64 \<Rightarrow> nat" where
  "bit_length tmp = (if 0 < tmp then bit_length (drop_bit 1 tmp) + 1 else 0)"
  by pat_completeness auto
termination
  by (relation "measure unat") (auto simp: unat_drop_bit word_less_nat_alt)

declare bit_length.simps [simp del]

section \<open>Unsigned division\<close>

record util_fast_udiv_info =
  multiplier :: u64
  pre_shift :: nat
  post_shift :: nat
  increment :: nat

text \<open>
  One iteration of the loop that doubles the power of two, and the loop: it returns the
  exponent, the quotient and the magic info of the round-down variant.
\<close>

definition double_step :: "u64 \<Rightarrow> u64 \<Rightarrow> u64 \<Rightarrow> u64 \<times> u64" where
  "double_step D quot rmd =
     (if D - rmd \<le> rmd then (quot * 2 + 1, rmd * 2 - D)
      else (quot * 2, rmd * 2))"

function magic_loop ::
  "u64 \<Rightarrow> nat \<Rightarrow> nat \<Rightarrow> nat \<Rightarrow> u64 \<Rightarrow> u64 \<Rightarrow> (u64 \<times> nat) option \<Rightarrow> nat \<times> u64 \<times> (u64 \<times> nat) option" where
  "magic_loop D extra_shift ceil_log_2_D exponent quot rmd down =
     (case double_step D quot rmd of (q, r) \<Rightarrow>
        if ceil_log_2_D \<le> exponent + extra_shift \<or> D - r \<le> push_bit (exponent + extra_shift) 1
        then (exponent, q, down)
        else magic_loop D extra_shift ceil_log_2_D (exponent + 1) q r
               (if down = None \<and> r \<le> push_bit (exponent + extra_shift) 1 then Some (q, exponent) else down))"
  by pat_completeness auto
termination
  by (relation "measure (\<lambda>(D, x, l, e, q, r, d). l - e)") auto

declare magic_loop.simps [simp del]

text \<open>The loop that shifts out the zero bits; \<open>D\<close> is not zero where it runs.\<close>

function strip_even :: "u64 \<Rightarrow> nat \<Rightarrow> u64 \<times> nat" where
  "strip_even shifted_D pshift =
     (if shifted_D \<noteq> 0 \<and> shifted_D AND 1 = 0 then strip_even (drop_bit 1 shifted_D) (pshift + 1)
      else (shifted_D, pshift))"
  by pat_completeness auto
termination
  by (relation "measure (\<lambda>(D, p). unat D)") (auto simp: unat_drop_bit unat_gt_0)

declare strip_even.simps [simp del]

lemma strip_even_le: "unat (fst (strip_even D p)) \<le> unat D"
proof (induction D p rule: strip_even.induct)
  case (1 D p)
  then show ?case
    by (subst strip_even.simps) (auto simp: unat_drop_bit intro: order_trans)
qed

lemma strip_even_less: "D \<noteq> 0 \<Longrightarrow> D AND 1 = 0 \<Longrightarrow> unat (fst (strip_even D p)) < unat D"
  using strip_even_le [of "drop_bit 1 D" "p + 1"]
  by (subst strip_even.simps) (auto simp: unat_drop_bit unat_gt_0 intro: le_less_trans)

function util_compute_fast_udiv_info :: "u64 \<Rightarrow> nat \<Rightarrow> nat \<Rightarrow> util_fast_udiv_info option" where
  "util_compute_fast_udiv_info D num_bits UINT_BITS =
     (if \<not> (0 < num_bits \<and> num_bits \<le> UINT_BITS) \<or> D = 0 then None
      else if util_is_power_of_two_or_zero64 D
      then let div_shift = util_logbase2_64 D
           in if div_shift \<noteq> 0
              then Some \<lparr>multiplier = push_bit (UINT_BITS - div_shift) 1, pre_shift = 0, post_shift = 0, increment = 0\<rparr>
              else Some \<lparr>multiplier = u_uintN_max UINT_BITS, pre_shift = 0, post_shift = 0, increment = 1\<rparr>
      else
        let extra_shift = UINT_BITS - num_bits;
            initial_power_of_2 = push_bit (UINT_BITS - 1) 1;
            ceil_log_2_D = bit_length D
        in case magic_loop D extra_shift ceil_log_2_D 0 (initial_power_of_2 div D) (initial_power_of_2 mod D) None of
             (exponent, quot, down) \<Rightarrow>
               if exponent < ceil_log_2_D
               then Some \<lparr>multiplier = quot + 1, pre_shift = 0, post_shift = exponent, increment = 0\<rparr>
               else if D AND 1 \<noteq> 0
               then (case down of
                       None \<Rightarrow> None
                     | Some (down_multiplier, down_exponent) \<Rightarrow>
                         Some \<lparr>multiplier = down_multiplier, pre_shift = 0, post_shift = down_exponent, increment = 1\<rparr>)
               else let s = strip_even D 0
                    in case util_compute_fast_udiv_info (fst s) (num_bits - snd s) UINT_BITS of
                         None \<Rightarrow> None
                       | Some result \<Rightarrow>
                           if increment result = 0 \<and> pre_shift result = 0
                           then Some (result\<lparr>pre_shift := snd s\<rparr>) else None)"
  by pat_completeness auto
termination
  by (relation "measure (\<lambda>(D, n, u). unat D)") (auto intro: strip_even_less)

declare util_compute_fast_udiv_info.simps [simp del]

text \<open>The inline functions that apply the info to a 32-bit numerator.\<close>

definition util_fast_udiv32 :: "u32 \<Rightarrow> util_fast_udiv_info \<Rightarrow> u32" where
  "util_fast_udiv32 n info =
     (let n = drop_bit (pre_shift info) n;
          n = (ucast (drop_bit 32 (((ucast n :: u64) + of_nat (increment info)) * multiplier info)) :: u32)
      in drop_bit (post_shift info) n)"

definition util_fast_udiv32_nuw :: "u32 \<Rightarrow> util_fast_udiv_info \<Rightarrow> u32 option" where
  "util_fast_udiv32_nuw n info = do {
     c_assert (n \<noteq> 4294967295);
     let n = drop_bit (pre_shift info) n;
     let n = n + of_nat (increment info);
     let n = (ucast (drop_bit 32 ((ucast n :: u64) * multiplier info)) :: u32);
     Some (drop_bit (post_shift info) n)
   }"

definition util_fast_udiv32_u31_d_not_one :: "u32 \<Rightarrow> util_fast_udiv_info \<Rightarrow> u32 option" where
  "util_fast_udiv32_u31_d_not_one n info = do {
     c_assert (pre_shift info = 0);
     c_assert (increment info = 0);
     let n = (ucast (drop_bit 32 ((ucast n :: u64) * multiplier info)) :: u32);
     Some (drop_bit (post_shift info) n)
   }"

section \<open>Arithmetic of the two roundings\<close>

text \<open>Round up: \<open>m / 2 ^ K\<close> exceeds \<open>1 / D\<close> by little enough.\<close>

lemma div_by_mult_up:
  fixes m D n P d :: nat
  assumes m: "m * D = P + d" and nd: "n * d < P" and D: "0 < D"
  shows "n * m div P = n div D"
proof (rule div_nat_eqI)
  let ?k = "n div D"
  have e: "n * m * D = n * P + n * d" using m by (metis distrib_left mult.assoc)
  have "P * ?k * D \<le> P * n" by (simp add: mult.assoc div_times_less_eq_dividend)
  also have "\<dots> \<le> n * m * D" unfolding e by simp
  finally show "P * ?k \<le> n * m" using D by simp
  have "n + 1 \<le> Suc ?k * D" using D by (metis Suc_eq_plus1 Suc_leI dividend_less_div_times mult_Suc add.commute)
  then have "P * (n + 1) \<le> P * (Suc ?k * D)" by (rule mult_le_mono2)
  then have "n * m * D < P * Suc ?k * D" unfolding e using nd by (simp add: algebra_simps)
  then show "n * m < P * Suc ?k" using D by simp
qed

text \<open>Round down: \<open>m / 2 ^ K\<close> falls short of \<open>1 / D\<close>, and the numerator is incremented.\<close>

lemma div_by_mult_down:
  fixes m D n P r :: nat
  assumes m: "m * D + r = P" and r: "0 < r" and nr: "(n + 1) * r \<le> P" and D: "0 < D"
  shows "(n + 1) * m div P = n div D"
proof (rule div_nat_eqI)
  let ?k = "n div D"
  have e: "(n + 1) * m * D + (n + 1) * r = (n + 1) * P" unfolding m [symmetric] by (simp add: algebra_simps)
  have "P * ?k * D \<le> P * n" by (simp add: mult.assoc div_times_less_eq_dividend)
  then have "P * ?k * D + P \<le> (n + 1) * P" by (simp add: algebra_simps)
  then have "P * ?k * D \<le> (n + 1) * m * D" using e nr by linarith
  then show "P * ?k \<le> (n + 1) * m" using D by simp
  have "n + 1 \<le> Suc ?k * D" using D by (metis Suc_eq_plus1 Suc_leI dividend_less_div_times mult_Suc add.commute)
  then have "(n + 1) * P \<le> Suc ?k * D * P" by (rule mult_le_mono1)
  moreover have "0 < (n + 1) * r" using r by simp
  ultimately have "(n + 1) * m * D < Suc ?k * D * P" using e by linarith
  then have "(n + 1) * m * D < P * Suc ?k * D" by (simp add: algebra_simps)
  then show "(n + 1) * m < P * Suc ?k" using D by simp
qed

lemma div_pred_not_dvd:
  fixes n D :: nat
  assumes "\<not> D dvd n" and "0 < n"
  shows "(n - 1) div D = n div D"
proof -
  have "n mod D \<noteq> 0" using assms(1) by (simp add: dvd_eq_mod_eq_0)
  then show ?thesis using assms(2) by (metis Suc_diff_1 div_Suc mod_Suc)
qed

lemma div_mod_eqI:
  fixes a q D r :: nat
  assumes "a = q * D + r" and "r < D"
  shows "a div D = q" and "a mod D = r"
  using assms by simp_all

lemma double_div_mod:
  fixes P D :: nat
  assumes "0 < D"
  shows "2 * P div D = 2 * (P div D) + (if D - P mod D \<le> P mod D then 1 else 0)" (is ?A)
    and "2 * P mod D = (if D - P mod D \<le> P mod D then 2 * (P mod D) - D else 2 * (P mod D))" (is ?B)
proof -
  have r: "P mod D < D" using assms by simp
  have e: "2 * P = 2 * (P div D) * D + 2 * (P mod D)" using div_mult_mod_eq [of P D] by (metis distrib_left mult.assoc)
  have "?A \<and> ?B"
  proof (cases "D - P mod D \<le> P mod D")
    case True
    have s: "2 * P = (2 * (P div D) + 1) * D + (2 * (P mod D) - D)" "2 * (P mod D) - D < D" using e r True by auto
    show ?thesis using True div_mod_eqI [OF s] by simp
  next
    case False
    have s: "2 * (P mod D) < D" using False by linarith
    show ?thesis using False div_mod_eqI [OF e s] by simp
  qed
  then show ?A ?B by simp_all
qed

section \<open>The helpers\<close>

lemma and_pred_nat: "0 < n \<Longrightarrow> n AND (n - 1) = (0 :: nat) \<longleftrightarrow> (\<exists>k. n = 2 ^ k)"
proof (induction n rule: less_induct)
  case (less n)
  show ?case
  proof (cases "even n")
    case True
    then obtain m where m: "n = 2 * m" by blast
    then have "0 < m" using less.prems by simp
    have h: "(2 * m - 1) div 2 = m - 1" using \<open>0 < m\<close> by (cases m) auto
    have "n AND (n - 1) = 2 * (m AND (m - 1))"
      unfolding m using h \<open>0 < m\<close> by (subst and_rec) simp
    then have "n AND (n - 1) = 0 \<longleftrightarrow> (\<exists>k. m = 2 ^ k)" using less.IH [of m] \<open>0 < m\<close> m by simp
    also have "\<dots> \<longleftrightarrow> (\<exists>k. n = 2 ^ k)"
    proof
      assume "\<exists>k. n = 2 ^ k"
      then obtain k where k: "n = 2 ^ k" ..
      then have "k \<noteq> 0" using True by (intro notI) simp
      then show "\<exists>k. m = 2 ^ k" using k m by (metis nat_mult_eq_cancel_disj not0_implies_Suc power_Suc zero_neq_numeral)
    qed (use m in \<open>auto intro: exI [of _ "Suc _"]\<close>)
    finally show ?thesis .
  next
    case False
    then obtain m where m: "n = 2 * m + 1" by (metis oddE)
    have "n AND (n - 1) = 2 * m" unfolding m by (subst and_rec) simp
    moreover have "m = 0 \<longleftrightarrow> (\<exists>k. n = 2 ^ k)"
    proof
      assume "\<exists>k. n = 2 ^ k"
      then obtain k where k: "n = 2 ^ k" ..
      then have "k = 0" using False by (cases k) auto
      then show "m = 0" using k m by simp
    qed (use m in \<open>auto intro: exI [of _ 0]\<close>)
    ultimately show ?thesis by simp
  qed
qed

lemma power_of_two_or_zero_unat:
  assumes "D \<noteq> 0"
  shows "util_is_power_of_two_or_zero64 D \<longleftrightarrow> (\<exists>s. unat D = 2 ^ s)"
proof -
  have "unat (D - 1) = unat D - 1" using assms by (simp add: unat_minus_one)
  then have "unat (D AND (D - 1)) = unat D AND (unat D - 1)" by (simp add: unsigned_and_eq)
  then have "util_is_power_of_two_or_zero64 D \<longleftrightarrow> unat D AND (unat D - 1) = 0"
    unfolding util_is_power_of_two_or_zero64_def by (metis unat_eq_zero)
  then show ?thesis using and_pred_nat [of "unat D"] assms by (simp add: unat_gt_0)
qed

lemma logbase2_64_all: "list_all (\<lambda>s. util_logbase2_64 (push_bit s 1) = s) [0 ..< 64]"
  by code_simp

lemma unat_of_nat_lt: "n < 2 ^ LENGTH('a) \<Longrightarrow> unat (of_nat n :: 'a :: len word) = n"
  by (simp add: unsigned_of_nat take_bit_nat_eq_self)

lemma unat_push_bit_one: "s < 64 \<Longrightarrow> unat (push_bit s 1 :: u64) = 2 ^ s"
  using unat_of_nat_lt [of "2 ^ s", where 'a = 64] power_strict_increasing [of s 64 "2 :: nat"]
  by (simp add: push_bit_eq_mult)

lemma power_of_two_word:
  assumes "unat (D :: u64) = 2 ^ s"
  shows "s < 64" and "D = push_bit s 1" and "util_logbase2_64 D = s"
proof -
  have "(2 :: nat) ^ s < 2 ^ 64" using assms unat_lt_64 [of D] by simp
  then show s: "s < 64" by (rule power_less_imp_less_exp [rotated]) simp
  show D: "D = push_bit s 1" using assms unat_push_bit_one [OF s] by (simp only: word_unat_eq_iff)
  show "util_logbase2_64 D = s" using logbase2_64_all s unfolding D by (simp add: list_all_iff)
qed

lemma bit_length_zero [simp]: "bit_length 0 = 0"
  by (simp add: bit_length.simps)

lemma bit_length_bounds:
  "D \<noteq> 0 \<Longrightarrow> 0 < bit_length D \<and> 2 ^ (bit_length D - 1) \<le> unat D \<and> unat D < 2 ^ bit_length D"
proof (induction D rule: bit_length.induct)
  case (1 D)
  let ?h = "drop_bit 1 D"
  have b: "bit_length D = bit_length ?h + 1" using 1(2) by (subst bit_length.simps) (simp add: word_neq_0_conv)
  have h: "unat ?h = unat D div 2" by (simp add: unat_drop_bit)
  show ?case
  proof (cases "?h = 0")
    case True
    then have "unat D div 2 = 0" using h by simp
    then have "unat D = 1" using 1(2) unat_eq_zero [of D] by linarith
    then show ?thesis using b True by simp
  next
    case False
    have "0 < D" using 1(2) by (simp add: word_neq_0_conv)
    from 1(1) [OF this False] have i: "0 < bit_length ?h" "2 ^ (bit_length ?h - 1) \<le> unat D div 2" "unat D div 2 < 2 ^ bit_length ?h"
      unfolding h by auto
    have "(2 :: nat) ^ bit_length ?h = 2 * 2 ^ (bit_length ?h - 1)" using i(1) by (metis One_nat_def Suc_pred power_Suc)
    moreover have "unat D = 2 * (unat D div 2) + unat D mod 2" "unat D mod 2 < 2" by simp_all
    ultimately have "2 ^ bit_length ?h \<le> unat D" "unat D < 2 * 2 ^ bit_length ?h" using i(2,3) by linarith+
    then show ?thesis using b by simp
  qed
qed

lemma bit_length_strict:
  assumes "D \<noteq> 0" and "\<not> util_is_power_of_two_or_zero64 D"
  shows "2 ^ (bit_length D - 1) < unat D"
  using bit_length_bounds [OF assms(1)] power_of_two_or_zero_unat [OF assms(1)] assms(2)
  by (metis order_le_neq_trans)

lemma bit_length_le:
  assumes "D \<noteq> 0" and "unat D < 2 ^ U"
  shows "bit_length D \<le> U"
proof -
  have "(2 :: nat) ^ (bit_length D - 1) < 2 ^ U" using bit_length_bounds [OF assms(1)] assms(2) by linarith
  then have "bit_length D - 1 < U" by (rule power_less_imp_less_exp [rotated]) simp
  then show ?thesis by simp
qed

section \<open>The search for the multiplier\<close>

text \<open>The quotient is kept modulo \<open>2 ^ 64\<close>, the remainder is exact.\<close>

lemma double_step_unat:
  assumes D: "D \<noteq> 0" and q: "unat q = P div unat D mod 2 ^ 64" and r: "unat r = P mod unat D"
    and s: "double_step D q r = (q', r')"
  shows "unat q' = 2 * P div unat D mod 2 ^ 64" and "unat r' = 2 * P mod unat D"
proof -
  have d0: "0 < unat D" using D by (simp add: unat_gt_0)
  have rD: "unat r < unat D" using d0 r by simp
  have sub: "unat (D - r) = unat D - unat r" using rD by (simp add: unat_sub word_le_nat_alt)
  have c: "D - r \<le> r \<longleftrightarrow> unat D - P mod unat D \<le> P mod unat D" by (simp add: word_le_nat_alt sub r)
  have q2: "unat (q * 2) = 2 * (P div unat D) mod 2 ^ 64" "unat (q * 2 + 1) = (2 * (P div unat D) + 1) mod 2 ^ 64"
    by (simp_all add: unat_word_ariths q mod_simps mult.commute)
  have r2: "unat (r * 2) = 2 * (P mod unat D)" if "\<not> D - r \<le> r"
  proof -
    have "2 * unat r < unat D" using that c r by linarith
    then show ?thesis using unat_lt_64 [of D] by (simp add: unat_word_ariths r)
  qed
  have r3: "unat (r * 2 - D) = 2 * (P mod unat D) - unat D" if "D - r \<le> r"
  proof -
    have le: "unat D \<le> 2 * unat r" using that c r rD by linarith
    have "r * 2 - D = of_nat (2 * unat r - unat D)" using le by (simp add: of_nat_diff mult.commute)
    moreover have "2 * unat r - unat D < 2 ^ LENGTH(64)" using rD unat_lt_64 [of r] unat_lt_64 [of D] by simp
    ultimately have "unat (r * 2 - D) = 2 * unat r - unat D" by (simp only: unat_of_nat_lt)
    then show ?thesis unfolding r .
  qed
  show "unat q' = 2 * P div unat D mod 2 ^ 64" and "unat r' = 2 * P mod unat D"
    using s q2 r2 r3 c unfolding double_step_def double_div_mod [OF d0, of P] by (auto split: if_splits)
qed

text \<open>
  What the loop returns, in terms of the powers \<open>B * 2 ^ e\<close>: the first exponent that suits the
  round-up variant (or the last one tried), and the first that suits the round-down variant.
\<close>

definition down_ok :: "nat \<Rightarrow> nat \<Rightarrow> nat \<Rightarrow> nat \<Rightarrow> (u64 \<times> nat) option \<Rightarrow> bool" where
  "down_ok D x B e down =
     (case down of
        None \<Rightarrow> \<forall>i < e. 2 ^ (i + x) < B * 2 ^ i mod D
      | Some (m, i) \<Rightarrow> i < e \<and> unat m = B * 2 ^ i div D mod 2 ^ 64 \<and> B * 2 ^ i mod D \<le> 2 ^ (i + x))"

definition loop_post :: "nat \<Rightarrow> nat \<Rightarrow> nat \<Rightarrow> nat \<Rightarrow> nat \<times> u64 \<times> (u64 \<times> nat) option \<Rightarrow> bool" where
  "loop_post D x L B = (\<lambda>(e, q, down).
     unat q = B * 2 ^ e div D mod 2 ^ 64 \<and>
     (L \<le> e + x \<or> D - B * 2 ^ e mod D \<le> 2 ^ (e + x)) \<and>
     (\<forall>i < e. i + x < L \<and> 2 ^ (i + x) < D - B * 2 ^ i mod D) \<and>
     down_ok D x B e down)"

lemma magic_loop_result:
  assumes D: "D \<noteq> 0" and L: "L \<le> 64"
    and q: "2 * P = B * 2 ^ e" "unat q = P div unat D mod 2 ^ 64" "unat r = P mod unat D"
    and no: "\<forall>i < e. i + x < L \<and> 2 ^ (i + x) < unat D - B * 2 ^ i mod unat D"
    and dn: "down_ok (unat D) x B e down"
  shows "loop_post (unat D) x L B (magic_loop D x L e q r down)"
  using q no dn
proof (induction "L - e" arbitrary: e q r down P rule: less_induct)
  case less
  obtain q' r' where s: "double_step D q r = (q', r')" by fastforce
  note dd = double_step_unat [OF D less.prems(2,3) s, unfolded less.prems(1)]
  have d0: "0 < unat D" using D by (simp add: unat_gt_0)
  have "unat r' < unat D" unfolding dd(2) using d0 by simp
  then have sub: "unat (D - r') = unat D - B * 2 ^ e mod unat D" using dd(2) by (simp add: unat_sub word_le_nat_alt)
  show ?case
  proof (cases "L \<le> e + x \<or> D - r' \<le> push_bit (e + x) 1")
    case True
    have m: "magic_loop D x L e q r down = (e, q', down)" using True s by (subst magic_loop.simps) simp
    have "L \<le> e + x \<or> unat D - B * 2 ^ e mod unat D \<le> 2 ^ (e + x)"
      using True sub unat_push_bit_one [of "e + x"] L
      by (cases "L \<le> e + x") (simp_all add: word_le_nat_alt not_le)
    then show ?thesis unfolding m loop_post_def using dd(1) less.prems(4,5) by simp
  next
    case False
    then have ex: "e + x < L" and nb: "\<not> D - r' \<le> push_bit (e + x) 1" by auto
    have pb: "unat (push_bit (e + x) 1 :: u64) = 2 ^ (e + x)" using ex L by (intro unat_push_bit_one) simp
    let ?d = "if down = None \<and> r' \<le> push_bit (e + x) 1 then Some (q', e) else down"
    have m: "magic_loop D x L e q r down = magic_loop D x L (e + 1) q' r' ?d"
      using False s by (subst magic_loop.simps) simp
    have no': "\<forall>i < e + 1. i + x < L \<and> 2 ^ (i + x) < unat D - B * 2 ^ i mod unat D"
      using less.prems(4) ex nb sub pb by (auto simp: less_Suc_eq word_le_nat_alt)
    have dn': "down_ok (unat D) x B (e + 1) ?d"
      using less.prems(5) dd pb unfolding down_ok_def by (auto simp: word_le_nat_alt less_Suc_eq not_le split: option.splits)
    show ?thesis
      unfolding m using ex dd no' dn'
      by (intro less.hyps [where P = "B * 2 ^ e"]) auto
  qed
qed

section \<open>Correctness of the unsigned info\<close>

definition udiv_apply :: "nat \<Rightarrow> util_fast_udiv_info \<Rightarrow> nat \<Rightarrow> nat" where
  "udiv_apply U info n =
     (n div 2 ^ pre_shift info + increment info) * unat (multiplier info) div 2 ^ U div 2 ^ post_shift info"

text \<open>A divisor that is not a power of two, and the state the loop leaves.\<close>

definition plain_divisor :: "u64 \<Rightarrow> nat \<Rightarrow> bool" where
  "plain_divisor D U = (D \<noteq> 0 \<and> \<not> util_is_power_of_two_or_zero64 D \<and> unat D < 2 ^ U \<and> U \<le> 64)"

lemma plain_divisor_ge:
  assumes "plain_divisor D U"
  shows "3 \<le> unat D" and "2 \<le> U" and "bit_length D \<le> U" and "0 < bit_length D"
proof -
  have nz: "D \<noteq> 0" and np: "\<not> (\<exists>s. unat D = 2 ^ s)" and lt: "unat D < 2 ^ U"
    using assms power_of_two_or_zero_unat by (auto simp: plain_divisor_def)
  have "unat D \<noteq> 1" "unat D \<noteq> 2" using np by (metis power_0, metis power_one_right)
  moreover have "unat D \<noteq> 0" using nz unat_eq_zero [of D] by blast
  ultimately show ge: "3 \<le> unat D" by linarith
  show "2 \<le> U"
  proof (rule ccontr)
    assume "\<not> 2 \<le> U"
    then have "(2 :: nat) ^ U \<le> 2 ^ 1" by (intro power_increasing) auto
    then show False using ge lt by simp
  qed
  show "bit_length D \<le> U" by (rule bit_length_le [OF nz lt])
  show "0 < bit_length D" using bit_length_bounds [OF nz] by simp
qed

lemma quotient_small:
  assumes p: "plain_divisor D U" and e: "e < bit_length D"
  shows "2 ^ U * 2 ^ e div unat D + 1 < 2 ^ U"
proof -
  note g = plain_divisor_ge [OF p]
  have nz: "D \<noteq> 0" and np: "\<not> util_is_power_of_two_or_zero64 D" using p by (auto simp: plain_divisor_def)
  have "(2 :: nat) ^ e \<le> 2 ^ (bit_length D - 1)" using e by (intro power_increasing) auto
  then have De: "2 ^ e + 1 \<le> unat D" using bit_length_strict [OF nz np] by linarith
  have "(2 :: nat) ^ e \<le> 2 ^ (U - 1)" using e g(3) by (intro power_increasing) auto
  moreover have U: "(2 :: nat) ^ U = 2 * 2 ^ (U - 1)" using g(2) by (cases U) auto
  moreover have "(2 :: nat) \<le> 2 ^ (U - 1)" using power_increasing [of 1 "U - 1" "2 :: nat"] g(2) by simp
  ultimately have small: "(2 :: nat) ^ e + 1 < 2 ^ U" by linarith
  have "a * b < (a - 1) * (b + 1)" if "b + 1 < a" for a b :: nat
    using that by (cases a) auto
  from this [OF small] have "2 ^ U * 2 ^ e < (2 ^ U - 1) * (2 ^ e + (1 :: nat))" .
  also have "\<dots> \<le> (2 ^ U - 1) * unat D" using De by (rule mult_le_mono2)
  finally have "2 ^ U * 2 ^ e div unat D < 2 ^ U - 1" by (simp add: less_mult_imp_div_less)
  then show ?thesis by simp
qed

lemma magic_init:
  assumes p: "plain_divisor D U"
  shows "loop_post (unat D) x (bit_length D) (2 ^ U)
           (magic_loop D x (bit_length D) 0 (push_bit (U - 1) 1 div D) (push_bit (U - 1) 1 mod D) None)"
proof (rule magic_loop_result [where P = "2 ^ (U - 1)"])
  note g = plain_divisor_ge [OF p]
  have U: "U - 1 < 64" "0 < U" using p g(2) by (auto simp: plain_divisor_def)
  show "D \<noteq> 0" using p by (simp add: plain_divisor_def)
  show "bit_length D \<le> 64" using g(3) p by (simp add: plain_divisor_def)
  show "2 * 2 ^ (U - 1) = 2 ^ U * (2 :: nat) ^ 0" using U(2) by (cases U) auto
  have "(2 :: nat) ^ (U - 1) div unat D \<le> 2 ^ (U - 1)" by simp
  also have "\<dots> < 2 ^ 64" using U(1) by (intro power_strict_increasing) auto
  finally show "unat (push_bit (U - 1) 1 div D) = 2 ^ (U - 1) div unat D mod 2 ^ 64"
    by (simp only: unat_div unat_push_bit_one [OF U(1)] mod_less)
  show "unat (push_bit (U - 1) 1 mod D) = 2 ^ (U - 1) mod unat D"
    by (simp only: unat_mod unat_push_bit_one [OF U(1)])
qed (simp_all add: down_ok_def)

lemma up_info:
  assumes p: "plain_divisor D U" and N: "N \<le> U" and e: "e < bit_length D"
    and post: "loop_post (unat D) (U - N) (bit_length D) (2 ^ U) (e, q, down)" and n: "n < 2 ^ N"
  shows "unat (q + 1) < 2 ^ U" and "0 < unat (q + 1)" and "n * unat (q + 1) div 2 ^ U div 2 ^ e = n div unat D"
proof -
  let ?F = "2 ^ U * 2 ^ e :: nat" and ?d = "unat D - 2 ^ U * 2 ^ e mod unat D"
  note g = plain_divisor_ge [OF p] and small = quotient_small [OF p e]
  have U64: "(2 :: nat) ^ U \<le> 2 ^ 64" using p by (intro power_increasing) (auto simp: plain_divisor_def)
  have "unat q = ?F div unat D mod 2 ^ 64" using post by (simp add: loop_post_def)
  then have q: "unat q = ?F div unat D" using small U64 by simp
  then have q1: "unat (q + 1) = ?F div unat D + 1" using small U64 by (simp add: unat_word_ariths)
  then show "unat (q + 1) < 2 ^ U" "0 < unat (q + 1)" using small by simp_all
  have d0: "0 < unat D" using g(1) by linarith
  have m: "(?F div unat D + 1) * unat D = ?F + ?d"
    using div_mult_mod_eq [of ?F "unat D"] mod_less_divisor [OF d0, of ?F] unfolding distrib_right mult_1 by linarith
  have "?d \<le> 2 ^ (e + (U - N))"
  proof (cases "bit_length D \<le> e + (U - N)")
    case True
    have "?d \<le> unat D" by simp
    also have "\<dots> \<le> 2 ^ bit_length D" using bit_length_bounds [of D] p by (simp add: plain_divisor_def)
    also have "\<dots> \<le> 2 ^ (e + (U - N))" using True by (intro power_increasing) auto
    finally show ?thesis .
  next
    case False
    then show ?thesis using post by (simp add: loop_post_def)
  qed
  then have "n * ?d \<le> n * 2 ^ (e + (U - N))" by (rule mult_le_mono2)
  also have "\<dots> < 2 ^ N * 2 ^ (e + (U - N))" using n by simp
  also have "\<dots> = ?F" using N by (simp flip: power_add)
  finally have "n * ?d < ?F" .
  from div_by_mult_up [OF m this d0] show "n * unat (q + 1) div 2 ^ U div 2 ^ e = n div unat D"
    unfolding q1 by (simp add: div_mult2_eq)
qed

text \<open>Without an efficient round-up multiplier the numerator has the full width.\<close>

lemma no_up:
  assumes p: "plain_divisor D U" and e: "bit_length D \<le> e"
    and post: "loop_post (unat D) x (bit_length D) (2 ^ U) (e, q, down)"
  shows "x = 0" and "e = bit_length D" and "\<And>i. i < bit_length D \<Longrightarrow> 2 ^ i < unat D - 2 ^ U * 2 ^ i mod unat D"
proof -
  have i: "\<forall>i < e. i + x < bit_length D \<and> 2 ^ (i + x) < unat D - 2 ^ U * 2 ^ i mod unat D"
    using post by (simp add: loop_post_def)
  have "e - 1 + x < bit_length D" using i plain_divisor_ge(4) [OF p] e by (metis diff_less less_le_trans zero_less_one)
  then show x: "x = 0" and el: "e = bit_length D" using e by simp_all
  show "\<And>i. i < bit_length D \<Longrightarrow> 2 ^ i < unat D - 2 ^ U * 2 ^ i mod unat D" using i x el by simp
qed

lemma no_up_not_dvd:
  assumes p: "plain_divisor D U" and no: "\<And>i. i < bit_length D \<Longrightarrow> 2 ^ i < unat D - 2 ^ U * 2 ^ i mod unat D"
  shows "\<not> unat D dvd 2 ^ U - 1"
proof
  assume d: "unat D dvd 2 ^ U - 1"
  let ?i = "bit_length D - 1"
  have nz: "D \<noteq> 0" and np: "\<not> util_is_power_of_two_or_zero64 D" using p by (auto simp: plain_divisor_def)
  obtain k where "2 ^ U - 1 = unat D * k" using d by blast
  then have "2 ^ U = unat D * k + 1" by (metis Suc_eq_plus1 Suc_pred' zero_less_numeral zero_less_power)
  then have "2 ^ U * 2 ^ ?i mod unat D = 2 ^ ?i mod unat D" by (simp add: distrib_right mult.assoc)
  also have "\<dots> = 2 ^ ?i" using bit_length_strict [OF nz np] by simp
  finally have "2 ^ ?i < unat D - 2 ^ ?i" using no [of ?i] plain_divisor_ge(4) [OF p] by simp
  moreover have "unat D < 2 ^ bit_length D" using bit_length_bounds [OF nz] by simp
  moreover have "(2 :: nat) ^ bit_length D = 2 * 2 ^ ?i" using plain_divisor_ge(4) [OF p] by (cases "bit_length D") auto
  ultimately show False by linarith
qed

lemma and_one_odd: "D AND 1 \<noteq> 0 \<longleftrightarrow> odd (unat (D :: u64))"
proof -
  have "unat (D AND 1) = unat D mod 2" by (simp add: and_one_eq unat_mod)
  then show ?thesis by (metis even_iff_mod_2_eq_zero unat_eq_zero)
qed

lemma odd_not_dvd_power:
  fixes D :: nat
  assumes "odd D" and "1 < D"
  shows "0 < 2 ^ k mod D"
proof -
  have "coprime D (2 ^ k)" using assms(1) by (simp add: coprime_power_right_iff coprime_right_2_iff_odd)
  then have "\<not> D dvd 2 ^ k" using assms(2) by (metis coprime_absorb_left nat_dvd_1_iff_1 less_irrefl is_unit_gcd coprime_iff_gcd_eq_1)
  then show ?thesis by (simp add: dvd_eq_mod_eq_0)
qed

lemma down_info:
  assumes p: "plain_divisor D U" and e: "bit_length D \<le> e" and od: "odd (unat D)"
    and post: "loop_post (unat D) x (bit_length D) (2 ^ U) (e, q, down)"
  obtains m i where "down = Some (m, i)" and "unat m < 2 ^ U" and "0 < unat m"
    and "\<And>n. n < 2 ^ U \<Longrightarrow> (n + 1) * unat m div 2 ^ U div 2 ^ i = n div unat D"
proof -
  note n = no_up [OF p e post] and g = plain_divisor_ge [OF p]
  let ?l = "bit_length D - 1"
  have nz: "D \<noteq> 0" using p by (simp add: plain_divisor_def)
  have l: "?l < bit_length D" using g(4) by simp
  have "down \<noteq> None"
  proof
    assume "down = None"
    then have "2 ^ ?l < 2 ^ U * 2 ^ ?l mod unat D" using post l n(1,2) by (simp add: loop_post_def down_ok_def)
    moreover have "2 ^ ?l < unat D - 2 ^ U * 2 ^ ?l mod unat D" by (rule n(3) [OF l])
    moreover have "unat D < 2 ^ bit_length D" using bit_length_bounds [OF nz] by simp
    moreover have "(2 :: nat) ^ bit_length D = 2 * 2 ^ ?l" using g(4) by (cases "bit_length D") auto
    ultimately show False by linarith
  qed
  then obtain m i where mi: "down = Some (m, i)" by auto
  then have d: "i < bit_length D" "unat m = 2 ^ U * 2 ^ i div unat D mod 2 ^ 64" "2 ^ U * 2 ^ i mod unat D \<le> 2 ^ i"
    using post n(1,2) by (auto simp: loop_post_def down_ok_def)
  note small = quotient_small [OF p d(1)]
  have U64: "(2 :: nat) ^ U \<le> 2 ^ 64" using p by (intro power_increasing) (auto simp: plain_divisor_def)
  let ?F = "2 ^ U * 2 ^ i :: nat"
  have m: "unat m = ?F div unat D" using d(2) small U64 by simp
  have D1: "1 < unat D" "0 < unat D" using g(1) by linarith+
  have r: "0 < ?F mod unat D" using odd_not_dvd_power [OF od D1(1), of "U + i"] by (simp add: power_add)
  have eq: "unat m * unat D + ?F mod unat D = ?F" unfolding m by (rule div_mult_mod_eq)
  have q: "(n + 1) * unat m div 2 ^ U div 2 ^ i = n div unat D" if "n < 2 ^ U" for n
  proof -
    have "(n + 1) * (?F mod unat D) \<le> ?F" using that d(3) by (intro mult_le_mono) auto
    from div_by_mult_down [OF eq r this D1(2)] show ?thesis by (simp add: div_mult2_eq)
  qed
  have "(2 :: nat) ^ U \<le> ?F" by simp
  then have "unat D \<le> ?F" using p unfolding plain_divisor_def by linarith
  then have "0 < unat m" unfolding m using D1(2) by (simp add: div_greater_zero_iff)
  then show thesis using that [OF mi] small m q by simp
qed

lemma strip_even_spec:
  "D \<noteq> 0 \<Longrightarrow> strip_even D p = (D', p') \<Longrightarrow> p \<le> p' \<and> unat D = unat D' * 2 ^ (p' - p) \<and> odd (unat D')"
proof (induction D p rule: strip_even.induct)
  case (1 D p)
  show ?case
  proof (cases "D AND 1 = 0")
    case True
    let ?h = "drop_bit 1 D"
    have ev: "even (unat D)" using True and_one_odd [of D] by simp
    have h: "unat D = 2 * unat ?h" using ev by (simp add: unat_drop_bit)
    then have "?h \<noteq> 0" using 1(2) unat_eq_zero [of D] by auto
    moreover have "strip_even ?h (p + 1) = (D', p')" using 1(2,3) True by (subst (asm) strip_even.simps) simp
    ultimately have i: "p + 1 \<le> p'" "unat ?h = unat D' * 2 ^ (p' - (p + 1))" "odd (unat D')"
      using 1(1) [OF _ _] 1(2) True by auto
    have "p' - p = Suc (p' - (p + 1))" using i(1) by simp
    then show ?thesis using i h by simp
  next
    case False
    then have "D' = D" "p' = p" using 1(3) by (auto simp: strip_even.simps)
    then show ?thesis using False and_one_odd [of D] by simp
  qed
qed

text \<open>What makes an info right for numerators of \<open>N\<close> bits and a divisor \<open>D\<close>.\<close>

definition udiv_info_ok :: "nat \<Rightarrow> nat \<Rightarrow> nat \<Rightarrow> util_fast_udiv_info \<Rightarrow> bool" where
  "udiv_info_ok U N D info =
     ((\<forall>n < 2 ^ N. udiv_apply U info n = n div D) \<and>
      0 < unat (multiplier info) \<and> unat (multiplier info) < 2 ^ U \<and>
      (increment info = 0 \<or> increment info = 1 \<and> pre_shift info = 0) \<and>
      (increment info = 1 \<longrightarrow> D \<noteq> 1 \<longrightarrow>
         (2 ^ U - 1) * unat (multiplier info) div 2 ^ U div 2 ^ post_shift info = (2 ^ U - 1) div D))"

lemma compute_unfold:
  assumes "plain_divisor D U" and "0 < N" "N \<le> U"
    and "magic_loop D (U - N) (bit_length D) 0 (push_bit (U - 1) 1 div D) (push_bit (U - 1) 1 mod D) None = (e, q, down)"
  shows "util_compute_fast_udiv_info D N U =
    (if e < bit_length D then Some \<lparr>multiplier = q + 1, pre_shift = 0, post_shift = e, increment = 0\<rparr>
     else if D AND 1 \<noteq> 0
     then (case down of None \<Rightarrow> None
           | Some (m, i) \<Rightarrow> Some \<lparr>multiplier = m, pre_shift = 0, post_shift = i, increment = 1\<rparr>)
     else case util_compute_fast_udiv_info (fst (strip_even D 0)) (N - snd (strip_even D 0)) U of
            None \<Rightarrow> None
          | Some result \<Rightarrow> if increment result = 0 \<and> pre_shift result = 0
                           then Some (result\<lparr>pre_shift := snd (strip_even D 0)\<rparr>) else None)"
  using assms unfolding plain_divisor_def by (subst util_compute_fast_udiv_info.simps) (simp add: Let_def)

lemma udiv_info_narrow:
  assumes p: "plain_divisor D U" and N: "0 < N" "N < U"
  obtains info where "util_compute_fast_udiv_info D N U = Some info" and "increment info = 0" and "pre_shift info = 0"
    and "udiv_info_ok U N (unat D) info"
proof -
  obtain e q down where m: "magic_loop D (U - N) (bit_length D) 0 (push_bit (U - 1) 1 div D) (push_bit (U - 1) 1 mod D) None = (e, q, down)"
    by (metis prod_cases3)
  have post: "loop_post (unat D) (U - N) (bit_length D) (2 ^ U) (e, q, down)" using magic_init [OF p, of "U - N"] m by simp
  have e: "e < bit_length D" using no_up(1) [OF p _ post] N by (metis diff_is_0_eq not_less)
  note up = up_info [OF p less_imp_le [OF N(2)] e post]
  have z: "(0 :: nat) < 2 ^ N" by simp
  let ?i = "\<lparr>multiplier = q + 1, pre_shift = 0, post_shift = e, increment = 0\<rparr>"
  have "util_compute_fast_udiv_info D N U = Some ?i" using compute_unfold [OF p N(1) less_imp_le [OF N(2)] m] e by simp
  moreover have "udiv_info_ok U N (unat D) ?i" using up by (simp add: udiv_info_ok_def udiv_apply_def up(1,2) [OF z])
  ultimately show thesis using that by simp
qed

lemma strip_even_plain:
  assumes p: "plain_divisor D U" and ev: "D AND 1 = 0" and s: "strip_even D 0 = (D', sh)"
  shows "plain_divisor D' U" and "0 < sh" and "sh < U" and "unat D = unat D' * 2 ^ sh"
proof -
  have nz: "D \<noteq> 0" and np: "\<not> (\<exists>k. unat D = 2 ^ k)" and lt: "unat D < 2 ^ U" and U: "U \<le> 64"
    using p power_of_two_or_zero_unat by (auto simp: plain_divisor_def)
  have e: "unat D = unat D' * 2 ^ sh" and od: "odd (unat D')" using strip_even_spec [OF nz s] by auto
  show "unat D = unat D' * 2 ^ sh" by (rule e)
  show "0 < sh" using ev od e and_one_odd [of D] by (cases sh) auto
  have D': "D' \<noteq> 0" using od by auto
  have "1 * 2 ^ sh \<le> unat D" unfolding e using od by (intro mult_le_mono1) presburger
  then have "(2 :: nat) ^ sh < 2 ^ U" using lt by linarith
  then show "sh < U" by (rule power_less_imp_less_exp [rotated]) simp
  have "\<not> (\<exists>k. unat D' = 2 ^ k)" using np e by (metis power_add)
  moreover have "unat D' \<le> unat D" unfolding e by simp
  ultimately show "plain_divisor D' U" using D' lt U power_of_two_or_zero_unat [OF D'] by (simp add: plain_divisor_def)
qed

lemma udiv_info_full:
  assumes p: "plain_divisor D U"
  shows "\<exists>info. util_compute_fast_udiv_info D U U = Some info \<and> udiv_info_ok U U (unat D) info"
proof -
  have U: "0 < U" using plain_divisor_ge(2) [OF p] by simp
  obtain e q down where m: "magic_loop D (U - U) (bit_length D) 0 (push_bit (U - 1) 1 div D) (push_bit (U - 1) 1 mod D) None = (e, q, down)"
    by (metis prod_cases3)
  have post: "loop_post (unat D) (U - U) (bit_length D) (2 ^ U) (e, q, down)" using magic_init [OF p, of "U - U"] m by simp
  note c = compute_unfold [OF p U order.refl m]
  consider (up) "e < bit_length D" | (down) "bit_length D \<le> e" "D AND 1 \<noteq> 0" | (even) "bit_length D \<le> e" "D AND 1 = 0"
    by linarith
  then show ?thesis
  proof cases
    case up
    have z: "(0 :: nat) < 2 ^ U" by simp
    show ?thesis using c up up_info [OF p order.refl up post]
      by (simp add: udiv_info_ok_def udiv_apply_def up_info(1,2) [OF p order.refl up post z])
  next
    case down
    obtain m i where d: "down = Some (m, i)" "unat m < 2 ^ U" "0 < unat m"
        "\<And>n. n < 2 ^ U \<Longrightarrow> (n + 1) * unat m div 2 ^ U div 2 ^ i = n div unat D"
      using down_info [OF p down(1) _ post] and_one_odd [of D] down(2) by metis
    have nd: "\<not> unat D dvd 2 ^ U - 1" by (rule no_up_not_dvd [OF p no_up(3) [OF p down(1) post]])
    have g: "(1 :: nat) < 2 ^ U" using one_less_power [of "2 :: nat" U] U by simp
    have e': "2 ^ U - 1 - 1 + 1 = 2 ^ U - (1 :: nat)" and lt: "2 ^ U - 1 - 1 < (2 :: nat) ^ U" using g by linarith+
    have "(2 ^ U - 1) * unat m div 2 ^ U div 2 ^ i = (2 ^ U - 1 - 1) div unat D"
      using d(4) [OF lt] unfolding e' .
    also have "\<dots> = (2 ^ U - 1) div unat D" using g by (intro div_pred_not_dvd [OF nd]) simp
    finally show ?thesis using c d down by (simp add: udiv_info_ok_def udiv_apply_def)
  next
    case even
    obtain D' sh where s: "strip_even D 0 = (D', sh)" by fastforce
    note se = strip_even_plain [OF p even(2) s]
    obtain info where i: "util_compute_fast_udiv_info D' (U - sh) U = Some info" "increment info = 0" "pre_shift info = 0"
        "udiv_info_ok U (U - sh) (unat D') info"
      using udiv_info_narrow [OF se(1), of "U - sh"] se(2,3) by auto
    let ?i = "info\<lparr>pre_shift := sh\<rparr>"
    have "util_compute_fast_udiv_info D U U = Some ?i" using c even s i by simp
    moreover have "udiv_apply U ?i n = n div unat D" if "n < 2 ^ U" for n
    proof -
      have "n div 2 ^ sh < 2 ^ (U - sh)" using that se(3) by (intro less_mult_imp_div_less) (simp flip: power_add)
      then have "udiv_apply U info (n div 2 ^ sh) = n div 2 ^ sh div unat D'" using i(4) by (simp add: udiv_info_ok_def)
      then show ?thesis using i(2,3) by (simp add: udiv_apply_def se(4) div_mult2_eq [symmetric] mult.commute)
    qed
    ultimately show ?thesis using i(2,4) by (auto simp: udiv_info_ok_def)
  qed
qed

lemma uintN_max_unat:
  assumes "0 < U" and "U \<le> 64"
  shows "unat (u_uintN_max U) = 2 ^ U - 1"
proof -
  let ?a = "2 ^ (64 - U) :: nat" and ?b = "2 ^ U :: nat"
  have "?a * ?b = 2 ^ 64" using assms(2) by (simp flip: power_add)
  moreover have "?a * ?b = (?b - 1) * ?a + ?a" by (simp add: algebra_simps)
  moreover have "0 < ?a" by simp
  ultimately have "2 ^ 64 - 1 = (?b - 1) * ?a + (?a - 1)" "?a - 1 < ?a" by linarith+
  from div_mod_eqI(1) [OF this] show ?thesis
    unfolding u_uintN_max_def unat_drop_bit by (simp add: unsigned_minus_1_eq_mask mask_eq_exp_minus_1)
qed

lemma udiv_info_pot:
  assumes D: "D \<noteq> 0" and pot: "util_is_power_of_two_or_zero64 D" and lt: "unat D < 2 ^ U" and U: "U \<le> 64" and N: "0 < N" "N \<le> U"
  shows "\<exists>info. util_compute_fast_udiv_info D N U = Some info \<and> udiv_info_ok U N (unat D) info \<and>
           (D \<noteq> 1 \<longrightarrow> increment info = 0 \<and> pre_shift info = 0)"
proof -
  obtain s where s: "unat D = 2 ^ s" using pot power_of_two_or_zero_unat [OF D] by auto
  note w = power_of_two_word [OF s]
  have sU: "s < U" using lt s by (metis power_less_imp_less_exp one_less_numeral_iff semiring_norm(76))
  show ?thesis
  proof (cases "s = 0")
    case True
    have c: "util_compute_fast_udiv_info D N U = Some \<lparr>multiplier = u_uintN_max U, pre_shift = 0, post_shift = 0, increment = 1\<rparr>"
      using D pot N w(3) True by (subst util_compute_fast_udiv_info.simps) simp
    have m: "unat (u_uintN_max U) = 2 ^ U - 1" using U N by (intro uintN_max_unat) auto
    have P: "(2 :: nat) ^ U - 1 \<noteq> 0" using one_less_power [of "2 :: nat" U] N by simp
    have "(n + 1) * (2 ^ U - 1) div 2 ^ U = n" if "n < 2 ^ N" for n :: nat
    proof -
      have "n < 2 ^ U" using that N(2) by (meson less_le_trans one_le_numeral power_increasing)
      then have "(n + 1) * (2 ^ U - 1) = n * 2 ^ U + (2 ^ U - 1 - n)" by (simp add: algebra_simps diff_mult_distrib2)
      moreover have "2 ^ U - 1 - n < (2 :: nat) ^ U" by (simp add: less_imp_diff_less)
      ultimately show ?thesis by (rule div_mod_eqI(1))
    qed
    moreover have "D = 1" using s True by (simp add: word_unat_eq_iff)
    ultimately show ?thesis using c m P s True by (simp add: udiv_info_ok_def udiv_apply_def)
  next
    case False
    have c: "util_compute_fast_udiv_info D N U = Some \<lparr>multiplier = push_bit (U - s) 1, pre_shift = 0, post_shift = 0, increment = 0\<rparr>"
      using D pot N w(3) False by (subst util_compute_fast_udiv_info.simps) simp
    have m: "unat (push_bit (U - s) 1 :: u64) = 2 ^ (U - s)" using U False sU by (intro unat_push_bit_one) simp
    have "(2 :: nat) ^ U = 2 ^ (U - s) * 2 ^ s" using sU by (simp flip: power_add)
    then have "n * 2 ^ (U - s) div 2 ^ U = n div 2 ^ s" for n :: nat by (simp add: mult.commute)
    moreover have "(2 :: nat) ^ (U - s) < 2 ^ U" using False sU by simp
    ultimately show ?thesis using c m s by (simp add: udiv_info_ok_def udiv_apply_def)
  qed
qed

text \<open>Every divisor of up to \<open>U\<close> bits has an info, and it is right.\<close>

lemma udiv_info_total:
  assumes "D \<noteq> 0" and "unat D < 2 ^ U" and "U \<le> 64" and "0 < N" "N \<le> U"
  shows "\<exists>info. util_compute_fast_udiv_info D N U = Some info \<and> udiv_info_ok U N (unat D) info"
proof (cases "util_is_power_of_two_or_zero64 D")
  case True
  then show ?thesis using udiv_info_pot assms by blast
next
  case False
  then have p: "plain_divisor D U" using assms by (simp add: plain_divisor_def)
  show ?thesis
  proof (cases "N = U")
    case True
    then show ?thesis using udiv_info_full [OF p] by simp
  next
    case False
    then show ?thesis using udiv_info_narrow [OF p assms(4)] assms(5) by (metis le_neq_implies_less)
  qed
qed

section \<open>The 32-bit functions\<close>

lemma mult_high_unat:
  fixes a m :: u64
  assumes "unat a \<le> 2 ^ 32" and "unat m < 2 ^ 32"
  shows "unat (ucast (drop_bit 32 (a * m)) :: u32) = unat a * unat m div 2 ^ 32"
proof -
  have le: "unat a * unat m \<le> 2 ^ 32 * (2 ^ 32 - 1)" using assms by (intro mult_le_mono) auto
  then have "unat (a * m) = unat a * unat m" by (intro unat_mult_small) simp
  moreover have "unat a * unat m div 2 ^ 32 \<le> 2 ^ 32 * (2 ^ 32 - 1) div 2 ^ 32" using le by (rule div_le_mono)
  ultimately show ?thesis by (simp add: unat_ucast_mod unat_drop_bit)
qed

lemma udiv32_apply:
  assumes "udiv_info_ok 32 N D info"
  shows "unat (util_fast_udiv32 n info) = udiv_apply 32 info (unat n)"
proof -
  let ?n = "drop_bit (pre_shift info) n" and ?i = "of_nat (increment info) :: u64"
  have inc: "increment info \<le> 1" and m: "unat (multiplier info) < 2 ^ 32" using assms by (auto simp: udiv_info_ok_def)
  have ui: "unat ?i = increment info" using inc by (intro unat_of_nat_lt) simp
  have lt: "unat ?n < 2 ^ 32" using unat_lt_32 [of ?n] by simp
  have a: "unat (ucast ?n + ?i) = unat n div 2 ^ pre_shift info + increment info"
    using lt inc ui by (subst unat_add_u64) (simp_all add: unat_ucast_up unat_drop_bit)
  have le: "unat (ucast ?n + ?i) \<le> 2 ^ 32" using lt inc unfolding a by (simp add: unat_drop_bit)
  show ?thesis
    unfolding util_fast_udiv32_def Let_def unat_drop_bit mult_high_unat [OF le m] a udiv_apply_def ..
qed

lemma udiv32_nuw_eq:
  assumes "udiv_info_ok 32 N D info" and "n \<noteq> 4294967295"
  shows "util_fast_udiv32_nuw n info = Some (util_fast_udiv32 n info)"
proof -
  let ?n = "drop_bit (pre_shift info) n"
  have inc: "increment info \<le> 1" using assms(1) by (auto simp: udiv_info_ok_def)
  have "unat n \<noteq> 4294967295" using assms(2) by (auto simp: word_unat_eq_iff)
  then have "unat n < 4294967295" using unat_lt_32 [of n] by linarith
  then have "unat ?n < 4294967295" unfolding unat_drop_bit by (meson div_le_dividend le_less_trans)
  then have "unat (?n + of_nat (increment info)) = unat ?n + increment info"
    using inc by (simp add: unat_word_ariths unsigned_of_nat take_bit_nat_eq_self)
  then have "(ucast (?n + of_nat (increment info)) :: u64) = ucast ?n + of_nat (increment info)"
    using inc unat_lt_32 [of ?n]
    by (simp add: word_unat_eq_iff unat_ucast_up unat_add_u64 unsigned_of_nat take_bit_nat_eq_self)
  then show ?thesis using assms(2) by (simp add: util_fast_udiv32_nuw_def util_fast_udiv32_def Let_def)
qed

lemma udiv32_u31_eq:
  assumes "udiv_info_ok 32 N D info" and "increment info = 0" and "pre_shift info = 0"
  shows "util_fast_udiv32_u31_d_not_one n info = Some (util_fast_udiv32 n info)"
  using assms(2,3) by (simp add: util_fast_udiv32_u31_d_not_one_def util_fast_udiv32_def Let_def)

text \<open>
  Property C26.  Division by a constant: for every divisor but zero the computation of the
  multiplier ends with its assertions satisfied, and for every 32-bit numerator applying it
  gives the quotient; the variant without wrap-around agrees below the maximum.
\<close>
theorem util_fast_udiv32_correct:
  fixes n d :: u32
  assumes "d \<noteq> 0"
  shows "\<exists>info. util_compute_fast_udiv_info (ucast d) 32 32 = Some info \<and>
           util_fast_udiv32 n info = n div d \<and>
           (n \<noteq> 4294967295 \<longrightarrow> util_fast_udiv32_nuw n info = Some (n div d))"
proof -
  have ud: "unat (ucast d :: u64) = unat d" by (simp add: unat_ucast_up)
  have "(ucast d :: u64) \<noteq> 0" using assms ud by (metis unat_0 unat_eq_zero)
  then obtain info where i: "util_compute_fast_udiv_info (ucast d) 32 32 = Some info" "udiv_info_ok 32 32 (unat d) info"
    using udiv_info_total [of "ucast d" 32 32] ud unat_lt_32 [of d] by auto
  have "unat (util_fast_udiv32 n info) = unat n div unat d"
    using i(2) unat_lt_32 [of n] unfolding udiv32_apply [OF i(2)] by (simp add: udiv_info_ok_def)
  then have "util_fast_udiv32 n info = n div d" by (simp add: word_unat_eq_iff unat_div)
  then show ?thesis using i(1) udiv32_nuw_eq [OF i(2)] by auto
qed

theorem util_fast_udiv32_correct_witness:
  "\<exists>info. util_compute_fast_udiv_info (ucast (7 :: u32)) 32 32 = Some info \<and>
     util_fast_udiv32 4294967295 info = 613566756"
  using util_fast_udiv32_correct [of 7 4294967295] by auto

text \<open>
  With one bit to spare the cheapest sequence suffices: for 31-bit numerators and
  divisors of at least two the info needs neither a pre-shift nor an increment.
\<close>
theorem util_fast_udiv32_u31_correct:
  fixes n d :: u32
  assumes "2 \<le> d" and "d < 2147483648" and "n < 2147483648"
  shows "\<exists>info. util_compute_fast_udiv_info (ucast d) 31 32 = Some info \<and>
           util_fast_udiv32_u31_d_not_one n info = Some (n div d)"
proof -
  let ?d = "ucast d :: u64"
  have ud: "unat ?d = unat d" by (simp add: unat_ucast_up)
  have ge: "2 \<le> unat d" using assms(1) by (simp add: word_le_nat_alt)
  then have nz: "?d \<noteq> 0" "?d \<noteq> 1" using ud by auto
  have lt: "unat ?d < 2 ^ 32" using ud unat_lt_32 [of d] by simp
  obtain info where i: "util_compute_fast_udiv_info ?d 31 32 = Some info" "udiv_info_ok 32 31 (unat d) info"
      "increment info = 0" "pre_shift info = 0"
  proof (cases "util_is_power_of_two_or_zero64 ?d")
    case True
    then show thesis using udiv_info_pot [OF nz(1) True lt, of 31] nz(2) ud that by auto
  next
    case False
    then have "plain_divisor ?d 32" using nz(1) lt by (simp add: plain_divisor_def)
    then show thesis using udiv_info_narrow [of ?d 32 31] ud that by auto
  qed
  have "unat n < 2 ^ 31" using assms(3) by (simp add: word_less_nat_alt)
  then have "unat (util_fast_udiv32 n info) = unat n div unat d"
    using i(2) unfolding udiv32_apply [OF i(2)] by (simp add: udiv_info_ok_def)
  then have "util_fast_udiv32 n info = n div d" by (simp add: word_unat_eq_iff unat_div)
  then show ?thesis using i(1) udiv32_u31_eq [OF i(2-4)] by auto
qed

theorem util_fast_udiv32_u31_correct_witness:
  "\<exists>info. util_compute_fast_udiv_info (ucast (7 :: u32)) 31 32 = Some info \<and>
     util_fast_udiv32_u31_d_not_one 2147483647 info = Some 306783378"
  using util_fast_udiv32_u31_correct [of 7 2147483647] by simp

end
