(* ===== verification/Fast_Sdiv.thy ===== *)
theory Fast_Sdiv
  imports Fast_Idiv "HOL-Library.Signed_Division"
begin

text \<open>
  Signed division by a constant: \<open>util_compute_fast_sdiv_info\<close> of
  \<open>src/src/util/fast_idiv_by_const.c\<close>.  The 64-bit integers are words; \<open>None\<close> is a failed
  assertion or a loop that does not end.
\<close>

section \<open>The computation\<close>

record util_fast_sdiv_info =
  s_multiplier :: u64
  s_shift :: nat

text \<open>Doubling a quotient and a remainder, as the loop does for both pairs.\<close>

definition sdiv_double :: "u64 \<Rightarrow> u64 \<Rightarrow> u64 \<Rightarrow> u64 \<times> u64" where
  "sdiv_double d q r =
     (let q = q * 2; r = r * 2 in if d \<le> r then (q + 1, r - d) else (q, r))"

partial_function (option) sdiv_loop ::
  "u64 \<Rightarrow> u64 \<Rightarrow> nat \<Rightarrow> u64 \<Rightarrow> u64 \<Rightarrow> u64 \<Rightarrow> u64 \<Rightarrow> (nat \<times> u64) option" where
  "sdiv_loop abs_d abs_test_numer exponent quot1 rmd1 quot2 rmd2 =
     (let exponent = exponent + 1;
          (quot1, rmd1) = sdiv_double abs_test_numer quot1 rmd1;
          (quot2, rmd2) = sdiv_double abs_d quot2 rmd2;
          delta = abs_d - rmd2
      in if quot1 < delta \<or> (quot1 = delta \<and> rmd1 = 0)
         then sdiv_loop abs_d abs_test_numer exponent quot1 rmd1 quot2 rmd2
         else Some (exponent, quot2))"

definition util_mask_sign_extend :: "u64 \<Rightarrow> nat \<Rightarrow> u64 option" where
  "util_mask_sign_extend val width = do {
     c_assert (0 < width \<and> width \<le> 64);
     let shift = 64 - width;
     Some (signed_drop_bit shift (push_bit shift val))
   }"

definition util_sign_extend :: "u64 \<Rightarrow> nat \<Rightarrow> u64 option" where
  "util_sign_extend val width = do {
     c_assert (width = 64 \<or> val < push_bit width 1);
     util_mask_sign_extend val width
   }"

text \<open>\<open>D\<close> is an \<open>int64_t\<close>; its sign is that of \<open>sint\<close>.\<close>

definition util_compute_fast_sdiv_info :: "u64 \<Rightarrow> nat \<Rightarrow> util_fast_sdiv_info option" where
  "util_compute_fast_sdiv_info D SINT_BITS = do {
     c_assert (D \<noteq> 0);
     c_assert (D \<noteq> 1 \<and> D \<noteq> - 1);
     let abs_d = (if sint D < 0 then - D else D);
     let exponent = SINT_BITS - 1;
     let initial_power_of_2 = push_bit exponent 1;
     let tmp = initial_power_of_2 + (if sint D < 0 then 1 else 0);
     let abs_test_numer = tmp - 1 - tmp mod abs_d;
     (exponent, quot2) \<leftarrow>
       sdiv_loop abs_d abs_test_numer exponent
         (initial_power_of_2 div abs_test_numer) (initial_power_of_2 mod abs_test_numer)
         (initial_power_of_2 div abs_d) (initial_power_of_2 mod abs_d);
     m \<leftarrow> util_sign_extend (quot2 + 1) SINT_BITS;
     Some \<lparr>s_multiplier = (if sint D < 0 then - m else m), s_shift = exponent - SINT_BITS\<rparr>
   }"

section \<open>Arithmetic of the signed multiplier\<close>

text \<open>
  \<open>nc\<close> is the test numerator: it is \<open>d - 1\<close> modulo \<open>d\<close>, and the numerators lie below the next
  such number.
\<close>

lemma sdiv_upper:
  fixes d nc e P M n :: nat
  assumes M: "M * d = P + e" and e: "nc * e < P" and nc: "d - 1 \<le> nc" "d dvd nc + 1" and n: "n < nc + d" and d: "0 < d"
  shows "n * M < (n div d + 1) * P"
proof -
  let ?r = "n mod d"
  have rd: "?r < d" using d by simp
  have ne: "n * e < (d - ?r) * P"
  proof (cases "n \<le> nc")
    case True
    then have "n * e \<le> nc * e" by (rule mult_le_mono1)
    also have "\<dots> < P" by (rule e)
    also have "\<dots> = 1 * P" by simp
    also have "\<dots> \<le> (d - ?r) * P" using rd by (intro mult_le_mono1) simp
    finally show ?thesis .
  next
    case False
    define r where "r = n - (nc + 1)"
    have nr: "n = nc + 1 + r" and r: "r < d - 1" using False n by (auto simp: r_def)
    obtain k where "nc + 1 = d * k" using nc(2) by blast
    then have "n = d * k + r" unfolding nr by simp
    then have "?r = r" using r by simp
    have "(1 + r) * e \<le> nc * e" using r nc(1) by (intro mult_le_mono1) simp
    then have "n * e < P + P" using e unfolding nr by (simp add: algebra_simps)
    also have "\<dots> = 2 * P" by simp
    also have "\<dots> \<le> (d - ?r) * P" using r \<open>?r = r\<close> by (intro mult_le_mono1) simp
    finally show ?thesis .
  qed
  have "(n div d + 1) * d = n + (d - ?r)" using div_mult_mod_eq [of n d] rd unfolding distrib_right mult_1 by linarith
  then have "(n div d + 1) * P * d = n * P + (d - ?r) * P" by (metis distrib_right mult.assoc mult.commute)
  moreover have "n * M * d = n * P + n * e" using M by (metis distrib_left mult.assoc)
  ultimately have "n * M * d < (n div d + 1) * P * d" using ne by linarith
  then show ?thesis by simp
qed

lemma sdiv_lower:
  fixes d e P M n :: nat
  assumes M: "M * d = P + e" and e: "0 < e" and n: "0 < n" and d: "0 < d"
  shows "n div d * P < n * M"
proof -
  have "n div d * P * d \<le> n * P" using mult_le_mono1 [of "n div d * d" n P] by (simp add: mult_ac)
  moreover have "n * M * d = n * P + n * e" using M by (metis distrib_left mult.assoc)
  moreover have "0 < n * e" using e n by simp
  ultimately have "n div d * P * d < n * M * d" by linarith
  then show ?thesis by simp
qed

text \<open>A numerator of \<open>2 ^ w\<close> that is itself \<open>d - 1\<close> modulo \<open>d\<close>.\<close>

lemma sdiv_upper_power:
  fixes d e P M w j :: nat
  assumes M: "M * d = P + e" and P: "P = 2 ^ w * 2 ^ j" and e: "e = d - P mod d" and w: "2 ^ w mod d = d - 1" and d: "1 < d"
  shows "2 ^ w * M \<le> (2 ^ w div d + 1) * P"
proof -
  have "2 ^ w * e \<le> P"
  proof (cases "2 ^ j < d")
    case True
    have "(2 ^ w + 1) mod d = 0" using w d by (simp add: mod_Suc)
    then have "d dvd (2 ^ w + 1) * 2 ^ j" by (simp only: mod_eq_0_iff_dvd dvd_mult2)
    moreover have "(2 ^ w + 1) * 2 ^ j = P + 2 ^ j" unfolding P distrib_right by simp
    ultimately have "d dvd P mod d + 2 ^ j" by (metis mod_add_left_eq mod_eq_0_iff_dvd)
    then obtain k where k: "P mod d + 2 ^ j = d * k" by blast
    moreover have "P mod d + 2 ^ j < d * 2" using d True mod_less_divisor [of d P] by linarith
    ultimately have "k < 2" by simp
    moreover have "k \<noteq> 0" using k by (intro notI) simp
    ultimately have "P mod d + 2 ^ j = d" using k by (simp add: numeral_2_eq_2 less_Suc_eq)
    then have "P mod d = d - 2 ^ j" by linarith
    then have "e = 2 ^ j" using e True by simp
    then show ?thesis using P by simp
  next
    case False
    have "e \<le> d" using e by simp
    then show ?thesis unfolding P using False by (intro mult_le_mono2) simp
  qed
  have "(2 ^ w div d + 1) * d = 2 ^ w + 1" using div_mult_mod_eq [of "2 ^ w" d] w d unfolding distrib_right mult_1 by linarith
  then have "(2 ^ w div d + 1) * P * d = 2 ^ w * P + P" by (metis distrib_right mult.assoc mult.commute mult_1)
  moreover have "2 ^ w * M * d = 2 ^ w * P + 2 ^ w * e" using M by (metis distrib_left mult.assoc)
  ultimately have "2 ^ w * M * d \<le> (2 ^ w div d + 1) * P * d" using \<open>2 ^ w * e \<le> P\<close> by linarith
  then show ?thesis using d by simp
qed

section \<open>The loop\<close>

lemma dividend_double:
  fixes X D :: nat
  assumes "0 < D"
  shows "2 * X div D = (if D \<le> 2 * (X mod D) then 2 * (X div D) + 1 else 2 * (X div D))"
    and "2 * X mod D = (if D \<le> 2 * (X mod D) then 2 * (X mod D) - D else 2 * (X mod D))"
proof -
  let ?q = "X div D" and ?r = "X mod D"
  have "?q * D + ?r = X" by simp
  then have X: "2 * X = 2 * ?q * D + 2 * ?r" unfolding mult.assoc by linarith
  have r: "?r < D" using assms by simp
  have "2 * X = (if D \<le> 2 * ?r then 2 * ?q + 1 else 2 * ?q) * D + (if D \<le> 2 * ?r then 2 * ?r - D else 2 * ?r)"
    unfolding X by (simp add: distrib_right)
  moreover have "(if D \<le> 2 * ?r then 2 * ?r - D else 2 * ?r) < D" using r by auto
  ultimately show "2 * X div D = (if D \<le> 2 * ?r then 2 * ?q + 1 else 2 * ?q)"
      and "2 * X mod D = (if D \<le> 2 * ?r then 2 * ?r - D else 2 * ?r)"
    by (rule div_mod_eqI)+
qed

lemma sdiv_double_spec:
  assumes q: "unat q = X div unat D" and r: "unat r = X mod unat D" and D: "0 < unat D" "unat D \<le> 2 ^ 63"
    and lt: "2 * (X div unat D) + 1 < 2 ^ 64"
    and s: "sdiv_double D q r = (q', r')"
  shows "unat q' = 2 * X div unat D" and "unat r' = 2 * X mod unat D"
proof -
  have "X mod unat D < unat D" using D(1) by simp
  then have r2: "unat (r * 2) = 2 * (X mod unat D)" using D(2) r by (subst unat_mult_small) simp_all
  have q2: "unat (q * 2) = 2 * (X div unat D)" using lt q by (subst unat_mult_small) simp_all
  have q21: "unat (q * 2 + 1) = 2 * (X div unat D) + 1" using lt q2 by (subst unat_add_u64) simp_all
  have "D \<le> r * 2 \<longleftrightarrow> unat D \<le> 2 * (X mod unat D)" by (simp add: word_le_nat_alt r2)
  moreover from this have "D \<le> r * 2 \<Longrightarrow> unat (r * 2 - D) = 2 * (X mod unat D) - unat D"
    by (simp add: unat_sub r2)
  ultimately show "unat q' = 2 * X div unat D" and "unat r' = 2 * X mod unat D"
    using s unfolding dividend_double [OF D(1)] sdiv_double_def Let_def by (auto simp: q2 q21 r2 split: if_splits)
qed

text \<open>The condition of the loop compares \<open>2 ^ exponent\<close> with the test numerator times \<open>delta\<close>.\<close>

lemma le_mult_div_iff:
  fixes X a b :: nat
  assumes "0 < a"
  shows "X \<le> a * b \<longleftrightarrow> X div a < b \<or> X div a = b \<and> X mod a = 0"
proof (cases "X div a" b rule: linorder_cases)
  case less
  then have "(X div a + 1) * a \<le> b * a" by (intro mult_le_mono1) simp
  moreover have "X < (X div a + 1) * a" using assms dividend_less_div_times [OF assms, of X] by simp
  ultimately have "X \<le> b * a" by linarith
  then show ?thesis using less by (simp add: mult.commute)
next
  case equal
  have "X = a * b + X mod a" using equal by (metis mult_div_mod_eq)
  then have "X \<le> a * b \<longleftrightarrow> X mod a = 0" by linarith
  then show ?thesis using equal by simp
next
  case greater
  then have "a * (b + 1) \<le> a * (X div a)" by (intro mult_le_mono2) simp
  also have "\<dots> \<le> X" by simp
  finally have "a * b < X" using assms unfolding distrib_left by linarith
  then show ?thesis using greater by simp
qed

text \<open>The divisors of the general case: no power of two, and below \<open>2 ^ w\<close>.\<close>

definition sdiv_shape :: "nat \<Rightarrow> nat \<Rightarrow> nat \<Rightarrow> bool" where
  "sdiv_shape w d nc \<longleftrightarrow> 2 \<le> w \<and> w \<le> 63 \<and> 3 \<le> d \<and> d < 2 ^ w \<and> (\<forall>k. \<not> d dvd 2 ^ k) \<and>
     d - 1 \<le> nc \<and> nc \<le> 2 ^ w \<and> d dvd nc + 1 \<and> 2 ^ w \<le> nc + d"

definition sdiv_delta :: "nat \<Rightarrow> nat \<Rightarrow> nat" where
  "sdiv_delta d e = d - 2 ^ e mod d"

definition sdiv_inv :: "nat \<Rightarrow> nat \<Rightarrow> nat \<Rightarrow> nat \<Rightarrow> bool" where
  "sdiv_inv w d nc e \<longleftrightarrow> w \<le> e \<and> 2 ^ e \<le> nc * d \<and> 2 * 2 ^ e div d + 1 < 2 ^ (w + 1)"

lemma sdiv_delta_less:
  assumes "sdiv_shape w d nc"
  shows "sdiv_delta d e < d" and "0 < sdiv_delta d e"
proof -
  have "2 ^ e mod d \<noteq> 0" using assms by (auto simp: sdiv_shape_def mod_eq_0_iff_dvd)
  moreover have "2 ^ e mod d < d" using assms by (auto simp: sdiv_shape_def)
  ultimately show "sdiv_delta d e < d" "0 < sdiv_delta d e" by (auto simp: sdiv_delta_def)
qed

lemma sdiv_inv_init:
  assumes "sdiv_shape w d nc"
  shows "sdiv_inv w d nc w"
proof -
  have d: "3 \<le> d" "d - 1 \<le> nc" and le: "2 ^ w \<le> nc + d" and w: "2 \<le> w" using assms by (auto simp: sdiv_shape_def)
  have "nc + d \<le> nc * d"
  proof -
    have "2 \<le> nc" using d by simp
    then have "nc * 3 + 2 * (d - 3) \<le> nc * 3 + nc * (d - 3)" by simp
    also have "\<dots> = nc * d" using d(1) by (simp flip: distrib_left)
    finally show ?thesis using d by linarith
  qed
  moreover have "2 * 2 ^ w div d + 1 < 2 ^ (w + 1)"
  proof -
    have "2 * 2 ^ w div d \<le> 2 * 2 ^ w div (3 :: nat)" using d by (intro div_le_mono2) auto
    moreover have "(2 :: nat) ^ 2 \<le> 2 ^ w" using w by (intro power_increasing) auto
    ultimately show ?thesis by simp
  qed
  ultimately show ?thesis using le by (auto simp: sdiv_inv_def)
qed

lemma sdiv_inv_step:
  assumes sh: "sdiv_shape w d nc" and e: "w \<le> e" and le: "2 ^ e \<le> nc * sdiv_delta d e"
  shows "sdiv_inv w d nc e" and "e < 2 * w"
proof -
  have d: "3 \<le> d" "d - 1 \<le> nc" "nc \<le> 2 ^ w" "d < 2 ^ w" using sh by (auto simp: sdiv_shape_def)
  have "nc * sdiv_delta d e \<le> nc * (d - 1)" using sdiv_delta_less(1) [OF sh, of e] by (intro mult_le_mono2) simp
  then have le1: "2 ^ e \<le> nc * (d - 1)" using le by linarith
  then have led: "2 ^ e \<le> nc * d" by (meson diff_le_self le_trans mult_le_mono2)
  have "2 * 2 ^ e < (2 * nc - 1) * d"
  proof -
    have "nc * d = nc * (d - 1) + nc" using d by (cases d) simp_all
    then have "2 * 2 ^ e + 2 * nc \<le> 2 * (nc * d)" using le1 by linarith
    moreover have "(2 * nc - 1) * d = 2 * (nc * d) - d" by (simp add: diff_mult_distrib)
    moreover have "d < 2 * nc" using d by linarith
    moreover have "d \<le> 2 * (nc * d)" using d by (cases nc) auto
    ultimately show ?thesis by linarith
  qed
  then have "2 * 2 ^ e div d < 2 * nc - 1" by (rule less_mult_imp_div_less)
  then have "2 * 2 ^ e div d + 1 < 2 ^ (w + 1)" using d by simp
  then show "sdiv_inv w d nc e" using e led by (simp add: sdiv_inv_def)
  have "nc * d < 2 ^ w * 2 ^ w" using d by (intro mult_le_less_imp_less) auto
  then have "(2 :: nat) ^ e < 2 ^ (w + w)" using led by (simp only: power_add)
  then show "e < 2 * w" by (simp add: mult_2)
qed

lemma sdiv_loop_ends:
  assumes sh: "sdiv_shape w (unat D) (unat nc)" and inv: "sdiv_inv w (unat D) (unat nc) e"
    and q1: "unat q1 = 2 ^ e div unat nc" and r1: "unat r1 = 2 ^ e mod unat nc"
    and q2: "unat q2 = 2 ^ e div unat D" and r2: "unat r2 = 2 ^ e mod unat D"
  shows "\<exists>p q. sdiv_loop D nc e q1 r1 q2 r2 = Some (p, q) \<and> w < p \<and> unat q = 2 ^ p div unat D \<and>
           unat nc * sdiv_delta (unat D) p < 2 ^ p \<and> unat q + 1 < 2 ^ (w + 1) \<and> p \<le> 2 * w + 1"
  using inv q1 r1 q2 r2
proof (induction "2 * w - e" arbitrary: e q1 r1 q2 r2 rule: less_induct)
  case less
  have w: "w \<le> 63" "3 \<le> unat D" "unat D < 2 ^ w" "unat nc \<le> 2 ^ w" "unat D - 1 \<le> unat nc" using sh by (auto simp: sdiv_shape_def)
  have w64: "(2 :: nat) ^ w \<le> 2 ^ 63" using w by (intro power_increasing) auto
  have e: "w \<le> e" "2 ^ e \<le> unat nc * unat D" "2 * 2 ^ e div unat D + 1 < 2 ^ (w + 1)" using less.prems(1) by (auto simp: sdiv_inv_def)
  obtain q1' r1' where s1: "sdiv_double nc q1 r1 = (q1', r1')" by fastforce
  obtain q2' r2' where s2: "sdiv_double D q2 r2 = (q2', r2')" by fastforce
  have nc0: "0 < unat nc" using w by linarith
  have "2 ^ e div unat nc \<le> unat nc * unat D div unat nc" using e(2) by (rule div_le_mono)
  also have "\<dots> = unat D" using nc0 by simp
  finally have "2 * (2 ^ e div unat nc) + 1 < 2 ^ 64" using w w64 by simp
  then have v1: "unat q1' = 2 ^ (e + 1) div unat nc" "unat r1' = 2 ^ (e + 1) mod unat nc"
    using sdiv_double_spec [OF less.prems(2,3) nc0 _ _ s1] w w64 by simp_all
  have "2 * (2 ^ e div unat D) \<le> 2 * 2 ^ e div unat D" by (subst dividend_double(1)) (use w in auto)
  then have "2 * (2 ^ e div unat D) + 1 < 2 ^ 64" using e(3) w64 by simp
  then have v2: "unat q2' = 2 ^ (e + 1) div unat D" "unat r2' = 2 ^ (e + 1) mod unat D"
    using sdiv_double_spec [OF less.prems(4,5) _ _ _ s2] w w64 by simp_all
  have "unat r2' < unat D" unfolding v2 using w by simp
  then have dl: "unat (D - r2') = sdiv_delta (unat D) (e + 1)"
    by (simp add: unat_sub word_le_nat_alt sdiv_delta_def v2)
  have c: "(q1' < D - r2' \<or> q1' = D - r2' \<and> r1' = 0) \<longleftrightarrow> 2 ^ (e + 1) \<le> unat nc * sdiv_delta (unat D) (e + 1)"
    unfolding le_mult_div_iff [OF nc0] word_less_nat_alt word_unat_eq_iff v1 dl by simp
  show ?case
  proof (cases "2 ^ (e + 1) \<le> unat nc * sdiv_delta (unat D) (e + 1)")
    case True
    note st = sdiv_inv_step [OF sh _ True]
    have "sdiv_loop D nc e q1 r1 q2 r2 = sdiv_loop D nc (e + 1) q1' r1' q2' r2'"
      using True by (subst sdiv_loop.simps) (simp add: s1 s2 c Let_def)
    moreover have "\<exists>p q. sdiv_loop D nc (e + 1) q1' r1' q2' r2' = Some (p, q) \<and> w < p \<and> unat q = 2 ^ p div unat D \<and>
        unat nc * sdiv_delta (unat D) p < 2 ^ p \<and> unat q + 1 < 2 ^ (w + 1) \<and> p \<le> 2 * w + 1"
      using st e(1) v1 v2 by (intro less.hyps) simp_all
    ultimately show ?thesis by simp
  next
    case False
    have "sdiv_loop D nc e q1 r1 q2 r2 = Some (e + 1, q2')"
      using False by (subst sdiv_loop.simps) (simp add: s1 s2 c Let_def)
    moreover have "unat q2' + 1 < 2 ^ (w + 1)" using e(3) unfolding v2 by simp
    moreover have "e \<le> 2 * w"
    proof -
      have "unat nc * unat D < 2 ^ w * 2 ^ w" using w by (intro mult_le_less_imp_less) auto
      then have "(2 :: nat) ^ e < 2 ^ (w + w)" using e(2) by (simp only: power_add)
      then show ?thesis by simp
    qed
    ultimately show ?thesis using e(1) v2 False by simp
  qed
qed

section \<open>The multiplier\<close>

lemma dvd_two_power:
  fixes d :: nat
  shows "d dvd 2 ^ k \<Longrightarrow> \<exists>i. d = 2 ^ i"
proof (induction k arbitrary: d)
  case 0
  then show ?case by (auto intro: exI [of _ 0])
next
  case (Suc k)
  show ?case
  proof (cases "even d")
    case True
    then obtain d' where d': "d = 2 * d'" by blast
    then have "d' dvd 2 ^ k" using Suc.prems by simp
    then obtain i where "d' = 2 ^ i" using Suc.IH by blast
    then show ?thesis using d' by (intro exI [of _ "Suc i"]) simp
  next
    case False
    then have "coprime d 2" by simp
    then have "d dvd 2 ^ k" using Suc.prems by (simp add: coprime_dvd_mult_right_iff)
    then show ?thesis by (rule Suc.IH)
  qed
qed

text \<open>The absolute value of the divisor, and the test numerator.\<close>

definition sdiv_abs :: "u64 \<Rightarrow> u64" where
  "sdiv_abs D = (if sint D < 0 then - D else D)"

definition sdiv_numer :: "u64 \<Rightarrow> nat \<Rightarrow> nat" where
  "sdiv_numer D w = (let t = 2 ^ w + (if sint D < 0 then 1 else 0) in t - 1 - t mod nat \<bar>sint D\<bar>)"

definition sdiv_divisor :: "u64 \<Rightarrow> nat \<Rightarrow> bool" where
  "sdiv_divisor D w \<longleftrightarrow> 2 \<le> w \<and> w \<le> 63 \<and> D \<noteq> 0 \<and> D \<noteq> 1 \<and> D \<noteq> - 1 \<and> \<bar>sint D\<bar> < 2 ^ w \<and>
     \<not> util_is_power_of_two_or_zero64 (sdiv_abs D)"

lemma uint_eq_sint: "0 \<le> sint x \<Longrightarrow> uint x = sint x" for x :: "'a :: len word"
  using sint_less [of x] by (simp add: uint_sint take_bit_int_eq_self_iff) (metis diff_le_self less_le_trans one_le_numeral power_increasing)

lemma unat_sdiv_abs:
  assumes "\<bar>sint D\<bar> < 2 ^ w" and "w \<le> 63"
  shows "unat (sdiv_abs D) = nat \<bar>sint D\<bar>"
proof (cases "sint D < 0")
  case True
  have "(2 :: int) ^ w \<le> 2 ^ 63" using assms(2) by (intro power_increasing) auto
  then have "sint (- D) = - sint D" using assms(1) True by (simp add: sint_word_ariths signed_take_bit_int_eq_self)
  moreover have "uint (- D) = sint (- D)" using True calculation by (intro uint_eq_sint) simp
  ultimately show ?thesis using True by (simp add: sdiv_abs_def flip: nat_uint_eq)
next
  case False
  have "uint D = sint D" using False by (intro uint_eq_sint) simp
  then show ?thesis using False by (simp add: sdiv_abs_def flip: nat_uint_eq)
qed

lemma sdiv_divisor_shape:
  assumes D: "sdiv_divisor D w"
  shows "sdiv_shape w (nat \<bar>sint D\<bar>) (sdiv_numer D w)"
    and "2 ^ w + (if sint D < 0 then 1 else 0) \<le> sdiv_numer D w + nat \<bar>sint D\<bar>"
proof -
  let ?d = "nat \<bar>sint D\<bar>"
  define t where "t = 2 ^ w + (if sint D < 0 then 1 else 0 :: nat)"
  have w: "2 \<le> w" "w \<le> 63" and nz: "D \<noteq> 0" and lt: "\<bar>sint D\<bar> < 2 ^ w"
    and np: "\<not> util_is_power_of_two_or_zero64 (sdiv_abs D)" using D by (auto simp: sdiv_divisor_def)
  note ua = unat_sdiv_abs [OF lt w(2)]
  have nz': "sdiv_abs D \<noteq> 0" using nz by (auto simp: sdiv_abs_def)
  have pow: "?d \<noteq> 2 ^ k" for k using np power_of_two_or_zero_unat [OF nz'] ua by auto
  then have "?d \<noteq> 0" "?d \<noteq> 1" "?d \<noteq> 2" using pow [of 0] pow [of 1] nz by (auto simp: signed_eq_0_iff)
  then have d3: "3 \<le> ?d" by linarith
  have dlt: "?d < 2 ^ w" using lt by (simp add: nat_less_iff)
  have md: "t mod ?d < ?d" using d3 by simp
  have le: "2 ^ w \<le> t" "t \<le> 2 ^ w + 1" by (auto simp: t_def)
  have nc: "sdiv_numer D w = t - 1 - t mod ?d" by (simp only: sdiv_numer_def t_def Let_def)
  have "sdiv_numer D w + 1 = t - t mod ?d" using nc md le dlt by linarith
  then have dv: "?d dvd sdiv_numer D w + 1" by (simp add: minus_mod_eq_mult_div)
  show ge: "2 ^ w + (if sint D < 0 then 1 else 0) \<le> sdiv_numer D w + ?d" unfolding nc using md le dlt unfolding t_def [symmetric] by linarith
  have "?d \<le> sdiv_numer D w + 1" using dv by (intro dvd_imp_le) auto
  then have "?d - 1 \<le> sdiv_numer D w" by linarith
  moreover have "\<not> ?d dvd 2 ^ k" for k using dvd_two_power pow by blast
  moreover have "sdiv_numer D w \<le> 2 ^ w" "2 ^ w \<le> sdiv_numer D w + ?d" using nc ge le t_def by auto
  ultimately show "sdiv_shape w ?d (sdiv_numer D w)" using w d3 dlt dv unfolding sdiv_shape_def by blast
qed

lemma unat_sdiv_numer:
  assumes D: "sdiv_divisor D w"
  defines "t \<equiv> push_bit w 1 + (if sint D < 0 then 1 else 0) :: u64"
  shows "unat (t - 1 - t mod sdiv_abs D) = sdiv_numer D w"
proof -
  have w: "w \<le> 63" and lt: "\<bar>sint D\<bar> < 2 ^ w" and nz: "D \<noteq> 0" using D by (auto simp: sdiv_divisor_def)
  note ua = unat_sdiv_abs [OF lt w]
  have up: "unat (push_bit w 1 :: u64) = 2 ^ w" using w by (intro unat_push_bit_one) simp
  have "(2 :: nat) ^ w \<le> 2 ^ 63" using w by (intro power_increasing) auto
  then have ut: "unat t = 2 ^ w + (if sint D < 0 then 1 else 0)" unfolding t_def using up by (auto simp: unat_add_u64)
  have "nat \<bar>sint D\<bar> < 2 ^ w" using lt by (simp add: nat_less_iff)
  moreover have "unat t mod nat \<bar>sint D\<bar> < nat \<bar>sint D\<bar>" using nz by (simp add: signed_eq_0_iff)
  ultimately have le: "unat (t mod sdiv_abs D) + 1 \<le> unat t" using ut unfolding unat_mod ua by linarith
  then have "t \<noteq> 0" by auto
  then have t1: "unat (t - 1) = unat t - 1" by (simp add: unat_minus_one)
  then have "t mod sdiv_abs D \<le> t - 1" using le by (simp add: word_le_nat_alt)
  then have "unat (t - 1 - t mod sdiv_abs D) = unat t - 1 - unat t mod nat \<bar>sint D\<bar>" by (simp add: unat_sub t1 unat_mod ua)
  then show ?thesis unfolding ut sdiv_numer_def Let_def .
qed

lemma signed_take_bit_nat:
  assumes M: "M < 2 ^ Suc w"
  shows "signed_take_bit w (int M) = (if M < 2 ^ w then int M else int M - 2 ^ Suc w)"
proof -
  have m: "int M < 2 ^ Suc w" using M by (metis of_nat_less_iff of_nat_numeral of_nat_power)
  have "bit M w \<longleftrightarrow> \<not> M < 2 ^ w"
  proof (cases "M < 2 ^ w")
    case False
    then have "M div 2 ^ w = 1" using M by (intro div_nat_eqI) simp_all
    then show ?thesis using False by (simp add: bit_iff_odd)
  qed (simp add: bit_iff_odd)
  then have "bit (int M) w \<longleftrightarrow> \<not> M < 2 ^ w" by (simp add: bit_of_nat_iff)
  moreover have "take_bit (Suc w) (int M) = int M" using m by (simp add: take_bit_int_eq_self)
  ultimately show ?thesis by (simp add: signed_take_bit_eq_take_bit_minus)
qed

lemma drop_signed_push:
  fixes x :: int
  shows "drop_bit k (signed_take_bit (n + k) (push_bit k x)) = signed_take_bit n x"
  by (rule bit_eqI) (auto simp: bit_simps min_def)

lemma sign_extend_sint:
  assumes M: "M < 2 ^ W" and W: "0 < W" "W \<le> 64"
  shows "\<exists>m. util_sign_extend (of_nat M) W = Some m \<and> sint m = (if M < 2 ^ (W - 1) then int M else int M - 2 ^ W)"
proof -
  let ?v = "of_nat M :: u64" and ?m = "signed_drop_bit (64 - W) (push_bit (64 - W) (of_nat M)) :: u64"
  have "(2 :: nat) ^ W \<le> 2 ^ 64" using W by (intro power_increasing) auto
  then have uM: "unat ?v = M" using M by (intro unat_of_nat_lt) simp
  have "W = 64 \<or> ?v < push_bit W 1"
  proof (cases "W = 64")
    case False
    then have "unat (push_bit W 1 :: u64) = 2 ^ W" using W by (intro unat_push_bit_one) simp
    then show ?thesis using M uM by (simp add: word_less_nat_alt)
  qed simp
  then have "util_sign_extend ?v W = Some ?m" using W by (simp add: util_sign_extend_def util_mask_sign_extend_def Let_def)
  moreover have "sint ?m = signed_take_bit (W - 1) (int M)"
  proof -
    have "push_bit (64 - W) (of_nat M :: u64) = word_of_int (push_bit (64 - W) (int M))"
      by (simp add: push_bit_eq_mult)
    then have "sint ?m = drop_bit (64 - W) (sint (word_of_int (push_bit (64 - W) (int M)) :: u64))"
      by (simp only: sint_signed_drop_bit_eq)
    also have "\<dots> = drop_bit (64 - W) (signed_take_bit (W - 1 + (64 - W)) (push_bit (64 - W) (int M)))"
      using W by (simp add: signed_of_int)
    also have "\<dots> = signed_take_bit (W - 1) (int M)" by (rule drop_signed_push)
    finally show ?thesis .
  qed
  moreover have "signed_take_bit (W - 1) (int M) = (if M < 2 ^ (W - 1) then int M else int M - 2 ^ W)"
    using signed_take_bit_nat [of M "W - 1"] M W by simp
  ultimately show ?thesis by simp
qed

text \<open>The multiplier \<open>M\<close> and the exponent \<open>p\<close> that the loop finds for \<open>D\<close>.\<close>

definition sdiv_magic :: "u64 \<Rightarrow> nat \<Rightarrow> nat \<Rightarrow> nat \<Rightarrow> bool" where
  "sdiv_magic D w M p \<longleftrightarrow> w < p \<and> p \<le> 2 * w + 1 \<and> 0 < M \<and> M < 2 ^ (w + 1) \<and> M \<noteq> 2 ^ w \<and>
     M * nat \<bar>sint D\<bar> = 2 ^ p + sdiv_delta (nat \<bar>sint D\<bar>) p \<and>
     sdiv_numer D w * sdiv_delta (nat \<bar>sint D\<bar>) p < 2 ^ p"

lemma sdiv_multiplier_exact:
  fixes q d p w :: nat
  assumes sh: "sdiv_shape w d nc" and q: "q = 2 ^ p div d" and p: "w < p"
  shows "(q + 1) * d = 2 ^ p + sdiv_delta d p" and "q + 1 \<noteq> 2 ^ w"
proof -
  have md: "2 ^ p mod d < d" using sh by (auto simp: sdiv_shape_def)
  show e: "(q + 1) * d = 2 ^ p + sdiv_delta d p"
    using div_mult_mod_eq [of "2 ^ p" d] md unfolding q sdiv_delta_def distrib_right mult_1 by linarith
  show "q + 1 \<noteq> 2 ^ w"
  proof
    assume "q + 1 = 2 ^ w"
    then have "2 ^ w dvd 2 ^ p + sdiv_delta d p" unfolding e [symmetric] by simp
    moreover have "(2 :: nat) ^ w dvd 2 ^ p" using p by (intro le_imp_power_dvd) simp
    ultimately have "2 ^ w dvd sdiv_delta d p" by (simp add: dvd_add_right_iff)
    then have "2 ^ w \<le> sdiv_delta d p" using sdiv_delta_less(2) [OF sh] by (rule dvd_imp_le)
    then show False using sdiv_delta_less(1) [OF sh, of p] sh by (simp add: sdiv_shape_def)
  qed
qed

lemma sint_minus_small:
  fixes m :: u64
  assumes "- (2 ^ 63) < sint m"
  shows "sint (- m) = - sint m"
  using assms sint_less [of m] by (simp add: sint_word_ariths signed_take_bit_int_eq_self)

lemma sdiv_info_total:
  assumes D: "sdiv_divisor D w"
  shows "\<exists>info M p. util_compute_fast_sdiv_info D (w + 1) = Some info \<and> sdiv_magic D w M p \<and>
           s_shift info = p - (w + 1) \<and>
           sint (s_multiplier info) = sgn (sint D) * (if M < 2 ^ w then int M else int M - 2 ^ (w + 1))"
proof -
  let ?d = "nat \<bar>sint D\<bar>"
  define t where "t = (push_bit w 1 + (if sint D < 0 then 1 else 0) :: u64)"
  define nc where "nc = t - 1 - t mod sdiv_abs D"
  have w: "w \<le> 63" and lt: "\<bar>sint D\<bar> < 2 ^ w" and D01: "D \<noteq> 0" "D \<noteq> 1 \<and> D \<noteq> - 1" using D by (auto simp: sdiv_divisor_def)
  note ua = unat_sdiv_abs [OF lt w]
  have un: "unat nc = sdiv_numer D w" unfolding nc_def t_def by (rule unat_sdiv_numer [OF D])
  note sh = sdiv_divisor_shape(1) [OF D]
  have up: "unat (push_bit w 1 :: u64) = 2 ^ w" using w by (intro unat_push_bit_one) simp
  obtain p q where l: "sdiv_loop (sdiv_abs D) nc w (push_bit w 1 div nc) (push_bit w 1 mod nc) (push_bit w 1 div sdiv_abs D) (push_bit w 1 mod sdiv_abs D) = Some (p, q)"
      and p: "w < p" "p \<le> 2 * w + 1" and q: "unat q = 2 ^ p div ?d" "unat q + 1 < 2 ^ (w + 1)" and nd: "sdiv_numer D w * sdiv_delta ?d p < 2 ^ p"
    using sdiv_loop_ends [of w "sdiv_abs D" nc w "push_bit w 1 div nc" "push_bit w 1 mod nc" "push_bit w 1 div sdiv_abs D" "push_bit w 1 mod sdiv_abs D"] sh sdiv_inv_init [OF sh] unfolding ua un unat_div unat_mod up by blast
  let ?M = "unat q + 1"
  note ex = sdiv_multiplier_exact [OF sh q(1) p(1)]
  have magic: "sdiv_magic D w ?M p" using p ex q(2) nd by (simp add: sdiv_magic_def)
  obtain m where m: "util_sign_extend (of_nat ?M) (w + 1) = Some m" "sint m = (if ?M < 2 ^ w then int ?M else int ?M - 2 ^ (w + 1))"
    using sign_extend_sint [OF q(2)] w by auto
  have "of_nat ?M = q + 1" by simp
  then have c: "util_compute_fast_sdiv_info D (w + 1) = Some \<lparr>s_multiplier = (if sint D < 0 then - m else m), s_shift = p - (w + 1)\<rparr>"
    using D01 l m(1) unfolding nc_def t_def sdiv_abs_def
    by (simp only: util_compute_fast_sdiv_info_def c_assert_def Let_def add_diff_cancel_right' if_True not_False_eq_True simp_thms Option.bind.simps prod.case)
  have "- (2 ^ 63) < sint m"
  proof (cases "?M < 2 ^ w")
    case True
    have "- (2 ^ 63) < (0 :: int)" "0 \<le> int ?M" by simp_all
    then show ?thesis unfolding m(2) if_P [OF True] by linarith
  next
    case False
    have "2 ^ w < int ?M" using False ex(2) by (metis linorder_neqE_nat of_nat_less_iff of_nat_numeral of_nat_power)
    moreover have "(2 :: int) ^ w \<le> 2 ^ 63" using w by (intro power_increasing) auto
    moreover have "(2 :: int) ^ (w + 1) = 2 * 2 ^ w" by simp
    ultimately show ?thesis unfolding m(2) if_not_P [OF False] by linarith
  qed
  note mm = sint_minus_small [OF this]
  have "sint (if sint D < 0 then - m else m) = sgn (sint D) * sint m"
    using D01 mm by (auto simp: sgn_if signed_eq_0_iff)
  then show ?thesis using magic unfolding c m(2)
    by (intro exI [of _ "\<lparr>s_multiplier = (if sint D < 0 then - m else m), s_shift = p - (w + 1)\<rparr>"] exI [of _ ?M] exI [of _ p])
       (simp only: util_fast_sdiv_info.simps simp_thms)
qed

section \<open>The sequence of operations\<close>

text \<open>
  The sequence that the header of \<open>fast_idiv_by_const.h\<close> prescribes, over the integers: the high
  half of the product, the correction by the numerator, the arithmetic shift and the rounding.
\<close>

definition sdiv_sequence :: "util_fast_sdiv_info \<Rightarrow> u64 \<Rightarrow> nat \<Rightarrow> int \<Rightarrow> int" where
  "sdiv_sequence info D SINT_BITS n =
     (let result = sint (s_multiplier info) * n div 2 ^ SINT_BITS;
          result = (if 0 < sint D \<and> sint (s_multiplier info) < 0 then result + n else result);
          result = (if sint D < 0 \<and> 0 < sint (s_multiplier info) then result - n else result);
          result = result div 2 ^ s_shift info
      in result + (if result < 0 then 1 else 0))"

lemma sdiv_core:
  assumes D: "sdiv_divisor D w" and m: "sdiv_magic D w M p"
  defines "d \<equiv> nat \<bar>sint D\<bar>"
  shows "a < 2 ^ w + (if sint D < 0 then 1 else 0) \<Longrightarrow> a * M div 2 ^ p = a div d"
    and "0 < a \<Longrightarrow> a \<le> 2 ^ w \<Longrightarrow> a div d * 2 ^ p < a * M"
    and "0 < a \<Longrightarrow> a \<le> 2 ^ w \<Longrightarrow> a * M \<le> (a div d + 1) * 2 ^ p"
proof -
  let ?nc = "sdiv_numer D w"
  have sh: "sdiv_shape w d ?nc" and ge: "2 ^ w + (if sint D < 0 then 1 else 0) \<le> ?nc + d"
    using sdiv_divisor_shape [OF D] by (simp_all add: d_def)
  have M: "M * d = 2 ^ p + sdiv_delta d p" and e: "?nc * sdiv_delta d p < 2 ^ p" and p: "w < p" using m by (auto simp: sdiv_magic_def d_def)
  have d: "1 < d" "0 < d" "d - 1 \<le> ?nc" "d dvd ?nc + 1" "d < 2 ^ w" using sh by (auto simp: sdiv_shape_def)
  note up = sdiv_upper [OF M e d(3,4) _ d(2)] and lo = sdiv_lower [OF M sdiv_delta_less(2) [OF sh] _ d(2)]
  show "a div d * 2 ^ p < a * M" if "0 < a" using that by (rule lo)
  show "a * M div 2 ^ p = a div d" if "a < 2 ^ w + (if sint D < 0 then 1 else 0)"
  proof (cases "a = 0")
    case False
    have "a * M < (a div d + 1) * 2 ^ p" using that ge by (intro up) linarith
    then show ?thesis using lo [of a] False by (intro div_nat_eqI) (simp_all add: mult.commute)
  qed simp
  show "a * M \<le> (a div d + 1) * 2 ^ p" if a: "0 < a" "a \<le> 2 ^ w"
  proof (cases "a < ?nc + d")
    case True
    then show ?thesis using up by (simp add: less_imp_le)
  next
    case False
    then have eq: "a = 2 ^ w" "?nc + d = 2 ^ w" using a ge by (simp_all split: if_splits)
    have "2 ^ w mod d = d - 1"
    proof -
      obtain k where "?nc + 1 = d * k" using d(4) by blast
      then have "2 ^ w = k * d + (d - 1)" using eq(2) d(1) by (simp add: mult.commute)
      moreover have "d - 1 < d" using d by simp
      ultimately show ?thesis by (rule div_mod_eqI(2))
    qed
    moreover have "(2 :: nat) ^ p = 2 ^ w * 2 ^ (p - w)" using p by (simp flip: power_add)
    ultimately show ?thesis unfolding eq(1) using M d(1) by (intro sdiv_upper_power) (auto simp: sdiv_delta_def)
  qed
qed

lemma div_div_power: "x div 2 ^ a div 2 ^ b = x div (2 ^ (a + b) :: int)"
  by (simp add: power_add zdiv_zmult2_eq)

text \<open>With \<open>x\<close> the numerator with the sign of the divisor, the product is rounded down.\<close>

lemma sdiv_floor:
  assumes D: "sdiv_divisor D w" and m: "sdiv_magic D w M p"
    and n: "- (2 ^ w) \<le> n" "n < 2 ^ w"
  defines "x \<equiv> sgn (sint D) * n"
  shows "x * int M div 2 ^ p = (if x < 0 then - (\<bar>n\<bar> div \<bar>sint D\<bar>) - 1 else \<bar>n\<bar> div \<bar>sint D\<bar>)"
proof -
  let ?a = "nat \<bar>n\<bar>" and ?d = "nat \<bar>sint D\<bar>"
  have D0: "sint D \<noteq> 0" using D by (simp add: sdiv_divisor_def signed_eq_0_iff)
  have "\<bar>n\<bar> \<le> 2 ^ w" using n by linarith
  then have a: "?a \<le> 2 ^ w" by (simp add: nat_le_iff)
  have dv: "\<bar>n\<bar> div \<bar>sint D\<bar> = int (?a div ?d)" by (simp add: of_nat_div)
  show ?thesis
  proof (cases "x < 0")
    case True
    then have a0: "0 < ?a" and x: "x = - int ?a" using D0 by (auto simp: x_def sgn_if split: if_splits)
    have "int (?a div ?d * 2 ^ p) < int (?a * M)" "int (?a * M) \<le> int ((?a div ?d + 1) * 2 ^ p)"
      using sdiv_core(2,3) [OF D m a0 a] by (simp_all only: of_nat_less_iff of_nat_le_iff)
    then have b: "int (?a div ?d) * 2 ^ p < int ?a * int M" "int ?a * int M \<le> (int (?a div ?d) + 1) * 2 ^ p"
      by (simp_all only: of_nat_mult of_nat_power of_nat_numeral of_nat_add of_nat_1)
    have "x * int M div 2 ^ p = - int (?a div ?d) - 1"
    proof (rule int_div_pos_eq [of _ _ _ "(int (?a div ?d) + 1) * 2 ^ p - int ?a * int M"])
      show "x * int M = 2 ^ p * (- int (?a div ?d) - 1) + ((int (?a div ?d) + 1) * 2 ^ p - int ?a * int M)"
        unfolding x by (simp add: algebra_simps)
    qed (use b in \<open>simp_all add: algebra_simps\<close>)
    then show ?thesis using True dv by simp
  next
    case False
    then have x: "x = int ?a" using D0 by (auto simp: x_def sgn_if split: if_splits)
    have lt: "?a < 2 ^ w + (if sint D < 0 then 1 else 0)"
    proof (cases "sint D < 0")
      case False
      then have "0 \<le> n" using \<open>\<not> x < 0\<close> D0 by (simp add: x_def)
      then show ?thesis using n(2) False by (simp add: nat_less_iff)
    next
      case True
      then show ?thesis using a unfolding if_P [OF True] by linarith
    qed
    have "x * int M div 2 ^ p = int (?a * M div 2 ^ p)" unfolding x by (simp add: of_nat_div)
    also have "\<dots> = int (?a div ?d)" unfolding sdiv_core(1) [OF D m lt] ..
    finally show ?thesis using False dv by simp
  qed
qed

text \<open>Correcting by the numerator undoes the wrap-around of a multiplier beyond the signed range.\<close>

lemma sdiv_high_product:
  fixes s n :: int
  assumes M: "0 < M" "M < 2 ^ (w + 1)" "M \<noteq> 2 ^ w" and s: "s = 1 \<or> s = - 1"
  defines "m \<equiv> s * (if M < 2 ^ w then int M else int M - 2 ^ (w + 1))"
  defines "r \<equiv> m * n div 2 ^ (w + 1)"
  defines "r' \<equiv> (if s = 1 \<and> m < 0 then r + n else r)"
  shows "(if s = - 1 \<and> 0 < m then r' - n else r') = s * n * int M div 2 ^ (w + 1)"
proof -
  let ?P = "2 ^ (w + 1) :: int"
  have iM: "0 < int M" "int M < ?P" using M by (simp, metis of_nat_less_iff of_nat_numeral of_nat_power)
  show ?thesis
  proof (cases "M < 2 ^ w")
    case True
    then have "m = s * int M" by (simp add: m_def)
    then show ?thesis using s iM by (auto simp: r'_def r_def mult_ac)
  next
    case False
    then have m: "m = s * int M - s * ?P" by (simp add: m_def algebra_simps)
    have "r = (s * n * int M + (- s * n) * ?P) div ?P" unfolding r_def m by (simp add: algebra_simps)
    also have "\<dots> = - s * n + s * n * int M div ?P" by (subst div_mult_self1) simp_all
    finally have "r = s * n * int M div ?P - s * n" by simp
    then show ?thesis using s iM m by (auto simp: r'_def)
  qed
qed

lemma sdiv_sequence_eq:
  assumes D: "sdiv_divisor D w" and m: "sdiv_magic D w M p" and sft: "s_shift info = p - (w + 1)"
    and mult: "sint (s_multiplier info) = sgn (sint D) * (if M < 2 ^ w then int M else int M - 2 ^ (w + 1))"
  shows "sdiv_sequence info D (w + 1) n =
     (let r = sgn (sint D) * n * int M div 2 ^ p in r + (if r < 0 then 1 else 0))"
proof -
  have D0: "sint D \<noteq> 0" using D by (simp add: sdiv_divisor_def signed_eq_0_iff)
  then have s: "sgn (sint D) = 1 \<or> sgn (sint D) = - 1" "0 < sint D \<longleftrightarrow> sgn (sint D) = 1" "sint D < 0 \<longleftrightarrow> sgn (sint D) = - 1"
    by (auto simp: sgn_if)
  have M: "0 < M" "M < 2 ^ (w + 1)" "M \<noteq> 2 ^ w" and p: "w < p" using m by (auto simp: sdiv_magic_def)
  have "w + 1 + (p - (w + 1)) = p" using p by simp
  then show ?thesis
    unfolding sdiv_sequence_def Let_def s(2,3) mult sdiv_high_product [OF M s(1)] sft div_div_power by simp
qed

lemma sdiv_sequence_correct:
  assumes D: "sdiv_divisor D w" and i: "sdiv_magic D w M p" "s_shift info = p - (w + 1)"
      "sint (s_multiplier info) = sgn (sint D) * (if M < 2 ^ w then int M else int M - 2 ^ (w + 1))"
    and n: "- (2 ^ w) \<le> n" "n < 2 ^ w"
  shows "sdiv_sequence info D (w + 1) n = n sdiv sint D"
proof -
  have D0: "sint D \<noteq> 0" using D by (simp add: sdiv_divisor_def signed_eq_0_iff)
  have q: "0 \<le> \<bar>n\<bar> div \<bar>sint D\<bar>" using D0 by (simp add: pos_imp_zdiv_nonneg_iff)
  have "n sdiv sint D = sgn n * sgn (sint D) * (\<bar>n\<bar> div \<bar>sint D\<bar>)" by (simp add: signed_divide_int_def)
  moreover have "n = 0 \<Longrightarrow> \<bar>n\<bar> div \<bar>sint D\<bar> = 0" by simp
  ultimately show ?thesis
    unfolding sdiv_sequence_eq [OF D i] sdiv_floor [OF D i(1) n] Let_def
    using q D0 by (auto simp: sgn_if split: if_splits)
qed

text \<open>
  Property C27.  Signed division by a constant: for every divisor that is no power of two up to
  sign and lies within the width, from three to 64 bits, the loop ends, no assertion fails, and the documented sequence of
  operations gives the quotient rounded towards zero for every numerator of the width.
\<close>
theorem util_compute_fast_sdiv_info_correct:
  assumes "3 \<le> SINT_BITS" and "SINT_BITS \<le> 64"
    and "\<bar>sint D\<bar> < 2 ^ (SINT_BITS - 1)" and "\<not> util_is_power_of_two_or_zero64 (if sint D < 0 then - D else D)"
  shows "\<exists>info. util_compute_fast_sdiv_info D SINT_BITS = Some info \<and>
           (\<forall>n. - (2 ^ (SINT_BITS - 1)) \<le> n \<and> n < 2 ^ (SINT_BITS - 1) \<longrightarrow>
              sdiv_sequence info D SINT_BITS n = n sdiv sint D)"
proof -
  let ?w = "SINT_BITS - 1"
  have w: "?w + 1 = SINT_BITS" "2 \<le> ?w" "?w \<le> 63" using assms by auto
  have "D \<noteq> 0" "D \<noteq> 1" "D \<noteq> - 1" using assms(4) by (auto simp: util_is_power_of_two_or_zero64_def)
  then have D: "sdiv_divisor D ?w" using assms w by (simp add: sdiv_divisor_def sdiv_abs_def)
  obtain info M p where "util_compute_fast_sdiv_info D SINT_BITS = Some info" "sdiv_magic D ?w M p"
      "s_shift info = p - (?w + 1)" "sint (s_multiplier info) = sgn (sint D) * (if M < 2 ^ ?w then int M else int M - 2 ^ (?w + 1))"
    using sdiv_info_total [OF D] unfolding w(1) by metis
  then show ?thesis using sdiv_sequence_correct [OF D] unfolding w(1) by blast
qed

theorem util_compute_fast_sdiv_info_correct_witness:
  "\<exists>info. util_compute_fast_sdiv_info (- 7) 32 = Some info \<and> sdiv_sequence info (- 7) 32 (- 2147483648) = 306783378"
proof -
  have "\<exists>info. util_compute_fast_sdiv_info (- 7) 32 = Some info \<and>
     (\<forall>n. - (2 ^ (32 - 1)) \<le> n \<and> n < 2 ^ (32 - 1) \<longrightarrow> sdiv_sequence info (- 7) 32 n = n sdiv sint (- 7 :: u64))"
    by (rule util_compute_fast_sdiv_info_correct) (simp_all add: util_is_power_of_two_or_zero64_def)
  moreover have "(- 2147483648 :: int) sdiv sint (- 7 :: u64) = 306783378" by (simp add: signed_divide_int_def)
  ultimately show ?thesis by fastforce
qed

end
