(* ===== verification/Nir_Idiv.thy ===== *)
theory Nir_Idiv
  imports Fast_Sdiv
begin

text \<open>
  The NIR pass that replaces integer divisions by constants
  (\<open>src/src/compiler/nir/nir_opt_idiv_const.c\<close>), with the immediate helpers of
  \<open>nir_builder.h\<close> that it uses and the meaning of the opcodes that it emits and replaces
  (\<open>nir_opcodes.py\<close>).  SSA values are expression trees: arithmetic instructions have no effect but
  their result.  A value of \<open>bit_size\<close> bits is a word of that length; an \<open>int64_t\<close> or \<open>uint64_t\<close>
  of the pass is a \<open>u64\<close>, read by \<open>sint\<close> where it is signed.  \<open>None\<close> is a failed assertion.
\<close>

section \<open>Instructions and their meaning\<close>

datatype nir_def =
    Channel nat
  | Imm u64
  | Ushr nir_def nat
  | Ishr nir_def nat
  | Ishl nir_def nat
  | Uadd_sat nir_def nir_def
  | Umul_high nir_def nir_def
  | Imul_high nir_def nir_def
  | Iadd nir_def nir_def
  | Isub nir_def nir_def
  | Imul nir_def nir_def
  | Iand nir_def nir_def
  | Ior nir_def nir_def
  | Ineg nir_def
  | Iabs nir_def
  | B2i nir_bool
  | Bcsel nir_bool nir_def nir_def
and nir_bool =
    Ieq nir_def nir_def
  | Uge nir_def nir_def
  | Ult nir_def nir_def
  | Ilt nir_def nir_def
  | Ige nir_def nir_def
  | Inot nir_bool
  | Bor nir_bool nir_bool

definition word_int_min :: "'a :: len word" where
  "word_int_min = push_bit (LENGTH('a) - 1) 1"

definition op_ushr :: "'a :: len word \<Rightarrow> nat \<Rightarrow> 'a word" where
  "op_ushr src0 src1 = drop_bit (src1 AND (LENGTH('a) - 1)) src0"

definition op_ishr :: "'a :: len word \<Rightarrow> nat \<Rightarrow> 'a word" where
  "op_ishr src0 src1 = signed_drop_bit (src1 AND (LENGTH('a) - 1)) src0"

definition op_ishl :: "'a :: len word \<Rightarrow> nat \<Rightarrow> 'a word" where
  "op_ishl src0 src1 = push_bit (src1 AND (LENGTH('a) - 1)) src0"

definition op_uadd_sat :: "'a :: len word \<Rightarrow> 'a word \<Rightarrow> 'a word" where
  "op_uadd_sat src0 src1 = (if 2 ^ LENGTH('a) \<le> unat src0 + unat src1 then - 1 else src0 + src1)"

definition op_umul_high :: "'a :: len word \<Rightarrow> 'a word \<Rightarrow> 'a word" where
  "op_umul_high src0 src1 = of_nat (unat src0 * unat src1 div 2 ^ LENGTH('a))"

definition op_imul_high :: "'a :: len word \<Rightarrow> 'a word \<Rightarrow> 'a word" where
  "op_imul_high src0 src1 = word_of_int (sint src0 * sint src1 div 2 ^ LENGTH('a))"

definition op_ineg :: "'a :: len word \<Rightarrow> 'a word" where
  "op_ineg src0 = (if src0 = word_int_min then src0 else - src0)"

definition op_iabs :: "'a :: len word \<Rightarrow> 'a word" where
  "op_iabs src0 = (if sint src0 < 0 then - src0 else src0)"

primrec eval_def :: "(nat \<Rightarrow> 'a :: len word) \<Rightarrow> nir_def \<Rightarrow> 'a word"
  and eval_bool :: "(nat \<Rightarrow> 'a :: len word) \<Rightarrow> nir_bool \<Rightarrow> bool" where
  "eval_def env (Channel c) = env c"
| "eval_def env (Imm x) = ucast x"
| "eval_def env (Ushr x y) = op_ushr (eval_def env x) y"
| "eval_def env (Ishr x y) = op_ishr (eval_def env x) y"
| "eval_def env (Ishl x y) = op_ishl (eval_def env x) y"
| "eval_def env (Uadd_sat x y) = op_uadd_sat (eval_def env x) (eval_def env y)"
| "eval_def env (Umul_high x y) = op_umul_high (eval_def env x) (eval_def env y)"
| "eval_def env (Imul_high x y) = op_imul_high (eval_def env x) (eval_def env y)"
| "eval_def env (Iadd x y) = eval_def env x + eval_def env y"
| "eval_def env (Isub x y) = eval_def env x - eval_def env y"
| "eval_def env (Imul x y) = eval_def env x * eval_def env y"
| "eval_def env (Iand x y) = eval_def env x AND eval_def env y"
| "eval_def env (Ior x y) = eval_def env x OR eval_def env y"
| "eval_def env (Ineg x) = op_ineg (eval_def env x)"
| "eval_def env (Iabs x) = op_iabs (eval_def env x)"
| "eval_def env (B2i b) = (if eval_bool env b then 1 else 0)"
| "eval_def env (Bcsel b x y) = (if eval_bool env b then eval_def env x else eval_def env y)"
| "eval_bool env (Ieq x y) = (eval_def env x = eval_def env y)"
| "eval_bool env (Uge x y) = (eval_def env y \<le> eval_def env x)"
| "eval_bool env (Ult x y) = (eval_def env x < eval_def env y)"
| "eval_bool env (Ilt x y) = (sint (eval_def env x) < sint (eval_def env y))"
| "eval_bool env (Ige x y) = (sint (eval_def env y) \<le> sint (eval_def env x))"
| "eval_bool env (Inot b) = (\<not> eval_bool env b)"
| "eval_bool env (Bor b c) = (eval_bool env b \<or> eval_bool env c)"

text \<open>The division opcodes that the pass replaces.\<close>

definition op_udiv :: "'a :: len word \<Rightarrow> 'a word \<Rightarrow> 'a word" where
  "op_udiv src0 src1 = (if src1 = 0 then 0 else src0 div src1)"

definition op_umod :: "'a :: len word \<Rightarrow> 'a word \<Rightarrow> 'a word" where
  "op_umod src0 src1 = (if src1 = 0 then 0 else src0 mod src1)"

definition op_idiv :: "'a :: len word \<Rightarrow> 'a word \<Rightarrow> 'a word" where
  "op_idiv src0 src1 =
     (if src1 = 0 \<or> src0 = word_int_min \<and> src1 = - 1 then 0
      else word_of_int (sint src0 sdiv sint src1))"

definition op_irem :: "'a :: len word \<Rightarrow> 'a word \<Rightarrow> 'a word" where
  "op_irem src0 src1 =
     (if src1 = 0 \<or> src0 = word_int_min \<and> src1 = - 1 then 0
      else word_of_int (sint src0 smod sint src1))"

definition op_imod :: "'a :: len word \<Rightarrow> 'a word \<Rightarrow> 'a word" where
  "op_imod src0 src1 =
     (if src1 = 0 \<or> src0 = word_int_min \<and> src1 = - 1 then 0
      else if sint src0 smod sint src1 = 0 \<or> (0 \<le> sint src0) = (0 \<le> sint src1)
      then word_of_int (sint src0 smod sint src1)
      else word_of_int (sint src0 smod sint src1 + sint src1))"

section \<open>The builder's immediate helpers\<close>

definition BITFIELD64_MASK :: "nat \<Rightarrow> u64" where
  "BITFIELD64_MASK b = (if b = 64 then - 1 else push_bit (b AND 63) 1 - 1)"

text \<open>The width is asserted to be between 1 and 64, as it is for every NIR value.\<close>

definition u_intN_max :: "nat \<Rightarrow> u64" where
  "u_intN_max bit_size = signed_drop_bit (64 - bit_size) 0x7fffffffffffffff"

definition u_intN_min :: "nat \<Rightarrow> u64" where
  "u_intN_min bit_size = - u_intN_max bit_size - 1"

definition nir_iadd_imm :: "nat \<Rightarrow> nir_def \<Rightarrow> u64 \<Rightarrow> nir_def" where
  "nir_iadd_imm bit_size x y =
     (let y = y AND BITFIELD64_MASK bit_size in if y = 0 then x else Iadd x (Imm y))"

text \<open>
  \<open>nir_imul_imm\<close> calls \<open>_nir_mul_imm\<close> without \<open>amul\<close>; \<open>lower_bitops\<close> is the shader option, false
  when the shader has no options.  \<open>ffsll\<close> of a power of two is its logarithm plus one.
\<close>

definition nir_imul_imm :: "bool \<Rightarrow> nat \<Rightarrow> nir_def \<Rightarrow> u64 \<Rightarrow> nir_def" where
  "nir_imul_imm lower_bitops bit_size x y =
     (let y = y AND BITFIELD64_MASK bit_size
      in if y = 0 then Imm 0
         else if y = 1 then x
         else if \<not> lower_bitops \<and> util_is_power_of_two_or_zero64 y then Ishl x (util_logbase2_64 y)
         else Imul x (Imm y))"

definition nir_iand_imm :: "nat \<Rightarrow> nir_def \<Rightarrow> u64 \<Rightarrow> nir_def" where
  "nir_iand_imm bit_size x y =
     (let y = y AND BITFIELD64_MASK bit_size
      in if y = 0 then Imm 0
         else if y = BITFIELD64_MASK bit_size then x
         else Iand x (Imm y))"

definition nir_ishr_imm :: "nir_def \<Rightarrow> nat \<Rightarrow> nir_def" where
  "nir_ishr_imm x y = (if y = 0 then x else Ishr x y)"

definition nir_ushr_imm :: "nir_def \<Rightarrow> nat \<Rightarrow> nir_def" where
  "nir_ushr_imm x y = (if y = 0 then x else Ushr x y)"

section \<open>The pass\<close>

definition build_udiv :: "nat \<Rightarrow> nir_def \<Rightarrow> u64 \<Rightarrow> nir_def option" where
  "build_udiv bit_size n d =
     (let uint_max = u_uintN_max bit_size
      in if d = 0 then Some (Imm 0)
         else if d = uint_max then Some (B2i (Ieq n (Imm uint_max)))
         else if uint_max div 2 < d then Some (B2i (Uge n (Imm d)))
         else if util_is_power_of_two_or_zero64 d then Some (nir_ushr_imm n (util_logbase2_64 d))
         else do {
           m \<leftarrow> util_compute_fast_udiv_info d bit_size bit_size;
           let n = (if pre_shift m \<noteq> 0 then nir_ushr_imm n (pre_shift m) else n);
           let n = (if increment m \<noteq> 0 then Uadd_sat n (Imm (of_nat (increment m))) else n);
           let n = Umul_high n (Imm (multiplier m));
           Some (if post_shift m \<noteq> 0 then nir_ushr_imm n (post_shift m) else n)
         })"

definition build_umod :: "bool \<Rightarrow> nat \<Rightarrow> nir_def \<Rightarrow> u64 \<Rightarrow> nir_def option" where
  "build_umod lower_bitops bit_size n d =
     (if d = 0 then Some (Imm 0)
      else if util_is_power_of_two_or_zero64 d then Some (nir_iand_imm bit_size n (d - 1))
      else do {
        q \<leftarrow> build_udiv bit_size n d;
        Some (Isub n (nir_imul_imm lower_bitops bit_size q d))
      })"

definition build_idiv :: "nat \<Rightarrow> nir_def \<Rightarrow> u64 \<Rightarrow> nir_def option" where
  "build_idiv bit_size n d =
     (let int_min = u_intN_min bit_size;
          abs_d = (if sint d < 0 then - d else d)
      in if d = int_min then Some (B2i (Ieq n (Imm int_min)))
         else if d = 0 then Some (Imm 0)
         else if d = 1 then Some n
         else if d = - 1 then Some (Ineg n)
         else if util_is_power_of_two_or_zero64 abs_d
         then let uq = nir_ushr_imm (Iabs n) (util_logbase2_64 abs_d);
                  n_neg = Ilt n (Imm 0);
                  neg = (if sint d < 0 then Inot n_neg else n_neg)
              in Some (Bcsel neg (Ineg uq) uq)
         else do {
           m \<leftarrow> util_compute_fast_sdiv_info d bit_size;
           let res = Imul_high n (Imm (s_multiplier m));
           let res = (if 0 < sint d \<and> sint (s_multiplier m) < 0 then Iadd res n else res);
           let res = (if sint d < 0 \<and> 0 < sint (s_multiplier m) then Isub res n else res);
           let res = (if s_shift m \<noteq> 0 then nir_ishr_imm res (s_shift m) else res);
           Some (Iadd res (nir_ushr_imm res (bit_size - 1)))
         })"

definition build_irem :: "bool \<Rightarrow> nat \<Rightarrow> nir_def \<Rightarrow> u64 \<Rightarrow> nir_def option" where
  "build_irem lower_bitops bit_size n d =
     (let int_min = u_intN_min bit_size
      in if d = 0 then Some (Imm 0)
         else if d = int_min then Some (Bcsel (Ieq n (Imm int_min)) (Imm 0) n)
         else let d = (if sint d < 0 then - d else d)
              in if util_is_power_of_two_or_zero64 d
                 then let tmp = Bcsel (Ilt n (Imm 0)) (nir_iadd_imm bit_size n (d - 1)) n
                      in Some (Isub n (nir_iand_imm bit_size tmp (- d)))
                 else do {
                   q \<leftarrow> build_idiv bit_size n d;
                   Some (Isub n (nir_imul_imm lower_bitops bit_size q d))
                 })"

definition build_imod :: "bool \<Rightarrow> nat \<Rightarrow> nir_def \<Rightarrow> u64 \<Rightarrow> nir_def option" where
  "build_imod lower_bitops bit_size n d =
     (let int_min = u_intN_min bit_size
      in if d = 0 then Some (Imm 0)
         else if d = int_min
         then let int_min_def = Imm int_min;
                  is_neg_not_int_min = Ult int_min_def n;
                  is_zero = Ieq n (Imm 0)
              in Some (Bcsel (Bor is_neg_not_int_min is_zero) n (Iadd int_min_def n))
         else if 0 < sint d \<and> util_is_power_of_two_or_zero64 d then Some (nir_iand_imm bit_size n (d - 1))
         else if sint d < 0 \<and> util_is_power_of_two_or_zero64 (- d)
         then let d_def = Imm d; res = Ior n d_def
              in Some (Bcsel (Ieq res d_def) (Imm 0) res)
         else do {
           rem \<leftarrow> build_irem lower_bitops bit_size n d;
           let zero = Imm 0;
           let sign_same = (if sint d < 0 then Ilt n zero else Ige n zero);
           let rem_zero = Ieq rem zero;
           Some (Bcsel (Bor rem_zero sign_same) rem (nir_iadd_imm bit_size rem d))
         })"

datatype nir_op = Op_udiv | Op_idiv | Op_umod | Op_imod | Op_irem | Op_other

text \<open>
  An ALU instruction of two sources: the swizzles of its sources by component, and the values of
  the second source when it is a \<open>load_const\<close>.
\<close>

record 'v nir_alu_instr =
  alu_op :: nir_op
  num_components :: nat
  swizzle0 :: "nat \<Rightarrow> nat"
  swizzle1 :: "nat \<Rightarrow> nat"
  src1_const :: "'v list option"

definition nir_src_comp_as_int :: "('a :: len) word list option \<Rightarrow> nat \<Rightarrow> u64 option" where
  "nir_src_comp_as_int src c = do {
     value \<leftarrow> src;
     c_assert (c < length value);
     Some (scast (value ! c))
   }"

definition unsigned_op :: "nir_op \<Rightarrow> bool" where
  "unsigned_op opc = (opc = Op_udiv \<or> opc = Op_umod)"

text \<open>The body of the loop over the components.\<close>

definition lower_component :: "bool \<Rightarrow> ('a :: len) word nir_alu_instr \<Rightarrow> nat \<Rightarrow> nir_def option" where
  "lower_component lower_bitops alu c = do {
     let n = Channel (swizzle0 alu c);
     let bit_size = LENGTH('a);
     d \<leftarrow> nir_src_comp_as_int (src1_const alu) (swizzle1 alu c);
     let d = (if unsigned_op (alu_op alu) \<and> bit_size < 64 then d AND (push_bit bit_size 1 - 1) else d);
     case alu_op alu of
       Op_udiv \<Rightarrow> build_udiv bit_size n d
     | Op_idiv \<Rightarrow> build_idiv bit_size n d
     | Op_umod \<Rightarrow> build_umod lower_bitops bit_size n d
     | Op_imod \<Rightarrow> build_imod lower_bitops bit_size n d
     | Op_irem \<Rightarrow> build_irem lower_bitops bit_size n d
     | Op_other \<Rightarrow> None
   }"

primrec option_sequence :: "'b option list \<Rightarrow> 'b list option" where
  "option_sequence [] = Some []"
| "option_sequence (x # xs) = do { y \<leftarrow> x; ys \<leftarrow> option_sequence xs; Some (y # ys) }"

text \<open>
  \<open>Some None\<close>: the pass leaves the instruction alone; \<open>Some (Some qvec)\<close>: it replaces the
  instruction by the vector of \<open>qvec\<close>.
\<close>

definition nir_opt_idiv_const_instr :: "bool \<Rightarrow> nat \<Rightarrow> ('a :: len) word nir_alu_instr \<Rightarrow> nir_def list option option" where
  "nir_opt_idiv_const_instr lower_bitops min_bit_size alu =
     (if alu_op alu = Op_other \<or> LENGTH('a) < min_bit_size \<or> src1_const alu = None then Some None
      else map_option Some (option_sequence (map (lower_component lower_bitops alu) [0..<num_components alu])))"

section \<open>Widths\<close>

definition nir_size :: "nat \<Rightarrow> bool" where
  "nir_size W \<longleftrightarrow> W = 8 \<or> W = 16 \<or> W = 32 \<or> W = 64"

lemma nir_size_le: "nir_size W \<Longrightarrow> W \<le> 64" "nir_size W \<Longrightarrow> 8 \<le> W"
  by (auto simp: nir_size_def)

lemma and_mask_less: "y < 2 ^ k \<Longrightarrow> y AND (2 ^ k - 1) = y" for y :: nat
  using take_bit_eq_mask [of k y] by (simp add: mask_eq_exp_minus_1 take_bit_nat_eq_self)

lemma shift_amount:
  assumes "nir_size W" and "y < W"
  shows "y AND (W - 1) = y"
  using assms and_mask_less [of y 3] and_mask_less [of y 4] and_mask_less [of y 5] and_mask_less [of y 6]
  by (auto simp: nir_size_def)

lemma BITFIELD64_MASK_eq: "nir_size W \<Longrightarrow> BITFIELD64_MASK W = mask W"
  by (auto simp: nir_size_def BITFIELD64_MASK_def mask_eq_exp_minus_1)

lemma unat_imm: "unat (ucast (y :: u64) :: 'a :: len word) = unat y mod 2 ^ LENGTH('a)"
  by (simp add: unsigned_ucast_eq take_bit_eq_mod)

lemma unat_masked: "unat (y AND mask W) = unat y mod 2 ^ W" for y :: u64
  unfolding take_bit_eq_mask [symmetric] unsigned_take_bit_eq by (rule take_bit_eq_mod)

text \<open>An immediate may be masked to the width before it is emitted.\<close>

lemma masked_imm:
  assumes "nir_size LENGTH('a :: len)"
  shows "(ucast (y AND BITFIELD64_MASK LENGTH('a)) :: 'a word) = ucast y"
    and "y AND BITFIELD64_MASK LENGTH('a) = 0 \<longleftrightarrow> (ucast y :: 'a word) = 0"
    and "y AND BITFIELD64_MASK LENGTH('a) = BITFIELD64_MASK LENGTH('a) \<Longrightarrow> (ucast y :: 'a word) = - 1"
    and "y AND BITFIELD64_MASK LENGTH('a) = 1 \<Longrightarrow> (ucast y :: 'a word) = 1"
proof -
  note m = BITFIELD64_MASK_eq [OF assms]
  show r: "(ucast (y AND BITFIELD64_MASK LENGTH('a)) :: 'a word) = ucast y"
    by (simp add: word_unat_eq_iff unat_imm m unat_masked)
  show "y AND BITFIELD64_MASK LENGTH('a) = 0 \<longleftrightarrow> (ucast y :: 'a word) = 0"
    by (simp only: word_unat_eq_iff unat_imm m unat_masked unat_0)
  show "y AND BITFIELD64_MASK LENGTH('a) = 1 \<Longrightarrow> (ucast y :: 'a word) = 1" using r by simp
  assume "y AND BITFIELD64_MASK LENGTH('a) = BITFIELD64_MASK LENGTH('a)"
  then have "(ucast y :: 'a word) = ucast (mask LENGTH('a) :: u64)" using r m by simp
  also have "\<dots> = - 1"
  proof (rule bit_word_eqI)
    show "bit (ucast (mask LENGTH('a) :: u64) :: 'a word) i = bit (- 1 :: 'a word) i" if "i < LENGTH('a)" for i
      using that nir_size_le(1) [OF assms] by (simp add: bit_simps)
  qed
  finally show "(ucast y :: 'a word) = - 1" .
qed

named_theorems nir_eval "evaluation of the builder's helpers"

lemma eval_ushr_imm [nir_eval]:
  fixes env :: "nat \<Rightarrow> 'a :: len word"
  assumes "nir_size LENGTH('a)" and "y < LENGTH('a)"
  shows "eval_def env (nir_ushr_imm x y) = drop_bit y (eval_def env x)"
  using assms shift_amount [OF assms] by (simp add: nir_ushr_imm_def op_ushr_def)

lemma eval_ishr_imm [nir_eval]:
  fixes env :: "nat \<Rightarrow> 'a :: len word"
  assumes "nir_size LENGTH('a)" and "y < LENGTH('a)"
  shows "eval_def env (nir_ishr_imm x y) = signed_drop_bit y (eval_def env x)"
  using assms shift_amount [OF assms] by (simp add: nir_ishr_imm_def op_ishr_def)

lemma eval_iadd_imm [nir_eval]:
  fixes env :: "nat \<Rightarrow> 'a :: len word"
  assumes "nir_size LENGTH('a)"
  shows "eval_def env (nir_iadd_imm LENGTH('a) x y) = eval_def env x + ucast y"
  using masked_imm(1,2) [OF assms, of y] by (simp add: nir_iadd_imm_def Let_def)

lemma eval_iand_imm [nir_eval]:
  fixes env :: "nat \<Rightarrow> 'a :: len word"
  assumes "nir_size LENGTH('a)"
  shows "eval_def env (nir_iand_imm LENGTH('a) x y) = eval_def env x AND ucast y"
  using masked_imm(1-3) [OF assms, of y] by (auto simp: nir_iand_imm_def Let_def)

lemma eval_imul_imm [nir_eval]:
  fixes env :: "nat \<Rightarrow> 'a :: len word"
  assumes W: "nir_size LENGTH('a)"
  shows "eval_def env (nir_imul_imm lb LENGTH('a) x y) = eval_def env x * ucast y"
proof -
  let ?y = "y AND BITFIELD64_MASK LENGTH('a)"
  note mi = masked_imm [OF W, of y]
  show ?thesis
  proof (cases "?y \<noteq> 0 \<and> \<not> lb \<and> util_is_power_of_two_or_zero64 ?y")
    case True
    then obtain s where s: "unat ?y = 2 ^ s" using power_of_two_or_zero_unat [of ?y] by auto
    have "(2 :: nat) ^ s < 2 ^ LENGTH('a)" unfolding s [symmetric] BITFIELD64_MASK_eq [OF W] unat_masked by simp
    then have lt: "s < LENGTH('a)" by (rule power_less_imp_less_exp [rotated]) simp
    have "(ucast y :: 'a word) = ucast (push_bit s 1 :: u64)" using mi(1) power_of_two_word(2) [OF s] by simp
    also have "\<dots> = push_bit s 1" using power_of_two_word(1) [OF s] lt by (intro bit_word_eqI) (auto simp: bit_simps)
    finally have "(ucast y :: 'a word) = 2 ^ s" by (simp add: push_bit_eq_mult)
    then show ?thesis using True mi power_of_two_word(3) [OF s] shift_amount [OF W lt]
      by (auto simp: nir_imul_imm_def Let_def op_ishl_def push_bit_eq_mult)
  next
    case False
    then show ?thesis using mi by (auto simp: nir_imul_imm_def Let_def)
  qed
qed

section \<open>Unsigned division\<close>

lemma udiv_info_shifts:
  assumes ok: "udiv_info_ok U U D info" and D: "0 < D" "D < 2 ^ U"
  shows "pre_shift info < U" and "post_shift info < U"
proof -
  have one: "udiv_apply U info D = 1" using ok D by (simp add: udiv_info_ok_def)
  have inc: "increment info = 0 \<or> increment info = 1 \<and> pre_shift info = 0" and m: "unat (multiplier info) < 2 ^ U"
    using ok by (auto simp: udiv_info_ok_def)
  show "pre_shift info < U"
  proof (rule ccontr)
    assume "\<not> pre_shift info < U"
    then have "(2 :: nat) ^ U \<le> 2 ^ pre_shift info" by simp
    then have "D < 2 ^ pre_shift info" using D(2) by linarith
    then have "D div 2 ^ pre_shift info = 0" by (rule div_less)
    moreover have "increment info = 0" using inc \<open>\<not> pre_shift info < U\<close> D by auto
    ultimately show False using one by (simp add: udiv_apply_def)
  qed
  show "post_shift info < U"
  proof (rule ccontr)
    assume "\<not> post_shift info < U"
    then have p: "(2 :: nat) ^ U \<le> 2 ^ post_shift info" by simp
    let ?a = "D div 2 ^ pre_shift info + increment info"
    have "?a \<le> D + 1" using inc div_le_dividend [of D "2 ^ pre_shift info"] by linarith
    then have "?a * unat (multiplier info) \<le> 2 ^ U * unat (multiplier info)" using D(2) by (intro mult_le_mono1) simp
    then have "?a * unat (multiplier info) div 2 ^ U \<le> unat (multiplier info)" by (metis div_le_mono nonzero_mult_div_cancel_left power_not_zero zero_neq_numeral)
    then have "?a * unat (multiplier info) div 2 ^ U < 2 ^ post_shift info" using m p by linarith
    then have "udiv_apply U info D = 0" unfolding udiv_apply_def by (rule div_less)
    then show False using one by simp
  qed
qed

lemma eval_umul_high:
  fixes a b :: "'a :: len word"
  shows "unat (op_umul_high a b) = unat a * unat b div 2 ^ LENGTH('a)"
proof -
  have "unat a * unat b < 2 ^ LENGTH('a) * 2 ^ LENGTH('a)" by (intro mult_strict_mono) auto
  then have "unat a * unat b div 2 ^ LENGTH('a) < 2 ^ LENGTH('a)" by (intro less_mult_imp_div_less)
  then show ?thesis unfolding op_umul_high_def by (simp add: unsigned_of_nat take_bit_nat_eq_self)
qed

lemma unat_uadd_sat_one: "unat (op_uadd_sat a (1 :: 'a :: len word)) = min (unat a + 1) (2 ^ LENGTH('a) - 1)"
proof (cases "unat a + 1 < 2 ^ LENGTH('a)")
  case True
  then have "unat (a + 1) = unat a + 1" using unat_add_lem [of a 1] by simp
  then show ?thesis using True by (simp add: op_uadd_sat_def min_def)
next
  case False
  have "unat a < 2 ^ LENGTH('a)" by simp
  then have "unat a + 1 = 2 ^ LENGTH('a)" using False by linarith
  then show ?thesis by (simp add: op_uadd_sat_def unsigned_minus_1_eq_mask mask_eq_exp_minus_1)
qed

text \<open>The multiplication sequence, with the increment saturated at the width.\<close>

lemma udiv_sequence:
  fixes n :: "'a :: len word"
  assumes ok: "udiv_info_ok LENGTH('a) LENGTH('a) D info" and D: "1 < D" "D < 2 ^ LENGTH('a)" and le: "LENGTH('a) \<le> 64"
  defines "n1 \<equiv> drop_bit (pre_shift info) n"
  defines "n2 \<equiv> (if increment info \<noteq> 0 then op_uadd_sat n1 (ucast (of_nat (increment info) :: u64)) else n1)"
  shows "unat (drop_bit (post_shift info) (op_umul_high n2 (ucast (multiplier info)))) = unat n div D"
proof -
  let ?U = "LENGTH('a)"
  have ap: "udiv_apply ?U info (unat n) = unat n div D" using ok by (simp add: udiv_info_ok_def)
  have um: "unat (ucast (multiplier info) :: 'a word) = unat (multiplier info)" using ok by (simp add: unat_imm udiv_info_ok_def)
  have eq: "unat (drop_bit (post_shift info) (op_umul_high n2 (ucast (multiplier info)))) =
      unat n2 * unat (multiplier info) div 2 ^ ?U div 2 ^ post_shift info"
    unfolding unat_drop_bit eval_umul_high um ..
  show ?thesis
  proof (cases "increment info = 0")
    case True
    then have "unat n2 = unat n div 2 ^ pre_shift info + increment info" by (simp add: n2_def n1_def unat_drop_bit)
    then show ?thesis using ap eq by (simp only: udiv_apply_def)
  next
    case False
    then have i: "increment info = 1" "pre_shift info = 0" using ok by (auto simp: udiv_info_ok_def)
    have n2: "unat n2 = min (unat n + 1) (2 ^ ?U - 1)" using i unat_uadd_sat_one [of n] by (simp add: n2_def n1_def)
    have lt: "unat n < 2 ^ ?U" by simp
    show ?thesis
    proof (cases "unat n + 1 \<le> 2 ^ ?U - 1")
      case True
      then show ?thesis using ap eq n2 i by (simp add: udiv_apply_def min_def)
    next
      case False
      then have "unat n = 2 ^ ?U - 1" "unat n2 = 2 ^ ?U - 1" using lt n2 by linarith+
      then show ?thesis using ok eq i D by (simp add: udiv_info_ok_def)
    qed
  qed
qed

lemma unat_uintN_max_word: "nir_size LENGTH('a) \<Longrightarrow> (ucast (u_uintN_max LENGTH('a)) :: 'a :: len word) = - 1"
  using nir_size_le [of "LENGTH('a)"] uintN_max_unat [of "LENGTH('a)"]
  by (simp add: word_unat_eq_iff unat_imm unsigned_minus_1_eq_mask mask_eq_exp_minus_1)

lemma build_udiv_correct:
  fixes env :: "nat \<Rightarrow> 'a :: len word" and c :: "'a word"
  assumes W: "nir_size LENGTH('a)"
  shows "\<exists>q. build_udiv LENGTH('a) n (ucast c) = Some q \<and> eval_def env q = op_udiv (eval_def env n) c"
proof -
  let ?W = "LENGTH('a)" and ?d = "ucast c :: u64" and ?n = "eval_def env n"
  note le = nir_size_le [OF W]
  have "unat c < 2 ^ ?W" by simp
  also have "(2 :: nat) ^ ?W \<le> 2 ^ 64" using le by (intro power_increasing) auto
  finally have ud: "unat ?d = unat c" by (simp add: unat_ucast_mod)
  have bk: "(ucast ?d :: 'a word) = c" using ud by (simp add: word_unat_eq_iff unat_imm)
  have d0: "?d = 0 \<longleftrightarrow> c = 0" using ud by (metis unat_eq_zero unat_0)
  have um: "unat (u_uintN_max ?W) = 2 ^ ?W - 1" using le by (intro uintN_max_unat) auto
  have un: "unat ?n < 2 ^ ?W" by simp
  consider (1) "?d = 0" | (2) "?d \<noteq> 0" "?d = u_uintN_max ?W" | (3) "?d \<noteq> 0" "?d \<noteq> u_uintN_max ?W" "u_uintN_max ?W div 2 < ?d"
    | (4) "?d \<noteq> 0" "?d \<noteq> u_uintN_max ?W" "\<not> u_uintN_max ?W div 2 < ?d" "util_is_power_of_two_or_zero64 ?d"
    | (5) "?d \<noteq> 0" "?d \<noteq> u_uintN_max ?W" "\<not> u_uintN_max ?W div 2 < ?d" "\<not> util_is_power_of_two_or_zero64 ?d"
    by blast
  then show ?thesis
  proof cases
    case 1
    then show ?thesis using d0 by (simp add: build_udiv_def op_udiv_def)
  next
    case 2
    have c: "unat c = 2 ^ ?W - 1" using 2 ud um by simp
    then have "c = - 1" by (simp add: word_unat_eq_iff unsigned_minus_1_eq_mask mask_eq_exp_minus_1)
    moreover have "?n div - 1 = (if ?n = - 1 then 1 else 0)"
      by simp
    ultimately show ?thesis using 2 d0 unat_uintN_max_word [OF W]
      by (simp add: build_udiv_def op_udiv_def Let_def)
  next
    case 3
    have "(2 ^ ?W - 1) div 2 < unat c" using 3 ud um by (simp add: word_less_nat_alt unat_div)
    then have big: "2 ^ ?W \<le> 2 * unat c" by simp
    have "?n div c = (if c \<le> ?n then 1 else 0)"
    proof (cases "c \<le> ?n")
      case True
      have "unat ?n < 2 * unat c" using big un by linarith
      then have "unat ?n div unat c = 1" using True by (intro div_nat_eqI) (simp_all add: word_le_nat_alt)
      then show ?thesis using True by (simp add: word_unat_eq_iff unat_div)
    next
      case False
      then show ?thesis by (simp add: word_unat_eq_iff unat_div word_le_nat_alt)
    qed
    then show ?thesis using 3 d0 bk by (simp add: build_udiv_def op_udiv_def Let_def)
  next
    case 4
    then obtain s where s: "unat ?d = 2 ^ s" using power_of_two_or_zero_unat by blast
    have "(2 :: nat) ^ s < 2 ^ ?W" using s ud by (metis unsigned_less)
    then have lt: "s < ?W" by (rule power_less_imp_less_exp [rotated]) simp
    have "drop_bit s ?n = ?n div c" using s ud by (simp add: word_unat_eq_iff unat_drop_bit unat_div)
    then show ?thesis using 4 d0 power_of_two_word(3) [OF s] eval_ushr_imm [OF W lt]
      by (simp add: build_udiv_def op_udiv_def Let_def)
  next
    case 5
    obtain m where m: "util_compute_fast_udiv_info ?d ?W ?W = Some m" "udiv_info_ok ?W ?W (unat c) m"
      using udiv_info_total [of ?d ?W ?W] 5(1) ud le by auto
    have c: "1 < unat c" "unat c < 2 ^ ?W" using 5(1,4) ud plain_divisor_ge(1) [of ?d ?W] le by (auto simp: plain_divisor_def)
    note sh = udiv_info_shifts [OF m(2) _ c(2)]
    have "drop_bit (post_shift m) (op_umul_high
        (if increment m \<noteq> 0 then op_uadd_sat (drop_bit (pre_shift m) ?n) (ucast (of_nat (increment m) :: u64)) else drop_bit (pre_shift m) ?n)
        (ucast (multiplier m))) = ?n div c"
      using udiv_sequence [OF m(2) c le(1), of ?n] by (simp only: word_unat_eq_iff unat_div)
    then show ?thesis using 5 d0 m(1) sh c eval_ushr_imm [OF W]
      by (auto simp: build_udiv_def op_udiv_def Let_def)
  qed
qed

lemma imm_of_int: "LENGTH('a :: len) \<le> 64 \<Longrightarrow> (ucast (word_of_int x :: u64) :: 'a word) = word_of_int x"
  by (rule bit_word_eqI) (simp add: bit_simps)

lemma imm_sint: "LENGTH('a :: len) \<le> 64 \<Longrightarrow> (ucast (y :: u64) :: 'a word) = word_of_int (sint y)"
  using imm_of_int [where 'a = 'a and x = "sint y"] by simp

lemma imm_diff: "LENGTH('a :: len) \<le> 64 \<Longrightarrow> (ucast (a - b :: u64) :: 'a word) = ucast a - ucast b"
  using imm_of_int [where 'a = 'a and x = "sint a - sint b"] by (simp add: imm_sint)

lemma imm_minus: "LENGTH('a :: len) \<le> 64 \<Longrightarrow> (ucast (- a :: u64) :: 'a word) = - ucast a"
  using imm_of_int [where 'a = 'a and x = "- sint a"] by (simp add: imm_sint)

lemma sint_scast: "LENGTH('a :: len) \<le> 64 \<Longrightarrow> sint (scast (c :: 'a word) :: u64) = sint c"
  by (rule sint_up_scast) (simp add: is_up)

lemma ucast_zext:
  fixes c :: "'a :: len word"
  assumes "LENGTH('a) \<le> 64"
  shows "unat (ucast c :: u64) = unat c" and "(ucast (ucast c :: u64) :: 'a word) = c"
proof -
  have "unat c < 2 ^ LENGTH('a)" by simp
  also have "(2 :: nat) ^ LENGTH('a) \<le> 2 ^ 64" using assms by (intro power_increasing) auto
  finally show u: "unat (ucast c :: u64) = unat c" by (simp add: unat_ucast_mod)
  show "(ucast (ucast c :: u64) :: 'a word) = c" using u by (simp add: word_unat_eq_iff unat_imm)
qed

lemma unat_two_power: "s < LENGTH('a) \<Longrightarrow> unat (2 ^ s :: 'a :: len word) = 2 ^ s"
  using unsigned_of_nat [where 'a = nat and 'b = 'a and n = "2 ^ s"] by (simp add: take_bit_nat_eq_self)

lemma build_umod_correct:
  fixes env :: "nat \<Rightarrow> 'a :: len word" and c :: "'a word"
  assumes W: "nir_size LENGTH('a)"
  shows "\<exists>q. build_umod lb LENGTH('a) n (ucast c) = Some q \<and> eval_def env q = op_umod (eval_def env n) c"
proof -
  let ?d = "ucast c :: u64" and ?n = "eval_def env n"
  note le = nir_size_le [OF W] and uc = ucast_zext [OF nir_size_le(1) [OF W], of c]
  have d0: "?d = 0 \<longleftrightarrow> c = 0" using uc(1) by (metis unat_eq_zero unat_0)
  show ?thesis
  proof (cases "?d \<noteq> 0 \<and> util_is_power_of_two_or_zero64 ?d")
    case True
    then obtain s where s: "unat ?d = 2 ^ s" using power_of_two_or_zero_unat by blast
    have "(2 :: nat) ^ s < 2 ^ LENGTH('a)" using s uc by (metis unsigned_less)
    then have lt: "s < LENGTH('a)" by (rule power_less_imp_less_exp [rotated]) simp
    have c: "c = 2 ^ s" using s uc(1) lt unfolding word_unat_eq_iff by (simp add: unat_two_power)
    have "?n AND (c - 1) = ?n mod c"
      unfolding c by (simp add: flip: mask_eq_exp_minus_1 take_bit_eq_mask take_bit_eq_mod)
    then show ?thesis using True d0 uc(2) eval_iand_imm [OF W, of env n "?d - 1"] imm_diff [OF le(1), of ?d 1]
      by (simp add: build_umod_def op_umod_def)
  next
    case False
    obtain q where q: "build_udiv LENGTH('a) n ?d = Some q" "eval_def env q = op_udiv ?n c"
      using build_udiv_correct [OF W, of n c env] by blast
    have "?n - ?n div c * c = ?n mod c" by (rule minus_div_mult_eq_mod)
    then show ?thesis using False q d0 uc(2) eval_imul_imm [OF W, of env lb q ?d]
      by (auto simp: build_umod_def op_umod_def op_udiv_def)
  qed
qed

section \<open>Signed division\<close>

lemma word_eq_of_sint: "word_of_int (sint a) = (a :: 'a :: len word)"
  by simp

lemma sint_eqD: "sint a = sint b \<Longrightarrow> a = b" for a b :: "'a :: len word"
  by (metis word_eq_of_sint)

lemma sint_range: "- (2 ^ (LENGTH('a) - 1)) \<le> sint a \<and> sint a < 2 ^ (LENGTH('a) - 1)" for a :: "'a :: len word"
  using sint_greater_eq [of a] sint_less [of a] by simp

lemma sint_of_int_self:
  "- (2 ^ (LENGTH('a) - 1)) \<le> x \<Longrightarrow> x < 2 ^ (LENGTH('a) - 1) \<Longrightarrow> sint (word_of_int x :: 'a :: len word) = x"
  by (simp add: signed_of_int signed_take_bit_int_eq_self)

lemma sint_int_min: "sint (word_int_min :: 'a :: len word) = - (2 ^ (LENGTH('a) - 1))"
proof -
  let ?w = "LENGTH('a) - 1"
  have "(2 :: 'a word) ^ ?w + 2 ^ ?w = 2 ^ Suc ?w" by (simp only: power_Suc mult_2)
  also have "Suc ?w = LENGTH('a)" by simp
  also have "(2 :: 'a word) ^ LENGTH('a) = 0" by simp
  finally have "(2 :: 'a word) ^ ?w = - (2 ^ ?w)" by (simp only: eq_neg_iff_add_eq_0)
  then have "(word_int_min :: 'a word) = word_of_int (- (2 ^ ?w))"
    by (simp add: word_int_min_def push_bit_eq_mult)
  then show ?thesis using sint_of_int_self [where 'a = 'a and x = "- (2 ^ ?w)"] by simp
qed

lemma int_min_imm:
  assumes W: "nir_size LENGTH('a :: len)"
  shows "sint (u_intN_min LENGTH('a)) = - (2 ^ (LENGTH('a) - 1))" and "(ucast (u_intN_min LENGTH('a)) :: 'a word) = word_int_min"
proof -
  show s: "sint (u_intN_min LENGTH('a)) = - (2 ^ (LENGTH('a) - 1))"
    using W by (auto simp: nir_size_def u_intN_min_def u_intN_max_def)
  have "(ucast (u_intN_min LENGTH('a)) :: 'a word) = word_of_int (sint (word_int_min :: 'a word))"
    unfolding imm_sint [where 'a = 'a, OF nir_size_le(1) [OF W]] s sint_int_min ..
  then show "(ucast (u_intN_min LENGTH('a)) :: 'a word) = word_int_min" by simp
qed

lemma drop_top_bit: "drop_bit (LENGTH('a) - 1) a = (if sint a < 0 then 1 else (0 :: 'a :: len word))"
proof -
  have "sint a < 0 \<longleftrightarrow> bit a (LENGTH('a) - 1)"
    by (simp add: bit_last_iff)
  moreover have "bit (drop_bit (LENGTH('a) - 1) a) i \<longleftrightarrow> i = 0 \<and> bit a (LENGTH('a) - 1)" for i
    by (cases "i = 0") (auto simp: bit_simps dest: bit_imp_le_length)
  ultimately show ?thesis by (intro bit_word_eqI) (auto simp: bit_simps)
qed

lemma uint_iabs: "int (unat (op_iabs a)) = \<bar>sint a\<bar>" for a :: "'a :: len word"
proof -
  have r: "\<bar>sint a\<bar> \<le> 2 ^ (LENGTH('a) - 1)" using sint_range [of a] by linarith
  also have "(2 :: int) ^ (LENGTH('a) - 1) < 2 ^ LENGTH('a)" by (intro power_strict_increasing) auto
  finally have "\<bar>sint a\<bar> < 2 ^ LENGTH('a)" .
  moreover have "op_iabs a = word_of_int \<bar>sint a\<bar>" by (simp add: op_iabs_def)
  ultimately show ?thesis by (simp add: unsigned_of_int take_bit_int_eq_self)
qed

text \<open>The width of the divisor and of its multiplier.\<close>

lemma sext_divisor:
  fixes c :: "'a :: len word"
  assumes W: "nir_size LENGTH('a)"
  defines "d \<equiv> scast c :: u64"
  shows "sint d = sint c" and "(ucast d :: 'a word) = c"
    and "d = u_intN_min LENGTH('a) \<longleftrightarrow> c = word_int_min"
    and "d = 0 \<longleftrightarrow> c = 0" and "d = 1 \<longleftrightarrow> c = 1" and "d = - 1 \<longleftrightarrow> c = - 1"
    and "c \<noteq> word_int_min \<Longrightarrow> \<bar>sint c\<bar> < 2 ^ (LENGTH('a) - 1)"
proof -
  note le = nir_size_le [OF W]
  show s: "sint d = sint c" unfolding d_def by (rule sint_scast [OF le(1)])
  show "(ucast d :: 'a word) = c" unfolding imm_sint [OF le(1)] s by simp
  have eq: "d = x \<longleftrightarrow> c = y" if "sint x = sint y" for x and y :: "'a word"
    using that s by (metis word_eq_of_sint)
  show "d = u_intN_min LENGTH('a) \<longleftrightarrow> c = word_int_min" by (rule eq) (simp only: int_min_imm [OF W] sint_int_min)
  show "d = 0 \<longleftrightarrow> c = 0" "d = - 1 \<longleftrightarrow> c = - 1" by (rule eq, simp)+
  have "LENGTH('a) \<noteq> 1" using le by auto
  then show "d = 1 \<longleftrightarrow> c = 1" by (intro eq) simp
  show "\<bar>sint c\<bar> < 2 ^ (LENGTH('a) - 1)" if "c \<noteq> word_int_min"
  proof -
    have "sint c \<noteq> - (2 ^ (LENGTH('a) - 1))" using that unfolding sint_int_min [where 'a = 'a, symmetric] by (metis word_eq_of_sint)
    then show ?thesis using sint_range [of c] by linarith
  qed
qed

lemma int_div_less:
  fixes x y P :: int
  assumes "0 < P" and "x < y * P"
  shows "x div P < y"
proof (rule ccontr)
  assume "\<not> x div P < y"
  then have "y * P \<le> x div P * P" using assms(1) by (intro mult_right_mono) auto
  also have "\<dots> \<le> x" using div_mult_mod_eq [of x P] pos_mod_sign [OF assms(1), of x] by linarith
  finally show False using assms(2) by simp
qed

lemma sdiv_high_range:
  fixes x :: int
  assumes "\<bar>x\<bar> \<le> 2 ^ w" and "0 < M" "M < 2 ^ (w + 1)"
  shows "- (2 ^ w) \<le> x * int M div 2 ^ (w + 1)" and "x * int M div 2 ^ (w + 1) < 2 ^ w"
proof -
  let ?P = "2 ^ (w + 1) :: int"
  have M: "0 < int M" "int M < ?P" using assms by (simp, metis of_nat_less_iff of_nat_numeral of_nat_power)
  have "\<bar>x\<bar> * int M \<le> 2 ^ w * int M" using assms(1) by (intro mult_right_mono) auto
  also have "\<dots> < 2 ^ w * ?P" using M by simp
  finally have "\<bar>x * int M\<bar> < 2 ^ w * ?P" by (simp only: abs_mult abs_of_nat)
  then have b: "- (2 ^ w * ?P) < x * int M" "x * int M < 2 ^ w * ?P" by linarith+
  have "- (2 ^ w) * ?P div ?P = - (2 ^ w)" by (rule nonzero_mult_div_cancel_right) simp
  moreover have "- (2 ^ w) * ?P div ?P \<le> x * int M div ?P" using b(1) by (intro zdiv_mono1) (linarith, simp)
  ultimately show "- (2 ^ w) \<le> x * int M div ?P" by (simp only:)
  show "x * int M div ?P < 2 ^ w" using b(2) by (intro int_div_less) auto
qed

lemma signed_drop_of_int:
  fixes a :: "'a :: len word"
  shows "signed_drop_bit s a = word_of_int (sint a div 2 ^ s)"
  by (metis drop_bit_eq_div sint_signed_drop_bit_eq word_eq_of_sint)

text \<open>The emitted sequence computes \<open>sdiv_sequence\<close> at the width of the instruction.\<close>

lemma idiv_sequence:
  fixes n :: "'a :: len word" and info :: util_fast_sdiv_info
  assumes W: "nir_size LENGTH('a)" and D: "sdiv_divisor d (LENGTH('a) - 1)"
    and i: "sdiv_magic d (LENGTH('a) - 1) M p" "s_shift info = p - LENGTH('a)"
      "sint (s_multiplier info) = sgn (sint d) * (if M < 2 ^ (LENGTH('a) - 1) then int M else int M - 2 ^ LENGTH('a))"
  defines "m \<equiv> s_multiplier info"
  defines "res1 \<equiv> op_imul_high n (ucast m)"
  defines "res2 \<equiv> (if 0 < sint d \<and> sint m < 0 then res1 + n else res1)"
  defines "res3 \<equiv> (if sint d < 0 \<and> 0 < sint m then res2 - n else res2)"
  defines "res4 \<equiv> signed_drop_bit (s_shift info) res3"
  shows "res4 + drop_bit (LENGTH('a) - 1) res4 = word_of_int (sint n sdiv sint d)" and "s_shift info < LENGTH('a)"
proof -
  let ?w = "LENGTH('a) - 1"
  note le = nir_size_le [OF W]
  have w1: "?w + 1 = LENGTH('a)" using le by simp
  have i2: "s_shift info = p - (?w + 1)" using i(2) unfolding w1 .
  have i3: "sint (s_multiplier info) = sgn (sint d) * (if M < 2 ^ ?w then int M else int M - 2 ^ (?w + 1))" using i(3) unfolding w1 .
  have M: "0 < M" "M < 2 ^ (?w + 1)" "M \<noteq> 2 ^ ?w" and p: "?w < p" "p \<le> 2 * ?w + 1" using i(1) by (auto simp: sdiv_magic_def)
  show "s_shift info < LENGTH('a)" using i(2) p w1 by linarith
  have d0: "sint d \<noteq> 0" using D by (simp add: sdiv_divisor_def signed_eq_0_iff)
  then have s: "sgn (sint d) = 1 \<or> sgn (sint d) = - 1" "0 < sint d \<longleftrightarrow> sgn (sint d) = 1" "sint d < 0 \<longleftrightarrow> sgn (sint d) = - 1"
    by (auto simp: sgn_if)
  have iM: "int M < 2 * 2 ^ ?w" using M(2) by (metis Suc_eq_plus1 of_nat_less_iff of_nat_numeral of_nat_power power_Suc)
  have wp: "(2 :: int) ^ LENGTH('a) = 2 * 2 ^ ?w" using w1 by (metis Suc_eq_plus1 power_Suc)
  have mr: "\<bar>sint m\<bar> < 2 ^ ?w"
  proof -
    have "int M \<noteq> 2 ^ ?w" using M(3) by (metis of_nat_eq_iff of_nat_numeral of_nat_power)
    moreover have "M < 2 ^ ?w \<longleftrightarrow> int M < 2 ^ ?w" by (metis of_nat_less_iff of_nat_numeral of_nat_power)
    ultimately show ?thesis using iM M(1) s(1) unfolding m_def i(3) wp by (auto simp: abs_if)
  qed
  then have um: "sint (ucast m :: 'a word) = sint m"
    unfolding imm_sint [OF le(1)] by (intro sint_of_int_self) linarith+
  have r1: "res1 = word_of_int (sint m * sint n div 2 ^ (?w + 1))" unfolding res1_def op_imul_high_def um w1 by (simp only: mult.commute)
  let ?X = "sgn (sint d) * sint n * int M div 2 ^ (?w + 1)"
  let ?R = "sint m * sint n div 2 ^ (?w + 1)"
  let ?R2 = "if 0 < sint d \<and> sint m < 0 then ?R + sint n else ?R"
  have "res3 = word_of_int (if sint d < 0 \<and> 0 < sint m then ?R2 - sint n else ?R2)"
    unfolding res3_def res2_def r1 by simp
  also have "(if sint d < 0 \<and> 0 < sint m then ?R2 - sint n else ?R2) = ?X"
    using sdiv_high_product [OF M s(1), of "sint n"] i(3) unfolding w1 m_def [symmetric] s(2,3) [symmetric] by (simp only:)
  finally have "res3 = word_of_int ?X" .
  moreover have "\<bar>sgn (sint d) * sint n\<bar> \<le> 2 ^ ?w" using sint_range [of n] s(1) by (auto simp: abs_if)
  ultimately have r3: "sint res3 = ?X" using sdiv_high_range [OF _ M(1,2)] by (simp only: sint_of_int_self)
  have r4: "sint res4 = sgn (sint d) * sint n * int M div 2 ^ p"
  proof -
    have "?w + 1 + (p - (?w + 1)) = p" using p by simp
    then show ?thesis unfolding res4_def sint_signed_drop_bit_eq drop_bit_eq_div r3 i2 div_div_power by (simp only:)
  qed
  have "res4 + drop_bit ?w res4 = word_of_int (sint res4 + (if sint res4 < 0 then 1 else 0))"
    unfolding drop_top_bit by simp
  also have "sint res4 + (if sint res4 < 0 then 1 else 0) = sdiv_sequence info d (?w + 1) (sint n)"
    unfolding sdiv_sequence_eq [OF D i(1) i2 i3] r4 Let_def ..
  also have "\<dots> = sint n sdiv sint d"
    using sint_range [of n] by (intro sdiv_sequence_correct [OF D i(1) i2 i3]) auto
  finally show "res4 + drop_bit ?w res4 = word_of_int (sint n sdiv sint d)" .
qed

lemma sint_minus_one_iff: "sint a = - 1 \<longleftrightarrow> a = - 1" and sint_zero_iff: "sint a = 0 \<longleftrightarrow> a = 0"
  for a :: "'a :: len word"
  by (metis of_int_minus of_int_1 sint_n1 word_eq_of_sint) (simp add: signed_eq_0_iff)

lemma abs_pot_divisor:
  fixes c :: "'a :: len word"
  assumes W: "nir_size LENGTH('a)" and c: "c \<noteq> 0" "c \<noteq> word_int_min"
  defines "d \<equiv> scast c :: u64"
  assumes pot: "util_is_power_of_two_or_zero64 (if sint d < 0 then - d else d)"
  obtains s where "\<bar>sint c\<bar> = 2 ^ s" and "s < LENGTH('a) - 1" and "util_logbase2_64 (if sint d < 0 then - d else d) = s"
    and "(if sint d < 0 then - d else d) = push_bit s 1"
proof -
  note le = nir_size_le [OF W] and sd = sext_divisor [OF W, of c, folded d_def]
  let ?a = "sdiv_abs d"
  have lt: "\<bar>sint d\<bar> < 2 ^ (LENGTH('a) - 1)" using sd(1,7) c by simp
  have u: "unat ?a = nat \<bar>sint d\<bar>" using lt le by (intro unat_sdiv_abs) auto
  have "?a \<noteq> 0" using sd(4) c(1) by (auto simp: sdiv_abs_def)
  then obtain s where s: "unat ?a = 2 ^ s" using pot power_of_two_or_zero_unat [of ?a] by (auto simp: sdiv_abs_def)
  then have "nat \<bar>sint d\<bar> = 2 ^ s" using u by simp
  then have e: "\<bar>sint d\<bar> = 2 ^ s" by (metis abs_ge_zero int_nat_eq of_nat_numeral of_nat_power)
  then have "(2 :: int) ^ s < 2 ^ (LENGTH('a) - 1)" using lt by simp
  then have "s < LENGTH('a) - 1" by (rule power_less_imp_less_exp [rotated]) simp
  then show thesis using that e sd(1) power_of_two_word(2,3) [OF s] by (simp add: sdiv_abs_def)
qed

lemma idiv_pot_value:
  fixes n :: "'a :: len word"
  assumes s: "\<bar>x\<bar> = 2 ^ s"
  defines "uq \<equiv> drop_bit s (op_iabs n)"
  shows "(if (sint n < 0) \<noteq> (x < 0) then op_ineg uq else uq) = word_of_int (sint n sdiv x)"
proof -
  let ?q = "\<bar>sint n\<bar> div 2 ^ s"
  have uq: "int (unat uq) = ?q"
    unfolding uq_def unat_drop_bit of_nat_div uint_iabs by simp
  then have w: "uq = word_of_int ?q" using of_int_of_nat_eq [of "unat uq", where 'a = "'a word"] by simp
  have neg: "op_ineg uq = word_of_int (- ?q)"
  proof (cases "uq = word_int_min")
    case True
    have "sint uq = - (2 ^ (LENGTH('a) - 1))" using True sint_int_min by simp
    then have "word_of_int (- (- (2 ^ (LENGTH('a) - 1)))) = - uq" by (metis of_int_minus word_eq_of_sint)
    moreover have "(word_int_min :: 'a word) = word_of_int (2 ^ (LENGTH('a) - 1))" by (simp add: word_int_min_def push_bit_eq_mult)
    ultimately have "- uq = uq" using True by simp
    then show ?thesis using w True by (simp add: op_ineg_def)
  next
    case False
    then show ?thesis using w by (simp add: op_ineg_def)
  qed
  have x0: "x \<noteq> 0" using s by auto
  have sd: "sint n sdiv x = sgn (sint n) * sgn x * ?q" by (simp add: signed_divide_int_def s)
  show ?thesis
  proof (cases "sint n = 0")
    case True
    then have "uq = 0" using w by simp
    moreover have "(0 :: 'a word) \<noteq> word_int_min" using sint_int_min [where 'a = 'a] by (auto simp flip: sint_zero_iff)
    ultimately show ?thesis using True sd by (auto simp: op_ineg_def)
  next
    case False
    then show ?thesis using neg w x0 unfolding sd by (auto simp: sgn_if)
  qed
qed

lemma int_min_neq:
  assumes W: "nir_size LENGTH('a :: len)"
  shows "(word_int_min :: 'a word) \<noteq> 0" and "(word_int_min :: 'a word) \<noteq> - 1" and "(word_int_min :: 'a word) \<noteq> 1"
proof -
  have "(2 :: int) ^ 2 \<le> 2 ^ (LENGTH('a) - 1)" using nir_size_le(2) [OF W] by (intro power_increasing) auto
  then have "sint (word_int_min :: 'a word) < - 1" unfolding sint_int_min by simp
  then show "(word_int_min :: 'a word) \<noteq> - 1" by (metis sint_n1 less_irrefl)
  show "(word_int_min :: 'a word) \<noteq> 0" using \<open>sint (word_int_min :: 'a word) < - 1\<close> by (metis sint_0 neg_less_0_iff_less not_less_iff_gr_or_eq zero_less_one less_trans)
  have "LENGTH('a) \<noteq> 1" using nir_size_le(2) [OF W] by auto
  then have "sint (1 :: 'a word) = 1" by simp
  then show "(word_int_min :: 'a word) \<noteq> 1" using \<open>sint (word_int_min :: 'a word) < - 1\<close> by (metis less_minus_one_simps(4) less_asym' not_less_iff_gr_or_eq)
qed

lemma idiv_by_int_min:
  fixes n :: "'a :: len word"
  assumes W: "nir_size LENGTH('a)"
  shows "op_idiv n word_int_min = (if n = word_int_min then 1 else 0)"
proof -
  let ?P = "2 ^ (LENGTH('a) - 1) :: int"
  have s: "sint n sdiv - ?P = - sgn (sint n) * (\<bar>sint n\<bar> div ?P)" by (simp add: signed_divide_int_def)
  show ?thesis
  proof (cases "n = word_int_min")
    case True
    then have "sint n = - ?P" by (simp add: sint_int_min)
    then show ?thesis using True s int_min_neq [OF W] by (simp add: op_idiv_def sint_int_min)
  next
    case False
    then have "sint n \<noteq> - ?P" by (metis sint_int_min word_eq_of_sint)
    then have "\<bar>sint n\<bar> < ?P" using sint_range [of n] by linarith
    then have "\<bar>sint n\<bar> div ?P = 0" by simp
    then show ?thesis using False s by (simp add: op_idiv_def sint_int_min)
  qed
qed

lemma build_idiv_correct:
  fixes env :: "nat \<Rightarrow> 'a :: len word" and c :: "'a word"
  assumes W: "nir_size LENGTH('a)"
  shows "\<exists>q. build_idiv LENGTH('a) n (scast c) = Some q \<and>
           eval_def env q = (if eval_def env n = word_int_min \<and> c = - 1 then word_int_min else op_idiv (eval_def env n) c)"
proof -
  let ?d = "scast c :: u64" and ?n = "eval_def env n"
  note le = nir_size_le [OF W] and sd = sext_divisor [OF W, of c] and nq = int_min_neq [OF W]
  consider (min) "c = word_int_min" | (small) "c = 0 \<or> c = 1 \<or> c = - 1"
    | (pot) "c \<noteq> word_int_min" "c \<noteq> 0" "c \<noteq> 1" "c \<noteq> - 1" "util_is_power_of_two_or_zero64 (if sint ?d < 0 then - ?d else ?d)"
    | (magic) "c \<noteq> word_int_min" "c \<noteq> 0" "c \<noteq> 1" "c \<noteq> - 1" "\<not> util_is_power_of_two_or_zero64 (if sint ?d < 0 then - ?d else ?d)"
    by blast
  then show ?thesis
  proof cases
    case min
    then show ?thesis using sd(3) nq idiv_by_int_min [OF W, of ?n] int_min_imm(2) [OF W] by (simp add: build_idiv_def Let_def)
  next
    case small
    moreover have "LENGTH('a) \<noteq> 1" using le by auto
    ultimately consider "c = 0" | "c = 1" "sint c = 1" | "c = - 1" by auto
    then show ?thesis
    proof cases
      case 1
      then show ?thesis using sd(3,4) nq by (simp add: build_idiv_def Let_def op_idiv_def)
    next
      case 2
      have "sint ?n sdiv sint c = sint ?n" unfolding 2(2) by (simp add: signed_divide_int_def sgn_mult_abs)
      then show ?thesis using 2(1) sd(3-6) nq by (simp add: build_idiv_def Let_def op_idiv_def)
    next
      case 3
      have "sint ?n sdiv - 1 = - sint ?n" by (simp add: signed_divide_int_def sgn_mult_abs)
      then show ?thesis using 3 sd(3-6) nq by (simp add: build_idiv_def Let_def op_idiv_def op_ineg_def)
    qed
  next
    case pot
    obtain s where s: "\<bar>sint c\<bar> = 2 ^ s" "s < LENGTH('a) - 1" "util_logbase2_64 (if sint ?d < 0 then - ?d else ?d) = s"
      by (rule abs_pot_divisor [OF W pot(2,1,5)])
    have lt: "s < LENGTH('a)" using s(2) by simp
    have "build_idiv LENGTH('a) n ?d = Some (Bcsel (if sint ?d < 0 then Inot (Ilt n (Imm 0)) else Ilt n (Imm 0))
        (Ineg (nir_ushr_imm (Iabs n) s)) (nir_ushr_imm (Iabs n) s))"
      using pot sd(3-6) s(3) by (simp only: build_idiv_def Let_def if_True if_False)
    then show ?thesis using idiv_pot_value [OF s(1), of ?n] pot(1-4) sd(1) eval_ushr_imm [OF W lt]
      by (auto simp: op_idiv_def)
  next
    case magic
    have D: "sdiv_divisor ?d (LENGTH('a) - 1)" using magic sd le by (auto simp: sdiv_divisor_def sdiv_abs_def)
    have w1: "LENGTH('a) - 1 + 1 = LENGTH('a)" using le by simp
    obtain info M p where i: "util_compute_fast_sdiv_info ?d LENGTH('a) = Some info" "sdiv_magic ?d (LENGTH('a) - 1) M p"
        "s_shift info = p - LENGTH('a)" "sint (s_multiplier info) = sgn (sint ?d) * (if M < 2 ^ (LENGTH('a) - 1) then int M else int M - 2 ^ LENGTH('a))"
      using sdiv_info_total [OF D] unfolding w1 by metis
    note q = idiv_sequence(1) [OF W D i(2-4), of ?n] idiv_sequence(2) [OF W D i(2-4)]
    have "LENGTH('a) - 1 < LENGTH('a)" by simp
    note ev = eval_ushr_imm [OF W this] eval_ishr_imm [OF W q(2)]
    show ?thesis using magic sd(1,3-6) i(1) q(1) [unfolded sd(1)] ev
      by (cases "s_shift info = 0") (auto simp: build_idiv_def Let_def op_idiv_def split: if_splits)
  qed
qed

section \<open>Signed remainders\<close>

lemma and_minus_exp: "x AND - (2 ^ s) = x - x mod 2 ^ s" for x :: int
proof -
  have "(x AND mask s) + (x AND NOT (mask s)) = (x AND mask s) OR (x AND NOT (mask s))"
    by (rule disjunctive_add_eq_or) (auto simp: bit_eq_iff bit_simps)
  also have "\<dots> = x" by (auto simp: bit_eq_iff bit_simps)
  finally have "x mod 2 ^ s + (x AND - (2 ^ s)) = x"
    by (simp only: minus_exp_eq_not_mask take_bit_eq_mod [symmetric] take_bit_eq_mask)
  then show ?thesis by linarith
qed

lemma or_minus_exp: "x OR - (2 ^ s) = x mod 2 ^ s - 2 ^ s" for x :: int
proof -
  have "(x AND - (2 ^ s)) + (x OR - (2 ^ s)) = x + - (2 ^ s)" by (rule plus_and_or)
  then show ?thesis unfolding and_minus_exp by linarith
qed

lemma smod_pot:
  fixes x y :: int
  assumes "\<bar>y\<bar> = 2 ^ s"
  shows "x - ((if x < 0 then x + (2 ^ s - 1) else x) AND - (2 ^ s)) = x smod y"
proof (cases "x < 0")
  case True
  have "(x + (2 ^ s - 1)) mod 2 ^ s = 2 ^ s - 1 - (- x) mod 2 ^ s"
  proof (rule int_mod_pos_eq [where q = "- ((- x) div 2 ^ s)"])
    show "x + (2 ^ s - 1) = 2 ^ s * - ((- x) div 2 ^ s) + (2 ^ s - 1 - (- x) mod 2 ^ s)"
      using mult_div_mod_eq [of "2 ^ s" "- x"] by linarith
    have "0 \<le> (- x) mod 2 ^ s" "(- x) mod 2 ^ s < 2 ^ s" by simp_all
    then show "0 \<le> 2 ^ s - 1 - (- x) mod 2 ^ s" "2 ^ s - 1 - (- x) mod 2 ^ s < 2 ^ s" by linarith+
  qed
  then show ?thesis using True assms by (simp add: and_minus_exp smod_int_alt_def sgn_if)
next
  case False
  then show ?thesis using assms by (simp add: and_minus_exp smod_int_alt_def sgn_if)
qed

lemma irem_value: "op_irem n c = (if c = 0 then 0 else word_of_int (sint n smod sint c))"
  by (auto simp: op_irem_def smod_int_alt_def)

lemma imod_value: "op_imod n c = (if c = 0 then 0 else word_of_int (sint n mod sint c))"
proof (cases "c = 0")
  case False
  then have c0: "sint c \<noteq> 0" by (simp add: sint_zero_iff)
  have "sint n smod sint c = 0 \<longleftrightarrow> sint c dvd sint n"
    unfolding smod_int_alt_def mult_eq_0_iff sgn_eq_0_iff mod_eq_0_iff_dvd by auto
  moreover have "\<not> sint c dvd sint n \<Longrightarrow> sint n \<noteq> 0" by auto
  ultimately have "sint n mod sint c =
    (if sint n smod sint c = 0 \<or> (0 \<le> sint n) = (0 \<le> sint c) then sint n smod sint c else sint n smod sint c + sint c)"
    using c0 unfolding modulo_int_eq_signed_modulo_int [of "sint n"] by (auto simp: sgn_if)
  then show ?thesis using False by (auto simp: op_imod_def)
qed (simp add: op_imod_def)

lemma abs_imm:
  fixes c :: "'a :: len word"
  assumes W: "nir_size LENGTH('a)"
  defines "d \<equiv> scast c :: u64"
  shows "(ucast (if sint d < 0 then - d else d) :: 'a word) = word_of_int \<bar>sint c\<bar>"
    and "c \<noteq> word_int_min \<Longrightarrow> (if sint d < 0 then - d else d) = scast (op_iabs c)"
    and "c \<noteq> word_int_min \<Longrightarrow> sint (op_iabs c) = \<bar>sint c\<bar>"
proof -
  note le = nir_size_le [OF W] and sd = sext_divisor [OF W, of c, folded d_def]
  show "(ucast (if sint d < 0 then - d else d) :: 'a word) = word_of_int \<bar>sint c\<bar>"
    using sd(1,2) by (simp add: imm_minus [OF le(1)])
  show a: "sint (op_iabs c) = \<bar>sint c\<bar>" if "c \<noteq> word_int_min"
  proof -
    have "op_iabs c = word_of_int \<bar>sint c\<bar>" by (simp add: op_iabs_def)
    then show ?thesis using sd(7) [OF that] by (simp add: sint_of_int_self)
  qed
  show "(if sint d < 0 then - d else d) = scast (op_iabs c)" if c: "c \<noteq> word_int_min"
  proof -
    have "\<bar>sint d\<bar> < 2 ^ (LENGTH('a) - 1)" using sd(1,7) c by simp
    moreover have "(2 :: int) ^ (LENGTH('a) - 1) \<le> 2 ^ 63" using le(1) by (intro power_increasing) auto
    ultimately have "- (2 ^ 63) < sint d" by linarith
    then have "sint (if sint d < 0 then - d else d) = \<bar>sint c\<bar>" using sd(1) sint_minus_small [of d] by simp
    also have "\<dots> = sint (scast (op_iabs c) :: u64)" using a [OF c] sint_scast [OF le(1)] by simp
    finally show ?thesis by (rule sint_eqD)
  qed
qed

lemma build_irem_correct:
  fixes env :: "nat \<Rightarrow> 'a :: len word" and c :: "'a word"
  assumes W: "nir_size LENGTH('a)"
  shows "\<exists>q. build_irem lb LENGTH('a) n (scast c) = Some q \<and> eval_def env q = op_irem (eval_def env n) c"
proof -
  let ?d = "scast c :: u64" and ?n = "eval_def env n"
  define a where "a = (if sint ?d < 0 then - ?d else ?d)"
  note le = nir_size_le [OF W] and sd = sext_divisor [OF W, of c] and nq = int_min_neq [OF W]
    and ab = abs_imm [OF W, of c, folded a_def]
  consider (zero) "c = 0" | (min) "c = word_int_min" | (pot) "c \<noteq> word_int_min" "c \<noteq> 0" "util_is_power_of_two_or_zero64 a"
    | (magic) "c \<noteq> word_int_min" "c \<noteq> 0" "\<not> util_is_power_of_two_or_zero64 a" by blast
  then show ?thesis
  proof cases
    case zero
    then show ?thesis by (simp add: build_irem_def op_irem_def)
  next
    case min
    let ?P = "2 ^ (LENGTH('a) - 1) :: int"
    have "word_of_int (sint ?n smod - ?P) = (if ?n = word_int_min then 0 else ?n)"
    proof (cases "?n = word_int_min")
      case True
      then show ?thesis by (simp add: sint_int_min smod_int_alt_def)
    next
      case False
      then have "\<bar>sint ?n\<bar> < ?P" by (rule sext_divisor(7) [OF W])
      then have "sint ?n smod - ?P = sint ?n" by (simp add: smod_int_alt_def sgn_mult_abs)
      then show ?thesis using False by simp
    qed
    then show ?thesis using min sd(3,4) nq int_min_imm(2) [OF W] by (simp add: build_irem_def irem_value sint_int_min)
  next
    case pot
    obtain s where s: "\<bar>sint c\<bar> = 2 ^ s" by (rule abs_pot_divisor [OF W pot(2,1) pot(3) [unfolded a_def]])
    have ua: "(ucast a :: 'a word) = word_of_int (2 ^ s)" using ab(1) s by simp
    let ?t = "if sint ?n < 0 then sint ?n + (2 ^ s - 1) else sint ?n"
    have "?n - ((if sint ?n < 0 then ?n + (ucast a - 1) else ?n) AND - ucast a) = word_of_int (sint ?n - (?t AND - (2 ^ s)))"
      unfolding ua by (simp add: of_int_and_eq)
    also have "\<dots> = op_irem ?n c" unfolding smod_pot [OF s] irem_value using pot by simp
    finally have v: "?n - ((if sint ?n < 0 then ?n + (ucast a - 1) else ?n) AND - ucast a) = op_irem ?n c" .
    have "build_irem lb LENGTH('a) n ?d = Some (Isub n (nir_iand_imm LENGTH('a) (Bcsel (Ilt n (Imm 0)) (nir_iadd_imm LENGTH('a) n (a - 1)) n) (- a)))"
      using pot sd(3,4) by (simp only: build_irem_def Let_def a_def [symmetric] if_True if_False)
    then show ?thesis using v eval_iadd_imm [OF W] eval_iand_imm [OF W] imm_diff [OF le(1)] imm_minus [OF le(1)]
      by (simp split: if_splits)
  next
    case magic
    let ?c = "op_iabs c"
    have "sint ?c \<noteq> - 1" using ab(3) [OF magic(1)] by simp
    then have c1: "?c \<noteq> - 1" by (auto simp: sint_minus_one_iff)
    have c0: "?c \<noteq> 0" using ab(3) [OF magic(1)] magic(2) by (metis abs_eq_0_iff sint_zero_iff)
    obtain q where q: "build_idiv LENGTH('a) n a = Some q" "eval_def env q = op_idiv ?n ?c"
      using build_idiv_correct [OF W, of n ?c env] c1 unfolding ab(2) [OF magic(1)] by auto
    have "?n - op_idiv ?n ?c * ucast a = word_of_int (sint ?n - sint ?n sdiv \<bar>sint c\<bar> * \<bar>sint c\<bar>)"
      unfolding ab(1) op_idiv_def ab(3) [OF magic(1)] using c0 c1 by simp
    also have "\<dots> = op_irem ?n c" unfolding minus_sdiv_mult_eq_smod irem_value using magic by (simp add: smod_int_alt_def)
    finally have v: "?n - op_idiv ?n ?c * ucast a = op_irem ?n c" .
    have "build_irem lb LENGTH('a) n ?d = Some (Isub n (nir_imul_imm lb LENGTH('a) q a))"
      using magic sd(3,4) q(1) by (simp only: build_irem_def Let_def a_def [symmetric] if_True if_False Option.bind.simps)
    then show ?thesis using v q(2) eval_imul_imm [OF W, of env lb q a] by simp
  qed
qed

lemma int_min_less_iff:
  fixes n :: "'a :: len word"
  shows "word_int_min < n \<longleftrightarrow> sint n < 0 \<and> n \<noteq> word_int_min"
proof -
  have "unat (word_int_min :: 'a word) = 2 ^ (LENGTH('a) - 1)"
    by (simp add: word_int_min_def push_bit_eq_mult unat_two_power)
  moreover have "unat n div 2 ^ (LENGTH('a) - 1) = (if sint n < 0 then 1 else 0)"
    using arg_cong [OF drop_top_bit [of n], of unat] by (simp add: unat_drop_bit)
  then have "2 ^ (LENGTH('a) - 1) \<le> unat n \<longleftrightarrow> sint n < 0"
    using div_greater_zero_iff [of "unat n" "2 ^ (LENGTH('a) - 1)"] by (simp split: if_splits)
  ultimately have "word_int_min \<le> n \<longleftrightarrow> sint n < 0" by (simp add: word_le_nat_alt)
  then show ?thesis by (metis order_less_le)
qed

lemma imod_by_int_min:
  fixes n :: "'a :: len word"
  assumes W: "nir_size LENGTH('a)"
  shows "op_imod n word_int_min = (if word_int_min < n \<or> n = 0 then n else word_int_min + n)"
proof -
  let ?P = "2 ^ (LENGTH('a) - 1) :: int"
  have z: "(word_int_min :: 'a word) \<noteq> 0" by (rule int_min_neq(1) [OF W])
  have m: "op_imod n word_int_min = word_of_int (sint n mod - ?P)" using z by (simp add: imod_value sint_int_min)
  have mw: "word_int_min = (word_of_int (- ?P) :: 'a word)" by (metis sint_int_min word_eq_of_sint)
  consider (neg) "sint n < 0" "n \<noteq> word_int_min" | (zero) "n = 0" | (min) "n = word_int_min" | (pos) "0 < sint n"
    by (metis linorder_neqE sint_zero_iff)
  then show ?thesis
  proof cases
    case neg
    then have "\<bar>sint n\<bar> < ?P" by (intro sext_divisor(7) [OF W])
    then have "sint n mod - ?P = sint n" using neg by (simp add: mod_neg_neg_trivial)
    then show ?thesis using m neg by (simp add: int_min_less_iff)
  next
    case zero
    then show ?thesis using m by simp
  next
    case min
    then have "sint n mod - ?P = 0" by (simp add: sint_int_min)
    moreover have "word_int_min + n = word_of_int (- ?P + - ?P)" unfolding min mw of_int_add ..
    moreover have "(word_of_int (- ?P + - ?P) :: 'a word) = 0"
    proof -
      have "- ?P + - ?P = - (2 ^ Suc (LENGTH('a) - 1))" by (simp only: power_Suc)
      also have "Suc (LENGTH('a) - 1) = LENGTH('a)" by simp
      finally show ?thesis by simp
    qed
    ultimately show ?thesis using m min z by (simp add: int_min_less_iff)
  next
    case pos
    have "sint n mod - ?P = sint n - ?P"
      using pos sint_range [of n] by (intro int_mod_neg_eq [where q = "- 1"]) auto
    moreover have "word_int_min + n = word_of_int (sint n - ?P)" using mw by simp
    moreover have "n \<noteq> 0" using pos by auto
    ultimately show ?thesis using m pos by (simp add: int_min_less_iff)
  qed
qed

lemma imod_pot_value:
  fixes n c :: "'a :: len word"
  assumes c: "\<bar>sint c\<bar> = 2 ^ s"
  shows "0 < sint c \<Longrightarrow> n AND (c - 1) = word_of_int (sint n mod sint c)"
    and "sint c < 0 \<Longrightarrow> s < LENGTH('a) \<Longrightarrow> (if n OR c = c then 0 else n OR c) = word_of_int (sint n mod sint c)"
proof -
  have cw: "c = word_of_int (sint c)" and nw: "n = word_of_int (sint n)" by simp_all
  show "n AND (c - 1) = word_of_int (sint n mod sint c)" if "0 < sint c"
  proof -
    have e: "sint c = 2 ^ s" using c that by simp
    have "n AND (c - 1) = word_of_int (sint n) AND word_of_int (2 ^ s - 1)" using cw nw e by (metis of_int_1 of_int_diff)
    also have "\<dots> = word_of_int (sint n AND mask s)" by (simp only: of_int_and_eq mask_eq_exp_minus_1)
    finally show ?thesis unfolding e by (simp only: take_bit_eq_mask [symmetric] take_bit_eq_mod)
  qed
  show "(if n OR c = c then 0 else n OR c) = word_of_int (sint n mod sint c)" if neg: "sint c < 0" and s: "s < LENGTH('a)"
  proof -
    have e: "sint c = - (2 ^ s)" using c neg by simp
    let ?r = "sint n mod 2 ^ s"
    have r: "0 \<le> ?r" "?r < 2 ^ s" by simp_all
    have "n OR c = word_of_int (sint n OR - (2 ^ s))" using cw nw e by (metis of_int_or_eq)
    then have o: "n OR c = word_of_int (?r - 2 ^ s)" by (simp only: or_minus_exp)
    have "n OR c = c \<longleftrightarrow> ?r = 0"
    proof
      assume "n OR c = c"
      then have "word_of_int ?r = (0 :: 'a word)" using o cw e by (metis add_cancel_right_left diff_add_cancel of_int_add uminus_add_conv_diff)
      moreover have "?r < 2 ^ LENGTH('a)" using r(2) s by (meson less_le_trans one_le_numeral power_increasing less_imp_le)
      ultimately show "?r = 0" using r(1) by (metis word_of_int_inverse word_of_int_0 take_bit_int_eq_self word_of_int_eq_iff take_bit_of_0)
    next
      assume "?r = 0"
      then show "n OR c = c" using o cw e by simp
    qed
    moreover have "sint n mod sint c = (if ?r = 0 then 0 else ?r - 2 ^ s)"
      unfolding e using zmod_zminus2_eq_if [of "sint n" "2 ^ s"] by simp
    ultimately show ?thesis using o by simp
  qed
qed

lemma build_imod_correct:
  fixes env :: "nat \<Rightarrow> 'a :: len word" and c :: "'a word"
  assumes W: "nir_size LENGTH('a)"
  shows "\<exists>q. build_imod lb LENGTH('a) n (scast c) = Some q \<and> eval_def env q = op_imod (eval_def env n) c"
proof -
  let ?d = "scast c :: u64" and ?n = "eval_def env n"
  let ?a = "if sint ?d < 0 then - ?d else ?d"
  note le = nir_size_le [OF W] and sd = sext_divisor [OF W, of c] and nq = int_min_neq [OF W]
  consider (zero) "c = 0" | (min) "c = word_int_min" | (pot) "c \<noteq> word_int_min" "c \<noteq> 0" "util_is_power_of_two_or_zero64 ?a"
    | (rem) "c \<noteq> word_int_min" "c \<noteq> 0" "\<not> util_is_power_of_two_or_zero64 ?a" by blast
  then show ?thesis
  proof cases
    case zero
    then show ?thesis by (simp add: build_imod_def op_imod_def)
  next
    case min
    then show ?thesis using sd(3,4) nq int_min_imm(2) [OF W] imod_by_int_min [OF W, of ?n] by (simp add: build_imod_def Let_def)
  next
    case pot
    obtain s where s: "\<bar>sint c\<bar> = 2 ^ s" "s < LENGTH('a) - 1" by (rule abs_pot_divisor [OF W pot(2,1,3)])
    have sl: "s < LENGTH('a)" using s(2) by simp
    have v: "op_imod ?n c = word_of_int (sint ?n mod sint c)" using pot(2) by (simp add: imod_value)
    show ?thesis
    proof (cases "0 < sint c")
      case True
      then show ?thesis using pot sd(1-4) v imod_pot_value(1) [OF s(1) True, of ?n] eval_iand_imm [OF W] imm_diff [OF le(1), of ?d 1]
        by (simp add: build_imod_def Let_def)
    next
      case False
      then have neg: "sint c < 0" using pot(2) by (metis linorder_neqE sint_zero_iff)
      then show ?thesis using pot sd(1-4) v imod_pot_value(2) [OF s(1) neg sl, of ?n]
        by (simp add: build_imod_def Let_def split: if_splits)
    qed
  next
    case rem
    obtain r where r: "build_irem lb LENGTH('a) n ?d = Some r" "eval_def env r = op_irem ?n c"
      using build_irem_correct [OF W, of lb n c env] by blast
    have pw: "\<not> (0 < sint ?d \<and> util_is_power_of_two_or_zero64 ?d)" "\<not> (sint ?d < 0 \<and> util_is_power_of_two_or_zero64 (- ?d))"
      using rem(3) by (auto split: if_splits)
    have c0: "sint c \<noteq> 0" using rem(2) by (simp add: sint_zero_iff)
    have z: "op_irem ?n c = 0 \<longleftrightarrow> sint ?n smod sint c = 0"
    proof -
      have "\<bar>sint ?n smod sint c\<bar> \<le> \<bar>sint ?n\<bar> mod \<bar>sint c\<bar>"
        using c0 by (simp add: smod_int_alt_def abs_mult abs_sgn_eq pos_mod_sign)
      also have "\<dots> < \<bar>sint c\<bar>" using c0 by simp
      also have "\<dots> < 2 ^ (LENGTH('a) - 1)" by (rule sext_divisor(7) [OF W rem(1)])
      finally have b: "\<bar>sint ?n smod sint c\<bar> < 2 ^ (LENGTH('a) - 1)" .
      then have "sint (op_irem ?n c) = sint ?n smod sint c" using rem(2) unfolding irem_value by (simp add: sint_of_int_self)
      then show ?thesis by (metis sint_zero_iff)
    qed
    have "build_imod lb LENGTH('a) n ?d = Some (Bcsel (Bor (Ieq r (Imm 0)) (if sint ?d < 0 then Ilt n (Imm 0) else Ige n (Imm 0))) r (nir_iadd_imm LENGTH('a) r ?d))"
      using rem sd(3,4) pw r(1) by (simp only: build_imod_def Let_def if_False Option.bind.simps)
    moreover have "op_imod ?n c = (if op_irem ?n c = 0 \<or> (0 \<le> sint ?n) = (0 \<le> sint c) then op_irem ?n c else op_irem ?n c + c)"
    proof -
      have "x smod - 1 = 0" for x :: int by (simp add: smod_int_alt_def)
      then show ?thesis unfolding z using rem(2) by (auto simp: op_imod_def op_irem_def)
    qed
    ultimately show ?thesis using r(2) sd(1,2) eval_iadd_imm [OF W, of env r ?d]
      by (cases "sint c < 0"; cases "sint ?n < 0") simp_all
  qed
qed

section \<open>The pass is correct\<close>

text \<open>The value that the opcode of an instruction gives a component.\<close>

definition op_value :: "nir_op \<Rightarrow> 'a :: len word \<Rightarrow> 'a word \<Rightarrow> 'a word" where
  "op_value opc n c = (case opc of
       Op_udiv \<Rightarrow> op_udiv n c
     | Op_idiv \<Rightarrow> op_idiv n c
     | Op_umod \<Rightarrow> op_umod n c
     | Op_imod \<Rightarrow> op_imod n c
     | Op_irem \<Rightarrow> op_irem n c
     | Op_other \<Rightarrow> 0)"

lemma mask_zext:
  fixes c :: "'a :: len word"
  assumes W: "nir_size LENGTH('a)"
  shows "(if LENGTH('a) < 64 then scast c AND (push_bit LENGTH('a) 1 - 1) else scast c :: u64) = ucast c"
proof (rule bit_word_eqI)
  fix i
  assume "i < LENGTH(64)"
  then show "bit (if LENGTH('a) < 64 then scast c AND (push_bit LENGTH('a) 1 - 1) else scast c :: u64) i = bit (ucast c :: u64) i"
    using nir_size_le [OF W] bit_imp_le_length [of c i] min_absorb2 [of i "LENGTH('a) - 1"]
    by (cases "i < LENGTH('a)") (auto simp: push_bit_eq_mult bit_simps simp flip: mask_eq_exp_minus_1)
qed

lemma option_sequence_map:
  "(\<And>x. x \<in> set xs \<Longrightarrow> f x = Some (g x)) \<Longrightarrow> option_sequence (map f xs) = Some (map g xs)"
  by (induction xs) auto

lemma lower_component_correct:
  fixes alu :: "('a :: len) word nir_alu_instr"
  assumes W: "nir_size LENGTH('a)" and alu: "alu_op alu \<noteq> Op_other" "src1_const alu = Some cs" and i: "swizzle1 alu i < length cs"
  shows "\<exists>q. lower_component lb alu i = Some q \<and>
    (\<forall>env. eval_def env q = (if alu_op alu = Op_idiv \<and> env (swizzle0 alu i) = word_int_min \<and> cs ! swizzle1 alu i = - 1 then word_int_min
                    else op_value (alu_op alu) (env (swizzle0 alu i)) (cs ! swizzle1 alu i)))"
proof -
  let ?c = "cs ! swizzle1 alu i" and ?n = "Channel (swizzle0 alu i)"
  have l: "lower_component lb alu i = (case alu_op alu of
       Op_udiv \<Rightarrow> build_udiv LENGTH('a) ?n (ucast ?c)
     | Op_idiv \<Rightarrow> build_idiv LENGTH('a) ?n (scast ?c)
     | Op_umod \<Rightarrow> build_umod lb LENGTH('a) ?n (ucast ?c)
     | Op_imod \<Rightarrow> build_imod lb LENGTH('a) ?n (scast ?c)
     | Op_irem \<Rightarrow> build_irem lb LENGTH('a) ?n (scast ?c)
     | Op_other \<Rightarrow> None)"
    using alu i mask_zext [OF W, of ?c]
    by (cases "alu_op alu") (simp_all add: lower_component_def nir_src_comp_as_int_def unsigned_op_def Let_def)
  show ?thesis
  proof (cases "alu_op alu")
    case Op_udiv
    obtain q where "build_udiv LENGTH('a) ?n (ucast ?c) = Some q" using build_udiv_correct [OF W, of ?n ?c] by blast
    then show ?thesis using build_udiv_correct [OF W, of ?n ?c] Op_udiv l by (simp add: op_value_def Let_def)
  next
    case Op_idiv
    obtain q where "build_idiv LENGTH('a) ?n (scast ?c) = Some q" using build_idiv_correct [OF W, of ?n ?c] by blast
    then show ?thesis using build_idiv_correct [OF W, of ?n ?c] Op_idiv l by (simp add: op_value_def Let_def)
  next
    case Op_umod
    obtain q where "build_umod lb LENGTH('a) ?n (ucast ?c) = Some q" using build_umod_correct [OF W, of lb ?n ?c] by blast
    then show ?thesis using build_umod_correct [OF W, of lb ?n ?c] Op_umod l by (simp add: op_value_def Let_def)
  next
    case Op_imod
    obtain q where "build_imod lb LENGTH('a) ?n (scast ?c) = Some q" using build_imod_correct [OF W, of lb ?n ?c] by blast
    then show ?thesis using build_imod_correct [OF W, of lb ?n ?c] Op_imod l by (simp add: op_value_def Let_def)
  next
    case Op_irem
    obtain q where "build_irem lb LENGTH('a) ?n (scast ?c) = Some q" using build_irem_correct [OF W, of lb ?n ?c] by blast
    then show ?thesis using build_irem_correct [OF W, of lb ?n ?c] Op_irem l by (simp add: op_value_def Let_def)
  next
    case Op_other
    then show ?thesis using alu by simp
  qed
qed

text \<open>
  Property C28.  Lowering of integer divisions: the pass leaves an instruction alone when it is no
  division, is narrower than the limit or has no constant divisor.  Otherwise no assertion fails
  and the instruction is replaced by one expression for each component that evaluates, for all
  numerators, to what the opcode computes, division by zero included; the only exception is
  \<open>idiv\<close> of the most negative value by \<open>-1\<close>, where the expression wraps around.
\<close>
theorem nir_opt_idiv_const_instr_correct:
  fixes alu :: "('a :: len) word nir_alu_instr"
  assumes "nir_size LENGTH('a)"
    and "\<And>cs i. src1_const alu = Some cs \<Longrightarrow> i < num_components alu \<Longrightarrow> swizzle1 alu i < length cs"
  shows "case src1_const alu of
      None \<Rightarrow> nir_opt_idiv_const_instr lb min_bit_size alu = Some None
    | Some cs \<Rightarrow>
        if alu_op alu = Op_other \<or> LENGTH('a) < min_bit_size
        then nir_opt_idiv_const_instr lb min_bit_size alu = Some None
        else \<exists>qs. nir_opt_idiv_const_instr lb min_bit_size alu = Some (Some qs) \<and> length qs = num_components alu \<and>
           (\<forall>i < num_components alu. \<forall>env.
              eval_def env (qs ! i) =
                   (if alu_op alu = Op_idiv \<and> env (swizzle0 alu i) = word_int_min \<and> cs ! swizzle1 alu i = - 1 then word_int_min
                    else op_value (alu_op alu) (env (swizzle0 alu i)) (cs ! swizzle1 alu i)))"
proof (cases "src1_const alu")
  case None
  then show ?thesis by (simp add: nir_opt_idiv_const_instr_def)
next
  case (Some cs)
  show ?thesis
  proof (cases "alu_op alu = Op_other \<or> LENGTH('a) < min_bit_size")
    case True
    then show ?thesis using Some by (simp add: nir_opt_idiv_const_instr_def)
  next
    case False
    let ?f = "lower_component lb alu" and ?n = "num_components alu"
    note lc = lower_component_correct [OF assms(1) _ Some assms(2) [OF Some], of _ lb]
    have f: "?f i = Some (the (?f i))" if "i \<in> set [0..<?n]" for i using lc [of i] False that by auto
    have "option_sequence (map ?f [0..<?n]) = Some (map (\<lambda>i. the (?f i)) [0..<?n])"
      by (rule option_sequence_map) (rule f)
    then have "nir_opt_idiv_const_instr lb min_bit_size alu = Some (Some (map (\<lambda>i. the (?f i)) [0..<?n]))"
      using False Some by (simp add: nir_opt_idiv_const_instr_def)
    moreover have "\<forall>env. eval_def env (map (\<lambda>i. the (?f i)) [0..<?n] ! i) =
          (if alu_op alu = Op_idiv \<and> env (swizzle0 alu i) = word_int_min \<and> cs ! swizzle1 alu i = - 1 then word_int_min
                    else op_value (alu_op alu) (env (swizzle0 alu i)) (cs ! swizzle1 alu i))" if "i < ?n" for i
      using lc [of i] False that by auto
    ultimately show ?thesis using Some False by simp
  qed
qed

theorem nir_opt_idiv_const_instr_correct_witness:
  "\<exists>qs. nir_opt_idiv_const_instr False 32
          \<lparr>alu_op = Op_idiv, num_components = 2, swizzle0 = (\<lambda>i. 1 - i), swizzle1 = (\<lambda>i. i), src1_const = Some [7 :: u32, - 1]\<rparr> = Some (Some qs) \<and>
     (\<forall>env. eval_def env (qs ! 0) = op_idiv (env 1) (7 :: u32)) \<and>
     eval_def (\<lambda>_. 2147483648 :: u32) (qs ! 1) = 2147483648"
proof -
  let ?alu = "\<lparr>alu_op = Op_idiv, num_components = 2, swizzle0 = (\<lambda>i. 1 - i), swizzle1 = (\<lambda>i. i), src1_const = Some [7 :: u32, - 1]\<rparr>"
  have "case src1_const ?alu of
      None \<Rightarrow> nir_opt_idiv_const_instr False 32 ?alu = Some None
    | Some cs \<Rightarrow>
        if alu_op ?alu = Op_other \<or> LENGTH(32) < 32
        then nir_opt_idiv_const_instr False 32 ?alu = Some None
        else \<exists>qs. nir_opt_idiv_const_instr False 32 ?alu = Some (Some qs) \<and> length qs = num_components ?alu \<and>
           (\<forall>i < num_components ?alu. \<forall>env.
              eval_def env (qs ! i) =
                   (if alu_op ?alu = Op_idiv \<and> env (swizzle0 ?alu i) = word_int_min \<and> cs ! swizzle1 ?alu i = - 1 then word_int_min
                    else op_value (alu_op ?alu) (env (swizzle0 ?alu i)) (cs ! swizzle1 ?alu i)))"
    by (rule nir_opt_idiv_const_instr_correct) (auto simp: nir_size_def)
  then obtain qs where q: "nir_opt_idiv_const_instr False 32 ?alu = Some (Some qs)"
      and ev: "\<forall>i < 2. \<forall>env :: nat \<Rightarrow> u32. eval_def env (qs ! i) =
        (if env (1 - i) = word_int_min \<and> [7 :: u32, - 1] ! i = - 1 then word_int_min else op_idiv (env (1 - i)) ([7, - 1] ! i))"
    by (auto simp: op_value_def cong: if_cong)
  have "eval_def env (qs ! 0) = op_idiv (env 1) (7 :: u32)" for env using ev [rule_format, of 0 env] by simp
  moreover have "eval_def (\<lambda>_. 2147483648 :: u32) (qs ! 1) = 2147483648"
    using ev [rule_format, of 1 "\<lambda>_. 2147483648"] by (simp add: word_int_min_def)
  ultimately show ?thesis using q by blast
qed

end
