(* ===== verification/Nir_Cfg.thy ===== *)
theory Nir_Cfg
  imports Main
begin

text \<open>
  Control-flow graphs of NIR functions: a block is its index, and the graph is the list of the
  predecessors of each block, in the order in which the code iterates over them.  Block 0 is the
  start block.  Dominance is defined by paths, as the comment on \<open>nir_block_dominates\<close> in
  \<open>src/src/compiler/nir/nir_dominance.c\<close> states it.
\<close>

type_synonym cfg = "nat list list"

definition wf_cfg :: "cfg \<Rightarrow> bool" where
  "wf_cfg G \<longleftrightarrow> G \<noteq> [] \<and> G ! 0 = [] \<and> (\<forall>ps \<in> set G. \<forall>p \<in> set ps. p < length G)"

text \<open>A path from the start block, with the block that it leads to first.\<close>

inductive cfg_path :: "cfg \<Rightarrow> nat list \<Rightarrow> bool" for G where
  path_start: "cfg_path G [0]"
| path_edge: "cfg_path G (p # vs) \<Longrightarrow> b < length G \<Longrightarrow> p \<in> set (G ! b) \<Longrightarrow> cfg_path G (b # p # vs)"

inductive_cases path_nilE: "cfg_path G []"
inductive_cases path_consE: "cfg_path G (b # vs)"

definition reachable :: "cfg \<Rightarrow> nat \<Rightarrow> bool" where
  "reachable G b \<longleftrightarrow> (\<exists>vs. cfg_path G (b # vs))"

definition dominates :: "cfg \<Rightarrow> nat \<Rightarrow> nat \<Rightarrow> bool" where
  "dominates G a b \<longleftrightarrow> (\<forall>vs. cfg_path G (b # vs) \<longrightarrow> a \<in> set (b # vs))"

text \<open>
  The order of the block indices: every reachable block but the first has a reachable
  predecessor with a smaller index, as in a reverse post-order.
\<close>

definition block_order :: "cfg \<Rightarrow> bool" where
  "block_order G \<longleftrightarrow> (\<forall>b < length G. b \<noteq> 0 \<and> reachable G b \<longrightarrow> (\<exists>p \<in> set (G ! b). p < b \<and> reachable G p))"

section \<open>Paths\<close>

lemma reachable_start: "reachable G 0"
  unfolding reachable_def by (blast intro: path_start)

lemma reachable_edge: "reachable G p \<Longrightarrow> b < length G \<Longrightarrow> p \<in> set (G ! b) \<Longrightarrow> reachable G b"
  unfolding reachable_def by (blast intro: path_edge)

lemma path_bound: "cfg_path G vs \<Longrightarrow> wf_cfg G \<Longrightarrow> v \<in> set vs \<Longrightarrow> v < length G"
  by (induction rule: cfg_path.induct) (auto simp: wf_cfg_def)

lemma reachable_bound: "wf_cfg G \<Longrightarrow> reachable G b \<Longrightarrow> b < length G"
  using path_bound unfolding reachable_def by fastforce

lemma reachable_pred:
  assumes "reachable G b" and "b \<noteq> 0"
  shows "\<exists>p \<in> set (G ! b). reachable G p"
  using assms unfolding reachable_def by (auto elim: path_consE)

text \<open>A path through a block contains a path to it.\<close>

lemma path_suffix: "cfg_path G vs \<Longrightarrow> vs = us @ c # ws \<Longrightarrow> cfg_path G (c # ws)"
proof (induction us arbitrary: vs)
  case (Cons u us)
  then have "cfg_path G (us @ c # ws)" by (cases us) (auto elim: path_consE)
  then show ?case using Cons.IH by blast
qed simp

text \<open>The number of edges that do not go to a larger index.\<close>

fun back_edges :: "nat list \<Rightarrow> nat" where
  "back_edges (b # p # vs) = (if p < b then 0 else 1) + back_edges (p # vs)"
| "back_edges _ = 0"

lemma back_edges_suffix: "back_edges (c # ws) \<le> back_edges (us @ c # ws)"
proof (induction us)
  case (Cons u us)
  then show ?case by (cases us) auto
qed simp

lemma back_edges_length: "back_edges vs \<le> length vs"
  by (induction vs rule: back_edges.induct) auto

text \<open>A path that avoids \<open>d\<close> with fewer than \<open>k\<close> back edges.\<close>

definition avoidable :: "cfg \<Rightarrow> nat \<Rightarrow> nat \<Rightarrow> nat \<Rightarrow> bool" where
  "avoidable G d k b \<longleftrightarrow> (\<exists>vs. cfg_path G (b # vs) \<and> d \<notin> set (b # vs) \<and> back_edges (b # vs) < k)"

lemma avoidable_zero [simp]: "\<not> avoidable G d 0 b"
  by (simp add: avoidable_def)

lemma avoidable_mono: "avoidable G d k b \<Longrightarrow> k \<le> l \<Longrightarrow> avoidable G d l b"
  unfolding avoidable_def by (meson less_le_trans)

lemma avoidable_reachable: "avoidable G d k b \<Longrightarrow> reachable G b"
  by (auto simp: avoidable_def reachable_def)

lemma avoidable_neq: "avoidable G d k b \<Longrightarrow> d \<noteq> b"
  by (auto simp: avoidable_def)

lemma avoidable_pred:
  assumes "avoidable G d k b" and "b \<noteq> 0"
  shows "\<exists>p \<in> set (G ! b). if p < b then avoidable G d k p else avoidable G d (k - 1) p"
proof -
  obtain vs where vs: "cfg_path G (b # vs)" "d \<notin> set (b # vs)" "back_edges (b # vs) < k"
    using assms(1) by (auto simp: avoidable_def)
  obtain p ws where p: "vs = p # ws" "cfg_path G (p # ws)" "p \<in> set (G ! b)" using vs(1) assms(2) by (auto elim: path_consE)
  then show ?thesis using vs(2,3) by (intro bexI [of _ p]) (auto simp: avoidable_def intro!: exI [of _ ws])
qed

text \<open>If the avoiding path runs through \<open>c\<close>, then \<open>d\<close> is avoidable on the way to \<open>c\<close>.\<close>

lemma avoidable_through:
  assumes "avoidable G d k x" and "\<not> avoidable G c k x"
  shows "avoidable G d k c"
proof -
  obtain vs where vs: "cfg_path G (x # vs)" "d \<notin> set (x # vs)" "back_edges (x # vs) < k"
    using assms(1) by (auto simp: avoidable_def)
  then have "c \<in> set (x # vs)" using assms(2) by (auto simp: avoidable_def)
  then obtain us ws where s: "x # vs = us @ c # ws" by (meson split_list)
  have "cfg_path G (c # ws)" using path_suffix [OF vs(1) s] .
  moreover have "d \<notin> set (c # ws)" using vs(2) unfolding s by simp
  moreover have "back_edges (c # ws) < k" using vs(3) back_edges_suffix [of c ws us] unfolding s by linarith
  ultimately show ?thesis by (auto simp: avoidable_def)
qed

text \<open>A shortest path visits no block twice.\<close>

lemma path_splice:
  "cfg_path G (us @ c # ws) \<Longrightarrow> cfg_path G (c # ws') \<Longrightarrow> cfg_path G (us @ c # ws')"
proof (induction us)
  case (Cons u us)
  obtain v vs where v: "us @ c # ws = v # vs" by (cases us) auto
  then have p: "cfg_path G (v # vs)" "u < length G" "v \<in> set (G ! u)" using Cons.prems(1) by (auto elim: path_consE)
  then have s: "cfg_path G (us @ c # ws')" using Cons.IH Cons.prems(2) v by simp
  obtain vs' where "us @ c # ws' = v # vs'" using v by (cases us) auto
  then show ?case using s p path_edge [of G v vs' u] by simp
qed simp

lemma path_distinct:
  assumes "cfg_path G (b # vs)"
  shows "\<exists>vs'. cfg_path G (b # vs') \<and> set vs' \<subseteq> set (b # vs) \<and> distinct (b # vs')"
  using assms
proof (induction "length vs" arbitrary: vs rule: less_induct)
  case less
  show ?case
  proof (cases "distinct (b # vs)")
    case False
    then obtain us c ms ws where s: "b # vs = us @ [c] @ ms @ [c] @ ws" using not_distinct_decomp by blast
    have "cfg_path G (c # ws)" using path_suffix [OF less.prems, of "us @ c # ms"] s by simp
    then have p: "cfg_path G (us @ c # ws)" using path_splice [of G us c "ms @ c # ws" ws] less.prems s by simp
    obtain vs1 where v: "us @ c # ws = b # vs1" using s by (cases us) auto
    have "length (b # vs1) < length (b # vs)" unfolding v [symmetric] s by simp
    then obtain vs' where "cfg_path G (b # vs')" "set vs' \<subseteq> set (b # vs1)" "distinct (b # vs')"
      using less.hyps [of vs1] p v by auto
    moreover have "set (b # vs1) \<subseteq> set (b # vs)" unfolding v [symmetric] s by auto
    ultimately show ?thesis by blast
  qed (use less.prems in auto)
qed

lemma avoidable_bounded:
  assumes wf: "wf_cfg G" and "reachable G b" and "\<not> dominates G d b"
  shows "avoidable G d (length G + 1) b"
proof -
  obtain vs where vs: "cfg_path G (b # vs)" "d \<notin> set (b # vs)" using assms(3) by (auto simp: dominates_def)
  obtain vs' where v: "cfg_path G (b # vs')" "set vs' \<subseteq> set (b # vs)" "distinct (b # vs')" using path_distinct [OF vs(1)] by blast
  have "set (b # vs') \<subseteq> {..<length G}" using path_bound [OF v(1) wf] by blast
  then have "card (set (b # vs')) \<le> card {..<length G}" by (intro card_mono) auto
  then have "length (b # vs') \<le> length G" unfolding distinct_card [OF v(3)] by simp
  then have "back_edges (b # vs') < length G + 1" using back_edges_length [of "b # vs'"] by linarith
  then show ?thesis using v vs(2) by (auto simp: avoidable_def)
qed

section \<open>Dominance\<close>

lemma dominates_refl: "dominates G b b"
  by (simp add: dominates_def)

lemma dominates_start: "dominates G a 0 \<Longrightarrow> a = 0"
  using path_start by (fastforce simp: dominates_def)

lemma start_dominates: "dominates G 0 b"
proof -
  have "0 \<in> set vs" if "cfg_path G vs" for vs using that by (induction rule: cfg_path.induct) auto
  then show ?thesis unfolding dominates_def by blast
qed

lemma dominates_pred:
  assumes "dominates G a b" and "a \<noteq> b" and "p \<in> set (G ! b)" and "b < length G"
  shows "dominates G a p"
  unfolding dominates_def
proof (intro allI impI)
  fix vs
  assume "cfg_path G (p # vs)"
  then have "cfg_path G (b # p # vs)" using assms(3,4) by (intro path_edge)
  then show "a \<in> set (p # vs)" using assms(1,2) by (auto simp: dominates_def)
qed

lemma dominates_trans:
  assumes "dominates G a b" and "dominates G b c"
  shows "dominates G a c"
  unfolding dominates_def
proof (intro allI impI)
  fix vs
  assume p: "cfg_path G (c # vs)"
  then have "b \<in> set (c # vs)" using assms(2) by (auto simp: dominates_def)
  then obtain us ws where s: "c # vs = us @ b # ws" by (meson split_list)
  then have "cfg_path G (b # ws)" using path_suffix [OF p] by blast
  then have "a \<in> set (b # ws)" using assms(1) by (auto simp: dominates_def)
  then show "a \<in> set (c # vs)" unfolding s by auto
qed

lemma forward_path:
  assumes "wf_cfg G" and ord: "block_order G" and "reachable G b"
  shows "\<exists>vs. cfg_path G (b # vs) \<and> (\<forall>v \<in> set vs. v < b)"
  using assms(3)
proof (induction b rule: less_induct)
  case (less b)
  show ?case
  proof (cases "b = 0")
    case True
    then show ?thesis using path_start by fastforce
  next
    case False
    have b: "b < length G" using reachable_bound [OF assms(1) less.prems] .
    then obtain p where p: "p \<in> set (G ! b)" "p < b" "reachable G p"
      using ord False less.prems by (auto simp: block_order_def)
    then obtain vs where vs: "cfg_path G (p # vs)" "\<forall>v \<in> set vs. v < p" using less.IH by blast
    then have "cfg_path G (b # p # vs)" using p(1) b by (intro path_edge)
    then show ?thesis using vs(2) p(2) by (intro exI [of _ "p # vs"]) auto
  qed
qed

lemma dominates_le:
  assumes "wf_cfg G" and "block_order G" and "reachable G b" and "dominates G a b"
  shows "a \<le> b"
proof -
  obtain vs where "cfg_path G (b # vs)" "\<forall>v \<in> set vs. v < b" using forward_path [OF assms(1-3)] by blast
  then show ?thesis using assms(4) unfolding dominates_def by fastforce
qed

lemma dominates_reachable:
  assumes "dominates G a b" and "reachable G b"
  shows "reachable G a"
proof -
  obtain vs where p: "cfg_path G (b # vs)" using assms(2) by (auto simp: reachable_def)
  then have "a \<in> set (b # vs)" using assms(1) by (auto simp: dominates_def)
  then obtain us ws where "b # vs = us @ a # ws" by (meson split_list)
  then show ?thesis using path_suffix [OF p] by (auto simp: reachable_def)
qed

lemma unreachable_dominated: "\<not> reachable G b \<Longrightarrow> dominates G a b"
  by (auto simp: dominates_def reachable_def)

end
