(* ===== verification/Nir_Dominance.thy ===== *)
theory Nir_Dominance
  imports Nir_Cfg Mesa_Prelude
begin

text \<open>
  The dominance analysis of NIR (\<open>src/src/compiler/nir/nir_dominance.c\<close>): the iterative algorithm
  for immediate dominators, dominance frontiers, the dominator tree and its depth-first
  numbering, by which \<open>nir_block_dominates\<close> decides dominance.  A block is its index; the state is
  the list of the blocks' dominance fields, in the order of the indices, in which the code visits
  the blocks.  \<open>None\<close> is a failed assertion, an access through a null pointer or out of bounds,
  or a loop that does not end.
\<close>

section \<open>The code\<close>

record nir_block =
  imm_dom :: "nat option"
  num_dom_children :: nat
  dom_children :: "nat list"
  dom_pre_index :: nat
  dom_post_index :: nat
  dom_frontier :: "nat set"

definition init_block :: "nat \<Rightarrow> nir_block \<Rightarrow> nir_block" where
  "init_block b block = block\<lparr>imm_dom := (if b = 0 then Some b else None), num_dom_children := 0,
     dom_pre_index := 4294967295, dom_post_index := 0, dom_frontier := {}\<rparr>"

partial_function (option) climb :: "nir_block list \<Rightarrow> nat \<Rightarrow> nat \<Rightarrow> nat option" where
  "climb bs b1 b2 = (if b1 > b2 then do { d \<leftarrow> imm_dom (bs ! b1); climb bs d b2 } else Some b1)"

partial_function (option) intersect :: "nir_block list \<Rightarrow> nat \<Rightarrow> nat \<Rightarrow> nat option" where
  "intersect bs b1 b2 =
     (if b1 \<noteq> b2
      then do { b1 \<leftarrow> climb bs b1 b2; b2 \<leftarrow> climb bs b2 b1; intersect bs b1 b2 }
      else Some b1)"

text \<open>The loop of \<open>calc_dominance\<close> over the predecessors.\<close>

fun meet_preds :: "nir_block list \<Rightarrow> nat option \<Rightarrow> nat list \<Rightarrow> nat option option" where
  "meet_preds bs new_idom [] = Some new_idom"
| "meet_preds bs new_idom (pred # preds) =
     (if imm_dom (bs ! pred) \<noteq> None
      then (case new_idom of
              Some idom \<Rightarrow> do { z \<leftarrow> intersect bs pred idom; meet_preds bs (Some z) preds }
            | None \<Rightarrow> meet_preds bs (Some pred) preds)
      else meet_preds bs new_idom preds)"

definition calc_dominance :: "cfg \<Rightarrow> nat \<Rightarrow> nir_block list \<Rightarrow> (bool \<times> nir_block list) option" where
  "calc_dominance G b bs = do {
     new_idom \<leftarrow> meet_preds bs None (G ! b);
     if imm_dom (bs ! b) \<noteq> new_idom
     then Some (True, bs[b := (bs ! b)\<lparr>imm_dom := new_idom\<rparr>])
     else Some (False, bs)
   }"

text \<open>One pass over the blocks, and the loop \<open>while (progress)\<close>.\<close>

fun dominance_pass :: "cfg \<Rightarrow> nat list \<Rightarrow> bool \<Rightarrow> nir_block list \<Rightarrow> (bool \<times> nir_block list) option" where
  "dominance_pass G [] progress bs = Some (progress, bs)"
| "dominance_pass G (b # blocks) progress bs =
     (if b \<noteq> 0
      then do { (p, bs) \<leftarrow> calc_dominance G b bs; dominance_pass G blocks (progress \<or> p) bs }
      else dominance_pass G blocks progress bs)"

partial_function (option) dominance_loop :: "cfg \<Rightarrow> nir_block list \<Rightarrow> nir_block list option" where
  "dominance_loop G bs = do {
     (progress, bs) \<leftarrow> dominance_pass G [0..<length G] False bs;
     if progress then dominance_loop G bs else Some bs
   }"

partial_function (option) frontier_walk :: "nat \<Rightarrow> nat option \<Rightarrow> nat option \<Rightarrow> nir_block list \<Rightarrow> nir_block list option" where
  "frontier_walk block stop runner bs =
     (if runner \<noteq> stop
      then do {
        r \<leftarrow> runner;
        let bs = bs[r := (bs ! r)\<lparr>dom_frontier := insert block (dom_frontier (bs ! r))\<rparr>];
        frontier_walk block stop (imm_dom (bs ! r)) bs
      }
      else Some bs)"

fun frontier_preds :: "nat \<Rightarrow> nat list \<Rightarrow> nir_block list \<Rightarrow> nir_block list option" where
  "frontier_preds block [] bs = Some bs"
| "frontier_preds block (runner # preds) bs =
     (if imm_dom (bs ! runner) = None then frontier_preds block preds bs
      else do { bs \<leftarrow> frontier_walk block (imm_dom (bs ! block)) (Some runner) bs; frontier_preds block preds bs })"

definition calc_dom_frontier :: "cfg \<Rightarrow> nat \<Rightarrow> nir_block list \<Rightarrow> nir_block list option" where
  "calc_dom_frontier G block bs =
     (if length (G ! block) > 1 then frontier_preds block (G ! block) bs else Some bs)"

fun frontier_pass :: "cfg \<Rightarrow> nat list \<Rightarrow> nir_block list \<Rightarrow> nir_block list option" where
  "frontier_pass G [] bs = Some bs"
| "frontier_pass G (b # blocks) bs = do { bs \<leftarrow> calc_dom_frontier G b bs; frontier_pass G blocks bs }"

text \<open>The three stages of \<open>calc_dom_children\<close>; fresh array elements hold an arbitrary value.\<close>

definition count_child :: "nat \<Rightarrow> nir_block list \<Rightarrow> nir_block list" where
  "count_child b bs = (case imm_dom (bs ! b) of
       None \<Rightarrow> bs
     | Some d \<Rightarrow> bs[d := (bs ! d)\<lparr>num_dom_children := num_dom_children (bs ! d) + 1\<rparr>])"

definition alloc_children :: "nat \<Rightarrow> nir_block \<Rightarrow> nir_block" where
  "alloc_children junk block =
     (if num_dom_children block = 0 then block\<lparr>dom_children := []\<rparr>
      else block\<lparr>dom_children := replicate (num_dom_children block) junk, num_dom_children := 0\<rparr>)"

definition add_child :: "nat \<Rightarrow> nir_block list \<Rightarrow> nir_block list option" where
  "add_child b bs = (case imm_dom (bs ! b) of
       None \<Rightarrow> Some bs
     | Some d \<Rightarrow> do {
         let k = num_dom_children (bs ! d);
         c_assert (k < length (dom_children (bs ! d)));
         Some (bs[d := (bs ! d)\<lparr>dom_children := (dom_children (bs ! d))[k := b], num_dom_children := k + 1\<rparr>])
       })"

fun add_children :: "nat list \<Rightarrow> nir_block list \<Rightarrow> nir_block list option" where
  "add_children [] bs = Some bs"
| "add_children (b # blocks) bs = do { bs \<leftarrow> add_child b bs; add_children blocks bs }"

definition calc_dom_children :: "nat \<Rightarrow> nir_block list \<Rightarrow> nir_block list option" where
  "calc_dom_children junk bs =
     (let bs = fold count_child [0..<length bs] bs;
          bs = map (alloc_children junk) bs
      in add_children [0..<length bs] bs)"

text \<open>
  \<open>calc_dfs_indices\<close> on each block of a list in turn, as the loop over the children calls it.  The
  array of the children is read by index, as the code does.
\<close>

partial_function (option) calc_dfs_indices :: "nat list \<Rightarrow> nat \<Rightarrow> nir_block list \<Rightarrow> (nat \<times> nir_block list) option" where
  "calc_dfs_indices blocks index bs =
     (case blocks of
        [] \<Rightarrow> Some (index, bs)
      | b # rest \<Rightarrow> do {
          c_assert (index < 4294967293);
          let bs = bs[b := (bs ! b)\<lparr>dom_pre_index := index\<rparr>];
          (index, bs) \<leftarrow> calc_dfs_indices (take (num_dom_children (bs ! b)) (dom_children (bs ! b))) (index + 1) bs;
          calc_dfs_indices rest (index + 1) (bs[b := (bs ! b)\<lparr>dom_post_index := index\<rparr>])
        })"

text \<open>The metadata flag is the bit \<open>nir_metadata_dominance\<close> of the function.\<close>

definition nir_calc_dominance_impl :: "cfg \<Rightarrow> nat \<Rightarrow> bool \<Rightarrow> nir_block list \<Rightarrow> nir_block list option" where
  "nir_calc_dominance_impl G junk valid_metadata bs =
     (if valid_metadata then Some bs
      else do {
        let bs = map (\<lambda>b. init_block b (bs ! b)) [0..<length G];
        bs \<leftarrow> dominance_loop G bs;
        bs \<leftarrow> frontier_pass G [0..<length G] bs;
        let bs = bs[0 := (bs ! 0)\<lparr>imm_dom := None\<rparr>];
        bs \<leftarrow> calc_dom_children junk bs;
        (dfs_index, bs) \<leftarrow> calc_dfs_indices [0] 1 bs;
        Some bs
      })"

definition nir_block_dominates :: "nir_block list \<Rightarrow> nat \<Rightarrow> nat \<Rightarrow> bool" where
  "nir_block_dominates bs parent child =
     (dom_pre_index (bs ! parent) \<le> dom_pre_index (bs ! child) \<and>
      dom_post_index (bs ! child) \<le> dom_post_index (bs ! parent))"

definition nir_block_is_unreachable :: "nir_block list \<Rightarrow> nat \<Rightarrow> bool" where
  "nir_block_is_unreachable bs block = (block > 0 \<and> imm_dom (bs ! block) = None)"

section \<open>Chains of immediate dominators\<close>

text \<open>\<open>anc f a b\<close>: \<open>a\<close> is \<open>b\<close> or one of the blocks reached from \<open>b\<close> through \<open>imm_dom\<close>.\<close>

inductive anc :: "(nat \<Rightarrow> nat option) \<Rightarrow> nat \<Rightarrow> nat \<Rightarrow> bool" for f where
  anc_refl: "anc f b b"
| anc_step: "f b = Some c \<Longrightarrow> c \<noteq> b \<Longrightarrow> anc f a c \<Longrightarrow> anc f a b"

lemma anc_unfold: "anc f a b \<longleftrightarrow> a = b \<or> (\<exists>c. f b = Some c \<and> c \<noteq> b \<and> anc f a c)"
  by (auto elim: anc.cases intro: anc.intros)

lemma anc_trans: "anc f b c \<Longrightarrow> anc f a b \<Longrightarrow> anc f a c"
  by (induction rule: anc.induct) (auto intro: anc_step)

text \<open>The state of the fixpoint iteration: chains descend to the start block.\<close>

definition idom_of :: "nir_block list \<Rightarrow> nat \<Rightarrow> nat option" where
  "idom_of bs b = imm_dom (bs ! b)"

definition idom_inv :: "cfg \<Rightarrow> (nat \<Rightarrow> nat option) \<Rightarrow> bool" where
  "idom_inv G f \<longleftrightarrow> f 0 = Some 0 \<and>
     (\<forall>b < length G. b \<noteq> 0 \<longrightarrow> (\<forall>c. f b = Some c \<longrightarrow>
        c < b \<and> f c \<noteq> None \<and> reachable G b \<and> (\<forall>a. dominates G a b \<and> a \<noteq> b \<longrightarrow> dominates G a c)))"

lemma idom_invD:
  assumes "idom_inv G f" and "b < length G" and "b \<noteq> 0" and "f b = Some c"
  shows "c < b" and "f c \<noteq> None" and "reachable G b" and "dominates G a b \<Longrightarrow> a \<noteq> b \<Longrightarrow> dominates G a c"
  using assms by (auto simp: idom_inv_def)

lemma anc_le: "anc f a b \<Longrightarrow> idom_inv G f \<Longrightarrow> b < length G \<Longrightarrow> a \<le> b"
proof (induction rule: anc.induct)
  case (anc_step b c a)
  have "b \<noteq> 0" using anc_step.hyps anc_step.prems(1) by (cases "b = 0") (auto simp: idom_inv_def)
  then have "c < b" using idom_invD(1) [OF anc_step.prems(1,2)] anc_step.hyps by blast
  then show ?case using anc_step.IH anc_step.prems by simp
qed simp

lemma anc_strict: "idom_inv G f \<Longrightarrow> b < length G \<Longrightarrow> b \<noteq> 0 \<Longrightarrow> f b = Some c \<Longrightarrow> anc f a b \<longleftrightarrow> a = b \<or> anc f a c"
  by (subst anc_unfold) (auto dest: idom_invD(1))

lemma anc_processed: "anc f a b \<Longrightarrow> idom_inv G f \<Longrightarrow> b < length G \<Longrightarrow> f b \<noteq> None \<Longrightarrow> f a \<noteq> None"
proof (induction rule: anc.induct)
  case (anc_step b c a)
  have b: "b \<noteq> 0" using anc_step.hyps anc_step.prems(1) by (cases "b = 0") (auto simp: idom_inv_def)
  note i = idom_invD [OF anc_step.prems(1,2) b anc_step.hyps(1)]
  show ?case using anc_step.IH anc_step.prems(1,2) i(1,2) by simp
qed simp

text \<open>Every dominator is in the chain: the chain is never too short.\<close>

lemma dominators_in_chain:
  "idom_inv G f \<Longrightarrow> b < length G \<Longrightarrow> f b \<noteq> None \<Longrightarrow> dominates G a b \<Longrightarrow> anc f a b"
proof (induction b rule: less_induct)
  case (less b)
  show ?case
  proof (cases "a = b \<or> b = 0")
    case True
    then show ?thesis using dominates_start less.prems(4) anc_refl by auto
  next
    case False
    obtain c where c: "f b = Some c" using less.prems(3) by blast
    note i = idom_invD [OF less.prems(1,2) _ c]
    have "anc f a c" using less.IH [of c] i less.prems False by auto
    then show ?thesis using anc_strict [OF less.prems(1,2) _ c] False by simp
  qed
qed

section \<open>Intersection\<close>

lemma climb_spec:
  assumes "idom_inv G (idom_of bs)" and "x < length G" and "idom_of bs x \<noteq> None" and "y < length G"
  shows "\<exists>z. climb bs x y = Some z \<and> z \<le> y \<and> z \<le> x \<and> idom_of bs z \<noteq> None \<and> (x \<le> y \<longrightarrow> z = x) \<and>
    (\<forall>a \<le> y. anc (idom_of bs) a x \<longleftrightarrow> anc (idom_of bs) a z) \<and> (\<forall>a \<le> y. dominates G a x \<longrightarrow> dominates G a z)"
  using assms(2,3)
proof (induction x rule: less_induct)
  case (less x)
  show ?case
  proof (cases "x \<le> y")
    case True
    then show ?thesis using less.prems by (subst climb.simps) auto
  next
    case False
    obtain c where c: "idom_of bs x = Some c" using less.prems(2) by blast
    have x: "x \<noteq> 0" using False by simp
    note i = idom_invD [OF assms(1) less.prems(1) x c]
    obtain z where z: "climb bs c y = Some z" "z \<le> y" "z \<le> c" "idom_of bs z \<noteq> None"
        "\<forall>a \<le> y. anc (idom_of bs) a c \<longleftrightarrow> anc (idom_of bs) a z" "\<forall>a \<le> y. dominates G a c \<longrightarrow> dominates G a z"
      using less.IH [of c] i less.prems by auto
    have "climb bs x y = Some z" using z(1) c False by (subst climb.simps) (simp add: idom_of_def)
    moreover have "anc (idom_of bs) a x \<longleftrightarrow> anc (idom_of bs) a z" if "a \<le> y" for a
      using anc_strict [OF assms(1) less.prems(1) x c, of a] z(5) that False by auto
    moreover have "dominates G a x \<longrightarrow> dominates G a z" if "a \<le> y" for a
      using i(4) [of a] z(6) that False by auto
    ultimately show ?thesis using z i(1) False by auto
  qed
qed

lemma intersect_spec:
  assumes wf: "wf_cfg G" "block_order G" and inv: "idom_inv G (idom_of bs)"
    and "x < length G" "idom_of bs x \<noteq> None" and "y < length G" "idom_of bs y \<noteq> None"
  shows "\<exists>z. intersect bs x y = Some z \<and> z \<le> x \<and> z \<le> y \<and> idom_of bs z \<noteq> None \<and>
    (\<forall>a. anc (idom_of bs) a z \<longleftrightarrow> anc (idom_of bs) a x \<and> anc (idom_of bs) a y) \<and>
    (\<forall>a. dominates G a x \<and> dominates G a y \<longrightarrow> dominates G a z)"
  using assms(4-7)
proof (induction "x + y" arbitrary: x y rule: less_induct)
  case less
  let ?f = "idom_of bs"
  show ?case
  proof (cases "x = y")
    case True
    then show ?thesis using less.prems by (subst intersect.simps) auto
  next
    case False
    obtain x' where x': "climb bs x y = Some x'" "x' \<le> y" "x' \<le> x" "?f x' \<noteq> None" "x \<le> y \<longrightarrow> x' = x"
        "\<forall>a \<le> y. anc ?f a x \<longleftrightarrow> anc ?f a x'" "\<forall>a \<le> y. dominates G a x \<longrightarrow> dominates G a x'"
      using climb_spec [OF inv less.prems(1-3)] by blast
    have xl: "x' < length G" using x'(3) less.prems(1) by simp
    obtain y' where y': "climb bs y x' = Some y'" "y' \<le> x'" "y' \<le> y" "?f y' \<noteq> None"
        "\<forall>a \<le> x'. anc ?f a y \<longleftrightarrow> anc ?f a y'" "\<forall>a \<le> x'. dominates G a y \<longrightarrow> dominates G a y'"
      using climb_spec [OF inv less.prems(3,4) xl] by blast
    have yl: "y' < length G" using y'(3) less.prems(3) by simp
    have "x' + y' < x + y" using x'(2,3,5) y'(2,3) False by linarith
    then obtain z where z: "intersect bs x' y' = Some z" "z \<le> x'" "z \<le> y'" "?f z \<noteq> None"
        "\<forall>a. anc ?f a z \<longleftrightarrow> anc ?f a x' \<and> anc ?f a y'" "\<forall>a. dominates G a x' \<and> dominates G a y' \<longrightarrow> dominates G a z"
      using less.hyps [of x' y'] xl yl x'(4) y'(4) by blast
    have "intersect bs x y = Some z" using z(1) x'(1) y'(1) False by (subst intersect.simps) simp
    moreover have "anc ?f a z \<longleftrightarrow> anc ?f a x \<and> anc ?f a y" for a
    proof -
      have "anc ?f a x' \<Longrightarrow> a \<le> x'" "anc ?f a y \<Longrightarrow> a \<le> y" using anc_le [OF _ inv] xl less.prems(3) by blast+
      then show ?thesis using z(5) x'(2,6) y'(5) by (meson le_trans)
    qed
    moreover have "dominates G a z" if a: "dominates G a x" "dominates G a y" for a
    proof -
      have "y = 0 \<or> reachable G y" "x' = 0 \<or> reachable G x'"
        using inv less.prems(3,4) xl x'(4) by (auto simp: idom_inv_def)
      then have r: "reachable G y" "reachable G x'" using reachable_start by auto
      have "a \<le> y" using dominates_le [OF wf r(1) a(2)] .
      then have d: "dominates G a x'" using x'(7) a(1) by blast
      have "a \<le> x'" using dominates_le [OF wf r(2) d] .
      then show ?thesis using z(6) d y'(6) a(2) by blast
    qed
    ultimately show ?thesis using z x'(3) y'(3) by (meson le_trans)
  qed
qed

section \<open>One block\<close>

text \<open>What the loop over the predecessors has computed from the processed ones in \<open>ps\<close>.\<close>

definition meets :: "cfg \<Rightarrow> (nat \<Rightarrow> nat option) \<Rightarrow> nat set \<Rightarrow> nat option \<Rightarrow> bool" where
  "meets G f ps new \<longleftrightarrow> (case new of
       None \<Rightarrow> \<forall>p \<in> ps. f p = None
     | Some z \<Rightarrow> (\<exists>p \<in> ps. f p \<noteq> None) \<and> f z \<noteq> None \<and> (\<forall>p \<in> ps. f p \<noteq> None \<longrightarrow> z \<le> p) \<and>
         (\<forall>a. anc f a z \<longleftrightarrow> (\<forall>p \<in> ps. f p \<noteq> None \<longrightarrow> anc f a p)) \<and>
         (\<forall>a. (\<forall>p \<in> ps. f p \<noteq> None \<longrightarrow> dominates G a p) \<longrightarrow> dominates G a z))"

lemma meets_skip: "f p = None \<Longrightarrow> meets G f ps new \<Longrightarrow> meets G f (insert p ps) new"
  by (auto simp: meets_def split: option.splits)

lemma meets_first: "f p \<noteq> None \<Longrightarrow> meets G f ps None \<Longrightarrow> meets G f (insert p ps) (Some p)"
  by (auto simp: meets_def)

lemma meets_next:
  assumes "meets G f ps (Some y)" and "f p \<noteq> None" and "f z \<noteq> None" and "z \<le> p" "z \<le> y"
    and "\<forall>a. anc f a z \<longleftrightarrow> anc f a p \<and> anc f a y" and "\<forall>a. dominates G a p \<and> dominates G a y \<longrightarrow> dominates G a z"
  shows "meets G f (insert p ps) (Some z)"
proof -
  have "\<forall>q \<in> insert p ps. f q \<noteq> None \<longrightarrow> z \<le> q" using assms by (auto simp: meets_def intro: le_trans)
  moreover have "anc f a z \<longleftrightarrow> (\<forall>q \<in> insert p ps. f q \<noteq> None \<longrightarrow> anc f a q)" for a using assms by (auto simp: meets_def)
  moreover have "dominates G a z" if "\<forall>q \<in> insert p ps. f q \<noteq> None \<longrightarrow> dominates G a q" for a using assms that by (auto simp: meets_def)
  ultimately show ?thesis using assms(2,3) by (auto simp: meets_def)
qed

lemma meet_preds_spec:
  assumes wf: "wf_cfg G" "block_order G" and inv: "idom_inv G (idom_of bs)"
    and "\<And>p. p \<in> set preds \<Longrightarrow> p < length G" and "\<And>p. p \<in> ps \<Longrightarrow> p < length G" and "meets G (idom_of bs) ps new"
  shows "\<exists>new'. meet_preds bs new preds = Some new' \<and> meets G (idom_of bs) (ps \<union> set preds) new'"
  using assms(4-6)
proof (induction preds arbitrary: ps new)
  case (Cons p preds)
  let ?f = "idom_of bs"
  have pl: "p < length G" using Cons.prems(1) by simp
  have ih: "\<exists>new'. meet_preds bs new1 preds = Some new' \<and> meets G ?f (ps \<union> set (p # preds)) new'" if "meets G ?f (insert p ps) new1" for new1
    using Cons.IH [of "insert p ps" new1] Cons.prems that by auto
  show ?case
  proof (cases "?f p")
    case None
    then show ?thesis using ih [OF meets_skip [OF None Cons.prems(3)]] by (simp flip: idom_of_def)
  next
    case (Some c)
    then have fp: "?f p \<noteq> None" by simp
    show ?thesis
    proof (cases new)
      case None
      then show ?thesis using ih [of "Some p"] meets_first [of ?f p G ps] fp Cons.prems(3) Some by (auto simp flip: idom_of_def)
    next
      case (Some y)
      then have y: "?f y \<noteq> None" "y < length G"
        using Cons.prems(2,3) by (auto simp: meets_def intro: le_less_trans)
      obtain z where z: "intersect bs p y = Some z" "z \<le> p" "z \<le> y" "?f z \<noteq> None"
          "\<forall>a. anc ?f a z \<longleftrightarrow> anc ?f a p \<and> anc ?f a y" "\<forall>a. dominates G a p \<and> dominates G a y \<longrightarrow> dominates G a z"
        using intersect_spec [OF wf inv pl fp y(2,1)] by blast
      then show ?thesis using ih [OF meets_next [OF Cons.prems(3) [unfolded Some] fp z(4,2,3,5,6)]] Some fp
        by (auto simp flip: idom_of_def)
    qed
  qed
qed simp

lemma idom_of_update: "b < length bs \<Longrightarrow> idom_of (bs[b := (bs ! b)\<lparr>imm_dom := new\<rparr>]) = (idom_of bs)(b := new)"
  by (auto simp: idom_of_def nth_list_update fun_eq_iff)

text \<open>Chains that do not run through \<open>b\<close> are not affected by a new value at \<open>b\<close>.\<close>

lemma anc_update_other:
  "anc f a x \<Longrightarrow> \<not> anc f b x \<Longrightarrow> anc (f(b := new)) a x"
proof (induction rule: anc.induct)
  case (anc_step x c a)
  have "x \<noteq> b" "\<not> anc f b c" using anc_step.prems anc_step.hyps anc_refl anc.anc_step by metis+
  then show ?case using anc_step.IH anc_step.hyps by (intro anc.anc_step [of _ x c]) auto
qed (rule anc_refl)

lemma anc_update_other_back:
  "anc (f(b := new)) a x \<Longrightarrow> \<not> anc f b x \<Longrightarrow> anc f a x"
proof (induction rule: anc.induct)
  case (anc_step x c a)
  have x: "x \<noteq> b" using anc_step.prems anc_refl by metis
  then have f: "f x = Some c" using anc_step.hyps by simp
  then have "\<not> anc f b c" using anc_step.prems anc_step.hyps(2) anc.anc_step by metis
  then show ?case using anc_step.IH f anc_step.hyps(2) by (intro anc.anc_step [of f x c]) auto
qed (rule anc_refl)

text \<open>A chain through \<open>b\<close> keeps its part above \<open>b\<close>.\<close>

lemma anc_update_through:
  "anc (f(b := new)) a x \<Longrightarrow> anc f a x \<or> (anc f b x \<and> anc (f(b := new)) a b)"
proof (induction rule: anc.induct)
  case (anc_step x c a)
  show ?case
  proof (cases "x = b")
    case True
    then have "anc (f(b := new)) a b" using anc.anc_step [OF anc_step.hyps] by (simp only:)
    then show ?thesis using True anc_refl by blast
  next
    case False
    then have "f x = Some c" using anc_step.hyps by simp
    then show ?thesis using anc_step.IH anc_step.hyps(2) anc.anc_step by metis
  qed
qed (blast intro: anc_refl)

section \<open>The passes\<close>

text \<open>
  During pass \<open>K\<close>, before block \<open>cur\<close> is visited: a block that is avoided by a path with few
  back edges is not in the chain.  The blocks before \<open>cur\<close> know paths with one more back edge.
\<close>

definition dom_state :: "cfg \<Rightarrow> nat \<Rightarrow> nat \<Rightarrow> (nat \<Rightarrow> nat option) \<Rightarrow> bool" where
  "dom_state G K cur f \<longleftrightarrow> idom_inv G f \<and>
     (\<forall>x < length G. reachable G x \<and> (x < cur \<or> 1 < K) \<longrightarrow> f x \<noteq> None) \<and>
     (\<forall>x < length G. \<forall>d. avoidable G d (if x < cur then K else K - 1) x \<longrightarrow> \<not> anc f d x)"

lemma processed_reachable: "idom_inv G f \<Longrightarrow> x < length G \<Longrightarrow> f x \<noteq> None \<Longrightarrow> reachable G x"
  using reachable_start by (cases "x = 0") (auto dest: idom_invD(3))

lemma new_idom_some:
  assumes wf: "wf_cfg G" "block_order G" and st: "dom_state G K b f" and b: "0 < b" "b < length G"
    and new: "meets G f (set (G ! b)) new"
  shows "reachable G b \<longleftrightarrow> new \<noteq> None" and "new = Some z \<Longrightarrow> z < b" and "\<not> reachable G b \<Longrightarrow> f b = None"
proof -
  have pl: "p < length G" if "p \<in> set (G ! b)" for p using wf(1) b(2) that by (auto simp: wf_cfg_def)
  have inv: "idom_inv G f" using st by (simp add: dom_state_def)
  have fw: "\<exists>p \<in> set (G ! b). p < b \<and> f p \<noteq> None" if r: "reachable G b"
  proof -
    obtain p where "p \<in> set (G ! b)" "p < b" "reachable G p" using wf(2) r b by (auto simp: block_order_def)
    then show ?thesis using st pl by (auto simp: dom_state_def)
  qed
  show "reachable G b \<longleftrightarrow> new \<noteq> None"
  proof
    assume "new \<noteq> None"
    then obtain p where p: "p \<in> set (G ! b)" "f p \<noteq> None" using new by (auto simp: meets_def)
    then have "reachable G p" using processed_reachable [OF inv pl] by blast
    then show "reachable G b" using reachable_edge b p(1) by blast
  next
    assume "reachable G b"
    then show "new \<noteq> None" using fw new by (cases new) (auto simp: meets_def)
  qed
  then show "z < b" if "new = Some z" using fw new that by (auto simp: meets_def intro: le_less_trans)
  show "f b = None" if "\<not> reachable G b" using that inv b by (cases "f b") (auto dest: idom_invD(3))
qed

lemma step_inv:
  assumes wf: "wf_cfg G" "block_order G" and st: "dom_state G K b f" and b: "0 < b" "b < length G"
    and new: "meets G f (set (G ! b)) (Some z)"
  shows "idom_inv G (f(b := Some z))"
proof -
  note n = new_idom_some [OF wf st b new]
  have inv: "idom_inv G f" using st by (simp add: dom_state_def)
  have "dominates G a z" if "dominates G a b" "a \<noteq> b" for a
    using new dominates_pred [OF that _ b(2)] by (auto simp: meets_def)
  then have "z < b \<and> (f(b := Some z)) z \<noteq> None \<and> reachable G b \<and> (\<forall>a. dominates G a b \<and> a \<noteq> b \<longrightarrow> dominates G a z)"
    using n new by (auto simp: meets_def)
  moreover have "c < x \<and> (f(b := Some z)) c \<noteq> None \<and> reachable G x \<and> (\<forall>a. dominates G a x \<and> a \<noteq> x \<longrightarrow> dominates G a c)"
    if "x < length G" "x \<noteq> 0" "x \<noteq> b" "f x = Some c" for x c
    using idom_invD [OF inv that(1,2,4)] by auto
  moreover have "(f(b := Some z)) 0 = Some 0" using inv b(1) by (simp add: idom_inv_def)
  ultimately show ?thesis unfolding idom_inv_def by (metis fun_upd_apply option.inject)
qed

lemma anc_below_update:
  assumes "idom_inv G f" and "x < b" and "b < length G"
  shows "anc (f(b := new)) d x \<longleftrightarrow> anc f d x"
proof -
  have "\<not> anc f b x" using anc_le [OF _ assms(1), of b x] assms(2,3) by auto
  then show ?thesis using anc_update_other anc_update_other_back by metis
qed

lemma step_avoid:
  assumes wf: "wf_cfg G" "block_order G" and st: "dom_state G K b f" and b: "0 < b" "b < length G"
    and new: "meets G f (set (G ! b)) (Some z)" and av: "avoidable G d K b"
  shows "\<not> anc (f(b := Some z)) d b"
proof -
  note n = new_idom_some [OF wf st b new]
  have inv: "idom_inv G f" using st by (simp add: dom_state_def)
  have inv': "idom_inv G (f(b := Some z))" by (rule step_inv [OF wf st b new])
  obtain p where p: "p \<in> set (G ! b)" "avoidable G d (if p < b then K else K - 1) p"
    using avoidable_pred [OF av] b(1) by (auto split: if_splits)
  have pl: "p < length G" using wf(1) b(2) p(1) by (auto simp: wf_cfg_def)
  have "p < b \<or> 1 < K" using p(2) avoidable_zero [of G d p] by (cases "K - 1") (auto split: if_splits)
  then have "f p \<noteq> None" using st pl avoidable_reachable [OF p(2)] by (auto simp: dom_state_def)
  moreover have "\<not> anc f d p" using st pl p(2) by (auto simp: dom_state_def)
  ultimately have "\<not> anc f d z" using new p(1) by (auto simp: meets_def)
  then have "\<not> anc (f(b := Some z)) d z" using anc_below_update [OF inv n(2) b(2)] by blast
  then show ?thesis using anc_strict [OF inv' b(2), of z d] b(1) avoidable_neq [OF av] by auto
qed

lemma step_state:
  assumes wf: "wf_cfg G" "block_order G" and st: "dom_state G K b f" and b: "0 < b" "b < length G"
    and new: "meets G f (set (G ! b)) new"
  shows "dom_state G K (b + 1) (f(b := new))"
proof (cases new)
  case None
  note n = new_idom_some [OF wf st b new]
  have r: "\<not> reachable G b" "f b = None" using n None by auto
  then have "f(b := new) = f" using None by auto
  moreover have "dom_state G K (b + 1) f"
    unfolding dom_state_def
  proof (intro conjI allI impI)
    show "idom_inv G f" using st by (simp add: dom_state_def)
  next
    fix x
    assume "x < length G" "reachable G x \<and> (x < b + 1 \<or> 1 < K)"
    moreover from this have "x \<noteq> b" using r by auto
    ultimately show "f x \<noteq> None" using st unfolding dom_state_def by (metis Suc_eq_plus1 less_antisym)
  next
    fix x d
    assume x: "x < length G" "avoidable G d (if x < b + 1 then K else K - 1) x"
    have "x \<noteq> b" using avoidable_reachable [OF x(2)] r by auto
    then show "\<not> anc f d x" using st x unfolding dom_state_def by (metis Suc_eq_plus1 less_Suc_eq)
  qed
  ultimately show ?thesis by simp
next
  case (Some z)
  let ?f = "f(b := Some z)"
  note new' = new [unfolded Some]
  have inv: "idom_inv G f" and av: "\<And>x d. x < length G \<Longrightarrow> avoidable G d (if x < b then K else K - 1) x \<Longrightarrow> \<not> anc f d x"
    using st by (auto simp: dom_state_def)
  have avb: "\<not> anc ?f d b" if "avoidable G d K b" for d by (rule step_avoid [OF wf st b new' that])
  have "\<not> anc ?f d x" if x: "x < length G" "avoidable G d (if x < b + 1 then K else K - 1) x" for x d
  proof (cases x b rule: linorder_cases)
    case less
    then show ?thesis using av [of x d] x anc_below_update [OF inv less b(2), of "Some z" d] by simp
  next
    case equal
    then show ?thesis using avb x(2) by simp
  next
    case greater
    then have d: "avoidable G d (K - 1) x" using x(2) by (simp split: if_splits)
    show ?thesis
    proof
      assume "anc ?f d x"
      then consider "anc f d x" | "anc f b x" "anc ?f d b" using anc_update_through by metis
      then show False
      proof cases
        case 1
        then show ?thesis using av [of x d] d x(1) greater by simp
      next
        case 2
        then have "\<not> avoidable G b (K - 1) x" using av [of x b] x(1) greater by auto
        then have "avoidable G d K b" using avoidable_through [OF d] avoidable_mono by (metis diff_le_self)
        then show ?thesis using avb 2(2) by blast
      qed
    qed
  qed
  moreover have "?f x \<noteq> None" if "x < length G" "reachable G x" "x < b + 1 \<or> 1 < K" for x
    using that st by (cases "x = b") (auto simp: dom_state_def)
  ultimately show ?thesis unfolding Some dom_state_def using step_inv [OF wf st b new'] by blast
qed

lemma calc_dominance_spec:
  assumes wf: "wf_cfg G" "block_order G" and len: "length bs = length G" and b: "0 < b" "b < length G"
    and st: "dom_state G K b (idom_of bs)"
  shows "\<exists>new. calc_dominance G b bs = Some (idom_of bs b \<noteq> new, bs[b := (bs ! b)\<lparr>imm_dom := new\<rparr>]) \<and>
    dom_state G K (b + 1) ((idom_of bs)(b := new))"
proof -
  have inv: "idom_inv G (idom_of bs)" using st by (simp add: dom_state_def)
  have pl: "\<And>p. p \<in> set (G ! b) \<Longrightarrow> p < length G" using wf(1) b(2) by (auto simp: wf_cfg_def)
  obtain new where new: "meet_preds bs None (G ! b) = Some new" "meets G (idom_of bs) (set (G ! b)) new"
    using meet_preds_spec [OF wf inv, of "G ! b" "{}" None] pl by (auto simp: meets_def)
  have "bs[b := (bs ! b)\<lparr>imm_dom := new\<rparr>] = bs" if "idom_of bs b = new" using that by (simp add: idom_of_def list_update_same_conv b len)
  then have "calc_dominance G b bs = Some (idom_of bs b \<noteq> new, bs[b := (bs ! b)\<lparr>imm_dom := new\<rparr>])"
    using new(1) by (auto simp: calc_dominance_def idom_of_def)
  then show ?thesis using step_state [OF wf st b new(2)] by blast
qed

section \<open>The fixpoint\<close>

definition immediate_dominator :: "cfg \<Rightarrow> nat \<Rightarrow> nat \<Rightarrow> bool" where
  "immediate_dominator G c b \<longleftrightarrow> reachable G b \<and> dominates G c b \<and> c \<noteq> b \<and> (\<forall>a. dominates G a b \<and> a \<noteq> b \<longrightarrow> dominates G a c)"

lemma immediate_dominator_unique:
  assumes "wf_cfg G" and "block_order G" and "immediate_dominator G c b" and "immediate_dominator G d b"
  shows "c = d"
proof -
  have "dominates G c d" "dominates G d c" using assms(3,4) by (auto simp: immediate_dominator_def)
  moreover have "reachable G c" "reachable G d" using assms(3,4) dominates_reachable by (auto simp: immediate_dominator_def)
  ultimately show ?thesis using dominates_le [OF assms(1,2)] by (meson le_antisym)
qed

lemma immediate_dominator_start: "\<not> immediate_dominator G c 0"
  using dominates_start by (auto simp: immediate_dominator_def)

text \<open>The dominance information of the fixpoint.\<close>

definition idoms_final :: "cfg \<Rightarrow> (nat \<Rightarrow> nat option) \<Rightarrow> bool" where
  "idoms_final G f \<longleftrightarrow> idom_inv G f \<and>
     (\<forall>x < length G. reachable G x \<longleftrightarrow> f x \<noteq> None) \<and>
     (\<forall>x < length G. \<forall>d. reachable G x \<longrightarrow> (anc f d x \<longleftrightarrow> dominates G d x))"

lemma dom_state_final:
  assumes wf: "wf_cfg G" and st: "dom_state G K cur f" and K: "length G + 2 \<le> K"
  shows "idoms_final G f"
proof -
  have inv: "idom_inv G f" using st by (simp add: dom_state_def)
  have p: "reachable G x \<longleftrightarrow> f x \<noteq> None" if "x < length G" for x
    using st K that processed_reachable [OF inv that] by (auto simp: dom_state_def)
  have "anc f d x \<longleftrightarrow> dominates G d x" if x: "x < length G" "reachable G x" for x d
  proof
    assume a: "anc f d x"
    show "dominates G d x"
    proof (rule ccontr)
      assume "\<not> dominates G d x"
      then have "avoidable G d (length G + 1) x" using avoidable_bounded [OF wf x(2)] by simp
      then have "avoidable G d (if x < cur then K else K - 1) x" using K by (rule_tac avoidable_mono) auto
      then show False using st x(1) a by (auto simp: dom_state_def)
    qed
  qed (use dominators_in_chain [OF inv x(1)] p x in auto)
  then show ?thesis using inv p by (simp add: idoms_final_def)
qed

lemma final_idom:
  assumes wf: "wf_cfg G" "block_order G" and fin: "idoms_final G f" and b: "b < length G" "b \<noteq> 0"
  shows "f b = Some c \<longleftrightarrow> immediate_dominator G c b"
proof -
  have inv: "idom_inv G f" using fin by (simp add: idoms_final_def)
  have *: "immediate_dominator G c b" if f: "f b = Some c" for c
  proof -
    note i = idom_invD [OF inv b f]
    have "dominates G c b" using fin i(3) b(1) anc_strict [OF inv b f, of c] anc_refl by (auto simp: idoms_final_def)
    then show ?thesis using i by (auto simp: immediate_dominator_def)
  qed
  show ?thesis
  proof
    assume c: "immediate_dominator G c b"
    then have "f b \<noteq> None" using fin b(1) by (auto simp: idoms_final_def immediate_dominator_def)
    then obtain d where d: "f b = Some d" by blast
    then show "f b = Some c" using immediate_dominator_unique [OF wf c *] by blast
  qed (rule *)
qed

lemma final_unique:
  assumes wf: "wf_cfg G" "block_order G" and "idoms_final G f" and "idoms_final G g" and b: "b < length G" "b \<noteq> 0"
  shows "f b = g b"
  using final_idom [OF wf assms(3) b] final_idom [OF wf assms(4) b] by (metis option.exhaust)

lemma dom_state_next: "dom_state G K (length G) f \<Longrightarrow> 1 \<le> K \<Longrightarrow> dom_state G (K + 1) 1 f"
proof -
  assume st: "dom_state G K (length G) f" and K: "1 \<le> K"
  have z: "f 0 = Some 0" using st by (auto simp: dom_state_def idom_inv_def)
  have "\<not> anc f d x" if "x < length G" "avoidable G d (if x < 1 then K + 1 else K + 1 - 1) x" for x d
  proof (cases "x = 0")
    case True
    then show ?thesis using avoidable_neq [OF that(2)] z by (subst anc_unfold) auto
  qed (use st that in \<open>auto simp: dom_state_def\<close>)
  then show ?thesis using st K unfolding dom_state_def by auto
qed

text \<open>Only the field \<open>imm_dom\<close> changes.\<close>

definition same_but_idom :: "nir_block list \<Rightarrow> nir_block list \<Rightarrow> bool" where
  "same_but_idom bs bs' \<longleftrightarrow> map (imm_dom_update (\<lambda>_. None)) bs = map (imm_dom_update (\<lambda>_. None)) bs'"

lemma same_but_idom_length: "same_but_idom bs bs' \<Longrightarrow> length bs = length bs'"
  unfolding same_but_idom_def by (metis length_map)

lemma same_but_idom_update: "same_but_idom bs (bs[b := (bs ! b)\<lparr>imm_dom := new\<rparr>])"
proof -
  have "map g bs = map g (bs[b := (bs ! b)\<lparr>imm_dom := new\<rparr>])" if "\<And>x. g (x\<lparr>imm_dom := new\<rparr>) = g x" for g :: "nir_block \<Rightarrow> nir_block"
    using that by (simp add: map_update) (metis list_update_id map_update)
  then show ?thesis by (simp add: same_but_idom_def)
qed

lemma same_but_idom_trans: "same_but_idom a b \<Longrightarrow> same_but_idom b c \<Longrightarrow> same_but_idom a c"
  by (simp add: same_but_idom_def)

lemma dominance_pass_spec:
  assumes wf: "wf_cfg G" "block_order G"
  shows "cur \<le> length G \<Longrightarrow> 0 < cur \<Longrightarrow> length bs = length G \<Longrightarrow> dom_state G K cur (idom_of bs) \<Longrightarrow>
    \<exists>p bs'. dominance_pass G [cur..<length G] pr bs = Some (pr \<or> p, bs') \<and> same_but_idom bs bs' \<and>
      dom_state G K (length G) (idom_of bs') \<and> (\<not> p \<longrightarrow> bs' = bs) \<and> (length G + 2 \<le> K \<longrightarrow> \<not> p)"
proof (induction "length G - cur" arbitrary: cur bs pr)
  case 0
  then show ?case by (auto simp: same_but_idom_def)
next
  case (Suc k)
  have cur: "cur < length G" using Suc.hyps(2) by simp
  obtain new where new: "calc_dominance G cur bs = Some (idom_of bs cur \<noteq> new, bs[cur := (bs ! cur)\<lparr>imm_dom := new\<rparr>])"
      "dom_state G K (cur + 1) ((idom_of bs)(cur := new))"
    using calc_dominance_spec [OF wf Suc.prems(3,2) cur Suc.prems(4)] by blast
  define bs1 where "bs1 = bs[cur := (bs ! cur)\<lparr>imm_dom := new\<rparr>]"
  have id: "idom_of bs1 = (idom_of bs)(cur := new)" unfolding bs1_def using cur Suc.prems(3) by (simp add: idom_of_update)
  have same: "bs1 = bs" if "idom_of bs cur = new" unfolding bs1_def using that by (simp add: idom_of_def list_update_same_conv cur Suc.prems(3))
  have k: "k = length G - (cur + 1)" "cur + 1 \<le> length G" "0 < cur + 1" "length bs1 = length G" "dom_state G K (cur + 1) (idom_of bs1)"
    using Suc.hyps(2) Suc.prems(3) cur new(2) id by (auto simp: bs1_def)
  obtain p bs' where p: "dominance_pass G [cur + 1..<length G] (pr \<or> idom_of bs cur \<noteq> new) bs1 = Some ((pr \<or> idom_of bs cur \<noteq> new) \<or> p, bs')"
      "same_but_idom bs1 bs'" "dom_state G K (length G) (idom_of bs')" "\<not> p \<longrightarrow> bs' = bs1" "length G + 2 \<le> K \<longrightarrow> \<not> p"
    using Suc.hyps(1) [OF k, of "pr \<or> idom_of bs cur \<noteq> new"] by blast
  have "[cur..<length G] = cur # [cur + 1..<length G]" using cur by (simp add: upt_conv_Cons)
  then have "dominance_pass G [cur..<length G] pr bs = Some (pr \<or> (idom_of bs cur \<noteq> new \<or> p), bs')"
    using new(1) p(1) Suc.prems(2) by (simp flip: bs1_def)
  moreover have "same_but_idom bs bs'" using p(2) same_but_idom_update same_but_idom_trans unfolding bs1_def by blast
  moreover have "idom_of bs cur = new" if "length G + 2 \<le> K"
    using final_unique [OF wf dom_state_final [OF wf(1) Suc.prems(4) that] dom_state_final [OF wf(1) new(2) that] cur] Suc.prems(2) by simp
  ultimately show ?case using p(3-5) same by blast
qed

lemma pass_fixpoint:
  assumes wf: "wf_cfg G" "block_order G" and len: "length bs = length G" and K: "1 \<le> K"
    and st: "dom_state G K 1 (idom_of bs)" and fixed: "dominance_pass G [1..<length G] False bs = Some (False, bs)"
  shows "dom_state G (K + m) 1 (idom_of bs)"
proof (induction m)
  case (Suc m)
  have "1 \<le> length G" using wf(1) by (cases G) (auto simp: wf_cfg_def)
  then have "dom_state G (K + m) (length G) (idom_of bs)" using dominance_pass_spec [OF wf _ _ len Suc.IH, of False] fixed by auto
  then show ?case using dom_state_next [of G "K + m"] K by simp
qed (use st in simp)

lemma dominance_loop_spec:
  assumes wf: "wf_cfg G" "block_order G"
  shows "length bs = length G \<Longrightarrow> 1 \<le> K \<Longrightarrow> dom_state G K 1 (idom_of bs) \<Longrightarrow>
    \<exists>bs'. dominance_loop G bs = Some bs' \<and> same_but_idom bs bs' \<and> idoms_final G (idom_of bs')"
proof (induction "length G + 2 - K" arbitrary: bs K rule: less_induct)
  case less
  have n: "1 \<le> length G" using wf(1) by (cases G) (auto simp: wf_cfg_def)
  then have "0 < length G" by linarith
  then have upt: "[0..<length G] = 0 # [1..<length G]" using upt_conv_Cons [of 0 "length G"] by simp
  obtain p bs' where p: "dominance_pass G [1..<length G] False bs = Some (p, bs')" "same_but_idom bs bs'"
      "dom_state G K (length G) (idom_of bs')" "\<not> p \<longrightarrow> bs' = bs" "length G + 2 \<le> K \<longrightarrow> \<not> p"
    using dominance_pass_spec [OF wf n _ less.prems(1,3), of False] by auto
  then have e: "dominance_loop G bs = (if p then dominance_loop G bs' else Some bs')"
    by (subst dominance_loop.simps) (simp add: upt)
  show ?case
  proof (cases p)
    case True
    have l: "length bs' = length G" using same_but_idom_length [OF p(2)] less.prems(1) by simp
    have d: "length G + 2 - (K + 1) < length G + 2 - K" using p(5) True by auto
    obtain bs'' where "dominance_loop G bs' = Some bs''" "same_but_idom bs' bs''" "idoms_final G (idom_of bs'')"
      using less.hyps [OF d l] dom_state_next [OF p(3) less.prems(2)] by auto
    then show ?thesis using e True p(2) same_but_idom_trans by auto
  next
    case False
    then have "dom_state G (K + (length G + 2)) 1 (idom_of bs)"
      using pass_fixpoint [OF wf less.prems(1,2,3), of "length G + 2"] p(1,4) by simp
    then have "idoms_final G (idom_of bs)" using dom_state_final [OF wf(1)] by fastforce
    then show ?thesis using e False p(2,4) by auto
  qed
qed

lemma dom_state_init:
  assumes "wf_cfg G" and bs: "bs = map (\<lambda>b. init_block b (bs0 ! b)) [0..<length G]"
  shows "dom_state G 1 1 (idom_of bs)"
proof -
  have f: "idom_of bs b = (if b = 0 then Some 0 else None)" if "b < length G" for b
  proof -
    have "bs ! b = init_block b (bs0 ! b)" unfolding bs using that by simp
    then show ?thesis by (simp add: idom_of_def init_block_def)
  qed
  have n: "0 < length G" using assms(1) by (auto simp: wf_cfg_def)
  have "\<not> anc (idom_of bs) d x" if "x < length G" "avoidable G d (if x < 1 then 1 else 1 - 1) x" for x d
  proof (cases "x = 0")
    case True
    then show ?thesis using avoidable_neq [OF that(2)] f [OF n] by (subst anc_unfold) auto
  qed (use that in auto)
  then show ?thesis using f n by (auto simp: dom_state_def idom_inv_def)
qed

section \<open>Dominance frontiers\<close>

text \<open>\<open>c\<close> is in the frontier of \<open>x\<close>: \<open>x\<close> dominates a predecessor of \<open>c\<close>, but not strictly \<open>c\<close> itself.\<close>

definition in_frontier :: "cfg \<Rightarrow> nat \<Rightarrow> nat \<Rightarrow> bool" where
  "in_frontier G x c \<longleftrightarrow> (\<exists>p \<in> set (G ! c). reachable G p \<and> dominates G x p) \<and> \<not> (dominates G x c \<and> x \<noteq> c)"

text \<open>\<open>bs'\<close> is \<open>bs\<close> with the blocks in \<open>R x\<close> added to the frontier of each \<open>x\<close>.\<close>

definition grown :: "(nat \<Rightarrow> nat set) \<Rightarrow> nir_block list \<Rightarrow> nir_block list \<Rightarrow> bool" where
  "grown R bs bs' \<longleftrightarrow> length bs' = length bs \<and>
     (\<forall>x < length bs. bs' ! x = (bs ! x)\<lparr>dom_frontier := dom_frontier (bs ! x) \<union> R x\<rparr>)"

lemma grown_none: "(\<And>x. x < length bs \<Longrightarrow> R x = {}) \<Longrightarrow> grown R bs bs"
  by (simp add: grown_def)

lemma grown_trans: "grown R bs bs' \<Longrightarrow> grown S bs' bs'' \<Longrightarrow> (\<And>x. x < length bs \<Longrightarrow> T x = R x \<union> S x) \<Longrightarrow> grown T bs bs''"
  by (simp add: grown_def Un_assoc)

lemma grown_one: "r < length bs \<Longrightarrow> grown (\<lambda>x. if x = r then {c} else {}) bs (bs[r := (bs ! r)\<lparr>dom_frontier := insert c (dom_frontier (bs ! r))\<rparr>])"
  by (simp add: grown_def nth_list_update)

lemma grown_idom: "grown R bs bs' \<Longrightarrow> length bs = n \<Longrightarrow> (\<And>x. x < n \<Longrightarrow> imm_dom (bs ! x) = f x) \<Longrightarrow>
  length bs' = n \<and> (\<forall>x < n. imm_dom (bs' ! x) = f x)"
  by (simp add: grown_def)

lemma frontier_walk_spec:
  assumes inv: "idom_inv G f"
  shows "length bs = length G \<Longrightarrow> (\<And>x. x < length G \<Longrightarrow> imm_dom (bs ! x) = f x) \<Longrightarrow> r < length G \<Longrightarrow> f r \<noteq> None \<Longrightarrow> anc f s r \<Longrightarrow>
    \<exists>bs'. frontier_walk c (Some s) (Some r) bs = Some bs' \<and> grown (\<lambda>x. if anc f x r \<and> \<not> anc f x s then {c} else {}) bs bs'"
proof (induction r arbitrary: bs rule: less_induct)
  case (less r)
  show ?case
  proof (cases "r = s")
    case True
    then show ?thesis by (subst frontier_walk.simps) (auto intro: grown_none)
  next
    case False
    have r0: "r \<noteq> 0" using False less.prems(5) inv by (metis anc_le le_zero_eq less.prems(3))
    obtain d where d: "f r = Some d" using less.prems(4) by blast
    note i = idom_invD [OF inv less.prems(3) r0 d]
    define bs1 where "bs1 = bs[r := (bs ! r)\<lparr>dom_frontier := insert c (dom_frontier (bs ! r))\<rparr>]"
    have g1: "grown (\<lambda>x. if x = r then {c} else {}) bs bs1" unfolding bs1_def using less.prems(1,3) by (intro grown_one) simp
    have f1: "length bs1 = length G" "\<And>x. x < length G \<Longrightarrow> imm_dom (bs1 ! x) = f x"
      using grown_idom [OF g1 less.prems(1)] less.prems(2) by blast+
    have sd: "anc f s d" using less.prems(5) False anc_strict [OF inv less.prems(3) r0 d] by simp
    obtain bs' where bs': "frontier_walk c (Some s) (Some d) bs1 = Some bs'" "grown (\<lambda>x. if anc f x d \<and> \<not> anc f x s then {c} else {}) bs1 bs'"
      using less.IH [OF i(1) f1 _ i(2) sd] i(1) less.prems(3) by auto
    have "frontier_walk c (Some s) (Some r) bs = Some bs'"
      using bs'(1) False f1(2) [OF less.prems(3)] d by (subst frontier_walk.simps) (simp flip: bs1_def)
    moreover have "\<not> anc f r s" using anc_le [OF sd inv] anc_le [OF _ inv, of r s] i(1) less.prems(3) by fastforce
    then have "grown (\<lambda>x. if anc f x r \<and> \<not> anc f x s then {c} else {}) bs bs'"
      using anc_strict [OF inv less.prems(3) r0 d] by (intro grown_trans [OF g1 bs'(2)]) auto
    ultimately show ?thesis by blast
  qed
qed

lemma frontier_preds_spec:
  assumes inv: "idom_inv G f" and c: "c < length G" "f c = Some s"
  shows "length bs = length G \<Longrightarrow> (\<And>x. x < length G \<Longrightarrow> imm_dom (bs ! x) = f x) \<Longrightarrow>
    (\<And>p. p \<in> set ps \<Longrightarrow> p < length G \<and> (f p \<noteq> None \<longrightarrow> anc f s p)) \<Longrightarrow>
    \<exists>bs'. frontier_preds c ps bs = Some bs' \<and>
      grown (\<lambda>x. if (\<exists>p \<in> set ps. f p \<noteq> None \<and> anc f x p) \<and> \<not> anc f x s then {c} else {}) bs bs'"
proof (induction ps arbitrary: bs)
  case Nil
  then show ?case by (auto intro: grown_none)
next
  case (Cons p ps)
  have p: "p < length G" using Cons.prems(3) by simp
  show ?case
  proof (cases "f p")
    case None
    then show ?thesis using Cons.IH [OF Cons.prems(1,2)] Cons.prems(2) [OF p] Cons.prems(3) by simp
  next
    case (Some d)
    then obtain bs1 where w: "frontier_walk c (Some s) (Some p) bs = Some bs1" "grown (\<lambda>x. if anc f x p \<and> \<not> anc f x s then {c} else {}) bs bs1"
      using frontier_walk_spec [OF inv Cons.prems(1,2) p, of s c] Cons.prems(3) by auto
    have f1: "length bs1 = length G" "\<And>x. x < length G \<Longrightarrow> imm_dom (bs1 ! x) = f x"
      using grown_idom [OF w(2) Cons.prems(1)] Cons.prems(2) by blast+
    obtain bs' where bs': "frontier_preds c ps bs1 = Some bs'"
        "grown (\<lambda>x. if (\<exists>p \<in> set ps. f p \<noteq> None \<and> anc f x p) \<and> \<not> anc f x s then {c} else {}) bs1 bs'"
      using Cons.IH [OF f1] Cons.prems(3) by auto
    have "frontier_preds c (p # ps) bs = Some bs'" using w(1) bs'(1) Some Cons.prems(2) [OF p] Cons.prems(2) [OF c(1)] c(2) by simp
    moreover have "grown (\<lambda>x. if (\<exists>p \<in> set (p # ps). f p \<noteq> None \<and> anc f x p) \<and> \<not> anc f x s then {c} else {}) bs bs'"
      using Some by (intro grown_trans [OF w(2) bs'(2)]) auto
    ultimately show ?thesis by blast
  qed
qed

lemma strict_dominators:
  assumes wf: "wf_cfg G" "block_order G" and "immediate_dominator G s c"
  shows "dominates G x s \<longleftrightarrow> dominates G x c \<and> x \<noteq> c"
proof -
  have s: "reachable G c" "dominates G s c" "s \<noteq> c" "\<And>a. dominates G a c \<Longrightarrow> a \<noteq> c \<Longrightarrow> dominates G a s"
    using assms(3) by (auto simp: immediate_dominator_def)
  have "x \<noteq> c" if "dominates G x s"
    using dominates_le [OF wf _ that] dominates_le [OF wf s(1,2)] dominates_reachable [OF s(2,1)] s(3) by auto
  then show ?thesis using dominates_trans [OF _ s(2)] s(4) by blast
qed

text \<open>A block with a single predecessor is in no frontier, so the test of the code loses nothing.\<close>

lemma single_pred_frontier:
  assumes wf: "wf_cfg G" "block_order G" and c: "c < length G" and "length (G ! c) \<le> 1"
  shows "\<not> in_frontier G x c"
proof
  assume "in_frontier G x c"
  then obtain p where p: "p \<in> set (G ! c)" "reachable G p" "dominates G x p" "\<not> (dominates G x c \<and> x \<noteq> c)" by (auto simp: in_frontier_def)
  then have set: "set (G ! c) = {p}" using assms(4) by (cases "G ! c") auto
  have r: "reachable G c" using reachable_edge [OF p(2) c p(1)] .
  have "c \<noteq> 0" using wf(1) p(1) by (cases "c = 0") (auto simp: wf_cfg_def)
  then have pc: "p < c" using wf(2) c r set by (auto simp: block_order_def)
  have "dominates G p c" unfolding dominates_def using set \<open>c \<noteq> 0\<close> by (auto elim: path_consE)
  then have "dominates G x c" using dominates_trans p(3) by blast
  moreover have "x \<noteq> c" using dominates_le [OF wf p(2,3)] pc by simp
  ultimately show False using p(4) by blast
qed

lemma calc_dom_frontier_spec:
  assumes wf: "wf_cfg G" "block_order G" and fin: "idoms_final G f" and c: "c < length G"
    and bs: "length bs = length G" "\<And>x. x < length G \<Longrightarrow> imm_dom (bs ! x) = f x"
  shows "\<exists>bs'. calc_dom_frontier G c bs = Some bs' \<and> grown (\<lambda>x. if in_frontier G x c then {c} else {}) bs bs'"
proof (cases "length (G ! c) > 1")
  case False
  then show ?thesis using single_pred_frontier [OF wf c] grown_none [of bs] by (simp add: calc_dom_frontier_def)
next
  case True
  have inv: "idom_inv G f" and re: "\<And>x. x < length G \<Longrightarrow> reachable G x \<longleftrightarrow> f x \<noteq> None"
    and an: "\<And>x d. x < length G \<Longrightarrow> reachable G x \<Longrightarrow> anc f d x \<longleftrightarrow> dominates G d x" using fin by (auto simp: idoms_final_def)
  have pl: "p < length G" if "p \<in> set (G ! c)" for p using wf(1) c that by (auto simp: wf_cfg_def)
  have c0: "c \<noteq> 0" using True wf(1) by (cases "c = 0") (auto simp: wf_cfg_def)
  show ?thesis
  proof (cases "f c")
    case None
    have "imm_dom (bs ! p) = None" if "p \<in> set (G ! c)" for p
      using reachable_edge [OF _ c that] re [OF c] re [OF pl [OF that]] None bs(2) [OF pl [OF that]] by auto
    then have "frontier_preds c ps bs = Some bs" if "set ps \<subseteq> set (G ! c)" for ps using that by (induction ps) auto
    moreover have "\<not> in_frontier G x c" for x using reachable_edge [OF _ c] re [OF c] None by (auto simp: in_frontier_def)
    ultimately show ?thesis using True grown_none [of bs] by (simp add: calc_dom_frontier_def)
  next
    case (Some s)
    then have s: "immediate_dominator G s c" using final_idom [OF wf fin c c0] by simp
    have sl: "s < length G" "reachable G s" using idom_invD(1,2) [OF inv c c0 Some] c re by auto
    have "p < length G \<and> (f p \<noteq> None \<longrightarrow> anc f s p)" if "p \<in> set (G ! c)" for p
      using pl [OF that] re an dominates_pred [OF _ _ that c, of s] s by (auto simp: immediate_dominator_def)
    then obtain bs' where "frontier_preds c (G ! c) bs = Some bs'"
        and g: "grown (\<lambda>x. if (\<exists>p \<in> set (G ! c). f p \<noteq> None \<and> anc f x p) \<and> \<not> anc f x s then {c} else {}) bs bs'"
      using frontier_preds_spec [OF inv c Some bs] by blast
    moreover have "(\<exists>p \<in> set (G ! c). f p \<noteq> None \<and> anc f x p) \<and> \<not> anc f x s \<longleftrightarrow> in_frontier G x c" for x
      unfolding in_frontier_def an [OF sl] strict_dominators [OF wf s] using pl re an by auto
    ultimately show ?thesis using True by (simp add: calc_dom_frontier_def)
  qed
qed

lemma frontier_pass_spec:
  assumes wf: "wf_cfg G" "block_order G" and fin: "idoms_final G f"
  shows "length bs = length G \<Longrightarrow> (\<And>x. x < length G \<Longrightarrow> imm_dom (bs ! x) = f x) \<Longrightarrow> (\<And>c. c \<in> set cs \<Longrightarrow> c < length G) \<Longrightarrow>
    \<exists>bs'. frontier_pass G cs bs = Some bs' \<and> grown (\<lambda>x. {c \<in> set cs. in_frontier G x c}) bs bs'"
proof (induction cs arbitrary: bs)
  case Nil
  then show ?case by (auto intro: grown_none)
next
  case (Cons c cs)
  have c: "c < length G" using Cons.prems(3) by simp
  obtain bs1 where w: "calc_dom_frontier G c bs = Some bs1" "grown (\<lambda>x. if in_frontier G x c then {c} else {}) bs bs1"
    using calc_dom_frontier_spec [OF wf fin c Cons.prems(1,2)] by blast
  have f1: "length bs1 = length G" "\<And>x. x < length G \<Longrightarrow> imm_dom (bs1 ! x) = f x"
    using grown_idom [OF w(2) Cons.prems(1)] Cons.prems(2) by blast+
  obtain bs' where bs': "frontier_pass G cs bs1 = Some bs'" "grown (\<lambda>x. {c \<in> set cs. in_frontier G x c}) bs1 bs'"
    using Cons.IH [OF f1] Cons.prems(3) by auto
  have "grown (\<lambda>x. {d \<in> set (c # cs). in_frontier G x d}) bs bs'" by (intro grown_trans [OF w(2) bs'(2)]) auto
  then show ?case using w(1) bs'(1) by auto
qed

end
