(* ===== verification/Nir_Dom_Tree.thy ===== *)
theory Nir_Dom_Tree
  imports Nir_Dominance
begin

text \<open>
  The dominator tree and its depth-first numbering: the arrays of children that
  \<open>calc_dom_children\<close> fills, the nesting of the intervals that \<open>calc_dfs_indices\<close> assigns, and with
  them the correctness of the whole analysis of \<open>src/src/compiler/nir/nir_dominance.c\<close>.
\<close>

section \<open>The dominator tree\<close>

definition kids :: "(nat \<Rightarrow> nat option) \<Rightarrow> nat list \<Rightarrow> nat \<Rightarrow> nat list" where
  "kids g blocks d = filter (\<lambda>b. g b = Some d) blocks"

lemma kids_simps [simp]: "kids g [] d = []" "kids g (b # blocks) d = (if g b = Some d then b # kids g blocks d else kids g blocks d)"
  "kids g (xs @ ys) d = kids g xs d @ kids g ys d"
  by (simp_all add: kids_def)

text \<open>The blocks \<open>bs\<close> with other children.\<close>

definition with_children :: "(nat \<Rightarrow> nat list) \<Rightarrow> (nat \<Rightarrow> nat) \<Rightarrow> nir_block list \<Rightarrow> nir_block list \<Rightarrow> bool" where
  "with_children ch cnt bs bs' \<longleftrightarrow> length bs' = length bs \<and>
     (\<forall>d < length bs. bs' ! d = (bs ! d)\<lparr>dom_children := ch d, num_dom_children := cnt d\<rparr>)"

lemma with_children_idom: "with_children ch cnt bs bs' \<Longrightarrow> b < length bs \<Longrightarrow> imm_dom (bs' ! b) = imm_dom (bs ! b)"
  by (simp add: with_children_def)

lemma with_children_update:
  assumes "with_children ch cnt bs bs'" and "d < length bs"
  shows "with_children (ch(d := cs)) (cnt(d := k)) bs (bs'[d := (bs' ! d)\<lparr>dom_children := cs, num_dom_children := k\<rparr>])"
  using assms by (auto simp: with_children_def nth_list_update)

lemma count_children_spec:
  assumes "\<And>b. b < length bs \<Longrightarrow> imm_dom (bs ! b) = g b" and "\<forall>b < length bs. \<forall>d. g b = Some d \<longrightarrow> d < length bs"
  shows "with_children ch cnt bs bs1 \<Longrightarrow> set blocks \<subseteq> {..<length bs} \<Longrightarrow>
    with_children ch (\<lambda>d. cnt d + length (kids g blocks d)) bs (fold count_child blocks bs1)"
proof (induction blocks arbitrary: cnt bs1)
  case (Cons b blocks)
  have b: "b < length bs" using Cons.prems(2) by simp
  have i: "imm_dom (bs1 ! b) = g b" using with_children_idom [OF Cons.prems(1) b] assms(1) [OF b] by simp
  show ?case
  proof (cases "g b")
    case None
    then show ?thesis using Cons.IH [OF Cons.prems(1)] Cons.prems(2) i by (simp add: count_child_def)
  next
    case (Some d)
    have d: "d < length bs" using assms(2) b Some by blast
    have "bs1[d := (bs1 ! d)\<lparr>num_dom_children := num_dom_children (bs1 ! d) + 1\<rparr>] =
        bs1[d := (bs1 ! d)\<lparr>dom_children := ch d, num_dom_children := cnt d + 1\<rparr>]"
      using Cons.prems(1) d by (simp add: with_children_def)
    then have "with_children ch (cnt(d := cnt d + 1)) bs (count_child b bs1)"
      using with_children_update [OF Cons.prems(1) d, of "ch d" "cnt d + 1"] i Some by (simp add: count_child_def)
    then have "with_children ch (\<lambda>e. (cnt(d := cnt d + 1)) e + length (kids g blocks e)) bs (fold count_child blocks (count_child b bs1))"
      by (rule Cons.IH) (use Cons.prems(2) in simp)
    moreover have "(\<lambda>e. (cnt(d := cnt d + 1)) e + length (kids g blocks e)) = (\<lambda>e. cnt e + length (kids g (b # blocks) e))"
      using Some by (auto simp: fun_eq_iff)
    ultimately show ?thesis by simp
  qed
qed simp

lemma alloc_children_spec:
  assumes "with_children ch cnt bs bs1"
  shows "with_children (\<lambda>d. replicate (cnt d) junk) (\<lambda>_. 0) bs (map (alloc_children junk) bs1)"
  using assms by (auto simp: with_children_def alloc_children_def)

lemma add_children_spec:
  assumes "\<And>b. b < length bs \<Longrightarrow> imm_dom (bs ! b) = g b" and "\<forall>b < length bs. \<forall>d. g b = Some d \<longrightarrow> d < length bs"
  shows "with_children (\<lambda>d. kids g pre d @ replicate (length (kids g blocks d)) junk) (\<lambda>d. length (kids g pre d)) bs bs1 \<Longrightarrow>
    set blocks \<subseteq> {..<length bs} \<Longrightarrow>
    \<exists>bs'. add_children blocks bs1 = Some bs' \<and>
      with_children (kids g (pre @ blocks)) (\<lambda>d. length (kids g (pre @ blocks) d)) bs bs'"
proof (induction blocks arbitrary: pre bs1)
  case (Cons b blocks)
  have b: "b < length bs" using Cons.prems(2) by simp
  have i: "imm_dom (bs1 ! b) = g b" using with_children_idom [OF Cons.prems(1) b] assms(1) [OF b] by simp
  obtain bs2 where add: "add_child b bs1 = Some bs2" and w2: "with_children (\<lambda>d. kids g (pre @ [b]) d @ replicate (length (kids g blocks d)) junk) (\<lambda>d. length (kids g (pre @ [b]) d)) bs bs2"
  proof (cases "g b")
    case None
    then show ?thesis using that [of bs1] Cons.prems(1) i by (simp add: add_child_def)
  next
    case (Some d)
    let ?ch = "\<lambda>d. kids g pre d @ replicate (length (kids g (b # blocks) d)) junk" and ?cnt = "\<lambda>d. length (kids g pre d)"
    let ?cs = "kids g pre d @ b # replicate (length (kids g blocks d)) junk"
    have d: "d < length bs" using assms(2) b Some by blast
    have c: "dom_children (bs1 ! d) = ?ch d" "num_dom_children (bs1 ! d) = ?cnt d" using Cons.prems(1) d by (auto simp: with_children_def)
    have "?cnt d < length (?ch d)" "(?ch d)[?cnt d := b] = ?cs" using Some by (auto simp: list_update_append)
    then have "add_child b bs1 = Some (bs1[d := (bs1 ! d)\<lparr>dom_children := ?cs, num_dom_children := ?cnt d + 1\<rparr>])"
      using i Some c by (simp add: add_child_def c_assert_def)
    moreover have "(\<lambda>d. kids g (pre @ [b]) d @ replicate (length (kids g blocks d)) junk) = ?ch(d := ?cs)"
        "(\<lambda>d. length (kids g (pre @ [b]) d)) = ?cnt(d := ?cnt d + 1)" using Some by (auto simp: fun_eq_iff)
    ultimately show ?thesis using that with_children_update [OF Cons.prems(1) d, of ?cs "?cnt d + 1"] by simp
  qed
  then show ?case using Cons.IH [OF w2] Cons.prems(2) by simp
qed simp

lemma calc_dom_children_spec:
  assumes "\<And>b. b < length bs \<Longrightarrow> imm_dom (bs ! b) = g b" and "\<forall>b < length bs. \<forall>d. g b = Some d \<longrightarrow> d < length bs"
    and "\<And>b. b < length bs \<Longrightarrow> num_dom_children (bs ! b) = 0"
  shows "\<exists>bs'. calc_dom_children junk bs = Some bs' \<and>
    with_children (kids g [0..<length bs]) (\<lambda>d. length (kids g [0..<length bs] d)) bs bs'"
proof -
  let ?all = "[0..<length bs]"
  have "with_children (\<lambda>d. dom_children (bs ! d)) (\<lambda>_. 0) bs bs" using assms(3) by (auto simp: with_children_def)
  then have "with_children (\<lambda>d. dom_children (bs ! d)) (\<lambda>d. length (kids g ?all d)) bs (fold count_child ?all bs)"
    using count_children_spec [OF assms(1,2), where blocks = ?all and cnt = "\<lambda>_. 0"] by (simp add: lessThan_atLeast0)
  note w = alloc_children_spec [OF this, of junk]
  have l: "length (map (alloc_children junk) (fold count_child ?all bs)) = length bs" using w by (simp add: with_children_def)
  show ?thesis
    unfolding calc_dom_children_def Let_def l
    using add_children_spec [OF assms(1,2), where pre = "[]" and blocks = ?all] w by (simp add: lessThan_atLeast0)
qed

section \<open>Depth-first numbering\<close>

text \<open>A forest given by the parents: a parent has a smaller index.\<close>

definition parent_order :: "nat \<Rightarrow> (nat \<Rightarrow> nat option) \<Rightarrow> bool" where
  "parent_order n g \<longleftrightarrow> (\<forall>b < n. \<forall>c. g b = Some c \<longrightarrow> c < b)"

lemma parent_le: "anc g a b \<Longrightarrow> parent_order n g \<Longrightarrow> b < n \<Longrightarrow> a \<le> b"
proof (induction rule: anc.induct)
  case (anc_step b c a)
  then have "c < b" by (auto simp: parent_order_def)
  then show ?case using anc_step by simp
qed simp

lemma anc_antisym: "anc g a b \<Longrightarrow> anc g b a \<Longrightarrow> parent_order n g \<Longrightarrow> a < n \<Longrightarrow> b < n \<Longrightarrow> a = b"
  using parent_le by (meson le_antisym)

lemma anc_linear: "anc g a c \<Longrightarrow> anc g b c \<Longrightarrow> anc g a b \<or> anc g b a"
proof (induction rule: anc.induct)
  case (anc_step c d a)
  from anc_step.prems show ?case
  proof (cases rule: anc.cases)
    case anc_refl
    then show ?thesis using anc.anc_step [OF anc_step.hyps] by blast
  qed (use anc_step in auto)
qed blast

definition subtrees :: "nat \<Rightarrow> (nat \<Rightarrow> nat option) \<Rightarrow> nat set \<Rightarrow> nat set" where
  "subtrees n g S = {x. x < n \<and> (\<exists>b \<in> S. anc g b x)}"

lemma finite_subtrees [simp]: "finite (subtrees n g S)"
  by (rule finite_subset [of _ "{..<n}"]) (auto simp: subtrees_def)

lemma subtrees_insert: "subtrees n g (insert b S) = subtrees n g {b} \<union> subtrees n g S"
  by (auto simp: subtrees_def)

lemma subtrees_kids:
  assumes "parent_order n g" and "b < n"
  shows "subtrees n g {b} = insert b (subtrees n g (set (kids g [0..<n] b)))" and "b \<notin> subtrees n g (set (kids g [0..<n] b))"
proof -
  have *: "anc g b x \<longleftrightarrow> x = b \<or> (\<exists>c < n. g c = Some b \<and> anc g c x)" if "x < n" for x
  proof
    assume "anc g b x"
    then show "x = b \<or> (\<exists>c < n. g c = Some b \<and> anc g c x)"
      using that
    proof (induction rule: anc.induct)
      case (anc_step x d b)
      have d: "d < x" using assms(1) anc_step by (auto simp: parent_order_def)
      then consider "d = b" | c where "c < n" "g c = Some b" "anc g c d" using anc_step by auto
      then show ?case
      proof cases
        case 1
        then show ?thesis using anc_step.hyps anc_step.prems anc_refl by blast
      next
        case 2
        then show ?thesis using anc.anc_step [of g x d c] anc_step.hyps by blast
      qed
    qed simp
  next
    assume r: "x = b \<or> (\<exists>c < n. g c = Some b \<and> anc g c x)"
    then consider "x = b" | c where "c < n" "g c = Some b" "anc g c x" by blast
    then show "anc g b x"
    proof cases
      case 2
      then have "anc g b c" using assms(1) by (intro anc.anc_step [of g c b b] anc_refl) (auto simp: parent_order_def)
      then show ?thesis using anc_trans 2(3) by blast
    qed (simp add: anc_refl)
  qed
  then show "subtrees n g {b} = insert b (subtrees n g (set (kids g [0..<n] b)))" using assms(2) by (auto simp: subtrees_def kids_def)
  show "b \<notin> subtrees n g (set (kids g [0..<n] b))"
  proof
    assume "b \<in> subtrees n g (set (kids g [0..<n] b))"
    then obtain c where "c < n" "g c = Some b" "anc g c b" by (auto simp: subtrees_def kids_def)
    then show False using parent_le [OF _ assms(1,2), of c] assms(1) by (fastforce simp: parent_order_def)
  qed
qed

text \<open>No block of the list is above another, so their subtrees are disjoint.\<close>

definition unrelated :: "(nat \<Rightarrow> nat option) \<Rightarrow> nat list \<Rightarrow> bool" where
  "unrelated g blocks \<longleftrightarrow> distinct blocks \<and> (\<forall>a \<in> set blocks. \<forall>b \<in> set blocks. anc g a b \<longrightarrow> a = b)"

lemma unrelated_kids:
  assumes "parent_order n g"
  shows "unrelated g (kids g [0..<n] d)"
proof -
  have "a = b" if ab: "a < n" "b < n" "g a = Some d" "g b = Some d" "anc g a b" for a b
  proof (rule ccontr)
    assume "a \<noteq> b"
    then have "anc g a d" using ab(4,5) by (subst (asm) anc_unfold) auto
    moreover have "d < a" using assms ab(1,3) by (simp add: parent_order_def)
    ultimately show False using parent_le [of g a d n] assms ab(1) by simp
  qed
  then show ?thesis by (auto simp: unrelated_def kids_def)
qed

lemma unrelated_subtrees:
  assumes "unrelated g (b # rest)" and "x \<in> subtrees n g {b}" and "y \<in> subtrees n g (set rest)"
  shows "\<not> anc g x y" and "\<not> anc g y x"
proof -
  obtain c where c: "c \<in> set rest" "anc g c y" and b: "anc g b x" using assms(2,3) by (auto simp: subtrees_def)
  have n: "\<not> anc g b c" "\<not> anc g c b" using assms(1) c(1) by (auto simp: unrelated_def)
  show "\<not> anc g x y"
  proof
    assume "anc g x y"
    then have "anc g b y" using anc_trans b by blast
    then show False using anc_linear [OF c(2)] n by blast
  qed
  show "\<not> anc g y x"
  proof
    assume "anc g y x"
    then have "anc g c x" using anc_trans c(2) by blast
    then show False using anc_linear [OF b] n by blast
  qed
qed

text \<open>The numbers of the blocks in \<open>U\<close> lie in \<open>[i, j)\<close> and their intervals nest as the tree does.\<close>

definition numbered :: "(nat \<Rightarrow> nat option) \<Rightarrow> nat set \<Rightarrow> nat \<Rightarrow> nat \<Rightarrow> nir_block list \<Rightarrow> bool" where
  "numbered g U i j bs \<longleftrightarrow>
     (\<forall>x \<in> U. i \<le> dom_pre_index (bs ! x) \<and> dom_pre_index (bs ! x) < dom_post_index (bs ! x) \<and> dom_post_index (bs ! x) < j) \<and>
     (\<forall>x \<in> U. \<forall>y \<in> U. nir_block_dominates bs x y \<longleftrightarrow> anc g x y)"

lemma numbered_cong:
  assumes "numbered g U i j bs" and "\<And>x. x \<in> U \<Longrightarrow> bs' ! x = bs ! x"
  shows "numbered g U i j bs'"
  using assms by (simp add: numbered_def nir_block_dominates_def)

lemma numbered_append:
  assumes U: "numbered g U i j bs" and V: "numbered g V j k bs" and "i \<le> j" "j \<le> k"
    and no: "\<And>x y. x \<in> U \<Longrightarrow> y \<in> V \<Longrightarrow> \<not> anc g x y \<and> \<not> anc g y x"
  shows "numbered g (U \<union> V) i k bs"
proof -
  have u: "i \<le> dom_pre_index (bs ! x)" "dom_pre_index (bs ! x) < dom_post_index (bs ! x)" "dom_post_index (bs ! x) < j" if "x \<in> U" for x
    using U that by (auto simp: numbered_def)
  have v: "j \<le> dom_pre_index (bs ! x)" "dom_pre_index (bs ! x) < dom_post_index (bs ! x)" "dom_post_index (bs ! x) < k" if "x \<in> V" for x
    using V that by (auto simp: numbered_def)
  have "\<not> nir_block_dominates bs x y \<and> \<not> nir_block_dominates bs y x" if "x \<in> U" "y \<in> V" for x y
    using u [OF that(1)] v [OF that(2)] by (auto simp: nir_block_dominates_def)
  then have "nir_block_dominates bs x y \<longleftrightarrow> anc g x y" if "x \<in> U \<union> V" "y \<in> U \<union> V" for x y
    using that U V no [of x y] no [of y x] by (auto simp: numbered_def)
  moreover have "i \<le> dom_pre_index (bs ! x) \<and> dom_pre_index (bs ! x) < dom_post_index (bs ! x) \<and> dom_post_index (bs ! x) < k" if "x \<in> U \<union> V" for x
    using that u v assms(3,4) by (meson UnE le_trans less_le_trans)
  ultimately show ?thesis by (simp add: numbered_def)
qed

lemma numbered_root:
  assumes U: "numbered g U (i + 1) j bs" and b: "dom_pre_index (bs ! b) = i" "dom_post_index (bs ! b) = j" and "i < j"
    and up: "\<And>x. x \<in> U \<Longrightarrow> anc g b x \<and> \<not> anc g x b"
  shows "numbered g (insert b U) i (j + 1) bs"
proof -
  have u: "i + 1 \<le> dom_pre_index (bs ! x)" "dom_pre_index (bs ! x) < dom_post_index (bs ! x)" "dom_post_index (bs ! x) < j" if "x \<in> U" for x
    using U that by (auto simp: numbered_def)
  have "nir_block_dominates bs b x \<and> \<not> nir_block_dominates bs x b" if "x \<in> U" for x
    using u [OF that] b by (auto simp: nir_block_dominates_def)
  moreover have "nir_block_dominates bs b b" by (simp add: nir_block_dominates_def)
  ultimately have "nir_block_dominates bs x y \<longleftrightarrow> anc g x y" if "x \<in> insert b U" "y \<in> insert b U" for x y
    using that U up by (auto simp: numbered_def anc_refl)
  moreover have "i \<le> dom_pre_index (bs ! x) \<and> dom_pre_index (bs ! x) < dom_post_index (bs ! x) \<and> dom_post_index (bs ! x) < j + 1" if "x \<in> insert b U" for x
    using that u [of x] b assms(4) by fastforce
  ultimately show ?thesis by (simp add: numbered_def)
qed

text \<open>What the numbering leaves alone.\<close>

definition renumbered :: "nat set \<Rightarrow> nir_block list \<Rightarrow> nir_block list \<Rightarrow> bool" where
  "renumbered U bs bs' \<longleftrightarrow> length bs' = length bs \<and>
     (\<forall>x < length bs. (x \<notin> U \<longrightarrow> bs' ! x = bs ! x) \<and>
        (\<exists>p q. bs' ! x = (bs ! x)\<lparr>dom_pre_index := p, dom_post_index := q\<rparr>))"

lemma renumbered_trans: "renumbered U bs bs' \<Longrightarrow> renumbered V bs' bs'' \<Longrightarrow> renumbered (U \<union> V) bs bs''"
  unfolding renumbered_def by fastforce

lemma block_renumber_id: "\<exists>p q. x = x\<lparr>dom_pre_index := p, dom_post_index := q\<rparr>"
  for x :: nir_block
  by (rule exI [of _ "dom_pre_index x"], rule exI [of _ "dom_post_index x"]) simp

lemma renumbered_refl: "renumbered {} bs bs"
  using block_renumber_id by (simp add: renumbered_def)

lemma renumbered_one: "renumbered {b} bs (bs[b := (bs ! b)\<lparr>dom_pre_index := p, dom_post_index := q\<rparr>])"
proof -
  have "\<exists>p' q'. bs[b := (bs ! b)\<lparr>dom_pre_index := p, dom_post_index := q\<rparr>] ! x = (bs ! x)\<lparr>dom_pre_index := p', dom_post_index := q'\<rparr>"
    if "x < length bs" for x
    using that block_renumber_id [of "bs ! x"] by (cases "x = b") auto
  then show ?thesis by (auto simp: renumbered_def)
qed

lemma renumbered_pre: "renumbered {b} bs (bs[b := (bs ! b)\<lparr>dom_pre_index := i\<rparr>])"
proof -
  have "(bs ! b)\<lparr>dom_pre_index := i\<rparr> = (bs ! b)\<lparr>dom_pre_index := i, dom_post_index := dom_post_index (bs ! b)\<rparr>" by simp
  then show ?thesis using renumbered_one by metis
qed

lemma renumbered_post: "renumbered {b} bs (bs[b := (bs ! b)\<lparr>dom_post_index := i\<rparr>])"
proof -
  have "(bs ! b)\<lparr>dom_post_index := i\<rparr> = (bs ! b)\<lparr>dom_pre_index := dom_pre_index (bs ! b), dom_post_index := i\<rparr>" by simp
  then show ?thesis by (simp only: renumbered_one)
qed

lemma renumbered_kids:
  "renumbered U bs bs' \<Longrightarrow> \<forall>d < length bs. take (num_dom_children (bs ! d)) (dom_children (bs ! d)) = ch d \<Longrightarrow>
   \<forall>d < length bs'. take (num_dom_children (bs' ! d)) (dom_children (bs' ! d)) = ch d"
  unfolding renumbered_def by fastforce

text \<open>
  The exact numbers: the intervals of the children of a block follow each other without gaps
  inside the interval of the block.
\<close>

fun consecutive :: "nir_block list \<Rightarrow> nat \<Rightarrow> nat list \<Rightarrow> nat \<Rightarrow> bool" where
  "consecutive bs i [] j \<longleftrightarrow> i = j"
| "consecutive bs i (c # cs) j \<longleftrightarrow> dom_pre_index (bs ! c) = i \<and> consecutive bs (dom_post_index (bs ! c) + 1) cs j"

lemma consecutive_cong: "(\<And>c. c \<in> set cs \<Longrightarrow> bs' ! c = bs ! c) \<Longrightarrow> consecutive bs' i cs j \<longleftrightarrow> consecutive bs i cs j"
  by (induction cs arbitrary: i) auto

definition tree_numbers :: "nat \<Rightarrow> (nat \<Rightarrow> nat option) \<Rightarrow> nat set \<Rightarrow> nir_block list \<Rightarrow> bool" where
  "tree_numbers n g U bs \<longleftrightarrow> (\<forall>x \<in> U. consecutive bs (dom_pre_index (bs ! x) + 1) (kids g [0..<n] x) (dom_post_index (bs ! x)))"

lemma kids_subtrees:
  assumes "parent_order n g" and "x \<in> subtrees n g S" and "c \<in> set (kids g [0..<n] x)"
  shows "c \<in> subtrees n g S"
proof -
  have c: "c < n" "g c = Some x" using assms(3) by (auto simp: kids_def)
  then have "anc g x c" using assms(1) by (intro anc.anc_step [of g c x x] anc_refl) (auto simp: parent_order_def)
  then show ?thesis using assms(2) c(1) anc_trans unfolding subtrees_def by blast
qed

lemma tree_numbers_cong:
  assumes "parent_order n g" and "tree_numbers n g (subtrees n g S) bs" and "\<And>x. x \<in> subtrees n g S \<Longrightarrow> bs' ! x = bs ! x"
  shows "tree_numbers n g (subtrees n g S) bs'"
  unfolding tree_numbers_def
proof
  fix x
  assume x: "x \<in> subtrees n g S"
  have "consecutive bs' i (kids g [0..<n] x) j \<longleftrightarrow> consecutive bs i (kids g [0..<n] x) j" for i j
    using assms(3) kids_subtrees [OF assms(1) x] by (intro consecutive_cong) blast
  then show "consecutive bs' (dom_pre_index (bs' ! x) + 1) (kids g [0..<n] x) (dom_post_index (bs' ! x))"
    using assms(2,3) x by (simp add: tree_numbers_def)
qed

text \<open>The visit of one block: its children, its own numbers, then the blocks that follow.\<close>

lemma numbered_visit:
  assumes U: "numbered g U (i + 1) j bs2"
    and root: "dom_pre_index (bs2[b := (bs2 ! b)\<lparr>dom_post_index := j\<rparr>] ! b) = i" "dom_post_index (bs2[b := (bs2 ! b)\<lparr>dom_post_index := j\<rparr>] ! b) = j"
    and "i < j" and b: "b \<notin> U" and up: "\<And>x. x \<in> U \<Longrightarrow> anc g b x \<and> \<not> anc g x b"
    and ren: "renumbered V (bs2[b := (bs2 ! b)\<lparr>dom_post_index := j\<rparr>]) bs'" and V: "numbered g V (j + 1) k bs'" and "j + 1 \<le> k"
    and dis: "\<And>x y. x \<in> insert b U \<Longrightarrow> y \<in> V \<Longrightarrow> \<not> anc g x y \<and> \<not> anc g y x" and sub: "insert b U \<subseteq> {..<length bs2}"
  shows "numbered g (insert b U \<union> V) i k bs'"
proof -
  have "numbered g U (i + 1) j (bs2[b := (bs2 ! b)\<lparr>dom_post_index := j\<rparr>])"
    by (rule numbered_cong [OF U]) (metis b nth_list_update_neq)
  note numbered_root [OF this root assms(4) up]
  then have "numbered g (insert b U) i (j + 1) bs'"
  proof (rule numbered_cong)
    fix x
    assume x: "x \<in> insert b U"
    then have "x \<notin> V" using dis [OF x] anc_refl by metis
    then show "bs' ! x = bs2[b := (bs2 ! b)\<lparr>dom_post_index := j\<rparr>] ! x" using ren sub x unfolding renumbered_def by auto
  qed
  then show ?thesis using V dis assms(4,9) by (intro numbered_append [of g _ i "j + 1" _ _ k]) auto
qed

lemma calc_dfs_indices_spec:
  assumes par: "parent_order n g"
  shows "length bs = n \<Longrightarrow> \<forall>d < length bs. take (num_dom_children (bs ! d)) (dom_children (bs ! d)) = kids g [0..<n] d \<Longrightarrow>
    set blocks \<subseteq> {..<n} \<Longrightarrow> unrelated g blocks \<Longrightarrow> i + 2 * card (subtrees n g (set blocks)) \<le> 4294967294 \<Longrightarrow>
    \<exists>bs'. calc_dfs_indices blocks i bs = Some (i + 2 * card (subtrees n g (set blocks)), bs') \<and>
      renumbered (subtrees n g (set blocks)) bs bs' \<and>
      numbered g (subtrees n g (set blocks)) i (i + 2 * card (subtrees n g (set blocks))) bs' \<and>
      consecutive bs' i blocks (i + 2 * card (subtrees n g (set blocks))) \<and> tree_numbers n g (subtrees n g (set blocks)) bs'"
proof (induction "card (subtrees n g (set blocks))" arbitrary: blocks i bs rule: less_induct)
  case less
  show ?case
  proof (cases blocks)
    case Nil
    then show ?thesis by (subst calc_dfs_indices.simps) (auto simp: subtrees_def numbered_def tree_numbers_def renumbered_refl)
  next
    case (Cons b rest)
    let ?kids = "kids g [0..<n] b"
    define U where "U = subtrees n g (set ?kids)"
    define V where "V = subtrees n g (set rest)"
    have b: "b < n" using less.prems(3) Cons by simp
    have Ub: "subtrees n g {b} = insert b U" "b \<notin> U" unfolding U_def using subtrees_kids [OF par b] by blast+
    have all: "subtrees n g (set blocks) = insert b U \<union> V" unfolding Cons V_def using subtrees_insert [of n g b "set rest"] Ub(1) by simp
    have dis: "\<not> anc g x y \<and> \<not> anc g y x" if "x \<in> insert b U" "y \<in> V" for x y
      using unrelated_subtrees [OF less.prems(4) [unfolded Cons]] that unfolding V_def Ub(1) [symmetric] by blast
    then have disj: "insert b U \<inter> V = {}" using anc_refl by blast
    have fin: "finite U" "finite V" by (simp_all add: U_def V_def)
    have card: "card (subtrees n g (set blocks)) = 1 + card U + card V"
      unfolding all using card_Un_disjoint [OF _ fin(2) disj] fin(1) Ub(2) by simp
    define bs1 where "bs1 = bs[b := (bs ! b)\<lparr>dom_pre_index := i\<rparr>]"
    have r1: "renumbered {b} bs bs1" unfolding bs1_def by (rule renumbered_pre)
    have k1: "length bs1 = n" "\<forall>d < length bs1. take (num_dom_children (bs1 ! d)) (dom_children (bs1 ! d)) = kids g [0..<n] d"
      using renumbered_kids [OF r1 less.prems(2)] less.prems(1) by (auto simp: bs1_def)
    obtain bs2 where c2: "calc_dfs_indices ?kids (i + 1) bs1 = Some (i + 1 + 2 * card U, bs2)" and r2: "renumbered U bs1 bs2"
        and n2: "numbered g U (i + 1) (i + 1 + 2 * card U) bs2" and e2: "consecutive bs2 (i + 1) ?kids (i + 1 + 2 * card U)" "tree_numbers n g U bs2"
      using less.hyps [of ?kids bs1 "i + 1"] card k1 less.prems(5) unrelated_kids [OF par, of b]
      unfolding U_def [symmetric] by (auto simp: kids_def)
    define j where "j = i + 1 + 2 * card U"
    define bs3 where "bs3 = bs2[b := (bs2 ! b)\<lparr>dom_post_index := j\<rparr>]"
    have r3: "renumbered {b} bs2 bs3" unfolding bs3_def by (rule renumbered_post)
    have r13: "renumbered (insert b U) bs bs3" using renumbered_trans [OF renumbered_trans [OF r1 r2] r3] by (simp add: insert_absorb)
    have l2: "length bs2 = n" using r2 k1(1) by (simp add: renumbered_def)
    have k3: "length bs3 = n" "\<forall>d < length bs3. take (num_dom_children (bs3 ! d)) (dom_children (bs3 ! d)) = kids g [0..<n] d"
      using renumbered_kids [OF r13 less.prems(2)] l2 by (auto simp: bs3_def)
    have ur: "unrelated g rest" "set rest \<subseteq> {..<n}" using less.prems(3,4) Cons by (auto simp: unrelated_def)
    obtain bs' where c4: "calc_dfs_indices rest (j + 1) bs3 = Some (j + 1 + 2 * card V, bs')" and r4: "renumbered V bs3 bs'"
        and n4: "numbered g V (j + 1) (j + 1 + 2 * card V) bs'" and e4: "consecutive bs' (j + 1) rest (j + 1 + 2 * card V)" "tree_numbers n g V bs'"
      using less.hyps [of rest bs3 "j + 1"] card k3 ur less.prems(5) unfolding V_def [symmetric] j_def by auto
    have "bs2 ! b = bs1 ! b" using r2 Ub(2) b k1(1) by (simp add: renumbered_def)
    then have root: "dom_pre_index (bs3 ! b) = i" "dom_post_index (bs3 ! b) = j"
      using b l2 less.prems(1) by (simp_all add: bs3_def bs1_def)
    have sub: "insert b U \<subseteq> {..<length bs3}" using b k3(1) by (auto simp: U_def subtrees_def)
    have same: "bs' ! x = bs3 ! x" if "x \<in> insert b U" for x using r4 that disj sub unfolding renumbered_def by blast
    have same2: "bs' ! x = bs2 ! x" if "x \<in> U" for x using same [of x] that Ub(2) unfolding bs3_def by (metis insertCI nth_list_update_neq)
    have "c \<in> U" if "c \<in> set ?kids" for c using that by (auto simp: U_def subtrees_def kids_def intro: anc_refl)
    then have "consecutive bs' (i + 1) ?kids j" using consecutive_cong [of ?kids bs' bs2] same2 e2(1) unfolding j_def by blast
    moreover have "tree_numbers n g U bs'" using tree_numbers_cong [OF par, of "set ?kids" bs2 bs'] same2 e2(2) unfolding U_def by blast
    ultimately have ex: "tree_numbers n g (insert b U \<union> V) bs' \<and> consecutive bs' i blocks (j + 1 + 2 * card V)"
      using e4 same [of b] root unfolding Cons tree_numbers_def by auto
    have "anc g b x \<and> \<not> anc g x b" if "x \<in> U" for x
      using that Ub b anc_antisym [OF _ _ par, of b x] unfolding subtrees_def by blast
    then have "numbered g (insert b U \<union> V) i (j + 1 + 2 * card V) bs'"
      using numbered_visit [OF n2 [folded j_def] root [unfolded bs3_def] _ Ub(2) _ r4 [unfolded bs3_def] n4] dis sub by (simp add: bs3_def j_def)
    moreover have "renumbered (insert b U \<union> V) bs bs'" by (rule renumbered_trans [OF r13 r4])
    moreover have "calc_dfs_indices blocks i bs = Some (j + 1 + 2 * card V, bs')"
    proof -
      have "i < 4294967293" using less.prems(5) card by simp
      moreover have "take (num_dom_children (bs1 ! b)) (dom_children (bs1 ! b)) = ?kids" using k1 b by simp
      ultimately show ?thesis unfolding Cons
        using c2 [folded j_def] c4 by (subst calc_dfs_indices.simps) (simp flip: bs1_def j_def bs3_def)
    qed
    moreover have "j + 1 + 2 * card V = i + 2 * card (subtrees n g (set blocks))" unfolding card j_def by simp
    ultimately show ?thesis using ex unfolding all by simp
  qed
qed

section \<open>The whole analysis\<close>

lemma anc_without_start:
  assumes "f 0 = Some 0"
  shows "anc (f(0 := None)) a b \<longleftrightarrow> anc f a b"
proof
  show "anc f a b" if "anc (f(0 := None)) a b"
    using that by (induction rule: anc.induct) (auto intro: anc.intros split: if_splits)
  show "anc (f(0 := None)) a b" if "anc f a b"
    using that
  proof (induction rule: anc.induct)
    case (anc_step b c a)
    have "b \<noteq> 0" using anc_step.hyps assms by (cases "b = 0") auto
    then show ?case using anc_step by (intro anc.anc_step [of _ b c]) auto
  qed (rule anc_refl)
qed

text \<open>The dominance fields after the analysis.\<close>

definition dfs_numbers :: "cfg \<Rightarrow> nir_block list \<Rightarrow> bool" where
  "dfs_numbers G bs \<longleftrightarrow> dom_pre_index (bs ! 0) = 1 \<and>
     (\<forall>b < length G. if reachable G b
        then dom_pre_index (bs ! b) < dom_post_index (bs ! b) \<and> dom_post_index (bs ! b) \<le> 2 * length G \<and>
          consecutive bs (dom_pre_index (bs ! b) + 1) (dom_children (bs ! b)) (dom_post_index (bs ! b))
        else dom_post_index (bs ! b) = 0)"

definition dominance_info :: "cfg \<Rightarrow> nir_block list \<Rightarrow> bool" where
  "dominance_info G bs \<longleftrightarrow> length bs = length G \<and>
     (\<forall>b < length G. \<forall>c. imm_dom (bs ! b) = Some c \<longleftrightarrow> immediate_dominator G c b) \<and>
     (\<forall>b < length G. dom_frontier (bs ! b) = {c. c < length G \<and> in_frontier G b c}) \<and>
     (\<forall>b < length G. dom_children (bs ! b) = filter (immediate_dominator G b) [0..<length G] \<and>
        num_dom_children (bs ! b) = length (dom_children (bs ! b))) \<and>
     (\<forall>a < length G. \<forall>b < length G. nir_block_dominates bs a b \<longleftrightarrow> dominates G a b) \<and>
     (\<forall>b < length G. nir_block_is_unreachable bs b \<longleftrightarrow> \<not> reachable G b) \<and> dfs_numbers G bs"

lemma fixpoint_blocks:
  assumes wf: "wf_cfg G" "block_order G"
  shows "\<exists>bs1. dominance_loop G (map (\<lambda>b. init_block b (bs ! b)) [0..<length G]) = Some bs1 \<and> length bs1 = length G \<and>
    idoms_final G (idom_of bs1) \<and> (\<forall>b < length G. num_dom_children (bs1 ! b) = 0 \<and> dom_pre_index (bs1 ! b) = 4294967295 \<and>
      dom_post_index (bs1 ! b) = 0 \<and> dom_frontier (bs1 ! b) = {})"
proof -
  define bs0 where "bs0 = map (\<lambda>b. init_block b (bs ! b)) [0..<length G]"
  have l: "length bs0 = length G" by (simp add: bs0_def)
  obtain bs1 where bs1: "dominance_loop G bs0 = Some bs1" "same_but_idom bs0 bs1" "idoms_final G (idom_of bs1)"
    using dominance_loop_spec [OF wf l _ dom_state_init [OF wf(1) bs0_def]] by auto
  have l1: "length bs1 = length G" using same_but_idom_length [OF bs1(2)] l by simp
  have "num_dom_children (bs1 ! b) = 0 \<and> dom_pre_index (bs1 ! b) = 4294967295 \<and>
      dom_post_index (bs1 ! b) = 0 \<and> dom_frontier (bs1 ! b) = {}" if "b < length G" for b
  proof -
    have "bs0 ! b = init_block b (bs ! b)" using that unfolding bs0_def by simp
    moreover have "(bs0 ! b)\<lparr>imm_dom := None\<rparr> = (bs1 ! b)\<lparr>imm_dom := None\<rparr>"
      using bs1(2) that l l1 unfolding same_but_idom_def by (metis nth_map)
    ultimately show ?thesis by (cases "bs1 ! b"; cases "bs ! b") (simp add: init_block_def)
  qed
  then show ?thesis using bs1 l1 unfolding bs0_def by blast
qed

lemma tree_is_dominance:
  assumes wf: "wf_cfg G" "block_order G" and fin: "idoms_final G f" and b: "b < length G"
  shows "parent_order (length G) (f(0 := None))" and "(f(0 := None)) b = Some c \<longleftrightarrow> immediate_dominator G c b"
    and "b \<in> subtrees (length G) (f(0 := None)) {0} \<longleftrightarrow> reachable G b"
    and "reachable G b \<Longrightarrow> anc (f(0 := None)) a b \<longleftrightarrow> dominates G a b"
proof -
  have inv: "idom_inv G f" and f0: "f 0 = Some 0" using fin by (auto simp: idoms_final_def idom_inv_def)
  show "parent_order (length G) (f(0 := None))" using idom_invD(1) [OF inv] by (simp add: parent_order_def)
  show "(f(0 := None)) b = Some c \<longleftrightarrow> immediate_dominator G c b"
    using final_idom [OF wf fin b] immediate_dominator_start by (cases "b = 0") auto
  show a: "anc (f(0 := None)) a b \<longleftrightarrow> dominates G a b" if "reachable G b" for a
    using fin b that by (simp add: anc_without_start [of f, OF f0] idoms_final_def)
  have "anc (f(0 := None)) 0 b \<Longrightarrow> reachable G b"
  proof -
    assume "anc (f(0 := None)) 0 b"
    then have "b = 0 \<or> f b \<noteq> None" by (subst (asm) anc_unfold) (auto split: if_splits)
    then show "reachable G b" using reachable_start processed_reachable [OF inv b] by blast
  qed
  then show "b \<in> subtrees (length G) (f(0 := None)) {0} \<longleftrightarrow> reachable G b"
    using a [of 0] start_dominates b by (auto simp: subtrees_def)
qed

text \<open>The numbers of the whole graph decide dominance, for unreachable blocks too.\<close>

lemma numbered_dominates:
  assumes wf: "wf_cfg G" "block_order G" and fin: "idoms_final G f"
    and num: "numbered (f(0 := None)) (subtrees (length G) (f(0 := None)) {0}) 1 j bs" and "j \<le> 4294967294"
    and un: "\<And>x. x < length G \<Longrightarrow> x \<notin> subtrees (length G) (f(0 := None)) {0} \<Longrightarrow> dom_pre_index (bs ! x) = 4294967295 \<and> dom_post_index (bs ! x) = 0"
    and ab: "a < length G" "b < length G"
  shows "nir_block_dominates bs a b \<longleftrightarrow> dominates G a b"
proof -
  note t = tree_is_dominance [OF wf fin]
  have bound: "dom_pre_index (bs ! x) < 4294967295" if "x < length G" "reachable G x" for x
    using num t(3) [OF that(1)] that assms(5) unfolding numbered_def by fastforce
  have max: "dom_pre_index (bs ! x) \<le> 4294967295" if "x < length G" for x
    using bound [OF that] un [OF that] t(3) [OF that] by fastforce
  show ?thesis
  proof (cases "reachable G b")
    case False
    then show ?thesis using un [OF ab(2)] t(3) [OF ab(2)] max [OF ab(1)] unreachable_dominated [OF False] by (simp add: nir_block_dominates_def)
  next
    case b: True
    show ?thesis
    proof (cases "reachable G a")
      case True
      then show ?thesis using num t(3) [OF ab(1)] t(3) [OF ab(2)] t(4) [OF ab(2)] b by (simp add: numbered_def)
    next
      case False
      then have "\<not> dominates G a b" using dominates_reachable b by blast
      moreover have "dom_pre_index (bs ! a) = 4294967295" using un [OF ab(1)] t(3) [OF ab(1)] False by simp
      ultimately show ?thesis using bound [OF ab(2) b] by (simp add: nir_block_dominates_def)
    qed
  qed
qed

text \<open>The blocks before the tree is built.\<close>

definition tree_input :: "cfg \<Rightarrow> (nat \<Rightarrow> nat option) \<Rightarrow> nir_block list \<Rightarrow> bool" where
  "tree_input G g bs \<longleftrightarrow> length bs = length G \<and>
     (\<forall>b < length G. imm_dom (bs ! b) = g b \<and> num_dom_children (bs ! b) = 0 \<and> dom_pre_index (bs ! b) = 4294967295 \<and>
        dom_post_index (bs ! b) = 0 \<and> dom_frontier (bs ! b) = {c. c < length G \<and> in_frontier G b c})"

lemma tree_input_reached:
  assumes wf: "wf_cfg G" "block_order G"
  shows "\<exists>bs1 bs2 f. dominance_loop G (map (\<lambda>b. init_block b (bs ! b)) [0..<length G]) = Some bs1 \<and>
    frontier_pass G [0..<length G] bs1 = Some bs2 \<and> idoms_final G f \<and> tree_input G (f(0 := None)) (bs2[0 := (bs2 ! 0)\<lparr>imm_dom := None\<rparr>])"
proof -
  obtain bs1 where b1: "dominance_loop G (map (\<lambda>b. init_block b (bs ! b)) [0..<length G]) = Some bs1" "length bs1 = length G"
      and fin: "idoms_final G (idom_of bs1)" and f1: "\<forall>b < length G. num_dom_children (bs1 ! b) = 0 \<and> dom_pre_index (bs1 ! b) = 4294967295 \<and>
      dom_post_index (bs1 ! b) = 0 \<and> dom_frontier (bs1 ! b) = {}" using fixpoint_blocks [OF wf] by blast
  obtain bs2 where b2: "frontier_pass G [0..<length G] bs1 = Some bs2" and g2: "grown (\<lambda>x. {c \<in> set [0..<length G]. in_frontier G x c}) bs1 bs2"
    using frontier_pass_spec [OF wf fin b1(2), of "[0..<length G]"] by (auto simp: idom_of_def)
  have l2: "length bs2 = length G" and e2: "\<And>b. b < length G \<Longrightarrow> bs2 ! b = (bs1 ! b)\<lparr>dom_frontier := {c. c < length G \<and> in_frontier G b c}\<rparr>"
    using g2 b1(2) f1 by (auto simp: grown_def)
  have "imm_dom (bs3 ! b) = ((idom_of bs1)(0 := None)) b \<and> num_dom_children (bs3 ! b) = 0 \<and> dom_pre_index (bs3 ! b) = 4294967295 \<and>
        dom_post_index (bs3 ! b) = 0 \<and> dom_frontier (bs3 ! b) = {c. c < length G \<and> in_frontier G b c}"
    if "b < length G" and "bs3 = bs2[0 := (bs2 ! 0)\<lparr>imm_dom := None\<rparr>]" for b bs3
    using that l2 e2 [OF that(1)] f1 by (cases "b = 0") (auto simp: idom_of_def)
  then show ?thesis using b1 b2 fin l2 unfolding tree_input_def by fastforce
qed

lemma tree_stage:
  assumes wf: "wf_cfg G" "block_order G" and n: "length G < 2147483647" and fin: "idoms_final G f" and bs: "tree_input G (f(0 := None)) bs"
  shows "\<exists>bs1 bs' j. calc_dom_children junk bs = Some bs1 \<and> calc_dfs_indices [0] 1 bs1 = Some (j, bs') \<and> dominance_info G bs'"
proof -
  define g where "g = f(0 := None)"
  have l: "length bs = length G" and f3: "\<And>b. b < length G \<Longrightarrow> imm_dom (bs ! b) = g b \<and> num_dom_children (bs ! b) = 0 \<and>
      dom_pre_index (bs ! b) = 4294967295 \<and> dom_post_index (bs ! b) = 0 \<and> dom_frontier (bs ! b) = {c. c < length G \<and> in_frontier G b c}"
    using bs by (auto simp: tree_input_def g_def)
  have t: "parent_order (length G) g" "b < length G \<Longrightarrow> g b = Some c \<longleftrightarrow> immediate_dominator G c b" for b c
    using tree_is_dominance(1) [OF wf fin, of 0] tree_is_dominance(2) [OF wf fin] wf(1) by (auto simp: g_def wf_cfg_def)
  have k: "kids g [0..<length G] b = filter (immediate_dominator G b) [0..<length G]" for b
    unfolding kids_def using t(2) by (intro filter_cong) auto
  have "\<forall>b < length bs. \<forall>d. g b = Some d \<longrightarrow> d < length bs" using t(1) l by (fastforce simp: parent_order_def)
  then obtain bs1 where b1: "calc_dom_children junk bs = Some bs1" and w: "with_children (kids g [0..<length G]) (\<lambda>d. length (kids g [0..<length G] d)) bs bs1"
    using calc_dom_children_spec [of bs g junk] f3 l by auto
  have l1: "length bs1 = length G" using w l by (simp add: with_children_def)
  define U where "U = subtrees (length G) g {0}"
  have U: "card U \<le> length G" using card_mono [of "{..<length G}" U] by (auto simp: U_def subtrees_def)
  have "\<forall>d < length bs1. take (num_dom_children (bs1 ! d)) (dom_children (bs1 ! d)) = kids g [0..<length G] d"
    using w l by (simp add: with_children_def)
  then obtain bs' where b2: "calc_dfs_indices [0] 1 bs1 = Some (1 + 2 * card U, bs')" and r: "renumbered U bs1 bs'" and num: "numbered g U 1 (1 + 2 * card U) bs'"
      and ex: "consecutive bs' 1 [0] (1 + 2 * card U)" "tree_numbers (length G) g U bs'"
    using calc_dfs_indices_spec [OF t(1) l1, of "[0]" 1] U n wf(1) unfolding U_def by (auto simp: unrelated_def wf_cfg_def)
  have f5: "imm_dom (bs' ! b) = g b \<and> dom_frontier (bs' ! b) = {c. c < length G \<and> in_frontier G b c} \<and>
      dom_children (bs' ! b) = kids g [0..<length G] b \<and> num_dom_children (bs' ! b) = length (kids g [0..<length G] b) \<and>
      (b \<notin> U \<longrightarrow> dom_pre_index (bs' ! b) = 4294967295 \<and> dom_post_index (bs' ! b) = 0)" if b: "b < length G" for b
  proof -
    obtain p q where e: "bs' ! b = (bs1 ! b)\<lparr>dom_pre_index := p, dom_post_index := q\<rparr>" "b \<notin> U \<Longrightarrow> bs' ! b = bs1 ! b"
      using r b l1 unfolding renumbered_def by metis
    have "bs1 ! b = (bs ! b)\<lparr>dom_children := kids g [0..<length G] b, num_dom_children := length (kids g [0..<length G] b)\<rparr>"
      using w b l by (simp add: with_children_def)
    then show ?thesis using e f3 [OF b] by auto
  qed
  have "nir_block_dominates bs' a b \<longleftrightarrow> dominates G a b" if "a < length G" "b < length G" for a b
    using numbered_dominates [OF wf fin, folded g_def, folded U_def, OF num] f5 U n that by simp
  moreover have "nir_block_is_unreachable bs' b \<longleftrightarrow> \<not> reachable G b" if "b < length G" for b
    using fin that f5 [OF that] reachable_start by (auto simp: nir_block_is_unreachable_def idoms_final_def g_def)
  moreover have "dfs_numbers G bs'"
  proof -
    have "b \<in> U \<longleftrightarrow> reachable G b" if "b < length G" for b using tree_is_dominance(3) [OF wf fin that] by (simp add: U_def g_def)
    then show ?thesis using num ex f5 U unfolding dfs_numbers_def numbered_def tree_numbers_def by fastforce
  qed
  moreover have "length bs' = length G" using r l1 by (simp add: renumbered_def)
  ultimately have "dominance_info G bs'" using f5 t(2) k by (simp add: dominance_info_def)
  then show ?thesis using b1 b2 by blast
qed

lemma nir_calc_dominance_impl_spec:
  assumes wf: "wf_cfg G" "block_order G" and n: "length G < 2147483647"
  shows "\<exists>bs'. nir_calc_dominance_impl G junk False bs = Some bs' \<and> dominance_info G bs'"
proof -
  obtain bs1 bs2 f where b: "dominance_loop G (map (\<lambda>b. init_block b (bs ! b)) [0..<length G]) = Some bs1" "frontier_pass G [0..<length G] bs1 = Some bs2"
      and f: "idoms_final G f" "tree_input G (f(0 := None)) (bs2[0 := (bs2 ! 0)\<lparr>imm_dom := None\<rparr>])"
    using tree_input_reached [OF wf] by blast
  obtain bs3 bs' j where t: "calc_dom_children junk (bs2[0 := (bs2 ! 0)\<lparr>imm_dom := None\<rparr>]) = Some bs3"
      "calc_dfs_indices [0] 1 bs3 = Some (j, bs')" "dominance_info G bs'"
    using tree_stage [OF wf n f] by blast
  then have "nir_calc_dominance_impl G junk False bs = Some bs'" using b by (simp add: nir_calc_dominance_impl_def Let_def)
  then show ?thesis using t(3) by blast
qed

section \<open>Properties\<close>

text \<open>
  Property C29.  The dominance analysis ends, without a failed assertion or a null pointer, and
  then \<open>nir_block_dominates\<close> holds of two blocks exactly when every path from the start block to
  the second passes through the first; for unreachable blocks, which every block dominates and
  which dominate only unreachable blocks, the same comparison of indices decides it, and
  \<open>nir_block_is_unreachable\<close> recognises them.
\<close>

theorem nir_block_dominates_correct:
  assumes "wf_cfg G" and "block_order G" and "length G < 2147483647"
  shows "\<exists>bs'. nir_calc_dominance_impl G junk False bs = Some bs' \<and>
    (\<forall>a < length G. \<forall>b < length G. nir_block_dominates bs' a b \<longleftrightarrow> dominates G a b) \<and>
    (\<forall>b < length G. nir_block_is_unreachable bs' b \<longleftrightarrow> \<not> reachable G b)"
  using nir_calc_dominance_impl_spec [OF assms, of junk bs] by (auto simp: dominance_info_def)

text \<open>A loop with a conditional in its body, followed by an unreachable block.\<close>

definition loop_cfg :: cfg where
  "loop_cfg = [[], [0, 3], [1], [1, 2], [3], []]"

lemma loop_cfg_wf: "wf_cfg loop_cfg" "length loop_cfg = 6"
  by (simp_all add: wf_cfg_def loop_cfg_def)

lemma loop_cfg_order: "block_order loop_cfg"
proof -
  let ?G = loop_cfg
  have e: "reachable ?G p \<Longrightarrow> b < 6 \<Longrightarrow> p \<in> set (?G ! b) \<Longrightarrow> reachable ?G b" for p b
    using reachable_edge [of ?G p b] loop_cfg_wf(2) by simp
  have r1: "reachable ?G 1" using e [OF reachable_start, of 1] by (simp add: loop_cfg_def)
  have r3: "reachable ?G 3" using e [OF r1, of 3] by (simp add: loop_cfg_def)
  have u5: "\<not> reachable ?G 5" using reachable_pred [of ?G 5] by (auto simp: loop_cfg_def)
  have "\<exists>p \<in> set (?G ! b). p < b \<and> reachable ?G p" if b: "b < 6" "b \<noteq> 0" "reachable ?G b" for b
  proof -
    have "b \<in> {1, 2, 3, 4}" using b u5 by (auto simp: less_Suc_eq numeral_eq_Suc)
    then show ?thesis using reachable_start [of ?G] r1 r3 by (auto simp: loop_cfg_def)
  qed
  then show ?thesis using loop_cfg_wf(2) by (simp add: block_order_def)
qed

theorem nir_block_dominates_correct_witness:
  "\<exists>bs'. nir_calc_dominance_impl loop_cfg 0 False [] = Some bs' \<and>
    (\<forall>a < 6. \<forall>b < 6. nir_block_dominates bs' a b \<longleftrightarrow> dominates loop_cfg a b) \<and>
    (\<forall>b < 6. nir_block_is_unreachable bs' b \<longleftrightarrow> \<not> reachable loop_cfg b)"
  using nir_block_dominates_correct [OF loop_cfg_wf(1) loop_cfg_order, of 0 "[]"] by (simp add: loop_cfg_wf(2))

text \<open>
  Property C30.  The dominator tree that the analysis leaves in the blocks: \<open>imm_dom\<close> is the
  immediate dominator, the strict dominator that all others dominate, and null for the start
  block and the unreachable ones; \<open>dom_children\<close> holds the blocks with that immediate dominator in
  the order of their indices; and \<open>dom_frontier\<close> is the dominance frontier.
\<close>

theorem nir_dominator_tree_correct:
  assumes "wf_cfg G" and "block_order G" and "length G < 2147483647"
  shows "\<exists>bs'. nir_calc_dominance_impl G junk False bs = Some bs' \<and> length bs' = length G \<and>
    (\<forall>b < length G. (\<forall>c. imm_dom (bs' ! b) = Some c \<longleftrightarrow> immediate_dominator G c b) \<and>
       dom_children (bs' ! b) = filter (immediate_dominator G b) [0..<length G] \<and>
       num_dom_children (bs' ! b) = length (dom_children (bs' ! b)) \<and>
       dom_frontier (bs' ! b) = {c. c < length G \<and> in_frontier G b c})"
  using nir_calc_dominance_impl_spec [OF assms, of junk bs] by (auto simp: dominance_info_def)

theorem nir_dominator_tree_correct_witness:
  "\<exists>bs'. nir_calc_dominance_impl loop_cfg 0 False [] = Some bs' \<and> length bs' = 6 \<and>
    (\<forall>b < 6. (\<forall>c. imm_dom (bs' ! b) = Some c \<longleftrightarrow> immediate_dominator loop_cfg c b) \<and>
       dom_children (bs' ! b) = filter (immediate_dominator loop_cfg b) [0..<6] \<and>
       num_dom_children (bs' ! b) = length (dom_children (bs' ! b)) \<and>
       dom_frontier (bs' ! b) = {c. c < 6 \<and> in_frontier loop_cfg b c})"
  using nir_dominator_tree_correct [OF loop_cfg_wf(1) loop_cfg_order, of 0 "[]"] by (simp add: loop_cfg_wf(2))

end
