(* ===== verification/Rmq.thy ===== *)
theory Rmq
  imports Fast_Idiv
begin

text \<open>
  Range minimum queries by a sparse table: \<open>src/src/util/range_minimum_query.c\<close>.  The table is one
  array of \<open>width * height\<close> values; resizing asserts that this product fits 32 bits, so index
  arithmetic is exact and widths and indices are \<open>nat\<close>.  \<open>None\<close> is a failed assertion or an
  access out of bounds.
\<close>

section \<open>The code\<close>

definition log_step32 :: "nat \<Rightarrow> u32 \<times> nat \<Rightarrow> u32 \<times> nat" where
  "log_step32 k = (\<lambda>(n, pos). if push_bit k 1 \<le> n then (drop_bit k n, pos + k) else (n, pos))"

definition util_logbase2 :: "u32 \<Rightarrow> nat" where
  "util_logbase2 n = snd (fold log_step32 [16, 8, 4, 2, 1] (n, 0))"

record range_minimum_query_table =
  rmq_table :: "u32 list"
  rmq_width :: nat
  rmq_height :: nat

text \<open>The memory beyond the old contents is whatever the allocator returns.\<close>

definition range_minimum_query_table_resize ::
  "u32 list \<Rightarrow> nat \<Rightarrow> range_minimum_query_table \<Rightarrow> range_minimum_query_table option" where
  "range_minimum_query_table_resize fresh width t = do {
     let height = util_logbase2_64 (of_nat width) + 1;
     let size = width * height;
     c_assert (size < 4294967295);
     Some \<lparr>rmq_table = take size (rmq_table t @ fresh), rmq_width = width, rmq_height = height\<rparr>
   }"

text \<open>
  \<open>out\<close>, \<open>a\<close> and \<open>b\<close> are positions in the same array; \<open>restrict\<close> promises that \<open>out\<close> does not
  overlap the others.
\<close>

function elementwise_minimum :: "u32 list \<Rightarrow> nat \<Rightarrow> nat \<Rightarrow> nat \<Rightarrow> nat \<Rightarrow> nat \<Rightarrow> u32 list option" where
  "elementwise_minimum mem out a b count i =
     (if i < count
      then do {
        c_assert (a + i < length mem \<and> b + i < length mem \<and> out + i < length mem);
        elementwise_minimum (mem[out + i := min (mem ! (a + i)) (mem ! (b + i))]) out a b count (i + 1)
      }
      else Some mem)"
  by pat_completeness auto
termination
  by (relation "measure (\<lambda>(m, out, a, b, count, i). count - i)") auto

declare elementwise_minimum.simps [simp del]

definition rmq_distance :: "nat \<Rightarrow> nat" where
  "rmq_distance level = 2 ^ level"

function preprocess_from :: "nat \<Rightarrow> nat \<Rightarrow> nat \<Rightarrow> u32 list \<Rightarrow> u32 list option" where
  "preprocess_from width height i mem =
     (if i < height
      then do {
        let in_distance = rmq_distance (i - 1);
        let out_distance = rmq_distance i;
        let in_row = width * (i - 1);
        let out_row = width * i;
        mem \<leftarrow> elementwise_minimum mem out_row in_row (in_row + in_distance) (width - out_distance + 1) 0;
        preprocess_from width height (i + 1) mem
      }
      else Some mem)"
  by pat_completeness auto
termination
  by (relation "measure (\<lambda>(w, h, i, m). h - i)") auto

declare preprocess_from.simps [simp del]

definition range_minimum_query_table_preprocess :: "range_minimum_query_table \<Rightarrow> range_minimum_query_table option" where
  "range_minimum_query_table_preprocess t = do {
     mem \<leftarrow> preprocess_from (rmq_width t) (rmq_height t) 1 (rmq_table t);
     Some (t\<lparr>rmq_table := mem\<rparr>)
   }"

definition range_minimum_query :: "range_minimum_query_table \<Rightarrow> nat \<Rightarrow> nat \<Rightarrow> u32 option" where
  "range_minimum_query t left_idx right_idx = do {
     c_assert (left_idx < right_idx);
     c_assert (right_idx \<le> rmq_width t);
     let distance = right_idx - left_idx;
     let level = util_logbase2 (of_nat distance);
     c_assert (rmq_distance level \<le> distance);
     c_assert (distance < 2 * rmq_distance level);
     c_assert (level < rmq_height t);
     let row = rmq_width t * level;
     c_assert (row + left_idx < length (rmq_table t) \<and> row + (right_idx - rmq_distance level) < length (rmq_table t));
     let left = rmq_table t ! (row + left_idx);
     let right = rmq_table t ! (row + (right_idx - rmq_distance level));
     Some (min left right)
   }"

section \<open>Logarithms\<close>

text \<open>After the step for \<open>k\<close> the rest of the number is below \<open>2 ^ k\<close> and \<open>pos\<close> bits are gone.\<close>

definition nlog_step :: "nat \<Rightarrow> nat \<times> nat \<Rightarrow> nat \<times> nat" where
  "nlog_step k = (\<lambda>(n, pos). if 2 ^ k \<le> n then (n div 2 ^ k, pos + k) else (n, pos))"

lemma nlog_step_inv:
  assumes "fst s = n0 div 2 ^ snd s" and "fst s < 2 ^ (2 * k)" and "0 < fst s"
  shows "fst (nlog_step k s) = n0 div 2 ^ snd (nlog_step k s)" and "fst (nlog_step k s) < 2 ^ k" and "0 < fst (nlog_step k s)"
proof -
  obtain n pos where s: "s = (n, pos)" by fastforce
  have "n div 2 ^ k < 2 ^ k" using assms(2) s by (intro less_mult_imp_div_less) (simp add: mult_2 power_add)
  then show "fst (nlog_step k s) < 2 ^ k" unfolding s nlog_step_def by auto
  show "fst (nlog_step k s) = n0 div 2 ^ snd (nlog_step k s)"
    using assms(1) unfolding s nlog_step_def by (simp add: power_add div_mult2_eq)
  have "2 ^ k \<le> n \<Longrightarrow> 0 < n div 2 ^ k" by (simp add: div_greater_zero_iff)
  then show "0 < fst (nlog_step k s)" using assms(3) unfolding s nlog_step_def by auto
qed

lemma log2_bounds:
  fixes n pos :: nat
  assumes "m = n div 2 ^ pos" and "m < 2" and "0 < m"
  shows "2 ^ pos \<le> n" and "n < 2 * 2 ^ pos"
proof -
  have m: "n div 2 ^ pos = 1" using assms by linarith
  show "2 ^ pos \<le> n" using m div_greater_zero_iff [of n "2 ^ pos"] by simp
  show "n < 2 * 2 ^ pos" using m dividend_less_div_times [of "2 ^ pos" n] by simp
qed

text \<open>The sequence of steps ends with one, and each step is half of the one before.\<close>

fun halving :: "nat list \<Rightarrow> bool" where
  "halving [] = False"
| "halving [k] = (k = 1)"
| "halving (k # l # ks) = (k = 2 * l \<and> halving (l # ks))"

lemma nlog_fold:
  assumes "halving ks" and "fst s = n0 div 2 ^ snd s" and "0 < fst s" and "fst s < 2 ^ (2 * hd ks)"
  shows "2 ^ snd (fold nlog_step ks s) \<le> n0 \<and> n0 < 2 * 2 ^ snd (fold nlog_step ks s)"
  using assms
proof (induction ks arbitrary: s rule: halving.induct)
  case (2 k)
  let ?s = "nlog_step 1 s"
  have "fst ?s = n0 div 2 ^ snd ?s" "fst ?s < 2" "0 < fst ?s"
    using nlog_step_inv [of s n0 1] 2 by simp_all
  then show ?case using log2_bounds [of "fst ?s" n0 "snd ?s"] 2 by simp
next
  case (3 k l ks)
  let ?s = "nlog_step k s"
  have "fst ?s = n0 div 2 ^ snd ?s" "fst ?s < 2 ^ k" "0 < fst ?s"
    using nlog_step_inv [of s n0 k] "3.prems" by simp_all
  then show ?case using "3.IH" [of ?s] "3.prems"(1) by simp
qed simp

lemma fold_simulates:
  assumes "\<And>k s. k \<in> set ks \<Longrightarrow> h (f k s) = g k (h s)"
  shows "h (fold f ks s) = fold g ks (h s)"
  using assms by (induction ks arbitrary: s) auto

lemma log_step_abs: "k < 64 \<Longrightarrow> map_prod unat id (log_step k s) = nlog_step k (map_prod unat id s)"
  using unat_push_bit_one [of k]
  by (cases s) (auto simp: log_step_def nlog_step_def word_le_nat_alt unat_drop_bit)

lemma log_step32_abs: "k < 32 \<Longrightarrow> map_prod unat id (log_step32 k s) = nlog_step k (map_prod unat id s)"
proof -
  assume "k < 32"
  then have "unat (push_bit k 1 :: u32) = 2 ^ k"
    using unsigned_of_nat [where 'a = nat and 'b = 32 and n = "2 ^ k"] by (simp add: push_bit_eq_mult take_bit_nat_eq_self)
  then show ?thesis by (cases s) (auto simp: log_step32_def nlog_step_def word_le_nat_alt unat_drop_bit)
qed

lemma util_logbase2_64_bounds:
  assumes "0 < n"
  shows "2 ^ util_logbase2_64 n \<le> unat n" and "unat n < 2 * 2 ^ util_logbase2_64 n"
proof -
  have e: "util_logbase2_64 n = snd (fold nlog_step [32, 16, 8, 4, 2, 1] (unat n, 0))"
  proof -
    have "map_prod unat id (fold log_step [32, 16, 8, 4, 2, 1] (n, 0)) = fold nlog_step [32, 16, 8, 4, 2, 1] (map_prod unat id (n, 0))"
      by (rule fold_simulates) (rule log_step_abs, auto)
    from arg_cong [OF this, of snd] have "snd (fold log_step [32, 16, 8, 4, 2, 1] (n, 0)) = snd (fold nlog_step [32, 16, 8, 4, 2, 1] (unat n, 0))"
      by (simp only: snd_map_prod id_apply map_prod_simp)
    then show ?thesis by (simp only: util_logbase2_64_def)
  qed
  show "2 ^ util_logbase2_64 n \<le> unat n" and "unat n < 2 * 2 ^ util_logbase2_64 n"
    using nlog_fold [of "[32, 16, 8, 4, 2, 1]" "(unat n, 0)" "unat n"] assms unat_lt_64 [of n]
    unfolding e by (simp_all add: word_less_nat_alt)
qed

lemma util_logbase2_bounds:
  assumes "0 < n"
  shows "2 ^ util_logbase2 n \<le> unat n" and "unat n < 2 * 2 ^ util_logbase2 n"
proof -
  have e: "util_logbase2 n = snd (fold nlog_step [16, 8, 4, 2, 1] (unat n, 0))"
  proof -
    have "map_prod unat id (fold log_step32 [16, 8, 4, 2, 1] (n, 0)) = fold nlog_step [16, 8, 4, 2, 1] (map_prod unat id (n, 0))"
      by (rule fold_simulates) (rule log_step32_abs, auto)
    from arg_cong [OF this, of snd] have "snd (fold log_step32 [16, 8, 4, 2, 1] (n, 0)) = snd (fold nlog_step [16, 8, 4, 2, 1] (unat n, 0))"
      by (simp only: snd_map_prod id_apply map_prod_simp)
    then show ?thesis by (simp only: util_logbase2_def)
  qed
  show "2 ^ util_logbase2 n \<le> unat n" and "unat n < 2 * 2 ^ util_logbase2 n"
    using nlog_fold [of "[16, 8, 4, 2, 1]" "(unat n, 0)" "unat n"] assms unat_lt_32 [of n]
    unfolding e by (simp_all add: word_less_nat_alt)
qed

text \<open>The exponent is determined by the bounds.\<close>

lemma log2_unique:
  fixes a b n :: nat
  assumes "2 ^ a \<le> n" "n < 2 * 2 ^ a" "2 ^ b \<le> n" "n < 2 * 2 ^ b"
  shows "a = b"
proof -
  have "(2 :: nat) ^ a < 2 ^ Suc b" "(2 :: nat) ^ b < 2 ^ Suc a" using assms by simp_all
  then have "a < Suc b" "b < Suc a" by (simp_all only: power_strict_increasing_iff one_less_numeral_iff semiring_norm)
  then show ?thesis by simp
qed

section \<open>The rows of the table\<close>

definition range_min :: "u32 list \<Rightarrow> nat \<Rightarrow> nat \<Rightarrow> u32" where
  "range_min xs l r = Min ((!) xs ` {l..<r})"

lemma range_min_cover:
  assumes "l < l'" "r' < r" "l' \<le> r" "l \<le> r'" "r' \<le> l'"
  shows "range_min xs l r = min (range_min xs l l') (range_min xs r' r)"
proof -
  have "{l..<r} = {l..<l'} \<union> {r'..<r}" using assms by auto
  then have "(!) xs ` {l..<r} = (!) xs ` {l..<l'} \<union> (!) xs ` {r'..<r}" by (simp add: image_Un)
  then show ?thesis unfolding range_min_def using assms by (simp add: Min_Un)
qed

lemma elementwise_minimum_spec:
  assumes "out + count \<le> length mem" and "a + count \<le> out" "b + count \<le> out" and "i \<le> count"
  shows "\<exists>mem'. elementwise_minimum mem out a b count i = Some mem' \<and> length mem' = length mem \<and>
    (\<forall>j < length mem. mem' ! j = (if out + i \<le> j \<and> j < out + count then min (mem ! (a + (j - out))) (mem ! (b + (j - out))) else mem ! j))"
  using assms
proof (induction "count - i" arbitrary: i mem)
  case 0
  then show ?case by (subst elementwise_minimum.simps) auto
next
  case (Suc k)
  let ?m = "mem[out + i := min (mem ! (a + i)) (mem ! (b + i))]"
  have i: "i < count" "k = count - (i + 1)" using Suc.hyps(2) by linarith+
  obtain mem' where m: "elementwise_minimum ?m out a b count (i + 1) = Some mem'" "length mem' = length mem"
      and e: "\<And>j. j < length mem \<Longrightarrow> mem' ! j = (if out + (i + 1) \<le> j \<and> j < out + count then min (?m ! (a + (j - out))) (?m ! (b + (j - out))) else ?m ! j)"
    using Suc.hyps(1) [OF i(2), of ?m] Suc.prems i(1) by auto
  have "mem' ! j = (if out + i \<le> j \<and> j < out + count then min (mem ! (a + (j - out))) (mem ! (b + (j - out))) else mem ! j)" if j: "j < length mem" for j
  proof (cases "j = out + i")
    case True
    then show ?thesis using e [OF j] j i by simp
  next
    case False
    have "a + (j - out) \<noteq> out + i" "b + (j - out) \<noteq> out + i" if "j < out + count" using that Suc.prems i by linarith+
    then show ?thesis using e [OF j] False by (auto simp: nth_list_update_neq)
  qed
  moreover have "elementwise_minimum mem out a b count i = Some mem'"
    using i Suc.prems m(1) by (subst elementwise_minimum.simps) simp
  ultimately show ?case using m(2) by blast
qed

definition row_ok :: "u32 list \<Rightarrow> nat \<Rightarrow> u32 list \<Rightarrow> nat \<Rightarrow> bool" where
  "row_ok mem w xs j \<longleftrightarrow> (\<forall>i. i + 2 ^ j \<le> w \<longrightarrow> mem ! (w * j + i) = range_min xs i (i + 2 ^ j))"

lemma row_step:
  assumes ok: "row_ok mem w xs i" and w: "2 ^ (i + 1) \<le> w" and len: "length mem = w * h" and i: "i + 1 < h"
  shows "\<exists>mem'. elementwise_minimum mem (w * (i + 1)) (w * i) (w * i + 2 ^ i) (w - 2 ^ (i + 1) + 1) 0 = Some mem' \<and>
    length mem' = length mem \<and> row_ok mem' w xs (i + 1) \<and> (\<forall>j < w * (i + 1). mem' ! j = mem ! j)"
proof -
  let ?out = "w * (i + 1)" and ?c = "w - 2 ^ (i + 1) + 1" and ?d = "2 ^ i :: nat"
  have d: "0 < ?d" "2 ^ (i + 1) = 2 * ?d" by simp_all
  have "w * (i + 2) \<le> w * h" using i by (intro mult_le_mono2) simp
  then have fits: "?out + w \<le> length mem" using len by (simp add: algebra_simps)
  have c: "?c \<le> w" using w d by linarith
  have outw: "?out = w * i + w" by simp
  have reads: "w * i + ?c \<le> ?out" "w * i + ?d + ?c \<le> ?out" unfolding outw using c w d by linarith+
  obtain mem' where m: "elementwise_minimum mem ?out (w * i) (w * i + ?d) ?c 0 = Some mem'" "length mem' = length mem"
      and e: "\<forall>j < length mem. mem' ! j = (if ?out + 0 \<le> j \<and> j < ?out + ?c then min (mem ! (w * i + (j - ?out))) (mem ! (w * i + ?d + (j - ?out))) else mem ! j)"
    using elementwise_minimum_spec [of ?out ?c mem "w * i" "w * i + ?d" 0] fits c reads by auto
  have "row_ok mem' w xs (i + 1)"
    unfolding row_ok_def
  proof (intro allI impI)
    fix k
    assume k: "k + 2 ^ (i + 1) \<le> w"
    then have kc: "k < ?c" using w by linarith
    then have "mem' ! (?out + k) = min (mem ! (w * i + k)) (mem ! (w * i + ?d + k))" using e fits c by simp
    also have "mem ! (w * i + k) = range_min xs k (k + ?d)" using ok k d unfolding row_ok_def by simp
    also have "mem ! (w * i + ?d + k) = range_min xs (k + ?d) (k + ?d + ?d)"
    proof -
      have "k + ?d + ?d \<le> w" using k d(2) by linarith
      then have "mem ! (w * i + (k + ?d)) = range_min xs (k + ?d) (k + ?d + ?d)" using ok unfolding row_ok_def by blast
      then show ?thesis by (simp only: ac_simps)
    qed
    also have "min (range_min xs k (k + ?d)) (range_min xs (k + ?d) (k + ?d + ?d)) = range_min xs k (k + 2 ^ (i + 1))"
      using range_min_cover [of k "k + ?d" "k + ?d" "k + ?d + ?d" xs] d by (simp add: mult_2 add.assoc)
    finally show "mem' ! (?out + k) = range_min xs k (k + 2 ^ (i + 1))" .
  qed
  moreover have "\<forall>j < ?out. mem' ! j = mem ! j" using e fits by simp
  ultimately show ?thesis using m by blast
qed

lemma preprocess_from_spec:
  assumes "length mem = w * h" and "1 \<le> i" "i \<le> h" and "2 ^ (h - 1) \<le> w" and "\<And>j. j < i \<Longrightarrow> row_ok mem w xs j"
  shows "\<exists>mem'. preprocess_from w h i mem = Some mem' \<and> length mem' = w * h \<and> (\<forall>j < h. row_ok mem' w xs j)"
  using assms
proof (induction "h - i" arbitrary: i mem)
  case 0
  then show ?case by (subst preprocess_from.simps) auto
next
  case (Suc k)
  have i: "i < h" "i - 1 + 1 = i" "k = h - (i + 1)" using Suc.hyps(2) Suc.prems by linarith+
  have "(2 :: nat) ^ i \<le> 2 ^ (h - 1)" using i by (intro power_increasing) auto
  then have w: "2 ^ (i - 1 + 1) \<le> w" unfolding i(2) using Suc.prems(4) by linarith
  obtain mem' where m: "elementwise_minimum mem (w * i) (w * (i - 1)) (w * (i - 1) + 2 ^ (i - 1)) (w - 2 ^ i + 1) 0 = Some mem'"
      "length mem' = length mem" "row_ok mem' w xs i" "\<forall>j < w * i. mem' ! j = mem ! j"
    using row_step [OF Suc.prems(5) [of "i - 1"] w Suc.prems(1)] i Suc.prems(2) unfolding i(2) by auto
  have "row_ok mem' w xs j" if "j < i + 1" for j
  proof (cases "j = i")
    case True
    then show ?thesis using m(3) by simp
  next
    case False
    then have j: "j < i" using that by simp
    have "w * j + k' < w * i" if "k' + 2 ^ j \<le> w" for k'
    proof -
      have "k' < w" using that by (metis add_lessD1 less_add_same_cancel1 less_le_trans zero_less_numeral zero_less_power)
      then have "w * j + k' < w * (j + 1)" by simp
      also have "\<dots> \<le> w * i" using j by (intro mult_le_mono2) simp
      finally show ?thesis .
    qed
    then show ?thesis using m(4) Suc.prems(5) [OF j] unfolding row_ok_def by simp
  qed
  then obtain mem'' where "preprocess_from w h (i + 1) mem' = Some mem''" "length mem'' = w * h" "\<forall>j < h. row_ok mem'' w xs j"
    using Suc.hyps(1) [OF i(3), of mem'] Suc.prems(1,4) m(2) i(1) by auto
  then show ?case using i m(1) by (subst preprocess_from.simps) (auto simp: rmq_distance_def)
qed

section \<open>Queries\<close>

definition rmq_shape :: "range_minimum_query_table \<Rightarrow> bool" where
  "rmq_shape t \<longleftrightarrow> 0 < rmq_width t \<and> rmq_width t < 4294967295 \<and>
     2 ^ (rmq_height t - 1) \<le> rmq_width t \<and> rmq_width t < 2 * 2 ^ (rmq_height t - 1) \<and> 0 < rmq_height t \<and>
     length (rmq_table t) = rmq_width t * rmq_height t"

lemma resize_shape:
  assumes "0 < w" and "w * (util_logbase2_64 (of_nat w) + 1) < 4294967295"
    and "w * (util_logbase2_64 (of_nat w) + 1) \<le> length (rmq_table t) + length fresh"
  shows "\<exists>t'. range_minimum_query_table_resize fresh w t = Some t' \<and> rmq_shape t' \<and> rmq_width t' = w"
proof -
  let ?h = "util_logbase2_64 (of_nat w) + 1"
  have "w * 1 \<le> w * ?h" by (intro mult_le_mono2) simp
  then have w: "w < 4294967295" using assms(2) by linarith
  then have u: "unat (of_nat w :: u64) = w" by (intro unat_of_nat_lt) simp
  then have "(0 :: u64) < of_nat w" using assms(1) by (simp add: word_less_nat_alt)
  note b = util_logbase2_64_bounds [OF this, unfolded u]
  show ?thesis using assms w b by (simp add: range_minimum_query_table_resize_def rmq_shape_def Let_def)
qed

lemma preprocess_rows:
  assumes sh: "rmq_shape t"
  shows "\<exists>mem. range_minimum_query_table_preprocess t = Some (t\<lparr>rmq_table := mem\<rparr>) \<and> length mem = rmq_width t * rmq_height t \<and>
    (\<forall>j < rmq_height t. row_ok mem (rmq_width t) (take (rmq_width t) (rmq_table t)) j)"
proof -
  have "rmq_width t * 1 \<le> rmq_width t * rmq_height t" using sh by (intro mult_le_mono2) (auto simp: rmq_shape_def)
  then have "row_ok (rmq_table t) (rmq_width t) (take (rmq_width t) (rmq_table t)) 0"
    using sh by (auto simp: row_ok_def range_min_def rmq_shape_def)
  then show ?thesis
    using preprocess_from_spec [of "rmq_table t" "rmq_width t" "rmq_height t" 1 "take (rmq_width t) (rmq_table t)"] sh
    by (auto simp: range_minimum_query_table_preprocess_def rmq_shape_def)
qed

lemma unat_of_nat_u32: "n < 2 ^ 32 \<Longrightarrow> unat (of_nat n :: u32) = n"
  by (simp add: unsigned_of_nat take_bit_nat_eq_self)

lemma range_minimum_query_row:
  assumes sh: "rmq_shape t" and len: "length mem = rmq_width t * rmq_height t"
    and rows: "\<forall>j < rmq_height t. row_ok mem (rmq_width t) xs j" and lr: "l < r" "r \<le> rmq_width t"
  shows "range_minimum_query (t\<lparr>rmq_table := mem\<rparr>) l r = Some (range_min xs l r)"
proof -
  let ?w = "rmq_width t" and ?h = "rmq_height t" and ?n = "r - l"
  define j where "j = util_logbase2 (of_nat ?n)"
  have n: "0 < ?n" "?n < 2 ^ 32" using lr sh by (auto simp: rmq_shape_def)
  have u: "unat (of_nat ?n :: u32) = ?n" by (rule unat_of_nat_u32 [OF n(2)])
  then have "(0 :: u32) < of_nat ?n" using n by (simp add: word_less_nat_alt)
  note b = util_logbase2_bounds [OF this, unfolded u, folded j_def]
  have "(2 :: nat) ^ j \<le> ?w" using b(1) lr by linarith
  then have "(2 :: nat) ^ j < 2 ^ Suc (?h - 1)" using sh unfolding rmq_shape_def power_Suc by linarith
  then have "j < Suc (?h - 1)" by (simp only: power_strict_increasing_iff one_less_numeral_iff semiring_norm)
  then have jh: "j < ?h" using sh by (simp add: rmq_shape_def)
  have "?w * (j + 1) \<le> ?w * ?h" using jh by (intro mult_le_mono2) simp
  then have fit: "?w * j + ?w \<le> length mem" using len by simp
  have "l + 2 ^ j \<le> ?w" "(r - 2 ^ j) + 2 ^ j \<le> ?w" "(r - 2 ^ j) + 2 ^ j = r" "l \<le> r - 2 ^ j" "r - 2 ^ j \<le> l + 2 ^ j" "l + 2 ^ j \<le> r"
    using b lr by linarith+
  note i = this
  have v: "mem ! (?w * j + l) = range_min xs l (l + 2 ^ j)" "mem ! (?w * j + (r - 2 ^ j)) = range_min xs (r - 2 ^ j) r"
    using rows jh i(1-3) unfolding row_ok_def by metis+
  have "range_min xs l r = min (range_min xs l (l + 2 ^ j)) (range_min xs (r - 2 ^ j) r)"
  proof (rule range_min_cover)
    have "(0 :: nat) < 2 ^ j" by simp
    then show "l < l + 2 ^ j" "r - 2 ^ j < r" using lr by linarith+
  qed (use i in linarith)+
  moreover have "?w * j + l < length mem" "?w * j + (r - 2 ^ j) < length mem" using fit i lr by linarith+
  ultimately show ?thesis using lr b jh v
    unfolding range_minimum_query_def Let_def j_def [symmetric] by (simp add: rmq_distance_def)
qed

text \<open>
  Range minimum queries: after resizing the table, filling its first row and
  preprocessing, a query for any non-empty range inside the row satisfies every assertion,
  reads inside the table and returns the smallest element of the range.
\<close>
theorem range_minimum_query_correct:
  assumes "0 < width" and "width * (util_logbase2_64 (of_nat width) + 1) < 4294967295"
    and "width * (util_logbase2_64 (of_nat width) + 1) \<le> length (rmq_table t) + length fresh" and "length xs = width"
  shows "\<exists>t1 t2. range_minimum_query_table_resize fresh width t = Some t1 \<and>
    range_minimum_query_table_preprocess (t1\<lparr>rmq_table := xs @ drop width (rmq_table t1)\<rparr>) = Some t2 \<and>
    (\<forall>l r. l < r \<and> r \<le> width \<longrightarrow> range_minimum_query t2 l r = Some (Min ((!) xs ` {l..<r})))"
proof -
  obtain t1 where t1: "range_minimum_query_table_resize fresh width t = Some t1" "rmq_shape t1" "rmq_width t1 = width"
    using resize_shape [OF assms(1-3)] by blast
  let ?t = "t1\<lparr>rmq_table := xs @ drop width (rmq_table t1)\<rparr>"
  have "width * 1 \<le> width * rmq_height t1" using t1(2) by (intro mult_le_mono2) (auto simp: rmq_shape_def)
  then have sh: "rmq_shape ?t" using t1 assms(4) by (simp add: rmq_shape_def)
  obtain mem where m: "range_minimum_query_table_preprocess ?t = Some (?t\<lparr>rmq_table := mem\<rparr>)"
      "length mem = rmq_width ?t * rmq_height ?t" "\<forall>j < rmq_height ?t. row_ok mem (rmq_width ?t) xs j"
    using preprocess_rows [OF sh] t1(3) assms(4) by auto
  have "range_minimum_query (?t\<lparr>rmq_table := mem\<rparr>) l r = Some (Min ((!) xs ` {l..<r}))" if "l < r" "r \<le> width" for l r
    using range_minimum_query_row [OF sh m(2,3) that(1)] that(2) t1(3) by (simp add: range_min_def)
  then show ?thesis using t1(1) m(1) by blast
qed

theorem range_minimum_query_correct_witness:
  "\<exists>t1 t2. range_minimum_query_table_resize (replicate 20 0) 5 \<lparr>rmq_table = [], rmq_width = 0, rmq_height = 0\<rparr> = Some t1 \<and>
    range_minimum_query_table_preprocess (t1\<lparr>rmq_table := [3, 1, 4, 1, 5] @ drop 5 (rmq_table t1)\<rparr>) = Some t2 \<and>
    range_minimum_query t2 2 5 = Some 1"
proof -
  have l: "util_logbase2_64 5 = 2" by code_simp
  have "\<exists>t1 t2. range_minimum_query_table_resize (replicate 20 0) 5 \<lparr>rmq_table = [], rmq_width = 0, rmq_height = 0\<rparr> = Some t1 \<and>
    range_minimum_query_table_preprocess (t1\<lparr>rmq_table := [3, 1, 4, 1, 5] @ drop 5 (rmq_table t1)\<rparr>) = Some t2 \<and>
    (\<forall>l r. l < r \<and> r \<le> 5 \<longrightarrow> range_minimum_query t2 l r = Some (Min ((!) [3, 1, 4, 1, 5] ` {l..<r})))"
    by (rule range_minimum_query_correct) (simp_all add: l)
  moreover have "Min ((!) [3, 1, 4, 1, 5 :: u32] ` {2..<5}) = 1" by code_simp
  ultimately show ?thesis by fastforce
qed

end
