(* ===== verification/Nir_Lca.thy ===== *)
theory Nir_Lca
  imports Nir_Dom_Tree Rmq
begin

text \<open>
  Lowest common ancestors in the dominator tree: \<open>src/src/compiler/nir/nir_dominance_lca.c\<close>.  An
  Euler tour of the tree is written into the first row of a table for range minimum queries; the
  rest of the table is the stack of the traversal.  \<open>None\<close> is a failed assertion or an access out
  of bounds.
\<close>

section \<open>The code\<close>

record nir_dom_lca_info =
  lca_table :: range_minimum_query_table
  block_from_idx :: "nat list"

definition nir_block_is_reachable :: "nir_block \<Rightarrow> bool" where
  "nir_block_is_reachable block \<longleftrightarrow> dom_post_index block \<noteq> 0"

text \<open>The memory beyond the old contents of an array is whatever the allocator returns.\<close>

definition realloc_info :: "u32 list \<Rightarrow> nat list \<Rightarrow> nat \<Rightarrow> nir_dom_lca_info \<Rightarrow> nir_dom_lca_info option" where
  "realloc_info fresh fresh_blocks num_blocks info = do {
     let euler_tour_size = num_blocks * 2 - 1;
     t \<leftarrow> range_minimum_query_table_resize fresh euler_tour_size (lca_table info);
     Some (info\<lparr>lca_table := t, block_from_idx := take num_blocks (block_from_idx info @ fresh_blocks)\<rparr>)
   }"

definition dom_lca_representative :: "nir_block \<Rightarrow> nat" where
  "dom_lca_representative block = dom_pre_index block - 1"

text \<open>
  The loop of \<open>generate_euler_tour\<close>.  \<open>cur_stack\<close> is a position in the table, where the stack
  begins at \<open>width\<close>.
\<close>

function euler_loop :: "nir_block list \<Rightarrow> nat \<Rightarrow> nat \<Rightarrow> nat option \<Rightarrow> nat \<Rightarrow> bool \<Rightarrow> u32 list \<Rightarrow> nat list \<Rightarrow>
    (nat \<times> nat option \<times> u32 list \<times> nat list) option" where
  "euler_loop bs width i cur_block cur_stack first_visit table from =
     (if i < width
      then (case cur_block of
          None \<Rightarrow> Some (i, cur_block, table, from)
        | Some b \<Rightarrow> do {
            c_assert (width \<le> cur_stack);
            c_assert (i < length table \<and> cur_stack < length table);
            let table = table[i := of_nat b];
            let table = (if first_visit then table[cur_stack := 0] else table);
            c_assert (first_visit \<longrightarrow> i = dom_lca_representative (bs ! b));
            c_assert (first_visit \<longrightarrow> b < length from);
            let from = (if first_visit then from[b := b] else from);
            let k = unat (table ! cur_stack);
            if k < num_dom_children (bs ! b)
            then euler_loop bs width (i + 1) (Some (dom_children (bs ! b) ! k)) (cur_stack + 1) True
                   (table[cur_stack := table ! cur_stack + 1]) from
            else do {
              c_assert (k = num_dom_children (bs ! b));
              euler_loop bs width (i + 1) (imm_dom (bs ! b)) (cur_stack - 1) False table from
            }
          })
      else Some (i, cur_block, table, from))"
  by pat_completeness auto
termination
  by (relation "measure (\<lambda>(bs, width, i, _). width - i)") auto

declare euler_loop.simps [simp del]

definition generate_euler_tour :: "u32 list \<Rightarrow> nir_block list \<Rightarrow> nir_dom_lca_info \<Rightarrow> nir_dom_lca_info option" where
  "generate_euler_tour fresh bs info =
     (let t = lca_table info in
      if length bs = 1
      then do {
        c_assert (0 < length (rmq_table t) \<and> 0 < length (block_from_idx info));
        Some (info\<lparr>lca_table := t\<lparr>rmq_table := (rmq_table t)[0 := 0]\<rparr>, block_from_idx := (block_from_idx info)[0 := 0]\<rparr>)
      }
      else do {
        c_assert (2 \<le> rmq_height t);
        (i, cur_block, table, from) \<leftarrow>
          euler_loop bs (rmq_width t) 0 (Some 0) (rmq_width t) True (rmq_table t) (block_from_idx info);
        c_assert (cur_block = None);
        let t = t\<lparr>rmq_table := table\<rparr>;
        t \<leftarrow> (if i \<noteq> rmq_width t then range_minimum_query_table_resize fresh i t else Some t);
        Some (info\<lparr>lca_table := t, block_from_idx := from\<rparr>)
      })"

definition nir_calc_dominance_lca_impl ::
  "u32 list \<Rightarrow> nat list \<Rightarrow> u32 list \<Rightarrow> bool \<Rightarrow> nir_block list \<Rightarrow> nir_dom_lca_info \<Rightarrow> nir_dom_lca_info option" where
  "nir_calc_dominance_lca_impl fresh fresh_blocks fresh' valid_metadata bs info =
     (if valid_metadata then Some info
      else do {
        info \<leftarrow> realloc_info fresh fresh_blocks (length bs) info;
        info \<leftarrow> generate_euler_tour fresh' bs info;
        t \<leftarrow> range_minimum_query_table_preprocess (lca_table info);
        Some (info\<lparr>lca_table := t\<rparr>)
      })"

text \<open>A null pointer to a block is the inner \<open>None\<close>.\<close>

definition block_return_if_reachable :: "nir_block list \<Rightarrow> nat option \<Rightarrow> nat option" where
  "block_return_if_reachable bs b =
     (case b of None \<Rightarrow> None | Some x \<Rightarrow> if nir_block_is_reachable (bs ! x) then Some x else None)"

definition is_lca :: "nir_block list \<Rightarrow> nat \<Rightarrow> nat \<Rightarrow> nat \<Rightarrow> bool" where
  "is_lca bs result b1 b2 =
     (nir_block_dominates bs result b1 \<and> nir_block_dominates bs result b2 \<and>
      (\<forall>child \<in> set (take (num_dom_children (bs ! result)) (dom_children (bs ! result))).
         \<not> (nir_block_dominates bs child b1 \<and> nir_block_dominates bs child b2)))"

definition nir_dominance_lca :: "nir_dom_lca_info \<Rightarrow> nir_block list \<Rightarrow> nat option \<Rightarrow> nat option \<Rightarrow> nat option option" where
  "nir_dominance_lca info bs b1 b2 =
     (if block_return_if_reachable bs b1 = None then Some (block_return_if_reachable bs b2)
      else if block_return_if_reachable bs b2 = None then Some (block_return_if_reachable bs b1)
      else do {
        x1 \<leftarrow> b1;
        x2 \<leftarrow> b2;
        let i1 = dom_lca_representative (bs ! x1);
        let i2 = dom_lca_representative (bs ! x2);
        let (i1, i2) = (if i1 > i2 then (i2, i1) else (i1, i2));
        index \<leftarrow> range_minimum_query (lca_table info) i1 (i2 + 1);
        c_assert (unat index < length (block_from_idx info));
        let result = block_from_idx info ! unat index;
        c_assert (is_lca bs result x1 x2);
        Some (Some result)
      })"

section \<open>The tree\<close>

text \<open>The facts about the analysed blocks that the tour rests on.\<close>

lemma info_facts:
  assumes "dominance_info G bs"
  shows "length bs = length G" and "b < length G \<Longrightarrow> imm_dom (bs ! b) = Some c \<longleftrightarrow> immediate_dominator G c b"
    and "b < length G \<Longrightarrow> dom_children (bs ! b) = filter (immediate_dominator G b) [0..<length G]"
    and "b < length G \<Longrightarrow> num_dom_children (bs ! b) = length (dom_children (bs ! b))"
    and "a < length G \<Longrightarrow> b < length G \<Longrightarrow> nir_block_dominates bs a b \<longleftrightarrow> dominates G a b"
  using assms by (auto simp: dominance_info_def)

lemma info_processed:
  assumes "dominance_info G bs" and "b < length G" and "reachable G b" and "b \<noteq> 0"
  shows "\<exists>c. immediate_dominator G c b"
proof -
  have "nir_block_is_unreachable bs b \<longleftrightarrow> \<not> reachable G b" using assms(1,2) by (simp add: dominance_info_def)
  then have "imm_dom (bs ! b) \<noteq> None" using assms(3,4) by (simp add: nir_block_is_unreachable_def)
  then show ?thesis using info_facts(2) [OF assms(1,2)] by blast
qed

lemma number_facts:
  assumes "dominance_info G bs" and "b < length G"
  shows "dom_pre_index (bs ! 0) = 1" and "reachable G b \<Longrightarrow> dom_pre_index (bs ! b) < dom_post_index (bs ! b)"
    and "reachable G b \<Longrightarrow> dom_post_index (bs ! b) \<le> 2 * length G"
    and "reachable G b \<Longrightarrow> consecutive bs (dom_pre_index (bs ! b) + 1) (dom_children (bs ! b)) (dom_post_index (bs ! b))"
    and "nir_block_is_reachable (bs ! b) \<longleftrightarrow> reachable G b"
  using assms by (auto simp: dominance_info_def dfs_numbers_def nir_block_is_reachable_def split: if_splits)

lemma child_facts:
  assumes "wf_cfg G" "block_order G" and "dominance_info G bs" and "b < length G" and "c \<in> set (dom_children (bs ! b))"
  shows "c < length G" and "reachable G c" and "imm_dom (bs ! c) = Some b" and "b < c" and "dominates G b c"
proof -
  have c: "c < length G" "immediate_dominator G b c" using info_facts(3) [OF assms(3,4)] assms(5) by auto
  then have d: "reachable G c" "dominates G b c" "b \<noteq> c" by (auto simp: immediate_dominator_def)
  show "c < length G" "reachable G c" "dominates G b c" "imm_dom (bs ! c) = Some b" using c d info_facts(2) [OF assms(3)] by auto
  show "b < c" using dominates_le [OF assms(1,2) d(1,2)] d(3) by simp
qed

text \<open>A strict dominator of a block has a child that dominates the block too.\<close>

lemma dominated_child:
  assumes wf: "wf_cfg G" "block_order G" and info: "dominance_info G bs"
  shows "x < length G \<Longrightarrow> reachable G x \<Longrightarrow> dominates G b x \<Longrightarrow> b \<noteq> x \<Longrightarrow> \<exists>c \<in> set (dom_children (bs ! b)). dominates G c x"
proof (induction x rule: less_induct)
  case (less x)
  have b: "b < length G" using dominates_le [OF wf less.prems(2,3)] less.prems(1) by simp
  have "x \<noteq> 0" using dominates_start [of G b] less.prems(3,4) by (cases "x = 0") auto
  then obtain s where s: "immediate_dominator G s x" using info_processed [OF info less.prems(1,2)] by blast
  then have sx: "dominates G s x" "s \<noteq> x" "dominates G b s" using less.prems(3,4) by (auto simp: immediate_dominator_def)
  then have le: "s < x" "reachable G s" using dominates_le [OF wf less.prems(2) sx(1)] dominates_reachable less.prems(2) by auto
  show ?case
  proof (cases "b = s")
    case True
    then show ?thesis using info_facts(3) [OF info b] s less.prems(1) dominates_refl by (intro bexI [of _ x]) auto
  next
    case False
    then obtain c where "c \<in> set (dom_children (bs ! b))" "dominates G c s" using less.IH [OF le(1)] le sx(3) less.prems(1) by auto
    then show ?thesis using dominates_trans sx(1) by blast
  qed
qed

lemma consecutive_bounds:
  assumes "\<And>c. c \<in> set cs \<Longrightarrow> dom_pre_index (bs ! c) < dom_post_index (bs ! c)" and "consecutive bs i cs j"
  shows "i \<le> j" and "c \<in> set cs \<Longrightarrow> i \<le> dom_pre_index (bs ! c) \<and> dom_post_index (bs ! c) < j"
  using assms by (induction cs arbitrary: i) fastforce+

lemma numbers_nest:
  assumes "dominance_info G bs" and "a < length G" "b < length G" and "dominates G a b"
  shows "dom_pre_index (bs ! a) \<le> dom_pre_index (bs ! b)" and "dom_post_index (bs ! b) \<le> dom_post_index (bs ! a)"
  using info_facts(5) [OF assms(1-3)] assms(4) by (auto simp: nir_block_dominates_def)

section \<open>The Euler tour\<close>

text \<open>The part of the tour that lies in the subtree of \<open>x\<close>.\<close>

definition toured :: "cfg \<Rightarrow> nir_block list \<Rightarrow> u32 list \<Rightarrow> nat \<Rightarrow> bool" where
  "toured G bs table x \<longleftrightarrow> table ! (dom_pre_index (bs ! x) - 1) = of_nat x \<and>
     (\<forall>c \<in> set (dom_children (bs ! x)). table ! (dom_post_index (bs ! c) - 1) = of_nat x) \<and>
     (\<forall>p. dom_pre_index (bs ! x) - 1 \<le> p \<and> p < dom_post_index (bs ! x) - 1 \<longrightarrow>
        (\<exists>y < length G. reachable G y \<and> dominates G x y \<and> table ! p = of_nat y))"

definition subtree_toured :: "cfg \<Rightarrow> nir_block list \<Rightarrow> u32 list \<Rightarrow> nat list \<Rightarrow> nat \<Rightarrow> bool" where
  "subtree_toured G bs table from b \<longleftrightarrow>
     (\<forall>x < length G. reachable G x \<and> dominates G b x \<longrightarrow> toured G bs table x \<and> from ! x = x)"

text \<open>What the loop leaves alone while it tours positions \<open>lo\<close> to \<open>hi\<close> with the stack at \<open>sp\<close>.\<close>

definition tour_frame :: "nat \<Rightarrow> nat \<Rightarrow> nat \<Rightarrow> nat \<Rightarrow> u32 list \<Rightarrow> nat list \<Rightarrow> u32 list \<Rightarrow> nat list \<Rightarrow> bool" where
  "tour_frame w lo hi sp table from table' from' \<longleftrightarrow>
     length table' = length table \<and> length from' = length from \<and>
     (\<forall>p. (p < lo \<or> (hi \<le> p \<and> p < w) \<or> (w \<le> p \<and> p < sp)) \<longrightarrow> table' ! p = table ! p) \<and>
     (\<forall>x. from ! x = x \<longrightarrow> from' ! x = x)"

lemma tour_frame_trans:
  assumes "tour_frame w lo hi sp t f t1 f1" and "tour_frame w lo1 hi1 sp1 t1 f1 t2 f2"
    and "lo \<le> lo1" and "hi1 \<le> hi'" and "hi \<le> hi'" and "sp \<le> sp1" and "w \<le> sp"
  shows "tour_frame w lo hi' sp t f t2 f2"
  using assms unfolding tour_frame_def by simp

lemma toured_frame:
  assumes wf: "wf_cfg G" "block_order G" and info: "dominance_info G bs" and x: "x < length G" "reachable G x"
    and "toured G bs table x"
    and same: "\<And>p. dom_pre_index (bs ! x) - 1 \<le> p \<Longrightarrow> p < dom_post_index (bs ! x) - 1 \<Longrightarrow> table' ! p = table ! p"
  shows "toured G bs table' x"
proof -
  have k: "dom_pre_index (bs ! x) + 1 \<le> dom_pre_index (bs ! c)" "dom_pre_index (bs ! c) < dom_post_index (bs ! c)" "dom_post_index (bs ! c) < dom_post_index (bs ! x)"
    if "c \<in> set (dom_children (bs ! x))" for c
    using consecutive_bounds(2) [OF _ number_facts(4) [OF info x], of c] number_facts(2) [OF info] child_facts(1,2) [OF wf info x(1)] that by auto
  have "dom_pre_index (bs ! x) < dom_post_index (bs ! x)" using number_facts(2) [OF info x] .
  moreover have "dom_pre_index (bs ! x) \<noteq> 0" using numbers_nest(1) [OF info _ x(1) start_dominates] number_facts(1) [OF info x(1)] x(1) by (cases G) auto
  ultimately have "table' ! (dom_pre_index (bs ! x) - 1) = table ! (dom_pre_index (bs ! x) - 1)" by (intro same) auto
  moreover have "table' ! (dom_post_index (bs ! c) - 1) = table ! (dom_post_index (bs ! c) - 1)" if "c \<in> set (dom_children (bs ! x))" for c
    using k [OF that] by (intro same) auto
  ultimately show ?thesis using assms(6) same unfolding toured_def by simp
qed

text \<open>The first visit only resets the stack entry and records the block.\<close>

lemma euler_first:
  assumes "q < w" and "w \<le> sp" and "sp < length table" and "b < length from" and "q = dom_lca_representative (bs ! b)"
  shows "euler_loop bs w q (Some b) sp True table from = euler_loop bs w q (Some b) sp False (table[sp := 0]) (from[b := b])"
proof -
  have s: "table[q := v, sp := u] = table[sp := u, q := v]" for u v using assms(1,2) by (intro list_update_swap) simp
  show ?thesis using assms(1-4) assms(5) [symmetric] by (subst (1 2) euler_loop.simps) (simp add: s Let_def)
qed

lemma euler_descend:
  assumes "q < w" and "w \<le> sp" and "sp < length table" and "table ! sp = of_nat k" and "k < 2 ^ 32"
    and "k < num_dom_children (bs ! b)"
  shows "euler_loop bs w q (Some b) sp False table from =
    euler_loop bs w (q + 1) (Some (dom_children (bs ! b) ! k)) (sp + 1) True (table[q := of_nat b, sp := of_nat (k + 1)]) from"
  using assms unat_of_nat_u32 [of k] by (subst euler_loop.simps) (simp add: add.commute)

lemma euler_ascend:
  assumes "q < w" and "w \<le> sp" and "sp < length table" and "table ! sp = of_nat (num_dom_children (bs ! b))"
    and "num_dom_children (bs ! b) < 2 ^ 32"
  shows "euler_loop bs w q (Some b) sp False table from = euler_loop bs w (q + 1) (imm_dom (bs ! b)) (sp - 1) False (table[q := of_nat b]) from"
  using assms unat_of_nat_u32 [of "num_dom_children (bs ! b)"] by (subst euler_loop.simps) simp

definition tour_step :: "cfg \<Rightarrow> nir_block list \<Rightarrow> nat \<Rightarrow> nat \<Rightarrow> nat \<Rightarrow> u32 list \<Rightarrow> nat list \<Rightarrow> bool" where
  "tour_step G bs w b sp table from \<longleftrightarrow> (\<exists>table' from'.
     euler_loop bs w (dom_pre_index (bs ! b) - 1) (Some b) sp True table from =
       euler_loop bs w (dom_post_index (bs ! b) - 1) (imm_dom (bs ! b)) (sp - 1) False table' from' \<and>
     tour_frame w (dom_pre_index (bs ! b) - 1) (dom_post_index (bs ! b) - 1) sp table from table' from' \<and>
     subtree_toured G bs table' from' b)"

definition tour_room :: "cfg \<Rightarrow> nat \<Rightarrow> nat \<Rightarrow> nat \<Rightarrow> u32 list \<Rightarrow> nat list \<Rightarrow> bool" where
  "tour_room G w b sp table from \<longleftrightarrow> w \<le> sp \<and> sp \<le> w + b \<and> w + length G \<le> length table \<and> length from = length G"

lemma subtree_toured_frame:
  assumes wf: "wf_cfg G" "block_order G" and info: "dominance_info G bs" and b: "b < length G"
    and "subtree_toured G bs table from b" and fr: "tour_frame w lo hi sp table from table' from'"
    and "dom_post_index (bs ! b) - 1 \<le> lo"
  shows "subtree_toured G bs table' from' b"
  unfolding subtree_toured_def
proof (intro allI impI)
  fix x
  assume x: "x < length G" "reachable G x \<and> dominates G b x"
  then have t: "toured G bs table x" "from ! x = x" using assms(5) by (auto simp: subtree_toured_def)
  have "dom_post_index (bs ! x) - 1 \<le> lo" using numbers_nest(2) [OF info b x(1)] x(2) assms(7) by auto
  then have "toured G bs table' x" using toured_frame [OF wf info x(1) _ t(1)] x(2) fr by (auto simp: tour_frame_def)
  then show "toured G bs table' x \<and> from' ! x = x" using t(2) fr by (simp add: tour_frame_def)
qed

lemma euler_children:
  assumes wf: "wf_cfg G" "block_order G" and info: "dominance_info G bs" and n: "length G < 2147483647"
    and b: "b < length G" "reachable G b" "dom_post_index (bs ! b) - 1 \<le> w"
    and ih: "\<And>c t f. c \<in> set (dom_children (bs ! b)) \<Longrightarrow> tour_room G w c (sp + 1) t f \<Longrightarrow> tour_step G bs w c (sp + 1) t f"
  shows "tour_room G w b sp t f \<Longrightarrow> cs = drop k (dom_children (bs ! b)) \<Longrightarrow> k \<le> length (dom_children (bs ! b)) \<Longrightarrow>
    t ! sp = of_nat k \<Longrightarrow> consecutive bs (q + 2) cs (dom_post_index (bs ! b)) \<Longrightarrow>
    \<exists>t' f'. euler_loop bs w q (Some b) sp False t f = euler_loop bs w (dom_post_index (bs ! b) - 1) (imm_dom (bs ! b)) (sp - 1) False t' f' \<and>
      tour_frame w q (dom_post_index (bs ! b) - 1) sp t f t' f' \<and> t' ! q = of_nat b \<and>
      (\<forall>c \<in> set cs. subtree_toured G bs t' f' c \<and> t' ! (dom_post_index (bs ! c) - 1) = of_nat b) \<and>
      (\<forall>p. q \<le> p \<and> p < dom_post_index (bs ! b) - 1 \<longrightarrow> (\<exists>y < length G. reachable G y \<and> dominates G b y \<and> t' ! p = of_nat y))"
proof (induction cs arbitrary: k q t f)
  case Nil
  have num: "k = num_dom_children (bs ! b)" using Nil.prems(2,3) info_facts(4) [OF info b(1)] by simp
  have "k \<le> length G" using num info_facts(3,4) [OF info b(1)] length_filter_le [of _ "[0..<length G]"] by (metis length_upt minus_nat.diff_0)
  then have small: "num_dom_children (bs ! b) < 2 ^ 32" using n num by simp
  have q: "q < w" "dom_post_index (bs ! b) - 1 = q + 1" using Nil.prems(5) b(3) by auto
  have l: "w \<le> sp" "sp < length t" using Nil.prems(1) b(1) by (auto simp: tour_room_def)
  have tq: "t[q := of_nat b] ! q = of_nat b" using q(1) l by simp
  have fr: "tour_frame w q (q + 1) sp t f (t[q := of_nat b]) f" using q(1) by (auto simp: tour_frame_def)
  have "\<exists>y < length G. reachable G y \<and> dominates G b y \<and> t[q := of_nat b] ! p = of_nat y" if "q \<le> p \<and> p < q + 1" for p
  proof -
    have "p = q" using that by simp
    then show ?thesis using tq b(1,2) dominates_refl by auto
  qed
  note this tq fr euler_ascend [OF q(1) l Nil.prems(4) [unfolded num] small, of f]
  then show ?case unfolding q(2) by (intro exI [of _ "t[q := of_nat b]"] exI [of _ f] conjI) auto
next
  case (Cons c cs)
  let ?ch = "dom_children (bs ! b)"
  have k: "k < length ?ch" "c = ?ch ! k" "cs = drop (k + 1) ?ch" using Cons.prems(2,3)
    by (metis drop_all list.distinct(1) not_le, metis drop_all hd_drop_conv_nth list.sel(1) list.distinct(1) not_le, metis Suc_eq_plus1 drop_Suc list.sel(3) tl_drop)
  have c: "c \<in> set ?ch" using k by simp
  note cf = child_facts [OF wf info b(1) c]
  have kl: "k < 2 ^ 32" using k(1) info_facts(3) [OF info b(1)] length_filter_le [of "immediate_dominator G b" "[0..<length G]"] n by simp
  have pre: "dom_pre_index (bs ! c) = q + 2" and rest: "consecutive bs (dom_post_index (bs ! c) + 1) cs (dom_post_index (bs ! b))" using Cons.prems(5) by auto
  have pp: "q + 2 < dom_post_index (bs ! c)" using number_facts(2) [OF info cf(1,2)] pre by simp
  have "set cs \<subseteq> set ?ch" using k(3) set_drop_subset by metis
  then have up: "dom_post_index (bs ! c) + 1 \<le> dom_post_index (bs ! b)"
    using consecutive_bounds(1) [OF _ rest] number_facts(2) [OF info] child_facts(1,2) [OF wf info b(1)] by blast
  have q: "q < w" "q + 1 = dom_pre_index (bs ! c) - 1" using b(3) pre pp up by auto
  have l: "w \<le> sp" "sp < length t" "w < length t" using Cons.prems(1) b(1) by (auto simp: tour_room_def)
  define t2 where "t2 = t[q := of_nat b, sp := of_nat (k + 1)]"
  have d: "euler_loop bs w q (Some b) sp False t f = euler_loop bs w (dom_pre_index (bs ! c) - 1) (Some c) (sp + 1) True t2 f"
    using euler_descend [OF q(1) l(1,2) Cons.prems(4) kl] k info_facts(4) [OF info b(1)] q(2) by (simp add: t2_def)
  have "tour_room G w c (sp + 1) t2 f" using Cons.prems(1) cf(4) by (auto simp: tour_room_def t2_def)
  then obtain t3 f3 where s3: "euler_loop bs w (dom_pre_index (bs ! c) - 1) (Some c) (sp + 1) True t2 f = euler_loop bs w (dom_post_index (bs ! c) - 1) (Some b) sp False t3 f3"
      and fr3: "tour_frame w (q + 1) (dom_post_index (bs ! c) - 1) (sp + 1) t2 f t3 f3" and st3: "subtree_toured G bs t3 f3 c"
    using ih [OF c, of t2 f] cf(3) q(2) unfolding tour_step_def by auto
  have sp3: "t3 ! sp = of_nat (k + 1)" "t3 ! q = of_nat b" using fr3 l q by (auto simp: tour_frame_def t2_def)
  have "tour_frame w q (q + 1) sp t f t2 f" using l q(1) by (auto simp: tour_frame_def t2_def)
  then have fr2: "tour_frame w q (dom_post_index (bs ! c) - 1) sp t f t3 f3" using tour_frame_trans [OF _ fr3] pp l(1) by simp
  have "tour_room G w b sp t3 f3" using Cons.prems(1) fr3 by (auto simp: tour_room_def tour_frame_def t2_def)
  moreover have "consecutive bs (dom_post_index (bs ! c) - 1 + 2) cs (dom_post_index (bs ! b))" using rest pp by (simp add: numeral_2_eq_2)
  ultimately obtain t' f' where s4: "euler_loop bs w (dom_post_index (bs ! c) - 1) (Some b) sp False t3 f3 = euler_loop bs w (dom_post_index (bs ! b) - 1) (imm_dom (bs ! b)) (sp - 1) False t' f'"
      and fr4: "tour_frame w (dom_post_index (bs ! c) - 1) (dom_post_index (bs ! b) - 1) sp t3 f3 t' f'" and q4: "t' ! (dom_post_index (bs ! c) - 1) = of_nat b"
      and cs4: "\<forall>c \<in> set cs. subtree_toured G bs t' f' c \<and> t' ! (dom_post_index (bs ! c) - 1) = of_nat b"
      and r4: "\<forall>p. dom_post_index (bs ! c) - 1 \<le> p \<and> p < dom_post_index (bs ! b) - 1 \<longrightarrow> (\<exists>y < length G. reachable G y \<and> dominates G b y \<and> t' ! p = of_nat y)"
    using Cons.IH [of t3 f3 "k + 1" "dom_post_index (bs ! c) - 1"] k sp3(1) by auto
  have st4: "subtree_toured G bs t' f' c" by (rule subtree_toured_frame [OF wf info cf(1) st3 fr4]) simp
  have q': "t' ! q = of_nat b" using fr4 sp3(2) pp by (simp add: tour_frame_def)
  have "tour_frame w q (dom_post_index (bs ! b) - 1) sp t f t' f'" using tour_frame_trans [OF fr2 fr4] pp up l(1) by simp
  moreover have "\<exists>y < length G. reachable G y \<and> dominates G b y \<and> t' ! p = of_nat y" if p: "q \<le> p" "p < dom_post_index (bs ! b) - 1" for p
  proof -
    consider "p = q" | "q + 1 \<le> p" "p < dom_post_index (bs ! c) - 1" | "dom_post_index (bs ! c) - 1 \<le> p" using p by linarith
    then show ?thesis
    proof cases
      case 1
      then show ?thesis using q' b dominates_refl by auto
    next
      case 2
      then show ?thesis using st4 cf(1,2,5) dominates_refl dominates_trans q(2) unfolding subtree_toured_def toured_def by metis
    qed (use r4 p in auto)
  qed
  ultimately show ?case using d s3 s4 q' q4 cs4 st4 by auto
qed

lemma pre_index_pos:
  assumes "dominance_info G bs" and "b < length G"
  shows "1 \<le> dom_pre_index (bs ! b)"
  using numbers_nest(1) [OF assms(1) _ assms(2) start_dominates] number_facts(1) [OF assms] assms(2) by (cases G) auto

lemma euler_subtree:
  assumes wf: "wf_cfg G" "block_order G" and info: "dominance_info G bs" and n: "length G < 2147483647"
  shows "b < length G \<Longrightarrow> reachable G b \<Longrightarrow> dom_post_index (bs ! b) - 1 \<le> w \<Longrightarrow> tour_room G w b sp t f \<Longrightarrow> tour_step G bs w b sp t f"
proof (induction "length G - b" arbitrary: b sp t f rule: less_induct)
  case less
  note b = less.prems(1-3)
  let ?pre = "dom_pre_index (bs ! b)" and ?post = "dom_post_index (bs ! b)"
  have ih: "tour_step G bs w c (sp + 1) t f" if c: "c \<in> set (dom_children (bs ! b))" "tour_room G w c (sp + 1) t f" for c t f
  proof -
    note cf = child_facts [OF wf info b(1) c(1)]
    have "dom_post_index (bs ! c) - 1 \<le> w" using numbers_nest(2) [OF info b(1) cf(1,5)] b(3) by simp
    then show ?thesis using less.hyps [OF _ cf(1,2) _ c(2)] cf(1,4) by simp
  qed
  have pre: "1 \<le> ?pre" "?pre < ?post" using pre_index_pos [OF info b(1)] number_facts(2) [OF info b(1,2)] by auto
  have room: "w \<le> sp" "sp < length t" "b < length f" "?pre - 1 < w" using less.prems(4) b pre by (auto simp: tour_room_def)
  define t1 where "t1 = t[sp := 0]"
  define f1 where "f1 = f[b := b]"
  have first: "euler_loop bs w (?pre - 1) (Some b) sp True t f = euler_loop bs w (?pre - 1) (Some b) sp False t1 f1"
    using euler_first [OF room(4,1,2,3)] by (simp add: t1_def f1_def dom_lca_representative_def)
  have fr1: "tour_frame w (?pre - 1) (?pre - 1) sp t f t1 f1" using room by (auto simp: tour_frame_def t1_def f1_def nth_list_update)
  have "tour_room G w b sp t1 f1" "t1 ! sp = of_nat 0" using less.prems(4) room by (auto simp: tour_room_def t1_def f1_def)
  moreover have "consecutive bs (?pre - 1 + 2) (dom_children (bs ! b)) ?post" using number_facts(4) [OF info b(1,2)] pre by simp
  ultimately obtain t' f' where s: "euler_loop bs w (?pre - 1) (Some b) sp False t1 f1 = euler_loop bs w (?post - 1) (imm_dom (bs ! b)) (sp - 1) False t' f'"
      and fr: "tour_frame w (?pre - 1) (?post - 1) sp t1 f1 t' f'" and q: "t' ! (?pre - 1) = of_nat b"
      and cs: "\<forall>c \<in> set (dom_children (bs ! b)). subtree_toured G bs t' f' c \<and> t' ! (dom_post_index (bs ! c) - 1) = of_nat b"
      and rng: "\<forall>p. ?pre - 1 \<le> p \<and> p < ?post - 1 \<longrightarrow> (\<exists>y < length G. reachable G y \<and> dominates G b y \<and> t' ! p = of_nat y)"
    using euler_children [OF wf info n b ih, of t1 f1 "dom_children (bs ! b)" 0 "?pre - 1"] by auto
  have "f' ! b = b" using fr room(3) by (auto simp: tour_frame_def f1_def)
  moreover have "toured G bs t' b" using q cs rng by (simp add: toured_def)
  ultimately have "subtree_toured G bs t' f' b"
    using dominated_child [OF wf info] cs unfolding subtree_toured_def by metis
  moreover have "tour_frame w (?pre - 1) (?post - 1) sp t f t' f'" using tour_frame_trans [OF fr1 fr] pre room(1) by simp
  ultimately show ?case unfolding tour_step_def first s by blast
qed

lemma euler_tour:
  assumes wf: "wf_cfg G" "block_order G" and info: "dominance_info G bs" and n: "length G < 2147483647"
    and w: "w = length G * 2 - 1" and "w + length G \<le> length t" and "length f = length G"
  shows "\<exists>t' f'. euler_loop bs w 0 (Some 0) w True t f = Some (dom_post_index (bs ! 0) - 1, None, t', f') \<and>
    length t' = length t \<and> length f' = length G \<and> subtree_toured G bs t' f' 0"
proof -
  have g: "0 < length G" using wf(1) by (auto simp: wf_cfg_def)
  have "dom_post_index (bs ! 0) - 1 \<le> w" using number_facts(3) [OF info g reachable_start] w by simp
  moreover have "tour_room G w 0 w t f" using assms(6,7) by (simp add: tour_room_def)
  ultimately have "tour_step G bs w 0 w t f" using euler_subtree [OF wf info n g reachable_start] by blast
  moreover have "imm_dom (bs ! 0) = None" using info_facts(2) [OF info g] immediate_dominator_start by (cases "imm_dom (bs ! 0)") auto
  ultimately obtain t' f' where e: "euler_loop bs w 0 (Some 0) w True t f = euler_loop bs w (dom_post_index (bs ! 0) - 1) None (w - 1) False t' f'"
      and "tour_frame w 0 (dom_post_index (bs ! 0) - 1) w t f t' f'" "subtree_toured G bs t' f' 0"
    using number_facts(1) [OF info g] unfolding tour_step_def by auto
  moreover have "euler_loop bs w i None sp b t' f' = Some (i, None, t', f')" for i sp b by (subst euler_loop.simps) simp
  ultimately show ?thesis using assms(7) by (auto simp: tour_frame_def)
qed

lemma subtree_toured_cong:
  assumes wf: "wf_cfg G" "block_order G" and info: "dominance_info G bs" and b: "b < length G"
    and "subtree_toured G bs t f b" and "\<And>p. p < dom_post_index (bs ! b) - 1 \<Longrightarrow> t' ! p = t ! p"
  shows "subtree_toured G bs t' f b"
  unfolding subtree_toured_def
proof (intro allI impI)
  fix x
  assume x: "x < length G" "reachable G x \<and> dominates G b x"
  have "dom_post_index (bs ! x) \<le> dom_post_index (bs ! b)" using numbers_nest(2) [OF info b x(1)] x(2) by simp
  then show "toured G bs t' x \<and> f ! x = x"
    using toured_frame [OF wf info x(1), of t t'] x assms(5,6) unfolding subtree_toured_def by auto
qed

section \<open>The lowest common dominator\<close>

definition lowest_common_dominator :: "cfg \<Rightarrow> nat \<Rightarrow> nat \<Rightarrow> nat \<Rightarrow> bool" where
  "lowest_common_dominator G l u v \<longleftrightarrow> dominates G l u \<and> dominates G l v \<and> (\<forall>a. dominates G a u \<and> dominates G a v \<longrightarrow> dominates G a l)"

lemma dominators_linear:
  assumes wf: "wf_cfg G" "block_order G" and info: "dominance_info G bs"
  shows "u < length G \<Longrightarrow> reachable G u \<Longrightarrow> dominates G a u \<Longrightarrow> dominates G b u \<Longrightarrow> dominates G a b \<or> dominates G b a"
proof (induction u rule: less_induct)
  case (less u)
  show ?case
  proof (cases "a = u \<or> b = u")
    case False
    have "u \<noteq> 0" using dominates_start [of G a] less.prems(3) False by (cases "u = 0") auto
    then obtain s where s: "immediate_dominator G s u" using info_processed [OF info less.prems(1,2)] by blast
    then have d: "dominates G s u" "s \<noteq> u" "dominates G a s" "dominates G b s" using less.prems(3,4) False by (auto simp: immediate_dominator_def)
    have "s < u" "reachable G s" using dominates_le [OF wf less.prems(2) d(1)] d(2) dominates_reachable [OF d(1) less.prems(2)] by auto
    then show ?thesis using less.IH [of s] d(3,4) less.prems(1) by simp
  qed (use less.prems in auto)
qed

lemma lowest_common_dominator_exists:
  assumes wf: "wf_cfg G" "block_order G" and info: "dominance_info G bs" and u: "u < length G" "reachable G u"
  shows "\<exists>l. lowest_common_dominator G l u v"
proof -
  let ?D = "{a. dominates G a u \<and> dominates G a v}"
  have le: "a \<le> u" if "a \<in> ?D" for a using dominates_le [OF wf u(2)] that by blast
  have fin: "finite ?D" using le by (intro finite_subset [of ?D "{..u}"]) auto
  have "0 \<in> ?D" using start_dominates by simp
  then have m: "Max ?D \<in> ?D" using Max_in [OF fin] by blast
  have "dominates G a (Max ?D)" if a: "a \<in> ?D" for a
  proof -
    have "a \<le> Max ?D" using Max_ge [OF fin a] .
    moreover have "Max ?D \<le> a" if "dominates G (Max ?D) a" using dominates_le [OF wf _ that] dominates_reachable [of G a u] a u(2) by blast
    ultimately show ?thesis using dominators_linear [OF wf info u, of a "Max ?D"] a m dominates_refl by (metis (mono_tags, lifting) le_antisym mem_Collect_eq)
  qed
  then show ?thesis using m unfolding lowest_common_dominator_def by blast
qed

text \<open>Between the first visits of two blocks, the tour passes through their lowest common dominator and stays below it.\<close>

lemma tour_passes_lca:
  assumes wf: "wf_cfg G" "block_order G" and info: "dominance_info G bs" and n: "length G < 2147483647"
    and tour: "subtree_toured G bs t f 0" and u: "u < length G" "reachable G u" and v: "v < length G" "reachable G v"
    and lca: "lowest_common_dominator G l u v" and le: "dom_pre_index (bs ! u) \<le> dom_pre_index (bs ! v)"
  shows "\<exists>p. dom_pre_index (bs ! u) - 1 \<le> p \<and> p \<le> dom_pre_index (bs ! v) - 1 \<and> t ! p = of_nat l"
proof -
  have td: "toured G bs t x" if "x < length G" "reachable G x" for x using tour that start_dominates by (simp add: subtree_toured_def)
  have l: "dominates G l u" "dominates G l v" "l < length G" "reachable G l"
    using lca dominates_le [OF wf u(2)] dominates_reachable u by (auto simp: lowest_common_dominator_def intro: le_less_trans)
  show ?thesis
  proof (cases "u = l")
    case True
    then show ?thesis using td [OF u] le by (auto simp: toured_def intro: exI [of _ "dom_pre_index (bs ! u) - 1"])
  next
    case False
    then obtain c where c: "c \<in> set (dom_children (bs ! l))" "dominates G c u" using dominated_child [OF wf info u l(1)] by auto
    note cf = child_facts [OF wf info l(3) c(1)]
    have nv: "\<not> dominates G c v"
    proof
      assume "dominates G c v"
      then have "dominates G c l" using lca c(2) by (simp add: lowest_common_dominator_def)
      then show False using dominates_le [OF wf l(4)] cf(4) by fastforce
    qed
    have pv: "1 \<le> dom_pre_index (bs ! v)" using pre_index_pos [OF info v(1)] .
    have cu: "dom_pre_index (bs ! c) \<le> dom_pre_index (bs ! u)" "dom_post_index (bs ! u) \<le> dom_post_index (bs ! c)" using numbers_nest [OF info cf(1) u(1) c(2)] .
    have "dom_post_index (bs ! c) - 1 \<le> dom_pre_index (bs ! v) - 1"
    proof (rule ccontr)
      assume "\<not> ?thesis"
      then have "dom_pre_index (bs ! c) - 1 \<le> dom_pre_index (bs ! v) - 1" "dom_pre_index (bs ! v) - 1 < dom_post_index (bs ! c) - 1"
        using cu(1) le by linarith+
      then obtain y where y: "y < length G" "dominates G c y" "t ! (dom_pre_index (bs ! v) - 1) = of_nat y"
        using td [OF cf(1,2)] unfolding toured_def by blast
      then have "(of_nat v :: u32) = of_nat y" using td [OF v] by (simp add: toured_def)
      moreover have "unat (of_nat v :: u32) = v" "unat (of_nat y :: u32) = y" using v(1) y(1) n by (simp_all add: unat_of_nat_u32)
      ultimately show False using nv y(2) by metis
    qed
    moreover have "dom_pre_index (bs ! u) - 1 \<le> dom_post_index (bs ! c) - 1" using number_facts(2) [OF info u] cu(2) by simp
    moreover have "t ! (dom_post_index (bs ! c) - 1) = of_nat l" using td [OF l(3,4)] c(1) by (simp add: toured_def)
    ultimately show ?thesis by blast
  qed
qed

lemma tour_range_min:
  assumes wf: "wf_cfg G" "block_order G" and info: "dominance_info G bs" and n: "length G < 2147483647"
    and tour: "subtree_toured G bs t f 0" and u: "u < length G" "reachable G u" and v: "v < length G" "reachable G v"
    and lca: "lowest_common_dominator G l u v" and le: "dom_pre_index (bs ! u) \<le> dom_pre_index (bs ! v)"
  shows "range_min t (dom_pre_index (bs ! u) - 1) (dom_pre_index (bs ! v) - 1 + 1) = of_nat l"
  unfolding range_min_def
proof (rule Min_eqI)
  have l: "dominates G l u" "dominates G l v" "l < length G" "reachable G l"
    using lca dominates_le [OF wf u(2)] dominates_reachable u by (auto simp: lowest_common_dominator_def intro: le_less_trans)
  obtain p where "dom_pre_index (bs ! u) - 1 \<le> p \<and> p \<le> dom_pre_index (bs ! v) - 1 \<and> t ! p = of_nat l"
    using tour_passes_lca [OF wf info n tour u v lca le] by blast
  then show "of_nat l \<in> (!) t ` {dom_pre_index (bs ! u) - 1..<dom_pre_index (bs ! v) - 1 + 1}" by force
  fix z
  assume "z \<in> (!) t ` {dom_pre_index (bs ! u) - 1..<dom_pre_index (bs ! v) - 1 + 1}"
  then obtain p where p: "z = t ! p" "dom_pre_index (bs ! u) - 1 \<le> p" "p \<le> dom_pre_index (bs ! v) - 1" by auto
  have "dom_pre_index (bs ! l) - 1 \<le> p" using numbers_nest(1) [OF info l(3) u(1) l(1)] p(2) by simp
  moreover have "p < dom_post_index (bs ! l) - 1"
    using numbers_nest(2) [OF info l(3) v(1) l(2)] number_facts(2) [OF info v] pre_index_pos [OF info v(1)] p(3) by simp
  ultimately obtain y where y: "y < length G" "reachable G y" "dominates G l y" "t ! p = of_nat y"
    using tour l(3,4) start_dominates unfolding subtree_toured_def toured_def by blast
  have "l \<le> y" using dominates_le [OF wf y(2,3)] .
  then show "of_nat l \<le> z" using p(1) y(1,4) l(3) n by (simp add: word_le_nat_alt unat_of_nat_u32)
qed simp

section \<open>Building the table\<close>

lemma log2_64_bounds:
  assumes "0 < w" and "w < 4294967295"
  shows "2 ^ util_logbase2_64 (of_nat w) \<le> w" and "w < 2 * 2 ^ util_logbase2_64 (of_nat w)"
proof -
  have u: "unat (of_nat w :: u64) = w" using assms(2) by (intro unat_of_nat_lt) simp
  then have "(0 :: u64) < of_nat w" using assms(1) by (simp add: word_less_nat_alt)
  note util_logbase2_64_bounds [OF this, unfolded u]
  then show "2 ^ util_logbase2_64 (of_nat w) \<le> w" "w < 2 * 2 ^ util_logbase2_64 (of_nat w)" by auto
qed

lemma log2_64_mono:
  assumes "0 < i" and "i \<le> w" and "w < 4294967295"
  shows "util_logbase2_64 (of_nat i) \<le> util_logbase2_64 (of_nat w)"
proof -
  have "(2 :: nat) ^ util_logbase2_64 (of_nat i) < 2 ^ Suc (util_logbase2_64 (of_nat w))"
    using log2_64_bounds(1) [of i] log2_64_bounds(2) [of w] assms unfolding power_Suc by linarith
  then show ?thesis by (simp only: power_strict_increasing_iff one_less_numeral_iff semiring_norm less_Suc_eq_le)
qed

lemma shape_height:
  assumes "rmq_shape t"
  shows "rmq_height t = util_logbase2_64 (of_nat (rmq_width t)) + 1"
proof -
  have "rmq_height t - 1 = util_logbase2_64 (of_nat (rmq_width t))"
    using log2_64_bounds [of "rmq_width t"] assms by (intro log2_unique [of _ "rmq_width t"]) (auto simp: rmq_shape_def)
  then show ?thesis using assms by (auto simp: rmq_shape_def)
qed

text \<open>Shrinking keeps the first row, whatever the allocator does.\<close>

lemma shrink_table:
  assumes sh: "rmq_shape t" and small: "rmq_width t * rmq_height t < 4294967295" and i: "0 < i" "i \<le> rmq_width t"
  shows "\<exists>t'. range_minimum_query_table_resize fresh i t = Some t' \<and> rmq_shape t' \<and> rmq_width t' = i \<and> (\<forall>p < i. rmq_table t' ! p = rmq_table t ! p)"
proof -
  let ?h = "util_logbase2_64 (of_nat i) + 1"
  have "?h \<le> rmq_height t" using log2_64_mono [OF i] sh shape_height [OF sh] by (simp add: rmq_shape_def)
  then have le: "i * ?h \<le> rmq_width t * rmq_height t" using i(2) by (intro mult_le_mono)
  then obtain t' where t': "range_minimum_query_table_resize fresh i t = Some t'" "rmq_shape t'" "rmq_width t' = i"
    using resize_shape [OF i(1), of t fresh] small sh by (auto simp: rmq_shape_def)
  have "i * 1 \<le> i * ?h" by (intro mult_le_mono2) simp
  then have "rmq_table t' ! p = rmq_table t ! p" if "p < i" for p
    using t'(1) le sh that unfolding range_minimum_query_table_resize_def Let_def by (auto simp: c_assert_def rmq_shape_def nth_append split: if_splits)
  then show ?thesis using t' by blast
qed

lemma single_block_toured:
  assumes wf: "wf_cfg G" and info: "dominance_info G bs" and "length G = 1" and "t ! 0 = 0" and "f ! 0 = 0"
  shows "dom_post_index (bs ! 0) = 2" and "subtree_toured G bs t f 0"
proof -
  have c: "dom_children (bs ! 0) = []" using info_facts(3) [OF info, of 0] immediate_dominator_start assms(3) by simp
  then show p: "dom_post_index (bs ! 0) = 2" using number_facts(1,4) [OF info, of 0] reachable_start assms(3) by simp
  have "toured G bs t 0" using c p number_facts(1) [OF info, of 0] assms(3,4) reachable_start dominates_refl
    unfolding toured_def by (auto intro!: exI [of _ 0])
  then show "subtree_toured G bs t f 0" using assms(3,5) unfolding subtree_toured_def by simp
qed

text \<open>The state in which queries are answered, before and after the rows of the table are filled.\<close>

definition tour_table :: "cfg \<Rightarrow> nir_block list \<Rightarrow> nir_dom_lca_info \<Rightarrow> bool" where
  "tour_table G bs info \<longleftrightarrow> rmq_shape (lca_table info) \<and> rmq_width (lca_table info) = dom_post_index (bs ! 0) - 1 \<and>
     length (block_from_idx info) = length G \<and> subtree_toured G bs (rmq_table (lca_table info)) (block_from_idx info) 0"

lemma generate_euler_tour_spec:
  assumes wf: "wf_cfg G" "block_order G" and info: "dominance_info G bs" and n: "length G < 2147483647"
    and sh: "rmq_shape (lca_table li)" and w: "rmq_width (lca_table li) = length G * 2 - 1"
    and small: "rmq_width (lca_table li) * rmq_height (lca_table li) < 4294967295" and f: "length (block_from_idx li) = length G"
  shows "\<exists>li'. generate_euler_tour fresh bs li = Some li' \<and> tour_table G bs li'"
proof (cases "length G = 1")
  case True
  let ?t = "(rmq_table (lca_table li))[0 := 0]" and ?f = "(block_from_idx li)[0 := 0]"
  have l: "0 < length (rmq_table (lca_table li))" "0 < length (block_from_idx li)" using sh f True by (auto simp: rmq_shape_def)
  then have "dom_post_index (bs ! 0) = 2" "subtree_toured G bs ?t ?f 0" using single_block_toured [OF wf(1) info True, of ?t ?f] by auto
  then have "tour_table G bs (li\<lparr>lca_table := (lca_table li)\<lparr>rmq_table := ?t\<rparr>, block_from_idx := ?f\<rparr>)"
    using sh w f True by (simp add: tour_table_def rmq_shape_def)
  then show ?thesis using l True info_facts(1) [OF info] by (simp add: generate_euler_tour_def Let_def)
next
  case False
  let ?t = "lca_table li"
  have g: "2 \<le> length G" using False wf(1) by (cases G) (auto simp: wf_cfg_def Suc_le_eq)
  have h: "2 \<le> rmq_height ?t"
  proof (rule ccontr)
    assume "\<not> ?thesis"
    then have "rmq_height ?t = 1" using sh by (auto simp: rmq_shape_def)
    then have "rmq_width ?t < 2" using sh by (simp add: rmq_shape_def)
    then show False using w g by linarith
  qed
  then have "rmq_width ?t * 2 \<le> rmq_width ?t * rmq_height ?t" by (intro mult_le_mono2)
  moreover have "length (rmq_table ?t) = rmq_width ?t * rmq_height ?t" using sh by (simp add: rmq_shape_def)
  ultimately have "rmq_width ?t + length G \<le> length (rmq_table ?t)" using w g by linarith
  then obtain t' f' where e: "euler_loop bs (rmq_width ?t) 0 (Some 0) (rmq_width ?t) True (rmq_table ?t) (block_from_idx li) = Some (dom_post_index (bs ! 0) - 1, None, t', f')"
      and l: "length t' = length (rmq_table ?t)" "length f' = length G" and tour: "subtree_toured G bs t' f' 0"
    using euler_tour [OF wf info n w _ f] by blast
  let ?i = "dom_post_index (bs ! 0) - 1" and ?t' = "?t\<lparr>rmq_table := t'\<rparr>"
  have g0: "0 < length G" using g by linarith
  have i: "0 < ?i" "?i \<le> rmq_width ?t'" using number_facts(1-3) [OF info g0] reachable_start w by auto
  have sh': "rmq_shape ?t'" using sh l(1) by (simp add: rmq_shape_def)
  obtain t2 where t2: "(if ?i \<noteq> rmq_width ?t' then range_minimum_query_table_resize fresh ?i ?t' else Some ?t') = Some t2"
      "rmq_shape t2" "rmq_width t2 = ?i" "\<forall>p < ?i. rmq_table t2 ! p = t' ! p"
    using shrink_table [OF sh' _ i, of fresh] small sh' by (cases "?i = rmq_width ?t'") auto
  have "subtree_toured G bs (rmq_table t2) f' 0" using subtree_toured_cong [OF wf info g0 tour] t2(4) by blast
  moreover have "generate_euler_tour fresh bs li = Some (li\<lparr>lca_table := t2, block_from_idx := f'\<rparr>)"
    using e h t2(1) False info_facts(1) [OF info] by (simp add: generate_euler_tour_def Let_def cong: if_cong)
  ultimately show ?thesis using t2(2,3) l(2) by (simp add: tour_table_def)
qed

definition lca_ready :: "cfg \<Rightarrow> nir_block list \<Rightarrow> nir_dom_lca_info \<Rightarrow> bool" where
  "lca_ready G bs info \<longleftrightarrow> length (block_from_idx info) = length G \<and>
     (\<exists>xs. subtree_toured G bs xs (block_from_idx info) 0 \<and>
        (\<forall>l r. l < r \<and> r \<le> dom_post_index (bs ! 0) - 1 \<longrightarrow> range_minimum_query (lca_table info) l r = Some (range_min xs l r)))"

lemma lca_impl_ready:
  assumes wf: "wf_cfg G" "block_order G" and info: "dominance_info G bs" and n: "length G < 2147483647"
    and w: "w = length G * 2 - 1" and small: "w * (util_logbase2_64 (of_nat w) + 1) < 4294967295"
    and mem: "w * (util_logbase2_64 (of_nat w) + 1) \<le> length (rmq_table (lca_table li)) + length fresh"
      "length G \<le> length (block_from_idx li) + length fresh_blocks"
  shows "\<exists>li'. nir_calc_dominance_lca_impl fresh fresh_blocks fresh' False bs li = Some li' \<and> lca_ready G bs li'"
proof -
  have g: "0 < length G" using wf(1) by (auto simp: wf_cfg_def)
  then have w0: "0 < w" unfolding w by linarith
  obtain t where t: "range_minimum_query_table_resize fresh w (lca_table li) = Some t" "rmq_shape t" "rmq_width t = w"
    using resize_shape [OF w0 small mem(1)] by blast
  define l1 where "l1 = li\<lparr>lca_table := t, block_from_idx := take (length G) (block_from_idx li @ fresh_blocks)\<rparr>"
  have r: "realloc_info fresh fresh_blocks (length bs) li = Some l1"
    using t(1) [unfolded w] info_facts(1) [OF info] by (simp add: realloc_info_def l1_def)
  have "length (block_from_idx l1) = length G" "lca_table l1 = t" using mem(2) by (simp_all add: l1_def)
  then obtain l2 where g2: "generate_euler_tour fresh' bs l1 = Some l2" "tour_table G bs l2"
    using generate_euler_tour_spec [OF wf info n, of l1 fresh'] t(2,3) w small shape_height [OF t(2)] by auto
  let ?t = "lca_table l2" and ?xs = "take (rmq_width (lca_table l2)) (rmq_table (lca_table l2))"
  have sh: "rmq_shape ?t" and wd: "rmq_width ?t = dom_post_index (bs ! 0) - 1" using g2(2) by (auto simp: tour_table_def)
  obtain rows where p: "range_minimum_query_table_preprocess ?t = Some (?t\<lparr>rmq_table := rows\<rparr>)"
      "length rows = rmq_width ?t * rmq_height ?t" "\<forall>j < rmq_height ?t. row_ok rows (rmq_width ?t) ?xs j"
    using preprocess_rows [OF sh] by blast
  have "subtree_toured G bs ?xs (block_from_idx l2) 0"
    using subtree_toured_cong [OF wf info g, of "rmq_table ?t" "block_from_idx l2" ?xs] g2(2) wd by (simp add: tour_table_def)
  moreover have "range_minimum_query (?t\<lparr>rmq_table := rows\<rparr>) l r = Some (range_min ?xs l r)" if "l < r" "r \<le> dom_post_index (bs ! 0) - 1" for l r
    using range_minimum_query_row [OF sh p(2,3) that(1)] that(2) wd by simp
  ultimately have "lca_ready G bs (l2\<lparr>lca_table := ?t\<lparr>rmq_table := rows\<rparr>\<rparr>)" using g2(2) by (auto simp: lca_ready_def tour_table_def)
  then show ?thesis using r g2(1) p(1) by (simp add: nir_calc_dominance_lca_impl_def)
qed

section \<open>Queries\<close>

lemma lca_is_lca:
  assumes wf: "wf_cfg G" "block_order G" and info: "dominance_info G bs" and u: "u < length G" "reachable G u" and v: "v < length G"
    and lca: "lowest_common_dominator G l u v"
  shows "is_lca bs l u v" and "l < length G" and "reachable G l"
proof -
  have l: "dominates G l u" "dominates G l v" using lca by (auto simp: lowest_common_dominator_def)
  show lg: "l < length G" using dominates_le [OF wf u(2) l(1)] u(1) by simp
  show rl: "reachable G l" using dominates_reachable [OF l(1) u(2)] .
  have "\<not> (dominates G c u \<and> dominates G c v)" if c: "c \<in> set (dom_children (bs ! l))" for c
  proof
    assume "dominates G c u \<and> dominates G c v"
    then have "dominates G c l" using lca by (simp add: lowest_common_dominator_def)
    then have "c \<le> l" by (rule dominates_le [OF wf rl])
    then show False using child_facts(4) [OF wf info lg c] by simp
  qed
  then show "is_lca bs l u v"
    using l u(1) v lg info_facts(4) [OF info lg] child_facts(1) [OF wf info lg] by (simp add: is_lca_def info_facts(5) [OF info])
qed

lemma nir_dominance_lca_reachable:
  assumes wf: "wf_cfg G" "block_order G" and info: "dominance_info G bs" and n: "length G < 2147483647" and rdy: "lca_ready G bs li"
    and u: "u < length G" "reachable G u" and v: "v < length G" "reachable G v" and lca: "lowest_common_dominator G l u v"
  shows "nir_dominance_lca li bs (Some u) (Some v) = Some (Some l)"
proof -
  have g: "0 < length G" using u(1) by linarith
  obtain xs where tour: "subtree_toured G bs xs (block_from_idx li) 0" and len: "length (block_from_idx li) = length G"
      and q: "\<And>l r. l < r \<Longrightarrow> r \<le> dom_post_index (bs ! 0) - 1 \<Longrightarrow> range_minimum_query (lca_table li) l r = Some (range_min xs l r)"
    using rdy by (auto simp: lca_ready_def)
  note ll = lca_is_lca [OF wf info u v(1) lca]
  have idx: "block_from_idx li ! l = l" using tour ll(2,3) start_dominates by (auto simp: subtree_toured_def)
  have small: "unat (of_nat l :: u32) = l" using ll(2) n by (simp add: unat_of_nat_u32)
  have rb: "block_return_if_reachable bs (Some x) = Some x" if "x < length G" "reachable G x" for x
    using number_facts(5) [OF info that(1)] that(2) by (simp add: block_return_if_reachable_def)
  have bound: "dom_pre_index (bs ! x) - 1 + 1 \<le> dom_post_index (bs ! 0) - 1" if "x < length G" "reachable G x" for x
    using numbers_nest(2) [OF info g that(1) start_dominates] number_facts(2) [OF info that] pre_index_pos [OF info that(1)] by simp
  define i where "i x = dom_lca_representative (bs ! x)" for x
  have pos: "dom_pre_index (bs ! x) = i x + 1" if "x < length G" for x using pre_index_pos [OF info that] by (simp add: i_def dom_lca_representative_def)
  have "range_minimum_query (lca_table li) (min (i u) (i v)) (max (i u) (i v) + 1) = Some (of_nat l)"
  proof (cases "i u \<le> i v")
    case True
    then show ?thesis using q [of "i u" "i v + 1"] bound [OF v] tour_range_min [OF wf info n tour u v lca] pos [OF u(1)] pos [OF v(1)] by simp
  next
    case False
    have lca': "lowest_common_dominator G l v u" using lca by (auto simp: lowest_common_dominator_def)
    show ?thesis using False q [of "i v" "i u + 1"] bound [OF u] tour_range_min [OF wf info n tour v u lca'] pos [OF u(1)] pos [OF v(1)] by simp
  qed
  moreover have "(if i u > i v then (i v, i u) else (i u, i v)) = (min (i u) (i v), max (i u) (i v))" by simp
  ultimately show ?thesis using rb [OF u] rb [OF v] ll(1,2) len small idx
    by (simp add: nir_dominance_lca_def flip: i_def)
qed

text \<open>
  Property C31.  Lowest common dominators: after the dominance analysis, the table is built without
  a failed assertion or an access out of bounds, from whatever memory the allocator returns.  A
  query for two reachable blocks then returns the block that dominates both and that every
  common dominator dominates, and its own check \<open>is_lca\<close> holds; if one of the blocks is
  unreachable, the other is returned if it is reachable, and null otherwise.
\<close>

theorem nir_dominance_lca_correct:
  assumes "wf_cfg G" and "block_order G" and "length G < 2147483647" and "w = length G * 2 - 1"
    and "w * (util_logbase2_64 (of_nat w) + 1) < 4294967295"
    and "w * (util_logbase2_64 (of_nat w) + 1) \<le> length (rmq_table (lca_table li)) + length fresh"
    and "length G \<le> length (block_from_idx li) + length fresh_blocks"
  shows "\<exists>bs' li'. nir_calc_dominance_impl G junk False bs = Some bs' \<and>
    nir_calc_dominance_lca_impl fresh fresh_blocks fresh' False bs' li = Some li' \<and>
    (\<forall>u < length G. \<forall>v < length G.
       if reachable G u \<and> reachable G v
       then \<exists>l. nir_dominance_lca li' bs' (Some u) (Some v) = Some (Some l) \<and> lowest_common_dominator G l u v
       else nir_dominance_lca li' bs' (Some u) (Some v) =
         Some (if reachable G u then Some u else if reachable G v then Some v else None))"
proof -
  obtain bs' where b: "nir_calc_dominance_impl G junk False bs = Some bs'" "dominance_info G bs'"
    using nir_calc_dominance_impl_spec [OF assms(1-3)] by blast
  obtain li' where l: "nir_calc_dominance_lca_impl fresh fresh_blocks fresh' False bs' li = Some li'" "lca_ready G bs' li'"
    using lca_impl_ready [OF assms(1,2) b(2) assms(3-7)] by blast
  have "\<exists>l. nir_dominance_lca li' bs' (Some u) (Some v) = Some (Some l) \<and> lowest_common_dominator G l u v"
    if "u < length G" "reachable G u" "v < length G" "reachable G v" for u v
    using lowest_common_dominator_exists [OF assms(1,2) b(2) that(1,2), of v]
      nir_dominance_lca_reachable [OF assms(1,2) b(2) assms(3) l(2) that] by blast
  moreover have "nir_dominance_lca li' bs' (Some u) (Some v) = Some (if reachable G u then Some u else if reachable G v then Some v else None)"
    if "u < length G" "v < length G" "\<not> (reachable G u \<and> reachable G v)" for u v
    using that number_facts(5) [OF b(2)] by (auto simp: nir_dominance_lca_def block_return_if_reachable_def)
  ultimately show ?thesis using b(1) l(1) by auto
qed

theorem nir_dominance_lca_correct_witness:
  "\<exists>bs' li'. nir_calc_dominance_impl loop_cfg 0 False [] = Some bs' \<and>
    nir_calc_dominance_lca_impl (replicate 44 0) (replicate 6 0) [] False bs' \<lparr>lca_table = \<lparr>rmq_table = [], rmq_width = 0, rmq_height = 0\<rparr>, block_from_idx = []\<rparr> = Some li' \<and>
    (\<forall>u < 6. \<forall>v < 6.
       if reachable loop_cfg u \<and> reachable loop_cfg v
       then \<exists>l. nir_dominance_lca li' bs' (Some u) (Some v) = Some (Some l) \<and> lowest_common_dominator loop_cfg l u v
       else nir_dominance_lca li' bs' (Some u) (Some v) =
         Some (if reachable loop_cfg u then Some u else if reachable loop_cfg v then Some v else None))"
proof -
  have l: "util_logbase2_64 11 = 3" by code_simp
  show ?thesis
    using nir_dominance_lca_correct [OF loop_cfg_wf(1) loop_cfg_order, of 11
      "\<lparr>lca_table = \<lparr>rmq_table = [], rmq_width = 0, rmq_height = 0\<rparr>, block_from_idx = []\<rparr>" "replicate 44 0" "replicate 6 0" 0 "[]" "[]"]
    by (simp add: l loop_cfg_wf(2))
qed

end
