(* ===== verification/Nir_Parallel_Copy.thy ===== *)
theory Nir_Parallel_Copy
  imports Mesa_Prelude
begin

text \<open>
  The sequentialisation of parallel copies when a function leaves SSA form:
  \<open>resolve_parallel_copy\<close> of \<open>src/src/compiler/nir/nir_from_ssa.c\<close>.  A definition is a number;
  registers are definitions too.  The loads and stores that the code emits are collected as pairs
  of a register and the value stored in it.  Index \<open>-1\<close> is \<open>None\<close>; the outer \<open>None\<close> is a failed
  assertion or an access out of bounds.
\<close>

section \<open>The code\<close>

record copy_value =
  is_reg :: bool
  ssa :: nat

record nir_parallel_copy =
  src_is_reg :: bool
  dst_is_reg :: bool
  copy_src :: nat
  copy_dst :: nat

record from_ssa_state =
  consider_divergence :: bool
  reg_divergent :: "nat \<Rightarrow> bool"
  ssa_divergent :: "nat \<Rightarrow> bool"
  next_def :: nat
  stores :: "(nat \<times> copy_value) list"

definition copy_values_equal :: "copy_value \<Rightarrow> copy_value \<Rightarrow> bool" where
  "copy_values_equal a b \<longleftrightarrow> is_reg a = is_reg b \<and> ssa a = ssa b"

definition copy_value_is_divergent :: "from_ssa_state \<Rightarrow> copy_value \<Rightarrow> bool" where
  "copy_value_is_divergent st v = (if \<not> is_reg v then ssa_divergent st (ssa v) else reg_divergent st (ssa v))"

definition copy_values :: "from_ssa_state \<Rightarrow> copy_value \<Rightarrow> copy_value \<Rightarrow> from_ssa_state option" where
  "copy_values st dest src = do {
     c_assert (\<not> consider_divergence st \<or> \<not> copy_value_is_divergent st src \<or> copy_value_is_divergent st dest);
     c_assert (is_reg dest);
     Some (st\<lparr>stores := stores st @ [(ssa dest, src)]\<rparr>)
   }"

definition set_reg_divergent :: "nat \<Rightarrow> bool \<Rightarrow> from_ssa_state \<Rightarrow> from_ssa_state" where
  "set_reg_divergent reg d st = st\<lparr>reg_divergent := (reg_divergent st)(reg := d)\<rparr>"

text \<open>A new register is a definition that did not exist before.\<close>

definition nir_decl_reg :: "from_ssa_state \<Rightarrow> nat \<times> from_ssa_state" where
  "nir_decl_reg st = (next_def st, st\<lparr>next_def := next_def st + 1\<rparr>)"

definition no_op_copy :: "nir_parallel_copy \<Rightarrow> bool" where
  "no_op_copy c \<longleftrightarrow> src_is_reg c \<and> copy_src c = copy_dst c"

text \<open>The first loop counts the copies, the second one fills the arrays.\<close>

fun count_copies :: "nir_parallel_copy list \<Rightarrow> nat \<Rightarrow> nat option" where
  "count_copies [] num_copies = Some num_copies"
| "count_copies (c # cs) num_copies = do {
     c_assert (dst_is_reg c);
     count_copies cs (if no_op_copy c then num_copies else num_copies + 1)
   }"

definition find_value :: "copy_value list \<Rightarrow> copy_value \<Rightarrow> nat option" where
  "find_value values v = fold (\<lambda>i idx. if copy_values_equal (values ! i) v then Some i else idx) [0..<length values] None"

fun dest_unfilled :: "copy_value list \<Rightarrow> nat option list \<Rightarrow> copy_value \<Rightarrow> nat list \<Rightarrow> unit option" where
  "dest_unfilled values pred v [] = Some ()"
| "dest_unfilled values pred v (i # is) = do {
     c_assert (copy_values_equal (values ! i) v \<longrightarrow> pred ! i = None);
     dest_unfilled values pred v is
   }"

definition index_value :: "nat \<Rightarrow> copy_value list \<Rightarrow> copy_value \<Rightarrow> (nat \<times> copy_value list) option" where
  "index_value sz values v = (case find_value values v of
       Some i \<Rightarrow> Some (i, values)
     | None \<Rightarrow> do { c_assert (length values < sz); Some (length values, values @ [v]) })"

fun setup_copies :: "nat \<Rightarrow> nir_parallel_copy list \<Rightarrow> copy_value list \<Rightarrow> nat option list \<Rightarrow> nat option list \<Rightarrow> nat list \<Rightarrow>
    (copy_value list \<times> nat option list \<times> nat option list \<times> nat list) option" where
  "setup_copies sz [] values loc pred to_do = Some (values, loc, pred, to_do)"
| "setup_copies sz (c # cs) values loc pred to_do =
     (if no_op_copy c then setup_copies sz cs values loc pred to_do
      else do {
        (src_idx, values) \<leftarrow> index_value sz values \<lparr>is_reg = src_is_reg c, ssa = copy_src c\<rparr>;
        c_assert (dst_is_reg c);
        let dest_value = \<lparr>is_reg = True, ssa = copy_dst c\<rparr>;
        dest_unfilled values pred dest_value [0..<length values];
        (dest_idx, values) \<leftarrow> index_value sz values dest_value;
        c_assert (length to_do < sz);
        setup_copies sz cs values (loc[src_idx := Some src_idx]) (pred[dest_idx := Some src_idx]) (dest_idx # to_do)
      })"

text \<open>The measure of the inner loop: the destinations still to be filled.\<close>

definition unfilled :: "nat option list \<Rightarrow> nat" where
  "unfilled pred = length (filter (\<lambda>p. p \<noteq> None) pred)"

lemma unfilled_decreases:
  assumes "b < length pred" and "pred ! b = Some a"
  shows "unfilled (pred[b := None]) < unfilled pred"
  using arg_cong [OF id_take_nth_drop [OF assms(1)], of unfilled] assms(2)
  by (simp add: unfilled_def upd_conv_take_nth_drop [OF assms(1)])

text \<open>The inner loop; a stack is a list with its top first.\<close>

function ready_loop :: "nat \<Rightarrow> copy_value list \<Rightarrow> from_ssa_state \<Rightarrow> nat option list \<Rightarrow> nat option list \<Rightarrow> nat list \<Rightarrow>
    (from_ssa_state \<times> nat option list \<times> nat option list) option" where
  "ready_loop sz values st loc pred [] = Some (st, loc, pred)"
| "ready_loop sz values st loc pred (b # ready) = do {
     c_assert (b < length pred);
     a \<leftarrow> pred ! b;
     l \<leftarrow> loc ! a;
     st \<leftarrow> copy_values st (values ! b) (values ! l);
     let pred' = pred[b := None];
     if (\<not> consider_divergence st \<or> copy_value_is_divergent st (values ! a) = copy_value_is_divergent st (values ! b)) \<and> pred' ! a \<noteq> None
     then do {
       c_assert (length ready < sz);
       ready_loop sz values st (loc[a := Some b]) pred' (a # ready)
     }
     else ready_loop sz values st loc pred' ready
   }"
  by pat_completeness auto

termination
  by (relation "measure (\<lambda>(sz, values, st, loc, pred, ready). unfilled pred)") (auto simp: c_assert_eq_Some intro: unfilled_decreases)

declare ready_loop.simps [simp del]

text \<open>The outer loop: one destination that is still to be filled after the other.\<close>

fun to_do_loop :: "nat \<Rightarrow> nat list \<Rightarrow> copy_value list \<Rightarrow> from_ssa_state \<Rightarrow> nat option list \<Rightarrow> nat option list \<Rightarrow> nat list \<Rightarrow> from_ssa_state option" where
  "to_do_loop sz [] values st loc pred ready = do {
     (st, loc, pred) \<leftarrow> ready_loop sz values st loc pred ready;
     Some st
   }"
| "to_do_loop sz (b # to_do) values st loc pred ready = do {
     (st, loc, pred) \<leftarrow> ready_loop sz values st loc pred ready;
     if pred ! b = None then to_do_loop sz to_do values st loc pred []
     else do {
       c_assert (length values < sz);
       let (reg, st) = nir_decl_reg st;
       let st = (if consider_divergence st then set_reg_divergent reg (copy_value_is_divergent st (values ! b)) st else st);
       let temp = \<lparr>is_reg = True, ssa = reg\<rparr>;
       st \<leftarrow> copy_values st temp (values ! b);
       to_do_loop sz to_do (values @ [temp]) st (loc[b := Some (length values)]) pred [b]
     }
   }"

definition resolve_parallel_copy :: "nir_parallel_copy list \<Rightarrow> from_ssa_state \<Rightarrow> from_ssa_state option" where
  "resolve_parallel_copy pcopy st = do {
     num_copies \<leftarrow> count_copies pcopy 0;
     if num_copies = 0 then Some st
     else do {
       let sz = num_copies * 2;
       (values, loc, pred, to_do) \<leftarrow> setup_copies sz pcopy [] (replicate sz None) (replicate sz None) [];
       let ready = rev (filter (\<lambda>i. pred ! i \<noteq> None \<and> loc ! i = None) [0..<length values]);
       to_do_loop sz to_do values st loc pred ready
     }
   }"

section \<open>The meaning of the emitted code\<close>

definition value_of :: "(nat \<Rightarrow> 'v) \<Rightarrow> (nat \<Rightarrow> 'v) \<Rightarrow> copy_value \<Rightarrow> 'v" where
  "value_of S R v = (if is_reg v then R (ssa v) else S (ssa v))"

definition run_stores :: "(nat \<Rightarrow> 'v) \<Rightarrow> (nat \<times> copy_value) list \<Rightarrow> (nat \<Rightarrow> 'v) \<Rightarrow> nat \<Rightarrow> 'v" where
  "run_stores S ss R = fold (\<lambda>(r, v) R. R(r := value_of S R v)) ss R"

lemma run_stores_snoc: "run_stores S (ss @ [(r, v)]) R = (run_stores S ss R)(r := value_of S (run_stores S ss R) v)"
  by (simp add: run_stores_def)

section \<open>The stacks and arrays\<close>

text \<open>The arrays of indices as functions.\<close>

definition arr :: "nat option list \<Rightarrow> nat \<Rightarrow> nat option" where
  "arr xs i = (if i < length xs then xs ! i else None)"

lemma arr_update: "i < length xs \<Longrightarrow> arr (xs[i := v]) = (arr xs)(i := v)"
  by (auto simp: arr_def fun_eq_iff)

lemma arr_nth: "i < length xs \<Longrightarrow> xs ! i = arr xs i"
  by (simp add: arr_def)

text \<open>
  A destination is ready when it is still to be filled and its own value, if anyone needs it, is
  elsewhere.  Only the top of the stack of ready destinations may be a source.
\<close>

definition unsafe :: "(nat \<Rightarrow> nat option) \<Rightarrow> (nat \<Rightarrow> nat option) \<Rightarrow> nat set" where
  "unsafe loc pred = {x. pred x \<noteq> None \<and> loc x = Some x}"

definition book_inv :: "nat \<Rightarrow> nat \<Rightarrow> (nat \<Rightarrow> nat option) \<Rightarrow> (nat \<Rightarrow> nat option) \<Rightarrow> nat list \<Rightarrow> bool" where
  "book_inv sz n loc pred ready \<longleftrightarrow>
     (\<forall>b. pred b \<noteq> None \<longrightarrow> b < sz) \<and>
     (\<forall>b a. pred b = Some a \<longrightarrow> a < sz \<and> a \<noteq> b \<and> loc a \<noteq> None) \<and>
     (\<forall>a l. loc a = Some l \<longrightarrow> l < sz \<and> (pred l = None \<or> l = a)) \<and>
     (\<forall>b. b \<in> set ready \<longleftrightarrow> pred b \<noteq> None \<and> loc b \<noteq> Some b) \<and> distinct ready \<and>
     (\<forall>y \<in> set (tl ready). loc y = None) \<and> n + card (unsafe loc pred) \<le> sz"

lemma book_invD:
  assumes "book_inv sz n loc pred ready"
  shows "pred b \<noteq> None \<Longrightarrow> b < sz" and "pred b = Some a \<Longrightarrow> a < sz" and "pred b = Some a \<Longrightarrow> a \<noteq> b" and "pred b = Some a \<Longrightarrow> loc a \<noteq> None"
    and "loc a = Some l \<Longrightarrow> l < sz" and "loc a = Some l \<Longrightarrow> pred l = None \<or> l = a"
    and "b \<in> set ready \<longleftrightarrow> pred b \<noteq> None \<and> loc b \<noteq> Some b" and "distinct ready"
    and "y \<in> set (tl ready) \<Longrightarrow> loc y = None" and "n + card (unsafe loc pred) \<le> sz"
  using assms unfolding book_inv_def by blast+

lemma book_invI:
  assumes "\<And>b. pred b \<noteq> None \<Longrightarrow> b < sz" and "\<And>b a. pred b = Some a \<Longrightarrow> a < sz \<and> a \<noteq> b \<and> loc a \<noteq> None"
    and "\<And>a l. loc a = Some l \<Longrightarrow> l < sz \<and> (pred l = None \<or> l = a)"
    and "\<And>b. b \<in> set ready \<longleftrightarrow> pred b \<noteq> None \<and> loc b \<noteq> Some b" and "distinct ready"
    and "\<And>y. y \<in> set (tl ready) \<Longrightarrow> loc y = None" and "n + card (unsafe loc pred) \<le> sz"
  shows "book_inv sz n loc pred ready"
  using assms unfolding book_inv_def by blast

lemma finite_unsafe: "book_inv sz n loc pred ready \<Longrightarrow> finite (unsafe loc pred)"
  by (rule finite_subset [of _ "{..<sz}"]) (auto simp: unsafe_def book_inv_def)

lemma book_ready_length: "book_inv sz n loc pred ready \<Longrightarrow> length ready \<le> sz"
proof -
  assume inv: "book_inv sz n loc pred ready"
  have "set ready \<subseteq> {..<sz}" using book_invD(1,7) [OF inv] by blast
  then have "card (set ready) \<le> card {..<sz}" by (intro card_mono) simp_all
  then show ?thesis using distinct_card [OF book_invD(8) [OF inv]] by simp
qed

lemma book_smaller:
  assumes inv: "book_inv sz n loc pred ready" and "unsafe loc' pred' \<subseteq> unsafe loc pred"
  shows "n + card (unsafe loc' pred') \<le> sz"
  using card_mono [OF finite_unsafe [OF inv] assms(2)] book_invD(10) [OF inv] by linarith

lemma book_keep:
  assumes inv: "book_inv sz n loc pred (b # ready)"
  shows "book_inv sz n loc (pred(b := None)) ready"
proof (rule book_invI)
  note i = book_invD [OF inv]
  show "n + card (unsafe loc (pred(b := None))) \<le> sz" by (rule book_smaller [OF inv]) (auto simp: unsafe_def)
  show "x \<in> set ready \<longleftrightarrow> (pred(b := None)) x \<noteq> None \<and> loc x \<noteq> Some x" for x using i(7) [of x] i(8) by auto
  show "loc y = None" if "y \<in> set (tl ready)" for y using i(9) [of y] that list.set_sel(2) [of ready y] by (cases ready) auto
  show "x < sz" if "(pred(b := None)) x \<noteq> None" for x using i(1) [of x] that by (simp split: if_splits)
  show "y < sz \<and> y \<noteq> x \<and> loc y \<noteq> None" if "(pred(b := None)) x = Some y" for x y using i(2-4) [of x y] that by (simp split: if_splits)
  show "k < sz \<and> ((pred(b := None)) k = None \<or> k = x)" if "loc x = Some k" for x k using i(5,6) [OF that] by auto
  show "distinct ready" using i(8) by simp
qed

lemma book_move:
  assumes inv: "book_inv sz n loc pred (b # ready)" and a: "pred b = Some a" and pa: "pred a \<noteq> None"
  shows "book_inv sz n (loc(a := Some b)) (pred(b := None)) (a # ready)"
proof -
  note i = book_invD [OF inv]
  have ab: "a \<noteq> b" "loc a \<noteq> None" "b < sz" using i(3,4) [OF a] i(1) [of b] a by auto
  have none: "loc y = None" if "y \<in> set ready" for y using i(9) that by simp
  have ar: "a \<notin> set ready" using none [of a] ab(2) by auto
  have c: "n + card (unsafe (loc(a := Some b)) (pred(b := None))) \<le> sz" by (rule book_smaller [OF inv]) (use ab in \<open>auto simp: unsafe_def\<close>)
  have r: "x \<in> set (a # ready) \<longleftrightarrow> (pred(b := None)) x \<noteq> None \<and> (loc(a := Some b)) x \<noteq> Some x" for x
    using i(7) [of x] i(8) ab pa by auto
  have t: "\<forall>y \<in> set ready. (loc(a := Some b)) y = None" using none ar by auto
  have q: "k < sz \<and> ((pred(b := None)) k = None \<or> k = x)" if "(loc(a := Some b)) x = Some k" for x k
    using i(5,6) [of x k] that ab by (auto split: if_splits)
  have d: "y < sz \<and> y \<noteq> x \<and> (loc(a := Some b)) y \<noteq> None" if "(pred(b := None)) x = Some y" for x y
    using i(2-4) [of x y] that by (auto split: if_splits)
  have e: "x < sz" if "(pred(b := None)) x \<noteq> None" for x using i(1) [of x] that by (auto split: if_splits)
  have "distinct (a # ready)" using ar i(8) by simp
  then show ?thesis using c r t q d e by (intro book_invI) auto
qed

lemma book_break:
  assumes inv: "book_inv sz n loc pred []" and b: "pred b \<noteq> None"
  shows "loc b = Some b" and "n < sz" and "pred n = None \<Longrightarrow> book_inv sz (n + 1) (loc(b := Some n)) pred [b]"
proof -
  note i = book_invD [OF inv]
  show lb: "loc b = Some b" using i(7) [of b] b by simp
  then have bu: "b \<in> unsafe loc pred" using b by (simp add: unsafe_def)
  then have c1: "card (unsafe loc pred) = Suc (card (unsafe loc pred - {b}))" by (rule card.remove [OF finite_unsafe [OF inv]])
  then show n: "n < sz" using i(10) by linarith
  assume pn: "pred n = None"
  then have nb: "n \<noteq> b" using b by auto
  have "unsafe (loc(b := Some n)) pred = unsafe loc pred - {b}" using nb by (auto simp: unsafe_def)
  then have c: "n + 1 + card (unsafe (loc(b := Some n)) pred) \<le> sz" using i(10) c1 by simp
  have r: "x \<in> set [b] \<longleftrightarrow> pred x \<noteq> None \<and> (loc(b := Some n)) x \<noteq> Some x" for x using i(7) [of x] b nb by auto
  have q: "k < sz \<and> (pred k = None \<or> k = x)" if "(loc(b := Some n)) x = Some k" for x k
    using i(5,6) [of x k] that n pn by (auto split: if_splits)
  have d: "y < sz \<and> y \<noteq> x \<and> (loc(b := Some n)) y \<noteq> None" if "pred x = Some y" for x y using i(2-4) [OF that] by auto
  show "book_inv sz (n + 1) (loc(b := Some n)) pred [b]" using c r q d i(1) by (intro book_invI) auto
qed

section \<open>The values\<close>

definition values_ok :: "from_ssa_state \<Rightarrow> copy_value list \<Rightarrow> (nat \<Rightarrow> nat option) \<Rightarrow> bool" where
  "values_ok st values pred0 \<longleftrightarrow> distinct values \<and> (\<forall>v \<in> set values. ssa v < next_def st) \<and>
     (\<forall>b a. pred0 b = Some a \<longrightarrow> b < length values \<and> a < length values \<and> is_reg (values ! b) \<and>
        (consider_divergence st \<and> copy_value_is_divergent st (values ! a) \<longrightarrow> copy_value_is_divergent st (values ! b)))"

text \<open>
  \<open>R0\<close> are the registers before the copies and \<open>R\<close> those now.  The value that a destination
  still waits for is at its location, and the filled destinations hold what they should.
\<close>

definition data_inv :: "(nat \<Rightarrow> 'v) \<Rightarrow> (nat \<Rightarrow> 'v) \<Rightarrow> (nat \<Rightarrow> 'v) \<Rightarrow> nat \<Rightarrow> from_ssa_state \<Rightarrow> copy_value list \<Rightarrow>
    (nat \<Rightarrow> nat option) \<Rightarrow> (nat \<Rightarrow> nat option) \<Rightarrow> (nat \<Rightarrow> nat option) \<Rightarrow> bool" where
  "data_inv S R0 R n0 st values pred0 loc pred \<longleftrightarrow>
     (\<forall>b a. pred b = Some a \<longrightarrow> pred0 b = Some a) \<and>
     (\<forall>b a. pred0 b = Some a \<and> pred b = None \<longrightarrow> R (ssa (values ! b)) = value_of S R0 (values ! a)) \<and>
     (\<forall>b a. pred b = Some a \<longrightarrow> (\<exists>l < length values. loc a = Some l \<and> value_of S R (values ! l) = value_of S R0 (values ! a) \<and>
        (consider_divergence st \<longrightarrow> copy_value_is_divergent st (values ! l) = copy_value_is_divergent st (values ! a)))) \<and>
     (\<forall>r < n0. (\<forall>b. pred0 b \<noteq> None \<longrightarrow> ssa (values ! b) \<noteq> r) \<longrightarrow> R r = R0 r)"

lemma data_invD:
  assumes "data_inv S R0 R n0 st values pred0 loc pred"
  shows "pred b = Some a \<Longrightarrow> pred0 b = Some a"
    and "pred0 b = Some a \<Longrightarrow> pred b = None \<Longrightarrow> R (ssa (values ! b)) = value_of S R0 (values ! a)"
    and "pred b = Some a \<Longrightarrow> \<exists>l < length values. loc a = Some l \<and> value_of S R (values ! l) = value_of S R0 (values ! a) \<and>
        (consider_divergence st \<longrightarrow> copy_value_is_divergent st (values ! l) = copy_value_is_divergent st (values ! a))"
    and "r < n0 \<Longrightarrow> (\<And>b. pred0 b \<noteq> None \<Longrightarrow> ssa (values ! b) \<noteq> r) \<Longrightarrow> R r = R0 r"
  using assms unfolding data_inv_def by blast+

lemma data_invI:
  assumes "\<And>b a. pred b = Some a \<Longrightarrow> pred0 b = Some a"
    and "\<And>b a. pred0 b = Some a \<Longrightarrow> pred b = None \<Longrightarrow> R (ssa (values ! b)) = value_of S R0 (values ! a)"
    and "\<And>b a. pred b = Some a \<Longrightarrow> \<exists>l < length values. loc a = Some l \<and> value_of S R (values ! l) = value_of S R0 (values ! a) \<and>
        (consider_divergence st \<longrightarrow> copy_value_is_divergent st (values ! l) = copy_value_is_divergent st (values ! a))"
    and "\<And>r. r < n0 \<Longrightarrow> (\<And>b. pred0 b \<noteq> None \<Longrightarrow> ssa (values ! b) \<noteq> r) \<Longrightarrow> R r = R0 r"
  shows "data_inv S R0 R n0 st values pred0 loc pred"
  using assms unfolding data_inv_def by blast

text \<open>Different values live in different registers.\<close>

lemma value_of_other:
  assumes "v \<noteq> w" and "is_reg w"
  shows "value_of S (R(ssa w := x)) v = value_of S R v"
  using assms by (cases v; cases w) (auto simp: value_of_def)

lemma ready_data:
  assumes ok: "values_ok st values pred0" and book: "book_inv sz n loc pred (b # ready)" and dat: "data_inv S R0 R n0 st values pred0 loc pred"
    and a: "pred b = Some a" and l: "loc a = Some l" and loc': "loc' = loc \<or> loc' = loc(a := Some b) \<and>
      (consider_divergence st \<longrightarrow> copy_value_is_divergent st (values ! a) = copy_value_is_divergent st (values ! b))"
  shows "data_inv S R0 (R(ssa (values ! b) := value_of S R (values ! l))) n0 st values pred0 loc' (pred(b := None))"
proof (rule data_invI)
  let ?R = "R(ssa (values ! b) := value_of S R (values ! l))"
  note d = data_invD [OF dat]
  note i = book_invD [OF book]
  have b: "b < length values" "is_reg (values ! b)" using ok d(1) [OF a] by (auto simp: values_ok_def)
  have v: "value_of S R (values ! l) = value_of S R0 (values ! a)" using d(3) [OF a] l by auto
  have other: "values ! k \<noteq> values ! b" if "k < length values" "k \<noteq> b" for k
    using ok that b(1) by (simp add: values_ok_def nth_eq_iff_index_eq)
  have vb: "value_of S ?R (values ! b) = value_of S R0 (values ! a)" using b(2) v by (simp add: value_of_def)
  show "pred0 x = Some y" if "(pred(b := None)) x = Some y" for x y using d(1) [of x y] that by (simp split: if_splits)
  show "?R (ssa (values ! x)) = value_of S R0 (values ! y)" if x: "pred0 x = Some y" "(pred(b := None)) x = None" for x y
  proof (cases "x = b")
    case True
    then show ?thesis using x(1) d(1) [OF a] v by simp
  next
    case False
    have "x < length values" "is_reg (values ! x)" using ok x(1) by (auto simp: values_ok_def)
    moreover from this have "ssa (values ! x) \<noteq> ssa (values ! b)" using other [of x] False b(2) by (cases "values ! x"; cases "values ! b") auto
    ultimately show ?thesis using d(2) [OF x(1)] x(2) False by simp
  qed
  show "\<exists>k < length values. loc' y = Some k \<and> value_of S ?R (values ! k) = value_of S R0 (values ! y) \<and>
      (consider_divergence st \<longrightarrow> copy_value_is_divergent st (values ! k) = copy_value_is_divergent st (values ! y))"
    if x: "(pred(b := None)) x = Some y" for x y
  proof (cases "loc' y = loc y")
    case True
    have p: "pred x = Some y" using x by (simp split: if_splits)
    obtain k where k: "k < length values" "loc y = Some k" "value_of S R (values ! k) = value_of S R0 (values ! y)"
        "consider_divergence st \<longrightarrow> copy_value_is_divergent st (values ! k) = copy_value_is_divergent st (values ! y)" using d(3) [OF p] by blast
    have "k \<noteq> b"
    proof
      assume "k = b"
      then have "pred b = None \<or> b = y" using i(6) k(2) by blast
      then have "loc b = Some b" using a k(2) \<open>k = b\<close> by auto
      then show False using i(7) [of b] by simp
    qed
    then show ?thesis using k True value_of_other [OF other [OF k(1)] b(2), of S R] by auto
  next
    case False
    then have "y = a" "loc' a = Some b" "consider_divergence st \<longrightarrow> copy_value_is_divergent st (values ! a) = copy_value_is_divergent st (values ! b)"
      using loc' by (auto split: if_splits)
    then show ?thesis using vb b(1) by auto
  qed
  show "?R r = R0 r" if "r < n0" "\<And>x. pred0 x \<noteq> None \<Longrightarrow> ssa (values ! x) \<noteq> r" for r
  proof -
    have "ssa (values ! b) \<noteq> r" using that(2) d(1) [OF a] by blast
    then show ?thesis using d(4) [OF that] by simp
  qed
qed

lemma divergent_stores [simp]: "copy_value_is_divergent (st\<lparr>stores := ss\<rparr>) v = copy_value_is_divergent st v"
  by (simp add: copy_value_is_divergent_def)

lemma values_ok_stores [simp]: "values_ok (st\<lparr>stores := ss\<rparr>) values pred0 = values_ok st values pred0"
  by (simp add: values_ok_def)

lemma data_inv_stores [simp]: "data_inv S R0 R n0 (st\<lparr>stores := ss\<rparr>) values pred0 loc pred = data_inv S R0 R n0 st values pred0 loc pred"
  by (simp add: data_inv_def)

text \<open>The assertion of \<open>copy_values\<close> holds.\<close>

lemma ready_copy:
  assumes ok: "values_ok st values pred0" and dat: "data_inv S R0 R n0 st values pred0 loc pred"
    and a: "pred b = Some a" and l: "loc a = Some l"
  shows "copy_values st (values ! b) (values ! l) = Some (st\<lparr>stores := stores st @ [(ssa (values ! b), values ! l)]\<rparr>)"
proof -
  have "pred0 b = Some a" using data_invD(1) [OF dat a] .
  then show ?thesis using ok data_invD(3) [OF dat a] l by (auto simp: copy_values_def values_ok_def c_assert_def)
qed

lemma ready_loop_inv:
  "values_ok st values pred0 \<Longrightarrow> length loc = sz \<Longrightarrow> length pred = sz \<Longrightarrow> book_inv sz n (arr loc) (arr pred) ready \<Longrightarrow>
   data_inv S R0 (run_stores S (stores st) R1) n0 st values pred0 (arr loc) (arr pred) \<Longrightarrow>
   \<exists>ss loc' pred'. ready_loop sz values st loc pred ready = Some (st\<lparr>stores := ss\<rparr>, loc', pred') \<and> length loc' = sz \<and> length pred' = sz \<and>
     book_inv sz n (arr loc') (arr pred') [] \<and> data_inv S R0 (run_stores S ss R1) n0 st values pred0 (arr loc') (arr pred') \<and>
     (\<forall>x. arr pred' x \<noteq> None \<longrightarrow> arr pred x \<noteq> None \<and> x \<notin> set ready)"
proof (induction "unfilled pred" arbitrary: st loc pred ready rule: less_induct)
  case less
  note ok = less.prems(1) and len = less.prems(2,3) and book = less.prems(4) and dat = less.prems(5)
  show ?case
  proof (cases ready)
    case Nil
    then show ?thesis using book dat len by (auto simp: ready_loop.simps intro!: exI [of _ "stores st"])
  next
    case (Cons b rest)
    note book' = book [unfolded Cons]
    note i = book_invD [OF book']
    have "arr pred b \<noteq> None" using i(7) [of b] by simp
    then obtain a where a: "arr pred b = Some a" by blast
    obtain l where l: "arr loc a = Some l" using i(4) [OF a] by blast
    have b: "b < sz" using i(1) [of b] a by simp
    have as: "a < sz" "a \<noteq> b" using i(2,3) [OF a] by auto
    define ss where "ss = stores st @ [(ssa (values ! b), values ! l)]"
    let ?st = "st\<lparr>stores := ss\<rparr>" and ?pred = "pred[b := None]"
    let ?move = "(\<not> consider_divergence st \<or> copy_value_is_divergent st (values ! a) = copy_value_is_divergent st (values ! b)) \<and> ?pred ! a \<noteq> None"
    have p': "arr ?pred = (arr pred)(b := None)" using b len(2) by (simp add: arr_update)
    have pa: "?pred ! a = arr pred a" using as len(2) by (simp add: arr_def)
    have dec: "unfilled ?pred < unfilled pred" using unfilled_decreases [of b pred a] b len(2) a by (simp add: arr_def)
    have R: "run_stores S ss R1 = (run_stores S (stores st) R1)(ssa (values ! b) := value_of S (run_stores S (stores st) R1) (values ! l))"
      by (simp add: ss_def run_stores_snoc)
    have unfold: "ready_loop sz values st loc pred ready =
      (if ?move then ready_loop sz values ?st (loc[a := Some b]) ?pred (a # rest) else ready_loop sz values ?st loc ?pred rest)"
    proof -
      have "length rest < sz" using book_ready_length [OF book'] by simp
      moreover have "pred ! b = Some a" "loc ! a = Some l" using a l b as len by (simp_all add: arr_def)
      ultimately show ?thesis using ready_copy [OF ok dat a l] b len unfolding Cons by (simp add: ready_loop.simps(2) ss_def Let_def)
    qed
    show ?thesis
    proof (cases ?move)
      case True
      have "book_inv sz n (arr (loc[a := Some b])) (arr ?pred) (a # rest)"
        using book_move [OF book' a] True pa as(1) len(1) by (simp add: p' arr_update)
      moreover have "data_inv S R0 (run_stores S (stores ?st) R1) n0 ?st values pred0 (arr (loc[a := Some b])) (arr ?pred)"
        using ready_data [OF ok book' dat a l, of "(arr loc)(a := Some b)"] True as(1) len(1) by (simp add: p' R arr_update)
      ultimately obtain ss' loc' pred' where res: "ready_loop sz values ?st (loc[a := Some b]) ?pred (a # rest) = Some (?st\<lparr>stores := ss'\<rparr>, loc', pred')"
          "length loc' = sz" "length pred' = sz" "book_inv sz n (arr loc') (arr pred') []" "data_inv S R0 (run_stores S ss' R1) n0 ?st values pred0 (arr loc') (arr pred')"
          "\<forall>x. arr pred' x \<noteq> None \<longrightarrow> arr ?pred x \<noteq> None \<and> x \<notin> set (a # rest)"
        using less.hyps [OF dec, of ?st "loc[a := Some b]" "a # rest"] ok len by auto
      moreover have "ready_loop sz values st loc pred ready = Some (st\<lparr>stores := ss'\<rparr>, loc', pred')" using unfold [unfolded if_P [OF True]] res(1) by simp
      moreover have "\<forall>x. arr pred' x \<noteq> None \<longrightarrow> arr pred x \<noteq> None \<and> x \<notin> set ready" using res(6) Cons unfolding p' by (metis fun_upd_apply list.set_intros(2) set_ConsD)
      ultimately show ?thesis unfolding data_inv_stores by blast
    next
      case False
      have "book_inv sz n (arr loc) (arr ?pred) rest" using book_keep [OF book'] by (simp add: p')
      moreover have "data_inv S R0 (run_stores S (stores ?st) R1) n0 ?st values pred0 (arr loc) (arr ?pred)"
        using ready_data [OF ok book' dat a l, of "arr loc"] by (simp add: p' R)
      ultimately obtain ss' loc' pred' where res: "ready_loop sz values ?st loc ?pred rest = Some (?st\<lparr>stores := ss'\<rparr>, loc', pred')"
          "length loc' = sz" "length pred' = sz" "book_inv sz n (arr loc') (arr pred') []" "data_inv S R0 (run_stores S ss' R1) n0 ?st values pred0 (arr loc') (arr pred')"
          "\<forall>x. arr pred' x \<noteq> None \<longrightarrow> arr ?pred x \<noteq> None \<and> x \<notin> set rest"
        using less.hyps [OF dec, of ?st loc rest] ok len by auto
      moreover have "ready_loop sz values st loc pred ready = Some (st\<lparr>stores := ss'\<rparr>, loc', pred')" using unfold [unfolded if_not_P [OF False]] res(1) by simp
      moreover have "\<forall>x. arr pred' x \<noteq> None \<longrightarrow> arr pred x \<noteq> None \<and> x \<notin> set ready" using res(6) Cons unfolding p' by (metis fun_upd_apply list.set_intros(2) set_ConsD)
      ultimately show ?thesis unfolding data_inv_stores by blast
    qed
  qed
qed

section \<open>Breaking a cycle\<close>

definition temp_state :: "from_ssa_state \<Rightarrow> copy_value \<Rightarrow> from_ssa_state" where
  "temp_state st v = (let st' = st\<lparr>next_def := next_def st + 1\<rparr> in
     if consider_divergence st then set_reg_divergent (next_def st) (copy_value_is_divergent st v) st' else st')"

lemma temp_state_simps:
  "consider_divergence (temp_state st v) = consider_divergence st" "next_def (temp_state st v) = next_def st + 1" "stores (temp_state st v) = stores st"
  by (simp_all add: temp_state_def set_reg_divergent_def Let_def)

lemma temp_state_stores: "temp_state (st\<lparr>stores := ss\<rparr>) v = (temp_state st v)\<lparr>stores := ss\<rparr>"
  by (simp add: temp_state_def set_reg_divergent_def Let_def)

lemma temp_state_divergent:
  "ssa w < next_def st \<Longrightarrow> copy_value_is_divergent (temp_state st v) w = copy_value_is_divergent st w"
  "consider_divergence st \<Longrightarrow> copy_value_is_divergent (temp_state st v) \<lparr>is_reg = True, ssa = next_def st\<rparr> = copy_value_is_divergent st v"
  by (auto simp: temp_state_def set_reg_divergent_def copy_value_is_divergent_def Let_def)

lemma break_values:
  assumes ok: "values_ok st values pred0"
  shows "values_ok (temp_state st v) (values @ [\<lparr>is_reg = True, ssa = next_def st\<rparr>]) pred0"
proof -
  let ?t = "\<lparr>is_reg = True, ssa = next_def st\<rparr>"
  have s: "ssa w < next_def st" if "w \<in> set values" for w using ok that by (simp add: values_ok_def)
  have "?t \<notin> set values" using s [of ?t] by auto
  then have d: "distinct (values @ [?t])" using ok by (simp add: values_ok_def)
  have h: "b < length values \<and> a < length values \<and> is_reg (values ! b) \<and> (consider_divergence st \<and>
      copy_value_is_divergent (temp_state st v) (values ! a) \<longrightarrow> copy_value_is_divergent (temp_state st v) (values ! b))" if "pred0 b = Some a" for a b
    using ok that temp_state_divergent(1) [OF s] by (auto simp: values_ok_def)
  have "b < length (values @ [?t]) \<and> a < length (values @ [?t]) \<and> is_reg ((values @ [?t]) ! b) \<and> (consider_divergence (temp_state st v) \<and>
      copy_value_is_divergent (temp_state st v) ((values @ [?t]) ! a) \<longrightarrow> copy_value_is_divergent (temp_state st v) ((values @ [?t]) ! b))" if "pred0 b = Some a" for a b
    using h [OF that] by (auto simp: nth_append temp_state_simps)
  moreover have "\<forall>w \<in> set (values @ [?t]). ssa w < next_def (temp_state st v)" using s by (auto simp: temp_state_simps less_SucI)
  ultimately show ?thesis using d unfolding values_ok_def by blast
qed

lemma break_data:
  assumes ok: "values_ok st values pred0" and dat: "data_inv S R0 R n0 st values pred0 loc pred" and n0: "n0 \<le> next_def st"
    and b: "b < length values" "loc b = Some b"
  shows "data_inv S R0 (R(next_def st := value_of S R (values ! b))) n0 (temp_state st (values ! b))
    (values @ [\<lparr>is_reg = True, ssa = next_def st\<rparr>]) pred0 (loc(b := Some (length values))) pred"
proof (rule data_invI)
  let ?t = "\<lparr>is_reg = True, ssa = next_def st\<rparr>" and ?R = "R(next_def st := value_of S R (values ! b))"
  let ?vs = "values @ [?t]"
  note d = data_invD [OF dat]
  have s: "ssa (values ! k) < next_def st" if "k < length values" for k using ok that by (simp add: values_ok_def)
  have len: "x < length values \<and> y < length values" if "pred0 x = Some y" for x y using ok that by (auto simp: values_ok_def)
  have v: "?vs ! k = values ! k" "value_of S ?R (values ! k) = value_of S R (values ! k)"
      "copy_value_is_divergent (temp_state st (values ! b)) (values ! k) = copy_value_is_divergent st (values ! k)" if "k < length values" for k
    using that s [OF that] temp_state_divergent(1) [OF s [OF that]] by (auto simp: nth_append value_of_def)
  show "pred0 x = Some y" if "pred x = Some y" for x y using d(1) [OF that] .
  show "?R (ssa (?vs ! x)) = value_of S R0 (?vs ! y)" if "pred0 x = Some y" "pred x = None" for x y
    using d(2) [OF that] len [OF that(1)] v(1) s [of x] by auto
  show "\<exists>k < length ?vs. (loc(b := Some (length values))) y = Some k \<and> value_of S ?R (?vs ! k) = value_of S R0 (?vs ! y) \<and>
      (consider_divergence (temp_state st (values ! b)) \<longrightarrow>
       copy_value_is_divergent (temp_state st (values ! b)) (?vs ! k) = copy_value_is_divergent (temp_state st (values ! b)) (?vs ! y))"
    if x: "pred x = Some y" for x y
  proof -
    obtain k where k: "k < length values" "loc y = Some k" "value_of S R (values ! k) = value_of S R0 (values ! y)"
        "consider_divergence st \<longrightarrow> copy_value_is_divergent st (values ! k) = copy_value_is_divergent st (values ! y)" using d(3) [OF x] by blast
    have y: "y < length values" using len [OF d(1) [OF x]] by simp
    show ?thesis
    proof (cases "y = b")
      case True
      then have kb: "k = b" using k(2) b(2) by simp
      have "value_of S ?R ?t = value_of S R0 (values ! b)" using k(3) True kb by (simp add: value_of_def)
      then show ?thesis using True v(1,3) [OF b(1)] temp_state_divergent(2) [of st "values ! b"]
        by (intro exI [of _ "length values"]) (auto simp: temp_state_simps)
    next
      case False
      then show ?thesis using k v [OF k(1)] v [OF y] by (intro exI [of _ k]) (auto simp: temp_state_simps)
    qed
  qed
  show "?R r = R0 r" if r: "r < n0" "\<And>x. pred0 x \<noteq> None \<Longrightarrow> ssa (?vs ! x) \<noteq> r" for r
  proof -
    have "ssa (values ! x) \<noteq> r" if "pred0 x \<noteq> None" for x using r(2) [OF that] len [of x] that v(1) [of x] by auto
    then show ?thesis using d(4) [OF r(1)] r(1) n0 by simp
  qed
qed

section \<open>The loops\<close>

definition copies_done :: "(nat \<Rightarrow> 'v) \<Rightarrow> (nat \<Rightarrow> 'v) \<Rightarrow> (nat \<Rightarrow> 'v) \<Rightarrow> nat \<Rightarrow> copy_value list \<Rightarrow> (nat \<Rightarrow> nat option) \<Rightarrow> bool" where
  "copies_done S R0 R n0 values pred0 \<longleftrightarrow>
     (\<forall>b a. pred0 b = Some a \<longrightarrow> R (ssa (values ! b)) = value_of S R0 (values ! a)) \<and>
     (\<forall>r < n0. (\<forall>b. pred0 b \<noteq> None \<longrightarrow> ssa (values ! b) \<noteq> r) \<longrightarrow> R r = R0 r)"

lemma all_filled:
  assumes "data_inv S R0 R n0 st values pred0 loc pred" and "\<And>b. pred b = None"
  shows "copies_done S R0 R n0 values pred0"
  using assms unfolding data_inv_def copies_done_def by blast

lemma copies_done_append:
  assumes "copies_done S R0 R n0 (values @ [t]) pred0" and "\<And>b a. pred0 b = Some a \<Longrightarrow> a < length values \<and> b < length values"
  shows "copies_done S R0 R n0 values pred0"
proof -
  have "(values @ [t]) ! b = values ! b" "(values @ [t]) ! a = values ! a" if "pred0 b = Some a" for a b using assms(2) [OF that] by (auto simp: nth_append)
  moreover have "(values @ [t]) ! b = values ! b" if "pred0 b \<noteq> None" for b using assms(2) [of b] that by (auto simp: nth_append)
  ultimately show ?thesis using assms(1) unfolding copies_done_def by metis
qed

lemma break_copy:
  assumes ok: "values_ok st values pred0" and b: "b < length values"
  shows "copy_values (temp_state st (values ! b)) \<lparr>is_reg = True, ssa = next_def st\<rparr> (values ! b) =
    Some ((temp_state st (values ! b))\<lparr>stores := stores st @ [(next_def st, values ! b)]\<rparr>)"
proof -
  have "ssa (values ! b) < next_def st" using ok b by (simp add: values_ok_def)
  then show ?thesis using temp_state_divergent(1) [of "values ! b" st "values ! b"] temp_state_divergent(2) [of st "values ! b"]
    by (auto simp: copy_values_def temp_state_simps c_assert_def)
qed

lemma divergent_next_def [simp]: "copy_value_is_divergent (st\<lparr>next_def := k\<rparr>) v = copy_value_is_divergent st v"
  by (simp add: copy_value_is_divergent_def)

lemma to_do_loop_break:
  assumes "ready_loop sz values st loc pred ready = Some (st1, loc1, pred1)" and "pred1 ! b \<noteq> None" and "length values < sz"
  shows "to_do_loop sz (b # to_do) values st loc pred ready = do {
      st2 \<leftarrow> copy_values (temp_state st1 (values ! b)) \<lparr>is_reg = True, ssa = next_def st1\<rparr> (values ! b);
      to_do_loop sz to_do (values @ [\<lparr>is_reg = True, ssa = next_def st1\<rparr>]) st2 (loc1[b := Some (length values)]) pred1 [b]
    }"
  using assms by (auto simp: nir_decl_reg_def temp_state_def Let_def)

lemma to_do_loop_inv:
  "values_ok st values pred0 \<Longrightarrow> length loc = sz \<Longrightarrow> length pred = sz \<Longrightarrow> book_inv sz (length values) (arr loc) (arr pred) ready \<Longrightarrow>
   data_inv S R0 (run_stores S (stores st) R1) n0 st values pred0 (arr loc) (arr pred) \<Longrightarrow> n0 \<le> next_def st \<Longrightarrow>
   set to_do \<subseteq> {..<sz} \<Longrightarrow> (\<And>x. arr pred x \<noteq> None \<Longrightarrow> x \<in> set to_do \<or> x \<in> set ready) \<Longrightarrow>
   \<exists>st'. to_do_loop sz to_do values st loc pred ready = Some st' \<and> copies_done S R0 (run_stores S (stores st') R1) n0 values pred0"
proof (induction to_do arbitrary: "values" st loc pred ready)
  case Nil
  obtain ss loc' pred' where res: "ready_loop sz values st loc pred ready = Some (st\<lparr>stores := ss\<rparr>, loc', pred')"
      "data_inv S R0 (run_stores S ss R1) n0 st values pred0 (arr loc') (arr pred')" "\<forall>x. arr pred' x \<noteq> None \<longrightarrow> arr pred x \<noteq> None \<and> x \<notin> set ready"
    using ready_loop_inv [OF Nil.prems(1-5)] by blast
  have "arr pred' x = None" for x using res(3) Nil.prems(8) [of x] by auto
  then show ?case using res(1) all_filled [OF res(2)] by simp
next
  case (Cons b to_do)
  note ok = Cons.prems(1)
  obtain ss loc' pred' where res: "ready_loop sz values st loc pred ready = Some (st\<lparr>stores := ss\<rparr>, loc', pred')" "length loc' = sz" "length pred' = sz"
      and book: "book_inv sz (length values) (arr loc') (arr pred') []"
      and dat: "data_inv S R0 (run_stores S ss R1) n0 st values pred0 (arr loc') (arr pred')"
      and left: "\<forall>x. arr pred' x \<noteq> None \<longrightarrow> arr pred x \<noteq> None \<and> x \<notin> set ready"
    using ready_loop_inv [OF Cons.prems(1-5)] by blast
  have b: "b < sz" using Cons.prems(7) by simp
  have cov: "x \<in> set to_do \<or> x = b" if "arr pred' x \<noteq> None" for x using left Cons.prems(8) [of x] that by auto
  show ?case
  proof (cases "arr pred' b")
    case None
    have "\<exists>st'. to_do_loop sz to_do values (st\<lparr>stores := ss\<rparr>) loc' pred' [] = Some st' \<and> copies_done S R0 (run_stores S (stores st') R1) n0 values pred0"
    proof (rule Cons.IH)
      show "x \<in> set to_do \<or> x \<in> set []" if "arr pred' x \<noteq> None" for x using cov [OF that] that None by auto
    qed (use ok res(2,3) book dat Cons.prems(6,7) in auto)
    then show ?thesis using res b None by (simp add: arr_def)
  next
    case (Some a)
    then have pb: "arr pred' b \<noteq> None" by simp
    have len: "x < length values \<and> y < length values" if "pred0 x = Some y" for x y using ok that by (auto simp: values_ok_def)
    have bl: "b < length values" using len data_invD(1) [OF dat Some] by blast
    have "arr pred' (length values) = None" using len data_invD(1) [OF dat, of "length values"] by (metis less_irrefl not_None_eq)
    note bb = book_break(1) [OF book pb] book_break(2) [OF book pb] book_break(3) [OF book pb this]
    let ?t = "\<lparr>is_reg = True, ssa = next_def st\<rparr>" and ?ss = "ss @ [(next_def st, values ! b)]"
    let ?st = "(temp_state st (values ! b))\<lparr>stores := ?ss\<rparr>" and ?loc = "loc'[b := Some (length values)]"
    have l': "arr ?loc = (arr loc')(b := Some (length values))" using b res(2) by (simp add: arr_update)
    have R: "run_stores S ?ss R1 = (run_stores S ss R1)(next_def st := value_of S (run_stores S ss R1) (values ! b))" by (simp add: run_stores_snoc)
    have "\<exists>st'. to_do_loop sz to_do (values @ [?t]) ?st ?loc pred' [b] = Some st' \<and> copies_done S R0 (run_stores S (stores st') R1) n0 (values @ [?t]) pred0"
    proof (rule Cons.IH)
      show "values_ok ?st (values @ [?t]) pred0" using break_values [OF ok] by simp
      show "book_inv sz (length (values @ [?t])) (arr ?loc) (arr pred') [b]" using bb(3) by (simp add: l')
      show "data_inv S R0 (run_stores S (stores ?st) R1) n0 ?st (values @ [?t]) pred0 (arr ?loc) (arr pred')"
        using break_data [OF ok dat Cons.prems(6) bl bb(1)] by (simp add: l' R)
    qed (use res(2,3) Cons.prems(6,7) cov in \<open>auto simp: temp_state_simps\<close>)
    then obtain st' where st': "to_do_loop sz to_do (values @ [?t]) ?st ?loc pred' [b] = Some st'"
        "copies_done S R0 (run_stores S (stores st') R1) n0 (values @ [?t]) pred0" by blast
    have "to_do_loop sz (b # to_do) values st loc pred ready = Some st'"
    proof -
      have "copy_values ((temp_state st (values ! b))\<lparr>stores := ss\<rparr>) ?t (values ! b) = Some ?st"
        using break_copy [of "st\<lparr>stores := ss\<rparr>" "values" pred0 b] ok bl by (simp add: temp_state_stores)
      moreover have "pred' ! b \<noteq> None" using pb b res(3) by (simp add: arr_def)
      ultimately show ?thesis using to_do_loop_break [OF res(1) _ bb(2)] st'(1) by (simp add: temp_state_stores)
    qed
    then show ?thesis using copies_done_append [OF st'(2)] len by blast
  qed
qed

section \<open>Setting up the arrays\<close>

lemma copy_values_equal_iff: "copy_values_equal a b \<longleftrightarrow> a = b"
  by (cases a; cases b) (simp add: copy_values_equal_def)

lemma count_copies_spec: "\<forall>c \<in> set cs. dst_is_reg c \<Longrightarrow> count_copies cs k = Some (k + length (filter (\<lambda>c. \<not> no_op_copy c) cs))"
  by (induction cs arbitrary: k) auto

lemma find_value_upto:
  assumes "m \<le> length vs"
  shows "case fold (\<lambda>i idx. if copy_values_equal (vs ! i) v then Some i else idx) [0..<m] None of
      None \<Rightarrow> \<forall>i < m. vs ! i \<noteq> v | Some i \<Rightarrow> i < m \<and> vs ! i = v"
  using assms by (induction m) (auto simp: copy_values_equal_iff less_Suc_eq split: option.splits)

lemma index_value_spec:
  assumes "v \<in> set vs \<or> length vs < sz"
  shows "\<exists>i. index_value sz vs v = Some (i, if v \<in> set vs then vs else vs @ [v]) \<and>
    (if v \<in> set vs then i < length vs \<and> vs ! i = v else i = length vs)"
proof (cases "find_value vs v")
  case None
  then have "v \<notin> set vs" using find_value_upto [of "length vs" vs v] by (auto simp: find_value_def in_set_conv_nth)
  then show ?thesis using None assms by (simp add: index_value_def)
next
  case (Some i)
  then have "i < length vs" "vs ! i = v" using find_value_upto [of "length vs" vs v] by (auto simp: find_value_def)
  then show ?thesis using Some by (auto simp: index_value_def)
qed

lemma dest_unfilled_spec:
  "(\<And>i. i \<in> set is \<Longrightarrow> vs ! i = v \<Longrightarrow> pred ! i = None) \<Longrightarrow> dest_unfilled vs pred v is = Some ()"
  by (induction "is") (auto simp: copy_values_equal_iff)

definition src_val :: "nir_parallel_copy \<Rightarrow> copy_value" where
  "src_val c = \<lparr>is_reg = src_is_reg c, ssa = copy_src c\<rparr>"

definition dst_val :: "nir_parallel_copy \<Rightarrow> copy_value" where
  "dst_val c = \<lparr>is_reg = True, ssa = copy_dst c\<rparr>"

lemma no_op_copy_iff: "no_op_copy c \<longleftrightarrow> src_val c = dst_val c"
  by (auto simp: no_op_copy_def src_val_def dst_val_def)

definition setup_inv :: "nat \<Rightarrow> nir_parallel_copy list \<Rightarrow> copy_value list \<Rightarrow> (nat \<Rightarrow> nat option) \<Rightarrow> (nat \<Rightarrow> nat option) \<Rightarrow> nat list \<Rightarrow> bool" where
  "setup_inv sz cs vs loc pred to_do \<longleftrightarrow> distinct vs \<and> set vs = src_val ` set cs \<union> dst_val ` set cs \<and>
     (\<forall>c \<in> set cs. \<exists>i j. i < length vs \<and> j < length vs \<and> vs ! i = src_val c \<and> vs ! j = dst_val c \<and> pred j = Some i \<and> loc i = Some i) \<and>
     (\<forall>j i. pred j = Some i \<longrightarrow> i < length vs \<and> j < length vs \<and> (\<exists>c \<in> set cs. vs ! i = src_val c \<and> vs ! j = dst_val c)) \<and>
     (\<forall>i k. loc i = Some k \<longrightarrow> k = i \<and> i < length vs) \<and>
     length vs + card (unsafe loc pred) \<le> 2 * length cs \<and> (\<forall>j. j \<in> set to_do \<longleftrightarrow> pred j \<noteq> None) \<and> length to_do = length cs"

lemma unsafe_loc:
  assumes "finite (unsafe loc pred)"
  shows "finite (unsafe (loc(i := Some i)) pred)" and "card (unsafe (loc(i := Some i)) pred) \<le> (if pred i = None then 0 else 1) + card (unsafe loc pred)"
proof -
  have s: "unsafe (loc(i := Some i)) pred \<subseteq> (if pred i = None then unsafe loc pred else insert i (unsafe loc pred))" by (auto simp: unsafe_def)
  then show "finite (unsafe (loc(i := Some i)) pred)" using assms by (metis finite_insert rev_finite_subset)
  show "card (unsafe (loc(i := Some i)) pred) \<le> (if pred i = None then 0 else 1) + card (unsafe loc pred)"
    using card_mono [OF _ s] assms card_insert_if [OF assms, of i] by (auto split: if_splits)
qed

lemma unsafe_pred:
  assumes "finite (unsafe loc pred)"
  shows "card (unsafe loc (pred(j := Some i))) \<le> (if loc j = None then 0 else 1) + card (unsafe loc pred)"
proof -
  have s: "unsafe loc (pred(j := Some i)) \<subseteq> (if loc j = None then unsafe loc pred else insert j (unsafe loc pred))" by (auto simp: unsafe_def)
  then show ?thesis using card_mono [OF _ s] assms card_insert_if [OF assms, of j] by (auto split: if_splits)
qed

text \<open>The index of a value, and the values after it has been looked up or added.\<close>

definition indexed :: "copy_value list \<Rightarrow> copy_value \<Rightarrow> nat \<Rightarrow> copy_value list \<Rightarrow> bool" where
  "indexed vs v i vs' \<longleftrightarrow> (if v \<in> set vs then i < length vs \<and> vs ! i = v \<and> vs' = vs else i = length vs \<and> vs' = vs @ [v])"

lemma indexedD:
  assumes "indexed vs v i vs'"
  shows "i < length vs'" and "vs' ! i = v" and "k < length vs \<Longrightarrow> vs' ! k = vs ! k" and "length vs \<le> length vs'"
    and "set vs' = insert v (set vs)" and "distinct vs \<Longrightarrow> distinct vs'" and "v \<in> set vs \<and> vs' = vs \<or> i = length vs \<and> length vs' = length vs + 1"
  using assms by (auto simp: indexed_def nth_append split: if_splits)

lemma setup_count:
  assumes inv: "setup_inv sz cs vs loc pred to_do" and i: "indexed vs s i vs1" and j: "indexed vs1 d j vs2"
  shows "length vs2 + card (unsafe (loc(i := Some i)) (pred(j := Some i))) \<le> 2 * (length cs + 1)"
proof -
  note id = indexedD [OF i] and jd = indexedD [OF j]
  have pr: "\<And>x y. pred x = Some y \<Longrightarrow> x < length vs" and lc: "\<And>x y. loc x = Some y \<Longrightarrow> x < length vs"
    and cnt: "length vs + card (unsafe loc pred) \<le> 2 * length cs" using inv by (auto simp: setup_inv_def)
  have fin: "finite (unsafe loc pred)" by (rule finite_subset [of _ "{..<length vs}"]) (auto simp: unsafe_def dest: pr)
  note u = unsafe_loc [OF fin, of i]
  have "length vs1 + card (unsafe (loc(i := Some i)) pred) \<le> length vs + card (unsafe loc pred) + 1"
    using id(7)
  proof
    assume "i = length vs \<and> length vs1 = length vs + 1"
    moreover from this have "pred i = None" using pr [of i] by (cases "pred i") auto
    ultimately show ?thesis using u(2) by simp
  qed (use u(2) in \<open>auto split: if_splits\<close>)
  moreover have "length vs2 + card (unsafe (loc(i := Some i)) (pred(j := Some i))) \<le> length vs1 + card (unsafe (loc(i := Some i)) pred) + 1"
    using jd(7)
  proof
    assume a: "j = length vs1 \<and> length vs2 = length vs1 + 1"
    then have "(loc(i := Some i)) j = None" using lc [of j] id(1,4) by (cases "loc j") auto
    then show ?thesis using unsafe_pred [OF u(1), of j i] a by simp
  qed (use unsafe_pred [OF u(1), of j i] in \<open>auto split: if_splits\<close>)
  ultimately show ?thesis using cnt by simp
qed

lemma setup_step:
  assumes inv: "setup_inv sz cs vs loc pred to_do" and new: "dst_val c \<notin> dst_val ` set cs"
    and i: "indexed vs (src_val c) i vs1" and j: "indexed vs1 (dst_val c) j vs2"
  shows "setup_inv sz (cs @ [c]) vs2 (loc(i := Some i)) (pred(j := Some i)) (j # to_do)" and "pred j = None"
proof -
  note id = indexedD [OF i] and jd = indexedD [OF j]
  have old: "vs2 ! k = vs ! k" "k < length vs2" if "k < length vs" for k using that id(3,4) jd(3,4) by auto
  have ij: "i < length vs2" "vs2 ! i = src_val c" "j < length vs2" "vs2 ! j = dst_val c" using id(1,2) jd(1,2,3,4) by auto
  have pr: "y < length vs" "x < length vs" "\<exists>c \<in> set cs. vs ! y = src_val c \<and> vs ! x = dst_val c" if "pred x = Some y" for x y
    using inv that by (auto simp: setup_inv_def)
  have dis: "distinct vs2" using inv id(6) jd(6) by (simp add: setup_inv_def)
  show pj: "pred j = None"
  proof (rule ccontr)
    assume "pred j \<noteq> None"
    then obtain y where y: "pred j = Some y" by blast
    obtain c' where "c' \<in> set cs" "vs ! j = dst_val c'" using pr(3) [OF y] by blast
    then show False using new ij(4) old(1) [OF pr(2) [OF y]] by (metis imageI)
  qed
  have sv: "set vs2 = src_val ` set (cs @ [c]) \<union> dst_val ` set (cs @ [c])" using inv id(5) jd(5) by (auto simp: setup_inv_def)
  have all: "\<exists>x y. x < length vs2 \<and> y < length vs2 \<and> vs2 ! x = src_val c' \<and> vs2 ! y = dst_val c' \<and>
      (pred(j := Some i)) y = Some x \<and> (loc(i := Some i)) x = Some x" if c': "c' \<in> set (cs @ [c])" for c'
  proof (cases "c' \<in> set cs")
    case True
    then obtain x y where xy: "x < length vs" "y < length vs" "vs ! x = src_val c'" "vs ! y = dst_val c'" "pred y = Some x" "loc x = Some x"
      using inv unfolding setup_inv_def by blast
    have "y \<noteq> j" using xy(5) pj by auto
    then show ?thesis using xy old [OF xy(1)] old [OF xy(2)] by (intro exI [of _ x] exI [of _ y]) auto
  next
    case False
    then have "c' = c" using c' by simp
    then show ?thesis using ij by (intro exI [of _ i] exI [of _ j]) auto
  qed
  have prs: "x < length vs2 \<and> y < length vs2 \<and> (\<exists>c' \<in> set (cs @ [c]). vs2 ! x = src_val c' \<and> vs2 ! y = dst_val c')"
    if "(pred(j := Some i)) y = Some x" for x y
  proof (cases "y = j")
    case True
    then show ?thesis using that ij by auto
  next
    case False
    then have p: "pred y = Some x" using that by simp
    then show ?thesis using pr [OF p] old by auto
  qed
  have lcs: "k = x \<and> x < length vs2" if "(loc(i := Some i)) x = Some k" for x k
    using inv that ij(1) old(2) [of x] by (auto simp: setup_inv_def split: if_splits)
  have td: "x \<in> set (j # to_do) \<longleftrightarrow> (pred(j := Some i)) x \<noteq> None" for x using inv by (auto simp: setup_inv_def)
  have cnt: "length vs2 + card (unsafe (loc(i := Some i)) (pred(j := Some i))) \<le> 2 * length (cs @ [c])" using setup_count [OF inv i j] by simp
  have "length (j # to_do) = length (cs @ [c])" using inv by (simp add: setup_inv_def)
  then show "setup_inv sz (cs @ [c]) vs2 (loc(i := Some i)) (pred(j := Some i)) (j # to_do)"
    using dis sv all prs lcs td cnt unfolding setup_inv_def by blast
qed

lemma index_value_indexed:
  assumes "length vs < sz"
  shows "\<exists>i vs'. index_value sz vs v = Some (i, vs') \<and> indexed vs v i vs'"
  using index_value_spec [of v vs sz] assms unfolding indexed_def by (metis (full_types))

lemma setup_copies_spec:
  "setup_inv sz cs0 vs (arr loc) (arr pred) to_do \<Longrightarrow> length loc = sz \<Longrightarrow> length pred = sz \<Longrightarrow>
   \<forall>c \<in> set cs. dst_is_reg c \<Longrightarrow> distinct (map copy_dst cs) \<Longrightarrow> copy_dst ` set cs0 \<inter> copy_dst ` set cs = {} \<Longrightarrow>
   2 * (length cs0 + length (filter (\<lambda>c. \<not> no_op_copy c) cs)) = sz \<Longrightarrow>
   \<exists>vs' loc' pred' to_do'. setup_copies sz cs vs loc pred to_do = Some (vs', loc', pred', to_do') \<and> length loc' = sz \<and> length pred' = sz \<and>
     setup_inv sz (cs0 @ filter (\<lambda>c. \<not> no_op_copy c) cs) vs' (arr loc') (arr pred') to_do'"
proof (induction cs arbitrary: cs0 vs loc pred to_do)
  case (Cons c cs)
  show ?case
  proof (cases "no_op_copy c")
    case True
    then show ?thesis using Cons.IH [OF Cons.prems(1-3)] Cons.prems(4-7) by auto
  next
    case False
    let ?d = "length cs0"
    have room: "length vs + 2 \<le> sz" "?d < sz" using Cons.prems(1,7) False unfolding setup_inv_def by auto
    obtain i vs1 where i: "index_value sz vs (src_val c) = Some (i, vs1)" "indexed vs (src_val c) i vs1"
      using index_value_indexed [of vs sz] room by (metis add_lessD1 less_le_trans less_add_same_cancel1 zero_less_numeral)
    have l1: "length vs1 < sz" using indexedD(7) [OF i(2)] room by auto
    obtain j vs2 where j: "index_value sz vs1 (dst_val c) = Some (j, vs2)" "indexed vs1 (dst_val c) j vs2" using index_value_indexed [OF l1] by blast
    have new: "dst_val c \<notin> dst_val ` set cs0" using Cons.prems(6) by (auto simp: dst_val_def)
    note st = setup_step [OF Cons.prems(1) new i(2) j(2)]
    have ijs: "i < sz" "j < sz" using indexedD(1,7) [OF i(2)] indexedD(1,7) [OF j(2)] room by auto
    have du: "dest_unfilled vs1 pred (dst_val c) [0..<length vs1] = Some ()"
    proof (rule dest_unfilled_spec)
      fix k
      assume k: "k \<in> set [0..<length vs1]" "vs1 ! k = dst_val c"
      then have "indexed vs1 (dst_val c) k vs1" using nth_mem [of k vs1] by (auto simp: indexed_def)
      then have "arr pred k = None" by (rule setup_step(2) [OF Cons.prems(1) new i(2)])
      then show "pred ! k = None" using k(1) l1 Cons.prems(3) by (simp add: arr_def)
    qed
    have td: "length to_do < sz" using Cons.prems(1) room(2) by (simp add: setup_inv_def)
    have "setup_copies sz (c # cs) vs loc pred to_do = setup_copies sz cs vs2 (loc[i := Some i]) (pred[j := Some i]) (j # to_do)"
      using False i(1) j(1) du td Cons.prems(4) by (simp add: Let_def flip: src_val_def dst_val_def)
    moreover have "setup_inv sz (cs0 @ [c]) vs2 (arr (loc[i := Some i])) (arr (pred[j := Some i])) (j # to_do)"
      using st(1) ijs Cons.prems(2,3) by (simp add: arr_update)
    then have "\<exists>vs' loc' pred' to_do'. setup_copies sz cs vs2 (loc[i := Some i]) (pred[j := Some i]) (j # to_do) = Some (vs', loc', pred', to_do') \<and> length loc' = sz \<and> length pred' = sz \<and>
        setup_inv sz ((cs0 @ [c]) @ filter (\<lambda>c. \<not> no_op_copy c) cs) vs' (arr loc') (arr pred') to_do'"
      using Cons.prems(2-7) False by (intro Cons.IH) auto
    ultimately show ?thesis using False by simp
  qed
qed auto

lemma setup_book:
  assumes inv: "setup_inv sz cs vs (arr loc) (arr pred) to_do" and len: "length loc = sz" "length pred = sz" "2 * length cs = sz"
    and no: "\<forall>c \<in> set cs. \<not> no_op_copy c"
  shows "book_inv sz (length vs) (arr loc) (arr pred) (rev (filter (\<lambda>i. pred ! i \<noteq> None \<and> loc ! i = None) [0..<length vs]))"
    and "length vs \<le> sz"
proof -
  show ls: "length vs \<le> sz" using inv len(3) by (auto simp: setup_inv_def)
  have dis: "distinct vs" using inv by (simp add: setup_inv_def)
  have pr: "a < length vs \<and> b < length vs \<and> a \<noteq> b \<and> arr loc a \<noteq> None" if p: "arr pred b = Some a" for a b
  proof -
    obtain c where c: "a < length vs" "b < length vs" "c \<in> set cs" "vs ! a = src_val c" "vs ! b = dst_val c" using inv p unfolding setup_inv_def by blast
    obtain i where "i < length vs" "vs ! i = src_val c" "arr loc i = Some i" using inv c(3) unfolding setup_inv_def by blast
    moreover from this have "i = a" using dis c(1,4) by (simp add: nth_eq_iff_index_eq [symmetric])
    ultimately show ?thesis using c no no_op_copy_iff by auto
  qed
  have lc: "l = a \<and> a < length vs" if "arr loc a = Some l" for a l using inv that by (auto simp: setup_inv_def)
  let ?ready = "rev (filter (\<lambda>i. pred ! i \<noteq> None \<and> loc ! i = None) [0..<length vs])"
  have rd: "x \<in> set ?ready \<longleftrightarrow> arr pred x \<noteq> None \<and> arr loc x = None" for x
    using pr [of x] ls len by (auto simp: arr_def)
  show "book_inv sz (length vs) (arr loc) (arr pred) ?ready"
  proof (rule book_invI)
    show "x \<in> set ?ready \<longleftrightarrow> arr pred x \<noteq> None \<and> arr loc x \<noteq> Some x" for x using rd lc [of x] by (cases "arr loc x") auto
    show "arr loc y = None" if "y \<in> set (tl ?ready)" for y using rd [of y] that by (metis list.sel(2) list.set_sel(2))
    show "length vs + card (unsafe (arr loc) (arr pred)) \<le> sz" using inv len(3) by (auto simp: setup_inv_def)
    show "x < sz" if "arr pred x \<noteq> None" for x using pr [of x] that ls by auto
    show "a < sz \<and> a \<noteq> b \<and> arr loc a \<noteq> None" if "arr pred b = Some a" for a b using pr [OF that] ls by auto
    show "l < sz \<and> (arr pred l = None \<or> l = a)" if "arr loc a = Some l" for a l using lc [OF that] ls by auto
  qed simp
qed

section \<open>The whole resolution\<close>

lemma setup_values_ok:
  assumes inv: "setup_inv sz cs vs loc pred to_do"
    and fresh: "\<And>c. c \<in> set cs \<Longrightarrow> copy_src c < next_def st \<and> copy_dst c < next_def st"
    and div: "\<And>c. c \<in> set cs \<Longrightarrow> consider_divergence st \<Longrightarrow> copy_value_is_divergent st (src_val c) \<Longrightarrow> copy_value_is_divergent st (dst_val c)"
  shows "values_ok st vs pred" and "data_inv S R0 R0 n0 st vs pred loc pred"
proof -
  have s: "ssa v < next_def st" if "v \<in> set vs" for v using inv that fresh by (auto simp: setup_inv_def src_val_def dst_val_def)
  have p: "b < length vs \<and> a < length vs \<and> is_reg (vs ! b) \<and> (consider_divergence st \<and> copy_value_is_divergent st (vs ! a) \<longrightarrow> copy_value_is_divergent st (vs ! b)) \<and> loc a = Some a"
    if pb: "pred b = Some a" for a b
  proof -
    obtain c where c: "a < length vs" "b < length vs" "c \<in> set cs" "vs ! a = src_val c" "vs ! b = dst_val c" using inv pb unfolding setup_inv_def by blast
    obtain i where "i < length vs" "vs ! i = src_val c" "loc i = Some i" using inv c(3) unfolding setup_inv_def by blast
    moreover from this have "i = a" using inv c(1,4) by (auto simp: setup_inv_def nth_eq_iff_index_eq [symmetric])
    ultimately show ?thesis using c div [OF c(3)] by (auto simp: dst_val_def)
  qed
  show "values_ok st vs pred" using inv s p unfolding values_ok_def setup_inv_def by blast
  show "data_inv S R0 R0 n0 st vs pred loc pred" by (rule data_invI) (use p in auto)
qed

lemma resolve_parallel_copy_spec:
  assumes reg: "\<forall>c \<in> set pcopy. dst_is_reg c" and dst: "distinct (map copy_dst pcopy)"
    and fresh: "\<forall>c \<in> set pcopy. copy_src c < next_def st \<and> copy_dst c < next_def st"
    and div: "\<forall>c \<in> set pcopy. consider_divergence st \<and> copy_value_is_divergent st (src_val c) \<longrightarrow> copy_value_is_divergent st (dst_val c)"
  shows "\<exists>st'. resolve_parallel_copy pcopy st = Some st' \<and>
    (\<forall>c \<in> set pcopy. run_stores S (stores st') R (copy_dst c) = value_of S (run_stores S (stores st) R) (src_val c)) \<and>
    (\<forall>r < next_def st. r \<notin> copy_dst ` set pcopy \<longrightarrow> run_stores S (stores st') R r = run_stores S (stores st) R r)"
proof -
  let ?cs = "filter (\<lambda>c. \<not> no_op_copy c) pcopy" and ?R0 = "run_stores S (stores st) R"
  have count: "count_copies pcopy 0 = Some (length ?cs)" using count_copies_spec [OF reg, of 0] by simp
  have noop: "value_of S ?R0 (src_val c) = ?R0 (copy_dst c)" if "no_op_copy c" for c using that by (simp add: no_op_copy_def value_of_def src_val_def)
  show ?thesis
  proof (cases "?cs = []")
    case True
    then have "no_op_copy c" if "c \<in> set pcopy" for c using that by (auto simp: filter_empty_conv)
    then show ?thesis using count True noop by (simp add: resolve_parallel_copy_def)
  next
    case False
    define sz where "sz = length ?cs * 2"
    have "setup_inv sz [] [] (arr (replicate sz None)) (arr (replicate sz None)) []" by (auto simp: setup_inv_def unsafe_def arr_def)
    then obtain vs loc pred to_do where set: "setup_copies sz pcopy [] (replicate sz None) (replicate sz None) [] = Some (vs, loc, pred, to_do)"
        and len: "length loc = sz" "length pred = sz" and inv: "setup_inv sz ?cs vs (arr loc) (arr pred) to_do"
      using setup_copies_spec [of sz "[]" "[]" "replicate sz None" "replicate sz None" "[]" pcopy] reg dst by (auto simp: sz_def)
    have "values_ok st vs (arr pred)" by (rule setup_values_ok(1) [OF inv]) (use fresh div in auto)
    moreover have "data_inv S ?R0 ?R0 (next_def st) st vs (arr pred) (arr loc) (arr pred)"
      by (rule setup_values_ok(2) [OF inv]) (use fresh div in auto)
    moreover have book: "book_inv sz (length vs) (arr loc) (arr pred) (rev (filter (\<lambda>i. pred ! i \<noteq> None \<and> loc ! i = None) [0..<length vs]))"
      by (rule setup_book(1) [OF inv len]) (auto simp: sz_def)
    moreover have "set to_do \<subseteq> {..<sz}" "\<And>x. arr pred x \<noteq> None \<Longrightarrow> x \<in> set to_do"
      using inv book_invD(1) [OF book] by (auto simp: setup_inv_def)
    ultimately obtain st' where st': "to_do_loop sz to_do vs st loc pred (rev (filter (\<lambda>i. pred ! i \<noteq> None \<and> loc ! i = None) [0..<length vs])) = Some st'"
        "copies_done S ?R0 (run_stores S (stores st') R) (next_def st) vs (arr pred)"
      using to_do_loop_inv [of st vs "arr pred" loc sz pred _ S ?R0 R "next_def st" to_do] len by blast
    have res: "resolve_parallel_copy pcopy st = Some st'"
      using count False set st'(1) by (simp add: resolve_parallel_copy_def Let_def sz_def)
    have dests: "\<exists>c \<in> set ?cs. vs ! b = dst_val c" if "arr pred b \<noteq> None" for b using inv that unfolding setup_inv_def by blast
    have keep: "run_stores S (stores st') R r = ?R0 r" if r: "r < next_def st" "\<And>c. c \<in> set ?cs \<Longrightarrow> copy_dst c \<noteq> r" for r
    proof -
      have "ssa (vs ! b) \<noteq> r" if b: "arr pred b \<noteq> None" for b
      proof -
        obtain c where "c \<in> set ?cs" "vs ! b = dst_val c" using dests [OF b] by blast
        then show ?thesis using r(2) [of c] by (simp add: dst_val_def)
      qed
      then show ?thesis using st'(2) r(1) unfolding copies_done_def by blast
    qed
    have "run_stores S (stores st') R (copy_dst c) = value_of S ?R0 (src_val c)" if c: "c \<in> set pcopy" for c
    proof (cases "no_op_copy c")
      case True
      have "copy_dst c' \<noteq> copy_dst c" if "c' \<in> set ?cs" for c' using that c True dst by (auto simp: distinct_map dest: inj_onD)
      then show ?thesis using keep [of "copy_dst c"] fresh c noop [OF True] by auto
    next
      case False
      then obtain i j where "vs ! i = src_val c" "vs ! j = dst_val c" "arr pred j = Some i" using inv c unfolding setup_inv_def by auto
      then show ?thesis using st'(2) unfolding copies_done_def by (metis copy_value.select_convs(2) dst_val_def)
    qed
    then show ?thesis using res keep by auto
  qed
qed

text \<open>
  Property C32.  Leaving SSA form: the loads and stores that replace a parallel copy have the effect
  of performing all its copies at once.  Every destination ends with the value that its source had
  before, every other register that existed is unchanged, cycles are broken through new registers,
  and no assertion fails: neither the one that the arrays have room for those registers, nor the
  one that a divergent value never goes to a convergent register.  The destinations of a parallel
  copy are distinct registers.
\<close>

theorem resolve_parallel_copy_correct:
  assumes "\<forall>c \<in> set pcopy. dst_is_reg c" and "distinct (map copy_dst pcopy)"
    and "\<forall>c \<in> set pcopy. copy_src c < next_def st \<and> copy_dst c < next_def st"
    and "\<forall>c \<in> set pcopy. consider_divergence st \<and> copy_value_is_divergent st (src_val c) \<longrightarrow> copy_value_is_divergent st (dst_val c)"
  shows "\<exists>st'. resolve_parallel_copy pcopy st = Some st' \<and> (\<forall>(S :: nat \<Rightarrow> 'v) R.
    (\<forall>c \<in> set pcopy. run_stores S (stores st') R (copy_dst c) = value_of S (run_stores S (stores st) R) (src_val c)) \<and>
    (\<forall>r < next_def st. r \<notin> copy_dst ` set pcopy \<longrightarrow> run_stores S (stores st') R r = run_stores S (stores st) R r))"
proof -
  note spec = resolve_parallel_copy_spec [OF assms]
  obtain st' where st': "resolve_parallel_copy pcopy st = Some st'" using spec by blast
  have "(\<forall>c \<in> set pcopy. run_stores S (stores st') R (copy_dst c) = value_of S (run_stores S (stores st) R) (src_val c)) \<and>
    (\<forall>r < next_def st. r \<notin> copy_dst ` set pcopy \<longrightarrow> run_stores S (stores st') R r = run_stores S (stores st) R r)" for S R :: "nat \<Rightarrow> 'v"
    using spec [of S R] st' by auto
  then show ?thesis using st' by blast
qed

text \<open>A cycle of three registers, one of which is also copied elsewhere, and a constant.\<close>

definition cycle_copies :: "nir_parallel_copy list" where
  "cycle_copies = map (\<lambda>(r, s, d). \<lparr>src_is_reg = r, dst_is_reg = True, copy_src = s, copy_dst = d\<rparr>)
     [(True, 0, 1), (True, 1, 2), (True, 2, 0), (True, 1, 3), (False, 5, 4)]"

definition empty_state :: from_ssa_state where
  "empty_state = \<lparr>consider_divergence = True, reg_divergent = \<lambda>r. r = 3, ssa_divergent = \<lambda>_. False, next_def = 6, stores = []\<rparr>"

theorem resolve_parallel_copy_correct_witness:
  "\<exists>st'. resolve_parallel_copy cycle_copies empty_state = Some st' \<and> (\<forall>(S :: nat \<Rightarrow> nat) R.
    (\<forall>c \<in> set cycle_copies. run_stores S (stores st') R (copy_dst c) = value_of S (run_stores S (stores empty_state) R) (src_val c)) \<and>
    (\<forall>r < next_def empty_state. r \<notin> copy_dst ` set cycle_copies \<longrightarrow> run_stores S (stores st') R r = run_stores S (stores empty_state) R r))"
  by (rule resolve_parallel_copy_correct)
    (auto simp: cycle_copies_def empty_state_def copy_value_is_divergent_def src_val_def dst_val_def)

end
