(* ===== verification/U_Worklist.thy ===== *)
theory U_Worklist
  imports Mesa_Prelude
begin

text \<open>
  The double-ended queue of unique entries: \<open>src/src/util/u_worklist.c\<close>, a ring buffer with a bit
  set of the entries that are present.  An entry, in the code a pointer to its index, is its index.
  Positions are natural numbers; their sums, which the code computes in 32 bits, are reduced
  modulo \<open>2 ^ 32\<close>.  They reach twice the size of the queue, so a queue behaves as a list up to
  \<open>2 ^ 31\<close> entries.  \<open>None\<close> is a failed assertion or an access out of
  bounds.
\<close>

section \<open>The interface\<close>

text \<open>
  What the clients of the queue rely on: entries below a capacity, no entry twice, and the order
  at both ends.
\<close>

locale unique_deque =
  fixes inv :: "'w \<Rightarrow> bool" and cap :: "'w \<Rightarrow> nat" and elems :: "'w \<Rightarrow> nat list"
    and empty :: "'w \<Rightarrow> bool"
    and push_head push_tail :: "'w \<Rightarrow> nat \<Rightarrow> 'w option"
    and pop_head pop_tail :: "'w \<Rightarrow> (nat \<times> 'w) option"
  assumes elems_distinct: "inv w \<Longrightarrow> distinct (elems w)"
    and elems_bound: "inv w \<Longrightarrow> x \<in> set (elems w) \<Longrightarrow> x < cap w"
    and empty_iff: "inv w \<Longrightarrow> empty w \<longleftrightarrow> elems w = []"
    and push_head_law: "inv w \<Longrightarrow> x < cap w \<Longrightarrow> \<exists>w'. push_head w x = Some w' \<and> inv w' \<and> cap w' = cap w \<and>
      elems w' = (if x \<in> set (elems w) then elems w else x # elems w)"
    and push_tail_law: "inv w \<Longrightarrow> x < cap w \<Longrightarrow> \<exists>w'. push_tail w x = Some w' \<and> inv w' \<and> cap w' = cap w \<and>
      elems w' = (if x \<in> set (elems w) then elems w else elems w @ [x])"
    and pop_head_law: "inv w \<Longrightarrow> elems w = x # xs \<Longrightarrow> \<exists>w'. pop_head w = Some (x, w') \<and> inv w' \<and> cap w' = cap w \<and> elems w' = xs"
    and pop_tail_law: "inv w \<Longrightarrow> elems w = xs @ [x] \<Longrightarrow> \<exists>w'. pop_tail w = Some (x, w') \<and> inv w' \<and> cap w' = cap w \<and> elems w' = xs"
begin

fun push_all_head :: "nat list \<Rightarrow> 'w \<Rightarrow> 'w option" where
  "push_all_head [] w = Some w"
| "push_all_head (x # xs) w = do { w \<leftarrow> push_head w x; push_all_head xs w }"

lemma push_all_head_law:
  "inv w \<Longrightarrow> (\<And>x. x \<in> set xs \<Longrightarrow> x < cap w) \<Longrightarrow> distinct xs \<Longrightarrow> set xs \<inter> set (elems w) = {} \<Longrightarrow>
   \<exists>w'. push_all_head xs w = Some w' \<and> inv w' \<and> cap w' = cap w \<and> elems w' = rev xs @ elems w"
proof (induction xs arbitrary: w)
  case (Cons x xs)
  have x: "x < cap w" "x \<notin> set (elems w)" using Cons.prems by auto
  obtain w1 where w1: "push_head w x = Some w1" "inv w1" "cap w1 = cap w" "elems w1 = x # elems w"
    using push_head_law [OF Cons.prems(1) x(1)] x(2) by auto
  then show ?case using Cons.IH [of w1] Cons.prems by auto
qed simp

lemma elems_length: "inv w \<Longrightarrow> length (elems w) \<le> cap w"
proof -
  assume w: "inv w"
  have "card (set (elems w)) \<le> card {..<cap w}" using elems_bound [OF w] by (intro card_mono) auto
  then show ?thesis using distinct_card [OF elems_distinct [OF w]] by simp
qed

text \<open>A queue hands out its entries from the head in order, whatever is added at the tail meanwhile.\<close>

lemma push_tail_pop_head:
  assumes "inv w" and "elems w = x # xs" and "y < cap w"
  shows "\<exists>w1 w2. push_tail w y = Some w1 \<and> pop_head w1 = Some (x, w2) \<and> inv w2 \<and> elems w2 = (if y \<in> set (x # xs) then xs else xs @ [y])"
proof -
  obtain w1 where w1: "push_tail w y = Some w1" "inv w1" "elems w1 = (if y \<in> set (x # xs) then x # xs else x # xs @ [y])"
    using push_tail_law [OF assms(1,3)] assms(2) by auto
  then have "elems w1 = x # (if y \<in> set (x # xs) then xs else xs @ [y])" by simp
  then show ?thesis using w1 pop_head_law [OF w1(2)] by blast
qed

end

section \<open>The code\<close>

record u_worklist =
  wl_size :: nat
  wl_count :: nat
  wl_start :: nat
  wl_present :: "bool list"
  wl_entries :: "nat list"

definition u_worklist_init :: "nat \<Rightarrow> u_worklist" where
  "u_worklist_init num_entries = \<lparr>wl_size = num_entries, wl_count = 0, wl_start = 0,
     wl_present = replicate num_entries False, wl_entries = replicate num_entries 0\<rparr>"

definition u_worklist_is_empty :: "u_worklist \<Rightarrow> bool" where
  "u_worklist_is_empty w \<longleftrightarrow> wl_count w = 0"

definition u_worklist_push_head_index :: "u_worklist \<Rightarrow> nat \<Rightarrow> u_worklist option" where
  "u_worklist_push_head_index w index = do {
     c_assert (index < length (wl_present w));
     if wl_present w ! index then Some w
     else do {
       c_assert (wl_count w < wl_size w);
       let w = w\<lparr>wl_start := (if wl_start w = 0 then wl_size w - 1 else wl_start w - 1)\<rparr>;
       let w = w\<lparr>wl_count := wl_count w + 1\<rparr>;
       c_assert (wl_start w < length (wl_entries w));
       Some (w\<lparr>wl_entries := (wl_entries w)[wl_start w := index], wl_present := (wl_present w)[index := True]\<rparr>)
     }
   }"

definition u_worklist_peek_head_index :: "u_worklist \<Rightarrow> nat option" where
  "u_worklist_peek_head_index w = do { c_assert (wl_count w > 0); Some (wl_entries w ! wl_start w) }"

definition u_worklist_pop_head_index :: "u_worklist \<Rightarrow> (nat \<times> u_worklist) option" where
  "u_worklist_pop_head_index w = do {
     c_assert (wl_count w > 0);
     let head = wl_start w;
     let index = wl_entries w ! head;
     Some (index, w\<lparr>wl_start := (wl_start w + 1) mod 4294967296 mod wl_size w, wl_count := wl_count w - 1, wl_present := (wl_present w)[index := False]\<rparr>)
   }"

definition u_worklist_push_tail_index :: "u_worklist \<Rightarrow> nat \<Rightarrow> u_worklist option" where
  "u_worklist_push_tail_index w index = do {
     c_assert (index < length (wl_present w));
     if wl_present w ! index then Some w
     else do {
       c_assert (wl_count w < wl_size w);
       let w = w\<lparr>wl_count := wl_count w + 1\<rparr>;
       let tail = (wl_start w + wl_count w - 1) mod 4294967296 mod wl_size w;
       c_assert (tail < length (wl_entries w));
       Some (w\<lparr>wl_entries := (wl_entries w)[tail := index], wl_present := (wl_present w)[index := True]\<rparr>)
     }
   }"

definition u_worklist_peek_tail_index :: "u_worklist \<Rightarrow> nat option" where
  "u_worklist_peek_tail_index w = do {
     c_assert (wl_count w > 0);
     let tail = (wl_start w + wl_count w - 1) mod 4294967296 mod wl_size w;
     Some (wl_entries w ! tail)
   }"

definition u_worklist_pop_tail_index :: "u_worklist \<Rightarrow> (nat \<times> u_worklist) option" where
  "u_worklist_pop_tail_index w = do {
     c_assert (wl_count w > 0);
     let tail = (wl_start w + wl_count w - 1) mod 4294967296 mod wl_size w;
     let index = wl_entries w ! tail;
     Some (index, w\<lparr>wl_count := wl_count w - 1, wl_present := (wl_present w)[index := False]\<rparr>)
   }"

section \<open>The queue as a list\<close>

definition ring :: "'a list \<Rightarrow> nat \<Rightarrow> nat \<Rightarrow> nat \<Rightarrow> 'a list" where
  "ring es sz start count = map (\<lambda>k. es ! ((start + k) mod sz)) [0..<count]"

definition wl_elems :: "u_worklist \<Rightarrow> nat list" where
  "wl_elems w = ring (wl_entries w) (wl_size w) (wl_start w) (wl_count w)"

definition wl_inv :: "u_worklist \<Rightarrow> bool" where
  "wl_inv w \<longleftrightarrow> wl_size w \<le> 2147483648 \<and> length (wl_entries w) = wl_size w \<and> length (wl_present w) = wl_size w \<and>
     (wl_start w < wl_size w \<or> wl_size w = 0) \<and> distinct (wl_elems w) \<and>
     (\<forall>x < wl_size w. wl_present w ! x \<longleftrightarrow> x \<in> set (wl_elems w)) \<and> (\<forall>x \<in> set (wl_elems w). x < wl_size w)"

lemma ring_length [simp]: "length (ring es sz start count) = count"
  by (simp add: ring_def)

lemma ring_Cons: "ring es sz start (Suc count) = es ! (start mod sz) # ring es sz (Suc start mod sz) count"
proof -
  have "map (\<lambda>k. es ! ((start + k) mod sz)) [0..<Suc count] = es ! ((start + 0) mod sz) # map (\<lambda>k. es ! ((start + Suc k) mod sz)) [0..<count]"
    unfolding upt_conv_Cons [OF zero_less_Suc] by (simp add: map_Suc_upt [symmetric] del: upt_Suc)
  moreover have "(start + Suc k) mod sz = (Suc start mod sz + k) mod sz" for k by (simp add: mod_add_left_eq)
  ultimately show ?thesis by (simp add: ring_def del: upt_Suc)
qed

lemma ring_snoc: "ring es sz start (Suc count) = ring es sz start count @ [es ! ((start + count) mod sz)]"
  by (simp add: ring_def)

lemma mod_same_small:
  fixes a b sz start :: nat
  assumes "(start + a) mod sz = (start + b) mod sz" and "a < sz" "b < sz"
  shows "a = b"
proof (rule ccontr)
  assume "a \<noteq> b"
  then consider "a < b" | "b < a" by linarith
  then show False
  proof cases
    case 1
    then have "sz dvd b - a" using mod_eq_dvd_iff_nat [of "start + a" "start + b" sz] assms(1) by simp
    then show False using 1 assms(3) by (auto dest: dvd_imp_le)
  next
    case 2
    then have "sz dvd a - b" using mod_eq_dvd_iff_nat [of "start + b" "start + a" sz] assms(1) by simp
    then show False using 2 assms(2) by (auto dest: dvd_imp_le)
  qed
qed

text \<open>A write just behind the last entry, seen from either end, does not disturb the others.\<close>

lemma ring_update_other:
  assumes "count < sz"
  shows "ring (es[(start + count) mod sz := x]) sz start count = ring es sz start count"
  unfolding ring_def
proof (intro map_cong refl)
  fix k
  assume "k \<in> set [0..<count]"
  then have "(start + k) mod sz \<noteq> (start + count) mod sz" using mod_same_small [of start k sz count] assms by auto
  then show "es[(start + count) mod sz := x] ! ((start + k) mod sz) = es ! ((start + k) mod sz)" by simp
qed

lemma ring_push_tail:
  assumes "count < sz" and "length es = sz"
  shows "ring (es[(start + count) mod sz := x]) sz start (Suc count) = ring es sz start count @ [x]"
  using ring_update_other [OF assms(1), of es start x] assms by (simp add: ring_snoc)

lemma ring_push_head:
  assumes "count < sz" and "length es = sz" and "Suc start mod sz = old" and "start < sz"
  shows "ring (es[start := x]) sz start (Suc count) = x # ring es sz old count"
proof -
  have "ring (es[start := x]) sz old count = ring es sz old count"
    unfolding ring_def
  proof (intro map_cong refl)
    fix k
    assume k: "k \<in> set [0..<count]"
    have "(old + k) mod sz = (start + Suc k) mod sz" unfolding assms(3) [symmetric] by (simp add: mod_add_left_eq)
    moreover have "(start + Suc k) mod sz \<noteq> (start + 0) mod sz" using mod_same_small [of start "Suc k" sz 0] k assms(1) by auto
    ultimately have "(old + k) mod sz \<noteq> start" using assms(4) by simp
    then show "es[start := x] ! ((old + k) mod sz) = es ! ((old + k) mod sz)" by simp
  qed
  then show ?thesis using assms by (simp add: ring_Cons)
qed

section \<open>The operations keep the promises\<close>

lemma wl_invD:
  assumes "wl_inv w"
  shows "length (wl_entries w) = wl_size w" and "length (wl_present w) = wl_size w" and "0 < wl_size w \<Longrightarrow> wl_start w < wl_size w"
    and "distinct (wl_elems w)" and "x < wl_size w \<Longrightarrow> wl_present w ! x \<longleftrightarrow> x \<in> set (wl_elems w)" and "x \<in> set (wl_elems w) \<Longrightarrow> x < wl_size w"
    and "wl_size w \<le> 2147483648"
  using assms by (auto simp: wl_inv_def)

lemma wl_elems_length: "length (wl_elems w) = wl_count w"
  by (simp add: wl_elems_def)

lemma wl_full:
  assumes "wl_inv w"
  shows "wl_count w \<le> wl_size w"
proof -
  have "card (set (wl_elems w)) \<le> card {..<wl_size w}" using wl_invD(6) [OF assms] by (intro card_mono) auto
  then show ?thesis using distinct_card [OF wl_invD(4) [OF assms]] by (simp add: wl_elems_length)
qed

text \<open>The 32-bit positions do not wrap.\<close>

lemma wl_position:
  assumes "wl_inv w" and "0 < wl_size w"
  shows "n < wl_size w \<Longrightarrow> (wl_start w + n) mod 4294967296 = wl_start w + n" and "Suc (wl_start w) mod 4294967296 = Suc (wl_start w)"
  using wl_invD(3,7) [OF assms(1)] assms(2) by simp_all

lemma wl_room:
  assumes "wl_inv w" and "x < wl_size w" and "x \<notin> set (wl_elems w)"
  shows "wl_count w < wl_size w"
proof -
  have "card (insert x (set (wl_elems w))) \<le> card {..<wl_size w}" using assms wl_invD(6) by (intro card_mono) auto
  then show ?thesis using assms(3) distinct_card [OF wl_invD(4) [OF assms(1)]] by (simp add: wl_elems_length)
qed

lemma wl_init_inv: "n \<le> 2147483648 \<Longrightarrow> wl_inv (u_worklist_init n)" "wl_elems (u_worklist_init n) = []" "wl_size (u_worklist_init n) = n"
  by (auto simp: wl_inv_def u_worklist_init_def wl_elems_def ring_def)

lemma wl_push_head:
  assumes inv: "wl_inv w" and x: "x < wl_size w"
  shows "\<exists>w'. u_worklist_push_head_index w x = Some w' \<and> wl_inv w' \<and> wl_size w' = wl_size w \<and>
    wl_elems w' = (if x \<in> set (wl_elems w) then wl_elems w else x # wl_elems w)"
proof (cases "x \<in> set (wl_elems w)")
  case True
  then show ?thesis using wl_invD(2,5) [OF inv] x inv by (simp add: u_worklist_push_head_index_def)
next
  case False
  note i = wl_invD [OF inv]
  have room: "wl_count w < wl_size w" by (rule wl_room [OF inv x False])
  define st where "st = (if wl_start w = 0 then wl_size w - 1 else wl_start w - 1)"
  define w' where "w' = w\<lparr>wl_start := st, wl_count := wl_count w + 1, wl_entries := (wl_entries w)[st := x], wl_present := (wl_present w)[x := True]\<rparr>"
  have st: "st < wl_size w" using room i(3) by (auto simp: st_def)
  have "Suc st mod wl_size w = wl_start w" using i(3) room by (auto simp: st_def)
  then have old: "ring (wl_entries w) (wl_size w) (Suc st mod wl_size w) (wl_count w) = wl_elems w" by (simp add: wl_elems_def)
  have e: "wl_elems w' = x # wl_elems w"
    using ring_push_head [OF room i(1) refl st, of x] old by (simp add: wl_elems_def w'_def)
  have "u_worklist_push_head_index w x = Some w'"
    using i(1,2,5) x False room st by (simp add: u_worklist_push_head_index_def w'_def st_def Let_def)
  moreover have "wl_inv w'" using i x False st unfolding wl_inv_def e by (auto simp: w'_def nth_list_update)
  ultimately show ?thesis using e False by (simp add: w'_def)
qed

lemma wl_push_tail:
  assumes inv: "wl_inv w" and x: "x < wl_size w"
  shows "\<exists>w'. u_worklist_push_tail_index w x = Some w' \<and> wl_inv w' \<and> wl_size w' = wl_size w \<and>
    wl_elems w' = (if x \<in> set (wl_elems w) then wl_elems w else wl_elems w @ [x])"
proof (cases "x \<in> set (wl_elems w)")
  case True
  then show ?thesis using wl_invD(2,5) [OF inv] x inv by (simp add: u_worklist_push_tail_index_def)
next
  case False
  note i = wl_invD [OF inv]
  have room: "wl_count w < wl_size w" by (rule wl_room [OF inv x False])
  define tl where "tl = (wl_start w + wl_count w) mod wl_size w"
  define w' where "w' = w\<lparr>wl_count := wl_count w + 1, wl_entries := (wl_entries w)[tl := x], wl_present := (wl_present w)[x := True]\<rparr>"
  have tl: "tl < wl_size w" using room by (simp add: tl_def)
  have e: "wl_elems w' = wl_elems w @ [x]" using ring_push_tail [OF room i(1), of "wl_start w" x] by (simp add: wl_elems_def w'_def tl_def)
  have "u_worklist_push_tail_index w x = Some w'"
    using i(1,2,5) x False room tl wl_position(1) [OF inv _ room] by (simp add: u_worklist_push_tail_index_def w'_def tl_def Let_def)
  moreover have "wl_inv w'" using i x False unfolding wl_inv_def e by (auto simp: w'_def nth_list_update)
  ultimately show ?thesis using e False by (simp add: w'_def)
qed

text \<open>Removing an entry clears its bit and leaves the rest of the queue.\<close>

lemma wl_present_removed:
  assumes inv: "wl_inv w" and "distinct (x # ys)" and "set (wl_elems w) = set (x # ys)" and "y < wl_size w"
  shows "((wl_present w)[x := False]) ! y \<longleftrightarrow> y \<in> set ys"
  using wl_invD(2) [OF inv] wl_invD(5) [OF inv assms(4)] assms(2-4) by (cases "y = x") auto

lemma wl_pop_head:
  assumes inv: "wl_inv w" and e: "wl_elems w = x # xs"
  shows "\<exists>w'. u_worklist_pop_head_index w = Some (x, w') \<and> wl_inv w' \<and> wl_size w' = wl_size w \<and> wl_elems w' = xs"
proof -
  note i = wl_invD [OF inv]
  have pos: "0 < wl_size w" using i(6) [of x] e by simp
  obtain c where c: "wl_count w = Suc c" using wl_elems_length [of w] e by (cases "wl_count w") auto
  have hd: "wl_entries w ! wl_start w = x" and xs: "ring (wl_entries w) (wl_size w) (Suc (wl_start w) mod wl_size w) c = xs"
    using e i(3) [OF pos] ring_Cons [of "wl_entries w" "wl_size w" "wl_start w" c] by (simp_all add: wl_elems_def c)
  define w' where "w' = w\<lparr>wl_start := (wl_start w + 1) mod wl_size w, wl_count := wl_count w - 1, wl_present := (wl_present w)[x := False]\<rparr>"
  have e': "wl_elems w' = xs" using xs by (simp add: wl_elems_def w'_def c)
  have "u_worklist_pop_head_index w = Some (x, w')" using c hd wl_position(2) [OF inv pos] by (simp add: u_worklist_pop_head_index_def w'_def Let_def)
  moreover have "wl_inv w'" using i e pos wl_present_removed [OF inv, of x xs] unfolding wl_inv_def e' by (auto simp: w'_def)
  ultimately show ?thesis using e' by (simp add: w'_def)
qed

lemma wl_pop_tail:
  assumes inv: "wl_inv w" and e: "wl_elems w = xs @ [x]"
  shows "\<exists>w'. u_worklist_pop_tail_index w = Some (x, w') \<and> wl_inv w' \<and> wl_size w' = wl_size w \<and> wl_elems w' = xs"
proof -
  note i = wl_invD [OF inv]
  have pos: "0 < wl_size w" using i(6) [of x] e by simp
  obtain c where c: "wl_count w = Suc c" using wl_elems_length [of w] e by (cases "wl_count w") auto
  have tl: "wl_entries w ! ((wl_start w + wl_count w - 1) mod wl_size w) = x" and xs: "ring (wl_entries w) (wl_size w) (wl_start w) c = xs"
    using e by (simp_all add: wl_elems_def c ring_snoc)
  define w' where "w' = w\<lparr>wl_count := wl_count w - 1, wl_present := (wl_present w)[x := False]\<rparr>"
  have e': "wl_elems w' = xs" using xs by (simp add: wl_elems_def w'_def c)
  have "c < wl_size w" using wl_full [OF inv] c by simp
  then have "u_worklist_pop_tail_index w = Some (x, w')" using c tl wl_position(1) [OF inv pos] by (simp add: u_worklist_pop_tail_index_def w'_def Let_def)
  moreover have "wl_inv w'" using i e pos wl_present_removed [OF inv, of x xs] unfolding wl_inv_def e' by (auto simp: w'_def)
  ultimately show ?thesis using e' by (simp add: w'_def)
qed

interpretation wl: unique_deque wl_inv wl_size wl_elems u_worklist_is_empty u_worklist_push_head_index u_worklist_push_tail_index
  u_worklist_pop_head_index u_worklist_pop_tail_index
proof
  show "u_worklist_is_empty w \<longleftrightarrow> wl_elems w = []" for w
    using wl_elems_length [of w] by (auto simp: u_worklist_is_empty_def)
qed (simp_all add: wl_invD wl_push_head wl_push_tail wl_pop_head wl_pop_tail)

section \<open>Refinement of a list\<close>

datatype wl_op = PushHead nat | PushTail nat | PopHead | PopTail | PeekHead | PeekTail

fun wl_step :: "wl_op \<Rightarrow> u_worklist \<Rightarrow> (nat option \<times> u_worklist) option" where
  "wl_step (PushHead x) w = map_option (Pair None) (u_worklist_push_head_index w x)"
| "wl_step (PushTail x) w = map_option (Pair None) (u_worklist_push_tail_index w x)"
| "wl_step PopHead w = map_option (map_prod Some id) (u_worklist_pop_head_index w)"
| "wl_step PopTail w = map_option (map_prod Some id) (u_worklist_pop_tail_index w)"
| "wl_step PeekHead w = map_option (\<lambda>x. (Some x, w)) (u_worklist_peek_head_index w)"
| "wl_step PeekTail w = map_option (\<lambda>x. (Some x, w)) (u_worklist_peek_tail_index w)"

text \<open>The specification: a list without duplicates; removing from the empty list is an error.\<close>

fun deque_step :: "wl_op \<Rightarrow> nat list \<Rightarrow> (nat option \<times> nat list) option" where
  "deque_step (PushHead x) xs = Some (None, if x \<in> set xs then xs else x # xs)"
| "deque_step (PushTail x) xs = Some (None, if x \<in> set xs then xs else xs @ [x])"
| "deque_step PopHead xs = (if xs = [] then None else Some (Some (hd xs), tl xs))"
| "deque_step PopTail xs = (if xs = [] then None else Some (Some (last xs), butlast xs))"
| "deque_step PeekHead xs = (if xs = [] then None else Some (Some (hd xs), xs))"
| "deque_step PeekTail xs = (if xs = [] then None else Some (Some (last xs), xs))"

fun op_index_ok :: "nat \<Rightarrow> wl_op \<Rightarrow> bool" where
  "op_index_ok n (PushHead x) = (x < n)"
| "op_index_ok n (PushTail x) = (x < n)"
| "op_index_ok n _ = True"

lemma wl_peek:
  assumes "wl_inv w" and "wl_elems w \<noteq> []"
  shows "u_worklist_peek_head_index w = Some (hd (wl_elems w))" and "u_worklist_peek_tail_index w = Some (last (wl_elems w))"
proof -
  obtain c where c: "wl_count w = Suc c" using wl_elems_length [of w] assms(2) by (cases "wl_count w") auto
  have pos: "0 < wl_size w" using wl_invD(6) [OF assms(1), of "hd (wl_elems w)"] assms(2) by simp
  then show "u_worklist_peek_head_index w = Some (hd (wl_elems w))"
    using wl_invD(3) [OF assms(1)] by (simp add: u_worklist_peek_head_index_def wl_elems_def c ring_Cons)
  have "c < wl_size w" using wl_full [OF assms(1)] c by simp
  then show "u_worklist_peek_tail_index w = Some (last (wl_elems w))"
    using wl_position(1) [OF assms(1) pos] by (simp add: u_worklist_peek_tail_index_def wl_elems_def c ring_snoc)
qed

lemma wl_fails_empty:
  assumes "wl_elems w = []"
  shows "u_worklist_pop_head_index w = None" and "u_worklist_pop_tail_index w = None"
    and "u_worklist_peek_head_index w = None" and "u_worklist_peek_tail_index w = None"
  using wl_elems_length [of w] assms by (simp_all add: u_worklist_pop_head_index_def u_worklist_pop_tail_index_def
    u_worklist_peek_head_index_def u_worklist_peek_tail_index_def)

lemma wl_step_refines:
  assumes inv: "wl_inv w" and op: "op_index_ok (wl_size w) op"
  shows "case wl_step op w of None \<Rightarrow> deque_step op (wl_elems w) = None
    | Some (x, w') \<Rightarrow> deque_step op (wl_elems w) = Some (x, wl_elems w') \<and> wl_inv w' \<and> wl_size w' = wl_size w"
proof (cases op)
  case (PushHead x)
  then show ?thesis using wl.push_head_law [OF inv, of x] op by auto
next
  case (PushTail x)
  then show ?thesis using wl.push_tail_law [OF inv, of x] op by auto
next
  case PopHead
  then show ?thesis using wl.pop_head_law [OF inv] wl_fails_empty [of w] by (cases "wl_elems w") fastforce+
next
  case PopTail
  then show ?thesis using wl.pop_tail_law [OF inv] wl_fails_empty [of w] by (cases "wl_elems w" rule: rev_cases) fastforce+
next
  case PeekHead
  then show ?thesis using wl_peek(1) [OF inv] wl_fails_empty(3) [of w] inv by (cases "wl_elems w = []") auto
next
  case PeekTail
  then show ?thesis using wl_peek(2) [OF inv] wl_fails_empty(4) [of w] inv by (cases "wl_elems w = []") auto
qed

interpretation wl_run: run_refinement wl_step deque_step wl_elems "\<lambda>w. wl_inv w \<and> wl_size w = n" "op_index_ok n" for n
proof unfold_locales
  fix w x
  assume "wl_inv w \<and> wl_size w = n" and "op_index_ok n x"
  then show "case wl_step x w of None \<Rightarrow> deque_step x (wl_elems w) = None
    | Some (r, w') \<Rightarrow> deque_step x (wl_elems w) = Some (r, wl_elems w') \<and> wl_inv w' \<and> wl_size w' = n"
    using wl_step_refines [of w x] by (auto split: option.splits)
qed

text \<open>
  Property C38.  A worklist of at most \<open>2 ^ 31\<close> entries is a double-ended queue without
  duplicates: for every sequence of operations with indices below its size, the ring buffer and the bit set give the results of a
  list, an entry that is present is not added again, the assertion on a full queue never fails,
  and taking or looking at an entry fails exactly when the queue is empty.
\<close>

theorem u_worklist_refines_deque:
  assumes "n \<le> 2 ^ 31" and "list_all (op_index_ok n) ops"
  shows "map_option (map_prod id wl_elems) (run_steps wl_step ops (u_worklist_init n)) = run_steps deque_step ops []"
  using wl_run.steps_refine [of "u_worklist_init n" n ops] wl_init_inv [of n] assms by simp

theorem u_worklist_refines_deque_witness:
  "map_option (map_prod id wl_elems) (run_steps wl_step [PushTail 1, PushHead 2, PushTail 1, PopTail, PushHead 0, PeekHead] (u_worklist_init 3)) =
     Some ([None, None, None, Some 1, None, Some 0], [0, 2])"
  using u_worklist_refines_deque [of 3 "[PushTail 1, PushHead 2, PushTail 1, PopTail, PushHead 0, PeekHead]"] by simp

end
