(* ===== verification/Sparse_Bitset.thy ===== *)
theory Sparse_Bitset
  imports Mesa_Prelude
begin

text \<open>
  Sparse bit sets: \<open>src/src/util/sparse_bitset.h\<close> and the bit arrays of \<open>src/src/util/bitset.h\<close> it is
  made of.  A set is a red-black tree of nodes of 1024 bits, ordered by the first bit they cover;
  the tree is represented by the sequence of its nodes in order, and a pointer to a node by the
  rest of the sequence.  Allocation succeeds.  \<open>None\<close> is a failed assertion or an access out of
  bounds.
\<close>

unbundle bit_operations_syntax

section \<open>The interface\<close>

text \<open>
  What the clients of the bit sets rely on: each set stands for a set of numbers, and merging
  tells whether it added anything.
\<close>

locale bit_sets =
  fixes inv :: "'s \<Rightarrow> bool" and members :: "'s \<Rightarrow> u32 set"
    and init :: "u32 \<Rightarrow> 's" and insert_bit clear_bit :: "'s \<Rightarrow> u32 \<Rightarrow> 's option" and test_bit :: "'s \<Rightarrow> u32 \<Rightarrow> bool option"
    and dup :: "'s \<Rightarrow> 's option" and merge :: "'s \<Rightarrow> 's \<Rightarrow> (bool \<times> 's) option"
  assumes init_law: "inv (init c)" "members (init c) = {}"
    and insert_law: "inv s \<Longrightarrow> \<exists>s'. insert_bit s b = Some s' \<and> inv s' \<and> members s' = insert b (members s)"
    and clear_law: "inv s \<Longrightarrow> \<exists>s'. clear_bit s b = Some s' \<and> inv s' \<and> members s' = members s - {b}"
    and test_law: "inv s \<Longrightarrow> test_bit s b = Some (b \<in> members s)"
    and dup_law: "inv s \<Longrightarrow> \<exists>s'. dup s = Some s' \<and> inv s' \<and> members s' = members s"
    and merge_law: "inv d \<Longrightarrow> inv s \<Longrightarrow> \<exists>d'. merge d s = Some (\<not> members s \<subseteq> members d, d') \<and> inv d' \<and> members d' = members d \<union> members s"
begin

fun insert_all :: "u32 list \<Rightarrow> 's \<Rightarrow> 's option" where
  "insert_all [] s = Some s"
| "insert_all (b # bs) s = do { s \<leftarrow> insert_bit s b; insert_all bs s }"

lemma insert_all_law: "inv s \<Longrightarrow> \<exists>s'. insert_all bs s = Some s' \<and> inv s' \<and> members s' = set bs \<union> members s"
proof (induction bs arbitrary: s)
  case (Cons b bs)
  obtain s1 where s1: "insert_bit s b = Some s1" "inv s1" "members s1 = insert b (members s)" using insert_law [OF Cons.prems] by blast
  then show ?case using Cons.IH [OF s1(2)] by auto
qed simp

text \<open>Merging a set a second time adds nothing.\<close>

lemma merge_twice:
  assumes "inv d" and "inv s"
  shows "\<exists>p d1 d2. merge d s = Some (p, d1) \<and> merge d1 s = Some (False, d2) \<and> members d2 = members d1"
proof -
  obtain d1 where d1: "merge d s = Some (\<not> members s \<subseteq> members d, d1)" "inv d1" "members d1 = members d \<union> members s"
    using merge_law [OF assms] by blast
  obtain d2 where d2: "merge d1 s = Some (\<not> members s \<subseteq> members d1, d2)" "members d2 = members d1 \<union> members s"
    using merge_law [OF d1(2) assms(2)] by blast
  have "members s \<subseteq> members d1" using d1(3) by blast
  then have "merge d1 s = Some (False, d2)" "members d2 = members d1" using d2 by auto
  then show ?thesis using d1(1) by blast
qed

end

section \<open>Bit arrays\<close>

type_synonym bitset = "u32 list"

definition BITSET_WORDS :: "nat \<Rightarrow> nat" where
  "BITSET_WORDS bits = (bits + 32 - 1) div 32"

definition BITSET_BIT :: "nat \<Rightarrow> u32" where
  "BITSET_BIT b = push_bit (b mod 32) 1"

definition BITSET_TEST :: "bitset \<Rightarrow> nat \<Rightarrow> bool option" where
  "BITSET_TEST x b = do { c_assert (b div 32 < length x); Some (x ! (b div 32) AND BITSET_BIT b \<noteq> 0) }"

definition BITSET_SET :: "bitset \<Rightarrow> nat \<Rightarrow> bitset option" where
  "BITSET_SET x b = do { c_assert (b div 32 < length x); Some (x[b div 32 := x ! (b div 32) OR BITSET_BIT b]) }"

definition BITSET_CLEAR :: "bitset \<Rightarrow> nat \<Rightarrow> bitset option" where
  "BITSET_CLEAR x b = do { c_assert (b div 32 < length x); Some (x[b div 32 := x ! (b div 32) AND NOT (BITSET_BIT b)]) }"

fun bitset_is_empty :: "bitset \<Rightarrow> bool" where
  "bitset_is_empty [] \<longleftrightarrow> True"
| "bitset_is_empty (w # ws) \<longleftrightarrow> (if w \<noteq> 0 then False else bitset_is_empty ws)"

fun u_bitset_merge :: "bitset \<Rightarrow> bitset \<Rightarrow> nat \<Rightarrow> (bool \<times> bitset) option" where
  "u_bitset_merge dst src 0 = Some (False, dst)"
| "u_bitset_merge (d # dst) (s # src) (Suc words) = do {
     (changed, dst) \<leftarrow> u_bitset_merge dst src words;
     Some (s AND NOT d \<noteq> 0 \<or> changed, (d OR s) # dst)
   }"
| "u_bitset_merge _ _ _ = None"

definition util_bitcount :: "u32 \<Rightarrow> u32" where
  "util_bitcount n = of_nat (length (filter (bit n) [0..<32]))"

definition bitfield_mask :: "nat \<Rightarrow> u32" where
  "bitfield_mask b = (if b = 32 then - 1 else push_bit (b mod 32) 1 - 1)"

fun bitset_prefix_sum_from :: "nat \<Rightarrow> bitset \<Rightarrow> u32 \<Rightarrow> nat \<Rightarrow> u32 option" where
  "bitset_prefix_sum_from i x b 0 = Some 0"
| "bitset_prefix_sum_from i (w # x) b (Suc n) =
     (if (i + 1) * 32 \<le> unat b then do { rest \<leftarrow> bitset_prefix_sum_from (i + 1) x b n; Some (util_bitcount w + rest) }
      else Some (util_bitcount (w AND bitfield_mask (unat b - i * 32))))"
| "bitset_prefix_sum_from i [] b (Suc n) = None"

definition bitset_prefix_sum :: "bitset \<Rightarrow> u32 \<Rightarrow> nat \<Rightarrow> u32 option" where
  "bitset_prefix_sum x b n = bitset_prefix_sum_from 0 x b n"

definition bitset_count :: "bitset \<Rightarrow> nat \<Rightarrow> u32 option" where
  "bitset_count x n = bitset_prefix_sum x (- 1) n"

section \<open>Sparse sets\<close>

text \<open>
  \<open>sb_vals\<close> and \<open>sb_tree\<close> share their memory in the code; which one is in use is told by
  \<open>sb_capacity\<close>.
\<close>

record u_sparse_bitset =
  sb_tree :: "(u32 \<times> bitset) list"
  sb_vals :: bitset
  sb_capacity :: u32

definition U_SPARSE_BITSET_BITS_PER_NODE :: nat where
  "U_SPARSE_BITSET_BITS_PER_NODE = 2 ^ 10"

definition U_SPARSE_BITSET_BIT_INDEX_MASK :: u32 where
  "U_SPARSE_BITSET_BIT_INDEX_MASK = of_nat U_SPARSE_BITSET_BITS_PER_NODE - 1"

definition U_SPARSE_BITSET_OFFSET_MASK :: u32 where
  "U_SPARSE_BITSET_OFFSET_MASK = NOT U_SPARSE_BITSET_BIT_INDEX_MASK"

definition U_SPARSE_BITSET_SMALL_SET_THRESHOLD :: u32 where
  "U_SPARSE_BITSET_SMALL_SET_THRESHOLD = 0"

definition u_sparse_bitset_is_small :: "u_sparse_bitset \<Rightarrow> bool" where
  "u_sparse_bitset_is_small s \<longleftrightarrow> sb_capacity s \<noteq> 0"

definition u_sparse_bitset_init :: "u32 \<Rightarrow> u_sparse_bitset" where
  "u_sparse_bitset_init capacity =
     (if capacity \<noteq> 0 \<and> capacity < U_SPARSE_BITSET_SMALL_SET_THRESHOLD
      then \<lparr>sb_tree = [], sb_vals = replicate (BITSET_WORDS (unat capacity)) 0, sb_capacity = capacity\<rparr>
      else \<lparr>sb_tree = [], sb_vals = [], sb_capacity = 0\<rparr>)"

definition u_sparse_bitset_clear_all :: "u_sparse_bitset \<Rightarrow> u_sparse_bitset" where
  "u_sparse_bitset_clear_all s =
     (if u_sparse_bitset_is_small s then s\<lparr>sb_vals := replicate (BITSET_WORDS (unat (sb_capacity s))) 0\<rparr>
      else s\<lparr>sb_tree := []\<rparr>)"

definition u_sparse_bitset_node_comparator :: "u32 \<Rightarrow> u32 \<Rightarrow> int" where
  "u_sparse_bitset_node_comparator offset_a offset_b = of_bool (offset_a < offset_b) - of_bool (offset_a > offset_b)"

text \<open>
  The tree operations on the sequence of the nodes: the place where the search from the root ends,
  the first node that compares equal, and writing through a node pointer.
\<close>

fun node_insert :: "u32 \<Rightarrow> bitset \<Rightarrow> (u32 \<times> bitset) list \<Rightarrow> (u32 \<times> bitset) list" where
  "node_insert offset v [] = [(offset, v)]"
| "node_insert offset v ((a, w) # t) =
     (if u_sparse_bitset_node_comparator a offset < 0 then (offset, v) # (a, w) # t else (a, w) # node_insert offset v t)"

fun node_search :: "u32 \<Rightarrow> (u32 \<times> bitset) list \<Rightarrow> bitset option" where
  "node_search offset [] = None"
| "node_search offset ((a, w) # t) = (if u_sparse_bitset_node_comparator a offset = 0 then Some w else node_search offset t)"

fun node_write :: "u32 \<Rightarrow> bitset \<Rightarrow> (u32 \<times> bitset) list \<Rightarrow> (u32 \<times> bitset) list" where
  "node_write offset v [] = []"
| "node_write offset v ((a, w) # t) = (if a = offset then (a, v) # t else (a, w) # node_write offset v t)"

definition u_sparse_bitset_get_node :: "u_sparse_bitset \<Rightarrow> u32 \<Rightarrow> bitset option option" where
  "u_sparse_bitset_get_node s offset = do {
     c_assert (\<not> u_sparse_bitset_is_small s);
     Some (node_search offset (sb_tree s))
   }"

definition u_sparse_bitset_get_or_add_node :: "u_sparse_bitset \<Rightarrow> u32 \<Rightarrow> (bitset \<times> u_sparse_bitset) option" where
  "u_sparse_bitset_get_or_add_node s offset = do {
     c_assert (\<not> u_sparse_bitset_is_small s);
     c_assert (offset AND U_SPARSE_BITSET_BIT_INDEX_MASK = 0);
     node \<leftarrow> u_sparse_bitset_get_node s offset;
     case node of
       None \<Rightarrow> let node = replicate (BITSET_WORDS U_SPARSE_BITSET_BITS_PER_NODE) 0 in Some (node, s\<lparr>sb_tree := node_insert offset node (sb_tree s)\<rparr>)
     | Some node \<Rightarrow> Some (node, s)
   }"

definition u_sparse_bitset_set :: "u_sparse_bitset \<Rightarrow> u32 \<Rightarrow> u_sparse_bitset option" where
  "u_sparse_bitset_set s b =
     (if u_sparse_bitset_is_small s then do {
        c_assert (b < sb_capacity s);
        v \<leftarrow> BITSET_SET (sb_vals s) (unat b);
        Some (s\<lparr>sb_vals := v\<rparr>)
      } else do {
        let offset = b AND U_SPARSE_BITSET_OFFSET_MASK;
        (node, s) \<leftarrow> u_sparse_bitset_get_or_add_node s offset;
        v \<leftarrow> BITSET_SET node (unat (b AND U_SPARSE_BITSET_BIT_INDEX_MASK));
        Some (s\<lparr>sb_tree := node_write offset v (sb_tree s)\<rparr>)
      })"

definition u_sparse_bitset_clear :: "u_sparse_bitset \<Rightarrow> u32 \<Rightarrow> u_sparse_bitset option" where
  "u_sparse_bitset_clear s b =
     (if u_sparse_bitset_is_small s then do {
        c_assert (b < sb_capacity s);
        v \<leftarrow> BITSET_CLEAR (sb_vals s) (unat b);
        Some (s\<lparr>sb_vals := v\<rparr>)
      } else do {
        let offset = b AND U_SPARSE_BITSET_OFFSET_MASK;
        node \<leftarrow> u_sparse_bitset_get_node s offset;
        case node of
          None \<Rightarrow> Some s
        | Some node \<Rightarrow> do {
            v \<leftarrow> BITSET_CLEAR node (unat (b AND U_SPARSE_BITSET_BIT_INDEX_MASK));
            Some (s\<lparr>sb_tree := node_write offset v (sb_tree s)\<rparr>)
          }
      })"

definition u_sparse_bitset_test :: "u_sparse_bitset \<Rightarrow> u32 \<Rightarrow> bool option" where
  "u_sparse_bitset_test s b =
     (if u_sparse_bitset_is_small s then do { c_assert (b < sb_capacity s); BITSET_TEST (sb_vals s) (unat b) }
      else do {
        node \<leftarrow> u_sparse_bitset_get_node s (b AND U_SPARSE_BITSET_OFFSET_MASK);
        case node of
          None \<Rightarrow> Some False
        | Some node \<Rightarrow> BITSET_TEST node (unat (b AND U_SPARSE_BITSET_BIT_INDEX_MASK))
      })"

text \<open>\<open>memcmp\<close> on arrays of little-endian words.\<close>

definition word_bytes :: "u32 \<Rightarrow> nat list" where
  "word_bytes w = map (\<lambda>i. unat (drop_bit (8 * i) w AND 255)) [0..<4]"

fun memcmp :: "nat list \<Rightarrow> nat list \<Rightarrow> int" where
  "memcmp (a # x) (b # y) = (if a < b then - 1 else if b < a then 1 else memcmp x y)"
| "memcmp _ _ = 0"

fun cmp_nodes :: "(u32 \<times> bitset) list \<Rightarrow> (u32 \<times> bitset) list \<Rightarrow> int" where
  "cmp_nodes ((offset_a, vals_a) # a_iter) ((offset_b, vals_b) # b_iter) =
     (let node_cmp = u_sparse_bitset_node_comparator offset_a offset_b in
      if node_cmp \<noteq> 0 then node_cmp
      else let cmp_res = memcmp (concat (map word_bytes vals_a)) (concat (map word_bytes vals_b)) in
        if cmp_res \<noteq> 0 then cmp_res else cmp_nodes a_iter b_iter)"
| "cmp_nodes a_iter b_iter = of_bool (a_iter \<noteq> []) - of_bool (b_iter \<noteq> [])"

definition u_sparse_bitset_cmp :: "u_sparse_bitset \<Rightarrow> u_sparse_bitset \<Rightarrow> int option" where
  "u_sparse_bitset_cmp a b = do {
     c_assert (sb_capacity a = sb_capacity b);
     if u_sparse_bitset_is_small a then Some (memcmp (concat (map word_bytes (sb_vals a))) (concat (map word_bytes (sb_vals b))))
     else Some (cmp_nodes (sb_tree a) (sb_tree b))
   }"

fun dup_nodes :: "(u32 \<times> bitset) list \<Rightarrow> (u32 \<times> bitset) list \<Rightarrow> (u32 \<times> bitset) list" where
  "dup_nodes [] dst = dst"
| "dup_nodes ((offset, vals) # t) dst =
     (if bitset_is_empty vals then dup_nodes t dst else dup_nodes t (node_insert offset vals dst))"

text \<open>
  The copy on a row of sets, with the positions of the destination and of the source, which may
  be the same: the destination is initialised first, and the source is read after that.  Then the
  copy into a set that is not the source, as the compiler makes it.
\<close>

definition u_sparse_bitset_dup_with_ctx :: "nat \<Rightarrow> nat \<Rightarrow> u_sparse_bitset list \<Rightarrow> u_sparse_bitset list option" where
  "u_sparse_bitset_dup_with_ctx dst src ss = do {
     let ss = ss[dst := u_sparse_bitset_init (sb_capacity (ss ! src))];
     if u_sparse_bitset_is_small (ss ! src) then do {
       c_assert (u_sparse_bitset_is_small (ss ! dst));
       Some (ss[dst := (ss ! dst)\<lparr>sb_vals := sb_vals (ss ! src)\<rparr>])
     } else Some (ss[dst := (ss ! dst)\<lparr>sb_tree := dup_nodes (sb_tree (ss ! src)) (sb_tree (ss ! dst))\<rparr>])
   }"

definition u_sparse_bitset_dup :: "u_sparse_bitset \<Rightarrow> u_sparse_bitset option" where
  "u_sparse_bitset_dup src = do {
     let dst = u_sparse_bitset_init (sb_capacity src);
     if u_sparse_bitset_is_small src then do {
       c_assert (u_sparse_bitset_is_small dst);
       Some (dst\<lparr>sb_vals := sb_vals src\<rparr>)
     } else Some (dst\<lparr>sb_tree := dup_nodes (sb_tree src) (sb_tree dst)\<rparr>)
   }"

fun merge_nodes :: "(u32 \<times> bitset) list \<Rightarrow> bool \<Rightarrow> u_sparse_bitset \<Rightarrow> (bool \<times> u_sparse_bitset) option" where
  "merge_nodes [] changed dst = Some (changed, dst)"
| "merge_nodes ((offset, vals) # t) changed dst =
     (if \<not> bitset_is_empty vals then do {
        (dst_node, dst) \<leftarrow> u_sparse_bitset_get_or_add_node dst offset;
        (c, v) \<leftarrow> u_bitset_merge dst_node vals (BITSET_WORDS U_SPARSE_BITSET_BITS_PER_NODE);
        merge_nodes t (changed \<or> c) (dst\<lparr>sb_tree := node_write offset v (sb_tree dst)\<rparr>)
      } else merge_nodes t changed dst)"

definition u_sparse_bitset_merge :: "u_sparse_bitset \<Rightarrow> u_sparse_bitset \<Rightarrow> (bool \<times> u_sparse_bitset) option" where
  "u_sparse_bitset_merge dst src = do {
     c_assert (sb_capacity dst = sb_capacity src);
     if u_sparse_bitset_is_small src then do {
       (changed, v) \<leftarrow> u_bitset_merge (sb_vals dst) (sb_vals src) (BITSET_WORDS (unat (sb_capacity src)));
       Some (changed, dst\<lparr>sb_vals := v\<rparr>)
     } else merge_nodes (sb_tree src) False dst
   }"

fun count_nodes :: "(u32 \<times> bitset) list \<Rightarrow> u32 \<Rightarrow> u32 option" where
  "count_nodes [] n = Some n"
| "count_nodes ((offset, vals) # t) n = do { c \<leftarrow> bitset_count vals (length vals); count_nodes t (n + c) }"

definition u_sparse_bitset_count :: "u_sparse_bitset \<Rightarrow> u32 option" where
  "u_sparse_bitset_count s =
     (if u_sparse_bitset_is_small s then bitset_count (sb_vals s) (unat (sb_capacity s)) else count_nodes (sb_tree s) 0)"

text \<open>The position of the lowest bit that is set, counted from one; 0 for 0.\<close>

definition ffs :: "u32 \<Rightarrow> nat" where
  "ffs w = (case filter (bit w) [0..<32] of [] \<Rightarrow> 0 | i # _ \<Rightarrow> Suc i)"

fun next_word :: "bitset \<Rightarrow> nat \<Rightarrow> u32" where
  "next_word [] i = - 1"
| "next_word (w # ws) i = (if w \<noteq> 0 then of_nat (i * 32 + ffs w) - 1 else next_word ws (i + 1))"

definition u_sparse_bitset_next_set_dense :: "bitset \<Rightarrow> u32 \<Rightarrow> u32 \<Rightarrow> u32 option" where
  "u_sparse_bitset_next_set_dense words bits start =
     (if bits \<le> start then Some (- 1)
      else do {
        let i = unat start div 32;
        let offset = unat start mod 32;
        c_assert (i < length words \<and> BITSET_WORDS (unat bits) \<le> length words);
        if drop_bit offset (words ! i) \<noteq> 0 then Some (start + of_nat (ffs (drop_bit offset (words ! i))) - 1)
        else Some (next_word (drop (i + 1) (take (BITSET_WORDS (unat bits)) words)) (i + 1))
      })"

fun next_node :: "(u32 \<times> bitset) list \<Rightarrow> u32 \<Rightarrow> (u32 \<times> (u32 \<times> bitset) list) option option" where
  "next_node [] node_from = Some None"
| "next_node ((offset, vals) # rb) node_from =
     (if node_from \<noteq> 0 \<and> node_from - offset \<ge> of_nat U_SPARSE_BITSET_BITS_PER_NODE then next_node rb 0
      else do {
        i \<leftarrow> u_sparse_bitset_next_set_dense vals (of_nat U_SPARSE_BITSET_BITS_PER_NODE) (node_from AND U_SPARSE_BITSET_BIT_INDEX_MASK);
        if i < of_nat U_SPARSE_BITSET_BITS_PER_NODE then Some (Some (offset + i, (offset, vals) # rb)) else next_node rb 0
      })"

definition u_sparse_bitset_next_set ::
  "u_sparse_bitset \<Rightarrow> (u32 \<times> bitset) list \<Rightarrow> u32 \<Rightarrow> (u32 \<times> (u32 \<times> bitset) list) option" where
  "u_sparse_bitset_next_set s node start = do {
     (ret, node) \<leftarrow>
       (if u_sparse_bitset_is_small s then do {
          i \<leftarrow> u_sparse_bitset_next_set_dense (sb_vals s) (sb_capacity s) start;
          Some (if i < sb_capacity s then i else - 1, node)
        } else do {
          r \<leftarrow> next_node node start;
          Some (case r of None \<Rightarrow> (- 1, node) | Some (ret, node) \<Rightarrow> (ret, node))
        });
     c_assert (start \<le> ret);
     Some (ret, node)
   }"

definition u_sparse_bitset_first_set :: "u_sparse_bitset \<Rightarrow> (u32 \<times> (u32 \<times> bitset) list) option" where
  "u_sparse_bitset_first_set s = u_sparse_bitset_next_set s (if u_sparse_bitset_is_small s then [] else sb_tree s) 0"

text \<open>The loop \<open>U_SPARSE_BITSET_FOREACH_SET\<close>: the numbers it visits.\<close>

partial_function (option) foreach_set_from :: "u_sparse_bitset \<Rightarrow> u32 \<Rightarrow> (u32 \<times> bitset) list \<Rightarrow> u32 list option" where
  "foreach_set_from s it node =
     (if it = - 1 then Some []
      else do {
        (next, node) \<leftarrow> u_sparse_bitset_next_set s node (it + 1);
        rest \<leftarrow> foreach_set_from s next node;
        Some (it # rest)
      })"

definition U_SPARSE_BITSET_FOREACH_SET :: "u_sparse_bitset \<Rightarrow> u32 list option" where
  "U_SPARSE_BITSET_FOREACH_SET s = do { (it, node) \<leftarrow> u_sparse_bitset_first_set s; foreach_set_from s it node }"

section \<open>Bit arrays as sets\<close>

definition bits_of :: "bitset \<Rightarrow> nat set" where
  "bits_of x = {b. b div 32 < length x \<and> bit (x ! (b div 32)) (b mod 32)}"

lemma same_bit: "(b :: nat) div 32 = c div 32 \<Longrightarrow> b mod 32 = c mod 32 \<Longrightarrow> b = c"
  by (metis div_mult_mod_eq)

lemma bit_BITSET_BIT: "k < 32 \<Longrightarrow> bit (BITSET_BIT b) k \<longleftrightarrow> k = b mod 32"
  by (auto simp: BITSET_BIT_def bit_exp_iff)

lemma BITSET_TEST_ok: "b div 32 < length x \<Longrightarrow> BITSET_TEST x b = Some (b \<in> bits_of x)"
  by (simp add: BITSET_TEST_def bits_of_def BITSET_BIT_def bit_iff_and_push_bit_not_eq_0)

lemma BITSET_SET_ok:
  assumes "b div 32 < length x"
  shows "\<exists>y. BITSET_SET x b = Some y \<and> length y = length x \<and> bits_of y = insert b (bits_of x)"
proof -
  have "c \<in> bits_of (x[b div 32 := x ! (b div 32) OR BITSET_BIT b]) \<longleftrightarrow> c = b \<or> c \<in> bits_of x" for c
    using assms same_bit [of c b] by (auto simp: bits_of_def nth_list_update bit_or_iff bit_BITSET_BIT)
  then show ?thesis using assms by (auto simp: BITSET_SET_def)
qed

lemma BITSET_CLEAR_ok:
  assumes "b div 32 < length x"
  shows "\<exists>y. BITSET_CLEAR x b = Some y \<and> length y = length x \<and> bits_of y = bits_of x - {b}"
proof -
  have "c \<in> bits_of (x[b div 32 := x ! (b div 32) AND NOT (BITSET_BIT b)]) \<longleftrightarrow> c \<noteq> b \<and> c \<in> bits_of x" for c
    using assms same_bit [of c b] by (auto simp: bits_of_def nth_list_update bit_and_iff bit_not_iff bit_BITSET_BIT)
  then show ?thesis using assms by (auto simp: BITSET_CLEAR_def)
qed

lemma word_bits_eq: "(w :: u32) = v \<longleftrightarrow> (\<forall>k < 32. bit w k = bit v k)"
  by (auto simp: bit_eq_iff)

lemma bits_of_Nil [simp]: "bits_of [] = {}"
  by (simp add: bits_of_def)

lemma bits_of_Cons: "bits_of (w # x) = {k. k < 32 \<and> bit w k} \<union> (\<lambda>b. b + 32) ` bits_of x"
proof (rule set_eqI)
  fix c
  show "c \<in> bits_of (w # x) \<longleftrightarrow> c \<in> {k. k < 32 \<and> bit w k} \<union> (\<lambda>b. b + 32) ` bits_of x"
  proof (cases "c < 32")
    case True
    then show ?thesis by (auto simp: bits_of_def)
  next
    case False
    then obtain d where d: "c = d + 32" using le_Suc_ex [of 32 c] by (auto simp: add.commute)
    moreover have "(d + 32) div 32 = Suc (d div 32)" by (simp add: div_add_self2)
    ultimately show ?thesis by (auto simp: bits_of_def)
  qed
qed

lemma bits_of_replicate [simp]: "bits_of (replicate n 0) = {}"
  by (auto simp: bits_of_def)

lemma bits_of_bound: "b \<in> bits_of x \<Longrightarrow> b < 32 * length x"
  by (auto simp: bits_of_def)

lemma bitset_is_empty_iff: "bitset_is_empty x \<longleftrightarrow> bits_of x = {}"
  by (induction x) (auto simp: bits_of_Cons word_bits_eq)

lemma u_bitset_merge_ok:
  "length dst = n \<Longrightarrow> length src = n \<Longrightarrow>
   \<exists>y. u_bitset_merge dst src n = Some (\<not> bits_of src \<subseteq> bits_of dst, y) \<and> length y = n \<and> bits_of y = bits_of dst \<union> bits_of src"
proof (induction dst src n rule: u_bitset_merge.induct)
  case (2 d dst s src n)
  obtain y where y: "u_bitset_merge dst src n = Some (\<not> bits_of src \<subseteq> bits_of dst, y)" "length y = n" "bits_of y = bits_of dst \<union> bits_of src"
    using 2 by auto
  have "s AND NOT d = 0 \<longleftrightarrow> {k. k < 32 \<and> bit s k} \<subseteq> {k. k < 32 \<and> bit d k}"
    by (auto simp: word_bits_eq bit_and_iff bit_not_iff)
  moreover have "bits_of (s # src) \<subseteq> bits_of (d # dst) \<longleftrightarrow> {k. k < 32 \<and> bit s k} \<subseteq> {k. k < 32 \<and> bit d k} \<and> bits_of src \<subseteq> bits_of dst"
    by (auto simp: bits_of_Cons)
  moreover have "bits_of ((d OR s) # y) = bits_of (d # dst) \<union> bits_of (s # src)"
    by (auto simp: bits_of_Cons y(3) bit_or_iff)
  ultimately show ?case using y by auto
qed auto

lemma bits_of_inject: "length x = length y \<Longrightarrow> bits_of x = bits_of y \<Longrightarrow> x = y"
proof (induction x y rule: list_induct2)
  case (Cons w x v y)
  have same: "k \<in> bits_of (w # x) \<longleftrightarrow> k \<in> bits_of (v # y)" for k using Cons.prems by simp
  have "bit w k = bit v k" if "k < 32" for k using same [of k] that by (auto simp: bits_of_Cons)
  moreover have "b \<in> bits_of x \<longleftrightarrow> b \<in> bits_of y" for b using same [of "b + 32"] by (auto simp: bits_of_Cons)
  then have "bits_of x = bits_of y" by blast
  ultimately show ?case using Cons.IH by (simp add: word_bits_eq)
qed simp

section \<open>Nodes and numbers\<close>

abbreviation "offset_of b \<equiv> b AND U_SPARSE_BITSET_OFFSET_MASK"
abbreviation "index_of b \<equiv> b AND U_SPARSE_BITSET_BIT_INDEX_MASK"

lemma index_mask: "U_SPARSE_BITSET_BIT_INDEX_MASK = mask 10"
  by (simp add: U_SPARSE_BITSET_BIT_INDEX_MASK_def U_SPARSE_BITSET_BITS_PER_NODE_def mask_eq_exp_minus_1)

lemma index_of_take: "index_of b = take_bit 10 b"
  by (simp add: index_mask take_bit_eq_mask)

lemma unat_index_of: "unat (index_of b) = unat b mod 1024"
  by (simp add: index_of_take take_bit_eq_mod unat_mod)

lemma index_of_bound: "unat (index_of b) div 32 < 32"
  by (simp add: unat_index_of less_mult_imp_div_less)

lemma offset_plus_index: "offset_of b + index_of b = b"
proof -
  have "offset_of b AND index_of b = 0" and "offset_of b OR index_of b = b"
    by (auto simp: U_SPARSE_BITSET_OFFSET_MASK_def bit_eq_iff bit_and_iff bit_or_iff bit_not_iff)
  then show ?thesis by (simp add: disjunctive_add_eq_or)
qed

lemma offset_index_inject: "offset_of b = offset_of c \<Longrightarrow> unat (index_of b) = unat (index_of c) \<Longrightarrow> b = c"
  using offset_plus_index [of b] offset_plus_index [of c] unsigned_word_eqI [of "index_of b" "index_of c"] by metis

lemma offset_of_aligned: "index_of (offset_of b) = 0"
  by (simp add: U_SPARSE_BITSET_OFFSET_MASK_def and.assoc)

lemma comparator_zero: "u_sparse_bitset_node_comparator a b = 0 \<longleftrightarrow> a = b"
  by (auto simp: u_sparse_bitset_node_comparator_def)

lemma comparator_neg: "u_sparse_bitset_node_comparator a b < 0 \<longleftrightarrow> b < a"
  by (auto simp: u_sparse_bitset_node_comparator_def)

lemma number_of_parts:
  assumes "index_of a = 0" and "k < 1024"
  shows "offset_of (a + of_nat k) = a" and "unat (index_of (a + of_nat k)) = k" and "unat (a + of_nat k) = unat a + k"
proof -
  have m: "unat a mod 1024 = 0" using unat_index_of [of a] assms(1) by simp
  then obtain q where q: "unat a = 1024 * q" by (auto simp: mod_eq_0_iff_dvd)
  have "1024 * q < 4294967296" using unat_lt_32 [of a] q by simp
  then have "q < 4194304" by simp
  then have "1024 * q + k < 4294967296" using assms(2) by linarith
  then show u: "unat (a + of_nat k) = unat a + k" using q assms(2) by (simp add: unat_word_ariths unat_of_nat)
  then show i: "unat (index_of (a + of_nat k)) = k" using q assms(2) by (simp add: unat_index_of)
  then have "index_of (a + of_nat k) = of_nat k" using assms(2) by (simp only: word_unat_eq_iff) (simp add: unat_of_nat)
  then show "offset_of (a + of_nat k) = a" using offset_plus_index [of "a + of_nat k"] by simp
qed

section \<open>The tree of nodes\<close>

definition node_ok :: "u32 \<times> bitset \<Rightarrow> bool" where
  "node_ok n \<longleftrightarrow> length (snd n) = 32 \<and> index_of (fst n) = 0"

definition tree_ok :: "(u32 \<times> bitset) list \<Rightarrow> bool" where
  "tree_ok t \<longleftrightarrow> sorted_wrt (<) (map fst t) \<and> list_all node_ok t"

definition node_bits :: "(u32 \<times> bitset) list \<Rightarrow> u32 \<Rightarrow> nat set" where
  "node_bits t a = (case map_of t a of None \<Rightarrow> {} | Some v \<Rightarrow> bits_of v)"

definition tree_bits :: "(u32 \<times> bitset) list \<Rightarrow> u32 set" where
  "tree_bits t = {b. unat (index_of b) \<in> node_bits t (offset_of b)}"

definition sb_inv :: "u_sparse_bitset \<Rightarrow> bool" where
  "sb_inv s \<longleftrightarrow> sb_capacity s = 0 \<and> tree_ok (sb_tree s)"

definition sb_members :: "u_sparse_bitset \<Rightarrow> u32 set" where
  "sb_members s = tree_bits (sb_tree s)"

lemma node_search_map_of: "node_search a t = map_of t a"
  by (induction t) (auto simp: comparator_zero)

lemma tree_ok_Cons: "tree_ok ((a, v) # t) \<longleftrightarrow> (\<forall>c \<in> fst ` set t. a < c) \<and> length v = 32 \<and> index_of a = 0 \<and> tree_ok t"
  by (auto simp: tree_ok_def node_ok_def)

lemma tree_ok_node: "tree_ok t \<Longrightarrow> map_of t a = Some v \<Longrightarrow> length v = 32 \<and> index_of a = 0"
  by (auto simp: tree_ok_def list_all_iff node_ok_def dest!: map_of_SomeD)

lemma keys_node_write [simp]: "map fst (node_write a v t) = map fst t"
  by (induction t) auto

lemma map_of_node_write: "a \<in> fst ` set t \<Longrightarrow> map_of (node_write a v t) = (map_of t)(a \<mapsto> v)"
proof (induction t)
  case (Cons n t)
  obtain c w where n: "n = (c, w)" by fastforce
  then have "a = c \<or> a \<in> fst ` set t" using Cons.prems by auto
  then show ?case using Cons.IH by (cases "a = c") (auto simp: n fun_eq_iff)
qed simp

lemma node_write_ok:
  assumes "tree_ok t" and "length v = 32" and "index_of a = 0"
  shows "tree_ok (node_write a v t)"
proof -
  have "list_all node_ok (node_write a v t)" using assms unfolding tree_ok_def by (induction t) (auto simp: node_ok_def)
  then show ?thesis using assms(1) by (simp add: tree_ok_def)
qed

lemma node_bits_write: "map_of t a = Some w \<Longrightarrow> node_bits (node_write a v t) = (node_bits t)(a := bits_of v)"
proof -
  assume "map_of t a = Some w"
  then have "a \<in> fst ` set t" by (force dest: map_of_SomeD)
  then show ?thesis by (auto simp: node_bits_def map_of_node_write fun_eq_iff)
qed

lemma set_node_insert [simp]: "set (node_insert a v t) = insert (a, v) (set t)"
  by (induction a v t rule: node_insert.induct) auto

lemma map_of_node_insert: "a \<notin> fst ` set t \<Longrightarrow> map_of (node_insert a v t) = (map_of t)(a \<mapsto> v)"
  by (induction a v t rule: node_insert.induct) (auto simp: fun_eq_iff)

lemma node_insert_ok:
  "tree_ok t \<Longrightarrow> a \<notin> fst ` set t \<Longrightarrow> length v = 32 \<Longrightarrow> index_of a = 0 \<Longrightarrow> tree_ok (node_insert a v t)"
proof (induction t)
  case (Cons n t)
  obtain c w where n: "n = (c, w)" by fastforce
  show ?case
  proof (cases "a < c")
    case True
    then show ?thesis using Cons.prems by (auto simp: n tree_ok_Cons comparator_neg)
  next
    case False
    then have "c < a" using Cons.prems by (auto simp: n)
    then show ?thesis using Cons False by (auto simp: n tree_ok_Cons comparator_neg)
  qed
qed (simp add: tree_ok_def node_ok_def)

lemma node_bits_insert: "a \<notin> fst ` set t \<Longrightarrow> node_bits (node_insert a v t) = (node_bits t)(a := bits_of v)"
  by (auto simp: node_bits_def map_of_node_insert fun_eq_iff)

lemma node_bits_outside: "a \<notin> fst ` set t \<Longrightarrow> node_bits t a = {}"
  by (simp add: node_bits_def map_of_eq_None_iff [THEN iffD2])

lemma node_bits_range:
  assumes "tree_ok t" and "k \<in> node_bits t a"
  shows "index_of a = 0" and "k < 1024"
proof -
  obtain v where v: "map_of t a = Some v" "k \<in> bits_of v" using assms(2) by (auto simp: node_bits_def split: option.splits)
  then show "index_of a = 0" "k < 1024" using tree_ok_node [OF assms(1) v(1)] bits_of_bound [OF v(2)] by auto
qed

lemma tree_bits_subset:
  assumes "tree_ok t"
  shows "tree_bits t \<subseteq> tree_bits d \<longleftrightarrow> (\<forall>a. node_bits t a \<subseteq> node_bits d a)"
proof
  assume sub: "tree_bits t \<subseteq> tree_bits d"
  show "\<forall>a. node_bits t a \<subseteq> node_bits d a"
  proof (intro allI subsetI)
    fix a k
    assume k: "k \<in> node_bits t a"
    note parts = number_of_parts [OF node_bits_range [OF assms k]]
    have "a + of_nat k \<in> tree_bits t" using k parts by (simp add: tree_bits_def)
    then have "a + of_nat k \<in> tree_bits d" using sub by blast
    then show "k \<in> node_bits d a" using parts by (simp add: tree_bits_def)
  qed
qed (auto simp: tree_bits_def)

section \<open>The operations keep the promises\<close>

lemma sb_invD: "sb_inv s \<Longrightarrow> \<not> u_sparse_bitset_is_small s" "sb_inv s \<Longrightarrow> tree_ok (sb_tree s)"
  by (auto simp: sb_inv_def u_sparse_bitset_is_small_def)

lemma get_or_add_node_ok:
  assumes "sb_inv s" and "index_of a = 0"
  shows "\<exists>v s'. u_sparse_bitset_get_or_add_node s a = Some (v, s') \<and> sb_inv s' \<and> map_of (sb_tree s') a = Some v \<and>
    length v = 32 \<and> bits_of v = node_bits (sb_tree s) a \<and> node_bits (sb_tree s') = node_bits (sb_tree s)"
proof (cases "map_of (sb_tree s) a")
  case None
  then have out: "a \<notin> fst ` set (sb_tree s)" by (simp add: map_of_eq_None_iff)
  have w: "BITSET_WORDS U_SPARSE_BITSET_BITS_PER_NODE = 32" by (simp add: BITSET_WORDS_def U_SPARSE_BITSET_BITS_PER_NODE_def)
  show ?thesis using assms sb_invD [OF assms(1)] None out node_bits_outside [OF out]
    by (auto simp: u_sparse_bitset_get_or_add_node_def u_sparse_bitset_get_node_def node_search_map_of w sb_inv_def Let_def
      node_insert_ok map_of_node_insert node_bits_insert fun_eq_iff)
next
  case (Some v)
  then show ?thesis using assms sb_invD [OF assms(1)] tree_ok_node [OF sb_invD(2) [OF assms(1)] Some]
    by (auto simp: u_sparse_bitset_get_or_add_node_def u_sparse_bitset_get_node_def node_search_map_of node_bits_def)
qed

lemma write_node_ok:
  assumes "sb_inv s" and "map_of (sb_tree s) a = Some w" and "length v = 32"
  shows "sb_inv (s\<lparr>sb_tree := node_write a v (sb_tree s)\<rparr>)"
    and "node_bits (node_write a v (sb_tree s)) = (node_bits (sb_tree s))(a := bits_of v)"
  using assms tree_ok_node [OF sb_invD(2) [OF assms(1)] assms(2)] by (simp_all add: sb_inv_def node_write_ok node_bits_write)

lemma number_eq_iff: "b = c \<longleftrightarrow> offset_of b = offset_of c \<and> unat (index_of b) = unat (index_of c)"
  using offset_index_inject by blast

lemma sb_set:
  assumes "sb_inv s"
  shows "\<exists>s'. u_sparse_bitset_set s b = Some s' \<and> sb_inv s' \<and> sb_members s' = insert b (sb_members s)"
proof -
  obtain v s1 where s1: "u_sparse_bitset_get_or_add_node s (offset_of b) = Some (v, s1)" "sb_inv s1" "map_of (sb_tree s1) (offset_of b) = Some v"
    "length v = 32" "bits_of v = node_bits (sb_tree s) (offset_of b)" "node_bits (sb_tree s1) = node_bits (sb_tree s)"
    using get_or_add_node_ok [OF assms offset_of_aligned] by blast
  obtain y where y: "BITSET_SET v (unat (index_of b)) = Some y" "length y = 32" "bits_of y = insert (unat (index_of b)) (bits_of v)"
    using BITSET_SET_ok [of "unat (index_of b)" v] index_of_bound [of b] s1(4) by auto
  note w = write_node_ok [OF s1(2,3) y(2)]
  have "c \<in> tree_bits (node_write (offset_of b) y (sb_tree s1)) \<longleftrightarrow> c \<in> insert b (tree_bits (sb_tree s))" for c
    unfolding tree_bits_def insert_iff number_eq_iff [of c b] by (auto simp: w(2) y(3) s1(5,6))
  then show ?thesis using s1(1) y(1) w(1) sb_invD(1) [OF assms] by (auto simp: u_sparse_bitset_set_def sb_members_def)
qed

lemma sb_clear:
  assumes "sb_inv s"
  shows "\<exists>s'. u_sparse_bitset_clear s b = Some s' \<and> sb_inv s' \<and> sb_members s' = sb_members s - {b}"
proof (cases "map_of (sb_tree s) (offset_of b)")
  case None
  then have "b \<notin> sb_members s" by (simp add: sb_members_def tree_bits_def node_bits_def)
  then show ?thesis using None assms sb_invD(1) [OF assms]
    by (simp add: u_sparse_bitset_clear_def u_sparse_bitset_get_node_def node_search_map_of)
next
  case (Some v)
  have len: "length v = 32" using tree_ok_node [OF sb_invD(2) [OF assms] Some] by simp
  obtain y where y: "BITSET_CLEAR v (unat (index_of b)) = Some y" "length y = 32" "bits_of y = bits_of v - {unat (index_of b)}"
    using BITSET_CLEAR_ok [of "unat (index_of b)" v] index_of_bound [of b] len by auto
  note w = write_node_ok [OF assms Some y(2)]
  have v: "bits_of v = node_bits (sb_tree s) (offset_of b)" by (simp add: node_bits_def Some)
  have "c \<in> tree_bits (node_write (offset_of b) y (sb_tree s)) \<longleftrightarrow> c \<in> tree_bits (sb_tree s) - {b}" for c
    unfolding tree_bits_def Diff_iff singleton_iff number_eq_iff [of c b] by (auto simp: w(2) y(3) v)
  then show ?thesis using Some y(1) w(1) sb_invD(1) [OF assms]
    by (auto simp: u_sparse_bitset_clear_def u_sparse_bitset_get_node_def node_search_map_of sb_members_def)
qed

lemma sb_test:
  assumes "sb_inv s"
  shows "u_sparse_bitset_test s b = Some (b \<in> sb_members s)"
proof (cases "map_of (sb_tree s) (offset_of b)")
  case (Some v)
  have "length v = 32" using tree_ok_node [OF sb_invD(2) [OF assms] Some] by simp
  then show ?thesis using Some sb_invD(1) [OF assms] BITSET_TEST_ok [of "unat (index_of b)" v] index_of_bound [of b]
    by (simp add: u_sparse_bitset_test_def u_sparse_bitset_get_node_def node_search_map_of sb_members_def tree_bits_def node_bits_def)
qed (use sb_invD(1) [OF assms] in \<open>simp add: u_sparse_bitset_test_def u_sparse_bitset_get_node_def node_search_map_of sb_members_def tree_bits_def node_bits_def\<close>)

lemma node_bits_Cons: "a \<notin> fst ` set t \<Longrightarrow> node_bits ((a, v) # t) = (node_bits t)(a := bits_of v)"
  by (auto simp: node_bits_def fun_eq_iff)

lemma dup_nodes_ok:
  "tree_ok t \<Longrightarrow> tree_ok dst \<Longrightarrow> fst ` set t \<inter> fst ` set dst = {} \<Longrightarrow>
   tree_ok (dup_nodes t dst) \<and> (\<forall>a. node_bits (dup_nodes t dst) a = node_bits dst a \<union> node_bits t a)"
proof (induction t dst rule: dup_nodes.induct)
  case (2 a v t dst)
  have out: "a \<notin> fst ` set t" "a \<notin> fst ` set dst" using 2(3,5) by (auto simp: tree_ok_Cons)
  show ?case
  proof (cases "bitset_is_empty v")
    case True
    then show ?thesis using 2 out node_bits_outside by (auto simp: tree_ok_Cons node_bits_Cons bitset_is_empty_iff)
  next
    case False
    then have "tree_ok (dup_nodes t (node_insert a v dst)) \<and> (\<forall>c. node_bits (dup_nodes t (node_insert a v dst)) c = node_bits (node_insert a v dst) c \<union> node_bits t c)"
      using 2 out by (intro 2(2)) (auto simp: tree_ok_Cons node_insert_ok)
    then show ?thesis using False out node_bits_outside [OF out(1)] node_bits_outside [OF out(2)] by (simp add: node_bits_Cons node_bits_insert)
  qed
qed (simp add: node_bits_def)

lemma sb_init: "sb_inv (u_sparse_bitset_init c)" "sb_members (u_sparse_bitset_init c) = {}"
  by (auto simp: u_sparse_bitset_init_def U_SPARSE_BITSET_SMALL_SET_THRESHOLD_def sb_inv_def tree_ok_def sb_members_def tree_bits_def node_bits_def)

lemma sb_dup:
  assumes "sb_inv s"
  shows "\<exists>s'. u_sparse_bitset_dup s = Some s' \<and> sb_inv s' \<and> sb_members s' = sb_members s"
proof -
  have t: "sb_tree (u_sparse_bitset_init 0) = []" "sb_capacity (u_sparse_bitset_init 0) = 0" by (simp_all add: u_sparse_bitset_init_def)
  show ?thesis using dup_nodes_ok [OF sb_invD(2) [OF assms], of "[]"] assms sb_invD(1) [OF assms]
    by (simp add: u_sparse_bitset_dup_def Let_def t sb_inv_def tree_ok_def sb_members_def tree_bits_def node_bits_def [of "[]"])
qed

text \<open>A set copied onto itself is empty afterwards.\<close>

lemma dup_with_ctx_ok:
  assumes "i < length ss" and "j < length ss" and "sb_inv (ss ! j)"
  shows "\<exists>s'. u_sparse_bitset_dup_with_ctx i j ss = Some (ss[i := s']) \<and> sb_inv s' \<and> sb_members s' = (if i = j then {} else sb_members (ss ! j))"
proof (cases "i = j")
  case True
  let ?z = "u_sparse_bitset_init (sb_capacity (ss ! j))"
  have "u_sparse_bitset_dup_with_ctx i j ss = Some (ss[i := ?z])"
    using True assms(1) by (simp add: u_sparse_bitset_dup_with_ctx_def Let_def u_sparse_bitset_init_def
      U_SPARSE_BITSET_SMALL_SET_THRESHOLD_def u_sparse_bitset_is_small_def)
  then show ?thesis using sb_init [of "sb_capacity (ss ! j)"] True by auto
next
  case False
  then have "u_sparse_bitset_dup_with_ctx i j ss = map_option (\<lambda>s. ss[i := s]) (u_sparse_bitset_dup (ss ! j))"
    using assms(1) by (auto simp: u_sparse_bitset_dup_with_ctx_def u_sparse_bitset_dup_def Let_def c_assert_def)
  then show ?thesis using sb_dup [OF assms(3)] False by auto
qed

lemma merge_nodes_ok:
  "tree_ok t \<Longrightarrow> sb_inv dst \<Longrightarrow>
   \<exists>d. merge_nodes t changed dst = Some (changed \<or> (\<exists>a. \<not> node_bits t a \<subseteq> node_bits (sb_tree dst) a), d) \<and> sb_inv d \<and>
     (\<forall>a. node_bits (sb_tree d) a = node_bits (sb_tree dst) a \<union> node_bits t a)"
proof (induction t changed dst rule: merge_nodes.induct)
  case (2 a v t changed dst)
  have out: "a \<notin> fst ` set t" and t: "tree_ok t" and v: "length v = 32" "index_of a = 0" using 2(3) by (auto simp: tree_ok_Cons)
  note outb = node_bits_outside [OF out]
  show ?case
  proof (cases "bitset_is_empty v")
    case True
    then have "node_bits ((a, v) # t) = node_bits t" using out outb by (auto simp: node_bits_Cons bitset_is_empty_iff fun_eq_iff)
    then show ?thesis using 2(2) [OF _ t 2(4)] True by simp
  next
    case False
    obtain w d1 where d1: "u_sparse_bitset_get_or_add_node dst a = Some (w, d1)" "sb_inv d1" "map_of (sb_tree d1) a = Some w"
      "length w = 32" "bits_of w = node_bits (sb_tree dst) a" "node_bits (sb_tree d1) = node_bits (sb_tree dst)"
      using get_or_add_node_ok [OF 2(4) v(2)] by blast
    have ww: "BITSET_WORDS U_SPARSE_BITSET_BITS_PER_NODE = 32" by (simp add: BITSET_WORDS_def U_SPARSE_BITSET_BITS_PER_NODE_def)
    obtain y where y: "u_bitset_merge w v 32 = Some (\<not> bits_of v \<subseteq> bits_of w, y)" "length y = 32" "bits_of y = bits_of w \<union> bits_of v"
      using u_bitset_merge_ok [OF d1(4) v(1)] by blast
    note wr = write_node_ok [OF d1(2,3) y(2)]
    define c where "c = (\<not> bits_of v \<subseteq> bits_of w)"
    define d2 where "d2 = d1\<lparr>sb_tree := node_write a y (sb_tree d1)\<rparr>"
    have nb: "node_bits (sb_tree d2) = (node_bits (sb_tree dst))(a := bits_of w \<union> bits_of v)" by (simp add: d2_def wr(2) y(3) d1(6))
    obtain d where d: "merge_nodes t (changed \<or> c) d2 = Some ((changed \<or> c) \<or> (\<exists>a. \<not> node_bits t a \<subseteq> node_bits (sb_tree d2) a), d)" "sb_inv d"
        "\<forall>a. node_bits (sb_tree d) a = node_bits (sb_tree d2) a \<union> node_bits t a"
      using 2(1) [OF False d1(1) refl y(1) [folded ww] refl t, folded c_def d2_def] wr(1) by (auto simp: d2_def)
    have "(c \<or> (\<exists>e. \<not> node_bits t e \<subseteq> node_bits (sb_tree d2) e)) = (\<exists>e. \<not> node_bits ((a, v) # t) e \<subseteq> node_bits (sb_tree dst) e)"
      using outb by (auto simp: c_def nb node_bits_Cons [OF out] d1(5))
    moreover have "merge_nodes ((a, v) # t) changed dst = Some ((changed \<or> c) \<or> (\<exists>a. \<not> node_bits t a \<subseteq> node_bits (sb_tree d2) a), d)"
      using False d1(1) y(1) d(1) by (simp add: ww c_def d2_def)
    moreover have "node_bits (sb_tree d) e = node_bits (sb_tree dst) e \<union> node_bits ((a, v) # t) e" for e
      using d(3) outb by (simp add: nb node_bits_Cons [OF out] d1(5))
    ultimately show ?thesis using d(2) by (simp add: disj_assoc)
  qed
qed (simp add: node_bits_def)

lemma sb_merge:
  assumes "sb_inv d" and "sb_inv s"
  shows "\<exists>d'. u_sparse_bitset_merge d s = Some (\<not> sb_members s \<subseteq> sb_members d, d') \<and> sb_inv d' \<and> sb_members d' = sb_members d \<union> sb_members s"
proof -
  have caps: "sb_capacity d = sb_capacity s" using assms by (simp add: sb_inv_def)
  obtain d' where d': "merge_nodes (sb_tree s) False d = Some (\<exists>a. \<not> node_bits (sb_tree s) a \<subseteq> node_bits (sb_tree d) a, d')" "sb_inv d'"
    "\<forall>a. node_bits (sb_tree d') a = node_bits (sb_tree d) a \<union> node_bits (sb_tree s) a"
    using merge_nodes_ok [OF sb_invD(2) [OF assms(2)] assms(1), of False] by auto
  have "sb_members s \<subseteq> sb_members d \<longleftrightarrow> \<not> (\<exists>a. \<not> node_bits (sb_tree s) a \<subseteq> node_bits (sb_tree d) a)"
    using tree_bits_subset [OF sb_invD(2) [OF assms(2)], of "sb_tree d"] by (simp add: sb_members_def)
  moreover have "sb_members d' = sb_members d \<union> sb_members s" using d'(3) by (auto simp: sb_members_def tree_bits_def)
  ultimately show ?thesis using d' caps sb_invD(1) [OF assms(2)] by (simp add: u_sparse_bitset_merge_def)
qed

interpretation sb: bit_sets sb_inv sb_members u_sparse_bitset_init u_sparse_bitset_set u_sparse_bitset_clear
  u_sparse_bitset_test u_sparse_bitset_dup u_sparse_bitset_merge
  by unfold_locales (simp_all add: sb_init sb_set sb_clear sb_test sb_dup sb_merge)

section \<open>Comparison and size\<close>

lemma memcmp_zero: "length x = length y \<Longrightarrow> memcmp x y = 0 \<longleftrightarrow> x = y"
  by (induction x y rule: list_induct2) auto

lemma word_bytes_length [simp]: "length (word_bytes w) = 4"
  by (simp add: word_bytes_def)

lemma word_bytes_inject:
  assumes "word_bytes w = word_bytes v"
  shows "w = v"
proof -
  have "drop_bit (8 * i) w AND 255 = drop_bit (8 * i) v AND 255" if "i < 4" for i
  proof -
    have "word_bytes w ! i = word_bytes v ! i" using assms by simp
    then show ?thesis using that by (simp add: word_bytes_def word_unat_eq_iff)
  qed
  then have b: "bit (drop_bit (8 * i) w AND mask 8) j = bit (drop_bit (8 * i) v AND mask 8) j" if "i < 4" for i j
    using that by (simp add: mask_eq_exp_minus_1)
  have "bit w k = bit v k" if "k < 32" for k
    using b [of "k div 8" "k mod 8"] that less_trans [of "k mod 8" 8 32] by (simp add: bit_and_iff bit_mask_iff bit_drop_bit_eq less_mult_imp_div_less)
  then show ?thesis by (simp add: word_bits_eq)
qed

lemma concat_word_bytes_inject: "length x = length y \<Longrightarrow> concat (map word_bytes x) = concat (map word_bytes y) \<longleftrightarrow> x = y"
  by (induction x y rule: list_induct2) (auto dest: word_bytes_inject)

lemma concat_word_bytes_length: "length (concat (map word_bytes x)) = 4 * length x"
  by (induction x) auto

lemma cmp_nodes_zero: "list_all node_ok s \<Longrightarrow> list_all node_ok t \<Longrightarrow> cmp_nodes s t = 0 \<longleftrightarrow> s = t"
proof (induction s t rule: cmp_nodes.induct)
  case (1 a v s b w t)
  have len: "length v = length w" using 1(2,3) by (simp add: node_ok_def)
  have "memcmp (concat (map word_bytes v)) (concat (map word_bytes w)) = 0 \<longleftrightarrow> v = w"
    using memcmp_zero concat_word_bytes_inject [OF len] by (simp add: concat_word_bytes_length len)
  then show ?case using 1 comparator_zero [of a b] by (auto simp: Let_def)
qed auto

lemma tree_eq_iff:
  assumes "tree_ok s" and "tree_ok t"
  shows "s = t \<longleftrightarrow> map fst s = map fst t \<and> tree_bits s = tree_bits t"
proof
  assume eq: "map fst s = map fst t \<and> tree_bits s = tree_bits t"
  then have nb: "node_bits s a = node_bits t a" for a
    using tree_bits_subset [OF assms(1), of t] tree_bits_subset [OF assms(2), of s] by (simp add: subset_antisym)
  have keys: "distinct (map fst s)" "distinct (map fst t)" using assms by (auto simp: tree_ok_def strict_sorted_iff)
  have "snd (s ! i) = snd (t ! i)" if i: "i < length s" for i
  proof -
    have it: "i < length t" and f: "fst (s ! i) = fst (t ! i)" using i eq by (metis length_map, metis length_map nth_map)
    have s: "map_of s (fst (s ! i)) = Some (snd (s ! i))" using keys(1) i by (simp add: map_of_eq_Some_iff)
    have t: "map_of t (fst (s ! i)) = Some (snd (t ! i))" using keys(2) it f by (simp add: map_of_eq_Some_iff)
    have "bits_of (snd (s ! i)) = bits_of (snd (t ! i))" using nb [of "fst (s ! i)"] s t by (simp add: node_bits_def)
    then show ?thesis using tree_ok_node [OF assms(1) s] tree_ok_node [OF assms(2) t] by (auto intro: bits_of_inject)
  qed
  then have "map snd s = map snd t" using eq by (auto intro!: nth_equalityI dest: map_eq_imp_length_eq)
  then show "s = t" using eq by (metis zip_map_fst_snd)
qed simp

lemma u_sparse_bitset_cmp_zero:
  assumes "sb_inv a" and "sb_inv b"
  shows "\<exists>r. u_sparse_bitset_cmp a b = Some r \<and> (r = 0 \<longleftrightarrow> sb_members a = sb_members b \<and> map fst (sb_tree a) = map fst (sb_tree b))"
proof -
  have "cmp_nodes (sb_tree a) (sb_tree b) = 0 \<longleftrightarrow> sb_tree a = sb_tree b"
    using assms by (intro cmp_nodes_zero) (auto simp: sb_inv_def tree_ok_def)
  then show ?thesis using assms sb_invD(1) [OF assms(1)] tree_eq_iff [OF sb_invD(2) [OF assms(1)] sb_invD(2) [OF assms(2)]]
    by (auto simp: u_sparse_bitset_cmp_def sb_inv_def sb_members_def)
qed

lemma util_bitcount_card: "util_bitcount w = of_nat (card {k. k < 32 \<and> bit w k})"
proof -
  have "{k. k < 32 \<and> bit w k} = set (filter (bit w) [0..<32])" by auto
  moreover have "card (set (filter (bit w) [0..<32])) = length (filter (bit w) [0..<32])" by (intro distinct_card) simp
  ultimately show ?thesis by (simp only: util_bitcount_def)
qed

lemma finite_bits_of [simp]: "finite (bits_of x)"
  by (rule finite_subset [of _ "{..<32 * length x}"]) (auto dest: bits_of_bound)

lemma card_bits_of_Cons: "card (bits_of (w # x)) = card {k. k < 32 \<and> bit w k} + card (bits_of x)"
proof -
  have "card ((\<lambda>b. b + 32) ` bits_of x) = card (bits_of x)" by (intro card_image inj_onI) simp
  moreover have "card ({k. k < 32 \<and> bit w k} \<union> (\<lambda>b. b + 32) ` bits_of x) = card {k. k < 32 \<and> bit w k} + card ((\<lambda>b. b + 32) ` bits_of x)"
    by (intro card_Un_disjoint) auto
  ultimately show ?thesis by (simp only: bits_of_Cons)
qed

lemma bitset_prefix_sum_whole:
  "(i + length x) * 32 \<le> unat b \<Longrightarrow> bitset_prefix_sum_from i x b (length x) = Some (of_nat (card (bits_of x)))"
  by (induction x arbitrary: i) (simp_all add: util_bitcount_card card_bits_of_Cons)

lemma bitset_count_card: "length x = 32 \<Longrightarrow> bitset_count x 32 = Some (of_nat (card (bits_of x)))"
  using bitset_prefix_sum_whole [of 0 x "- 1"] by (simp add: bitset_count_def bitset_prefix_sum_def unsigned_minus_1_eq_mask mask_eq_exp_minus_1)

lemma tree_bits_Cons:
  assumes "tree_ok ((a, v) # t)"
  shows "tree_bits ((a, v) # t) = (\<lambda>k. a + of_nat k) ` bits_of v \<union> tree_bits t" and "(\<lambda>k. a + of_nat k) ` bits_of v \<inter> tree_bits t = {}"
proof -
  have out: "a \<notin> fst ` set t" and v: "length v = 32" "index_of a = 0" using assms by (auto simp: tree_ok_Cons)
  have parts: "offset_of (a + of_nat k) = a" "unat (index_of (a + of_nat k)) = k" if "k \<in> bits_of v" for k
    using number_of_parts [OF v(2), of k] bits_of_bound [OF that] v(1) by auto
  have im: "b \<in> (\<lambda>k. a + of_nat k) ` bits_of v \<longleftrightarrow> offset_of b = a \<and> unat (index_of b) \<in> bits_of v" for b
    using parts offset_index_inject [of b] by (metis (no_types, lifting) image_iff)
  show "tree_bits ((a, v) # t) = (\<lambda>k. a + of_nat k) ` bits_of v \<union> tree_bits t"
    unfolding set_eq_iff Un_iff im using node_bits_outside [OF out] by (simp add: tree_bits_def node_bits_Cons [OF out])
  show "(\<lambda>k. a + of_nat k) ` bits_of v \<inter> tree_bits t = {}"
    unfolding disjoint_iff im using node_bits_outside [OF out] by (auto simp: tree_bits_def)
qed

lemma card_tree_bits_Cons:
  assumes "tree_ok ((a, v) # t)"
  shows "card (tree_bits ((a, v) # t)) = card (bits_of v) + card (tree_bits t)"
proof -
  have v: "length v = 32" "index_of a = 0" using assms by (auto simp: tree_ok_Cons)
  have k: "k < 1024" if "k \<in> bits_of v" for k using bits_of_bound [OF that] v(1) by simp
  have "inj_on (\<lambda>k. a + of_nat k) (bits_of v)"
  proof (rule inj_onI)
    fix k j
    assume "k \<in> bits_of v" "j \<in> bits_of v" "a + of_nat k = a + of_nat j"
    then show "k = j" using number_of_parts(2) [OF v(2) k [of k]] number_of_parts(2) [OF v(2) k [of j]] by metis
  qed
  then show ?thesis using tree_bits_Cons [OF assms] by (simp add: card_Un_disjoint card_image)
qed

lemma count_nodes_card: "tree_ok t \<Longrightarrow> count_nodes t n = Some (n + of_nat (card (tree_bits t)))"
proof (induction t n rule: count_nodes.induct)
  case (2 a v t n)
  have "length v = 32" "tree_ok t" using 2(2) by (auto simp: tree_ok_Cons)
  then show ?case using 2(1) by (simp add: bitset_count_card card_tree_bits_Cons [OF 2(2)] add.assoc)
qed (simp add: tree_bits_def node_bits_def)

lemma u_sparse_bitset_count_card:
  "sb_inv s \<Longrightarrow> u_sparse_bitset_count s = Some (of_nat (card (sb_members s)))"
  by (simp add: u_sparse_bitset_count_def sb_invD count_nodes_card sb_members_def)

section \<open>Iteration\<close>

lemma ffs_least:
  assumes "w \<noteq> 0"
  shows "\<exists>k < 32. bit w k \<and> (\<forall>j < k. \<not> bit w j) \<and> ffs w = Suc k"
proof -
  define k where "k = (LEAST j. bit w j)"
  obtain j where "bit w j" using assms by (auto simp: bit_eq_iff)
  then have k: "bit w k" and least: "\<And>j. j < k \<Longrightarrow> \<not> bit w j" by (auto simp: k_def intro: LeastI dest: not_less_Least)
  have b: "k < 32" using bit_imp_le_length [OF k] by simp
  have "[0..<32] = [0..<k] @ k # [Suc k..<32]" using upt_add_eq_append [of 0 k "32 - k"] b by (simp add: upt_conv_Cons)
  moreover have "filter (bit w) [0..<k] = []" using least by (auto simp: filter_empty_conv)
  ultimately have "filter (bit w) [0..<32] = k # filter (bit w) [Suc k..<32]" using k by simp
  then show ?thesis using k b least by (auto simp: ffs_def)
qed

text \<open>\<open>is_next S from r\<close>: the result \<open>r\<close> is the least member of \<open>S\<close> from \<open>from\<close> on, or all ones if there is none.\<close>

definition is_next :: "nat set \<Rightarrow> nat \<Rightarrow> u32 \<Rightarrow> bool" where
  "is_next S n r \<longleftrightarrow> (r = - 1 \<and> (\<forall>k \<in> S. k < n)) \<or> (\<exists>k \<in> S. n \<le> k \<and> (\<forall>j \<in> S. n \<le> j \<longrightarrow> k \<le> j) \<and> r = of_nat k)"

lemma is_nextI: "k \<in> S \<Longrightarrow> n \<le> k \<Longrightarrow> (\<And>j. j \<in> S \<Longrightarrow> n \<le> j \<Longrightarrow> k \<le> j) \<Longrightarrow> is_next S n (of_nat k)"
  unfolding is_next_def by blast

lemma next_word_ok:
  "\<exists>r. next_word ws i = r \<and> ((r = - 1 \<and> bits_of ws = {}) \<or> (\<exists>k \<in> bits_of ws. (\<forall>j \<in> bits_of ws. k \<le> j) \<and> r = of_nat (i * 32 + k)))"
proof (induction ws arbitrary: i)
  case (Cons w ws)
  show ?case
  proof (cases "w = 0")
    case True
    then have b: "bits_of (w # ws) = (\<lambda>b. b + 32) ` bits_of ws" by (simp add: bits_of_Cons)
    show ?thesis using Cons.IH [of "i + 1"] unfolding b by (auto simp: True algebra_simps)
  next
    case False
    then obtain k where k: "k < 32" "bit w k" "\<forall>j < k. \<not> bit w j" "ffs w = Suc k" using ffs_least by blast
    then have "k \<in> bits_of (w # ws)" "\<forall>j \<in> bits_of (w # ws). k \<le> j" by (auto simp: bits_of_Cons) (meson not_less)
    then show ?thesis using False k(4) by auto
  qed
qed simp

lemma bits_of_drop: "k \<in> bits_of (drop i x) \<longleftrightarrow> k + 32 * i \<in> bits_of x"
proof (induction i arbitrary: x)
  case (Suc i)
  show ?case using Suc [of "tl x"] by (cases x) (auto simp: bits_of_Cons algebra_simps)
qed simp

lemma next_set_dense_ok:
  assumes len: "length v = 32" and start: "unat start < 1024"
  shows "\<exists>r. u_sparse_bitset_next_set_dense v 1024 start = Some r \<and> is_next (bits_of v) (unat start) r"
proof -
  define i where "i = unat start div 32"
  define off where "off = unat start mod 32"
  have s: "unat start = 32 * i + off" and off: "off < 32" and i: "i < 32" using start by (auto simp: i_def off_def less_mult_imp_div_less)
  have words: "BITSET_WORDS 1024 = 32" by (simp add: BITSET_WORDS_def)
  have lt: "\<not> 1024 \<le> start" using start by (simp add: word_le_nat_alt)
  have word: "b \<in> bits_of v \<longleftrightarrow> bit (v ! i) (off + k)" if "b = unat start + k" "off + k < 32" for b k
  proof -
    have "b = 32 * i + (off + k)" using that(1) s by simp
    then have "b div 32 = i" "b mod 32 = off + k" using that(2) by simp_all
    then show ?thesis using i len by (simp add: bits_of_def)
  qed
  show ?thesis
  proof (cases "drop_bit off (v ! i) = 0")
    case False
    obtain k where k: "k < 32" "bit (drop_bit off (v ! i)) k" "\<forall>j < k. \<not> bit (drop_bit off (v ! i)) j" "ffs (drop_bit off (v ! i)) = Suc k"
      using ffs_least [OF False] by blast
    have kb: "bit (v ! i) (off + k)" using k(2) by (simp add: bit_drop_bit_eq)
    have in_word: "off + k < 32" using bit_imp_le_length [OF kb] by simp
    have mem: "unat start + k \<in> bits_of v" using word [OF refl in_word] kb by simp
    have least: "unat start + k \<le> j" if j: "j \<in> bits_of v" "unat start \<le> j" for j
    proof (rule ccontr)
      assume "\<not> unat start + k \<le> j"
      then obtain d where d: "j = unat start + d" "d < k" using j(2) le_Suc_ex [of "unat start" j] by auto
      then have "bit (v ! i) (off + d)" using word [OF d(1)] j(1) in_word by simp
      then show False using k(3) d(2) by (simp add: bit_drop_bit_eq)
    qed
    have "start + of_nat (Suc k) - 1 = of_nat (unat start + k)" by simp
    then have "u_sparse_bitset_next_set_dense v 1024 start = Some (of_nat (unat start + k))"
      using lt i len False k(4) by (simp add: u_sparse_bitset_next_set_dense_def Let_def words i_def [symmetric] off_def [symmetric])
    then show ?thesis using is_nextI [OF mem le_add1 least] by blast
  next
    case True
    define rest where "rest = drop (i + 1) v"
    have res: "u_sparse_bitset_next_set_dense v 1024 start = Some (next_word rest (i + 1))"
      using lt i len True by (simp add: u_sparse_bitset_next_set_dense_def Let_def words i_def [symmetric] off_def [symmetric] rest_def)
    have later: "\<exists>k \<in> bits_of rest. j = k + 32 * (i + 1)" if j: "j \<in> bits_of v" "unat start \<le> j" for j
    proof -
      obtain d where d: "j = unat start + d" using j(2) le_Suc_ex by blast
      have "\<not> off + d < 32" using word [OF d] j(1) True by (auto simp: bit_drop_bit_eq dest: arg_cong [where f = "\<lambda>w. bit w d"])
      then have "32 * (i + 1) \<le> j" using d s by simp
      then obtain k where "j = k + 32 * (i + 1)" by (metis add.commute le_Suc_ex)
      then show ?thesis using j(1) bits_of_drop [of k "i + 1" v] by (auto simp: rest_def)
    qed
    have earlier: "k + 32 * (i + 1) \<in> bits_of v \<and> unat start \<le> k + 32 * (i + 1)" if "k \<in> bits_of rest" for k
      using that bits_of_drop [of k "i + 1" v] s off by (simp add: rest_def)
    consider "next_word rest (i + 1) = - 1" "bits_of rest = {}"
      | k where "k \<in> bits_of rest" "\<forall>j \<in> bits_of rest. k \<le> j" "next_word rest (i + 1) = of_nat ((i + 1) * 32 + k)"
      using next_word_ok [of rest "i + 1"] by blast
    then show ?thesis
    proof cases
      case 1
      then have "\<forall>k \<in> bits_of v. k < unat start" using later by (metis empty_iff not_less)
      then show ?thesis using res 1(1) by (simp add: is_next_def)
    next
      case 2
      have "k + 32 * (i + 1) \<le> j" if "j \<in> bits_of v" "unat start \<le> j" for j using later [OF that] 2(2) by auto
      then show ?thesis using res 2(3) earlier [OF 2(1)] by (auto simp: is_next_def algebra_simps)
    qed
  qed
qed

lemma unat_offset_of: "unat (offset_of b) = unat b div 1024 * 1024"
proof -
  have "offset_of b = b - index_of b" using offset_plus_index [of b] by (simp add: eq_diff_eq)
  moreover have "unat (b - index_of b) = unat b - unat (index_of b)" by (intro unat_sub) (simp add: word_le_nat_alt unat_index_of)
  ultimately show ?thesis by (simp add: unat_index_of minus_mod_eq_div_mult)
qed

lemma offset_less: "offset_of b < offset_of c \<Longrightarrow> b < c"
proof (rule ccontr)
  assume less: "offset_of b < offset_of c" and "\<not> b < c"
  then have "unat c div 1024 \<le> unat b div 1024" by (intro div_le_mono) (simp add: word_less_nat_alt)
  then show False using less by (simp add: word_less_nat_alt unat_offset_of)
qed

lemma unat_split: "unat b = unat (offset_of b) + unat (index_of b)"
  by (simp add: unat_offset_of unat_index_of)

lemma same_node_less: "offset_of b = offset_of c \<Longrightarrow> b < c \<longleftrightarrow> unat (index_of b) < unat (index_of c)"
proof -
  assume "offset_of b = offset_of c"
  then have o: "unat (offset_of b) = unat (offset_of c)" by (rule arg_cong)
  have "x = p + i \<Longrightarrow> y = q + j \<Longrightarrow> p = q \<Longrightarrow> (x < y) = (i < j)" for x y p q i j :: nat by simp
  from this [OF unat_split unat_split o] show ?thesis by (simp only: word_less_nat_alt)
qed

lemma tail_above:
  assumes "tree_ok ((a, v) # t)" and "c \<in> tree_bits t" and "offset_of b = a"
  shows "b < c"
proof -
  have c: "offset_of c \<in> fst ` set t" using node_bits_outside [of "offset_of c" t] assms(2) by (auto simp: tree_bits_def)
  have "\<forall>c \<in> fst ` set t. a < c" using assms(1) by (simp add: tree_ok_Cons)
  then have "a < offset_of c" using c by blast
  then show ?thesis unfolding assms(3) [symmetric] by (rule offset_less)
qed

text \<open>The node at the head of the sequence covers \<open>b\<close>.\<close>

fun covers :: "(u32 \<times> bitset) list \<Rightarrow> u32 \<Rightarrow> bool" where
  "covers [] b \<longleftrightarrow> False"
| "covers ((a, v) # t) b \<longleftrightarrow> offset_of b = a"

definition least_from :: "u32 set \<Rightarrow> u32 \<Rightarrow> u32 \<Rightarrow> bool" where
  "least_from S start b \<longleftrightarrow> b \<in> S \<and> start \<le> b \<and> (\<forall>c \<in> S. start \<le> c \<longrightarrow> b \<le> c)"

definition next_found :: "(u32 \<times> bitset) list \<Rightarrow> u32 \<Rightarrow> (u32 \<times> (u32 \<times> bitset) list) option \<Rightarrow> bool" where
  "next_found t start r = (case r of
     None \<Rightarrow> \<forall>c \<in> tree_bits t. c < start
   | Some (b, t') \<Rightarrow> least_from (tree_bits t) start b \<and> tree_ok t' \<and> covers t' b \<and> {c \<in> tree_bits t'. b < c} = {c \<in> tree_bits t. b < c})"

lemma tree_bits_head_iff:
  assumes "tree_ok ((a, v) # t)"
  shows "c \<in> tree_bits ((a, v) # t) \<longleftrightarrow> (offset_of c = a \<and> unat (index_of c) \<in> bits_of v) \<or> c \<in> tree_bits t"
proof -
  have out: "a \<notin> fst ` set t" using assms by (auto simp: tree_ok_Cons)
  show ?thesis using node_bits_outside [OF out] by (auto simp: tree_bits_def node_bits_Cons [OF out])
qed

lemma next_found_tail:
  assumes ok: "tree_ok ((a, v) # t)" and tail: "next_found t 0 r"
    and head: "\<And>c. offset_of c = a \<Longrightarrow> unat (index_of c) \<in> bits_of v \<Longrightarrow> c < start"
    and above: "\<And>c. c \<in> tree_bits t \<Longrightarrow> start \<le> c"
  shows "next_found ((a, v) # t) start r"
proof (cases r)
  case None
  then have "tree_bits t = {}" using tail by (auto simp: next_found_def word_coorder.not_eq_extremum)
  then show ?thesis using head None by (auto simp: next_found_def tree_bits_head_iff [OF ok])
next
  case (Some bt)
  obtain b t' where bt: "bt = (b, t')" by fastforce
  have b: "b \<in> tree_bits t" "\<forall>c \<in> tree_bits t. b \<le> c" and t': "tree_ok t'" "covers t' b" "{c \<in> tree_bits t'. b < c} = {c \<in> tree_bits t. b < c}"
    using tail by (auto simp: next_found_def Some bt least_from_def)
  have h: "\<not> (offset_of c = a \<and> unat (index_of c) \<in> bits_of v \<and> start \<le> c)" for c using head [of c] by (auto simp: not_le [symmetric])
  have "least_from (tree_bits ((a, v) # t)) start b"
    unfolding least_from_def tree_bits_head_iff [OF ok] Ball_def using b above [OF b(1)] h by blast
  moreover have "{c \<in> tree_bits ((a, v) # t). b < c} = {c \<in> tree_bits t. b < c}"
    unfolding tree_bits_head_iff [OF ok] using h above [OF b(1)] by (auto intro: less_imp_le order_trans)
  ultimately show ?thesis using t' by (simp add: next_found_def Some bt)
qed

lemma next_found_head:
  assumes ok: "tree_ok ((a, v) # t)" and k: "k \<in> bits_of v" "n \<le> k" "\<And>j. j \<in> bits_of v \<Longrightarrow> n \<le> j \<Longrightarrow> k \<le> j"
    and same: "\<And>c. offset_of c = a \<Longrightarrow> start \<le> c \<longleftrightarrow> n \<le> unat (index_of c)"
  shows "next_found ((a, v) # t) start (Some (a + of_nat k, (a, v) # t))"
proof -
  have v: "length v = 32" "index_of a = 0" using ok by (auto simp: tree_ok_Cons)
  note p = number_of_parts(1,2) [OF v(2), of k]
  have k': "k < 1024" using bits_of_bound [OF k(1)] v(1) by simp
  define b where "b = a + of_nat k"
  have b: "offset_of b = a" "unat (index_of b) = k" using p [OF k'] by (simp_all add: b_def)
  have "b \<le> c" if c: "c \<in> tree_bits ((a, v) # t)" "start \<le> c" for c
  proof (cases "offset_of c = a \<and> unat (index_of c) \<in> bits_of v")
    case True
    then have "k \<le> unat (index_of c)" using k(3) same [of c] c(2) by blast
    then have "\<not> c < b" using same_node_less [of c b] True b by simp
    then show ?thesis by simp
  next
    case False
    then have "c \<in> tree_bits t" using c(1) tree_bits_head_iff [OF ok] by blast
    then show ?thesis using tail_above [OF ok _ b(1)] less_imp_le by blast
  qed
  moreover have "start \<le> b" using same [OF b(1)] b(2) k(2) by simp
  moreover have "b \<in> tree_bits ((a, v) # t)" using tree_bits_head_iff [OF ok, of b] b k(1) by simp
  ultimately show ?thesis using ok b(1) unfolding b_def [symmetric] by (simp add: next_found_def least_from_def)
qed

text \<open>Where the search resumes: at the start, or just after a number covered by the first node.\<close>

definition resumes :: "(u32 \<times> bitset) list \<Rightarrow> u32 \<Rightarrow> bool" where
  "resumes t start \<longleftrightarrow> start = 0 \<or> (\<exists>b. covers t b \<and> b \<noteq> - 1 \<and> start = b + 1)"

lemma unat_succ: "b \<noteq> - 1 \<Longrightarrow> unat (b + 1 :: u32) = unat b + 1"
  using less_imp_le [OF less_plus_one_u32, of b] unat_plus_simple [of b 1] by simp

lemma resumes_cases:
  assumes ok: "tree_ok ((a, v) # t)" and res: "resumes ((a, v) # t) start" and "start \<noteq> 0"
  shows "\<exists>n. n < 1024 \<and> unat start = unat a + n + 1 \<and> unat (start - a) = n + 1 \<and> (\<forall>c \<in> tree_bits t. start \<le> c)"
proof -
  obtain b where b: "offset_of b = a" "b \<noteq> - 1" "start = b + 1" using res assms(3) by (auto simp: resumes_def)
  have s: "unat start = unat a + unat (index_of b) + 1" using unat_succ [OF b(2)] unat_split [of b] by (simp only: b(1,3))
  have "unat (start - a) = unat start - unat a" by (rule unat_sub) (simp add: word_le_nat_alt s)
  moreover have "start \<le> c" if c: "c \<in> tree_bits t" for c
  proof -
    have "unat b < unat c" using tail_above [OF ok c b(1)] by (simp add: word_less_nat_alt)
    then show ?thesis unfolding word_le_nat_alt b(3) unat_succ [OF b(2)] by simp
  qed
  moreover have "unat (index_of b) < 1024" by (simp add: unat_index_of)
  ultimately show ?thesis using s by (intro exI [of _ "unat (index_of b)"]) simp
qed

lemma resumes_head:
  assumes ok: "tree_ok ((a, v) # t)" and res: "resumes ((a, v) # t) start"
  shows "\<lbrakk>start \<noteq> 0; start - a \<ge> 1024\<rbrakk> \<Longrightarrow> offset_of c = a \<Longrightarrow> c < start"
    and "\<not> (start \<noteq> 0 \<and> start - a \<ge> 1024) \<Longrightarrow> offset_of c = a \<Longrightarrow> start \<le> c \<longleftrightarrow> unat (index_of start) \<le> unat (index_of c)"
    and "c \<in> tree_bits t \<Longrightarrow> start \<le> c"
proof -
  have c: "unat c = unat a + unat (index_of c)" if "offset_of c = a" using unat_split [of c] by (simp only: that)
  have ic: "unat (index_of c) < 1024" by (simp add: unat_index_of)
  show "c < start" if h: "start \<noteq> 0" "start - a \<ge> 1024" "offset_of c = a"
  proof -
    obtain n where n: "n < 1024" "unat start = unat a + n + 1" "unat (start - a) = n + 1" using resumes_cases [OF ok res h(1)] by blast
    have "1024 \<le> n + 1" using h(2) n(3) by (simp add: word_le_nat_alt)
    then show ?thesis using n(2) c [OF h(3)] ic by (simp add: word_less_nat_alt)
  qed
  show "start \<le> c \<longleftrightarrow> unat (index_of start) \<le> unat (index_of c)" if h: "\<not> (start \<noteq> 0 \<and> start - a \<ge> 1024)" "offset_of c = a"
  proof (cases "start = 0")
    case False
    obtain n where n: "n < 1024" "unat start = unat a + n + 1" "unat (start - a) = n + 1" using resumes_cases [OF ok res False] by blast
    have lt: "n + 1 < 1024" using h(1) False n(3) by (simp add: word_le_nat_alt)
    have "index_of a = 0" using ok by (simp add: tree_ok_Cons)
    then have "unat a mod 1024 = 0" using unat_index_of [of a] by simp
    then obtain q where "unat a = 1024 * q" by (auto simp: mod_eq_0_iff_dvd)
    then have "(unat a + (n + 1)) mod 1024 = n + 1" using lt mod_mult_self4 [of 1024 q "n + 1"] by (simp only: mod_less)
    then have "unat (index_of start) = n + 1" by (simp add: unat_index_of n(2))
    then show ?thesis unfolding word_le_nat_alt n(2) c [OF h(2)] by simp
  qed simp
  show "start \<le> c" if "c \<in> tree_bits t"
    using resumes_cases [OF ok res] that by (cases "start = 0") auto
qed

lemma next_node_ok:
  "tree_ok t \<Longrightarrow> resumes t start \<Longrightarrow> \<exists>r. next_node t start = Some r \<and> next_found t start r"
proof (induction t start rule: next_node.induct)
  case (2 a v t start)
  have bits: "of_nat U_SPARSE_BITSET_BITS_PER_NODE = (1024 :: u32)" by (simp add: U_SPARSE_BITSET_BITS_PER_NODE_def)
  have t: "tree_ok t" and v: "length v = 32" using 2(3) by (auto simp: tree_ok_Cons)
  note rh = resumes_head [OF 2(3,4)]
  have r0: "resumes t 0" by (simp add: resumes_def)
  show ?case
  proof (cases "start \<noteq> 0 \<and> start - a \<ge> 1024")
    case True
    obtain r where r: "next_node t 0 = Some r" "next_found t 0 r" using 2(1) [unfolded bits, OF True t r0] by blast
    then show ?thesis using True next_found_tail [OF 2(3) r(2) rh(1) rh(3)] by (auto simp: bits)
  next
    case False
    note same = rh(2) [OF False]
    have ib: "unat (index_of start) < 1024" by (simp add: unat_index_of)
    obtain i where i: "u_sparse_bitset_next_set_dense v 1024 (index_of start) = Some i" "is_next (bits_of v) (unat (index_of start)) i"
      using next_set_dense_ok [OF v ib] by blast
    consider "i = - 1" "\<forall>k \<in> bits_of v. k < unat (index_of start)"
      | k where "k \<in> bits_of v" "unat (index_of start) \<le> k" "\<forall>j \<in> bits_of v. unat (index_of start) \<le> j \<longrightarrow> k \<le> j" "i = of_nat k"
      using i(2) unfolding is_next_def by blast
    then show ?thesis
    proof cases
      case 1
      have ni: "\<not> i < 1024" using 1(1) by simp
      obtain r where r: "next_node t 0 = Some r" "next_found t 0 r" using 2(2) [unfolded bits, OF False i(1) ni t r0] by blast
      have "c < start" if "offset_of c = a" "unat (index_of c) \<in> bits_of v" for c using same [OF that(1)] 1(2) that(2) by (meson not_less)
      then show ?thesis using False i(1) ni r(1) next_found_tail [OF 2(3) r(2) _ rh(3)] by (auto simp: bits)
    next
      case 2
      have "k < 1024" using bits_of_bound [OF 2(1)] v by simp
      then have "i < 1024" using 2(4) by (simp add: word_less_nat_alt unat_of_nat)
      then show ?thesis using False i(1) 2(4) next_found_head [OF \<open>tree_ok ((a, v) # t)\<close> 2(1,2) _ same] 2(3) by (auto simp: bits)
    qed
  qed
qed (simp add: next_found_def tree_bits_def node_bits_def)

lemma next_set_ok:
  assumes "sb_inv s" and "tree_ok t" and "resumes t start"
  shows "(\<exists>t'. u_sparse_bitset_next_set s t start = Some (- 1, t') \<and> (\<forall>c \<in> tree_bits t. c < start)) \<or>
    (\<exists>b t'. u_sparse_bitset_next_set s t start = Some (b, t') \<and> next_found t start (Some (b, t')))"
proof -
  obtain r where r: "next_node t start = Some r" "next_found t start r" using next_node_ok [OF assms(2,3)] by blast
  show ?thesis
  proof (cases r)
    case None
    then show ?thesis using r sb_invD(1) [OF assms(1)] by (simp add: u_sparse_bitset_next_set_def next_found_def)
  next
    case (Some bt)
    obtain b t' where bt: "bt = (b, t')" by fastforce
    have "start \<le> b" using r(2) by (simp add: Some bt next_found_def least_from_def)
    then show ?thesis using r sb_invD(1) [OF assms(1)] by (simp add: Some bt u_sparse_bitset_next_set_def)
  qed
qed

lemma foreach_from_ok:
  assumes "sb_inv s" and "tree_ok t" and "covers t it" and "it \<noteq> - 1"
  shows "\<exists>xs. foreach_set_from s it t = Some (it # xs) \<and> sorted_wrt (<) (it # xs) \<and> set xs = {c \<in> tree_bits t. it < c \<and> c \<noteq> - 1}"
  using assms(2-)
proof (induction "card {c \<in> tree_bits t. it < c}" arbitrary: t it rule: less_induct)
  case less
  have gt: "it + 1 \<le> c \<longleftrightarrow> it < c" for c :: u32
    unfolding word_le_nat_alt word_less_nat_alt unat_succ [OF less(4)] by (simp add: Suc_le_eq)
  have res: "resumes t (it + 1)" using less(3,4) by (auto simp: resumes_def)
  consider (stop) t' where "u_sparse_bitset_next_set s t (it + 1) = Some (- 1, t')" "\<forall>c \<in> tree_bits t. c < it + 1"
    | (found) b t' where "u_sparse_bitset_next_set s t (it + 1) = Some (b, t')" "next_found t (it + 1) (Some (b, t'))"
    using next_set_ok [OF assms(1) less(2) res] by blast
  then show ?case
  proof cases
    case stop
    then have "{c \<in> tree_bits t. it < c \<and> c \<noteq> - 1} = {}" using gt by (auto simp: not_less [symmetric])
    then show ?thesis using stop(1) less(4) by (simp add: foreach_set_from.simps)
  next
    case found
    have b: "b \<in> tree_bits t" "it < b" "\<And>c. c \<in> tree_bits t \<Longrightarrow> it < c \<Longrightarrow> b \<le> c" and t': "tree_ok t'" "covers t' b"
        "{c \<in> tree_bits t'. b < c} = {c \<in> tree_bits t. b < c}"
      using found(2) gt by (auto simp: next_found_def least_from_def)
    have after: "{c \<in> tree_bits t. it < c} = insert b {c \<in> tree_bits t. b < c}" using b by (auto simp: le_less intro: less_trans)
    show ?thesis
    proof (cases "b = - 1")
      case True
      then have "{c \<in> tree_bits t. it < c \<and> c \<noteq> - 1} = {}" using b(3) by (auto simp: word_order.extremum_unique)
      then show ?thesis using found(1) True less(4) by (simp add: foreach_set_from.simps)
    next
      case False
      have "card {c \<in> tree_bits t'. b < c} < card {c \<in> tree_bits t. it < c}" unfolding t'(3) after by simp
      from less(1) [OF this t'(1,2) False] obtain xs where xs: "foreach_set_from s b t' = Some (b # xs)" "sorted_wrt (<) (b # xs)"
        "set xs = {c \<in> tree_bits t'. b < c \<and> c \<noteq> - 1}" by blast
      have "set xs = {c \<in> tree_bits t. b < c \<and> c \<noteq> - 1}" using xs(3) t'(3) by blast
      then have "set (b # xs) = {c \<in> tree_bits t. it < c \<and> c \<noteq> - 1}" using after False by auto
      moreover have "foreach_set_from s it t = Some (it # b # xs)" using found(1) less(4) xs(1) by (simp add: foreach_set_from.simps [of s it])
      moreover have "sorted_wrt (<) (it # b # xs)" using xs(2) b(2) by auto
      ultimately show ?thesis by blast
    qed
  qed
qed

section \<open>Properties\<close>

datatype sb_op = SetBit nat u32 | ClearBit nat u32 | TestBit nat u32 | Dup nat nat | Merge nat nat | ClearAll nat | Count nat

datatype sb_result = Done | Answer bool | Number u32

text \<open>Operations on a row of sets, named by their positions; the specification has the sets of numbers.\<close>

fun sb_step :: "sb_op \<Rightarrow> u_sparse_bitset list \<Rightarrow> (sb_result \<times> u_sparse_bitset list) option" where
  "sb_step (SetBit i b) ss = map_option (\<lambda>s. (Done, ss[i := s])) (u_sparse_bitset_set (ss ! i) b)"
| "sb_step (ClearBit i b) ss = map_option (\<lambda>s. (Done, ss[i := s])) (u_sparse_bitset_clear (ss ! i) b)"
| "sb_step (TestBit i b) ss = map_option (\<lambda>r. (Answer r, ss)) (u_sparse_bitset_test (ss ! i) b)"
| "sb_step (Dup i j) ss = map_option (Pair Done) (u_sparse_bitset_dup_with_ctx i j ss)"
| "sb_step (Merge i j) ss = map_option (\<lambda>(c, s). (Answer c, ss[i := s])) (u_sparse_bitset_merge (ss ! i) (ss ! j))"
| "sb_step (ClearAll i) ss = Some (Done, ss[i := u_sparse_bitset_clear_all (ss ! i)])"
| "sb_step (Count i) ss = map_option (\<lambda>n. (Number n, ss)) (u_sparse_bitset_count (ss ! i))"

fun set_step :: "sb_op \<Rightarrow> u32 set list \<Rightarrow> (sb_result \<times> u32 set list) option" where
  "set_step (SetBit i b) ss = Some (Done, ss[i := insert b (ss ! i)])"
| "set_step (ClearBit i b) ss = Some (Done, ss[i := ss ! i - {b}])"
| "set_step (TestBit i b) ss = Some (Answer (b \<in> ss ! i), ss)"
| "set_step (Dup i j) ss = Some (Done, ss[i := if i = j then {} else ss ! j])"
| "set_step (Merge i j) ss = Some (Answer (\<not> ss ! j \<subseteq> ss ! i), ss[i := ss ! i \<union> ss ! j])"
| "set_step (ClearAll i) ss = Some (Done, ss[i := {}])"
| "set_step (Count i) ss = Some (Number (of_nat (card (ss ! i))), ss)"

fun sb_op_ok :: "nat \<Rightarrow> sb_op \<Rightarrow> bool" where
  "sb_op_ok n (SetBit i b) = (i < n)"
| "sb_op_ok n (ClearBit i b) = (i < n)"
| "sb_op_ok n (TestBit i b) = (i < n)"
| "sb_op_ok n (Dup i j) = (i < n \<and> j < n)"
| "sb_op_ok n (Merge i j) = (i < n \<and> j < n)"
| "sb_op_ok n (ClearAll i) = (i < n)"
| "sb_op_ok n (Count i) = (i < n)"

lemma sb_clear_all: "sb_inv s \<Longrightarrow> sb_inv (u_sparse_bitset_clear_all s) \<and> sb_members (u_sparse_bitset_clear_all s) = {}"
  by (simp add: u_sparse_bitset_clear_all_def sb_invD sb_inv_def tree_ok_def sb_members_def tree_bits_def node_bits_def)

interpretation sb_run: run_refinement sb_step set_step "map sb_members" "\<lambda>ss. list_all sb_inv ss \<and> length ss = n" "sb_op_ok n" for n
proof unfold_locales
  fix ss x
  assume ss: "list_all sb_inv ss \<and> length ss = n" and x: "sb_op_ok n x"
  have inv: "sb_inv (ss ! i)" if "i < n" for i using ss that by (simp add: list_all_length)
  have upd: "list_all sb_inv (ss[i := s])" if "sb_inv s" for i s using ss that by (auto simp: list_all_iff dest: set_update_subset_insert [THEN subsetD])
  show "case sb_step x ss of None \<Rightarrow> set_step x (map sb_members ss) = None
    | Some (r, ss') \<Rightarrow> set_step x (map sb_members ss) = Some (r, map sb_members ss') \<and> list_all sb_inv ss' \<and> length ss' = n"
  proof (cases x)
    case (SetBit i b)
    then show ?thesis using sb.insert_law [OF inv, of i b] ss x upd by (auto simp: map_update)
  next
    case (ClearBit i b)
    then show ?thesis using sb.clear_law [OF inv, of i b] ss x upd by (auto simp: map_update)
  next
    case (TestBit i b)
    then show ?thesis using sb.test_law [OF inv, of i b] ss x by auto
  next
    case (Dup i j)
    then show ?thesis using dup_with_ctx_ok [of i ss j] inv [of j] ss x upd by (auto simp: map_update)
  next
    case (Merge i j)
    then show ?thesis using sb.merge_law [OF inv inv, of i j] ss x upd by (auto simp: map_update)
  next
    case (ClearAll i)
    then show ?thesis using sb_clear_all [OF inv, of i] ss x upd by (auto simp: map_update)
  next
    case (Count i)
    then show ?thesis using u_sparse_bitset_count_card [OF inv, of i] ss x by auto
  qed
qed

text \<open>
  Property C35.  Sparse bit sets are sets: for every sequence of operations on a row of sets, set,
  clear and test of a bit, copy, merge, removal of all bits and the count give what they give on
  sets of numbers, no assertion fails and no access is out of bounds.  A set copied onto itself
  ends up empty, since the copy initialises its destination first.  Merging returns whether the
  source had a member that the destination had not.  The count is the size modulo \<open>2 ^ 32\<close>.
\<close>

theorem u_sparse_bitset_refines_set:
  assumes "list_all (sb_op_ok n) ops"
  shows "map_option (map_prod id (map sb_members)) (run_steps sb_step ops (replicate n (u_sparse_bitset_init capacity))) =
    run_steps set_step ops (replicate n {})"
  using sb_run.steps_refine [of "replicate n (u_sparse_bitset_init capacity)" n ops] assms sb_init by (simp add: list_all_iff)

theorem u_sparse_bitset_refines_set_witness:
  "map_option (map_prod id (map sb_members)) (run_steps sb_step [SetBit 0 5, SetBit 0 3000, Merge 1 0, ClearBit 0 5, Merge 1 0, TestBit 1 5, Dup 0 0]
     (replicate 2 (u_sparse_bitset_init 4000))) = Some ([Done, Done, Answer True, Done, Answer False, Answer True, Done], [{}, {5, 3000}])"
proof -
  have two: "replicate 2 {} = [{}, {} :: u32 set]" by (simp add: numeral_2_eq_2)
  have "run_steps set_step [SetBit 0 5, SetBit 0 3000, Merge 1 0, ClearBit 0 5, Merge 1 0, TestBit 1 5, Dup 0 0] (replicate 2 {}) =
      Some ([Done, Done, Answer True, Done, Answer False, Answer True, Done], [{}, {5, 3000}])"
    unfolding two by auto
  moreover have "list_all (sb_op_ok 2) [SetBit 0 5, SetBit 0 3000, Merge 1 0, ClearBit 0 5, Merge 1 0, TestBit 1 5, Dup 0 0]" by simp
  ultimately show ?thesis using u_sparse_bitset_refines_set by metis
qed

text \<open>
  Property C36.  The loop over the members of a sparse set ends and visits every member once, in
  ascending order, except the greatest 32-bit number, which is the value that ends the loop.
\<close>

theorem sparse_bitset_foreach_correct:
  assumes "sb_inv s"
  shows "\<exists>xs. U_SPARSE_BITSET_FOREACH_SET s = Some xs \<and> sorted_wrt (<) xs \<and> set xs = sb_members s - {- 1}"
proof -
  have first: "u_sparse_bitset_first_set s = u_sparse_bitset_next_set s (sb_tree s) 0"
    using sb_invD(1) [OF assms] by (simp add: u_sparse_bitset_first_set_def)
  consider (stop) t' where "u_sparse_bitset_next_set s (sb_tree s) 0 = Some (- 1, t')" "\<forall>c \<in> tree_bits (sb_tree s). c < 0"
    | (found) b t' where "u_sparse_bitset_next_set s (sb_tree s) 0 = Some (b, t')" "next_found (sb_tree s) 0 (Some (b, t'))"
    using next_set_ok [OF assms sb_invD(2) [OF assms], of 0] by (auto simp: resumes_def)
  then show ?thesis
  proof cases
    case stop
    then have "sb_members s = {}" by (auto simp: sb_members_def)
    then show ?thesis using stop(1) first by (simp add: U_SPARSE_BITSET_FOREACH_SET_def foreach_set_from.simps)
  next
    case found
    have b: "b \<in> sb_members s" "\<forall>c \<in> sb_members s. b \<le> c" and t': "tree_ok t'" "covers t' b" "{c \<in> tree_bits t'. b < c} = {c \<in> sb_members s. b < c}"
      using found(2) by (auto simp: next_found_def least_from_def sb_members_def)
    have all: "sb_members s = insert b {c \<in> sb_members s. b < c}" using b by (auto simp: le_less)
    show ?thesis
    proof (cases "b = - 1")
      case True
      then have "sb_members s - {- 1} = {}" using b(2) by (auto simp: word_order.extremum_unique)
      then show ?thesis using found(1) first True by (simp add: U_SPARSE_BITSET_FOREACH_SET_def foreach_set_from.simps)
    next
      case False
      obtain xs where xs: "foreach_set_from s b t' = Some (b # xs)" "sorted_wrt (<) (b # xs)" "set xs = {c \<in> tree_bits t'. b < c \<and> c \<noteq> - 1}"
        using foreach_from_ok [OF assms t'(1,2) False] by blast
      have "set xs = {c \<in> sb_members s. b < c} - {- 1}" using xs(3) t'(3) by blast
      then have "set (b # xs) = sb_members s - {- 1}" using all False by auto
      then show ?thesis using xs(1,2) found(1) first by (simp add: U_SPARSE_BITSET_FOREACH_SET_def)
    qed
  qed
qed

theorem sparse_bitset_foreach_correct_witness:
  "\<exists>s xs. sb_inv s \<and> sb_members s = {422, 65535} \<and> U_SPARSE_BITSET_FOREACH_SET s = Some xs \<and> sorted_wrt (<) xs \<and> set xs = {422, 65535}"
proof -
  obtain s where s: "sb_inv s" "sb_members s = {422, 65535}"
    using sb.insert_all_law [OF sb_init(1) [of 0], of "[422, 65535]"] sb_init(2) [of 0] by auto
  show ?thesis using sparse_bitset_foreach_correct [OF s(1)] s by auto
qed

text \<open>
  Property C37.  Comparing two sparse sets gives zero exactly if they have the same members and the
  same nodes.  Since a node stays in the tree when its last bit is cleared, equal sets can compare
  as different: the witness has a set from which its only member was removed and a fresh one.
\<close>

theorem u_sparse_bitset_cmp_iff:
  assumes "sb_inv a" and "sb_inv b"
  shows "\<exists>r. u_sparse_bitset_cmp a b = Some r \<and> (r = 0 \<longleftrightarrow> sb_members a = sb_members b \<and> map fst (sb_tree a) = map fst (sb_tree b))"
  by (rule u_sparse_bitset_cmp_zero [OF assms])

theorem u_sparse_bitset_cmp_iff_witness:
  "\<exists>s1 s2 r. u_sparse_bitset_set (u_sparse_bitset_init 9) 5 = Some s1 \<and> u_sparse_bitset_clear s1 5 = Some s2 \<and>
     sb_members s2 = sb_members (u_sparse_bitset_init 9) \<and> u_sparse_bitset_cmp s2 (u_sparse_bitset_init 9) = Some r \<and> r \<noteq> 0"
proof -
  obtain s1 where s1: "u_sparse_bitset_set (u_sparse_bitset_init 9) 5 = Some s1" "sb_inv s1" "sb_members s1 = insert 5 {}"
    using sb.insert_law [OF sb_init(1), of 9 5] sb_init(2) by auto
  obtain s2 where s2: "u_sparse_bitset_clear s1 5 = Some s2" "sb_inv s2" "sb_members s2 = {}"
    using sb.clear_law [OF s1(2), of 5] s1(3) by auto
  have "map fst (sb_tree s1) = [0]" using s1(1)
    by (auto simp: u_sparse_bitset_set_def u_sparse_bitset_init_def U_SPARSE_BITSET_SMALL_SET_THRESHOLD_def u_sparse_bitset_is_small_def
      u_sparse_bitset_get_or_add_node_def u_sparse_bitset_get_node_def Let_def
      U_SPARSE_BITSET_OFFSET_MASK_def U_SPARSE_BITSET_BIT_INDEX_MASK_def U_SPARSE_BITSET_BITS_PER_NODE_def split: bind_splits)
  then have "map fst (sb_tree s2) = [0]" using s2(1) sb_invD(1) [OF s1(2)]
    by (auto simp: u_sparse_bitset_clear_def Let_def split: bind_splits option.splits)
  moreover have "sb_tree (u_sparse_bitset_init 9) = []" by (simp add: u_sparse_bitset_init_def)
  ultimately show ?thesis using u_sparse_bitset_cmp_iff [OF s2(2) sb_init(1), of 9] s1(1) s2 sb_init(2) by auto
qed

end
