(* ===== verification/Nir_Liveness.thy ===== *)
theory Nir_Liveness
  imports U_Worklist Sparse_Bitset
begin

text \<open>
  Liveness of SSA values: \<open>src/src/compiler/nir/nir_liveness.c\<close>, on the worklists of \<open>U_Worklist\<close> and
  the sets of \<open>Sparse_Bitset\<close>.  A function is the list of its blocks in the order of their indices;
  a value is the index of its definition, an instruction its definitions and its sources, a source
  of a phi a predecessor with a value.  Instructions are named by their block and position.
\<close>

section \<open>The code\<close>

datatype nir_instr = Phi_instr u32 "(nat \<times> u32) list" | Undef_instr u32 | Instr "u32 list" "u32 list"

record live_block =
  instrs :: "nir_instr list"
  following_if :: "u32 option"
  preds :: "nat list"

type_synonym nir_impl = "live_block list"

fun is_phi :: "nir_instr \<Rightarrow> bool" where
  "is_phi (Phi_instr _ _) = True"
| "is_phi _ = False"

fun instr_defs :: "nir_instr \<Rightarrow> u32 list" where
  "instr_defs (Phi_instr d _) = [d]"
| "instr_defs (Undef_instr d) = [d]"
| "instr_defs (Instr ds _) = ds"

fun instr_srcs :: "nir_instr \<Rightarrow> u32 list" where
  "instr_srcs (Phi_instr _ srcs) = map snd srcs"
| "instr_srcs (Undef_instr _) = []"
| "instr_srcs (Instr _ ss) = ss"

definition nir_src_is_undef :: "nir_impl \<Rightarrow> u32 \<Rightarrow> bool" where
  "nir_src_is_undef impl src \<longleftrightarrow> list_ex (\<lambda>b. list_ex (\<lambda>i. i = Undef_instr src) (instrs b)) impl"

definition block_phis :: "live_block \<Rightarrow> nir_instr list" where
  "block_phis b = takeWhile is_phi (instrs b)"

record live_defs_state =
  live_in :: "u_sparse_bitset list"
  live_out :: "u_sparse_bitset list"
  worklist :: u_worklist

text \<open>The loops that call a function on every element, which may stop the program.\<close>

fun foreach_do :: "('a \<Rightarrow> 's \<Rightarrow> 's option) \<Rightarrow> 'a list \<Rightarrow> 's \<Rightarrow> 's option" where
  "foreach_do f [] s = Some s"
| "foreach_do f (x # xs) s = do { s \<leftarrow> f x s; foreach_do f xs s }"

definition init_liveness_block :: "u32 \<Rightarrow> nat \<Rightarrow> live_defs_state \<Rightarrow> live_defs_state option" where
  "init_liveness_block num_bits block st = do {
     let st = st\<lparr>live_in := (live_in st)[block := u_sparse_bitset_init num_bits]\<rparr>;
     let st = st\<lparr>live_out := (live_out st)[block := u_sparse_bitset_init num_bits]\<rparr>;
     w \<leftarrow> u_worklist_push_head_index (worklist st) block;
     Some (st\<lparr>worklist := w\<rparr>)
   }"

definition set_src_live :: "nir_impl \<Rightarrow> u32 \<Rightarrow> u_sparse_bitset \<Rightarrow> u_sparse_bitset option" where
  "set_src_live impl src live = (if nir_src_is_undef impl src then Some live else u_sparse_bitset_set live src)"

definition set_ssa_def_dead :: "u32 \<Rightarrow> u_sparse_bitset \<Rightarrow> u_sparse_bitset option" where
  "set_ssa_def_dead d live = u_sparse_bitset_clear live d"

fun phi_dead :: "nir_instr \<Rightarrow> u_sparse_bitset \<Rightarrow> u_sparse_bitset option" where
  "phi_dead (Phi_instr d _) live = set_ssa_def_dead d live"
| "phi_dead _ live = Some live"

fun phi_src_live :: "nir_impl \<Rightarrow> nat \<Rightarrow> nir_instr \<Rightarrow> u_sparse_bitset \<Rightarrow> u_sparse_bitset option" where
  "phi_src_live impl pred (Phi_instr _ srcs) live = (case find (\<lambda>src. fst src = pred) srcs of
     None \<Rightarrow> Some live
   | Some src \<Rightarrow> set_src_live impl (snd src) live)"
| "phi_src_live _ _ _ live = Some live"

definition propagate_across_edge :: "nir_impl \<Rightarrow> nat \<Rightarrow> nat \<Rightarrow> live_defs_state \<Rightarrow> (bool \<times> live_defs_state) option" where
  "propagate_across_edge impl pred succ st = do {
     live \<leftarrow> u_sparse_bitset_dup (live_in st ! succ);
     live \<leftarrow> foreach_do phi_dead (block_phis (impl ! succ)) live;
     live \<leftarrow> foreach_do (phi_src_live impl pred) (block_phis (impl ! succ)) live;
     (progress, merged) \<leftarrow> u_sparse_bitset_merge (live_out st ! pred) live;
     Some (progress, st\<lparr>live_out := (live_out st)[pred := merged]\<rparr>)
   }"

definition instr_live :: "nir_impl \<Rightarrow> nir_instr \<Rightarrow> u_sparse_bitset \<Rightarrow> u_sparse_bitset option" where
  "instr_live impl i live = do {
     live \<leftarrow> foreach_do set_ssa_def_dead (instr_defs i) live;
     foreach_do (set_src_live impl) (instr_srcs i) live
   }"

definition update_live_in :: "nir_impl \<Rightarrow> nat \<Rightarrow> live_defs_state \<Rightarrow> live_defs_state option" where
  "update_live_in impl block st = do {
     live \<leftarrow> u_sparse_bitset_dup (live_out st ! block);
     live \<leftarrow> (case following_if (impl ! block) of None \<Rightarrow> Some live | Some condition \<Rightarrow> set_src_live impl condition live);
     live \<leftarrow> foreach_do (instr_live impl) (takeWhile (\<lambda>i. \<not> is_phi i) (rev (instrs (impl ! block)))) live;
     Some (st\<lparr>live_in := (live_in st)[block := live]\<rparr>)
   }"

definition propagate_to_pred :: "nir_impl \<Rightarrow> nat \<Rightarrow> nat \<Rightarrow> live_defs_state \<Rightarrow> live_defs_state option" where
  "propagate_to_pred impl block pred st = do {
     (progress, st) \<leftarrow> propagate_across_edge impl pred block st;
     if progress then do {
       w \<leftarrow> u_worklist_push_tail_index (worklist st) pred;
       Some (st\<lparr>worklist := w\<rparr>)
     } else Some st
   }"

partial_function (option) live_defs_loop :: "nir_impl \<Rightarrow> live_defs_state \<Rightarrow> live_defs_state option" where
  "live_defs_loop impl st =
     (if u_worklist_is_empty (worklist st) then Some st
      else do {
        (block, w) \<leftarrow> u_worklist_pop_head_index (worklist st);
        st \<leftarrow> update_live_in impl block (st\<lparr>worklist := w\<rparr>);
        st \<leftarrow> foreach_do (propagate_to_pred impl block) (preds (impl ! block)) st;
        live_defs_loop impl st
      })"

definition nir_live_defs_impl :: "u32 \<Rightarrow> nir_impl \<Rightarrow> live_defs_state option" where
  "nir_live_defs_impl ssa_alloc impl = do {
     let num_blocks = length impl;
     let fresh = replicate num_blocks (u_sparse_bitset_init 0);
     st \<leftarrow> foreach_do (init_liveness_block ssa_alloc) [0..<num_blocks] \<lparr>live_in = fresh, live_out = fresh, worklist = u_worklist_init num_blocks\<rparr>;
     live_defs_loop impl st
   }"

datatype nir_cursor = Before_block nat | After_block nat | Before_instr nat nat | After_instr nat nat

fun cursor_after :: "nir_cursor \<Rightarrow> nat \<Rightarrow> bool" where
  "cursor_after (After_instr _ j) k = (j = k)"
| "cursor_after _ _ = False"

fun cursor_before :: "nir_cursor \<Rightarrow> nat \<Rightarrow> bool" where
  "cursor_before (Before_instr _ j) k = (j = k)"
| "cursor_before _ _ = False"

fun live_back_to :: "nir_impl \<Rightarrow> nir_cursor \<Rightarrow> (nat \<times> nir_instr) list \<Rightarrow> u_sparse_bitset \<Rightarrow> u_sparse_bitset option" where
  "live_back_to impl cursor [] live = Some live"
| "live_back_to impl cursor ((k, i) # rest) live =
     (if cursor_after cursor k then Some live
      else do {
        c_assert (\<not> is_phi i);
        live \<leftarrow> instr_live impl i live;
        if cursor_before cursor k then Some live else live_back_to impl cursor rest live
      })"

fun cursor_block :: "nir_cursor \<Rightarrow> nat" where
  "cursor_block (Before_block b) = b"
| "cursor_block (After_block b) = b"
| "cursor_block (Before_instr b _) = b"
| "cursor_block (After_instr b _) = b"

definition live_mid_block :: "nir_impl \<Rightarrow> live_defs_state \<Rightarrow> nir_cursor \<Rightarrow> u_sparse_bitset option" where
  "live_mid_block impl st cursor = do {
     let block = cursor_block cursor;
     live \<leftarrow> u_sparse_bitset_dup (live_out st ! block);
     live_back_to impl cursor (rev (enumerate 0 (instrs (impl ! block)))) live
   }"

definition nir_get_live_defs :: "nir_impl \<Rightarrow> live_defs_state \<Rightarrow> nir_cursor \<Rightarrow> u_sparse_bitset option" where
  "nir_get_live_defs impl st cursor = (case cursor of
     Before_block b \<Rightarrow> Some (live_in st ! b)
   | After_block b \<Rightarrow> Some (live_out st ! b)
   | Before_instr b k \<Rightarrow> if k = 0 then Some (live_in st ! b) else live_mid_block impl st cursor
   | After_instr b k \<Rightarrow> if k = length (instrs (impl ! b)) - 1 then Some (live_out st ! b) else live_mid_block impl st cursor)"

definition search_for_use_after_instr :: "live_block \<Rightarrow> nat \<Rightarrow> u32 \<Rightarrow> bool" where
  "search_for_use_after_instr b start d \<longleftrightarrow>
     list_ex (\<lambda>i. \<not> list_all (\<lambda>src. src \<noteq> d) (instr_srcs i)) (drop (start + 1) (instrs b)) \<or> following_if b = Some d"

definition all_instrs :: "nir_impl \<Rightarrow> (nat \<times> nat) list" where
  "all_instrs impl = concat (map (\<lambda>b. map (Pair b) [0..<length (instrs (impl ! b))]) [0..<length impl])"

abbreviation "instr_at impl p \<equiv> instrs (impl ! fst p) ! snd p"

definition nir_def_instr :: "nir_impl \<Rightarrow> u32 \<Rightarrow> (nat \<times> nat) option" where
  "nir_def_instr impl d = find (\<lambda>p. d \<in> set (instr_defs (instr_at impl p))) (all_instrs impl)"

definition nir_def_is_live_at :: "nir_impl \<Rightarrow> live_defs_state \<Rightarrow> u32 \<Rightarrow> nat \<Rightarrow> nat \<Rightarrow> bool option" where
  "nir_def_is_live_at impl st d block start = do {
     out \<leftarrow> u_sparse_bitset_test (live_out st ! block) d;
     if out then Some True
     else do {
       inn \<leftarrow> u_sparse_bitset_test (live_in st ! block) d;
       if inn \<or> map_option fst (nir_def_instr impl d) = Some block then Some (search_for_use_after_instr (impl ! block) start d) else Some False
     }
   }"

definition instr_index :: "nir_impl \<Rightarrow> nat \<times> nat \<Rightarrow> nat" where
  "instr_index impl p = sum_list (map (\<lambda>b. length (instrs b) + 2) (take (fst p) impl)) + 1 + snd p"

fun is_undef_instr :: "nir_instr \<Rightarrow> bool" where
  "is_undef_instr (Undef_instr _) = True"
| "is_undef_instr _ = False"

definition nir_defs_interfere :: "nir_impl \<Rightarrow> live_defs_state \<Rightarrow> u32 \<Rightarrow> u32 \<Rightarrow> bool option" where
  "nir_defs_interfere impl st a b = do {
     a_instr \<leftarrow> nir_def_instr impl a;
     b_instr \<leftarrow> nir_def_instr impl b;
     if a_instr = b_instr then Some True
     else if is_undef_instr (instr_at impl a_instr) \<or> is_undef_instr (instr_at impl b_instr) then Some False
     else if instr_index impl a_instr < instr_index impl b_instr then nir_def_is_live_at impl st a (fst b_instr) (snd b_instr)
     else nir_def_is_live_at impl st b (fst a_instr) (snd a_instr)
   }"

section \<open>Liveness by paths\<close>

text \<open>
  A value is live at a point of a block if a path leads from there to a use, without passing a
  definition of it.  Points are positions between the instructions after the phis; the sources of
  a phi are used at the end of the predecessor, its definition is made on the edge.  Undefined
  values are never live.
\<close>

definition num_phis :: "live_block \<Rightarrow> nat" where
  "num_phis b = length (block_phis b)"

fun phi_use :: "nat \<Rightarrow> nir_instr \<Rightarrow> u32 \<Rightarrow> bool" where
  "phi_use pred (Phi_instr _ srcs) v = (\<exists>src. find (\<lambda>src. fst src = pred) srcs = Some src \<and> snd src = v)"
| "phi_use _ _ _ = False"

inductive live_at :: "nir_impl \<Rightarrow> nat \<Rightarrow> nat \<Rightarrow> u32 \<Rightarrow> bool" and live_after :: "nir_impl \<Rightarrow> nat \<Rightarrow> u32 \<Rightarrow> bool" for impl where
  live_use: "k < length (instrs (impl ! b)) \<Longrightarrow> v \<in> set (instr_srcs (instrs (impl ! b) ! k)) \<Longrightarrow> \<not> nir_src_is_undef impl v \<Longrightarrow> live_at impl b k v"
| live_pass: "k < length (instrs (impl ! b)) \<Longrightarrow> v \<notin> set (instr_defs (instrs (impl ! b) ! k)) \<Longrightarrow> live_at impl b (Suc k) v \<Longrightarrow> live_at impl b k v"
| live_if: "following_if (impl ! b) = Some v \<Longrightarrow> \<not> nir_src_is_undef impl v \<Longrightarrow> live_at impl b (length (instrs (impl ! b))) v"
| live_end: "live_after impl b v \<Longrightarrow> live_at impl b (length (instrs (impl ! b))) v"
| live_phi: "s < length impl \<Longrightarrow> b \<in> set (preds (impl ! s)) \<Longrightarrow> i \<in> set (block_phis (impl ! s)) \<Longrightarrow> phi_use b i v \<Longrightarrow>
    \<not> nir_src_is_undef impl v \<Longrightarrow> live_after impl b v"
| live_edge: "s < length impl \<Longrightarrow> b \<in> set (preds (impl ! s)) \<Longrightarrow> live_at impl s (num_phis (impl ! s)) v \<Longrightarrow>
    (\<forall>i \<in> set (block_phis (impl ! s)). v \<notin> set (instr_defs i)) \<Longrightarrow> live_after impl b v"

text \<open>
  What the analysis relies on: predecessors are blocks of the function, phis stand at the start of
  their block, and there are at most \<open>2 ^ 31\<close> blocks, so that the 32-bit positions of the worklist
  do not wrap.
\<close>

definition wf_impl :: "nir_impl \<Rightarrow> bool" where
  "wf_impl impl \<longleftrightarrow> length impl \<le> 2147483648 \<and> (\<forall>b < length impl. list_all (\<lambda>p. p < length impl) (preds (impl ! b)) \<and>
     list_all (\<lambda>i. \<not> is_phi i) (dropWhile is_phi (instrs (impl ! b))))"

section \<open>The equations of the analysis\<close>

definition use_of :: "nir_impl \<Rightarrow> u32 \<Rightarrow> u32 set" where
  "use_of impl v = (if nir_src_is_undef impl v then {} else {v})"

definition instr_step :: "nir_impl \<Rightarrow> nir_instr \<Rightarrow> u32 set \<Rightarrow> u32 set" where
  "instr_step impl i X = (X - set (instr_defs i)) \<union> (\<Union>v \<in> set (instr_srcs i). use_of impl v)"

definition if_use :: "nir_impl \<Rightarrow> live_block \<Rightarrow> u32 set" where
  "if_use impl b = (case following_if b of None \<Rightarrow> {} | Some v \<Rightarrow> use_of impl v)"

definition point_eq :: "nir_impl \<Rightarrow> nat \<Rightarrow> nat \<Rightarrow> u32 set \<Rightarrow> u32 set" where
  "point_eq impl b k X = foldr (instr_step impl) (drop k (instrs (impl ! b))) (X \<union> if_use impl (impl ! b))"

definition edge_eq :: "nir_impl \<Rightarrow> nat \<Rightarrow> nat \<Rightarrow> u32 set \<Rightarrow> u32 set" where
  "edge_eq impl pred succ X = (X - (\<Union>i \<in> set (block_phis (impl ! succ)). set (instr_defs i))) \<union>
     {v. \<not> nir_src_is_undef impl v \<and> (\<exists>i \<in> set (block_phis (impl ! succ)). phi_use pred i v)}"

abbreviation "in_eq impl b X \<equiv> point_eq impl b (num_phis (impl ! b)) X"

lemma instr_step_mono: "X \<subseteq> Y \<Longrightarrow> instr_step impl i X \<subseteq> instr_step impl i Y"
  by (auto simp: instr_step_def)

lemma point_eq_mono: "X \<subseteq> Y \<Longrightarrow> point_eq impl b k X \<subseteq> point_eq impl b k Y"
proof -
  assume sub: "X \<subseteq> Y"
  have "foldr (instr_step impl) is (X \<union> C) \<subseteq> foldr (instr_step impl) is (Y \<union> C)" for "is" C
    by (induction "is") (use sub instr_step_mono in auto)
  then show ?thesis by (simp add: point_eq_def)
qed

lemma edge_eq_mono: "X \<subseteq> Y \<Longrightarrow> edge_eq impl p b X \<subseteq> edge_eq impl p b Y"
  by (auto simp: edge_eq_def)

lemma point_eq_end: "point_eq impl b (length (instrs (impl ! b))) X = X \<union> if_use impl (impl ! b)"
  by (simp add: point_eq_def)

lemma point_eq_step:
  "k < length (instrs (impl ! b)) \<Longrightarrow> point_eq impl b k X = instr_step impl (instrs (impl ! b) ! k) (point_eq impl b (Suc k) X)"
  by (simp add: point_eq_def Cons_nth_drop_Suc [symmetric])

lemma use_of_iff: "v \<in> use_of impl w \<longleftrightarrow> v = w \<and> \<not> nir_src_is_undef impl v"
  by (auto simp: use_of_def)

text \<open>Any solution of the equations, as inequalities, contains the live values.\<close>

lemma live_in_solution:
  assumes "\<And>s p. s < length impl \<Longrightarrow> p \<in> set (preds (impl ! s)) \<Longrightarrow> edge_eq impl p s (in_eq impl s (live s)) \<subseteq> live p"
  shows "live_at impl b k v \<Longrightarrow> v \<in> point_eq impl b k (live b)" and "live_after impl b v \<Longrightarrow> v \<in> live b"
proof (induction rule: live_at_live_after.inducts)
  case (live_use k b v)
  then show ?case by (auto simp: point_eq_step instr_step_def use_of_iff)
next
  case (live_pass k b v)
  then show ?case by (simp add: point_eq_step instr_step_def)
next
  case (live_if b v)
  then show ?case by (simp add: point_eq_end if_use_def use_of_iff)
next
  case (live_end b v)
  then show ?case by (simp add: point_eq_end)
next
  case (live_phi s b i v)
  then have "v \<in> edge_eq impl b s (in_eq impl s (live s))" by (auto simp: edge_eq_def)
  then show ?case using assms live_phi by blast
next
  case (live_edge s b v)
  then have "v \<in> edge_eq impl b s (in_eq impl s (live s))" by (auto simp: edge_eq_def)
  then show ?case using assms live_edge by blast
qed

text \<open>The live values solve the equations.\<close>

lemma live_at_point_eq:
  "k \<le> length (instrs (impl ! b)) \<Longrightarrow> X \<subseteq> Collect (live_after impl b) \<Longrightarrow> v \<in> point_eq impl b k X \<Longrightarrow> live_at impl b k v"
proof (induction "length (instrs (impl ! b)) - k" arbitrary: k v)
  case 0
  then have "k = length (instrs (impl ! b))" by simp
  then show ?case using 0 by (auto simp: point_eq_end if_use_def use_of_iff intro: live_end live_if split: option.splits)
next
  case (Suc n)
  then have k: "k < length (instrs (impl ! b))" by simp
  then consider "v \<in> point_eq impl b (Suc k) X" "v \<notin> set (instr_defs (instrs (impl ! b) ! k))"
    | "v \<in> set (instr_srcs (instrs (impl ! b) ! k))" "\<not> nir_src_is_undef impl v"
    using Suc.prems(3) unfolding point_eq_step [OF k] instr_step_def by (auto simp: use_of_iff)
  then show ?case
  proof cases
    case 1
    then have "live_at impl b (Suc k) v" using Suc k by (intro Suc(1)) auto
    then show ?thesis by (rule live_pass [OF k 1(2)])
  next
    case 2
    then show ?thesis by (rule live_use [OF k])
  qed
qed

lemma num_phis_le: "num_phis b \<le> length (instrs b)"
  by (simp add: num_phis_def block_phis_def length_takeWhile_le)

lemma live_after_edge_eq:
  assumes "s < length impl" and "p \<in> set (preds (impl ! s))" and "X \<subseteq> Collect (live_at impl s (num_phis (impl ! s)))"
  shows "edge_eq impl p s X \<subseteq> Collect (live_after impl p)"
  using assms by (auto simp: edge_eq_def intro: live_phi live_edge)

section \<open>The operations on sets\<close>

lemma foreach_members:
  assumes "\<And>x s. x \<in> set xs \<Longrightarrow> sb_inv s \<Longrightarrow> \<exists>s'. f x s = Some s' \<and> sb_inv s' \<and> sb_members s' = g x (sb_members s)"
  shows "sb_inv s \<Longrightarrow> \<exists>s'. foreach_do f xs s = Some s' \<and> sb_inv s' \<and> sb_members s' = fold g xs (sb_members s)"
  using assms
proof (induction xs arbitrary: s)
  case (Cons x xs)
  obtain s1 where s1: "f x s = Some s1" "sb_inv s1" "sb_members s1 = g x (sb_members s)" using Cons.prems by fastforce
  have "\<exists>s'. foreach_do f xs s1 = Some s' \<and> sb_inv s' \<and> sb_members s' = fold g xs (sb_members s1)"
    by (rule Cons.IH [OF s1(2)]) (use Cons.prems(2) in auto)
  then show ?case using s1 by simp
qed simp

lemma fold_diff: "fold (\<lambda>x X. X - A x) xs X = X - (\<Union>x \<in> set xs. A x)"
  by (induction xs arbitrary: X) auto

lemma fold_union: "fold (\<lambda>x X. X \<union> A x) xs X = X \<union> (\<Union>x \<in> set xs. A x)"
  by (induction xs arbitrary: X) auto

lemma set_src_live_ok: "sb_inv s \<Longrightarrow> \<exists>s'. set_src_live impl v s = Some s' \<and> sb_inv s' \<and> sb_members s' = sb_members s \<union> use_of impl v"
  using sb.insert_law [of s v] by (auto simp: set_src_live_def use_of_def)

lemma instr_live_ok:
  assumes "sb_inv s"
  shows "\<exists>s'. instr_live impl i s = Some s' \<and> sb_inv s' \<and> sb_members s' = instr_step impl i (sb_members s)"
proof -
  have dead: "\<exists>s'. set_ssa_def_dead d s = Some s' \<and> sb_inv s' \<and> sb_members s' = sb_members s - {d}" if "sb_inv s" for d s
    using sb.clear_law [OF that] by (simp add: set_ssa_def_dead_def)
  obtain s1 where s1: "foreach_do set_ssa_def_dead (instr_defs i) s = Some s1" "sb_inv s1" "sb_members s1 = sb_members s - set (instr_defs i)"
    using foreach_members [of "instr_defs i" set_ssa_def_dead "\<lambda>d X. X - {d}" s] dead assms by (auto simp: fold_diff)
  obtain s2 where s2: "foreach_do (set_src_live impl) (instr_srcs i) s1 = Some s2" "sb_inv s2"
      "sb_members s2 = sb_members s1 \<union> (\<Union>v \<in> set (instr_srcs i). use_of impl v)"
    using foreach_members [of "instr_srcs i" "set_src_live impl" "\<lambda>v X. X \<union> use_of impl v" s1] set_src_live_ok s1(2) by (auto simp: fold_union)
  show ?thesis using s1 s2 by (simp add: instr_live_def instr_step_def)
qed

lemma phi_dead_ok: "sb_inv s \<Longrightarrow> is_phi i \<Longrightarrow> \<exists>s'. phi_dead i s = Some s' \<and> sb_inv s' \<and> sb_members s' = sb_members s - set (instr_defs i)"
  using sb.clear_law [of s] by (cases i) (auto simp: set_ssa_def_dead_def)

lemma phi_src_live_ok:
  "sb_inv s \<Longrightarrow> \<exists>s'. phi_src_live impl p i s = Some s' \<and> sb_inv s' \<and> sb_members s' = sb_members s \<union> {v. \<not> nir_src_is_undef impl v \<and> phi_use p i v}"
proof (cases i)
  case (Phi_instr d srcs)
  assume s: "sb_inv s"
  show ?thesis
  proof (cases "find (\<lambda>src. fst src = p) srcs")
    case (Some src)
    then have "{v. \<not> nir_src_is_undef impl v \<and> phi_use p i v} = use_of impl (snd src)" by (auto simp: Phi_instr use_of_def)
    then show ?thesis using set_src_live_ok [OF s, of impl "snd src"] by (simp add: Phi_instr Some)
  qed (use s in \<open>simp add: Phi_instr\<close>)
qed auto

section \<open>The steps of the analysis\<close>

abbreviation "ins st b \<equiv> sb_members (live_in st ! b)"
abbreviation "outs st b \<equiv> sb_members (live_out st ! b)"
abbreviation "todo st \<equiv> wl_elems (worklist st)"

definition st_ok :: "nir_impl \<Rightarrow> live_defs_state \<Rightarrow> bool" where
  "st_ok impl st \<longleftrightarrow> length (live_in st) = length impl \<and> length (live_out st) = length impl \<and>
     (\<forall>b < length impl. sb_inv (live_in st ! b) \<and> sb_inv (live_out st ! b)) \<and> wl_inv (worklist st) \<and> wl_size (worklist st) = length impl"

lemma st_okD:
  assumes "st_ok impl st"
  shows "length (live_in st) = length impl" and "length (live_out st) = length impl" and "b < length impl \<Longrightarrow> sb_inv (live_in st ! b)"
    and "b < length impl \<Longrightarrow> sb_inv (live_out st ! b)" and "wl_inv (worklist st)" and "wl_size (worklist st) = length impl"
  using assms by (auto simp: st_ok_def)

lemma body_reversed:
  assumes "wf_impl impl" and "b < length impl"
  shows "takeWhile (\<lambda>i. \<not> is_phi i) (rev (instrs (impl ! b))) = rev (drop (num_phis (impl ! b)) (instrs (impl ! b)))"
proof -
  define xs where "xs = instrs (impl ! b)"
  have body: "list_all (\<lambda>i. \<not> is_phi i) (dropWhile is_phi xs)" using assms by (simp add: wf_impl_def xs_def)
  have split: "rev xs = rev (dropWhile is_phi xs) @ rev (takeWhile is_phi xs)" by (simp flip: rev_append)
  have stop: "takeWhile (\<lambda>i. \<not> is_phi i) (rev (takeWhile is_phi xs)) = []"
  proof (cases "takeWhile is_phi xs" rule: rev_cases)
    case (snoc ys y)
    then have "is_phi y" using set_takeWhileD [of y is_phi xs] by simp
    then show ?thesis by (simp add: snoc)
  qed simp
  have "takeWhile (\<lambda>i. \<not> is_phi i) (rev (dropWhile is_phi xs) @ rev (takeWhile is_phi xs)) =
      rev (dropWhile is_phi xs) @ takeWhile (\<lambda>i. \<not> is_phi i) (rev (takeWhile is_phi xs))"
    using body by (intro takeWhile_append2) (simp add: list_all_iff)
  then have "takeWhile (\<lambda>i. \<not> is_phi i) (rev xs) = rev (dropWhile is_phi xs)" by (simp only: split stop append_Nil2)
  then show ?thesis by (simp add: xs_def num_phis_def block_phis_def dropWhile_eq_drop)
qed

lemma update_live_in_ok:
  assumes "wf_impl impl" and st: "st_ok impl st" and b: "b < length impl"
  shows "\<exists>live. update_live_in impl b st = Some (st\<lparr>live_in := (live_in st)[b := live]\<rparr>) \<and> sb_inv live \<and> sb_members live = in_eq impl b (outs st b)"
proof -
  obtain l1 where l1: "u_sparse_bitset_dup (live_out st ! b) = Some l1" "sb_inv l1" "sb_members l1 = outs st b"
    using sb.dup_law [OF st_okD(4) [OF st b]] by blast
  obtain l2 where l2: "(case following_if (impl ! b) of None \<Rightarrow> Some l1 | Some condition \<Rightarrow> set_src_live impl condition l1) = Some l2"
      "sb_inv l2" "sb_members l2 = outs st b \<union> if_use impl (impl ! b)"
  proof (cases "following_if (impl ! b)")
    case None
    then show ?thesis using l1 that by (simp add: if_use_def)
  next
    case (Some v)
    then show ?thesis using set_src_live_ok [OF l1(2), of impl v] l1(3) that by (auto simp: if_use_def)
  qed
  define body where "body = takeWhile (\<lambda>i. \<not> is_phi i) (rev (instrs (impl ! b)))"
  obtain l3 where l3: "foreach_do (instr_live impl) body l2 = Some l3" "sb_inv l3" "sb_members l3 = fold (instr_step impl) body (sb_members l2)"
    using foreach_members [of body "instr_live impl" "instr_step impl" l2] instr_live_ok l2(2) by blast
  have "fold (instr_step impl) body X = foldr (instr_step impl) (drop (num_phis (impl ! b)) (instrs (impl ! b))) X" for X
    by (simp add: body_def body_reversed [OF assms(1) b] foldr_conv_fold)
  then show ?thesis using l1(1) l2 l3 by (intro exI [of _ l3]) (simp add: update_live_in_def body_def [symmetric] point_eq_def)
qed

lemma propagate_across_edge_ok:
  assumes st: "st_ok impl st" and p: "p < length impl" and b: "b < length impl"
  shows "\<exists>merged. propagate_across_edge impl p b st = Some (\<not> edge_eq impl p b (ins st b) \<subseteq> outs st p, st\<lparr>live_out := (live_out st)[p := merged]\<rparr>) \<and>
    sb_inv merged \<and> sb_members merged = outs st p \<union> edge_eq impl p b (ins st b)"
proof -
  define phis where "phis = block_phis (impl ! b)"
  have phi: "is_phi i" if "i \<in> set phis" for i using that by (auto simp: phis_def block_phis_def dest: set_takeWhileD)
  obtain l1 where l1: "u_sparse_bitset_dup (live_in st ! b) = Some l1" "sb_inv l1" "sb_members l1 = ins st b"
    using sb.dup_law [OF st_okD(3) [OF st b]] by blast
  obtain l2 where l2: "foreach_do phi_dead phis l1 = Some l2" "sb_inv l2" "sb_members l2 = ins st b - (\<Union>i \<in> set phis. set (instr_defs i))"
    using foreach_members [of phis phi_dead "\<lambda>i X. X - set (instr_defs i)" l1] phi_dead_ok phi l1(2,3) by (auto simp: fold_diff)
  obtain l3 where l3: "foreach_do (phi_src_live impl p) phis l2 = Some l3" "sb_inv l3"
      "sb_members l3 = sb_members l2 \<union> (\<Union>i \<in> set phis. {v. \<not> nir_src_is_undef impl v \<and> phi_use p i v})"
    using foreach_members [of phis "phi_src_live impl p" "\<lambda>i X. X \<union> {v. \<not> nir_src_is_undef impl v \<and> phi_use p i v}" l2]
      phi_src_live_ok l2(2) by (auto simp: fold_union)
  have e: "sb_members l3 = edge_eq impl p b (ins st b)" unfolding l3(3) l2(3) edge_eq_def phis_def by blast
  obtain m where m: "u_sparse_bitset_merge (live_out st ! p) l3 = Some (\<not> sb_members l3 \<subseteq> outs st p, m)" "sb_inv m" "sb_members m = outs st p \<union> sb_members l3"
    using sb.merge_law [OF st_okD(4) [OF st p] l3(2)] by blast
  show ?thesis using l1(1) l2(1) l3(1) m by (intro exI [of _ m]) (simp add: propagate_across_edge_def phis_def [symmetric] e)
qed

text \<open>What visiting the predecessors \<open>ps\<close> of \<open>b\<close> does.\<close>

definition visited :: "nir_impl \<Rightarrow> nat \<Rightarrow> nat list \<Rightarrow> live_defs_state \<Rightarrow> live_defs_state \<Rightarrow> bool" where
  "visited impl b ps st st' \<longleftrightarrow> st_ok impl st' \<and> live_in st' = live_in st \<and>
     (\<forall>c. outs st' c = outs st c \<union> (if c \<in> set ps then edge_eq impl c b (ins st b) else {})) \<and>
     set (todo st) \<subseteq> set (todo st') \<and> (\<forall>c. outs st' c \<noteq> outs st c \<longrightarrow> c \<in> set (todo st')) \<and>
     ((\<forall>c. outs st' c = outs st c) \<longrightarrow> todo st' = todo st)"

lemma propagate_to_pred_ok:
  assumes st: "st_ok impl st" and p: "p < length impl" and b: "b < length impl"
  shows "\<exists>st'. propagate_to_pred impl b p st = Some st' \<and> visited impl b [p] st st'"
proof -
  define E where "E = edge_eq impl p b (ins st b)"
  obtain m where m: "propagate_across_edge impl p b st = Some (\<not> E \<subseteq> outs st p, st\<lparr>live_out := (live_out st)[p := m]\<rparr>)" "sb_inv m" "sb_members m = outs st p \<union> E"
    using propagate_across_edge_ok [OF st p b] by (auto simp: E_def)
  define st1 where "st1 = st\<lparr>live_out := (live_out st)[p := m]\<rparr>"
  have ok1: "st_ok impl st1" using st p m(2) by (auto simp: st_ok_def st1_def nth_list_update)
  have o1: "outs st1 c = outs st c \<union> (if c \<in> set [p] then edge_eq impl c b (ins st b) else {})" for c
    using p st_okD(2) [OF st] m(3) by (simp add: st1_def nth_list_update E_def)
  show ?thesis
  proof (cases "E \<subseteq> outs st p")
    case True
    then have "outs st1 c = outs st c" for c using o1 [of c] by (auto simp: E_def)
    then have "visited impl b [p] st st1" using ok1 o1 unfolding visited_def by (simp add: st1_def)
    then show ?thesis using m(1) True by (auto simp: propagate_to_pred_def st1_def)
  next
    case False
    obtain w where w: "u_worklist_push_tail_index (worklist st) p = Some w" "wl_inv w" "wl_size w = length impl"
        "wl_elems w = (if p \<in> set (todo st) then todo st else todo st @ [p])"
      using wl.push_tail_law [OF st_okD(5) [OF st], of p] st_okD(6) [OF st] p by auto
    define st2 where "st2 = st1\<lparr>worklist := w\<rparr>"
    have sel: "live_out st2 = live_out st1" "live_in st2 = live_in st" "worklist st2 = w" by (simp_all add: st2_def st1_def)
    have changed: "outs st2 p \<noteq> outs st p" using o1 [of p] False unfolding sel by (auto simp: E_def)
    have "st_ok impl st2" using ok1 w by (simp add: st_ok_def st2_def)
    moreover have "set (todo st) \<subseteq> set (wl_elems w)" "p \<in> set (wl_elems w)" using w(4) by auto
    ultimately have "visited impl b [p] st st2" using o1 changed unfolding visited_def sel by auto
    moreover have "propagate_to_pred impl b p st = Some st2" using m(1) False w(1) by (simp add: propagate_to_pred_def st1_def st2_def)
    ultimately show ?thesis by blast
  qed
qed

lemma visited_trans:
  assumes 1: "visited impl b [p] st st1" and 2: "visited impl b ps st1 st2"
  shows "visited impl b (p # ps) st st2"
proof -
  note d1 = 1 [unfolded visited_def] and d2 = 2 [unfolded visited_def]
  have i: "live_in st1 = live_in st" "live_in st2 = live_in st" using d1 d2 by simp_all
  have o: "outs st2 c = outs st c \<union> (if c \<in> set (p # ps) then edge_eq impl c b (ins st b) else {})" for c
    using d1 d2 by (auto simp: i)
  have t: "set (todo st) \<subseteq> set (todo st2)" using d1 d2 by blast
  have c: "c \<in> set (todo st2)" if "outs st2 c \<noteq> outs st c" for c using d1 d2 that by blast
  have e: "todo st2 = todo st" if h: "\<forall>c. outs st2 c = outs st c"
  proof -
    have "outs st1 c = outs st c" "outs st2 c = outs st1 c" for c
    proof -
      have "outs st c \<subseteq> outs st1 c" "outs st1 c \<subseteq> outs st2 c" using d1 d2 by auto
      then show "outs st1 c = outs st c" "outs st2 c = outs st1 c" using h by blast+
    qed
    then show ?thesis using d1 d2 by simp
  qed
  show ?thesis unfolding visited_def using d2 i o t c e by blast
qed

lemma foreach_pred_ok:
  "st_ok impl st \<Longrightarrow> list_all (\<lambda>p. p < length impl) ps \<Longrightarrow> b < length impl \<Longrightarrow>
   \<exists>st'. foreach_do (propagate_to_pred impl b) ps st = Some st' \<and> visited impl b ps st st'"
proof (induction ps arbitrary: st)
  case Nil
  then show ?case by (simp add: visited_def)
next
  case (Cons p ps)
  obtain st1 where st1: "propagate_to_pred impl b p st = Some st1" "visited impl b [p] st st1" using propagate_to_pred_ok [of impl st p b] Cons.prems by auto
  then have "st_ok impl st1" by (simp add: visited_def)
  then obtain st2 where "foreach_do (propagate_to_pred impl b) ps st1 = Some st2" "visited impl b ps st1 st2" using Cons by auto
  then show ?case using st1 visited_trans by fastforce
qed

section \<open>The loop\<close>

definition consistent :: "nir_impl \<Rightarrow> live_defs_state \<Rightarrow> nat \<Rightarrow> bool" where
  "consistent impl st c \<longleftrightarrow> ins st c = in_eq impl c (outs st c) \<and> (\<forall>p \<in> set (preds (impl ! c)). edge_eq impl p c (ins st c) \<subseteq> outs st p)"

definition live_inv :: "nir_impl \<Rightarrow> live_defs_state \<Rightarrow> bool" where
  "live_inv impl st \<longleftrightarrow> st_ok impl st \<and> (\<forall>b < length impl. outs st b \<subseteq> Collect (live_after impl b)) \<and>
     (\<forall>c < length impl. c \<notin> set (todo st) \<longrightarrow> consistent impl st c)"

definition missing :: "nir_impl \<Rightarrow> live_defs_state \<Rightarrow> nat" where
  "missing impl st = (\<Sum>b < length impl. card (- outs st b))"

lemma live_step:
  assumes wf: "wf_impl impl" and inv: "live_inv impl st" and todo: "todo st = b # rest"
  shows "\<exists>w st1 st2. u_worklist_pop_head_index (worklist st) = Some (b, w) \<and> update_live_in impl b (st\<lparr>worklist := w\<rparr>) = Some st1 \<and>
    foreach_do (propagate_to_pred impl b) (preds (impl ! b)) st1 = Some st2 \<and> live_inv impl st2 \<and>
    ((missing impl st2, length (todo st2)), (missing impl st, length (todo st))) \<in> less_than <*lex*> less_than"
proof -
  have ok: "st_ok impl st" and sound: "\<And>c. c < length impl \<Longrightarrow> outs st c \<subseteq> Collect (live_after impl c)"
    and cons: "\<And>c. c < length impl \<Longrightarrow> c \<notin> set (todo st) \<Longrightarrow> consistent impl st c" using inv by (auto simp: live_inv_def)
  obtain w where w: "u_worklist_pop_head_index (worklist st) = Some (b, w)" "wl_inv w" "wl_size w = length impl" "wl_elems w = rest"
    using wl.pop_head_law [OF st_okD(5) [OF ok] todo] st_okD(6) [OF ok] by auto
  have b: "b < length impl" using wl.elems_bound [OF st_okD(5) [OF ok], of b] st_okD(6) [OF ok] todo by simp
  define st0 where "st0 = st\<lparr>worklist := w\<rparr>"
  have ok0: "st_ok impl st0" using ok w by (simp add: st_ok_def st0_def)
  obtain live where live: "update_live_in impl b st0 = Some (st0\<lparr>live_in := (live_in st0)[b := live]\<rparr>)" "sb_inv live" "sb_members live = in_eq impl b (outs st b)"
    using update_live_in_ok [OF wf ok0 b] by (auto simp: st0_def)
  define st1 where "st1 = st0\<lparr>live_in := (live_in st0)[b := live]\<rparr>"
  have ok1: "st_ok impl st1" using ok0 live(2) b by (auto simp: st_ok_def st1_def nth_list_update)
  have i1: "ins st1 c = (if c = b then in_eq impl b (outs st b) else ins st c)" for c
    using b st_okD(1) [OF ok] live(3) by (simp add: st1_def st0_def nth_list_update)
  have sel1: "live_out st1 = live_out st" "worklist st1 = w" by (simp_all add: st1_def st0_def)
  have "list_all (\<lambda>p. p < length impl) (preds (impl ! b))" using wf b by (simp add: wf_impl_def)
  then obtain st2 where st2: "foreach_do (propagate_to_pred impl b) (preds (impl ! b)) st1 = Some st2" "visited impl b (preds (impl ! b)) st1 st2"
    using foreach_pred_ok [OF ok1 _ b] by blast
  note v = st2(2) [unfolded visited_def]
  have i2: "live_in st2 = live_in st1" using v by simp
  have o2: "outs st2 c = outs st c \<union> (if c \<in> set (preds (impl ! b)) then edge_eq impl c b (in_eq impl b (outs st b)) else {})" for c
    using v by (simp add: sel1 i1)
  have grows: "outs st c \<subseteq> outs st2 c" for c using o2 [of c] by auto
  have pushed: "c \<in> set (todo st2)" if "outs st2 c \<noteq> outs st c" for c using v that by (simp add: sel1)
  have "in_eq impl b (outs st b) \<subseteq> Collect (live_at impl b (num_phis (impl ! b)))"
    using live_at_point_eq [OF num_phis_le sound [OF b]] by blast
  then have "outs st2 c \<subseteq> Collect (live_after impl c)" if "c < length impl" for c
    using sound [OF that] live_after_edge_eq [OF b, of c] by (auto simp: o2)
  moreover have "consistent impl st2 c" if c: "c < length impl" "c \<notin> set (todo st2)" for c
  proof (cases "c = b")
    case True
    have "outs st2 b = outs st b" using pushed c(2) True by blast
    then show ?thesis using o2 by (auto simp: True consistent_def i2 i1)
  next
    case False
    have "c \<notin> set (todo st)" using c(2) False v by (auto simp: sel1 w(4) todo)
    then have "consistent impl st c" using cons c(1) by blast
    moreover have "outs st2 c = outs st c" using pushed c(2) by blast
    moreover have "ins st2 c = ins st c" using False by (simp add: i2 i1)
    ultimately show ?thesis using grows unfolding consistent_def by (metis subset_trans)
  qed
  ultimately have "live_inv impl st2" using v by (simp add: live_inv_def)
  moreover have "((missing impl st2, length (todo st2)), (missing impl st, length (todo st))) \<in> less_than <*lex*> less_than"
  proof (cases "\<forall>c. outs st2 c = outs st c")
    case True
    then have "todo st2 = rest" using v by (simp add: sel1 w(4))
    then show ?thesis using True by (simp add: missing_def todo)
  next
    case False
    then obtain c where c: "outs st2 c \<noteq> outs st c" by blast
    then have "c < length impl" using pushed [OF c] wl.elems_bound [of "worklist st2" c] v by (simp add: st_ok_def)
    moreover have "card (- outs st2 c) < card (- outs st c)" using c grows [of c] by (intro psubset_card_mono) auto
    moreover have "card (- outs st2 d) \<le> card (- outs st d)" for d using grows [of d] by (intro card_mono) auto
    ultimately have "missing impl st2 < missing impl st" unfolding missing_def by (intro sum_strict_mono_ex1) auto
    then show ?thesis by simp
  qed
  ultimately show ?thesis using w(1) live(1) st2(1) by (auto simp: st0_def st1_def)
qed

lemma live_defs_loop_ok:
  assumes wf: "wf_impl impl"
  shows "live_inv impl st \<Longrightarrow> \<exists>st'. live_defs_loop impl st = Some st' \<and> live_inv impl st' \<and> todo st' = []"
proof (induction "(missing impl st, length (todo st))" arbitrary: st rule: wf_induct_rule [OF wf_lex_prod [OF wf_less_than wf_less_than]])
  case (1 st)
  have winv: "wl_inv (worklist st)" using 1(2) by (simp add: live_inv_def st_ok_def)
  show ?case
  proof (cases "todo st")
    case Nil
    then show ?thesis using wl.empty_iff [OF winv] 1(2) by (simp add: live_defs_loop.simps)
  next
    case (Cons b rest)
    obtain w st1 st2 where s: "u_worklist_pop_head_index (worklist st) = Some (b, w)" "update_live_in impl b (st\<lparr>worklist := w\<rparr>) = Some st1"
      "foreach_do (propagate_to_pred impl b) (preds (impl ! b)) st1 = Some st2" "live_inv impl st2"
      "((missing impl st2, length (todo st2)), (missing impl st, length (todo st))) \<in> less_than <*lex*> less_than"
      using live_step [OF wf 1(2) Cons] by blast
    have "\<not> u_worklist_is_empty (worklist st)" using wl.empty_iff [OF winv] Cons by simp
    then have "live_defs_loop impl st = live_defs_loop impl st2" using s(1-3) by (simp add: live_defs_loop.simps [of impl st])
    then show ?thesis using 1(1) [OF s(5) s(4)] by simp
  qed
qed

section \<open>The whole analysis\<close>

lemma init_liveness_block_ok:
  assumes "st_ok impl st" and "b < length impl" and "b \<notin> set (todo st)" and "\<And>c. c < length impl \<Longrightarrow> outs st c = {}"
  shows "\<exists>st'. init_liveness_block n b st = Some st' \<and> st_ok impl st' \<and> todo st' = b # todo st \<and> (\<forall>c < length impl. outs st' c = {})"
proof -
  obtain w where w: "u_worklist_push_head_index (worklist st) b = Some w" "wl_inv w" "wl_size w = length impl" "wl_elems w = b # todo st"
    using wl.push_head_law [OF st_okD(5) [OF assms(1)], of b] st_okD(6) [OF assms(1)] assms(2,3) by auto
  define st' where "st' = st\<lparr>live_in := (live_in st)[b := u_sparse_bitset_init n], live_out := (live_out st)[b := u_sparse_bitset_init n], worklist := w\<rparr>"
  have "st_ok impl st'" using assms(1,2) w sb_init by (auto simp: st_ok_def st'_def nth_list_update)
  moreover have "outs st' c = {}" if "c < length impl" for c using assms(4) [OF that] assms(2) that st_okD(2) [OF assms(1)] sb_init(2) by (auto simp: st'_def nth_list_update)
  moreover have "init_liveness_block n b st = Some st'" using w(1) by (simp add: init_liveness_block_def st'_def Let_def)
  ultimately show ?thesis using w(4) by (auto simp: st'_def)
qed

lemma init_blocks_ok:
  "st_ok impl st \<Longrightarrow> list_all (\<lambda>b. b < length impl) bs \<Longrightarrow> distinct bs \<Longrightarrow> set bs \<inter> set (todo st) = {} \<Longrightarrow> (\<And>c. c < length impl \<Longrightarrow> outs st c = {}) \<Longrightarrow>
   \<exists>st'. foreach_do (init_liveness_block n) bs st = Some st' \<and> st_ok impl st' \<and> todo st' = rev bs @ todo st \<and> (\<forall>c < length impl. outs st' c = {})"
proof (induction bs arbitrary: st)
  case (Cons b bs)
  obtain st1 where st1: "init_liveness_block n b st = Some st1" "st_ok impl st1" "todo st1 = b # todo st" "\<forall>c < length impl. outs st1 c = {}"
    using init_liveness_block_ok [OF Cons.prems(1), of b n] Cons.prems by auto
  then show ?case using Cons.IH [OF st1(2)] Cons.prems by auto
qed simp

definition lives :: "nir_impl \<Rightarrow> live_defs_state \<Rightarrow> bool" where
  "lives impl st \<longleftrightarrow> st_ok impl st \<and> (\<forall>b < length impl. ins st b = Collect (live_at impl b (num_phis (impl ! b))) \<and> outs st b = Collect (live_after impl b))"

lemma finished_lives:
  assumes wf: "wf_impl impl" and inv: "live_inv impl st" and "todo st = []"
  shows "lives impl st"
proof -
  have cons: "consistent impl st c" if "c < length impl" for c using inv assms(3) that by (simp add: live_inv_def)
  have eqs: "edge_eq impl p s (in_eq impl s (outs st s)) \<subseteq> outs st p" if "s < length impl" "p \<in> set (preds (impl ! s))" for s p
    using cons [OF that(1)] that(2) unfolding consistent_def by metis
  note least = live_in_solution [of impl "outs st", OF eqs]
  have "outs st b = Collect (live_after impl b) \<and> ins st b = Collect (live_at impl b (num_phis (impl ! b)))" if b: "b < length impl" for b
  proof -
    have o: "outs st b = Collect (live_after impl b)" using inv b least(2) [of b] by (auto simp: live_inv_def)
    have "in_eq impl b (outs st b) = Collect (live_at impl b (num_phis (impl ! b)))"
      using live_at_point_eq [where X = "outs st b" and impl = impl and b = b, OF num_phis_le] least(1) [of b] by (auto simp: o)
    then show ?thesis using o cons [OF b] by (simp add: consistent_def)
  qed
  then show ?thesis using inv by (simp add: lives_def live_inv_def)
qed

lemma nir_live_defs_impl_ok:
  assumes wf: "wf_impl impl"
  shows "\<exists>st. nir_live_defs_impl ssa_alloc impl = Some st \<and> lives impl st"
proof -
  define fresh where "fresh = replicate (length impl) (u_sparse_bitset_init 0)"
  define st0 where "st0 = \<lparr>live_in = fresh, live_out = fresh, worklist = u_worklist_init (length impl)\<rparr>"
  have "st_ok impl st0" "todo st0 = []" "\<And>c. c < length impl \<Longrightarrow> outs st0 c = {}"
    using sb_init wl_init_inv wf by (auto simp: st_ok_def st0_def fresh_def wf_impl_def)
  then obtain st1 where st1: "foreach_do (init_liveness_block ssa_alloc) [0..<length impl] st0 = Some st1" "st_ok impl st1"
      "todo st1 = rev [0..<length impl]" "\<forall>c < length impl. outs st1 c = {}"
    using init_blocks_ok [of impl st0 "[0..<length impl]" ssa_alloc] by (auto simp: list_all_iff)
  then have "live_inv impl st1" by (simp add: live_inv_def)
  then obtain st where st: "live_defs_loop impl st1 = Some st" "live_inv impl st" "todo st = []" using live_defs_loop_ok [OF wf] by blast
  then show ?thesis using st1(1) finished_lives [OF wf st(2,3)] by (simp add: nir_live_defs_impl_def fresh_def [symmetric] st0_def [symmetric] Let_def)
qed

lemma livesD:
  assumes "lives impl st" and "b < length impl"
  shows "sb_inv (live_in st ! b)" and "sb_inv (live_out st ! b)" and "v \<in> ins st b \<longleftrightarrow> live_at impl b (num_phis (impl ! b)) v"
    and "outs st b = Collect (live_after impl b)"
  using assms by (auto simp: lives_def st_ok_def)

lemma live_at_equation:
  assumes "k \<le> length (instrs (impl ! b))"
  shows "Collect (live_at impl b k) = point_eq impl b k (Collect (live_after impl b))"
proof -
  have sol: "edge_eq impl p s (in_eq impl s (Collect (live_after impl s))) \<subseteq> Collect (live_after impl p)" if "s < length impl" "p \<in> set (preds (impl ! s))" for s p
    using that live_at_point_eq [OF num_phis_le order_refl] by (intro live_after_edge_eq) auto
  show ?thesis using live_at_point_eq [OF assms order_refl] live_in_solution(1) [of impl "\<lambda>b. Collect (live_after impl b)", OF sol] by auto
qed

section \<open>Queries\<close>

lemma foldr_step_union: "foldr (instr_step impl) is (X \<union> C) = foldr (instr_step impl) is X \<union> (C - (\<Union>i \<in> set is. set (instr_defs i)))"
  by (induction "is") (auto simp: instr_step_def)

lemma live_back_to_ok:
  assumes "\<And>j. q \<le> j \<Longrightarrow> j < length is \<Longrightarrow> \<not> is_phi (is ! j)" and "q \<le> n" and "n \<le> length is"
    and c: "(\<exists>b. cursor = After_instr b (q - 1) \<and> 0 < q) \<or> (\<exists>b. cursor = Before_instr b q \<and> q < n)"
  shows "sb_inv s \<Longrightarrow> \<exists>s'. live_back_to impl cursor (rev (enumerate 0 (take n is))) s = Some s' \<and> sb_inv s' \<and>
    sb_members s' = foldr (instr_step impl) (drop q (take n is)) (sb_members s)"
  using assms(2-)
proof (induction n arbitrary: s)
  case 0
  then show ?case by auto
next
  case (Suc n)
  have n: "n < length is" using Suc.prems(3) by simp
  have rev: "rev (enumerate 0 (take (Suc n) is)) = (n, is ! n) # rev (enumerate 0 (take n is))"
    using n by (simp add: take_Suc_conv_app_nth enumerate_append_eq)
  show ?case
  proof (cases "q = Suc n")
    case True
    then show ?thesis using Suc.prems n unfolding rev by (auto simp: take_Suc_conv_app_nth)
  next
    case False
    then have q: "q \<le> n" using Suc.prems(2) by simp
    have na: "\<not> cursor_after cursor n" using Suc.prems(4) q by (cases cursor) auto
    obtain s1 where s1: "instr_live impl (is ! n) s = Some s1" "sb_inv s1" "sb_members s1 = instr_step impl (is ! n) (sb_members s)"
      using instr_live_ok [OF Suc.prems(1)] by blast
    have dr: "drop q (take (Suc n) is) = drop q (take n is) @ [is ! n]" using q n by (simp add: take_Suc_conv_app_nth)
    have np: "\<not> is_phi (is ! n)" using assms(1) [OF q n] .
    show ?thesis
    proof (cases "cursor_before cursor n")
      case True
      then have "q = n" using Suc.prems(4) by (cases cursor) auto
      then show ?thesis using s1 True na np unfolding rev dr by simp
    next
      case False
      then have "(\<exists>b. cursor = After_instr b (q - 1) \<and> 0 < q) \<or> (\<exists>b. cursor = Before_instr b q \<and> q < n)"
        using Suc.prems(4) q by (cases cursor) auto
      then show ?thesis using Suc.IH [OF s1(2) q] n s1 False na np unfolding rev dr by simp
    qed
  qed
qed

lemma after_phis_not_phi:
  assumes "wf_impl impl" and "b < length impl" and "num_phis (impl ! b) \<le> j" and "j < length (instrs (impl ! b))"
  shows "\<not> is_phi (instrs (impl ! b) ! j)"
proof -
  define xs where "xs = instrs (impl ! b)"
  have d: "dropWhile is_phi xs = drop (num_phis (impl ! b)) xs" by (simp add: xs_def num_phis_def block_phis_def dropWhile_eq_drop)
  have "drop (num_phis (impl ! b)) xs ! (j - num_phis (impl ! b)) \<in> set (drop (num_phis (impl ! b)) xs)"
    using assms(3,4) by (intro nth_mem) (simp add: xs_def)
  then have "xs ! j \<in> set (dropWhile is_phi xs)" using assms(3,4) unfolding d by (simp add: xs_def)
  then show ?thesis using assms(1,2) by (auto simp: wf_impl_def list_all_iff xs_def)
qed

fun cursor_point :: "nir_cursor \<Rightarrow> nat" where
  "cursor_point (After_instr b k) = k + 1"
| "cursor_point (Before_instr b k) = k"
| "cursor_point _ = 0"

fun instr_cursor :: "nir_impl \<Rightarrow> nir_cursor \<Rightarrow> bool" where
  "instr_cursor impl (After_instr b k) \<longleftrightarrow> b < length impl \<and> k < length (instrs (impl ! b)) \<and> num_phis (impl ! b) \<le> k + 1"
| "instr_cursor impl (Before_instr b k) \<longleftrightarrow> b < length impl \<and> k < length (instrs (impl ! b)) \<and> num_phis (impl ! b) \<le> k \<and> 0 < k"
| "instr_cursor impl _ \<longleftrightarrow> False"

lemma nir_get_live_defs_mid:
  assumes wf: "wf_impl impl" and st: "lives impl st" and c: "instr_cursor impl cursor"
  shows "\<exists>s. nir_get_live_defs impl st cursor = Some s \<and> sb_inv s \<and> sb_members s =
    foldr (instr_step impl) (drop (cursor_point cursor) (instrs (impl ! cursor_block cursor))) (Collect (live_after impl (cursor_block cursor)))"
proof -
  define b where "b = cursor_block cursor"
  define q where "q = cursor_point cursor"
  define xs where "xs = instrs (impl ! b)"
  have b: "b < length impl" and q: "num_phis (impl ! b) \<le> q" "q \<le> length xs" using c by (cases cursor; auto simp: b_def q_def xs_def)+
  note out = livesD(2,4) [OF st b]
  obtain s0 where s0: "u_sparse_bitset_dup (live_out st ! b) = Some s0" "sb_inv s0" "sb_members s0 = Collect (live_after impl b)"
    using sb.dup_law [OF out(1)] out(2) by auto
  have pos: "(\<exists>b. cursor = After_instr b (q - 1) \<and> 0 < q) \<or> (\<exists>b. cursor = Before_instr b q \<and> q < length xs)"
    using c by (cases cursor) (auto simp: q_def xs_def b_def)
  have np: "\<not> is_phi (xs ! j)" if "q \<le> j" "j < length xs" for j using after_phis_not_phi [OF wf b, of j] q(1) that by (simp add: xs_def)
  obtain s1 where s1: "live_mid_block impl st cursor = Some s1" "sb_inv s1" "sb_members s1 = foldr (instr_step impl) (drop q xs) (Collect (live_after impl b))"
    using live_back_to_ok [OF np q(2) order_refl pos s0(2), of impl] s0 by (auto simp: live_mid_block_def b_def [symmetric] xs_def [symmetric])
  show ?thesis
  proof (cases "\<exists>k. cursor = After_instr b k \<and> k = length xs - 1")
    case True
    then have "q = length xs" using c by (auto simp: q_def xs_def)
    then show ?thesis using True out unfolding b_def [symmetric] q_def [symmetric] xs_def [symmetric]
      by (auto simp: nir_get_live_defs_def xs_def)
  next
    case False
    then have "nir_get_live_defs impl st cursor = live_mid_block impl st cursor"
      using c by (cases cursor) (auto simp: nir_get_live_defs_def b_def xs_def)
    then show ?thesis using s1 by (simp add: b_def q_def xs_def)
  qed
qed

section \<open>Interference\<close>

definition ssa_form :: "nir_impl \<Rightarrow> bool" where
  "ssa_form impl \<longleftrightarrow> list_all (\<lambda>p. list_all (\<lambda>p'. p = p' \<or> list_all (\<lambda>d. d \<notin> set (instr_defs (instr_at impl p'))) (instr_defs (instr_at impl p)))
     (all_instrs impl)) (all_instrs impl)"

lemma all_instrs_iff: "(b, k) \<in> set (all_instrs impl) \<longleftrightarrow> b < length impl \<and> k < length (instrs (impl ! b))"
  by (force simp: all_instrs_def)

lemma ssa_unique:
  assumes "ssa_form impl" and "nir_def_instr impl d = Some p" and "b < length impl" "k < length (instrs (impl ! b))" "d \<in> set (instr_defs (instrs (impl ! b) ! k))"
  shows "p = (b, k)"
proof -
  have p: "p \<in> set (all_instrs impl)" "d \<in> set (instr_defs (instr_at impl p))"
    using assms(2) by (auto simp: nir_def_instr_def find_Some_iff)
  have "(b, k) \<in> set (all_instrs impl)" using assms(3,4) by (simp add: all_instrs_iff)
  then show ?thesis using assms(1,5) p unfolding ssa_form_def list_all_iff by fastforce
qed

lemma defined_instr: "b < length impl \<Longrightarrow> k < length (instrs (impl ! b)) \<Longrightarrow> d \<in> set (instr_defs (instrs (impl ! b) ! k)) \<Longrightarrow> \<exists>p. nir_def_instr impl d = Some p"
proof (rule ccontr)
  assume b: "b < length impl" "k < length (instrs (impl ! b))" "d \<in> set (instr_defs (instrs (impl ! b) ! k))" and "\<nexists>p. nir_def_instr impl d = Some p"
  then have "find (\<lambda>p. d \<in> set (instr_defs (instr_at impl p))) (all_instrs impl) = None"
    unfolding nir_def_instr_def by (cases "find (\<lambda>p. d \<in> set (instr_defs (instr_at impl p))) (all_instrs impl)") blast+
  then have "\<forall>p \<in> set (all_instrs impl). d \<notin> set (instr_defs (instr_at impl p))" by (simp add: find_None_iff)
  then show False using all_instrs_iff [of b k impl] b by fastforce
qed

lemma foldr_step_undefined:
  "\<forall>i \<in> set is. d \<notin> set (instr_defs i) \<Longrightarrow> d \<in> foldr (instr_step impl) is X \<longleftrightarrow> d \<in> X \<or> (\<exists>i \<in> set is. d \<in> set (instr_srcs i)) \<and> \<not> nir_src_is_undef impl d"
  by (induction "is") (auto simp: instr_step_def use_of_iff)

lemma live_at_undefined:
  assumes "q \<le> length (instrs (impl ! b))" and "\<forall>i \<in> set (drop q (instrs (impl ! b))). d \<notin> set (instr_defs i)" and "\<not> nir_src_is_undef impl d"
  shows "live_at impl b q d \<longleftrightarrow> live_after impl b d \<or> (\<exists>i \<in> set (drop q (instrs (impl ! b))). d \<in> set (instr_srcs i)) \<or> following_if (impl ! b) = Some d"
proof -
  have "live_at impl b q d \<longleftrightarrow> d \<in> point_eq impl b q (Collect (live_after impl b))" using live_at_equation [OF assms(1)] by auto
  also have "\<dots> \<longleftrightarrow> (live_after impl b d \<or> d \<in> if_use impl (impl ! b)) \<or> (\<exists>i \<in> set (drop q (instrs (impl ! b))). d \<in> set (instr_srcs i))"
    using foldr_step_undefined [OF assms(2)] assms(3) by (simp add: point_eq_def)
  also have "d \<in> if_use impl (impl ! b) \<longleftrightarrow> following_if (impl ! b) = Some d" using assms(3) by (auto simp: if_use_def use_of_iff split: option.splits)
  finally show ?thesis by blast
qed

text \<open>The point just after an instruction; after a phi, the point after all of them.\<close>

definition after_point :: "nir_impl \<Rightarrow> nat \<times> nat \<Rightarrow> nat" where
  "after_point impl p = max (snd p + 1) (num_phis (impl ! fst p))"

lemma search_for_use_iff:
  "search_for_use_after_instr b k d \<longleftrightarrow> (\<exists>i \<in> set (drop (k + 1) (instrs b)). d \<in> set (instr_srcs i)) \<or> following_if b = Some d"
  by (auto simp: search_for_use_after_instr_def list_ex_iff list_all_iff)

lemma not_phi_after:
  assumes "k < length (instrs b)" and "\<not> is_phi (instrs b ! k)"
  shows "num_phis b \<le> k"
  using assms nth_length_takeWhile [of is_phi "instrs b"] set_takeWhileD [of "instrs b ! k" is_phi "instrs b"]
  by (metis block_phis_def not_less nth_mem num_phis_def takeWhile_nth)

lemma nir_def_is_live_at_ok:
  assumes wf: "wf_impl impl" and ssa: "ssa_form impl" and st: "lives impl st" and b: "b < length impl" and k: "k < length (instrs (impl ! b))"
    and d: "\<not> nir_src_is_undef impl d" and later: "\<forall>i \<in> set (drop (after_point impl (b, k)) (instrs (impl ! b))). d \<notin> set (instr_defs i)"
  shows "\<exists>r. nir_def_is_live_at impl st d b k = Some r \<and> (live_at impl b (after_point impl (b, k)) d \<longrightarrow> r) \<and>
    (\<not> is_phi (instrs (impl ! b) ! k) \<longrightarrow> r \<longrightarrow> live_at impl b (after_point impl (b, k)) d)"
proof -
  define q where "q = after_point impl (b, k)"
  define xs where "xs = instrs (impl ! b)"
  have ql: "q \<le> length xs" using k num_phis_le [of "impl ! b"] by (simp add: q_def xs_def after_point_def)
  have kq: "k + 1 \<le> q" "num_phis (impl ! b) \<le> q" by (auto simp: q_def after_point_def)
  have tests: "u_sparse_bitset_test (live_out st ! b) d = Some (live_after impl b d)" "u_sparse_bitset_test (live_in st ! b) d = Some (live_at impl b (num_phis (impl ! b)) d)"
    using sb.test_law livesD [OF st b] by auto
  have here: "live_at impl b q d \<longleftrightarrow> live_after impl b d \<or> (\<exists>i \<in> set (drop q xs). d \<in> set (instr_srcs i)) \<or> following_if (impl ! b) = Some d"
    using live_at_undefined [of q impl b d] ql later d by (simp add: q_def xs_def)
  have sub: "set (drop q xs) \<subseteq> set (drop (k + 1) xs)" using kq(1) by (rule set_drop_subset_set_drop)
  have exact: "q = k + 1" if "\<not> is_phi (xs ! k)" using not_phi_after [of k "impl ! b"] k that by (simp add: q_def after_point_def xs_def max_def)
  define res where "res = search_for_use_after_instr (impl ! b) k d"
  have res: "res \<longleftrightarrow> (\<exists>i \<in> set (drop (k + 1) xs). d \<in> set (instr_srcs i)) \<or> following_if (impl ! b) = Some d"
    by (simp add: res_def search_for_use_iff xs_def)
  consider (out) "live_after impl b d" | (inside) "\<not> live_after impl b d" "live_at impl b (num_phis (impl ! b)) d \<or> map_option fst (nir_def_instr impl d) = Some b"
    | (outside) "\<not> live_after impl b d" "\<not> live_at impl b (num_phis (impl ! b)) d" "map_option fst (nir_def_instr impl d) \<noteq> Some b" by blast
  then show ?thesis unfolding q_def [symmetric] xs_def [symmetric]
  proof cases
    case out
    then show "\<exists>r. nir_def_is_live_at impl st d b k = Some r \<and> (live_at impl b q d \<longrightarrow> r) \<and> (\<not> is_phi (xs ! k) \<longrightarrow> r \<longrightarrow> live_at impl b q d)"
      using here by (intro exI [of _ True]) (simp add: nir_def_is_live_at_def tests)
  next
    case inside
    then have "nir_def_is_live_at impl st d b k = Some res" by (auto simp: nir_def_is_live_at_def tests res_def)
    then show "\<exists>r. nir_def_is_live_at impl st d b k = Some r \<and> (live_at impl b q d \<longrightarrow> r) \<and> (\<not> is_phi (xs ! k) \<longrightarrow> r \<longrightarrow> live_at impl b q d)"
      using here inside(1) sub exact res by auto
  next
    case outside
    have nodef: "d \<notin> set (instr_defs i)" if "i \<in> set xs" for i
    proof
      assume i: "d \<in> set (instr_defs i)"
      obtain j where j: "j < length xs" "xs ! j = i" using \<open>i \<in> set xs\<close> by (auto simp: in_set_conv_nth)
      then obtain p where p: "nir_def_instr impl d = Some p" using defined_instr [OF b, of j d] i by (auto simp: xs_def)
      then show False using ssa_unique [OF ssa p b, of j] j i outside(3) by (auto simp: xs_def)
    qed
    have "live_at impl b (num_phis (impl ! b)) d \<longleftrightarrow> live_after impl b d \<or> (\<exists>i \<in> set (drop (num_phis (impl ! b)) xs). d \<in> set (instr_srcs i)) \<or> following_if (impl ! b) = Some d"
      using live_at_undefined [of "num_phis (impl ! b)" impl b d] num_phis_le [of "impl ! b"] nodef d by (auto simp: xs_def dest: in_set_dropD)
    then have "\<not> live_at impl b q d" using outside(2) here set_drop_subset_set_drop [OF kq(2), of xs] by blast
    then show "\<exists>r. nir_def_is_live_at impl st d b k = Some r \<and> (live_at impl b q d \<longrightarrow> r) \<and> (\<not> is_phi (xs ! k) \<longrightarrow> r \<longrightarrow> live_at impl b q d)"
      using outside by (auto simp: nir_def_is_live_at_def tests)
  qed
qed

lemma instr_index_same_block: "instr_index impl (b, j) < instr_index impl (b, k) \<longleftrightarrow> j < k"
  by (simp add: instr_index_def)

lemma nir_defs_interfere_ok:
  assumes wf: "wf_impl impl" and ssa: "ssa_form impl" and st: "lives impl st"
    and pa: "nir_def_instr impl a = Some pa" "\<not> is_undef_instr (instr_at impl pa)" and pb: "nir_def_instr impl b = Some pb" "\<not> is_undef_instr (instr_at impl pb)"
    and order: "instr_index impl pa < instr_index impl pb"
  shows "\<exists>r. nir_defs_interfere impl st a b = Some r \<and> nir_defs_interfere impl st b a = Some r \<and>
    (live_at impl (fst pb) (after_point impl pb) a \<longrightarrow> r) \<and> (\<not> is_phi (instr_at impl pb) \<longrightarrow> r \<longrightarrow> live_at impl (fst pb) (after_point impl pb) a)"
proof -
  obtain c k where pbk: "pb = (c, k)" by fastforce
  have "pb \<in> set (all_instrs impl)" using pb(1) by (auto simp: nir_def_instr_def find_Some_iff)
  then have c: "c < length impl" "k < length (instrs (impl ! c))" by (simp_all add: pbk all_instrs_iff)
  have undef: "\<not> nir_src_is_undef impl a"
  proof
    assume "nir_src_is_undef impl a"
    then obtain e j where e: "e < length impl" "j < length (instrs (impl ! e))" "instrs (impl ! e) ! j = Undef_instr a"
      by (auto simp: nir_src_is_undef_def list_ex_iff in_set_conv_nth)
    then have "pa = (e, j)" using ssa_unique [OF ssa pa(1), of e j] by simp
    then show False using pa(2) e(3) by simp
  qed
  have later: "\<forall>i \<in> set (drop (after_point impl (c, k)) (instrs (impl ! c))). a \<notin> set (instr_defs i)"
  proof (intro ballI notI)
    fix i
    assume i: "i \<in> set (drop (after_point impl (c, k)) (instrs (impl ! c)))" "a \<in> set (instr_defs i)"
    then obtain j where j: "after_point impl (c, k) \<le> j" "j < length (instrs (impl ! c))" "instrs (impl ! c) ! j = i"
      by (auto simp: in_set_conv_nth) (metis add.commute le_add1 less_diff_conv)
    then have "pa = (c, j)" using ssa_unique [OF ssa pa(1) c(1), of j] i(2) by simp
    then have "j < k" using order by (simp add: pbk instr_index_same_block)
    then show False using j(1) by (simp add: after_point_def)
  qed
  have "pa \<noteq> pb" using order by auto
  then have "nir_defs_interfere impl st a b = nir_def_is_live_at impl st a c k" "nir_defs_interfere impl st b a = nir_def_is_live_at impl st a c k"
    using pa pb order by (auto simp: nir_defs_interfere_def pbk)
  then show ?thesis using nir_def_is_live_at_ok [OF wf ssa st c undef later] by (simp add: pbk)
qed

text \<open>Different instructions have different indices.\<close>

lemma instr_index_mono:
  assumes "b < c" and "c < length impl" and "j < length (instrs (impl ! b))"
  shows "instr_index impl (b, j) < instr_index impl (c, k)"
proof -
  let ?f = "\<lambda>b. length (instrs b) + 2"
  have "take c impl = take (Suc b) impl @ drop (Suc b) (take c impl)" using append_take_drop_id [of "Suc b" "take c impl"] assms(1) by (simp add: min_def)
  then have "sum_list (map ?f (take (Suc b) impl)) \<le> sum_list (map ?f (take c impl))" by (metis map_append sum_list_append le_add1)
  moreover have "take (Suc b) impl = take b impl @ [impl ! b]" using assms(1,2) by (intro take_Suc_conv_app_nth) simp
  ultimately show ?thesis using assms(3) by (simp add: instr_index_def)
qed

lemma instr_index_total:
  assumes "nir_def_instr impl a = Some pa" and "nir_def_instr impl b = Some pb" and "pa \<noteq> pb"
  shows "instr_index impl pa < instr_index impl pb \<or> instr_index impl pb < instr_index impl pa"
proof -
  obtain c j d k where p: "pa = (c, j)" "pb = (d, k)" by fastforce
  have "pa \<in> set (all_instrs impl)" "pb \<in> set (all_instrs impl)" using assms(1,2) by (auto simp: nir_def_instr_def find_Some_iff)
  then have l: "c < length impl" "j < length (instrs (impl ! c))" "d < length impl" "k < length (instrs (impl ! d))" by (simp_all add: p all_instrs_iff)
  consider "c < d" | "d < c" | "c = d" "j < k" | "c = d" "k < j" using assms(3) p by fastforce
  then show ?thesis using instr_index_mono [of c d impl j k] instr_index_mono [of d c impl k j] instr_index_same_block l p by cases auto
qed

section \<open>Properties\<close>

text \<open>
   Property C33.  The liveness analysis ends for every function whose phis stand at the start of
  their blocks and that has at most \<open>2 ^ 31\<close> blocks, without a failed assertion, and leaves in each block exactly the values that are
  live at its start and at its end: those with a path to a use that passes no definition.
\<close>

theorem nir_live_defs_correct:
  assumes "wf_impl impl"
  shows "\<exists>st. nir_live_defs_impl ssa_alloc impl = Some st \<and> (\<forall>b < length impl.
    sb_members (live_in st ! b) = {v. live_at impl b (num_phis (impl ! b)) v} \<and> sb_members (live_out st ! b) = {v. live_after impl b v})"
  using nir_live_defs_impl_ok [OF assms, of ssa_alloc] by (auto simp: lives_def)

text \<open>A loop: block 1 has a phi of the value from block 0 and of the sum made in block 1.\<close>

definition loop_impl :: nir_impl where
  "loop_impl = [\<lparr>instrs = [Instr [0] [], Instr [1] []], following_if = None, preds = []\<rparr>,
     \<lparr>instrs = [Phi_instr 2 [(0, 0), (1, 3)], Instr [3] [2, 1], Instr [] []], following_if = Some 3, preds = [0, 1]\<rparr>]"

lemma loop_impl_wf: "wf_impl loop_impl" "ssa_form loop_impl"
proof -
  show "wf_impl loop_impl" by (auto simp: wf_impl_def loop_impl_def less_Suc_eq)
  show "ssa_form loop_impl" by (simp add: ssa_form_def all_instrs_def loop_impl_def)
qed

lemma loop_impl_live:
  "num_phis (loop_impl ! 1) = 1" "live_at loop_impl 1 1 1" "live_after loop_impl 1 1" "\<not> live_after loop_impl 0 2"
proof -
  show n: "num_phis (loop_impl ! 1) = 1" by (simp add: num_phis_def block_phis_def loop_impl_def)
  show use: "live_at loop_impl 1 1 1" by (rule live_use) (simp_all add: loop_impl_def nir_src_is_undef_def)
  show "live_after loop_impl 1 1"
    by (rule live_edge [of 1]) (use use n in \<open>simp_all add: loop_impl_def block_phis_def\<close>)
  show "\<not> live_after loop_impl 0 2"
    by (auto elim!: live_after.cases simp: loop_impl_def block_phis_def less_Suc_eq)
qed

theorem nir_live_defs_correct_witness:
  "\<exists>st. nir_live_defs_impl 4 loop_impl = Some st \<and> 1 \<in> sb_members (live_out st ! 1) \<and> 2 \<notin> sb_members (live_out st ! 0)"
proof -
  have len: "length loop_impl = 2" by (simp add: loop_impl_def)
  show ?thesis using nir_live_defs_correct [OF loop_impl_wf(1), of 4] loop_impl_live(3,4) by (auto simp: len)
qed

text \<open>
   What a query between the instructions of a block returns: the values that are live
  there for the instructions that follow and for the successors.  The condition of an \<open>if\<close> that
  follows the block is left out: it is live unless it is defined in between, but only in the set
  when something else uses it, although the analysis itself counts it as a use in the block.
\<close>

theorem nir_get_live_defs_omits_condition:
  assumes "wf_impl impl" and "nir_live_defs_impl ssa_alloc impl = Some st" and "instr_cursor impl cursor"
    and "b = cursor_block cursor" and "q = cursor_point cursor"
  shows "\<exists>s. nir_get_live_defs impl st cursor = Some s \<and>
    sb_members s = foldr (instr_step impl) (drop q (instrs (impl ! b))) {v. live_after impl b v} \<and>
    {v. live_at impl b q v} = sb_members s \<union> {v. following_if (impl ! b) = Some v \<and> \<not> nir_src_is_undef impl v \<and>
      (\<forall>i \<in> set (drop q (instrs (impl ! b))). v \<notin> set (instr_defs i))}"
proof -
  have st: "lives impl st" using nir_live_defs_impl_ok [OF assms(1), of ssa_alloc] assms(2) by simp
  have q: "q \<le> length (instrs (impl ! b))" using assms(3-) by (cases cursor) auto
  have "if_use impl (impl ! b) - (\<Union>i \<in> set (drop q (instrs (impl ! b))). set (instr_defs i)) =
      {v. following_if (impl ! b) = Some v \<and> \<not> nir_src_is_undef impl v \<and> (\<forall>i \<in> set (drop q (instrs (impl ! b))). v \<notin> set (instr_defs i))}"
    by (auto simp: if_use_def use_of_iff split: option.splits)
  then have "{v. live_at impl b q v} = foldr (instr_step impl) (drop q (instrs (impl ! b))) {v. live_after impl b v} \<union>
      {v. following_if (impl ! b) = Some v \<and> \<not> nir_src_is_undef impl v \<and> (\<forall>i \<in> set (drop q (instrs (impl ! b))). v \<notin> set (instr_defs i))}"
    using live_at_equation [OF q] by (simp add: point_eq_def foldr_step_union)
  then show ?thesis using nir_get_live_defs_mid [OF assms(1) st assms(3)] assms(4,5) by auto
qed

text \<open>
  The first instruction defines the condition of the \<open>if\<close> that follows the block; after it, the
  condition is live and the query misses it.
\<close>

definition if_impl :: nir_impl where
  "if_impl = [\<lparr>instrs = [Instr [0] [], Instr [] []], following_if = Some 0, preds = []\<rparr>]"

theorem nir_get_live_defs_omits_condition_witness:
  "\<exists>st s. nir_live_defs_impl 1 if_impl = Some st \<and> nir_get_live_defs if_impl st (After_instr 0 0) = Some s \<and>
     live_at if_impl 0 1 0 \<and> 0 \<notin> sb_members s"
proof -
  have wf: "wf_impl if_impl" by (auto simp: wf_impl_def if_impl_def)
  obtain st where st: "nir_live_defs_impl 1 if_impl = Some st" using nir_live_defs_impl_ok [OF wf] by blast
  have cur: "instr_cursor if_impl (After_instr 0 0)" by (simp add: if_impl_def num_phis_def block_phis_def)
  have none: "{v. live_after if_impl 0 v} = {}" by (auto elim!: live_after.cases simp: if_impl_def)
  have blk: "if_impl ! 0 = \<lparr>instrs = [Instr [0] [], Instr [] []], following_if = Some 0, preds = []\<rparr>" by (simp add: if_impl_def)
  have undef: "\<not> nir_src_is_undef if_impl 0" by (simp add: nir_src_is_undef_def if_impl_def)
  obtain s where s: "nir_get_live_defs if_impl st (After_instr 0 0) = Some s"
    "sb_members s = foldr (instr_step if_impl) (drop 1 (instrs (if_impl ! 0))) {v. live_after if_impl 0 v}"
    "{v. live_at if_impl 0 1 v} = sb_members s \<union> {v. following_if (if_impl ! 0) = Some v \<and> \<not> nir_src_is_undef if_impl v \<and>
      (\<forall>i \<in> set (drop 1 (instrs (if_impl ! 0))). v \<notin> set (instr_defs i))}"
    using nir_get_live_defs_omits_condition [OF wf st cur, of 0 1] by auto
  have "sb_members s = {}" using s(2) by (simp add: none blk instr_step_def)
  moreover have "0 \<in> {v. live_at if_impl 0 1 v}" unfolding s(3) using undef by (simp add: blk)
  ultimately show ?thesis using st s(1) by auto
qed

text \<open>
  Property C34.  The test for interference after the analysis, for any two values of a function in
  SSA form: it succeeds and does not depend on the order of its arguments.  Values of one
  instruction interfere; otherwise an undefined value interferes with nothing; otherwise the test
  is true if the value defined first is live just after the definition of the other one and, if
  that is not a phi, only then.
\<close>

theorem nir_defs_interfere_correct:
  assumes "wf_impl impl" and "ssa_form impl" and "nir_live_defs_impl ssa_alloc impl = Some st"
    and "nir_def_instr impl a = Some pa" and "nir_def_instr impl b = Some pb"
  shows "\<exists>r. nir_defs_interfere impl st a b = Some r \<and> nir_defs_interfere impl st b a = Some r \<and>
    (if pa = pb then r
     else if is_undef_instr (instrs (impl ! fst pa) ! snd pa) \<or> is_undef_instr (instrs (impl ! fst pb) ! snd pb) then \<not> r
     else instr_index impl pa < instr_index impl pb \<longrightarrow>
       (live_at impl (fst pb) (after_point impl pb) a \<longrightarrow> r) \<and>
       (\<not> is_phi (instrs (impl ! fst pb) ! snd pb) \<longrightarrow> r \<longrightarrow> live_at impl (fst pb) (after_point impl pb) a))"
proof -
  have st: "lives impl st" using nir_live_defs_impl_ok [OF assms(1), of ssa_alloc] assms(3) by simp
  consider "pa = pb" | "pa \<noteq> pb" "is_undef_instr (instr_at impl pa) \<or> is_undef_instr (instr_at impl pb)"
    | "pa \<noteq> pb" "\<not> is_undef_instr (instr_at impl pa)" "\<not> is_undef_instr (instr_at impl pb)" by blast
  then show ?thesis
  proof cases
    case 3
    from instr_index_total [OF assms(4,5) 3(1)] show ?thesis
    proof
      assume "instr_index impl pa < instr_index impl pb"
      from nir_defs_interfere_ok [OF assms(1,2) st assms(4) 3(2) assms(5) 3(3) this] 3 show ?thesis by auto
    next
      assume o: "instr_index impl pb < instr_index impl pa"
      from nir_defs_interfere_ok [OF assms(1,2) st assms(5) 3(3) assms(4) 3(2) o] 3 o show ?thesis by auto
    qed
  qed (use assms(4,5) in \<open>auto simp: nir_defs_interfere_def\<close>)
qed

theorem nir_defs_interfere_correct_witness:
  "\<exists>st. nir_live_defs_impl 4 loop_impl = Some st \<and> nir_defs_interfere loop_impl st 1 2 = Some True \<and> nir_defs_interfere loop_impl st 2 1 = Some True"
proof -
  obtain st where st: "nir_live_defs_impl 4 loop_impl = Some st" using nir_live_defs_impl_ok [OF loop_impl_wf(1)] by blast
  have p: "nir_def_instr loop_impl 1 = Some (0, 1)" "nir_def_instr loop_impl 2 = Some (1, 0)"
    by (simp_all add: nir_def_instr_def all_instrs_def loop_impl_def)
  have i: "instrs (loop_impl ! fst (0, 1)) ! snd (0 :: nat, 1 :: nat) = Instr [1] []"
    "instrs (loop_impl ! fst (1, 0)) ! snd (1 :: nat, 0 :: nat) = Phi_instr 2 [(0, 0), (1, 3)]" by (simp_all add: loop_impl_def)
  have idx: "instr_index loop_impl (0, 1) < instr_index loop_impl (1, 0)" by (simp add: instr_index_def loop_impl_def)
  have pt: "after_point loop_impl (1, 0) = 1" using loop_impl_live(1) by (simp add: after_point_def)
  obtain r where r: "nir_defs_interfere loop_impl st 1 2 = Some r" "nir_defs_interfere loop_impl st 2 1 = Some r" "live_at loop_impl 1 1 1 \<longrightarrow> r"
    using nir_defs_interfere_correct [OF loop_impl_wf st p, unfolded i] idx pt by auto
  then show ?thesis using st loop_impl_live(2) by simp
qed

end
