(* ===== verification/Mesa_Set.thy ===== *)
theory Mesa_Set
  imports Hash_Table
begin

text \<open>
  The open-addressing set of \<open>src/src/util/set.c\<close>: the sizes and the probing of the hash table, but
  an entry is only a hash and a key, and whether it is free or deleted is told by the key.  The
  address \<open>deleted_key\<close> is the argument \<open>dk\<close>, which is not \<open>NULL\<close>.  An entry pointer is an index;
  \<open>None\<close> as the result of an operation is a failed assertion, an access out of bounds or a loop that
  does not end; \<open>alloc n\<close> says whether an array of \<open>n\<close> entries is obtained.  The proofs relate each
  operation to the one of \<open>Hash_Table\<close>.
\<close>

section \<open>The code\<close>

record set_entry =
  s_hash :: u32
  s_key :: ptr

record mesa_set =
  s_table :: "set_entry list"
  s_inline :: bool
  s_hash_function :: "(ptr \<Rightarrow> u32) option"
  s_equals_function :: "ptr \<Rightarrow> ptr \<Rightarrow> bool"
  s_size :: u32
  s_rehash :: u32
  s_size_magic :: u64
  s_rehash_magic :: u64
  s_max_entries :: u32
  s_size_index :: nat
  s_entries :: u32
  s_deleted_entries :: u32

definition key_pointer_is_reserved :: "ptr \<Rightarrow> ptr \<Rightarrow> bool" where
  "key_pointer_is_reserved dk key \<longleftrightarrow> key = 0 \<or> key = dk"

definition entry_is_free :: "set_entry \<Rightarrow> bool" where
  "entry_is_free e \<longleftrightarrow> s_key e = 0"

definition entry_is_deleted :: "ptr \<Rightarrow> set_entry \<Rightarrow> bool" where
  "entry_is_deleted dk e \<longleftrightarrow> s_key e = dk"

definition entry_is_present :: "ptr \<Rightarrow> set_entry \<Rightarrow> bool" where
  "entry_is_present dk e \<longleftrightarrow> s_key e \<noteq> 0 \<and> s_key e \<noteq> dk"

definition zero_set_entry :: set_entry where
  "zero_set_entry = \<lparr>s_hash = 0, s_key = 0\<rparr>"

definition set_set_sizes :: "nat \<Rightarrow> mesa_set \<Rightarrow> mesa_set" where
  "set_set_sizes i s =
     (case hash_sizes ! i of (mx, sz, re) \<Rightarrow>
        s\<lparr>s_size_index := i, s_size := sz, s_rehash := re, s_size_magic := REMAINDER_MAGIC sz,
          s_rehash_magic := REMAINDER_MAGIC re, s_max_entries := mx\<rparr>)"

definition mesa_set_init :: "(ptr \<Rightarrow> u32) option \<Rightarrow> (ptr \<Rightarrow> ptr \<Rightarrow> bool) \<Rightarrow> mesa_set option" where
  "mesa_set_init hash_fn equals_fn = do {
     let s = set_set_sizes 0
       \<lparr>s_table = replicate 19 zero_set_entry, s_inline = True, s_hash_function = hash_fn,
        s_equals_function = equals_fn, s_size = 0, s_rehash = 0, s_size_magic = 0,
        s_rehash_magic = 0, s_max_entries = 0, s_size_index = 0, s_entries = 0, s_deleted_entries = 0\<rparr>;
     c_assert (unat (s_size s) = length (s_table s));
     Some s
   }"

definition mesa_pointer_set_init :: "mesa_set option" where
  "mesa_pointer_set_init = mesa_set_init (Some mesa_hash_pointer) mesa_key_pointer_equal"

text \<open>A set from \<open>ralloc\<close>, or \<open>NULL\<close> when there is no memory.\<close>

definition mesa_set_create :: "bool \<Rightarrow> (ptr \<Rightarrow> u32) option \<Rightarrow> (ptr \<Rightarrow> ptr \<Rightarrow> bool) \<Rightarrow> mesa_set option option" where
  "mesa_set_create alloc_ht hash_fn equals_fn =
     (if alloc_ht then map_option Some (mesa_set_init hash_fn equals_fn) else Some None)"

definition mesa_pointer_set_create :: "bool \<Rightarrow> mesa_set option option" where
  "mesa_pointer_set_create alloc_ht = mesa_set_create alloc_ht (Some mesa_hash_pointer) mesa_key_pointer_equal"

text \<open>Keys that are 32-bit numbers; \<open>hash_uint\<close> is \<open>_mesa_hash_uint\<close>, a call of the xxHash library, and \<open>key_u32_equals\<close> is the same function as for hash tables.\<close>

definition key_u32_hash :: "(u32 \<Rightarrow> u32) \<Rightarrow> ptr \<Rightarrow> u32" where
  "key_u32_hash hash_uint key = hash_uint (ucast key)"

definition mesa_u32_set_init :: "(u32 \<Rightarrow> u32) \<Rightarrow> mesa_set option" where
  "mesa_u32_set_init hash_uint = mesa_set_init (Some (key_u32_hash hash_uint)) key_u32_equals"

definition mesa_set_create_u32_keys :: "(u32 \<Rightarrow> u32) \<Rightarrow> bool \<Rightarrow> mesa_set option option" where
  "mesa_set_create_u32_keys hash_uint alloc_ht = mesa_set_create alloc_ht (Some (key_u32_hash hash_uint)) key_u32_equals"

definition mesa_set_copy :: "(nat \<Rightarrow> bool) \<Rightarrow> mesa_set \<Rightarrow> bool \<times> mesa_set" where
  "mesa_set_copy alloc src =
     (if \<not> s_inline src
      then if alloc (unat (s_size src)) then (True, src) else (False, src\<lparr>s_table := []\<rparr>)
      else (True, src))"

definition mesa_set_clone :: "bool \<Rightarrow> (nat \<Rightarrow> bool) \<Rightarrow> mesa_set \<Rightarrow> mesa_set option" where
  "mesa_set_clone alloc_ht alloc src =
     (if \<not> alloc_ht then None else case mesa_set_copy alloc src of (ok, s) \<Rightarrow> if ok then Some s else None)"

text \<open>\<open>set_foreach\<close>: the present entries in the order of the table.\<close>

definition set_foreach :: "ptr \<Rightarrow> mesa_set \<Rightarrow> set_entry list" where
  "set_foreach dk s = filter (entry_is_present dk) (s_table s)"

definition mesa_set_fini :: "ptr \<Rightarrow> bool \<Rightarrow> mesa_set \<Rightarrow> set_entry list \<times> mesa_set" where
  "mesa_set_fini dk delete_fn s = ((if delete_fn then set_foreach dk s else []), s\<lparr>s_table := []\<rparr>)"

text \<open>\<open>destroy\<close> returns the entries that the delete function is called on; it ignores \<open>NULL\<close>.\<close>

definition mesa_set_destroy :: "ptr \<Rightarrow> bool \<Rightarrow> mesa_set option \<Rightarrow> set_entry list" where
  "mesa_set_destroy dk delete_fn s = (case s of None \<Rightarrow> [] | Some s \<Rightarrow> fst (mesa_set_fini dk delete_fn s))"

definition set_clear_fast :: "mesa_set \<Rightarrow> mesa_set" where
  "set_clear_fast s =
     s\<lparr>s_table := replicate (unat (fst (snd (hash_sizes ! s_size_index s)))) zero_set_entry @
                  drop (unat (fst (snd (hash_sizes ! s_size_index s)))) (s_table s),
       s_entries := 0, s_deleted_entries := 0\<rparr>"

definition mesa_set_clear :: "ptr \<Rightarrow> bool \<Rightarrow> mesa_set \<Rightarrow> set_entry list \<times> mesa_set" where
  "mesa_set_clear dk delete_fn s =
     (if delete_fn
      then (set_foreach dk s, s\<lparr>s_table := map (\<lambda>e. e\<lparr>s_key := 0\<rparr>) (s_table s), s_entries := 0, s_deleted_entries := 0\<rparr>)
      else ([], set_clear_fast s))"

definition set_start_address :: "mesa_set \<Rightarrow> u32 \<Rightarrow> u32" where
  "set_start_address s hash = util_fast_urem32 hash (s_size s) (s_size_magic s)"

definition set_double_hash :: "mesa_set \<Rightarrow> u32 \<Rightarrow> u32" where
  "set_double_hash s hash = util_fast_urem32 hash (s_rehash s) (s_rehash_magic s) + 1"

definition set_search_body :: "ptr \<Rightarrow> mesa_set \<Rightarrow> u32 \<Rightarrow> ptr \<Rightarrow> nat \<Rightarrow> unit \<Rightarrow> nat option + unit" where
  "set_search_body dk s hash key i u =
     (let entry = s_table s ! i
      in if entry_is_free entry then Inl None
         else if entry_is_present dk entry \<and> s_hash entry = hash \<and> s_equals_function s key (s_key entry) then Inl (Some i)
         else Inr ())"

definition set_search :: "ptr \<Rightarrow> mesa_set \<Rightarrow> u32 \<Rightarrow> ptr \<Rightarrow> nat option option" where
  "set_search dk s hash key = do {
     c_assert (\<not> key_pointer_is_reserved dk key);
     r \<leftarrow> probe_loop (\<lambda>a. a = set_start_address s hash) (s_size s) (set_double_hash s hash)
       (set_search_body dk s hash key) (set_start_address s hash) ();
     Some (case r of Inl entry \<Rightarrow> entry | Inr u \<Rightarrow> None)
   }"

definition mesa_set_search :: "ptr \<Rightarrow> mesa_set \<Rightarrow> ptr \<Rightarrow> nat option option" where
  "mesa_set_search dk s key = do { f \<leftarrow> s_hash_function s; set_search dk s (f key) key }"

definition set_check_hash :: "mesa_set \<Rightarrow> u32 \<Rightarrow> ptr \<Rightarrow> bool" where
  "set_check_hash s hash key \<longleftrightarrow> (case s_hash_function s of None \<Rightarrow> True | Some f \<Rightarrow> hash = f key)"

definition mesa_set_search_pre_hashed :: "ptr \<Rightarrow> mesa_set \<Rightarrow> u32 \<Rightarrow> ptr \<Rightarrow> nat option option" where
  "mesa_set_search_pre_hashed dk s hash key = do { c_assert (set_check_hash s hash key); set_search dk s hash key }"

definition set_add_rehash :: "u32 \<Rightarrow> ptr \<Rightarrow> mesa_set \<Rightarrow> mesa_set option" where
  "set_add_rehash hash key s = do {
     r \<leftarrow> probe_loop (\<lambda>a. False) (s_size s) (set_double_hash s hash)
       (\<lambda>i u. if s_key (s_table s ! i) = 0 then Inl i else Inr ()) (set_start_address s hash) ();
     (case r of
        Inl i \<Rightarrow> Some (s\<lparr>s_table := (s_table s)[i := (s_table s ! i)\<lparr>s_hash := hash, s_key := key\<rparr>]\<rparr>)
      | Inr u \<Rightarrow> None)
   }"

fun set_add_rehash_all :: "set_entry list \<Rightarrow> mesa_set \<Rightarrow> mesa_set option" where
  "set_add_rehash_all [] s = Some s"
| "set_add_rehash_all (e # es) s = do { s \<leftarrow> set_add_rehash (s_hash e) (s_key e) s; set_add_rehash_all es s }"

definition set_rehash :: "ptr \<Rightarrow> (nat \<Rightarrow> bool) \<Rightarrow> nat \<Rightarrow> mesa_set \<Rightarrow> mesa_set option" where
  "set_rehash dk alloc new_size_index s =
     (if s_size_index s = new_size_index \<and> s_deleted_entries s = s_max_entries s
      then do {
        let s = set_clear_fast s;
        c_assert (s_entries s = 0);
        Some s
      }
      else if length hash_sizes \<le> new_size_index then Some s
      else if \<not> alloc (unat (fst (snd (hash_sizes ! new_size_index)))) then Some s
      else do {
        let s0 = set_set_sizes new_size_index s;
        s1 \<leftarrow> set_add_rehash_all (set_foreach dk s)
          (s0\<lparr>s_table := replicate (unat (s_size s0)) zero_set_entry, s_inline := False, s_entries := 0, s_deleted_entries := 0\<rparr>);
        Some (s1\<lparr>s_entries := s_entries s\<rparr>)
      })"

text \<open>The search for a size in \<open>resize\<close> reads past the table of sizes when there is none.\<close>

definition mesa_set_resize :: "ptr \<Rightarrow> (nat \<Rightarrow> bool) \<Rightarrow> u32 \<Rightarrow> mesa_set \<Rightarrow> mesa_set option" where
  "mesa_set_resize dk alloc n s = do {
     let n = (if s_entries s > n then s_entries s else n);
     i \<leftarrow> find (\<lambda>i. \<not> fst (hash_sizes ! i) < n) [0..<length hash_sizes];
     set_rehash dk alloc i s
   }"

definition set_make_room :: "ptr \<Rightarrow> (nat \<Rightarrow> bool) \<Rightarrow> mesa_set \<Rightarrow> mesa_set option" where
  "set_make_room dk alloc s =
     (if s_entries s \<ge> s_max_entries s then set_rehash dk alloc (s_size_index s + 1) s
      else if s_deleted_entries s + s_entries s \<ge> s_max_entries s then set_rehash dk alloc (s_size_index s) s
      else Some s)"

definition search_or_add_body :: "ptr \<Rightarrow> mesa_set \<Rightarrow> u32 \<Rightarrow> ptr \<Rightarrow> nat \<Rightarrow> nat option \<Rightarrow> (nat + nat option) + nat option" where
  "search_or_add_body dk s hash key i available =
     (let entry = s_table s ! i;
          available' = (if \<not> entry_is_present dk entry \<and> available = None then Some i else available)
      in if \<not> entry_is_present dk entry \<and> entry_is_free entry then Inl (Inr available')
         else if \<not> entry_is_deleted dk entry \<and> s_hash entry = hash \<and> s_equals_function s key (s_key entry) then Inl (Inl i)
         else Inr available')"

definition set_take_available :: "ptr \<Rightarrow> u32 \<Rightarrow> ptr \<Rightarrow> nat option \<Rightarrow> mesa_set \<Rightarrow> (nat option \<times> bool) \<times> mesa_set" where
  "set_take_available dk hash key available s =
     (case available of
        None \<Rightarrow> ((None, False), s)
      | Some i \<Rightarrow>
          ((Some i, False),
           s\<lparr>s_deleted_entries := (if entry_is_deleted dk (s_table s ! i) then s_deleted_entries s - 1 else s_deleted_entries s),
             s_table := (s_table s)[i := (s_table s ! i)\<lparr>s_hash := hash, s_key := key\<rparr>],
             s_entries := s_entries s + 1\<rparr>))"

text \<open>The result is the entry and \<open>*found\<close>, which is only set when there is an entry.\<close>

definition set_search_or_add :: "ptr \<Rightarrow> (nat \<Rightarrow> bool) \<Rightarrow> u32 \<Rightarrow> ptr \<Rightarrow> mesa_set \<Rightarrow> ((nat option \<times> bool) \<times> mesa_set) option" where
  "set_search_or_add dk alloc hash key s = do {
     c_assert (\<not> key_pointer_is_reserved dk key);
     s \<leftarrow> set_make_room dk alloc s;
     r \<leftarrow> probe_loop (\<lambda>a. a = set_start_address s hash) (s_size s) (set_double_hash s hash)
       (search_or_add_body dk s hash key) (set_start_address s hash) None;
     Some (case r of
        Inl (Inl i) \<Rightarrow> ((Some i, True), s)
      | Inl (Inr available) \<Rightarrow> set_take_available dk hash key available s
      | Inr available \<Rightarrow> set_take_available dk hash key available s)
   }"

definition set_search_and_add :: "ptr \<Rightarrow> (nat \<Rightarrow> bool) \<Rightarrow> u32 \<Rightarrow> ptr \<Rightarrow> mesa_set \<Rightarrow> ((nat option \<times> bool) \<times> mesa_set) option" where
  "set_search_and_add dk alloc hash key s = do {
     ((entry, found), s) \<leftarrow> set_search_or_add dk alloc hash key s;
     Some (case entry of
        None \<Rightarrow> ((None, found), s)
      | Some i \<Rightarrow> ((Some i, found), s\<lparr>s_table := (s_table s)[i := (s_table s ! i)\<lparr>s_key := key\<rparr>]\<rparr>))
   }"

definition set_add :: "ptr \<Rightarrow> (nat \<Rightarrow> bool) \<Rightarrow> u32 \<Rightarrow> ptr \<Rightarrow> mesa_set \<Rightarrow> (nat option \<times> mesa_set) option" where
  "set_add dk alloc hash key s = map_option (map_prod fst id) (set_search_and_add dk alloc hash key s)"

definition mesa_set_add :: "ptr \<Rightarrow> (nat \<Rightarrow> bool) \<Rightarrow> ptr \<Rightarrow> mesa_set \<Rightarrow> (nat option \<times> mesa_set) option" where
  "mesa_set_add dk alloc key s = do { f \<leftarrow> s_hash_function s; set_add dk alloc (f key) key s }"

definition mesa_set_add_pre_hashed :: "ptr \<Rightarrow> (nat \<Rightarrow> bool) \<Rightarrow> u32 \<Rightarrow> ptr \<Rightarrow> mesa_set \<Rightarrow> (nat option \<times> mesa_set) option" where
  "mesa_set_add_pre_hashed dk alloc hash key s = do { c_assert (set_check_hash s hash key); set_add dk alloc hash key s }"

definition mesa_set_search_and_add_pre_hashed :: "ptr \<Rightarrow> (nat \<Rightarrow> bool) \<Rightarrow> u32 \<Rightarrow> ptr \<Rightarrow> mesa_set \<Rightarrow> ((nat option \<times> bool) \<times> mesa_set) option" where
  "mesa_set_search_and_add_pre_hashed dk alloc hash key s = do { c_assert (set_check_hash s hash key); set_search_and_add dk alloc hash key s }"

definition mesa_set_search_and_add :: "ptr \<Rightarrow> (nat \<Rightarrow> bool) \<Rightarrow> ptr \<Rightarrow> mesa_set \<Rightarrow> ((nat option \<times> bool) \<times> mesa_set) option" where
  "mesa_set_search_and_add dk alloc key s = do { f \<leftarrow> s_hash_function s; mesa_set_search_and_add_pre_hashed dk alloc (f key) key s }"

definition mesa_set_search_or_add :: "ptr \<Rightarrow> (nat \<Rightarrow> bool) \<Rightarrow> ptr \<Rightarrow> mesa_set \<Rightarrow> ((nat option \<times> bool) \<times> mesa_set) option" where
  "mesa_set_search_or_add dk alloc key s = do { f \<leftarrow> s_hash_function s; set_search_or_add dk alloc (f key) key s }"

definition mesa_set_search_or_add_pre_hashed :: "ptr \<Rightarrow> (nat \<Rightarrow> bool) \<Rightarrow> u32 \<Rightarrow> ptr \<Rightarrow> mesa_set \<Rightarrow> ((nat option \<times> bool) \<times> mesa_set) option" where
  "mesa_set_search_or_add_pre_hashed dk alloc hash key s = do { c_assert (set_check_hash s hash key); set_search_or_add dk alloc hash key s }"

definition mesa_set_remove :: "ptr \<Rightarrow> nat option \<Rightarrow> mesa_set \<Rightarrow> mesa_set" where
  "mesa_set_remove dk entry s =
     (case entry of
        None \<Rightarrow> s
      | Some i \<Rightarrow> s\<lparr>s_table := (s_table s)[i := (s_table s ! i)\<lparr>s_key := dk\<rparr>],
                    s_entries := s_entries s - 1, s_deleted_entries := s_deleted_entries s + 1\<rparr>)"

definition mesa_set_remove_key :: "ptr \<Rightarrow> ptr \<Rightarrow> mesa_set \<Rightarrow> mesa_set option" where
  "mesa_set_remove_key dk key s = do { entry \<leftarrow> mesa_set_search dk s key; Some (mesa_set_remove dk entry s) }"

definition mesa_set_next_entry :: "ptr \<Rightarrow> mesa_set \<Rightarrow> nat option \<Rightarrow> nat option" where
  "mesa_set_next_entry dk s entry = (let i = iter_start entry in scan_from (entry_is_present dk) i (drop i (s_table s)))"

function mesa_set_next_entry_unsafe :: "mesa_set \<Rightarrow> nat option \<Rightarrow> nat option option" where
  "mesa_set_next_entry_unsafe s entry =
     (if s_deleted_entries s \<noteq> 0 then None
      else if s_entries s = 0 then Some None
      else let i = iter_start entry
           in if i < length (s_table s)
              then if s_key (s_table s ! i) \<noteq> 0 then Some (Some i) else mesa_set_next_entry_unsafe s (Some i)
              else Some None)"
  by pat_completeness auto
termination
  by (relation "measure (\<lambda>(s, entry). length (s_table s) - iter_start entry)") (auto simp: iter_start_def)

text \<open>\<open>set_foreach_remove\<close>: the entries the body of the loop is run on, and the set it leaves; a body run on \<open>NULL\<close> is \<open>None\<close>.\<close>

function foreach_remove_from :: "nat option \<Rightarrow> mesa_set \<Rightarrow> (set_entry list \<times> mesa_set) option" where
  "foreach_remove_from entry s =
     (if s_entries s = 0 then Some ([], s)
      else case entry of
        None \<Rightarrow> None
      | Some i \<Rightarrow>
          (let s' = s\<lparr>s_table := (s_table s)[i := (s_table s ! i)\<lparr>s_hash := 0, s_key := 0\<rparr>], s_entries := s_entries s - 1\<rparr>
           in do {
             entry' \<leftarrow> mesa_set_next_entry_unsafe s' (Some i);
             (es, s'') \<leftarrow> foreach_remove_from entry' s';
             Some (s_table s ! i # es, s'')
           }))"
  by pat_completeness auto
termination
  by (relation "measure (\<lambda>(entry, s). unat (s_entries s))") (auto simp: measure_unat)

definition set_foreach_remove :: "mesa_set \<Rightarrow> (set_entry list \<times> mesa_set) option" where
  "set_foreach_remove s = do { entry \<leftarrow> mesa_set_next_entry_unsafe s None; foreach_remove_from entry s }"

fun search_any :: "ptr \<Rightarrow> mesa_set \<Rightarrow> set_entry list \<Rightarrow> bool option" where
  "search_any dk b [] = Some False"
| "search_any dk b (e # es) = do {
     r \<leftarrow> mesa_set_search_pre_hashed dk b (s_hash e) (s_key e);
     if r \<noteq> None then Some True else search_any dk b es
   }"

fun search_all :: "ptr \<Rightarrow> mesa_set \<Rightarrow> set_entry list \<Rightarrow> bool option" where
  "search_all dk b [] = Some True"
| "search_all dk b (e # es) = do {
     r \<leftarrow> mesa_set_search_pre_hashed dk b (s_hash e) (s_key e);
     if r = None then Some False else search_all dk b es
   }"

text \<open>
  The assertions of the next two that both sets use the same functions are a condition on the
  arguments: functions are not compared here.
\<close>

definition mesa_set_intersects :: "ptr \<Rightarrow> mesa_set \<Rightarrow> mesa_set \<Rightarrow> bool option" where
  "mesa_set_intersects dk a b =
     (let (a, b) = (if s_entries b < s_entries a then (b, a) else (a, b)) in search_any dk b (set_foreach dk a))"

definition mesa_set_equal :: "ptr \<Rightarrow> mesa_set \<Rightarrow> mesa_set \<Rightarrow> bool option" where
  "mesa_set_equal dk a b =
     (if s_entries a \<noteq> s_entries b then Some False
      else do {
        r \<leftarrow> search_all dk b (set_foreach dk a);
        if \<not> r then Some False else search_all dk a (set_foreach dk b)
      })"

declare mesa_set_next_entry_unsafe.simps [simp del] foreach_remove_from.simps [simp del]

section \<open>The set and the hash table\<close>

text \<open>A set and a hash table with the same shape; an entry of the hash table has its key as data.\<close>

definition entry_sim :: "ptr \<Rightarrow> set_entry \<Rightarrow> hash_entry \<Rightarrow> bool" where
  "entry_sim dk e he \<longleftrightarrow> e_hash he = s_hash e \<and> e_present he = entry_is_present dk e \<and> e_deleted he = entry_is_deleted dk e \<and>
     (entry_is_present dk e \<longrightarrow> e_key he = s_key e \<and> e_data he = s_key e)"

definition sim :: "ptr \<Rightarrow> mesa_set \<Rightarrow> hash_table \<Rightarrow> bool" where
  "sim dk s ht \<longleftrightarrow> list_all2 (entry_sim dk) (s_table s) (ht_table ht) \<and> s_inline s = ht_inline ht \<and> s_hash_function s = key_hash_function ht \<and>
     s_equals_function s = key_equals_function ht \<and> s_size s = ht_size ht \<and> s_rehash s = ht_rehash ht \<and> s_size_magic s = size_magic ht \<and>
     s_rehash_magic s = rehash_magic ht \<and> s_max_entries s = max_entries ht \<and> s_size_index s = size_index ht \<and>
     s_entries s = entries ht \<and> s_deleted_entries s = deleted_entries ht"

definition ht_whole :: "hash_table \<Rightarrow> bool" where
  "ht_whole ht \<longleftrightarrow> ht_sized ht \<and> length (ht_table ht) = ht_N ht"

lemma ht_inv_whole: "ht_inv ht \<Longrightarrow> ht_whole ht"
  by (simp add: ht_whole_def ht_invD)

lemma simD:
  assumes "sim dk s ht"
  shows "length (s_table s) = length (ht_table ht)" and "i < length (ht_table ht) \<Longrightarrow> entry_sim dk (s_table s ! i) (ht_table ht ! i)"
    and "s_hash_function s = key_hash_function ht" and "s_equals_function s = key_equals_function ht" and "s_max_entries s = max_entries ht"
    and "s_size_index s = size_index ht" and "s_entries s = entries ht" and "s_deleted_entries s = deleted_entries ht"
  using assms list_all2_nthD2 [of "entry_sim dk" "s_table s" "ht_table ht" i] by (auto simp: sim_def dest: list_all2_lengthD)

lemma entry_simD:
  assumes "entry_sim dk e he" and "dk \<noteq> 0"
  shows "entry_is_present dk e = e_present he" and "entry_is_deleted dk e = e_deleted he" and "entry_is_free e \<longleftrightarrow> \<not> e_present he \<and> \<not> e_deleted he"
    and "s_hash e = e_hash he" and "e_present he \<Longrightarrow> s_key e = e_key he" and "e_present he \<Longrightarrow> e_data he = s_key e" and "e_present he \<Longrightarrow> \<not> e_deleted he"
  using assms by (auto simp: entry_sim_def entry_is_present_def entry_is_deleted_def entry_is_free_def)

text \<open>Loops with bodies that agree on the table agree.\<close>

lemma probe_loop_transfer:
  fixes f g :: "nat \<Rightarrow> 's \<Rightarrow> 'r + 's"
  assumes "probe_loop stop sz dh f a x = Some r" and "unat sz \<le> 2 ^ 31" and "unat dh < unat sz" and "unat a < unat sz"
    and "\<And>i y. i < unat sz \<Longrightarrow> f i y = g i y"
  shows "probe_loop stop sz dh g a x = Some r"
proof -
  have "unat sz \<le> 2 ^ 31 \<longrightarrow> unat dh < unat sz \<longrightarrow> unat a < unat sz \<longrightarrow> (\<forall>i < unat sz. f i = g i) \<longrightarrow> probe_loop stop sz dh g a x = Some r"
  proof (rule probe_loop.raw_induct [where P = "\<lambda>stop sz dh f a x r. unat sz \<le> 2 ^ 31 \<longrightarrow> unat dh < unat sz \<longrightarrow> unat a < unat sz \<longrightarrow>
      (\<forall>i < unat sz. f i = g i) \<longrightarrow> probe_loop stop sz dh g a x = Some r", OF _ assms(1)], intro impI)
    fix pl :: "(u32 \<Rightarrow> bool) \<Rightarrow> u32 \<Rightarrow> u32 \<Rightarrow> (nat \<Rightarrow> 's \<Rightarrow> 'r + 's) \<Rightarrow> u32 \<Rightarrow> 's \<Rightarrow> ('r + 's) option" and stop sz dh f a x r
    assume IH: "\<And>stop sz dh f a x r. pl stop sz dh f a x = Some r \<Longrightarrow> unat sz \<le> 2 ^ 31 \<longrightarrow> unat dh < unat sz \<longrightarrow> unat a < unat sz \<longrightarrow>
        (\<forall>i < unat sz. f i = g i) \<longrightarrow> probe_loop stop sz dh g a x = Some r"
      and step: "(case f (unat a) x of Inl r \<Rightarrow> Some (Inl r) | Inr y \<Rightarrow> let a' = next_address sz dh a in if stop a' then Some (Inr y) else pl stop sz dh f a' y) = Some r"
      and sz: "unat sz \<le> 2 ^ 31" and dh: "unat dh < unat sz" and a: "unat a < unat sz" and fg: "\<forall>i < unat sz. f i = g i"
    have "unat (next_address sz dh a) < unat sz" using next_address_unat [OF a dh sz] dh by simp
    then have rec: "pl stop sz dh f (next_address sz dh a) y = Some r \<Longrightarrow> probe_loop stop sz dh g (next_address sz dh a) y = Some r" for y
      using IH sz dh fg by blast
    show "probe_loop stop sz dh g a x = Some r"
      using step rec fg a by (subst probe_loop.simps) (auto simp: Let_def split: sum.splits if_splits)
  qed
  moreover have "\<forall>i < unat sz. f i = g i" using assms(5) by auto
  ultimately show ?thesis using assms(2-4) by blast
qed

lemma probe_loop_agree:
  assumes "unat sz \<le> 2 ^ 31" and "unat dh < unat sz" and "unat a < unat sz" and "\<And>i y. i < unat sz \<Longrightarrow> f i y = g i y"
  shows "probe_loop stop sz dh f a x = probe_loop stop sz dh g a x"
  using probe_loop_transfer [of stop sz dh f a x _ g] probe_loop_transfer [of stop sz dh g a x _ f] assms
  by (cases "probe_loop stop sz dh f a x"; cases "probe_loop stop sz dh g a x") auto

lemma sim_probe:
  assumes s: "sim dk s ht" and w: "ht_whole ht" and body: "\<And>i y. i < ht_N ht \<Longrightarrow> f i y = g i y"
  shows "probe_loop stop (s_size s) (set_double_hash s h) f (set_start_address s h) x =
    probe_loop stop (ht_size ht) (double_hash ht h) g (start_address ht h) x"
proof -
  have sz: "ht_sized ht" using w by (simp add: ht_whole_def)
  have addr: "set_start_address s h = start_address ht h" "set_double_hash s h = double_hash ht h" "s_size s = ht_size ht"
    using s by (simp_all add: sim_def set_start_address_def start_address_def set_double_hash_def double_hash_def)
  note g = ht_sized_good(1) [OF sz]
  show ?thesis unfolding addr
  proof (rule probe_loop_agree)
    show "unat (ht_size ht) \<le> 2 ^ 31" using g by (simp add: geometry_def ht_N_def)
    show "unat (double_hash ht h) < unat (ht_size ht)" using double_hash_unat [OF sz] visit_step(2) [OF g, of h] by (simp add: ht_N_def)
    show "unat (start_address ht h) < unat (ht_size ht)" using start_address_unat [OF sz] geometry_pos [OF g] by (simp add: ht_N_def)
    show "\<And>i y. i < unat (ht_size ht) \<Longrightarrow> f i y = g i y" using body by (simp add: ht_N_def)
  qed
qed

lemma sim_entry:
  assumes "sim dk s ht" and "ht_whole ht" and "i < ht_N ht"
  shows "entry_sim dk (s_table s ! i) (ht_table ht ! i)"
  using simD(2) [OF assms(1)] assms(2,3) by (simp add: ht_whole_def)

lemma set_search_sim:
  assumes "sim dk s ht" and "ht_whole ht" and "dk \<noteq> 0" and "\<not> key_pointer_is_reserved dk key"
  shows "set_search dk s hash key = hash_table_search ht hash key"
proof -
  have start: "set_start_address s hash = start_address ht hash" using assms(1) by (simp add: sim_def set_start_address_def start_address_def)
  have "probe_loop (\<lambda>a. a = start_address ht hash) (s_size s) (set_double_hash s hash) (set_search_body dk s hash key) (set_start_address s hash) () =
    probe_loop (\<lambda>a. a = start_address ht hash) (ht_size ht) (double_hash ht hash)
       (\<lambda>i u. let entry = ht_table ht ! i
              in if \<not> e_present entry \<and> \<not> e_deleted entry then Inl None
                 else if e_present entry \<and> e_hash entry = hash \<and> key_equals_function ht key (e_key entry) then Inl (Some i)
                 else Inr ()) (start_address ht hash) ()"
  proof (rule sim_probe [OF assms(1,2)])
    fix i u
    assume i: "i < ht_N ht"
    note e = entry_simD [OF sim_entry [OF assms(1,2) i] assms(3)]
    show "set_search_body dk s hash key i u = (let entry = ht_table ht ! i
              in if \<not> e_present entry \<and> \<not> e_deleted entry then Inl None
                 else if e_present entry \<and> e_hash entry = hash \<and> key_equals_function ht key (e_key entry) then Inl (Some i)
                 else Inr ())"
      using e simD(4) [OF assms(1)] by (auto simp: set_search_body_def Let_def)
  qed
  then show ?thesis using assms(4) by (simp add: set_search_def hash_table_search_def start)
qed

lemma sim_update:
  assumes "sim dk s ht" and "entry_sim dk e he"
  shows "sim dk (s\<lparr>s_table := (s_table s)[i := e]\<rparr>) (ht\<lparr>ht_table := (ht_table ht)[i := he]\<rparr>)"
  using assms by (auto simp: sim_def intro: list_all2_update_cong)

definition unmarked :: "hash_table \<Rightarrow> bool" where
  "unmarked ht \<longleftrightarrow> (\<forall>e \<in> set (ht_table ht). \<not> e_deleted e)"

lemma set_add_rehash_sim:
  assumes s: "sim dk s ht" and w: "ht_whole ht" and un: "unmarked ht" and dk: "dk \<noteq> 0" and e: "entry_sim dk e he" "entry_is_present dk e"
    and ok: "hash_table_insert_rehash he ht = Some ht'"
  shows "\<exists>s'. set_add_rehash (s_hash e) (s_key e) s = Some s' \<and> sim dk s' ht' \<and> ht_whole ht' \<and> unmarked ht'"
proof -
  let ?body = "\<lambda>i u. if \<not> e_present (ht_table ht ! i) then Inl i else Inr ()"
  have h: "e_hash he = s_hash e" "e_key he = s_key e" "e_data he = s_key e" using e by (auto simp: entry_sim_def)
  obtain i where i: "probe_loop (\<lambda>a. False) (ht_size ht) (double_hash ht (s_hash e)) ?body (start_address ht (s_hash e)) () = Some (Inl i)"
      "ht' = ht\<lparr>ht_table := (ht_table ht)[i := (ht_table ht ! i)\<lparr>e_hash := e_hash he, e_key := e_key he, e_data := e_data he, e_present := True\<rparr>]\<rparr>"
    using ok unfolding hash_table_insert_rehash_def h by (auto split: bind_splits sum.splits)
  have mark: "\<not> e_deleted (ht_table ht ! j)" if "j < length (ht_table ht)" for j using un that by (simp add: unmarked_def)
  have "probe_loop (\<lambda>a. False) (s_size s) (set_double_hash s (s_hash e)) (\<lambda>i u. if s_key (s_table s ! i) = 0 then Inl i else Inr ())
      (set_start_address s (s_hash e)) () = Some (Inl i)"
    unfolding i(1) [symmetric]
  proof (rule sim_probe [OF s w])
    fix j and u :: unit
    assume j: "j < ht_N ht"
    then have "s_key (s_table s ! j) = 0 \<longleftrightarrow> \<not> e_present (ht_table ht ! j)"
      using entry_simD(3) [OF sim_entry [OF s w j] dk] mark [of j] w by (simp add: ht_whole_def entry_is_free_def)
    then show "(if s_key (s_table s ! j) = 0 then Inl j else Inr ()) = ?body j u" by simp
  qed
  then have r: "set_add_rehash (s_hash e) (s_key e) s = Some (s\<lparr>s_table := (s_table s)[i := (s_table s ! i)\<lparr>s_hash := s_hash e, s_key := s_key e\<rparr>]\<rparr>)"
    by (simp add: set_add_rehash_def)
  show ?thesis
  proof (cases "i < length (ht_table ht)")
    case True
    have es: "entry_sim dk ((s_table s ! i)\<lparr>s_hash := s_hash e, s_key := s_key e\<rparr>)
        ((ht_table ht ! i)\<lparr>e_hash := e_hash he, e_key := e_key he, e_data := e_data he, e_present := True\<rparr>)"
      using mark [OF True] e(2) h by (auto simp: entry_sim_def entry_is_present_def entry_is_deleted_def)
    have "unmarked ht'" using un mark [OF True] unfolding unmarked_def i(2) by (auto dest: set_update_subset_insert [THEN subsetD])
    moreover have "ht_whole ht'" using w unfolding i(2) by (simp add: ht_whole_def ht_sized_def ht_N_def)
    ultimately show ?thesis using r sim_update [OF s es, of i] i(2) by auto
  next
    case False
    then have "ht' = ht" "(s_table s)[i := (s_table s ! i)\<lparr>s_hash := s_hash e, s_key := s_key e\<rparr>] = s_table s"
      using i(2) simD(1) [OF s] by (simp_all add: list_update_beyond)
    then show ?thesis using r s w un by simp
  qed
qed

lemma set_add_rehash_all_sim:
  "list_all2 (entry_sim dk) es hes \<Longrightarrow> (\<And>e. e \<in> set es \<Longrightarrow> entry_is_present dk e) \<Longrightarrow> sim dk s ht \<Longrightarrow> ht_whole ht \<Longrightarrow> unmarked ht \<Longrightarrow> dk \<noteq> 0 \<Longrightarrow>
   insert_rehash_all hes ht = Some ht' \<Longrightarrow> \<exists>s'. set_add_rehash_all es s = Some s' \<and> sim dk s' ht'"
proof (induction es hes arbitrary: s ht rule: list_all2_induct)
  case (Cons e es he hes)
  obtain ht1 where ht1: "hash_table_insert_rehash he ht = Some ht1" "insert_rehash_all hes ht1 = Some ht'" using Cons.prems(6) by (auto split: bind_splits)
  obtain s1 where s1: "set_add_rehash (s_hash e) (s_key e) s = Some s1" "sim dk s1 ht1" "ht_whole ht1" "unmarked ht1"
    using set_add_rehash_sim [OF Cons.prems(2-5) Cons.hyps(1) _ ht1(1)] Cons.prems(1) by auto
  then show ?case using Cons.IH [OF _ s1(2-4) Cons.prems(5) ht1(2)] Cons.prems(1) by auto
qed simp

lemma foreach_sim: "sim dk s ht \<Longrightarrow> list_all2 (entry_sim dk) (set_foreach dk s) (foreach ht)"
proof -
  have "list_all2 (entry_sim dk) es hes \<Longrightarrow> list_all2 (entry_sim dk) (filter (entry_is_present dk) es) (filter e_present hes)" for es hes
    by (induction es hes rule: list_all2_induct) (auto simp: entry_sim_def)
  then show "sim dk s ht \<Longrightarrow> ?thesis" by (simp add: sim_def set_foreach_def foreach_def)
qed

lemma zero_entry_sim: "dk \<noteq> 0 \<Longrightarrow> entry_sim dk zero_set_entry zero_entry"
  by (simp add: entry_sim_def zero_set_entry_def zero_entry_def entry_is_present_def entry_is_deleted_def)

lemma replicate_sim: "R a b \<Longrightarrow> list_all2 R (replicate n a) (replicate n b)"
  by (simp add: list_all2_conv_all_nth)

lemma set_clear_fast_sim: "sim dk s ht \<Longrightarrow> dk \<noteq> 0 \<Longrightarrow> sim dk (set_clear_fast s) (hash_table_clear_fast ht)"
  using zero_entry_sim [of dk]
  by (auto simp: sim_def set_clear_fast_def hash_table_clear_fast_def intro!: list_all2_appendI list_all2_dropI replicate_sim)

lemma set_rehash_sim:
  assumes s: "sim dk s ht" and dk: "dk \<noteq> 0" and new: "new < 27" and ok: "mesa_hash_table_rehash alloc new ht = Some ht'"
  shows "\<exists>s'. set_rehash dk alloc new s = Some s' \<and> sim dk s' ht'"
proof -
  note d = simD [OF s]
  consider (clear) "size_index ht = new \<and> deleted_entries ht = max_entries ht"
    | (fail) "\<not> (size_index ht = new \<and> deleted_entries ht = max_entries ht)" "\<not> alloc (unat (fst (snd (hash_sizes ! new))))"
    | (move) "\<not> (size_index ht = new \<and> deleted_entries ht = max_entries ht)" "alloc (unat (fst (snd (hash_sizes ! new))))" by blast
  then show ?thesis
  proof cases
    case clear
    then have "ht' = hash_table_clear_fast ht" using ok by (auto simp: mesa_hash_table_rehash_def Let_def split: bind_splits)
    moreover have "s_entries (set_clear_fast s) = 0" by (simp add: set_clear_fast_def)
    ultimately show ?thesis using set_clear_fast_sim [OF s dk] clear d by (simp add: set_rehash_def)
  next
    case fail
    then have "ht' = ht" using ok new by (auto simp: mesa_hash_table_rehash_def hash_sizes_length split: if_splits)
    then show ?thesis using fail s d new by (auto simp: set_rehash_def hash_sizes_length)
  next
    case move
    define ht0 where "ht0 = set_sizes new ht"
    define ht1 where "ht1 = ht0\<lparr>ht_table := replicate (unat (ht_size ht0)) zero_entry, ht_inline := False, entries := 0, deleted_entries := 0\<rparr>"
    define s0 where "s0 = set_set_sizes new s"
    define s1 where "s1 = s0\<lparr>s_table := replicate (unat (s_size s0)) zero_set_entry, s_inline := False, s_entries := 0, s_deleted_entries := 0\<rparr>"
    have nl: "\<not> length hash_sizes \<le> new" using new by (simp add: hash_sizes_length)
    obtain ht2 where ht2: "insert_rehash_all (foreach ht) ht1 = Some ht2" "ht' = ht2\<lparr>entries := entries ht\<rparr>"
      using ok move nl unfolding mesa_hash_table_rehash_def ht0_def [symmetric] by (auto simp: ht1_def Let_def split: bind_splits)
    have "s_size s0 = ht_size ht0" by (simp add: s0_def ht0_def set_set_sizes_def set_sizes_def split: prod.splits)
    then have sim1: "sim dk s1 ht1" using s zero_entry_sim [OF dk]
      by (auto simp: sim_def s1_def ht1_def s0_def ht0_def set_set_sizes_def set_sizes_def replicate_sim split: prod.splits)
    have w1: "ht_whole ht1" "unmarked ht1" using new
      by (auto simp: ht_whole_def ht_sized_def ht_N_def unmarked_def ht1_def ht0_def set_sizes_def zero_entry_def split: prod.splits)
    obtain s2 where s2: "set_add_rehash_all (set_foreach dk s) s1 = Some s2" "sim dk s2 ht2"
      using set_add_rehash_all_sim [OF foreach_sim [OF s] _ sim1 w1 dk ht2(1)] by (auto simp: set_foreach_def)
    have "set_rehash dk alloc new s = Some (s2\<lparr>s_entries := s_entries s\<rparr>)"
      using move nl d s2(1) unfolding set_rehash_def s0_def [symmetric] by (auto simp: s1_def Let_def)
    moreover have "sim dk (s2\<lparr>s_entries := s_entries s\<rparr>) ht'" using s2(2) d(7) unfolding ht2(2) by (auto simp: sim_def)
    ultimately show ?thesis by blast
  qed
qed

lemma set_make_room_sim:
  assumes s: "sim dk s ht" and dk: "dk \<noteq> 0" and ix: "size_index ht < 27" "max_entries ht \<le> entries ht \<Longrightarrow> size_index ht + 1 < 27"
    and ok: "make_room alloc ht = Some ht'"
  shows "\<exists>s'. set_make_room dk alloc s = Some s' \<and> sim dk s' ht'"
proof -
  note d = simD [OF s]
  consider "max_entries ht \<le> entries ht" | "\<not> max_entries ht \<le> entries ht" "max_entries ht \<le> deleted_entries ht + entries ht"
    | "\<not> max_entries ht \<le> entries ht" "\<not> max_entries ht \<le> deleted_entries ht + entries ht" by blast
  then show ?thesis
  proof cases
    case 1
    then show ?thesis using set_rehash_sim [OF s dk, of "size_index ht + 1" alloc ht'] ix ok d by (simp add: make_room_def set_make_room_def)
  next
    case 2
    then show ?thesis using set_rehash_sim [OF s dk, of "size_index ht" alloc ht'] ix ok d by (simp add: make_room_def set_make_room_def)
  next
    case 3
    then show ?thesis using s ok d by (simp add: make_room_def set_make_room_def)
  qed
qed

lemma search_or_add_probe:
  assumes s: "sim dk s ht" and w: "ht_whole ht" and dk: "dk \<noteq> 0"
  shows "probe_loop (\<lambda>a. a = set_start_address s hash) (s_size s) (set_double_hash s hash) (search_or_add_body dk s hash key) (set_start_address s hash) None =
    probe_loop (\<lambda>a. a = start_address ht hash) (ht_size ht) (double_hash ht hash) (get_entry_body ht hash key) (start_address ht hash) None"
proof -
  have "set_start_address s hash = start_address ht hash" using s by (simp add: sim_def set_start_address_def start_address_def)
  then have stop: "(\<lambda>a. a = set_start_address s hash) = (\<lambda>a. a = start_address ht hash)" by simp
  show ?thesis unfolding stop
  proof (rule sim_probe [OF s w])
    fix i y
    assume i: "i < ht_N ht"
    note e = entry_simD [OF sim_entry [OF s w i] dk]
    show "search_or_add_body dk s hash key i y = get_entry_body ht hash key i y"
      using e simD(4) [OF s] by (auto simp: search_or_add_body_def get_entry_body_def Let_def)
  qed
qed

lemma sim_overwrite:
  assumes s: "sim dk s ht" and dk: "dk \<noteq> 0" and key: "\<not> key_pointer_is_reserved dk key"
  shows "sim dk (s\<lparr>s_table := (s_table s)[i := (s_table s ! i)\<lparr>s_key := key\<rparr>]\<rparr>) (put_entry i key key ht)"
proof (cases "i < length (ht_table ht)")
  case True
  then have "entry_sim dk ((s_table s ! i)\<lparr>s_key := key\<rparr>) ((ht_table ht ! i)\<lparr>e_key := key, e_data := key, e_present := True, e_deleted := False\<rparr>)"
    using simD(2) [OF s True] key by (auto simp: entry_sim_def key_pointer_is_reserved_def entry_is_present_def entry_is_deleted_def)
  then show ?thesis using sim_update [OF s] by (simp add: put_entry_def)
next
  case False
  then show ?thesis using s simD(1) [OF s] by (simp add: put_entry_def list_update_beyond)
qed

lemma sim_take_available:
  assumes s: "sim dk s ht" and dk: "dk \<noteq> 0" and key: "\<not> key_pointer_is_reserved dk key" and i: "i < length (ht_table ht)"
  shows "sim dk (snd (set_take_available dk hash key (Some i) s)) (put_entry i key key (snd (take_available hash (Some i) ht)))"
proof -
  note e = entry_simD [OF simD(2) [OF s i] dk]
  have ss: "entry_sim dk ((s_table s ! i)\<lparr>s_hash := hash, s_key := key\<rparr>)
      ((ht_table ht ! i)\<lparr>e_hash := hash, e_key := key, e_data := key, e_present := True, e_deleted := False\<rparr>)"
    using key by (auto simp: entry_sim_def key_pointer_is_reserved_def entry_is_present_def entry_is_deleted_def)
  have "list_all2 (entry_sim dk) ((s_table s)[i := (s_table s ! i)\<lparr>s_hash := hash, s_key := key\<rparr>])
      ((ht_table ht)[i := (ht_table ht ! i)\<lparr>e_hash := hash, e_key := key, e_data := key, e_present := True, e_deleted := False\<rparr>])"
    using s ss by (auto simp: sim_def intro: list_all2_update_cong)
  then show ?thesis using s e(2) i by (auto simp: sim_def set_take_available_def take_available_def put_entry_def)
qed

text \<open>What a run of the search with insertion did: found the key, or took a place for it, or found no place.\<close>

lemma search_or_add_cases:
  assumes s: "sim dk s ht" and dk: "dk \<noteq> 0" and key: "\<not> key_pointer_is_reserved dk key"
    and ix: "size_index ht < 27" "max_entries ht \<le> entries ht \<Longrightarrow> size_index ht + 1 < 27"
    and room: "make_room alloc ht = Some hr" and inv: "ht_inv hr" and ins: "hash_table_insert alloc hash key key ht = Some (entry, ht')"
  obtains (found) sr i where "set_search_or_add dk alloc hash key s = Some ((Some i, True), sr)" "sim dk sr hr" "entry = Some i"
      "i < ht_N hr" "matches (key_equals_function hr) hash key (slots hr ! i)" "ht' = put_entry i key key hr"
    | (added) sr i where "set_search_or_add dk alloc hash key s = Some ((Some i, False), sr)" "sim dk sr ht'" "entry = Some i" "i < ht_N hr" "s_key (s_table sr ! i) = key"
      "\<forall>i < ht_N hr. \<not> matches (key_equals_function hr) hash key (slots hr ! i)"
    | (full) sr where "set_search_or_add dk alloc hash key s = Some ((None, False), sr)" "entry = None" "sim dk sr ht'"
proof -
  obtain sr where sr: "set_make_room dk alloc s = Some sr" "sim dk sr hr" using set_make_room_sim [OF s dk ix room] by blast
  obtain r where r: "probe_loop (\<lambda>a. a = start_address hr hash) (ht_size hr) (double_hash hr hash) (get_entry_body hr hash key) (start_address hr hash) None = Some r"
      "case r of
           Inl (Inl i) \<Rightarrow> i < ht_N hr \<and> matches (key_equals_function hr) hash key (slots hr ! i)
         | Inl (Inr available) \<Rightarrow> insertable (ht_N hr) (ht_R hr) (key_equals_function hr) hash key (slots hr) available
         | Inr available \<Rightarrow> insertable (ht_N hr) (ht_R hr) (key_equals_function hr) hash key (slots hr) available"
    by (rule get_probe [OF inv])
  have get: "hash_table_get_entry alloc hash key ht = Some (case r of Inl (Inl i) \<Rightarrow> (Some i, hr) | Inl (Inr available) \<Rightarrow> take_available hash available hr
      | Inr available \<Rightarrow> take_available hash available hr)"
    using room r(1) by (simp add: hash_table_get_entry_def)
  have soa: "set_search_or_add dk alloc hash key s = Some (case r of Inl (Inl i) \<Rightarrow> ((Some i, True), sr)
      | Inl (Inr available) \<Rightarrow> set_take_available dk hash key available sr | Inr available \<Rightarrow> set_take_available dk hash key available sr)"
    using key sr(1) r(1) search_or_add_probe [OF sr(2) ht_inv_whole [OF inv] dk] by (simp add: set_search_or_add_def)
  have avail: thesis if av: "insertable (ht_N hr) (ht_R hr) (key_equals_function hr) hash key (slots hr) available"
    and g: "hash_table_get_entry alloc hash key ht = Some (take_available hash available hr)"
    and a: "set_search_or_add dk alloc hash key s = Some (set_take_available dk hash key available sr)" for available
  proof (cases available)
    case None
    then show thesis using full [of sr] g a ins sr(2) by (simp add: hash_table_insert_def take_available_def set_take_available_def)
  next
    case (Some i)
    have i: "i < length (ht_table hr)" "\<forall>i < ht_N hr. \<not> matches (key_equals_function hr) hash key (slots hr ! i)"
      using av ht_inv_length [OF inv] visit_lt [OF ht_invD(2) [OF inv]] unfolding Some insertable_def by auto
    have "entry = Some i \<and> ht' = put_entry i key key (snd (take_available hash (Some i) hr))"
      using ins g by (auto simp: hash_table_insert_def Some take_available_def put_entry_def)
    moreover have "set_search_or_add dk alloc hash key s = Some ((Some i, False), snd (set_take_available dk hash key (Some i) sr))"
      using a by (simp add: Some set_take_available_def)
    moreover have "s_key (s_table (snd (set_take_available dk hash key (Some i) sr)) ! i) = key"
      using i(1) simD(1) [OF sr(2)] by (simp add: set_take_available_def)
    ultimately show thesis using added [of i] sim_take_available [OF sr(2) dk key i(1)] i ht_inv_length [OF inv] by simp
  qed
  show thesis
  proof (cases r)
    case (Inr available)
    then show thesis using avail [of available] r(2) get soa by simp
  next
    case (Inl q)
    show thesis
    proof (cases q)
      case (Inr available)
      then show thesis using avail [of available] r(2) get soa Inl by simp
    next
      case (Inl i)
      then have "entry = Some i \<and> ht' = put_entry i key key hr" using ins get \<open>r = Inl q\<close> by (auto simp: hash_table_insert_def put_entry_def)
      then show thesis using found [of i sr] soa sr(2) r(2) \<open>r = Inl q\<close> Inl by simp
    qed
  qed
qed

lemma ht_map_match:
  assumes "ht_inv ht" and "i < ht_N ht" and "matches (key_equals_function ht) h k (slots ht ! i)"
  shows "ht_map ht h k = Some (e_data (ht_table ht ! i))" and "e_present (ht_table ht ! i)"
proof -
  note l = ht_inv_length [OF assms(1)]
  have "lookup_entry ht h k = Some (ht_table ht ! i)"
    unfolding lookup_entry_def using assms l ht_inv_uniq [OF assms(1)] by (intro find_unique) (auto simp: slots_nth)
  then show "ht_map ht h k = Some (e_data (ht_table ht ! i))" by (simp add: ht_map_def)
  show "e_present (ht_table ht ! i)" using assms(2,3) l by (auto simp: slots_nth)
qed

lemma ht_map_no_match:
  assumes "ht_inv ht" and "\<forall>i < ht_N ht. \<not> matches (key_equals_function ht) h k (slots ht ! i)"
  shows "ht_map ht h k = None"
proof -
  have "lookup_entry ht h k = None"
    unfolding lookup_entry_def using assms(2) ht_inv_length [OF assms(1)] by (intro find_none) (auto simp: slots_nth)
  then show ?thesis by (simp add: ht_map_def)
qed

text \<open>The key of an entry the search returns, and the two forms of insertion; \<open>*found\<close> tells whether there was an equal key.\<close>

definition entry_key :: "mesa_set \<Rightarrow> nat option \<Rightarrow> ptr option" where
  "entry_key s entry = map_option (\<lambda>i. s_key (s_table s ! i)) entry"

lemma set_search_or_add_sim:
  assumes s: "sim dk s ht" and dk: "dk \<noteq> 0" and key: "\<not> key_pointer_is_reserved dk key"
    and ix: "size_index ht < 27" "max_entries ht \<le> entries ht \<Longrightarrow> size_index ht + 1 < 27"
    and room: "make_room alloc ht = Some hr" and inv: "ht_inv hr" and ins: "hash_table_insert alloc hash key key ht = Some (Some i, ht')"
  shows "\<exists>s'. set_search_or_add dk alloc hash key s = Some ((Some i, ht_map hr hash key \<noteq> None), s') \<and> i < ht_N hr \<and>
    (case ht_map hr hash key of
       None \<Rightarrow> sim dk s' ht' \<and> s_key (s_table s' ! i) = key
     | Some k \<Rightarrow> sim dk s' hr \<and> s_key (s_table s' ! i) = k \<and> ht' = put_entry i key key hr)"
proof (rule search_or_add_cases [OF assms])
  fix sr j
  assume f: "set_search_or_add dk alloc hash key s = Some ((Some j, True), sr)" "sim dk sr hr" "Some i = Some j" "j < ht_N hr"
    "matches (key_equals_function hr) hash key (slots hr ! j)" "ht' = put_entry j key key hr"
  then show ?thesis
    using ht_map_match [OF inv f(4,5)] entry_simD(6) [OF sim_entry [OF f(2) ht_inv_whole [OF inv] f(4)] dk] by auto
next
  fix sr j
  assume "set_search_or_add dk alloc hash key s = Some ((Some j, False), sr)" "sim dk sr ht'" "Some i = Some j" "j < ht_N hr"
    "s_key (s_table sr ! j) = key" "\<forall>i < ht_N hr. \<not> matches (key_equals_function hr) hash key (slots hr ! i)"
  then show ?thesis using ht_map_no_match [OF inv] by auto
next
  assume "Some i = None"
  then show ?thesis by simp
qed

lemma set_search_and_add_sim:
  assumes s: "sim dk s ht" and dk: "dk \<noteq> 0" and key: "\<not> key_pointer_is_reserved dk key"
    and ix: "size_index ht < 27" "max_entries ht \<le> entries ht \<Longrightarrow> size_index ht + 1 < 27"
    and room: "make_room alloc ht = Some hr" and inv: "ht_inv hr" and ins: "hash_table_insert alloc hash key key ht = Some (Some i, ht')"
  shows "\<exists>s'. set_search_and_add dk alloc hash key s = Some ((Some i, ht_map hr hash key \<noteq> None), s') \<and> sim dk s' ht' \<and>
    s_key (s_table s' ! i) = key"
proof -
  obtain sr where sr: "set_search_or_add dk alloc hash key s = Some ((Some i, ht_map hr hash key \<noteq> None), sr)" "i < ht_N hr"
    and r: "case ht_map hr hash key of
       None \<Rightarrow> sim dk sr ht' \<and> s_key (s_table sr ! i) = key
     | Some k \<Rightarrow> sim dk sr hr \<and> s_key (s_table sr ! i) = k \<and> ht' = put_entry i key key hr"
    using set_search_or_add_sim [OF assms] by blast
  let ?s' = "sr\<lparr>s_table := (s_table sr)[i := (s_table sr ! i)\<lparr>s_key := key\<rparr>]\<rparr>"
  have st: "set_search_and_add dk alloc hash key s = Some ((Some i, ht_map hr hash key \<noteq> None), ?s')"
    using sr(1) by (simp add: set_search_and_add_def)
  show ?thesis
  proof (cases "ht_map hr hash key")
    case None
    then have r': "sim dk sr ht'" "s_key (s_table sr ! i) = key" using r by simp_all
    then have "(s_table sr ! i)\<lparr>s_key := key\<rparr> = s_table sr ! i" by (cases "s_table sr ! i") simp
    then have "?s' = sr" by simp
    then show ?thesis using st r' by metis
  next
    case (Some k)
    then have r': "sim dk sr hr" "ht' = put_entry i key key hr" using r by simp_all
    then have "i < length (s_table sr)" using simD(1) [OF r'(1)] ht_inv_length [OF inv] sr(2) by simp
    then show ?thesis using st sim_overwrite [OF r'(1) dk key, of i] r'(2) by simp
  qed
qed

section \<open>The set as a map from keys to equal keys\<close>

text \<open>
  What a set stands for: its equality and, for every key, the equal key it holds.  The operations of a client
  are steps on a set and the answers so far: the key in the entry an operation returns, and \<open>*found\<close>.
\<close>

definition stored :: "ptr \<Rightarrow> mesa_set \<Rightarrow> u32 \<Rightarrow> ptr \<Rightarrow> ptr option" where
  "stored dk s h k = map_option s_key (find (\<lambda>e. entry_is_present dk e \<and> s_hash e = h \<and> s_equals_function s k (s_key e)) (s_table s))"

definition set_abs :: "ptr \<Rightarrow> mesa_set \<Rightarrow> key_map" where
  "set_abs dk s = (s_equals_function s, \<lambda>k. case s_hash_function s of None \<Rightarrow> None | Some f \<Rightarrow> stored dk s (f k) k)"

datatype mesa_set_op = SSearch ptr | SAdd ptr | SSearchAndAdd ptr | SSearchOrAdd ptr | SRemove ptr | SClear bool | SResize u32

type_synonym answers = "(ptr option \<times> bool) list"

definition mesa_set_step :: "ptr \<Rightarrow> (nat \<Rightarrow> bool) \<Rightarrow> mesa_set_op \<Rightarrow> answers \<times> mesa_set \<Rightarrow> (answers \<times> mesa_set) option" where
  "mesa_set_step dk alloc x = (\<lambda>(as, s). case x of
     SSearch k \<Rightarrow> do { entry \<leftarrow> mesa_set_search dk s k; Some (as @ [(entry_key s entry, entry \<noteq> None)], s) }
   | SAdd k \<Rightarrow> do { (entry, s) \<leftarrow> mesa_set_add dk alloc k s; Some (as @ [(entry_key s entry, False)], s) }
   | SSearchAndAdd k \<Rightarrow> do { ((entry, found), s) \<leftarrow> mesa_set_search_and_add dk alloc k s; Some (as @ [(entry_key s entry, found)], s) }
   | SSearchOrAdd k \<Rightarrow> do { ((entry, found), s) \<leftarrow> mesa_set_search_or_add dk alloc k s; Some (as @ [(entry_key s entry, found)], s) }
   | SRemove k \<Rightarrow> do { s \<leftarrow> mesa_set_remove_key dk k s; Some (as, s) }
   | SClear del \<Rightarrow> Some (as, snd (mesa_set_clear dk del s))
   | SResize n \<Rightarrow> do { s \<leftarrow> mesa_set_resize dk alloc n s; Some (as, s) })"

text \<open>The specification: \<open>search_or_add\<close> keeps the key that is there, the other insertions replace it.\<close>

definition mesa_set_spec :: "mesa_set_op \<Rightarrow> answers \<times> key_map \<Rightarrow> answers \<times> key_map" where
  "mesa_set_spec x = (\<lambda>(as, m). case x of
     SSearch k \<Rightarrow> (as @ [(snd m k, snd m k \<noteq> None)], m)
   | SAdd k \<Rightarrow> (as @ [(Some k, False)], ht_spec (HInsert k k) m)
   | SSearchAndAdd k \<Rightarrow> (as @ [(Some k, snd m k \<noteq> None)], ht_spec (HInsert k k) m)
   | SSearchOrAdd k \<Rightarrow>
       (case snd m k of None \<Rightarrow> (as @ [(Some k, False)], ht_spec (HInsert k k) m) | Some k' \<Rightarrow> (as @ [(Some k', True)], m))
   | SRemove k \<Rightarrow> (as, ht_spec (HRemove k) m)
   | SClear del \<Rightarrow> (as, ht_spec (HClear del) m)
   | SResize n \<Rightarrow> (as, m))"

fun set_allowed :: "ptr \<Rightarrow> mesa_set_op \<Rightarrow> bool" where
  "set_allowed dk (SSearch k) = (\<not> key_pointer_is_reserved dk k)"
| "set_allowed dk (SAdd k) = (\<not> key_pointer_is_reserved dk k)"
| "set_allowed dk (SSearchAndAdd k) = (\<not> key_pointer_is_reserved dk k)"
| "set_allowed dk (SSearchOrAdd k) = (\<not> key_pointer_is_reserved dk k)"
| "set_allowed dk (SRemove k) = (\<not> key_pointer_is_reserved dk k)"
| "set_allowed dk (SResize n) = (unat n \<le> 2 ^ 30)"
| "set_allowed dk (SClear del) = True"

lemma find_list_all2:
  "list_all2 R xs ys \<Longrightarrow> (\<And>x y. R x y \<Longrightarrow> P x = Q y) \<Longrightarrow> (\<And>x y. R x y \<Longrightarrow> P x \<Longrightarrow> f x = g y) \<Longrightarrow>
   map_option f (find P xs) = map_option g (find Q ys)"
  by (induction xs ys rule: list_all2_induct) auto

lemma stored_sim:
  assumes "sim dk s ht" and "dk \<noteq> 0"
  shows "stored dk s h k = ht_map ht h k"
  unfolding stored_def ht_map_def lookup_entry_def
proof (rule find_list_all2)
  show "list_all2 (entry_sim dk) (s_table s) (ht_table ht)" using assms(1) by (simp add: sim_def)
  fix e he
  assume e: "entry_sim dk e he"
  show "(entry_is_present dk e \<and> s_hash e = h \<and> s_equals_function s k (s_key e)) = (e_present he \<and> e_hash he = h \<and> key_equals_function ht k (e_key he))"
    using e simD(4) [OF assms(1)] by (auto simp: entry_sim_def)
  show "entry_is_present dk e \<and> s_hash e = h \<and> s_equals_function s k (s_key e) \<Longrightarrow> s_key e = e_data he" using e by (auto simp: entry_sim_def)
qed

lemma set_abs_sim: "sim dk s ht \<Longrightarrow> dk \<noteq> 0 \<Longrightarrow> set_abs dk s = ht_abs ht"
  using stored_sim [of dk s ht] simD(3,4) [of dk s ht] by (auto simp: set_abs_def ht_abs_def fun_eq_iff split: option.splits)

lemma ht_run_index:
  assumes "ht_run_inv n ht" and "n < 2 ^ 30"
  shows "size_index ht < 27" and "max_entries ht \<le> entries ht \<Longrightarrow> size_index ht + 1 < 27" and "unat (entries ht) < 2 ^ 30"
proof -
  have sz: "ht_sized ht" using assms(1) by (auto simp: ht_run_inv_def ht_invD)
  show e: "unat (entries ht) < 2 ^ 30" using assms by (auto simp: ht_run_inv_def)
  show i: "size_index ht < 27" using sz by (simp add: ht_sized_def)
  show "size_index ht + 1 < 27" if "max_entries ht \<le> entries ht"
  proof -
    have "size_index ht \<noteq> 26" using e max_entries_of [OF sz] that by (auto simp: max_entries_26 word_le_nat_alt)
    then show ?thesis using i by simp
  qed
qed

text \<open>Entries carry the hash of their key.\<close>

definition ht_hashed :: "(ptr \<Rightarrow> u32) \<Rightarrow> hash_table \<Rightarrow> bool" where
  "ht_hashed f ht \<longleftrightarrow> key_hash_function ht = Some f \<and> (\<forall>h k. ht_map ht h k \<noteq> None \<longrightarrow> h = f k)"

definition set_run_inv :: "ptr \<Rightarrow> (ptr \<Rightarrow> u32) \<Rightarrow> nat \<Rightarrow> answers \<times> mesa_set \<Rightarrow> bool" where
  "set_run_inv dk f n = (\<lambda>(as, s). dk \<noteq> 0 \<and> (\<exists>ht. sim dk s ht \<and> ht_run_inv n ht \<and> ht_hashed f ht))"

lemma same_map_hashed: "same_map ht ht' \<Longrightarrow> ht_hashed f ht \<Longrightarrow> ht_hashed f ht'"
  by (simp add: same_map_def ht_hashed_def)

text \<open>The steps of a client, on a set and the hash table that it mirrors.\<close>

lemma ht_abs_app: "key_hash_function ht = Some f \<Longrightarrow> snd (ht_abs ht) k = ht_map ht (f k) k"
  by (simp add: ht_abs_def)

lemma add_steps:
  assumes s: "sim dk s ht" and dk: "dk \<noteq> 0" and r: "ht_run_inv n ht" and n: "n < 2 ^ 30" and key: "\<not> key_pointer_is_reserved dk k"
    and hh: "ht_hashed f ht"
  obtains i s1 ht1 s2 ht2 where
    "set_search_and_add dk (\<lambda>n. True) (f k) k s = Some ((Some i, snd (ht_abs ht) k \<noteq> None), s1)" "s_key (s_table s1 ! i) = k"
    "sim dk s1 ht1" "ht_run_inv (Suc n) ht1 \<and> ht_hashed f ht1" "ht_abs ht1 = ht_spec (HInsert k k) (ht_abs ht)"
    "set_search_or_add dk (\<lambda>n. True) (f k) k s = Some ((Some i, snd (ht_abs ht) k \<noteq> None), s2)" "sim dk s2 ht2" "ht_run_inv (Suc n) ht2 \<and> ht_hashed f ht2"
    "case snd (ht_abs ht) k of
       None \<Rightarrow> s_key (s_table s2 ! i) = k \<and> ht_abs ht2 = ht_spec (HInsert k k) (ht_abs ht)
     | Some k' \<Rightarrow> s_key (s_table s2 ! i) = k' \<and> ht_abs ht2 = ht_abs ht"
proof -
  have inv: "ht_inv ht" "ht_loaded ht" and f: "key_hash_function ht = Some f" using r hh by (auto simp: ht_run_inv_def ht_hashed_def)
  note ix = ht_run_index [OF r n]
  obtain hr where hr: "make_room (\<lambda>n. True) ht = Some hr" "ht_inv hr" "same_map ht hr"
      "unat (entries hr) + unat (deleted_entries hr) < unat (max_entries hr)"
    by (rule make_room_spec [OF inv TrueI ix(3)])
  obtain i ht1 where i: "hash_table_insert (\<lambda>n. True) (f k) k k ht = Some (Some i, ht1)" "key_hash_function ht1 = key_hash_function ht"
      "ht_map ht1 = (\<lambda>h' k'. if h' = f k \<and> key_equals_function ht k k' then Some k else ht_map ht h' k')"
    by (rule insert_spec [OF inv TrueI ix(3)])
  have "hash_respects f (key_equals_function ht)" using r f by (auto simp: ht_run_inv_def)
  then have "ht_hashed f ht1" using hh i(2) f unfolding ht_hashed_def i(3) by (auto simp: hash_respects_def split: if_splits)
  then have h1: "ht_run_inv (Suc n) ht1 \<and> ht_hashed f ht1" "ht_abs ht1 = ht_spec (HInsert k k) (ht_abs ht)"
    using ht_step_insert [OF r n, of k k] i(1) f by (auto simp: ht_step_def mesa_hash_table_insert_def)
  have m: "ht_map hr (f k) k = snd (ht_abs ht) k" using hr(3) ht_abs_app [OF f] by (simp add: same_map_def)
  have room: "ht_run_inv (Suc n) hr \<and> ht_hashed f hr" "ht_abs hr = ht_abs ht"
    using r hr(2-4) same_map_hashed [OF hr(3) hh] by (auto simp: ht_run_inv_def same_map_def ht_loaded_def ht_abs_def)
  note a = s dk key ix(1,2) hr(1,2) i(1)
  obtain s1 where s1: "set_search_and_add dk (\<lambda>n. True) (f k) k s = Some ((Some i, snd (ht_abs ht) k \<noteq> None), s1)" "sim dk s1 ht1" "s_key (s_table s1 ! i) = k"
    using set_search_and_add_sim [OF a] m by auto
  obtain s2 where s2: "set_search_or_add dk (\<lambda>n. True) (f k) k s = Some ((Some i, snd (ht_abs ht) k \<noteq> None), s2)"
      "case snd (ht_abs ht) k of None \<Rightarrow> sim dk s2 ht1 \<and> s_key (s_table s2 ! i) = k
       | Some k' \<Rightarrow> sim dk s2 hr \<and> s_key (s_table s2 ! i) = k' \<and> ht1 = put_entry i k k hr"
    using set_search_or_add_sim [OF a] unfolding m by auto
  show thesis
  proof (cases "snd (ht_abs ht) k")
    case None
    then show thesis using that [OF s1(1,3,2) h1 s2(1), of ht1] s2(2) h1 by simp
  next
    case (Some k')
    then show thesis using that [OF s1(1,3,2) h1 s2(1), of hr] s2(2) room by simp
  qed
qed

lemma mesa_set_search_sim:
  assumes "sim dk s ht" and "ht_inv ht" and "dk \<noteq> 0" and "\<not> key_pointer_is_reserved dk k"
  shows "mesa_set_search dk s k = mesa_hash_table_search ht k"
  using set_search_sim [OF assms(1) ht_inv_whole [OF assms(2)] assms(3,4)] simD(3) [OF assms(1)]
  by (simp add: mesa_set_search_def mesa_hash_table_search_def)

lemma search_step:
  assumes s: "sim dk s ht" and dk: "dk \<noteq> 0" and r: "ht_run_inv n ht" and key: "\<not> key_pointer_is_reserved dk k"
  obtains entry where "mesa_set_search dk s k = Some entry" and "entry_key s entry = snd (ht_abs ht) k"
proof -
  obtain f where inv: "ht_inv ht" and f: "key_hash_function ht = Some f" using r by (auto simp: ht_run_inv_def)
  obtain entry where e: "hash_table_search ht (f k) k = Some entry"
    "case entry of
        None \<Rightarrow> lookup_entry ht (f k) k = None
      | Some i \<Rightarrow> i < length (ht_table ht) \<and> lookup_entry ht (f k) k = Some (ht_table ht ! i) \<and>
                  e_present (ht_table ht ! i) \<and> e_hash (ht_table ht ! i) = f k \<and>
                  key_equals_function ht k (e_key (ht_table ht ! i))"
    using hash_table_search_result [OF inv, of "f k" k] by blast
  have "entry_key s entry = snd (ht_abs ht) k"
    using e(2) entry_simD(6) [OF simD(2) [OF s] dk] unfolding ht_abs_app [OF f] by (auto simp: entry_key_def ht_map_def split: option.splits)
  then show thesis using that e(1) mesa_set_search_sim [OF s inv dk key] f by (auto simp: mesa_hash_table_search_def)
qed

lemma remove_sim:
  assumes s: "sim dk s ht" and dk: "dk \<noteq> 0"
  shows "sim dk (mesa_set_remove dk entry s) (mesa_hash_table_remove entry ht)"
proof (cases entry)
  case None
  then show ?thesis using s by (simp add: mesa_set_remove_def mesa_hash_table_remove_def)
next
  case (Some i)
  have "list_all2 (entry_sim dk) ((s_table s)[i := (s_table s ! i)\<lparr>s_key := dk\<rparr>])
      ((ht_table ht)[i := (ht_table ht ! i)\<lparr>e_present := False, e_deleted := True\<rparr>])"
  proof (cases "i < length (ht_table ht)")
    case True
    then have "entry_sim dk ((s_table s ! i)\<lparr>s_key := dk\<rparr>) ((ht_table ht ! i)\<lparr>e_present := False, e_deleted := True\<rparr>)"
      using simD(2) [OF s True] by (auto simp: entry_sim_def entry_is_present_def entry_is_deleted_def)
    then show ?thesis using s by (auto simp: sim_def intro: list_all2_update_cong)
  next
    case False
    then show ?thesis using s simD(1) [OF s] by (simp add: list_update_beyond sim_def)
  qed
  then show ?thesis using s Some by (simp add: sim_def mesa_set_remove_def mesa_hash_table_remove_def)
qed

lemma clear_sim:
  assumes s: "sim dk s ht" and dk: "dk \<noteq> 0"
  shows "sim dk (snd (mesa_set_clear dk del s)) (snd (mesa_hash_table_clear del ht))"
proof (cases del)
  case True
  have "list_all2 (entry_sim dk) (map (\<lambda>e. e\<lparr>s_key := 0\<rparr>) (s_table s)) (map (\<lambda>e. e\<lparr>e_present := False, e_deleted := False\<rparr>) (ht_table ht))"
    unfolding list_all2_map1 list_all2_map2
    by (rule list_all2_mono [of "entry_sim dk"]) (use s dk in \<open>auto simp: sim_def entry_sim_def entry_is_present_def entry_is_deleted_def\<close>)
  then show ?thesis using s True by (simp add: sim_def mesa_set_clear_def mesa_hash_table_clear_def)
next
  case False
  then show ?thesis using set_clear_fast_sim [OF s dk] by (simp add: mesa_set_clear_def mesa_hash_table_clear_def)
qed

lemma resize_step:
  assumes s: "sim dk s ht" and dk: "dk \<noteq> 0" and r: "ht_run_inv n ht" and n: "n < 2 ^ 30" and m: "unat m \<le> 2 ^ 30"
  obtains s' ht' where "mesa_set_resize dk (\<lambda>n. True) m s = Some s'" and "sim dk s' ht'" and "ht_run_inv (Suc n) ht'" and "same_map ht ht'"
    and "m \<le> s_max_entries s'"
proof -
  define p where "p = (if s_entries s > m then s_entries s else m)"
  let ?is = "[0..<length hash_sizes]" and ?p = "\<lambda>i. \<not> fst (hash_sizes ! i) < p"
  note inv = ht_run_index(3) [OF r n] and d = simD [OF s]
  have hi: "ht_inv ht" "ht_loaded ht" using r by (auto simp: ht_run_inv_def)
  have ep: "entries ht \<le> p" "m \<le> p" using d(7) by (auto simp: p_def)
  have p30: "unat p \<le> 2 ^ 30" using m inv d(7) by (simp add: p_def)
  then have p26: "?p 26" by (simp add: max_entries_26 word_less_nat_alt not_less)
  then obtain i where i: "find ?p ?is = Some i" "?p i" "\<forall>j < i. \<not> ?p j" "i < 28"
  proof -
    have "find ?p ?is \<noteq> None" using p26 by (auto simp: find_None_iff hash_sizes_length intro!: exI [of _ 26])
    then obtain i where "find ?p ?is = Some i" by auto
    then show thesis using that [of i] unfolding find_Some_iff by (auto simp: hash_sizes_length)
  qed
  have i27: "i < 27"
  proof (rule ccontr)
    assume "\<not> i < 27"
    then have "26 < i" by simp
    then show False using i(3) p26 by blast
  qed
  have en: "entries ht \<le> fst (hash_sizes ! i)" using i(2) ep(1) by simp
  obtain ht' where ht': "mesa_hash_table_rehash (\<lambda>n. True) i ht = Some ht'" "ht_inv ht'" "same_map ht ht'" "size_index ht' = i" "deleted_entries ht' = 0"
  proof (cases "size_index ht = i \<and> deleted_entries ht = max_entries ht")
    case True
    then have de: "deleted_entries ht = max_entries ht" and ix: "size_index ht = i" by simp_all
    show thesis by (rule rehash_in_place [where alloc = "\<lambda>n. True", OF hi de]) (use that ix in auto)
  next
    case False
    show thesis by (rule rehash_spec [where alloc = "\<lambda>n. True", OF hi(1) i27 TrueI False en]) (use that in auto)
  qed
  have mx: "max_entries ht' = fst (hash_sizes ! i)" using max_entries_of [OF ht_invD(1) [OF ht'(2)]] ht'(4) by simp
  have "ht_run_inv (Suc n) ht'" using r ht' mx en by (auto simp: ht_run_inv_def same_map_def ht_loaded_def word_le_nat_alt)
  moreover obtain s' where s': "set_rehash dk (\<lambda>n. True) i s = Some s'" "sim dk s' ht'" using set_rehash_sim [OF s dk i27 ht'(1)] by blast
  moreover have "m \<le> s_max_entries s'" using i(2) ep(2) mx simD(5) [OF s'(2)] by simp
  moreover have "mesa_set_resize dk (\<lambda>n. True) m s = Some s'" using i(1) s'(1) by (simp add: mesa_set_resize_def p_def [symmetric])
  ultimately show thesis using that ht'(3) by blast
qed

lemma same_map_abs: "same_map ht ht' \<Longrightarrow> ht_abs ht' = ht_abs ht"
  by (auto simp: ht_abs_def same_map_def fun_eq_iff split: option.splits)

lemma clear_hashed: "ht_inv ht \<Longrightarrow> ht_hashed f ht \<Longrightarrow> ht_hashed f (snd (mesa_hash_table_clear del ht))"
  by (simp add: ht_hashed_def clear_inv(2)) (simp add: mesa_hash_table_clear_def hash_table_clear_fast_def)

lemma remove_hashed:
  assumes "ht_inv ht" and "ht_hashed f ht" and "mesa_hash_table_search ht k = Some entry"
  shows "ht_hashed f (mesa_hash_table_remove entry ht)"
proof (cases entry)
  case (Some i)
  have f: "key_hash_function ht = Some f" "hash_table_search ht (f k) k = Some entry"
    using assms(2,3) by (auto simp: mesa_hash_table_search_def ht_hashed_def split: bind_splits)
  then have i: "i < ht_N ht" "e_present (ht_table ht ! i)" "e_hash (ht_table ht ! i) = f k" "key_equals_function ht k (e_key (ht_table ht ! i))"
    using hash_table_search_result [OF assms(1), of "f k" k] ht_inv_length [OF assms(1)] Some by auto
  show ?thesis using assms(2) unfolding Some ht_hashed_def ht_map_def lookup_entry_remove [OF assms(1) i] by (auto split: if_splits)
qed (use assms(2) in \<open>simp add: mesa_hash_table_remove_def\<close>)

lemma ht_run_inv_mono: "ht_run_inv n ht \<Longrightarrow> ht_run_inv (Suc n) ht"
  by (auto simp: ht_run_inv_def)

interpretation set_run: bounded_refinement "mesa_set_step dk (\<lambda>n. True)" mesa_set_spec "map_prod id (set_abs dk)" "set_run_inv dk f" "set_allowed dk" "2 ^ 30" for dk f
proof
  fix n st x
  assume r: "set_run_inv dk f n st" and n: "n < 2 ^ 30" and a: "set_allowed dk x"
  obtain as s where st: "st = (as, s)" by fastforce
  obtain ht where s: "sim dk s ht" and ri: "ht_run_inv n ht" and dk: "dk \<noteq> 0" and hh: "ht_hashed f ht" using r by (auto simp: st set_run_inv_def)
  have f: "key_hash_function ht = Some f" and inv: "ht_inv ht" using ri hh by (auto simp: ht_run_inv_def ht_hashed_def)
  note sf = simD(3) [OF s] and abs = set_abs_sim [OF s dk]
  show "\<exists>st'. mesa_set_step dk (\<lambda>n. True) x st = Some st' \<and> set_run_inv dk f (Suc n) st' \<and> map_prod id (set_abs dk) st' = mesa_set_spec x (map_prod id (set_abs dk) st)"
  proof (cases x)
    case (SSearch k)
    then obtain entry where e: "mesa_set_search dk s k = Some entry" "entry_key s entry = snd (ht_abs ht) k" using search_step [OF s dk ri] a by auto
    have "entry \<noteq> None \<longleftrightarrow> snd (ht_abs ht) k \<noteq> None" unfolding e(2) [symmetric] by (simp add: entry_key_def)
    then show ?thesis using e s dk ht_run_inv_mono [OF ri] hh by (auto simp: SSearch st mesa_set_step_def mesa_set_spec_def set_run_inv_def abs)
  next
    case (SAdd k)
    then have k: "\<not> key_pointer_is_reserved dk k" using a by simp
    show ?thesis by (rule add_steps [OF s dk ri n k hh])
      (auto simp: SAdd st mesa_set_step_def mesa_set_spec_def set_run_inv_def abs sf f mesa_set_add_def set_add_def entry_key_def dk set_abs_sim)
  next
    case (SSearchAndAdd k)
    then have k: "\<not> key_pointer_is_reserved dk k" using a by simp
    show ?thesis by (rule add_steps [OF s dk ri n k hh])
      (auto simp: SSearchAndAdd st mesa_set_step_def mesa_set_spec_def set_run_inv_def abs sf f mesa_set_search_and_add_def mesa_set_search_and_add_pre_hashed_def
        set_check_hash_def entry_key_def dk set_abs_sim)
  next
    case (SSearchOrAdd k)
    then have k: "\<not> key_pointer_is_reserved dk k" using a by simp
    show ?thesis by (rule add_steps [OF s dk ri n k hh])
      (auto simp: SSearchOrAdd st mesa_set_step_def mesa_set_spec_def set_run_inv_def abs sf f mesa_set_search_or_add_def entry_key_def dk set_abs_sim split: option.splits)
  next
    case (SRemove k)
    then have k: "\<not> key_pointer_is_reserved dk k" using a by simp
    obtain entry where e: "mesa_hash_table_search ht k = Some entry"
      using search_step [OF s dk ri k] mesa_set_search_sim [OF s _ dk k] ri by (auto simp: ht_run_inv_def)
    then have "ht_run_inv (Suc n) (mesa_hash_table_remove entry ht)" "ht_abs (mesa_hash_table_remove entry ht) = ht_spec (HRemove k) (ht_abs ht)"
      using ht_step_remove [OF ri, of k] by (auto simp: ht_step_def mesa_hash_table_remove_key_def)
    moreover have "mesa_set_search dk s k = Some entry" using e mesa_set_search_sim [OF s _ dk k] ri by (simp add: ht_run_inv_def)
    ultimately show ?thesis using remove_sim [OF s dk, of entry] remove_hashed [OF inv hh e] set_abs_sim [OF remove_sim [OF s dk] dk, of entry] dk
      by (auto simp: SRemove st mesa_set_step_def mesa_set_spec_def set_run_inv_def abs mesa_set_remove_key_def)
  next
    case (SClear del)
    have "ht_run_inv (Suc n) (snd (mesa_hash_table_clear del ht))" "ht_abs (snd (mesa_hash_table_clear del ht)) = ht_spec (HClear del) (ht_abs ht)"
      using ht.step_ok [OF ri n, of "HClear del"] by (auto simp: ht_step_def)
    then show ?thesis using clear_sim [OF s dk, of del] clear_hashed [OF inv hh, of del] set_abs_sim [OF clear_sim [OF s dk] dk, of del] dk
      by (auto simp: SClear st mesa_set_step_def mesa_set_spec_def set_run_inv_def abs)
  next
    case (SResize m)
    then have m: "unat m \<le> 2 ^ 30" using a by simp
    show ?thesis by (rule resize_step [OF s dk ri n m])
      (auto simp: SResize st mesa_set_step_def mesa_set_spec_def set_run_inv_def abs dk set_abs_sim same_map_abs same_map_hashed [OF _ hh])
  qed
qed

section \<open>Runs from an empty set\<close>

definition empty_keys :: "(ptr \<Rightarrow> ptr \<Rightarrow> bool) \<Rightarrow> answers \<times> key_map" where
  "empty_keys eq = ([], eq, \<lambda>k. None)"

lemma set_init:
  assumes "equivp eq" and "hash_respects f eq" and "dk \<noteq> 0"
  obtains s0 where "mesa_set_init (Some f) eq = Some s0" and "set_run_inv dk f 0 ([], s0)" and "map_prod id (set_abs dk) ([], s0) = empty_keys eq"
proof -
  define s0 where "s0 = the (mesa_set_init (Some f) eq)"
  let ?h0 = "mesa_hash_table_init (Some f) eq"
  have s0: "mesa_set_init (Some f) eq = Some s0" by (simp add: s0_def mesa_set_init_def set_set_sizes_def hash_sizes_def)
  have fn: "key_hash_function ?h0 = Some f" "key_equals_function ?h0 = eq" "entries ?h0 = 0" "deleted_entries ?h0 = 0"
    by (simp_all add: mesa_hash_table_init_def set_sizes_def split: prod.splits)
  have i: "ht_run_inv 0 ?h0" "ht_hashed f ?h0"
    using fn assms(2) hash_table_init_inv [OF assms(1)] by (auto simp: ht_run_inv_def ht_loaded_def ht_hashed_def)
  have "sim dk s0 ?h0" using zero_entry_sim [OF assms(3)]
    by (simp add: s0_def mesa_set_init_def set_set_sizes_def hash_sizes_def mesa_hash_table_init_def set_sizes_def sim_def replicate_sim)
  then show thesis
    using that [OF s0] i fn assms(3) set_abs_sim [of dk s0 ?h0] hash_table_init_inv(2) [OF assms(1)]
    by (auto simp: set_run_inv_def ht_abs_def empty_keys_def)
qed

lemma set_run_from_init:
  assumes "equivp eq" and "hash_respects f eq" and "dk \<noteq> 0" and "mesa_set_init (Some f) eq = Some s0"
    and "length xs \<le> 2 ^ 30" and "list_all (set_allowed dk) xs"
  obtains s where "run_ops (mesa_set_step dk (\<lambda>n. True)) xs ([], s0) = Some (fst (fold mesa_set_spec xs (empty_keys eq)), s)"
    and "set_run_inv dk f (length xs) (fst (fold mesa_set_spec xs (empty_keys eq)), s)" and "set_abs dk s = snd (fold mesa_set_spec xs (empty_keys eq))"
proof -
  have s0: "set_run_inv dk f 0 ([], s0)" "map_prod id (set_abs dk) ([], s0) = empty_keys eq" using set_init [OF assms(1-3)] assms(4) by auto
  obtain st where st: "run_ops (mesa_set_step dk (\<lambda>n. True)) xs ([], s0) = Some st" "set_run_inv dk f (length xs) st"
      "map_prod id (set_abs dk) st = fold mesa_set_spec xs (map_prod id (set_abs dk) ([], s0))"
    using set_run.run_refines_init [OF s0(1) assms(5,6)] by blast
  then show thesis using that [of "snd st"] s0(2) by (cases st) (metis fst_conv id_apply map_prod_simp snd_conv)
qed

text \<open>
  Property C39.  Sets refine maps from keys to the equal keys they hold: from an initialised set, with memory
  available, any run of at most \<open>2 ^ 30\<close> searches, insertions of the three kinds, removals, clears and resizes on keys that are not
  reserved ends without a failed assertion, an access out of bounds or an endless probe; the entries returned hold the keys the specification gives,
  \<open>*found\<close> tells whether an equal key was there, and the final set holds the specified keys.
\<close>
theorem mesa_set_refines_map:
  assumes "equivp eq" and "hash_respects f eq" and "dk \<noteq> 0" and "length xs \<le> 2 ^ 30" and "list_all (set_allowed dk) xs"
  shows "\<exists>s0 answers s. mesa_set_init (Some f) eq = Some s0 \<and> run_ops (mesa_set_step dk (\<lambda>n. True)) xs ([], s0) = Some (answers, s) \<and>
    (answers, set_abs dk s) = fold mesa_set_spec xs ([], eq, \<lambda>k. None)"
proof -
  obtain s0 where s0: "mesa_set_init (Some f) eq = Some s0" using set_init [OF assms(1-3)] by metis
  obtain s where "run_ops (mesa_set_step dk (\<lambda>n. True)) xs ([], s0) = Some (fst (fold mesa_set_spec xs (empty_keys eq)), s)"
      "set_abs dk s = snd (fold mesa_set_spec xs (empty_keys eq))"
    using set_run_from_init [OF assms(1-3) s0 assms(4,5)] by metis
  then show ?thesis using s0 unfolding empty_keys_def by auto
qed

theorem mesa_set_refines_map_witness:
  "\<exists>s0 s. mesa_pointer_set_init = Some s0 \<and>
     run_ops (mesa_set_step 5 (\<lambda>n. True)) [SAdd 64, SSearchOrAdd 64, SRemove 64, SSearchAndAdd 64, SResize 100, SSearch 64] ([], s0) =
       Some ([(Some 64, False), (Some 64, True), (Some 64, False), (Some 64, True)], s)"
proof -
  let ?xs = "[SAdd 64, SSearchOrAdd 64, SRemove 64, SSearchAndAdd 64, SResize 100, SSearch 64]"
  have "(5::ptr) \<noteq> 0" "length ?xs \<le> 2 ^ 30" "list_all (set_allowed 5) ?xs" by (simp_all add: key_pointer_is_reserved_def)
  from mesa_set_refines_map [OF pointer_table_hyps this] show ?thesis
    unfolding mesa_pointer_set_init_def by (auto simp: mesa_set_spec_def ht_spec_def mesa_key_pointer_equal_def)
qed

section \<open>Comparisons\<close>

definition set_member :: "ptr \<Rightarrow> mesa_set \<Rightarrow> ptr \<Rightarrow> bool" where
  "set_member dk s k \<longleftrightarrow> snd (set_abs dk s) k \<noteq> None"

text \<open>What the comparisons need of a set: searches give its members, and these are the keys equal to a key of its entries.\<close>

lemma member_facts:
  assumes r: "set_run_inv dk f n (as, s)" and eqv: "eq = s_equals_function s"
  shows "e \<in> set (set_foreach dk s) \<Longrightarrow> s_hash e = f (s_key e)" and "e \<in> set (set_foreach dk s) \<Longrightarrow> \<not> key_pointer_is_reserved dk (s_key e)"
    and "set_member dk s k \<longleftrightarrow> (\<exists>e \<in> set (set_foreach dk s). eq k (s_key e))"
    and "\<not> key_pointer_is_reserved dk k \<Longrightarrow> \<exists>r. mesa_set_search_pre_hashed dk s (f k) k = Some r \<and> (r \<noteq> None \<longleftrightarrow> set_member dk s k)"
    and "equivp eq" and "hash_respects f eq"
proof -
  obtain ht where s: "sim dk s ht" and ri: "ht_run_inv n ht" and dk: "dk \<noteq> 0" and hh: "ht_hashed f ht" using r by (auto simp: set_run_inv_def)
  have hf: "key_hash_function ht = Some f" and f: "s_hash_function s = Some f" and eq: "key_equals_function ht = eq" and inv: "ht_inv ht"
    using s ri hh eqv by (auto simp: simD ht_run_inv_def ht_hashed_def)
  show E: "equivp eq" and H: "hash_respects f eq" using inv ri hf eq by (auto simp: ht_inv_def ht_run_inv_def)
  have mem: "set_member dk s k \<longleftrightarrow> stored dk s (f k) k \<noteq> None" for k using f by (simp add: set_member_def set_abs_def)
  show hash: "s_hash e = f (s_key e)" if "e \<in> set (set_foreach dk s)" for e
  proof -
    have "stored dk s (s_hash e) (s_key e) \<noteq> None"
      using that equivp_reflp [OF E] eqv by (auto simp: stored_def find_None_iff set_foreach_def)
    then show ?thesis using hh hf unfolding stored_sim [OF s dk] ht_hashed_def by blast
  qed
  show "\<not> key_pointer_is_reserved dk (s_key e)" if "e \<in> set (set_foreach dk s)"
    using that by (simp add: set_foreach_def entry_is_present_def key_pointer_is_reserved_def)
  have "stored dk s (f k) k \<noteq> None \<longleftrightarrow> (\<exists>e \<in> set (set_foreach dk s). s_hash e = f k \<and> eq k (s_key e))"
    using eqv by (auto simp: stored_def find_None_iff set_foreach_def)
  also have "\<dots> \<longleftrightarrow> (\<exists>e \<in> set (set_foreach dk s). eq k (s_key e))" using hash H unfolding hash_respects_def by metis
  finally show "set_member dk s k \<longleftrightarrow> (\<exists>e \<in> set (set_foreach dk s). eq k (s_key e))" unfolding mem .
  show "\<exists>r. mesa_set_search_pre_hashed dk s (f k) k = Some r \<and> (r \<noteq> None \<longleftrightarrow> set_member dk s k)" if nr: "\<not> key_pointer_is_reserved dk k"
  proof -
    obtain entry where e: "mesa_set_search dk s k = Some entry" "entry_key s entry = snd (ht_abs ht) k" by (rule search_step [OF s dk ri nr])
    have "entry \<noteq> None \<longleftrightarrow> set_member dk s k" unfolding set_member_def set_abs_sim [OF s dk] e(2) [symmetric] by (simp add: entry_key_def)
    then show ?thesis using e(1) f by (auto simp: mesa_set_search_def mesa_set_search_pre_hashed_def set_check_hash_def)
  qed
qed

lemma search_loops:
  assumes r: "set_run_inv dk f n (as, b)"
    and es: "\<And>e. e \<in> set es \<Longrightarrow> s_hash e = f (s_key e) \<and> \<not> key_pointer_is_reserved dk (s_key e)"
  shows "search_any dk b es = Some (\<exists>e \<in> set es. set_member dk b (s_key e))" and "search_all dk b es = Some (\<forall>e \<in> set es. set_member dk b (s_key e))"
proof -
  have s: "\<exists>r. mesa_set_search_pre_hashed dk b (s_hash e) (s_key e) = Some r \<and> (r \<noteq> None \<longleftrightarrow> set_member dk b (s_key e))" if "e \<in> set es" for e
    using member_facts(4) [OF r refl, of "s_key e"] es [OF that] by simp
  show "search_any dk b es = Some (\<exists>e \<in> set es. set_member dk b (s_key e))"
    using s by (induction es) fastforce+
  show "search_all dk b es = Some (\<forall>e \<in> set es. set_member dk b (s_key e))"
    using s by (induction es) fastforce+
qed

text \<open>A set has at most as many entries as one that has its members.\<close>

lemma separated:
  assumes "equivp eq" and "sorted_wrt (\<lambda>a b. \<not> eq a b) ks"
  shows "distinct ks" and "a \<in> set ks \<Longrightarrow> b \<in> set ks \<Longrightarrow> eq a b \<Longrightarrow> a = b"
  using assms(2) equivp_reflp [OF assms(1)] equivp_symp [OF assms(1)] by (induction ks) auto

lemma separated_length:
  assumes "equivp eq" and "sorted_wrt (\<lambda>a b. \<not> eq a b) ks" and "\<forall>a \<in> set ks. \<exists>b \<in> set ls. eq a b"
  shows "length ks \<le> length ls"
proof -
  obtain g where g: "\<And>a. a \<in> set ks \<Longrightarrow> g a \<in> set ls \<and> eq a (g a)" using assms(3) by metis
  have "inj_on g (set ks)"
    using g separated(2) [OF assms(1,2)] equivp_symp [OF assms(1)] equivp_transp [OF assms(1)] by (intro inj_onI) metis
  then have "card (set ks) \<le> card (set ls)" using g by (intro card_inj_on_le [of g]) auto
  also have "\<dots> \<le> length ls" by (rule card_length)
  finally show ?thesis using distinct_card [OF separated(1) [OF assms(1,2)]] by simp
qed

lemma foreach_keys:
  assumes r: "set_run_inv dk f n (as, s)"
  shows "unat (s_entries s) = length (map s_key (set_foreach dk s))" and "sorted_wrt (\<lambda>a b. \<not> s_equals_function s a b) (map s_key (set_foreach dk s))"
proof -
  obtain ht where s: "sim dk s ht" and inv: "ht_inv ht" using r by (auto simp: set_run_inv_def ht_run_inv_def)
  note l2 = foreach_sim [OF s]
  have l: "length (set_foreach dk s) = length (foreach ht)" using l2 by (rule list_all2_lengthD)
  show "unat (s_entries s) = length (map s_key (set_foreach dk s))" using inv l simD(7) [OF s] by (simp add: ht_inv_def foreach_def)
  have "\<not> s_equals_function s (s_key (set_foreach dk s ! i)) (s_key (set_foreach dk s ! j))" if ij: "i < j" "j < length (set_foreach dk s)" for i j
  proof
    assume eq: "s_equals_function s (s_key (set_foreach dk s ! i)) (s_key (set_foreach dk s ! j))"
    have "\<not> same_key (key_equals_function ht) (foreach ht ! i) (foreach ht ! j)"
      using foreach_distinct [OF inv] ij l by (simp add: sorted_wrt_iff_nth_less)
    moreover have e: "e_hash (foreach ht ! m) = s_hash (set_foreach dk s ! m)" "e_key (foreach ht ! m) = s_key (set_foreach dk s ! m)"
      if "m < length (set_foreach dk s)" for m
      using list_all2_nthD [OF l2 that] nth_mem [OF that] by (auto simp: entry_sim_def set_foreach_def)
    moreover have "s_hash (set_foreach dk s ! m) = f (s_key (set_foreach dk s ! m))" if "m < length (set_foreach dk s)" for m
      using member_facts(1) [OF r refl nth_mem [OF that]] .
    moreover have "f (s_key (set_foreach dk s ! i)) = f (s_key (set_foreach dk s ! j))"
      using eq member_facts(6) [OF r refl] by (simp add: hash_respects_def)
    ultimately show False using ij eq simD(4) [OF s] by (simp add: same_key_def)
  qed
  then show "sorted_wrt (\<lambda>a b. \<not> s_equals_function s a b) (map s_key (set_foreach dk s))" by (simp add: sorted_wrt_iff_nth_less)
qed

lemma overlap:
  assumes "equivp eq"
  shows "(\<exists>x \<in> X. \<exists>y \<in> Y. eq x y) \<longleftrightarrow> (\<exists>k. (\<exists>x \<in> X. eq k x) \<and> (\<exists>y \<in> Y. eq k y))"
    and "(\<forall>x \<in> X. \<exists>y \<in> Y. eq x y) \<longleftrightarrow> (\<forall>k. (\<exists>x \<in> X. eq k x) \<longrightarrow> (\<exists>y \<in> Y. eq k y))"
  using equivp_reflp [OF assms] equivp_symp [OF assms] equivp_transp [OF assms] by meson+

lemma set_comparisons:
  assumes a: "set_run_inv dk f n (as, a)" and b: "set_run_inv dk f m (bs, b)"
    and eq: "s_equals_function b = s_equals_function a"
  shows "mesa_set_intersects dk a b = Some (\<exists>k. set_member dk a k \<and> set_member dk b k)"
    and "mesa_set_equal dk a b = Some (\<forall>k. set_member dk a k \<longleftrightarrow> set_member dk b k)"
proof -
  note A = member_facts [OF a refl] and B = member_facts [OF b eq [symmetric]]
  let ?X = "s_key ` set (set_foreach dk a)" and ?Y = "s_key ` set (set_foreach dk b)"
  note refl = equivp_reflp [OF A(5)]
  have ab: "search_any dk b (set_foreach dk a) = Some (\<exists>e \<in> set (set_foreach dk a). set_member dk b (s_key e))"
      "search_all dk b (set_foreach dk a) = Some (\<forall>e \<in> set (set_foreach dk a). set_member dk b (s_key e))"
    using search_loops [OF b, of "set_foreach dk a"] A(1,2) by simp_all
  have ba: "search_any dk a (set_foreach dk b) = Some (\<exists>e \<in> set (set_foreach dk b). set_member dk a (s_key e))"
      "search_all dk a (set_foreach dk b) = Some (\<forall>e \<in> set (set_foreach dk b). set_member dk a (s_key e))"
    using search_loops [OF a, of "set_foreach dk b"] B(1,2) by simp_all
  have any: "(\<exists>e \<in> set (set_foreach dk a). set_member dk b (s_key e)) \<longleftrightarrow> (\<exists>k. set_member dk a k \<and> set_member dk b k)"
      "(\<exists>e \<in> set (set_foreach dk b). set_member dk a (s_key e)) \<longleftrightarrow> (\<exists>k. set_member dk a k \<and> set_member dk b k)"
    using overlap(1) [OF A(5), of ?X ?Y] overlap(1) [OF A(5), of ?Y ?X] unfolding A(3) B(3) by (simp_all add: conj_commute)
  show "mesa_set_intersects dk a b = Some (\<exists>k. set_member dk a k \<and> set_member dk b k)"
    using ab(1) ba(1) any by (simp add: mesa_set_intersects_def)
  have all: "(\<forall>e \<in> set (set_foreach dk a). set_member dk b (s_key e)) \<longleftrightarrow> (\<forall>k. set_member dk a k \<longrightarrow> set_member dk b k)"
      "(\<forall>e \<in> set (set_foreach dk b). set_member dk a (s_key e)) \<longleftrightarrow> (\<forall>k. set_member dk b k \<longrightarrow> set_member dk a k)"
    using overlap(2) [OF A(5), of ?X ?Y] overlap(2) [OF A(5), of ?Y ?X] unfolding A(3) B(3) by simp_all
  have "s_entries a = s_entries b" if "\<forall>k. set_member dk a k \<longleftrightarrow> set_member dk b k"
  proof -
    have "length (map s_key (set_foreach dk a)) \<le> length (map s_key (set_foreach dk b))"
      using that refl foreach_keys(2) [OF a] unfolding A(3) B(3) by (intro separated_length [OF A(5)]) (force, force)
    moreover have "length (map s_key (set_foreach dk b)) \<le> length (map s_key (set_foreach dk a))"
      using that refl foreach_keys(2) [OF b] unfolding A(3) B(3) eq by (intro separated_length [OF A(5)]) (force, force)
    ultimately show ?thesis using foreach_keys(1) [OF a] foreach_keys(1) [OF b] by (simp add: word_unat_eq_iff)
  qed
  then show "mesa_set_equal dk a b = Some (\<forall>k. set_member dk a k \<longleftrightarrow> set_member dk b k)"
    using ab(2) ba(2) all by (auto simp: mesa_set_equal_def)
qed

lemma set_spec_eq: "fst (snd (fold mesa_set_spec xs st)) = fst (snd st)"
proof (induction xs arbitrary: st)
  case (Cons x xs)
  have "fst (snd (mesa_set_spec x st)) = fst (snd st)" by (auto simp: mesa_set_spec_def ht_spec_def split: prod.splits mesa_set_op.splits option.splits)
  then show ?case using Cons by simp
qed simp

text \<open>
  Property C40.  \<open>_mesa_set_intersects\<close> and \<open>_mesa_set_equal\<close> on two sets built by runs of operations from the same
  hash function and equality: they return, without a failed assertion, whether some key is in both and whether the same
  keys are in both, as the specified contents tell; in particular sets with the same keys have the same number of entries.
\<close>
theorem mesa_set_comparisons_correct:
  assumes "equivp eq" and "hash_respects f eq" and "dk \<noteq> 0" and "mesa_set_init (Some f) eq = Some s0"
    and "length xs \<le> 2 ^ 30" and "list_all (set_allowed dk) xs" and "length ys \<le> 2 ^ 30" and "list_all (set_allowed dk) ys"
    and "run_ops (mesa_set_step dk (\<lambda>n. True)) xs ([], s0) = Some (as, a)" and "run_ops (mesa_set_step dk (\<lambda>n. True)) ys ([], s0) = Some (bs, b)"
    and "A = snd (snd (fold mesa_set_spec xs ([], eq, \<lambda>k. None)))" and "B = snd (snd (fold mesa_set_spec ys ([], eq, \<lambda>k. None)))"
  shows "mesa_set_intersects dk a b = Some (\<exists>k. A k \<noteq> None \<and> B k \<noteq> None) \<and> mesa_set_equal dk a b = Some (\<forall>k. A k \<noteq> None \<longleftrightarrow> B k \<noteq> None)"
proof -
  have a: "set_run_inv dk f (length xs) (as, a)" "set_abs dk a = snd (fold mesa_set_spec xs (empty_keys eq))"
    using set_run_from_init [OF assms(1-4) assms(5,6)] assms(9) by auto
  have b: "set_run_inv dk f (length ys) (bs, b)" "set_abs dk b = snd (fold mesa_set_spec ys (empty_keys eq))"
    using set_run_from_init [OF assms(1-4) assms(7,8)] assms(10) by auto
  have "fst (set_abs dk a) = eq" "fst (set_abs dk b) = eq" unfolding a(2) b(2) set_spec_eq by (simp_all add: empty_keys_def)
  then have "s_equals_function b = s_equals_function a" by (simp add: set_abs_def)
  from set_comparisons [OF a(1) b(1) this] show ?thesis
    unfolding set_member_def a(2) b(2) assms(11,12) empty_keys_def by (rule conjI)
qed

theorem mesa_set_comparisons_correct_witness:
  "\<exists>s0 as a bs b. mesa_pointer_set_init = Some s0 \<and> run_ops (mesa_set_step 5 (\<lambda>n. True)) [SAdd 64, SAdd 128] ([], s0) = Some (as, a) \<and>
     run_ops (mesa_set_step 5 (\<lambda>n. True)) [SAdd 128, SAdd 192, SAdd 64, SRemove 192] ([], s0) = Some (bs, b) \<and>
     mesa_set_intersects 5 a b = Some True \<and> mesa_set_equal 5 a b = Some True"
proof -
  let ?xs = "[SAdd 64, SAdd 128]" and ?ys = "[SAdd 128, SAdd 192, SAdd 64, SRemove 192]"
  have h: "(5::ptr) \<noteq> 0" "length ?xs \<le> 2 ^ 30" "length ?ys \<le> 2 ^ 30" and al: "list_all (set_allowed 5) ?xs" "list_all (set_allowed 5) ?ys"
    by (simp_all add: key_pointer_is_reserved_def)
  obtain s0 where s0: "mesa_set_init (Some mesa_hash_pointer) mesa_key_pointer_equal = Some s0" using set_init [OF pointer_table_hyps h(1)] by metis
  obtain a as where a: "run_ops (mesa_set_step 5 (\<lambda>n. True)) ?xs ([], s0) = Some (as, a)" using set_run_from_init [OF pointer_table_hyps h(1) s0 h(2) al(1)] by metis
  obtain b bs where b: "run_ops (mesa_set_step 5 (\<lambda>n. True)) ?ys ([], s0) = Some (bs, b)" using set_run_from_init [OF pointer_table_hyps h(1) s0 h(3) al(2)] by metis
  have "mesa_set_intersects 5 a b = Some True \<and> mesa_set_equal 5 a b = Some True"
    using mesa_set_comparisons_correct [OF pointer_table_hyps h(1) s0 h(2) al(1) h(3) al(2) a b refl refl]
    by (auto simp: mesa_set_spec_def ht_spec_def mesa_key_pointer_equal_def)
  then show ?thesis using s0 a b unfolding mesa_pointer_set_init_def by blast
qed

text \<open>Sets of 32-bit keys satisfy what the two theorems ask of the functions, whatever the hash.\<close>

lemma u32_set_hyps: "equivp key_u32_equals" "hash_respects (key_u32_hash hash_uint) key_u32_equals"
  by (auto simp: key_u32_equals_def key_u32_hash_def hash_respects_def intro!: equivpI reflpI sympI transpI)

section \<open>Iteration\<close>

text \<open>Both iterators give the next present entry; the one that tests the key alone needs a table without deletion marks.\<close>

lemma scan_from_agree: "list_all2 R xs ys \<Longrightarrow> (\<And>x y. R x y \<Longrightarrow> P x = Q y) \<Longrightarrow> scan_from P i xs = scan_from Q i ys"
  by (induction xs ys arbitrary: i rule: list_all2_induct) auto

lemma mesa_set_next_entry_sim: "sim dk s ht \<Longrightarrow> mesa_set_next_entry dk s entry = mesa_hash_table_next_entry ht entry"
  unfolding mesa_set_next_entry_def mesa_hash_table_next_entry_def Let_def
  by (rule scan_from_agree [of "entry_sim dk"]) (auto simp: sim_def entry_sim_def intro: list_all2_dropI)

lemma mesa_set_next_entry_unsafe_eq:
  assumes "\<forall>e \<in> set (s_table s). s_key e \<noteq> dk" and "s_deleted_entries s = 0" and "s_entries s \<noteq> 0"
  shows "mesa_set_next_entry_unsafe s entry = Some (mesa_set_next_entry dk s entry)"
  using assms
proof (induction s entry rule: mesa_set_next_entry_unsafe.induct)
  case (1 s entry)
  let ?i = "iter_start entry"
  show ?case
  proof (cases "?i < length (s_table s)")
    case True
    then have d: "drop ?i (s_table s) = s_table s ! ?i # drop (Suc ?i) (s_table s)" by (simp add: Cons_nth_drop_Suc)
    have p: "entry_is_present dk (s_table s ! ?i) \<longleftrightarrow> s_key (s_table s ! ?i) \<noteq> 0" using 1(2) True by (simp add: entry_is_present_def)
    show ?thesis using 1 True d p
      by (subst mesa_set_next_entry_unsafe.simps) (simp add: Let_def mesa_set_next_entry_def iter_start_def [of "Some _"])
  next
    case False
    then show ?thesis using 1(3,4) by (subst mesa_set_next_entry_unsafe.simps) (simp add: Let_def mesa_set_next_entry_def)
  qed
qed

text \<open>The loop that removes runs its body on every entry once and leaves none.\<close>

lemma scan_split:
  assumes "scan_from p j (drop j xs) = Some i"
  shows "j \<le> i" and "i < length xs" and "p (xs ! i)"
    and "\<exists>pre. drop j xs = pre @ xs ! i # drop (Suc i) xs \<and> take i xs = take j xs @ pre \<and> (\<forall>x \<in> set pre. \<not> p x)"
proof -
  have s: "j \<le> i" "i - j < length (drop j xs)" "p (drop j xs ! (i - j))" "\<forall>m < i - j. \<not> p (drop j xs ! m)"
    using scan_from_spec [where p = p and i = j and es = "drop j xs"] assms by auto
  then show i: "j \<le> i" "i < length xs" "p (xs ! i)" by auto
  let ?pre = "take (i - j) (drop j xs)"
  have "drop j xs = ?pre @ xs ! i # drop (Suc i) xs" using id_take_nth_drop [OF s(2)] i(1,2) by simp
  moreover have "take i xs = take j xs @ ?pre" using i(1) by (metis le_add_diff_inverse take_add)
  moreover have "\<forall>x \<in> set ?pre. \<not> p x" using s(2,4) by (auto simp: in_set_conv_nth)
  ultimately show "\<exists>pre. drop j xs = pre @ xs ! i # drop (Suc i) xs \<and> take i xs = take j xs @ pre \<and> (\<forall>x \<in> set pre. \<not> p x)" by blast
qed

definition wipe :: "ptr \<Rightarrow> set_entry \<Rightarrow> set_entry" where
  "wipe dk e = (if entry_is_present dk e then zero_set_entry else e)"

lemma foreach_remove_spec:
  assumes "dk \<noteq> 0" and "s_deleted_entries s = 0" and "\<forall>e \<in> set (s_table s). s_key e \<noteq> dk"
    and "unat (s_entries s) = length (filter (entry_is_present dk) (drop (iter_start entry) (s_table s)))"
  shows "do { e \<leftarrow> mesa_set_next_entry_unsafe s entry; foreach_remove_from e s } =
    Some (filter (entry_is_present dk) (drop (iter_start entry) (s_table s)),
      s\<lparr>s_table := take (iter_start entry) (s_table s) @ map (wipe dk) (drop (iter_start entry) (s_table s)), s_entries := 0\<rparr>)"
  using assms(2-4)
proof (induction "unat (s_entries s)" arbitrary: s entry)
  case 0
  let ?j = "iter_start entry" and ?t = "s_table s"
  have z: "s_entries s = 0" using 0(1) by (simp add: unat_eq_zero)
  have n: "filter (entry_is_present dk) (drop ?j ?t) = []" using 0(1,4) by simp
  then have "map (wipe dk) (drop ?j ?t) = map (\<lambda>e. e) (drop ?j ?t)" by (intro map_cong) (auto simp: wipe_def filter_empty_conv)
  then have "take ?j ?t @ map (wipe dk) (drop ?j ?t) = ?t" by simp
  then show ?case using n z 0(2) by (simp add: mesa_set_next_entry_unsafe.simps foreach_remove_from.simps)
next
  case (Suc n)
  let ?j = "iter_start entry" and ?t = "s_table s"
  have nz: "s_entries s \<noteq> 0" using Suc(2) by auto
  have nx: "mesa_set_next_entry_unsafe s entry = Some (mesa_set_next_entry dk s entry)" by (rule mesa_set_next_entry_unsafe_eq [OF Suc(4,3) nz])
  have "mesa_set_next_entry dk s entry \<noteq> None"
  proof
    assume "mesa_set_next_entry dk s entry = None"
    then have "\<forall>m < length (drop ?j ?t). \<not> entry_is_present dk (drop ?j ?t ! m)"
      using scan_from_spec [where p = "entry_is_present dk" and i = ?j and es = "drop ?j ?t"] by (simp add: mesa_set_next_entry_def Let_def)
    then have "filter (entry_is_present dk) (drop ?j ?t) = []" by (metis filter_empty_conv in_set_conv_nth)
    then show False using Suc(2,5) by simp
  qed
  then obtain i where "mesa_set_next_entry dk s entry = Some i" by auto
  then have sc: "scan_from (entry_is_present dk) ?j (drop ?j ?t) = Some i" by (simp add: mesa_set_next_entry_def Let_def)
  note i = scan_split(1-3) [OF sc]
  obtain pre where pre: "drop ?j ?t = pre @ ?t ! i # drop (Suc i) ?t" "take i ?t = take ?j ?t @ pre" "\<forall>x \<in> set pre. \<not> entry_is_present dk x"
    using scan_split(4) [OF sc] by blast
  define s' where "s' = s\<lparr>s_table := ?t[i := zero_set_entry], s_entries := s_entries s - 1\<rparr>"
  have f: "filter (entry_is_present dk) (drop ?j ?t) = ?t ! i # filter (entry_is_present dk) (drop (Suc i) ?t)"
    unfolding pre(1) using pre(3) i(3) by (simp add: filter_empty_conv)
  have w: "map (wipe dk) (drop ?j ?t) = pre @ zero_set_entry # map (wipe dk) (drop (Suc i) ?t)"
    unfolding pre(1) using pre(3) i(3) by (auto simp: wipe_def intro!: map_idI)
  have d: "drop (Suc i) (s_table s') = drop (Suc i) ?t" "take (Suc i) (s_table s') = take ?j ?t @ pre @ [zero_set_entry]"
    using i(2) pre(2) by (simp_all add: s'_def take_Suc_conv_app_nth)
  have n': "n = unat (s_entries s')" using Suc(2) nz by (simp add: s'_def unat_minus_one)
  have "do { e \<leftarrow> mesa_set_next_entry_unsafe s' (Some i); foreach_remove_from e s' } =
    Some (filter (entry_is_present dk) (drop (iter_start (Some i)) (s_table s')),
      s'\<lparr>s_table := take (iter_start (Some i)) (s_table s') @ map (wipe dk) (drop (iter_start (Some i)) (s_table s')), s_entries := 0\<rparr>)"
  proof (rule Suc(1) [OF n'])
    show "s_deleted_entries s' = 0" using Suc(3) by (simp add: s'_def)
    show "\<forall>e \<in> set (s_table s'). s_key e \<noteq> dk"
      using Suc(4) assms(1) by (auto simp: s'_def zero_set_entry_def dest: set_update_subset_insert [THEN subsetD])
    show "unat (s_entries s') = length (filter (entry_is_present dk) (drop (iter_start (Some i)) (s_table s')))"
      using n' Suc(2,5) f d(1) by (simp add: iter_start_def)
  qed
  then have "do { e \<leftarrow> mesa_set_next_entry_unsafe s' (Some i); foreach_remove_from e s' } =
    Some (filter (entry_is_present dk) (drop (Suc i) ?t), s\<lparr>s_table := take ?j ?t @ map (wipe dk) (drop ?j ?t), s_entries := 0\<rparr>)"
    unfolding w by (simp add: iter_start_def d) (simp add: s'_def)
  moreover have "s\<lparr>s_table := ?t[i := (?t ! i)\<lparr>s_hash := 0, s_key := 0\<rparr>], s_entries := s_entries s - 1\<rparr> = s'"
    unfolding s'_def zero_set_entry_def by (cases "?t ! i") simp
  ultimately show ?case using nx \<open>mesa_set_next_entry dk s entry = Some i\<close> nz f
    by (simp add: foreach_remove_from.simps [of "Some i"]) (auto split: bind_splits)
qed

lemma set_foreach_remove_all:
  assumes r: "set_run_inv dk f n (as, s)" and d: "s_deleted_entries s = 0"
  shows "set_foreach_remove s = Some (set_foreach dk s, s\<lparr>s_table := map (wipe dk) (s_table s), s_entries := 0\<rparr>)"
proof -
  obtain ht where s: "sim dk s ht" and inv: "ht_inv ht" and dk: "dk \<noteq> 0" using r by (auto simp: set_run_inv_def ht_run_inv_def)
  have un: "\<not> (\<not> e_present e \<and> e_deleted e)" if "e \<in> set (ht_table ht)" for e
    using that inv d simD(8) [OF s] by (auto simp: ht_inv_def filter_empty_conv)
  have "\<forall>e \<in> set (s_table s). s_key e \<noteq> dk"
  proof
    fix e
    assume "e \<in> set (s_table s)"
    then obtain i where i: "i < length (ht_table ht)" "e = s_table s ! i" using simD(1) [OF s] by (auto simp: in_set_conv_nth)
    then show "s_key e \<noteq> dk" using simD(2) [OF s i(1)] un [OF nth_mem [OF i(1)]]
      by (auto simp: entry_sim_def entry_is_present_def entry_is_deleted_def)
  qed
  then show ?thesis using foreach_remove_spec [OF dk d, of None] foreach_keys(1) [OF r]
    by (simp add: set_foreach_remove_def iter_start_def set_foreach_def)
qed

section \<open>Limits\<close>

text \<open>A set grown to more than \<open>2 ^ 31\<close> entries has no size: the loop of \<open>resize\<close> leaves the table of sizes.\<close>

lemma mesa_set_resize_too_large: "2 ^ 31 < unat n \<Longrightarrow> mesa_set_resize dk alloc n s = None"
proof -
  assume n: "2 ^ 31 < unat n"
  define p where "p = (if s_entries s > n then s_entries s else n)"
  have "n \<le> p" by (auto simp: p_def)
  then have p: "2 ^ 31 < unat p" using n by (simp add: word_le_nat_alt)
  have "list_all (\<lambda>e. unat (fst e) \<le> 2 ^ 31) hash_sizes" by (simp add: hash_sizes_def)
  then have "fst (hash_sizes ! i) < p" if "i < length hash_sizes" for i
    using that p by (fastforce simp: list_all_length word_less_nat_alt)
  then have "find (\<lambda>i. \<not> fst (hash_sizes ! i) < p) [0..<length hash_sizes] = None" by (simp add: find_None_iff)
  then show ?thesis by (simp add: mesa_set_resize_def p_def [symmetric])
qed

text \<open>
  Without memory a set keeps filling beyond \<open>max_entries\<close>; once \<open>max_entries\<close> of its entries have been removed, the next
  insertion takes the marks to be all the table holds and clears it with the entries that were left.
\<close>

lemma mesa_set_loses_entries:
  "case run_ops (mesa_set_step 5 (\<lambda>n. False)) (map SAdd [64, 128, 192, 256, 320, 384, 448, 512, 576, 640, 704, 768, 832, 896, 960, 1024, 1088] @
      map SRemove [64, 128, 192, 256, 320, 384, 448, 512, 576, 640, 704, 768, 832, 896, 960, 1024] @ [SSearch 1088, SAdd 1280, SSearch 1088])
      ([], the mesa_pointer_set_init) of
     None \<Rightarrow> False
   | Some (as, s) \<Rightarrow> drop 17 as = [(Some 1088, True), (Some 1280, False), (None, False)]"
  by code_simp

end
