(* ===== verification/Spec2Isabelle.thy ===== *)
theory Spec2Isabelle
  imports Vma Kbase_Sync Kbase_Queue Kbase_Props Kbase_Bo Pan_Tiling Panvk_Submit Blob Idalloc Hash_Table Nir_Idiv Nir_Lca Nir_Parallel_Copy Nir_Liveness Mesa_Set
begin

text \<open>
  A verification library for a fork of Mesa whose Panfrost/PanVK drivers run on the kbase kernel
  driver of Mali GPUs.

  \<^bold>\<open>The program.\<close>  Mesa is a set of user-space GPU drivers over shared compilers and utilities.
  The fork adds a backend for the vendor's kernel driver (\<open>src/src/panfrost/lib/kmod/kbase_kmod.c\<close>):
  it opens the device and reads its properties, allocates GPU memory, emulates the DRM
  synchronisation objects that the drivers expect, and turns submissions into chains of kernel
  ``atoms'' that an event thread retires.  PanVK's queue
  (\<open>src/src/panfrost/vulkan/jm/panvk_vX_gpu_queue.c\<close>) builds such submissions from command buffers
  and signals semaphores, fences and events when they complete.  Below them lie the utilities of
  \<open>src/src/util\<close>: the allocator of GPU virtual addresses, the id allocator, the hash table, the
  serialisation blobs of the shader caches, and division by constants, which the NIR compiler
  uses to replace integer divisions in shaders.

  \<^bold>\<open>The theories and the code they model.\<close>  Structs are records, enums are datatypes, fixed-width
  integers are words wherever wrap-around can matter, a failed assertion and a loop that does not
  end are the value \<open>None\<close>, and code outside the repository (the kernel, the C library's
  allocator, \<open>rand\<close>) is a parameter of the definitions.

  \<^item> \<open>Mesa_Prelude\<close>: the C integer types, \<open>c_assert\<close>, lemmas on words, alignment and byte
    serialisation; the interfaces \<open>invariant_machine\<close> (a step relation with an inductive
    invariant) and \<open>bounded_refinement\<close> (a container that implements an abstract value for runs up
    to a limit), which the components interpret.
  \<^item> \<open>Vma\<close>: \<open>src/src/util/vma.c\<close>, the heap of address ranges as a list of holes from high to low.
    Allocation and free against the set of free addresses, well-formedness and \<open>validate\<close>, round
    trip, allocation at a fixed address, safety of a client of the interface \<open>va_allocator\<close>; the
    \<open>nospan\<close> mode keeps the heap valid, but can return a spanning range and fail an assertion.
  \<^item> \<open>Kbase_Sync\<close>: the process-wide table of emulated sync objects (\<open>ks_*\<close> in \<open>kbase_kmod.c\<close>) as a
    state machine over handles, fence files and waiting.  The table refines a map from handles to
    states, descriptors are never leaked or closed twice, a wait ends by its deadline and reports
    the right objects; \<open>ks_transfer\<close> loses a pending fence.
  \<^item> \<open>Kbase_Queue\<close>: \<open>pan_kmod_kbase_submit_async\<close>, the event thread and the waits as interleaved
    steps of threads.  Atom numbers and pending counts are consistent in every reachable state,
    waiting for a sequence number returns only after the submissions up to it have completed,
    except those of calls still asleep, and refused submissions give back what they took; the
    array of open submissions can overflow.
  \<^item> \<open>Kbase_Props\<close>: the property stream of the kernel and the device properties derived from it.
  \<^item> \<open>Kbase_Bo\<close>: buffer objects (\<open>pan_kmod.c\<close>, \<open>pan_kmod.h\<close>, \<open>kbase_kmod.c\<close>): the handle table,
    reference counts, allocation, import, cache maintenance and the address space.  The clients
    are threads whose calls interleave; allocations, which the code does not lock, are taken not
    to overlap, and what happens when they do is shown.
  \<^item> \<open>Pan_Tiling\<close>: \<open>src/src/panfrost/shared/pan_tiling.c\<close>, access to u-interleaved tiled images.
    For uncompressed formats the split into edges and full tiles touches each pixel once at the
    offset of the layout, which is specified without the code's tables, and store followed by
    load is the identity; two defects of the stencil and the compressed paths are proved.
  \<^item> \<open>Panvk_Submit\<close>: the kbase paths of the PanVK queue: chains of atoms, completion, events.  No
    signal is lost when a submission returns, and completion may come before or after its end.
  \<^item> \<open>Blob\<close>: \<open>src/src/util/blob.c\<close>, writing and reading serialised data with overrun checks; string
    sizes are C \<open>int\<close>s, so the statements are about strings and buffers below 2 GiB.
  \<^item> \<open>Idalloc\<close>: \<open>src/src/util/u_idalloc.c\<close>, bitmap allocators of ids, dense, sparse and locked.
  \<^item> \<open>Fast_Urem\<close>, \<open>Table_Primes\<close>, \<open>Open_Addressing\<close>, \<open>Hash_Table\<close>: \<open>src/src/util/hash_table.c\<close> and
    \<open>fast_urem_by_const.h\<close>.  The remainder by a precomputed reciprocal, primality of the table
    sizes (so that double hashing visits every slot), the probing loop, and the table as a
    refinement of a map for runs of up to \<open>2 ^ 30\<close> operations.
  \<^item> \<open>Fast_Idiv\<close>, \<open>Fast_Sdiv\<close>: \<open>src/src/util/fast_idiv_by_const.c\<close>, division by a constant through a
    multiplication.  The loops that find the multiplier end, the assertions hold, and applying the
    result gives the quotient, for 32-bit unsigned numerators and for signed numerators of any
    width up to 64.
  \<^item> \<open>Nir_Idiv\<close>: \<open>src/src/compiler/nir/nir_opt_idiv_const.c\<close>, the compiler pass built on them, on a
    deep embedding of the instructions it emits: every division by a constant keeps its value but
    one, \<open>idiv\<close> of the most negative value by \<open>-1\<close>.
  \<^item> \<open>Nir_Cfg\<close>, \<open>Nir_Dominance\<close>, \<open>Nir_Dom_Tree\<close>: \<open>src/src/compiler/nir/nir_dominance.c\<close>, the dominance
    analysis of the compiler.  The graph is the list of the predecessors of each block; dominance
    is defined by paths.  The iteration ends for every graph whose blocks are numbered so that
    each reachable block has a reachable predecessor before it, the immediate dominators,
    frontiers and children are right, and comparing the depth-first numbers decides dominance.
  \<^item> \<open>Rmq\<close>: \<open>src/src/util/range_minimum_query.c\<close>, range minimum queries by a sparse table.
  \<^item> \<open>Nir_Lca\<close>: \<open>src/src/compiler/nir/nir_dominance_lca.c\<close>, lowest common dominators by an Euler tour
    of the dominator tree and range minimum queries on it; the loop keeps its stack in the unused
    rows of the table, and the theorem composes it with the two components above.
  \<^item> \<open>U_Worklist\<close>: \<open>src/src/util/u_worklist.c\<close>, a queue of unique entries as a ring buffer with a bit set.
    The locale \<open>unique_deque\<close> has what its clients rely on; every run of operations agrees with a
    list without duplicates.
  \<^item> \<open>Sparse_Bitset\<close>: \<open>src/src/util/sparse_bitset.h\<close>, sets of numbers as trees of bit arrays.  The
    locale \<open>bit_sets\<close> has what its clients rely on; runs of operations agree with sets, the loop
    over the members ends and is sorted, and comparing two sets sees nodes without members.
  \<^item> \<open>Nir_Liveness\<close>: \<open>src/src/compiler/nir/nir_liveness.c\<close>, on the two components above.  Liveness is
    defined by paths, as an inductive predicate on the points of the blocks; the analysis ends with
    exactly these sets, the test for interference is safe and exact up to phis, and the query at
    a cursor leaves out the condition of a following \<open>if\<close>.
  \<^item> \<open>Nir_Parallel_Copy\<close>: \<open>resolve_parallel_copy\<close> of \<open>src/src/compiler/nir/nir_from_ssa.c\<close>.  The loops end,
    and the moves they emit have the effect of the parallel copy, whatever the cycles.
  \<^item> \<open>Mesa_Set\<close>: \<open>src/src/util/set.c\<close> and \<open>set.h\<close>, sets with the probing of the hash table but
    entries whose state is told by the key.  A simulation relates each operation to the one of \<open>Hash_Table\<close>,
    so that its invariant is used and not proved again; runs of operations agree with a map from
    keys to the equal keys held, answers included, the comparisons of two sets are exact, and
    the loop that removes visits every entry.

  \<^bold>\<open>Bounds and fuel.\<close>  Loops are structural or carry a termination measure.  The probing loop
  of the hash table, which the code does not bound, is a partial function that is proved to
  return; a wait on sync objects takes the list of its wake-ups, and it is proved to end once one
  of them is past the deadline; the integer square root of the tiled copies tries the 256
  candidates that can occur.  The limits in the
  statements are those of the code: \<open>2 ^ 30\<close> operations for the hash table, because with more
  entries its last size overflows the 32-bit slot address, \<open>2 ^ 31\<close> entries for the worklist, whose
  positions are added in 32 bits, and so \<open>2 ^ 31\<close> blocks for liveness, 253 atoms per submission, 256 atom
  numbers, 64-bit addresses.

  \<^bold>\<open>Not modelled.\<close>  The OpenGL, EGL and window-system front ends, the other drivers (RADV,
  RadeonSI, zink, llvmpipe and the rest), the compilers apart from the pieces above, shader
  and descriptor packing generated from XML, the Gallium auxiliary modules, the CSF queue of
  PanVK and the DRM backends of kmod: each is a program of its own and is independent of the
  kbase stack modelled here.  Within the components, performance counters, tracing, debug printing
  and the vendored xxhash are left out.
\<close>

end
